(* ===== verification/Prelude.thy ===== *)
theory Prelude
  imports Main "HOL-Library.Word"
begin

text \<open>
  Shared vocabulary of the TextOS development: the C integer types as words, the ways a
  kernel routine can stop (a failed ASSERTK, a PANIC, an access outside the memory it owns),
  the collections of facts the components fill, and the generic lemmas on words, lists and
  modular indices that the component proofs use.
\<close>

unbundle bit_operations_syntax

section \<open>C types\<close>

type_synonym u8 = "8 word"
type_synonym u16 = "16 word"
type_synonym u32 = "32 word"
type_synonym u64 = "64 word"
type_synonym size_t = "64 word"
type_synonym bytes = "u8 list"

section \<open>Ways a routine stops\<close>

text \<open>
  \<open>AssertFail\<close> is a failed ASSERTK, \<open>Panic\<close> a PANIC, \<open>BadAccess\<close> a read or a write through a
  null pointer, past the end of an array or through a pointer to an object of another type,
  \<open>Hang\<close> a loop that does not return.
\<close>

datatype fault = AssertFail | Panic | BadAccess | Hang

type_synonym 'a result = "fault + 'a"

definition bind_result :: "'a result \<Rightarrow> ('a \<Rightarrow> 'b result) \<Rightarrow> 'b result" where
  "bind_result m f = (case m of Inl e \<Rightarrow> Inl e | Inr a \<Rightarrow> f a)"

lemma bind_result_simps [simp]:
  "bind_result (Inl e) f = Inl e"
  "bind_result (Inr a) f = f a"
  by (simp_all add: bind_result_def)

lemma bind_result_eq_Inr:
  "bind_result m f = Inr b \<longleftrightarrow> (\<exists>a. m = Inr a \<and> f a = Inr b)"
  by (simp add: bind_result_def split: sum.split)

text \<open>A routine with a loop that may not return gives \<open>None\<close> then; \<open>run\<close> makes that a fault of the caller.\<close>

definition run :: "'a result option \<Rightarrow> 'a result" where
  "run m = (case m of None \<Rightarrow> Inl Hang | Some r \<Rightarrow> r)"

lemma run_simps [simp]: "run None = Inl Hang" "run (Some r) = r"
  by (simp_all add: run_def)

section \<open>Error numbers\<close>

definition EPERM :: int where "EPERM = 1"
definition ESRCH :: int where "ESRCH = 3"
definition ECHILD :: int where "ECHILD = 10"
definition EACCES :: int where "EACCES = 13"
definition EFAULT :: int where "EFAULT = 14"
definition EINVAL :: int where "EINVAL = 22"

lemmas errno_defs = EPERM_def ESRCH_def ECHILD_def EACCES_def EFAULT_def EINVAL_def

section \<open>Collections\<close>

named_theorems word_nat \<open>reading word arithmetic through unat\<close>
named_theorems list_upd \<open>lists updated by index\<close>

section \<open>Words\<close>

lemma unat_add_1_less [word_nat]:
  fixes a :: "'a::len word"
  assumes "unat a + 1 < 2 ^ LENGTH('a)"
  shows "unat (a + 1) = unat a + 1"
  using assms by (simp add: unat_word_ariths)

lemma unat_add_nowrap [word_nat]:
  fixes a b :: "'a::len word"
  assumes "unat a + unat b < 2 ^ LENGTH('a)"
  shows "unat (a + b) = unat a + unat b"
  using assms by (simp add: unat_word_ariths)

lemma unat_of_nat_small [word_nat]:
  "n < 2 ^ LENGTH('a) \<Longrightarrow> unat (of_nat n :: 'a::len word) = n"
  by (simp add: unat_of_nat)

lemma unat_lt: "unat (a :: 'a::len word) < 2 ^ LENGTH('a)"
  by (rule unsigned_less)

lemma unat_min: "unat (min a b) = min (unat a) (unat (b :: 'a::len word))"
  by (simp add: min_def word_le_nat_alt)

lemma unat_neg_word:
  fixes a :: "'a::len word"
  assumes "a \<noteq> 0"
  shows "unat (- a) = 2 ^ LENGTH('a) - unat a"
  using unat_sub_if_size [of 0 a] assms by (simp add: word_size unat_eq_0)

text \<open>
  A free running counter indexes a buffer of \<open>n\<close> cells modulo \<open>n\<close>. When \<open>n\<close> divides the number
  of values of the counter, the index survives the wrap-around of the counter.
\<close>

lemma unat_add_mod_dvd:
  fixes a :: "'a::len word"
  assumes "n dvd 2 ^ LENGTH('a)"
  shows "unat (a + of_nat k) mod n = (unat a + k) mod n"
proof -
  have "unat (a + of_nat k) = (unat a + k mod 2 ^ LENGTH('a)) mod 2 ^ LENGTH('a)"
    by (simp add: unat_word_ariths unat_of_nat)
  then have "unat (a + of_nat k) = (unat a + k) mod 2 ^ LENGTH('a)"
    by (simp add: mod_add_right_eq)
  then show ?thesis
    using assms by (simp add: mod_mod_cancel)
qed

section \<open>Lists\<close>

lemma take_Suc_nth [list_upd]: "i < length xs \<Longrightarrow> take (Suc i) xs = take i xs @ [xs ! i]"
  by (rule take_Suc_conv_app_nth)

lemma mod_add_inj:
  fixes h i j n :: nat
  assumes "i < n" "j < n" "(h + i) mod n = (h + j) mod n"
  shows "i = j"
proof -
  have "(int h + int i) mod int n = (int h + int j) mod int n"
    using assms(3) by (metis of_nat_add zmod_int)
  then have "int n dvd (int h + int i) - (int h + int j)"
    by (simp add: mod_eq_dvd_iff)
  then have d: "int n dvd int i - int j" by simp
  have "\<bar>int i - int j\<bar> < int n" using assms(1,2) by linarith
  then have "int i - int j = 0"
    using d dvd_imp_le_int [of "int i - int j" "int n"] by linarith
  then show ?thesis by simp
qed

lemma mod_wrap:
  fixes x n :: int
  assumes "0 \<le> x" "x < 2 * n"
  shows "x mod n = (if x < n then x else x - n)"
proof (cases "x < n")
  case True
  with assms show ?thesis by simp
next
  case False
  with assms have "(x - n) mod n = x - n" by (intro mod_pos_pos_trivial) auto
  with False show ?thesis by simp
qed

lemma div_mod_unique:
  fixes i j n :: nat
  shows "j = i \<longleftrightarrow> j div n = i div n \<and> j mod n = i mod n"
  by (metis div_mult_mod_eq)

text \<open>The cells of a cyclic buffer from index \<open>h\<close> on.\<close>

definition cyc :: "'a list \<Rightarrow> nat \<Rightarrow> nat \<Rightarrow> 'a list" where
  "cyc xs h k = map (\<lambda>i. xs ! ((h + i) mod length xs)) [0..<k]"

lemma length_cyc [simp]: "length (cyc xs h k) = k"
  by (simp add: cyc_def)

lemma nth_cyc [simp]: "i < k \<Longrightarrow> cyc xs h k ! i = xs ! ((h + i) mod length xs)"
  by (simp add: cyc_def)

lemma cyc_0 [simp]: "cyc xs h 0 = []"
  by (simp add: cyc_def)

lemma cyc_mod: "cyc xs (h mod length xs) k = cyc xs h k"
  by (simp add: cyc_def mod_add_left_eq)

lemma cyc_cong_mod: "h mod length xs = h' mod length xs \<Longrightarrow> cyc xs h k = cyc xs h' k"
  by (metis cyc_mod)

lemma cyc_Suc_front: "cyc xs h (Suc k) = xs ! (h mod length xs) # cyc xs (Suc h) k"
  by (rule nth_equalityI) (auto simp: nth_Cons split: nat.split)

lemma cyc_take: "j \<le> k \<Longrightarrow> take j (cyc xs h k) = cyc xs h j"
  by (rule nth_equalityI) auto

lemma cyc_drop: "j \<le> k \<Longrightarrow> drop j (cyc xs h k) = cyc xs (h + j) (k - j)"
  by (rule nth_equalityI) (auto simp: add.assoc)

text \<open>Writing the cell after the last one appends, as long as the buffer has a free cell.\<close>

lemma cyc_update_snoc:
  assumes "k < length xs"
  shows "cyc (xs[(h + k) mod length xs := x]) h (Suc k) = cyc xs h k @ [x]"
proof (rule nth_equalityI)
  fix i assume i: "i < length (cyc (xs[(h + k) mod length xs := x]) h (Suc k))"
  show "cyc (xs[(h + k) mod length xs := x]) h (Suc k) ! i = (cyc xs h k @ [x]) ! i"
  proof (cases "i = k")
    case True
    have "(h + k) mod length xs < length xs"
      using assms by (intro mod_less_divisor) linarith
    with True show ?thesis by (simp add: nth_append)
  next
    case False
    with i have "i < k" by simp
    then have "(h + i) mod length xs \<noteq> (h + k) mod length xs"
      using assms mod_add_inj [of i "length xs" k h] by auto
    with \<open>i < k\<close> show ?thesis by (simp add: nth_append)
  qed
qed simp

lemma cyc_update_outside:
  assumes "k \<le> d" "d < length xs"
  shows "cyc (xs[(h + d) mod length xs := x]) h k = cyc xs h k"
proof (rule nth_equalityI)
  fix i assume "i < length (cyc (xs[(h + d) mod length xs := x]) h k)"
  then have "i < k" by simp
  then have "(h + i) mod length xs \<noteq> (h + d) mod length xs"
    using assms mod_add_inj [of i "length xs" d h] by auto
  with \<open>i < k\<close> show "cyc (xs[(h + d) mod length xs := x]) h k ! i = cyc xs h k ! i" by simp
qed simp

section \<open>Sequences in chunks\<close>

text \<open>A sequence kept in blocks of \<open>n\<close> elements: reading and overwriting within one block.\<close>

lemma length_concat_chunks: "\<forall>xs\<in>set xss. length xs = n \<Longrightarrow> length (concat xss) = n * length xss"
  by (induction xss) auto

lemma concat_split:
  assumes "\<forall>xs\<in>set xss. length xs = n" "k < length xss"
  shows "concat xss = concat (take k xss) @ xss ! k @ concat (drop (Suc k) xss)" "length (concat (take k xss)) = n * k"
proof -
  have "xss = take k xss @ xss ! k # drop (Suc k) xss" using assms(2) by (rule id_take_nth_drop)
  then show "concat xss = concat (take k xss) @ xss ! k @ concat (drop (Suc k) xss)" by (metis concat.simps(2) concat_append)
  have "length (concat (take k xss)) = n * length (take k xss)"
    by (rule length_concat_chunks) (meson assms(1) in_set_takeD)
  then show "length (concat (take k xss)) = n * k" using assms(2) by simp
qed

lemma chunk_slice:
  assumes "\<forall>xs\<in>set xss. length xs = n" "k < length xss" "b + m \<le> n"
  shows "take m (drop (n * k + b) (concat xss)) = take m (drop b (xss ! k))"
proof -
  have "length (xss ! k) = n" using assms by simp
  then show ?thesis using concat_split [OF assms(1,2)] assms(3) by simp
qed

lemma chunk_update:
  assumes "\<forall>xs\<in>set xss. length xs = n" "k < length xss" "b + length ys \<le> n"
  shows "concat (xss[k := take b (xss ! k) @ ys @ drop (b + length ys) (xss ! k)]) =
    take (n * k + b) (concat xss) @ ys @ drop (n * k + b + length ys) (concat xss)"
proof -
  have l: "length (xss ! k) = n" using assms by simp
  have "concat (xss[k := take b (xss ! k) @ ys @ drop (b + length ys) (xss ! k)]) =
      concat (take k xss) @ (take b (xss ! k) @ ys @ drop (b + length ys) (xss ! k)) @ concat (drop (Suc k) xss)"
    using assms(2) by (simp add: upd_conv_take_nth_drop)
  then show ?thesis using concat_split [OF assms(1,2)] assms(3) l by simp
qed

lemma take_in_two: "n \<le> m \<Longrightarrow> take m (drop a xs) = take n (drop a xs) @ take (m - n) (drop (a + n) xs)"
  by (metis drop_drop le_add_diff_inverse take_add add.commute)

lemma overwrite_in_two:
  assumes "a + length ys + length zs \<le> length xs"
  shows "take (a + length ys) (take a xs @ ys @ drop (a + length ys) xs) @ zs @
      drop (a + length ys + length zs) (take a xs @ ys @ drop (a + length ys) xs) = take a xs @ (ys @ zs) @ drop (a + length (ys @ zs)) xs"
  using assms by (cases ys) (auto simp: min_def ac_simps)

end
