(* ===== verification/Id_Alloc.thy ===== *)
theory Id_Alloc
  imports Prelude
begin

text \<open>
  The contract of an allocator of small numbers: the bitmap hands out temporary kernel pages
  (mm/pvpage.c) and TCP ports (net/socket/tcp.c). \<open>alloc\<close> takes the least free number below a
  limit, \<open>free\<close> gives one back. Along every sequence of requests no number is handed out twice
  while it is in use.
\<close>

datatype areq = Alloc | Free nat

primrec arun ::
  "('s \<Rightarrow> (nat \<times> 's) option) \<Rightarrow> ('s \<Rightarrow> nat \<Rightarrow> 's) \<Rightarrow> areq list \<Rightarrow> nat list \<times> 's \<Rightarrow> nat list \<times> 's"
where
  "arun alloc rel [] p = p"
| "arun alloc rel (r # rs) p =
     (case r of
        Alloc \<Rightarrow>
          (case alloc (snd p) of
             None \<Rightarrow> arun alloc rel rs p
           | Some (i, s') \<Rightarrow> arun alloc rel rs (i # fst p, s'))
      | Free i \<Rightarrow>
          (if i \<in> set (fst p) then arun alloc rel rs (removeAll i (fst p), rel (snd p) i)
           else arun alloc rel rs p))"

locale id_alloc =
  fixes inv :: "'s \<Rightarrow> bool" and limit :: "'s \<Rightarrow> nat" and used :: "'s \<Rightarrow> nat set"
    and alloc :: "'s \<Rightarrow> (nat \<times> 's) option" and rel :: "'s \<Rightarrow> nat \<Rightarrow> 's"
  assumes alloc_None: "inv s \<Longrightarrow> alloc s = None \<longleftrightarrow> {..<limit s} \<subseteq> used s"
    and alloc_Some: "inv s \<Longrightarrow> alloc s = Some (i, s') \<Longrightarrow>
        i < limit s \<and> i \<notin> used s \<and> (\<forall>j<i. j \<in> used s) \<and> inv s' \<and> limit s' = limit s \<and>
        used s' = insert i (used s)"
    and rel_spec: "inv s \<Longrightarrow> i < limit s \<Longrightarrow>
        inv (rel s i) \<and> limit (rel s i) = limit s \<and> used (rel s i) = used s - {i}"
begin

definition owns :: "nat list \<times> 's \<Rightarrow> bool" where
  "owns p \<longleftrightarrow> inv (snd p) \<and> distinct (fst p) \<and> set (fst p) \<subseteq> used (snd p) \<and>
     set (fst p) \<subseteq> {..<limit (snd p)}"

lemma owns_step:
  assumes "owns (held, s)"
  shows "alloc s = Some (i, s') \<Longrightarrow> owns (i # held, s')"
    and "i \<in> set held \<Longrightarrow> owns (removeAll i held, rel s i)"
proof -
  assume "alloc s = Some (i, s')"
  then show "owns (i # held, s')"
    using assms alloc_Some [of s i s'] by (auto simp: owns_def)
next
  assume i: "i \<in> set held"
  then have "i < limit s" using assms by (auto simp: owns_def)
  then show "owns (removeAll i held, rel s i)"
    using assms rel_spec [of s i] by (auto simp: owns_def distinct_removeAll)
qed

lemma arun_owns: "owns p \<Longrightarrow> owns (arun alloc rel rs p)"
proof (induction rs arbitrary: p)
  case Nil
  then show ?case by simp
next
  case (Cons r rs)
  obtain held s where p: "p = (held, s)" by (cases p)
  show ?case
  proof (cases r)
    case Alloc
    show ?thesis
    proof (cases "alloc s")
      case None
      with Alloc p Cons show ?thesis by simp
    next
      case (Some q)
      obtain i s' where q: "q = (i, s')" by (cases q)
      have "owns (i # held, s')" using owns_step(1) Cons.prems Some p q by simp
      with Some q Alloc p Cons.IH show ?thesis by simp
    qed
  next
    case (Free i)
    show ?thesis
    proof (cases "i \<in> set held")
      case True
      then have "owns (removeAll i held, rel s i)" using owns_step(2) Cons.prems p by simp
      with True Free p Cons.IH show ?thesis by simp
    next
      case False
      with Free p Cons show ?thesis by simp
    qed
  qed
qed

lemma arun_distinct:
  assumes "inv s"
  shows "distinct (fst (arun alloc rel rs ([], s)))"
    and "set (fst (arun alloc rel rs ([], s))) \<subseteq> used (snd (arun alloc rel rs ([], s)))"
  using arun_owns [of "([], s)" rs] assms by (auto simp: owns_def)

end

end
