(* ===== verification/Bitmap.thy ===== *)
theory Bitmap
  imports Id_Alloc
begin

text \<open>
  kernel/klib/bitmap.c: a bit per number, eight to a byte. \<open>bsiz\<close> counts bits; the search only
  looks at the bytes that are whole, the tests at any bit below \<open>bsiz\<close>.
\<close>

section \<open>State and operations\<close>

record bitmap =
  bmap :: bytes
  bsiz :: size_t

definition mpembs :: nat where "mpembs = 8"

definition mpfull :: u8 where "mpfull = - 1"

text \<open>
  \<open>bitmap_init\<close>: \<open>mbuf\<close> is what \<open>malloc(siz)\<close> returns for the buffer and \<open>mbmp\<close> what it returns for
  the \<open>bitmap_t\<close>. The \<open>memset\<close> of the code is in the branch where the allocation failed, so it
  writes through the null pointer unless there is nothing to write.
\<close>

definition bitmap_init ::
  "bitmap option \<Rightarrow> bytes option \<Rightarrow> size_t \<Rightarrow> bytes option \<Rightarrow> bitmap option \<Rightarrow> bitmap option result"
where
  "bitmap_init bmp buf siz mbuf mbmp =
     (if siz = 0 \<or> siz = - 1 then Inl AssertFail
      else case (case buf of None \<Rightarrow> mbuf | Some b \<Rightarrow> Some b) of
        None \<Rightarrow> if unat siz div mpembs = 0 then Inr None else Inl BadAccess
      | Some b \<Rightarrow>
          (case (case bmp of None \<Rightarrow> mbmp | Some m \<Rightarrow> Some m) of
             None \<Rightarrow> Inr None
           | Some m \<Rightarrow> Inr (Some (m\<lparr>bmap := b, bsiz := siz\<rparr>))))"

text \<open>\<open>__builtin_ffs\<close> on a byte: one plus the index of the lowest set bit, 0 when there is none.\<close>

definition ffs8 :: "u8 \<Rightarrow> nat" where
  "ffs8 x = (case List.find (bit x) [0..<8] of None \<Rightarrow> 0 | Some i \<Rightarrow> Suc i)"

definition poplow :: "u8 \<Rightarrow> int" where
  "poplow x = int (ffs8 (NOT x)) - 1"

definition SET :: "u8 \<Rightarrow> nat \<Rightarrow> u8" where
  "SET x i = x OR push_bit i 1"

definition CLR :: "u8 \<Rightarrow> nat \<Rightarrow> u8" where
  "CLR x i = x AND NOT (push_bit i 1)"

definition TEST :: "u8 \<Rightarrow> nat \<Rightarrow> u8" where
  "TEST x i = x AND push_bit i 1"

function bitmap_scan :: "bytes \<Rightarrow> nat \<Rightarrow> nat \<Rightarrow> nat result" where
  "bitmap_scan m idx mx =
     (if idx < mx then
        (if idx < length m then
           (if m ! idx = mpfull then bitmap_scan m (Suc idx) mx else Inr idx)
         else Inl BadAccess)
      else Inr idx)"
  by pat_completeness auto
termination
  by (relation "measure (\<lambda>(m, idx, mx). mx - idx)") auto

definition bitmap_find :: "bitmap \<Rightarrow> (size_t \<times> bitmap) result" where
  "bitmap_find b =
     (let mx = unat (bsiz b) div mpembs
      in bind_result (bitmap_scan (bmap b) 0 mx)
           (\<lambda>idx. if idx = mx then Inr (- 1, b)
                  else let low = nat (poplow (bmap b ! idx))
                       in Inr (of_nat (low + mpembs * idx),
                               b\<lparr>bmap := (bmap b)[idx := SET (bmap b ! idx) low]\<rparr>)))"

definition bitmap_exist :: "bitmap \<Rightarrow> size_t \<Rightarrow> bool" where
  "bitmap_exist b i \<longleftrightarrow> bsiz b > i"

text \<open>The access \<open>bmp->map[idx]\<close> of the three bit operations.\<close>

definition bitmap_cell :: "bitmap \<Rightarrow> size_t \<Rightarrow> nat result" where
  "bitmap_cell b i =
     (if \<not> bitmap_exist b i then Inl AssertFail
      else if unat i div mpembs < length (bmap b) then Inr (unat i div mpembs)
      else Inl BadAccess)"

definition bitmap_test :: "bitmap \<Rightarrow> size_t \<Rightarrow> bool result" where
  "bitmap_test b i =
     bind_result (bitmap_cell b i)
       (\<lambda>idx. Inr (TEST (bmap b ! idx) (unat i mod mpembs) \<noteq> 0))"

definition bitmap_set :: "bitmap \<Rightarrow> size_t \<Rightarrow> bitmap result" where
  "bitmap_set b i =
     bind_result (bitmap_cell b i)
       (\<lambda>idx. Inr (b\<lparr>bmap := (bmap b)[idx := SET (bmap b ! idx) (unat i mod mpembs)]\<rparr>))"

definition bitmap_reset :: "bitmap \<Rightarrow> size_t \<Rightarrow> bitmap result" where
  "bitmap_reset b i =
     bind_result (bitmap_cell b i)
       (\<lambda>idx. Inr (b\<lparr>bmap := (bmap b)[idx := CLR (bmap b ! idx) (unat i mod mpembs)]\<rparr>))"

definition bitmap_clear :: "bitmap \<Rightarrow> bitmap result" where
  "bitmap_clear b =
     (let n = unat (bsiz b) div mpembs
      in if n \<le> length (bmap b) then Inr (b\<lparr>bmap := replicate n 0 @ drop n (bmap b)\<rparr>)
         else Inl BadAccess)"

declare bitmap_scan.simps [simp del]

section \<open>Abstraction\<close>

definition bit_at :: "bitmap \<Rightarrow> nat \<Rightarrow> bool" where
  "bit_at b i \<longleftrightarrow> bit (bmap b ! (i div 8)) (i mod 8)"

definition bits :: "bitmap \<Rightarrow> nat set" where
  "bits b = {i. i < unat (bsiz b) \<and> bit_at b i}"

text \<open>The buffer holds a byte for every started group of eight bits.\<close>

definition bitmap_ok :: "bitmap \<Rightarrow> bool" where
  "bitmap_ok b \<longleftrightarrow> (unat (bsiz b) + 7) div 8 \<le> length (bmap b)"

definition bitmap_limit :: "bitmap \<Rightarrow> nat" where
  "bitmap_limit b = 8 * (unat (bsiz b) div 8)"

section \<open>Bytes\<close>

lemma bit_SET: "bit (SET x i) j \<longleftrightarrow> bit x j \<or> (i = j \<and> i < 8)"
  by (auto simp: SET_def bit_simps)

lemma bit_CLR: "bit (CLR x i) j \<longleftrightarrow> bit x j \<and> i \<noteq> j"
  by (auto simp: CLR_def bit_simps dest: bit_imp_le_length)

lemma TEST_nz: "i < 8 \<Longrightarrow> TEST x i \<noteq> 0 \<longleftrightarrow> bit x i"
proof -
  assume i: "i < 8"
  have "bit (TEST x i) i = bit x i" using i by (simp add: TEST_def bit_simps)
  moreover have "bit (TEST x i) j \<Longrightarrow> j = i" for j by (auto simp: TEST_def bit_simps)
  ultimately show ?thesis by (metis bit_eqI bit_0_eq bot_apply bot_bool_def)
qed

lemma not_full_bit: "x \<noteq> mpfull \<Longrightarrow> \<exists>i<8. \<not> bit x i"
  by (auto simp: mpfull_def bit_eq_iff bit_simps)

lemma ffs8_Suc:
  assumes "ffs8 x = Suc i"
  shows "i < 8 \<and> bit x i \<and> (\<forall>j<i. \<not> bit x j)"
  using assms
  by (auto simp: ffs8_def find_Some_iff split: option.splits)

lemma poplow_spec:
  assumes "x \<noteq> mpfull"
  obtains i where "poplow x = int i" "i < 8" "\<not> bit x i" "\<forall>j<i. bit x j"
proof -
  obtain k where k: "k < 8" "\<not> bit x k" using not_full_bit [OF assms] by blast
  then have "bit (NOT x) k" by (simp add: bit_simps)
  with k(1) have "ffs8 (NOT x) \<noteq> 0"
    by (auto simp: ffs8_def find_None_iff split: option.splits)
  then obtain i where i: "ffs8 (NOT x) = Suc i" by (cases "ffs8 (NOT x)") auto
  from ffs8_Suc [OF i] have "i < 8" "\<not> bit x i" "\<forall>j<i. bit x j"
    by (auto simp: bit_simps)
  with i show thesis by (intro that [of i]) (auto simp: poplow_def)
qed

section \<open>Search\<close>

lemma bitmap_scan_spec:
  assumes "mx \<le> length m" "idx \<le> mx"
  shows "\<exists>r. bitmap_scan m idx mx = Inr r \<and> idx \<le> r \<and> r \<le> mx \<and>
     (\<forall>j. idx \<le> j \<and> j < r \<longrightarrow> m ! j = mpfull) \<and> (r < mx \<longrightarrow> m ! r \<noteq> mpfull)"
  using assms
proof (induction m idx mx rule: bitmap_scan.induct)
  case (1 m idx mx)
  show ?case
  proof (cases "idx < mx \<and> m ! idx = mpfull")
    case True
    have "\<exists>r. bitmap_scan m (Suc idx) mx = Inr r \<and> Suc idx \<le> r \<and> r \<le> mx \<and>
        (\<forall>j. Suc idx \<le> j \<and> j < r \<longrightarrow> m ! j = mpfull) \<and> (r < mx \<longrightarrow> m ! r \<noteq> mpfull)"
      using True "1.prems" by (intro "1.IH") auto
    then obtain r where r:
      "bitmap_scan m (Suc idx) mx = Inr r" "Suc idx \<le> r" "r \<le> mx"
      "\<forall>j. Suc idx \<le> j \<and> j < r \<longrightarrow> m ! j = mpfull" "r < mx \<longrightarrow> m ! r \<noteq> mpfull"
      by blast
    have "m ! j = mpfull" if "idx \<le> j" "j < r" for j
      using r(4) True that by (cases "j = idx") auto
    with r True "1.prems" show ?thesis
      by (intro exI [of _ r]) (simp add: bitmap_scan.simps [of m idx mx])
  next
    case False
    with "1.prems" show ?thesis
      by (auto simp: bitmap_scan.simps [of m idx mx])
  qed
qed

lemma bit_at_full: "bmap b ! (i div 8) = mpfull \<Longrightarrow> bit_at b i"
  by (simp add: bit_at_def mpfull_def bit_simps)

lemma bitmap_find_spec:
  assumes ok: "bitmap_ok b"
  shows "(bitmap_find b = Inr (- 1, b) \<and> {..<bitmap_limit b} \<subseteq> bits b) \<or>
     (\<exists>i b'. bitmap_find b = Inr (of_nat i, b') \<and> i < bitmap_limit b \<and> \<not> bit_at b i \<and>
        (\<forall>j<i. bit_at b j) \<and> bsiz b' = bsiz b \<and> length (bmap b') = length (bmap b) \<and>
        (\<forall>j. j div 8 < length (bmap b) \<longrightarrow> bit_at b' j = (j = i \<or> bit_at b j)))"
proof -
  let ?mx = "unat (bsiz b) div 8"
  have mx: "?mx \<le> length (bmap b)" using ok by (auto simp: bitmap_ok_def)
  obtain r where r: "bitmap_scan (bmap b) 0 ?mx = Inr r" "r \<le> ?mx"
      "\<forall>j<r. bmap b ! j = mpfull" "r < ?mx \<longrightarrow> bmap b ! r \<noteq> mpfull"
    using bitmap_scan_spec [OF mx, of 0] by auto
  show ?thesis
  proof (cases "r = ?mx")
    case True
    have "i \<in> bits b" if "i < bitmap_limit b" for i
    proof -
      have "i div 8 < ?mx" using that by (simp add: bitmap_limit_def div_less_iff_less_mult mult.commute)
      then have "bit_at b i" using r(3) True by (simp add: bit_at_full)
      moreover have "i < unat (bsiz b)" using that by (simp add: bitmap_limit_def)
      ultimately show ?thesis by (simp add: bits_def)
    qed
    then show ?thesis using True r(1) by (auto simp: bitmap_find_def mpembs_def)
  next
    case False
    then have rlt: "r < ?mx" using r(2) by simp
    obtain k where k: "poplow (bmap b ! r) = int k" "k < 8" "\<not> bit (bmap b ! r) k"
        "\<forall>j<k. bit (bmap b ! r) j"
      using poplow_spec r(4) rlt by metis
    let ?i = "k + 8 * r"
    let ?b' = "b\<lparr>bmap := (bmap b)[r := SET (bmap b ! r) k]\<rparr>"
    have f: "bitmap_find b = Inr (of_nat ?i, ?b')"
      using False r(1) k(1) by (simp add: bitmap_find_def mpembs_def)
    have "?i < bitmap_limit b" using k(2) rlt by (simp add: bitmap_limit_def)
    moreover have "\<not> bit_at b ?i" using k(2,3) by (simp add: bit_at_def)
    moreover have "bit_at b j" if "j < ?i" for j
    proof (cases "j div 8 < r")
      case True
      then show ?thesis using r(3) by (simp add: bit_at_full)
    next
      case False
      moreover have "j div 8 \<le> ?i div 8" using that by (intro div_le_mono) simp
      ultimately have "j div 8 = r" using k(2) by simp
      moreover from this have "j mod 8 < k" using that div_mult_mod_eq [of j 8] by simp
      ultimately have "j div 8 = r" "j mod 8 < k" by simp_all
      then show ?thesis using k(4) by (simp add: bit_at_def)
    qed
    moreover have "bit_at ?b' j = (j = ?i \<or> bit_at b j)" if "j div 8 < length (bmap b)" for j
    proof -
      have "j = ?i \<longleftrightarrow> j div 8 = r \<and> j mod 8 = k"
        using k(2) div_mod_unique [of j ?i 8] by simp
      with that k(2) show ?thesis by (cases "j div 8 = r") (auto simp: bit_at_def bit_SET)
    qed
    ultimately show ?thesis using f by (intro disjI2 exI [of _ ?i] exI [of _ ?b']) auto
  qed
qed

section \<open>Single bits\<close>

lemma bitmap_cell_ok:
  assumes "bitmap_ok b" "i < bsiz b"
  shows "bitmap_cell b i = Inr (unat i div 8)" "unat i div 8 < length (bmap b)"
proof -
  have "unat i < unat (bsiz b)" using assms(2) by (simp add: word_less_nat_alt)
  then show *: "unat i div 8 < length (bmap b)" using assms(1) by (auto simp: bitmap_ok_def)
  show "bitmap_cell b i = Inr (unat i div 8)"
    using assms(2) * by (simp add: bitmap_cell_def bitmap_exist_def mpembs_def not_less)
qed

lemma bitmap_test_spec:
  "bitmap_ok b \<Longrightarrow> i < bsiz b \<Longrightarrow> bitmap_test b i = Inr (bit_at b (unat i))"
  by (simp add: bitmap_test_def bitmap_cell_ok mpembs_def TEST_nz bit_at_def)

lemma bitmap_set_spec:
  assumes "bitmap_ok b" "i < bsiz b"
  shows "\<exists>b'. bitmap_set b i = Inr b' \<and> bitmap_ok b' \<and> bsiz b' = bsiz b \<and>
     bits b' = insert (unat i) (bits b)"
proof -
  note c = bitmap_cell_ok [OF assms]
  let ?b' = "b\<lparr>bmap := (bmap b)[unat i div 8 := SET (bmap b ! (unat i div 8)) (unat i mod 8)]\<rparr>"
  have "bit_at ?b' j \<longleftrightarrow> j = unat i \<or> bit_at b j" if "j < unat (bsiz b)" for j
  proof -
    have "j = unat i \<longleftrightarrow> j div 8 = unat i div 8 \<and> j mod 8 = unat i mod 8"
      by (rule div_mod_unique)
    with c(2) show ?thesis by (cases "j div 8 = unat i div 8") (auto simp: bit_at_def bit_SET)
  qed
  then have "bits ?b' = insert (unat i) (bits b)"
    using assms(2) by (auto simp: bits_def word_less_nat_alt)
  then show ?thesis using c assms(1) by (simp add: bitmap_set_def mpembs_def bitmap_ok_def)
qed

lemma bitmap_reset_spec:
  assumes "bitmap_ok b" "i < bsiz b"
  shows "\<exists>b'. bitmap_reset b i = Inr b' \<and> bitmap_ok b' \<and> bsiz b' = bsiz b \<and>
     bits b' = bits b - {unat i}"
proof -
  note c = bitmap_cell_ok [OF assms]
  let ?b' = "b\<lparr>bmap := (bmap b)[unat i div 8 := CLR (bmap b ! (unat i div 8)) (unat i mod 8)]\<rparr>"
  have "bit_at ?b' j \<longleftrightarrow> j \<noteq> unat i \<and> bit_at b j" if "j < unat (bsiz b)" for j
  proof -
    have "j = unat i \<longleftrightarrow> j div 8 = unat i div 8 \<and> j mod 8 = unat i mod 8"
      by (rule div_mod_unique)
    with c(2) show ?thesis by (cases "j div 8 = unat i div 8") (auto simp: bit_at_def bit_CLR)
  qed
  then have "bits ?b' = bits b - {unat i}"
    by (auto simp: bits_def)
  then show ?thesis using c assms(1) by (simp add: bitmap_reset_def mpembs_def bitmap_ok_def)
qed

section \<open>The bitmap is an allocator of numbers\<close>

definition bm_alloc :: "bitmap \<Rightarrow> (nat \<times> bitmap) option" where
  "bm_alloc b =
     (case bitmap_find b of
        Inl _ \<Rightarrow> None
      | Inr (i, b') \<Rightarrow> if i = - 1 then None else Some (unat i, b'))"

definition bm_rel :: "bitmap \<Rightarrow> nat \<Rightarrow> bitmap" where
  "bm_rel b i = (case bitmap_reset b (of_nat i) of Inl _ \<Rightarrow> b | Inr b' \<Rightarrow> b')"

lemma bitmap_limit_lt: "i < bitmap_limit b \<Longrightarrow> i < 2 ^ 64 - 1 \<and> of_nat i < bsiz b"
proof -
  assume i: "i < bitmap_limit b"
  have "unat (bsiz b) < 2 ^ 64" using unat_lt [of "bsiz b"] by simp
  moreover have "bitmap_limit b \<le> unat (bsiz b)" by (simp add: bitmap_limit_def)
  ultimately have j: "i < 2 ^ 64 - 1" "i < unat (bsiz b)" using i by linarith+
  then have "unat (of_nat i :: size_t) = i" by (simp add: unat_of_nat_small)
  with j show ?thesis by (simp add: word_less_nat_alt)
qed

lemma bm_alloc_spec:
  assumes ok: "bitmap_ok b"
  shows "(bm_alloc b = None \<and> {..<bitmap_limit b} \<subseteq> bits b) \<or>
     (\<exists>i b'. bm_alloc b = Some (i, b') \<and> i < bitmap_limit b \<and> i \<notin> bits b \<and> (\<forall>j<i. j \<in> bits b) \<and>
        bitmap_ok b' \<and> bsiz b' = bsiz b \<and> bits b' = insert i (bits b))"
  using bitmap_find_spec [OF ok]
proof
  assume "bitmap_find b = Inr (- 1, b) \<and> {..<bitmap_limit b} \<subseteq> bits b"
  then show ?thesis by (simp add: bm_alloc_def)
next
  assume "\<exists>i b'. bitmap_find b = Inr (of_nat i, b') \<and> i < bitmap_limit b \<and> \<not> bit_at b i \<and>
        (\<forall>j<i. bit_at b j) \<and> bsiz b' = bsiz b \<and> length (bmap b') = length (bmap b) \<and>
        (\<forall>j. j div 8 < length (bmap b) \<longrightarrow> bit_at b' j = (j = i \<or> bit_at b j))"
  then obtain i b' where f: "bitmap_find b = Inr (of_nat i, b')" and i: "i < bitmap_limit b"
      and n: "\<not> bit_at b i" and l: "\<forall>j<i. bit_at b j" and s: "bsiz b' = bsiz b"
      and m: "length (bmap b') = length (bmap b)"
      and u: "\<forall>j. j div 8 < length (bmap b) \<longrightarrow> bit_at b' j = (j = i \<or> bit_at b j)"
    by blast
  have i64: "i < 2 ^ 64 - 1" and ib: "of_nat i < bsiz b" using bitmap_limit_lt [OF i] by auto
  have ui: "unat (of_nat i :: size_t) = i" using i64 by (simp add: unat_of_nat_small)
  have "(of_nat i :: size_t) \<noteq> - 1"
  proof
    assume "(of_nat i :: size_t) = - 1"
    then have "unat (of_nat i :: size_t) = unat (- 1 :: size_t)" by simp
    also have "unat (- 1 :: size_t) = 2 ^ 64 - 1" using unat_neg_word [of "1 :: size_t"] by simp
    finally show False using ui i64 by simp
  qed
  then have a: "bm_alloc b = Some (i, b')" using f ui by (simp add: bm_alloc_def)
  have iu: "i < unat (bsiz b)" using ib ui by (simp add: word_less_nat_alt)
  have "j div 8 < length (bmap b)" if "j < unat (bsiz b)" for j
    using that ok by (auto simp: bitmap_ok_def)
  then have "bits b' = insert i (bits b)"
    using u s iu by (auto simp: bits_def)
  moreover have "\<forall>j<i. j \<in> bits b" using l iu by (auto simp: bits_def)
  moreover have "bitmap_ok b'" using ok s m by (simp add: bitmap_ok_def)
  ultimately show ?thesis using a i n s by (auto simp: bits_def)
qed

lemma bm_alloc_SomeD:
  assumes "bitmap_ok b" "bm_alloc b = Some (i, b')"
  shows "i < bitmap_limit b \<and> i \<notin> bits b \<and> (\<forall>j<i. j \<in> bits b) \<and> bitmap_ok b' \<and>
     bsiz b' = bsiz b \<and> bits b' = insert i (bits b)"
  using bm_alloc_spec [OF assms(1)] unfolding assms(2) by (elim disjE) blast+

lemma bm_alloc_None_iff:
  assumes "bitmap_ok b"
  shows "bm_alloc b = None \<longleftrightarrow> {..<bitmap_limit b} \<subseteq> bits b"
proof (cases "bm_alloc b")
  case None
  with bm_alloc_spec [OF assms] show ?thesis by simp
next
  case (Some p)
  obtain i b' where "p = (i, b')" by (cases p)
  with bm_alloc_SomeD [OF assms] Some have "i \<in> {..<bitmap_limit b}" "i \<notin> bits b" by simp_all
  then have "\<not> {..<bitmap_limit b} \<subseteq> bits b" by blast
  with Some show ?thesis by simp
qed

lemma bm_rel_spec:
  assumes "bitmap_ok b" "i < bitmap_limit b"
  shows "bitmap_ok (bm_rel b i) \<and> bitmap_limit (bm_rel b i) = bitmap_limit b \<and>
     bits (bm_rel b i) = bits b - {i}"
proof -
  have "unat (of_nat i :: size_t) = i"
    using bitmap_limit_lt [OF assms(2)] by (simp add: unat_of_nat_small)
  moreover obtain b' where "bitmap_reset b (of_nat i) = Inr b'" "bitmap_ok b'" "bsiz b' = bsiz b"
      "bits b' = bits b - {unat (of_nat i :: size_t)}"
    using bitmap_reset_spec [OF assms(1), of "of_nat i"] bitmap_limit_lt [OF assms(2)] by blast
  ultimately show ?thesis by (simp add: bm_rel_def bitmap_limit_def)
qed

interpretation bm: id_alloc bitmap_ok bitmap_limit bits bm_alloc bm_rel
proof
  show "bm_alloc b = None \<longleftrightarrow> {..<bitmap_limit b} \<subseteq> bits b" if "bitmap_ok b" for b
    by (rule bm_alloc_None_iff [OF that])
  show "i < bitmap_limit b \<and> i \<notin> bits b \<and> (\<forall>j<i. j \<in> bits b) \<and> bitmap_ok b' \<and>
      bitmap_limit b' = bitmap_limit b \<and> bits b' = insert i (bits b)"
    if "bitmap_ok b" "bm_alloc b = Some (i, b')" for b i b'
    using bm_alloc_SomeD [OF that] by (simp add: bitmap_limit_def)
  show "bitmap_ok (bm_rel b i) \<and> bitmap_limit (bm_rel b i) = bitmap_limit b \<and>
      bits (bm_rel b i) = bits b - {i}"
    if "bitmap_ok b" "i < bitmap_limit b" for b i
    by (rule bm_rel_spec [OF that])
qed

section \<open>Properties\<close>

text \<open>
  \<open>bitmap_find\<close> takes the least free number below the part of the map it searches, marks it and
  nothing else, and answers -1, without a change, exactly when every bit of that part is set; it
  never leaves the buffer.
\<close>

theorem bitmap_find_least:
  assumes "bitmap_ok b"
  shows "if {..<bitmap_limit b} \<subseteq> bits b then bitmap_find b = Inr (- 1, b)
     else \<exists>i b'. bitmap_find b = Inr (of_nat i, b') \<and> i < bitmap_limit b \<and> i \<notin> bits b \<and>
        {..<i} \<subseteq> bits b \<and> bits b' = insert i (bits b) \<and> bitmap_ok b' \<and> bsiz b' = bsiz b"
proof (cases "bm_alloc b")
  case None
  then have full: "{..<bitmap_limit b} \<subseteq> bits b" using bm_alloc_None_iff [OF assms] by simp
  from bitmap_find_spec [OF assms] show ?thesis
  proof
    assume "\<exists>i b'. bitmap_find b = Inr (of_nat i, b') \<and> i < bitmap_limit b \<and> \<not> bit_at b i \<and>
        (\<forall>j<i. bit_at b j) \<and> bsiz b' = bsiz b \<and> length (bmap b') = length (bmap b) \<and>
        (\<forall>j. j div 8 < length (bmap b) \<longrightarrow> bit_at b' j = (j = i \<or> bit_at b j))"
    then obtain i where "i < bitmap_limit b" "\<not> bit_at b i" by blast
    with full show ?thesis by (auto simp: bits_def)
  qed (use full in simp)
next
  case (Some p)
  obtain i b' where p: "p = (i, b')" by (cases p)
  note a = bm_alloc_SomeD [OF assms Some [unfolded p]]
  have "\<exists>w. bitmap_find b = Inr (w, b') \<and> unat w = i"
    using Some p by (auto simp: bm_alloc_def split: sum.splits if_splits)
  then have "bitmap_find b = Inr (of_nat i, b')" by auto
  with a show ?thesis by (auto intro!: exI [of _ i] exI [of _ b'])
qed

lemma bitmap_find_least_witness:
  "bitmap_ok \<lparr>bmap = [255, 5], bsiz = 16\<rparr> \<and>
   (\<exists>i b'. bitmap_find \<lparr>bmap = [255, 5], bsiz = 16\<rparr> = Inr (of_nat i, b') \<and> i < 16 \<and>
      bits b' = insert i (bits \<lparr>bmap = [255, 5], bsiz = 16\<rparr>))"
proof -
  let ?b = "\<lparr>bmap = [255, 5], bsiz = 16\<rparr>"
  have ok: "bitmap_ok ?b" "bitmap_limit ?b = 16" by (simp_all add: bitmap_ok_def bitmap_limit_def)
  have "9 \<notin> bits ?b" by (simp add: bits_def bit_at_def)
  then have "\<not> {..<bitmap_limit ?b} \<subseteq> bits ?b" using ok(2) by (intro notI) (auto dest: subsetD [of _ _ 9])
  then show ?thesis using bitmap_find_least [OF ok(1)] ok by auto
qed

text \<open>
  Along every sequence of allocations with \<open>bitmap_find\<close> and releases with \<open>bitmap_reset\<close>, the
  numbers held at the end are distinct and marked: no number is handed out again before it is
  released.
\<close>

theorem bitmap_no_double_allocation:
  assumes "bitmap_ok b" "arun bm_alloc bm_rel reqs ([], b) = (held, b')"
  shows "distinct held \<and> set held \<subseteq> bits b'"
  using bm.arun_distinct [OF assms(1), of reqs] assms(2) by simp

lemma bitmap_no_double_allocation_witness:
  "\<exists>held b'. arun bm_alloc bm_rel [Alloc, Alloc, Free 0, Alloc] ([], \<lparr>bmap = [0], bsiz = 8\<rparr>) = (held, b') \<and>
     distinct held \<and> set held \<subseteq> bits b'"
proof -
  obtain held b' where r: "arun bm_alloc bm_rel [Alloc, Alloc, Free 0, Alloc] ([], \<lparr>bmap = [0], bsiz = 8\<rparr>)
      = (held, b')" by (metis surj_pair)
  have "bitmap_ok \<lparr>bmap = [0], bsiz = 8\<rparr>" by (simp add: bitmap_ok_def)
  from bitmap_no_double_allocation [OF this r] r show ?thesis by blast
qed

end
