(* ===== verification/Klist.thy ===== *)
theory Klist
  imports Prelude
begin

text \<open>
  kernel/klib/list.c: circular doubly linked lists threaded through the nodes. The nodes live in
  a store that gives the \<open>prev\<close> and the \<open>next\<close> field of every address; every operation is the
  sequence of stores of the code, so aliasing between its arguments is part of the model.
  The queues, wait lists and timer lists of the kernel are such lists; the other components
  use the HOL list of the nodes after the head, which \<open>ring\<close> relates to the store.
\<close>

type_synonym node = nat

record links =
  lprev :: "node \<Rightarrow> node"
  lnext :: "node \<Rightarrow> node"

section \<open>Operations\<close>

definition set_prev :: "node \<Rightarrow> node \<Rightarrow> links \<Rightarrow> links" where
  "set_prev a v s = s\<lparr>lprev := (lprev s)(a := v)\<rparr>"

definition set_next :: "node \<Rightarrow> node \<Rightarrow> links \<Rightarrow> links" where
  "set_next a v s = s\<lparr>lnext := (lnext s)(a := v)\<rparr>"

definition list_init :: "links \<Rightarrow> node \<Rightarrow> links" where
  "list_init s list = set_next list list (set_prev list list s)"

definition list_insert_after :: "links \<Rightarrow> node \<Rightarrow> node \<Rightarrow> links" where
  "list_insert_after s list nd =
     (let s1 = set_next nd (lnext s list) s;
          s2 = set_prev (lnext s1 nd) nd s1;
          s3 = set_prev nd list s2
      in set_next list nd s3)"

definition list_insert_before :: "links \<Rightarrow> node \<Rightarrow> node \<Rightarrow> links" where
  "list_insert_before s list nd = list_insert_after s (lprev s list) nd"

definition list_insert :: "links \<Rightarrow> node \<Rightarrow> node \<Rightarrow> links" where
  "list_insert s list nd = list_insert_after s list nd"

definition list_remove :: "links \<Rightarrow> node \<Rightarrow> links" where
  "list_remove s list =
     (if lprev s list = list then s
      else let s1 = set_next (lprev s list) (lnext s list) s
           in set_prev (lnext s1 list) (lprev s1 list) s1)"

definition list_pushhead :: "links \<Rightarrow> node \<Rightarrow> node \<Rightarrow> links" where
  "list_pushhead s list nd = list_insert_after s list nd"

definition list_pushback :: "links \<Rightarrow> node \<Rightarrow> node \<Rightarrow> links" where
  "list_pushback s list nd = list_insert_before s list nd"

definition list_pophead :: "links \<Rightarrow> node \<Rightarrow> node \<times> links" where
  "list_pophead s list = (let head = lnext s list in (head, list_remove s head))"

definition list_popback :: "links \<Rightarrow> node \<Rightarrow> node \<times> links" where
  "list_popback s list = (let back = lprev s list in (back, list_remove s back))"

definition list_empty :: "links \<Rightarrow> node \<Rightarrow> bool" where
  "list_empty s list \<longleftrightarrow> list = lprev s list"

text \<open>
  The LIST\_FOREACH loop, collecting the nodes it visits; \<open>None\<close> is a loop that has not come back
  to the head within the fuel.
\<close>

fun list_foreach :: "nat \<Rightarrow> links \<Rightarrow> node \<Rightarrow> node \<Rightarrow> node list option" where
  "list_foreach 0 s list iter = (if iter = list then Some [] else None)"
| "list_foreach (Suc fuel) s list iter =
     (if iter = list then Some []
      else map_option (Cons iter) (list_foreach fuel s list (lnext s iter)))"

section \<open>Rings\<close>

text \<open>\<open>chain s a xs z\<close>: following \<open>next\<close> from \<open>a\<close> visits \<open>xs\<close> and then \<open>z\<close>, and \<open>prev\<close> goes back.\<close>

fun chain :: "links \<Rightarrow> node \<Rightarrow> node list \<Rightarrow> node \<Rightarrow> bool" where
  "chain s a [] z \<longleftrightarrow> lnext s a = z \<and> lprev s z = a"
| "chain s a (x # xs) z \<longleftrightarrow> lnext s a = x \<and> lprev s x = a \<and> chain s x xs z"

definition ring :: "links \<Rightarrow> node \<Rightarrow> node list \<Rightarrow> bool" where
  "ring s l xs \<longleftrightarrow> distinct (l # xs) \<and> chain s l xs l"

lemma links_simps [simp]:
  "lprev (set_prev a v s) = (lprev s)(a := v)" "lnext (set_prev a v s) = lnext s"
  "lnext (set_next a v s) = (lnext s)(a := v)" "lprev (set_next a v s) = lprev s"
  by (simp_all add: set_prev_def set_next_def)

lemma chain_append: "chain s a (xs @ y # ys) z \<longleftrightarrow> chain s a xs y \<and> chain s y ys z"
  by (induction xs arbitrary: a) auto

lemma chain_set_next [simp]: "u \<notin> set (a # xs) \<Longrightarrow> chain (set_next u v s) a xs z = chain s a xs z"
  by (induction xs arbitrary: a) auto

lemma chain_set_prev [simp]:
  "u \<notin> set xs \<Longrightarrow> u \<noteq> z \<Longrightarrow> chain (set_prev u v s) a xs z = chain s a xs z"
  by (induction xs arbitrary: a) auto

lemma chain_first: "chain s a xs z \<Longrightarrow> lnext s a = hd (xs @ [z])"
  by (cases xs) auto

lemma chain_last: "chain s a xs z \<Longrightarrow> lprev s z = last (a # xs)"
  by (induction xs arbitrary: a) auto

lemma list_init_ring: "ring (list_init s l) l []"
  by (simp add: ring_def list_init_def)

lemma insert_after_chain:
  assumes "chain s a xs z" "nd \<notin> set (a # z # xs)" "a \<notin> set xs" "z \<notin> set xs" "distinct xs"
  shows "chain (list_insert_after s a nd) a (nd # xs) z"
proof (cases xs)
  case Nil
  with assms show ?thesis by (auto simp: list_insert_after_def Let_def)
next
  case (Cons x ys)
  with assms show ?thesis by (auto simp: list_insert_after_def Let_def)
qed

lemma list_pushhead_ring:
  assumes "ring s l xs" "nd \<notin> set (l # xs)"
  shows "ring (list_pushhead s l nd) l (nd # xs)"
  using assms insert_after_chain [of s l xs l nd] by (auto simp: ring_def list_pushhead_def)

text \<open>An insertion leaves the chains alone that do not touch its neighbours.\<close>

lemma insert_after_frame:
  assumes "chain s b ys p" "p \<notin> set (b # ys)" "nd \<notin> set (p # b # ys)" "lnext s p \<notin> set (p # ys)"
  shows "chain (list_insert_after s p nd) b ys p"
  using assms by (auto simp: list_insert_after_def Let_def)

lemma list_pushback_ring:
  assumes "ring s l xs" "nd \<notin> set (l # xs)"
  shows "ring (list_pushback s l nd) l (xs @ [nd])"
proof (cases xs rule: rev_cases)
  case Nil
  with assms show ?thesis
    by (auto simp: ring_def list_pushback_def list_insert_before_def list_insert_after_def Let_def)
next
  case (snoc ys p)
  with assms(1) have c: "chain s l ys p" "chain s p [] l" and d: "distinct (l # ys @ [p])"
    by (auto simp: ring_def chain_append)
  have "chain (list_insert_after s p nd) l ys p"
    using c d assms(2) snoc by (intro insert_after_frame) auto
  moreover have "chain (list_insert_after s p nd) p [nd] l"
    using c d assms(2) snoc by (intro insert_after_chain) auto
  moreover have "lprev s l = p" using c by simp
  ultimately show ?thesis
    using d assms(2) snoc
    by (auto simp: ring_def list_pushback_def list_insert_before_def chain_append)
qed

lemma list_remove_chain:
  assumes "chain s a ys x" "chain s x zs z" "distinct (x # ys @ zs)" "a \<notin> set (x # ys @ zs)"
    "z \<notin> set (x # ys @ zs)"
  shows "chain (list_remove s x) a (ys @ zs) z"
proof (cases ys rule: rev_cases)
  case Nil
  with assms show ?thesis by (cases zs) (auto simp: list_remove_def Let_def)
next
  case (snoc vs p)
  with assms have c: "chain s a vs p" "lnext s p = x" "lprev s x = p"
    by (auto simp: chain_append)
  show ?thesis
  proof (cases zs)
    case Nil
    with assms snoc c show ?thesis by (auto simp: list_remove_def Let_def chain_append)
  next
    case (Cons q ws)
    with assms snoc c show ?thesis by (auto simp: list_remove_def Let_def chain_append)
  qed
qed

lemma list_remove_ring:
  assumes "ring s l (ys @ x # zs)"
  shows "ring (list_remove s x) l (ys @ zs)"
  using assms list_remove_chain [of s l ys x zs l] by (auto simp: ring_def chain_append)

lemma list_remove_self: "ring s l [] \<Longrightarrow> list_remove s l = s"
  by (simp add: ring_def list_remove_def)

lemma list_pophead_ring:
  assumes "ring s l xs"
  shows "xs = x # ys \<Longrightarrow> fst (list_pophead s l) = x \<and> ring (snd (list_pophead s l)) l ys"
    and "xs = [] \<Longrightarrow> list_pophead s l = (l, s)"
proof -
  assume "xs = x # ys"
  with assms list_remove_ring [of s l "[]" x ys] show
    "fst (list_pophead s l) = x \<and> ring (snd (list_pophead s l)) l ys"
    by (auto simp: list_pophead_def Let_def ring_def)
next
  assume "xs = []"
  with assms show "list_pophead s l = (l, s)"
    by (auto simp: list_pophead_def Let_def ring_def list_remove_def)
qed

lemma list_popback_ring:
  assumes "ring s l (xs @ [x])"
  shows "fst (list_popback s l) = x \<and> ring (snd (list_popback s l)) l xs"
  using assms list_remove_ring [of s l xs x "[]"] chain_last [of s l "xs @ [x]" l]
  by (auto simp: list_popback_def Let_def ring_def)

lemma list_empty_ring: "ring s l xs \<Longrightarrow> list_empty s l \<longleftrightarrow> xs = []"
  using chain_last [of s l xs l] by (cases xs rule: rev_cases) (auto simp: ring_def list_empty_def)

lemma list_foreach_chain:
  assumes "chain s a xs l" "l \<notin> set xs" "length xs \<le> fuel"
  shows "list_foreach fuel s l (lnext s a) = Some xs"
  using assms
proof (induction xs arbitrary: a fuel)
  case Nil
  then show ?case by (cases fuel) auto
next
  case (Cons x xs)
  then show ?case by (cases fuel) auto
qed

lemma list_foreach_ring:
  "ring s l xs \<Longrightarrow> length xs \<le> fuel \<Longrightarrow> list_foreach fuel s l (lnext s l) = Some xs"
  using list_foreach_chain [of s l xs l fuel] by (simp add: ring_def)

section \<open>The list contract\<close>

text \<open>
  What the users of the lists rely on: the list of the nodes after the head, and how each
  operation changes it.
\<close>

locale node_list =
  fixes lst :: "'s \<Rightarrow> 'n \<Rightarrow> 'n list \<Rightarrow> bool"
    and new :: "'s \<Rightarrow> 'n \<Rightarrow> 's"
    and push_front :: "'s \<Rightarrow> 'n \<Rightarrow> 'n \<Rightarrow> 's" and push_end :: "'s \<Rightarrow> 'n \<Rightarrow> 'n \<Rightarrow> 's"
    and del :: "'s \<Rightarrow> 'n \<Rightarrow> 's" and first :: "'s \<Rightarrow> 'n \<Rightarrow> 'n"
  assumes lst_new: "lst (new s l) l []"
    and lst_front: "lst s l xs \<Longrightarrow> n \<notin> set (l # xs) \<Longrightarrow> lst (push_front s l n) l (n # xs)"
    and lst_end: "lst s l xs \<Longrightarrow> n \<notin> set (l # xs) \<Longrightarrow> lst (push_end s l n) l (xs @ [n])"
    and lst_del: "lst s l (xs @ n # ys) \<Longrightarrow> lst (del s n) l (xs @ ys)"
    and lst_first: "lst s l (n # xs) \<Longrightarrow> first s l = n"
    and lst_distinct: "lst s l xs \<Longrightarrow> distinct (l # xs)"
begin

text \<open>Nodes appended one after the other come out of the front in the same order.\<close>

definition drain1 :: "'s \<Rightarrow> 'n \<Rightarrow> 's" where
  "drain1 s l = del s (first s l)"

lemma push_all: "lst s l xs \<Longrightarrow> distinct (l # xs @ ns) \<Longrightarrow>
   lst (fold (\<lambda>n s. push_end s l n) ns s) l (xs @ ns)"
proof (induction ns arbitrary: s xs)
  case Nil
  then show ?case by simp
next
  case (Cons n ns)
  have "lst (push_end s l n) l (xs @ [n])" using Cons.prems by (intro lst_end) auto
  from Cons.IH [OF this] Cons.prems show ?case by simp
qed

lemma drain_all: "lst s l (xs @ ys) \<Longrightarrow> lst (((\<lambda>s. drain1 s l) ^^ length xs) s) l ys"
proof (induction xs arbitrary: s)
  case Nil
  then show ?case by simp
next
  case (Cons x xs)
  have "lst (drain1 s l) l (xs @ ys)"
    using lst_first [of s l x "xs @ ys"] lst_del [of s l "[]" x "xs @ ys"] Cons.prems
    by (simp add: drain1_def)
  from Cons.IH [OF this] show ?case by (simp add: funpow_Suc_right del: funpow.simps)
qed

end

interpretation klist: node_list ring list_init list_pushhead list_pushback list_remove lnext
proof
  show "ring (list_init s l) l []" for s l by (rule list_init_ring)
  show "ring (list_pushhead s l n) l (n # xs)" if "ring s l xs" "n \<notin> set (l # xs)" for s l xs n
    using that by (rule list_pushhead_ring)
  show "ring (list_pushback s l n) l (xs @ [n])" if "ring s l xs" "n \<notin> set (l # xs)" for s l xs n
    using that by (rule list_pushback_ring)
  show "ring (list_remove s n) l (xs @ ys)" if "ring s l (xs @ n # ys)" for s l xs n ys
    using that by (rule list_remove_ring)
  show "lnext s l = n" if "ring s l (n # xs)" for s l n xs
    using that by (simp add: ring_def)
  show "distinct (l # xs)" if "ring s l xs" for s l xs
    using that by (simp add: ring_def)
qed

section \<open>Lists as sequences\<close>

text \<open>The calls on one list, and what they mean for the sequence of its nodes. A pop gives a node; from an empty list it gives the head.\<close>

datatype lop = PushHead node | PushBack node | Remove node | PopHead | PopBack

fun list_do :: "node \<Rightarrow> lop \<Rightarrow> links \<Rightarrow> node option \<times> links" where
  "list_do l (PushHead n) s = (None, list_pushhead s l n)"
| "list_do l (PushBack n) s = (None, list_pushback s l n)"
| "list_do l (Remove n) s = (None, list_remove s n)"
| "list_do l PopHead s = map_prod Some id (list_pophead s l)"
| "list_do l PopBack s = map_prod Some id (list_popback s l)"

fun seq_do :: "node \<Rightarrow> lop \<Rightarrow> node list \<Rightarrow> node option \<times> node list" where
  "seq_do l (PushHead n) xs = (None, n # xs)"
| "seq_do l (PushBack n) xs = (None, xs @ [n])"
| "seq_do l (Remove n) xs = (None, remove1 n xs)"
| "seq_do l PopHead xs = (Some (hd (xs @ [l])), tl xs)"
| "seq_do l PopBack xs = (Some (last (l # xs)), butlast xs)"

text \<open>The rules of use: only a node that is in no list is pushed, and only a node of the list is removed.\<close>

fun list_legal :: "node \<Rightarrow> lop \<Rightarrow> node list \<Rightarrow> bool" where
  "list_legal l (PushHead n) xs \<longleftrightarrow> n \<notin> set (l # xs)"
| "list_legal l (PushBack n) xs \<longleftrightarrow> n \<notin> set (l # xs)"
| "list_legal l (Remove n) xs \<longleftrightarrow> n \<in> set xs"
| "list_legal l PopHead xs \<longleftrightarrow> True"
| "list_legal l PopBack xs \<longleftrightarrow> True"

fun list_run :: "node \<Rightarrow> lop list \<Rightarrow> links \<Rightarrow> node option list \<times> links" where
  "list_run l [] s = ([], s)"
| "list_run l (op # ops) s = (let (r, s1) = list_do l op s; (rs, s2) = list_run l ops s1 in (r # rs, s2))"

fun seq_run :: "node \<Rightarrow> lop list \<Rightarrow> node list \<Rightarrow> node option list \<times> node list" where
  "seq_run l [] xs = ([], xs)"
| "seq_run l (op # ops) xs = (let (r, ys) = seq_do l op xs; (rs, zs) = seq_run l ops ys in (r # rs, zs))"

fun legal_run :: "node \<Rightarrow> lop list \<Rightarrow> node list \<Rightarrow> bool" where
  "legal_run l [] xs \<longleftrightarrow> True"
| "legal_run l (op # ops) xs \<longleftrightarrow> list_legal l op xs \<and> legal_run l ops (snd (seq_do l op xs))"

lemma list_do_refines:
  assumes "ring s l xs" "list_legal l op xs"
  shows "fst (list_do l op s) = fst (seq_do l op xs) \<and> ring (snd (list_do l op s)) l (snd (seq_do l op xs))"
proof (cases op)
  case (Remove n)
  then obtain ys zs where xs: "xs = ys @ n # zs" "n \<notin> set ys" using assms(2) split_list_first by fastforce
  then show ?thesis using Remove list_remove_ring [of s l ys n zs] assms(1) by (simp add: remove1_append)
next
  case PopHead
  then show ?thesis using list_pophead_ring [OF assms(1)] assms(1) by (cases xs) (auto simp: map_prod_def split: prod.split)
next
  case PopBack
  then show ?thesis
  proof (cases xs rule: rev_cases)
    case Nil
    then have "list_popback s l = (l, s)" using assms(1) by (simp add: ring_def list_popback_def list_remove_def Let_def)
    then show ?thesis using PopBack Nil assms(1) by simp
  next
    case (snoc ys y)
    then show ?thesis using PopBack list_popback_ring [of s l ys y] assms(1) by (auto simp: map_prod_def split: prod.split)
  qed
qed (use assms list_pushhead_ring list_pushback_ring in auto)

lemma list_run_refines:
  "ring s l xs \<Longrightarrow> legal_run l ops xs \<Longrightarrow>
    fst (list_run l ops s) = fst (seq_run l ops xs) \<and> ring (snd (list_run l ops s)) l (snd (seq_run l ops xs))"
proof (induction ops arbitrary: s xs)
  case (Cons op ops)
  then show ?case using list_do_refines [OF Cons.prems(1), of op] Cons.IH by (simp add: case_prod_beta Let_def)
qed simp

text \<open>
  C37. The pointer operations implement sequences: after any sequence of pushes at both ends, removals and pops at both ends, starting from
  \<open>list_init\<close>, every call has returned what it returns on sequences, LIST\_FOREACH visits exactly the nodes of the sequence in
  its order and ends after as many steps as there are nodes, and \<open>list_empty\<close> tells whether the sequence is empty. A node that is in the list is
  not pushed again, and only a node of the list is removed.
\<close>

theorem list_ops_refine_sequences:
  assumes "legal_run l ops []" "seq_run l ops [] = (rs, xs)"
  shows "\<exists>s. list_run l ops (list_init s0 l) = (rs, s) \<and> list_foreach (length xs) s l (lnext s l) = Some xs \<and>
    (list_empty s l \<longleftrightarrow> xs = [])"
proof -
  have "fst (list_run l ops (list_init s0 l)) = rs" and r: "ring (snd (list_run l ops (list_init s0 l))) l xs"
    using list_run_refines [OF list_init_ring assms(1), of s0] assms(2) by simp_all
  then show ?thesis using list_foreach_ring [OF r order_refl] list_empty_ring [OF r] by (metis prod.collapse)
qed

lemma list_ops_refine_sequences_witness:
  "\<exists>s. list_run 100 [PushBack 1, PushBack 2, PushHead 3, PushBack 4, Remove 2, PopHead, PopBack, PushHead 3] (list_init \<lparr>lprev = \<lambda>_. 0, lnext = \<lambda>_. 0\<rparr> 100) =
       ([None, None, None, None, None, Some 3, Some 4, None], s) \<and>
     list_foreach 2 s 100 (lnext s 100) = Some [3, 1] \<and> \<not> list_empty s 100"
  using list_ops_refine_sequences [of 100 "[PushBack 1, PushBack 2, PushHead 3, PushBack 4, Remove 2, PopHead, PopBack, PushHead 3]"
      "[None, None, None, None, None, Some 3, Some 4, None]" "[3, 1]" "\<lparr>lprev = \<lambda>_. 0, lnext = \<lambda>_. 0\<rparr>"]
  by (simp add: numeral_2_eq_2)

end
