(* ===== verification/Queue_Spec_Bytes.thy ===== *)
theory Queue_Spec_Bytes
  imports Prelude
begin

text \<open>
  The contract of the kernel's bounded queues. \<open>chunk_queue\<close> is the contract of a queue that is
  written and read in blocks (klib/fifo.c, used by the pipes), \<open>bounded_queue\<close> that of a queue
  used one element at a time (dev/tty/tty_buffer.c). A block queue gives a queue of single
  elements, and first-in first-out order is proved once, for \<open>bounded_queue\<close>.
\<close>

datatype 'a qop = Put 'a | Get

primrec qrun ::
  "('q \<Rightarrow> 'a \<Rightarrow> 'q option) \<Rightarrow> ('q \<Rightarrow> ('a \<times> 'q) option) \<Rightarrow> 'a qop list \<Rightarrow> 'q \<Rightarrow> 'a list \<times> 'a list \<times> 'q"
where
  "qrun put get [] q = ([], [], q)"
| "qrun put get (op # ops) q =
     (case op of
        Put x \<Rightarrow>
          (case put q x of
             None \<Rightarrow> qrun put get ops q
           | Some q' \<Rightarrow> (let r = qrun put get ops q' in (x # fst r, fst (snd r), snd (snd r))))
      | Get \<Rightarrow>
          (case get q of
             None \<Rightarrow> qrun put get ops q
           | Some (x, q') \<Rightarrow> (let r = qrun put get ops q' in (fst r, x # fst (snd r), snd (snd r)))))"

locale bounded_queue =
  fixes inv :: "'q \<Rightarrow> bool" and cap :: "'q \<Rightarrow> nat" and content :: "'q \<Rightarrow> 'a list"
    and put :: "'q \<Rightarrow> 'a \<Rightarrow> 'q option" and get :: "'q \<Rightarrow> ('a \<times> 'q) option"
  assumes content_cap: "inv q \<Longrightarrow> length (content q) \<le> cap q"
    and put_room: "inv q \<Longrightarrow> length (content q) < cap q \<Longrightarrow>
        \<exists>q'. put q x = Some q' \<and> inv q' \<and> cap q' = cap q \<and> content q' = content q @ [x]"
    and put_full: "inv q \<Longrightarrow> length (content q) = cap q \<Longrightarrow> put q x = None"
    and get_empty: "inv q \<Longrightarrow> content q = [] \<Longrightarrow> get q = None"
    and get_head: "inv q \<Longrightarrow> content q = x # xs \<Longrightarrow>
        \<exists>q'. get q = Some (x, q') \<and> inv q' \<and> cap q' = cap q \<and> content q' = xs"
begin

lemma put_None_iff: "inv q \<Longrightarrow> put q x = None \<longleftrightarrow> length (content q) = cap q"
  using content_cap [of q] put_room [of q x] put_full [of q x] by fastforce

lemma put_SomeD:
  assumes "inv q" "put q x = Some q'"
  shows "inv q' \<and> cap q' = cap q \<and> content q' = content q @ [x]"
proof -
  from assms have "length (content q) \<noteq> cap q" using put_full by fastforce
  with content_cap [OF assms(1)] have "length (content q) < cap q" by simp
  from put_room [OF assms(1) this, of x] assms(2) show ?thesis by auto
qed

lemma get_SomeD:
  assumes "inv q" "get q = Some (x, q')"
  shows "inv q' \<and> cap q' = cap q \<and> content q = x # content q'"
proof (cases "content q")
  case Nil
  with get_empty [OF assms(1)] assms(2) show ?thesis by simp
next
  case (Cons y ys)
  with get_head [OF assms(1) Cons] assms(2) show ?thesis by auto
qed

lemma fifo_order:
  assumes "inv q"
  shows "inv (snd (snd (qrun put get ops q))) \<and> cap (snd (snd (qrun put get ops q))) = cap q \<and>
     content q @ fst (qrun put get ops q) =
     fst (snd (qrun put get ops q)) @ content (snd (snd (qrun put get ops q)))"
  using assms
proof (induction ops arbitrary: q)
  case Nil
  then show ?case by simp
next
  case (Cons op ops)
  show ?case
  proof (cases op)
    case (Put x)
    show ?thesis
    proof (cases "put q x")
      case None
      with Put Cons show ?thesis by simp
    next
      case (Some q')
      with put_SomeD [OF Cons.prems Some] Cons.IH [of q'] Put show ?thesis
        by (auto simp: Let_def)
    qed
  next
    case Get
    show ?thesis
    proof (cases "get q")
      case None
      with Get Cons show ?thesis by simp
    next
      case (Some p)
      obtain x q' where p: "p = (x, q')" by (cases p)
      with Some get_SomeD [OF Cons.prems, of x q'] Cons.IH [of q'] Get show ?thesis
        by (auto simp: Let_def)
    qed
  qed
qed

end

datatype 'a cop = Wr "'a list" | Rd nat

primrec cop_size :: "'a cop \<Rightarrow> nat" where
  "cop_size (Wr d) = length d"
| "cop_size (Rd k) = k"

text \<open>The bytes a run of block operations accepts, the bytes it returns, and the queue it ends in.\<close>

primrec crun ::
  "('q \<Rightarrow> 'a list \<Rightarrow> 'q \<times> nat) \<Rightarrow> ('q \<Rightarrow> nat \<Rightarrow> 'a list \<times> 'q) \<Rightarrow> 'a cop list \<Rightarrow> 'q \<Rightarrow> 'a list \<times> 'a list \<times> 'q"
where
  "crun wr rd [] q = ([], [], q)"
| "crun wr rd (op # ops) q =
     (case op of
        Wr d \<Rightarrow> (let w = wr q d; r = crun wr rd ops (fst w)
                 in (take (snd w) d @ fst r, fst (snd r), snd (snd r)))
      | Rd k \<Rightarrow> (let w = rd q k; r = crun wr rd ops (snd w)
                 in (fst r, fst w @ fst (snd r), snd (snd r))))"

locale chunk_queue =
  fixes inv :: "'q \<Rightarrow> bool" and cap :: "'q \<Rightarrow> nat" and content :: "'q \<Rightarrow> 'a list"
    and wr :: "'q \<Rightarrow> 'a list \<Rightarrow> 'q \<times> nat" and rd :: "'q \<Rightarrow> nat \<Rightarrow> 'a list \<times> 'q"
    and maxlen :: nat
  assumes content_cap: "inv q \<Longrightarrow> length (content q) \<le> cap q"
    and one_byte: "1 < maxlen"
    and wr_spec: "inv q \<Longrightarrow> length d < maxlen \<Longrightarrow> wr q d = (q', n) \<Longrightarrow>
        n = min (length d) (cap q - length (content q)) \<and> inv q' \<and> cap q' = cap q \<and>
        content q' = content q @ take n d"
    and rd_spec: "inv q \<Longrightarrow> k < maxlen \<Longrightarrow> rd q k = (d, q') \<Longrightarrow>
        inv q' \<and> cap q' = cap q \<and> d = take k (content q) \<and> content q' = drop k (content q)"
begin

definition put1 :: "'q \<Rightarrow> 'a \<Rightarrow> 'q option" where
  "put1 q x = (case wr q [x] of (q', n) \<Rightarrow> if n = 0 then None else Some q')"

definition get1 :: "'q \<Rightarrow> ('a \<times> 'q) option" where
  "get1 q = (case rd q 1 of (d, q') \<Rightarrow> (case d of [] \<Rightarrow> None | x # _ \<Rightarrow> Some (x, q')))"

lemma put1_spec:
  assumes "inv q"
  shows "(length (content q) < cap q \<longrightarrow>
           (\<exists>q'. put1 q x = Some q' \<and> inv q' \<and> cap q' = cap q \<and> content q' = content q @ [x])) \<and>
         (length (content q) = cap q \<longrightarrow> put1 q x = None)"
proof -
  obtain q' n where w: "wr q [x] = (q', n)" by (cases "wr q [x]")
  have "n = min 1 (cap q - length (content q)) \<and> inv q' \<and> cap q' = cap q \<and>
        content q' = content q @ take n [x]"
    using wr_spec [OF assms _ w] one_byte by simp
  with w show ?thesis by (auto simp: put1_def)
qed

lemma get1_spec:
  assumes "inv q"
  shows "get1 q = (case content q of [] \<Rightarrow> None | x # xs \<Rightarrow> Some (x, snd (rd q 1))) \<and>
     inv (snd (rd q 1)) \<and> cap (snd (rd q 1)) = cap q \<and> content (snd (rd q 1)) = drop 1 (content q)"
proof -
  obtain d q' where r: "rd q 1 = (d, q')" by (cases "rd q 1")
  have "inv q' \<and> cap q' = cap q \<and> d = take 1 (content q) \<and> content q' = drop 1 (content q)"
    using rd_spec [OF assms _ r] one_byte by simp
  with r show ?thesis by (auto simp: get1_def split: list.split)
qed

lemma chunk_order:
  assumes "inv q" "\<forall>op \<in> set ops. cop_size op < maxlen"
  shows "inv (snd (snd (crun wr rd ops q))) \<and> cap (snd (snd (crun wr rd ops q))) = cap q \<and>
     content q @ fst (crun wr rd ops q) =
     fst (snd (crun wr rd ops q)) @ content (snd (snd (crun wr rd ops q)))"
  using assms
proof (induction ops arbitrary: q)
  case Nil
  then show ?case by simp
next
  case (Cons op ops)
  show ?case
  proof (cases op)
    case (Wr d)
    obtain q' n where w: "wr q d = (q', n)" by (cases "wr q d")
    show ?thesis
      using wr_spec [OF Cons.prems(1) _ w] Cons.prems(2) Cons.IH [of q'] Wr w by (auto simp: Let_def)
  next
    case (Rd k)
    obtain d q' where w: "rd q k = (d, q')" by (cases "rd q k")
    have s: "inv q' \<and> cap q' = cap q \<and> d = take k (content q) \<and> content q' = drop k (content q)"
      using rd_spec [OF Cons.prems(1) _ w] Cons.prems(2) Rd by simp
    then have "content q = d @ content q'" by simp
    with s show ?thesis
      using Cons.prems(2) Cons.IH [of q'] Rd w by (auto simp: Let_def)
  qed
qed

end

sublocale chunk_queue \<subseteq> single: bounded_queue inv cap content put1 get1
proof
  fix q assume i: "inv q"
  show "length (content q) \<le> cap q" by (rule content_cap [OF i])
  show "\<exists>q'. put1 q x = Some q' \<and> inv q' \<and> cap q' = cap q \<and> content q' = content q @ [x]"
    if "length (content q) < cap q" for x
    using put1_spec [OF i] that by blast
  show "put1 q x = None" if "length (content q) = cap q" for x
    using put1_spec [OF i] that by blast
  show "get1 q = None" if "content q = []"
    using get1_spec [OF i] that by simp
  show "\<exists>q'. get1 q = Some (x, q') \<and> inv q' \<and> cap q' = cap q \<and> content q' = xs"
    if "content q = x # xs" for x xs
    using get1_spec [OF i] that by simp
qed

end
