(* ===== verification/Tty_Buffer.thy ===== *)
theory Tty_Buffer
  imports Queue_Spec_Bytes
begin

text \<open>
  kernel/dev/tty/tty\_buffer.c: a ring of TTY\_BUFSIZ cells, each a character and a flag byte. One
  cell stays free, so a buffer holds up to TTY\_BUFSIZ - 1 characters. The indices are C ints; the
  remainder of the code is on non-negative operands, where it is \<open>mod\<close>.
\<close>

section \<open>State and operations\<close>

definition TTY_BUFSIZ :: int where "TTY_BUFSIZ = 4096"

definition TTY_BF_END :: u8 where "TTY_BF_END = 1"

record tty_buf =
  tb_buf :: bytes
  tb_flags :: bytes
  tb_head :: int
  tb_tail :: int

definition tty_buf_init :: "tty_buf \<Rightarrow> tty_buf" where
  "tty_buf_init b = b\<lparr>tb_head := 0, tb_tail := 0\<rparr>"

definition tty_buf_full :: "tty_buf \<Rightarrow> int" where
  "tty_buf_full b = (let next = (tb_head b + 1) mod TTY_BUFSIZ in if next = tb_tail b then 1 else 0)"

definition tty_buf_chrs :: "tty_buf \<Rightarrow> int" where
  "tty_buf_chrs b = (tb_head b - tb_tail b + TTY_BUFSIZ) mod TTY_BUFSIZ"

definition tty_buf_rems :: "tty_buf \<Rightarrow> int" where
  "tty_buf_rems b = (tb_tail b - tb_head b - 1 + TTY_BUFSIZ) mod TTY_BUFSIZ"

definition tty_buf_putc :: "tty_buf \<Rightarrow> u8 \<Rightarrow> int \<times> tty_buf" where
  "tty_buf_putc b c =
     (let next = (tb_head b + 1) mod TTY_BUFSIZ
      in if next = tb_tail b then (- 1, b)
         else (0, b\<lparr>tb_buf := (tb_buf b)[nat (tb_head b) := c],
                    tb_flags := (tb_flags b)[nat (tb_head b) := 0],
                    tb_head := next\<rparr>))"

text \<open>\<open>tty_buf_getc b c\<close>: \<open>c\<close> is the value of the caller's variable, kept when nothing is read.\<close>

definition tty_buf_getc :: "tty_buf \<Rightarrow> u8 \<Rightarrow> int \<times> u8 \<times> tty_buf" where
  "tty_buf_getc b c =
     (if tb_head b = tb_tail b then (- 1, c, b)
      else (uint (tb_flags b ! nat (tb_tail b)), tb_buf b ! nat (tb_tail b),
            b\<lparr>tb_tail := (tb_tail b + 1) mod TTY_BUFSIZ\<rparr>))"

definition tty_buf_mark :: "tty_buf \<Rightarrow> u8 \<Rightarrow> int \<times> tty_buf" where
  "tty_buf_mark b flag =
     (if tb_head b = tb_tail b then (- 1, b)
      else let pos = nat ((tb_head b - 1 + TTY_BUFSIZ) mod TTY_BUFSIZ)
           in (0, b\<lparr>tb_flags := (tb_flags b)[pos := tb_flags b ! pos OR flag]\<rparr>))"

definition tty_buf_kill :: "tty_buf \<Rightarrow> tty_buf" where
  "tty_buf_kill b = b\<lparr>tb_head := 0, tb_tail := 0\<rparr>"

definition tty_buf_erase :: "tty_buf \<Rightarrow> int \<times> tty_buf" where
  "tty_buf_erase b =
     (if tb_head b = tb_tail b then (- 1, b)
      else let prev = (tb_head b - 1 + TTY_BUFSIZ) mod TTY_BUFSIZ
           in if tb_flags b ! nat prev AND TTY_BF_END \<noteq> 0 then (0, b)
              else (0, b\<lparr>tb_head := prev\<rparr>))"

definition isspace :: "u8 \<Rightarrow> bool" where
  "isspace c \<longleftrightarrow> c = 32 \<or> c = 12 \<or> c = 10 \<or> c = 13 \<or> c = 9 \<or> c = 11"

text \<open>
  One of the two loops of \<open>tty_buf_erasew\<close>: erase backwards while the last character satisfies
  \<open>go\<close> and is not the end of a delivered line. \<open>None\<close> is a loop that outlives the fuel.
\<close>

fun erase_loop :: "nat \<Rightarrow> (u8 \<Rightarrow> bool) \<Rightarrow> tty_buf \<Rightarrow> int \<Rightarrow> (tty_buf \<times> int) option" where
  "erase_loop 0 go b count = (if tb_head b = tb_tail b then Some (b, count) else None)"
| "erase_loop (Suc fuel) go b count =
     (if tb_head b = tb_tail b then Some (b, count)
      else let prev = (tb_head b - 1 + TTY_BUFSIZ) mod TTY_BUFSIZ
           in if tb_flags b ! nat prev AND TTY_BF_END \<noteq> 0 then Some (b, count)
              else if \<not> go (tb_buf b ! nat prev) then Some (b, count)
              else erase_loop fuel go (b\<lparr>tb_head := prev\<rparr>) (count + 1))"

definition tty_buf_erasew :: "nat \<Rightarrow> tty_buf \<Rightarrow> (int \<times> tty_buf) option" where
  "tty_buf_erasew fuel b =
     (if tb_head b = tb_tail b then Some (0, b)
      else case erase_loop fuel isspace b 0 of
        None \<Rightarrow> None
      | Some (b1, n1) \<Rightarrow>
          (case erase_loop fuel (\<lambda>c. \<not> isspace c) b1 n1 of
             None \<Rightarrow> None
           | Some (b2, n2) \<Rightarrow> Some (n2, b2)))"

section \<open>Abstraction and invariant\<close>

definition tb_ok :: "tty_buf \<Rightarrow> bool" where
  "tb_ok b \<longleftrightarrow> length (tb_buf b) = 4096 \<and> length (tb_flags b) = 4096 \<and>
     0 \<le> tb_head b \<and> tb_head b < 4096 \<and> 0 \<le> tb_tail b \<and> tb_tail b < 4096"

definition tb_len :: "tty_buf \<Rightarrow> nat" where
  "tb_len b = nat (tty_buf_chrs b)"

text \<open>The queued cells, oldest first: character and flags.\<close>

definition tb_cells :: "tty_buf \<Rightarrow> (u8 \<times> u8) list" where
  "tb_cells b = cyc (zip (tb_buf b) (tb_flags b)) (nat (tb_tail b)) (tb_len b)"

lemma tb_len_lt: "tb_len b < 4096"
  by (simp add: tb_len_def tty_buf_chrs_def TTY_BUFSIZ_def nat_less_iff)

lemma length_tb_cells [simp]: "length (tb_cells b) = tb_len b"
  by (simp add: tb_cells_def)

lemma tb_cells_Nil: "tb_cells b = [] \<longleftrightarrow> tb_len b = 0"
  by (metis length_0_conv length_tb_cells)

lemma tb_head_eq:
  assumes "tb_ok b"
  shows "nat (tb_head b) = (nat (tb_tail b) + tb_len b) mod 4096"
proof -
  have "int (nat (tb_tail b) + tb_len b) = tb_tail b + (tb_head b - tb_tail b + 4096) mod 4096"
    using assms by (simp add: tb_ok_def tb_len_def tty_buf_chrs_def TTY_BUFSIZ_def)
  then have "int ((nat (tb_tail b) + tb_len b) mod 4096) =
      (tb_tail b + (tb_head b - tb_tail b + 4096) mod 4096) mod 4096"
    by (simp only: zmod_int) simp
  also have "\<dots> = (tb_head b + 4096) mod 4096" by (simp add: mod_add_right_eq)
  also have "\<dots> = tb_head b" using assms by (simp add: tb_ok_def)
  finally show ?thesis by linarith
qed

lemma tb_empty_iff:
  assumes "tb_ok b"
  shows "tb_head b = tb_tail b \<longleftrightarrow> tb_len b = 0"
proof -
  have b: "0 \<le> tb_head b" "tb_head b < 4096" "0 \<le> tb_tail b" "tb_tail b < 4096"
    using assms by (simp_all add: tb_ok_def)
  have "(tb_head b - tb_tail b + 4096) mod 4096 = 0 \<longleftrightarrow> tb_head b = tb_tail b"
    using b mod_wrap [of "tb_head b - tb_tail b + 4096" 4096] by (simp split: if_splits)
  moreover have "0 \<le> (tb_head b - tb_tail b + 4096) mod 4096" by simp
  ultimately show ?thesis
    unfolding tb_len_def tty_buf_chrs_def TTY_BUFSIZ_def by linarith
qed

text \<open>Moving the head one cell on, or the head or the tail one cell back, changes the length by one.\<close>

lemma tb_len_head_next:
  assumes "tb_ok b" "(tb_head b + 1) mod 4096 \<noteq> tb_tail b"
  shows "nat (((tb_head b + 1) mod 4096 - tb_tail b + 4096) mod 4096) = Suc (tb_len b)"
proof -
  have b: "0 \<le> tb_head b" "tb_head b < 4096" "0 \<le> tb_tail b" "tb_tail b < 4096"
    using assms(1) by (simp_all add: tb_ok_def)
  have "((tb_head b + 1) mod 4096 - tb_tail b + 4096) mod 4096 =
      (tb_head b - tb_tail b + 4096) mod 4096 + 1"
    using b assms(2) mod_wrap [of "tb_head b + 1" 4096]
      mod_wrap [of "tb_head b - tb_tail b + 4096" 4096]
      mod_wrap [of "(tb_head b + 1) mod 4096 - tb_tail b + 4096" 4096]
    by (simp split: if_splits)
  then show ?thesis by (simp add: tb_len_def tty_buf_chrs_def TTY_BUFSIZ_def nat_add_distrib)
qed

lemma tb_full_iff:
  assumes "tb_ok b"
  shows "(tb_head b + 1) mod 4096 = tb_tail b \<longleftrightarrow> tb_len b = 4095"
proof -
  have b: "0 \<le> tb_head b" "tb_head b < 4096" "0 \<le> tb_tail b" "tb_tail b < 4096"
    using assms by (simp_all add: tb_ok_def)
  have "(tb_head b + 1) mod 4096 = tb_tail b \<longleftrightarrow> (tb_head b - tb_tail b + 4096) mod 4096 = 4095"
    using b mod_wrap [of "tb_head b + 1" 4096]
      mod_wrap [of "tb_head b - tb_tail b + 4096" 4096] by (auto split: if_splits)
  then show ?thesis
    unfolding tb_len_def tty_buf_chrs_def TTY_BUFSIZ_def by (simp add: nat_eq_iff)
qed

lemma tb_len_head_prev:
  assumes "tb_ok b" "tb_head b \<noteq> tb_tail b"
  shows "Suc (nat (((tb_head b - 1 + 4096) mod 4096 - tb_tail b + 4096) mod 4096)) = tb_len b"
proof -
  have b: "0 \<le> tb_head b" "tb_head b < 4096" "0 \<le> tb_tail b" "tb_tail b < 4096"
    using assms(1) by (simp_all add: tb_ok_def)
  have "((tb_head b - 1 + 4096) mod 4096 - tb_tail b + 4096) mod 4096 + 1 =
      (tb_head b - tb_tail b + 4096) mod 4096"
    using b assms(2) mod_wrap [of "tb_head b - 1 + 4096" 4096]
      mod_wrap [of "tb_head b - tb_tail b + 4096" 4096]
      mod_wrap [of "(tb_head b - 1 + 4096) mod 4096 - tb_tail b + 4096" 4096]
    by (simp split: if_splits)
  then show ?thesis by (simp add: tb_len_def tty_buf_chrs_def TTY_BUFSIZ_def)
qed

lemma tb_len_tail_next:
  assumes "tb_ok b" "tb_head b \<noteq> tb_tail b"
  shows "Suc (nat ((tb_head b - (tb_tail b + 1) mod 4096 + 4096) mod 4096)) = tb_len b"
proof -
  have b: "0 \<le> tb_head b" "tb_head b < 4096" "0 \<le> tb_tail b" "tb_tail b < 4096"
    using assms(1) by (simp_all add: tb_ok_def)
  have "(tb_head b - (tb_tail b + 1) mod 4096 + 4096) mod 4096 + 1 =
      (tb_head b - tb_tail b + 4096) mod 4096"
    using b assms(2) mod_wrap [of "tb_tail b + 1" 4096]
      mod_wrap [of "tb_head b - tb_tail b + 4096" 4096]
      mod_wrap [of "tb_head b - (tb_tail b + 1) mod 4096 + 4096" 4096]
    by (simp split: if_splits)
  then show ?thesis by (simp add: tb_len_def tty_buf_chrs_def TTY_BUFSIZ_def)
qed

section \<open>Operations on the cells\<close>

lemma zip_update2: "length xs = length ys \<Longrightarrow> zip (xs[i := x]) (ys[i := y]) = (zip xs ys)[i := (x, y)]"
  by (simp add: update_zip)

lemma tb_init_ok:
  assumes "length (tb_buf b) = 4096" "length (tb_flags b) = 4096"
  shows "tb_ok (tty_buf_init b) \<and> tb_cells (tty_buf_init b) = []"
proof -
  have "tb_len (tty_buf_init b) = 0"
    by (simp add: tb_len_def tty_buf_chrs_def tty_buf_init_def TTY_BUFSIZ_def)
  with assms show ?thesis
    by (auto simp: tb_cells_def tb_ok_def tty_buf_init_def)
qed

lemma tb_kill_ok:
  assumes "tb_ok b"
  shows "tb_ok (tty_buf_kill b) \<and> tb_cells (tty_buf_kill b) = []"
  using tb_init_ok [of b] assms by (simp add: tty_buf_kill_def tty_buf_init_def tb_ok_def)

lemma tb_rems:
  assumes "tb_ok b"
  shows "tty_buf_rems b = 4095 - int (tb_len b)"
proof -
  have b: "0 \<le> tb_head b" "tb_head b < 4096" "0 \<le> tb_tail b" "tb_tail b < 4096"
    using assms by (simp_all add: tb_ok_def)
  then show ?thesis
    using mod_wrap [of "tb_tail b - tb_head b - 1 + 4096" 4096]
      mod_wrap [of "tb_head b - tb_tail b + 4096" 4096]
    by (auto simp: tty_buf_rems_def tb_len_def tty_buf_chrs_def TTY_BUFSIZ_def split: if_splits)
qed

lemma tb_full_flag: "tb_ok b \<Longrightarrow> tty_buf_full b = (if tb_len b = 4095 then 1 else 0)"
  using tb_full_iff [of b] by (simp add: tty_buf_full_def TTY_BUFSIZ_def Let_def)

lemma tb_putc:
  assumes "tb_ok b"
  shows "tb_len b = 4095 \<Longrightarrow> tty_buf_putc b c = (- 1, b)"
    and "tb_len b < 4095 \<Longrightarrow> fst (tty_buf_putc b c) = 0 \<and> tb_ok (snd (tty_buf_putc b c)) \<and>
       tb_cells (snd (tty_buf_putc b c)) = tb_cells b @ [(c, 0)]"
proof -
  assume "tb_len b = 4095"
  then show "tty_buf_putc b c = (- 1, b)"
    using tb_full_iff [OF assms] by (simp add: tty_buf_putc_def TTY_BUFSIZ_def Let_def)
next
  assume room: "tb_len b < 4095"
  then have nf: "(tb_head b + 1) mod 4096 \<noteq> tb_tail b" using tb_full_iff [OF assms] by simp
  let ?b = "b\<lparr>tb_buf := (tb_buf b)[nat (tb_head b) := c],
              tb_flags := (tb_flags b)[nat (tb_head b) := 0], tb_head := (tb_head b + 1) mod 4096\<rparr>"
  have p: "tty_buf_putc b c = (0, ?b)"
    using nf by (simp add: tty_buf_putc_def TTY_BUFSIZ_def Let_def)
  have len: "length (tb_buf b) = 4096" "length (tb_flags b) = 4096" using assms by (simp_all add: tb_ok_def)
  have "tb_len ?b = Suc (tb_len b)"
    using tb_len_head_next [OF assms nf] unfolding tb_len_def tty_buf_chrs_def TTY_BUFSIZ_def by simp
  moreover have "zip (tb_buf ?b) (tb_flags ?b) =
      (zip (tb_buf b) (tb_flags b))[(nat (tb_tail b) + tb_len b) mod 4096 := (c, 0)]"
    using assms tb_head_eq [OF assms] by (simp add: zip_update2 tb_ok_def)
  ultimately have "tb_cells ?b = tb_cells b @ [(c, 0)]"
    using cyc_update_snoc [of "tb_len b" "zip (tb_buf b) (tb_flags b)" "nat (tb_tail b)" "(c, 0)"]
      room len by (simp add: tb_cells_def)
  then show "fst (tty_buf_putc b c) = 0 \<and> tb_ok (snd (tty_buf_putc b c)) \<and>
       tb_cells (snd (tty_buf_putc b c)) = tb_cells b @ [(c, 0)]"
    using assms p by (simp add: tb_ok_def)
qed

lemma tb_getc_empty: "tb_ok b \<Longrightarrow> tb_cells b = [] \<Longrightarrow> tty_buf_getc b c = (- 1, c, b)"
  using tb_empty_iff [of b] length_tb_cells [of b] by (simp add: tty_buf_getc_def)

lemma tb_getc:
  assumes "tb_ok b" "tb_cells b = (x, fl) # cs"
  shows "\<exists>b'. tty_buf_getc b c = (uint fl, x, b') \<and> tb_ok b' \<and> tb_cells b' = cs"
proof -
  have l: "tb_len b = Suc (length cs)" using assms(2) length_tb_cells [of b] by simp
  then have ne: "tb_head b \<noteq> tb_tail b" using tb_empty_iff [OF assms(1)] by simp
  let ?b = "b\<lparr>tb_tail := (tb_tail b + 1) mod 4096\<rparr>"
  let ?z = "zip (tb_buf b) (tb_flags b)"
  have len: "length ?z = 4096" using assms(1) by (simp add: tb_ok_def)
  have "nat (tb_tail b) < 4096" using assms(1) by (simp add: tb_ok_def nat_less_iff)
  then have t: "nat (tb_tail b) mod 4096 = nat (tb_tail b)" by simp
  have "nat ((tb_tail b + 1) mod 4096) = Suc (nat (tb_tail b)) mod 4096"
    using assms(1) by (simp add: tb_ok_def nat_mod_distrib Suc_nat_eq_nat_zadd1 add.commute)
  then have "cyc ?z (nat (tb_tail ?b)) k = cyc ?z (Suc (nat (tb_tail b))) k" for k
    using len cyc_mod [of ?z "Suc (nat (tb_tail b))" k] by simp
  moreover have "tb_len ?b = length cs"
    using tb_len_tail_next [OF assms(1) ne] l
    unfolding tb_len_def tty_buf_chrs_def TTY_BUFSIZ_def by simp
  moreover have "(x, fl) # cs = ?z ! nat (tb_tail b) # cyc ?z (Suc (nat (tb_tail b))) (length cs)"
    using assms(2) l len t by (simp add: tb_cells_def cyc_Suc_front)
  ultimately have "tb_cells ?b = cs" and "?z ! nat (tb_tail b) = (x, fl)"
    by (simp_all add: tb_cells_def)
  moreover have "nat (tb_tail b) < 4096" by fact
  moreover have "tty_buf_getc b c = (uint (tb_flags b ! nat (tb_tail b)), tb_buf b ! nat (tb_tail b), ?b)"
    using ne by (simp add: tty_buf_getc_def TTY_BUFSIZ_def)
  ultimately show ?thesis
    using assms(1) by (auto simp: tb_ok_def)
qed

text \<open>The last cell sits just before the head.\<close>

lemma tb_prev_index:
  assumes "tb_ok b" "tb_head b \<noteq> tb_tail b"
  shows "nat ((tb_head b - 1 + 4096) mod 4096) = (nat (tb_tail b) + (tb_len b - 1)) mod 4096"
    and "nat ((tb_head b - 1 + 4096) mod 4096) < 4096"
proof -
  let ?b = "b\<lparr>tb_head := (tb_head b - 1 + 4096) mod 4096\<rparr>"
  have h: "tb_head ?b = (tb_head b - 1 + 4096) mod 4096" "tb_tail ?b = tb_tail b" by simp_all
  have "tb_ok ?b" using assms(1) by (simp add: tb_ok_def)
  moreover have "Suc (tb_len ?b) = tb_len b"
    using tb_len_head_prev [OF assms] unfolding tb_len_def tty_buf_chrs_def TTY_BUFSIZ_def by simp
  ultimately show "nat ((tb_head b - 1 + 4096) mod 4096) = (nat (tb_tail b) + (tb_len b - 1)) mod 4096"
    using tb_head_eq [of ?b] unfolding h by (metis diff_Suc_1)
  show "nat ((tb_head b - 1 + 4096) mod 4096) < 4096" by (simp add: nat_less_iff)
qed

lemma tb_last_cell:
  assumes "tb_ok b" "tb_cells b = cs @ [(x, fl)]"
  shows "tb_head b \<noteq> tb_tail b" "tb_len b = Suc (length cs)"
    "tb_buf b ! nat ((tb_head b - 1 + 4096) mod 4096) = x"
    "tb_flags b ! nat ((tb_head b - 1 + 4096) mod 4096) = fl"
proof -
  show l: "tb_len b = Suc (length cs)" using assms(2) length_tb_cells [of b] by simp
  then show ne: "tb_head b \<noteq> tb_tail b" using tb_empty_iff [OF assms(1)] by simp
  let ?z = "zip (tb_buf b) (tb_flags b)"
  have len: "length ?z = 4096" using assms(1) by (simp add: tb_ok_def)
  have "tb_cells b ! length cs = (x, fl)" using assms(2) by simp
  then have "?z ! ((nat (tb_tail b) + length cs) mod 4096) = (x, fl)"
    using l len by (simp add: tb_cells_def)
  then have "?z ! nat ((tb_head b - 1 + 4096) mod 4096) = (x, fl)"
    using tb_prev_index(1) [OF assms(1) ne] l by simp
  with tb_prev_index(2) [OF assms(1) ne] len show
    "tb_buf b ! nat ((tb_head b - 1 + 4096) mod 4096) = x"
    "tb_flags b ! nat ((tb_head b - 1 + 4096) mod 4096) = fl"
    by auto
qed

lemma tb_drop_last:
  assumes "tb_ok b" "tb_cells b = cs @ [(x, fl)]"
  shows "tb_ok (b\<lparr>tb_head := (tb_head b - 1 + 4096) mod 4096\<rparr>) \<and>
     tb_cells (b\<lparr>tb_head := (tb_head b - 1 + 4096) mod 4096\<rparr>) = cs"
proof -
  let ?b = "b\<lparr>tb_head := (tb_head b - 1 + 4096) mod 4096\<rparr>"
  note l = tb_last_cell [OF assms]
  have "tb_len ?b = length cs"
    using tb_len_head_prev [OF assms(1) l(1)] l(2)
    unfolding tb_len_def tty_buf_chrs_def TTY_BUFSIZ_def by simp
  moreover have "take (length cs) (tb_cells b) = cs" using assms(2) by simp
  ultimately have "tb_cells ?b = cs" using l(2) by (simp add: tb_cells_def cyc_take)
  then show ?thesis using assms(1) by (simp add: tb_ok_def)
qed

lemma tb_mark:
  assumes "tb_ok b" "tb_cells b = cs @ [(x, fl)]"
  shows "fst (tty_buf_mark b f) = 0 \<and> tb_ok (snd (tty_buf_mark b f)) \<and>
     tb_cells (snd (tty_buf_mark b f)) = cs @ [(x, fl OR f)]"
proof -
  note l = tb_last_cell [OF assms]
  let ?p = "nat ((tb_head b - 1 + 4096) mod 4096)"
  let ?b = "b\<lparr>tb_flags := (tb_flags b)[?p := fl OR f]\<rparr>"
  let ?z = "zip (tb_buf b) (tb_flags b)"
  have len: "length (tb_buf b) = 4096" "length (tb_flags b) = 4096" using assms(1) by (simp_all add: tb_ok_def)
  have m: "tty_buf_mark b f = (0, ?b)"
    using l by (simp add: tty_buf_mark_def TTY_BUFSIZ_def Let_def)
  have p: "?p = (nat (tb_tail b) + length cs) mod 4096"
    using tb_prev_index(1) [OF assms(1) l(1)] l(2) by simp
  have "zip (tb_buf ?b) (tb_flags ?b) = ?z[?p := (x, fl OR f)]"
    using assms(1) l(3) zip_update2 [of "tb_buf b" "tb_flags b" ?p x "fl OR f"]
      list_update_id [of "tb_buf b" ?p] by (simp add: tb_ok_def)
  moreover have "tb_len ?b = Suc (length cs)"
    using l(2) unfolding tb_len_def tty_buf_chrs_def by simp
  ultimately have "tb_cells ?b = cyc ?z (nat (tb_tail b)) (length cs) @ [(x, fl OR f)]"
    using cyc_update_snoc [of "length cs" ?z "nat (tb_tail b)" "(x, fl OR f)"] p len l(2) tb_len_lt [of b]
    by (simp add: tb_cells_def)
  moreover have "cyc ?z (nat (tb_tail b)) (length cs) = cs"
    using assms(2) l(2) cyc_take [of "length cs" "tb_len b" ?z "nat (tb_tail b)"]
    by (simp add: tb_cells_def)
  ultimately show ?thesis using m assms(1) by (simp add: tb_ok_def)
qed

lemma tb_mark_empty: "tb_ok b \<Longrightarrow> tb_cells b = [] \<Longrightarrow> tty_buf_mark b f = (- 1, b)"
  using tb_empty_iff [of b] length_tb_cells [of b] by (simp add: tty_buf_mark_def)

lemma tb_erase:
  assumes "tb_ok b" "tb_cells b = cs @ [(x, fl)]"
  shows "fst (tty_buf_erase b) = 0 \<and> tb_ok (snd (tty_buf_erase b)) \<and>
     tb_cells (snd (tty_buf_erase b)) = (if fl AND TTY_BF_END = 0 then cs else tb_cells b)"
  using tb_last_cell [OF assms] tb_drop_last [OF assms] assms(1)
  by (simp add: tty_buf_erase_def TTY_BUFSIZ_def Let_def)

lemma tb_erase_empty: "tb_ok b \<Longrightarrow> tb_cells b = [] \<Longrightarrow> tty_buf_erase b = (- 1, b)"
  using tb_empty_iff [of b] length_tb_cells [of b] by (simp add: tty_buf_erase_def)

section \<open>Word erase\<close>

definition erasable :: "(u8 \<Rightarrow> bool) \<Rightarrow> u8 \<times> u8 \<Rightarrow> bool" where
  "erasable go p \<longleftrightarrow> snd p AND TTY_BF_END = 0 \<and> go (fst p)"

lemma erase_loop_spec:
  assumes "tb_ok b" "tb_len b \<le> fuel"
  shows "\<exists>b'. erase_loop fuel go b n = Some (b', n + int (tb_len b) - int (tb_len b')) \<and> tb_ok b' \<and>
     tb_cells b' = rev (dropWhile (erasable go) (rev (tb_cells b)))"
  using assms
proof (induction fuel arbitrary: b n)
  case 0
  then have "tb_cells b = []" by (simp add: tb_cells_Nil)
  with 0 show ?case using tb_empty_iff [of b] by simp
next
  case (Suc fuel)
  show ?case
  proof (cases "tb_cells b" rule: rev_cases)
    case Nil
    then have "tb_len b = 0" using length_tb_cells [of b] by simp
    with Nil Suc.prems show ?thesis using tb_empty_iff [of b] by simp
  next
    case (snoc cs c)
    obtain x fl where c: "c = (x, fl)" by (cases c)
    with snoc have e: "tb_cells b = cs @ [(x, fl)]" by simp
    note l = tb_last_cell [OF Suc.prems(1) e]
    let ?b = "b\<lparr>tb_head := (tb_head b - 1 + 4096) mod 4096\<rparr>"
    have d: "tb_ok ?b" "tb_cells ?b = cs" using tb_drop_last [OF Suc.prems(1) e] by simp_all
    then have dl: "tb_len ?b = length cs" using length_tb_cells [of ?b] by simp
    show ?thesis
    proof (cases "erasable go (x, fl)")
      case True
      have "erase_loop (Suc fuel) go b n = erase_loop fuel go ?b (n + 1)"
        using True l by (simp add: erasable_def TTY_BUFSIZ_def Let_def)
      moreover obtain b' where "erase_loop fuel go ?b (n + 1) =
          Some (b', n + 1 + int (tb_len ?b) - int (tb_len b'))" "tb_ok b'"
          "tb_cells b' = rev (dropWhile (erasable go) (rev (tb_cells ?b)))"
        using Suc.IH [OF d(1), of "n + 1"] dl l(2) Suc.prems(2) by auto
      ultimately show ?thesis using True e d(2) dl l(2) by auto
    next
      case False
      then have "erase_loop (Suc fuel) go b n = Some (b, n)"
        using l by (auto simp: erasable_def TTY_BUFSIZ_def Let_def)
      with False e Suc.prems(1) show ?thesis by simp
    qed
  qed
qed

lemma tty_buf_erasew_spec:
  assumes "tb_ok b" "4096 \<le> fuel"
  shows "\<exists>b'. tty_buf_erasew fuel b = Some (int (tb_len b) - int (tb_len b'), b') \<and> tb_ok b' \<and>
     tb_cells b' = rev (dropWhile (erasable (\<lambda>c. \<not> isspace c))
                         (dropWhile (erasable isspace) (rev (tb_cells b))))"
proof (cases "tb_head b = tb_tail b")
  case True
  then have "tb_cells b = []" using tb_empty_iff [OF assms(1)] by (simp add: tb_cells_Nil)
  with True assms(1) show ?thesis by (simp add: tty_buf_erasew_def)
next
  case False
  have f: "tb_len b \<le> fuel" for b using tb_len_lt [of b] assms(2) by simp
  obtain b1 where b1: "erase_loop fuel isspace b 0 = Some (b1, int (tb_len b) - int (tb_len b1))"
      "tb_ok b1" "tb_cells b1 = rev (dropWhile (erasable isspace) (rev (tb_cells b)))"
    using erase_loop_spec [OF assms(1) f, of isspace 0] by auto
  obtain b2 where "erase_loop fuel (\<lambda>c. \<not> isspace c) b1 (int (tb_len b) - int (tb_len b1)) =
        Some (b2, int (tb_len b) - int (tb_len b1) + int (tb_len b1) - int (tb_len b2))"
      "tb_ok b2" "tb_cells b2 = rev (dropWhile (erasable (\<lambda>c. \<not> isspace c)) (rev (tb_cells b1)))"
    using erase_loop_spec [OF b1(2) f] by blast
  with b1 False show ?thesis by (simp add: tty_buf_erasew_def)
qed

section \<open>The buffer is a bounded queue of characters\<close>

definition tb_put :: "tty_buf \<Rightarrow> u8 \<Rightarrow> tty_buf option" where
  "tb_put b c = (if fst (tty_buf_putc b c) < 0 then None else Some (snd (tty_buf_putc b c)))"

definition tb_get :: "tty_buf \<Rightarrow> (u8 \<times> tty_buf) option" where
  "tb_get b = (case tty_buf_getc b 0 of (r, c, b') \<Rightarrow> if r < 0 then None else Some (c, b'))"

interpretation ttyq: bounded_queue tb_ok "\<lambda>_. 4095" "\<lambda>b. map fst (tb_cells b)" tb_put tb_get
proof
  fix b assume ok: "tb_ok b"
  show "length (map fst (tb_cells b)) \<le> 4095" using tb_len_lt [of b] by simp
  show "\<exists>b'. tb_put b c = Some b' \<and> tb_ok b' \<and> (4095::nat) = 4095 \<and>
      map fst (tb_cells b') = map fst (tb_cells b) @ [c]"
    if "length (map fst (tb_cells b)) < 4095" for c
    using tb_putc(2) [OF ok, of c] that by (simp add: tb_put_def)
  show "tb_put b c = None" if "length (map fst (tb_cells b)) = 4095" for c
    using tb_putc(1) [OF ok] that by (simp add: tb_put_def)
  show "tb_get b = None" if "map fst (tb_cells b) = []"
    using tb_getc_empty [OF ok] that by (simp add: tb_get_def)
  show "\<exists>b'. tb_get b = Some (c, b') \<and> tb_ok b' \<and> (4095::nat) = 4095 \<and> map fst (tb_cells b') = cs"
    if "map fst (tb_cells b) = c # cs" for c cs
  proof -
    from that obtain fl rest where "tb_cells b = (c, fl) # rest" "map fst rest = cs"
      by (cases "tb_cells b") auto
    with tb_getc [OF ok, of c fl rest 0] show ?thesis by (auto simp: tb_get_def)
  qed
qed

section \<open>Properties\<close>

lemma dropWhile_stop: "ys = [] \<or> \<not> P (hd ys) \<Longrightarrow> dropWhile P (xs @ ys) = dropWhile P xs @ ys"
  by (cases ys) (auto simp: dropWhile_append)

lemma dropWhile_erasable:
  "\<forall>p \<in> set es. snd p AND TTY_BF_END = 0 \<Longrightarrow> dropWhile (erasable go) es = dropWhile (\<lambda>p. go (fst p)) es"
  by (induction es) (simp_all add: erasable_def)

text \<open>
  Erasing stops at the last delivered line: with a queue whose cells are the delivered ones (up to
  a cell marked as the end of a line) and the line being typed, erasing a character takes the last
  one typed, if there is one, and erasing a word takes the spaces at the end and the word before
  them; the delivered cells stay.
\<close>

theorem erase_keeps_delivered:
  assumes "tb_ok b" "4096 \<le> fuel" "tb_cells b = ds @ es"
    "ds = [] \<or> snd (last ds) AND TTY_BF_END \<noteq> 0" "\<forall>p \<in> set es. snd p AND TTY_BF_END = 0"
  shows "tb_ok (snd (tty_buf_erase b)) \<and> tb_cells (snd (tty_buf_erase b)) = ds @ butlast es \<and>
     (\<exists>r b'. tty_buf_erasew fuel b = Some (r, b') \<and> tb_ok b' \<and>
        tb_cells b' = ds @ rev (dropWhile (\<lambda>p. \<not> isspace (fst p))
                              (dropWhile (\<lambda>p. isspace (fst p)) (rev es))))"
proof -
  have one: "tb_ok (snd (tty_buf_erase b)) \<and> tb_cells (snd (tty_buf_erase b)) = ds @ butlast es"
  proof (cases es rule: rev_cases)
    case Nil
    show ?thesis
    proof (cases ds rule: rev_cases)
      case Nil2: Nil
      then show ?thesis using tb_erase_empty [OF assms(1)] assms(1,3) Nil by simp
    next
      case (snoc ds' d)
      then show ?thesis
        using tb_erase [OF assms(1), of ds' "fst d" "snd d"] assms(3,4) Nil by simp
    qed
  next
    case (snoc es' e)
    then show ?thesis
      using tb_erase [OF assms(1), of "ds @ es'" "fst e" "snd e"] assms(3,5) by simp
  qed
  have stop: "dropWhile (erasable go) (xs @ rev ds) = dropWhile (erasable go) xs @ rev ds" for go xs
    using assms(4) by (intro dropWhile_stop) (auto simp: erasable_def hd_rev)
  have es: "\<forall>p \<in> set (rev es). snd p AND TTY_BF_END = 0"
    "\<forall>p \<in> set (dropWhile (\<lambda>p. isspace (fst p)) (rev es)). snd p AND TTY_BF_END = 0"
    using assms(5) set_dropWhileD [of _ "\<lambda>p. isspace (fst p)" "rev es"] by auto
  obtain b' where "tty_buf_erasew fuel b = Some (int (tb_len b) - int (tb_len b'), b')" "tb_ok b'"
      "tb_cells b' = rev (dropWhile (erasable (\<lambda>c. \<not> isspace c))
                         (dropWhile (erasable isspace) (rev (tb_cells b))))"
    using tty_buf_erasew_spec [OF assms(1,2)] by blast
  then have "\<exists>r b'. tty_buf_erasew fuel b = Some (r, b') \<and> tb_ok b' \<and>
      tb_cells b' = ds @ rev (dropWhile (\<lambda>p. \<not> isspace (fst p)) (dropWhile (\<lambda>p. isspace (fst p)) (rev es)))"
    using assms(3) by (simp add: stop dropWhile_erasable es)
  with one show ?thesis by blast
qed

text \<open>An empty buffer, and the buffer after two characters were typed.\<close>

definition empty_buf :: tty_buf where
  "empty_buf = \<lparr>tb_buf = replicate 4096 0, tb_flags = replicate 4096 0, tb_head = 0, tb_tail = 0\<rparr>"

lemma empty_buf_ok: "tb_ok empty_buf" "tb_cells empty_buf = []"
  using tb_init_ok [of empty_buf] by (simp_all add: empty_buf_def tty_buf_init_def)

lemma erase_keeps_delivered_witness:
  "\<exists>b b'. tb_cells b = [(97, 0)] \<and> tb_cells (snd (tty_buf_erase b)) = [] \<and>
     tty_buf_erasew 4096 b = Some b' \<and> tb_cells (snd b') = []"
proof -
  let ?b = "snd (tty_buf_putc empty_buf 97)"
  have b: "tb_ok ?b" "tb_cells ?b = [(97, 0)]"
    using tb_putc(2) [OF empty_buf_ok(1), of 97] empty_buf_ok(2) tb_cells_Nil [of empty_buf] by simp_all
  have sp: "\<not> isspace 97" by (simp add: isspace_def)
  obtain r b' where "tb_cells (snd (tty_buf_erase ?b)) = []" "tty_buf_erasew 4096 ?b = Some (r, b')"
      "tb_cells b' = []"
    using erase_keeps_delivered [OF b(1), of 4096 "[]" "[(97, 0)]"] b(2) sp by auto
  then show ?thesis using b(2) by (intro exI [of _ ?b] exI [of _ "(r, b')"]) simp
qed

text \<open>
  The terminal buffer is a first-in first-out queue of at most 4095 characters: along every
  sequence of \<open>tty_buf_putc\<close> and \<open>tty_buf_getc\<close> the accepted characters are the ones read followed by
  the ones left.
\<close>

theorem tty_buffer_order:
  assumes "tb_ok b" "qrun tb_put tb_get ops b = (acc, got, b')"
  shows "map fst (tb_cells b) @ acc = got @ map fst (tb_cells b') \<and> length (tb_cells b') \<le> 4095"
proof -
  have "tb_ok b'" "map fst (tb_cells b) @ acc = got @ map fst (tb_cells b')"
    using ttyq.fifo_order [OF assms(1), of ops] assms(2) by simp_all
  then show ?thesis using ttyq.content_cap [of b'] by simp
qed

lemma tty_buffer_order_witness:
  "\<exists>acc got b'. qrun tb_put tb_get [Put 1, Put 2, Get] empty_buf = (acc, got, b') \<and>
     acc = got @ map fst (tb_cells b')"
proof -
  obtain acc got b' where q: "qrun tb_put tb_get [Put 1, Put 2, Get] empty_buf = (acc, got, b')"
    by (metis prod_cases3)
  show ?thesis using tty_buffer_order [OF empty_buf_ok(1) q] q empty_buf_ok(2) by auto
qed

end
