(* ===== verification/Tty.thy ===== *)
theory Tty
  imports Tty_Buffer
begin

text \<open>
  kernel/dev/tty/tty.c: the line discipline. The state is \<open>tty_t\<close>; what it does to the rest of
  the system (bytes handed to the driver's \<open>out\<close>, tasks made runnable, signals sent to the
  foreground group, timers armed) is appended to a log, in the order of the code.

  A call that blocks gives up the processor inside \<open>task_block\<close>; what the other tasks and the
  interrupt handlers do to the terminal until the call resumes is given by a list of wake-ups,
  one function on the state per blocking, and a call still blocked when the list is used up
  returns \<open>Blocked\<close>.
\<close>

section \<open>Constants and state\<close>

definition IGNCR :: u32 where "IGNCR = 128"
definition ICRNL :: u32 where "ICRNL = 256"
definition IXON :: u32 where "IXON = 1024"
definition IXOFF :: u32 where "IXOFF = 4096"
definition OPOST :: u32 where "OPOST = 1"
definition OLCUC :: u32 where "OLCUC = 2"
definition ONLCR :: u32 where "ONLCR = 4"
definition CS8 :: u32 where "CS8 = 48"
definition CREAD :: u32 where "CREAD = 128"
definition CLOCAL :: u32 where "CLOCAL = 2048"
definition ISIG :: u32 where "ISIG = 1"
definition ICANON :: u32 where "ICANON = 2"
definition ECHO :: u32 where "ECHO = 8"
definition ECHOE :: u32 where "ECHOE = 16"
definition ECHOK :: u32 where "ECHOK = 32"
definition ECHONL :: u32 where "ECHONL = 64"
definition NOFLSH :: u32 where "NOFLSH = 128"

lemmas tty_flag_defs = IGNCR_def ICRNL_def IXON_def IXOFF_def OPOST_def OLCUC_def ONLCR_def
  CS8_def CREAD_def CLOCAL_def ISIG_def ICANON_def ECHO_def ECHOE_def ECHOK_def ECHONL_def NOFLSH_def

text \<open>Indices into \<open>c_cc\<close>.\<close>

abbreviation "VINTR \<equiv> 0 :: nat"
abbreviation "VQUIT \<equiv> 1 :: nat"
abbreviation "VERASE \<equiv> 2 :: nat"
abbreviation "VKILL \<equiv> 3 :: nat"
abbreviation "VEOF \<equiv> 4 :: nat"
abbreviation "VTIME \<equiv> 5 :: nat"
abbreviation "VMIN \<equiv> 6 :: nat"
abbreviation "VSTART \<equiv> 8 :: nat"
abbreviation "VSTOP \<equiv> 9 :: nat"
abbreviation "VSUSP \<equiv> 10 :: nat"
abbreviation "VEOL \<equiv> 11 :: nat"
abbreviation "VEOL2 \<equiv> 16 :: nat"

record termios =
  c_iflag :: u32
  c_oflag :: u32
  c_cflag :: u32
  c_lflag :: u32
  c_cc :: bytes

datatype tty_event = Out bytes | Unblock int | Kill int int | Timer u64

record tty =
  t_stop :: int
  t_istop :: int
  t_pgrp :: int
  t_iwaiter :: int
  t_owaiter :: int
  t_ibuf :: tty_buf
  t_obuf :: tty_buf
  t_reqlen :: size_t
  t_timeout :: bool
  t_tio :: termios
  t_log :: "tty_event list"

type_synonym wake = "tty \<Rightarrow> tty"

text \<open>The outcome of a call that may block, with the wake-ups it has not used.\<close>

datatype 'a call = Done "wake list" tty 'a | Blocked tty | Faults fault

definition then_do :: "'a call \<Rightarrow> (wake list \<Rightarrow> tty \<Rightarrow> 'a \<Rightarrow> 'b call) \<Rightarrow> 'b call" where
  "then_do m f = (case m of Done ws t a \<Rightarrow> f ws t a | Blocked t \<Rightarrow> Blocked t | Faults e \<Rightarrow> Faults e)"

definition FC :: "u32 \<Rightarrow> u32 \<Rightarrow> bool" where
  "FC x y \<longleftrightarrow> x AND y = y"

abbreviation FC_IFLAG :: "tty \<Rightarrow> u32 \<Rightarrow> bool" where "FC_IFLAG t y \<equiv> FC (c_iflag (t_tio t)) y"
abbreviation FC_OFLAG :: "tty \<Rightarrow> u32 \<Rightarrow> bool" where "FC_OFLAG t y \<equiv> FC (c_oflag (t_tio t)) y"
abbreviation FC_LFLAG :: "tty \<Rightarrow> u32 \<Rightarrow> bool" where "FC_LFLAG t y \<equiv> FC (c_lflag (t_tio t)) y"

definition emit :: "tty_event \<Rightarrow> tty \<Rightarrow> tty" where
  "emit e t = t\<lparr>t_log := t_log t @ [e]\<rparr>"

text \<open>
  \<open>task_unblock\<close> indexes the task table, which has 16 entries, with the number it is given (that
  the entry is in use is asserted by the scheduler, \<open>Sched.task_unblock\<close>).
\<close>

definition unblock :: "int \<Rightarrow> tty \<Rightarrow> tty result" where
  "unblock pid t = (if 0 \<le> pid \<and> pid < 16 then Inr (emit (Unblock pid) t) else Inl BadAccess)"

definition cc_of :: "tty \<Rightarrow> nat \<Rightarrow> u8" where
  "cc_of t i = c_cc (t_tio t) ! i"

text \<open>\<open>cc[i] == *p\<close>: an unsigned char against a char, which is signed.\<close>

definition cc_is :: "tty \<Rightarrow> nat \<Rightarrow> u8 \<Rightarrow> bool" where
  "cc_is t i c \<longleftrightarrow> uint (cc_of t i) = sint c"

section \<open>Output\<close>

text \<open>\<open>tty_nc_timeout\<close>: the timer callback of the non-canonical mode.\<close>

definition tty_nc_timeout :: "tty \<Rightarrow> tty result" where
  "tty_nc_timeout t =
     (let t1 = t\<lparr>t_ibuf := snd (tty_buf_mark (t_ibuf t) TTY_BF_END), t_timeout := True\<rparr>
      in if t_iwaiter t1 \<ge> 0
         then bind_result (unblock (t_iwaiter t1) t1) (\<lambda>t2. Inr (t2\<lparr>t_iwaiter := - 1\<rparr>))
         else Inr t1)"

definition tflow :: "tty \<Rightarrow> int \<Rightarrow> tty" where
  "tflow t stop =
     (if \<not> FC_IFLAG t IXOFF then t
      else if t_istop t = stop then t
      else t\<lparr>t_istop := stop\<rparr>)"

text \<open>\<open>tputc\<close>: \<open>pid\<close> is \<open>task_current()->pid\<close>.\<close>

fun tputc :: "int \<Rightarrow> wake list \<Rightarrow> tty \<Rightarrow> u8 \<Rightarrow> unit call" where
  "tputc pid ws t c =
     (if t_stop t \<noteq> 0 then
        (case tty_buf_putc (t_obuf t) c of
           (r, b) \<Rightarrow>
             if r < 0 then
               (case ws of
                  [] \<Rightarrow> Blocked (t\<lparr>t_owaiter := pid\<rparr>)
                | w # ws' \<Rightarrow> tputc pid ws' (w (t\<lparr>t_owaiter := pid\<rparr>)) c)
             else Done ws (t\<lparr>t_obuf := b\<rparr>) ())
      else Done ws (emit (Out [c]) t) ())"

declare tputc.simps [simp del]

definition iputc :: "tty \<Rightarrow> u8 \<Rightarrow> tty" where
  "iputc t c =
     (let rem = tty_buf_rems (t_ibuf t)
      in if rem \<noteq> 0 then
           (let t1 = t\<lparr>t_ibuf := snd (tty_buf_putc (t_ibuf t) c)\<rparr>
            in if rem - 1 = 0 then tflow t1 1 else t1)
         else t)"

definition islower_c :: "u8 \<Rightarrow> bool" where
  "islower_c c \<longleftrightarrow> 97 \<le> sint c \<and> sint c \<le> 122"

definition opost :: "int \<Rightarrow> wake list \<Rightarrow> tty \<Rightarrow> u8 \<Rightarrow> unit call" where
  "opost pid ws t c =
     (if FC_OFLAG t OPOST then
        (let c1 = (if FC_OFLAG t OLCUC \<and> islower_c c then c AND NOT 32 else c)
         in then_do (if FC_OFLAG t ONLCR \<and> c1 = 10 then tputc pid ws t 13 else Done ws t ())
              (\<lambda>ws1 t1 _. tputc pid ws1 t1 c1))
      else tputc pid ws t c)"

definition tdeliver :: "tty \<Rightarrow> tty result" where
  "tdeliver t =
     (let t1 = t\<lparr>t_ibuf := snd (tty_buf_mark (t_ibuf t) TTY_BF_END)\<rparr>
      in if t_iwaiter t1 \<ge> 0
         then bind_result (unblock (t_iwaiter t1) t1) (\<lambda>t2. Inr (t2\<lparr>t_iwaiter := - 1\<rparr>))
         else Inr t1)"

definition tstop :: "tty \<Rightarrow> int \<Rightarrow> tty result" where
  "tstop t st =
     (if \<not> FC_IFLAG t IXON then Inr t
      else let t1 = t\<lparr>t_stop := st\<rparr>
           in if st = 0 then
                (let t2 = emit (Out (take (nat (tb_tail (t_obuf t1))) (tb_buf (t_obuf t1)))) t1;
                     t3 = t2\<lparr>t_obuf := tty_buf_kill (t_obuf t2)\<rparr>
                 in if t_owaiter t3 \<ge> 0
                    then bind_result (unblock (t_owaiter t3) t3) (\<lambda>t4. Inr (t4\<lparr>t_owaiter := - 1\<rparr>))
                    else Inr t3)
              else Inr t1)"

definition tsig :: "tty \<Rightarrow> int \<Rightarrow> tty" where
  "tsig t sig =
     (let t1 = (if \<not> FC_LFLAG t NOFLSH then t\<lparr>t_ibuf := tty_buf_kill (t_ibuf t)\<rparr> else t)
      in if FC_LFLAG t1 ISIG then emit (Kill (- t_pgrp t1) sig) t1 else t1)"

section \<open>Input\<close>

definition lift_res :: "wake list \<Rightarrow> tty result \<Rightarrow> unit call" where
  "lift_res ws r = (case r of Inl e \<Rightarrow> Faults e | Inr t \<Rightarrow> Done ws t ())"

text \<open>The last part of the loop body of \<open>tty_feed\<close>: an ordinary character.\<close>

definition feed_plain :: "int \<Rightarrow> wake list \<Rightarrow> tty \<Rightarrow> u8 \<Rightarrow> unit call" where
  "feed_plain pid ws t c =
     (let t1 = iputc t c in
      then_do
        (if \<not> FC_LFLAG t1 ICANON then
           (let t2 = (if cc_of t1 VTIME \<noteq> 0 \<and> cc_of t1 VMIN \<noteq> 0
                      then emit (Timer (ucast (cc_of t1 VTIME) * 100)) t1 else t1);
                t3 = (if t_reqlen t2 \<noteq> 0 then t2\<lparr>t_reqlen := t_reqlen t2 - 1\<rparr> else t2)
            in if (t_reqlen t2 \<noteq> 0 \<and> t_reqlen t3 = 0) \<or> tty_buf_full (t_ibuf t3) \<noteq> 0
               then lift_res ws (unblock (t_iwaiter t3) t3)
               else Done ws t3 ())
         else Done ws t1 ())
        (\<lambda>ws1 t4 _. opost pid ws1 t4 c))"

text \<open>The control characters that act in both modes.\<close>

definition feed_control :: "int \<Rightarrow> wake list \<Rightarrow> tty \<Rightarrow> u8 \<Rightarrow> unit call" where
  "feed_control pid ws t c =
     (if cc_is t VINTR c then Done ws (tsig t 2) ()
      else if cc_is t VQUIT c then Done ws (tsig t 3) ()
      else if cc_is t VSTART c then lift_res ws (tstop t 0)
      else if cc_is t VSTOP c then lift_res ws (tstop t 1)
      else if cc_is t VSUSP c then Done ws (tsig t 20) ()
      else feed_plain pid ws t c)"

text \<open>The canonical mode part of the loop body.\<close>

definition feed_canon :: "int \<Rightarrow> wake list \<Rightarrow> tty \<Rightarrow> u8 \<Rightarrow> unit call" where
  "feed_canon pid ws t c =
     (if cc_is t VEOF c then lift_res ws (tdeliver t)
      else if c = 10 \<or> cc_is t VEOL c \<or> cc_is t VEOL2 c then
        then_do (if FC_LFLAG t ECHO \<or> FC_LFLAG t ECHONL then opost pid ws t 10 else Done ws t ())
          (\<lambda>ws1 t1 _. lift_res ws1 (tdeliver (iputc t1 10)))
      else if cc_is t VERASE c then
        then_do
          (if FC_LFLAG t (ECHO OR ECHOE) then
             then_do (tputc pid ws t 8)
               (\<lambda>ws1 t1 _. then_do (tputc pid ws1 t1 32) (\<lambda>ws2 t2 _. tputc pid ws2 t2 8))
           else Done ws t ())
          (\<lambda>ws1 t1 _. Done ws1 (t1\<lparr>t_ibuf := snd (tty_buf_erase (t_ibuf t1))\<rparr>) ())
      else if cc_is t VKILL c then Done ws (t\<lparr>t_ibuf := tty_buf_kill (t_ibuf t)\<rparr>) ()
      else feed_control pid ws t c)"

text \<open>One iteration of the loop of \<open>tty_feed\<close>.\<close>

definition feed_char :: "int \<Rightarrow> wake list \<Rightarrow> tty \<Rightarrow> u8 \<Rightarrow> unit call" where
  "feed_char pid ws t c =
     (if c = 13 \<and> FC_IFLAG t IGNCR then Done ws t ()
      else let c1 = (if c = 13 \<and> FC_IFLAG t ICRNL then 10 else c)
           in if FC_LFLAG t ICANON then feed_canon pid ws t c1 else feed_control pid ws t c1)"

primrec tty_feed :: "int \<Rightarrow> wake list \<Rightarrow> tty \<Rightarrow> bytes \<Rightarrow> int \<Rightarrow> int call" where
  "tty_feed pid ws t [] cnt = Done ws t cnt"
| "tty_feed pid ws t (c # cs) cnt =
     then_do (feed_char pid ws t c) (\<lambda>ws1 t1 _. tty_feed pid ws1 t1 cs (cnt + 1))"

definition tty_rxb :: "int \<Rightarrow> wake list \<Rightarrow> tty \<Rightarrow> bytes \<Rightarrow> int call" where
  "tty_rxb pid ws t buf = tty_feed pid ws t buf 0"

section \<open>Reading and writing\<close>

text \<open>
  \<open>tty_fetch\<close>: \<open>c\<close> is the local variable of the same name (its first value is whatever the stack
  holds), \<open>k\<close> the room left in the caller's buffer. A flag of -1 after a wake-up that brought no
  data satisfies the end test, and the old value of \<open>c\<close> is stored.
\<close>

primrec tty_fetch :: "int \<Rightarrow> nat \<Rightarrow> wake list \<Rightarrow> tty \<Rightarrow> u8 \<Rightarrow> bytes call" where
  "tty_fetch pid 0 ws t c = Done ws t []"
| "tty_fetch pid (Suc k) ws t c =
     (let rd = (\<lambda>ws (flag, c1, b) t.
            let t1 = t\<lparr>t_ibuf := b\<rparr>
            in if flag AND 1 = 1 then Done ws t1 [c1]
               else then_do (tty_fetch pid k ws t1 c1) (\<lambda>ws2 t2 r. Done ws2 t2 (c1 # r)))
      in if fst (tty_buf_getc (t_ibuf t) c) < 0 then
           (let t0 = t\<lparr>t_iwaiter := pid\<rparr>
            in case ws of
                 [] \<Rightarrow> Blocked t0
               | w # ws' \<Rightarrow> rd ws' (tty_buf_getc (t_ibuf (w t0)) c) (w t0))
         else rd ws (tty_buf_getc (t_ibuf t) c) t)"

text \<open>
  \<open>tty_fetch_nc\<close>: the inner loop and the \<open>goto repeat\<close> are one recursion on fuel; a run out of fuel
  is \<open>None\<close>. \<open>reset\<close> is computed once, at the start; \<open>acc\<close> holds the bytes read, newest first.
  The code after the inner loop returns or goes back to it.
\<close>

definition nc_leave :: "tty \<Rightarrow> bytes \<Rightarrow> bool" where
  "nc_leave t acc \<longleftrightarrow> (cc_of t VTIME \<noteq> 0 \<and> t_timeout t) \<or> t_reqlen t = 0 \<or>
     unat (cc_of t VMIN) \<le> length acc"

fun tty_fetch_nc :: "nat \<Rightarrow> int \<Rightarrow> wake list \<Rightarrow> tty \<Rightarrow> u8 \<Rightarrow> bytes \<Rightarrow> bytes call option" where
  "tty_fetch_nc 0 reset ws t c acc = None"
| "tty_fetch_nc (Suc fuel) reset ws t c acc =
     (if t_timeout t \<or> t_reqlen t = 0 then
        (if nc_leave t acc then Some (Done ws t (rev acc)) else tty_fetch_nc fuel reset ws t c acc)
      else case tty_buf_getc (t_ibuf t) c of
        (flag, c1, b) \<Rightarrow>
          if flag < 0 then
            (let t1 = (if reset = 0 \<and> cc_of t VTIME \<noteq> 0
                       then emit (Timer (ucast (cc_of t VTIME) * 100)) t else t)
             in if unat (cc_of t1 VMIN) \<le> length acc then
                  (if nc_leave t1 acc then Some (Done ws t1 (rev acc))
                   else tty_fetch_nc fuel reset ws t1 c acc)
                else case ws of
                  [] \<Rightarrow> Some (Blocked t1)
                | w # ws' \<Rightarrow> tty_fetch_nc fuel reset ws' (w t1) c acc)
          else
            (let t1 = t\<lparr>t_ibuf := b, t_reqlen := t_reqlen t - 1\<rparr>; acc1 = c1 # acc
             in if reset \<noteq> 0 \<and> flag AND 1 = 1 \<and> nc_leave t1 acc1
                then Some (Done ws t1 (rev acc1))
                else tty_fetch_nc fuel reset ws t1 c1 acc1))"

text \<open>
  \<open>tty_read\<close>: TTY\_XONSIZ is \<open>0.8 * 4096\<close>, so the test \<open>rems >= TTY_XONSIZ\<close> is \<open>rems >= 3277\<close>.
\<close>

definition tty_read :: "int \<Rightarrow> nat \<Rightarrow> wake list \<Rightarrow> tty \<Rightarrow> u8 \<Rightarrow> size_t \<Rightarrow> bytes call option" where
  "tty_read pid fuel ws t c len =
     map_option
       (\<lambda>m. then_do m (\<lambda>ws1 t1 r.
          Done ws1 (if 3277 \<le> tty_buf_rems (t_ibuf t1) then tflow t1 0 else t1) r))
       (if FC_LFLAG t ICANON then Some (tty_fetch pid (unat len) ws t c)
        else tty_fetch_nc fuel (uint (cc_of t VTIME) * uint (cc_of t VMIN)) ws
               (t\<lparr>t_reqlen := len, t_timeout := False\<rparr>) c [])"

primrec tty_write :: "int \<Rightarrow> wake list \<Rightarrow> tty \<Rightarrow> bytes \<Rightarrow> int \<Rightarrow> int call" where
  "tty_write pid ws t [] cnt = Done ws t cnt"
| "tty_write pid ws t (c # cs) cnt =
     then_do (opost pid ws t c) (\<lambda>ws1 t1 _. tty_write pid ws1 t1 cs (cnt + 1))"

text \<open>
  \<open>tty_ioctl\<close>: the object behind \<open>argp\<close> is a \<open>termios\<close>, a process group or something the driver's
  \<open>ctl\<close> (a parameter) knows about; an object of the wrong kind is a bad access. The result is the
  return value, the object afterwards and the terminal.
\<close>

datatype ioarg = ATermios termios | APid int | AOther

definition tty_ioctl ::
  "(int \<Rightarrow> ioarg \<Rightarrow> int \<times> ioarg) \<Rightarrow> tty \<Rightarrow> int \<Rightarrow> ioarg \<Rightarrow> (int \<times> ioarg \<times> tty) result"
where
  "tty_ioctl ctl t req argp =
     (if req = 21505 then
        (case argp of ATermios _ \<Rightarrow> Inr (0, ATermios (t_tio t), t) | _ \<Rightarrow> Inl BadAccess)
      else if req = 21506 then
        (case argp of ATermios tio \<Rightarrow> Inr (0, argp, t\<lparr>t_tio := tio\<rparr>) | _ \<Rightarrow> Inl BadAccess)
      else if req = 21507 \<or> req = 21508 then Inr (- EINVAL, argp, t)
      else if req = 21519 then
        (case argp of APid _ \<Rightarrow> Inr (0, APid (t_pgrp t), t) | _ \<Rightarrow> Inl BadAccess)
      else if req = 21520 then
        (case argp of APid p \<Rightarrow> Inr (0, argp, t\<lparr>t_pgrp := p\<rparr>) | _ \<Rightarrow> Inl BadAccess)
      else case ctl req argp of (r, a) \<Rightarrow> Inr (r, a, t))"

text \<open>The state \<open>tty_register\<close> sets up; the fields it leaves alone keep their old values.\<close>

definition default_cc :: bytes where
  "default_cc = [3, 28, 127, 21, 4, 0, 1, 0, 17, 19, 26] @ replicate 21 0"

definition tty_register :: "tty \<Rightarrow> tty" where
  "tty_register t =
     t\<lparr>t_stop := 0, t_pgrp := 0, t_iwaiter := - 1, t_owaiter := - 1,
       t_ibuf := tty_buf_init (t_ibuf t), t_obuf := tty_buf_init (t_obuf t),
       t_tio := \<lparr>c_iflag = ICRNL OR IXON, c_oflag = OPOST OR ONLCR,
                c_cflag = CS8 OR CREAD OR CLOCAL,
                c_lflag = ISIG OR ICANON OR ECHO OR ECHOE OR ECHOK,
                c_cc = default_cc\<rparr>\<rparr>"

section \<open>Properties of the parts\<close>

lemma then_do_simps [simp]:
  "then_do (Done ws t a) f = f ws t a" "then_do (Blocked t) f = Blocked t"
  "then_do (Faults e) f = Faults e"
  by (simp_all add: then_do_def)

lemma lift_res_simps [simp]:
  "lift_res ws (Inr t) = Done ws t ()" "lift_res ws (Inl e) = Faults e"
  by (simp_all add: lift_res_def)

lemma tputc_running: "t_stop t = 0 \<Longrightarrow> tputc pid ws t c = Done ws (emit (Out [c]) t) ()"
  by (simp add: tputc.simps)

lemma tputc_stopped:
  assumes "t_stop t \<noteq> 0" "tb_ok (t_obuf t)" "tb_len (t_obuf t) < 4095"
  shows "tputc pid ws t c = Done ws (t\<lparr>t_obuf := snd (tty_buf_putc (t_obuf t) c)\<rparr>) ()"
  using tb_putc(2) [OF assms(2,3), of c] assms(1)
  by (cases "tty_buf_putc (t_obuf t) c") (simp add: tputc.simps)

text \<open>
  Output of a running terminal only appends to the log, whatever the output flags are.
\<close>

lemma opost_running:
  assumes "t_stop t = 0"
  shows "\<exists>bs. opost pid ws t c = Done ws (t\<lparr>t_log := t_log t @ map (\<lambda>b. Out [b]) bs\<rparr>) ()"
proof -
  define c1 where "c1 = (if FC_OFLAG t OLCUC \<and> islower_c c then c AND NOT 32 else c)"
  have "opost pid ws t c =
      (if FC_OFLAG t OPOST then
         (if FC_OFLAG t ONLCR \<and> c1 = 10
          then then_do (tputc pid ws t 13) (\<lambda>ws1 t1 _. tputc pid ws1 t1 c1) else tputc pid ws t c1)
       else tputc pid ws t c)"
    unfolding opost_def Let_def c1_def [symmetric] by simp
  then show ?thesis
    using assms
    by (intro exI [of _ "if FC_OFLAG t OPOST then if FC_OFLAG t ONLCR \<and> c1 = 10 then [13, c1] else [c1]
                         else [c]"])
      (simp add: tputc_running emit_def)
qed

lemma iputc_room:
  assumes "tb_ok (t_ibuf t)" "tb_len (t_ibuf t) < 4095"
  shows "\<exists>i b. iputc t c = t\<lparr>t_ibuf := b, t_istop := i\<rparr> \<and> tb_ok b \<and>
     tb_cells b = tb_cells (t_ibuf t) @ [(c, 0)]"
proof -
  let ?b = "snd (tty_buf_putc (t_ibuf t) c)"
  have r: "tty_buf_rems (t_ibuf t) \<noteq> 0" using tb_rems [OF assms(1)] assms(2) by simp
  have "tflow (t\<lparr>t_ibuf := ?b\<rparr>) 1 = t\<lparr>t_ibuf := ?b, t_istop := t_istop (tflow (t\<lparr>t_ibuf := ?b\<rparr>) 1)\<rparr>"
    by (simp add: tflow_def)
  then have "\<exists>i. iputc t c = t\<lparr>t_ibuf := ?b, t_istop := i\<rparr>"
    using r by (cases "tty_buf_rems (t_ibuf t) - 1 = 0") (auto simp: iputc_def Let_def intro: exI [of _ "t_istop t"])
  with tb_putc(2) [OF assms, of c] show ?thesis by blast
qed

text \<open>A character that no control function of the canonical mode claims.\<close>

definition plain_char :: "tty \<Rightarrow> u8 \<Rightarrow> bool" where
  "plain_char t c \<longleftrightarrow> c \<noteq> 10 \<and> c \<noteq> 13 \<and>
     (\<forall>i \<in> {VEOF, VEOL, VEOL2, VERASE, VKILL, VINTR, VQUIT, VSTART, VSTOP, VSUSP}. \<not> cc_is t i c)"

definition line_mode :: "tty \<Rightarrow> bool" where
  "line_mode t \<longleftrightarrow> FC_LFLAG t ICANON \<and> t_stop t = 0 \<and> tb_ok (t_ibuf t)"

lemma cc_is_cong: "t_tio t' = t_tio t \<Longrightarrow> cc_is t' i c = cc_is t i c"
  by (simp add: cc_is_def cc_of_def)

lemma feed_char_plain:
  assumes "line_mode t" "plain_char t c" "tb_len (t_ibuf t) < 4095"
  shows "\<exists>i b l. feed_char pid ws t c = Done ws (t\<lparr>t_ibuf := b, t_istop := i, t_log := l\<rparr>) () \<and>
     tb_ok b \<and> tb_cells b = tb_cells (t_ibuf t) @ [(c, 0)]"
proof -
  have m: "FC_LFLAG t ICANON" "t_stop t = 0" "tb_ok (t_ibuf t)"
    using assms(1) by (simp_all add: line_mode_def)
  have f: "feed_char pid ws t c = feed_plain pid ws t c"
    using assms(2) m(1) by (simp add: feed_char_def feed_canon_def feed_control_def plain_char_def)
  obtain i b where ib: "iputc t c = t\<lparr>t_ibuf := b, t_istop := i\<rparr>" "tb_ok b"
      "tb_cells b = tb_cells (t_ibuf t) @ [(c, 0)]"
    using iputc_room [OF m(3) assms(3)] by blast
  obtain bs where "opost pid ws (t\<lparr>t_ibuf := b, t_istop := i\<rparr>) c =
      Done ws (t\<lparr>t_ibuf := b, t_istop := i, t_log := t_log t @ map (\<lambda>b. Out [b]) bs\<rparr>) ()"
    using opost_running [of "t\<lparr>t_ibuf := b, t_istop := i\<rparr>" pid ws c] m(2) by auto
  then have "feed_plain pid ws t c =
      Done ws (t\<lparr>t_ibuf := b, t_istop := i, t_log := t_log t @ map (\<lambda>b. Out [b]) bs\<rparr>) ()"
    using m(1) by (simp add: feed_plain_def ib(1) Let_def)
  then show ?thesis unfolding f using ib(2,3) by blast
qed

lemma tty_feed_plain:
  assumes "line_mode t" "\<forall>c \<in> set s. plain_char t c" "tb_len (t_ibuf t) + length s \<le> 4095"
  shows "\<exists>i b l. (\<forall>cs. tty_feed pid ws t (s @ cs) n =
        tty_feed pid ws (t\<lparr>t_ibuf := b, t_istop := i, t_log := l\<rparr>) cs (n + int (length s))) \<and>
     tb_ok b \<and> tb_cells b = tb_cells (t_ibuf t) @ map (\<lambda>c. (c, 0)) s"
  using assms
proof (induction s arbitrary: t n)
  case Nil
  then show ?case
    by (intro exI [of _ "t_istop t"] exI [of _ "t_ibuf t"] exI [of _ "t_log t"])
      (simp add: line_mode_def)
next
  case (Cons c s)
  obtain i b l where step: "feed_char pid ws t c =
        Done ws (t\<lparr>t_ibuf := b, t_istop := i, t_log := l\<rparr>) ()" "tb_ok b"
      "tb_cells b = tb_cells (t_ibuf t) @ [(c, 0)]"
    using feed_char_plain [OF Cons.prems(1), of c pid ws] Cons.prems(2,3) by auto
  let ?t = "t\<lparr>t_ibuf := b, t_istop := i, t_log := l\<rparr>"
  have "length (tb_cells b) = Suc (tb_len (t_ibuf t))" using step(3) by simp
  then have len: "tb_len (t_ibuf ?t) + length s \<le> 4095" using Cons.prems(3) by simp
  have "line_mode ?t" using Cons.prems(1) step(2) by (simp add: line_mode_def)
  moreover have "\<forall>c \<in> set s. plain_char ?t c"
    using Cons.prems(2) cc_is_cong [of ?t t] by (simp add: plain_char_def)
  ultimately obtain i' b' l' where
    "\<forall>cs. tty_feed pid ws ?t (s @ cs) (n + 1) =
        tty_feed pid ws (?t\<lparr>t_ibuf := b', t_istop := i', t_log := l'\<rparr>) cs (n + 1 + int (length s))"
    "tb_ok b'" "tb_cells b' = tb_cells (t_ibuf ?t) @ map (\<lambda>c. (c, 0)) s"
    using Cons.IH [of ?t "n + 1"] len by blast
  with step show ?case
    by (intro exI [of _ i'] exI [of _ b'] exI [of _ l']) (simp add: add.assoc)
qed

lemma feed_char_newline:
  assumes "line_mode t" "\<not> cc_is t VEOF 10" "tb_len (t_ibuf t) < 4095"
    "t_iwaiter t < 16"
  shows "\<exists>i b l. feed_char pid ws t 10 =
        Done ws (t\<lparr>t_ibuf := b, t_istop := i, t_log := l, t_iwaiter := min (t_iwaiter t) (- 1)\<rparr>) () \<and>
     tb_ok b \<and> tb_cells b = tb_cells (t_ibuf t) @ [(10, TTY_BF_END)] \<and>
     (0 \<le> t_iwaiter t \<longrightarrow> Unblock (t_iwaiter t) \<in> set l)"
proof -
  have m: "FC_LFLAG t ICANON" "t_stop t = 0" "tb_ok (t_ibuf t)"
    using assms(1) by (simp_all add: line_mode_def)
  obtain bs where bs: "(if FC_LFLAG t ECHO \<or> FC_LFLAG t ECHONL then opost pid ws t 10 else Done ws t ()) =
      Done ws (t\<lparr>t_log := t_log t @ map (\<lambda>b. Out [b]) bs\<rparr>) ()"
  proof (cases "FC_LFLAG t ECHO \<or> FC_LFLAG t ECHONL")
    case True
    with opost_running [OF m(2), of pid ws 10] that show ?thesis by auto
  next
    case False
    with that [of "[]"] show ?thesis by simp
  qed
  let ?t1 = "t\<lparr>t_log := t_log t @ map (\<lambda>b. Out [b]) bs\<rparr>"
  obtain i b where ib: "iputc ?t1 10 = ?t1\<lparr>t_ibuf := b, t_istop := i\<rparr>" "tb_ok b"
      "tb_cells b = tb_cells (t_ibuf t) @ [(10, 0)]"
    using iputc_room [of ?t1 10] m(3) assms(3) by auto
  let ?b = "snd (tty_buf_mark b TTY_BF_END)"
  let ?t2 = "?t1\<lparr>t_ibuf := ?b, t_istop := i\<rparr>"
  have mk: "tb_ok ?b" "tb_cells ?b = tb_cells (t_ibuf t) @ [(10, TTY_BF_END)]"
    using tb_mark [OF ib(2,3), of TTY_BF_END] by simp_all
  have f: "feed_char pid ws t 10 = lift_res ws (tdeliver (iputc ?t1 10))"
    using m(1) assms(2) bs by (simp add: feed_char_def feed_canon_def)
  show ?thesis
  proof (cases "0 \<le> t_iwaiter t")
    case True
    have "tdeliver (iputc ?t1 10) =
        Inr (t\<lparr>t_ibuf := ?b, t_istop := i, t_iwaiter := - 1,
               t_log := t_log t @ map (\<lambda>b. Out [b]) bs @ [Unblock (t_iwaiter t)]\<rparr>)"
      using True assms(4) by (simp add: ib(1) tdeliver_def Let_def unblock_def emit_def)
    then show ?thesis using f mk True
      by (intro exI [of _ i] exI [of _ ?b]
            exI [of _ "t_log t @ map (\<lambda>b. Out [b]) bs @ [Unblock (t_iwaiter t)]"]) simp
  next
    case False
    have "tdeliver (iputc ?t1 10) = Inr ?t2"
      using False by (simp add: ib(1) tdeliver_def Let_def)
    then show ?thesis using f mk False
      by (intro exI [of _ i] exI [of _ ?b] exI [of _ "t_log t @ map (\<lambda>b. Out [b]) bs"])
        (simp add: min_def)
  qed
qed

text \<open>Reading a delivered line takes exactly the line.\<close>

lemma tty_fetch_line:
  assumes "tb_ok (t_ibuf t)" "tb_cells (t_ibuf t) = map (\<lambda>c. (c, 0)) s @ (x, TTY_BF_END) # rest"
    "length s < k"
  shows "\<exists>b. tty_fetch pid k ws t c = Done ws (t\<lparr>t_ibuf := b\<rparr>) (s @ [x]) \<and> tb_ok b \<and>
     tb_cells b = rest"
  using assms
proof (induction s arbitrary: t k c)
  case Nil
  then obtain k' where k: "k = Suc k'" by (cases k) auto
  obtain b where "tty_buf_getc (t_ibuf t) c = (uint TTY_BF_END, x, b)" "tb_ok b" "tb_cells b = rest"
    using tb_getc [OF Nil.prems(1), of x TTY_BF_END rest c] Nil.prems(2) by auto
  then show ?case by (intro exI [of _ b]) (simp add: k TTY_BF_END_def)
next
  case (Cons y s)
  then obtain k' where k: "k = Suc k'" by (cases k) auto
  obtain b where b: "tty_buf_getc (t_ibuf t) c = (uint (0 :: u8), y, b)" "tb_ok b"
      "tb_cells b = map (\<lambda>c. (c, 0)) s @ (x, TTY_BF_END) # rest"
    using tb_getc [OF Cons.prems(1), of y 0 _ c] Cons.prems(2) by auto
  obtain b' where "tty_fetch pid k' ws (t\<lparr>t_ibuf := b\<rparr>) y =
        Done ws (t\<lparr>t_ibuf := b'\<rparr>) (s @ [x])" "tb_ok b'" "tb_cells b' = rest"
    using Cons.IH [of "t\<lparr>t_ibuf := b\<rparr>" k' y] b Cons.prems(3) k by auto
  with b show ?case by (intro exI [of _ b']) (simp add: k Let_def)
qed

text \<open>
  While output is stopped, \<open>tputc\<close> appends to \<open>obuf\<close> by moving its head; the tail stays at 0.
\<close>

lemma putc_tail: "tb_tail (snd (tty_buf_putc b c)) = tb_tail b"
  by (simp add: tty_buf_putc_def Let_def)

lemma tputc_all_stopped:
  assumes "t_stop t \<noteq> 0" "tb_ok (t_obuf t)" "tb_len (t_obuf t) + length s \<le> 4095"
    "\<not> FC_OFLAG t OPOST"
  shows "\<exists>b. tty_write pid ws t s n = Done ws (t\<lparr>t_obuf := b\<rparr>) (n + int (length s)) \<and> tb_ok b \<and>
     tb_tail b = tb_tail (t_obuf t) \<and>
     map fst (tb_cells b) = map fst (tb_cells (t_obuf t)) @ s"
  using assms
proof (induction s arbitrary: t n)
  case Nil
  then show ?case by (intro exI [of _ "t_obuf t"]) simp
next
  case (Cons c s)
  let ?b = "snd (tty_buf_putc (t_obuf t) c)"
  have b: "tb_ok ?b" "tb_cells ?b = tb_cells (t_obuf t) @ [(c, 0)]"
    using tb_putc(2) [OF Cons.prems(2), of c] Cons.prems(3) by simp_all
  have "length (tb_cells ?b) = Suc (tb_len (t_obuf t))" using b(2) by simp
  then have "tb_len ?b + length s \<le> 4095" using Cons.prems(3) by simp
  then obtain b' where "tty_write pid ws (t\<lparr>t_obuf := ?b\<rparr>) s (n + 1) =
        Done ws (t\<lparr>t_obuf := b'\<rparr>) (n + 1 + int (length s))" "tb_ok b'"
      "tb_tail b' = tb_tail ?b" "map fst (tb_cells b') = map fst (tb_cells ?b) @ s"
    using Cons.IH [of "t\<lparr>t_obuf := ?b\<rparr>" "n + 1"] Cons.prems b(1) by auto
  moreover have "opost pid ws t c = Done ws (t\<lparr>t_obuf := ?b\<rparr>) ()"
    using Cons.prems tputc_stopped [of t pid ws c] by (simp add: opost_def)
  ultimately show ?case
    using b(2) by (intro exI [of _ b']) (simp add: putc_tail add.assoc)
qed

section \<open>Properties\<close>

text \<open>The control characters of a terminal as \<open>tty_register\<close> leaves it.\<close>

lemma register_plain:
  assumes "c \<notin> {0, 3, 4, 10, 13, 17, 19, 21, 26, 28, 127}"
  shows "plain_char (tty_register t) c"
proof -
  have "c = word_of_int (sint c)" by simp
  then have "sint c \<noteq> n" if "c \<noteq> word_of_int n" for n using that by metis
  then show ?thesis
    using assms by (auto simp: plain_char_def cc_is_def cc_of_def tty_register_def default_cc_def nth_append)
qed

lemma register_line_mode:
  assumes "length (tb_buf (t_ibuf t)) = 4096" "length (tb_flags (t_ibuf t)) = 4096"
  shows "line_mode (tty_register t)" "tb_cells (t_ibuf (tty_register t)) = []"
  using tb_init_ok [OF assms]
  by (simp_all add: line_mode_def tty_register_def FC_def tty_flag_defs)

text \<open>
  C25. A line typed at a freshly registered terminal is read back: feeding up to 4094 ordinary
  characters and a newline, then reading with a large enough buffer, returns exactly the line with
  its newline, and the input buffer is empty again.
\<close>

theorem tty_line_roundtrip:
  assumes "length (tb_buf (t_ibuf t0)) = 4096" "length (tb_flags (t_ibuf t0)) = 4096"
    "\<forall>c \<in> set s. c \<notin> {0, 3, 4, 10, 13, 17, 19, 21, 26, 28, 127}" "length s \<le> 4094" "length s < k"
  shows "\<exists>t' t''. tty_feed pid ws (tty_register t0) (s @ [10]) 0 = Done ws t' (int (length s) + 1) \<and>
     tty_fetch rpid k ws' t' c = Done ws' t'' (s @ [10]) \<and> tb_cells (t_ibuf t'') = []"
proof -
  let ?t = "tty_register t0"
  note m = register_line_mode [OF assms(1,2)]
  have l0: "tb_len (t_ibuf ?t) = 0" using m(2) tb_cells_Nil by blast
  obtain i b l where f: "\<forall>cs. tty_feed pid ws ?t (s @ cs) 0 =
        tty_feed pid ws (?t\<lparr>t_ibuf := b, t_istop := i, t_log := l\<rparr>) cs (0 + int (length s))"
      "tb_ok b" "tb_cells b = map (\<lambda>c. (c, 0)) s"
    using tty_feed_plain [OF m(1), of s pid ws 0] register_plain assms(3,4) l0 m(2) by auto
  let ?u = "?t\<lparr>t_ibuf := b, t_istop := i, t_log := l\<rparr>"
  have u: "line_mode ?u" "tb_len (t_ibuf ?u) < 4095" "\<not> cc_is ?u VEOF 10" "t_iwaiter ?u < 16"
    using m(1) f(2,3) assms(4) length_tb_cells [of b]
    by (simp_all add: line_mode_def tty_register_def cc_is_def cc_of_def default_cc_def)
  obtain i' b' l' where g: "feed_char pid ws ?u 10 =
        Done ws (?u\<lparr>t_ibuf := b', t_istop := i', t_log := l', t_iwaiter := min (t_iwaiter ?u) (- 1)\<rparr>) ()"
      "tb_ok b'" "tb_cells b' = tb_cells (t_ibuf ?u) @ [(10, TTY_BF_END)]"
    using feed_char_newline [OF u(1,3,2,4), of pid ws] by blast
  let ?v = "?u\<lparr>t_ibuf := b', t_istop := i', t_log := l', t_iwaiter := min (t_iwaiter ?u) (- 1)\<rparr>"
  have "tty_feed pid ws ?t (s @ [10]) 0 = Done ws ?v (int (length s) + 1)" using f(1) g(1) by simp
  moreover obtain b'' where "tty_fetch rpid k ws' ?v c = Done ws' (?v\<lparr>t_ibuf := b''\<rparr>) (s @ [10])" "tb_cells b'' = []"
    using tty_fetch_line [of ?v s 10 "[]" k rpid ws' c] g f(3) assms(5) by auto
  ultimately show ?thesis by auto
qed

definition blank_tty :: tty where
  "blank_tty = \<lparr>t_stop = 0, t_istop = 0, t_pgrp = 0, t_iwaiter = 0, t_owaiter = 0, t_ibuf = empty_buf,
     t_obuf = empty_buf, t_reqlen = 0, t_timeout = False,
     t_tio = \<lparr>c_iflag = 0, c_oflag = 0, c_cflag = 0, c_lflag = 0, c_cc = replicate 32 0\<rparr>, t_log = []\<rparr>"

lemma tty_line_roundtrip_witness:
  "\<exists>t' t''. tty_feed 3 [] (tty_register blank_tty) [104, 105, 10] 0 = Done [] t' 3 \<and>
     tty_fetch 5 100 [] t' 0 = Done [] t'' [104, 105, 10]"
  using tty_line_roundtrip [of blank_tty "[104, 105]" 100 3 "[]" 5 "[]" 0]
  by (auto simp: blank_tty_def empty_buf_def)

text \<open>
  Output written while the terminal is stopped is lost: when \<open>tstop\<close> starts the terminal again it
  hands the driver as many bytes as the tail index says, which is zero, and clears the buffer.
\<close>

theorem restart_loses_output:
  assumes "t_stop t \<noteq> 0" "t_obuf t = tty_buf_init b" "length (tb_buf b) = 4096" "length (tb_flags b) = 4096"
    "length s \<le> 4095" "\<not> FC_OFLAG t OPOST" "FC_IFLAG t IXON" "t_owaiter t < 0"
  shows "\<exists>t1 t2. tty_write pid ws t s 0 = Done ws t1 (int (length s)) \<and>
     map fst (tb_cells (t_obuf t1)) = s \<and> tstop t1 0 = Inr t2 \<and>
     t_log t2 = t_log t @ [Out []] \<and> tb_cells (t_obuf t2) = []"
proof -
  have o: "tb_ok (t_obuf t)" "tb_cells (t_obuf t) = []" "tb_tail (t_obuf t) = 0"
    using tb_init_ok [OF assms(3,4)] assms(2) by (simp_all add: tty_buf_init_def)
  then have "tb_len (t_obuf t) = 0" using tb_cells_Nil by blast
  then obtain b' where b: "tty_write pid ws t s 0 = Done ws (t\<lparr>t_obuf := b'\<rparr>) (int (length s))"
      "tb_ok b'" "tb_tail b' = 0" "map fst (tb_cells b') = s"
    using tputc_all_stopped [OF assms(1) o(1) _ assms(6), of s pid ws 0] o assms(5) by auto
  let ?t1 = "t\<lparr>t_obuf := b'\<rparr>"
  have "tstop ?t1 0 = Inr (?t1\<lparr>t_stop := 0, t_log := t_log t @ [Out []], t_obuf := tty_buf_kill b'\<rparr>)"
    using assms(7,8) b(3) by (simp add: tstop_def emit_def)
  then show ?thesis using b tb_kill_ok [OF b(2)] by auto
qed

lemma restart_loses_output_witness:
  "\<exists>t1 t2. tty_write 3 [] (blank_tty\<lparr>t_stop := 1, t_owaiter := - 1, t_tio := (t_tio blank_tty)\<lparr>c_iflag := IXON\<rparr>\<rparr>)
       [65, 66] 0 = Done [] t1 2 \<and> map fst (tb_cells (t_obuf t1)) = [65, 66] \<and>
     tstop t1 0 = Inr t2 \<and> t_log t2 = [Out []] \<and> tb_cells (t_obuf t2) = []"
  using restart_loses_output
    [of "blank_tty\<lparr>t_stop := 1, t_owaiter := - 1, t_tio := (t_tio blank_tty)\<lparr>c_iflag := IXON\<rparr>\<rparr>" empty_buf "[65, 66]" 3 "[]"]
  by (simp add: blank_tty_def empty_buf_def tty_buf_init_def FC_def OPOST_def)

text \<open>
  In non-canonical mode a read of one byte blocks without recording who waits, so the next byte
  that arrives makes the line discipline unblock task -1, an access outside the task table.
\<close>

theorem noncanonical_read_faults:
  assumes "length (tb_buf (t_ibuf t0)) = 4096" "length (tb_flags (t_ibuf t0)) = 4096"
    "t = (tty_register t0)\<lparr>t_tio := (t_tio (tty_register t0))\<lparr>c_lflag := 0\<rparr>\<rparr>"
    "c \<notin> {0, 3, 4, 10, 13, 17, 19, 21, 26, 28, 127}"
  shows "\<exists>t1. tty_read pid 1 [] t x 1 = Some (Blocked t1) \<and> t_iwaiter t1 = - 1 \<and>
     tty_feed fpid ws t1 [c] 0 = Faults BadAccess"
proof -
  let ?t1 = "t\<lparr>t_reqlen := 1, t_timeout := False\<rparr>"
  have b: "tb_ok (t_ibuf t)" "tb_cells (t_ibuf t) = []" "t_istop ?t1 = t_istop t0"
    using tb_init_ok [OF assms(1,2)] assms(3) by (simp_all add: tty_register_def)
  have cc: "c_cc (t_tio t) = default_cc" "t_iwaiter t = - 1" "c_lflag (t_tio t) = 0" "c_iflag (t_tio t) = ICRNL OR IXON"
    using assms(3) by (simp_all add: tty_register_def)
  have canon: "\<not> FC 0 ICANON" by (simp add: FC_def ICANON_def)
  have v: "cc_of t' VTIME = 0 \<and> cc_of t' VMIN = 1" if "c_cc (t_tio t') = default_cc" for t'
    using that by (simp add: cc_of_def default_cc_def)
  have r: "tty_read pid 1 [] t x 1 = Some (Blocked ?t1)"
    using b cc canon v [of t] v [of ?t1] tb_getc_empty [OF b(1,2), of x] by (simp add: tty_read_def)
  have p: "plain_char ?t1 c"
    using register_plain [OF assms(4), of t0] cc(1)
    by (simp add: plain_char_def cc_is_def cc_of_def tty_register_def)
  then have f: "feed_char fpid ws ?t1 c = feed_plain fpid ws ?t1 c"
    using cc canon by (simp add: feed_char_def feed_control_def plain_char_def)
  obtain i b' where ib: "iputc ?t1 c = ?t1\<lparr>t_ibuf := b', t_istop := i\<rparr>"
    using iputc_room [of ?t1 c] b tb_cells_Nil [of "t_ibuf t"] by auto
  have "feed_plain fpid ws ?t1 c = Faults BadAccess"
    using cc canon v [of "?t1\<lparr>t_ibuf := b', t_istop := i\<rparr>"] by (simp add: feed_plain_def ib unblock_def)
  then show ?thesis using r f cc(2) by (intro exI [of _ ?t1]) simp
qed

lemma noncanonical_read_faults_witness:
  "\<exists>t1. tty_read 3 1 [] ((tty_register blank_tty)\<lparr>t_tio := (t_tio (tty_register blank_tty))\<lparr>c_lflag := 0\<rparr>\<rparr>) 0 1 =
       Some (Blocked t1) \<and> tty_feed 0 [] t1 [97] 0 = Faults BadAccess"
  using noncanonical_read_faults [of blank_tty _ 97 3 0 0 "[]"] by (auto simp: blank_tty_def empty_buf_def)

end
