(* ===== verification/Task.thy ===== *)
theory Task
  imports Prelude
begin

text \<open>
  The task table of kernel/task.c and the scheduler over it. A \<open>task_t *\<close> is the index of the task
  in the table (its pid). The processor context, the stacks and the page tables are not part of
  the state: \<open>__task_switch\<close> is the change of \<open>kcurr\<close>. The fresh page \<open>vmm_allocpages\<close> returns for a
  \<open>task_t\<close> has arbitrary contents, a parameter of the operations that create tasks.
\<close>

section \<open>State\<close>

datatype tstat = TASK_DIE | TASK_PRE | TASK_RUN | TASK_SLP | TASK_BLK | TASK_STP | TASK_INI

record sigact =
  sa_handler :: u64
  sa_flags :: u64
  sa_restorer :: u64
  sa_mask :: u64

text \<open>\<open>supgids\<close> is the array up to, and without, its terminating -1.\<close>

record task =
  tk_pid :: int
  tk_sid :: int
  tk_ppid :: int
  tk_pgid :: int
  ruid :: u32
  euid :: u32
  suid :: u32
  rgid :: u32
  egid :: u32
  sgid :: u32
  supgids :: "u32 list option"
  tk_stat :: tstat
  tk_tick :: u64
  tk_curr :: u64
  tk_files :: "nat option list"
  tk_args :: u32
  did_exec :: bool
  tk_mmap :: u64
  tk_retval :: int
  tk_waitpid :: int
  tk_sleep :: u64
  sigcurr :: int
  sigpend :: u64
  sigmask :: u64
  sigacts :: "sigact list"

text \<open>
  \<open>ktable\<close> is \<open>table\<close>, \<open>kcurr\<close> is \<open>_curr\<close>, \<open>ksleep\<close> the list \<open>_sleeping\<close> from its head on, \<open>krefer\<close> the
  reference count of every open file.
\<close>

record kernel =
  ktable :: "task option list"
  kcurr :: nat
  ksleep :: "nat list"
  krefer :: "nat \<Rightarrow> nat"

definition TASK_MAX :: nat where "TASK_MAX = 16"

definition MAX_FILE :: nat where "MAX_FILE = 16"

definition NSIG :: nat where "NSIG = 64"

definition upd_task :: "nat \<Rightarrow> (task \<Rightarrow> task) \<Rightarrow> kernel \<Rightarrow> kernel" where
  "upd_task i f k = k\<lparr>ktable := (ktable k)[i := map_option f (ktable k ! i)]\<rparr>"

definition set_stat :: "nat \<Rightarrow> tstat \<Rightarrow> kernel \<Rightarrow> kernel" where
  "set_stat i st = upd_task i (\<lambda>t. t\<lparr>tk_stat := st\<rparr>)"

definition task_current :: "kernel \<Rightarrow> task option" where
  "task_current k = ktable k ! kcurr k"

definition task_get :: "kernel \<Rightarrow> int \<Rightarrow> task option" where
  "task_get k pid = (if pid < 0 \<or> int TASK_MAX \<le> pid then None else ktable k ! nat pid)"

section \<open>Scheduling\<close>

text \<open>\<open>_getnext\<close>: the loop runs the index around the table, at most \<open>_curr + TASK_MAX\<close> times.\<close>

function getnext_loop :: "kernel \<Rightarrow> nat \<Rightarrow> nat \<Rightarrow> nat option" where
  "getnext_loop k i j =
     (if i < TASK_MAX \<and> j < kcurr k + TASK_MAX then
        (case ktable k ! i of
           None \<Rightarrow> getnext_loop k ((i + 1) mod TASK_MAX) (j + 1)
         | Some t \<Rightarrow>
             if tk_stat t = TASK_PRE then Some i
             else getnext_loop k ((i + 1) mod TASK_MAX) (j + 1))
      else None)"
  by pat_completeness auto
termination
  by (relation "measure (\<lambda>(k, i, j). kcurr k + TASK_MAX - j)") auto

declare getnext_loop.simps [simp del]

definition getnext :: "kernel \<Rightarrow> nat option" where
  "getnext k = getnext_loop k (kcurr k) 0"

text \<open>
  \<open>update_sleep\<close>: LIST\_FOREACH reads the \<open>next\<close> field of a node after its removal, which
  \<open>list_remove\<close> leaves alone, so the loop visits the nodes of the list it started with.
\<close>

primrec update_sleep_loop :: "nat list \<Rightarrow> kernel \<Rightarrow> kernel" where
  "update_sleep_loop [] k = k"
| "update_sleep_loop (p # ps) k =
     (if p = kcurr k then update_sleep_loop ps k
      else case ktable k ! p of
        None \<Rightarrow> update_sleep_loop ps k
      | Some t \<Rightarrow>
          (let s = tk_sleep t - 1;
               k1 = upd_task p (\<lambda>t. t\<lparr>tk_sleep := s\<rparr>) k
           in if s = 0
              then update_sleep_loop ps ((set_stat p TASK_PRE k1)\<lparr>ksleep := remove1 p (ksleep k1)\<rparr>)
              else update_sleep_loop ps k1))"

definition update_sleep :: "kernel \<Rightarrow> kernel" where
  "update_sleep k = (if ksleep k = [] then k else update_sleep_loop (ksleep k) k)"

text \<open>The part of \<open>task_schedule\<close> after the label \<open>Sched\<close>; \<open>me\<close> is the task that called it.\<close>

definition sched_switch :: "nat \<Rightarrow> kernel \<Rightarrow> kernel" where
  "sched_switch me k =
     (case getnext k of
        None \<Rightarrow> k
      | Some n \<Rightarrow>
          (let k1 = k\<lparr>kcurr := n\<rparr>;
               k2 = (case ktable k1 ! me of
                       Some t \<Rightarrow> if tk_stat t = TASK_RUN then set_stat me TASK_PRE k1 else k1
                     | None \<Rightarrow> k1)
           in set_stat n TASK_RUN k2))"

definition task_schedule :: "kernel \<Rightarrow> kernel" where
  "task_schedule k =
     (case task_current k of
        None \<Rightarrow> k
      | Some _ \<Rightarrow>
          (let me = kcurr k; k1 = update_sleep k
           in case ktable k1 ! me of
                None \<Rightarrow> k1
              | Some c \<Rightarrow>
                  if tk_stat c \<noteq> TASK_RUN then sched_switch me k1
                  else (let k2 = upd_task me (\<lambda>t. t\<lparr>tk_curr := tk_curr t - 1\<rparr>) k1
                        in if tk_curr c = 0
                           then sched_switch me (upd_task me (\<lambda>t. t\<lparr>tk_curr := tk_tick t\<rparr>) k2)
                           else k2)))"

text \<open>
  \<open>task_sleep\<close> links the node of the current task into \<open>_sleeping\<close>; a node that is still linked there
  would close a loop that leaves out the list head, so that case is a fault. The list holds pids: a task that is killed and waited for while it sleeps
  leaves its node linked, and here the entry then stands for the next task in the same slot.
\<close>

definition task_sleep :: "kernel \<Rightarrow> u64 \<Rightarrow> kernel result" where
  "task_sleep k ticks =
     (if ticks = 0 then Inl AssertFail
      else if task_current k = None then Inl AssertFail
      else if kcurr k \<in> set (ksleep k) then Inl BadAccess
      else let me = kcurr k;
               k1 = upd_task me (\<lambda>t. t\<lparr>tk_stat := TASK_SLP, tk_sleep := ticks\<rparr>) k
           in Inr (task_schedule (k1\<lparr>ksleep := me # ksleep k1\<rparr>)))"

definition task_block :: "kernel \<Rightarrow> kernel result" where
  "task_block k =
     (if task_current k = None then Inl BadAccess
      else Inr (task_schedule (set_stat (kcurr k) TASK_BLK k)))"

definition task_unblock :: "kernel \<Rightarrow> int \<Rightarrow> kernel result" where
  "task_unblock k pid =
     (if pid < 0 \<or> int TASK_MAX \<le> pid then Inl BadAccess
      else if ktable k ! nat pid = None then Inl AssertFail
      else Inr (set_stat (nat pid) TASK_PRE k))"

section \<open>Creating tasks\<close>

definition getfree :: "kernel \<Rightarrow> int" where
  "getfree k = (case List.find (\<lambda>i. ktable k ! i = None) [0..<TASK_MAX] of
                  None \<Rightarrow> - 1 | Some i \<Rightarrow> int i)"

text \<open>\<open>_task_create\<close>: the index of the new task, \<open>None\<close> where the code returns NULL.\<close>

definition task_create0 :: "task \<Rightarrow> kernel \<Rightarrow> nat option \<times> kernel" where
  "task_create0 raw k =
     (let pid = getfree k
      in if pid < 0 then (None, k)
         else let t = raw\<lparr>ruid := 0, euid := 0, suid := 0, rgid := 0, egid := 0, sgid := 0,
                          supgids := None, tk_pid := pid, tk_sid := 0, tk_ppid := 0, tk_pgid := 0,
                          tk_stat := TASK_INI\<rparr>
              in (Some (nat pid), k\<lparr>ktable := (ktable k)[nat pid := Some t]\<rparr>))"

text \<open>\<open>task_create\<close>, without the stacks and frames; a full table is a null pointer there.\<close>

definition task_create :: "task \<Rightarrow> u32 \<Rightarrow> kernel \<Rightarrow> (nat \<times> kernel) result" where
  "task_create raw args k =
     (case task_create0 raw k of
        (None, _) \<Rightarrow> Inl BadAccess
      | (Some p, k1) \<Rightarrow>
          Inr (p, upd_task p (\<lambda>t. t\<lparr>tk_args := args, tk_stat := TASK_PRE, tk_tick := 1, tk_curr := 1,
                                   tk_mmap := 0x0000600000000000,
                                   tk_files := replicate MAX_FILE None,
                                   sigcurr := 0, sigpend := 0, sigmask := 0,
                                   sigacts := replicate NSIG
                                     \<lparr>sa_handler = 0, sa_flags = 0, sa_restorer = 0, sa_mask = 0\<rparr>\<rparr>) k1))"

text \<open>\<open>fork_fd\<close>, \<open>fork_sig\<close> and \<open>fork_id\<close> on the child, and the reference counts.\<close>

definition fork_fd :: "task \<Rightarrow> task \<Rightarrow> task" where
  "fork_fd prt chd = chd\<lparr>tk_files := tk_files prt\<rparr>"

definition fork_refer :: "task \<Rightarrow> (nat \<Rightarrow> nat) \<Rightarrow> nat \<Rightarrow> nat" where
  "fork_refer prt refer f = refer f + length (filter (\<lambda>x. x = Some f) (tk_files prt))"

definition fork_sig :: "task \<Rightarrow> task \<Rightarrow> task" where
  "fork_sig prt chd =
     chd\<lparr>sigcurr := sigcurr prt, sigpend := sigpend prt, sigmask := sigmask prt,
         sigacts := sigacts prt\<rparr>"

definition fork_id :: "task \<Rightarrow> task \<Rightarrow> task" where
  "fork_id prt chd =
     chd\<lparr>ruid := ruid prt, euid := euid prt, suid := suid prt,
         rgid := rgid prt, egid := egid prt, sgid := sgid prt,
         supgids := supgids prt, tk_sid := tk_sid prt, tk_pgid := tk_pgid prt\<rparr>"

definition task_fork :: "task \<Rightarrow> kernel \<Rightarrow> (int \<times> kernel) result" where
  "task_fork raw k =
     (case task_current k of
        None \<Rightarrow> Inl BadAccess
      | Some prt \<Rightarrow>
          (case task_create0 raw k of
             (None, _) \<Rightarrow> Inl BadAccess
           | (Some p, k1) \<Rightarrow>
               (let f = (\<lambda>chd. (fork_id prt (fork_sig prt (fork_fd prt (chd\<lparr>tk_mmap := tk_mmap prt\<rparr>))))
                          \<lparr>tk_tick := tk_tick prt, tk_curr := tk_curr prt, tk_ppid := tk_pid prt,
                           tk_stat := TASK_PRE, tk_args := tk_args prt, did_exec := False\<rparr>)
                in Inr (int p, (upd_task p f k1)\<lparr>krefer := fork_refer prt (krefer k1)\<rparr>))))"

section \<open>Exit and wait\<close>

definition task_exit :: "kernel \<Rightarrow> int \<Rightarrow> int \<Rightarrow> kernel result" where
  "task_exit k pid v =
     (case task_get k pid of
        None \<Rightarrow> Inr k
      | Some tsk \<Rightarrow>
          (let k1 = upd_task (nat pid) (\<lambda>t. t\<lparr>tk_stat := TASK_DIE, tk_retval := v\<rparr>) k
           in case task_get k1 (tk_ppid tsk) of
                None \<Rightarrow> Inl BadAccess
              | Some prt \<Rightarrow>
                  if tk_stat prt = TASK_BLK \<and> (tk_waitpid prt = tk_pid tsk \<or> tk_waitpid prt = - 1)
                  then bind_result (task_unblock k1 (tk_pid prt))
                         (\<lambda>k2. Inr (task_schedule
                                  (upd_task (nat (tk_ppid tsk)) (\<lambda>t. t\<lparr>tk_waitpid := tk_pid tsk\<rparr>) k2)))
                  else Inr (task_schedule k1)))"

text \<open>
  \<open>task_wait\<close> up to its \<open>task_block\<close>: \<open>Inl\<close> of an error number is an early return, \<open>Inr\<close> the state in
  which the caller has blocked.
\<close>

definition has_child :: "kernel \<Rightarrow> int \<Rightarrow> bool" where
  "has_child k pid \<longleftrightarrow>
     list_ex (\<lambda>i. case ktable k ! i of
                    None \<Rightarrow> False
                  | Some t \<Rightarrow> tk_stat t \<noteq> TASK_DIE \<and> tk_ppid t = pid) [0..<TASK_MAX]"

definition task_wait_block :: "kernel \<Rightarrow> int \<Rightarrow> (int + kernel) result" where
  "task_wait_block k pid =
     (case task_current k of
        None \<Rightarrow> Inl BadAccess
      | Some tsk \<Rightarrow>
          (let go = bind_result
                      (task_block (upd_task (kcurr k) (\<lambda>t. t\<lparr>tk_waitpid := pid\<rparr>) k))
                      (\<lambda>k1. Inr (Inr k1))
           in if pid > 0 then
                (if int TASK_MAX \<le> pid then Inl BadAccess
                 else case ktable k ! nat pid of
                   None \<Rightarrow> Inr (Inl (- ECHILD))
                 | Some c \<Rightarrow> if tk_ppid c \<noteq> tk_pid tsk then Inr (Inl (- ECHILD)) else go)
              else if pid = - 1 then
                (if \<not> has_child k (tk_pid tsk) then Inr (Inl (- ECHILD)) else go)
              else Inl Panic))"

text \<open>
  The rest of \<open>task_wait\<close>, from the return of \<open>task_block\<close> on: \<open>me\<close> is the caller. The result is the
  pid that was waited for and its exit value.
\<close>

definition task_wait_reap :: "kernel \<Rightarrow> nat \<Rightarrow> (int \<times> int \<times> kernel) result" where
  "task_wait_reap k me =
     (case ktable k ! me of
        None \<Rightarrow> Inl BadAccess
      | Some tsk \<Rightarrow>
          (let termd = tk_waitpid tsk;
               k1 = upd_task me (\<lambda>t. t\<lparr>tk_waitpid := 0\<rparr>) k
           in if termd < 0 \<or> int TASK_MAX \<le> termd then Inl BadAccess
              else case ktable k1 ! nat termd of
                None \<Rightarrow> Inl BadAccess
              | Some chd \<Rightarrow>
                  Inr (termd, tk_retval chd, k1\<lparr>ktable := (ktable k1)[nat termd := None]\<rparr>)))"

text \<open>\<open>task_init\<close>: an empty table and the kernel task, running.\<close>

definition task_init :: "task \<Rightarrow> kernel \<Rightarrow> kernel result" where
  "task_init raw k =
     bind_result
       (task_create raw 0 (k\<lparr>ktable := replicate TASK_MAX None, ksleep := []\<rparr>))
       (\<lambda>(p, k1). Inr ((set_stat p TASK_RUN k1)\<lparr>kcurr := 0\<rparr>))"

end
