(* ===== verification/Sched.thy ===== *)
theory Sched
  imports Task Transition
begin

text \<open>
  The scheduler keeps the task table well formed (a task sits at its pid, only the current task
  is running), picks the next ready task in cyclic order, and a ready task that is passed over
  comes strictly closer at every switch.
\<close>

section \<open>Invariant\<close>

definition task_ok :: "nat \<Rightarrow> nat \<Rightarrow> task option \<Rightarrow> bool" where
  "task_ok cur i e = (case e of None \<Rightarrow> True
     | Some t \<Rightarrow> tk_pid t = int i \<and> (tk_stat t = TASK_RUN \<longrightarrow> i = cur))"

definition sched_ok :: "kernel \<Rightarrow> bool" where
  "sched_ok k \<longleftrightarrow> length (ktable k) = 16 \<and> kcurr k < 16 \<and> ktable k ! kcurr k \<noteq> None \<and>
     (\<forall>i<16. task_ok (kcurr k) i (ktable k ! i))"

lemma sched_okD:
  assumes "sched_ok k"
  shows "length (ktable k) = 16" "kcurr k < 16" "\<exists>t. ktable k ! kcurr k = Some t"
    "i < 16 \<Longrightarrow> task_ok (kcurr k) i (ktable k ! i)"
  using assms by (auto simp: sched_ok_def)

lemma task_okD:
  assumes "sched_ok k" "i < 16" "ktable k ! i = Some u"
  shows "tk_pid u = int i" "tk_stat u = TASK_RUN \<Longrightarrow> i = kcurr k"
  using sched_okD(4) [OF assms(1,2)] assms(3) by (simp_all add: task_ok_def)

lemma upd_task_simps [simp]:
  "kcurr (upd_task i f k) = kcurr k" "ksleep (upd_task i f k) = ksleep k"
  "krefer (upd_task i f k) = krefer k" "length (ktable (upd_task i f k)) = length (ktable k)"
  by (simp_all add: upd_task_def)

lemma ktable_upd_task:
  "i < length (ktable k) \<Longrightarrow> ktable (upd_task i f k) ! j =
     (if j = i then map_option f (ktable k ! i) else ktable k ! j)"
  by (simp add: upd_task_def)

lemma set_stat_simps [simp]:
  "kcurr (set_stat i st k) = kcurr k" "ksleep (set_stat i st k) = ksleep k"
  "krefer (set_stat i st k) = krefer k" "length (ktable (set_stat i st k)) = length (ktable k)"
  by (simp_all add: set_stat_def)

lemma task_current_upd [simp]: "task_current (upd_task i f k) = None \<longleftrightarrow> task_current k = None"
  by (cases "i < length (ktable k) \<and> i = kcurr k")
    (auto simp: task_current_def upd_task_def nth_list_update list_update_beyond)

text \<open>An update that neither moves a task nor makes one run keeps the invariant.\<close>

lemma sched_ok_upd:
  assumes "sched_ok k" "i < 16" "\<And>t. tk_pid (f t) = tk_pid t"
    "\<And>t. tk_stat (f t) = TASK_RUN \<Longrightarrow> tk_stat t = TASK_RUN"
  shows "sched_ok (upd_task i f k)"
proof -
  have l: "i < length (ktable k)" using assms(1,2) by (simp add: sched_ok_def)
  have "task_ok (kcurr k) j (ktable (upd_task i f k) ! j)" if "j < 16" for j
    using sched_okD(4) [OF assms(1) that] assms(3,4) ktable_upd_task [OF l, of f j]
    by (auto simp: task_ok_def split: option.splits)
  moreover have "ktable (upd_task i f k) ! kcurr k \<noteq> None"
    using sched_okD(3) [OF assms(1)] ktable_upd_task [OF l, of f "kcurr k"] by auto
  ultimately show ?thesis using assms(1) by (simp add: sched_ok_def)
qed

lemma sched_ok_set_stat: "sched_ok k \<Longrightarrow> i < 16 \<Longrightarrow> st \<noteq> TASK_RUN \<Longrightarrow> sched_ok (set_stat i st k)"
  unfolding set_stat_def by (rule sched_ok_upd) auto

lemma sched_ok_more [simp]:
  "sched_ok (k\<lparr>ksleep := l\<rparr>) = sched_ok k" "sched_ok (k\<lparr>krefer := r\<rparr>) = sched_ok k"
  by (simp_all add: sched_ok_def)

section \<open>The next task\<close>

definition ready :: "kernel \<Rightarrow> nat \<Rightarrow> bool" where
  "ready k i \<longleftrightarrow> (\<exists>t. ktable k ! i = Some t \<and> tk_stat t = TASK_PRE)"

lemma getnext_loop_find:
  assumes "j \<le> kcurr k + 16"
  shows "getnext_loop k ((kcurr k + j) mod 16) j =
     map_option (\<lambda>m. (kcurr k + m) mod 16)
       (List.find (\<lambda>m. ready k ((kcurr k + m) mod 16)) [j..<kcurr k + 16])"
  using assms
proof (induction "kcurr k + 16 - j" arbitrary: j)
  case 0
  then show ?case by (simp add: getnext_loop.simps TASK_MAX_def)
next
  case (Suc n)
  then have lt: "j < kcurr k + 16" by simp
  have s: "((kcurr k + j) mod 16 + 1) mod 16 = (kcurr k + (j + 1)) mod 16" by (simp add: mod_Suc_eq)
  have ih: "getnext_loop k ((kcurr k + (j + 1)) mod 16) (j + 1) =
      map_option (\<lambda>m. (kcurr k + m) mod 16)
        (List.find (\<lambda>m. ready k ((kcurr k + m) mod 16)) [j + 1..<kcurr k + 16])"
    using Suc.hyps lt by (intro Suc.hyps(1)) auto
  have step: "getnext_loop k ((kcurr k + j) mod 16) j =
      (if ready k ((kcurr k + j) mod 16) then Some ((kcurr k + j) mod 16)
       else getnext_loop k ((kcurr k + (j + 1)) mod 16) (j + 1))"
    using lt s
    by (subst getnext_loop.simps) (auto simp: TASK_MAX_def ready_def split: option.split)
  show ?case unfolding step using ih lt by (simp add: upt_conv_Cons)
qed

definition dist :: "nat \<Rightarrow> nat \<Rightarrow> nat" where
  "dist c i = (i + 16 - c) mod 16"

lemma dist_walk: "c < 16 \<Longrightarrow> i < 16 \<Longrightarrow> (c + dist c i) mod 16 = i"
  by (simp add: dist_def mod_add_right_eq)

lemma dist_lt: "dist c i < 16"
  by (simp add: dist_def)

lemma dist_after:
  assumes "c < 16" "i < 16" "m \<le> dist c i"
  shows "dist ((c + m) mod 16) i = dist c i - m"
proof -
  have "int (dist c' i) = (int i - int c') mod 16" if "c' < 16" for c'
  proof -
    have "int (i + 16 - c') = (int i - int c') + 16" using that by (simp add: of_nat_diff)
    then have "int (dist c' i) = ((int i - int c') + 16) mod 16"
      by (simp only: dist_def zmod_int) simp
    then show ?thesis by (simp only: mod_add_self2)
  qed
  note d = this
  have "int (dist ((c + m) mod 16) i) = (int i - int ((c + m) mod 16)) mod 16" by (rule d) simp
  also have "\<dots> = (int i - int c - int m) mod 16"
    by (simp add: zmod_int mod_diff_right_eq algebra_simps)
  also have "\<dots> = ((int i - int c) mod 16 - int m) mod 16"
    by (simp add: mod_diff_left_eq)
  also have "\<dots> = (int (dist c i) - int m) mod 16" using d [OF assms(1)] by simp
  also have "\<dots> = int (dist c i - m)"
    using assms(3) dist_lt [of c i] by (simp add: of_nat_diff)
  finally show ?thesis by simp
qed

lemma getnext_spec:
  assumes "sched_ok k"
  shows "getnext k = None \<Longrightarrow> i < 16 \<Longrightarrow> \<not> ready k i"
    and "getnext k = Some n \<Longrightarrow> n < 16 \<and> ready k n \<and>
       (\<forall>i<16. ready k i \<longrightarrow> dist (kcurr k) n \<le> dist (kcurr k) i)"
proof -
  let ?P = "\<lambda>m. ready k ((kcurr k + m) mod 16)"
  have c: "kcurr k < 16" by (rule sched_okD(2) [OF assms])
  have g: "getnext k = map_option (\<lambda>m. (kcurr k + m) mod 16) (List.find ?P [0..<kcurr k + 16])"
    using getnext_loop_find [of 0 k] c by (simp add: getnext_def)
  have w: "?P (dist (kcurr k) i) = ready k i" if "i < 16" for i
    using dist_walk [OF c that] by simp
  show "\<not> ready k i" if n: "getnext k = None" "i < 16"
  proof -
    from n(1) have "List.find ?P [0..<kcurr k + 16] = None" unfolding g by simp
    then have "\<not> ?P (dist (kcurr k) i)"
      using dist_lt [of "kcurr k" i] by (auto simp: find_None_iff)
    with w [OF n(2)] show ?thesis by simp
  qed
  assume "getnext k = Some n"
  then obtain m where m: "List.find ?P [0..<kcurr k + 16] = Some m" and n: "n = (kcurr k + m) mod 16"
    unfolding g by auto
  then have pm: "?P m" and least: "\<forall>j<m. \<not> ?P j" and ml: "m < kcurr k + 16"
    by (auto simp: find_Some_iff)
  have "m \<le> dist (kcurr k) i" if "i < 16" "ready k i" for i
    using least w [OF that(1)] that(2) not_less by blast
  moreover have "n < 16" using n by simp
  moreover have "ready k n" using pm n by simp
  moreover have "dist (kcurr k) n = m"
  proof -
    have "m \<le> dist (kcurr k) n" using calculation by simp
    then have m16: "m < 16" using dist_lt [of "kcurr k" n] by simp
    have "dist (kcurr k) n = (m + 16) mod 16"
    proof (cases "kcurr k + m < 16")
      case True
      then show ?thesis using n by (simp add: dist_def)
    next
      case False
      then have "n = kcurr k + m - 16" using n m16 c by (simp add: mod_if)
      then show ?thesis using False c m16 by (simp add: dist_def)
    qed
    then show ?thesis using m16 by simp
  qed
  ultimately show "n < 16 \<and> ready k n \<and> (\<forall>i<16. ready k i \<longrightarrow> dist (kcurr k) n \<le> dist (kcurr k) i)"
    by simp
qed

section \<open>Every operation keeps the invariant\<close>

lemma update_sleep_loop_ok:
  assumes "sched_ok k" "set ps \<subseteq> {..<16}"
  shows "sched_ok (update_sleep_loop ps k) \<and> kcurr (update_sleep_loop ps k) = kcurr k"
  using assms
proof (induction ps arbitrary: k)
  case Nil
  then show ?case by simp
next
  case (Cons p ps)
  then have p: "p < 16" by simp
  have a: "sched_ok (upd_task p (\<lambda>t. t\<lparr>tk_sleep := s\<rparr>) k)" for s
    using Cons.prems(1) p by (intro sched_ok_upd) auto
  then have b: "sched_ok (set_stat p TASK_PRE (upd_task p (\<lambda>t. t\<lparr>tk_sleep := s\<rparr>) k))" for s
    using p by (intro sched_ok_set_stat) auto
  show ?case
    using Cons a b by (auto simp: Let_def split: option.split)
qed

lemma update_sleep_ok:
  assumes "sched_ok k" "set (ksleep k) \<subseteq> {..<16}"
  shows "sched_ok (update_sleep k) \<and> kcurr (update_sleep k) = kcurr k"
  using update_sleep_loop_ok [OF assms] assms(1) by (simp add: update_sleep_def)

text \<open>The task that leaves the processor, and the one that takes it.\<close>

definition park :: "nat \<Rightarrow> kernel \<Rightarrow> kernel" where
  "park me k = (case ktable k ! me of
      Some t \<Rightarrow> if tk_stat t = TASK_RUN then set_stat me TASK_PRE k else k | None \<Rightarrow> k)"

lemma sched_switch_park:
  "getnext k = Some n \<Longrightarrow> sched_switch me k = set_stat n TASK_RUN ((park me k)\<lparr>kcurr := n\<rparr>)"
  by (simp add: sched_switch_def park_def Let_def set_stat_def upd_task_def split: option.split)

lemma park_ok:
  assumes "sched_ok k" "me = kcurr k"
  shows "sched_ok (park me k)" "kcurr (park me k) = kcurr k" "ksleep (park me k) = ksleep k"
    "\<forall>i<16. \<forall>u. ktable (park me k) ! i = Some u \<longrightarrow> tk_stat u \<noteq> TASK_RUN"
    "\<And>i. i \<noteq> me \<Longrightarrow> ktable (park me k) ! i = ktable k ! i"
    "ktable (park me k) ! i = None \<longleftrightarrow> ktable k ! i = None"
proof -
  obtain t where t: "ktable k ! me = Some t" using sched_okD(3) [OF assms(1)] assms(2) by blast
  have m: "me < length (ktable k)" using assms by (simp add: sched_ok_def)
  have e: "ktable (park me k) ! i = (if i = me \<and> tk_stat t = TASK_RUN
      then Some (t\<lparr>tk_stat := TASK_PRE\<rparr>) else ktable k ! i)" for i
    using t ktable_upd_task [OF m] by (simp add: park_def set_stat_def)
  show "sched_ok (park me k)"
    using assms t sched_ok_set_stat [OF assms(1), of me TASK_PRE]
    by (simp add: park_def sched_ok_def [of k])
  show "kcurr (park me k) = kcurr k" "ksleep (park me k) = ksleep k" using t by (simp_all add: park_def)
  show "\<And>i. i \<noteq> me \<Longrightarrow> ktable (park me k) ! i = ktable k ! i" using e by simp
  show "ktable (park me k) ! i = None \<longleftrightarrow> ktable k ! i = None" using e t by simp
  show "\<forall>i<16. \<forall>u. ktable (park me k) ! i = Some u \<longrightarrow> tk_stat u \<noteq> TASK_RUN"
  proof (intro allI impI notI)
    fix i u assume i: "i < 16" "ktable (park me k) ! i = Some u" "tk_stat u = TASK_RUN"
    show False
    proof (cases "i = me")
      case True
      with i(2,3) e [of i] t show ?thesis by (simp split: if_splits)
    next
      case False
      with i(2) e [of i] have "ktable k ! i = Some u" by simp
      from task_okD(2) [OF assms(1) i(1) this i(3)] False assms(2) show ?thesis by simp
    qed
  qed
qed

lemma sched_ok_run:
  assumes "sched_ok m" "n < 16" "ktable m ! n \<noteq> None"
    "\<forall>i<16. \<forall>u. ktable m ! i = Some u \<longrightarrow> tk_stat u \<noteq> TASK_RUN"
  shows "sched_ok (set_stat n TASK_RUN (m\<lparr>kcurr := n\<rparr>))"
proof -
  have l: "length (ktable m) = 16" using assms(1) by (simp add: sched_ok_def)
  have r: "ktable (set_stat n TASK_RUN (m\<lparr>kcurr := n\<rparr>)) ! i =
      (if i = n then map_option (\<lambda>t. t\<lparr>tk_stat := TASK_RUN\<rparr>) (ktable m ! n) else ktable m ! i)" for i
    using ktable_upd_task [of n "m\<lparr>kcurr := n\<rparr>" "\<lambda>t. t\<lparr>tk_stat := TASK_RUN\<rparr>" i] l assms(2)
    by (simp add: set_stat_def)
  have "task_ok n i (ktable (set_stat n TASK_RUN (m\<lparr>kcurr := n\<rparr>)) ! i)" if i: "i < 16" for i
  proof (cases "ktable m ! i")
    case None
    moreover from this have "i \<noteq> n" using assms(3) by auto
    ultimately show ?thesis by (simp add: r task_ok_def)
  next
    case (Some u)
    then have "tk_pid u = int i" "tk_stat u \<noteq> TASK_RUN"
      using task_okD(1) [OF assms(1) i] assms(4) i by simp_all
    with Some show ?thesis by (cases "i = n") (simp_all add: r task_ok_def)
  qed
  moreover have "ktable (set_stat n TASK_RUN (m\<lparr>kcurr := n\<rparr>)) ! n \<noteq> None"
    using assms(3) by (simp add: r)
  ultimately show ?thesis using assms(2) l by (simp add: sched_ok_def)
qed

lemma sched_switch_ok:
  assumes "sched_ok k" "me = kcurr k"
  shows "sched_ok (sched_switch me k)"
proof (cases "getnext k")
  case None
  with assms show ?thesis by (simp add: sched_switch_def)
next
  case (Some n)
  have n: "n < 16" "ktable (park me k) ! n \<noteq> None"
    using getnext_spec(2) [OF assms(1) Some] park_ok(6) [OF assms] by (auto simp: ready_def)
  show ?thesis
    unfolding sched_switch_park [OF Some]
    by (rule sched_ok_run [OF park_ok(1) [OF assms] n park_ok(4) [OF assms]])
qed

lemma task_schedule_ok:
  assumes "sched_ok k" "set (ksleep k) \<subseteq> {..<16}"
  shows "sched_ok (task_schedule k)"
proof -
  note u = update_sleep_ok [OF assms]
  have c: "kcurr k < 16" using assms(1) by (simp add: sched_ok_def)
  have a: "sched_ok (upd_task (kcurr k) (\<lambda>t. t\<lparr>tk_curr := tk_curr t - 1\<rparr>) (update_sleep k))"
    using u c by (intro sched_ok_upd) auto
  have b: "sched_ok (upd_task (kcurr k) (\<lambda>t. t\<lparr>tk_curr := tk_tick t\<rparr>)
      (upd_task (kcurr k) (\<lambda>t. t\<lparr>tk_curr := tk_curr t - 1\<rparr>) (update_sleep k)))"
    by (rule sched_ok_upd [OF a c]) auto
  show ?thesis
    using u a b assms(1) sched_switch_ok [of "update_sleep k" "kcurr k"] sched_switch_ok [OF b, of "kcurr k"]
    by (auto simp: task_schedule_def Let_def split: option.split)
qed

lemma task_block_ok:
  assumes "sched_ok k" "set (ksleep k) \<subseteq> {..<16}"
  shows "\<exists>k'. task_block k = Inr k' \<and> sched_ok k'"
proof -
  have "sched_ok (set_stat (kcurr k) TASK_BLK k)"
    using assms(1) by (intro sched_ok_set_stat) (auto simp: sched_ok_def)
  then have "sched_ok (task_schedule (set_stat (kcurr k) TASK_BLK k))"
    using assms(2) by (intro task_schedule_ok) auto
  moreover have "task_current k \<noteq> None" using assms(1) by (simp add: sched_ok_def task_current_def)
  ultimately show ?thesis by (simp add: task_block_def)
qed

lemma task_unblock_ok: "sched_ok k \<Longrightarrow> task_unblock k pid = Inr k' \<Longrightarrow> sched_ok k'"
  by (auto simp: task_unblock_def TASK_MAX_def split: if_splits intro!: sched_ok_set_stat)

lemma task_sleep_ok:
  assumes "sched_ok k" "set (ksleep k) \<subseteq> {..<16}" "task_sleep k n = Inr k'"
  shows "sched_ok k'"
proof -
  let ?k = "upd_task (kcurr k) (\<lambda>t. t\<lparr>tk_stat := TASK_SLP, tk_sleep := n\<rparr>) k"
  have "sched_ok ?k" using assms(1) by (intro sched_ok_upd) (auto simp: sched_ok_def)
  then have "sched_ok (task_schedule (?k\<lparr>ksleep := kcurr k # ksleep ?k\<rparr>))"
    using assms(1,2) by (intro task_schedule_ok) (auto simp: sched_ok_def)
  then show ?thesis using assms(3) by (auto simp: task_sleep_def Let_def split: if_splits)
qed

section \<open>Creating and ending tasks\<close>

lemma getfree_spec:
  assumes "length (ktable k) = 16"
  shows "getfree k = - 1 \<longleftrightarrow> (\<forall>i<16. ktable k ! i \<noteq> None)"
    and "getfree k \<noteq> - 1 \<Longrightarrow> 0 \<le> getfree k \<and> nat (getfree k) < 16 \<and> ktable k ! nat (getfree k) = None"
  by (auto simp: getfree_def TASK_MAX_def find_None_iff find_Some_iff split: option.splits)

lemma task_create0_spec:
  assumes "sched_ok k" "task_create0 raw k = (Some p, k')"
  shows "p < 16 \<and> ktable k ! p = None \<and> sched_ok k' \<and> kcurr k' = kcurr k \<and> ksleep k' = ksleep k \<and>
     krefer k' = krefer k \<and> (\<forall>i. i \<noteq> p \<longrightarrow> ktable k' ! i = ktable k ! i) \<and>
     (\<exists>t. ktable k' ! p = Some t \<and> tk_pid t = int p \<and> tk_stat t = TASK_INI)"
proof -
  have l: "length (ktable k) = 16" by (rule sched_okD(1) [OF assms(1)])
  have f: "getfree k \<noteq> - 1" and p: "p = nat (getfree k)"
    using assms(2) by (auto simp: task_create0_def Let_def split: if_splits)
  have g: "0 \<le> getfree k" "p < 16" "ktable k ! p = None"
    using getfree_spec(2) [OF l f] p by simp_all
  then have kp: "kcurr k \<noteq> p" using sched_okD(3) [OF assms(1)] by auto
  obtain t where k': "k' = k\<lparr>ktable := (ktable k)[p := Some t]\<rparr>" and t: "tk_pid t = int p" "tk_stat t = TASK_INI"
    using assms(2) g p by (auto simp: task_create0_def Let_def split: if_splits)
  have "task_ok (kcurr k) i ((ktable k)[p := Some t] ! i)" if "i < 16" for i
    using sched_okD(4) [OF assms(1) that] t g l by (cases "i = p") (auto simp: task_ok_def)
  then have "sched_ok k'" using assms(1) kp by (simp add: sched_ok_def k')
  then show ?thesis using k' t g l by simp
qed

lemma task_fork_spec:
  assumes "sched_ok k" "task_fork raw k = Inr (r, k')"
  shows "\<exists>p prt chd. r = int p \<and> p < 16 \<and> ktable k ! p = None \<and> ktable k ! kcurr k = Some prt \<and>
     ktable k' ! p = Some chd \<and> sched_ok k' \<and> kcurr k' = kcurr k \<and>
     (\<forall>i. i \<noteq> p \<longrightarrow> ktable k' ! i = ktable k ! i) \<and>
     tk_pid chd = int p \<and> tk_ppid chd = tk_pid prt \<and> tk_stat chd = TASK_PRE \<and>
     tk_files chd = tk_files prt \<and> euid chd = euid prt \<and> suid chd = suid prt \<and> ruid chd = ruid prt \<and>
     sigacts chd = sigacts prt \<and> sigmask chd = sigmask prt \<and> sigpend chd = sigpend prt \<and>
     tk_pgid chd = tk_pgid prt \<and> tk_sid chd = tk_sid prt"
proof -
  obtain prt where prt: "ktable k ! kcurr k = Some prt" using sched_okD(3) [OF assms(1)] by blast
  obtain p k1 where c: "task_create0 raw k = (Some p, k1)"
    using assms(2) prt by (auto simp: task_fork_def task_current_def split: prod.splits option.splits)
  let ?f = "\<lambda>chd. (fork_id prt (fork_sig prt (fork_fd prt (chd\<lparr>tk_mmap := tk_mmap prt\<rparr>))))
                          \<lparr>tk_tick := tk_tick prt, tk_curr := tk_curr prt, tk_ppid := tk_pid prt,
                           tk_stat := TASK_PRE, tk_args := tk_args prt, did_exec := False\<rparr>"
  note s = task_create0_spec [OF assms(1) c]
  have k': "k' = (upd_task p ?f k1)\<lparr>krefer := fork_refer prt (krefer k1)\<rparr>" and r: "r = int p"
    using assms(2) prt c by (auto simp: task_fork_def task_current_def)
  have l: "p < length (ktable k1)" using s by (simp add: sched_ok_def)
  obtain t where t: "ktable k1 ! p = Some t" "tk_pid t = int p" using s by blast
  have "sched_ok (upd_task p ?f k1)"
    using s by (intro sched_ok_upd) (auto simp: fork_id_def fork_sig_def fork_fd_def)
  then show ?thesis
    using s t prt r ktable_upd_task [OF l, of ?f]
    by (intro exI [of _ p] exI [of _ prt] exI [of _ "?f t"])
      (simp add: k' fork_id_def fork_sig_def fork_fd_def)
qed

section \<open>What scheduling leaves alone\<close>

text \<open>The fields of a task that only its status, its ticks and its sleep counter are not among.\<close>

definition core :: "task \<Rightarrow> task" where
  "core t = t\<lparr>tk_stat := TASK_DIE, tk_curr := 0, tk_sleep := 0\<rparr>"

definition core_at :: "kernel \<Rightarrow> nat \<Rightarrow> task option" where
  "core_at k i = map_option core (ktable k ! i)"

lemma core_at_upd:
  assumes "\<And>t. core (f t) = core t"
  shows "core_at (upd_task i f k) j = core_at k j"
proof (cases "i < length (ktable k)")
  case True
  then show ?thesis
    using assms by (simp add: core_at_def ktable_upd_task option.map_comp comp_def)
next
  case False
  then show ?thesis by (simp add: core_at_def upd_task_def list_update_beyond)
qed

lemma core_at_more [simp]:
  "core_at (k\<lparr>kcurr := c\<rparr>) = core_at k" "core_at (k\<lparr>ksleep := l\<rparr>) = core_at k"
  by (simp_all add: core_at_def fun_eq_iff)

lemma core_at_set_stat [simp]: "core_at (set_stat i st k) j = core_at k j"
  unfolding set_stat_def by (rule core_at_upd) (simp add: core_def)

lemma core_at_update_sleep_loop: "core_at (update_sleep_loop ps k) j = core_at k j"
proof (induction ps arbitrary: k)
  case Nil
  then show ?case by simp
next
  case (Cons p ps)
  have "core_at (upd_task p (\<lambda>t. t\<lparr>tk_sleep := s\<rparr>) k) j = core_at k j" for s
    by (rule core_at_upd) (simp add: core_def)
  then show ?case using Cons by (simp add: Let_def split: option.split)
qed

lemma core_at_switch: "core_at (sched_switch me k) j = core_at k j"
  by (auto simp: sched_switch_def Let_def split: option.split)

lemma core_at_schedule [simp]: "core_at (task_schedule k) j = core_at k j"
proof -
  have u: "core_at (update_sleep k) j = core_at k j"
    by (simp add: update_sleep_def core_at_update_sleep_loop)
  have a: "core_at (upd_task i (\<lambda>t. t\<lparr>tk_curr := f t\<rparr>) k) j = core_at k j" for i f k
    by (rule core_at_upd) (simp add: core_def)
  show ?thesis
    using u a by (auto simp: task_schedule_def Let_def core_at_switch split: option.split)
qed

lemma ksleep_update_sleep_loop:
  "set (ksleep (update_sleep_loop ps k)) \<subseteq> set (ksleep k) \<and>
     (distinct (ksleep k) \<longrightarrow> distinct (ksleep (update_sleep_loop ps k)))"
proof (induction ps arbitrary: k)
  case Nil
  then show ?case by simp
next
  case (Cons p ps)
  show ?case
  proof (cases "p = kcurr k \<or> ktable k ! p = None")
    case True
    then show ?thesis using Cons.IH [of k] by auto
  next
    case False
    then obtain t where t: "p \<noteq> kcurr k" "ktable k ! p = Some t" by blast
    let ?k1 = "upd_task p (\<lambda>u. u\<lparr>tk_sleep := tk_sleep t - 1\<rparr>) k"
    show ?thesis
    proof (cases "tk_sleep t = 1")
      case True
      let ?k2 = "(set_stat p TASK_PRE ?k1)\<lparr>ksleep := remove1 p (ksleep k)\<rparr>"
      have "update_sleep_loop (p # ps) k = update_sleep_loop ps ?k2" using t True by simp
      then show ?thesis
        using Cons.IH [of ?k2] set_remove1_subset [of p "ksleep k"] by (auto dest: subsetD)
    next
      case False
      then have "update_sleep_loop (p # ps) k = update_sleep_loop ps ?k1" using t by simp
      then show ?thesis using Cons.IH [of ?k1] by simp
    qed
  qed
qed

lemma ksleep_switch [simp]: "ksleep (sched_switch me k) = ksleep k"
  by (auto simp: sched_switch_def Let_def split: option.split)

lemma ksleep_schedule:
  "set (ksleep (task_schedule k)) \<subseteq> set (ksleep k) \<and>
     (distinct (ksleep k) \<longrightarrow> distinct (ksleep (task_schedule k)))"
  using ksleep_update_sleep_loop [of "ksleep k" k]
  by (auto simp: task_schedule_def update_sleep_def Let_def split: option.split)

section \<open>Reachable states\<close>

definition kinv :: "kernel \<Rightarrow> bool" where
  "kinv k \<longleftrightarrow> sched_ok k \<and> set (ksleep k) \<subseteq> {..<16} \<and> distinct (ksleep k)"

text \<open>
  A step is one call of the scheduler's interface, by the current task or by an interrupt. The
  second half of \<open>task_wait\<close> is a step of its own; \<open>task_wait\<close> asks that the caller is the parent of the task it waits for, so a task
  does not free its own slot. The last three steps are what kill does to a task: it stops it, lets it go on, and marks signals as pending.
\<close>

inductive kstep :: "kernel \<Rightarrow> kernel \<Rightarrow> bool" where
  tick: "kstep k (task_schedule k)"
| block: "task_block k = Inr k' \<Longrightarrow> kstep k k'"
| unblock: "task_unblock k pid = Inr k' \<Longrightarrow> kstep k k'"
| sleep: "task_sleep k n = Inr k' \<Longrightarrow> kstep k k'"
| fork: "task_fork raw k = Inr (r, k') \<Longrightarrow> kstep k k'"
| create: "task_create raw args k = Inr (p, k') \<Longrightarrow> kstep k k'"
| exit: "task_exit k pid v = Inr k' \<Longrightarrow> kstep k k'"
| wait: "task_wait_block k pid = Inr (Inr k') \<Longrightarrow> kstep k k'"
| reap: "task_wait_reap k (kcurr k) = Inr (p, v, k') \<Longrightarrow> nat p \<noteq> kcurr k \<Longrightarrow> kstep k k'"
| stop: "task_get k pid = Some t \<Longrightarrow> kstep k (set_stat (nat pid) TASK_STP k)"
| cont: "task_get k pid = Some t \<Longrightarrow> tk_stat t = TASK_STP \<Longrightarrow> kstep k (set_stat (nat pid) TASK_PRE k)"
| signal: "task_get k pid = Some t \<Longrightarrow> kstep k (upd_task (nat pid) (\<lambda>t. t\<lparr>sigpend := w\<rparr>) k)"

definition kboot :: "kernel \<Rightarrow> bool" where
  "kboot k \<longleftrightarrow> (\<exists>raw k0. task_init raw k0 = Inr k)"

lemma kinv_schedule: "kinv k \<Longrightarrow> kinv (task_schedule k)"
  using task_schedule_ok [of k] ksleep_schedule [of k] by (auto simp: kinv_def)

lemma kinv_upd:
  assumes "kinv k" "i < 16" "\<And>t. tk_pid (f t) = tk_pid t"
    "\<And>t. tk_stat (f t) = TASK_RUN \<Longrightarrow> tk_stat t = TASK_RUN"
  shows "kinv (upd_task i f k)"
  using assms sched_ok_upd [of k i f] by (simp add: kinv_def)

lemma kinv_set_stat: "kinv k \<Longrightarrow> i < 16 \<Longrightarrow> st \<noteq> TASK_RUN \<Longrightarrow> kinv (set_stat i st k)"
  using sched_ok_set_stat [of k i st] by (simp add: kinv_def)

lemma task_get_lt: "task_get k pid = Some t \<Longrightarrow> nat pid < 16"
  by (auto simp: task_get_def TASK_MAX_def nat_less_iff split: if_splits)

lemma kinv_exit:
  assumes "kinv k" "task_exit k pid v = Inr k'"
  shows "kinv k'"
proof (cases "task_get k pid")
  case None
  with assms show ?thesis by (simp add: task_exit_def)
next
  case (Some tsk)
  let ?k1 = "upd_task (nat pid) (\<lambda>t. t\<lparr>tk_stat := TASK_DIE, tk_retval := v\<rparr>) k"
  have k1: "kinv ?k1" using assms(1) task_get_lt [OF Some] by (rule kinv_upd) auto
  obtain prt where prt: "task_get ?k1 (tk_ppid tsk) = Some prt"
    using assms(2) Some by (auto simp: task_exit_def Let_def split: option.splits)
  show ?thesis
  proof (cases "tk_stat prt = TASK_BLK \<and> (tk_waitpid prt = tk_pid tsk \<or> tk_waitpid prt = - 1)")
    case True
    then obtain k2 where k2: "task_unblock ?k1 (tk_pid prt) = Inr k2"
        and k': "k' = task_schedule (upd_task (nat (tk_ppid tsk)) (\<lambda>t. t\<lparr>tk_waitpid := tk_pid tsk\<rparr>) k2)"
      using assms(2) Some prt by (auto simp: task_exit_def Let_def bind_result_eq_Inr)
    have "kinv k2"
      using k1 k2 by (auto simp: task_unblock_def TASK_MAX_def split: if_splits intro!: kinv_set_stat)
    then have "kinv (upd_task (nat (tk_ppid tsk)) (\<lambda>t. t\<lparr>tk_waitpid := tk_pid tsk\<rparr>) k2)"
      using task_get_lt [OF prt] by (rule kinv_upd) auto
    then show ?thesis unfolding k' by (rule kinv_schedule)
  next
    case False
    then have "k' = task_schedule ?k1"
      using assms(2) Some prt by (auto simp: task_exit_def Let_def)
    with k1 show ?thesis by (simp add: kinv_schedule)
  qed
qed

lemma ksleep_fork:
  assumes "sched_ok k" "task_fork raw k = Inr (r, k')"
  shows "ksleep k' = ksleep k"
proof -
  obtain prt where prt: "ktable k ! kcurr k = Some prt" using sched_okD(3) [OF assms(1)] by blast
  obtain p k1 where c: "task_create0 raw k = (Some p, k1)"
    using assms(2) prt by (auto simp: task_fork_def task_current_def split: prod.splits option.splits)
  have "ksleep k1 = ksleep k" using task_create0_spec [OF assms(1) c] by simp
  then show ?thesis using assms(2) prt c by (auto simp: task_fork_def task_current_def)
qed

lemma kinv_unblock:
  assumes "kinv k" "task_unblock k pid = Inr k'"
  shows "kinv k'"
proof -
  have "k' = set_stat (nat pid) TASK_PRE k" "nat pid < 16"
    using assms(2) by (simp_all add: task_unblock_def TASK_MAX_def nat_less_iff split: if_splits)
  then show ?thesis using kinv_set_stat [OF assms(1)] by simp
qed

lemma kinv_block:
  assumes "kinv k" "task_block k = Inr k'"
  shows "kinv k'"
proof -
  have "k' = task_schedule (set_stat (kcurr k) TASK_BLK k)"
    using assms(2) by (simp add: task_block_def split: if_splits)
  moreover have "kcurr k < 16" using assms(1) by (simp add: kinv_def sched_ok_def)
  ultimately show ?thesis using kinv_schedule [OF kinv_set_stat [OF assms(1)]] by simp
qed

lemma kinv_sleep:
  assumes "kinv k" "task_sleep k n = Inr k'"
  shows "kinv k'"
proof -
  have c: "kcurr k < 16" using assms(1) by (simp add: kinv_def sched_ok_def)
  let ?k = "upd_task (kcurr k) (\<lambda>t. t\<lparr>tk_stat := TASK_SLP, tk_sleep := n\<rparr>) k"
  have "kinv ?k" using assms(1) c by (rule kinv_upd) auto
  moreover have "kcurr k \<notin> set (ksleep k)"
    using assms(2) by (auto simp: task_sleep_def Let_def split: if_splits)
  ultimately have "kinv (?k\<lparr>ksleep := kcurr k # ksleep ?k\<rparr>)" using c by (simp add: kinv_def)
  then have "kinv (task_schedule (?k\<lparr>ksleep := kcurr k # ksleep ?k\<rparr>))" by (rule kinv_schedule)
  moreover have "k' = task_schedule (?k\<lparr>ksleep := kcurr k # ksleep ?k\<rparr>)"
    using assms(2) by (simp add: task_sleep_def Let_def split: if_splits)
  ultimately show ?thesis by simp
qed

lemma kinv_fork:
  assumes "kinv k" "task_fork raw k = Inr (r, k')"
  shows "kinv k'"
proof -
  have k: "sched_ok k" using assms(1) by (simp add: kinv_def)
  have "ksleep k' = ksleep k" by (rule ksleep_fork [OF k assms(2)])
  moreover have "sched_ok k'" using task_fork_spec [OF k assms(2)] by blast
  ultimately show ?thesis using assms(1) by (simp add: kinv_def)
qed

lemma kinv_create:
  assumes "kinv k" "task_create raw args k = Inr (p, k')"
  shows "kinv k'"
proof -
  obtain k1 where c: "task_create0 raw k = (Some p, k1)"
    using assms(2) by (auto simp: task_create_def split: prod.splits option.splits)
  note s = task_create0_spec [OF _ c]
  have "kinv k1" "p < 16" using s assms(1) by (auto simp: kinv_def)
  then show ?thesis
    using assms(2) c by (auto simp: task_create_def intro!: kinv_upd)
qed

lemma kinv_wait:
  assumes "kinv k" "task_wait_block k pid = Inr (Inr k')"
  shows "kinv k'"
proof -
  let ?k = "upd_task (kcurr k) (\<lambda>t. t\<lparr>tk_waitpid := pid\<rparr>) k"
  have "kinv ?k" using assms(1) by (intro kinv_upd) (auto simp: kinv_def sched_ok_def)
  moreover have "task_block ?k = Inr k'"
    using assms(2)
    by (auto simp: task_wait_block_def Let_def bind_result_eq_Inr split: option.splits if_splits)
  ultimately show ?thesis by (rule kinv_block)
qed

lemma kinv_reap:
  assumes "kinv k" "task_wait_reap k (kcurr k) = Inr (p, v, k')" "nat p \<noteq> kcurr k"
  shows "kinv k'"
proof -
  let ?k = "upd_task (kcurr k) (\<lambda>t. t\<lparr>tk_waitpid := 0\<rparr>) k"
  have k: "kinv ?k" using assms(1) by (intro kinv_upd) (auto simp: kinv_def sched_ok_def)
  have k': "k' = ?k\<lparr>ktable := (ktable ?k)[nat p := None]\<rparr>" "nat p < 16"
    using assms(2) by (auto simp: task_wait_reap_def Let_def TASK_MAX_def split: option.splits if_splits)
  have "task_ok (kcurr k) i (ktable k' ! i)" if "i < 16" for i
    using sched_okD(1,4) [of ?k] k that k' by (cases "i = nat p") (auto simp: kinv_def task_ok_def)
  moreover have "ktable k' ! kcurr k \<noteq> None" "length (ktable k') = 16"
    using k k' assms(3) sched_okD(3) [of ?k] by (auto simp: kinv_def sched_ok_def)
  ultimately show ?thesis using k k' by (simp add: kinv_def sched_ok_def)
qed

lemma kinv_signal:
  assumes "kinv k" "task_get k pid = Some t"
  shows "kinv (set_stat (nat pid) TASK_STP k)" "kinv (set_stat (nat pid) TASK_PRE k)" "kinv (upd_task (nat pid) (\<lambda>t. t\<lparr>sigpend := w\<rparr>) k)"
  using task_get_lt [OF assms(2)] assms(1) by (auto intro: kinv_set_stat kinv_upd)

lemma kinv_step: "kstep k k' \<Longrightarrow> kinv k \<Longrightarrow> kinv k'"
  by (erule kstep.cases)
    (simp_all only: kinv_schedule kinv_signal,
      (erule kinv_block kinv_unblock kinv_sleep kinv_fork kinv_create kinv_exit kinv_wait, assumption)+,
      (erule kinv_reap, assumption, assumption))

lemma kinv_init:
  assumes "task_init raw k0 = Inr k"
  shows "kinv k"
proof -
  have z: "replicate 16 None = None # replicate 15 (None :: task option)"
    by (simp add: numeral_eq_Suc)
  have "getfree (k0\<lparr>ktable := replicate 16 None, ksleep := []\<rparr>) = 0"
    by (simp add: getfree_def TASK_MAX_def upt_conv_Cons)
  then obtain t where "ktable k = Some t # replicate 15 None" "ksleep k = []" "kcurr k = 0"
      "tk_pid t = 0"
    using assms
    by (auto simp: task_init_def task_create_def task_create0_def Let_def TASK_MAX_def z set_stat_def
        upd_task_def)
  moreover have "task_ok 0 i ((Some t # replicate 15 None) ! i)" if "i < 16" "tk_pid t = 0" for i t
    using that by (cases i) (simp_all add: task_ok_def)
  ultimately show ?thesis by (simp add: kinv_def sched_ok_def)
qed

interpretation ksys: keeps kboot kstep kinv
  by unfold_locales (auto simp: kboot_def intro: kinv_init kinv_step)

end
