(* ===== verification/Sched_Live.thy ===== *)
theory Sched_Live
  imports Sched
begin

text \<open>
  What the scheduler promises to a single task: a ready task is reached after finitely many ticks,
  a parent that waits gets the exit value of its child, and what happens when no task is ready.
\<close>

section \<open>A concrete kernel\<close>

text \<open>A zeroed \<open>task_t\<close>, the kernel after boot, and after the kernel task has forked once.\<close>

definition blank_task :: task where
  "blank_task = \<lparr>tk_pid = 0, tk_sid = 0, tk_ppid = 0, tk_pgid = 0, ruid = 0, euid = 0, suid = 0,
     rgid = 0, egid = 0, sgid = 0, supgids = None, tk_stat = TASK_DIE, tk_tick = 0, tk_curr = 0,
     tk_files = [], tk_args = 0, did_exec = False, tk_mmap = 0, tk_retval = 0, tk_waitpid = 0,
     tk_sleep = 0, sigcurr = 0, sigpend = 0, sigmask = 0, sigacts = []\<rparr>"

text \<open>The signal state \<open>task_create\<close> gives a task.\<close>

definition fresh_sig :: "task \<Rightarrow> bool" where
  "fresh_sig t \<longleftrightarrow> sigpend t = 0 \<and> sigmask t = 0 \<and> (\<forall>i < NSIG. sa_handler (sigacts t ! i) = 0)"

definition booted :: kernel where
  "booted = (case task_init blank_task \<lparr>ktable = [], kcurr = 0, ksleep = [], krefer = \<lambda>_. 0\<rparr> of
     Inr k \<Rightarrow> k | Inl _ \<Rightarrow> undefined)"

definition forked :: kernel where
  "forked = (case task_fork blank_task booted of Inr (_, k) \<Rightarrow> k | Inl _ \<Rightarrow> undefined)"

lemma table16: "replicate 16 None = None # None # replicate 14 (None :: 'a option)"
  by (simp add: numeral_eq_Suc)

lemma getfree_0: "ktable k ! 0 = None \<Longrightarrow> getfree k = 0"
  by (simp add: getfree_def TASK_MAX_def upt_conv_Cons)

lemma getfree_1: "ktable k ! 0 \<noteq> None \<Longrightarrow> ktable k ! 1 = None \<Longrightarrow> getfree k = 1"
  by (simp add: getfree_def TASK_MAX_def upt_conv_Cons)

lemma booted_eval:
  "task_init blank_task \<lparr>ktable = [], kcurr = 0, ksleep = [], krefer = \<lambda>_. 0\<rparr> = Inr booted"
  "\<exists>t. ktable booted = Some t # None # replicate 14 None \<and> tk_pid t = 0 \<and> tk_stat t = TASK_RUN \<and>
     tk_files t = replicate 16 None \<and> tk_sid t = 0 \<and> fresh_sig t"
  "kcurr booted = 0" "ksleep booted = []"
  by (simp_all add: booted_def task_init_def task_create_def task_create0_def getfree_0 TASK_MAX_def
      MAX_FILE_def table16 set_stat_def upd_task_def fresh_sig_def)

lemma forked_eval:
  "task_fork blank_task booted = Inr (1, forked)"
  "\<exists>t u. ktable forked = Some t # Some u # replicate 14 None \<and> tk_pid t = 0 \<and> tk_stat t = TASK_RUN \<and>
     tk_pid u = 1 \<and> tk_stat u = TASK_PRE \<and> tk_ppid u = 0 \<and> tk_sid u = tk_sid t \<and> \<not> did_exec u \<and> tk_sid t = 0 \<and>
     fresh_sig u"
  "kcurr forked = 0" "ksleep forked = []"
proof -
  obtain t where t: "ktable booted = Some t # None # replicate 14 None" "tk_pid t = 0" "tk_stat t = TASK_RUN"
      "tk_sid t = 0" "fresh_sig t"
    using booted_eval(2) by blast
  have f: "getfree booted = 1" using t by (intro getfree_1) simp_all
  show "task_fork blank_task booted = Inr (1, forked)"
    using t f booted_eval(3)
    by (simp add: forked_def task_fork_def task_current_def task_create0_def)
  show "\<exists>t u. ktable forked = Some t # Some u # replicate 14 None \<and> tk_pid t = 0 \<and> tk_stat t = TASK_RUN \<and>
     tk_pid u = 1 \<and> tk_stat u = TASK_PRE \<and> tk_ppid u = 0 \<and> tk_sid u = tk_sid t \<and> \<not> did_exec u \<and> tk_sid t = 0 \<and>
     fresh_sig u"
    "kcurr forked = 0" "ksleep forked = []"
    using t f booted_eval(3,4)
    by (simp_all add: forked_def task_fork_def task_current_def task_create0_def upd_task_def
        fork_id_def fork_sig_def fork_fd_def fresh_sig_def)
qed

lemma forked_reach: "reach kboot kstep booted" "reach kboot kstep forked"
proof -
  show b: "reach kboot kstep booted"
    by (rule reach_start) (auto simp: kboot_def intro: booted_eval(1))
  show "reach kboot kstep forked"
    by (rule reach_step [OF b]) (rule kstep.fork [OF forked_eval(1)])
qed

section \<open>One tick\<close>

lemma update_sleep_loop_cur: "ktable (update_sleep_loop ps k) ! kcurr k = ktable k ! kcurr k"
proof (induction ps arbitrary: k)
  case Nil
  then show ?case by simp
next
  case (Cons p ps)
  have c: "ktable (upd_task p f k) ! kcurr k = ktable k ! kcurr k" if "p \<noteq> kcurr k" for f k
    using that by (simp add: upd_task_def)
  show ?case
  proof (cases "p = kcurr k \<or> ktable k ! p = None")
    case True
    then show ?thesis using Cons.IH [of k] by auto
  next
    case False
    then obtain t where t: "p \<noteq> kcurr k" "ktable k ! p = Some t" by blast
    let ?k1 = "upd_task p (\<lambda>u. u\<lparr>tk_sleep := tk_sleep t - 1\<rparr>) k"
    let ?k2 = "(set_stat p TASK_PRE ?k1)\<lparr>ksleep := remove1 p (ksleep k)\<rparr>"
    show ?thesis
      using t Cons.IH [of ?k1] Cons.IH [of ?k2] c [of k] c [of ?k1]
      by (cases "tk_sleep t = 1") (simp_all add: set_stat_def)
  qed
qed

lemma ready_upd:
  assumes "ready k i" "\<And>t. tk_stat t = TASK_PRE \<Longrightarrow> tk_stat (f t) = TASK_PRE"
  shows "ready (upd_task p f k) i"
  using assms by (cases "p < length (ktable k)")
    (auto simp: ready_def upd_task_def nth_list_update list_update_beyond)

lemma ready_more [simp]:
  "ready (k\<lparr>ksleep := l\<rparr>) i = ready k i" "ready (k\<lparr>kcurr := c\<rparr>) i = ready k i"
  by (simp_all add: ready_def)

lemma ready_update_sleep_loop: "ready k i \<Longrightarrow> ready (update_sleep_loop ps k) i"
proof (induction ps arbitrary: k)
  case Nil
  then show ?case by simp
next
  case (Cons p ps)
  have a: "ready (upd_task p (\<lambda>u. u\<lparr>tk_sleep := s\<rparr>) k) i" for s
    using Cons.prems by (rule ready_upd) simp
  have "ready (set_stat p TASK_PRE (upd_task p (\<lambda>u. u\<lparr>tk_sleep := s\<rparr>) k)) i" for s
    unfolding set_stat_def using a by (rule ready_upd) simp
  then show ?case
    using Cons a by (cases "ktable k ! p") (simp_all add: Let_def)
qed

lemma update_sleep_frame:
  "ktable (update_sleep k) ! kcurr k = ktable k ! kcurr k"
  "ready k i \<Longrightarrow> ready (update_sleep k) i"
  by (simp_all add: update_sleep_def update_sleep_loop_cur ready_update_sleep_loop)

text \<open>A switch gives the processor to the nearest ready task and leaves the others ready.\<close>

lemma switch_progress:
  assumes "sched_ok k" "ready k i" "i < 16"
  shows "\<exists>n t. kcurr (sched_switch (kcurr k) k) = n \<and> n < 16 \<and> ready k n \<and>
     dist (kcurr k) n \<le> dist (kcurr k) i \<and>
     ktable (sched_switch (kcurr k) k) ! n = Some t \<and> tk_stat t = TASK_RUN \<and>
     (i \<noteq> n \<longrightarrow> ready (sched_switch (kcurr k) k) i)"
proof -
  obtain n where n: "getnext k = Some n"
    using getnext_spec(1) [OF assms(1) _ assms(3)] assms(2) by (cases "getnext k") auto
  note g = getnext_spec(2) [OF assms(1) n]
  let ?p = "park (kcurr k) k"
  have sw: "sched_switch (kcurr k) k = set_stat n TASK_RUN (?p\<lparr>kcurr := n\<rparr>)"
    by (rule sched_switch_park [OF n])
  have l: "length (ktable ?p) = 16" using park_ok(1) [OF assms(1) refl] by (simp add: sched_ok_def)
  have t: "ktable (sched_switch (kcurr k) k) ! j =
      (if j = n then map_option (\<lambda>t. t\<lparr>tk_stat := TASK_RUN\<rparr>) (ktable ?p ! n) else ktable ?p ! j)" for j
    using ktable_upd_task [of n "?p\<lparr>kcurr := n\<rparr>" "\<lambda>t. t\<lparr>tk_stat := TASK_RUN\<rparr>" j] l g
    by (simp add: sw set_stat_def)
  have "ready ?p i"
    unfolding park_def set_stat_def using assms(2)
    by (auto split: option.split intro: ready_upd)
  moreover obtain u where "ktable ?p ! n = Some u"
    using g park_ok(6) [OF assms(1) refl, of n] by (auto simp: ready_def)
  moreover have "dist (kcurr k) n \<le> dist (kcurr k) i" using g assms(2,3) by simp
  ultimately show ?thesis using g t by (simp add: sw ready_def)
qed

text \<open>The state in which a tick that ends the turn of the current task enters the switch.\<close>

lemma tick_cases:
  assumes "kinv k" "ktable k ! kcurr k = Some t"
  obtains (stay) "tk_stat t = TASK_RUN" "tk_curr t \<noteq> 0"
      "kcurr (task_schedule k) = kcurr k"
      "ktable (task_schedule k) ! kcurr k = Some (t\<lparr>tk_curr := tk_curr t - 1\<rparr>)"
      "\<And>i. ready k i \<Longrightarrow> ready (task_schedule k) i"
  | (switch) k2 u where "task_schedule k = sched_switch (kcurr k2) k2" "sched_ok k2" "kcurr k2 = kcurr k"
      "ktable k2 ! kcurr k = Some u" "tk_stat u = tk_stat t"
      "\<And>i. ready k i \<Longrightarrow> ready k2 i"
proof -
  have ok: "sched_ok k" "set (ksleep k) \<subseteq> {..<16}" using assms(1) by (simp_all add: kinv_def)
  note u = update_sleep_ok [OF ok] and f = update_sleep_frame [of k]
  have c: "kcurr k < 16" "kcurr k < length (ktable (update_sleep k))"
    using ok(1) u by (simp_all add: sched_ok_def)
  let ?d = "\<lambda>t. t\<lparr>tk_curr := tk_curr t - 1\<rparr>" and ?r = "\<lambda>t. t\<lparr>tk_curr := tk_tick t\<rparr>"
  let ?k1 = "upd_task (kcurr k) ?d (update_sleep k)"
  let ?k2 = "upd_task (kcurr k) ?r ?k1"
  have k1: "sched_ok ?k1" using u c by (intro sched_ok_upd) auto
  have k2: "sched_ok ?k2" by (rule sched_ok_upd [OF k1 c(1)]) auto
  have t1: "ktable ?k1 ! kcurr k = Some (?d t)" "ktable ?k2 ! kcurr k = Some (?r (?d t))"
    using ktable_upd_task [OF c(2), of ?d "kcurr k"] ktable_upd_task [of "kcurr k" ?k1 ?r "kcurr k"] f(1)
      assms(2) c by simp_all
  have r1: "ready ?k1 i" "ready ?k2 i" if "ready k i" for i
    using f(2) [OF that] by (auto intro!: ready_upd)
  have cu: "task_current k = Some t" using assms(2) by (simp add: task_current_def)
  show thesis
  proof (cases "tk_stat t = TASK_RUN")
    case False
    then have "task_schedule k = sched_switch (kcurr (update_sleep k)) (update_sleep k)"
      using cu f(1) assms(2) u by (simp add: task_schedule_def Let_def)
    then show thesis using switch [of "update_sleep k" t] u f assms(2) by simp
  next
    case True
    show thesis
    proof (cases "tk_curr t = 0")
      case False
      with True have "task_schedule k = ?k1"
        using cu f(1) assms(2) by (simp add: task_schedule_def Let_def)
      then show thesis using stay True False t1 r1 u by simp
    next
      case 2: True
      with True have "task_schedule k = sched_switch (kcurr ?k2) ?k2"
        using cu f(1) assms(2) u by (simp add: task_schedule_def Let_def)
      then show thesis using switch [of ?k2 "?r (?d t)"] k2 t1 r1 u True by simp
    qed
  qed
qed

section \<open>A ready task runs\<close>

definition wait_rank :: "nat \<Rightarrow> (kernel \<times> kernel) set" where
  "wait_rank i = measures
     [\<lambda>k. dist (kcurr k) i,
      \<lambda>k. if map_option tk_stat (ktable k ! kcurr k) = Some TASK_RUN then 0 else 1,
      \<lambda>k. case ktable k ! kcurr k of Some t \<Rightarrow> unat (tk_curr t) | None \<Rightarrow> 0]"

lemma tick_progress:
  assumes "kinv k" "ready k i" "i < 16" "i \<noteq> kcurr k"
  shows "kcurr (task_schedule k) = i \<or>
     (ready (task_schedule k) i \<and> kcurr (task_schedule k) \<noteq> i \<and> (task_schedule k, k) \<in> wait_rank i)"
proof -
  have ok: "sched_ok k" using assms(1) by (simp add: kinv_def)
  obtain t where t: "ktable k ! kcurr k = Some t" using sched_okD(3) [OF ok] by blast
  from assms(1) t show ?thesis
  proof (cases rule: tick_cases)
    case stay
    have "unat (tk_curr t - 1) < unat (tk_curr t)"
      using stay(2) by (simp add: unat_minus_one unat_gt_0)
    then show ?thesis using stay t assms by (simp add: wait_rank_def)
  next
    case (switch k2 u)
    obtain n v where n: "kcurr (task_schedule k) = n" "n < 16" "ready k2 n"
        "dist (kcurr k) n \<le> dist (kcurr k) i" "ktable (task_schedule k) ! n = Some v" "tk_stat v = TASK_RUN"
        "i \<noteq> n \<longrightarrow> ready (task_schedule k) i"
      using switch_progress [OF switch(2) switch(6) [OF assms(2)] assms(3)] switch(1,3) by auto
    show ?thesis
    proof (cases "n = i \<or> n = kcurr k")
      case True
      have "n = kcurr k \<Longrightarrow> tk_stat t = TASK_PRE" using n(3) switch(4,5) by (simp add: ready_def)
      with True n t assms(4) show ?thesis by (auto simp: wait_rank_def)
    next
      case False
      have c: "kcurr k < 16" using ok by (simp add: sched_ok_def)
      have w: "(kcurr k + dist (kcurr k) n) mod 16 = n" by (rule dist_walk [OF c n(2)])
      then have "dist n i = dist (kcurr k) i - dist (kcurr k) n"
        using dist_after [OF c assms(3) n(4)] by simp
      moreover have "dist (kcurr k) n \<noteq> 0" using w c False by (intro notI) simp
      ultimately have "dist n i < dist (kcurr k) i" using n(4) by simp
      then show ?thesis using n False by (auto simp: wait_rank_def)
    qed
  qed
qed

text \<open>
  C1. No starvation: from every state the kernel can reach, a task that is ready gets the processor
  after finitely many timer ticks, whatever the other tasks' remaining ticks are.
\<close>

theorem ready_task_runs:
  assumes "reach kboot kstep k" "i < 16" "ready k i"
  shows "\<exists>n. kcurr ((task_schedule ^^ n) k) = i"
proof -
  have wf: "wf (wait_rank i)" by (simp add: wait_rank_def)
  have "kinv k" using assms(1) by (rule ksys.good_reach)
  then show ?thesis using assms(3)
  proof (induction k rule: wf_induct_rule [OF wf])
    case (1 k)
    show ?case
    proof (cases "kcurr k = i \<or> kcurr (task_schedule k) = i")
      case True
      then show ?thesis by (auto intro: exI [of _ 0] exI [of _ 1])
    next
      case False
      then have "ready (task_schedule k) i" "(task_schedule k, k) \<in> wait_rank i"
        using tick_progress [OF 1(2,3) assms(2)] by auto
      then obtain n where "kcurr ((task_schedule ^^ n) (task_schedule k)) = i"
        using 1(1) kinv_schedule [OF 1(2)] by blast
      then show ?thesis by (intro exI [of _ "Suc n"]) (simp add: funpow_swap1)
    qed
  qed
qed

lemma ready_task_runs_witness:
  "reach kboot kstep forked \<and> ready forked 1 \<and> (\<exists>n. kcurr ((task_schedule ^^ n) forked) = 1)"
proof -
  have r: "ready forked 1" using forked_eval(2) by (auto simp: ready_def)
  show ?thesis using ready_task_runs [OF forked_reach(2) _ r] r forked_reach(2) by simp
qed

section \<open>The table invariant\<close>

text \<open>
  C2. In every reachable state the table has its 16 slots, the current slot holds a task, every task
  sits at the slot of its own pid, and no task but the current one has the status RUN.
\<close>

theorem reachable_table:
  assumes "reach kboot kstep k" "i < 16" "ktable k ! i = Some t"
  shows "length (ktable k) = 16 \<and> kcurr k < 16 \<and> task_current k \<noteq> None \<and>
     tk_pid t = int i \<and> (tk_stat t = TASK_RUN \<longrightarrow> i = kcurr k) \<and> distinct (ksleep k)"
proof -
  have k: "kinv k" using assms(1) by (rule ksys.good_reach)
  then have "sched_ok k" by (simp add: kinv_def)
  then show ?thesis
    using task_okD [OF _ assms(2,3)] k by (auto simp: kinv_def sched_ok_def task_current_def)
qed

lemma reachable_table_witness:
  "\<exists>t. ktable forked ! 1 = Some t \<and> tk_pid t = 1 \<and> distinct (ksleep forked)"
proof -
  obtain u where u: "ktable forked ! 1 = Some u" using forked_eval(2) by auto
  show ?thesis using reachable_table [OF forked_reach(2) _ u] u by simp
qed

section \<open>Fork\<close>

text \<open>
  A fork that returns gives the pid of a slot that was free; the child copies the open files, the
  credentials, the signal state and the session of its parent, is ready, and has the parent as its
  parent; no other slot changes, and every file the parent has open gains one reference per
  descriptor.
\<close>

theorem fork_copies:
  assumes "reach kboot kstep k" "task_fork raw k = Inr (r, k')"
  shows "\<exists>p prt chd. r = int p \<and> p < 16 \<and> ktable k ! p = None \<and> ktable k ! kcurr k = Some prt \<and>
     ktable k' ! p = Some chd \<and> kcurr k' = kcurr k \<and>
     (\<forall>i. i \<noteq> p \<longrightarrow> ktable k' ! i = ktable k ! i) \<and>
     tk_pid chd = r \<and> tk_ppid chd = tk_pid prt \<and> tk_stat chd = TASK_PRE \<and>
     tk_files chd = tk_files prt \<and> euid chd = euid prt \<and> suid chd = suid prt \<and> ruid chd = ruid prt \<and>
     sigacts chd = sigacts prt \<and> sigmask chd = sigmask prt \<and> sigpend chd = sigpend prt \<and>
     tk_pgid chd = tk_pgid prt \<and> tk_sid chd = tk_sid prt \<and>
     (\<forall>f. krefer k' f = krefer k f + length (filter (\<lambda>x. x = Some f) (tk_files prt)))"
proof -
  have k: "sched_ok k" using ksys.good_reach [OF assms(1)] by (simp add: kinv_def)
  obtain prt where prt: "ktable k ! kcurr k = Some prt" using sched_okD(3) [OF k] by blast
  obtain p k1 where c: "task_create0 raw k = (Some p, k1)"
    using assms(2) prt by (auto simp: task_fork_def task_current_def split: prod.splits option.splits)
  have "krefer k' = fork_refer prt (krefer k)"
    using assms(2) prt c task_create0_spec [OF k c] by (auto simp: task_fork_def task_current_def)
  then show ?thesis using task_fork_spec [OF k assms(2)] prt by (auto simp: fork_refer_def)
qed

lemma fork_copies_witness:
  "\<exists>chd. task_fork blank_task booted = Inr (1, forked) \<and> ktable forked ! 1 = Some chd \<and> tk_pid chd = 1"
  using fork_copies [OF forked_reach(1) forked_eval(1)] forked_eval(1) by auto

section \<open>Exit and wait\<close>

lemma core_at_ticks: "core_at ((task_schedule ^^ n) k) j = core_at k j"
  by (induction n) simp_all

lemma core_at_Some: "core_at k i = Some c \<longleftrightarrow> (\<exists>t. ktable k ! i = Some t \<and> core t = c)"
  by (simp add: core_at_def)

lemma core_fields:
  "core t = core u \<Longrightarrow> tk_retval t = tk_retval u \<and> tk_waitpid t = tk_waitpid u \<and> tk_pid t = tk_pid u \<and>
     tk_ppid t = tk_ppid u"
  by (cases t; cases u) (simp add: core_def)

text \<open>What the exit of a task leaves for its waiting parent, in the fields no tick touches.\<close>

lemma exit_core:
  assumes "sched_ok k" "c < 16" "p < 16" "p \<noteq> c" "ktable k ! c = Some chd" "tk_ppid chd = int p"
    "ktable k ! p = Some prt" "tk_stat prt = TASK_BLK" "tk_waitpid prt = int c \<or> tk_waitpid prt = - 1"
    "task_exit k (int c) v = Inr k'"
  shows "core_at k' c = Some (core (chd\<lparr>tk_retval := v\<rparr>))"
    "core_at k' p = Some (core (prt\<lparr>tk_waitpid := int c\<rparr>))"
proof -
  have l: "length (ktable k) = 16" by (rule sched_okD(1) [OF assms(1)])
  have pid: "tk_pid chd = int c" "tk_pid prt = int p"
    using task_okD(1) [OF assms(1)] assms(2,3,5,7) by simp_all
  let ?f = "\<lambda>t. t\<lparr>tk_stat := TASK_DIE, tk_retval := v\<rparr>"
  let ?k1 = "upd_task c ?f k"
  let ?g = "\<lambda>t. t\<lparr>tk_waitpid := int c\<rparr>"
  let ?k2 = "upd_task p ?g (set_stat p TASK_PRE ?k1)"
  have k1: "ktable ?k1 ! c = Some (?f chd)" "ktable ?k1 ! p = Some prt"
    using ktable_upd_task [of c k ?f] l assms(2,4,5,7) by simp_all
  have "task_unblock ?k1 (int p) = Inr (set_stat p TASK_PRE ?k1)"
    using k1(2) assms(3) by (simp add: task_unblock_def TASK_MAX_def)
  then have k': "k' = task_schedule ?k2"
    using assms k1(2) pid by (auto simp: task_exit_def task_get_def TASK_MAX_def Let_def bind_result_def)
  have k2: "ktable ?k2 ! c = Some (?f chd)" "ktable ?k2 ! p = Some (?g (prt\<lparr>tk_stat := TASK_PRE\<rparr>))"
    using k1 l assms(3,4) by (simp_all add: set_stat_def ktable_upd_task)
  show "core_at k' c = Some (core (chd\<lparr>tk_retval := v\<rparr>))"
    "core_at k' p = Some (core (prt\<lparr>tk_waitpid := int c\<rparr>))"
    unfolding k' core_at_schedule using k2 by (simp_all add: core_at_def core_def)
qed

text \<open>
  C3. A parent that blocked in \<open>task_wait\<close> for this child or for any child gets the child's pid and
  exit value, and the slot of the child is free afterwards, however many ticks pass between the
  exit and the return of the wait.
\<close>

theorem wait_returns_exit_value:
  assumes "reach kboot kstep k" "c < 16" "p < 16" "p \<noteq> c" "ktable k ! c = Some chd" "tk_ppid chd = int p"
    "ktable k ! p = Some prt" "tk_stat prt = TASK_BLK" "tk_waitpid prt = int c \<or> tk_waitpid prt = - 1"
    "task_exit k (int c) v = Inr k'"
  shows "\<exists>k''. task_wait_reap ((task_schedule ^^ n) k') p = Inr (int c, v, k'') \<and> ktable k'' ! c = None"
proof -
  have inv: "kinv k" using assms(1) by (rule ksys.good_reach)
  then have k: "sched_ok k" by (simp add: kinv_def)
  let ?q = "(task_schedule ^^ n) k'"
  have "kinv k'" by (rule kinv_exit [OF inv assms(10)])
  then have q: "kinv ?q" by (induction n) (simp_all add: kinv_schedule)
  then have l: "length (ktable ?q) = 16" by (simp add: kinv_def sched_ok_def)
  note e = exit_core [OF k assms(2-10)]
  obtain u where u: "ktable ?q ! c = Some u" "core u = core (chd\<lparr>tk_retval := v\<rparr>)"
    using e(1) core_at_ticks [of n k' c] core_at_Some [of ?q c] by auto
  obtain w where w: "ktable ?q ! p = Some w" "core w = core (prt\<lparr>tk_waitpid := int c\<rparr>)"
    using e(2) core_at_ticks [of n k' p] core_at_Some [of ?q p] by auto
  have "tk_retval u = v" "tk_waitpid w = int c"
    using core_fields [OF u(2)] core_fields [OF w(2)] by simp_all
  then show ?thesis
    using u(1) w(1) l assms(2,3,4)
    by (simp add: task_wait_reap_def TASK_MAX_def ktable_upd_task Let_def)
qed

lemma getnext_second:
  assumes "kcurr k = 0" "ktable k ! 0 = Some t" "tk_stat t \<noteq> TASK_PRE" "ktable k ! 1 = Some u" "tk_stat u = TASK_PRE"
  shows "getnext k = Some 1"
proof -
  have "getnext_loop k 1 1 = Some 1"
    using assms by (subst getnext_loop.simps) (simp add: TASK_MAX_def)
  then show ?thesis
    using assms by (simp add: getnext_def getnext_loop.simps [of k 0 0] TASK_MAX_def)
qed

lemma waiting_eval:
  "\<exists>k t u. task_wait_block forked 1 = Inr (Inr k) \<and> ktable k ! 0 = Some t \<and> ktable k ! 1 = Some u \<and>
     length (ktable k) = 16 \<and> tk_pid t = 0 \<and> tk_stat t = TASK_BLK \<and> tk_waitpid t = 1 \<and> tk_pid u = 1 \<and> tk_ppid u = 0 \<and>
     kcurr k = 1 \<and> fresh_sig u"
proof -
  obtain t u where f: "ktable forked = Some t # Some u # replicate 14 None" "tk_pid t = 0" "tk_stat t = TASK_RUN"
      "tk_pid u = 1" "tk_stat u = TASK_PRE" "tk_ppid u = 0" "fresh_sig u"
    using forked_eval(2) by blast
  let ?t = "t\<lparr>tk_waitpid := 1, tk_stat := TASK_BLK\<rparr>"
  let ?b = "set_stat 0 TASK_BLK (upd_task 0 (\<lambda>t. t\<lparr>tk_waitpid := 1\<rparr>) forked)"
  have b: "ktable ?b = Some ?t # Some u # replicate 14 None" "kcurr ?b = 0" "ksleep ?b = []"
    using f forked_eval(3,4) by (simp_all add: set_stat_def upd_task_def)
  have "getnext ?b = Some 1" using b f by (intro getnext_second [of _ ?t u]) simp_all
  then have "task_schedule ?b = set_stat 1 TASK_RUN (?b\<lparr>kcurr := 1\<rparr>)"
    using b by (simp add: task_schedule_def task_current_def update_sleep_def sched_switch_def)
  moreover have "task_wait_block forked 1 = Inr (Inr (task_schedule ?b))"
    using f forked_eval(3)
    by (simp add: task_wait_block_def task_current_def TASK_MAX_def task_block_def bind_result_def
        set_stat_def upd_task_def)
  ultimately show ?thesis using b f by (simp add: set_stat_def upd_task_def fresh_sig_def)
qed

lemma wait_returns_exit_value_witness:
  "\<exists>k k' k''. task_wait_block forked 1 = Inr (Inr k) \<and> task_exit k 1 7 = Inr k' \<and>
     task_wait_reap ((task_schedule ^^ 3) k') 0 = Inr (1, 7, k'') \<and> ktable k'' ! 1 = None"
proof -
  obtain k t u where w: "task_wait_block forked 1 = Inr (Inr k)" "ktable k ! 0 = Some t" "ktable k ! 1 = Some u"
      "length (ktable k) = 16" "tk_pid t = 0" "tk_stat t = TASK_BLK" "tk_waitpid t = 1" "tk_pid u = 1" "tk_ppid u = 0"
    using waiting_eval by blast
  have r: "reach kboot kstep k" by (rule reach_step [OF forked_reach(2) kstep.wait [OF w(1)]])
  obtain k' where e: "task_exit k 1 7 = Inr k'"
    using w by (auto simp: task_exit_def task_get_def TASK_MAX_def task_unblock_def bind_result_def
        ktable_upd_task Let_def)
  show ?thesis
    using wait_returns_exit_value [OF r, of 1 0 u t 7 k' 3] w e by auto
qed

section \<open>No task is ready\<close>

lemma switch_none: "(\<And>i. i < 16 \<Longrightarrow> \<not> ready k i) \<Longrightarrow> sched_ok k \<Longrightarrow> sched_switch me k = k"
  using getnext_spec(2) [of k] by (cases "getnext k") (auto simp: sched_switch_def)

text \<open>
  \<open>task_block\<close> does not wait when no task is ready and nobody sleeps: it returns to the caller, still
  the current task, with the status BLK.
\<close>

theorem block_returns_when_alone:
  assumes "reach kboot kstep k" "ksleep k = []" "\<forall>i<16. i \<noteq> kcurr k \<longrightarrow> \<not> ready k i"
  shows "task_block k = Inr (set_stat (kcurr k) TASK_BLK k)"
proof -
  have ok: "sched_ok k" using ksys.good_reach [OF assms(1)] by (simp add: kinv_def)
  obtain t where t: "ktable k ! kcurr k = Some t" using sched_okD(3) [OF ok] by blast
  have c: "kcurr k < 16" "kcurr k < length (ktable k)" using ok by (simp_all add: sched_ok_def)
  let ?b = "set_stat (kcurr k) TASK_BLK k"
  have b: "ktable ?b ! i = (if i = kcurr k then Some (t\<lparr>tk_stat := TASK_BLK\<rparr>) else ktable k ! i)" for i
    using ktable_upd_task [OF c(2)] t by (simp add: set_stat_def)
  have "sched_switch (kcurr k) ?b = ?b"
    using assms(3) b sched_ok_set_stat [OF ok c(1)] by (intro switch_none) (auto simp: ready_def)
  then have "task_schedule ?b = ?b"
    using assms(2) b [of "kcurr k"] by (simp add: task_schedule_def task_current_def update_sleep_def)
  then show ?thesis using t by (simp add: task_block_def task_current_def)
qed

lemma block_returns_when_alone_witness: "task_block booted = Inr (set_stat 0 TASK_BLK booted)"
proof -
  obtain t where t: "ktable booted = Some t # None # replicate 14 None" using booted_eval(2) by blast
  have "\<not> ready booted i" if "i < 16" "i \<noteq> 0" for i
    using that t by (cases i rule: nat.exhaust; cases "i - 1") (auto simp: ready_def nth_Cons')
  then show ?thesis
    using block_returns_when_alone [OF forked_reach(1)] booted_eval(3,4) by simp
qed

end
