(* ===== verification/Ids.thy ===== *)
theory Ids
  imports Sched_Live
begin

text \<open>
  The credential and session system calls of kernel/task.c. Each acts on the current task; the ones
  that look at other tasks read the table. \<open>uid_t\<close> and \<open>gid_t\<close> are unsigned, so the argument -1 of the
  code is the all-ones word.
\<close>

section \<open>System calls\<close>

definition on_current :: "(task \<Rightarrow> int \<times> task) \<Rightarrow> kernel \<Rightarrow> (int \<times> kernel) result" where
  "on_current f k =
     (case task_current k of
        None \<Rightarrow> Inl BadAccess
      | Some t \<Rightarrow> (case f t of (r, t') \<Rightarrow> Inr (r, upd_task (kcurr k) (\<lambda>_. t') k)))"

definition setuid :: "u32 \<Rightarrow> task \<Rightarrow> int \<times> task" where
  "setuid uid tsk =
     (if euid tsk = 0 then (0, tsk\<lparr>ruid := uid, euid := uid, suid := uid\<rparr>)
      else if uid = ruid tsk \<or> uid = suid tsk then (0, tsk\<lparr>euid := uid\<rparr>)
      else (- EPERM, tsk))"

definition setgid :: "u32 \<Rightarrow> task \<Rightarrow> int \<times> task" where
  "setgid gid tsk =
     (if egid tsk = 0 then (0, tsk\<lparr>rgid := gid, egid := gid, sgid := gid\<rparr>)
      else if gid = rgid tsk \<or> gid = sgid tsk then (0, tsk\<lparr>egid := gid\<rparr>)
      else (- EPERM, tsk))"

definition setreuid :: "u32 \<Rightarrow> u32 \<Rightarrow> task \<Rightarrow> int \<times> task" where
  "setreuid r e tsk =
     (if euid tsk \<noteq> 0 \<and> r \<noteq> - 1 then (- EPERM, tsk)
      else if euid tsk \<noteq> 0 \<and> e \<noteq> - 1 \<and> e \<noteq> ruid tsk \<and> e \<noteq> euid tsk \<and> e \<noteq> suid tsk then (- EPERM, tsk)
      else (let t1 = (if r \<noteq> - 1 then tsk\<lparr>ruid := r\<rparr> else tsk)
            in (0, if e \<noteq> - 1 then t1\<lparr>euid := e\<rparr> else t1)))"

definition setregid :: "u32 \<Rightarrow> u32 \<Rightarrow> task \<Rightarrow> int \<times> task" where
  "setregid r e tsk =
     (if egid tsk \<noteq> 0 \<and> r \<noteq> - 1 \<and> r \<noteq> sgid tsk then (- EPERM, tsk)
      else if egid tsk \<noteq> 0 \<and> e \<noteq> - 1 \<and> e \<noteq> sgid tsk \<and> e \<noteq> rgid tsk then (- EPERM, tsk)
      else (let t1 = (if r \<noteq> - 1 then tsk\<lparr>rgid := r\<rparr> else tsk)
            in (0, if e \<noteq> - 1 then t1\<lparr>egid := e\<rparr> else t1)))"

text \<open>The groups \<open>getgroups\<close> stores through a non-null \<open>list\<close> come back beside the result.\<close>

definition getgroups :: "int \<Rightarrow> bool \<Rightarrow> task \<Rightarrow> int \<times> u32 list" where
  "getgroups size_arg null_list tsk =
     (let ss = (case supgids tsk of None \<Rightarrow> 0 | Some gs \<Rightarrow> int (length gs))
      in if null_list \<and> size_arg = 0 then (ss, [])
         else if null_list then (- EFAULT, [])
         else if size_arg < ss then (- EINVAL, [])
         else (ss, case supgids tsk of None \<Rightarrow> [] | Some gs \<Rightarrow> gs))"

text \<open>\<open>lst\<close> is the user's array, \<open>None\<close> a null pointer; only its first \<open>size\<close> cells are read.\<close>

definition setgroups :: "int \<Rightarrow> u32 list option \<Rightarrow> task \<Rightarrow> int \<times> task" where
  "setgroups size_arg lst tsk =
     (if size_arg = 0 then (fst (getgroups 0 True tsk), tsk)
      else if size_arg < 0 then (- EINVAL, tsk)
      else case lst of
             None \<Rightarrow> (- EFAULT, tsk)
           | Some l \<Rightarrow>
               if euid tsk \<noteq> 0 then (- EPERM, tsk)
               else (let t1 = tsk\<lparr>supgids := None\<rparr>; gs = take (nat size_arg) l
                     in if - 1 \<in> set gs then (- EINVAL, t1)
                        else (0, t1\<lparr>supgids := Some gs\<rparr>)))"

definition getsid :: "int \<Rightarrow> kernel \<Rightarrow> int result" where
  "getsid pid k =
     (case task_current k of
        None \<Rightarrow> Inl BadAccess
      | Some tsk \<Rightarrow>
          if pid = 0 then Inr (tk_sid tsk)
          else (case task_get k pid of
                  None \<Rightarrow> Inr (- ESRCH)
                | Some ptsk \<Rightarrow> if tk_sid ptsk \<noteq> tk_sid tsk then Inr (- EPERM) else Inr (tk_sid ptsk)))"

definition setsid :: "task \<Rightarrow> int \<times> task" where
  "setsid tsk =
     (if tk_pgid tsk = tk_pid tsk then (- EPERM, tsk)
      else (tk_pid tsk, tsk\<lparr>tk_sid := tk_pid tsk, tk_pgid := tk_pid tsk\<rparr>))"

definition getpgid :: "int \<Rightarrow> kernel \<Rightarrow> int result" where
  "getpgid pid k =
     (case task_current k of
        None \<Rightarrow> Inl BadAccess
      | Some tsk \<Rightarrow>
          if pid < 0 then Inr (- EINVAL)
          else (case (if pid = 0 then Some tsk else task_get k pid) of
                  None \<Rightarrow> Inr (- ESRCH)
                | Some ptsk \<Rightarrow> if tk_sid ptsk \<noteq> tk_sid tsk then Inr (- EPERM) else Inr (tk_pgid ptsk)))"

definition setpgid :: "int \<Rightarrow> int \<Rightarrow> kernel \<Rightarrow> (int \<times> kernel) result" where
  "setpgid pid0 pgid0 k =
     (case task_current k of
        None \<Rightarrow> Inl BadAccess
      | Some tsk \<Rightarrow>
          if pid0 < 0 then Inr (- EINVAL, k)
          else (case (if pid0 = 0 then Some tsk else task_get k pid0) of
            None \<Rightarrow> Inr (- ESRCH, k)
          | Some ptsk \<Rightarrow>
              if tk_pid ptsk \<noteq> tk_pid tsk \<and> tk_ppid ptsk \<noteq> tk_pid tsk then Inr (- ESRCH, k)
              else if tk_pid ptsk = tk_sid ptsk then Inr (- EPERM, k)
              else (let pgid = (if pgid0 = 0 then tk_pid tsk else pgid0)
                    in case (if pgid0 = 0 then Some tsk else task_get k pgid0) of
                      None \<Rightarrow> Inr (- ESRCH, k)
                    | Some ltsk \<Rightarrow>
                        if tk_sid ptsk \<noteq> tk_sid ltsk then Inr (- EPERM, k)
                        else if did_exec ptsk then Inr (- EACCES, k)
                        else Inr (0, upd_task (if pid0 = 0 then kcurr k else nat pid0)
                                       (\<lambda>t. t\<lparr>tk_pgid := pgid\<rparr>) k))))"

section \<open>Privileges\<close>

text \<open>One call of a credential system call by a task.\<close>

inductive cred_step :: "task \<Rightarrow> task \<Rightarrow> bool" where
  "cred_step t (snd (setuid u t))"
| "cred_step t (snd (setgid u t))"
| "cred_step t (snd (setreuid r e t))"
| "cred_step t (snd (setregid r e t))"
| "cred_step t (snd (setgroups n l t))"
| "cred_step t (snd (setsid t))"

definition unprivileged :: "task \<Rightarrow> bool" where
  "unprivileged t \<longleftrightarrow> ruid t \<noteq> 0 \<and> euid t \<noteq> 0 \<and> suid t \<noteq> 0"

lemmas cred_defs = setuid_def setgid_def setreuid_def setregid_def setgroups_def setsid_def Let_def

lemma unprivileged_step: "cred_step t t' \<Longrightarrow> unprivileged t \<Longrightarrow> unprivileged t'"
  by (erule cred_step.cases) (auto simp: cred_defs unprivileged_def split: option.split)

interpretation creds: keeps "\<lambda>t. \<exists>u t0. euid t0 = 0 \<and> u \<noteq> 0 \<and> t = snd (setuid u t0)" cred_step unprivileged
proof unfold_locales
  show "\<exists>u t0. euid t0 = 0 \<and> u \<noteq> 0 \<and> s = snd (setuid u t0) \<Longrightarrow> unprivileged s" for s
    by (auto simp: setuid_def unprivileged_def)
qed (rule unprivileged_step)

text \<open>
  C26. A task with effective uid 0 that calls \<open>setuid\<close> with another id gives up its privileges for
  good: no sequence of credential calls brings the effective uid back to 0, and from then on
  \<open>setgroups\<close> is refused.
\<close>

theorem setuid_drops_root:
  assumes "euid t = 0" "u \<noteq> 0" "cred_step\<^sup>*\<^sup>* (snd (setuid u t)) t'"
  shows "euid t' \<noteq> 0 \<and> (0 < n \<longrightarrow> fst (setgroups n (Some l) t') = - EPERM)"
proof -
  have "unprivileged (snd (setuid u t))" by (rule creds.good_start) (use assms in blast)
  then have "unprivileged t'" using creds.good_steps [OF assms(3)] by blast
  then show ?thesis by (simp add: unprivileged_def setgroups_def)
qed

lemma setuid_drops_root_witness:
  "\<exists>t. euid t = 0 \<and> euid (snd (setuid 1000 t)) = 1000 \<and>
     fst (setgroups 1 (Some [0]) (snd (setuid 1000 t))) = - EPERM"
proof -
  obtain t :: task where t: "euid t = 0" by (metis task.select_convs(6))
  show ?thesis
    using setuid_drops_root [of t 1000 "snd (setuid 1000 t)" 1 "[0]"] t
    by (intro exI [of _ t]) (simp add: setuid_def)
qed

text \<open>
  \<open>setreuid\<close> leaves the saved uid alone: a task of root that sets both its real and its effective
  uid to another user can take uid 0 back with \<open>setuid\<close>.
\<close>

theorem setreuid_keeps_saved_root:
  assumes "euid t = 0" "suid t = 0" "u \<noteq> 0" "u \<noteq> - 1"
  shows "euid (snd (setreuid u u t)) = u \<and> ruid (snd (setreuid u u t)) = u \<and>
     setuid 0 (snd (setreuid u u t)) = (0, (snd (setreuid u u t))\<lparr>euid := 0\<rparr>)"
  using assms by (simp add: setreuid_def setuid_def)

lemma setreuid_keeps_saved_root_witness:
  "\<exists>t. euid t = 0 \<and> euid (snd (setreuid 1000 1000 t)) = 1000 \<and>
     fst (setuid 0 (snd (setreuid 1000 1000 t))) = 0"
proof -
  obtain t0 :: task where t0: "euid t0 = 0" by (metis task.select_convs(6))
  let ?t = "t0\<lparr>suid := 0\<rparr>"
  show ?thesis
    using setreuid_keeps_saved_root [of ?t 1000] t0 by (intro exI [of _ ?t]) simp
qed

section \<open>Groups\<close>

text \<open>
  \<open>setgroups\<close> and \<open>getgroups\<close> are inverse: the groups that root sets are read back in order, with
  their number, by every call that offers enough room, and a call with too little room fails.
\<close>

theorem groups_roundtrip:
  assumes "euid t = 0" "gs \<noteq> []" "- 1 \<notin> set gs"
  shows "\<exists>t'. setgroups (int (length gs)) (Some gs) t = (0, t') \<and>
     getgroups 0 True t' = (int (length gs), []) \<and>
     getgroups n False t' = (if n < int (length gs) then (- EINVAL, []) else (int (length gs), gs))"
  using assms by (simp add: setgroups_def getgroups_def Let_def)

lemma groups_roundtrip_witness:
  "\<exists>t t'. setgroups 2 (Some [10, 20]) t = (0, t') \<and> getgroups 5 False t' = (2, [10, 20])"
proof -
  obtain t :: task where t: "euid t = 0" by (metis task.select_convs(6))
  show ?thesis using groups_roundtrip [of t "[10, 20]" 5] t by auto
qed

text \<open>
  A \<open>setgroups\<close> of root that fails because the list holds the value -1 has dropped the groups the
  task had before.
\<close>

theorem setgroups_einval_drops_groups:
  assumes "euid t = 0" "0 < n" "- 1 \<in> set (take (nat n) l)"
  shows "fst (setgroups n (Some l) t) = - EINVAL \<and> supgids (snd (setgroups n (Some l) t)) = None"
  using assms by (simp add: setgroups_def Let_def)

lemma setgroups_einval_drops_groups_witness:
  "\<exists>t. supgids t = Some [5] \<and> fst (setgroups 1 (Some [- 1]) t) = - EINVAL \<and>
     supgids (snd (setgroups 1 (Some [- 1]) t)) = None"
proof -
  obtain t0 :: task where t0: "euid t0 = 0" by (metis task.select_convs(6))
  let ?t = "t0\<lparr>supgids := Some [5]\<rparr>"
  show ?thesis
    using setgroups_einval_drops_groups [of ?t 1 "[- 1]"] t0 by (intro exI [of _ ?t]) simp
qed

section \<open>Sessions and process groups\<close>

text \<open>The task \<open>setpgid\<close> changes, and the task whose group it joins.\<close>

definition pg_target :: "int \<Rightarrow> kernel \<Rightarrow> nat" where
  "pg_target pid k = (if pid = 0 then kcurr k else nat pid)"

lemma setpgid_success:
  assumes "setpgid pid pgid k = Inr (0, k')"
  shows "\<exists>tsk ptsk ltsk. task_current k = Some tsk \<and> ktable k ! pg_target pid k = Some ptsk \<and>
     ktable k ! pg_target pgid k = Some ltsk \<and> (tk_pid ptsk = tk_pid tsk \<or> tk_ppid ptsk = tk_pid tsk) \<and>
     tk_pid ptsk \<noteq> tk_sid ptsk \<and> tk_sid ptsk = tk_sid ltsk \<and> \<not> did_exec ptsk \<and>
     k' = upd_task (pg_target pid k) (\<lambda>t. t\<lparr>tk_pgid := (if pgid = 0 then tk_pid tsk else pgid)\<rparr>) k"
  using assms
  by (auto simp: setpgid_def pg_target_def task_get_def task_current_def Let_def errno_defs
      split: option.splits if_splits)

text \<open>
  A successful \<open>setpgid\<close> changes one task only, the caller or a child of it that has not called
  exec and leads no session, and puts it into the group of a task of the same session.
\<close>

theorem setpgid_within_session:
  assumes "setpgid pid pgid k = Inr (0, k')" "pg_target pid k < length (ktable k)"
  shows "\<exists>tsk ptsk ltsk. task_current k = Some tsk \<and> ktable k ! pg_target pid k = Some ptsk \<and>
     ktable k ! pg_target pgid k = Some ltsk \<and> (tk_pid ptsk = tk_pid tsk \<or> tk_ppid ptsk = tk_pid tsk) \<and>
     tk_pid ptsk \<noteq> tk_sid ptsk \<and> tk_sid ptsk = tk_sid ltsk \<and> \<not> did_exec ptsk \<and>
     ktable k' ! pg_target pid k = Some (ptsk\<lparr>tk_pgid := (if pgid = 0 then tk_pid tsk else pgid)\<rparr>) \<and>
     (\<forall>i. i \<noteq> pg_target pid k \<longrightarrow> ktable k' ! i = ktable k ! i)"
  using setpgid_success [OF assms(1)] assms(2) by (auto simp: upd_task_def)

lemma setpgid_within_session_witness:
  "\<exists>k' u. setpgid 1 1 forked = Inr (0, k') \<and> ktable k' ! 1 = Some u \<and> tk_pgid u = 1"
proof -
  obtain t u where f: "ktable forked = Some t # Some u # replicate 14 None" "tk_pid t = 0" "tk_pid u = 1"
      "tk_ppid u = 0" "tk_sid u = tk_sid t" "\<not> did_exec u" "tk_sid t = 0"
    using forked_eval(2) by blast
  obtain k' where k': "setpgid 1 1 forked = Inr (0, k')"
    using f forked_eval(3) by (auto simp: setpgid_def task_current_def task_get_def TASK_MAX_def)
  show ?thesis
    using setpgid_within_session [OF k'] f k' by (auto simp: pg_target_def)
qed

end
