(* ===== verification/Signal.thy ===== *)
theory Signal
  imports Sched_Live
begin

unbundle bit_operations_syntax

text \<open>
  Signals of kernel/signal.c: the signal sets, the delivery of a pending signal on the way back to
  user mode and the return from its handler, and the system calls \<open>sigaction\<close>, \<open>sigprocmask\<close> and
  \<open>kill\<close>. User memory is a function from the address of an eight-byte cell to its value; the frame the
  delivery builds is 26 such cells.
\<close>

section \<open>Signal sets\<close>

definition SIGKILL :: int where "SIGKILL = 9"

definition SIGCONT :: int where "SIGCONT = 18"

definition SIGSTOP :: int where "SIGSTOP = 19"

text \<open>The argument \<open>None\<close> is a null pointer.\<close>

definition sigemptyset :: "u64 option \<Rightarrow> int \<times> u64 option" where
  "sigemptyset s = (case s of None \<Rightarrow> (- 1, None) | Some _ \<Rightarrow> (0, Some 0))"

definition sigfillset :: "u64 option \<Rightarrow> int \<times> u64 option" where
  "sigfillset s = (case s of None \<Rightarrow> (- 1, None) | Some _ \<Rightarrow> (0, Some (NOT 0)))"

definition sigaddset :: "u64 option \<Rightarrow> int \<Rightarrow> int \<times> u64 option" where
  "sigaddset s signum =
     (case s of None \<Rightarrow> (- 1, None)
      | Some w \<Rightarrow> if signum \<le> 0 \<or> int NSIG < signum then (- 1, Some w)
                  else (0, Some (w OR push_bit (nat (signum - 1)) 1)))"

definition sigdelset :: "u64 option \<Rightarrow> int \<Rightarrow> int \<times> u64 option" where
  "sigdelset s signum =
     (case s of None \<Rightarrow> (- 1, None)
      | Some w \<Rightarrow> if signum \<le> 0 \<or> int NSIG < signum then (- 1, Some w)
                  else (0, Some (w AND NOT (push_bit (nat (signum - 1)) 1))))"

definition sigismember :: "u64 option \<Rightarrow> int \<Rightarrow> int" where
  "sigismember s signum =
     (case s of None \<Rightarrow> - 1
      | Some w \<Rightarrow> if signum \<le> 0 \<or> int NSIG < signum then - 1
                  else if w AND push_bit (nat (signum - 1)) 1 \<noteq> 0 then 1 else 0)"

text \<open>The signals a set word stands for.\<close>

definition sigs :: "u64 \<Rightarrow> int set" where
  "sigs w = {i. 1 \<le> i \<and> i \<le> 64 \<and> bit w (nat (i - 1))}"

lemma bit_exp_u64: "bit (2 ^ n :: u64) m \<longleftrightarrow> m = n \<and> n < 64"
  by (auto simp: bit_exp_iff possible_bit_word)

lemma and_exp_u64: "(w :: u64) AND 2 ^ n = 0 \<longleftrightarrow> \<not> (n < 64 \<and> bit w n)"
proof -
  have "w AND 2 ^ n = 0 \<longleftrightarrow> (\<forall>m. \<not> bit (w AND 2 ^ n) m)"
    by (metis bit_0_eq bit_eqI bot_apply bot_bool_def)
  also have "\<dots> \<longleftrightarrow> \<not> (n < 64 \<and> bit w n)"
    by (auto simp: bit_and_iff bit_exp_u64)
  finally show ?thesis .
qed

lemma sigismember_sigs:
  "sigismember (Some w) i = (if 1 \<le> i \<and> i \<le> 64 then if i \<in> sigs w then 1 else 0 else - 1)"
  by (auto simp: sigismember_def NSIG_def sigs_def and_exp_u64 nat_less_iff)

lemma sigs_add: "1 \<le> i \<Longrightarrow> i \<le> 64 \<Longrightarrow> sigs (w OR 2 ^ nat (i - 1)) = insert i (sigs w)"
  by (auto simp: sigs_def bit_or_iff bit_exp_u64 nat_less_iff)

lemma sigs_del: "1 \<le> i \<Longrightarrow> sigs (w AND NOT (2 ^ nat (i - 1))) = sigs w - {i}"
  by (auto simp: sigs_def bit_and_iff bit_not_iff bit_exp_u64 nat_less_iff)

text \<open>
  The signal-set functions implement sets of the numbers 1 to 64: the empty and the full set,
  insertion, removal and membership; a null pointer or a number out of that range gives -1 and
  changes nothing.
\<close>

theorem sigset_refines_set:
  "sigemptyset (Some w) = (0, Some 0) \<and> sigs 0 = {} \<and>
   sigfillset (Some w) = (0, Some (NOT 0)) \<and> sigs (NOT 0) = {1..64} \<and>
   (if i \<in> {1..64}
    then (\<exists>a d. sigaddset (Some w) i = (0, Some a) \<and> sigs a = insert i (sigs w) \<and>
            sigdelset (Some w) i = (0, Some d) \<and> sigs d = sigs w - {i}) \<and>
          sigismember (Some w) i = (if i \<in> sigs w then 1 else 0)
    else sigaddset (Some w) i = (- 1, Some w) \<and> sigdelset (Some w) i = (- 1, Some w) \<and>
          sigismember (Some w) i = - 1)"
proof -
  have "sigs (NOT 0) = {1..64}" by (auto simp: sigs_def bit_not_iff nat_less_iff)
  moreover have "sigs 0 = {}" by (simp add: sigs_def)
  ultimately show ?thesis
    using sigs_add [of i w] sigs_del [of i w]
    by (auto simp: sigemptyset_def sigfillset_def sigaddset_def sigdelset_def sigismember_sigs NSIG_def)
qed

section \<open>Delivery\<close>

record intr_frame =
  if_r15 :: u64
  if_r14 :: u64
  if_r13 :: u64
  if_r12 :: u64
  if_r11 :: u64
  if_r10 :: u64
  if_r9 :: u64
  if_r8 :: u64
  if_rdi :: u64
  if_rsi :: u64
  if_rbp :: u64
  if_rdx :: u64
  if_rcx :: u64
  if_rbx :: u64
  if_rax :: u64
  if_vector :: u64
  if_errcode :: u64
  if_rip :: u64
  if_cs :: u64
  if_rflags :: u64
  if_rsp :: u64
  if_ss :: u64

text \<open>The fields from \<open>r15\<close> to \<open>ss\<close>, in the order both frame types have them in memory.\<close>

definition regs_words :: "intr_frame \<Rightarrow> u64 list" where
  "regs_words f =
     [if_r15 f, if_r14 f, if_r13 f, if_r12 f, if_r11 f, if_r10 f,
      if_r9 f, if_r8 f, if_rdi f, if_rsi f, if_rbp f, if_rdx f,
      if_rcx f, if_rbx f, if_rax f, if_vector f, if_errcode f, if_rip f,
      if_cs f, if_rflags f, if_rsp f, if_ss f]"

definition words_regs :: "u64 list \<Rightarrow> intr_frame" where
  "words_regs w =
     \<lparr>if_r15 = w ! 0, if_r14 = w ! 1, if_r13 = w ! 2, if_r12 = w ! 3,
      if_r11 = w ! 4, if_r10 = w ! 5, if_r9 = w ! 6, if_r8 = w ! 7,
      if_rdi = w ! 8, if_rsi = w ! 9, if_rbp = w ! 10, if_rdx = w ! 11,
      if_rcx = w ! 12, if_rbx = w ! 13, if_rax = w ! 14, if_vector = w ! 15,
      if_errcode = w ! 16, if_rip = w ! 17, if_cs = w ! 18, if_rflags = w ! 19,
      if_rsp = w ! 20, if_ss = w ! 21\<rparr>"

definition SIGFRAME_SIZE :: u64 where "SIGFRAME_SIZE = 208"

type_synonym umem = "u64 \<Rightarrow> u64"

primrec store_words :: "u64 \<Rightarrow> u64 list \<Rightarrow> umem \<Rightarrow> umem" where
  "store_words a [] m = m"
| "store_words a (w # ws) m = store_words (a + 8) ws (m(a := w))"

primrec load_words :: "u64 \<Rightarrow> nat \<Rightarrow> umem \<Rightarrow> u64 list" where
  "load_words a 0 m = []"
| "load_words a (Suc n) m = m a # load_words (a + 8) n m"

text \<open>\<open>sig_def\<close>: the entries of the default table; the positions without an initialiser are null.\<close>

datatype sigdfl = Sig_term | Sig_core | Sig_ignore

definition sig_def :: "sigdfl option list" where
  "sig_def =
     [None, Some Sig_term, Some Sig_term, Some Sig_core, Some Sig_core, Some Sig_core, Some Sig_core,
      Some Sig_core, Some Sig_core, None, Some Sig_term, Some Sig_core, Some Sig_term, Some Sig_term,
      Some Sig_term, Some Sig_term, None, Some Sig_ignore, Some Sig_ignore, None, Some Sig_term,
      Some Sig_term, Some Sig_term, Some Sig_ignore, Some Sig_core, Some Sig_core, Some Sig_term,
      Some Sig_term, Some Sig_ignore, Some Sig_ignore, Some Sig_term, Some Sig_core]"

definition call_default :: "int \<Rightarrow> unit result" where
  "call_default i =
     (if 0 \<le> i \<and> i < int (length sig_def) \<and> sig_def ! nat i \<noteq> None then Inr () else Inl BadAccess)"

definition SA_NODEFER :: u64 where "SA_NODEFER = 0x40000000"

definition SA_RESETHAND :: u64 where "SA_RESETHAND = 0x80000000"

definition sigset_add :: "u64 \<Rightarrow> int \<Rightarrow> u64" where
  "sigset_add w i = the (snd (sigaddset (Some w) i))"

definition sigset_del :: "u64 \<Rightarrow> int \<Rightarrow> u64" where
  "sigset_del w i = the (snd (sigdelset (Some w) i))"

text \<open>The part of \<open>__handle_signal\<close> that builds the frame and enters the handler, for signal \<open>i\<close>.\<close>

definition enter_handler :: "int \<Rightarrow> nat \<Rightarrow> task \<Rightarrow> kernel \<Rightarrow> intr_frame \<Rightarrow> umem \<Rightarrow> kernel \<times> intr_frame \<times> umem" where
  "enter_handler i me tsk k iframe m =
     (let act = sigacts tsk ! nat (i - 1);
          act' = (if sa_flags act AND SA_RESETHAND \<noteq> 0 then act\<lparr>sa_handler := 0\<rparr> else act);
          blk = (if NOT (sa_flags act) AND SA_NODEFER \<noteq> 0 then sigset_add (sa_mask act) i else sa_mask act);
          frame = if_rsp iframe - SIGFRAME_SIZE - 128;
          m' = store_words frame ([sa_restorer act, word_of_int i, word_of_int (sigcurr tsk), sigmask tsk]
                                  @ regs_words iframe) m;
          iframe' = iframe\<lparr>if_rdi := word_of_int i, if_rip := sa_handler act, if_rsp := frame\<rparr>
      in (upd_task me (\<lambda>t. t\<lparr>sigacts := (sigacts t)[nat (i - 1) := act'], sigcurr := i,
                               sigmask := sigmask t OR blk\<rparr>) k,
          iframe', m'))"

text \<open>
  \<open>__handle_signal\<close>. Only the exit of a killed task can switch tasks; the rest of the function runs
  when \<open>task_exit\<close> returns to it.
\<close>

definition handle_signal :: "kernel \<Rightarrow> intr_frame \<Rightarrow> umem \<Rightarrow> (kernel \<times> intr_frame \<times> umem) result" where
  "handle_signal k iframe m =
     (case task_current k of
        None \<Rightarrow> Inl BadAccess
      | Some tsk \<Rightarrow>
          (let me = kcurr k;
               pend = sigpend tsk AND NOT (sigmask tsk);
               k1 = upd_task me (\<lambda>t. t\<lparr>sigpend := pend\<rparr>) k
           in if pend = 0 then Inr (k1, iframe, m)
              else case List.find (\<lambda>i. sigismember (Some pend) i \<noteq> 0) [1..int NSIG] of
                     None \<Rightarrow> Inr (k1, iframe, m)
                   | Some i \<Rightarrow>
                       (let k2 = upd_task me (\<lambda>t. t\<lparr>sigpend := sigset_del pend i\<rparr>) k1;
                            rest = (\<lambda>k3. let h = sa_handler (sigacts tsk ! nat (i - 1))
                                     in if h = 1 then Inr (k3, iframe, m)
                                        else if h = 0
                                        then bind_result (call_default i) (\<lambda>_. Inr (k3, iframe, m))
                                        else Inr (enter_handler i me tsk k3 iframe m))
                        in if i = SIGKILL
                           then bind_result (task_exit k2 (tk_pid tsk) 35081)
                                  (\<lambda>k3. if kcurr k3 \<noteq> me then Inr (k3, iframe, m) else rest k3)
                           else rest k2)))"

text \<open>
  The two callers, with the words of the kernel stack from \<open>rsp\<close> on, the first 22 of them the registers that were pushed:
  the system call entry of user/syscall.s passes \<open>rsp\<close> itself; the interrupt entry of arch/X64/intr.s passes \<open>rsp + 15 * 8\<close>, the place of the vector, and so
  the 15 words above the pushed registers are taken for a part of them.
\<close>

definition signal_at :: "nat \<Rightarrow> u64 list \<Rightarrow> kernel \<Rightarrow> umem \<Rightarrow> (kernel \<times> u64 list \<times> umem) result" where
  "signal_at off stk k m =
     bind_result (handle_signal k (words_regs (take 22 (drop off stk))) m)
       (\<lambda>(k', f, m'). Inr (k', take off stk @ regs_words f @ drop (off + 22) stk, m'))"

definition msyscall_signal :: "u64 list \<Rightarrow> kernel \<Rightarrow> umem \<Rightarrow> (kernel \<times> u64 list \<times> umem) result" where
  "msyscall_signal stk k m = signal_at 0 stk k m"

definition intr_caller_signal :: "u64 list \<Rightarrow> kernel \<Rightarrow> umem \<Rightarrow> (kernel \<times> u64 list \<times> umem) result" where
  "intr_caller_signal stk k m = signal_at 15 stk k m"

text \<open>
  \<open>sigreturn\<close>: \<open>sframe\<close> is the frame of the system call; the result holds the registers \<open>intr_exit\<close> pops.
\<close>

definition sigreturn :: "kernel \<Rightarrow> intr_frame \<Rightarrow> umem \<Rightarrow> (kernel \<times> intr_frame) result" where
  "sigreturn k sframe m =
     (case task_current k of
        None \<Rightarrow> Inl BadAccess
      | Some tsk \<Rightarrow>
          (let frame = if_rsp sframe - 8;
               w = load_words frame 26 m;
               regs = words_regs (drop 4 w)
           in if w ! 1 \<noteq> word_of_int (sigcurr tsk) then Inl Panic
              else if if_cs regs \<noteq> 43 \<or> if_ss regs \<noteq> 35 then Inl Panic
              else if NOT (if_rflags regs) AND push_bit 9 1 \<noteq> 0 then Inl Panic
              else Inr (upd_task (kcurr k)
                          (\<lambda>t. t\<lparr>sigcurr := sint (ucast (w ! 2) :: 32 word), sigmask := w ! 3\<rparr>) k,
                        regs)))"

section \<open>System calls\<close>

text \<open>\<open>sigaction\<close>: the old action comes back when \<open>oldact\<close> is not null.\<close>

definition sigaction :: "int \<Rightarrow> sigact option \<Rightarrow> bool \<Rightarrow> task \<Rightarrow> int \<times> sigact option \<times> task" where
  "sigaction signum act want_old tsk =
     (if signum \<le> 0 \<or> int NSIG \<le> signum then (- EINVAL, None, tsk)
      else if signum = SIGKILL \<or> signum = SIGSTOP then (- EINVAL, None, tsk)
      else case act of
             None \<Rightarrow> (- EINVAL, None, tsk)
           | Some a \<Rightarrow>
               (0, if want_old then Some (sigacts tsk ! nat (signum - 1)) else None,
                tsk\<lparr>sigacts := (sigacts tsk)[nat (signum - 1) := a]\<rparr>))"

text \<open>\<open>sigprocmask\<close>: the cases of the \<open>switch\<close> fall through.\<close>

definition sigprocmask :: "int \<Rightarrow> u64 \<Rightarrow> task \<Rightarrow> int \<times> u64 \<times> task" where
  "sigprocmask how set_arg tsk =
     (let old = sigmask tsk;
          setmask = (\<lambda>t. t\<lparr>sigmask := set_arg\<rparr>);
          unblock = (\<lambda>t. setmask (t\<lparr>sigmask := sigmask t AND NOT set_arg\<rparr>));
          block = (\<lambda>t. unblock (t\<lparr>sigmask := sigmask t OR set_arg\<rparr>))
      in (0, old, if how = 0 then block tsk else if how = 1 then unblock tsk
                  else if how = 2 then setmask tsk else tsk))"

text \<open>\<open>kill\<close> on one task; \<open>me\<close> is the caller.\<close>

definition kill_one :: "nat \<Rightarrow> int \<Rightarrow> int \<Rightarrow> kernel \<Rightarrow> (int \<times> kernel) result" where
  "kill_one me pid sig k =
     (case ktable k ! me of
        None \<Rightarrow> Inl BadAccess
      | Some tsk \<Rightarrow>
          (case task_get k pid of
             None \<Rightarrow> Inr (- ESRCH, k)
           | Some ptsk \<Rightarrow>
               if euid tsk \<noteq> 0 \<and> euid tsk \<noteq> ruid ptsk \<and> euid tsk \<noteq> suid ptsk \<and>
                  ruid tsk \<noteq> ruid ptsk \<and> ruid tsk \<noteq> suid ptsk then Inr (- EPERM, k)
               else if sig = 0 then Inr (0, k)
               else if sig = SIGSTOP then
                 (let k1 = set_stat (nat pid) TASK_STP k
                  in Inr (0, if nat pid = me then task_schedule k1 else k1))
               else if sig = SIGKILL then Inl Panic
               else (let k1 = (if sig = SIGCONT \<and> tk_stat ptsk = TASK_STP
                               then set_stat (nat pid) TASK_PRE k else k)
                     in Inr (0, upd_task (nat pid) (\<lambda>t. t\<lparr>sigpend := sigset_add (sigpend t) sig\<rparr>) k1))))"

text \<open>The loop of \<open>kill\<close> over a process group, with its flags \<open>found\<close> and \<open>killed\<close>.\<close>

fun kill_group :: "nat \<Rightarrow> int \<Rightarrow> int \<Rightarrow> nat list \<Rightarrow> bool \<Rightarrow> bool \<Rightarrow> kernel \<Rightarrow> (int \<times> kernel) result" where
  "kill_group me pgid sig [] found killed k =
     Inr (if \<not> found then - ESRCH else if \<not> killed then - EPERM else 0, k)"
| "kill_group me pgid sig (i # js) found killed k =
     (case ktable k ! i of
        None \<Rightarrow> kill_group me pgid sig js found killed k
      | Some t \<Rightarrow>
          if tk_pgid t \<noteq> pgid then kill_group me pgid sig js found killed k
          else bind_result (kill_one me (tk_pid t) sig k)
                 (\<lambda>(r, k1). kill_group me pgid sig js True (if r < 0 then killed else True) k1))"

definition kill :: "int \<Rightarrow> int \<Rightarrow> kernel \<Rightarrow> (int \<times> kernel) result" where
  "kill pid sig k =
     (if sig < 0 \<or> int NSIG \<le> sig then Inr (- EINVAL, k)
      else if pid \<le> 0 then
        (case task_current k of
           None \<Rightarrow> Inl BadAccess
         | Some tsk \<Rightarrow>
             kill_group (kcurr k) (if pid = 0 then tk_pgid tsk else - pid) sig [1..<TASK_MAX] False False k)
      else kill_one (kcurr k) pid sig k)"

section \<open>Delivery and return\<close>

lemma find_sorted:
  "sorted_wrt (<) xs \<Longrightarrow> x \<in> set xs \<Longrightarrow> P x \<Longrightarrow> (\<And>y. y \<in> set xs \<Longrightarrow> P y \<Longrightarrow> x \<le> y) \<Longrightarrow>
     List.find P xs = Some (x :: int)"
  by (induction xs) (auto simp: not_le [symmetric])

lemma find_lowest:
  assumes "i \<in> sigs p" "\<And>j. j \<in> sigs p \<Longrightarrow> i \<le> j"
  shows "List.find (\<lambda>i. sigismember (Some p) i \<noteq> 0) [1..int NSIG] = Some i"
proof (rule find_sorted)
  show "sorted_wrt (<) [1..int NSIG]" by (simp add: sorted_wrt_upto)
  show "i \<in> set [1..int NSIG]" using assms(1) by (simp add: sigs_def NSIG_def)
  show "sigismember (Some p) i \<noteq> 0" using assms(1) by (simp add: sigismember_sigs sigs_def)
  show "i \<le> y" if "y \<in> set [1..int NSIG]" "sigismember (Some p) y \<noteq> 0" for y
    using that assms(2) by (auto simp: sigismember_sigs NSIG_def split: if_splits)
qed

lemma sigs_empty_iff: "sigs w = {} \<longleftrightarrow> w = 0"
proof
  assume e: "sigs w = {}"
  have "\<not> bit w n" for n
  proof
    assume b: "bit w n"
    then have "n < 64" using bit_imp_le_length [OF b] by simp
    with b have "int n + 1 \<in> sigs w" by (simp add: sigs_def)
    with e show False by simp
  qed
  then show "w = 0" by (intro bit_eqI) simp
qed (simp add: sigs_def)

text \<open>The state in which a signal is delivered: \<open>i\<close> is the lowest pending signal that is not blocked.\<close>

definition delivers :: "task \<Rightarrow> int \<Rightarrow> bool" where
  "delivers tsk i \<longleftrightarrow> i \<in> sigs (sigpend tsk AND NOT (sigmask tsk)) \<and>
     (\<forall>j \<in> sigs (sigpend tsk AND NOT (sigmask tsk)). i \<le> j)"

lemma handle_signal_delivers:
  assumes "task_current k = Some tsk" "delivers tsk i" "i \<noteq> SIGKILL"
    "sa_handler (sigacts tsk ! nat (i - 1)) \<notin> {0, 1}"
  shows "\<exists>q. handle_signal k iframe m = Inr (enter_handler i (kcurr k) tsk (upd_task (kcurr k)
     (\<lambda>t. t\<lparr>sigpend := sigset_del q i\<rparr>) (upd_task (kcurr k) (\<lambda>t. t\<lparr>sigpend := q\<rparr>) k)) iframe m)"
proof -
  let ?q = "sigpend tsk AND NOT (sigmask tsk)"
  have f: "List.find (\<lambda>i. sigismember (Some ?q) i \<noteq> 0) [1..int NSIG] = Some i"
    using assms(2) by (intro find_lowest) (auto simp: delivers_def)
  moreover have "?q \<noteq> 0" using assms(2) sigs_empty_iff [of ?q] by (auto simp: delivers_def)
  ultimately show ?thesis
    using assms by (intro exI [of _ ?q]) (simp add: handle_signal_def Let_def)
qed

lemma store_words_other:
  "(\<And>j. j < length ws \<Longrightarrow> b \<noteq> a + 8 * of_nat j) \<Longrightarrow> store_words a ws m b = m b"
proof (induction ws arbitrary: a m)
  case (Cons w ws)
  have "store_words (a + 8) ws (m(a := w)) b = (m(a := w)) b"
    using Cons.prems [of "Suc _"] by (intro Cons.IH) (simp add: algebra_simps)
  moreover have "b \<noteq> a" using Cons.prems [of 0] by simp
  ultimately show ?case by simp
qed simp

lemma step_distinct: "j < 100 \<Longrightarrow> (a :: u64) \<noteq> a + 8 + 8 * of_nat j"
proof
  assume j: "j < 100" and e: "a = a + 8 + 8 * of_nat j"
  from e have "8 + 8 * (of_nat j :: u64) = 0" by (metis add.assoc add_cancel_right_right)
  then have "(of_nat (8 + 8 * j) :: u64) = 0" by simp
  moreover have "unat (of_nat (8 + 8 * j) :: u64) = 8 + 8 * j"
    using j by (intro unat_of_nat_small) simp
  ultimately show False by simp
qed

lemma load_store_words: "length ws \<le> 100 \<Longrightarrow> load_words a (length ws) (store_words a ws m) = ws"
proof (induction ws arbitrary: a m)
  case (Cons w ws)
  have "store_words (a + 8) ws (m(a := w)) a = (m(a := w)) a"
    by (rule store_words_other) (use Cons.prems step_distinct in auto)
  then show ?case using Cons by simp
qed simp

lemma words_regs_words: "words_regs (regs_words f) = f" "length (regs_words f) = 22"
  by (simp_all add: words_regs_def regs_words_def)

lemma sigcurr_roundtrip: "0 \<le> i \<Longrightarrow> i < 2 ^ 31 \<Longrightarrow> sint (ucast (word_of_int i :: u64) :: 32 word) = i"
proof -
  assume i: "0 \<le> i" "i < 2 ^ 31"
  have "(ucast (word_of_int i :: u64) :: 32 word) = word_of_int i"
    by (rule bit_word_eqI) (simp add: bit_simps)
  then show ?thesis using i by (simp add: int_word_sint)
qed

lemma words_regs_take [simp]: "length w = 22 \<Longrightarrow> regs_words (words_regs w) = w"
  by (rule nth_equalityI) (auto simp: regs_words_def words_regs_def numeral_eq_Suc less_Suc_eq)

text \<open>
  The system call entry gives \<open>__handle_signal\<close> the registers that were pushed, and the changed frame is what \<open>msyscall_exit\<close> pops.
\<close>

lemma msyscall_signal_frame:
  "msyscall_signal (regs_words f @ hi) k m =
     bind_result (handle_signal k f m) (\<lambda>(k', f', m'). Inr (k', regs_words f' @ hi, m'))"
  by (simp add: msyscall_signal_def signal_at_def words_regs_words)

text \<open>
  C21. Delivering a signal to a handler of the user on the way out of a system call, where \<open>__handle_signal\<close> is given the
  frame of the interrupted registers (with the segments of user mode and interrupts enabled) and what it makes of it is what is popped, and returning from it with \<open>sigreturn\<close> is
  transparent: the handler is entered at its address with the signal number as argument and a frame
  below the red zone, and when it returns with the frame as it was stored, the interrupted
  registers, the signal mask and the current signal are those from before the delivery.
\<close>

theorem signal_return_roundtrip:
  assumes "task_current k = Some tsk" "kcurr k < length (ktable k)" "delivers tsk i" "i \<noteq> SIGKILL"
    "sa_handler (sigacts tsk ! nat (i - 1)) \<notin> {0, 1}"
    "if_cs iframe = 43" "if_ss iframe = 35" "bit (if_rflags iframe) 9"
    "0 \<le> sigcurr tsk" "sigcurr tsk < 2 ^ 31"
    "handle_signal k iframe m = Inr (k', iframe', m')"
    "load_words (if_rsp iframe') 26 m'' = load_words (if_rsp iframe') 26 m'"
    "if_rsp sframe = if_rsp iframe' + 8"
  shows "msyscall_signal (regs_words iframe @ hi) k m = Inr (k', regs_words iframe' @ hi, m') \<and>
     if_rip iframe' = sa_handler (sigacts tsk ! nat (i - 1)) \<and> if_rdi iframe' = word_of_int i \<and>
     if_rsp iframe' + 208 + 128 = if_rsp iframe \<and>
     (\<exists>k'' t. sigreturn k' sframe m'' = Inr (k'', iframe) \<and> task_current k'' = Some t \<and>
        sigmask t = sigmask tsk \<and> sigcurr t = sigcurr tsk)"
proof -
  let ?act = "sigacts tsk ! nat (i - 1)"
  let ?ws = "[sa_restorer ?act, word_of_int i, word_of_int (sigcurr tsk), sigmask tsk] @ regs_words iframe"
  obtain q where h: "handle_signal k iframe m = Inr (enter_handler i (kcurr k) tsk (upd_task (kcurr k)
     (\<lambda>t. t\<lparr>sigpend := sigset_del q i\<rparr>) (upd_task (kcurr k) (\<lambda>t. t\<lparr>sigpend := q\<rparr>) k)) iframe m)"
    using handle_signal_delivers [OF assms(1,3,4,5)] by blast
  have f: "if_rsp iframe' = if_rsp iframe - SIGFRAME_SIZE - 128" "m' = store_words (if_rsp iframe') ?ws m"
      "if_rip iframe' = sa_handler ?act" "if_rdi iframe' = word_of_int i" "kcurr k' = kcurr k"
      "\<exists>u. ktable k' ! kcurr k = Some u \<and> sigcurr u = i" "length (ktable k') = length (ktable k)"
    using h assms(1,2,11) by (auto simp: enter_handler_def Let_def upd_task_def task_current_def)
  have w: "load_words (if_rsp iframe') 26 m'' = ?ws"
    using load_store_words [of ?ws "if_rsp iframe'" m] words_regs_words(2) [of iframe] assms(12) f(2) by simp
  have "words_regs (drop 4 ?ws) = iframe" by (simp add: words_regs_words numeral_eq_Suc)
  moreover have "\<not> (NOT (if_rflags iframe) AND push_bit 9 1 \<noteq> 0)"
    using assms(8) and_exp_u64 [of "NOT (if_rflags iframe)" 9] by (simp add: bit_not_iff)
  ultimately have "sigreturn k' sframe m'' = Inr (upd_task (kcurr k')
      (\<lambda>t. t\<lparr>sigcurr := sigcurr tsk, sigmask := sigmask tsk\<rparr>) k', iframe)"
    using f w assms(6,7,9,10,13) sigcurr_roundtrip [of "sigcurr tsk"]
    by (auto simp: sigreturn_def task_current_def Let_def)
  moreover have "msyscall_signal (regs_words iframe @ hi) k m = Inr (k', regs_words iframe' @ hi, m')" using msyscall_signal_frame assms(11) by simp
  ultimately show ?thesis using f assms(2) by (auto simp: SIGFRAME_SIZE_def task_current_def upd_task_def)
qed

text \<open>A kernel with one task, which has the signal 10 pending and a handler for every signal.\<close>

definition demo_task :: task where
  "demo_task = blank_task\<lparr>sigpend := 512, tk_stat := TASK_RUN,
     sigacts := replicate 64 \<lparr>sa_handler = 4096, sa_flags = 0, sa_restorer = 8192, sa_mask = 0\<rparr>\<rparr>"

definition demo_kernel :: "task \<Rightarrow> kernel" where
  "demo_kernel t = \<lparr>ktable = Some t # Some (blank_task\<lparr>tk_pid := 1\<rparr>) # replicate 14 None, kcurr = 0, ksleep = [],
     krefer = \<lambda>_. 0\<rparr>"

definition demo_iframe :: intr_frame where
  "demo_iframe = (words_regs (replicate 22 7))\<lparr>if_cs := 43, if_ss := 35, if_rflags := 512, if_rsp := 65536\<rparr>"

lemma bit_512: "bit (512 :: int) n \<longleftrightarrow> n = 9"
  using bit_exp_iff [of 9 n, where 'a = int] by simp

lemma demo_delivers: "delivers demo_task 10"
proof -
  have "sigs (sigpend demo_task AND NOT (sigmask demo_task)) = {10}"
    by (auto simp: sigs_def demo_task_def blank_task_def bit_512)
  then show ?thesis by (simp add: delivers_def)
qed

lemma signal_return_roundtrip_witness:
  "\<exists>k' ifr m' k''. handle_signal (demo_kernel demo_task) demo_iframe (\<lambda>_. 0) = Inr (k', ifr, m') \<and>
     if_rip ifr = 4096 \<and> sigreturn k' (demo_iframe\<lparr>if_rsp := if_rsp ifr + 8\<rparr>) m' = Inr (k'', demo_iframe)"
proof -
  let ?k = "demo_kernel demo_task"
  have k: "task_current ?k = Some demo_task" "kcurr ?k < length (ktable ?k)"
    by (simp_all add: demo_kernel_def task_current_def)
  have a: "sigacts demo_task ! nat (10 - 1) = \<lparr>sa_handler = 4096, sa_flags = 0, sa_restorer = 8192, sa_mask = 0\<rparr>"
      "(10 :: int) \<noteq> SIGKILL" "sigcurr demo_task = 0"
    by (simp_all add: demo_task_def SIGKILL_def blank_task_def)
  have f: "if_cs demo_iframe = 43" "if_ss demo_iframe = 35" "bit (if_rflags demo_iframe) 9"
    by (simp_all add: demo_iframe_def bit_512)
  obtain k' ifr m' where h: "handle_signal ?k demo_iframe (\<lambda>_. 0) = Inr (k', ifr, m')"
    using handle_signal_delivers [OF k(1) demo_delivers a(2), of demo_iframe "\<lambda>_. 0"] a(1)
    by (auto simp: enter_handler_def Let_def)
  show ?thesis
    using signal_return_roundtrip [OF k demo_delivers a(2) _ f _ _ h refl,
        of "demo_iframe\<lparr>if_rsp := if_rsp ifr + 8\<rparr>"] a h by auto
qed

section \<open>Signals on the way out of an interrupt\<close>

text \<open>
  On the way out of an interrupt the frame is shifted by the 15 general registers: the fields that \<open>__handle_signal\<close> changes lie above the
  pushed registers, so the interrupted code goes on as if nothing had happened; the handler is not entered, the words above are
  overwritten, and the signal is no longer pending.
\<close>

theorem interrupt_signal_lost:
  assumes "task_current k = Some tsk" "kcurr k < length (ktable k)" "delivers tsk i" "i \<noteq> SIGKILL"
    "sa_handler (sigacts tsk ! nat (i - 1)) \<notin> {0, 1}" "length f = 22" "15 \<le> length hi"
  shows "\<exists>k' hi' m' t. intr_caller_signal (f @ hi) k m = Inr (k', f @ hi', m') \<and>
    hi' ! 10 = sa_handler (sigacts tsk ! nat (i - 1)) \<and> task_current k' = Some t \<and> i \<notin> sigs (sigpend t)"
proof -
  let ?w = "words_regs (drop 15 f @ take 15 hi)"
  obtain q where "handle_signal k ?w m = Inr (enter_handler i (kcurr k) tsk (upd_task (kcurr k)
     (\<lambda>t. t\<lparr>sigpend := sigset_del q i\<rparr>) (upd_task (kcurr k) (\<lambda>t. t\<lparr>sigpend := q\<rparr>) k)) ?w m)"
    using handle_signal_delivers [OF assms(1,3,4,5)] by blast
  then obtain k' f' m' t where h: "handle_signal k ?w m = Inr (k', f', m')" "take 7 (regs_words f') = take 7 (regs_words ?w)"
      "if_rip f' = sa_handler (sigacts tsk ! nat (i - 1))" "task_current k' = Some t" "sigpend t = sigset_del q i"
    using assms(1,2) by (auto simp: enter_handler_def Let_def upd_task_def task_current_def regs_words_def)
  have l: "length (drop 15 f @ take 15 hi) = 22" using assms(6,7) by simp
  have "take 7 (regs_words f') = drop 15 f" using h(2) words_regs_take [OF l] assms(6) by simp
  then have f: "take 15 f @ regs_words f' = f @ drop 7 (regs_words f')"
    by (metis append.assoc append_take_drop_id)
  have "intr_caller_signal (f @ hi) k m = Inr (k', f @ (drop 7 (regs_words f') @ drop 15 hi), m')"
    using h(1) assms(6) f by (simp add: intr_caller_signal_def signal_at_def)
  moreover have "(drop 7 (regs_words f') @ drop 15 hi) ! 10 = if_rip f'" by (simp add: regs_words_def nth_append)
  moreover have "i \<notin> sigs (sigset_del q i)" using assms(3) by (auto simp: delivers_def sigset_del_def sigdelset_def NSIG_def sigs_del sigs_def bit_simps)
  ultimately show ?thesis using h(3-5) by auto
qed

theorem interrupt_signal_lost_witness:
  "\<exists>k' hi m' t. intr_caller_signal (replicate 37 7) (demo_kernel demo_task) (\<lambda>_. 0) = Inr (k', replicate 22 7 @ hi, m') \<and>
     hi ! 10 = 4096 \<and> task_current k' = Some t \<and> 10 \<notin> sigs (sigpend t)"
proof -
  have k: "task_current (demo_kernel demo_task) = Some demo_task" "kcurr (demo_kernel demo_task) < length (ktable (demo_kernel demo_task))"
    by (simp_all add: demo_kernel_def task_current_def)
  have a: "sigacts demo_task ! nat (10 - 1) = \<lparr>sa_handler = 4096, sa_flags = 0, sa_restorer = 8192, sa_mask = 0\<rparr>" "(10 :: int) \<noteq> SIGKILL"
    by (simp_all add: demo_task_def SIGKILL_def)
  have "replicate 37 (7 :: u64) = replicate 22 7 @ replicate 15 7" by (simp add: replicate_add [symmetric])
  then show ?thesis using interrupt_signal_lost [OF k demo_delivers a(2), of "replicate 22 7" "replicate 15 7" "\<lambda>_. 0"] a(1) by simp
qed

section \<open>Masks\<close>

text \<open>
  Whatever its first argument, \<open>sigprocmask\<close> replaces the mask by the given set: SIG\_BLOCK and
  SIG\_UNBLOCK, which should add to the mask and take from it, end as SIG\_SETMASK.
\<close>

theorem sigprocmask_replaces:
  "fst (sigprocmask how s t) = 0 \<and> fst (snd (sigprocmask how s t)) = sigmask t \<and>
   sigmask (snd (snd (sigprocmask how s t))) = (if how \<in> {0, 1, 2} then s else sigmask t)"
  by (simp add: sigprocmask_def Let_def)

text \<open>
  Pending signals that are blocked are dropped, not kept: when every pending signal is blocked,
  the next return to user mode clears the pending set and delivers nothing.
\<close>

theorem blocked_signals_lost:
  assumes "task_current k = Some tsk" "kcurr k < length (ktable k)"
    "sigs (sigpend tsk) \<subseteq> sigs (sigmask tsk)"
  shows "\<exists>k' t. handle_signal k iframe m = Inr (k', iframe, m) \<and> task_current k' = Some t \<and>
     sigs (sigpend t) = {}"
proof -
  have "sigs (sigpend tsk AND NOT (sigmask tsk)) = {}"
    using assms(3) by (auto simp: sigs_def bit_and_iff bit_not_iff)
  then have "sigpend tsk AND NOT (sigmask tsk) = 0" by (simp add: sigs_empty_iff)
  moreover have "sigs 0 = {}" by (simp add: sigs_empty_iff)
  ultimately show ?thesis
    using assms(1,2) by (simp add: handle_signal_def upd_task_def task_current_def)
qed

lemma blocked_signals_lost_witness:
  "\<exists>k' t. handle_signal (demo_kernel (demo_task\<lparr>sigmask := 512\<rparr>)) demo_iframe (\<lambda>_. 0) =
       Inr (k', demo_iframe, \<lambda>_. 0) \<and> task_current k' = Some t \<and> 10 \<notin> sigs (sigpend t)"
proof -
  let ?t = "demo_task\<lparr>sigmask := 512\<rparr>"
  let ?k = "demo_kernel ?t"
  have k: "task_current ?k = Some ?t" "kcurr ?k < length (ktable ?k)"
    by (simp_all add: demo_kernel_def task_current_def)
  have p: "sigs (sigpend ?t) \<subseteq> sigs (sigmask ?t)" by (simp add: demo_task_def)
  show ?thesis using blocked_signals_lost [OF k p, of demo_iframe "\<lambda>_. 0"] by auto
qed

section \<open>Sending\<close>

lemma kill_one_neg: "kill_one me pid sig k = Inr (r, k') \<Longrightarrow> r < 0 \<Longrightarrow> k' = k"
  by (auto simp: kill_one_def Let_def split: option.splits if_splits)

lemma kill_group_neg:
  "kill_group me pg sig js found killed k = Inr (r, k') \<Longrightarrow> r < 0 \<Longrightarrow> k' = k"
  "kill_group me pg sig js found True k = Inr (r, k') \<Longrightarrow> found \<Longrightarrow> r = 0"
proof (induction js arbitrary: found killed k)
  case Nil
  { case 1 then show ?case by simp }
  { case 2 then show ?case by simp }
next
  case (Cons i js)
  { case 1
    show ?case
    proof (cases "\<exists>t. ktable k ! i = Some t \<and> tk_pgid t = pg")
      case False
      then show ?thesis using 1 Cons.IH(1) [of found killed k] by (auto split: option.splits)
    next
      case True
      then obtain t where t: "ktable k ! i = Some t" "tk_pgid t = pg" by blast
      then obtain r1 k1 where o1: "kill_one me (tk_pid t) sig k = Inr (r1, k1)"
        using 1(1) by (auto simp: bind_result_eq_Inr)
      show ?thesis
      proof (cases "r1 < 0")
        case True
        then show ?thesis
          using t o1 1 Cons.IH(1) [of True killed k] kill_one_neg [OF o1] by (simp add: bind_result_def)
      next
        case False
        then show ?thesis
          using t o1 1 Cons.IH(2) [of True k1] by (simp add: bind_result_def)
      qed
    qed }
  { case 2
    show ?case
    proof (cases "\<exists>t. ktable k ! i = Some t \<and> tk_pgid t = pg")
      case False
      then show ?thesis using 2 Cons.IH(2) [of found k] by (auto split: option.splits)
    next
      case True
      then obtain r1 k1 where "kill_group me pg sig js True True k1 = Inr (r, k')"
        using 2 by (auto simp: bind_result_eq_Inr split: if_splits)
      then show ?thesis using Cons.IH(2) [of True k1] by simp
    qed }
qed

text \<open>
  A \<open>kill\<close> that returns an error has no effect, for one task and for a process group; and sending
  to one task is refused exactly when the sender is not root and none of its real and effective uid
  is the real or the saved uid of the target.
\<close>

theorem kill_error_no_effect:
  assumes "task_current k = Some tsk" "0 \<le> sig" "sig < 64"
  shows "(kill pid sig k = Inr (r, k') \<and> r < 0 \<longrightarrow> k' = k) \<and>
     (0 < pid \<and> task_get k pid = Some ptsk \<longrightarrow>
        (kill pid sig k = Inr (- EPERM, k) \<longleftrightarrow>
           euid tsk \<noteq> 0 \<and> {euid tsk, ruid tsk} \<inter> {ruid ptsk, suid ptsk} = {}))"
proof (intro conjI impI)
  assume "kill pid sig k = Inr (r, k') \<and> r < 0"
  then show "k' = k"
    using assms kill_one_neg [of "kcurr k" pid sig k r k']
      kill_group_neg(1) [of "kcurr k" _ sig _ False False k r k']
    by (auto simp: kill_def NSIG_def split: if_splits)
next
  assume "0 < pid \<and> task_get k pid = Some ptsk"
  then show "kill pid sig k = Inr (- EPERM, k) \<longleftrightarrow>
      euid tsk \<noteq> 0 \<and> {euid tsk, ruid tsk} \<inter> {ruid ptsk, suid ptsk} = {}"
    using assms by (auto simp: kill_def kill_one_def NSIG_def task_current_def Let_def EPERM_def)
qed

lemma kill_error_no_effect_witness:
  "kill 1 15 (demo_kernel (demo_task\<lparr>euid := 5, ruid := 5\<rparr>)) =
     Inr (- EPERM, demo_kernel (demo_task\<lparr>euid := 5, ruid := 5\<rparr>))"
proof -
  let ?t = "demo_task\<lparr>euid := 5, ruid := 5\<rparr>"
  have "task_current (demo_kernel ?t) = Some ?t" by (simp add: demo_kernel_def task_current_def)
  moreover have "task_get (demo_kernel ?t) 1 = Some (blank_task\<lparr>tk_pid := 1\<rparr>)"
    by (simp add: demo_kernel_def task_get_def TASK_MAX_def)
  ultimately show ?thesis
    using kill_error_no_effect [of "demo_kernel ?t" ?t 15 1 _ _ "blank_task\<lparr>tk_pid := 1\<rparr>"]
    by (simp add: blank_task_def)
qed

text \<open>
  A task that sends itself a signal without a default action (16, or 32 to 63), while its action
  is the default one, makes the kernel call a null pointer or read past the table \<open>sig_def\<close> on the way
  back to user mode.
\<close>

theorem default_signal_faults:
  assumes "reach kboot kstep k" "task_current k = Some tsk" "0 < tk_pid tsk" "sigpend tsk = 0"
    "sig = 16 \<or> (32 \<le> sig \<and> sig < 64)" "sig \<notin> sigs (sigmask tsk)"
    "sa_handler (sigacts tsk ! nat (sig - 1)) = 0"
  shows "\<exists>k'. kill (tk_pid tsk) sig k = Inr (0, k') \<and> handle_signal k' iframe m = Inl BadAccess"
proof -
  have k: "sched_ok k" using ksys.good_reach [OF assms(1)] by (simp add: kinv_def)
  have t: "ktable k ! kcurr k = Some tsk" using assms(2) by (simp add: task_current_def)
  have c: "kcurr k < 16" "length (ktable k) = 16" "tk_pid tsk = int (kcurr k)"
    using k task_okD(1) [OF k _ t] by (simp_all add: sched_ok_def)
  let ?t = "tsk\<lparr>sigpend := sigset_add 0 sig\<rparr>"
  let ?k = "upd_task (kcurr k) (\<lambda>t. t\<lparr>sigpend := sigset_add (sigpend t) sig\<rparr>) k"
  have s: "sig \<noteq> SIGSTOP" "sig \<noteq> SIGKILL" "sig \<noteq> SIGCONT" "1 \<le> sig" "sig < 64" "sig \<noteq> 0"
    using assms(5) by (auto simp: SIGSTOP_def SIGKILL_def SIGCONT_def)
  have kk: "kill (tk_pid tsk) sig k = Inr (0, ?k)"
    using s assms(3) t c by (simp add: kill_def kill_one_def task_get_def TASK_MAX_def NSIG_def)
  have cur: "task_current ?k = Some ?t"
    using t c assms(4) by (simp add: task_current_def upd_task_def)
  have "sigs (sigset_add 0 sig) = {sig}"
    using sigs_add [of sig 0] s by (simp add: sigset_add_def sigaddset_def NSIG_def sigs_def)
  then have "sigs (sigset_add 0 sig AND NOT (sigmask tsk)) = {sig}"
    using assms(6) by (auto simp: sigs_def bit_and_iff bit_not_iff nat_less_iff)
  then have d: "List.find (\<lambda>i. sigismember (Some (sigset_add 0 sig AND NOT (sigmask tsk))) i \<noteq> 0) [1..int NSIG]
      = Some sig" "sigset_add 0 sig AND NOT (sigmask tsk) \<noteq> 0"
    using sigs_empty_iff [of "sigset_add 0 sig AND NOT (sigmask tsk)"] by (auto intro!: find_lowest)
  have "call_default sig = Inl BadAccess"
    using assms(5) by (auto simp: call_default_def sig_def_def)
  then have "handle_signal ?k iframe m = Inl BadAccess"
    using cur d s assms(7) by (simp add: handle_signal_def Let_def bind_result_def)
  with kk show ?thesis by blast
qed

lemma default_signal_faults_witness:
  "\<exists>k k'. reach kboot kstep k \<and> kill 1 40 k = Inr (0, k') \<and> handle_signal k' demo_iframe (\<lambda>_. 0) = Inl BadAccess"
proof -
  obtain k u where w: "task_wait_block forked 1 = Inr (Inr k)" "ktable k ! 1 = Some u" "tk_pid u = 1"
      "kcurr k = 1" "fresh_sig u"
    using waiting_eval by blast
  have r: "reach kboot kstep k" by (rule reach_step [OF forked_reach(2) kstep.wait [OF w(1)]])
  have u: "task_current k = Some u" using w by (simp add: task_current_def)
  have "sigs 0 = {}" by (simp add: sigs_empty_iff)
  then show ?thesis
    using default_signal_faults [OF r u, of 40 demo_iframe "\<lambda>_. 0"] w r
    by (auto simp: fresh_sig_def NSIG_def)
qed

end
