(* ===== verification/Net.thy ===== *)
theory Net
  imports Prelude
begin

unbundle bit_operations_syntax

text \<open>
  The packet layer: kernel/net/net.c (byte order, addresses, interface requests), kernel/net/ip.c
  and kernel/net/tcp.c (headers and checksums). A packet is the list of its bytes. An \<open>ipv4_t\<close>, which
  the code compares and copies as the \<open>u32\<close> at its address, is that word; stores and loads are
  little-endian.
\<close>

section \<open>Byte order\<close>

definition htons :: "u16 \<Rightarrow> u16" where
  "htons h = drop_bit 8 (h AND 0xFF00) OR push_bit 8 (h AND 0x00FF)"

definition ntohs :: "u16 \<Rightarrow> u16" where
  "ntohs h = drop_bit 8 (h AND 0xFF00) OR push_bit 8 (h AND 0x00FF)"

definition htonl :: "u32 \<Rightarrow> u32" where
  "htonl h = drop_bit 24 (h AND 0xFF000000) OR drop_bit 8 (h AND 0x00FF0000) OR
     push_bit 8 (h AND 0x0000FF00) OR push_bit 24 (h AND 0x000000FF)"

definition ntohl :: "u32 \<Rightarrow> u32" where
  "ntohl h = drop_bit 24 (h AND 0xFF000000) OR drop_bit 8 (h AND 0x00FF0000) OR
     push_bit 8 (h AND 0x0000FF00) OR push_bit 24 (h AND 0x000000FF)"

definition store16 :: "u16 \<Rightarrow> bytes" where
  "store16 x = [ucast x, ucast (drop_bit 8 x)]"

definition load16 :: "u8 \<Rightarrow> u8 \<Rightarrow> u16" where
  "load16 a b = ucast a OR push_bit 8 (ucast b)"

definition store32 :: "u32 \<Rightarrow> bytes" where
  "store32 x = [ucast x, ucast (drop_bit 8 x), ucast (drop_bit 16 x), ucast (drop_bit 24 x)]"

definition load32 :: "u8 \<Rightarrow> u8 \<Rightarrow> u8 \<Rightarrow> u8 \<Rightarrow> u32" where
  "load32 a b c d = ucast a OR push_bit 8 (ucast b) OR push_bit 16 (ucast c) OR push_bit 24 (ucast d)"

section \<open>Addresses and interface requests\<close>

definition ip_addr_cmp :: "u32 \<Rightarrow> u32 \<Rightarrow> bool" where
  "ip_addr_cmp a1 a2 \<longleftrightarrow> a1 = a2"

definition ip_addr_maskcmp :: "u32 \<Rightarrow> u32 \<Rightarrow> u32 \<Rightarrow> bool" where
  "ip_addr_maskcmp a1 a2 m \<longleftrightarrow> a1 AND m = a2 AND m"

definition ip_addr_isbroadcast :: "u32 \<Rightarrow> u32 \<Rightarrow> bool" where
  "ip_addr_isbroadcast a m \<longleftrightarrow> a AND NOT m = - 1 AND NOT m \<or> a = - 1 \<or> a = 0"

definition ip_addr_isany :: "u32 \<Rightarrow> bool" where
  "ip_addr_isany a \<longleftrightarrow> a = 0"

definition ip_addr_ismulticast :: "u32 \<Rightarrow> bool" where
  "ip_addr_ismulticast a \<longleftrightarrow> a AND ntohl 0xF0000000 = ntohl 0xE0000000"

record nif =
  nif_name :: string
  nif_mac :: bytes
  nif_ip :: u32
  nif_gateway :: u32
  nif_netmask :: u32
  nif_broadcast :: u32

datatype ifreq_cmd = SIOCGIFADDR | SIOCSIFADDR | SIOCGIFNETMASK | SIOCSIFNETMASK | SIOCGIFBRDADDR
  | SIOCSIFBRDADDR | SIOCGIFHWADDR | SIOC_other

text \<open>The address member of the union in \<open>ifreq_t\<close>, or the hardware address, is the argument.\<close>

datatype ifreq = If_addr u32 | If_hw bytes

definition if_addr :: "ifreq \<Rightarrow> u32" where
  "if_addr a = (case a of If_addr x \<Rightarrow> x | If_hw bs \<Rightarrow> load32 (bs ! 0) (bs ! 1) (bs ! 2) (bs ! 3))"

definition nif_ioctl :: "nif \<Rightarrow> ifreq_cmd \<Rightarrow> ifreq \<Rightarrow> int \<times> nif \<times> ifreq" where
  "nif_ioctl n req arg =
     (case req of
        SIOCGIFADDR \<Rightarrow> (0, n, If_addr (nif_ip n))
      | SIOCSIFADDR \<Rightarrow> (0, n\<lparr>nif_ip := if_addr arg\<rparr>, arg)
      | SIOCGIFNETMASK \<Rightarrow> (0, n, If_addr (nif_netmask n))
      | SIOCSIFNETMASK \<Rightarrow> (0, n\<lparr>nif_ip := if_addr arg\<rparr>, arg)
      | SIOCGIFBRDADDR \<Rightarrow> (0, n\<lparr>nif_broadcast := if_addr arg\<rparr>, arg)
      | SIOCSIFBRDADDR \<Rightarrow> (0, n, If_addr (nif_broadcast n))
      | SIOCGIFHWADDR \<Rightarrow> (0, n, If_hw (nif_mac n))
      | SIOC_other \<Rightarrow> (- EINVAL, n, arg))"

definition nif_register :: "nif \<Rightarrow> nif list \<Rightarrow> nif list" where
  "nif_register nif nifs = nif # nifs"

definition nif_find :: "nif list \<Rightarrow> string \<Rightarrow> nif option" where
  "nif_find nifs name = List.find (\<lambda>n. nif_name n = name) nifs"

section \<open>Checksums\<close>

text \<open>The additions of 16-bit words, as the loops of \<open>net_cksum_tcp\<close> and \<open>cksum\<close> do them.\<close>

fun sum16 :: "bytes \<Rightarrow> u32 \<Rightarrow> u32" where
  "sum16 (a # b # r) s = sum16 r (s + ucast (load16 a b))"
| "sum16 [a] s = s + ucast a"
| "sum16 [] s = s"

text \<open>The pseudo header \<open>tcpchk_t\<close>.\<close>

definition tcpchk :: "u32 \<Rightarrow> u32 \<Rightarrow> nat \<Rightarrow> bytes" where
  "tcpchk sip dip len = store32 sip @ store32 dip @ [0, 6] @ store16 (htons (of_nat len))"

definition net_cksum_tcp :: "bytes \<Rightarrow> u32 \<Rightarrow> u32 \<Rightarrow> u16" where
  "net_cksum_tcp data sip dip =
     (let s = sum16 (tcpchk sip dip (length data)) (sum16 data 0);
          s1 = drop_bit 16 s + (s AND 0xFFFF);
          s2 = s1 + drop_bit 16 s1
      in NOT (ucast s2))"

lemma fold_decreases:
  fixes s :: u32
  assumes "drop_bit 16 s \<noteq> 0"
  shows "unat ((s AND 0xFFFF) + drop_bit 16 s) = unat s mod 65536 + unat s div 65536"
    "unat ((s AND 0xFFFF) + drop_bit 16 s) < unat s"
proof -
  have lo: "unat (s AND 0xFFFF) = unat s mod 65536"
  proof -
    have "s AND 0xFFFF = take_bit 16 s" by (simp add: take_bit_eq_mask mask_eq_exp_minus_1)
    then show ?thesis by (simp add: unsigned_take_bit_eq take_bit_nat_def)
  qed
  have u: "unat s < 2 ^ 32" using unat_lt [of s] by simp
  then have hi: "unat (drop_bit 16 s) = unat s div 65536"
    by (simp add: unsigned_drop_bit_eq drop_bit_nat_def take_bit_nat_eq_self)
  from u have b: "unat s div 65536 < 65536" by (simp add: less_mult_imp_div_less)
  have "unat s mod 65536 < 65536" by simp
  with b have "unat s mod 65536 + unat s div 65536 < 131072" by linarith
  then have nov: "unat s mod 65536 + unat s div 65536 < 2 ^ 32" by simp
  show e: "unat ((s AND 0xFFFF) + drop_bit 16 s) = unat s mod 65536 + unat s div 65536"
    using nov lo hi by (simp add: unat_add_nowrap)
  have "unat s div 65536 \<noteq> 0" using assms hi unat_eq_0 by metis
  moreover have "unat s = 65536 * (unat s div 65536) + unat s mod 65536" by simp
  ultimately show "unat ((s AND 0xFFFF) + drop_bit 16 s) < unat s" unfolding e by linarith
qed

function cksum_fold :: "u32 \<Rightarrow> u32" where
  "cksum_fold s = (if drop_bit 16 s \<noteq> 0 then cksum_fold ((s AND 0xFFFF) + drop_bit 16 s) else s)"
  by pat_completeness auto
termination
  by (relation "measure unat") (auto intro: fold_decreases(2))

declare cksum_fold.simps [simp del]

definition cksum :: "bytes \<Rightarrow> u16" where
  "cksum data = NOT (ucast (cksum_fold (sum16 (take 20 data) 0)))"

section \<open>IP\<close>

text \<open>
  \<open>net_tx_ip\<close> up to the hand-over to \<open>net_tx_arpip\<close>: the packet with its header. \<open>old\<close> is what the 20
  bytes of the header held before: the fields \<open>tos\<close> and \<open>id\<close> are never set.
\<close>

definition ip_header :: "bytes \<Rightarrow> nat \<Rightarrow> u8 \<Rightarrow> u32 \<Rightarrow> u32 \<Rightarrow> u16 \<Rightarrow> bytes" where
  "ip_header old tot ptype sip dip ck =
     [0x45, old ! 1] @ store16 (htons (of_nat tot)) @ [old ! 4, old ! 5, 0, 0, 64, ptype] @
     store16 ck @ store32 sip @ store32 dip"

definition net_tx_ip :: "bytes \<Rightarrow> u32 \<Rightarrow> bytes \<Rightarrow> u32 \<Rightarrow> u8 \<Rightarrow> bytes" where
  "net_tx_ip old myip m dip ptype =
     (let tot = length m + 20
      in ip_header old tot ptype myip dip (cksum (ip_header old tot ptype myip dip 0)) @ m)"

datatype ip_rx = Ip_drop | Ip_raw | Ip_icmp bytes bytes | Ip_tcp bytes bytes | Ip_udp bytes bytes
  | Ip_other

text \<open>
  \<open>net_rx_ip\<close>: where a received packet goes. \<open>raw\<close> is the result of \<open>sock_rx_raw\<close>. The length the rest
  of the stack sees is the one the header claims; a claim outside the packet is a bad access.
\<close>

definition net_rx_ip :: "(bytes \<Rightarrow> bytes \<Rightarrow> int) \<Rightarrow> u32 \<Rightarrow> bytes \<Rightarrow> ip_rx result" where
  "net_rx_ip raw myip m =
     (if length m < 20 then Inl BadAccess
      else let hdr = take 20 m; body = drop 20 m;
               flgs = drop_bit 5 (hdr ! 6); off0 = hdr ! 6 AND 31; off1 = hdr ! 7
           in if drop_bit 4 (hdr ! 0) \<noteq> 4 then Inr Ip_drop
              else if hdr ! 0 AND 15 \<noteq> 5 then Inr Ip_drop
              else if flgs AND 4 \<noteq> 0 \<or> off0 \<noteq> 0 \<or> off1 \<noteq> 0 then Inr Ip_drop
              else if \<not> ip_addr_cmp myip (load32 (hdr ! 16) (hdr ! 17) (hdr ! 18) (hdr ! 19)) then Inr Ip_drop
              else let tot = unat (ntohs (load16 (hdr ! 2) (hdr ! 3)))
                   in if tot < 20 \<or> length m < tot then Inl BadAccess
                      else let pay = take (tot - 20) body
                           in if raw hdr pay > 0 then Inr Ip_raw
                              else if hdr ! 9 = 1 then Inr (Ip_icmp hdr pay)
                              else if hdr ! 9 = 6 then Inr (Ip_tcp hdr pay)
                              else if hdr ! 9 = 17 then Inr (Ip_udp hdr pay)
                              else Inr Ip_other)"

section \<open>TCP segments\<close>

definition TCP_F_FIN :: u8 where "TCP_F_FIN = 1"
definition TCP_F_SYN :: u8 where "TCP_F_SYN = 2"
definition TCP_F_RST :: u8 where "TCP_F_RST = 4"
definition TCP_F_PSH :: u8 where "TCP_F_PSH = 8"
definition TCP_F_ACK :: u8 where "TCP_F_ACK = 16"
definition TCP_F_URG :: u8 where "TCP_F_URG = 32"

lemmas tcp_flag_defs = TCP_F_FIN_def TCP_F_SYN_def TCP_F_RST_def TCP_F_PSH_def TCP_F_ACK_def TCP_F_URG_def

record tcphdr =
  h_sport :: u16
  h_dport :: u16
  h_seqnr :: u32
  h_acknr :: u32
  h_flgs :: u8
  h_window :: u16
  h_urgptr :: u16

definition tcp_header :: "tcphdr \<Rightarrow> u16 \<Rightarrow> bytes" where
  "tcp_header h ck =
     store16 (htons (h_sport h)) @ store16 (htons (h_dport h)) @
     store32 (htonl (h_seqnr h)) @ store32 (htonl (h_acknr h)) @
     [0x50, h_flgs h] @ store16 (htons (h_window h)) @ store16 ck @ store16 (htons (h_urgptr h))"

definition net_tx_tcp :: "u32 \<Rightarrow> bytes \<Rightarrow> u32 \<Rightarrow> tcphdr \<Rightarrow> bytes" where
  "net_tx_tcp myip m dip h =
     tcp_header h (net_cksum_tcp (tcp_header h 0 @ m) myip dip) @ m"

text \<open>The header \<open>sock_rx_tcp\<close> reads from the first 20 bytes, with its fields in host order.\<close>

definition tcp_parse :: "bytes \<Rightarrow> tcphdr" where
  "tcp_parse b =
     \<lparr>h_sport = ntohs (load16 (b ! 0) (b ! 1)), h_dport = ntohs (load16 (b ! 2) (b ! 3)),
      h_seqnr = ntohl (load32 (b ! 4) (b ! 5) (b ! 6) (b ! 7)),
      h_acknr = ntohl (load32 (b ! 8) (b ! 9) (b ! 10) (b ! 11)),
      h_flgs = b ! 13, h_window = ntohs (load16 (b ! 14) (b ! 15)),
      h_urgptr = ntohs (load16 (b ! 18) (b ! 19))\<rparr>"

section \<open>Byte order lemmas\<close>

lemma byte_masks:
  "bit (255 :: int) n \<longleftrightarrow> n < 8"
  "bit (65280 :: int) n \<longleftrightarrow> 8 \<le> n \<and> n < 16"
  "bit (16711680 :: int) n \<longleftrightarrow> 16 \<le> n \<and> n < 24"
  "bit (4278190080 :: int) n \<longleftrightarrow> 24 \<le> n \<and> n < 32"
proof -
  have m: "bit (push_bit k (mask 8) :: int) n \<longleftrightarrow> k \<le> n \<and> n < k + 8" for k
    by (auto simp: bit_push_bit_iff bit_mask_iff)
  have e: "(255 :: int) = push_bit 0 (mask 8)" "(65280 :: int) = push_bit 8 (mask 8)"
      "(16711680 :: int) = push_bit 16 (mask 8)" "(4278190080 :: int) = push_bit 24 (mask 8)"
    by (simp_all add: mask_eq_exp_minus_1 push_bit_eq_mult)
  show "bit (255 :: int) n \<longleftrightarrow> n < 8" "bit (65280 :: int) n \<longleftrightarrow> 8 \<le> n \<and> n < 16"
    "bit (16711680 :: int) n \<longleftrightarrow> 16 \<le> n \<and> n < 24" "bit (4278190080 :: int) n \<longleftrightarrow> 24 \<le> n \<and> n < 32"
    unfolding e m by simp_all
qed

lemma bit_htons: "bit (htons x) n \<longleftrightarrow> (if n < 8 then bit x (n + 8) else n < 16 \<and> bit x (n - 8))"
  by (auto simp: htons_def bit_simps byte_masks add.commute dest: bit_imp_le_length)

lemma swap16: "ntohs (htons x) = x"
proof (rule bit_word_eqI)
  fix n assume n: "n < LENGTH(16)"
  have "ntohs = htons" by (simp add: ntohs_def htons_def fun_eq_iff)
  then show "bit (ntohs (htons x)) n = bit x n"
    using n by (cases "n < 8") (auto simp: bit_htons)
qed

lemma load_store16: "load16 (ucast x) (ucast (drop_bit 8 x)) = x"
  by (rule bit_word_eqI) (auto simp: load16_def bit_simps)

lemma bit_load32:
  "bit (load32 a b c d) n \<longleftrightarrow>
     (if n < 8 then bit a n else if n < 16 then bit b (n - 8) else if n < 24 then bit c (n - 16)
      else n < 32 \<and> bit d (n - 24))"
  by (auto simp: load32_def bit_simps dest: bit_imp_le_length)

lemma load_store32:
  "load32 (ucast x) (ucast (drop_bit 8 x)) (ucast (drop_bit 16 x)) (ucast (drop_bit 24 x)) = x"
  by (rule bit_word_eqI) (auto simp: bit_load32 bit_simps)

lemma bit_htonl:
  "bit (htonl x) n \<longleftrightarrow>
     (if n < 8 then bit x (n + 24) else if n < 16 then bit x (n + 8) else if n < 24 then bit x (n - 8)
      else n < 32 \<and> bit x (n - 24))"
  by (auto simp: htonl_def bit_simps byte_masks add.commute dest: bit_imp_le_length)

lemma ntohl_htonl_same: "ntohl = htonl"
  by (simp add: ntohl_def htonl_def fun_eq_iff)

lemma swap32: "ntohl (htonl x) = x"
proof (rule bit_word_eqI)
  fix n assume n: "n < LENGTH(32)"
  consider "n < 8" | "8 \<le> n" "n < 16" | "16 \<le> n" "n < 24" | "24 \<le> n" by linarith
  then show "bit (ntohl (htonl x)) n = bit x n"
    using n by cases (auto simp: ntohl_htonl_same bit_htonl)
qed

section \<open>Checksum lemmas\<close>

fun sumn :: "bytes \<Rightarrow> nat" where
  "sumn (a # b # r) = unat a + 256 * unat b + sumn r"
| "sumn [a] = unat a"
| "sumn [] = 0"

lemma unat_load16: "unat (load16 a b) = unat a + 256 * unat b"
proof -
  have "load16 a b = ucast a + push_bit 8 (ucast b)"
    unfolding load16_def by (rule disjunctive_add [symmetric]) (auto simp: bit_simps dest: bit_imp_le_length)
  moreover have "unat (push_bit 8 (ucast b) :: u16) = 256 * unat b"
    using unat_lt [of b] by (simp add: unsigned_push_bit_eq unsigned_ucast_eq push_bit_nat_def
        take_bit_nat_eq_self mult.commute)
  moreover have "unat (ucast a :: u16) = unat a"
    using unat_lt [of a] by (simp add: unsigned_ucast_eq take_bit_nat_eq_self)
  ultimately show ?thesis
    using unat_lt [of a] unat_lt [of b] by (simp add: unat_add_nowrap)
qed

lemma unat_ucast16_32: "unat (ucast (x :: u16) :: u32) = unat x"
  using unat_lt [of x] by (simp add: unsigned_ucast_eq take_bit_nat_eq_self)

lemma unat_ucast8_32: "unat (ucast (x :: u8) :: u32) = unat x"
  using unat_lt [of x] by (simp add: unsigned_ucast_eq take_bit_nat_eq_self)

lemma unat_sum16: "unat s + sumn d < 2 ^ 32 \<Longrightarrow> unat (sum16 d s) = unat s + sumn d"
proof (induction d s rule: sum16.induct)
  case (1 a b r s)
  have "unat (s + ucast (load16 a b)) = unat s + (unat a + 256 * unat b)"
    using "1.prems" by (simp add: unat_add_nowrap unat_ucast16_32 unat_load16)
  then show ?case using 1 by simp
next
  case (2 a s)
  then show ?case by (simp add: unat_add_nowrap unat_ucast8_32)
qed simp

lemma sumn_le: "sumn d \<le> 65535 * ((length d + 1) div 2)"
proof (induction d rule: sumn.induct)
  case (1 a b r)
  then show ?case using unat_lt [of a] unat_lt [of b] by simp
next
  case (2 a)
  then show ?case using unat_lt [of a] by simp
qed simp

lemma sumn_append: "even (length xs) \<Longrightarrow> sumn (xs @ ys) = sumn xs + sumn ys"
  by (induction xs rule: sumn.induct) auto

lemma sumn_store16: "sumn (store16 x) = unat x"
  using unat_load16 [of "ucast x" "ucast (drop_bit 8 x)"] by (simp add: store16_def load_store16)

text \<open>Folding the carries keeps the residue modulo 65535 and reaches zero only from zero.\<close>

definition folds :: "nat \<Rightarrow> nat \<Rightarrow> bool" where
  "folds s f \<longleftrightarrow> f < 65536 \<and> f mod 65535 = s mod 65535 \<and> (f = 0 \<longleftrightarrow> s = 0)"

lemma mod65535: "(q + r) mod 65535 = (65536 * q + r) mod (65535 :: nat)"
proof -
  have "65536 * q + r = (q + r) + 65535 * q" by simp
  then show ?thesis by (simp only: mod_mult_self2)
qed

lemma folds_once: "folds (s mod 65536 + s div 65536) f \<Longrightarrow> folds s f"
proof -
  assume a: "folds (s mod 65536 + s div 65536) f"
  have "(s div 65536 + s mod 65536) mod 65535 = s mod 65535"
    using mod65535 [of "s div 65536" "s mod 65536"] by simp
  moreover have "s mod 65536 + s div 65536 = 0 \<longleftrightarrow> s = 0"
    by (metis add_is_0 div_mult_mod_eq mult_0 mod_0 div_0)
  ultimately show ?thesis using a by (simp add: folds_def add.commute)
qed

lemma folds_fold: "folds (unat s) (unat (cksum_fold s))"
proof (induction s rule: cksum_fold.induct)
  case (1 s)
  show ?case
  proof (cases "drop_bit 16 s \<noteq> 0")
    case True
    have "folds (unat s mod 65536 + unat s div 65536) (unat (cksum_fold ((s AND 0xFFFF) + drop_bit 16 s)))"
      using "1.IH" [OF True] unfolding fold_decreases(1) [OF True] .
    moreover have "cksum_fold s = cksum_fold ((s AND 0xFFFF) + drop_bit 16 s)"
      using True by (subst cksum_fold.simps) simp
    ultimately show ?thesis by (metis folds_once)
  next
    case False
    then have "unat (drop_bit 16 s) = 0" by simp
    then have "unat s div 65536 = 0"
      using unat_lt [of s] by (simp add: unsigned_drop_bit_eq drop_bit_nat_def take_bit_nat_eq_self)
    then have "unat s < 65536" by (simp add: div_eq_0_iff)
    then show ?thesis using False by (simp add: folds_def cksum_fold.simps [of s])
  qed
qed

text \<open>The two additions of \<open>net_cksum_tcp\<close> fold as well.\<close>

lemma unat_drop16: "unat (drop_bit 16 (s :: u32)) = unat s div 65536"
  using unat_lt [of s] by (simp add: unsigned_drop_bit_eq drop_bit_nat_def take_bit_nat_eq_self)

lemma folds_two:
  fixes s :: u32
  defines "s1 \<equiv> drop_bit 16 s + (s AND 0xFFFF)"
  shows "folds (unat s) (unat (ucast (s1 + drop_bit 16 s1) :: u16))"
proof (rule folds_once)
  have u: "unat s < 2 ^ 32" using unat_lt [of s] by simp
  then have b: "unat s div 65536 < 65536" by (simp add: less_mult_imp_div_less)
  have lo: "unat (s AND 0xFFFF) = unat s mod 65536"
  proof -
    have "s AND 0xFFFF = take_bit 16 s" by (simp add: take_bit_eq_mask mask_eq_exp_minus_1)
    then show ?thesis by (simp add: unsigned_take_bit_eq take_bit_nat_def)
  qed
  have m: "unat s mod 65536 < 65536" by simp
  have n: "unat s1 = unat s div 65536 + unat s mod 65536"
    using b m unfolding s1_def by (simp add: unat_add_nowrap unat_drop16 lo)
  have n2: "unat (s1 + drop_bit 16 s1) = unat s1 + unat s1 div 65536"
    using b m n by (simp add: unat_add_nowrap unat_drop16)
  have c: "unat (ucast (s1 + drop_bit 16 s1) :: u16) = (unat s1 + unat s1 div 65536) mod 65536"
    by (simp add: unsigned_ucast_eq take_bit_nat_def n2)
  show "folds (unat s mod 65536 + unat s div 65536) (unat (ucast (s1 + drop_bit 16 s1) :: u16))"
  proof (cases "unat s1 < 65536")
    case True
    then show ?thesis using n c by (simp add: folds_def add.commute conj_commute)
  next
    case False
    have l: "unat s1 \<le> 131070" using b m n by linarith
    then have "unat s1 div 65536 = 1" using False by (intro div_nat_eqI) auto
    then have "unat (ucast (s1 + drop_bit 16 s1) :: u16) = unat s1 - 65535"
      using c l False by (simp add: le_mod_geq)
    moreover have "(unat s1 - 65535) mod 65535 = unat s1 mod 65535"
      using False by (simp add: le_mod_geq)
    moreover have "unat s mod 65536 + unat s div 65536 = unat s1" using n by simp
    ultimately show ?thesis using False l by (simp add: folds_def)
  qed
qed

lemma unat_not16: "unat (NOT (x :: u16)) = 65535 - unat x"
proof -
  have "NOT x = - 1 - x" by (simp add: not_eq_complement)
  moreover have "unat (- 1 - x) = unat (- 1 :: u16) - unat x" by (rule unat_sub) simp
  ultimately show ?thesis by (simp add: unsigned_minus_1_eq_mask mask_eq_exp_minus_1)
qed

lemma folds_complement:
  assumes "folds S f" "folds (S + (65535 - f)) f'"
  shows "f' = 65535"
proof -
  have f: "f < 65536" "S mod 65535 = f mod 65535" "f = 0 \<longleftrightarrow> S = 0" using assms(1) by (auto simp: folds_def)
  have "(S + (65535 - f)) mod 65535 = (S mod 65535 + (65535 - f)) mod 65535"
    by (rule mod_add_left_eq [symmetric])
  also have "\<dots> = 0"
  proof (cases "f = 65535")
    case False
    with f show ?thesis by simp
  qed (use f(2) in simp)
  finally have "f' mod 65535 = 0" using assms(2) by (simp add: folds_def)
  moreover have "f' < 65536" "f' \<noteq> 0" using assms(2) f by (auto simp: folds_def)
  ultimately show ?thesis by (cases "f' < 65535") auto
qed

text \<open>What the receiver computes over data in which the sender put its checksum.\<close>

lemma cksum_tcp_nat:
  assumes "length d < 65536"
  shows "folds (sumn d + sumn (tcpchk sip dip (length d))) (65535 - unat (net_cksum_tcp d sip dip))"
proof -
  let ?c = "tcpchk sip dip (length d)"
  have lc: "length ?c = 12" by (simp add: tcpchk_def store32_def store16_def)
  have b: "sumn d \<le> 65535 * 32768" "sumn ?c \<le> 65535 * 6"
  proof -
    have "(length d + 1) div 2 \<le> 32768" using assms by simp
    then show "sumn d \<le> 65535 * 32768" using sumn_le [of d] by linarith
    show "sumn ?c \<le> 65535 * 6" using sumn_le [of ?c] lc by simp
  qed
  have s1: "unat (sum16 d 0) = sumn d" using b(1) by (subst unat_sum16) simp_all
  have s: "unat (sum16 ?c (sum16 d 0)) = sumn d + sumn ?c"
    using b s1 by (subst unat_sum16) simp_all
  let ?s = "sum16 ?c (sum16 d 0)"
  let ?f = "ucast ((drop_bit 16 ?s + (?s AND 0xFFFF)) + drop_bit 16 (drop_bit 16 ?s + (?s AND 0xFFFF))) :: u16"
  have "unat (net_cksum_tcp d sip dip) = 65535 - unat ?f"
    unfolding net_cksum_tcp_def Let_def by (rule unat_not16)
  moreover have "unat ?f \<le> 65535" using unat_lt [of ?f] by simp
  ultimately have "65535 - unat (net_cksum_tcp d sip dip) = unat ?f" by simp
  then show ?thesis using folds_two [of ?s] s by simp
qed

lemma cksum_tcp_verifies:
  assumes "even (length pre)" "length pre + length post + 2 < 65536"
    "c = net_cksum_tcp (pre @ store16 0 @ post) sip dip"
  shows "net_cksum_tcp (pre @ store16 c @ post) sip dip = 0"
proof -
  let ?d = "pre @ store16 0 @ post" and ?e = "pre @ store16 c @ post"
  have l: "length ?e = length ?d" "length ?d < 65536" using assms(2) by (simp_all add: store16_def)
  let ?S = "sumn ?d + sumn (tcpchk sip dip (length ?d))"
  have e2: "even (length (store16 x))" for x by (simp add: store16_def)
  have se: "sumn (pre @ store16 x @ post) = sumn pre + unat x + sumn post" for x
    using assms(1) by (simp add: sumn_append e2 sumn_store16)
  have "unat c \<le> 65535" using unat_lt [of c] by simp
  then have sum: "sumn ?e + sumn (tcpchk sip dip (length ?e)) = ?S + (65535 - (65535 - unat c))"
    unfolding l(1) by (simp only: se) simp
  have "folds ?S (65535 - unat c)" using cksum_tcp_nat [OF l(2), of sip dip] assms(3) by simp
  moreover have "folds (?S + (65535 - (65535 - unat c))) (65535 - unat (net_cksum_tcp ?e sip dip))"
    using cksum_tcp_nat [of ?e sip dip] l sum by simp
  ultimately have "65535 - unat (net_cksum_tcp ?e sip dip) = 65535" by (rule folds_complement)
  then have "unat (net_cksum_tcp ?e sip dip) = 0" by simp
  then show ?thesis by (simp add: unat_eq_0)
qed

lemma tcp_wire:
  assumes "length m \<le> 65515" "b = net_tx_tcp sip m dip h"
  shows "net_cksum_tcp b sip dip = 0 \<and> tcp_parse b = h \<and> drop 20 b = m \<and> length b = 20 + length m"
proof -
  let ?pre = "store16 (htons (h_sport h)) @ store16 (htons (h_dport h)) @
     store32 (htonl (h_seqnr h)) @ store32 (htonl (h_acknr h)) @
     [0x50, h_flgs h] @ store16 (htons (h_window h))"
  let ?post = "store16 (htons (h_urgptr h)) @ m"
  have h: "tcp_header h c @ m = ?pre @ store16 c @ ?post" for c by (simp add: tcp_header_def)
  have "net_cksum_tcp b sip dip = 0"
    unfolding assms(2) net_tx_tcp_def h using assms(1)
    by (intro cksum_tcp_verifies) (simp_all add: store16_def store32_def)
  moreover have "tcp_parse b = h"
    unfolding assms(2) net_tx_tcp_def
    by (cases h) (simp add: tcp_parse_def tcp_header_def store16_def store32_def load_store16 load_store32 swap16 swap32)
  moreover have "length (tcp_header h c) = 20" for c by (simp add: tcp_header_def store16_def store32_def)
  ultimately show ?thesis unfolding assms(2) net_tx_tcp_def by simp
qed

text \<open>
  A segment built by \<open>net_tx_tcp\<close> arrives as it was sent: the checksum test of the receiver
  passes, the header fields are the sender's and the payload follows the header.
\<close>

theorem tcp_segment_roundtrip:
  assumes "length m \<le> 65515" "b = net_tx_tcp sip m dip h"
  shows "net_cksum_tcp b sip dip = 0 \<and> tcp_parse b = h \<and> drop 20 b = m \<and> length b = 20 + length m"
  by (rule tcp_wire [OF assms])

lemma tcp_segment_roundtrip_witness:
  "\<exists>h. net_cksum_tcp (net_tx_tcp 1 [72, 105] 2 h) 1 2 = 0 \<and> tcp_parse (net_tx_tcp 1 [72, 105] 2 h) = h \<and>
     h_sport h = 80"
  using tcp_segment_roundtrip [of "[72, 105]" _ 1 2 "\<lparr>h_sport = 80, h_dport = 1025, h_seqnr = 7, h_acknr = 9,
    h_flgs = 16, h_window = 65535, h_urgptr = 0\<rparr>"]
  by (intro exI [of _ "\<lparr>h_sport = 80, h_dport = 1025, h_seqnr = 7, h_acknr = 9,
    h_flgs = 16, h_window = 65535, h_urgptr = 0\<rparr>"]) simp

lemma cksum_verifies:
  assumes "even (length pre)" "length pre + length post = 18" "c = cksum (pre @ store16 0 @ post @ m)"
  shows "cksum (pre @ store16 c @ post @ m') = 0"
proof -
  have t: "take 20 (pre @ store16 x @ post @ r) = pre @ store16 x @ post" for x r
  proof -
    have "length (pre @ store16 x @ post) = 20" using assms(2) by (simp add: store16_def)
    then have "take 20 ((pre @ store16 x @ post) @ r) = pre @ store16 x @ post" by (simp del: append_assoc)
    then show ?thesis by simp
  qed
  have n: "folds (sumn (pre @ store16 x @ post)) (65535 - unat (cksum (pre @ store16 x @ post @ r)))" for x r
  proof -
    let ?d = "pre @ store16 x @ post"
    have "sumn ?d \<le> 65535 * 10" using sumn_le [of ?d] assms(2) by (simp add: store16_def)
    then have s: "unat (sum16 ?d 0) = sumn ?d" by (subst unat_sum16) simp_all
    have "folds (sumn ?d) (unat (cksum_fold (sum16 ?d 0)))" using folds_fold [of "sum16 ?d 0"] s by simp
    moreover have "unat (ucast (cksum_fold (sum16 ?d 0)) :: u16) = unat (cksum_fold (sum16 ?d 0))"
      using calculation by (simp add: folds_def unsigned_ucast_eq take_bit_nat_eq_self)
    ultimately show ?thesis unfolding cksum_def t unat_not16 by (simp add: folds_def)
  qed
  have se: "sumn (pre @ store16 x @ post) = sumn pre + unat x + sumn post" for x
    using assms(1) by (simp add: sumn_append sumn_store16 store16_def [of x, THEN arg_cong, of length])
  have "unat c \<le> 65535" using unat_lt [of c] by simp
  then have "sumn (pre @ store16 c @ post) = sumn (pre @ store16 0 @ post) + (65535 - (65535 - unat c))"
    by (simp only: se) simp
  then have "65535 - unat (cksum (pre @ store16 c @ post @ m')) = 65535"
    using folds_complement n [of 0 m] n [of c m'] assms(3) by metis
  then have "unat (cksum (pre @ store16 c @ post @ m')) = 0" by simp
  then show ?thesis by (simp add: unat_eq_0)
qed

lemma rx_ip_tcp:
  assumes "length h = 20" "unat (ntohs (load16 (h ! 2) (h ! 3))) = length m + 20"
    "load32 (h ! 16) (h ! 17) (h ! 18) (h ! 19) = dip" "h ! 0 = 0x45" "h ! 6 \<in> {0, 0x20}" "h ! 7 = 0" "h ! 9 = 6"
    "raw h m \<le> 0"
  shows "net_rx_ip raw dip (h @ m) = Inr (Ip_tcp h m)"
  using assms by (auto simp: net_rx_ip_def ip_addr_cmp_def not_less Let_def)

lemma ip_wire:
  assumes "length m \<le> 65515" "p = net_tx_ip old sip m dip 6" "\<And>h b. raw h b \<le> 0"
  shows "\<exists>hdr. net_rx_ip raw dip p = Inr (Ip_tcp hdr m) \<and> length hdr = 20 \<and> cksum hdr = 0 \<and>
     load32 (hdr ! 12) (hdr ! 13) (hdr ! 14) (hdr ! 15) = sip \<and>
     load32 (hdr ! 16) (hdr ! 17) (hdr ! 18) (hdr ! 19) = dip"
proof -
  let ?n = "length m + 20"
  let ?c = "cksum (ip_header old ?n 6 sip dip 0)"
  let ?h = "ip_header old ?n 6 sip dip ?c"
  have p: "p = ?h @ m" unfolding assms(2) net_tx_ip_def Let_def by simp
  have l: "length ?h = 20" by (simp add: ip_header_def store16_def store32_def)
  have n: "unat (ntohs (load16 (?h ! 2) (?h ! 3))) = ?n"
  proof -
    have "?h ! 2 = ucast (htons (of_nat ?n))" "?h ! 3 = ucast (drop_bit 8 (htons (of_nat ?n)))"
      by (simp_all only: ip_header_def store16_def) simp_all
    then have "ntohs (load16 (?h ! 2) (?h ! 3)) = of_nat ?n" by (simp only: load_store16 swap16)
    then show ?thesis using assms(1) unat_of_nat_small [of ?n, where 'a = 16] by simp
  qed
  have a: "load32 (?h ! 16) (?h ! 17) (?h ! 18) (?h ! 19) = dip"
      "load32 (?h ! 12) (?h ! 13) (?h ! 14) (?h ! 15) = sip"
    by (simp_all add: ip_header_def store16_def store32_def load_store32)
  have b: "?h ! 0 = 0x45" "?h ! 6 = 0" "?h ! 7 = 0" "?h ! 9 = 6"
    by (simp_all add: ip_header_def store16_def)
  let ?pre = "[0x45, old ! 1] @ store16 (htons (of_nat ?n)) @ [old ! 4, old ! 5, 0, 0, 64, 6]"
  have e: "ip_header old ?n 6 sip dip x = ?pre @ store16 x @ (store32 sip @ store32 dip) @ []" for x
    by (simp add: ip_header_def)
  have "cksum ?h = 0"
    unfolding e [of ?c] by (rule cksum_verifies [where m = "[]"]) (simp_all add: store16_def store32_def e)
  moreover have "net_rx_ip raw dip p = Inr (Ip_tcp ?h m)"
    unfolding p using l n a(1) b assms(3) by (intro rx_ip_tcp) simp_all
  ultimately show ?thesis using l a by blast
qed

text \<open>
  A packet \<open>net_tx_ip\<close> builds is accepted by \<open>net_rx_ip\<close> of the interface it is addressed to and
  goes, with its payload and header, to the handler of its protocol; the header sums to zero under
  the IP checksum, for whatever bytes the unset fields hold.
\<close>

theorem ip_packet_roundtrip:
  assumes "length m \<le> 65515" "p = net_tx_ip old sip m dip 6" "\<And>h b. raw h b \<le> 0"
  shows "\<exists>hdr. net_rx_ip raw dip p = Inr (Ip_tcp hdr m) \<and> length hdr = 20 \<and> cksum hdr = 0 \<and>
     load32 (hdr ! 12) (hdr ! 13) (hdr ! 14) (hdr ! 15) = sip"
  using ip_wire [of m p old sip dip raw] assms by blast

lemma ip_packet_roundtrip_witness:
  "\<exists>hdr. net_rx_ip (\<lambda>h b. 0) 2 (net_tx_ip (replicate 20 9) 1 [5, 6, 7] 2 6) = Inr (Ip_tcp hdr [5, 6, 7]) \<and> cksum hdr = 0"
  using ip_packet_roundtrip [of "[5, 6, 7]" _ "replicate 20 9" 1 2 "\<lambda>h b. 0"] by auto

text \<open>
  The test for fragments looks at the reserved bit of the flags and not at the more-fragments bit:
  the first fragment of a datagram is handed to TCP as if it were the whole.
\<close>

theorem first_fragment_accepted:
  assumes "length m \<le> 65515" "p = net_tx_ip old sip m dip 6" "\<And>h b. raw h b \<le> 0"
  shows "\<exists>hdr. net_rx_ip raw dip (p[6 := 0x20]) = Inr (Ip_tcp hdr m)"
proof -
  let ?n = "length m + 20"
  let ?c = "cksum (ip_header old ?n 6 sip dip 0)"
  let ?h = "(ip_header old ?n 6 sip dip ?c)[6 := 0x20]"
  have l: "length ?h = 20" by (simp add: ip_header_def store16_def store32_def)
  have p: "p[6 := 0x20] = ?h @ m"
    using l unfolding assms(2) net_tx_ip_def Let_def by (simp add: list_update_append)
  have n: "unat (ntohs (load16 (?h ! 2) (?h ! 3))) = ?n"
  proof -
    have "?h ! 2 = ucast (htons (of_nat ?n))" "?h ! 3 = ucast (drop_bit 8 (htons (of_nat ?n)))"
      by (simp_all only: ip_header_def store16_def) simp_all
    then have "ntohs (load16 (?h ! 2) (?h ! 3)) = of_nat ?n" by (simp only: load_store16 swap16)
    then show ?thesis using assms(1) unat_of_nat_small [of ?n, where 'a = 16] by simp
  qed
  have a: "load32 (?h ! 16) (?h ! 17) (?h ! 18) (?h ! 19) = dip"
    by (simp add: ip_header_def store16_def store32_def load_store32)
  have b: "?h ! 0 = 0x45" "?h ! 6 = 0x20" "?h ! 7 = 0" "?h ! 9 = 6"
    by (simp_all add: ip_header_def store16_def)
  have "net_rx_ip raw dip (p[6 := 0x20]) = Inr (Ip_tcp ?h m)"
    unfolding p using l n a(1) b assms(3) by (intro rx_ip_tcp) simp_all
  then show ?thesis by blast
qed

lemma first_fragment_accepted_witness:
  "\<exists>hdr. net_rx_ip (\<lambda>h b. 0) 2 ((net_tx_ip (replicate 20 9) 1 [5, 6, 7] 2 6)[6 := 0x20]) = Inr (Ip_tcp hdr [5, 6, 7])"
  using first_fragment_accepted [of "[5, 6, 7]" _ "replicate 20 9" 1 2 "\<lambda>h b. 0"] by auto

text \<open>
  Of the interface requests, SIOCSIFNETMASK overwrites the address of the interface and leaves the
  netmask, and the two requests for the broadcast address do each other's work.
\<close>

theorem nif_ioctl_wrong_fields:
  "nif_ioctl n SIOCSIFNETMASK (If_addr a) = (0, n\<lparr>nif_ip := a\<rparr>, If_addr a) \<and>
   nif_ioctl n SIOCGIFBRDADDR (If_addr a) = (0, n\<lparr>nif_broadcast := a\<rparr>, If_addr a) \<and>
   nif_ioctl n SIOCSIFBRDADDR (If_addr a) = (0, n, If_addr (nif_broadcast n))"
  by (simp add: nif_ioctl_def if_addr_def)

end
