(* ===== verification/Tcp.thy ===== *)
theory Tcp
  imports Net Bitmap
begin

unbundle bit_operations_syntax

text \<open>
  kernel/net/socket/tcp.c. A \<open>tcp_t\<close> with its socket is a record, named by its index in the list of all
  of them; the lists of the code are lists of these indices from the head on. What the code sends
  and whom it unblocks is appended to the state in order. The mbufs of the queues are their bytes:
  in \<open>snd_que\<close> and \<open>una_que\<close> the payload with the \<open>id\<close> of the buffer, in \<open>buf_que\<close> the packet from the
  IP header on.
\<close>

section \<open>State\<close>

datatype state = CLOSED | SYN_SENT | SYN_RCVD | LISTEN | ESTABLISHED | CLOSE_WAIT | LAST_ACK
  | FIN_WAIT1 | FIN_WAIT2 | CLOSING | TIME_WAIT

definition ECONNRESET :: int where "ECONNRESET = 104"
definition ECONNREFUSED :: int where "ECONNREFUSED = 111"
definition EADDRINUSE :: int where "EADDRINUSE = 98"
definition EDESTADDRREQ :: int where "EDESTADDRREQ = 89"

record mbuf_tx =
  m_id :: u64
  m_data :: bytes

record mbuf_rx =
  r_id :: u64
  r_bytes :: bytes

record tcb =
  laddr :: u32
  raddr :: u32
  lport :: u16
  rport :: u16
  mss :: int
  nagle :: bool
  tstate :: state
  shut_rd :: bool
  shut_wr :: bool
  tc_errno :: int
  is_passive :: bool
  ptcp :: "nat option"
  pchd :: "nat list"
  acpt :: "nat list"
  backlog :: int
  backcnt :: int
  snd_iss :: u32
  snd_una :: u32
  snd_nxt :: u32
  snd_que :: "mbuf_tx list"
  una_que :: "mbuf_tx list"
  buf_que :: "mbuf_rx list"
  tmr_ack :: "u64 option"
  tmr_wait :: "u64 option"
  rcv_nxt :: u32
  rcv_irs :: u32
  rx_waiter :: int
  syn_waiter :: int

text \<open>A segment handed to \<open>net_tx_tcp\<close>: destination, header and payload.\<close>

record txseg =
  tx_dip :: u32
  tx_hdr :: tcphdr
  tx_data :: bytes

record tcpnet =
  tcbs :: "tcb list"
  list_common :: "nat list"
  list_listen :: "nat list"
  ports :: bitmap
  sent :: "txseg list"
  woken :: "int list"
  ktick :: u64
  nif0_ip :: u32

definition upd :: "nat \<Rightarrow> (tcb \<Rightarrow> tcb) \<Rightarrow> tcpnet \<Rightarrow> tcpnet" where
  "upd i f n = n\<lparr>tcbs := (tcbs n)[i := f (tcbs n ! i)]\<rparr>"

definition get :: "tcpnet \<Rightarrow> nat \<Rightarrow> tcb" where
  "get n i = tcbs n ! i"

definition wake_task :: "int \<Rightarrow> tcpnet \<Rightarrow> tcpnet" where
  "wake_task pid n = (if pid \<ge> 0 then n\<lparr>woken := woken n @ [pid]\<rparr> else n)"

text \<open>TRY\_UNBLK on the two waiters.\<close>

definition try_unblk_rx :: "nat \<Rightarrow> tcpnet \<Rightarrow> tcpnet" where
  "try_unblk_rx i n = upd i (\<lambda>t. t\<lparr>rx_waiter := - 1\<rparr>) (wake_task (rx_waiter (get n i)) n)"

definition try_unblk_syn :: "nat \<Rightarrow> tcpnet \<Rightarrow> tcpnet" where
  "try_unblk_syn i n = upd i (\<lambda>t. t\<lparr>syn_waiter := - 1\<rparr>) (wake_task (syn_waiter (get n i)) n)"

definition TCP_WINDOW :: u16 where "TCP_WINDOW = 65535"

section \<open>Sending\<close>

text \<open>The call of \<open>net_tx_tcp\<close> every sender of the file makes.\<close>

definition send :: "u32 \<Rightarrow> u16 \<Rightarrow> u16 \<Rightarrow> u32 \<Rightarrow> u32 \<Rightarrow> u8 \<Rightarrow> u16 \<Rightarrow> bytes \<Rightarrow> tcpnet \<Rightarrow> tcpnet" where
  "send dip sport dport seqnr acknr flgs window data n =
     n\<lparr>sent := sent n @ [\<lparr>tx_dip = dip,
        tx_hdr = \<lparr>h_sport = sport, h_dport = dport, h_seqnr = seqnr, h_acknr = acknr, h_flgs = flgs,
                  h_window = window, h_urgptr = 0\<rparr>,
        tx_data = data\<rparr>]\<rparr>"

definition new_iss :: "tcpnet \<Rightarrow> u32" where
  "new_iss n = ucast (ktick n) XOR 0x20250403"

definition tcp_tx_setup :: "nat \<Rightarrow> tcpnet \<Rightarrow> tcpnet" where
  "tcp_tx_setup i n =
     (let iss = new_iss n;
          n1 = upd i (\<lambda>t. t\<lparr>snd_iss := iss, snd_una := iss, snd_nxt := iss + 1, tstate := SYN_SENT\<rparr>) n;
          t = get n1 i
      in send (raddr t) (lport t) (rport t) iss 0 TCP_F_SYN TCP_WINDOW [] n1)"

definition tcp_tx_agree :: "nat \<Rightarrow> tcpnet \<Rightarrow> tcpnet" where
  "tcp_tx_agree i n =
     (let iss = new_iss n;
          n1 = upd i (\<lambda>t. t\<lparr>snd_iss := iss, snd_una := iss, snd_nxt := iss + 1, tstate := SYN_RCVD\<rparr>) n;
          t = get n1 i
      in send (raddr t) (lport t) (rport t) iss (rcv_nxt t) (TCP_F_SYN OR TCP_F_ACK) TCP_WINDOW [] n1)"

definition tcp_tx_seg :: "nat \<Rightarrow> mbuf_tx \<Rightarrow> tcpnet \<Rightarrow> mbuf_tx \<times> tcpnet" where
  "tcp_tx_seg i m n =
     (let t = get n i;
          n1 = send (raddr t) (lport t) (rport t) (snd_nxt t) (rcv_nxt t) TCP_F_ACK TCP_WINDOW (m_data m) n
      in (m\<lparr>m_id := ucast (snd_nxt t)\<rparr>,
          upd i (\<lambda>t. t\<lparr>snd_nxt := snd_nxt t + of_nat (length (m_data m))\<rparr>) n1))"

definition tcp_tx_fin :: "nat \<Rightarrow> tcpnet \<Rightarrow> tcpnet" where
  "tcp_tx_fin i n =
     (let t = get n i;
          n1 = send (raddr t) (lport t) (rport t) (snd_nxt t) (rcv_nxt t) (TCP_F_ACK OR TCP_F_FIN)
                 TCP_WINDOW [] n
      in upd i (\<lambda>t. t\<lparr>snd_nxt := snd_nxt t + 1\<rparr>) n1)"

definition tcp_tx_ack :: "nat \<Rightarrow> tcpnet \<Rightarrow> tcpnet" where
  "tcp_tx_ack i n =
     (let t = get n i;
          flgs = (if tstate t = SYN_RCVD then TCP_F_ACK OR TCP_F_SYN else TCP_F_ACK);
          seqnr = (if tstate t = SYN_RCVD then snd_iss t else snd_nxt t)
      in send (raddr t) (lport t) (rport t) seqnr (rcv_nxt t) flgs TCP_WINDOW [] n)"

text \<open>The delayed acknowledgement: the timer holds the tick at which it expires, or is dead.\<close>

definition tcp_tmr_dly :: "nat \<Rightarrow> tcpnet \<Rightarrow> tcpnet" where
  "tcp_tmr_dly i n = tcp_tx_ack i n"

definition tcp_tx_dly :: "nat \<Rightarrow> tcpnet \<Rightarrow> tcpnet" where
  "tcp_tx_dly i n = upd i (\<lambda>t. t\<lparr>tmr_ack := Some (ktick n + 50)\<rparr>) n"

definition tcp_rm_dly :: "nat \<Rightarrow> tcpnet \<Rightarrow> tcpnet" where
  "tcp_rm_dly i n = upd i (\<lambda>t. t\<lparr>tmr_ack := None\<rparr>) n"

definition tcp_go_dly :: "nat \<Rightarrow> tcpnet \<Rightarrow> tcpnet" where
  "tcp_go_dly i n =
     (if tmr_ack (get n i) = None then n else tcp_tmr_dly i (tcp_rm_dly i n))"

text \<open>A received segment, as \<open>tcpseg_t\<close> and its header.\<close>

record tcpseg =
  seg_seqnr :: u32
  seg_seqlen :: u32
  seg_sip :: u32
  seg_dip :: u32
  seg_hdr :: tcphdr
  seg_len :: u64
  seg_packet :: bytes

abbreviation f_fin :: "tcpseg \<Rightarrow> bool" where "f_fin s \<equiv> bit (h_flgs (seg_hdr s)) 0"
abbreviation f_syn :: "tcpseg \<Rightarrow> bool" where "f_syn s \<equiv> bit (h_flgs (seg_hdr s)) (Suc 0)"
abbreviation f_rst :: "tcpseg \<Rightarrow> bool" where "f_rst s \<equiv> bit (h_flgs (seg_hdr s)) 2"
abbreviation f_ack :: "tcpseg \<Rightarrow> bool" where "f_ack s \<equiv> bit (h_flgs (seg_hdr s)) 4"
abbreviation f_urg :: "tcpseg \<Rightarrow> bool" where "f_urg s \<equiv> bit (h_flgs (seg_hdr s)) 5"

definition tcp_tx_reset :: "tcpseg \<Rightarrow> tcpnet \<Rightarrow> tcpnet" where
  "tcp_tx_reset seg n =
     (let hdr = seg_hdr seg
      in if f_ack seg
         then send (seg_sip seg) (h_dport hdr) (h_sport hdr) (h_acknr hdr) 0 TCP_F_RST 0 [] n
         else send (seg_sip seg) (h_dport hdr) (h_sport hdr) 0 (seg_seqnr seg + seg_seqlen seg)
                (TCP_F_RST OR TCP_F_ACK) 0 [] n)"

definition tcp_exit_with :: "nat \<Rightarrow> int \<Rightarrow> tcpnet \<Rightarrow> tcpnet" where
  "tcp_exit_with i e n = try_unblk_syn i (try_unblk_rx i (upd i (\<lambda>t. t\<lparr>tc_errno := e\<rparr>) n))"

text \<open>
  \<open>tcp_makeseg\<close>. \<open>LIST_MF(&tcp->snd_que.prev)\<close> takes the list head itself for the list node of an mbuf;
  the \<open>dlen\<close> it reads lies 24 bytes before the head, where \<open>snd_iss\<close> and \<open>snd_una\<close> are. A value below
  the segment size makes the code write through that pointer. A segment size of zero makes the loop
  endless, so the loop runs on fuel.
\<close>

definition head_dlen :: "tcb \<Rightarrow> u64" where
  "head_dlen t = ucast (snd_iss t) OR push_bit 32 (ucast (snd_una t))"

fun tcp_makeseg :: "nat \<Rightarrow> tcb \<Rightarrow> bytes \<Rightarrow> tcb result option" where
  "tcp_makeseg fuel t data =
     (if data = [] then Some (Inr t)
      else case fuel of
        0 \<Rightarrow> None
      | Suc k \<Rightarrow>
          if nagle t \<and> snd_que t \<noteq> [] \<and> head_dlen t < word_of_int (mss t) then Some (Inl BadAccess)
          else (let cpy = min (length data) (unat (word_of_int (mss t) :: u64));
                    m = \<lparr>m_id = 0, m_data = take cpy data\<rparr>
                in tcp_makeseg k (t\<lparr>snd_que := snd_que t @ [m]\<rparr>) (drop cpy data)))"

declare tcp_makeseg.simps [simp del]

text \<open>\<open>tcp_do_xmit\<close>: the loop over \<open>snd_que\<close>, and what follows it.\<close>

fun xmit_loop :: "nat \<Rightarrow> mbuf_tx list \<Rightarrow> tcpnet \<Rightarrow> tcpnet" where
  "xmit_loop i [] n = upd i (\<lambda>t. t\<lparr>snd_que := []\<rparr>) n"
| "xmit_loop i (m # ms) n =
     (case tcp_tx_seg i m (upd i (\<lambda>t. t\<lparr>snd_que := ms\<rparr>) n) of
        (m', n1) \<Rightarrow>
          (let n2 = upd i (\<lambda>t. t\<lparr>una_que := una_que t @ [m']\<rparr>) n1
           in if nagle (get n2 i) \<and> m_data m \<noteq> [] then n2 else xmit_loop i ms n2))"

definition fin_state :: "state \<Rightarrow> state" where
  "fin_state s = (case s of ESTABLISHED \<Rightarrow> FIN_WAIT1 | CLOSE_WAIT \<Rightarrow> LAST_ACK | _ \<Rightarrow> s)"

definition xmit_fin :: "nat \<Rightarrow> tcpnet \<Rightarrow> tcpnet" where
  "xmit_fin i n =
     (let t = get n i
      in if shut_wr t \<and> snd_que t = [] \<and> una_que t = [] then
           tcp_tx_fin i (tcp_rm_dly i (upd i (\<lambda>t. t\<lparr>tstate := fin_state (tstate t)\<rparr>) n))
         else n)"

definition tcp_do_xmit :: "nat \<Rightarrow> tcpnet \<Rightarrow> tcpnet" where
  "tcp_do_xmit i n =
     (let t = get n i
      in if nagle t \<and> snd_una t < snd_nxt t - 1 then n
         else xmit_fin i (let n1 = tcp_rm_dly i n in xmit_loop i (snd_que (get n1 i)) n1))"

definition TCP_SEQ_LT :: "u32 \<Rightarrow> u32 \<Rightarrow> bool" where
  "TCP_SEQ_LT a b \<longleftrightarrow> sint (a - b) < 0"

definition TCP_SEQ_LE :: "u32 \<Rightarrow> u32 \<Rightarrow> bool" where
  "TCP_SEQ_LE a b \<longleftrightarrow> sint (a - b) \<le> 0"

definition tcp_x_ack :: "nat \<Rightarrow> tcpseg \<Rightarrow> tcpnet \<Rightarrow> tcpnet result" where
  "tcp_x_ack i seg n =
     (let t = get n i; acknr = h_acknr (seg_hdr seg)
      in if \<not> f_ack seg then Inl AssertFail
         else if TCP_SEQ_LE acknr (snd_una t) then Inr n
         else if TCP_SEQ_LT (snd_nxt t) acknr then Inr (tcp_tx_ack i n)
         else Inr (tcp_do_xmit i
                (upd i (\<lambda>t. t\<lparr>una_que := filter (\<lambda>m. \<not> m_id m < ucast acknr) (una_que t),
                              snd_una := acknr\<rparr>) n)))"

section \<open>Receiving\<close>

definition tcp_release :: "nat \<Rightarrow> tcpnet \<Rightarrow> tcpnet result" where
  "tcp_release i n =
     bind_result (bitmap_reset (ports n) (ucast (lport (get n i))))
       (\<lambda>b. Inr (n\<lparr>list_common := remove1 i (list_common n), list_listen := remove1 i (list_listen n),
                   ports := b\<rparr>))"

definition tcp_rx_sent :: "nat \<Rightarrow> tcpseg \<Rightarrow> tcpnet \<Rightarrow> tcpnet result" where
  "tcp_rx_sent i seg n =
     (let t = get n i; hdr = seg_hdr seg
      in if f_ack seg \<and> h_acknr hdr \<noteq> snd_nxt t then Inr (tcp_tx_reset seg n)
         else
           (let n1 = (if f_rst seg \<and> f_ack seg
                      then tcp_exit_with i (- ECONNRESET) (upd i (\<lambda>t. t\<lparr>tstate := CLOSED\<rparr>) n) else n)
            in if f_syn seg then
                 (let n2 = upd i (\<lambda>t. t\<lparr>rcv_irs := seg_seqnr seg, rcv_nxt := seg_seqnr seg + 1,
                                        snd_una := (if f_ack seg then h_acknr hdr else snd_una t)\<rparr>) n1;
                      t2 = get n2 i
                  in if sint (snd_una t2 - snd_iss t2) > 0
                     then Inr (try_unblk_syn i (tcp_tx_ack i (upd i (\<lambda>t. t\<lparr>tstate := ESTABLISHED\<rparr>) n2)))
                     else Inr (tcp_tx_ack i (upd i (\<lambda>t. t\<lparr>tstate := SYN_RCVD\<rparr>) n2)))
               else Inr n1))"

text \<open>The removal of a half-open connection from its parent and from the list of sockets.\<close>

definition drop_child :: "nat \<Rightarrow> tcpnet \<Rightarrow> tcpnet" where
  "drop_child i n =
     (let n1 = (case ptcp (get n i) of
                  Some p \<Rightarrow> upd p (\<lambda>t. t\<lparr>pchd := remove1 i (pchd t)\<rparr>) n | None \<Rightarrow> n)
      in n1\<lparr>list_common := remove1 i (list_common n1), list_listen := remove1 i (list_listen n1)\<rparr>)"

definition tcp_rx_rcvd :: "nat \<Rightarrow> tcpseg \<Rightarrow> tcpnet \<Rightarrow> tcpnet result" where
  "tcp_rx_rcvd i seg n =
     (let t = get n i; hdr = seg_hdr seg
      in if f_rst seg then
           (if is_passive t then Inr (drop_child i n) else Inr (tcp_exit_with i (- ECONNREFUSED) n))
         else if f_syn seg \<and> is_passive t then Inr (drop_child i n)
         else if f_ack seg then
           (if TCP_SEQ_LT (snd_una t) (h_acknr hdr) \<and> TCP_SEQ_LE (h_acknr hdr) (snd_nxt t) then
              (let n1 = upd i (\<lambda>t. t\<lparr>tstate := ESTABLISHED\<rparr>) n
               in case ptcp t of
                    Some p \<Rightarrow> Inr (try_unblk_syn p (upd p (\<lambda>t. t\<lparr>acpt := i # acpt t\<rparr>) n1))
                  | None \<Rightarrow> Inr (try_unblk_syn i n1))
            else Inr (tcp_tx_reset seg n))
         else Inr n)"

text \<open>\<open>tcp_rx_data\<close>; the comparisons are those of the code, on unsigned numbers.\<close>

definition tcp_rx_data :: "nat \<Rightarrow> tcpseg \<Rightarrow> tcpnet \<Rightarrow> tcpnet" where
  "tcp_rx_data i seg n =
     (let t = get n i
      in if rcv_nxt t < seg_seqnr seg then tcp_tx_ack i n
         else if rcv_nxt t > seg_seqnr seg then n
         else if seg_seqlen seg = 0 then n
         else
           (let n1 = upd i (\<lambda>t. t\<lparr>rcv_nxt := rcv_nxt t + seg_seqlen seg\<rparr>) (tcp_tx_dly i n)
            in if seg_len seg = 0 then n1
               else try_unblk_rx i
                      (upd i (\<lambda>t. t\<lparr>buf_que := buf_que t @
                           [\<lparr>r_id = ucast (seg_seqnr seg), r_bytes = seg_packet seg\<rparr>]\<rparr>) n1)))"

text \<open>
  \<open>tcp_rx_listen\<close>: \<open>raw\<close> is the contents of the new \<open>tcp_t\<close> as \<open>malloc\<close> returns it. A full or an empty
  backlog is answered with a reset, and the connection is created all the same.
\<close>

definition tcp_rx_listen :: "tcb \<Rightarrow> nat \<Rightarrow> tcpseg \<Rightarrow> tcpnet \<Rightarrow> tcpnet result" where
  "tcp_rx_listen raw i seg n =
     (let t = get n i; hdr = seg_hdr seg
      in if f_rst seg then Inr n
         else if f_ack seg then Inr (tcp_tx_reset seg n)
         else if f_syn seg then
           (let n1 = (if backcnt t + 1 = backlog t then upd i (\<lambda>t. t\<lparr>backcnt := backcnt t + 1\<rparr>) n
                      else tcp_tx_reset seg n);
                c = length (tcbs n1);
                conn = raw\<lparr>laddr := laddr t, raddr := seg_sip seg, lport := lport t, rport := h_sport hdr,
                           mss := mss t, nagle := True, is_passive := True, ptcp := Some i,
                           tstate := LISTEN, shut_rd := False, shut_wr := False, tc_errno := 0,
                           snd_que := [], una_que := [], buf_que := [], tmr_ack := None,
                           rx_waiter := - 1, syn_waiter := - 1,
                           rcv_nxt := seg_seqnr seg + 1, rcv_irs := seg_seqnr seg\<rparr>;
                n2 = n1\<lparr>tcbs := tcbs n1 @ [conn], list_common := c # list_common n1\<rparr>
            in Inr (tcp_tx_agree c (upd i (\<lambda>t. t\<lparr>pchd := c # pchd t\<rparr>) n2)))
         else Inr n)"

definition tcp_rx_established :: "nat \<Rightarrow> tcpseg \<Rightarrow> tcpnet \<Rightarrow> tcpnet result" where
  "tcp_rx_established i seg n =
     (if f_rst seg then Inr (tcp_exit_with i (- ECONNREFUSED) n)
      else if f_syn seg then Inr (tcp_tx_ack i n)
      else bind_result (if f_ack seg then tcp_x_ack i seg n else Inr n)
        (\<lambda>n1. if f_urg seg then Inl AssertFail
               else let n2 = tcp_rx_data i seg n1
                    in Inr (if f_fin seg then upd i (\<lambda>t. t\<lparr>tstate := CLOSE_WAIT\<rparr>) n2 else n2)))"

definition tcp_rx_closewait :: "nat \<Rightarrow> tcpseg \<Rightarrow> tcpnet \<Rightarrow> tcpnet result" where
  "tcp_rx_closewait i seg n =
     (let n1 = (if f_rst seg then tcp_exit_with i (- ECONNRESET) n else n)
      in if f_syn seg then Inr (tcp_tx_ack i n1)
         else bind_result (if f_ack seg then tcp_x_ack i seg n1 else Inr n1)
           (\<lambda>n2. if f_urg seg then Inl AssertFail else Inr n2))"

definition tcp_rx_lastack :: "nat \<Rightarrow> tcpseg \<Rightarrow> tcpnet \<Rightarrow> tcpnet result" where
  "tcp_rx_lastack i seg n =
     bind_result
       (if f_rst seg then tcp_release i (upd i (\<lambda>t. t\<lparr>tstate := CLOSED\<rparr>) n) else Inr n)
       (\<lambda>n1. if f_syn seg then Inr (tcp_tx_ack i n1)
              else let n2 = (if f_ack seg then upd i (\<lambda>t. t\<lparr>tstate := CLOSED\<rparr>) n1 else n1)
                   in if f_urg seg then Inl AssertFail else Inr n2)"

definition tcp_tmr_timewait :: "nat \<Rightarrow> tcpnet \<Rightarrow> tcpnet result" where
  "tcp_tmr_timewait i n = tcp_release i n"

definition tcp_do_timewait :: "nat \<Rightarrow> tcpnet \<Rightarrow> tcpnet" where
  "tcp_do_timewait i n = upd i (\<lambda>t. t\<lparr>tmr_wait := Some (ktick n + 120 * 1000)\<rparr>) n"

definition tcp_rx_finwait :: "nat \<Rightarrow> tcpseg \<Rightarrow> tcpnet \<Rightarrow> tcpnet result" where
  "tcp_rx_finwait i seg n =
     (if f_rst seg then Inr (tcp_exit_with i (- ECONNREFUSED) n)
      else if f_syn seg then Inr (tcp_tx_ack i n)
      else
        (let t = get n i;
             n1 = (if f_ack seg \<and> h_acknr (seg_hdr seg) = snd_nxt t \<and> tstate t = FIN_WAIT1
                   then upd i (\<lambda>t. t\<lparr>tstate := FIN_WAIT2\<rparr>) n else n)
         in if f_urg seg then Inl AssertFail
            else let n2 = tcp_rx_data i seg n1
                 in Inr (if f_fin seg
                         then upd i (\<lambda>t. t\<lparr>tstate := (case tstate t of FIN_WAIT1 \<Rightarrow> CLOSING
                                                    | FIN_WAIT2 \<Rightarrow> TIME_WAIT | s \<Rightarrow> s)\<rparr>) n2
                         else n2)))"

definition tcp_rx_closing :: "nat \<Rightarrow> tcpseg \<Rightarrow> tcpnet \<Rightarrow> tcpnet result" where
  "tcp_rx_closing i seg n =
     bind_result
       (if f_rst seg then tcp_release i (upd i (\<lambda>t. t\<lparr>tstate := CLOSED\<rparr>) n) else Inr n)
       (\<lambda>n1. if f_syn seg then Inr (tcp_tx_ack i n1)
              else let n2 = (if f_ack seg then tcp_do_timewait i (upd i (\<lambda>t. t\<lparr>tstate := TIME_WAIT\<rparr>) n1) else n1)
                   in if f_urg seg then Inl AssertFail else Inr n2)"

definition tcp_rx_timewait :: "nat \<Rightarrow> tcpseg \<Rightarrow> tcpnet \<Rightarrow> tcpnet result" where
  "tcp_rx_timewait i seg n =
     bind_result
       (if f_rst seg then tcp_release i (upd i (\<lambda>t. t\<lparr>tstate := CLOSED\<rparr>) n) else Inr n)
       (\<lambda>n1. if f_syn seg then Inr (tcp_tx_ack i n1)
              else let n2 = (if f_ack seg then tcp_do_timewait i (tcp_tx_ack i n1) else n1)
                   in if f_urg seg then Inl AssertFail
                      else Inr (if f_fin seg then tcp_do_timewait i n2 else n2))"

definition find_tcb :: "u32 \<Rightarrow> u32 \<Rightarrow> tcphdr \<Rightarrow> tcpnet \<Rightarrow> nat option" where
  "find_tcb sip dip hdr n =
     (case List.find (\<lambda>i. let t = get n i
          in ip_addr_cmp (raddr t) sip \<and> (ip_addr_isany (laddr t) \<or> ip_addr_cmp (laddr t) dip) \<and>
             rport t = h_sport hdr \<and> lport t = h_dport hdr) (list_common n) of
        Some i \<Rightarrow> Some i
      | None \<Rightarrow>
          List.find (\<lambda>i. let t = get n i
            in (ip_addr_isany (laddr t) \<or> ip_addr_cmp (laddr t) dip) \<and> lport t = h_dport hdr)
            (list_listen n))"

text \<open>
  \<open>sock_rx_tcp\<close>: \<open>iph\<close> and \<open>m\<close> are the bytes of the IP header and of what follows it. The result says
  whether the segment was taken.
\<close>

definition make_seg :: "bytes \<Rightarrow> bytes \<Rightarrow> tcpseg" where
  "make_seg iph m =
     (let hdr = tcp_parse m; fl = h_flgs hdr; len = of_nat (length m) - 20
      in \<lparr>seg_seqnr = h_seqnr hdr,
          seg_seqlen = ucast (len :: u64) + of_bool (bit fl (Suc 0)) + of_bool (bit fl 0),
          seg_sip = load32 (iph ! 12) (iph ! 13) (iph ! 14) (iph ! 15),
          seg_dip = load32 (iph ! 16) (iph ! 17) (iph ! 18) (iph ! 19),
          seg_hdr = hdr, seg_len = len, seg_packet = iph @ m\<rparr>)"

definition tcp_rx_state :: "tcb \<Rightarrow> nat \<Rightarrow> tcpseg \<Rightarrow> tcpnet \<Rightarrow> tcpnet result" where
  "tcp_rx_state raw i seg n =
     (case tstate (get n i) of
        SYN_SENT \<Rightarrow> tcp_rx_sent i seg n
      | SYN_RCVD \<Rightarrow> tcp_rx_rcvd i seg n
      | LISTEN \<Rightarrow> tcp_rx_listen raw i seg n
      | ESTABLISHED \<Rightarrow> tcp_rx_established i seg n
      | CLOSE_WAIT \<Rightarrow> tcp_rx_closewait i seg n
      | LAST_ACK \<Rightarrow> tcp_rx_lastack i seg n
      | FIN_WAIT1 \<Rightarrow> tcp_rx_finwait i seg n
      | FIN_WAIT2 \<Rightarrow> tcp_rx_finwait i seg n
      | CLOSING \<Rightarrow> tcp_rx_closing i seg n
      | TIME_WAIT \<Rightarrow> tcp_rx_timewait i seg n
      | CLOSED \<Rightarrow> Inr (tcp_tx_reset seg n))"

definition sock_rx_tcp :: "tcb \<Rightarrow> bytes \<Rightarrow> bytes \<Rightarrow> tcpnet \<Rightarrow> (bool \<times> tcpnet) result" where
  "sock_rx_tcp raw iph m n =
     (let sip = load32 (iph ! 12) (iph ! 13) (iph ! 14) (iph ! 15);
          dip = load32 (iph ! 16) (iph ! 17) (iph ! 18) (iph ! 19)
      in if net_cksum_tcp m sip dip \<noteq> 0 then Inr (False, n)
         else if length m < 20 then Inl BadAccess
         else let seg = make_seg iph m
              in bind_result
                   (case find_tcb sip dip (seg_hdr seg) n of
                      None \<Rightarrow> Inr (tcp_tx_reset seg n)
                    | Some i \<Rightarrow> tcp_rx_state raw i seg n)
                   (\<lambda>n1. Inr (True, n1)))"

section \<open>Socket operations\<close>

text \<open>
  A call that blocks gives up the processor in \<open>block_as\<close>; what happens to the network state until it
  resumes is the next of a list of wake-ups. With no wake-up left the outcome is \<open>Blocked\<close>.
\<close>

datatype 'a tcall = Returns "(tcpnet \<Rightarrow> tcpnet) list" tcpnet 'a | Blocked tcpnet | Faulty fault

definition ck_lport :: "nat \<Rightarrow> tcpnet \<Rightarrow> tcpnet result" where
  "ck_lport i n =
     (if lport (get n i) \<noteq> 0 then Inr n
      else bind_result (bitmap_find (ports n))
        (\<lambda>(port, b). if (ucast port :: u32) = - 1 then Inl Panic
                      else Inr ((upd i (\<lambda>t. t\<lparr>lport := ucast port\<rparr>) n)\<lparr>ports := b\<rparr>)))"

definition DEFMSS :: int where "DEFMSS = 536"

text \<open>\<open>raw\<close> is the contents of the new \<open>tcp_t\<close> as \<open>malloc\<close> returns it.\<close>

definition tcp_socket :: "tcb \<Rightarrow> tcpnet \<Rightarrow> nat \<times> tcpnet" where
  "tcp_socket raw n =
     (let i = length (tcbs n);
          t = raw\<lparr>lport := 0, rport := 0, laddr := 0, raddr := 0, mss := DEFMSS, nagle := True,
                  tstate := CLOSED, shut_rd := False, shut_wr := False, tc_errno := 0,
                  is_passive := False, ptcp := None, backlog := 0, backcnt := 0, rx_waiter := - 1,
                  syn_waiter := - 1, pchd := [], acpt := [], snd_que := [], una_que := [],
                  buf_que := [], tmr_ack := None, tmr_wait := None\<rparr>
      in (i, n\<lparr>tcbs := tcbs n @ [t], list_common := list_common n @ [i]\<rparr>))"

text \<open>The address is the port and the IP address of a \<open>sockaddr_in_t\<close>, in network order.\<close>

definition tcp_bind :: "nat \<Rightarrow> (u16 \<times> u32) option \<Rightarrow> tcpnet \<Rightarrow> (int \<times> tcpnet) result" where
  "tcp_bind i addr n =
     (case addr of
        None \<Rightarrow> Inr (- EDESTADDRREQ, n)
      | Some (nport, a) \<Rightarrow>
          (let port = ntohs nport;
               fin = (\<lambda>n. Inr (0, upd i (\<lambda>t. t\<lparr>laddr := (if ip_addr_isany a then nif0_ip n else a)\<rparr>) n))
           in if port \<noteq> 0 then
                bind_result (bitmap_test (ports n) (ucast port))
                  (\<lambda>used. if used then Inr (- EADDRINUSE, n) else fin (upd i (\<lambda>t. t\<lparr>lport := port\<rparr>) n))
              else bind_result (ck_lport i n) fin))"

definition tcp_listen :: "nat \<Rightarrow> int \<Rightarrow> tcpnet \<Rightarrow> tcpnet" where
  "tcp_listen i blog n =
     (let n1 = upd i (\<lambda>t. t\<lparr>tstate := LISTEN, backlog := blog\<rparr>) n
      in n1\<lparr>list_common := remove1 i (list_common n1), list_listen := i # remove1 i (list_listen n1)\<rparr>)"

text \<open>
  The loop of \<open>tcp_accept\<close>: the connections that are not established any more are dropped. A wake-up
  that leaves the list empty makes \<open>list_popback\<close> return the list head, which is not a connection.
\<close>

definition accept_wait :: "int \<Rightarrow> nat \<Rightarrow> (tcpnet \<Rightarrow> tcpnet) list \<Rightarrow> tcpnet \<Rightarrow> unit tcall" where
  "accept_wait pid i ws n =
     (if acpt (get n i) \<noteq> [] then Returns ws n ()
      else if syn_waiter (get n i) \<noteq> - 1 then Faulty AssertFail
      else let n1 = upd i (\<lambda>t. t\<lparr>syn_waiter := pid\<rparr>) n
           in case ws of
                [] \<Rightarrow> Blocked n1
              | w # ws' \<Rightarrow> Returns ws' (upd i (\<lambda>t. t\<lparr>syn_waiter := - 1\<rparr>) (w n1)) ())"

primrec accept_loop :: "nat \<Rightarrow> int \<Rightarrow> nat \<Rightarrow> (tcpnet \<Rightarrow> tcpnet) list \<Rightarrow> tcpnet \<Rightarrow> nat tcall option" where
  "accept_loop 0 pid i ws n = None"
| "accept_loop (Suc fuel) pid i ws n =
     (case accept_wait pid i ws n of
        Blocked n1 \<Rightarrow> Some (Blocked n1)
      | Faulty e \<Rightarrow> Some (Faulty e)
      | Returns ws1 n1 _ \<Rightarrow>
          if acpt (get n1 i) = [] then Some (Faulty BadAccess)
          else (let c = last (acpt (get n1 i));
                    n2 = upd i (\<lambda>t. t\<lparr>acpt := butlast (acpt t)\<rparr>) n1
                in if tstate (get n2 c) = ESTABLISHED then Some (Returns ws1 n2 c)
                   else accept_loop fuel pid i ws1 n2))"

text \<open>
  \<open>tcp_accept\<close>: \<open>makefd\<close> stands for \<open>socket_makefd\<close>. The address it reports has the port of the
  listening socket's peer.
\<close>

definition tcp_accept ::
  "nat \<Rightarrow> (nat \<Rightarrow> int) \<Rightarrow> int \<Rightarrow> nat \<Rightarrow> bool \<Rightarrow> bool \<Rightarrow> (tcpnet \<Rightarrow> tcpnet) list \<Rightarrow> tcpnet \<Rightarrow>
     (int \<times> (u16 \<times> u32) option) tcall option"
where
  "tcp_accept fuel makefd pid i has_addr has_len ws n =
     map_option (\<lambda>r. case r of
         Blocked n1 \<Rightarrow> Blocked n1
       | Faulty e \<Rightarrow> Faulty e
       | Returns ws1 n1 c \<Rightarrow>
           if has_addr \<noteq> has_len then Returns ws1 n1 (- EINVAL, None)
           else (let a = (if has_addr then Some (rport (get n1 i), raddr (get n1 c)) else None);
                     fd = makefd c
                 in if fd < 0 then Returns ws1 (upd i (\<lambda>t. t\<lparr>acpt := acpt t @ [c]\<rparr>) n1) (fd, a)
                    else Returns ws1 (upd i (\<lambda>t. t\<lparr>backcnt := backcnt t - 1\<rparr>) n1) (fd, a)))
       (accept_loop fuel pid i ws n)"

definition tcp_connect ::
  "int \<Rightarrow> nat \<Rightarrow> u16 \<times> u32 \<Rightarrow> nat \<Rightarrow> (tcpnet \<Rightarrow> tcpnet) list \<Rightarrow> tcpnet \<Rightarrow> int tcall"
where
  "tcp_connect pid i addr len ws n =
     (if rport (get n i) \<noteq> 0 then Returns ws n (- EINVAL)
      else if len < 16 then Returns ws n (- EINVAL)
      else if fst addr = 0 then Returns ws n (- EINVAL)
      else case ck_lport i (upd i (\<lambda>t. t\<lparr>raddr := snd addr, rport := ntohs (fst addr)\<rparr>) n) of
             Inl e \<Rightarrow> Faulty e
           | Inr n1 \<Rightarrow>
               (let n2 = tcp_tx_setup i n1
                in if syn_waiter (get n2 i) \<noteq> - 1 then Faulty AssertFail
                   else let n3 = upd i (\<lambda>t. t\<lparr>syn_waiter := pid\<rparr>) n2
                        in case ws of
                             [] \<Rightarrow> Blocked n3
                           | w # ws' \<Rightarrow>
                               (let n4 = upd i (\<lambda>t. t\<lparr>syn_waiter := - 1\<rparr>) (w n3)
                                in Returns ws' n4 (tc_errno (get n4 i)))))"

definition tcp_shutdown :: "nat \<Rightarrow> int \<Rightarrow> tcpnet \<Rightarrow> int \<times> tcpnet" where
  "tcp_shutdown i how n =
     (if how = 0 then (0, upd i (\<lambda>t. t\<lparr>shut_rd := True\<rparr>) n)
      else if how = 1 then (0, upd i (\<lambda>t. t\<lparr>shut_wr := True\<rparr>) n)
      else if how = 2 then (0, upd i (\<lambda>t. t\<lparr>shut_rd := True, shut_wr := True\<rparr>) n)
      else (- EINVAL, n))"

text \<open>\<open>tcp_sendmsg\<close>, whose return value the code never sets.\<close>

definition tcp_sendmsg :: "nat \<Rightarrow> nat \<Rightarrow> bytes \<Rightarrow> tcpnet \<Rightarrow> tcpnet result option" where
  "tcp_sendmsg fuel i data n =
     map_option (\<lambda>r. bind_result r (\<lambda>t. Inr (tcp_do_xmit i (upd i (\<lambda>_. t) n))))
       (tcp_makeseg fuel (get n i) data)"

text \<open>
  The loop of \<open>tcp_recvmsg\<close>: \<open>left\<close> is the room in the caller's buffer, \<open>len\<close> its size, \<open>got\<close> what was
  copied. Each pass takes an IP and a TCP header off the first packet, also off one a previous call
  left partly read. A packet shorter than the headers makes the length wrap around.
\<close>

definition recv_wait :: "int \<Rightarrow> nat \<Rightarrow> (tcpnet \<Rightarrow> tcpnet) list \<Rightarrow> tcpnet \<Rightarrow> unit tcall" where
  "recv_wait pid i ws n =
     (if buf_que (get n i) \<noteq> [] then Returns ws n ()
      else if rx_waiter (get n i) \<noteq> - 1 then Faulty AssertFail
      else let n1 = upd i (\<lambda>t. t\<lparr>rx_waiter := pid\<rparr>) n
           in case ws of
                [] \<Rightarrow> Blocked n1
              | w # ws' \<Rightarrow> Returns ws' (upd i (\<lambda>t. t\<lparr>rx_waiter := - 1\<rparr>) (w n1)) ())"

text \<open>The copy of one pass: whether the packet has the push flag, the bytes, and the state.\<close>

definition recv_copy :: "nat \<Rightarrow> nat \<Rightarrow> tcpnet \<Rightarrow> (bool \<times> bytes \<times> tcpnet) result" where
  "recv_copy i left n =
     (case buf_que (get n i) of
        [] \<Rightarrow> Inl BadAccess
      | m # q \<Rightarrow>
          if length (r_bytes m) < 40 then Inl BadAccess
          else (let pay = drop 40 (r_bytes m); cpy = min left (length pay); rest = drop cpy pay
                in Inr (bit (r_bytes m ! 33) 3, take cpy pay,
                        upd i (\<lambda>t. t\<lparr>buf_que := (if rest = [] then q else m\<lparr>r_bytes := rest\<rparr> # q)\<rparr>) n)))"

primrec recv_loop ::
  "nat \<Rightarrow> int \<Rightarrow> nat \<Rightarrow> nat \<Rightarrow> nat \<Rightarrow> bytes \<Rightarrow> (tcpnet \<Rightarrow> tcpnet) list \<Rightarrow> tcpnet \<Rightarrow> (int \<times> bytes) tcall option"
where
  "recv_loop 0 pid i len left got ws n = None"
| "recv_loop (Suc fuel) pid i len left got ws n =
     (if len = 0 then Some (Returns ws n (int (len - left), got))
      else case recv_wait pid i ws n of
        Blocked n1 \<Rightarrow> Some (Blocked n1)
      | Faulty e \<Rightarrow> Some (Faulty e)
      | Returns ws1 n1 _ \<Rightarrow>
          if tc_errno (get n1 i) < 0 then Some (Returns ws1 n1 (tc_errno (get n1 i), got))
          else case recv_copy i left n1 of
            Inl e \<Rightarrow> Some (Faulty e)
          | Inr (psh, bs, n2) \<Rightarrow>
              if psh then Some (Returns ws1 n2 (int (len - (left - length bs)), got @ bs))
              else recv_loop fuel pid i len (left - length bs) (got @ bs) ws1 n2)"

definition tcp_recvmsg ::
  "nat \<Rightarrow> int \<Rightarrow> nat \<Rightarrow> nat \<Rightarrow> (tcpnet \<Rightarrow> tcpnet) list \<Rightarrow> tcpnet \<Rightarrow> (int \<times> bytes) tcall option"
where
  "tcp_recvmsg fuel pid i len ws n = recv_loop fuel pid i len len [] ws n"

text \<open>\<open>sock_tcp_init\<close>: \<open>buf\<close> is the buffer \<open>bitmap_init\<close> allocates for the 65536 ports.\<close>

definition sock_tcp_init :: "bytes \<Rightarrow> tcpnet \<Rightarrow> tcpnet result" where
  "sock_tcp_init buf n =
     bind_result (bitmap_set \<lparr>bmap = buf, bsiz = 65536\<rparr> 0) (\<lambda>b. Inr (n\<lparr>ports := b\<rparr>))"

end
