(* ===== verification/Tcp_Props.thy ===== *)
theory Tcp_Props
  imports Tcp Transition
begin

text \<open>
  Properties of the TCP model: the transitions of the state machine, the delivery of a byte stream,
  the handshake between two hosts, and what the code does with resets, urgent data and its backlog.
\<close>

section \<open>A concrete network\<close>

definition blank_tcb :: tcb where
  "blank_tcb = \<lparr>laddr = 0, raddr = 0, lport = 0, rport = 0, mss = 0, nagle = False, tstate = CLOSED,
     shut_rd = False, shut_wr = False, tc_errno = 0, is_passive = False, ptcp = None, pchd = [], acpt = [],
     backlog = 0, backcnt = 0, snd_iss = 0, snd_una = 0, snd_nxt = 0, snd_que = [], una_que = [],
     buf_que = [], tmr_ack = None, tmr_wait = None, rcv_nxt = 0, rcv_irs = 0, rx_waiter = - 1,
     syn_waiter = - 1\<rparr>"

text \<open>A host with the address \<open>ip\<close> and one TCP control block, in the given lists.\<close>

definition host :: "u32 \<Rightarrow> u64 \<Rightarrow> tcb \<Rightarrow> nat list \<Rightarrow> nat list \<Rightarrow> tcpnet" where
  "host ip tick t common listen =
     \<lparr>tcbs = [t], list_common = common, list_listen = listen,
      ports = \<lparr>bmap = 1 # replicate 8191 0, bsiz = 65536\<rparr>, sent = [], woken = [], ktick = tick,
      nif0_ip = ip\<rparr>"

section \<open>State access\<close>

lemma get_upd: "i < length (tcbs n) \<Longrightarrow> get (upd i f n) j = (if j = i then f (get n i) else get n j)"
  by (simp add: get_def upd_def)

lemma upd_simps [simp]:
  "length (tcbs (upd i f n)) = length (tcbs n)" "list_common (upd i f n) = list_common n"
  "list_listen (upd i f n) = list_listen n" "ports (upd i f n) = ports n" "sent (upd i f n) = sent n"
  "woken (upd i f n) = woken n" "ktick (upd i f n) = ktick n" "nif0_ip (upd i f n) = nif0_ip n"
  by (simp_all add: upd_def)

lemma send_simps [simp]:
  "tcbs (send d sp dp sq ak fl w b n) = tcbs n" "get (send d sp dp sq ak fl w b n) = get n"
  "list_common (send d sp dp sq ak fl w b n) = list_common n"
  "list_listen (send d sp dp sq ak fl w b n) = list_listen n" "ports (send d sp dp sq ak fl w b n) = ports n"
  "ktick (send d sp dp sq ak fl w b n) = ktick n" "woken (send d sp dp sq ak fl w b n) = woken n"
  by (simp_all add: send_def get_def fun_eq_iff)

lemma wake_simps [simp]:
  "tcbs (wake_task p n) = tcbs n" "get (wake_task p n) = get n" "list_common (wake_task p n) = list_common n"
  "list_listen (wake_task p n) = list_listen n" "ports (wake_task p n) = ports n" "sent (wake_task p n) = sent n"
  by (simp_all add: wake_task_def get_def fun_eq_iff)

lemma sent_send: "sent (send d sp dp sq ak fl w b n) = sent n @ [\<lparr>tx_dip = d,
    tx_hdr = \<lparr>h_sport = sp, h_dport = dp, h_seqnr = sq, h_acknr = ak, h_flgs = fl, h_window = w, h_urgptr = 0\<rparr>,
    tx_data = b\<rparr>]"
  by (simp add: send_def)

lemma woken_wake: "woken (wake_task p n) = (if 0 \<le> p then woken n @ [p] else woken n)"
  by (simp add: wake_task_def)

section \<open>The state machine\<close>

text \<open>The transitions a received segment may cause.\<close>

definition tcp_edge :: "state \<Rightarrow> state \<Rightarrow> bool" where
  "tcp_edge s s' \<longleftrightarrow> s' = s \<or> s' \<in>
     (case s of
        SYN_SENT \<Rightarrow> {ESTABLISHED, SYN_RCVD, CLOSED}
      | SYN_RCVD \<Rightarrow> {ESTABLISHED}
      | ESTABLISHED \<Rightarrow> {CLOSE_WAIT, FIN_WAIT1}
      | CLOSE_WAIT \<Rightarrow> {LAST_ACK}
      | LAST_ACK \<Rightarrow> {CLOSED}
      | FIN_WAIT1 \<Rightarrow> {FIN_WAIT2, CLOSING, TIME_WAIT}
      | FIN_WAIT2 \<Rightarrow> {TIME_WAIT}
      | CLOSING \<Rightarrow> {TIME_WAIT, CLOSED}
      | TIME_WAIT \<Rightarrow> {CLOSED}
      | CLOSED \<Rightarrow> {}
      | LISTEN \<Rightarrow> {})"

text \<open>The states of all connections; everything but a change of \<open>state\<close> leaves them alone.\<close>

definition sts :: "tcpnet \<Rightarrow> state list" where
  "sts n = map tstate (tcbs n)"

lemma length_sts [simp]: "length (sts n) = length (tcbs n)"
  by (simp add: sts_def)

lemma sts_nth: "i < length (tcbs n) \<Longrightarrow> tstate (get n i) = sts n ! i"
  by (simp add: sts_def get_def)

lemma sts_upd_same [simp]: "(\<And>t. tstate (f t) = tstate t) \<Longrightarrow> sts (upd i f n) = sts n"
  by (cases "i < length (tcbs n)")
    (simp_all add: sts_def upd_def map_update list_update_beyond list_update_same_conv)

lemma sts_upd_set [simp]: "sts (upd i (\<lambda>t. t\<lparr>tstate := s t\<rparr>) n) = (sts n)[i := s (tcbs n ! i)]"
  by (simp add: sts_def upd_def map_update)

lemma sts_more [simp]:
  "sts (n\<lparr>list_common := a\<rparr>) = sts n" "sts (n\<lparr>list_listen := a\<rparr>) = sts n" "sts (n\<lparr>ports := b\<rparr>) = sts n"
  "sts (send d sp dp sq ak fl w dt n) = sts n" "sts (wake_task p n) = sts n"
  by (simp_all add: sts_def)

lemma sts_prims [simp]:
  "sts (try_unblk_rx i n) = sts n" "sts (try_unblk_syn i n) = sts n" "sts (tcp_tx_ack i n) = sts n"
  "sts (tcp_tx_reset seg n) = sts n" "sts (tcp_exit_with i e n) = sts n" "sts (tcp_rm_dly i n) = sts n"
  "sts (tcp_tx_dly i n) = sts n" "sts (tcp_tx_fin i n) = sts n" "sts (tcp_do_timewait i n) = sts n"
  "sts (snd (tcp_tx_seg i m n)) = sts n" "sts (drop_child i n) = sts n"
  by (simp_all add: try_unblk_rx_def try_unblk_syn_def tcp_tx_ack_def tcp_tx_reset_def tcp_exit_with_def
      tcp_rm_dly_def tcp_tx_dly_def tcp_tx_fin_def tcp_do_timewait_def tcp_tx_seg_def drop_child_def Let_def
      split: option.split)

lemma sts_xmit_loop [simp]: "sts (xmit_loop i ms n) = sts n"
proof (induction ms arbitrary: n)
  case (Cons m ms)
  obtain m' n1 where s: "tcp_tx_seg i m (upd i (\<lambda>t. t\<lparr>snd_que := ms\<rparr>) n) = (m', n1)"
    by (cases "tcp_tx_seg i m (upd i (\<lambda>t. t\<lparr>snd_que := ms\<rparr>) n)")
  then have "sts n1 = sts n" using sts_prims(10) [of i m "upd i (\<lambda>t. t\<lparr>snd_que := ms\<rparr>) n"] by simp
  then show ?case using s Cons.IH by (simp add: Let_def)
qed simp

lemma sts_rx_data [simp]: "sts (tcp_rx_data i seg n) = sts n"
  by (simp add: tcp_rx_data_def Let_def)

lemma sts_do_xmit:
  "i < length (tcbs n) \<Longrightarrow> sts (tcp_do_xmit i n) \<in> {sts n, (sts n)[i := fin_state (sts n ! i)]}"
proof -
  assume i: "i < length (tcbs n)"
  let ?n1 = "xmit_loop i (snd_que (get (tcp_rm_dly i n) i)) (tcp_rm_dly i n)"
  have l: "length (tcbs ?n1) = length (tcbs n)" using length_sts [of ?n1] by simp
  have "tstate (tcbs ?n1 ! i) = sts n ! i" using i l sts_nth [of i ?n1] by (simp add: get_def)
  then show ?thesis unfolding tcp_do_xmit_def Let_def xmit_fin_def by auto
qed

lemma sts_x_ack:
  "i < length (tcbs n) \<Longrightarrow> tcp_x_ack i seg n = Inr n' \<Longrightarrow> sts n' \<in> {sts n, (sts n)[i := fin_state (sts n ! i)]}"
  using sts_do_xmit [of i "upd i (\<lambda>t. t\<lparr>una_que := filter (\<lambda>m. \<not> m_id m < ucast (h_acknr (seg_hdr seg))) (una_que t),
      snd_una := h_acknr (seg_hdr seg)\<rparr>) n"]
  by (auto simp: tcp_x_ack_def Let_def split: if_splits)

lemma sts_release: "tcp_release i n = Inr n' \<Longrightarrow> sts n' = sts n"
  by (auto simp: tcp_release_def bind_result_eq_Inr)

section \<open>Transitions of each handler\<close>

lemma edge_refl [simp]: "tcp_edge s s"
  by (simp add: tcp_edge_def)

text \<open>\<open>tcp_rx_state\<close> moves the connection it is called for along an edge, and a new one may appear.\<close>

definition steps :: "nat \<Rightarrow> state list \<Rightarrow> state list \<Rightarrow> bool" where
  "steps i ss ss' \<longleftrightarrow> (\<exists>s'. tcp_edge (ss ! i) s' \<and> ss' = ss[i := s']) \<or>
     (ss ! i = LISTEN \<and> ss' = ss @ [SYN_RCVD])"

lemma steps_same: "steps i ss ss"
  unfolding steps_def by (rule disjI1, rule exI [of _ "ss ! i"]) simp

lemma steps_edge: "tcp_edge (ss ! i) s \<Longrightarrow> steps i ss (ss[i := s])"
  by (auto simp: steps_def)

lemma rx_sent_steps:
  "i < length (tcbs n) \<Longrightarrow> tstate (get n i) = SYN_SENT \<Longrightarrow> tcp_rx_sent i seg n = Inr n' \<Longrightarrow> steps i (sts n) (sts n')"
  by (auto simp: tcp_rx_sent_def Let_def sts_nth tcp_edge_def split: if_splits intro!: steps_same steps_edge)

lemma rx_rcvd_steps:
  "i < length (tcbs n) \<Longrightarrow> tstate (get n i) = SYN_RCVD \<Longrightarrow> tcp_rx_rcvd i seg n = Inr n' \<Longrightarrow> steps i (sts n) (sts n')"
  by (auto simp: tcp_rx_rcvd_def Let_def sts_nth tcp_edge_def split: if_splits option.splits
      intro!: steps_same steps_edge)

lemma rx_established_steps:
  assumes "i < length (tcbs n)" "tstate (get n i) = ESTABLISHED" "tcp_rx_established i seg n = Inr n'"
  shows "steps i (sts n) (sts n')"
proof (cases "f_rst seg \<or> f_syn seg")
  case True
  then show ?thesis
    using assms(3) by (cases "f_rst seg") (auto simp: tcp_rx_established_def intro!: steps_same)
next
  case False
  then obtain n1 where n1: "(if f_ack seg then tcp_x_ack i seg n else Inr n) = Inr n1"
      and n': "n' = (if f_fin seg then upd i (\<lambda>t. t\<lparr>tstate := CLOSE_WAIT\<rparr>) (tcp_rx_data i seg n1)
                     else tcp_rx_data i seg n1)"
    using assms(3) by (auto simp: tcp_rx_established_def bind_result_eq_Inr Let_def split: if_splits)
  have "sts n1 \<in> {sts n, (sts n)[i := FIN_WAIT1]}"
    using n1 sts_x_ack [OF assms(1), of seg n1] sts_nth [OF assms(1)] assms(2)
    by (auto simp: fin_state_def split: if_splits)
  then show ?thesis
    using sts_nth [OF assms(1)] assms(2) by (auto simp: n' tcp_edge_def intro!: steps_same steps_edge)
qed

lemma rx_closewait_steps:
  assumes "i < length (tcbs n)" "tstate (get n i) = CLOSE_WAIT" "tcp_rx_closewait i seg n = Inr n'"
  shows "steps i (sts n) (sts n')"
proof -
  let ?n1 = "if f_rst seg then tcp_exit_with i (- ECONNRESET) n else n"
  have s1: "sts ?n1 = sts n" by simp
  then have l: "i < length (tcbs ?n1)" using assms(1) length_sts by metis
  have "sts n' = sts n \<or> (\<exists>n2. tcp_x_ack i seg ?n1 = Inr n2 \<and> n' = n2)"
    using assms(3) s1 by (auto simp: tcp_rx_closewait_def Let_def bind_result_eq_Inr split: if_splits)
  then have "sts n' \<in> {sts n, (sts n)[i := LAST_ACK]}"
    using sts_x_ack [OF l, of seg n'] s1 sts_nth [OF assms(1)] assms(2) by (auto simp: fin_state_def)
  then show ?thesis using sts_nth [OF assms(1)] assms(2) by (auto simp: tcp_edge_def intro!: steps_same steps_edge)
qed

lemma rx_finwait_steps:
  assumes "i < length (tcbs n)" "tstate (get n i) \<in> {FIN_WAIT1, FIN_WAIT2}" "tcp_rx_finwait i seg n = Inr n'"
  shows "steps i (sts n) (sts n')"
proof -
  have t: "tstate (tcbs n ! i) = sts n ! i" "sts n ! i \<in> {FIN_WAIT1, FIN_WAIT2}"
    using sts_nth [OF assms(1)] assms(2) by (simp_all add: get_def)
  have u: "tstate (tcbs m ! i) = sts m ! i" if "length (tcbs m) = length (tcbs n)" for m
    using assms(1) that by (simp add: sts_def)
  have l: "length (tcbs (tcp_rx_data i seg m)) = length (tcbs m)" for m
    using length_sts [of "tcp_rx_data i seg m"] by simp
  show ?thesis
    using assms(1,3) t
    by (auto simp: tcp_rx_finwait_def Let_def tcp_edge_def u l get_def split: if_splits state.splits
        intro!: steps_same steps_edge)
qed

lemma rx_final_steps:
  assumes "i < length (tcbs n)"
  shows "tstate (get n i) = LAST_ACK \<Longrightarrow> tcp_rx_lastack i seg n = Inr n' \<Longrightarrow> steps i (sts n) (sts n')"
    "tstate (get n i) = CLOSING \<Longrightarrow> tcp_rx_closing i seg n = Inr n' \<Longrightarrow> steps i (sts n) (sts n')"
    "tstate (get n i) = TIME_WAIT \<Longrightarrow> tcp_rx_timewait i seg n = Inr n' \<Longrightarrow> steps i (sts n) (sts n')"
  using assms
  by (auto simp: tcp_rx_lastack_def tcp_rx_closing_def tcp_rx_timewait_def Let_def bind_result_eq_Inr sts_nth
      tcp_edge_def dest!: sts_release split: if_splits intro!: steps_same steps_edge)

lemma rx_listen_steps:
  assumes "i < length (tcbs n)" "tstate (get n i) = LISTEN" "tcp_rx_listen raw i seg n = Inr n'"
  shows "steps i (sts n) (sts n')"
proof -
  have s: "sts (m\<lparr>tcbs := tcbs m @ [c]\<rparr>) = sts m @ [tstate c]" for m c
    by (simp add: sts_def)
  have e: "(sts n @ [x])[length (tcbs n) := y] = sts n @ [y]" for x y
    by (simp add: list_update_append)
  have a: "sts (tcp_tx_agree c m) = (sts m)[c := SYN_RCVD]" for c m
  proof -
    have "sts (upd c (\<lambda>t. t\<lparr>snd_iss := a, snd_una := a, snd_nxt := b, tstate := SYN_RCVD\<rparr>) m) = (sts m)[c := SYN_RCVD]" for a b
      by (simp add: sts_def upd_def map_update)
    then show ?thesis by (simp add: tcp_tx_agree_def Let_def)
  qed
  have l: "length (tcbs (tcp_tx_reset seg n)) = length (tcbs n)"
    using length_sts [of "tcp_tx_reset seg n"] by simp
  have "sts n' \<in> {sts n, sts n @ [SYN_RCVD]}"
    using assms(3) by (auto simp: tcp_rx_listen_def Let_def a s l e split: if_splits)
  moreover have "steps i (sts n) (sts n @ [SYN_RCVD])"
    using assms(1,2) sts_nth [OF assms(1)] by (simp add: steps_def)
  ultimately show ?thesis using steps_same [of i "sts n"] by auto
qed

lemma rx_state_steps:
  assumes "i < length (tcbs n)" "tcp_rx_state raw i seg n = Inr n'"
  shows "steps i (sts n) (sts n')"
  using assms rx_sent_steps [of i n seg n'] rx_rcvd_steps [of i n seg n'] rx_listen_steps [of i n raw seg n']
    rx_established_steps [of i n seg n'] rx_closewait_steps [of i n seg n'] rx_finwait_steps [of i n seg n']
    rx_final_steps [of i n seg n']
  by (cases "tstate (get n i)") (auto simp: tcp_rx_state_def intro: steps_same)

lemma find_tcb_in: "find_tcb sip dip hdr n = Some i \<Longrightarrow> i \<in> set (list_common n) \<union> set (list_listen n)"
  by (auto simp: find_tcb_def find_Some_iff split: option.splits)

text \<open>
  C30. A received segment moves at most one connection, and only along an edge of the TCP state
  diagram as the code draws it; a connection that appears is in SYN\_RCVD and was asked for at a
  listening socket.
\<close>

theorem tcp_transitions:
  assumes "set (list_common n) \<union> set (list_listen n) \<subseteq> {..<length (tcbs n)}"
    "sock_rx_tcp raw iph m n = Inr (taken, n')"
  shows "\<exists>i. (\<forall>j<length (tcbs n). j \<noteq> i \<longrightarrow> tstate (get n' j) = tstate (get n j)) \<and>
     (i < length (tcbs n) \<longrightarrow> tcp_edge (tstate (get n i)) (tstate (get n' i))) \<and>
     (length (tcbs n') = length (tcbs n) \<or>
      (i < length (tcbs n) \<and> tstate (get n i) = LISTEN \<and> length (tcbs n') = Suc (length (tcbs n)) \<and>
       tstate (get n' (length (tcbs n))) = SYN_RCVD))"
proof -
  have "sts n' = sts n \<or> (\<exists>i<length (tcbs n). steps i (sts n) (sts n'))"
  proof (cases "find_tcb (load32 (iph ! 12) (iph ! 13) (iph ! 14) (iph ! 15))
      (load32 (iph ! 16) (iph ! 17) (iph ! 18) (iph ! 19)) (seg_hdr (make_seg iph m)) n")
    case None
    then show ?thesis
      using assms(2) by (auto simp: sock_rx_tcp_def Let_def split: if_splits)
  next
    case (Some i)
    then have "i < length (tcbs n)" using find_tcb_in [OF Some] assms(1) by auto
    moreover have "n' = n \<or> tcp_rx_state raw i (make_seg iph m) n = Inr n'"
      using assms(2) Some by (auto simp: sock_rx_tcp_def Let_def bind_result_eq_Inr split: if_splits)
    ultimately show ?thesis using rx_state_steps by auto
  qed
  then show ?thesis
  proof
    assume s: "sts n' = sts n"
    then have l: "length (tcbs n') = length (tcbs n)" using length_sts by metis
    then have "tstate (get n' j) = tstate (get n j)" if "j < length (tcbs n)" for j
      using that s sts_nth by metis
    then show ?thesis using l by (intro exI [of _ "length (tcbs n)"]) auto
  next
    assume "\<exists>i<length (tcbs n). steps i (sts n) (sts n')"
    then obtain i where i: "i < length (tcbs n)" and s: "steps i (sts n) (sts n')" by blast
    from s show ?thesis
      unfolding steps_def
    proof
      assume "\<exists>s'. tcp_edge (sts n ! i) s' \<and> sts n' = (sts n)[i := s']"
      then obtain s' where e: "tcp_edge (sts n ! i) s'" "sts n' = (sts n)[i := s']" by blast
      then have l: "length (tcbs n') = length (tcbs n)" using length_sts length_list_update by metis
      then have "tstate (get n' j) = (if j = i then s' else tstate (get n j))" if "j < length (tcbs n)" for j
        using that e(2) by (simp add: sts_nth)
      then show ?thesis using l e i by (intro exI [of _ i]) (simp add: sts_nth)
    next
      assume e: "sts n ! i = LISTEN \<and> sts n' = sts n @ [SYN_RCVD]"
      then have l: "length (tcbs n') = Suc (length (tcbs n))"
        using length_sts by (metis length_append_singleton)
      then have "tstate (get n' j) = tstate (get n j)" if "j < length (tcbs n)" for j
        using that e by (simp add: sts_nth nth_append)
      moreover have "tstate (get n' (length (tcbs n))) = SYN_RCVD"
        using l e by (simp add: sts_nth nth_append)
      ultimately show ?thesis using l e i by (intro exI [of _ i]) (simp add: sts_nth)
    qed
  qed
qed

section \<open>Delivery of the byte stream\<close>

definition rx_stream :: "tcb \<Rightarrow> bytes" where
  "rx_stream t = concat (map (\<lambda>m. drop 40 (r_bytes m)) (buf_que t))"

text \<open>A data segment that carries a piece of the stream \<open>s\<close>, whose first byte has the number \<open>base\<close>.\<close>

definition carries :: "u32 \<Rightarrow> bytes \<Rightarrow> nat \<Rightarrow> nat \<Rightarrow> tcpseg \<Rightarrow> bool" where
  "carries base s off len seg \<longleftrightarrow> seg_seqnr seg = base + of_nat off \<and> off + len \<le> length s \<and>
     seg_len seg = of_nat len \<and> seg_seqlen seg = of_nat len \<and>
     drop 40 (seg_packet seg) = take len (drop off s)"

lemma length_rx_data [simp]: "length (tcbs (tcp_rx_data i seg n)) = length (tcbs n)"
  using length_sts [of "tcp_rx_data i seg n"] by simp

lemma rx_data_get:
  assumes "i < length (tcbs n)"
  shows "buf_que (get (tcp_rx_data i seg n) i) = buf_que (get n i) @
       (if seg_seqnr seg = rcv_nxt (get n i) \<and> seg_seqlen seg \<noteq> 0 \<and> seg_len seg \<noteq> 0
        then [\<lparr>r_id = ucast (seg_seqnr seg), r_bytes = seg_packet seg\<rparr>] else [])"
    "rcv_nxt (get (tcp_rx_data i seg n) i) = rcv_nxt (get n i) +
       (if seg_seqnr seg = rcv_nxt (get n i) then seg_seqlen seg else 0)"
  using assms
  by (auto simp: tcp_rx_data_def tcp_tx_ack_def tcp_tx_dly_def try_unblk_rx_def Let_def get_upd)

text \<open>The receiver holds the first \<open>k\<close> bytes of the stream and expects the next one.\<close>

definition holds :: "u32 \<Rightarrow> bytes \<Rightarrow> nat \<Rightarrow> tcb \<Rightarrow> bool" where
  "holds base s k t \<longleftrightarrow> k \<le> length s \<and> rx_stream t = take k s \<and> rcv_nxt t = base + of_nat k"

lemma of_nat_32_eq: "a < 2 ^ 32 \<Longrightarrow> b < 2 ^ 32 \<Longrightarrow> (of_nat a :: u32) = of_nat b \<longleftrightarrow> a = b"
proof -
  assume "a < 2 ^ 32" "b < 2 ^ 32"
  then have "unat (of_nat a :: u32) = a" "unat (of_nat b :: u32) = b" by (simp_all add: unat_of_nat_small)
  then show ?thesis by metis
qed

lemma rx_data_holds:
  assumes "i < length (tcbs n)" "holds base s k (get n i)" "carries base s off len seg" "length s < 2 ^ 32"
  shows "holds base s (if off = k then k + len else k) (get (tcp_rx_data i seg n) i)"
proof -
  have k: "k \<le> length s" "rx_stream (get n i) = take k s" "rcv_nxt (get n i) = base + of_nat k"
    using assms(2) by (simp_all add: holds_def)
  have c: "seg_seqnr seg = base + of_nat off" "off + len \<le> length s" "seg_len seg = of_nat len"
      "seg_seqlen seg = of_nat len" "drop 40 (seg_packet seg) = take len (drop off s)"
    using assms(3) by (simp_all add: carries_def)
  have l: "len < 2 ^ 32" "off < 2 ^ 32" "k < 2 ^ 32" using c(2) k(1) assms(4) by linarith+
  have z: "(of_nat len :: u32) = 0 \<longleftrightarrow> len = 0" "(of_nat len :: u64) = 0 \<longleftrightarrow> len = 0"
    using l(1) unat_of_nat_small [of len, where 'a = 32] unat_of_nat_small [of len, where 'a = 64]
    by (auto simp: unat_eq_0 [symmetric])
  have e: "seg_seqnr seg = rcv_nxt (get n i) \<longleftrightarrow> off = k"
    using c(1) k(3) of_nat_32_eq [OF l(2,3)] by simp
  have st: "take (k + len) s = take k s @ take len (drop k s)" by (rule take_add)
  show ?thesis
  proof (cases "off = k")
    case False
    with e k rx_data_get [OF assms(1), of seg] show ?thesis by (simp add: holds_def rx_stream_def)
  next
    case True
    with e k c z st rx_data_get [OF assms(1), of seg] show ?thesis
      by (simp add: holds_def rx_stream_def add.assoc)
  qed
qed

text \<open>
  C31. Whatever segments of a stream of less than $2^{32}$ bytes arrive, in any order, with repetitions
  and gaps, the receive queue holds a prefix of the stream and \<open>rcv_nxt\<close> is the number of the byte
  after it; and a segment that starts at that byte is always accepted as a whole.
\<close>

theorem tcp_stream_prefix:
  assumes "i < length (tcbs n)" "rcv_nxt (get n i) = base" "buf_que (get n i) = []" "length s < 2 ^ 32"
    "\<forall>seg \<in> set segs. \<exists>off len. carries base s off len seg"
    "n' = fold (tcp_rx_data i) segs n"
  shows "\<exists>k \<le> length s. rx_stream (get n' i) = take k s \<and> rcv_nxt (get n' i) = base + of_nat k \<and>
     (\<forall>len seg. carries base s k len seg \<longrightarrow>
        rx_stream (get (tcp_rx_data i seg n') i) = take (k + len) s)"
proof -
  have "i < length (tcbs (fold (tcp_rx_data i) segs n)) \<and> (\<exists>k'. holds base s k' (get (fold (tcp_rx_data i) segs n) i))"
    if "i < length (tcbs n)" "holds base s k (get n i)" "\<forall>seg \<in> set segs. \<exists>off len. carries base s off len seg" for k n
    using that
  proof (induction segs arbitrary: n k)
    case (Cons seg segs)
    obtain off len where "carries base s off len seg" using Cons.prems(3) by auto
    then have "holds base s (if off = k then k + len else k) (get (tcp_rx_data i seg n) i)"
      using rx_data_holds [OF Cons.prems(1,2) _ assms(4)] by blast
    then show ?case using Cons.IH [of "tcp_rx_data i seg n"] Cons.prems(1,3) by auto
  qed auto
  note run = this
  have "holds base s 0 (get n i)" using assms(2,3) by (simp add: holds_def rx_stream_def)
  from run [OF assms(1) this assms(5)] obtain k where l: "i < length (tcbs n')" and k: "holds base s k (get n' i)"
    unfolding assms(6) by blast
  have "rx_stream (get (tcp_rx_data i seg n') i) = take (k + len) s" if "carries base s k len seg" for len seg
    using rx_data_holds [OF l k that assms(4)] by (simp add: holds_def)
  then show ?thesis using k by (intro exI [of _ k]) (simp add: holds_def)
qed

text \<open>A segment with the given flags and nothing else in it.\<close>

definition bare_seg :: "u8 \<Rightarrow> tcpseg" where
  "bare_seg fl = \<lparr>seg_seqnr = 5, seg_seqlen = 0, seg_sip = 1, seg_dip = 2,
     seg_hdr = \<lparr>h_sport = 1000, h_dport = 80, h_seqnr = 5, h_acknr = 9, h_flgs = fl, h_window = 100, h_urgptr = 0\<rparr>,
     seg_len = 0, seg_packet = []\<rparr>"

definition data_seg :: "nat \<Rightarrow> bytes \<Rightarrow> tcpseg" where
  "data_seg off bs = (bare_seg 16)\<lparr>seg_seqnr := 5 + of_nat off, seg_seqlen := of_nat (length bs), seg_len := of_nat (length bs), seg_packet := replicate 40 0 @ bs\<rparr>"

text \<open>The end of a stream of three bytes arrives first, then its start, twice, and the end again.\<close>

lemma tcp_stream_prefix_witness:
  "\<exists>k\<le>3. rx_stream (get (fold (tcp_rx_data 0) [data_seg 1 [8, 9], data_seg 0 [7], data_seg 0 [7], data_seg 1 [8, 9]]
      (host 2 0 (blank_tcb\<lparr>rcv_nxt := 5\<rparr>) [0] [])) 0) = take k [7, 8, 9]"
proof -
  have "carries 5 [7, 8, 9] 1 2 (data_seg 1 [8, 9])" "carries 5 [7, 8, 9] 0 1 (data_seg 0 [7])" by (simp_all add: carries_def data_seg_def bare_seg_def)
  then have c: "\<forall>seg\<in>set [data_seg 1 [8, 9], data_seg 0 [7], data_seg 0 [7], data_seg 1 [8, 9]]. \<exists>off len. carries 5 [7, 8, 9] off len seg" by auto
  have h: "0 < length (tcbs (host 2 0 (blank_tcb\<lparr>rcv_nxt := 5\<rparr>) [0] []))" "rcv_nxt (get (host 2 0 (blank_tcb\<lparr>rcv_nxt := 5\<rparr>) [0] []) 0) = 5"
    "buf_que (get (host 2 0 (blank_tcb\<lparr>rcv_nxt := 5\<rparr>) [0] []) 0) = []" "length [7, 8, 9 :: u8] < 2 ^ 32" by (simp_all add: host_def get_def blank_tcb_def)
  have "length [7, 8, 9 :: u8] = 3" by simp
  then show ?thesis using tcp_stream_prefix [OF h c refl] by metis
qed

text \<open>A FIN arrives at an established connection.\<close>

definition open_tcb :: tcb where
  "open_tcb = blank_tcb\<lparr>tstate := ESTABLISHED, rport := 1000, lport := 80, rcv_nxt := 5\<rparr>"

lemma tcp_transitions_witness:
  "\<exists>b n'. sock_rx_tcp blank_tcb (replicate 20 0) (net_tx_tcp 0 [] 0 (seg_hdr (bare_seg 1)))
       (host 2 0 open_tcb [0] []) = Inr (b, n') \<and> tcp_edge ESTABLISHED (tstate (get n' 0))"
proof -
  let ?n = "host 2 0 open_tcb [0] []" and ?h = "seg_hdr (bare_seg 1)"
  let ?m = "net_tx_tcp 0 [] 0 ?h"
  let ?iph = "replicate 20 (0 :: u8)"
  have z: "load32 0 0 0 0 = 0" by (simp add: load32_def)
  have w: "net_cksum_tcp ?m 0 0 = 0 \<and> tcp_parse ?m = ?h \<and> length ?m = 20"
    using tcp_wire [of "[]" ?m 0 0 ?h] by simp
  have f: "find_tcb 0 0 ?h ?n = Some 0"
    by (simp add: find_tcb_def host_def get_def open_tcb_def blank_tcb_def bare_seg_def ip_addr_cmp_def ip_addr_isany_def)
  have t: "tcp_rx_state blank_tcb 0 (make_seg ?iph ?m) ?n \<noteq> Inl x" for x
    using w by (simp add: tcp_rx_state_def make_seg_def host_def get_def open_tcb_def blank_tcb_def bare_seg_def Let_def tcp_rx_established_def bit_1_iff)
  then obtain n1 where n1: "tcp_rx_state blank_tcb 0 (make_seg ?iph ?m) ?n = Inr n1" by (cases "tcp_rx_state blank_tcb 0 (make_seg ?iph ?m) ?n") auto
  have "seg_hdr (make_seg ?iph ?m) = ?h" using w by (simp add: make_seg_def Let_def)
  then obtain b n' where r: "sock_rx_tcp blank_tcb ?iph ?m ?n = Inr (b, n')"
    using w f n1 by (auto simp: sock_rx_tcp_def z Let_def)
  have "tcp_edge ESTABLISHED (tstate (get n' 0))"
    using tcp_transitions [OF _ r] by (auto simp: host_def get_def open_tcb_def)
  with r show ?thesis by blast
qed

section \<open>Errors of the receive path\<close>

text \<open>
  A segment with the urgent flag that arrives at a synchronised connection makes the kernel fail
  an assertion, whatever its sequence numbers are, unless it also has the flag RST or SYN.
\<close>

theorem urgent_segment_asserts:
  assumes "tstate (get n i) \<in> {ESTABLISHED, CLOSE_WAIT, LAST_ACK, FIN_WAIT1, FIN_WAIT2, CLOSING, TIME_WAIT}"
    "f_urg seg" "\<not> f_rst seg" "\<not> f_syn seg"
  shows "tcp_rx_state raw i seg n = Inl AssertFail"
proof -
  have "\<exists>n1. tcp_x_ack i seg n = Inr n1" if "f_ack seg" using that by (simp add: tcp_x_ack_def Let_def)
  then show ?thesis
    using assms
    by (cases "f_ack seg")
      (auto simp: tcp_rx_state_def tcp_rx_established_def tcp_rx_closewait_def tcp_rx_lastack_def
        tcp_rx_finwait_def tcp_rx_closing_def tcp_rx_timewait_def Let_def)
qed

lemma urgent_segment_asserts_witness:
  "tcp_rx_state blank_tcb 0 (bare_seg 48) (host 2 0 (blank_tcb\<lparr>tstate := ESTABLISHED\<rparr>) [0] []) = Inl AssertFail"
  by (rule urgent_segment_asserts) (simp_all add: host_def get_def bare_seg_def)

text \<open>
  A listening socket answers a connection request with a reset, followed by its SYN and ACK,
  unless exactly one place of its backlog is left; so a backlog of two or more refuses the first
  client.
\<close>

theorem backlog_resets:
  assumes "i < length (tcbs n)" "tstate (get n i) = LISTEN" "f_syn seg" "\<not> f_ack seg" "\<not> f_rst seg"
    "backcnt (get n i) + 1 \<noteq> backlog (get n i)"
  shows "\<exists>n' r a. tcp_rx_state raw i seg n = Inr n' \<and> sent n' = sent n @ [r, a] \<and>
     h_flgs (tx_hdr r) = (TCP_F_RST OR TCP_F_ACK) \<and> h_acknr (tx_hdr r) = seg_seqnr seg + seg_seqlen seg \<and>
     h_flgs (tx_hdr a) = (TCP_F_SYN OR TCP_F_ACK)"
proof -
  let ?n1 = "tcp_tx_reset seg n"
  have s: "sent ?n1 = sent n @ [\<lparr>tx_dip = seg_sip seg, tx_hdr = \<lparr>h_sport = h_dport (seg_hdr seg),
      h_dport = h_sport (seg_hdr seg), h_seqnr = 0, h_acknr = seg_seqnr seg + seg_seqlen seg,
      h_flgs = TCP_F_RST OR TCP_F_ACK, h_window = 0, h_urgptr = 0\<rparr>, tx_data = []\<rparr>]"
    using assms(4) by (simp add: tcp_tx_reset_def send_def Let_def)
  show ?thesis
    using assms(2-6) by (simp add: tcp_rx_state_def tcp_rx_listen_def tcp_tx_agree_def Let_def s) (simp add: send_def s)
qed

lemma backlog_resets_witness:
  "\<exists>n' r a. tcp_rx_state blank_tcb 0 (bare_seg 2) (host 2 0 (blank_tcb\<lparr>tstate := LISTEN, backlog := 5\<rparr>) [] [0]) = Inr n' \<and>
     sent n' = [r, a] \<and> h_flgs (tx_hdr r) = (TCP_F_RST OR TCP_F_ACK)"
  using backlog_resets [of 0 "host 2 0 (blank_tcb\<lparr>tstate := LISTEN, backlog := 5\<rparr>) [] [0]" "bare_seg 2" blank_tcb]
  by (auto simp: host_def get_def bare_seg_def blank_tcb_def)

text \<open>
  A segment for no connection is answered with a reset even when it is a reset itself, so two
  hosts without the connection answer each other's resets for ever: the answer to a reset without
  ACK acknowledges it, and the answer to that one has no ACK again.
\<close>

theorem reset_answered_with_reset:
  assumes "net_cksum_tcp m sip dip = 0" "20 \<le> length m"
    "sip = load32 (iph ! 12) (iph ! 13) (iph ! 14) (iph ! 15)" "dip = load32 (iph ! 16) (iph ! 17) (iph ! 18) (iph ! 19)"
    "find_tcb sip dip (tcp_parse m) n = None"
  shows "\<exists>n' r. sock_rx_tcp raw iph m n = Inr (True, n') \<and> sent n' = sent n @ [r] \<and> tx_dip r = sip \<and>
     h_sport (tx_hdr r) = h_dport (tcp_parse m) \<and> h_dport (tx_hdr r) = h_sport (tcp_parse m) \<and>
     bit (h_flgs (tx_hdr r)) 2 \<and> (bit (h_flgs (tx_hdr r)) 4 \<longleftrightarrow> \<not> bit (h_flgs (tcp_parse m)) 4)"
proof -
  let ?seg = "make_seg iph m"
  have p: "seg_hdr ?seg = tcp_parse m" "seg_sip ?seg = sip"
    using assms(3) by (simp_all add: make_seg_def Let_def)
  have r: "sock_rx_tcp raw iph m n = Inr (True, tcp_tx_reset ?seg n)"
    using assms p by (simp add: sock_rx_tcp_def Let_def)
  then show ?thesis
    using p by (cases "bit (h_flgs (tcp_parse m)) 4")
      (simp_all add: tcp_tx_reset_def send_def Let_def tcp_flag_defs)
qed

lemma reset_answered_with_reset_witness:
  "\<exists>n' r. sock_rx_tcp blank_tcb (replicate 20 0) (net_tx_tcp 0 [] 0 (seg_hdr (bare_seg 4))) (host 2 0 blank_tcb [] []) =
       Inr (True, n') \<and> sent n' = [r] \<and> bit (h_flgs (tx_hdr r)) 2"
proof -
  let ?m = "net_tx_tcp 0 [] 0 (seg_hdr (bare_seg 4))"
  have "load32 0 0 0 0 = 0" by (simp add: load32_def)
  moreover have "net_cksum_tcp ?m 0 0 = 0 \<and> length ?m = 20"
    using tcp_wire [of "[]" ?m 0 0 "seg_hdr (bare_seg 4)"] by simp
  moreover have "sent (host 2 0 blank_tcb [] []) = []" "find_tcb 0 0 (tcp_parse ?m) (host 2 0 blank_tcb [] []) = None"
    by (simp_all add: host_def find_tcb_def)
  ultimately show ?thesis
    using reset_answered_with_reset [of ?m 0 0 "replicate 20 0" "host 2 0 blank_tcb [] []" blank_tcb] by auto
qed

section \<open>Connecting two hosts\<close>

text \<open>
  The way of a segment from the host \<open>sip\<close>: \<open>net_tx_tcp\<close>, \<open>net_tx_ip\<close>, then \<open>net_rx_ip\<close> and \<open>sock_rx_tcp\<close> of
  the host it is addressed to. No raw socket takes it.
\<close>

definition deliver :: "tcb \<Rightarrow> u32 \<Rightarrow> txseg \<Rightarrow> tcpnet \<Rightarrow> (bool \<times> tcpnet) result" where
  "deliver raw sip s n =
     bind_result (net_rx_ip (\<lambda>h b. 0) (tx_dip s)
         (net_tx_ip (replicate 20 0) sip (net_tx_tcp sip (tx_data s) (tx_dip s) (tx_hdr s)) (tx_dip s) 6))
       (\<lambda>r. case r of Ip_tcp hdr m \<Rightarrow> sock_rx_tcp raw hdr m n | _ \<Rightarrow> Inr (False, n))"

text \<open>What the receiver makes of it.\<close>

lemma deliver_seg:
  assumes "length (tx_data s) \<le> 60000" "find_tcb sip (tx_dip s) (tx_hdr s) n = Some i"
  shows "\<exists>seg. seg_hdr seg = tx_hdr s \<and> seg_seqnr seg = h_seqnr (tx_hdr s) \<and> seg_sip seg = sip \<and>
     seg_len seg = of_nat (length (tx_data s)) \<and> drop 40 (seg_packet seg) = tx_data s \<and>
     deliver raw sip s n = bind_result (tcp_rx_state raw i seg n) (\<lambda>n1. Inr (True, n1))"
proof -
  let ?m = "net_tx_tcp sip (tx_data s) (tx_dip s) (tx_hdr s)"
  have w: "net_cksum_tcp ?m sip (tx_dip s) = 0 \<and> tcp_parse ?m = tx_hdr s \<and> drop 20 ?m = tx_data s \<and>
      length ?m = 20 + length (tx_data s)"
    using assms(1) by (intro tcp_wire) simp_all
  then obtain h where h: "net_rx_ip (\<lambda>h b. 0) (tx_dip s) (net_tx_ip (replicate 20 0) sip ?m (tx_dip s) 6) = Inr (Ip_tcp h ?m)"
      "length h = 20" "load32 (h ! 12) (h ! 13) (h ! 14) (h ! 15) = sip"
      "load32 (h ! 16) (h ! 17) (h ! 18) (h ! 19) = tx_dip s"
    using ip_wire [of ?m _ "replicate 20 0" sip "tx_dip s" "\<lambda>h b. 0"] assms(1) by auto
  have "deliver raw sip s n = bind_result (tcp_rx_state raw i (make_seg h ?m) n) (\<lambda>n1. Inr (True, n1))"
    using w h assms(2) by (simp add: deliver_def sock_rx_tcp_def make_seg_def Let_def)
  then show ?thesis using w h by (intro exI [of _ "make_seg h ?m"]) (simp add: make_seg_def Let_def)
qed

lemma find_unique:
  assumes "x \<in> set xs" "P x" "\<And>y. y \<in> set xs \<Longrightarrow> P y \<Longrightarrow> y = x"
  shows "List.find P xs = Some x"
proof (cases "List.find P xs")
  case None
  then show ?thesis using assms(1,2) by (simp add: find_None_iff)
next
  case (Some y)
  then have "y \<in> set xs" "P y" by (auto simp: find_Some_iff)
  with Some assms(3) show ?thesis by blast
qed

text \<open>The only socket of a host with the local port \<open>port\<close>.\<close>

definition sole_port :: "tcpnet \<Rightarrow> nat \<Rightarrow> u16 \<Rightarrow> bool" where
  "sole_port n i port \<longleftrightarrow> i < length (tcbs n) \<and> lport (get n i) = port \<and>
     (\<forall>k \<in> set (list_common n) \<union> set (list_listen n). k < length (tcbs n) \<and> (k \<noteq> i \<longrightarrow> lport (get n k) \<noteq> port))"

lemma find_listener:
  assumes "sole_port n i port" "i \<in> set (list_listen n)" "i \<notin> set (list_common n)" "h_dport hdr = port"
    "laddr (get n i) \<in> {0, dip}"
  shows "find_tcb sip dip hdr n = Some i"
proof -
  have "List.find (\<lambda>i. let t = get n i
      in ip_addr_cmp (raddr t) sip \<and> (ip_addr_isany (laddr t) \<or> ip_addr_cmp (laddr t) dip) \<and>
         rport t = h_sport hdr \<and> lport t = h_dport hdr) (list_common n) = None"
    using assms by (auto simp: find_None_iff sole_port_def Let_def)
  moreover have "List.find (\<lambda>i. let t = get n i
      in (ip_addr_isany (laddr t) \<or> ip_addr_cmp (laddr t) dip) \<and> lport t = h_dport hdr) (list_listen n) = Some i"
    using assms by (intro find_unique) (auto simp: sole_port_def Let_def ip_addr_isany_def ip_addr_cmp_def)
  ultimately show ?thesis by (simp add: find_tcb_def)
qed

lemma find_connected:
  assumes "sole_port n i port" "i \<in> set (list_common n)" "h_dport hdr = port" "raddr (get n i) = sip"
    "rport (get n i) = h_sport hdr" "laddr (get n i) \<in> {0, dip}"
  shows "find_tcb sip dip hdr n = Some i"
proof -
  have "List.find (\<lambda>i. let t = get n i
      in ip_addr_cmp (raddr t) sip \<and> (ip_addr_isany (laddr t) \<or> ip_addr_cmp (laddr t) dip) \<and>
         rport t = h_sport hdr \<and> lport t = h_dport hdr) (list_common n) = Some i"
    using assms by (intro find_unique) (auto simp: sole_port_def Let_def ip_addr_isany_def ip_addr_cmp_def)
  then show ?thesis by (simp add: find_tcb_def)
qed

text \<open>The first step: the client sends its SYN and waits.\<close>

lemma connect_sends_syn:
  assumes "sole_port nc i cport" "cport \<noteq> 0" "i \<in> set (list_common nc)" "rport (get nc i) = 0"
    "syn_waiter (get nc i) = - 1" "nport \<noteq> 0" "iss = new_iss nc"
  shows "\<exists>nc1. tcp_connect pid i (nport, sip) 16 ws nc =
       (case ws of [] \<Rightarrow> Blocked nc1
        | w # ws' \<Rightarrow> let n4 = upd i (\<lambda>t. t\<lparr>syn_waiter := - 1\<rparr>) (w nc1) in Returns ws' n4 (tc_errno (get n4 i))) \<and>
     sent nc1 = sent nc @ [\<lparr>tx_dip = sip, tx_hdr = \<lparr>h_sport = cport, h_dport = ntohs nport, h_seqnr = iss, h_acknr = 0,
        h_flgs = TCP_F_SYN, h_window = TCP_WINDOW, h_urgptr = 0\<rparr>, tx_data = []\<rparr>] \<and>
     sole_port nc1 i cport \<and> list_common nc1 = list_common nc \<and> woken nc1 = woken nc \<and>
     get nc1 i = (get nc i)\<lparr>raddr := sip, rport := ntohs nport, snd_iss := iss, snd_una := iss, snd_nxt := iss + 1,
        tstate := SYN_SENT, syn_waiter := pid\<rparr>"
proof -
  have i: "i < length (tcbs nc)" "lport (get nc i) = cport" using assms(1) by (simp_all add: sole_port_def)
  let ?n1 = "upd i (\<lambda>t. t\<lparr>raddr := sip, rport := ntohs nport\<rparr>) nc"
  have ck: "ck_lport i ?n1 = Inr ?n1" using i assms(2) by (simp add: ck_lport_def get_upd)
  let ?nc1 = "upd i (\<lambda>t. t\<lparr>syn_waiter := pid\<rparr>) (tcp_tx_setup i ?n1)"
  have g: "get (tcp_tx_setup i ?n1) k = (if k = i then (get nc i)\<lparr>raddr := sip, rport := ntohs nport, snd_iss := iss, snd_una := iss, snd_nxt := iss + 1,
        tstate := SYN_SENT\<rparr> else get nc k)" "length (tcbs (tcp_tx_setup i ?n1)) = length (tcbs nc)" for k
    using i assms(7) by (simp_all add: tcp_tx_setup_def Let_def get_upd new_iss_def)
  have s: "sent (tcp_tx_setup i ?n1) = sent nc @ [\<lparr>tx_dip = sip, tx_hdr = \<lparr>h_sport = cport, h_dport = ntohs nport, h_seqnr = iss, h_acknr = 0,
        h_flgs = TCP_F_SYN, h_window = TCP_WINDOW, h_urgptr = 0\<rparr>, tx_data = []\<rparr>]"
     "list_common (tcp_tx_setup i ?n1) = list_common nc" "list_listen (tcp_tx_setup i ?n1) = list_listen nc" "woken (tcp_tx_setup i ?n1) = woken nc"
    using i assms(7) by (simp_all add: tcp_tx_setup_def Let_def get_upd new_iss_def send_def)
  show ?thesis
    using assms i ck g s
    by (intro exI [of _ ?nc1]) (auto simp: tcp_connect_def Let_def get_upd sole_port_def split: list.split)
qed

text \<open>The second step: the listening socket makes a connection and sends SYN and ACK.\<close>

lemma listen_answers:
  assumes "j < length (tcbs ns)" "tstate (get ns j) = LISTEN" "backcnt (get ns j) + 1 = backlog (get ns j)"
    "h_flgs (seg_hdr seg) = TCP_F_SYN" "c = length (tcbs ns)" "iss = new_iss ns"
  shows "\<exists>ns1. tcp_rx_state raw j seg ns = Inr ns1 \<and>
     sent ns1 = sent ns @ [\<lparr>tx_dip = seg_sip seg, tx_hdr = \<lparr>h_sport = lport (get ns j), h_dport = h_sport (seg_hdr seg),
        h_seqnr = iss, h_acknr = seg_seqnr seg + 1, h_flgs = TCP_F_SYN OR TCP_F_ACK, h_window = TCP_WINDOW,
        h_urgptr = 0\<rparr>, tx_data = []\<rparr>] \<and>
     list_common ns1 = c # list_common ns \<and> length (tcbs ns1) = Suc c \<and>
     (\<exists>p m. get ns1 j = (get ns j)\<lparr>pchd := p, backcnt := m\<rparr>) \<and>
     tstate (get ns1 c) = SYN_RCVD \<and> raddr (get ns1 c) = seg_sip seg \<and> rport (get ns1 c) = h_sport (seg_hdr seg) \<and>
     lport (get ns1 c) = lport (get ns j) \<and> laddr (get ns1 c) = laddr (get ns j) \<and> ptcp (get ns1 c) = Some j \<and>
     snd_una (get ns1 c) = iss \<and> snd_nxt (get ns1 c) = iss + 1 \<and> rcv_nxt (get ns1 c) = seg_seqnr seg + 1 \<and>
     nagle (get ns1 c) \<and> buf_que (get ns1 c) = []"
proof -
  have f: "\<not> f_rst seg" "\<not> f_ack seg" "f_syn seg" using assms(4) by (simp_all add: tcp_flag_defs)
  let ?n1 = "upd j (\<lambda>t. t\<lparr>backcnt := backcnt t + 1\<rparr>) ns"
  define conn where "conn = raw\<lparr>laddr := laddr (get ns j), raddr := seg_sip seg, lport := lport (get ns j),
     rport := h_sport (seg_hdr seg), mss := mss (get ns j), nagle := True, is_passive := True, ptcp := Some j,
     tstate := LISTEN, shut_rd := False, shut_wr := False, tc_errno := 0, snd_que := [], una_que := [], buf_que := [],
     tmr_ack := None, rx_waiter := - 1, syn_waiter := - 1, rcv_nxt := seg_seqnr seg + 1, rcv_irs := seg_seqnr seg\<rparr>"
  define n3 where "n3 = upd j (\<lambda>t. t\<lparr>pchd := c # pchd t\<rparr>) (?n1\<lparr>tcbs := tcbs ?n1 @ [conn], list_common := c # list_common ?n1\<rparr>)"
  have r: "tcp_rx_state raw j seg ns = Inr (tcp_tx_agree c n3)"
    using assms(2,3,5) f by (simp add: tcp_rx_state_def tcp_rx_listen_def Let_def n3_def conn_def)
  have l: "length (tcbs n3) = Suc c" "list_common n3 = c # list_common ns" "sent n3 = sent ns" "new_iss n3 = iss"
    using assms(5,6) by (simp_all add: n3_def new_iss_def)
  have g: "get n3 c = conn" "\<exists>p m. get n3 j = (get ns j)\<lparr>pchd := p, backcnt := m\<rparr>"
  proof -
    have g: "get n3 k = (if k = c then conn else if k = j then (get ns j)\<lparr>pchd := c # pchd (get ns j), backcnt := backcnt (get ns j) + 1\<rparr>
        else get n3 k)" for k
      using assms(1,5) by (simp add: n3_def get_def upd_def nth_append list_update_append)
    show "get n3 c = conn" using g [of c] by simp
    have "get n3 j = (get ns j)\<lparr>pchd := c # pchd (get ns j), backcnt := backcnt (get ns j) + 1\<rparr>"
      using g [of j] assms(1,5) by simp
    then show "\<exists>p m. get n3 j = (get ns j)\<lparr>pchd := p, backcnt := m\<rparr>" by blast
  qed
  have a: "get (tcp_tx_agree c n3) k = (if k = c then conn\<lparr>snd_iss := iss, snd_una := iss, snd_nxt := iss + 1, tstate := SYN_RCVD\<rparr> else get n3 k)" for k
    using l g by (simp add: tcp_tx_agree_def Let_def get_upd)
  have b: "sent (tcp_tx_agree c n3) = sent ns @ [\<lparr>tx_dip = seg_sip seg, tx_hdr = \<lparr>h_sport = lport (get ns j), h_dport = h_sport (seg_hdr seg),
        h_seqnr = iss, h_acknr = seg_seqnr seg + 1, h_flgs = TCP_F_SYN OR TCP_F_ACK, h_window = TCP_WINDOW,
        h_urgptr = 0\<rparr>, tx_data = []\<rparr>]" "list_common (tcp_tx_agree c n3) = c # list_common ns"
      "length (tcbs (tcp_tx_agree c n3)) = Suc c"
    using l g by (simp_all add: tcp_tx_agree_def Let_def get_upd conn_def sent_send)
  show ?thesis
    using r a b g assms(1,5) by (intro exI [of _ "tcp_tx_agree c n3"]) (simp add: conn_def)
qed

text \<open>The third step: the client is connected and acknowledges.\<close>

lemma client_connected:
  assumes "i < length (tcbs nc)" "tstate (get nc i) = SYN_SENT" "snd_nxt (get nc i) = snd_iss (get nc i) + 1"
    "h_flgs (seg_hdr seg) = TCP_F_SYN OR TCP_F_ACK" "h_acknr (seg_hdr seg) = snd_nxt (get nc i)"
    "syn_waiter (get nc i) = pid" "0 \<le> pid"
  shows "\<exists>nc2. tcp_rx_state raw i seg nc = Inr nc2 \<and> tstate (get nc2 i) = ESTABLISHED \<and>
     rcv_nxt (get nc2 i) = seg_seqnr seg + 1 \<and> snd_nxt (get nc2 i) = snd_nxt (get nc i) \<and>
     snd_una (get nc2 i) = snd_nxt (get nc i) \<and> woken nc2 = woken nc @ [pid] \<and>
     sent nc2 = sent nc @ [\<lparr>tx_dip = raddr (get nc i), tx_hdr = \<lparr>h_sport = lport (get nc i), h_dport = rport (get nc i),
        h_seqnr = snd_nxt (get nc i), h_acknr = seg_seqnr seg + 1, h_flgs = TCP_F_ACK, h_window = TCP_WINDOW,
        h_urgptr = 0\<rparr>, tx_data = []\<rparr>]"
proof -
  have f: "f_ack seg" "\<not> f_rst seg" "f_syn seg" using assms(4) by (simp_all add: tcp_flag_defs)
  let ?n2 = "upd i (\<lambda>t. t\<lparr>rcv_irs := seg_seqnr seg, rcv_nxt := seg_seqnr seg + 1, snd_una := snd_nxt (get nc i)\<rparr>) nc"
  have r: "tcp_rx_state raw i seg nc = Inr (try_unblk_syn i (tcp_tx_ack i (upd i (\<lambda>t. t\<lparr>tstate := ESTABLISHED\<rparr>) ?n2)))"
    using assms f by (simp add: tcp_rx_state_def tcp_rx_sent_def Let_def get_upd)
  show ?thesis
    unfolding r using assms
    by (simp add: try_unblk_syn_def tcp_tx_ack_def Let_def get_upd woken_wake sent_send)
qed

text \<open>The last step: the connection of the server is established and handed to its listening socket.\<close>

lemma server_connected:
  assumes "c < length (tcbs ns)" "j < length (tcbs ns)" "tstate (get ns c) = SYN_RCVD" "ptcp (get ns c) = Some j"
    "snd_una (get ns c) = iss" "snd_nxt (get ns c) = iss + 1"
    "h_flgs (seg_hdr seg) = TCP_F_ACK" "h_acknr (seg_hdr seg) = iss + 1" "c \<noteq> j"
  shows "\<exists>ns2. tcp_rx_state raw c seg ns = Inr ns2 \<and> get ns2 c = (get ns c)\<lparr>tstate := ESTABLISHED\<rparr> \<and>
     acpt (get ns2 j) = c # acpt (get ns j)"
proof -
  have f: "f_ack seg" "\<not> f_rst seg" "\<not> f_syn seg" using assms(7) by (simp_all add: tcp_flag_defs)
  have q: "TCP_SEQ_LT iss (iss + 1)" "TCP_SEQ_LE (iss + 1) (iss + 1)" by (simp_all add: TCP_SEQ_LT_def TCP_SEQ_LE_def)
  show ?thesis
    using assms f q by (simp add: tcp_rx_state_def tcp_rx_rcvd_def Let_def try_unblk_syn_def get_upd)
qed

text \<open>
  C29. The three-way handshake through the wire format: the client's \<open>tcp_connect\<close> sends a SYN and
  blocks; the listening socket, with exactly one place left in its backlog (with more the code resets the client, see \<open>backlog_resets\<close>), answers; the client is established, woken and
  acknowledges; the new connection of the server is established and waits to be accepted. Each side
  expects the number the other will send next.
\<close>

theorem tcp_handshake:
  assumes "sole_port nc i cport" "cport \<noteq> 0" "i \<in> set (list_common nc)" "rport (get nc i) = 0"
    "syn_waiter (get nc i) = - 1" "nport \<noteq> 0" "laddr (get nc i) \<in> {0, cip}" "0 \<le> pid"
    "sole_port ns j (ntohs nport)" "j \<in> set (list_listen ns)" "j \<notin> set (list_common ns)"
    "tstate (get ns j) = LISTEN" "backcnt (get ns j) + 1 = backlog (get ns j)" "laddr (get ns j) \<in> {0, sip}"
    "c = length (tcbs ns)"
  shows "\<exists>nc1 ns1 nc2 ns2 s1 s2 s3.
     tcp_connect pid i (nport, sip) 16 [] nc = Blocked nc1 \<and> sent nc1 = sent nc @ [s1] \<and>
     deliver raw cip s1 ns = Inr (True, ns1) \<and> sent ns1 = sent ns @ [s2] \<and>
     deliver raw sip s2 nc1 = Inr (True, nc2) \<and> sent nc2 = sent nc1 @ [s3] \<and>
     deliver raw cip s3 ns1 = Inr (True, ns2) \<and>
     tstate (get nc2 i) = ESTABLISHED \<and> woken nc2 = woken nc @ [pid] \<and>
     tstate (get ns2 c) = ESTABLISHED \<and> acpt (get ns2 j) = c # acpt (get ns j) \<and>
     rcv_nxt (get nc2 i) = snd_nxt (get ns2 c) \<and> rcv_nxt (get ns2 c) = snd_nxt (get nc2 i)"
proof -
  have j: "j < length (tcbs ns)" "lport (get ns j) = ntohs nport" and i: "lport (get nc i) = cport"
    using assms(1,9) by (simp_all add: sole_port_def)
  obtain nc1 where c1: "tcp_connect pid i (nport, sip) 16 [] nc = Blocked nc1"
      "sole_port nc1 i cport" "list_common nc1 = list_common nc" "woken nc1 = woken nc"
      "get nc1 i = (get nc i)\<lparr>raddr := sip, rport := ntohs nport, snd_iss := new_iss nc, snd_una := new_iss nc, snd_nxt := new_iss nc + 1,
        tstate := SYN_SENT, syn_waiter := pid\<rparr>"
      "sent nc1 = sent nc @ [\<lparr>tx_dip = sip, tx_hdr = \<lparr>h_sport = cport, h_dport = ntohs nport, h_seqnr = new_iss nc, h_acknr = 0,
        h_flgs = TCP_F_SYN, h_window = TCP_WINDOW, h_urgptr = 0\<rparr>, tx_data = []\<rparr>]" (is "_ = _ @ [?s1]")
    using connect_sends_syn [OF assms(1-6) refl, of pid sip "[]"] by auto
  have k1: "i < length (tcbs nc1)" using c1(2) by (simp add: sole_port_def)
  have f1: "find_tcb cip (tx_dip ?s1) (tx_hdr ?s1) ns = Some j"
    using assms by (intro find_listener) simp_all
  obtain seg1 where g1: "seg_hdr seg1 = tx_hdr ?s1" "seg_seqnr seg1 = new_iss nc" "seg_sip seg1 = cip"
      "deliver raw cip ?s1 ns = bind_result (tcp_rx_state raw j seg1 ns) (\<lambda>n1. Inr (True, n1))"
    using deliver_seg [OF _ f1, of raw] by auto
  obtain ns1 where a1: "tcp_rx_state raw j seg1 ns = Inr ns1" "list_common ns1 = c # list_common ns" "length (tcbs ns1) = Suc c"
      "\<exists>p m. get ns1 j = (get ns j)\<lparr>pchd := p, backcnt := m\<rparr>" "tstate (get ns1 c) = SYN_RCVD" "raddr (get ns1 c) = cip"
      "rport (get ns1 c) = cport" "lport (get ns1 c) = ntohs nport" "laddr (get ns1 c) = laddr (get ns j)" "ptcp (get ns1 c) = Some j"
      "snd_una (get ns1 c) = new_iss ns" "snd_nxt (get ns1 c) = new_iss ns + 1" "rcv_nxt (get ns1 c) = new_iss nc + 1"
      "sent ns1 = sent ns @ [\<lparr>tx_dip = cip, tx_hdr = \<lparr>h_sport = ntohs nport, h_dport = cport,
        h_seqnr = new_iss ns, h_acknr = new_iss nc + 1, h_flgs = TCP_F_SYN OR TCP_F_ACK, h_window = TCP_WINDOW,
        h_urgptr = 0\<rparr>, tx_data = []\<rparr>]" (is "_ = _ @ [?s2]")
    using listen_answers [OF j(1) assms(12,13) _ assms(15) refl, of seg1 raw] g1(1-3) j(2) by auto
  have f2: "find_tcb sip (tx_dip ?s2) (tx_hdr ?s2) nc1 = Some i"
    using assms(3,7) c1 by (intro find_connected [where port = cport]) simp_all
  obtain seg2 where g2: "seg_hdr seg2 = tx_hdr ?s2" "seg_seqnr seg2 = new_iss ns"
      "deliver raw sip ?s2 nc1 = bind_result (tcp_rx_state raw i seg2 nc1) (\<lambda>n1. Inr (True, n1))"
    using deliver_seg [OF _ f2, of raw] by auto
  obtain nc2 where a2: "tcp_rx_state raw i seg2 nc1 = Inr nc2" "tstate (get nc2 i) = ESTABLISHED"
      "rcv_nxt (get nc2 i) = new_iss ns + 1" "snd_nxt (get nc2 i) = new_iss nc + 1" "woken nc2 = woken nc @ [pid]"
      "sent nc2 = sent nc1 @ [\<lparr>tx_dip = sip, tx_hdr = \<lparr>h_sport = cport, h_dport = ntohs nport,
        h_seqnr = new_iss nc + 1, h_acknr = new_iss ns + 1, h_flgs = TCP_F_ACK, h_window = TCP_WINDOW,
        h_urgptr = 0\<rparr>, tx_data = []\<rparr>]" (is "_ = _ @ [?s3]")
    using client_connected [OF k1, of seg2 pid raw] g2(1,2) c1(4,5) i assms(8) by auto
  have f3: "find_tcb cip (tx_dip ?s3) (tx_hdr ?s3) ns1 = Some c"
    using a1 assms(14) by (auto simp: find_tcb_def ip_addr_cmp_def ip_addr_isany_def)
  obtain seg3 where g3: "seg_hdr seg3 = tx_hdr ?s3"
      "deliver raw cip ?s3 ns1 = bind_result (tcp_rx_state raw c seg3 ns1) (\<lambda>n1. Inr (True, n1))"
    using deliver_seg [OF _ f3, of raw] by auto
  obtain ns2 where a3: "tcp_rx_state raw c seg3 ns1 = Inr ns2" "get ns2 c = (get ns1 c)\<lparr>tstate := ESTABLISHED\<rparr>"
      "acpt (get ns2 j) = c # acpt (get ns1 j)"
    using server_connected [of c ns1 j "new_iss ns" seg3 raw] a1 g3(1) j assms(15) by auto
  have d: "deliver raw cip ?s1 ns = Inr (True, ns1)" "deliver raw sip ?s2 nc1 = Inr (True, nc2)"
      "deliver raw cip ?s3 ns1 = Inr (True, ns2)"
    using g1(4) a1(1) g2(3) a2(1) g3(2) a3(1) by simp_all
  have e: "tstate (get ns2 c) = ESTABLISHED" "acpt (get ns2 j) = c # acpt (get ns j)"
      "rcv_nxt (get nc2 i) = snd_nxt (get ns2 c)" "rcv_nxt (get ns2 c) = snd_nxt (get nc2 i)"
    using a1(4,12,13) a2(3,4) a3(2,3) by auto
  show ?thesis
    by (intro exI conjI)
      (rule c1(1), rule c1(6), rule d(1), rule a1(14), rule d(2), rule a2(6), rule d(3), rule a2(2), rule a2(5),
        rule e(1), rule e(2), rule e(3), rule e(4))
qed

lemma tcp_handshake_witness:
  "\<exists>nc1 s1 ns1. tcp_connect 7 0 (htons 80, 2) 16 [] (host 1 5 (blank_tcb\<lparr>lport := 1025\<rparr>) [0] []) = Blocked nc1 \<and>
     sent nc1 = [s1] \<and>
     deliver blank_tcb 1 s1 (host 2 9 (blank_tcb\<lparr>lport := 80, tstate := LISTEN, backlog := 1\<rparr>) [] [0]) = Inr (True, ns1)"
proof -
  have p: "htons 80 \<noteq> 0" by (simp add: htons_def)
  show ?thesis
    using tcp_handshake [of "host 1 5 (blank_tcb\<lparr>lport := 1025\<rparr>) [0] []" 0 1025 "htons 80" 1 7
        "host 2 9 (blank_tcb\<lparr>lport := 80, tstate := LISTEN, backlog := 1\<rparr>) [] [0]" 0 2 1 blank_tcb] p
    by (auto simp: sole_port_def host_def get_def blank_tcb_def swap16)
qed

section \<open>Reading from a connection\<close>

definition payload :: "mbuf_rx \<Rightarrow> bytes" where
  "payload m = drop 40 (r_bytes m)"

text \<open>A packet of the receive queue with some payload, and its push flag.\<close>

definition data_packet :: "bool \<Rightarrow> mbuf_rx \<Rightarrow> bool" where
  "data_packet psh m \<longleftrightarrow> 40 < length (r_bytes m) \<and> bit (r_bytes m ! 33) 3 = psh"

lemma rx_stream_payload: "rx_stream t = concat (map payload (buf_que t))"
  by (simp add: rx_stream_def payload_def [abs_def])

lemma recv_copy_packet:
  assumes "buf_que (get n i) = m # q" "data_packet psh m" "length (payload m) \<le> left"
  shows "recv_copy i left n = Inr (psh, payload m, upd i (\<lambda>t. t\<lparr>buf_que := q\<rparr>) n)"
  using assms by (simp add: recv_copy_def data_packet_def payload_def Let_def)

lemma recv_loop_drains:
  assumes "i < length (tcbs n)" "buf_que (get n i) = ps @ q" "\<forall>m \<in> set ps. data_packet False m"
    "length (concat (map payload ps)) \<le> left" "0 < len" "0 \<le> tc_errno (get n i)"
  shows "recv_loop (length ps + fuel) pid i len left got ws n =
     recv_loop fuel pid i len (left - length (concat (map payload ps))) (got @ concat (map payload ps)) ws
       (upd i (\<lambda>t. t\<lparr>buf_que := q\<rparr>) n)"
  using assms
proof (induction ps arbitrary: n left got)
  case Nil
  then have "(tcbs n ! i)\<lparr>buf_que := q\<rparr> = tcbs n ! i" by (cases "tcbs n ! i") (simp add: get_def)
  then have "upd i (\<lambda>t. t\<lparr>buf_que := q\<rparr>) n = n" by (simp add: upd_def)
  then show ?case by simp
next
  case (Cons m ps)
  let ?n = "upd i (\<lambda>t. t\<lparr>buf_que := ps @ q\<rparr>) n"
  have c: "recv_copy i left n = Inr (False, payload m, ?n)"
    using Cons.prems by (intro recv_copy_packet) auto
  have u: "upd i (\<lambda>t. t\<lparr>buf_que := q\<rparr>) ?n = upd i (\<lambda>t. t\<lparr>buf_que := q\<rparr>) n"
    using Cons.prems(1) by (simp add: upd_def)
  show ?case
    using c u Cons.prems Cons.IH [of ?n "left - length (payload m)" "got @ payload m"]
    by (simp add: recv_wait_def get_upd diff_diff_left [symmetric] del: diff_diff_left)
qed

text \<open>
  A read returns the queued stream up to the packet with the push flag, when it fits into the
  caller's buffer: the bytes in order, and their number.
\<close>

theorem recv_pushed_stream:
  assumes "i < length (tcbs n)" "buf_que (get n i) = ps @ m # q" "\<forall>p \<in> set ps. data_packet False p"
    "data_packet True m" "length (concat (map payload (ps @ [m]))) \<le> len" "0 \<le> tc_errno (get n i)" "length ps < fuel"
  shows "tcp_recvmsg fuel pid i len ws n =
     Some (Returns ws (upd i (\<lambda>t. t\<lparr>buf_que := q\<rparr>) n)
       (int (length (concat (map payload (ps @ [m])))), concat (map payload (ps @ [m]))))"
proof -
  obtain f where f: "fuel = length ps + Suc f" using assms(7) less_iff_Suc_add by auto
  have l: "0 < len" using assms(4,5) by (auto simp: data_packet_def payload_def)
  let ?left = "len - length (concat (map payload ps))" and ?n = "upd i (\<lambda>t. t\<lparr>buf_que := m # q\<rparr>) n"
  have "tcp_recvmsg fuel pid i len ws n = recv_loop (Suc f) pid i len ?left (concat (map payload ps)) ws ?n"
    unfolding tcp_recvmsg_def f using assms(1-3,5,6) l by (subst recv_loop_drains) auto
  moreover have "recv_copy i ?left ?n = Inr (True, payload m, upd i (\<lambda>t. t\<lparr>buf_que := q\<rparr>) ?n)"
    using assms(1,4,5) by (intro recv_copy_packet) (auto simp: get_upd)
  moreover have "upd i (\<lambda>t. t\<lparr>buf_que := q\<rparr>) ?n = upd i (\<lambda>t. t\<lparr>buf_que := q\<rparr>) n"
    using assms(1) by (simp add: upd_def)
  ultimately show ?thesis
    using assms(1,5,6) l by (simp add: recv_wait_def get_upd of_nat_diff)
qed

text \<open>A packet with 40 bytes of headers, the flags in place, and the payload.\<close>

definition rx_packet :: "u8 \<Rightarrow> bytes \<Rightarrow> mbuf_rx" where
  "rx_packet fl b = \<lparr>r_id = 0, r_bytes = replicate 33 0 @ fl # replicate 6 0 @ b\<rparr>"

lemma rx_packet: "b \<noteq> [] \<Longrightarrow> data_packet (bit fl 3) (rx_packet fl b)" "payload (rx_packet fl b) = b"
  by (simp_all add: data_packet_def payload_def rx_packet_def nth_append)

lemma recv_pushed_stream_witness:
  "tcp_recvmsg 2 7 0 8 [] (host 2 0 (blank_tcb\<lparr>buf_que := [rx_packet 16 [1, 2], rx_packet 24 [3]]\<rparr>) [0] []) =
     Some (Returns [] (host 2 0 blank_tcb [0] []) (3, [1, 2, 3]))"
  using recv_pushed_stream [of 0 "host 2 0 (blank_tcb\<lparr>buf_que := [rx_packet 16 [1, 2], rx_packet 24 [3]]\<rparr>) [0] []"
      "[rx_packet 16 [1, 2]]" "rx_packet 24 [3]" "[]" 8 2 7 "[]"]
    rx_packet(1) [of "[1, 2]" 16] rx_packet(1) [of "[3]" 24]
  by (simp add: host_def get_def upd_def rx_packet(2) blank_tcb_def)

text \<open>
  Without the push flag, which the senders of the same file never set, a read that has taken all
  the data there are does not return them: it blocks for more, also with the buffer full.
\<close>

theorem recv_without_push_blocks:
  assumes "i < length (tcbs n)" "\<forall>p \<in> set (buf_que (get n i)). data_packet False p" "0 < len"
    "length (rx_stream (get n i)) \<le> len" "0 \<le> tc_errno (get n i)" "rx_waiter (get n i) = - 1"
    "length (buf_que (get n i)) < fuel"
  shows "tcp_recvmsg fuel pid i len [] n =
     Some (Blocked (upd i (\<lambda>t. t\<lparr>buf_que := [], rx_waiter := pid\<rparr>) n))"
proof -
  obtain f where f: "fuel = length (buf_que (get n i)) + Suc f" using assms(7) less_iff_Suc_add by auto
  show ?thesis
    unfolding tcp_recvmsg_def f
    using assms recv_loop_drains [of i n "buf_que (get n i)" "[]" len len "Suc f" pid "[]" "[]"]
    by (simp add: rx_stream_payload recv_wait_def get_upd) (simp add: upd_def)
qed

lemma recv_without_push_blocks_witness:
  "tcp_recvmsg 2 7 0 2 [] (host 2 0 (blank_tcb\<lparr>buf_que := [rx_packet 16 [1, 2]]\<rparr>) [0] []) =
     Some (Blocked (host 2 0 (blank_tcb\<lparr>rx_waiter := 7\<rparr>) [0] []))"
  using recv_without_push_blocks [of 0 "host 2 0 (blank_tcb\<lparr>buf_que := [rx_packet 16 [1, 2]]\<rparr>) [0] []" 2 2 7]
    rx_packet(1) [of "[1, 2]" 16]
  by (simp add: host_def get_def upd_def rx_packet(2) rx_stream_payload blank_tcb_def)

end
