(* ===== verification/Fifo.thy ===== *)
theory Fifo
  imports Queue_Spec_Bytes
begin

text \<open>
  The byte queue of kernel/klib/fifo.c: a buffer of \<open>siz\<close> bytes with two free running 64-bit
  counters. The code keeps \<open>tail\<close> one buffer length ahead, so \<open>tail - siz - head\<close> is the number
  of queued bytes. All arithmetic is on 64-bit words, as in the code.
\<close>

section \<open>State and operations\<close>

record fifo =
  fbuf :: bytes
  fsiz :: size_t
  fhead :: size_t
  ftail :: size_t

definition fifo_clear :: "fifo \<Rightarrow> fifo" where
  "fifo_clear f = f\<lparr>fhead := 0, ftail := fsiz f\<rparr>"

text \<open>
  \<open>fifo_init\<close>: the caller's \<open>fifo_t\<close> and buffer are optional pointers; the result is \<open>None\<close> where
  the code returns NULL.
\<close>

definition fifo_init :: "fifo option \<Rightarrow> bytes option \<Rightarrow> size_t \<Rightarrow> fifo option result" where
  "fifo_init f b siz =
     (if siz = 0 then Inl AssertFail
      else case b of
        None \<Rightarrow> Inr None
      | Some bs \<Rightarrow>
          (case f of
             None \<Rightarrow> Inr None
           | Some ff \<Rightarrow> Inr (Some (fifo_clear (ff\<lparr>fbuf := bs, fsiz := siz\<rparr>)))))"

primrec fifo_write_loop :: "fifo \<Rightarrow> bytes \<Rightarrow> fifo" where
  "fifo_write_loop f [] = f"
| "fifo_write_loop f (c # cs) =
     fifo_write_loop
       (f\<lparr>fbuf := (fbuf f)[unat (ftail f mod fsiz f) := c], ftail := ftail f + 1\<rparr>) cs"

text \<open>\<open>fifo_write\<close>: the caller's pointer and length are the list of bytes they denote.\<close>

definition fifo_write :: "fifo \<Rightarrow> bytes \<Rightarrow> fifo \<times> size_t" where
  "fifo_write f data =
     (let rem = min (of_nat (length data)) (fsiz f - (ftail f - fsiz f - fhead f))
      in (fifo_write_loop f (take (unat rem) data), rem))"

primrec fifo_read_loop :: "nat \<Rightarrow> fifo \<Rightarrow> bytes \<times> fifo" where
  "fifo_read_loop 0 f = ([], f)"
| "fifo_read_loop (Suc k) f =
     (let c = fbuf f ! unat (fhead f mod fsiz f);
          r = fifo_read_loop k (f\<lparr>fhead := fhead f + 1\<rparr>)
      in (c # fst r, snd r))"

definition fifo_read :: "fifo \<Rightarrow> size_t \<Rightarrow> bytes \<times> fifo" where
  "fifo_read f siz = fifo_read_loop (unat (min siz (ftail f - fsiz f - fhead f))) f"

definition fifo_full :: "fifo \<Rightarrow> bool" where
  "fifo_full f \<longleftrightarrow> fhead f = ftail f"

definition fifo_empty :: "fifo \<Rightarrow> bool" where
  "fifo_empty f \<longleftrightarrow> fhead f + fsiz f = ftail f"

section \<open>Abstraction and invariant\<close>

definition fifo_len :: "fifo \<Rightarrow> nat" where
  "fifo_len f = unat (ftail f - fsiz f - fhead f)"

definition fifo_content :: "fifo \<Rightarrow> bytes" where
  "fifo_content f = cyc (fbuf f) (unat (fhead f)) (fifo_len f)"

text \<open>
  The buffer size divides the number of counter values (PAGE\_SIZ for a pipe), so that the
  counters may wrap around.
\<close>

definition fifo_ok :: "fifo \<Rightarrow> bool" where
  "fifo_ok f \<longleftrightarrow> fsiz f \<noteq> 0 \<and> unat (fsiz f) dvd 2 ^ 64 \<and> length (fbuf f) = unat (fsiz f) \<and>
     fifo_len f \<le> unat (fsiz f)"

lemma fifo_okD:
  assumes "fifo_ok f"
  shows "0 < unat (fsiz f)" "unat (fsiz f) dvd 2 ^ 64" "length (fbuf f) = unat (fsiz f)"
    "fifo_len f \<le> unat (fsiz f)"
  using assms by (simp_all add: fifo_ok_def unat_gt_0)

lemma fifo_tail_index:
  assumes "fifo_ok f"
  shows "unat (ftail f mod fsiz f) = (unat (fhead f) + fifo_len f) mod length (fbuf f)"
proof -
  let ?n = "unat (fsiz f)"
  have "ftail f = fhead f + of_nat (fifo_len f + ?n)"
    by (simp add: fifo_len_def)
  then have "unat (ftail f) mod ?n = (unat (fhead f) + (fifo_len f + ?n)) mod ?n"
    using unat_add_mod_dvd [of ?n "fhead f" "fifo_len f + ?n"] fifo_okD(2) [OF assms] by simp
  also have "\<dots> = (unat (fhead f) + fifo_len f) mod ?n"
    by (metis add.assoc mod_add_self2)
  finally show ?thesis
    using fifo_okD(3) [OF assms] by (simp add: unat_mod)
qed

lemma fifo_step_put:
  fixes c :: u8
  assumes "fifo_ok f" "fifo_len f < unat (fsiz f)"
  defines "g \<equiv> f\<lparr>fbuf := (fbuf f)[unat (ftail f mod fsiz f) := c], ftail := ftail f + 1\<rparr>"
  shows "fifo_ok g \<and> fifo_len g = Suc (fifo_len f) \<and> fsiz g = fsiz f \<and>
     fifo_content g = fifo_content f @ [c]"
proof -
  have b: "length (fbuf f) = unat (fsiz f)" by (rule fifo_okD(3) [OF assms(1)])
  have "unat (fsiz f) < 2 ^ 64" using unat_lt [of "fsiz f"] by simp
  then have "fifo_len f + 1 < 2 ^ 64" using assms(2) by linarith
  then have l: "fifo_len g = Suc (fifo_len f)"
  proof -
    have "ftail g - fsiz g - fhead g = (ftail f - fsiz f - fhead f) + 1" by (simp add: g_def)
    with \<open>fifo_len f + 1 < 2 ^ 64\<close> show ?thesis
      using unat_add_1_less [of "ftail f - fsiz f - fhead f"] by (simp add: fifo_len_def)
  qed
  have "fifo_content g = cyc ((fbuf f)[(unat (fhead f) + fifo_len f) mod length (fbuf f) := c])
           (unat (fhead f)) (Suc (fifo_len f))"
    unfolding fifo_content_def l by (simp add: g_def fifo_tail_index [OF assms(1)])
  also have "\<dots> = fifo_content f @ [c]"
    unfolding fifo_content_def using assms(2) b by (intro cyc_update_snoc) simp
  finally show ?thesis
    using l assms(1,2) by (simp add: fifo_ok_def g_def)
qed

lemma fifo_write_loop_spec:
  assumes "fifo_ok f" "fifo_len f + length d \<le> unat (fsiz f)"
  shows "fifo_ok (fifo_write_loop f d) \<and> fsiz (fifo_write_loop f d) = fsiz f \<and>
     fifo_content (fifo_write_loop f d) = fifo_content f @ d"
  using assms
proof (induction d arbitrary: f)
  case Nil
  then show ?case by simp
next
  case (Cons c d)
  from fifo_step_put [OF Cons.prems(1), of c] Cons.prems(2) Cons.IH show ?case by simp
qed

lemma fifo_room:
  "fifo_ok f \<Longrightarrow> unat (fsiz f - (ftail f - fsiz f - fhead f)) = unat (fsiz f) - fifo_len f"
  unfolding fifo_len_def
  by (rule unat_sub) (simp add: fifo_ok_def fifo_len_def word_le_nat_alt)

lemma fifo_write_spec:
  assumes "fifo_ok f" "length d < 2 ^ 64" "fifo_write f d = (g, n)"
  shows "unat n = min (length d) (unat (fsiz f) - fifo_len f) \<and> fifo_ok g \<and> fsiz g = fsiz f \<and>
     fifo_content g = fifo_content f @ take (unat n) d"
proof -
  have n: "unat n = min (length d) (unat (fsiz f) - fifo_len f)"
  proof -
    have "n = min (of_nat (length d)) (fsiz f - (ftail f - fsiz f - fhead f))"
      using assms(3) by (auto simp: fifo_write_def Let_def)
    moreover have "unat (of_nat (length d) :: size_t) = length d"
      using assms(2) by (simp add: unat_of_nat_small)
    ultimately show ?thesis by (simp only: unat_min fifo_room [OF assms(1)])
  qed
  moreover have "g = fifo_write_loop f (take (unat n) d)"
    using assms(3) by (auto simp: fifo_write_def Let_def)
  moreover have "fifo_len f \<le> unat (fsiz f)" by (rule fifo_okD(4) [OF assms(1)])
  ultimately show ?thesis
    using fifo_write_loop_spec [OF assms(1), of "take (unat n) d"] by simp
qed

lemma fifo_step_get:
  assumes "fifo_ok f" "0 < fifo_len f"
  shows "fifo_ok (f\<lparr>fhead := fhead f + 1\<rparr>) \<and>
     fifo_len (f\<lparr>fhead := fhead f + 1\<rparr>) = fifo_len f - 1 \<and>
     fifo_content f = fbuf f ! unat (fhead f mod fsiz f) # fifo_content (f\<lparr>fhead := fhead f + 1\<rparr>)"
proof -
  have b: "length (fbuf f) = unat (fsiz f)" by (rule fifo_okD(3) [OF assms(1)])
  have "1 \<le> ftail f - fsiz f - fhead f"
    using assms(2) by (simp add: fifo_len_def word_le_nat_alt)
  then have l: "fifo_len (f\<lparr>fhead := fhead f + 1\<rparr>) = fifo_len f - 1"
    by (simp add: fifo_len_def unat_sub flip: diff_diff_eq)
  have "unat (fhead f + 1) mod length (fbuf f) = Suc (unat (fhead f)) mod length (fbuf f)"
    using unat_add_mod_dvd [of "length (fbuf f)" "fhead f" 1] fifo_okD(2) [OF assms(1)] b by simp
  then have "cyc (fbuf f) (unat (fhead f + 1)) k = cyc (fbuf f) (Suc (unat (fhead f))) k" for k
    by (rule cyc_cong_mod)
  moreover obtain k where "fifo_len f = Suc k" using assms(2) by (cases "fifo_len f") auto
  ultimately have "fifo_content f =
      fbuf f ! unat (fhead f mod fsiz f) # fifo_content (f\<lparr>fhead := fhead f + 1\<rparr>)"
    using l b by (simp add: fifo_content_def cyc_Suc_front unat_mod)
  then show ?thesis
    using l fifo_okD [OF assms(1)] by (simp add: fifo_ok_def unat_gt_0)
qed

lemma fifo_read_loop_spec:
  assumes "fifo_ok f" "k \<le> fifo_len f" "fifo_read_loop k f = (d, g)"
  shows "fifo_ok g \<and> fsiz g = fsiz f \<and> d = take k (fifo_content f) \<and>
     fifo_content g = drop k (fifo_content f)"
  using assms
proof (induction k arbitrary: f d)
  case 0
  then show ?case by simp
next
  case (Suc k)
  let ?h = "f\<lparr>fhead := fhead f + 1\<rparr>"
  obtain e where e: "fifo_read_loop k ?h = (e, g)" and d: "d = fbuf f ! unat (fhead f mod fsiz f) # e"
    using Suc.prems(3) by (cases "fifo_read_loop k ?h") (auto simp: Let_def)
  have h: "fifo_ok ?h \<and> fifo_len ?h = fifo_len f - 1 \<and>
      fifo_content f = fbuf f ! unat (fhead f mod fsiz f) # fifo_content ?h"
    using Suc.prems by (intro fifo_step_get) auto
  with Suc.prems(2) have "k \<le> fifo_len ?h" by simp
  from Suc.IH [OF _ this e] h d show ?case by simp
qed

lemma fifo_read_spec:
  assumes "fifo_ok f" "fifo_read f n = (d, g)"
  shows "fifo_ok g \<and> fsiz g = fsiz f \<and> d = take (unat n) (fifo_content f) \<and>
     fifo_content g = drop (unat n) (fifo_content f)"
proof -
  let ?k = "min (unat n) (fifo_len f)"
  have "fifo_read_loop ?k f = (d, g)"
    using assms(2) by (simp add: fifo_read_def unat_min fifo_len_def)
  then have "fifo_ok g \<and> fsiz g = fsiz f \<and> d = take ?k (fifo_content f) \<and>
      fifo_content g = drop ?k (fifo_content f)"
    by (intro fifo_read_loop_spec [OF assms(1)]) auto
  moreover have "length (fifo_content f) = fifo_len f" by (simp add: fifo_content_def)
  ultimately show ?thesis by (auto simp: min_def)
qed

lemma fifo_length_content [simp]: "length (fifo_content f) = fifo_len f"
  by (simp add: fifo_content_def)

section \<open>The fifo is a block queue\<close>

interpretation kfifo: chunk_queue fifo_ok "\<lambda>f. unat (fsiz f)" fifo_content
  "\<lambda>f d. map_prod id unat (fifo_write f d)" "\<lambda>f k. fifo_read f (of_nat k)" "2 ^ 64"
proof
  show "length (fifo_content f) \<le> unat (fsiz f)" if "fifo_ok f" for f
    using that by (simp add: fifo_ok_def)
  show "1 < (2 ^ 64 :: nat)" by simp
  show "n = min (length d) (unat (fsiz f) - length (fifo_content f)) \<and> fifo_ok g \<and>
      unat (fsiz g) = unat (fsiz f) \<and> fifo_content g = fifo_content f @ take n d"
    if "fifo_ok f" "length d < 2 ^ 64" "map_prod id unat (fifo_write f d) = (g, n)" for f d g n
    using that fifo_write_spec [OF that(1,2)] by (cases "fifo_write f d") auto
  show "fifo_ok g \<and> unat (fsiz g) = unat (fsiz f) \<and> d = take k (fifo_content f) \<and>
      fifo_content g = drop k (fifo_content f)"
    if "fifo_ok f" "k < 2 ^ 64" "fifo_read f (of_nat k) = (d, g)" for f k d g
    using that(2) fifo_read_spec [OF that(1,3)] by (simp add: unat_of_nat_small)
qed

lemma fifo_empty_iff: "fifo_empty f \<longleftrightarrow> fifo_content f = []"
proof -
  have "fifo_content f = [] \<longleftrightarrow> ftail f - fsiz f - fhead f = 0"
    by (simp add: fifo_content_def fifo_len_def cyc_def unat_eq_0)
  then show ?thesis by (auto simp: fifo_empty_def algebra_simps)
qed

lemma fifo_init_ok:
  assumes "fifo_init (Some f) (Some b) n = Inr (Some g)" "length b = unat n" "unat n dvd 2 ^ 64"
  shows "fifo_ok g \<and> fifo_content g = [] \<and> fsiz g = n"
  using assms by (auto simp: fifo_init_def fifo_clear_def fifo_ok_def fifo_content_def fifo_len_def
      split: if_splits)

section \<open>Properties\<close>

text \<open>
  From \<open>fifo_init\<close> on, every sequence of block writes and reads keeps first-in first-out order:
  the bytes the writes accept are the bytes the reads return followed by what the queue still
  holds, which never exceeds its size, also after the 64-bit counters wrap around.
\<close>

theorem fifo_stream_order:
  assumes "fifo_init (Some f) (Some b) n = Inr (Some g)" "length b = unat n" "unat n dvd 2 ^ 64"
    "\<forall>op \<in> set ops. cop_size op < 2 ^ 64"
    "crun (\<lambda>f d. map_prod id unat (fifo_write f d)) (\<lambda>f k. fifo_read f (of_nat k)) ops g = (acc, got, h)"
  shows "acc = got @ fifo_content h \<and> length (fifo_content h) \<le> unat n \<and>
     (fifo_empty h \<longleftrightarrow> acc = got)"
proof -
  note g = fifo_init_ok [OF assms(1-3)]
  note c = kfifo.chunk_order [OF _ assms(4), of g] and l = kfifo.content_cap [of h]
  have "fifo_ok h" "unat (fsiz h) = unat n" "acc = got @ fifo_content h"
    using c g assms(5) by simp_all
  then show ?thesis using l by (simp add: fifo_empty_iff)
qed

text \<open>
  \<open>fifo_full\<close> compares \<open>head\<close> with \<open>tail\<close>, but \<open>tail\<close> starts one buffer length ahead: a full queue
  has \<open>tail = head + 2 * siz\<close>, and the test answers false in every state of a queue smaller
  than half the address space, also in the states in which a write accepts nothing.
\<close>

theorem fifo_full_never:
  assumes "fifo_ok f" "unat (fsiz f) < 2 ^ 63"
  shows "\<not> fifo_full f \<and> (fifo_len f = unat (fsiz f) \<longrightarrow> snd (fifo_write f [c]) = 0)"
proof
  show "\<not> fifo_full f"
  proof
    assume "fifo_full f"
    then have "fifo_len f = unat (- fsiz f)" by (simp add: fifo_full_def fifo_len_def)
    also have "\<dots> = 2 ^ 64 - unat (fsiz f)"
      using fifo_okD(1) [OF assms(1)] unat_neg_word [of "fsiz f"] by (simp add: unat_gt_0)
    finally show False using fifo_okD(4) [OF assms(1)] assms(2) by simp
  qed
  show "fifo_len f = unat (fsiz f) \<longrightarrow> snd (fifo_write f [c]) = 0"
    using fifo_write_spec [OF assms(1), of "[c]"] by (cases "fifo_write f [c]") (simp flip: unat_eq_0)
qed

text \<open>A queue of two bytes, after one write of three.\<close>

definition fifo2 :: fifo where
  "fifo2 = \<lparr>fbuf = [0, 0], fsiz = 2, fhead = 0, ftail = 2\<rparr>"

lemma fifo_stream_order_witness:
  "fifo_init (Some fifo2) (Some [0, 0]) 2 = Inr (Some fifo2) \<and>
   (\<exists>acc got h. crun (\<lambda>f d. map_prod id unat (fifo_write f d)) (\<lambda>f k. fifo_read f (of_nat k))
      [Wr [5, 6, 7], Rd 1, Wr [8]] fifo2 = (acc, got, h) \<and> acc = got @ fifo_content h)"
proof -
  have i: "fifo_init (Some fifo2) (Some [0, 0]) 2 = Inr (Some fifo2)"
    by (simp add: fifo_init_def fifo_clear_def fifo2_def)
  obtain acc got h where c: "crun (\<lambda>f d. map_prod id unat (fifo_write f d)) (\<lambda>f k. fifo_read f (of_nat k))
      [Wr [5, 6, 7], Rd 1, Wr [8]] fifo2 = (acc, got, h)"
    by (metis prod_cases3)
  show ?thesis using fifo_stream_order [OF i _ _ _ c] i c by auto
qed

lemma fifo_full_never_witness: "\<not> fifo_full (fifo2\<lparr>ftail := 4\<rparr>) \<and> snd (fifo_write (fifo2\<lparr>ftail := 4\<rparr>) [1]) = 0"
proof -
  have "fifo_ok (fifo2\<lparr>ftail := 4\<rparr>)" "fifo_len (fifo2\<lparr>ftail := 4\<rparr>) = 2"
    by (simp_all add: fifo_ok_def fifo_len_def fifo2_def)
  then show ?thesis using fifo_full_never [of "fifo2\<lparr>ftail := 4\<rparr>" 1] by (simp add: fifo2_def)
qed

end
