(* ===== verification/Lock.thy ===== *)
theory Lock
  imports Prelude Transition
begin

text \<open>
  kernel/lock.c: the binary semaphore and the recursive lock on top of it. A task is its number. The
  bodies of \<open>sema_up\<close> and \<open>sema_down\<close> run with interrupts off, so each pass of the loop of \<open>sema_down\<close> is
  one step; \<open>lock_acquire\<close> and \<open>lock_release\<close> are not, so what they do before and after the semaphore
  are steps of their own, between which any other task may run.
\<close>

section \<open>Operations\<close>

record semaphore =
  val :: int
  waiter :: "nat list"

definition sema_init :: "int \<Rightarrow> semaphore" where
  "sema_init v = \<lparr>val = v, waiter = []\<rparr>"

text \<open>\<open>sema_up\<close> unblocks the first task of the list, if there is one.\<close>

definition sema_up :: "semaphore \<Rightarrow> (semaphore \<times> nat option) result" where
  "sema_up s =
     (if val s \<noteq> 0 then Inl AssertFail
      else let s1 = s\<lparr>val := val s + 1\<rparr>
           in if val s1 \<noteq> 1 then Inl AssertFail
              else case waiter s1 of
                     [] \<Rightarrow> Inr (s1, None)
                   | t # ts \<Rightarrow> Inr (s1\<lparr>waiter := ts\<rparr>, Some t))"

text \<open>
  One pass of \<open>sema_down\<close> for task \<open>t\<close>: either the semaphore is free and taken (\<open>True\<close>), or the task is
  put in front of the waiters and blocks; when it is unblocked it makes another pass.
\<close>

definition sema_down :: "nat \<Rightarrow> semaphore \<Rightarrow> (semaphore \<times> bool) result" where
  "sema_down t s =
     (if val s = 0 then Inr (s\<lparr>waiter := t # waiter s\<rparr>, False)
      else if val s \<noteq> 1 then Inl AssertFail
      else let s1 = s\<lparr>val := val s - 1\<rparr>
           in if val s1 \<noteq> 0 then Inl AssertFail else Inr (s1, True))"

record lock =
  holder :: "nat option"
  hrepeat :: u32
  sema :: semaphore

definition lock_init :: lock where
  "lock_init = \<lparr>holder = None, hrepeat = 0, sema = sema_init 1\<rparr>"

text \<open>\<open>lock_acquire\<close> up to the semaphore: \<open>True\<close> when the task holds the lock already.\<close>

definition lock_acquire_enter :: "nat \<Rightarrow> lock \<Rightarrow> lock \<times> bool" where
  "lock_acquire_enter t l =
     (if holder l \<noteq> Some t then (l, False) else (l\<lparr>hrepeat := hrepeat l + 1\<rparr>, True))"

definition lock_acquire_take :: "nat \<Rightarrow> lock \<Rightarrow> lock" where
  "lock_acquire_take t l = l\<lparr>holder := Some t, hrepeat := 1\<rparr>"

text \<open>\<open>lock_release\<close> up to the semaphore: \<open>True\<close> when the semaphore is to be raised.\<close>

definition lock_release_enter :: "nat \<Rightarrow> lock \<Rightarrow> (lock \<times> bool) result" where
  "lock_release_enter t l =
     (if holder l \<noteq> Some t then Inl AssertFail
      else if hrepeat l > 1 then Inr (l\<lparr>hrepeat := hrepeat l - 1\<rparr>, False)
      else Inr (l\<lparr>holder := None, hrepeat := 0\<rparr>, True))"

section \<open>Interleaving\<close>

text \<open>Where a task is in its use of the lock.\<close>

datatype pc = Outside | Downing | Waiting | Taking | Inside | Upping

record locksys =
  lck :: lock
  pcs :: "nat \<Rightarrow> pc"
  failed :: bool

definition unblock :: "nat option \<Rightarrow> (nat \<Rightarrow> pc) \<Rightarrow> nat \<Rightarrow> pc" where
  "unblock w p = (case w of None \<Rightarrow> p | Some t \<Rightarrow> p(t := Downing))"

text \<open>
  The steps of the tasks. A task outside calls \<open>lock_acquire\<close>; one inside calls it again or calls
  \<open>lock_release\<close>. A failed assertion sets \<open>failed\<close>.
\<close>

definition enter_step :: "nat \<Rightarrow> locksys \<Rightarrow> locksys" where
  "enter_step t s =
     (case lock_acquire_enter t (lck s) of
        (l, again) \<Rightarrow> s\<lparr>lck := l, pcs := (pcs s)(t := if again then Inside else Downing)\<rparr>)"

definition down_step :: "nat \<Rightarrow> locksys \<Rightarrow> locksys" where
  "down_step t s =
     (case sema_down t (sema (lck s)) of
        Inl _ \<Rightarrow> s\<lparr>failed := True\<rparr>
      | Inr (m, got) \<Rightarrow> s\<lparr>lck := (lck s)\<lparr>sema := m\<rparr>, pcs := (pcs s)(t := if got then Taking else Waiting)\<rparr>)"

definition take_step :: "nat \<Rightarrow> locksys \<Rightarrow> locksys" where
  "take_step t s = s\<lparr>lck := lock_acquire_take t (lck s), pcs := (pcs s)(t := Inside)\<rparr>"

definition release_step :: "nat \<Rightarrow> locksys \<Rightarrow> locksys" where
  "release_step t s =
     (case lock_release_enter t (lck s) of
        Inl _ \<Rightarrow> s\<lparr>failed := True\<rparr>
      | Inr (l, up) \<Rightarrow> s\<lparr>lck := l, pcs := (pcs s)(t := if up then Upping else Inside)\<rparr>)"

definition up_step :: "nat \<Rightarrow> locksys \<Rightarrow> locksys" where
  "up_step t s =
     (case sema_up (sema (lck s)) of
        Inl _ \<Rightarrow> s\<lparr>failed := True\<rparr>
      | Inr (m, w) \<Rightarrow> s\<lparr>lck := (lck s)\<lparr>sema := m\<rparr>, pcs := unblock w ((pcs s)(t := Outside))\<rparr>)"

inductive lstep :: "locksys \<Rightarrow> locksys \<Rightarrow> bool" where
  enter: "pcs s t \<in> {Outside, Inside} \<Longrightarrow> lstep s (enter_step t s)"
| down: "pcs s t = Downing \<Longrightarrow> lstep s (down_step t s)"
| take: "pcs s t = Taking \<Longrightarrow> lstep s (take_step t s)"
| release: "pcs s t = Inside \<Longrightarrow> lstep s (release_step t s)"
| up: "pcs s t = Upping \<Longrightarrow> lstep s (up_step t s)"

definition lboot :: "locksys \<Rightarrow> bool" where
  "lboot s \<longleftrightarrow> lck s = lock_init \<and> pcs s = (\<lambda>_. Outside) \<and> \<not> failed s"

section \<open>Mutual exclusion\<close>

text \<open>
  The tasks past the semaphore: at most one, and the semaphore is taken exactly when there is one. The
  holder is the task inside, and the waiters are the tasks that wait.
\<close>

definition owning :: "locksys \<Rightarrow> nat set" where
  "owning s = {t. pcs s t \<in> {Taking, Inside, Upping}}"

definition linv :: "locksys \<Rightarrow> bool" where
  "linv s \<longleftrightarrow> \<not> failed s \<and>
     (val (sema (lck s)) = 1 \<and> owning s = {} \<or> val (sema (lck s)) = 0 \<and> (\<exists>t. owning s = {t})) \<and>
     (\<forall>t. holder (lck s) = Some t \<longleftrightarrow> pcs s t = Inside) \<and>
     distinct (waiter (sema (lck s))) \<and> set (waiter (sema (lck s))) = {t. pcs s t = Waiting}"

lemma owning_upd:
  "owning (s\<lparr>lck := l, pcs := (pcs s)(t := p)\<rparr>) =
     (if p \<in> {Taking, Inside, Upping} then insert t (owning s) else owning s - {t})"
  by (auto simp: owning_def)

lemma linvD:
  assumes "linv s"
  shows "\<not> failed s" "holder (lck s) = Some t \<longleftrightarrow> pcs s t = Inside" "distinct (waiter (sema (lck s)))"
    "set (waiter (sema (lck s))) = {t. pcs s t = Waiting}"
    "t \<in> owning s \<Longrightarrow> val (sema (lck s)) = 0 \<and> owning s = {t}"
    "val (sema (lck s)) \<noteq> 0 \<Longrightarrow> val (sema (lck s)) = 1 \<and> owning s = {}"
  using assms by (auto simp: linv_def)

lemma linv_enter:
  assumes "pcs s t \<in> {Outside, Inside}" "linv s"
  shows "linv (enter_step t s)"
proof (cases "pcs s t = Inside")
  case True
  then have "enter_step t s = s\<lparr>lck := (lck s)\<lparr>hrepeat := hrepeat (lck s) + 1\<rparr>\<rparr>"
    using linvD(2) [OF assms(2), of t] by (simp add: enter_step_def lock_acquire_enter_def fun_upd_idem)
  then show ?thesis using assms(2) by (simp add: linv_def owning_def)
next
  case False
  then have "enter_step t s = s\<lparr>pcs := (pcs s)(t := Downing)\<rparr>" "pcs s t = Outside"
    using assms(1) linvD(2) [OF assms(2), of t] by (auto simp: enter_step_def lock_acquire_enter_def)
  moreover have "owning (s\<lparr>pcs := (pcs s)(t := Downing)\<rparr>) = owning s"
    using \<open>pcs s t = Outside\<close> by (auto simp: owning_def)
  ultimately show ?thesis using assms(2) by (auto simp: linv_def)
qed

lemma linv_down:
  assumes "pcs s t = Downing" "linv s"
  shows "linv (down_step t s)"
proof (cases "val (sema (lck s)) = 0")
  case True
  then have "down_step t s = s\<lparr>lck := (lck s)\<lparr>sema := (sema (lck s))\<lparr>waiter := t # waiter (sema (lck s))\<rparr>\<rparr>,
      pcs := (pcs s)(t := Waiting)\<rparr>"
    by (simp add: down_step_def sema_down_def)
  moreover have "owning (down_step t s) = owning s"
    unfolding calculation using assms(1) by (auto simp: owning_def)
  ultimately show ?thesis using assms True by (auto simp: linv_def)
next
  case False
  from linvD(6) [OF assms(2) this] have v: "val (sema (lck s)) = 1" "owning s = {}" by auto
  then have "down_step t s = s\<lparr>lck := (lck s)\<lparr>sema := (sema (lck s))\<lparr>val := 0\<rparr>\<rparr>, pcs := (pcs s)(t := Taking)\<rparr>"
    by (simp add: down_step_def sema_down_def)
  then show ?thesis using assms v by (auto simp: linv_def owning_def)
qed

lemma linv_take:
  assumes "pcs s t = Taking" "linv s"
  shows "linv (take_step t s)"
proof -
  have "t \<in> owning s" using assms(1) by (simp add: owning_def)
  from linvD(5) [OF assms(2) this] have "val (sema (lck s)) = 0" "owning s = {t}" by auto
  then show ?thesis using assms by (auto simp: linv_def owning_def take_step_def lock_acquire_take_def)
qed

lemma linv_release:
  assumes "pcs s t = Inside" "linv s"
  shows "linv (release_step t s)"
proof -
  have "t \<in> owning s" using assms(1) by (simp add: owning_def)
  from linvD(5) [OF assms(2) this] have v: "val (sema (lck s)) = 0" "owning s = {t}" by auto
  have h: "holder (lck s) = Some t" using assms linvD(2) by blast
  show ?thesis
  proof (cases "hrepeat (lck s) > 1")
    case True
    then have "release_step t s = s\<lparr>lck := (lck s)\<lparr>hrepeat := hrepeat (lck s) - 1\<rparr>\<rparr>"
      using h assms(1) by (simp add: release_step_def lock_release_enter_def fun_upd_idem)
    then show ?thesis using assms(2) by (simp add: linv_def owning_def)
  next
    case False
    then have "release_step t s = s\<lparr>lck := (lck s)\<lparr>holder := None, hrepeat := 0\<rparr>, pcs := (pcs s)(t := Upping)\<rparr>"
      using h by (simp add: release_step_def lock_release_enter_def)
    then show ?thesis using assms v h by (auto simp: linv_def owning_def)
  qed
qed

lemma linv_up:
  assumes "pcs s t = Upping" "linv s"
  shows "linv (up_step t s)"
proof -
  have "t \<in> owning s" using assms(1) by (simp add: owning_def)
  from linvD(5) [OF assms(2) this] have v: "val (sema (lck s)) = 0" "owning s = {t}" by auto
  have n: "holder (lck s) = None"
  proof (cases "holder (lck s)")
    case (Some a)
    then have "pcs s a = Inside" using linvD(2) [OF assms(2)] by blast
    then have "a \<in> owning s" by (simp add: owning_def)
    with v(2) assms(1) \<open>pcs s a = Inside\<close> show ?thesis by auto
  qed
  show ?thesis
  proof (cases "waiter (sema (lck s))")
    case Nil
    then have "up_step t s = s\<lparr>lck := (lck s)\<lparr>sema := (sema (lck s))\<lparr>val := 1\<rparr>\<rparr>, pcs := (pcs s)(t := Outside)\<rparr>"
      using v by (simp add: up_step_def sema_up_def unblock_def Let_def)
    then show ?thesis using assms v n by (auto simp: linv_def owning_def)
  next
    case (Cons w ws)
    then have "up_step t s = s\<lparr>lck := (lck s)\<lparr>sema := (sema (lck s))\<lparr>val := 1, waiter := ws\<rparr>\<rparr>,
        pcs := (pcs s)(t := Outside, w := Downing)\<rparr>"
      using v by (simp add: up_step_def sema_up_def unblock_def Let_def)
    moreover have "pcs s w = Waiting" "w \<notin> set ws" "\<And>x. x \<in> set ws \<longleftrightarrow> x \<noteq> w \<and> pcs s x = Waiting" "distinct ws"
      using linvD(3,4) [OF assms(2)] Cons by auto
    ultimately show ?thesis using assms v n by (auto simp: linv_def owning_def)
  qed
qed

interpretation locks: keeps lboot lstep linv
proof
  show "lboot s \<Longrightarrow> linv s" for s
    by (auto simp: lboot_def linv_def owning_def lock_init_def sema_init_def)
  show "lstep s s' \<Longrightarrow> linv s \<Longrightarrow> linv s'" for s s'
    by (erule lstep.cases) (auto intro: linv_enter linv_down linv_take linv_release linv_up)
qed

text \<open>
  C27. However the tasks that use a lock are interleaved, at most one is past the semaphore, no
  assertion of the semaphore or of the lock fails, and the holder is the task inside.
\<close>

theorem lock_mutual_exclusion:
  assumes "reach lboot lstep s"
  shows "\<not> failed s \<and> (\<forall>t t'. pcs s t \<in> {Taking, Inside, Upping} \<and> pcs s t' \<in> {Taking, Inside, Upping} \<longrightarrow> t = t') \<and>
     (\<forall>t. holder (lck s) = Some t \<longleftrightarrow> pcs s t = Inside)"
proof -
  have i: "linv s" using assms by (rule locks.good_reach)
  have "t = t'" if "pcs s t \<in> {Taking, Inside, Upping}" "pcs s t' \<in> {Taking, Inside, Upping}" for t t'
    using linvD(5) [OF i, of t] linvD(5) [OF i, of t'] that by (auto simp: owning_def)
  then show ?thesis using linvD(1,2) [OF i] by blast
qed

text \<open>Two tasks: the first is inside, the second waits.\<close>

definition contended :: locksys where
  "contended = down_step 2 (enter_step 2 (take_step 1 (down_step 1 (enter_step 1
     \<lparr>lck = lock_init, pcs = \<lambda>_. Outside, failed = False\<rparr>))))"

lemmas lock_step_defs = enter_step_def down_step_def take_step_def release_step_def up_step_def
  lock_acquire_enter_def lock_acquire_take_def lock_release_enter_def sema_down_def sema_up_def
  lock_init_def sema_init_def unblock_def

lemma contended_eval: "pcs contended 1 = Inside" "pcs contended 2 = Waiting"
  by (simp_all add: contended_def lock_step_defs)

lemma reach_lock:
  assumes "reach lboot lstep s"
  shows "pcs s t \<in> {Outside, Inside} \<Longrightarrow> reach lboot lstep (enter_step t s)"
    "pcs s t = Downing \<Longrightarrow> reach lboot lstep (down_step t s)"
    "pcs s t = Taking \<Longrightarrow> reach lboot lstep (take_step t s)"
  using assms by (auto intro: reach_step lstep.intros)

lemma contended_reach: "reach lboot lstep contended"
  unfolding contended_def
  by (intro reach_lock reach_start) (simp_all add: lock_step_defs lboot_def)

lemma lock_mutual_exclusion_witness:
  "\<not> failed contended \<and> holder (lck contended) = Some 1 \<and> pcs contended 2 = Waiting"
  using lock_mutual_exclusion [OF contended_reach] contended_eval by blast

end
