(* ===== verification/Pipe.thy ===== *)
theory Pipe
  imports Fifo Lock
begin

text \<open>
  kernel/fs/pipe.c: a page-sized byte queue with at most one waiting reader and one waiting writer.
  System calls run with interrupts off, so a task gives up the processor in \<open>task_block\<close> only; the
  lock of the pipe is released before that and is free whenever another task runs. One pass of the
  loop of \<open>pipe_read\<close> or \<open>pipe_write\<close>, from the start or from the return of \<open>task_block\<close> to the next
  \<open>task_block\<close> or the end, is one step.
\<close>

section \<open>Operations\<close>

record pipe =
  pfifo :: fifo
  plock :: lock
  rd_waiter :: int
  wr_waiter :: int

text \<open>\<open>pipe_init\<close>: \<open>pb\<close> is the page and \<open>raw\<close> the \<open>fifo_t\<close> in the allocated structure.\<close>

definition pipe_init :: "fifo \<Rightarrow> bytes \<Rightarrow> pipe result" where
  "pipe_init raw pb =
     bind_result (fifo_init (Some raw) (Some pb) 4096)
       (\<lambda>r. case r of None \<Rightarrow> Inl BadAccess
            | Some f \<Rightarrow> Inr \<lparr>pfifo = f, plock = lock_init, rd_waiter = - 1, wr_waiter = - 1\<rparr>)"

text \<open>
  A pass: the bytes moved, whether the call is complete, the task it unblocks, and the pipe. A call that
  is not complete has entered itself as the waiter. The calls end without a return value.
\<close>

definition waiter_of :: "int \<Rightarrow> int option" where
  "waiter_of w = (if w \<ge> 0 then Some w else None)"

definition pipe_read :: "int \<Rightarrow> pipe \<Rightarrow> nat \<Rightarrow> (bytes \<times> bool \<times> int option \<times> pipe) result" where
  "pipe_read pid p siz =
     (case fifo_read (pfifo p) (of_nat siz) of
        (d, f) \<Rightarrow>
          (let p1 = p\<lparr>pfifo := f\<rparr>; w = waiter_of (wr_waiter p)
           in if siz - length d = 0 then Inr (d, True, w, p1)
              else if rd_waiter p1 \<noteq> - 1 then Inl AssertFail
              else Inr (d, False, w, p1\<lparr>rd_waiter := pid\<rparr>)))"

definition pipe_write :: "int \<Rightarrow> pipe \<Rightarrow> bytes \<Rightarrow> (nat \<times> bool \<times> int option \<times> pipe) result" where
  "pipe_write pid p buf =
     (case fifo_write (pfifo p) buf of
        (f, k) \<Rightarrow>
          (let p1 = p\<lparr>pfifo := f\<rparr>; w = waiter_of (rd_waiter p)
           in if length buf - unat k = 0 then Inr (unat k, True, w, p1)
              else if wr_waiter p1 \<noteq> - 1 then Inl AssertFail
              else Inr (unat k, False, w, p1\<lparr>wr_waiter := pid\<rparr>)))"

text \<open>The end of \<open>block_as\<close>, when the task runs again.\<close>

definition read_resume :: "pipe \<Rightarrow> pipe" where
  "read_resume p = p\<lparr>rd_waiter := - 1\<rparr>"

definition write_resume :: "pipe \<Rightarrow> pipe" where
  "write_resume p = p\<lparr>wr_waiter := - 1\<rparr>"

section \<open>A reader and a writer\<close>

datatype side = Start | Asleep | Awake | Finished

record pipesys =
  pip :: pipe
  rpc :: side
  wpc :: side
  want :: nat
  got :: bytes
  todo :: bytes
  pfailed :: bool

definition wake :: "int option \<Rightarrow> int \<Rightarrow> side \<Rightarrow> side" where
  "wake w pid sd = (if w = Some pid \<and> sd = Asleep then Awake else sd)"

definition read_step :: "int \<Rightarrow> int \<Rightarrow> pipesys \<Rightarrow> pipesys" where
  "read_step r w s =
     (case pipe_read r (if rpc s = Awake then read_resume (pip s) else pip s) (want s) of
        Inl _ \<Rightarrow> s\<lparr>pfailed := True\<rparr>
      | Inr (d, fin, u, p) \<Rightarrow>
          s\<lparr>pip := p, rpc := (if fin then Finished else Asleep), wpc := wake u w (wpc s),
            want := want s - length d, got := got s @ d\<rparr>)"

definition write_step :: "int \<Rightarrow> int \<Rightarrow> pipesys \<Rightarrow> pipesys" where
  "write_step r w s =
     (case pipe_write w (if wpc s = Awake then write_resume (pip s) else pip s) (todo s) of
        Inl _ \<Rightarrow> s\<lparr>pfailed := True\<rparr>
      | Inr (k, fin, u, p) \<Rightarrow>
          s\<lparr>pip := p, wpc := (if fin then Finished else Asleep), rpc := wake u r (rpc s),
            todo := drop k (todo s)\<rparr>)"

inductive pstep :: "int \<Rightarrow> int \<Rightarrow> pipesys \<Rightarrow> pipesys \<Rightarrow> bool" for r w where
  reader: "rpc s \<in> {Start, Awake} \<Longrightarrow> pstep r w s (read_step r w s)"
| writer: "wpc s \<in> {Start, Awake} \<Longrightarrow> pstep r w s (write_step r w s)"

text \<open>
  A new pipe, a task \<open>r\<close> that is about to read \<open>n\<close> bytes and a task \<open>w\<close> that is about to write \<open>data\<close>; the
  sizes are values of \<open>size_t\<close>.
\<close>

definition pboot :: "int \<Rightarrow> int \<Rightarrow> nat \<Rightarrow> bytes \<Rightarrow> pipesys \<Rightarrow> bool" where
  "pboot r w n data s \<longleftrightarrow> 0 \<le> r \<and> 0 \<le> w \<and> n < 2 ^ 64 \<and> length data < 2 ^ 64 \<and> (\<exists>raw pb. length pb = 4096 \<and> pipe_init raw pb = Inr (pip s)) \<and>
     rpc s = Start \<and> wpc s = Start \<and> want s = n \<and> got s = [] \<and> todo s = data \<and> \<not> pfailed s"

section \<open>The stream through the pipe\<close>

definition content_of :: "pipesys \<Rightarrow> bytes" where
  "content_of s = fifo_content (pfifo (pip s))"

definition pinv :: "int \<Rightarrow> int \<Rightarrow> nat \<Rightarrow> bytes \<Rightarrow> pipesys \<Rightarrow> bool" where
  "pinv r w n data s \<longleftrightarrow> 0 \<le> r \<and> 0 \<le> w \<and> n < 2 ^ 64 \<and> length data < 2 ^ 64 \<and> \<not> pfailed s \<and> fifo_ok (pfifo (pip s)) \<and> unat (fsiz (pfifo (pip s))) = 4096 \<and>
     got s @ content_of s @ todo s = data \<and> length (got s) + want s = n \<and>
     rd_waiter (pip s) = (if rpc s \<in> {Asleep, Awake} then r else - 1) \<and>
     wr_waiter (pip s) = (if wpc s \<in> {Asleep, Awake} then w else - 1) \<and>
     (rpc s = Asleep \<longrightarrow> content_of s = [] \<and> 0 < want s) \<and>
     (wpc s = Asleep \<longrightarrow> length (content_of s) = 4096 \<and> todo s \<noteq> []) \<and>
     (rpc s = Finished \<longrightarrow> want s = 0) \<and> (wpc s = Finished \<longrightarrow> todo s = [])"

lemma pinv_read:
  assumes "pinv r w n data s" "rpc s \<in> {Start, Awake}"
  shows "pinv r w n data (read_step r w s)"
proof -
  let ?p = "if rpc s = Awake then read_resume (pip s) else pip s"
  have i: "fifo_ok (pfifo (pip s))" "unat (fsiz (pfifo (pip s))) = 4096" "want s < 2 ^ 64"
    using assms(1) by (auto simp: pinv_def)
  obtain d f where rd: "fifo_read (pfifo (pip s)) (of_nat (want s)) = (d, f)" by fastforce
  have f: "fifo_ok f" "unat (fsiz f) = 4096" "d = take (want s) (content_of s)" "fifo_content f = drop (want s) (content_of s)"
    using kfifo.rd_spec [OF i(1,3) rd] i(2) by (auto simp: content_of_def)
  have p: "pfifo ?p = pfifo (pip s)" "rd_waiter ?p = - 1" "wr_waiter ?p = wr_waiter (pip s)"
    using assms(1,2) by (auto simp: read_resume_def pinv_def)
  have e: "pipe_read r ?p (want s) = Inr (d, want s \<le> length d, waiter_of (wr_waiter (pip s)),
      if want s \<le> length d then ?p\<lparr>pfifo := f\<rparr> else ?p\<lparr>pfifo := f, rd_waiter := r\<rparr>)"
    using p rd by (simp add: pipe_read_def Let_def)
  have l: "length d = min (want s) (length (content_of s))" using f(3) by simp
  show ?thesis
    using assms f(1,2,4) p l unfolding read_step_def e
    by (auto simp: pinv_def content_of_def f(3) waiter_of_def wake_def split: if_splits)
qed

lemma pinv_write:
  assumes "pinv r w n data s" "wpc s \<in> {Start, Awake}"
  shows "pinv r w n data (write_step r w s)"
proof -
  let ?p = "if wpc s = Awake then write_resume (pip s) else pip s"
  have i: "fifo_ok (pfifo (pip s))" "unat (fsiz (pfifo (pip s))) = 4096" "length (todo s) < 2 ^ 64"
    using assms(1) by (auto simp: pinv_def)
  obtain f k where wr: "fifo_write (pfifo (pip s)) (todo s) = (f, k)" by fastforce
  have f: "unat k = min (length (todo s)) (4096 - length (content_of s))" "fifo_ok f" "unat (fsiz f) = 4096"
      "fifo_content f = content_of s @ take (unat k) (todo s)"
    using kfifo.wr_spec [OF i(1,3), of f "unat k"] wr i(2) by (simp_all add: content_of_def)
  have c: "length (content_of s) \<le> 4096" using kfifo.content_cap [OF i(1)] i(2) by (simp add: content_of_def)
  have p: "pfifo ?p = pfifo (pip s)" "wr_waiter ?p = - 1" "rd_waiter ?p = rd_waiter (pip s)"
    using assms(1,2) by (auto simp: write_resume_def pinv_def)
  have e: "pipe_write w ?p (todo s) = Inr (unat k, length (todo s) \<le> unat k, waiter_of (rd_waiter (pip s)),
      if length (todo s) \<le> unat k then ?p\<lparr>pfifo := f\<rparr> else ?p\<lparr>pfifo := f, wr_waiter := w\<rparr>)"
    using p wr by (simp add: pipe_write_def Let_def)
  have "length (fifo_content f) = length (content_of s) + min (unat k) (length (todo s))" unfolding f(4) by simp
  then have "\<not> length (todo s) \<le> unat k \<longrightarrow> fifo_len f = 4096" using f(1) c by auto
  then show ?thesis
    using assms f(2-4) p unfolding write_step_def e
    by (auto simp: pinv_def content_of_def waiter_of_def wake_def split: if_splits)
qed

interpretation pipes: keeps "pboot r w n data" "pstep r w" "pinv r w n data" for r w n data
proof
  show "pinv r w n data s" if "pboot r w n data s" for s
  proof -
    from that obtain raw pb where b: "length pb = 4096" "pipe_init raw pb = Inr (pip s)" by (auto simp: pboot_def)
    then obtain f where f: "fifo_init (Some raw) (Some pb) 4096 = Inr (Some f)" "pip s = \<lparr>pfifo = f, plock = lock_init,
        rd_waiter = - 1, wr_waiter = - 1\<rparr>"
      by (auto simp: pipe_init_def bind_result_eq_Inr split: option.splits)
    have "(4096 :: nat) dvd 2 ^ 64" by simp
    then have "fifo_ok f \<and> fifo_content f = [] \<and> fsiz f = 4096" using fifo_init_ok [OF f(1)] b(1) by simp
    then show ?thesis using that f(2) by (auto simp: pboot_def pinv_def content_of_def)
  qed
  show "pstep r w s s' \<Longrightarrow> pinv r w n data s \<Longrightarrow> pinv r w n data s'" for s s'
    by (erule pstep.cases) (auto intro: pinv_read pinv_write)
qed

text \<open>
  C28. A reader of \<open>n\<close> bytes and a writer of \<open>data\<close>, interleaved in any way: what has been read is always
  a prefix of the data, no assertion fails, and no wake-up is lost: when neither can go on, the
  reader has its \<open>n\<close> bytes, or the writer is done and all its data, fewer than \<open>n\<close> bytes, are read.
\<close>

theorem pipe_delivers:
  assumes "reach (pboot r w n data) (pstep r w) s"
  shows "\<not> pfailed s \<and> got s = take (length (got s)) data \<and>
     ((\<nexists>s'. pstep r w s s') \<longrightarrow> got s = take n data \<and>
       (rpc s = Finished \<and> n \<le> length data \<or> rpc s = Asleep \<and> wpc s = Finished \<and> length data < n))"
proof -
  have i: "pinv r w n data s" using assms by (rule pipes.good_reach)
  then have g: "\<not> pfailed s" "data = got s @ content_of s @ todo s" "length (got s) + want s = n"
    by (auto simp: pinv_def)
  moreover have "got s = take n data \<and>
      (rpc s = Finished \<and> n \<le> length data \<or> rpc s = Asleep \<and> wpc s = Finished \<and> length data < n)"
    if st: "\<nexists>s'. pstep r w s s'"
  proof -
    have "rpc s \<notin> {Start, Awake}" "wpc s \<notin> {Start, Awake}" using st pstep.intros by blast+
    then have "rpc s \<in> {Asleep, Finished}" "wpc s \<in> {Asleep, Finished}"
      using side.exhaust [of "rpc s"] side.exhaust [of "wpc s"] by auto
    then show ?thesis using i g by (auto simp: pinv_def)
  qed
  ultimately show ?thesis by simp
qed

text \<open>A reader that comes first, then a writer, then the reader again.\<close>

definition pipe_start :: pipesys where
  "pipe_start = \<lparr>pip = \<lparr>pfifo = \<lparr>fbuf = replicate 4096 0, fsiz = 4096, fhead = 0, ftail = 4096\<rparr>, plock = lock_init,
     rd_waiter = - 1, wr_waiter = - 1\<rparr>, rpc = Start, wpc = Start, want = 2, got = [], todo = [7, 8, 9], pfailed = False\<rparr>"

lemma pipe_start_boot: "pboot 1 2 2 [7, 8, 9] pipe_start"
  unfolding pboot_def
  by (auto simp: pipe_start_def pipe_init_def fifo_init_def fifo_clear_def
      intro!: exI [of _ "\<lparr>fbuf = [], fsiz = 0, fhead = 0, ftail = 0\<rparr>"] exI [of _ "replicate 4096 0"])

lemma pipe_delivers_witness:
  "\<not> pfailed (write_step 1 2 (read_step 1 2 pipe_start)) \<and>
   got (write_step 1 2 (read_step 1 2 pipe_start)) = take (length (got (write_step 1 2 (read_step 1 2 pipe_start)))) [7, 8, 9]"
proof -
  let ?s = "write_step 1 2 (read_step 1 2 pipe_start)"
  have "rpc pipe_start = Start" "wpc (read_step 1 2 pipe_start) = Start"
    by (simp_all add: pipe_start_def read_step_def pipe_read_def fifo_read_def waiter_of_def wake_def)
  then have a: "pstep 1 2 pipe_start (read_step 1 2 pipe_start)" "pstep 1 2 (read_step 1 2 pipe_start) ?s"
    by (auto intro: pstep.intros)
  have "reach (pboot 1 2 2 [7, 8, 9]) (pstep 1 2) pipe_start" by (rule reach_start) (rule pipe_start_boot)
  from reach_step [OF reach_step [OF this a(1)] a(2)]
  have "reach (pboot 1 2 2 [7, 8, 9]) (pstep 1 2) ?s" .
  then show ?thesis using pipe_delivers by blast
qed

end
