(* ===== verification/Heap.thy ===== *)
theory Heap
  imports Prelude Transition
begin

unbundle bit_operations_syntax

text \<open>
  kernel/mm/heap.c: the kernel heap, a sequence of blocks with a header and a footer word each. An
  address is its distance in bytes from \<open>__kern_heap_base\<close>; the memory maps the address of a 32-bit
  word to its value, and an access at or above \<open>max\<close>, where nothing is mapped, is a bad access. The
  physical pages under the heap are taken for granted: \<open>_extend_heap\<close> does not look at the result of
  \<open>pmm_allocpages\<close>, and it is not modelled here.
\<close>

section \<open>Blocks\<close>

record heap =
  hmem :: "nat \<Rightarrow> u32"
  hbrk :: nat
  hroot :: nat
  hmax :: nat

definition SIZ :: "u32 \<Rightarrow> nat" where
  "SIZ blk = unat (drop_bit 3 blk)"

definition ALOC :: "u32 \<Rightarrow> bool" where
  "ALOC blk \<longleftrightarrow> blk AND 1 \<noteq> 0"

definition SET :: "nat \<Rightarrow> bool \<Rightarrow> u32" where
  "SET siz aloc = push_bit 3 (of_nat siz) OR (if aloc then 1 else 0)"

definition ALIGN8 :: "u64 \<Rightarrow> u64" where
  "ALIGN8 num = (num + 8 - 1) AND NOT (8 - 1)"

definition GET :: "heap \<Rightarrow> nat \<Rightarrow> u32 result" where
  "GET h a = (if a + 4 \<le> hmax h then Inr (hmem h a) else Inl BadAccess)"

definition PUT :: "nat \<Rightarrow> u32 \<Rightarrow> heap \<Rightarrow> heap result" where
  "PUT a v h = (if a + 4 \<le> hmax h then Inr (h\<lparr>hmem := (hmem h)(a := v)\<rparr>) else Inl BadAccess)"

section \<open>Operations\<close>

text \<open>\<open>heap_init\<close>: \<open>m\<close> is what the first page holds.\<close>

definition heap_init :: "(nat \<Rightarrow> u32) \<Rightarrow> heap" where
  "heap_init m =
     \<lparr>hmem = m(0 := SET 0 False, 4 := SET 8 True, 8 := SET 8 True, 12 := SET 0 True),
      hbrk = 12, hroot = 12, hmax = 4096\<rparr>"

definition sbrk :: "nat \<Rightarrow> heap \<Rightarrow> nat \<times> heap" where
  "sbrk siz h = (let b = hbrk h + unat (ALIGN8 (of_nat siz)) in (b - siz, h\<lparr>hbrk := b\<rparr>))"

text \<open>\<open>_merge\<close>: with the next block, then with the previous one.\<close>

definition merge_next :: "nat \<Rightarrow> heap \<Rightarrow> heap result" where
  "merge_next hdr h =
     bind_result (GET h hdr) (\<lambda>b.
     bind_result (GET h (hdr + SIZ b)) (\<lambda>nb.
       if \<not> ALOC nb \<and> SIZ nb \<noteq> 0 then
         bind_result (GET h (hdr + SIZ b + SIZ nb - 4)) (\<lambda>nf.
           if nb \<noteq> nf then Inl AssertFail
           else bind_result (PUT hdr (SET (SIZ b + SIZ nb) False) h) (\<lambda>h1.
                bind_result (GET h1 hdr) (\<lambda>v. PUT (hdr + SIZ b + SIZ nb - 4) v h1)))
       else Inr h))"

definition merge_prev :: "nat \<Rightarrow> heap \<Rightarrow> heap result" where
  "merge_prev hdr h =
     bind_result (GET h (hdr - 4)) (\<lambda>pf.
       if \<not> ALOC pf \<and> SIZ pf \<noteq> 0 then
         (let ph = hdr - SIZ pf
          in bind_result (GET h ph) (\<lambda>pb.
               if pb \<noteq> pf then Inl AssertFail
               else bind_result (GET h hdr) (\<lambda>b.
                    bind_result (PUT ph (SET (SIZ pb + SIZ b) False) h) (\<lambda>h1.
                    bind_result (GET h1 ph) (\<lambda>v. PUT (ph + SIZ v - 4) v h1)))))
       else Inr h)"

definition merge :: "nat \<Rightarrow> heap \<Rightarrow> heap result" where
  "merge hdr h = bind_result (merge_next hdr h) (merge_prev hdr)"

definition DIV_ROUND_UP_page :: "int \<Rightarrow> nat" where
  "DIV_ROUND_UP_page diff = nat ((diff + 4095) div 4096)"

definition extend_heap :: "nat \<Rightarrow> heap \<Rightarrow> heap result" where
  "extend_heap siz h =
     (let diff = int (hbrk h) + int siz - int (hmax h);
          h1 = (if diff > 0 then h\<lparr>hmax := hmax h + DIV_ROUND_UP_page diff * 4096\<rparr> else h)
      in case sbrk siz h1 of
           (hdr, h2) \<Rightarrow>
             bind_result (PUT hdr (SET siz False) h2) (\<lambda>h3.
             bind_result (PUT (hdr + siz - 4) (SET siz False) h3) (\<lambda>h4.
             bind_result (PUT (hdr + siz) (SET 0 True) h4) (merge hdr))))"

text \<open>The loop of \<open>malloc\<close>. One pass at the block \<open>cur\<close>: a block to return, or where to go on.\<close>

definition split_block :: "nat \<Rightarrow> nat \<Rightarrow> nat \<Rightarrow> heap \<Rightarrow> heap result" where
  "split_block siz cur n h =
     bind_result (PUT (cur + n - 4) (SET (n - siz) False) h) (\<lambda>h1.
     bind_result (PUT (cur + siz) (SET (n - siz) False) h1) (\<lambda>h2.
     bind_result (PUT cur (SET siz True) h2) (\<lambda>h3.
       PUT (cur + siz - 4) (SET siz True) h3)))"

definition malloc_pass :: "nat \<Rightarrow> nat \<Rightarrow> heap \<Rightarrow> (bool \<times> nat \<times> heap) result" where
  "malloc_pass siz cur h =
     bind_result (GET h cur) (\<lambda>c.
       if \<not> ALOC c \<and> SIZ c > siz then
         bind_result (split_block siz cur (SIZ c) h) (\<lambda>h1. Inr (True, cur + 4, h1))
       else if \<not> ALOC c \<and> SIZ c = siz then
         bind_result (PUT cur (SET siz True) h) (\<lambda>h1.
         bind_result (GET h1 cur) (\<lambda>v.
         bind_result (PUT (cur + SIZ v - 4) v h1) (\<lambda>h2. Inr (True, cur + 4, h2))))
       else if \<not> cur + SIZ c < hbrk h then
         bind_result (extend_heap siz h) (\<lambda>h1. Inr (False, cur, h1))
       else Inr (False, cur + SIZ c, h))"

primrec malloc_loop :: "nat \<Rightarrow> nat \<Rightarrow> nat \<Rightarrow> heap \<Rightarrow> (nat \<times> heap) result option" where
  "malloc_loop 0 siz cur h = None"
| "malloc_loop (Suc fuel) siz cur h =
     (case malloc_pass siz cur h of
        Inl e \<Rightarrow> Some (Inl e)
      | Inr (fin, a, h1) \<Rightarrow> if fin then Some (Inr (a, h1)) else malloc_loop fuel siz a h1)"

text \<open>\<open>malloc\<close>: \<open>None\<close> in the result is the null pointer.\<close>

definition malloc :: "nat \<Rightarrow> u64 \<Rightarrow> heap \<Rightarrow> (nat option \<times> heap) result option" where
  "malloc fuel siz h =
     (if siz = 0 then Some (Inr (None, h))
      else map_option (\<lambda>r. bind_result r (\<lambda>(a, h1). Inr (Some a, h1)))
             (malloc_loop fuel (unat (ALIGN8 (siz + 8))) (hroot h) h))"

definition free :: "nat option \<Rightarrow> heap \<Rightarrow> heap result" where
  "free addr h =
     (case addr of
        None \<Rightarrow> Inr h
      | Some a \<Rightarrow>
          if a > hmax h then Inr h
          else let hdr = a - 4
               in bind_result (GET h hdr) (\<lambda>b.
                  bind_result (GET h (hdr + SIZ b - 4)) (\<lambda>f.
                    if b \<noteq> f then Inr h
                    else if \<not> ALOC b then Inl AssertFail
                    else bind_result (PUT hdr (SET (SIZ b) False) h) (\<lambda>h1.
                         bind_result (PUT (hdr + SIZ b - 4) (SET (SIZ f) False) h1) (merge hdr)))))"

text \<open>
  \<open>memset\<close> and \<open>memcpy\<close> on the words of the heap; the last word of a \<open>memset\<close> may be covered in part, and
  the lower bytes of a word come first.
\<close>

definition memset_zero :: "nat \<Rightarrow> nat \<Rightarrow> heap \<Rightarrow> heap result" where
  "memset_zero a n h =
     (if a + n > hmax h then Inl BadAccess
      else Inr (h\<lparr>hmem := \<lambda>x. if a \<le> x \<and> x + 4 \<le> a + n then 0
                               else if a \<le> x \<and> x < a + n then hmem h x AND NOT (mask (8 * (a + n - x)))
                               else hmem h x\<rparr>))"

definition memcpy_words :: "nat \<Rightarrow> nat \<Rightarrow> nat \<Rightarrow> heap \<Rightarrow> heap result" where
  "memcpy_words dst src n h =
     (if dst + n > hmax h \<or> src + n > hmax h then Inl BadAccess
      else Inr (h\<lparr>hmem := \<lambda>x. if dst \<le> x \<and> x < dst + n then hmem h (src + (x - dst)) else hmem h x\<rparr>))"

definition calloc :: "nat \<Rightarrow> u64 \<Rightarrow> heap \<Rightarrow> (nat option \<times> heap) result option" where
  "calloc fuel siz h =
     map_option (\<lambda>r. bind_result r (\<lambda>(p, h1).
         case p of None \<Rightarrow> Inr (None, h1)
         | Some a \<Rightarrow> bind_result (memset_zero a (unat siz) h1) (\<lambda>h2. Inr (Some a, h2))))
       (malloc fuel siz h)"

text \<open>\<open>realloc\<close>: the size it compares and copies is that of the whole block, with header and footer.\<close>

definition realloc :: "nat \<Rightarrow> nat option \<Rightarrow> u64 \<Rightarrow> heap \<Rightarrow> (nat option \<times> heap) result option" where
  "realloc fuel addr newsiz h =
     (case addr of
        None \<Rightarrow> malloc fuel newsiz h
      | Some a \<Rightarrow>
          if newsiz = 0 then Some (bind_result (free addr h) (\<lambda>h1. Inr (None, h1)))
          else case GET h (a - 4) of
                 Inl e \<Rightarrow> Some (Inl e)
               | Inr b \<Rightarrow>
                   if SIZ b \<ge> unat newsiz then Some (Inr (Some a, h))
                   else map_option (\<lambda>r. bind_result r (\<lambda>(p, h1).
                          case p of None \<Rightarrow> Inl BadAccess
                          | Some new \<Rightarrow>
                              bind_result (memcpy_words new a (SIZ b) h1) (\<lambda>h2.
                              bind_result (free (Some a) h2) (\<lambda>h3. Inr (Some new, h3)))))
                          (malloc fuel newsiz h))"

section \<open>Words\<close>

lemma SIZ_SET [simp]: "n < 2 ^ 29 \<Longrightarrow> SIZ (SET n al) = n"
proof -
  assume n: "n < 2 ^ 29"
  have b: "\<not> bit n k" if "29 \<le> k" for k
  proof -
    have "n < 2 ^ k" using n that by (meson less_le_trans power_increasing one_le_numeral)
    then show ?thesis by (simp add: bit_iff_odd)
  qed
  have "drop_bit 3 (SET n al) = of_nat n"
    using b by (intro bit_word_eqI) (auto simp: SET_def bit_simps bit_1_iff not_le [symmetric])
  then show ?thesis using n by (simp add: SIZ_def unat_of_nat_small)
qed

lemma ALOC_SET [simp]: "ALOC (SET n al) = al"
proof -
  have "SET n al AND 1 = (if al then 1 else 0)"
    by (rule bit_word_eqI) (auto simp: SET_def bit_simps bit_1_iff)
  then show ?thesis by (simp add: ALOC_def)
qed

lemma unat_ALIGN8:
  assumes "unat num + 7 < 2 ^ 64"
  shows "unat (ALIGN8 num) = (unat num + 7) div 8 * 8"
proof -
  have u: "unat (num + 7) = unat num + 7" using assms by (simp add: unat_word_ariths)
  have m: "bit (7 :: int) n \<longleftrightarrow> n < 3" for n
  proof -
    have e: "(7 :: int) = mask 3" by (simp add: mask_eq_exp_minus_1)
    show ?thesis unfolding e bit_mask_iff by auto
  qed
  have "ALIGN8 num = push_bit 3 (drop_bit 3 (num + 7))"
    by (rule bit_word_eqI) (auto simp: ALIGN8_def bit_simps m add.commute)
  then have "unat (ALIGN8 num) = take_bit LENGTH(64) (push_bit 3 (drop_bit 3 (unat num + 7)))"
    by (simp only: unsigned_push_bit_eq unat_drop_bit_eq u)
  then have "unat (ALIGN8 num) = take_bit 64 ((unat num + 7) div 8 * 8)"
    by (simp add: push_bit_eq_mult drop_bit_eq_div)
  moreover have "(unat num + 7) div 8 * 8 \<le> unat num + 7" by simp
  then have "(unat num + 7) div 8 * 8 < 2 ^ 64" using assms by linarith
  ultimately show ?thesis by (simp add: take_bit_eq_mod)
qed

section \<open>The sequence of blocks\<close>

text \<open>A block is its size and whether it is allocated; \<open>seg bs a h\<close> says that \<open>bs\<close> lies at \<open>a\<close> in the memory.\<close>

type_synonym blocks = "(nat \<times> bool) list"

definition extent :: "blocks \<Rightarrow> nat" where
  "extent bs = sum_list (map fst bs)"

primrec seg :: "blocks \<Rightarrow> nat \<Rightarrow> (nat \<Rightarrow> u32) \<Rightarrow> bool" where
  "seg [] a m = True"
| "seg (b # bs) a m \<longleftrightarrow> 8 \<le> fst b \<and> fst b mod 8 = 0 \<and> m a = SET (fst b) (snd b) \<and>
     m (a + fst b - 4) = SET (fst b) (snd b) \<and> seg bs (a + fst b) m"

text \<open>
  The heap with its blocks: they fill the space from the root to the break, where the closing header is.
  All sizes fit into the 29 bits of a header because the whole heap does.
\<close>

definition shape :: "blocks \<Rightarrow> heap \<Rightarrow> bool" where
  "shape bs h \<longleftrightarrow> seg bs 12 (hmem h) \<and> hbrk h = 12 + extent bs \<and> hmem h (hbrk h) = SET 0 True \<and>
     hmem h 8 = SET 8 True \<and> hroot h = 12 \<and> hbrk h + 4 \<le> hmax h \<and> hmax h mod 8 = 0 \<and> hbrk h < 2 ^ 29"

text \<open>No two neighbours are free.\<close>

definition merged :: "blocks \<Rightarrow> bool" where
  "merged bs \<longleftrightarrow> successively (\<lambda>b c. snd b \<or> snd c) bs"

lemma extent_simps [simp]: "extent [] = 0" "extent (b # bs) = fst b + extent bs" "extent (xs @ ys) = extent xs + extent ys"
  by (simp_all add: extent_def)

lemma seg_append [simp]: "seg (xs @ ys) a m \<longleftrightarrow> seg xs a m \<and> seg ys (a + extent xs) m"
  by (induction xs arbitrary: a) (auto simp: add.assoc)

lemma seg_frame: "(\<And>x. a \<le> x \<Longrightarrow> x < a + extent bs \<Longrightarrow> m' x = m x) \<Longrightarrow> seg bs a m' = seg bs a m"
proof (induction bs arbitrary: a)
  case (Cons b bs)
  have "seg bs (a + fst b) m' = seg bs (a + fst b) m" using Cons.prems by (intro Cons.IH) auto
  moreover have "8 \<le> fst b \<Longrightarrow> m' a = m a \<and> m' (a + fst b - 4) = m (a + fst b - 4)" using Cons.prems by auto
  ultimately show ?case by auto
qed simp

lemma extent_mod: "seg bs a m \<Longrightarrow> extent bs mod 8 = 0"
  by (induction bs arbitrary: a) (auto simp: mod_eq_0_iff_dvd)

lemma seg_upd [simp]: "x < a \<or> a + extent bs \<le> x \<Longrightarrow> seg bs a (m(x := v)) = seg bs a m"
  by (rule seg_frame) auto

text \<open>The payloads of the allocated blocks: address and size of the block.\<close>

primrec live :: "blocks \<Rightarrow> nat \<Rightarrow> (nat \<times> nat) set" where
  "live [] a = {}"
| "live (b # bs) a = (if snd b then {(a + 4, fst b - 8)} else {}) \<union> live bs (a + fst b)"

lemma live_append [simp]: "live (xs @ ys) a = live xs a \<union> live ys (a + extent xs)"
  by (induction xs arbitrary: a) (auto simp: add.assoc)

lemma live_bounds: "seg bs a m \<Longrightarrow> (p, k) \<in> live bs a \<Longrightarrow> a + 4 \<le> p \<and> p + k + 4 \<le> a + extent bs"
  by (induction bs arbitrary: a) (fastforce split: if_splits)+

text \<open>The payloads do not overlap.\<close>

lemma live_disjoint:
  "seg bs a m \<Longrightarrow> (p, k) \<in> live bs a \<Longrightarrow> (q, l) \<in> live bs a \<Longrightarrow> (p, k) \<noteq> (q, l) \<Longrightarrow> p + k + 8 \<le> q \<or> q + l + 8 \<le> p"
proof (induction bs arbitrary: a)
  case (Cons b bs)
  then show ?case
    using live_bounds [of bs "a + fst b" m] by (fastforce split: if_splits)
qed simp

section \<open>Changing blocks in place\<close>

lemma shape_replace:
  assumes "shape (xs @ old @ zs) h" "a = 12 + extent xs" "extent new = extent old" "seg new a m'"
    "\<And>x. x < a \<or> a + extent old \<le> x \<Longrightarrow> m' x = hmem h x"
  shows "shape (xs @ new @ zs) (h\<lparr>hmem := m'\<rparr>)"
proof -
  have "seg xs 12 m' = seg xs 12 (hmem h)" "seg zs (a + extent old) m' = seg zs (a + extent old) (hmem h)"
    using assms(2,5) by (intro seg_frame; simp)+
  moreover have "m' (hbrk h) = hmem h (hbrk h)" "m' 8 = hmem h 8"
    using assms(1,2) by (intro assms(5); simp add: shape_def)+
  ultimately show ?thesis using assms(1-4) by (auto simp: shape_def add.assoc)
qed

text \<open>What the code reads and writes of a block in the heap.\<close>

lemma shape_block:
  assumes "shape (xs @ (n, al) # zs) h" "a = 12 + extent xs"
  shows "8 \<le> n" "n mod 8 = 0" "n < 2 ^ 29" "hmem h a = SET n al" "hmem h (a + n - 4) = SET n al"
    "a + n + 4 \<le> hmax h" "a + n \<le> hbrk h" "hbrk h = a + n + extent zs"
  using assms by (auto simp: shape_def)

lemma shape_next:
  assumes "shape (xs @ (n, al) # zs) h" "a = 12 + extent xs"
  shows "hmem h (a + n) = (case zs of [] \<Rightarrow> SET 0 True | (k, bl) # _ \<Rightarrow> SET k bl)"
  using assms by (auto simp: shape_def add.assoc split: list.split)

lemma shape_prev:
  assumes "shape (xs @ zs) h" "a = 12 + extent xs"
  shows "hmem h (a - 4) = (if xs = [] then SET 8 True else SET (fst (last xs)) (snd (last xs)))"
proof (cases xs rule: rev_cases)
  case Nil
  then show ?thesis using assms by (simp add: shape_def)
next
  case (snoc ys b)
  then have "shape (ys @ (fst b, snd b) # zs) h" using assms(1) by simp
  from shape_block(1,5) [OF this refl] snoc assms(2) show ?thesis by simp
qed

lemma PUT_ok: "a + 4 \<le> hmax h \<Longrightarrow> PUT a v h = Inr (h\<lparr>hmem := (hmem h)(a := v)\<rparr>)"
  by (simp add: PUT_def)

lemma GET_ok: "a + 4 \<le> hmax h \<Longrightarrow> GET h a = Inr (hmem h a)"
  by (simp add: GET_def)

text \<open>Two memories that agree outside a range.\<close>

definition same_outside :: "nat \<Rightarrow> nat \<Rightarrow> heap \<Rightarrow> heap \<Rightarrow> bool" where
  "same_outside lo hi h h' \<longleftrightarrow> (\<forall>x. x < lo \<or> hi \<le> x \<longrightarrow> hmem h' x = hmem h x)"

lemma split_block_spec:
  assumes "shape (xs @ (n, False) # zs) h" "a = 12 + extent xs" "8 \<le> siz" "siz mod 8 = 0" "siz < n"
  shows "\<exists>h'. split_block siz a n h = Inr h' \<and> shape (xs @ (siz, True) # (n - siz, False) # zs) h' \<and>
     same_outside a (a + n) h h'"
proof -
  note b = shape_block [OF assms(1,2)]
  have v: "8 dvd n - siz" using b(2) assms(4) by (simp add: mod_eq_0_iff_dvd dvd_diff_nat)
  then have d: "8 \<le> n - siz" "(n - siz) mod 8 = 0"
    using assms(5) dvd_imp_le [of 8 "n - siz"] by (simp_all add: mod_eq_0_iff_dvd)
  let ?m = "(hmem h)(a + n - 4 := SET (n - siz) False, a + siz := SET (n - siz) False,
    a := SET siz True, a + siz - 4 := SET siz True)"
  have r: "split_block siz a n h = Inr (h\<lparr>hmem := ?m\<rparr>)"
    using b(6) assms(3,5) by (simp add: split_block_def PUT_ok)
  have "shape (xs @ [(siz, True), (n - siz, False)] @ zs) (h\<lparr>hmem := ?m\<rparr>)"
    using assms(3-5) d b(1)
    by (intro shape_replace [where old = "[(n, False)]" and a = a]) (use assms(1,2) in auto)
  moreover have "same_outside a (a + n) h (h\<lparr>hmem := ?m\<rparr>)"
    using assms(3,5) by (auto simp: same_outside_def)
  ultimately show ?thesis using r by simp
qed

lemma mark_block_spec:
  assumes "shape (xs @ (n, al) # zs) h" "a = 12 + extent xs"
  shows "\<exists>h'. PUT a (SET n bl) h = Inr (h\<lparr>hmem := (hmem h)(a := SET n bl)\<rparr>) \<and>
     PUT (a + n - 4) (SET n bl) (h\<lparr>hmem := (hmem h)(a := SET n bl)\<rparr>) = Inr h' \<and>
     shape (xs @ (n, bl) # zs) h' \<and> same_outside a (a + n) h h'"
proof -
  note b = shape_block [OF assms]
  let ?m = "(hmem h)(a := SET n bl, a + n - 4 := SET n bl)"
  have "shape (xs @ [(n, bl)] @ zs) (h\<lparr>hmem := ?m\<rparr>)"
    using b(1,2) by (intro shape_replace [where old = "[(n, al)]" and a = a]) (use assms in auto)
  moreover have "same_outside a (a + n) h (h\<lparr>hmem := ?m\<rparr>)" using b(1) by (auto simp: same_outside_def)
  ultimately show ?thesis using b(1,6) by (simp add: PUT_ok)
qed

text \<open>Joining a free block with a free neighbour.\<close>

lemma join_spec:
  assumes "shape (xs @ (n, False) # (k, False) # zs) h" "a = 12 + extent xs"
    "m = (hmem h)(a := SET (n + k) False, a + n + k - 4 := SET (n + k) False)"
  shows "shape (xs @ (n + k, False) # zs) (h\<lparr>hmem := m\<rparr>) \<and> same_outside a (a + n + k) h (h\<lparr>hmem := m\<rparr>)"
proof -
  note b = shape_block [OF assms(1,2)]
  have c: "8 \<le> k" "k mod 8 = 0" using assms(1) by (auto simp: shape_def)
  have "shape (xs @ [(n + k, False)] @ zs) (h\<lparr>hmem := m\<rparr>)"
    using b(1,2) c by (intro shape_replace [where old = "[(n, False), (k, False)]" and a = a])
      (use assms in \<open>auto simp: mod_eq_0_iff_dvd\<close>)
  moreover have "same_outside a (a + n + k) h (h\<lparr>hmem := m\<rparr>)" using b(1) c assms(3) by (auto simp: same_outside_def)
  ultimately show ?thesis by simp
qed

definition join_next :: "nat \<Rightarrow> blocks \<Rightarrow> nat \<times> blocks" where
  "join_next n zs = (case zs of (k, False) # zs' \<Rightarrow> (n + k, zs') | _ \<Rightarrow> (n, zs))"

definition join_prev :: "blocks \<Rightarrow> nat \<Rightarrow> blocks \<times> nat" where
  "join_prev xs n = (if xs \<noteq> [] \<and> \<not> snd (last xs) then (butlast xs, fst (last xs) + n) else (xs, n))"

lemma join_nextE:
  assumes "join_next n zs = (n', zs')"
  shows "n' = n \<and> zs' = zs \<and> (zs = [] \<or> snd (hd zs)) \<or> (\<exists>k. zs = (k, False) # zs' \<and> n' = n + k)"
  using assms by (auto simp: join_next_def split: list.splits prod.splits bool.splits)

lemma join_prevE:
  assumes "join_prev xs n = (xs', n')"
  shows "n' = n \<and> xs' = xs \<and> (xs = [] \<or> snd (last xs)) \<or> (\<exists>k. xs = xs' @ [(k, False)] \<and> n' = k + n)"
proof (cases xs rule: rev_cases)
  case (snoc ys b)
  then show ?thesis using assms by (cases b) (auto simp: join_prev_def split: if_splits)
qed (use assms in \<open>simp add: join_prev_def\<close>)

lemma merge_next_spec:
  assumes "shape (xs @ (n, False) # zs) h" "a = 12 + extent xs" "join_next n zs = (n', zs')"
  shows "\<exists>h'. merge_next a h = Inr h' \<and> shape (xs @ (n', False) # zs') h' \<and> same_outside a (a + n') h h'"
proof -
  note b = shape_block [OF assms(1,2)]
  have g: "GET h a = Inr (SET n False)" "GET h (a + n) = Inr (case zs of [] \<Rightarrow> SET 0 True | (k, bl) # _ \<Rightarrow> SET k bl)"
    using b(4,6) shape_next [OF assms(1,2)] by (simp_all add: GET_ok)
  show ?thesis
  proof (cases "\<exists>k ws. zs = (k, False) # ws")
    case False
    then have "merge_next a h = Inr h" using g b(3)
      by (auto simp: merge_next_def split: list.split prod.split)
    moreover have "n' = n" "zs' = zs" using False assms(3) by (auto simp: join_next_def split: list.splits bool.splits prod.splits)
    ultimately show ?thesis using assms(1) by (simp add: same_outside_def)
  next
    case True
    then obtain k where z: "zs = (k, False) # zs'" "n' = n + k" using assms(3) by (auto simp: join_next_def)
    have s: "shape ((xs @ [(n, False)]) @ (k, False) # zs') h" using assms(1) z by simp
    note c = shape_block [OF s, of "a + n"]
    have c': "8 \<le> k" "k < 2 ^ 29" "hmem h (a + n + k - 4) = SET k False" "a + n + k + 4 \<le> hmax h"
      using c assms(2) by auto
    let ?m = "(hmem h)(a := SET (n + k) False, a + n + k - 4 := SET (n + k) False)"
    have "merge_next a h = Inr (h\<lparr>hmem := ?m\<rparr>)"
      using g c' b(1,3) z by (simp add: merge_next_def GET_ok PUT_ok)
    then show ?thesis using join_spec [OF _ assms(2) refl, of n k zs' h] assms(1) z by (auto simp: add.assoc)
  qed
qed

lemma merge_prev_spec:
  assumes "shape (xs @ (n, False) # zs) h" "a = 12 + extent xs" "join_prev xs n = (xs', n')"
  shows "\<exists>h'. merge_prev a h = Inr h' \<and> shape (xs' @ (n', False) # zs) h' \<and> same_outside (12 + extent xs') (a + n) h h'"
proof -
  note b = shape_block [OF assms(1,2)] and p = shape_prev [OF assms(1,2)]
  have a: "a - 4 + 4 \<le> hmax h" using b(6) assms(2) by simp
  show ?thesis
  proof (cases "xs \<noteq> [] \<and> \<not> snd (last xs)")
    case False
    then have "merge_prev a h = Inr h" using a p by (auto simp: merge_prev_def GET_ok)
    moreover have "xs' = xs" "n' = n" using False assms(3) by (auto simp: join_prev_def split: if_splits)
    ultimately show ?thesis using assms(1) by (simp add: same_outside_def)
  next
    case True
    define k where "k = fst (last xs)"
    have "last xs = (k, False)" using True by (simp add: k_def prod_eq_iff)
    then have x: "xs = xs' @ [(k, False)]" "n' = k + n"
      using True assms(3) append_butlast_last_id [of xs] by (auto simp: join_prev_def)
    have s: "shape (xs' @ (k, False) # (n, False) # zs) h" using assms(1) x by simp
    note c = shape_block [OF s refl]
    have e: "a - k = 12 + extent xs'" "a = 12 + extent xs' + k" "n + k < 2 ^ 29"
      using assms(2) x c(8) s by (auto simp: shape_def)
    let ?m = "(hmem h)(a - k := SET (k + n) False, a - k + k + n - 4 := SET (k + n) False)"
    have "merge_prev a h = Inr (h\<lparr>hmem := ?m\<rparr>)"
      using a p b c e x True by (simp add: merge_prev_def GET_ok PUT_ok Let_def ac_simps)
    then show ?thesis using join_spec [OF s _ refl, of "a - k"] e x by (auto simp: add.assoc)
  qed
qed

text \<open>\<open>_merge\<close> on the list of blocks.\<close>

lemma merge_spec:
  assumes "shape (xs @ (n, False) # zs) h" "a = 12 + extent xs" "join_next n zs = (n1, zs')" "join_prev xs n1 = (xs', n2)"
  shows "\<exists>h'. merge a h = Inr h' \<and> shape (xs' @ (n2, False) # zs') h' \<and> same_outside (12 + extent xs') (a + n1) h h'"
proof -
  obtain h1 where h1: "merge_next a h = Inr h1" "shape (xs @ (n1, False) # zs') h1" "same_outside a (a + n1) h h1"
    using merge_next_spec [OF assms(1-3)] by blast
  obtain h2 where h2: "merge_prev a h1 = Inr h2" "shape (xs' @ (n2, False) # zs') h2" "same_outside (12 + extent xs') (a + n1) h1 h2"
    using merge_prev_spec [OF h1(2) assms(2,4)] by blast
  have "12 + extent xs' \<le> a" using assms(2) join_prevE [OF assms(4)] by auto
  then have "same_outside (12 + extent xs') (a + n1) h h2" using h1(3) h2(3) by (auto simp: same_outside_def)
  then show ?thesis using h1(1) h2(1,2) by (simp add: merge_def)
qed

lemma live_join:
  assumes "join_next n zs = (n1, zs')" "join_prev xs n1 = (xs', n2)"
  shows "live (xs' @ (n2, False) # zs') 12 = live (xs @ (n, False) # zs) 12" "extent (xs' @ (n2, False) # zs') = extent (xs @ (n, False) # zs)"
proof -
  show "extent (xs' @ (n2, False) # zs') = extent (xs @ (n, False) # zs)"
    using join_nextE [OF assms(1)] join_prevE [OF assms(2)] by auto
  show "live (xs' @ (n2, False) # zs') 12 = live (xs @ (n, False) # zs) 12"
    using join_nextE [OF assms(1)] join_prevE [OF assms(2)] by (auto simp: ac_simps)
qed

lemma merged_join:
  assumes "merged xs" "merged zs" "join_next n zs = (n1, zs')" "join_prev xs n1 = (xs', n2)"
  shows "merged (xs' @ (n2, False) # zs')"
  using assms(1,2) join_nextE [OF assms(3)] join_prevE [OF assms(4)]
  by (cases zs) (auto simp: merged_def successively_append_iff successively_Cons)

text \<open>\<open>_extend_heap\<close> appends a free block and joins it with a free one before it.\<close>

lemma shape_brk: "shape bs h \<Longrightarrow> hbrk h mod 8 = 4"
proof -
  assume a: "shape bs h"
  then have "extent bs mod 8 = 0" using extent_mod by (auto simp: shape_def)
  then have "(12 + extent bs) mod 8 = 4" by presburger
  then show ?thesis using a by (simp add: shape_def)
qed

lemma page_round_up: "0 < d \<Longrightarrow> d \<le> int (DIV_ROUND_UP_page d) * 4096"
proof -
  assume "0 < d"
  moreover have "d + 4095 = (d + 4095) div 4096 * 4096 + (d + 4095) mod 4096" by simp
  moreover have "(d + 4095) mod 4096 \<le> 4095" using pos_mod_bound [of 4096 "d + 4095"] by simp
  moreover have "0 \<le> (d + 4095) div 4096" using \<open>0 < d\<close> by simp
  ultimately show ?thesis unfolding DIV_ROUND_UP_page_def by simp
qed

lemma next_multiple: "x mod 8 = 4 \<Longrightarrow> 8 dvd m \<Longrightarrow> x \<le> m \<Longrightarrow> x + 4 \<le> m" for x m :: nat
proof -
  assume a: "x mod 8 = 4" "8 dvd m" "x \<le> m"
  obtain k where k: "m = 8 * k" using a(2) by (rule dvdE)
  have x: "x = 8 * (x div 8) + 4" using a(1) by (metis mult_div_mod_eq)
  then have "x div 8 < k" using a(3) k by linarith
  then show ?thesis using x k by linarith
qed

lemma extend_room:
  assumes "shape bs h" "siz mod 8 = 0"
    "m = (if int (hbrk h) + int siz - int (hmax h) > 0
          then hmax h + DIV_ROUND_UP_page (int (hbrk h) + int siz - int (hmax h)) * 4096 else hmax h)"
  shows "hbrk h + siz + 4 \<le> m" "m mod 8 = 0" "hmax h \<le> m"
proof -
  have d: "8 dvd hmax h" using assms(1) by (simp add: shape_def mod_eq_0_iff_dvd)
  have "8 dvd DIV_ROUND_UP_page x * 4096" for x by simp
  then have m: "8 dvd m" using d assms(3) by (auto intro: dvd_add)
  have le: "hbrk h + siz \<le> m"
  proof (cases "int (hbrk h) + int siz - int (hmax h) > 0")
    case True
    then have "m = hmax h + DIV_ROUND_UP_page (int (hbrk h) + int siz - int (hmax h)) * 4096"
      using assms(3) by simp
    then show ?thesis using page_round_up [OF True] by linarith
  next
    case False
    then show ?thesis using assms(3) by simp
  qed
  have b: "(hbrk h + siz) mod 8 = 4" using shape_brk [OF assms(1)] assms(2) mod_add_eq [of "hbrk h" 8 siz] by simp
  show "m mod 8 = 0" using m by (simp add: mod_eq_0_iff_dvd)
  show "hmax h \<le> m" using assms(3) by simp
  show "hbrk h + siz + 4 \<le> m" using next_multiple [OF b m le] .
qed

lemma extend_heap_spec:
  assumes "shape bs h" "siz mod 8 = 0" "8 \<le> siz" "hbrk h + siz < 2 ^ 29" "join_prev bs siz = (xs', n)"
  shows "\<exists>h'. extend_heap siz h = Inr h' \<and> shape (xs' @ [(n, False)]) h' \<and>
     (\<forall>x < 12 + extent xs'. hmem h' x = hmem h x)"
proof -
  define d where "d = int (hbrk h) + int siz - int (hmax h)"
  define m where "m = (if d > 0 then hmax h + DIV_ROUND_UP_page d * 4096 else hmax h)"
  note r = extend_room [OF assms(1,2) m_def [unfolded d_def]]
  define h1 where "h1 = (if d > 0 then h\<lparr>hmax := hmax h + DIV_ROUND_UP_page d * 4096\<rparr> else h)"
  have h1: "hmax h1 = m" "hmem h1 = hmem h" "hbrk h1 = hbrk h" "hroot h1 = hroot h" by (simp_all add: h1_def m_def)
  have "unat (of_nat siz :: u64) = siz" using assms(4) by (intro unat_of_nat_small) simp
  then have "unat (ALIGN8 (of_nat siz)) = (siz + 7) div 8 * 8" using assms(4) by (subst unat_ALIGN8) simp_all
  moreover have "(siz + 7) div 8 * 8 = siz" using assms(2) by presburger
  ultimately have s: "sbrk siz h1 = (hbrk h, h1\<lparr>hbrk := hbrk h + siz\<rparr>)" using h1(3) by (simp add: sbrk_def Let_def)
  let ?a = "hbrk h"
  let ?m = "(hmem h)(?a := SET siz False, ?a + siz - 4 := SET siz False, ?a + siz := SET 0 True)"
  let ?h = "h1\<lparr>hbrk := ?a + siz, hmem := ?m\<rparr>"
  have e: "extend_heap siz h = merge ?a ?h"
    unfolding extend_heap_def Let_def d_def [symmetric] h1_def [symmetric] s
    using r(1) h1 assms(3) by (simp add: PUT_ok)
  have b: "hbrk h = 12 + extent bs" "seg bs 12 (hmem h)" "hmem h 8 = SET 8 True" "hroot h = 12"
    using assms(1) by (simp_all add: shape_def)
  have sh: "shape (bs @ (siz, False) # []) ?h"
    using b r assms(2-4) h1 by (simp add: shape_def add.assoc)
  obtain h' where h': "merge ?a ?h = Inr h'" "shape (xs' @ (n, False) # []) h'" "same_outside (12 + extent xs') (?a + siz) ?h h'"
    using merge_spec [OF sh b(1) _ assms(5)] by (auto simp: join_next_def)
  have "12 + extent xs' \<le> ?a" using b(1) join_prevE [OF assms(5)] by auto
  then have "\<forall>x < 12 + extent xs'. hmem h' x = hmem h x"
    using h'(3) assms(3) by (auto simp: same_outside_def)
  then show ?thesis using e h' by simp
qed

section \<open>Allocation\<close>

text \<open>The contents of some payloads are the same in two heaps.\<close>

definition keeps_payload :: "(nat \<times> nat) set \<Rightarrow> heap \<Rightarrow> heap \<Rightarrow> bool" where
  "keeps_payload L h h' \<longleftrightarrow> (\<forall>(p, k) \<in> L. \<forall>x. p \<le> x \<and> x < p + k \<longrightarrow> hmem h' x = hmem h x)"

text \<open>What an allocation of a block of \<open>siz\<close> bytes does: one more payload, nothing else changes.\<close>

definition malloc_ok :: "nat \<Rightarrow> blocks \<Rightarrow> heap \<Rightarrow> nat \<Rightarrow> heap \<Rightarrow> bool" where
  "malloc_ok siz bs h p h' \<longleftrightarrow> (\<exists>bs'. shape bs' h' \<and> merged bs' \<and> live bs' 12 = insert (p, siz - 8) (live bs 12)) \<and>
     (\<forall>k. (p, k) \<notin> live bs 12) \<and> keeps_payload (live bs 12) h h'"

lemma malloc_ok_trans:
  assumes "malloc_ok siz bs1 h1 p h'" "live bs1 12 = live bs 12" "keeps_payload (live bs 12) h h1"
  shows "malloc_ok siz bs h p h'"
  using assms by (fastforce simp: malloc_ok_def keeps_payload_def)

lemma live_outside:
  assumes "shape (xs @ (n, al) # zs) h" "(p, k) \<in> live xs 12 \<union> live zs (12 + extent xs + n)"
  shows "p + k + 4 \<le> 12 + extent xs \<or> 12 + extent xs + n + 4 \<le> p"
proof -
  have "seg xs 12 (hmem h)" "seg zs (12 + extent xs + n) (hmem h)" using assms(1) by (simp_all add: shape_def)
  then show ?thesis using assms(2) live_bounds by blast
qed

text \<open>A pass at a free block that is large enough takes it.\<close>

lemma pass_fit:
  assumes "shape (xs @ (n, False) # zs) h" "merged (xs @ (n, False) # zs)" "a = 12 + extent xs"
    "8 \<le> siz" "siz mod 8 = 0" "siz \<le> n"
  shows "\<exists>h'. malloc_pass siz a h = Inr (True, a + 4, h') \<and> malloc_ok siz (xs @ (n, False) # zs) h (a + 4) h'"
proof -
  note b = shape_block [OF assms(1,3)]
  have g: "GET h a = Inr (SET n False)" using b by (simp add: GET_ok)
  have out: "p + k + 4 \<le> a \<or> a + n + 4 \<le> p" if "(p, k) \<in> live (xs @ (n, False) # zs) 12" for p k
    using live_outside [OF assms(1), of p k] that assms(3) by (auto simp: add.assoc)
  have new: "\<forall>k. (a + 4, k) \<notin> live (xs @ (n, False) # zs) 12"
    using out b(1) by fastforce
  have keep: "keeps_payload (live (xs @ (n, False) # zs) 12) h h'" if "same_outside a (a + n) h h'" for h'
    using out that by (fastforce simp: keeps_payload_def same_outside_def)
  show ?thesis
  proof (cases "siz = n")
    case True
    obtain h' where h': "PUT (a + n - 4) (SET n True) (h\<lparr>hmem := (hmem h)(a := SET n True)\<rparr>) = Inr h'"
        "shape (xs @ (n, True) # zs) h'" "same_outside a (a + n) h h'"
      using mark_block_spec [OF assms(1,3), of True] by auto
    have "malloc_pass siz a h = Inr (True, a + 4, h')"
      using g b h'(1) True by (simp add: malloc_pass_def PUT_ok GET_ok)
    moreover have "merged (xs @ (n, True) # zs)"
      using assms(2) by (auto simp: merged_def successively_append_iff successively_Cons)
    ultimately show ?thesis
      using h' new keep True assms(3) by (auto simp: malloc_ok_def intro!: exI [of _ "xs @ (n, True) # zs"])
  next
    case False
    then have l: "siz < n" using assms(6) by simp
    obtain h' where h': "split_block siz a n h = Inr h'" "shape (xs @ (siz, True) # (n - siz, False) # zs) h'"
        "same_outside a (a + n) h h'"
      using split_block_spec [OF assms(1,3,4,5) l] by blast
    have "malloc_pass siz a h = Inr (True, a + 4, h')" using g b h'(1) l by (simp add: malloc_pass_def)
    moreover have "merged (xs @ (siz, True) # (n - siz, False) # zs)"
      using assms(2) by (auto simp: merged_def successively_append_iff successively_Cons)
    ultimately show ?thesis
      using h' new keep l assms(3)
      by (auto simp: malloc_ok_def add.assoc intro!: exI [of _ "xs @ (siz, True) # (n - siz, False) # zs"])
  qed
qed

text \<open>A pass that finds no room at the last block extends the heap.\<close>

lemma pass_extend:
  assumes "shape (xs @ ys) h" "merged (xs @ ys)" "a = 12 + extent xs" "8 \<le> siz" "siz mod 8 = 0" "hbrk h + siz < 2 ^ 29"
    "xs = [] \<and> ys = [] \<or> (\<exists>n al. ys = [(n, al)] \<and> (al \<or> n < siz))"
    "join_prev (xs @ ys) siz = (xs', n')"
  shows "\<exists>h'. malloc_pass siz a h = Inr (False, a, h') \<and> shape (xs' @ [(n', False)]) h' \<and> merged (xs' @ [(n', False)]) \<and>
     live (xs' @ [(n', False)]) 12 = live (xs @ ys) 12 \<and> keeps_payload (live (xs @ ys) 12) h h'"
proof -
  obtain h' where h': "extend_heap siz h = Inr h'" "shape (xs' @ [(n', False)]) h'" "\<forall>x < 12 + extent xs'. hmem h' x = hmem h x"
    using extend_heap_spec [OF assms(1,5,4,6,8)] by blast
  have "\<exists>n al. GET h a = Inr (SET n al) \<and> n < 2 ^ 29 \<and> (al \<or> n < siz) \<and> \<not> a + n < hbrk h"
    using assms(7)
  proof
    assume "xs = [] \<and> ys = []"
    then show ?thesis using assms(1,3) by (intro exI [of _ 0] exI [of _ True]) (auto simp: shape_def GET_ok)
  next
    assume "\<exists>n al. ys = [(n, al)] \<and> (al \<or> n < siz)"
    then obtain n al where y: "ys = [(n, al)]" "al \<or> n < siz" by blast
    then have "shape (xs @ (n, al) # []) h" using assms(1) by simp
    note b = shape_block [OF this assms(3)]
    show ?thesis using b y(2) by (intro exI [of _ n] exI [of _ al]) (auto simp: GET_ok)
  qed
  then obtain n al where g: "GET h a = Inr (SET n al)" "n < 2 ^ 29" "al \<or> n < siz" "\<not> a + n < hbrk h" by blast
  then have "malloc_pass siz a h = Inr (False, a, h')" using h'(1) by (auto simp: malloc_pass_def)
  moreover have m: "merged (xs' @ [(n', False)])"
    using assms(2) merged_join [of "xs @ ys" "[]" siz siz "[]" xs' n'] assms(8) by (simp add: join_next_def merged_def)
  moreover have l: "live (xs' @ [(n', False)]) 12 = live (xs @ ys) 12"
    using live_join(1) [of siz "[]" siz "[]" "xs @ ys" xs' n'] assms(8) by (simp add: join_next_def)
  moreover have "keeps_payload (live (xs @ ys) 12) h h'"
  proof -
    have "live (xs @ ys) 12 = live xs' 12" using l by simp
    moreover have "seg xs' 12 (hmem h')" using h'(2) by (simp add: shape_def)
    ultimately show ?thesis using live_bounds [of xs' 12 "hmem h'"] h'(3) by (fastforce simp: keeps_payload_def)
  qed
  ultimately show ?thesis using h' by blast
qed

text \<open>The loop finds room with as many passes as there are blocks left, and three more.\<close>

lemma loop_fit:
  assumes "shape (xs @ (n, False) # zs) h" "merged (xs @ (n, False) # zs)" "a = 12 + extent xs"
    "8 \<le> siz" "siz mod 8 = 0" "siz \<le> n"
  shows "\<exists>p h'. malloc_loop (Suc f) siz a h = Some (Inr (p, h')) \<and> malloc_ok siz (xs @ (n, False) # zs) h p h'"
  using pass_fit [OF assms] by auto

lemma loop_skip:
  assumes "shape (xs @ (n, al) # z # zs) h" "a = 12 + extent xs" "al \<or> n < siz"
  shows "malloc_loop (Suc f) siz a h = malloc_loop f siz (a + n) h"
proof -
  note b = shape_block [OF assms(1,2)]
  have "seg (z # zs) (a + n) (hmem h)" using assms(1,2) by (simp add: shape_def add.assoc)
  then have "a + n < hbrk h" using b(8) by simp
  then have "malloc_pass siz a h = Inr (False, a + n, h)" using b assms(3) by (auto simp: malloc_pass_def GET_ok)
  then show ?thesis by simp
qed

lemma loop_last:
  assumes "shape (xs @ ys) h" "merged (xs @ ys)" "a = 12 + extent xs" "8 \<le> siz" "siz mod 8 = 0" "hbrk h + siz < 2 ^ 29"
    "xs = [] \<and> ys = [] \<or> (\<exists>n al. ys = [(n, al)] \<and> (al \<or> n < siz))"
  shows "\<exists>p h'. malloc_loop (Suc (Suc (Suc f))) siz a h = Some (Inr (p, h')) \<and> malloc_ok siz (xs @ ys) h p h'"
proof -
  obtain xs' n' where j: "join_prev (xs @ ys) siz = (xs', n')" by fastforce
  obtain h1 where h1: "malloc_pass siz a h = Inr (False, a, h1)" "shape (xs' @ [(n', False)]) h1" "merged (xs' @ [(n', False)])"
      "live (xs' @ [(n', False)]) 12 = live (xs @ ys) 12" "keeps_payload (live (xs @ ys) 12) h h1"
    using pass_extend [OF assms j] by blast
  have s: "malloc_loop (Suc (Suc (Suc f))) siz a h = malloc_loop (Suc (Suc f)) siz a h1" using h1(1) by simp
  have fin: "\<exists>p h'. malloc_loop (Suc (Suc f)) siz a h1 = Some (Inr (p, h')) \<and> malloc_ok siz (xs' @ [(n', False)]) h1 p h'"
    using join_prevE [OF j]
  proof
    assume "n' = siz \<and> xs' = xs @ ys \<and> (xs @ ys = [] \<or> snd (last (xs @ ys)))"
    then have n: "n' = siz" "xs' = xs @ ys" "xs @ ys = [] \<or> snd (last (xs @ ys))" by auto
    show ?thesis
    proof (cases "ys = []")
      case True
      then have "xs = []" using assms(7) by auto
      then show ?thesis using loop_fit [of "[]" siz "[]" h1 a siz "Suc f"] h1(2,3) n True assms(3-5) by simp
    next
      case False
      then obtain n where y: "ys = [(n, True)]" using assms(7) n(3) by auto
      then have sh: "shape (xs @ (n, True) # (siz, False) # []) h1" "merged ((xs @ [(n, True)]) @ (siz, False) # [])"
        using h1(2,3) n by simp_all
      have "malloc_loop (Suc (Suc f)) siz a h1 = malloc_loop (Suc f) siz (a + n) h1"
        by (rule loop_skip [OF sh(1) assms(3)]) simp
      then show ?thesis
        using loop_fit [of "xs @ [(n, True)]" siz "[]" h1 "a + n" siz f] sh n y assms(3-5) by simp
    qed
  next
    assume "\<exists>k. xs @ ys = xs' @ [(k, False)] \<and> n' = k + siz"
    then obtain k where k: "xs @ ys = xs' @ [(k, False)]" "n' = k + siz" by blast
    then have "ys = [(k, False)]" "xs' = xs" using assms(7) by auto
    then show ?thesis using loop_fit [of xs n' "[]" h1 a siz "Suc f"] h1(2,3) k assms(3-5) by simp
  qed
  then show ?thesis using s malloc_ok_trans [OF _ h1(4,5)] by metis
qed

lemma three_more: "3 \<le> n \<Longrightarrow> \<exists>f. n = Suc (Suc (Suc f))"
  by (rule exI [of _ "n - 3"]) simp

lemma malloc_loop_spec:
  assumes "shape (xs @ ys) h" "merged (xs @ ys)" "a = 12 + extent xs" "8 \<le> siz" "siz mod 8 = 0" "hbrk h + siz < 2 ^ 29"
    "ys = [] \<longrightarrow> xs = []" "length ys + 3 \<le> fuel"
  shows "\<exists>p h'. malloc_loop fuel siz a h = Some (Inr (p, h')) \<and> malloc_ok siz (xs @ ys) h p h'"
  using assms
proof (induction ys arbitrary: xs a fuel)
  case Nil
  then obtain f where "fuel = Suc (Suc (Suc f))" using three_more [of fuel] by auto
  then show ?case using loop_last [OF Nil(1-6), of f] Nil.prems(7) by auto
next
  case (Cons b ys)
  note prems = Cons.prems and IH = Cons.IH
  obtain n al where b: "b = (n, al)" by (cases b)
  obtain f where f: "fuel = Suc f" "length ys + 3 \<le> f" using prems(8) by (cases fuel) auto
  show ?case
  proof (cases "\<not> al \<and> siz \<le> n")
    case True
    then show ?thesis using loop_fit [of xs n ys h a siz f] prems b f by simp
  next
    case False
    then have nf: "al \<or> n < siz" by auto
    show ?thesis
    proof (cases ys)
      case Nil
      obtain g where g: "fuel = Suc (Suc (Suc g))" using three_more [of fuel] f by auto
      show ?thesis unfolding g using loop_last [OF prems(1-6), of g] Nil b nf by blast
    next
      case (Cons z zs)
      have sh: "shape (xs @ (n, al) # z # zs) h" using prems(1) b Cons by simp
      have "malloc_loop fuel siz a h = malloc_loop f siz (a + n) h"
        unfolding f(1) by (rule loop_skip [OF sh prems(3) nf])
      then show ?thesis using IH [of "xs @ [b]" "a + n" f] prems b f Cons by simp
    qed
  qed
qed

text \<open>\<open>malloc\<close> for a size below the limit.\<close>

definition block_size :: "u64 \<Rightarrow> nat" where
  "block_size siz = (unat siz + 15) div 8 * 8"

lemma malloc_spec:
  assumes "shape bs h" "merged bs" "siz \<noteq> 0" "hbrk h + unat siz + 16 < 2 ^ 29" "length bs + 3 \<le> fuel"
  shows "\<exists>p h'. malloc fuel siz h = Some (Inr (Some p, h')) \<and> malloc_ok (block_size siz) bs h p h' \<and> unat siz \<le> block_size siz - 8"
proof -
  have "unat (siz + 8) = unat siz + 8" using assms(4) by (simp add: unat_word_ariths)
  then have u: "unat (ALIGN8 (siz + 8)) = block_size siz"
    using assms(4) by (subst unat_ALIGN8) (simp_all add: block_size_def)
  have d: "unat siz + 15 = block_size siz + (unat siz + 15) mod 8" by (simp add: block_size_def)
  moreover have "(unat siz + 15) mod 8 < 8" by simp
  ultimately have b: "block_size siz \<le> unat siz + 15" "unat siz + 8 \<le> block_size siz" by linarith+
  have "0 < unat siz" using assms(3) by (simp add: unat_gt_0)
  have "block_size siz mod 8 = 0" by (simp add: block_size_def)
  then have "\<exists>p h'. malloc_loop fuel (block_size siz) 12 h = Some (Inr (p, h')) \<and> malloc_ok (block_size siz) ([] @ bs) h p h'"
    using assms b by (intro malloc_loop_spec) auto
  moreover have "hroot h = 12" using assms(1) by (simp add: shape_def)
  ultimately show ?thesis using u assms(3) b by (auto simp: malloc_def)
qed

section \<open>Deallocation\<close>

lemma live_split:
  assumes "(p, k) \<in> live bs a" "seg bs a m"
  shows "\<exists>xs zs. bs = xs @ (k + 8, True) # zs \<and> p = a + extent xs + 4"
  using assms
proof (induction bs arbitrary: a)
  case (Cons b bs)
  show ?case
  proof (cases "(p, k) \<in> live bs (a + fst b)")
    case True
    from Cons.IH [OF this] Cons.prems(2)
    obtain xs zs where "bs = xs @ (k + 8, True) # zs" "p = a + fst b + extent xs + 4" by auto
    then show ?thesis by (intro exI [of _ "b # xs"] exI [of _ zs]) simp
  next
    case False
    then have "snd b" "p = a + 4" "k = fst b - 8" using Cons.prems(1) by (auto split: if_splits)
    then show ?thesis using Cons.prems(2) by (intro exI [of _ "[]"] exI [of _ bs]) (cases b, auto)
  qed
qed simp

lemma free_spec:
  assumes "shape bs h" "merged bs" "(p, k) \<in> live bs 12"
  shows "\<exists>h' bs'. free (Some p) h = Inr h' \<and> shape bs' h' \<and> merged bs' \<and> live bs' 12 = live bs 12 - {(p, k)} \<and>
     keeps_payload (live bs 12 - {(p, k)}) h h'"
proof -
  have "seg bs 12 (hmem h)" using assms(1) by (simp add: shape_def)
  from live_split [OF assms(3) this] obtain xs zs where b: "bs = xs @ (k + 8, True) # zs" "p = 12 + extent xs + 4" by blast
  define a where "a = 12 + extent xs"
  have sh: "shape (xs @ (k + 8, True) # zs) h" using assms(1) b by simp
  note c = shape_block [OF sh a_def]
  obtain h1 where h1: "PUT a (SET (k + 8) False) h = Inr (h\<lparr>hmem := (hmem h)(a := SET (k + 8) False)\<rparr>)"
      "PUT (a + (k + 8) - 4) (SET (k + 8) False) (h\<lparr>hmem := (hmem h)(a := SET (k + 8) False)\<rparr>) = Inr h1"
      "shape (xs @ (k + 8, False) # zs) h1" "same_outside a (a + (k + 8)) h h1"
    using mark_block_spec [OF sh a_def, of False] by blast
  obtain n1 zs' where j1: "join_next (k + 8) zs = (n1, zs')" by fastforce
  obtain xs' n2 where j2: "join_prev xs n1 = (xs', n2)" by fastforce
  obtain h2 where h2: "merge a h1 = Inr h2" "shape (xs' @ (n2, False) # zs') h2" "same_outside (12 + extent xs') (a + n1) h1 h2"
    using merge_spec [OF h1(3) a_def j1 j2] by blast
  have "free (Some p) h = Inr h2"
    using c h1(1,2) h2(1) b(2) by (simp add: free_def GET_ok a_def Let_def)
  moreover have "merged (xs' @ (n2, False) # zs')"
    using assms(2) b merged_join [OF _ _ j1 j2] by (auto simp: merged_def successively_append_iff successively_Cons)
  moreover have l: "live (xs' @ (n2, False) # zs') 12 = live (xs @ (k + 8, False) # zs) 12" by (rule live_join [OF j1 j2])
  moreover have r: "live (xs @ (k + 8, False) # zs) 12 = live bs 12 - {(p, k)}"
    using live_outside [OF sh, of p k] b by (auto simp: add.assoc)
  moreover have "keeps_payload (live bs 12 - {(p, k)}) h h2"
  proof -
    have jp: "12 + extent xs' + n2 = a + n1" "12 + extent xs' \<le> a" "k + 8 \<le> n1"
      using join_prevE [OF j2] join_nextE [OF j1] by (auto simp: a_def)
    have "hmem h2 x = hmem h x" if "(q, l) \<in> live (xs' @ (n2, False) # zs') 12" "q \<le> x" "x < q + l" for q l x
    proof -
      have "q + l + 4 \<le> 12 + extent xs' \<or> a + n1 + 4 \<le> q"
        using live_outside [OF h2(2), of q l] that(1) jp(1) by (auto simp: add.assoc)
      then have "x < 12 + extent xs' \<or> a + n1 \<le> x" using that(2,3) by linarith
      moreover from this have "x < a \<or> a + (k + 8) \<le> x" using jp by linarith
      ultimately show ?thesis using h1(4) h2(3) unfolding same_outside_def by metis
    qed
    then show ?thesis unfolding r [symmetric] l [symmetric] keeps_payload_def by blast
  qed
  ultimately show ?thesis using h2(2) by metis
qed

section \<open>The heap in use\<close>

text \<open>
  The kernel allocates, frees what it has allocated, and writes into payloads it holds. \<open>held\<close> is the set
  of payloads handed out and not freed, with their sizes; \<open>bad\<close> is set when an operation faults or
  does not end.
\<close>

record heapsys =
  hp :: heap
  held :: "(nat \<times> nat) set"
  bad :: bool

definition malloc_step :: "nat \<Rightarrow> u64 \<Rightarrow> heapsys \<Rightarrow> heapsys" where
  "malloc_step fuel siz s =
     (case malloc fuel siz (hp s) of
        Some (Inr (Some p, h)) \<Rightarrow> s\<lparr>hp := h, held := insert (p, block_size siz - 8) (held s)\<rparr>
      | _ \<Rightarrow> s\<lparr>bad := True\<rparr>)"

definition free_step :: "nat \<Rightarrow> nat \<Rightarrow> heapsys \<Rightarrow> heapsys" where
  "free_step p k s =
     (case free (Some p) (hp s) of
        Inr h \<Rightarrow> s\<lparr>hp := h, held := held s - {(p, k)}\<rparr>
      | Inl _ \<Rightarrow> s\<lparr>bad := True\<rparr>)"

definition store_step :: "nat \<Rightarrow> u32 \<Rightarrow> heapsys \<Rightarrow> heapsys" where
  "store_step x v s = s\<lparr>hp := (hp s)\<lparr>hmem := (hmem (hp s))(x := v)\<rparr>\<rparr>"

inductive hstep :: "heapsys \<Rightarrow> heapsys \<Rightarrow> bool" where
  malloc: "siz \<noteq> 0 \<Longrightarrow> hbrk (hp s) + unat siz + 16 < 2 ^ 29 \<Longrightarrow> hbrk (hp s) \<le> fuel \<Longrightarrow> hstep s (malloc_step fuel siz s)"
| free: "(p, k) \<in> held s \<Longrightarrow> hstep s (free_step p k s)"
| store: "(p, k) \<in> held s \<Longrightarrow> p \<le> x \<Longrightarrow> x < p + k \<Longrightarrow> hstep s (store_step x v s)"

definition hboot :: "heapsys \<Rightarrow> bool" where
  "hboot s \<longleftrightarrow> (\<exists>m. hp s = heap_init m) \<and> held s = {} \<and> \<not> bad s"

definition hinv :: "heapsys \<Rightarrow> bool" where
  "hinv s \<longleftrightarrow> \<not> bad s \<and> (\<exists>bs. shape bs (hp s) \<and> merged bs \<and> live bs 12 = held s)"

lemma length_blocks: "shape bs h \<Longrightarrow> length bs + 3 \<le> hbrk h"
proof -
  have "seg bs a m \<Longrightarrow> length bs \<le> extent bs" for a m by (induction bs arbitrary: a) fastforce+
  then show "shape bs h \<Longrightarrow> length bs + 3 \<le> hbrk h" by (fastforce simp: shape_def)
qed

lemma seg_payload:
  assumes "seg bs a m" "(p, k) \<in> live bs a" "p \<le> x" "x < p + k"
  shows "seg bs a (m(x := v))"
  using assms
proof (induction bs arbitrary: a)
  case (Cons b bs)
  show ?case
  proof (cases "(p, k) \<in> live bs (a + fst b)")
    case True
    then have "a + fst b + 4 \<le> p" using live_bounds Cons.prems(1) by fastforce
    then show ?thesis using Cons True by auto
  next
    case False
    then have e: "p = a + 4" "k = fst b - 8" using Cons.prems(2) by (auto split: if_splits)
    then have x: "x \<noteq> a + fst b - 4" "a \<noteq> x" "x < a + fst b" using Cons.prems(1,3,4) by auto
    then have "seg bs (a + fst b) (m(x := v)) = seg bs (a + fst b) m" by (intro seg_upd) simp
    then show ?thesis using Cons.prems(1) x unfolding seg.simps(2) by (metis fun_upd_other)
  qed
qed simp

interpretation heaps: keeps hboot hstep hinv
proof
  show "hinv s" if b: "hboot s" for s
  proof -
    obtain m where m: "hp s = heap_init m" "held s = {}" "\<not> bad s" using b unfolding hboot_def by blast
    then have "shape [] (hp s)" by (simp add: heap_init_def shape_def)
    then show ?thesis using m by (auto simp: hinv_def merged_def intro!: exI [of _ "[]"])
  qed
  show "hinv s'" if st: "hstep s s'" and i: "hinv s" for s s'
  proof -
    obtain bs where bs: "shape bs (hp s)" "merged bs" "live bs 12 = held s" "\<not> bad s" using i by (auto simp: hinv_def)
    show ?thesis using st
    proof cases
      case (malloc siz fuel)
      have "length bs + 3 \<le> fuel" using length_blocks [OF bs(1)] malloc(4) by simp
      then obtain p h' where "malloc fuel siz (hp s) = Some (Inr (Some p, h'))" "malloc_ok (block_size siz) bs (hp s) p h'"
        using malloc_spec [OF bs(1,2) malloc(2,3)] by blast
      then show ?thesis using bs malloc(1) by (auto simp: hinv_def malloc_step_def malloc_ok_def)
    next
      case (free p k)
      then show ?thesis using bs free_spec [OF bs(1,2), of p k] by (fastforce simp: hinv_def free_step_def)
    next
      case (store p k x v)
      have sg: "seg bs 12 (hmem (hp s))" using bs(1) by (simp add: shape_def)
      have "12 + 4 \<le> p \<and> p + k + 4 \<le> 12 + extent bs" using live_bounds [OF sg] store(2) bs(3) by blast
      then have "shape bs ((hp s)\<lparr>hmem := (hmem (hp s))(x := v)\<rparr>)"
        using seg_payload [OF sg, of p k x v] store bs(1,3) by (auto simp: shape_def)
      then show ?thesis using bs store(1) by (auto simp: hinv_def store_step_def)
    qed
  qed
qed

text \<open>
  C4. However the kernel allocates, frees and writes, no operation of the heap faults or runs for ever,
  and the payloads in use lie apart, with room for a header and a footer between them, inside the
  mapped part of the heap.
\<close>

theorem heap_payloads_apart:
  assumes "reach hboot hstep s"
  shows "\<not> bad s \<and> hbrk (hp s) + 4 \<le> hmax (hp s) \<and>
     (\<forall>(p, k) \<in> held s. 16 \<le> p \<and> p + k + 4 \<le> hbrk (hp s) \<and>
       (\<forall>(q, l) \<in> held s. (q, l) \<noteq> (p, k) \<longrightarrow> p + k + 8 \<le> q \<or> q + l + 8 \<le> p))"
proof -
  have "hinv s" using assms by (rule heaps.good_reach)
  then obtain bs where i: "\<not> bad s" "shape bs (hp s)" "live bs 12 = held s" by (auto simp: hinv_def)
  then have sg: "seg bs 12 (hmem (hp s))" "hbrk (hp s) = 12 + extent bs" "hbrk (hp s) + 4 \<le> hmax (hp s)"
    by (simp_all add: shape_def)
  have "16 \<le> p \<and> p + k + 4 \<le> hbrk (hp s)" if "(p, k) \<in> held s" for p k
    using live_bounds [OF sg(1), of p k] that i(3) sg(2) by simp
  moreover have "p + k + 8 \<le> q \<or> q + l + 8 \<le> p" if "(p, k) \<in> held s" "(q, l) \<in> held s" "(q, l) \<noteq> (p, k)" for p k q l
    using live_disjoint [OF sg(1)] that i(3) by metis
  ultimately show ?thesis using i(1) sg(3) by blast
qed

text \<open>
  C5. An allocation ends within as many passes as the heap has bytes, gives a payload at least as large
  as asked for that was not in use, and leaves the contents of every payload in use as they were;
  freeing any payload in use afterwards does the same for the others.
\<close>

theorem malloc_returns_fresh:
  assumes "reach hboot hstep s" "siz \<noteq> 0" "hbrk (hp s) + unat siz + 16 < 2 ^ 29"
  shows "\<exists>p h. malloc (hbrk (hp s)) siz (hp s) = Some (Inr (Some p, h)) \<and> unat siz \<le> block_size siz - 8 \<and>
     (\<forall>k. (p, k) \<notin> held s) \<and> keeps_payload (held s) (hp s) h \<and>
     (\<forall>(q, l) \<in> insert (p, block_size siz - 8) (held s).
        \<exists>h'. free (Some q) h = Inr h' \<and> keeps_payload (insert (p, block_size siz - 8) (held s) - {(q, l)}) h h')"
proof -
  have "hinv s" using assms(1) by (rule heaps.good_reach)
  then obtain bs where i: "shape bs (hp s)" "merged bs" "live bs 12 = held s" by (auto simp: hinv_def)
  obtain p h where m: "malloc (hbrk (hp s)) siz (hp s) = Some (Inr (Some p, h))" "malloc_ok (block_size siz) bs (hp s) p h"
      "unat siz \<le> block_size siz - 8"
    using malloc_spec [OF i(1,2) assms(2,3) length_blocks [OF i(1)]] by blast
  then obtain bs' where b: "shape bs' h" "merged bs'" "live bs' 12 = insert (p, block_size siz - 8) (held s)"
    using i(3) by (auto simp: malloc_ok_def)
  have "\<exists>h'. free (Some q) h = Inr h' \<and> keeps_payload (live bs' 12 - {(q, l)}) h h'" if "(q, l) \<in> live bs' 12" for q l
    using free_spec [OF b(1,2) that] by blast
  then have f: "\<forall>(q, l) \<in> live bs' 12. \<exists>h'. free (Some q) h = Inr h' \<and> keeps_payload (live bs' 12 - {(q, l)}) h h'"
    by fastforce
  have k: "\<forall>k. (p, k) \<notin> held s" "keeps_payload (held s) (hp s) h" using m(2) i(3) by (simp_all add: malloc_ok_def)
  show ?thesis by (intro exI conjI, rule m(1), rule m(3), rule k(1), rule k(2), rule f [unfolded b(3)])
qed

text \<open>
  \<open>realloc\<close> compares the new size with the size of the block and not of its payload: a payload of \<open>k\<close>
  bytes asked to grow by up to eight bytes is returned as it is, with room for \<open>k\<close> bytes only.
\<close>

theorem realloc_short:
  assumes "reach hboot hstep s" "(p, k) \<in> held s" "k < unat newsiz" "unat newsiz \<le> k + 8"
  shows "realloc fuel (Some p) newsiz (hp s) = Some (Inr (Some p, hp s))"
proof -
  have "hinv s" using assms(1) by (rule heaps.good_reach)
  then obtain bs where i: "shape bs (hp s)" "live bs 12 = held s" by (auto simp: hinv_def)
  then have "seg bs 12 (hmem (hp s))" by (simp add: shape_def)
  from live_split [OF _ this] i(2) assms(2) obtain xs zs where b: "bs = xs @ (k + 8, True) # zs" "p = 12 + extent xs + 4"
    by blast
  have "shape (xs @ (k + 8, True) # zs) (hp s)" using i(1) b(1) by simp
  note c = shape_block [OF this refl]
  have "GET (hp s) (p - 4) = Inr (SET (k + 8) True)" using c b(2) by (simp add: GET_ok)
  moreover have "newsiz \<noteq> 0" using assms(3) by auto
  ultimately show ?thesis using c(3) assms(4) by (simp add: realloc_def)
qed

text \<open>A heap with one block of eight payload bytes, for the instances.\<close>

definition heap_demo :: heapsys where
  "heap_demo = malloc_step 12 8 \<lparr>hp = heap_init (\<lambda>_. 0), held = {}, bad = False\<rparr>"

lemma heap_demo_reach: "reach hboot hstep heap_demo" "reach hboot hstep \<lparr>hp = heap_init (\<lambda>_. 0), held = {}, bad = False\<rparr>"
proof -
  let ?s = "\<lparr>hp = heap_init (\<lambda>_. 0), held = {}, bad = False\<rparr>"
  show r: "reach hboot hstep ?s" by (rule reach_start) (auto simp: hboot_def)
  have "hstep ?s (malloc_step 12 8 ?s)" by (rule hstep.malloc) (simp_all add: heap_init_def)
  with r show "reach hboot hstep heap_demo" unfolding heap_demo_def by (rule reach_step)
qed

lemma heap_demo_held: "\<exists>p. held heap_demo = {(p, 8)}"
proof -
  let ?s = "\<lparr>hp = heap_init (\<lambda>_. 0), held = {}, bad = False\<rparr>"
  have "shape [] (hp ?s)" "merged []" by (simp_all add: heap_init_def shape_def merged_def)
  from malloc_spec [OF this, of 8 12] obtain p h where "malloc 12 8 (hp ?s) = Some (Inr (Some p, h))"
    by (auto simp: heap_init_def)
  then show ?thesis by (simp add: heap_demo_def malloc_step_def block_size_def)
qed

lemma heap_payloads_apart_witness: "\<not> bad heap_demo \<and> hbrk (hp heap_demo) + 4 \<le> hmax (hp heap_demo)"
  using heap_payloads_apart [OF heap_demo_reach(1)] by blast

lemma malloc_returns_fresh_witness: "\<exists>p h. malloc 12 24 (heap_init (\<lambda>_. 0)) = Some (Inr (Some p, h))"
  using malloc_returns_fresh [OF heap_demo_reach(2), of 24] by (auto simp: heap_init_def)

lemma realloc_short_witness: "\<exists>p. realloc 0 (Some p) 16 (hp heap_demo) = Some (Inr (Some p, hp heap_demo))"
proof -
  obtain p where "held heap_demo = {(p, 8)}" using heap_demo_held by blast
  then show ?thesis using realloc_short [OF heap_demo_reach(1), of p 8 16 0] by auto
qed

end
