(* ===== verification/Calendar.thy ===== *)
theory Calendar
  imports Prelude
begin

text \<open>
  kernel/klib/time.c: a date and time of the real-time clock to seconds since 1970, and back. The
  words of the structure and the widths of the intermediate results are those of the code.
\<close>

section \<open>Definitions\<close>

record rtc_tm =
  tm_second :: u8
  tm_minute :: u8
  tm_hour :: u8
  tm_day :: u8
  tm_month :: u8
  tm_year :: u32

text \<open>The table \<open>month\<close>: the days of a common year up to the end of a month.\<close>

definition month_tab :: "nat list" where
  "month_tab = [0, 31, 59, 90, 120, 151, 181, 212, 243, 273, 304, 334, 365]"

definition LEAP_CKR :: "nat \<Rightarrow> bool" where
  "LEAP_CKR year \<longleftrightarrow> (if year mod 100 = 0 then year mod 400 = 0 else year mod 4 = 0)"

definition DIV_ROUND_UP :: "u64 \<Rightarrow> u64 \<Rightarrow> u64" where
  "DIV_ROUND_UP num divisor = (num + (divisor - 1)) div divisor"

definition leap_offset :: "u64 \<Rightarrow> u64" where
  "leap_offset y = DIV_ROUND_UP (y - 1972) 4 - DIV_ROUND_UP (y - 2000) 100 + DIV_ROUND_UP (y - 2000) 400"

text \<open>\<open>time_stamp\<close>: a month outside the table is a bad access.\<close>

definition time_stamp :: "rtc_tm \<Rightarrow> u64 result" where
  "time_stamp tm =
     (let offset = leap_offset (ucast (tm_year tm));
          common = ucast ((tm_year tm - 1970) * 365) :: u64
      in if tm_month tm = 0 \<or> 13 < tm_month tm then Inl BadAccess
         else let days = ucast ((of_nat (month_tab ! (unat (tm_month tm) - 1)) :: u32)
                           + (if LEAP_CKR (unat (tm_year tm)) then 1 else 0) + (ucast (tm_day tm) - 1))
              in Inr ((common + offset + days) * 86400 + ucast (tm_hour tm) * 3600
                       + ucast (tm_minute tm) * 60 + ucast (tm_second tm)))"

text \<open>
  The first loop of \<open>time_rtctm\<close>. \<open>year\<close> is an \<open>int\<close>: the value after the largest one is undefined,
  which is \<open>None\<close>.
\<close>

definition year_days :: "nat \<Rightarrow> nat" where
  "year_days year = (if LEAP_CKR year then 366 else 365)"

function year_loop :: "nat \<Rightarrow> nat \<Rightarrow> (nat \<times> nat) option" where
  "year_loop year days_left =
     (if days_left < year_days year then Some (year, days_left)
      else if year = 2147483647 then None
      else year_loop (Suc year) (days_left - year_days year))"
  by auto
termination by (relation "measure snd") (auto simp: year_days_def split: if_splits)

declare year_loop.simps [simp del]

definition cum_days :: "bool \<Rightarrow> nat \<Rightarrow> nat" where
  "cum_days is_leap i = month_tab ! i + (if is_leap \<and> 2 \<le> i then 1 else 0)"

text \<open>The loop over the months: the month it stops at and the days before it.\<close>

definition month_loop :: "bool \<Rightarrow> nat \<Rightarrow> nat \<times> nat" where
  "month_loop is_leap days_left =
     (case List.find (\<lambda>i. days_left < cum_days is_leap i) [1..<13] of
        Some i \<Rightarrow> (i, cum_days is_leap (i - 1))
      | None \<Rightarrow> (13, 0))"

definition time_rtctm :: "u64 \<Rightarrow> rtc_tm option" where
  "time_rtctm ts =
     (let days_total = unat ts div 86400; sec = unat ts mod 86400
      in case year_loop 1970 days_total of
           None \<Rightarrow> None
         | Some (year, days_left) \<Rightarrow>
             (case month_loop (LEAP_CKR year) days_left of
                (i, prev_days) \<Rightarrow>
                  Some \<lparr>tm_second = of_nat (sec mod 3600 mod 60), tm_minute = of_nat (sec mod 3600 div 60),
                        tm_hour = of_nat (sec div 3600), tm_day = of_nat (days_left - prev_days + 1),
                        tm_month = of_nat i, tm_year = of_nat year\<rparr>))"

section \<open>The calendar\<close>

text \<open>The days before a year, by counting, and before a date.\<close>

primrec days_from :: "nat \<Rightarrow> nat" where
  "days_from 0 = 0"
| "days_from (Suc n) = days_from n + year_days (1970 + n)"

definition valid_tm :: "rtc_tm \<Rightarrow> bool" where
  "valid_tm tm \<longleftrightarrow> 1970 \<le> tm_year tm \<and> tm_year tm \<le> 9999 \<and> 1 \<le> tm_month tm \<and> tm_month tm \<le> 12 \<and>
     1 \<le> tm_day tm \<and> unat (tm_day tm) \<le> cum_days (LEAP_CKR (unat (tm_year tm))) (unat (tm_month tm)) -
        cum_days (LEAP_CKR (unat (tm_year tm))) (unat (tm_month tm) - 1) \<and>
     tm_hour tm < 24 \<and> tm_minute tm < 60 \<and> tm_second tm < 60"

lemma div_step: "0 < d \<Longrightarrow> Suc n div d = n div d + (if d dvd Suc n then 1 else 0)" for d n :: nat
  by (simp add: div_Suc dvd_eq_mod_eq_0)

text \<open>The number of leap days the code computes is the number of leap years passed.\<close>

lemma days_from_formula:
  "days_from n + (69 + n) div 100 = 365 * n + (1 + n) div 4 + (369 + n) div 400"
proof (induction n)
  case (Suc n)
  have e: "1970 + n = Suc (69 + n) + 19 * 100" "1970 + n = Suc (Suc n) + 492 * 4" "1970 + n = Suc (369 + n) + 4 * 400"
    by simp_all
  have m: "(1970 + n) mod 100 = 0 \<longleftrightarrow> 100 dvd Suc (69 + n)" "(1970 + n) mod 4 = 0 \<longleftrightarrow> 4 dvd Suc (Suc n)"
      "(1970 + n) mod 400 = 0 \<longleftrightarrow> 400 dvd Suc (369 + n)"
    using e by (metis mod_mult_self1 mod_0_imp_dvd mod_eq_0_iff_dvd)+
  have l: "LEAP_CKR (1970 + n) \<longleftrightarrow> (4 dvd Suc (Suc n) \<and> \<not> 100 dvd Suc (69 + n)) \<or> (100 dvd Suc (69 + n) \<and> 400 dvd Suc (369 + n))"
    unfolding LEAP_CKR_def m by auto
  have x: "400 dvd Suc (369 + n) \<Longrightarrow> 100 dvd Suc (69 + n)" "100 dvd Suc (69 + n) \<Longrightarrow> 4 dvd Suc (Suc n)"
    unfolding m [symmetric] mod_eq_0_iff_dvd by (auto intro: dvd_trans [of 100 400] dvd_trans [of 4 100])
  have s: "(69 + Suc n) div 100 = (69 + n) div 100 + (if 100 dvd Suc (69 + n) then 1 else 0)"
      "(1 + Suc n) div 4 = (1 + n) div 4 + (if 4 dvd Suc (Suc n) then 1 else 0)"
      "(369 + Suc n) div 400 = (369 + n) div 400 + (if 400 dvd Suc (369 + n) then 1 else 0)"
    using div_step [of 100 "69 + n"] div_step [of 4 "Suc n"] div_step [of 400 "369 + n"] by simp_all
  show ?case
    using Suc x unfolding s days_from.simps year_days_def l by (auto split: if_splits)
qed simp

lemma of_nat_div_u64: "a < 2 ^ 64 \<Longrightarrow> d < 2 ^ 64 \<Longrightarrow> (of_nat a :: u64) div of_nat d = of_nat (a div d)"
  by (simp add: word_arith_nat_div unat_of_nat_small)

lemma leap_days:
  assumes "n < 2 ^ 32"
  shows "of_nat (365 * n) + leap_offset (of_nat (1970 + n)) = of_nat (days_from n)"
proof -
  let ?y = "of_nat (1970 + n) :: u64"
  have y: "?y - 1972 + (4 - 1) = of_nat (1 + n)" "?y - 2000 + (100 - 1) = of_nat (69 + n)"
      "?y - 2000 + (400 - 1) = of_nat (369 + n)"
    by simp_all
  have "leap_offset ?y = of_nat ((1 + n) div 4) - of_nat ((69 + n) div 100) + of_nat ((369 + n) div 400)"
    unfolding leap_offset_def DIV_ROUND_UP_def y
    using assms of_nat_div_u64 [of "1 + n" 4] of_nat_div_u64 [of "69 + n" 100] of_nat_div_u64 [of "369 + n" 400]
    by simp
  moreover have "(of_nat (days_from n) :: u64) + of_nat ((69 + n) div 100) =
      of_nat (365 * n) + of_nat ((1 + n) div 4) + of_nat ((369 + n) div 400)"
    using days_from_formula [of n] by (metis of_nat_add)
  then have "(of_nat (days_from n) :: u64) =
      of_nat (365 * n) + of_nat ((1 + n) div 4) + of_nat ((369 + n) div 400) - of_nat ((69 + n) div 100)"
    by (simp only: eq_diff_eq)
  ultimately show ?thesis by (simp only: add_diff_eq diff_add_eq add.assoc)
qed

text \<open>The day number of a date, and the second of the day.\<close>

definition civil_days :: "rtc_tm \<Rightarrow> nat" where
  "civil_days tm = days_from (unat (tm_year tm) - 1970) +
     cum_days (LEAP_CKR (unat (tm_year tm))) (unat (tm_month tm) - 1) + (unat (tm_day tm) - 1)"

definition day_second :: "rtc_tm \<Rightarrow> nat" where
  "day_second tm = unat (tm_hour tm) * 3600 + unat (tm_minute tm) * 60 + unat (tm_second tm)"

lemma valid_tmD:
  assumes "valid_tm tm"
  shows "1970 \<le> unat (tm_year tm)" "unat (tm_year tm) \<le> 9999" "1 \<le> unat (tm_month tm)" "unat (tm_month tm) \<le> 12"
    "1 \<le> unat (tm_day tm)" "unat (tm_hour tm) < 24" "unat (tm_minute tm) < 60" "unat (tm_second tm) < 60"
    "unat (tm_day tm) \<le> cum_days (LEAP_CKR (unat (tm_year tm))) (unat (tm_month tm)) -
        cum_days (LEAP_CKR (unat (tm_year tm))) (unat (tm_month tm) - 1)"
  using assms by (simp_all add: valid_tm_def word_le_nat_alt word_less_nat_alt)

lemma day_second_less: "valid_tm tm \<Longrightarrow> day_second tm < 86400"
  using valid_tmD(6-8) [of tm] by (simp add: day_second_def)

lemma cum_days_le: "i < 13 \<Longrightarrow> cum_days l i \<le> 366"
proof -
  have "\<forall>i<13. month_tab ! i \<le> 365" unfolding month_tab_def by (simp add: less_Suc_eq numeral_eq_Suc nth_Cons)
  then show "i < 13 \<Longrightarrow> cum_days l i \<le> 366" by (auto simp: cum_days_def intro: le_SucI)
qed

text \<open>The code counts the leap day from the first of January on.\<close>

definition early_leap :: "rtc_tm \<Rightarrow> bool" where
  "early_leap tm \<longleftrightarrow> LEAP_CKR (unat (tm_year tm)) \<and> unat (tm_month tm) \<le> 2"

lemma ucast_of_nat: "x = of_nat m \<Longrightarrow> m < 2 ^ 32 \<Longrightarrow> (ucast (x :: u32) :: u64) = of_nat m"
  using of_nat_unat [of x, where 'a = "64 word"] by (simp add: unat_of_nat_small)

lemma ucast_unat: "ucast (x :: 'a::len word) = (of_nat (unat x) :: 'b::len word)"
  by (rule of_nat_unat [symmetric])

lemma time_stamp_value:
  assumes "valid_tm tm"
  shows "time_stamp tm =
     Inr (of_nat ((civil_days tm + (if early_leap tm then 1 else 0)) * 86400 + day_second tm))"
proof -
  note v = valid_tmD [OF assms]
  define n where "n = unat (tm_year tm) - 1970"
  have n: "unat (tm_year tm) = 1970 + n" "n \<le> 8029" using v(1,2) by (simp_all add: n_def)
  have y: "tm_year tm = of_nat (1970 + n)" "ucast (tm_year tm) = (of_nat (1970 + n) :: u64)"
    using n(1) by (metis of_nat_unat ucast_id, metis of_nat_unat)
  have c: "ucast ((tm_year tm - 1970) * 365) = (of_nat (365 * n) :: u64)"
    by (rule ucast_of_nat) (use y n(2) in simp_all)
  let ?k = "unat (tm_month tm) - 1" and ?l = "LEAP_CKR (1970 + n)"
  have k: "cum_days ?l ?k + (if early_leap tm then 1 else 0) = month_tab ! ?k + (if ?l then 1 else 0)"
    using v(3,4) n(1) by (auto simp: cum_days_def early_leap_def)
  have "month_tab ! ?k \<le> 366" using cum_days_le [of ?k False] v(4) by (simp add: cum_days_def)
  moreover have "unat (tm_day tm) < 2 ^ 8" using unat_lt [of "tm_day tm"] by simp
  ultimately have d: "ucast ((of_nat (month_tab ! ?k) :: u32) + (if ?l then 1 else 0) + (ucast (tm_day tm) - 1)) =
     (of_nat (month_tab ! ?k + (if ?l then 1 else 0) + (unat (tm_day tm) - 1)) :: u64)"
    using v(5) by (intro ucast_of_nat) (auto simp: ucast_unat of_nat_diff simp del: of_nat_unat)
  have m: "\<not> (tm_month tm = 0 \<or> 13 < tm_month tm)"
    using v(3,4) by (auto simp: word_less_nat_alt)
  define days where "days = month_tab ! ?k + (if ?l then 1 else 0) + (unat (tm_day tm) - 1)"
  have "civil_days tm + (if early_leap tm then 1 else 0) = days_from n + days"
    using k by (simp add: civil_days_def n days_def)
  moreover have "of_nat (365 * n) + leap_offset (of_nat (1970 + n)) + of_nat days = (of_nat (days_from n + days) :: u64)"
    using leap_days [of n] n(2) by simp
  moreover have "time_stamp tm = Inr ((of_nat (365 * n) + leap_offset (of_nat (1970 + n)) + of_nat days) * 86400
      + ucast (tm_hour tm) * 3600 + ucast (tm_minute tm) * 60 + ucast (tm_second tm))"
    using m unfolding time_stamp_def Let_def y(2) c n(1) d days_def by simp
  ultimately show ?thesis
    by (simp add: ucast_unat day_second_def add.assoc del: of_nat_unat)
qed

section \<open>Back to a date\<close>

lemma year_loop_from:
  assumes "d < year_days (y + k)" "y + k < 2147483647"
  shows "year_loop y ((\<Sum>i<k. year_days (y + i)) + d) = Some (y + k, d)"
  using assms
proof (induction k arbitrary: y)
  case 0
  then show ?case by (subst year_loop.simps) simp
next
  case (Suc k)
  have s: "(\<Sum>i<Suc k. year_days (y + i)) = year_days y + (\<Sum>i<k. year_days (Suc y + i))"
    by (subst sum.lessThan_Suc_shift) simp
  show ?case
    using Suc.IH [of "Suc y"] Suc.prems unfolding s by (subst year_loop.simps) (simp add: add.assoc)
qed

lemma days_from_sum: "days_from n = (\<Sum>i<n. year_days (1970 + i))"
  by (induction n) simp_all

lemma month_cases: "1 \<le> m \<Longrightarrow> m \<le> 12 \<Longrightarrow> m = 1 \<or> m = 2 \<or> m = 3 \<or> m = 4 \<or> m = 5 \<or> m = 6 \<or> m = 7 \<or> m = 8 \<or>
    m = 9 \<or> m = 10 \<or> m = 11 \<or> m = (12 :: nat)"
  by arith

lemma month_loop_from:
  assumes "1 \<le> m" "m \<le> 12" "cum_days l (m - 1) \<le> d" "d < cum_days l m"
  shows "month_loop l d = (m, cum_days l (m - 1))"
proof -
  have u: "[1..<13] = [1, 2, 3, 4, 5, 6, 7, 8, 9, 10, 11, 12 :: nat]" by (simp add: upt_rec)
  have n: "\<not> d < cum_days l i" if "i < m" for i
  proof -
    have "cum_days l i \<le> cum_days l (m - 1)"
      using that month_cases [OF assms(1,2)] unfolding cum_days_def month_tab_def
      by (elim disjE) (auto simp: less_Suc_eq numeral_eq_Suc)
    then show ?thesis using assms(3) by simp
  qed
  have "List.find (\<lambda>i. d < cum_days l i) [1..<13] = Some m"
    using assms n by (auto simp: find_Some_iff nth_append intro!: exI [of _ "m - 1"])
  then show ?thesis by (simp add: month_loop_def)
qed

lemma days_from_le: "n \<le> 8029 \<Longrightarrow> days_from n \<le> 366 * n"
  by (induction n) (auto simp: year_days_def)

text \<open>What \<open>time_rtctm\<close> makes of a day of the year \<open>1970 + n\<close>.\<close>

lemma time_rtctm_value:
  assumes "n \<le> 8029" "1 \<le> m" "m \<le> 12" "l = LEAP_CKR (1970 + n)" "cum_days l (m - 1) \<le> d" "d < cum_days l m" "sec < 86400"
  shows "time_rtctm (of_nat ((days_from n + d) * 86400 + sec)) =
     Some \<lparr>tm_second = of_nat (sec mod 3600 mod 60), tm_minute = of_nat (sec mod 3600 div 60),
       tm_hour = of_nat (sec div 3600), tm_day = of_nat (d - cum_days l (m - 1) + 1), tm_month = of_nat m,
       tm_year = of_nat (1970 + n)\<rparr>"
proof -
  have "cum_days l m \<le> cum_days l 12"
    using month_cases [OF assms(2,3)] unfolding cum_days_def month_tab_def by (elim disjE) simp_all
  then have d: "d < year_days (1970 + n)" using assms(4,6) by (simp add: year_days_def cum_days_def month_tab_def split: if_splits)
  have "(days_from n + d) * 86400 + sec < 2 ^ 64"
    using days_from_le [OF assms(1)] assms(1,7) d by (simp add: year_days_def split: if_splits)
  then have u: "unat (of_nat ((days_from n + d) * 86400 + sec) :: u64) = (days_from n + d) * 86400 + sec"
    by (intro unat_of_nat_small) simp
  have "year_loop 1970 (days_from n + d) = Some (1970 + n, d)"
    unfolding days_from_sum using d assms(1) by (intro year_loop_from) simp_all
  moreover have "((days_from n + d) * 86400 + sec) div 86400 = days_from n + d"
      "((days_from n + d) * 86400 + sec) mod 86400 = sec"
    using assms(7) by (simp, metis mod_mult_self3 mod_less)
  ultimately show ?thesis
    using month_loop_from [OF assms(2,3,5,6)] assms(4)
    unfolding time_rtctm_def Let_def u by simp
qed

text \<open>
  C40. For every valid date from 1970 to 9999 the time stamp is defined, and the conversion back gives
  the date again if and only if it is not in the January or February of a leap year: there
  \<open>time_stamp\<close> counts the leap day before it has come.
\<close>

theorem time_roundtrip:
  assumes "valid_tm tm"
  shows "\<exists>ts. time_stamp tm = Inr ts \<and>
     (time_rtctm ts = Some tm \<longleftrightarrow> \<not> (LEAP_CKR (unat (tm_year tm)) \<and> tm_month tm \<le> 2))"
proof -
  note v = valid_tmD [OF assms]
  define n where "n = unat (tm_year tm) - 1970"
  have n: "unat (tm_year tm) = 1970 + n" "n \<le> 8029" using v(1,2) by (simp_all add: n_def)
  let ?l = "LEAP_CKR (1970 + n)" and ?m = "unat (tm_month tm)"
  define d where "d = cum_days ?l (?m - 1) + (unat (tm_day tm) - 1)"
  have e: "civil_days tm = days_from n + d" by (simp add: civil_days_def n d_def)
  have b: "early_leap tm \<longleftrightarrow> ?l \<and> tm_month tm \<le> 2" by (simp add: early_leap_def n word_le_nat_alt)
  have y: "1970 + of_nat n = tm_year tm" using n(1) of_nat_unat [of "tm_year tm", where 'a = "32 word"] by simp
  have h: "day_second tm div 3600 = unat (tm_hour tm)" "day_second tm mod 3600 div 60 = unat (tm_minute tm)"
      "day_second tm mod 3600 mod 60 = unat (tm_second tm)"
  proof -
    let ?s = "unat (tm_minute tm) * 60 + unat (tm_second tm)"
    have "?s < 3600" "day_second tm = unat (tm_hour tm) * 3600 + ?s" using v(7,8) by (simp_all add: day_second_def)
    then have "day_second tm div 3600 = unat (tm_hour tm)" "day_second tm mod 3600 = ?s" by simp_all
    then show "day_second tm div 3600 = unat (tm_hour tm)" "day_second tm mod 3600 div 60 = unat (tm_minute tm)"
      "day_second tm mod 3600 mod 60 = unat (tm_second tm)" using v(8) by simp_all
  qed
  show ?thesis
  proof (cases "early_leap tm")
    case False
    have "d < cum_days ?l ?m" using v(5,9) n(1) by (simp add: d_def)
    then have "time_rtctm (of_nat (civil_days tm * 86400 + day_second tm)) = Some tm"
      unfolding e using v n day_second_less [OF assms]
      by (subst time_rtctm_value [OF n(2) v(3,4) refl]) (auto simp: d_def h y)
    moreover have "time_stamp tm = Inr (of_nat (civil_days tm * 86400 + day_second tm))"
      using False time_stamp_value [OF assms] by simp
    moreover have "\<not> (LEAP_CKR (unat (tm_year tm)) \<and> tm_month tm \<le> 2)" using False b n(1) by simp
    ultimately show ?thesis by blast
  next
    case True
    then have l: "?l" "?m \<le> 2" by (simp_all add: early_leap_def n)
    define m' where "m' = (if d + 1 < cum_days ?l ?m then ?m else ?m + 1)"
    have "d < cum_days ?l ?m" using v(5,9) n(1) by (simp add: d_def)
    moreover have "?m = 1 \<or> ?m = 2" using v(3) l by linarith
    ultimately have m': "1 \<le> m'" "m' \<le> 12" "cum_days ?l (m' - 1) \<le> d + 1" "d + 1 < cum_days ?l m'"
      using l by (auto simp: m'_def d_def cum_days_def month_tab_def)
    have r: "time_rtctm (of_nat ((civil_days tm + 1) * 86400 + day_second tm)) =
      Some \<lparr>tm_second = tm_second tm, tm_minute = tm_minute tm, tm_hour = tm_hour tm,
        tm_day = of_nat (d + 1 - cum_days ?l (m' - 1) + 1), tm_month = of_nat m', tm_year = tm_year tm\<rparr>"
      unfolding e add.assoc using day_second_less [OF assms]
      by (subst time_rtctm_value [OF n(2) m'(1,2) refl m'(3,4)]) (simp_all add: h y)
    have "tm_day tm \<noteq> of_nat (d + 1 - cum_days ?l (m' - 1) + 1)" if "tm_month tm = of_nat m'"
    proof
      assume "tm_day tm = of_nat (d + 1 - cum_days ?l (m' - 1) + 1)"
      moreover have m: "?m = m'" using that m'(2) by (simp add: unat_of_nat_small)
      ultimately have "tm_day tm = of_nat (unat (tm_day tm) + 1)" using v(5) by (simp add: d_def)
      then show False by simp
    qed
    then have "time_rtctm (of_nat ((civil_days tm + 1) * 86400 + day_second tm)) \<noteq> Some tm"
      unfolding r by (cases tm) auto
    moreover have "time_stamp tm = Inr (of_nat ((civil_days tm + 1) * 86400 + day_second tm))"
      using True time_stamp_value [OF assms] by simp
    moreover have "LEAP_CKR (unat (tm_year tm)) \<and> tm_month tm \<le> 2" using True b n(1) by simp
    ultimately show ?thesis by blast
  qed
qed

lemma time_roundtrip_witness:
  "\<exists>ts. time_stamp \<lparr>tm_second = 5, tm_minute = 4, tm_hour = 3, tm_day = 29, tm_month = 2, tm_year = 2024\<rparr> = Inr ts \<and>
     time_rtctm ts \<noteq> Some \<lparr>tm_second = 5, tm_minute = 4, tm_hour = 3, tm_day = 29, tm_month = 2, tm_year = 2024\<rparr>"
  using time_roundtrip [of "\<lparr>tm_second = 5, tm_minute = 4, tm_hour = 3, tm_day = 29, tm_month = 2, tm_year = 2024\<rparr>"]
  by (auto simp: valid_tm_def cum_days_def month_tab_def LEAP_CKR_def)

end
