(* ===== verification/Pmm.thy ===== *)
theory Pmm
  imports Prelude Transition
begin

text \<open>
  kernel/mm/pmm.c: the list of free ranges of physical pages. The nodes are a sequence; the global
  \<open>_free\<close> is only its head. Before \<open>__pmm_tovmm\<close> a node lies at the start of its own range, afterwards
  in the kernel heap: \<open>tovmm\<close> says which set of allocation hooks is in place. The do-while loops of the
  code read \<open>n->next\<close> before they test it, so they fault on an empty list.
\<close>

section \<open>State\<close>

definition PAGE_SIZ :: u64 where "PAGE_SIZ = 0x1000"

record free_t =
  f_pages :: u64
  f_addr :: u64

record pmm =
  f_list :: "free_t list"
  page_free :: u64
  tovmm :: bool

section \<open>Operations\<close>

text \<open>The loop of \<open>pmm_allocpages\<close>: the first range that is large enough is cut at its start.\<close>

primrec alloc_nodes :: "u64 \<Rightarrow> free_t list \<Rightarrow> (u64 \<times> free_t list) option" where
  "alloc_nodes num [] = None"
| "alloc_nodes num (n # ns) =
     (if f_pages n \<ge> num
      then Some (f_addr n, if f_pages n - num = 0 then ns
                           else n\<lparr>f_addr := f_addr n + num * PAGE_SIZ, f_pages := f_pages n - num\<rparr> # ns)
      else map_option (\<lambda>(p, ns'). (p, n # ns')) (alloc_nodes num ns))"

definition pmm_allocpages :: "u64 \<Rightarrow> pmm \<Rightarrow> (u64 \<times> pmm) result" where
  "pmm_allocpages num s =
     (if f_list s = [] then Inl BadAccess
      else case alloc_nodes num (f_list s) of
             None \<Rightarrow> Inr (0, s)
           | Some (page, ns) \<Rightarrow>
               Inr (page, s\<lparr>f_list := ns, page_free := (if page \<noteq> 0 then page_free s - num else page_free s)\<rparr>))"

definition pmm_isfree :: "u64 \<Rightarrow> u64 \<Rightarrow> pmm \<Rightarrow> bool result" where
  "pmm_isfree page num s =
     (if f_list s = [] then Inl BadAccess
      else Inr (\<exists>n \<in> set (f_list s).
             max (f_addr n) page < min (f_addr n + f_pages n * PAGE_SIZ) (page + num * PAGE_SIZ)))"

text \<open>
  The loop of \<open>pmm_freepages\<close>. The range before a free one is joined with it in a node that \<open>alloc(page, 0)\<close>
  places: at the freed pages before \<open>__pmm_tovmm\<close>; afterwards \<open>alloc_post\<close> returns the
  physical address of the pages as if it were a node. The last case asks \<open>!n->next && n->next->addr > start\<close>.
\<close>

primrec free_nodes :: "bool \<Rightarrow> u64 \<Rightarrow> u64 \<Rightarrow> free_t list \<Rightarrow> free_t list result" where
  "free_nodes post start num [] = Inr []"
| "free_nodes post start num (n # ns) =
     (if f_addr n = start + num * PAGE_SIZ
      then if post then Inl BadAccess else Inr (n\<lparr>f_addr := start, f_pages := f_pages n + num\<rparr> # ns)
      else if f_addr n + f_pages n * PAGE_SIZ = start then Inr (n\<lparr>f_pages := f_pages n + num\<rparr> # ns)
      else if f_addr n < start \<and> ns = [] then Inl BadAccess
      else bind_result (free_nodes post start num ns) (\<lambda>ns'. Inr (n # ns')))"

definition pmm_freepages :: "u64 \<Rightarrow> u64 \<Rightarrow> pmm \<Rightarrow> pmm result" where
  "pmm_freepages page0 num s =
     (let page = page0 AND NOT 0x7ff
      in bind_result (pmm_isfree page num s) (\<lambda>b.
           if b then Inr s
           else bind_result (free_nodes (tovmm s) page num (f_list s)) (\<lambda>ns.
                  Inr (s\<lparr>f_list := ns, page_free := page_free s + num\<rparr>))))"

text \<open>
  \<open>__pmm_pre\<close> reads the memory map of the firmware, a list of descriptors (type, start, number of pages)
  without the first one; types 3 and 4 are code and data of the boot services, type 7 is
  conventional memory. The \<open>next\<close> of the last node is never set: \<open>tail\<close> are the nodes that follow from the word
  that the memory of the firmware holds there, none when this word is null.
\<close>

record mem_desc =
  md_type :: u32
  md_start :: u64
  md_pages :: u64

definition pmm_conventional :: "mem_desc \<Rightarrow> bool" where
  "pmm_conventional d \<longleftrightarrow> md_type d = 3 \<or> md_type d = 4 \<or> md_type d = 7"

definition ended_by :: "free_t list \<Rightarrow> free_t list \<Rightarrow> free_t list" where
  "ended_by tail ns = (if ns = [] then [] else ns @ tail)"

definition pmm_pre :: "free_t list \<Rightarrow> mem_desc list \<Rightarrow> pmm" where
  "pmm_pre tail ds =
     (let free = filter pmm_conventional ds
      in \<lparr>f_list = ended_by tail (map (\<lambda>d. \<lparr>f_pages = md_pages d, f_addr = md_start d\<rparr>) free),
          page_free = sum_list (map md_pages free), tovmm = False\<rparr>)"

text \<open>
  \<open>__pmm_tovmm\<close> copies the nodes, in their order, into as many heap blocks and switches the hooks. The \<open>next\<close> of
  the last copy is not set either; \<open>tail\<close> are the nodes that follow from the word malloc left in this block.
  The head \<open>_free\<close> is static, so the empty list stays empty in both functions.
\<close>

definition pmm_tovmm :: "free_t list \<Rightarrow> pmm \<Rightarrow> pmm" where
  "pmm_tovmm tail s =
     s\<lparr>f_list := ended_by tail (map (\<lambda>n. \<lparr>f_pages = f_pages n, f_addr = f_addr n\<rparr>) (f_list s)), tovmm := True\<rparr>"

lemma ended_by_Nil [simp]: "ended_by [] ns = ns"
  by (simp add: ended_by_def)

section \<open>The pages of a range\<close>

text \<open>Page numbers: the page at address \<open>a\<close> has the number \<open>a div 4096\<close>.\<close>

definition pages_at :: "u64 \<Rightarrow> nat \<Rightarrow> nat set" where
  "pages_at a k = {unat a div 4096 ..< unat a div 4096 + k}"

definition span :: "free_t \<Rightarrow> nat set" where
  "span n = pages_at (f_addr n) (unat (f_pages n))"

definition range_ok :: "u64 \<Rightarrow> nat \<Rightarrow> bool" where
  "range_ok a k \<longleftrightarrow> unat a mod 4096 = 0 \<and> a \<noteq> 0 \<and> unat a + k * 4096 \<le> 2 ^ 52"

definition node_ok :: "free_t \<Rightarrow> bool" where
  "node_ok n \<longleftrightarrow> range_ok (f_addr n) (unat (f_pages n)) \<and> f_pages n \<noteq> 0"

definition nodes_ok :: "free_t list \<Rightarrow> bool" where
  "nodes_ok ns \<longleftrightarrow> (\<forall>n \<in> set ns. node_ok n) \<and> sorted_wrt (\<lambda>a b. span a \<inter> span b = {}) ns"

definition free_pages :: "pmm \<Rightarrow> nat set" where
  "free_pages s = (\<Union>n \<in> set (f_list s). span n)"

definition free_count :: "free_t list \<Rightarrow> nat" where
  "free_count ns = (\<Sum>n\<leftarrow>ns. unat (f_pages n))"

definition pmm_ok :: "pmm \<Rightarrow> bool" where
  "pmm_ok s \<longleftrightarrow> nodes_ok (f_list s)"

lemma range_end:
  assumes "range_ok a k" "j \<le> k"
  shows "unat (a + of_nat j * PAGE_SIZ) = unat a + j * 4096"
proof -
  have k: "unat a + k * 4096 \<le> 2 ^ 52" "j * 4096 \<le> k * 4096" using assms by (simp_all add: range_ok_def)
  have n: "(2 :: nat) ^ 52 < 2 ^ 64" by simp
  have b: "unat a + j * 4096 < 2 ^ 64" "j * 4096 < 2 ^ 64" using k n by linarith+
  have "of_nat j * PAGE_SIZ = (of_nat (j * 4096) :: u64)" by (simp add: PAGE_SIZ_def)
  then have "unat (of_nat j * PAGE_SIZ) = j * 4096" using b(2) unat_of_nat_small [where 'a = 64, of "j * 4096"] by (simp del: of_nat_mult)
  then show ?thesis using unat_add_nowrap [of a "of_nat j * PAGE_SIZ"] b(1) by simp
qed

lemma range_end_word: "range_ok a k \<Longrightarrow> unat j \<le> k \<Longrightarrow> unat (a + j * PAGE_SIZ) = unat a + unat j * 4096"
  using range_end [of a k "unat j"] by simp

text \<open>A range cut at its start.\<close>

lemma range_cut:
  assumes "range_ok a k" "unat j \<le> k"
  shows "pages_at a k = pages_at a (unat j) \<union> pages_at (a + j * PAGE_SIZ) (k - unat j)"
    "pages_at a (unat j) \<inter> pages_at (a + j * PAGE_SIZ) (k - unat j) = {}"
    "range_ok (a + j * PAGE_SIZ) (k - unat j)" "range_ok a (unat j)"
proof -
  note e = range_end_word [OF assms]
  have d: "unat (a + j * PAGE_SIZ) div 4096 = unat a div 4096 + unat j" unfolding e by simp
  show "pages_at a k = pages_at a (unat j) \<union> pages_at (a + j * PAGE_SIZ) (k - unat j)"
    "pages_at a (unat j) \<inter> pages_at (a + j * PAGE_SIZ) (k - unat j) = {}"
    using assms(2) unfolding pages_at_def d by auto
  have "a + j * PAGE_SIZ \<noteq> 0" using e assms(1) by (auto simp: range_ok_def unat_eq_0 [symmetric])
  moreover have "unat a + unat j * 4096 + (k - unat j) * 4096 = unat a + k * 4096" using assms(2) by (simp add: diff_mult_distrib)
  ultimately show "range_ok (a + j * PAGE_SIZ) (k - unat j)" using assms(1) unfolding range_ok_def e by simp
  show "range_ok a (unat j)" using assms(1) mult_le_mono1 [OF assms(2), of 4096] unfolding range_ok_def by linarith
qed

lemma nodes_ok_Cons:
  "nodes_ok (n # ns) \<longleftrightarrow> node_ok n \<and> (\<forall>m \<in> set ns. span n \<inter> span m = {}) \<and> nodes_ok ns"
  by (auto simp: nodes_ok_def)

text \<open>
  What the loop of \<open>pmm_allocpages\<close> takes is a range of free pages; the rest stays free and well formed.
\<close>

lemma alloc_nodes_spec:
  assumes "nodes_ok ns" "num \<noteq> 0" "alloc_nodes num ns = Some (p, ns')"
  shows "range_ok p (unat num) \<and> nodes_ok ns' \<and> free_count ns = free_count ns' + unat num \<and>
    (\<Union>n \<in> set ns. span n) = pages_at p (unat num) \<union> (\<Union>n \<in> set ns'. span n) \<and>
    pages_at p (unat num) \<inter> (\<Union>n \<in> set ns'. span n) = {}"
  using assms
proof (induction ns arbitrary: ns')
  case (Cons n ns)
  have n: "node_ok n" "\<forall>m \<in> set ns. span n \<inter> span m = {}" "nodes_ok ns" using Cons.prems(1) by (simp_all add: nodes_ok_Cons)
  have r: "range_ok (f_addr n) (unat (f_pages n))" using n(1) by (simp add: node_ok_def)
  show ?case
  proof (cases "num \<le> f_pages n")
    case True
    then have le: "unat num \<le> unat (f_pages n)" by (simp add: word_le_nat_alt)
    have sub: "unat (f_pages n - num) = unat (f_pages n) - unat num" using True by (simp add: unat_sub)
    note c = range_cut [OF r le]
    show ?thesis
    proof (cases "f_pages n = num")
      case eq: True
      then have "p = f_addr n" "ns' = ns" using Cons.prems(3) by simp_all
      then show ?thesis using n eq c(4) by (auto simp: span_def free_count_def)
    next
      case False
      define n' where "n' = n\<lparr>f_addr := f_addr n + num * PAGE_SIZ, f_pages := f_pages n - num\<rparr>"
      have e: "p = f_addr n" "ns' = n' # ns" using Cons.prems(3) True False by (auto simp: n'_def)
      have s: "span n = pages_at p (unat num) \<union> span n'" "pages_at p (unat num) \<inter> span n' = {}"
        using c(1,2) unfolding span_def e n'_def by (simp_all add: sub)
      have "node_ok n'" using c(3) False by (simp add: node_ok_def n'_def sub)
      moreover have "unat (f_pages n) = unat (f_pages n') + unat num" using le by (simp add: n'_def sub)
      ultimately show ?thesis using s n c(4) unfolding e by (auto simp: nodes_ok_Cons free_count_def)
    qed
  next
    case False
    then obtain ns2 where ns2: "alloc_nodes num ns = Some (p, ns2)" "ns' = n # ns2" using Cons.prems(3) by auto
    note IH = Cons.IH [OF n(3) Cons.prems(2) ns2(1)]
    then have "(\<Union>m \<in> set ns2. span m) \<subseteq> (\<Union>m \<in> set ns. span m)" "pages_at p (unat num) \<subseteq> (\<Union>m \<in> set ns. span m)" by auto
    then have "\<forall>m \<in> set ns2. span n \<inter> span m = {}" "span n \<inter> pages_at p (unat num) = {}" using n(2) by blast+
    then show ?thesis using IH n unfolding ns2(2) by (auto simp: nodes_ok_Cons free_count_def)
  qed
qed simp

lemma alloc_nodes_None:
  "alloc_nodes num ns = None \<longleftrightarrow> (\<forall>n \<in> set ns. f_pages n < num)"
  by (induction ns) auto

section \<open>Freeing\<close>

text \<open>Two ranges next to each other.\<close>

lemma range_join:
  assumes "range_ok a j" "range_ok (a + of_nat j * PAGE_SIZ) k"
  shows "pages_at a (j + k) = pages_at a j \<union> pages_at (a + of_nat j * PAGE_SIZ) k" "range_ok a (j + k)"
proof -
  note e = range_end [OF assms(1) order_refl]
  show "pages_at a (j + k) = pages_at a j \<union> pages_at (a + of_nat j * PAGE_SIZ) k"
    unfolding pages_at_def e by auto
  show "range_ok a (j + k)" using assms unfolding range_ok_def e by (simp add: add_mult_distrib)
qed

lemma fits:
  fixes a x :: nat
  assumes "a + x * 4096 \<le> 2 ^ 52"
  shows "x < 2 ^ 64"
  using assms by simp

lemma count_sum: "range_ok a (unat i + unat j) \<Longrightarrow> unat (i + j) = unat i + unat (j :: u64)"
  using fits [of "unat a" "unat i + unat j"] by (intro unat_add_nowrap) (simp add: range_ok_def)

lemma free_nodes_spec:
  assumes "nodes_ok ns" "range_ok start (unat num)" "num \<noteq> 0"
    "pages_at start (unat num) \<inter> (\<Union>n \<in> set ns. span n) = {}" "free_nodes post start num ns = Inr ns'"
  shows "nodes_ok ns' \<and> (\<Union>n \<in> set ns. span n) \<subseteq> (\<Union>n \<in> set ns'. span n) \<and>
    (\<Union>n \<in> set ns'. span n) \<subseteq> (\<Union>n \<in> set ns. span n) \<union> pages_at start (unat num)"
  using assms(1,4,5)
proof (induction ns arbitrary: ns')
  case Nil
  then show ?case by simp
next
  case (Cons n ns)
  have n: "node_ok n" "\<forall>m \<in> set ns. span n \<inter> span m = {}" "nodes_ok ns" using Cons.prems(1) by (simp_all add: nodes_ok_Cons)
  have r: "range_ok (f_addr n) (unat (f_pages n))" "f_pages n \<noteq> 0" using n(1) by (simp_all add: node_ok_def)
  have joined: ?case if "ns' = n' # ns" "node_ok n'" "span n' = span n \<union> pages_at start (unat num)" for n'
    using that n Cons.prems(2) by (auto simp: nodes_ok_Cons)
  consider (head) "f_addr n = start + num * PAGE_SIZ" | (tail) "f_addr n + f_pages n * PAGE_SIZ = start" "f_addr n \<noteq> start + num * PAGE_SIZ"
    | (on) ns2 where "free_nodes post start num ns = Inr ns2" "ns' = n # ns2"
    using Cons.prems(3) by (auto simp: bind_result_eq_Inr split: if_splits)
  then show ?case
  proof cases
    case head
    have j: "range_ok (start + of_nat (unat num) * PAGE_SIZ) (unat (f_pages n))" using r(1) head by simp
    note rj = range_join [OF assms(2) j]
    have u: "unat (f_pages n + num) = unat num + unat (f_pages n)" using count_sum rj(2) by (metis add.commute)
    then have "f_pages n + num \<noteq> 0" using assms(3) by (auto simp: unat_eq_0 [symmetric])
    then show ?thesis
      using Cons.prems(3) head rj u
      by (intro joined [of "n\<lparr>f_addr := start, f_pages := f_pages n + num\<rparr>"])
         (auto simp: node_ok_def span_def split: if_splits)
  next
    case tail
    have j: "range_ok (f_addr n + of_nat (unat (f_pages n)) * PAGE_SIZ) (unat num)" using assms(2) tail by simp
    note rj = range_join [OF r(1) j]
    have u: "unat (f_pages n + num) = unat (f_pages n) + unat num" using count_sum rj(2) by blast
    then have "f_pages n + num \<noteq> 0" using assms(3) by (auto simp: unat_eq_0 [symmetric])
    then show ?thesis
      using Cons.prems(3) tail rj u
      by (intro joined [of "n\<lparr>f_pages := f_pages n + num\<rparr>"]) (auto simp: node_ok_def span_def)
  next
    case on
    have "pages_at start (unat num) \<inter> (\<Union>n \<in> set ns. span n) = {}" using Cons.prems(2) by auto
    note IH = Cons.IH [OF n(3) this on(1)]
    have "span n \<inter> span m = {}" if "m \<in> set ns2" for m
    proof -
      have "span m \<subseteq> (\<Union>n \<in> set ns. span n) \<union> pages_at start (unat num)" using IH that by blast
      moreover have "span n \<inter> pages_at start (unat num) = {}" using Cons.prems(2) by auto
      ultimately show ?thesis using n(2) by blast
    qed
    then show ?thesis using IH n(1) unfolding on(2) by (auto simp: nodes_ok_Cons)
  qed
qed

lemma aligned_mask: "range_ok p k \<Longrightarrow> p AND NOT 0x7ff = p"
proof -
  assume "range_ok p k"
  then have "take_bit 12 (unat p) = 0" by (simp add: range_ok_def take_bit_eq_mod)
  then have "unat (take_bit 12 p) = 0" by (simp add: unsigned_take_bit_eq)
  then have z: "take_bit 12 p = 0" by (simp add: unat_eq_0)
  have low: "\<not> bit p n" if "n < 12" for n using arg_cong [OF z, of "\<lambda>x. bit x n"] that by (simp add: bit_take_bit_iff)
  have m: "(0x7ff :: u64) = mask 11" by (simp add: mask_eq_exp_minus_1)
  show ?thesis unfolding m by (rule bit_word_eqI) (use low in \<open>auto simp: bit_simps\<close>)
qed

section \<open>The pages in use\<close>

text \<open>
  The kernel with the ranges that it was given and has not freed. The words that \<open>__pmm_pre\<close> and \<open>__pmm_tovmm\<close> leave
  unset at the end of the list are taken to be null; \<open>stale_tail_given\<close> below is what happens otherwise.
\<close>

record pmmsys =
  allocator :: pmm
  given :: "(u64 \<times> u64) set"

inductive pstep :: "pmmsys \<Rightarrow> pmmsys \<Rightarrow> bool" where
  alloc: "num \<noteq> 0 \<Longrightarrow> pmm_allocpages num (allocator s) = Inr (p, s1) \<Longrightarrow>
    pstep s (if p = 0 then s\<lparr>allocator := s1\<rparr> else \<lparr>allocator = s1, given = insert (p, num) (given s)\<rparr>)"
| free: "(p, num) \<in> given s \<Longrightarrow> pmm_freepages p num (allocator s) = Inr s1 \<Longrightarrow> pstep s \<lparr>allocator = s1, given = given s - {(p, num)}\<rparr>"
| switch: "pstep s (s\<lparr>allocator := pmm_tovmm [] (allocator s)\<rparr>)"

definition pboot :: "pmmsys \<Rightarrow> bool" where
  "pboot s \<longleftrightarrow> (\<exists>ds. allocator s = pmm_pre [] ds \<and> pmm_ok (pmm_pre [] ds)) \<and> given s = {}"

definition pinv :: "pmmsys \<Rightarrow> bool" where
  "pinv s \<longleftrightarrow> pmm_ok (allocator s) \<and>
     (\<forall>p k. (p, k) \<in> given s \<longrightarrow> range_ok p (unat k) \<and> k \<noteq> 0 \<and> pages_at p (unat k) \<inter> free_pages (allocator s) = {}) \<and>
     (\<forall>p k q l. (p, k) \<in> given s \<and> (q, l) \<in> given s \<and> (q, l) \<noteq> (p, k) \<longrightarrow> pages_at p (unat k) \<inter> pages_at q (unat l) = {})"

lemma pmm_allocpages_spec:
  assumes "pmm_ok s" "num \<noteq> 0" "pmm_allocpages num s = Inr (p, s')"
  shows "p = 0 \<and> s' = s \<and> (\<forall>n \<in> set (f_list s). f_pages n < num) \<or>
    p \<noteq> 0 \<and> range_ok p (unat num) \<and> pmm_ok s' \<and> free_pages s = pages_at p (unat num) \<union> free_pages s' \<and>
    pages_at p (unat num) \<inter> free_pages s' = {} \<and> free_count (f_list s) = free_count (f_list s') + unat num"
proof (cases "alloc_nodes num (f_list s)")
  case None
  then show ?thesis using assms(3) alloc_nodes_None [of num "f_list s"] by (simp add: pmm_allocpages_def split: if_splits)
next
  case (Some r)
  then obtain ns where r: "alloc_nodes num (f_list s) = Some (p, ns)" "f_list s' = ns"
    using assms(3) by (cases r) (auto simp: pmm_allocpages_def split: if_splits)
  have "nodes_ok (f_list s)" using assms(1) by (simp add: pmm_ok_def)
  note sp = alloc_nodes_spec [OF this assms(2) r(1)]
  then have "p \<noteq> 0" by (simp add: range_ok_def)
  then show ?thesis using sp unfolding pmm_ok_def free_pages_def r(2) by blast
qed

lemma pmm_freepages_spec:
  assumes "pmm_ok s" "range_ok p (unat num)" "num \<noteq> 0" "pages_at p (unat num) \<inter> free_pages s = {}"
    "pmm_freepages p num s = Inr s'"
  shows "pmm_ok s' \<and> free_pages s \<subseteq> free_pages s' \<and> free_pages s' \<subseteq> free_pages s \<union> pages_at p (unat num)"
proof -
  consider "s' = s" | ns where "free_nodes (tovmm s) p num (f_list s) = Inr ns" "f_list s' = ns"
    using assms(5) aligned_mask [OF assms(2)]
    by (auto simp: pmm_freepages_def Let_def bind_result_eq_Inr split: if_splits)
  then show ?thesis
  proof cases
    case 2
    then show ?thesis
      using free_nodes_spec [OF _ assms(2,3) _ 2(1)] assms(1,4) unfolding pmm_ok_def free_pages_def by simp
  qed (use assms(1) in simp)
qed

lemma tovmm_same: "pmm_ok (pmm_tovmm [] s) = pmm_ok s" "free_pages (pmm_tovmm [] s) = free_pages s"
proof -
  have "span \<lparr>f_pages = f_pages n, f_addr = f_addr n\<rparr> = span n" "node_ok \<lparr>f_pages = f_pages n, f_addr = f_addr n\<rparr> = node_ok n" for n
    by (simp_all add: span_def node_ok_def)
  then show "pmm_ok (pmm_tovmm [] s) = pmm_ok s" "free_pages (pmm_tovmm [] s) = free_pages s"
    by (simp_all add: pmm_ok_def nodes_ok_def pmm_tovmm_def free_pages_def sorted_wrt_map)
qed

interpretation frames: keeps pboot pstep pinv
proof
  show "pinv s" if "pboot s" for s using that by (auto simp: pboot_def pinv_def)
  show "pinv s'" if "pstep s s'" "pinv s" for s s'
    using that
  proof cases
    case (alloc num p s1)
    have i: "pmm_ok (allocator s)" using \<open>pinv s\<close> by (simp add: pinv_def)
    consider "p = 0" "s1 = allocator s" | (new) "p \<noteq> 0" "range_ok p (unat num)" "pmm_ok s1"
        "free_pages (allocator s) = pages_at p (unat num) \<union> free_pages s1" "pages_at p (unat num) \<inter> free_pages s1 = {}"
      using pmm_allocpages_spec [OF i alloc(2,3)] by blast
    then show ?thesis
    proof cases
      case new
      have "pages_at q (unat l) \<inter> free_pages s1 = {}" "pages_at q (unat l) \<inter> pages_at p (unat num) = {}" if "(q, l) \<in> given s" for q l
        using new(4) that \<open>pinv s\<close> unfolding pinv_def by blast+
      moreover have "s' = \<lparr>allocator = s1, given = insert (p, num) (given s)\<rparr>" using alloc(1) new(1) by simp
      ultimately show ?thesis using new(2,3,5) alloc(2) \<open>pinv s\<close> unfolding pinv_def
        by simp (metis Int_commute)
    qed (use alloc(1) \<open>pinv s\<close> in simp)
  next
    case (free p num s1)
    have i: "pmm_ok (allocator s)" "range_ok p (unat num)" "num \<noteq> 0" "pages_at p (unat num) \<inter> free_pages (allocator s) = {}"
      using \<open>pinv s\<close> free(2) unfolding pinv_def by auto
    note f = pmm_freepages_spec [OF i free(3)]
    have "pages_at q (unat l) \<inter> free_pages s1 = {}" if "(q, l) \<in> given s" "(q, l) \<noteq> (p, num)" for q l
      using f that free(2) \<open>pinv s\<close> unfolding pinv_def by blast
    then show ?thesis using f \<open>pinv s\<close> free(1) unfolding pinv_def by auto
  next
    case switch
    then show ?thesis using \<open>pinv s\<close> tovmm_same by (simp add: pinv_def)
  qed
qed

text \<open>
  C8. Where the \<open>next\<close> words that \<open>__pmm_pre\<close> and \<open>__pmm_tovmm\<close> leave unset in the last node are null, however the
  kernel allocates and frees, before and after the switch to the heap: the ranges that
  \<open>pmm_allocpages\<close> has given out are page aligned, are not the null page, have no page in common with
  each other, and none of their pages is still on the free list, whose ranges are disjoint, too.
\<close>

theorem pages_given_apart:
  assumes "reach pboot pstep s" "(p, k) \<in> given s"
  shows "unat p mod 4096 = 0 \<and> p \<noteq> 0 \<and> pages_at p (unat k) \<inter> free_pages (allocator s) = {} \<and>
    (\<forall>q l. (q, l) \<in> given s \<and> (q, l) \<noteq> (p, k) \<longrightarrow> pages_at p (unat k) \<inter> pages_at q (unat l) = {}) \<and>
    sorted_wrt (\<lambda>m n. span m \<inter> span n = {}) (f_list (allocator s))"
proof -
  have "pinv s" using assms(1) by (rule frames.good_reach)
  then show ?thesis using assms(2) unfolding pinv_def pmm_ok_def nodes_ok_def range_ok_def by blast
qed

text \<open>
  With another word in the unset \<open>next\<close> the node it leads to is a free range like any other: its pages are
  handed out as soon as no range of the list is large enough, whoever uses them.
\<close>

lemma alloc_nodes_append:
  "\<forall>n \<in> set ns. f_pages n < num \<Longrightarrow> num \<le> f_pages m \<Longrightarrow>
    \<exists>ns'. alloc_nodes num (ns @ m # tail) = Some (f_addr m, ns')"
  by (induction ns) auto

theorem stale_tail_given:
  assumes "f_list s \<noteq> []" "\<forall>n \<in> set (f_list s). f_pages n < num" "num \<le> f_pages m"
  shows "(\<exists>s'. pmm_allocpages num s = Inr (0, s')) \<and> (\<exists>s'. pmm_allocpages num (pmm_tovmm (m # tail) s) = Inr (f_addr m, s'))"
proof -
  have "alloc_nodes num (f_list s) = None" if "\<forall>n \<in> set ns. f_pages n < num" "ns = f_list s" for ns
    using that(1) unfolding that(2) [symmetric] by (induction ns) auto
  moreover obtain ns' where "alloc_nodes num (map (\<lambda>n. \<lparr>f_pages = f_pages n, f_addr = f_addr n\<rparr>) (f_list s) @ m # tail) = Some (f_addr m, ns')"
    using alloc_nodes_append [of "map (\<lambda>n. \<lparr>f_pages = f_pages n, f_addr = f_addr n\<rparr>) (f_list s)" num m tail] assms(2,3) by auto
  ultimately show ?thesis using assms(1,2) by (simp add: pmm_allocpages_def pmm_tovmm_def ended_by_def)
qed

text \<open>Ranges without a common page do not overlap as \<open>_pmm_isfree\<close> sees it.\<close>

lemma interval_apart:
  fixes a b j k :: nat
  assumes "{a ..< a + j} \<inter> {b ..< b + k} = {}" "0 < j" "0 < k"
  shows "a + j \<le> b \<or> b + k \<le> a"
proof (rule ccontr)
  assume "\<not> (a + j \<le> b \<or> b + k \<le> a)"
  then have "max a b \<in> {a ..< a + j} \<inter> {b ..< b + k}" using assms(2,3) by auto
  then show False using assms(1) by blast
qed

lemma not_overlapping:
  assumes "range_ok a (unat j)" "range_ok b (unat k)" "j \<noteq> 0" "k \<noteq> 0" "pages_at a (unat j) \<inter> pages_at b (unat k) = {}"
  shows "\<not> max a b < min (a + j * PAGE_SIZ) (b + k * PAGE_SIZ)"
proof -
  have "unat a div 4096 + unat j \<le> unat b div 4096 \<or> unat b div 4096 + unat k \<le> unat a div 4096"
    using interval_apart assms(3-5) unfolding pages_at_def by (simp add: unat_gt_0)
  then have "(unat a div 4096 + unat j) * 4096 \<le> unat b div 4096 * 4096 \<or> (unat b div 4096 + unat k) * 4096 \<le> unat a div 4096 * 4096"
    using mult_le_mono1 [of "unat a div 4096 + unat j" "unat b div 4096" 4096] mult_le_mono1 [of "unat b div 4096 + unat k" "unat a div 4096" 4096]
    by blast
  moreover have "unat a div 4096 * 4096 = unat a" "unat b div 4096 * 4096 = unat b" using assms(1,2) by (auto simp: range_ok_def)
  ultimately have "unat a + unat j * 4096 \<le> unat b \<or> unat b + unat k * 4096 \<le> unat a" by (simp add: add_mult_distrib)
  then have "a + j * PAGE_SIZ \<le> b \<or> b + k * PAGE_SIZ \<le> a"
    using range_end_word [OF assms(1) order_refl] range_end_word [OF assms(2) order_refl] by (simp add: word_le_nat_alt)
  then show ?thesis by auto
qed

text \<open>
  Allocating from the first free range and freeing the pages again: before \<open>__pmm_tovmm\<close> the list is
  what it was; after it \<open>pmm_freepages\<close> writes a list node through the physical address of the
  freed pages.
\<close>

theorem pmm_alloc_free:
  assumes "pmm_ok s" "f_list s = n # ns" "num \<noteq> 0" "num < f_pages n"
  shows "\<exists>p s1. pmm_allocpages num s = Inr (p, s1) \<and> p \<noteq> 0 \<and>
    pmm_freepages p num s1 = (if tovmm s then Inl BadAccess else Inr s)"
proof -
  define n' where "n' = n\<lparr>f_addr := f_addr n + num * PAGE_SIZ, f_pages := f_pages n - num\<rparr>"
  define s1 where "s1 = s\<lparr>f_list := n' # ns, page_free := page_free s - num\<rparr>"
  let ?p = "f_addr n"
  have "range_ok ?p (unat (f_pages n))" using assms(1,2) by (simp add: pmm_ok_def nodes_ok_Cons node_ok_def)
  then have p0: "?p \<noteq> 0" by (simp add: range_ok_def)
  then have a: "pmm_allocpages num s = Inr (?p, s1)"
    using assms(2-4) by (auto simp: pmm_allocpages_def s1_def n'_def)
  have sp: "range_ok ?p (unat num)" "pmm_ok s1" "pages_at ?p (unat num) \<inter> free_pages s1 = {}"
    using pmm_allocpages_spec [OF assms(1,3) a] p0 by blast+
  have "\<not> max (f_addr m) ?p < min (f_addr m + f_pages m * PAGE_SIZ) (?p + num * PAGE_SIZ)" if "m \<in> set (f_list s1)" for m
  proof (rule not_overlapping [OF _ sp(1) _ assms(3)])
    show "range_ok (f_addr m) (unat (f_pages m))" "f_pages m \<noteq> 0" using sp(2) that by (auto simp: pmm_ok_def nodes_ok_def node_ok_def)
    show "pages_at (f_addr m) (unat (f_pages m)) \<inter> pages_at ?p (unat num) = {}"
      using sp(3) that by (auto simp: free_pages_def span_def)
  qed
  then have "pmm_isfree ?p num s1 = Inr False" by (auto simp: pmm_isfree_def s1_def)
  then have "pmm_freepages ?p num s1 = (if tovmm s then Inl BadAccess else Inr s)"
    using aligned_mask [OF sp(1)] assms(2) by (simp add: pmm_freepages_def s1_def n'_def)
  then show ?thesis using a p0 by blast
qed

section \<open>Witnesses\<close>

definition pmm_demo :: pmm where
  "pmm_demo = pmm_pre [] [\<lparr>md_type = 0, md_start = 0x1000, md_pages = 1\<rparr>, \<lparr>md_type = 7, md_start = 0x100000, md_pages = 8\<rparr>,
     \<lparr>md_type = 4, md_start = 0x200000, md_pages = 2\<rparr>]"

lemma pmm_demo_ok: "pmm_ok pmm_demo"
  by (simp add: pmm_demo_def pmm_pre_def pmm_conventional_def pmm_ok_def nodes_ok_def node_ok_def range_ok_def span_def pages_at_def)

lemma pages_given_apart_witness:
  "\<exists>s. reach pboot pstep s \<and> (0x100000, 3) \<in> given s \<and> pages_at 0x100000 3 \<inter> free_pages (allocator s) = {}"
proof -
  let ?b = "\<lparr>allocator = pmm_demo, given = {}\<rparr>"
  obtain s1 where a: "pmm_allocpages 3 (allocator ?b) = Inr (0x100000, s1)"
    by (simp add: pmm_allocpages_def pmm_demo_def pmm_pre_def pmm_conventional_def)
  have "reach pboot pstep ?b" using pmm_demo_ok by (intro reach_start) (auto simp: pboot_def pmm_demo_def)
  then have r: "reach pboot pstep \<lparr>allocator = s1, given = {(0x100000, 3)}\<rparr>"
    using pstep.alloc [OF _ a] by (auto intro: reach_step)
  moreover have "(0x100000, 3) \<in> given \<lparr>allocator = s1, given = {(0x100000, 3)}\<rparr>" by simp
  ultimately show ?thesis using pages_given_apart [OF r] by fastforce
qed

lemma pmm_alloc_free_witness:
  "\<exists>p s1. pmm_allocpages 3 (pmm_tovmm [] pmm_demo) = Inr (p, s1) \<and> pmm_freepages p 3 s1 = Inl BadAccess"
  using pmm_alloc_free [of "pmm_tovmm [] pmm_demo" "\<lparr>f_pages = 8, f_addr = 0x100000\<rparr>" "[\<lparr>f_pages = 2, f_addr = 0x200000\<rparr>]" 3]
    tovmm_same(1) [of pmm_demo] pmm_demo_ok
  by (auto simp: pmm_tovmm_def pmm_demo_def pmm_pre_def pmm_conventional_def)

end
