(* ===== verification/Paging.thy ===== *)
theory Paging
  imports Pmm
begin

unbundle bit_operations_syntax

text \<open>
  kernel/mm/map.c, vmm.c and the anonymous part of mman.c: the four-level page tables of the processor,
  which the code reads and writes through the window of the last entry of the top table (\<open>R_IDX\<close>).
  Physical memory maps the address of an aligned 64-bit word to its value; every access of the code
  goes through \<open>mmu\<close>, the table walk of the hardware, and an access without a translation is a bad
  access. New tables come from \<open>pmm_allocpages\<close>. The translation cache of the processor is not modelled.
\<close>

section \<open>The processor\<close>

definition PE_P :: u64 where "PE_P = 1"
definition PE_RW :: u64 where "PE_RW = 2"
definition PE_US :: u64 where "PE_US = 4"

definition IDX :: "u64 \<Rightarrow> nat \<Rightarrow> u64" where
  "IDX addr level = drop_bit ((level - 1) * 9 + 12) addr AND 0x1FF"

text \<open>
  The frame an entry points to, and the walk from a table of the given level: bit 7 marks a large page
  on the second and third level and is reserved on the fourth. A table lies on a page
  boundary, so the address of one of its 512 words is the disjunction of its address and the offset.
\<close>

definition pe_frame :: "u64 \<Rightarrow> u64" where
  "pe_frame e = e AND 0x000FFFFFFFFFF000"

primrec mmu :: "(u64 \<Rightarrow> u64) \<Rightarrow> nat \<Rightarrow> u64 \<Rightarrow> u64 \<Rightarrow> u64 option" where
  "mmu m 0 t va = Some (t OR (va AND 0xFFF))"
| "mmu m (Suc l) t va =
     (let e = m (t OR push_bit 3 (IDX va (Suc l)))
      in if \<not> bit e 0 \<or> l = 3 \<and> bit e 7 then None
         else if (l = 1 \<or> l = 2) \<and> bit e 7
              then Some ((pe_frame e AND NOT (mask (12 + 9 * l))) OR (va AND mask (12 + 9 * l)))
         else mmu m l (pe_frame e) va)"

section \<open>State and access\<close>

record paging =
  pmem :: "u64 \<Rightarrow> u64"
  pg_cr3 :: u64
  pg_pmm :: pmm

definition translate :: "paging \<Rightarrow> u64 \<Rightarrow> u64 option" where
  "translate s va = mmu (pmem s) 4 (pg_cr3 s) va"

definition rd64 :: "paging \<Rightarrow> u64 \<Rightarrow> u64 result" where
  "rd64 s va = (case translate s va of None \<Rightarrow> Inl BadAccess | Some pa \<Rightarrow> Inr (pmem s pa))"

definition wr64 :: "u64 \<Rightarrow> u64 \<Rightarrow> paging \<Rightarrow> paging result" where
  "wr64 va v s = (case translate s va of None \<Rightarrow> Inl BadAccess
                  | Some pa \<Rightarrow> Inr (s\<lparr>pmem := (pmem s)(pa := v)\<rparr>))"

section \<open>The code\<close>

definition PE_S_FLAGS :: "u16 \<Rightarrow> u64" where
  "PE_S_FLAGS flgs = ucast (flgs AND 0x7FF)"

definition PE_S_ADDR :: "u64 \<Rightarrow> u64" where
  "PE_S_ADDR addr = addr AND NOT 0x7FF"

definition PE_V_ADDR :: "u64 \<Rightarrow> u64" where
  "PE_V_ADDR e = e AND NOT 0x7FF"

definition R_IDX :: u64 where "R_IDX = 511"

definition VRT :: "u64 \<Rightarrow> u64 \<Rightarrow> u64 \<Rightarrow> u64 \<Rightarrow> u64" where
  "VRT i4 i3 i2 i1 =
     push_bit 48 (if i4 > 255 then 0xFFFF else 0) OR push_bit 39 (i4 AND 0x1FF) OR
     push_bit 30 (i3 AND 0x1FF) OR push_bit 21 (i2 AND 0x1FF) OR push_bit 12 (i1 AND 0x1FF)"

definition vrt_entryget :: "u64 \<Rightarrow> nat \<Rightarrow> u64 result" where
  "vrt_entryget addr level =
     (if level = 4 then Inr (VRT R_IDX R_IDX R_IDX R_IDX)
      else if level = 3 then Inr (VRT R_IDX R_IDX R_IDX (IDX addr 4))
      else if level = 2 then Inr (VRT R_IDX R_IDX (IDX addr 4) (IDX addr 3))
      else if level = 1 then Inr (VRT R_IDX (IDX addr 4) (IDX addr 3) (IDX addr 2))
      else Inl Panic)"

text \<open>\<open>memset (new, 0, PAGE_SIZ)\<close>, one word after the other.\<close>

primrec zero_words :: "nat \<Rightarrow> u64 \<Rightarrow> paging \<Rightarrow> paging result" where
  "zero_words 0 va s = Inr s"
| "zero_words (Suc k) va s =
     bind_result (zero_words k va s) (\<lambda>s1. wr64 (va OR push_bit 3 (of_nat k)) 0 s1)"

definition alloc_table :: "u64 \<Rightarrow> nat \<Rightarrow> u64 \<Rightarrow> paging \<Rightarrow> paging result" where
  "alloc_table vrt l ea s =
     bind_result (pmm_allocpages 1 (pg_pmm s)) (\<lambda>(new, pm).
       if new = 0 then Inl AssertFail
       else bind_result (wr64 ea (PE_S_ADDR new OR PE_RW OR PE_P) (s\<lparr>pg_pmm := pm\<rparr>)) (\<lambda>s1.
            bind_result (vrt_entryget vrt l) (\<lambda>w. zero_words 512 w s1)))"

text \<open>\<open>_map_walk\<close> at level \<open>Suc l\<close> with the table at the address \<open>tab\<close>.\<close>

primrec map_walk :: "nat \<Rightarrow> u64 \<Rightarrow> u64 \<Rightarrow> u16 \<Rightarrow> u64 \<Rightarrow> nat \<Rightarrow> paging \<Rightarrow> paging result" where
  "map_walk 0 phy vrt flgs tab mode s = Inl Panic"
| "map_walk (Suc l) phy vrt flgs tab mode s =
     (let ea = tab OR push_bit 3 (IDX vrt (Suc l))
      in if Suc l = mode then wr64 ea (PE_S_ADDR phy OR PE_S_FLAGS flgs) s
         else bind_result (rd64 s ea) (\<lambda>e.
              bind_result (if e AND PE_P = 0 then alloc_table vrt l ea s else Inr s) (\<lambda>s1.
              bind_result (if ucast flgs AND PE_US \<noteq> 0
                           then bind_result (rd64 s1 ea) (\<lambda>e1. wr64 ea (e1 OR PE_US) s1) else Inr s1) (\<lambda>s2.
              bind_result (vrt_entryget vrt l) (\<lambda>w. map_walk l phy vrt flgs w mode s2)))))"

text \<open>\<open>_qry_walk\<close>; the test \<open>lv & (1 << 7)\<close> of the code looks at the level and is never true.\<close>

primrec qry_walk :: "nat \<Rightarrow> u64 \<Rightarrow> u64 \<Rightarrow> paging \<Rightarrow> u64 result" where
  "qry_walk 0 vrt tab s = Inl Panic"
| "qry_walk (Suc l) vrt tab s =
     bind_result (rd64 s (tab OR push_bit 3 (IDX vrt (Suc l)))) (\<lambda>e.
       if e AND PE_P = 0 then Inr 0
       else if l = 0 then Inr (PE_V_ADDR e OR (vrt AND 0xfff))
       else bind_result (vrt_entryget vrt l) (\<lambda>w. qry_walk l vrt w s))"

definition parse_flags :: "nat \<Rightarrow> u16" where
  "parse_flags md = (if md = 2 \<or> md = 3 then 0x80 else 0)"

definition pagesiz :: "nat \<Rightarrow> u64" where
  "pagesiz md = (if md = 2 then 0x200000 else if md = 3 then 0x40000000 else 0x1000)"

definition pml4 :: u64 where "pml4 = VRT R_IDX R_IDX R_IDX R_IDX"

primrec vmap_map :: "nat \<Rightarrow> u64 \<Rightarrow> u64 \<Rightarrow> u16 \<Rightarrow> nat \<Rightarrow> paging \<Rightarrow> paging result" where
  "vmap_map 0 phy vrt flgs mode s = Inr s"
| "vmap_map (Suc num) phy vrt flgs mode s =
     bind_result (map_walk 4 phy vrt (flgs OR parse_flags mode) pml4 mode s)
       (vmap_map num (phy + pagesiz mode) (vrt + pagesiz mode) flgs mode)"

definition vmap_query :: "u64 \<Rightarrow> paging \<Rightarrow> u64 result" where
  "vmap_query vrt s = qry_walk 4 vrt pml4 s"

text \<open>\<open>vmap_init\<close> runs before the window exists and writes the entry at its physical address.\<close>

definition vmap_init :: "paging \<Rightarrow> paging" where
  "vmap_init s = s\<lparr>pmem := (pmem s)(pg_cr3 s OR push_bit 3 R_IDX := PE_S_ADDR (pg_cr3 s) OR PE_RW OR PE_P)\<rparr>"

section \<open>Indices\<close>

lemma and_1FF: "x AND 0x1FF = take_bit 9 (x :: u64)"
  by (simp add: take_bit_eq_mask mask_eq_exp_minus_1)

lemma and_FFF: "x AND 0xFFF = take_bit 12 (x :: u64)"
  by (simp add: take_bit_eq_mask mask_eq_exp_minus_1)

lemma bit_frame: "bit (pe_frame e) n \<longleftrightarrow> 12 \<le> n \<and> n < 52 \<and> bit e n"
proof -
  have e: "(0x000FFFFFFFFFF000 :: u64) = push_bit 12 (mask 40)" by (simp add: mask_eq_exp_minus_1 push_bit_eq_mult)
  show ?thesis unfolding pe_frame_def e by (auto simp: bit_simps)
qed

lemma bit_IDX: "bit (IDX va l) n \<longleftrightarrow> n < 9 \<and> bit va ((l - 1) * 9 + 12 + n)"
  unfolding IDX_def and_1FF by (auto simp: bit_simps ac_simps dest: bit_imp_le_length)

lemma bit_VRT:
  "bit (VRT i4 i3 i2 i1) n \<longleftrightarrow> n < 64 \<and>
     (if n < 12 then False else if n < 21 then bit i1 (n - 12) else if n < 30 then bit i2 (n - 21)
      else if n < 39 then bit i3 (n - 30) else if n < 48 then bit i4 (n - 39) else i4 > 255)"
proof -
  have f: "(0xFFFF :: u64) = mask 16" by (simp add: mask_eq_exp_minus_1)
  show ?thesis unfolding VRT_def and_1FF f by (auto simp: bit_simps)
qed

text \<open>An index is below 512, that is, it has nine bits.\<close>

definition small :: "u64 \<Rightarrow> bool" where
  "small i \<longleftrightarrow> (\<forall>n. bit i n \<longrightarrow> n < 9)"

lemma small_IDX [simp]: "small (IDX va l)"
  by (simp add: small_def bit_IDX)

lemma small_R_IDX [simp]: "small R_IDX"
proof -
  have e: "R_IDX = mask 9" by (simp add: R_IDX_def mask_eq_exp_minus_1)
  show ?thesis unfolding e small_def bit_mask_iff by simp
qed

lemma small_of_nat: "k < 512 \<Longrightarrow> small (of_nat k)"
proof -
  assume k: "k < 512"
  then have "of_nat k = take_bit 9 (of_nat k :: u64)" by (simp add: take_bit_of_nat) (simp add: take_bit_eq_mod)
  then show ?thesis unfolding small_def by (metis bit_take_bit_iff)
qed

text \<open>The indices of an address in the window.\<close>

lemma IDX_VRT:
  assumes "small i" "small i4" "small i3" "small i2" "small i1"
  shows "IDX (VRT i4 i3 i2 i1 OR push_bit 3 i) 4 = i4" "IDX (VRT i4 i3 i2 i1 OR push_bit 3 i) 3 = i3"
    "IDX (VRT i4 i3 i2 i1 OR push_bit 3 i) 2 = i2" "IDX (VRT i4 i3 i2 i1 OR push_bit 3 i) 1 = i1"
    "(VRT i4 i3 i2 i1 OR push_bit 3 i) AND 0xFFF = push_bit 3 i"
proof -
  note s = assms [unfolded small_def, rule_format]
  have n: "\<not> bit i k" if "9 \<le> k" for k using s(1) [of k] that by auto
  show "IDX (VRT i4 i3 i2 i1 OR push_bit 3 i) 4 = i4" "IDX (VRT i4 i3 i2 i1 OR push_bit 3 i) 3 = i3"
    "IDX (VRT i4 i3 i2 i1 OR push_bit 3 i) 2 = i2" "IDX (VRT i4 i3 i2 i1 OR push_bit 3 i) 1 = i1"
    by (rule bit_word_eqI; use s(2-5) n in \<open>auto simp: bit_IDX bit_VRT bit_simps\<close>)+
  show "(VRT i4 i3 i2 i1 OR push_bit 3 i) AND 0xFFF = push_bit 3 i"
    unfolding and_FFF by (rule bit_word_eqI) (use n in \<open>auto simp: bit_VRT bit_simps not_less [symmetric]\<close>)
qed

section \<open>The tree of tables\<close>

text \<open>The table that the walk for \<open>va\<close> reaches after \<open>k\<close> steps.\<close>

definition next_table :: "(u64 \<Rightarrow> u64) \<Rightarrow> u64 \<Rightarrow> u64 \<Rightarrow> u64 option" where
  "next_table m i t =
     (let e = m (t OR push_bit 3 i) in if bit e 0 \<and> \<not> bit e 7 then Some (pe_frame e) else None)"

primrec tabs :: "(u64 \<Rightarrow> u64) \<Rightarrow> u64 \<Rightarrow> u64 \<Rightarrow> nat \<Rightarrow> u64 option" where
  "tabs m c va 0 = Some c"
| "tabs m c va (Suc k) = Option.bind (tabs m c va k) (next_table m (IDX va (4 - k)))"

definition self_map :: "(u64 \<Rightarrow> u64) \<Rightarrow> u64 \<Rightarrow> bool" where
  "self_map m c \<longleftrightarrow> (let e = m (c OR push_bit 3 R_IDX) in bit e 0 \<and> \<not> bit e 7 \<and> pe_frame e = c)"

text \<open>The walk with its four levels spelled out.\<close>

lemma mmu_4:
  "mmu m 4 c va =
     (let e4 = m (c OR push_bit 3 (IDX va 4)); e3 = m (pe_frame e4 OR push_bit 3 (IDX va 3));
          e2 = m (pe_frame e3 OR push_bit 3 (IDX va 2)); e1 = m (pe_frame e2 OR push_bit 3 (IDX va 1))
      in if \<not> bit e4 0 \<or> bit e4 7 \<or> \<not> bit e3 0 then None
         else if bit e3 7 then Some ((pe_frame e3 AND NOT (mask 30)) OR (va AND mask 30))
         else if \<not> bit e2 0 then None
         else if bit e2 7 then Some ((pe_frame e2 AND NOT (mask 21)) OR (va AND mask 21))
         else if \<not> bit e1 0 then None
         else Some (pe_frame e1 OR (va AND 0xFFF)))"
  by (simp add: eval_nat_numeral Let_def)

lemma tabs_steps:
  "tabs m c va (Suc 0) = next_table m (IDX va 4) c"
  "tabs m c va 2 = Option.bind (next_table m (IDX va 4) c) (next_table m (IDX va 3))"
  "tabs m c va 3 = Option.bind (Option.bind (next_table m (IDX va 4) c) (next_table m (IDX va 3))) (next_table m (IDX va 2))"
  by (simp_all add: eval_nat_numeral)

lemmas IDX_window = IDX_VRT IDX_VRT(4) [unfolded One_nat_def]

text \<open>An address in the window of a table leads to the words of the table.\<close>

lemma window:
  assumes "self_map m c" "tabs m c vrt k = Some t" "l = 4 - k" "k < 4" "small i" "vrt_entryget vrt l = Inr w"
  shows "mmu m 4 c (w OR push_bit 3 i) = Some (t OR push_bit 3 i)"
proof -
  have r: "bit (m (c OR push_bit 3 R_IDX)) 0" "\<not> bit (m (c OR push_bit 3 R_IDX)) 7" "pe_frame (m (c OR push_bit 3 R_IDX)) = c"
    using assms(1) by (simp_all add: self_map_def Let_def)
  consider "k = 0" | "k = 1" | "k = 2" | "k = 3" using assms(4) by linarith
  then show ?thesis
  proof cases
    case 1
    then have "t = c" "w = VRT R_IDX R_IDX R_IDX R_IDX" using assms(2,3,6) by (simp_all add: vrt_entryget_def)
    then show ?thesis using r assms(5) by (simp add: mmu_4 IDX_window Let_def)
  next
    case 2
    then have w: "w = VRT R_IDX R_IDX R_IDX (IDX vrt 4)" using assms(3,6) by (simp add: vrt_entryget_def)
    show ?thesis using 2 assms(2,5) r unfolding w by (auto simp: mmu_4 IDX_window Let_def tabs_steps next_table_def split: if_splits)
  next
    case 3
    then have w: "w = VRT R_IDX R_IDX (IDX vrt 4) (IDX vrt 3)" using assms(3,6) by (simp add: vrt_entryget_def)
    show ?thesis using 3 assms(2,5) r unfolding w
      by (auto simp: mmu_4 IDX_window Let_def tabs_steps next_table_def bind_eq_Some_conv split: if_splits)
  next
    case 4
    then have w: "w = VRT R_IDX (IDX vrt 4) (IDX vrt 3) (IDX vrt 2)" using assms(3,6) by (simp add: vrt_entryget_def)
    show ?thesis using 4 assms(2,5) r unfolding w
      by (auto simp: mmu_4 IDX_window Let_def tabs_steps next_table_def bind_eq_Some_conv split: if_splits)
  qed
qed

section \<open>Words of different tables\<close>

definition is_frame :: "u64 \<Rightarrow> bool" where
  "is_frame t \<longleftrightarrow> pe_frame t = t"

lemma frame_frame [simp]: "is_frame (pe_frame e)"
  unfolding is_frame_def by (rule bit_word_eqI) (auto simp: bit_frame)

lemma bit_frame_low: "is_frame t \<Longrightarrow> n < 12 \<Longrightarrow> \<not> bit t n"
  unfolding is_frame_def by (metis bit_frame not_le)

lemma word_of_table:
  assumes "is_frame t" "is_frame t'" "small i" "small i'"
  shows "t OR push_bit 3 i = t' OR push_bit 3 i' \<longleftrightarrow> t = t' \<and> i = i'"
proof
  assume e: "t OR push_bit 3 i = t' OR push_bit 3 i'"
  have b: "bit t n \<or> 3 \<le> n \<and> n < 64 \<and> bit i (n - 3) \<longleftrightarrow> bit t' n \<or> 3 \<le> n \<and> n < 64 \<and> bit i' (n - 3)" for n
    using arg_cong [OF e, of "\<lambda>x. bit x n"] by (auto simp: bit_simps)
  have s: "\<not> bit i k" "\<not> bit i' k" if "9 \<le> k" for k using assms(3,4) that by (auto simp: small_def not_le)
  have l: "\<not> bit t n" "\<not> bit t' n" if "n < 12" for n using that assms(1,2) bit_frame_low by auto
  have "bit t n = bit t' n" for n
  proof (cases "n < 12")
    case False
    then show ?thesis using b [of n] s [of "n - 3"] by auto
  qed (use l in auto)
  moreover have "bit i n = bit i' n" for n
  proof (cases "n < 9")
    case True
    then show ?thesis using b [of "n + 3"] l [of "n + 3"] by auto
  qed (use s in auto)
  ultimately show "t = t' \<and> i = i'" by (auto intro: bit_word_eqI)
qed simp

lemma tabs_frame: "is_frame c \<Longrightarrow> tabs m c va k = Some t \<Longrightarrow> is_frame t"
  by (cases k) (auto simp: bind_eq_Some_conv next_table_def Let_def split: if_splits)

text \<open>Entries that mean the same to a walk, and memories that agree along one.\<close>

definition same_entry :: "u64 \<Rightarrow> u64 \<Rightarrow> bool" where
  "same_entry e e' \<longleftrightarrow> bit e 0 = bit e' 0 \<and> bit e 7 = bit e' 7 \<and> pe_frame e = pe_frame e'"

lemma same_entry_refl [simp]: "same_entry e e"
  by (simp add: same_entry_def)

definition agrees :: "(u64 \<Rightarrow> u64) \<Rightarrow> (u64 \<Rightarrow> u64) \<Rightarrow> u64 \<Rightarrow> u64 \<Rightarrow> nat \<Rightarrow> bool" where
  "agrees m m' c va n \<longleftrightarrow> (\<forall>k<n. \<forall>t. tabs m c va k = Some t \<longrightarrow>
     same_entry (m' (t OR push_bit 3 (IDX va (4 - k)))) (m (t OR push_bit 3 (IDX va (4 - k)))))"

lemma next_table_same: "same_entry (m' (t OR push_bit 3 i)) (m (t OR push_bit 3 i)) \<Longrightarrow> next_table m' i t = next_table m i t"
  by (simp add: next_table_def same_entry_def Let_def)

lemma tabs_agrees: "agrees m m' c va n \<Longrightarrow> k \<le> n \<Longrightarrow> tabs m' c va k = tabs m c va k"
proof (induction k)
  case (Suc k)
  then have "tabs m' c va k = tabs m c va k" by simp
  then show ?case using Suc.prems next_table_same
    by (cases "tabs m c va k") (auto simp: agrees_def)
qed simp

lemma mmu_agrees:
  assumes "agrees m m' c va 4"
  shows "mmu m' 4 c va = mmu m 4 c va"
proof -
  have a: "same_entry (m' (t OR push_bit 3 (IDX va (4 - k)))) (m (t OR push_bit 3 (IDX va (4 - k))))"
    if "tabs m c va k = Some t" "k < 4" for k t
    using assms that by (simp add: agrees_def)
  define e4 where "e4 = m (c OR push_bit 3 (IDX va 4))"
  define e3 where "e3 = m (pe_frame e4 OR push_bit 3 (IDX va 3))"
  define e2 where "e2 = m (pe_frame e3 OR push_bit 3 (IDX va 2))"
  define e1 where "e1 = m (pe_frame e2 OR push_bit 3 (IDX va 1))"
  have t1: "tabs m c va 1 = Some (pe_frame e4)" if "bit e4 0" "\<not> bit e4 7"
    using that by (simp add: tabs_steps next_table_def e4_def)
  have t2: "tabs m c va 2 = Some (pe_frame e3)" if "bit e4 0" "\<not> bit e4 7" "bit e3 0" "\<not> bit e3 7"
    using that by (simp add: tabs_steps next_table_def e4_def e3_def)
  have t3: "tabs m c va 3 = Some (pe_frame e2)" if "bit e4 0" "\<not> bit e4 7" "bit e3 0" "\<not> bit e3 7" "bit e2 0" "\<not> bit e2 7"
    using that by (simp add: tabs_steps next_table_def e4_def e3_def e2_def)
  have w: "same_entry (m' (c OR push_bit 3 (IDX va 4))) e4" using a [of 0 c] by (simp add: e4_def)
  have w3: "same_entry (m' (pe_frame e4 OR push_bit 3 (IDX va 3))) e3" if "bit e4 0" "\<not> bit e4 7"
    using a [OF t1 [OF that]] by (simp add: e3_def)
  have w2: "same_entry (m' (pe_frame e3 OR push_bit 3 (IDX va 2))) e2" if "bit e4 0" "\<not> bit e4 7" "bit e3 0" "\<not> bit e3 7"
    using a [OF t2 [OF that]] by (simp add: e2_def)
  have w1: "same_entry (m' (pe_frame e2 OR push_bit 3 (IDX va 1))) e1"
    if "bit e4 0" "\<not> bit e4 7" "bit e3 0" "\<not> bit e3 7" "bit e2 0" "\<not> bit e2 7"
    using a [OF t3 [OF that]] by (simp add: e1_def)
  show ?thesis
    unfolding mmu_4 Let_def e4_def [symmetric] e3_def [symmetric] e2_def [symmetric] e1_def [symmetric]
    using w w3 w2 w1 unfolding same_entry_def
    by (cases "bit e4 0 \<and> \<not> bit e4 7"; cases "bit e3 0 \<and> \<not> bit e3 7"; cases "bit e2 0 \<and> \<not> bit e2 7") auto
qed

section \<open>The invariant of the page tables\<close>

definition user :: "u64 \<Rightarrow> bool" where
  "user va \<longleftrightarrow> IDX va 4 \<noteq> R_IDX"

definition same_path :: "nat \<Rightarrow> u64 \<Rightarrow> u64 \<Rightarrow> bool" where
  "same_path k va va' \<longleftrightarrow> (\<forall>j<k. IDX va (4 - j) = IDX va' (4 - j))"

text \<open>
  The top table is mapped into itself; below the other entries the tables form a tree, so no table is
  reached on two ways; and the pages still to be allocated are no tables.
\<close>

definition tree :: "(u64 \<Rightarrow> u64) \<Rightarrow> u64 \<Rightarrow> bool" where
  "tree m c \<longleftrightarrow> (\<forall>va va' k k' t. user va \<and> user va' \<and> k \<le> 3 \<and> k' \<le> 3 \<and>
     tabs m c va k = Some t \<and> tabs m c va' k' = Some t \<longrightarrow> k = k' \<and> same_path k va va')"

definition fresh :: "(u64 \<Rightarrow> u64) \<Rightarrow> u64 \<Rightarrow> u64 \<Rightarrow> bool" where
  "fresh m c p \<longleftrightarrow> is_frame p \<and> p \<noteq> 0 \<and> (\<forall>va k. user va \<and> k \<le> 3 \<longrightarrow> tabs m c va k \<noteq> Some p)"

definition free_page :: "paging \<Rightarrow> u64 \<Rightarrow> bool" where
  "free_page s p \<longleftrightarrow> is_frame p \<and> p \<noteq> 0 \<and> unat p div 4096 \<in> free_pages (pg_pmm s)"

definition tables_ok :: "paging \<Rightarrow> bool" where
  "tables_ok s \<longleftrightarrow> is_frame (pg_cr3 s) \<and> tree (pmem s) (pg_cr3 s) \<and>
     pmm_ok (pg_pmm s) \<and> (\<forall>p. free_page s p \<longrightarrow> fresh (pmem s) (pg_cr3 s) p)"

definition pt_ok :: "paging \<Rightarrow> bool" where
  "pt_ok s \<longleftrightarrow> self_map (pmem s) (pg_cr3 s) \<and> tables_ok s"

definition avail :: "paging \<Rightarrow> nat" where
  "avail s = free_count (f_list (pg_pmm s))"

lemma treeD: "tree m c \<Longrightarrow> user va \<Longrightarrow> user va' \<Longrightarrow> k \<le> 3 \<Longrightarrow> k' \<le> 3 \<Longrightarrow> tabs m c va k = Some t \<Longrightarrow>
    tabs m c va' k' = Some t \<Longrightarrow> k = k' \<and> same_path k va va'"
  unfolding tree_def by blast

lemma tabs_path: "same_path k va va' \<Longrightarrow> tabs m c va k = tabs m c va' k"
proof (induction k)
  case (Suc k)
  then have "same_path k va va'" "IDX va (4 - k) = IDX va' (4 - k)" by (simp_all add: same_path_def)
  then show ?case using Suc.IH by simp
qed simp

text \<open>A change of a single word that no walk of a user address reads before level \<open>n\<close>.\<close>

lemma agrees_upd:
  assumes "is_frame c" "is_frame t" "small i"
    "\<And>k. k < n \<Longrightarrow> tabs m c va k = Some t \<Longrightarrow> IDX va (4 - k) = i \<Longrightarrow> same_entry v (m (t OR push_bit 3 i))"
  shows "agrees m (m(t OR push_bit 3 i := v)) c va n"
  unfolding agrees_def
proof (intro allI impI)
  fix k t' assume k: "k < n" "tabs m c va k = Some t'"
  have "is_frame t'" using tabs_frame [OF assms(1) k(2)] .
  then show "same_entry ((m(t OR push_bit 3 i := v)) (t' OR push_bit 3 (IDX va (4 - k)))) (m (t' OR push_bit 3 (IDX va (4 - k))))"
    using word_of_table [of t' t "IDX va (4 - k)" i] assms(2-4) k by auto
qed

text \<open>The first words of a page set to zero.\<close>

definition zeroed :: "u64 \<Rightarrow> nat \<Rightarrow> (u64 \<Rightarrow> u64) \<Rightarrow> u64 \<Rightarrow> u64" where
  "zeroed p n m = (\<lambda>x. if \<exists>i<n. x = p OR push_bit 3 (of_nat i) then 0 else m x)"

lemma zeroed_other:
  assumes "is_frame p" "is_frame t" "small i" "t \<noteq> p" "n \<le> 512"
  shows "zeroed p n m (t OR push_bit 3 i) = m (t OR push_bit 3 i)"
proof -
  have "t OR push_bit 3 i \<noteq> p OR push_bit 3 (of_nat j)" if "j < n" for j
    using word_of_table [OF assms(2,1,3) small_of_nat [of j]] assms(4,5) that by simp
  then show ?thesis by (auto simp: zeroed_def)
qed

lemma zeroed_all:
  assumes "small i"
  shows "zeroed p 512 m (p OR push_bit 3 i) = 0"
proof -
  have "i = take_bit 9 i" using assms by (intro bit_word_eqI) (auto simp: small_def bit_simps)
  then have "unat i = take_bit 9 (unat i)" by (metis unsigned_take_bit_eq)
  then have "unat i < 512" using take_bit_nat_less_exp [of 9 "unat i"] by simp
  then show ?thesis by (auto simp: zeroed_def intro!: exI [of _ "unat i"])
qed

lemma agrees_zeroed:
  assumes "is_frame c" "is_frame p" "\<And>k. k < n \<Longrightarrow> tabs m c va k \<noteq> Some p" "j \<le> 512"
  shows "agrees m (zeroed p j m) c va n"
  unfolding agrees_def
proof (intro allI impI)
  fix k t assume k: "k < n" "tabs m c va k = Some t"
  then have "t \<noteq> p" "is_frame t" using assms(3) [OF k(1)] tabs_frame [OF assms(1) k(2)] by auto
  then show "same_entry (zeroed p j m (t OR push_bit 3 (IDX va (4 - k)))) (m (t OR push_bit 3 (IDX va (4 - k))))"
    using zeroed_other [OF assms(2) _ small_IDX _ assms(4)] by simp
qed

lemma zero_words_spec:
  assumes "is_frame (pg_cr3 s)" "self_map (pmem s) (pg_cr3 s)" "tabs (pmem s) (pg_cr3 s) vrt k = Some p" "k \<le> 3"
    "\<And>j. j < k \<Longrightarrow> tabs (pmem s) (pg_cr3 s) vrt j \<noteq> Some p" "p \<noteq> pg_cr3 s" "vrt_entryget vrt (4 - k) = Inr w" "n \<le> 512"
  shows "zero_words n w s = Inr (s\<lparr>pmem := zeroed p n (pmem s)\<rparr>)"
  using assms(8)
proof (induction n)
  case 0
  then show ?case by (simp add: zeroed_def)
next
  case (Suc n)
  let ?m = "pmem s" and ?c = "pg_cr3 s" and ?z = "zeroed p n (pmem s)"
  have p: "is_frame p" using tabs_frame [OF assms(1,3)] .
  have "agrees ?m ?z ?c vrt k" using agrees_zeroed [OF assms(1) p assms(5), of k n] Suc.prems by simp
  then have t: "tabs ?z ?c vrt k = Some p" using tabs_agrees assms(3) by simp
  have "?z (?c OR push_bit 3 R_IDX) = ?m (?c OR push_bit 3 R_IDX)"
    using zeroed_other [OF p assms(1) small_R_IDX] assms(6) Suc.prems by auto
  then have r: "self_map ?z ?c" using assms(2) by (simp add: self_map_def)
  have k: "k < 4" using assms(4) by simp
  have "translate (s\<lparr>pmem := ?z\<rparr>) (w OR push_bit 3 (of_nat n)) = Some (p OR push_bit 3 (of_nat n))"
    using window [OF r t refl k small_of_nat assms(7)] Suc.prems by (simp add: translate_def)
  moreover have "?z(p OR push_bit 3 (of_nat n) := 0) = zeroed p (Suc n) ?m"
    by (auto simp: zeroed_def fun_eq_iff less_Suc_eq)
  ultimately show ?case using Suc by (simp add: wr64_def)
qed

text \<open>The entry for a new table.\<close>

lemma new_entry:
  assumes "is_frame p"
  defines "e \<equiv> PE_S_ADDR p OR PE_RW OR PE_P"
  shows "bit e 0" "\<not> bit e 7" "pe_frame e = p"
proof -
  have m: "(0x7FF :: u64) = mask 11" "PE_RW OR PE_P = mask 2"
    by (simp_all add: PE_RW_def PE_P_def mask_eq_exp_minus_1)
  have b: "bit e n \<longleftrightarrow> bit p n \<and> 11 \<le> n \<or> n < 2" for n
    unfolding e_def PE_S_ADDR_def or.assoc m by (auto simp: bit_simps dest: bit_imp_le_length)
  show "bit e 0" "\<not> bit e 7" using b [of 0] b [of 7] by simp_all
  show "pe_frame e = p"
  proof (rule bit_word_eqI)
    fix n
    have "bit p n \<longleftrightarrow> 12 \<le> n \<and> n < 52 \<and> bit p n" using assms(1) bit_frame unfolding is_frame_def by metis
    then show "bit (pe_frame e) n = bit p n" unfolding bit_frame b by auto
  qed
qed

lemma and_PE_P: "e AND PE_P = 0 \<longleftrightarrow> \<not> bit e 0"
  by (simp add: PE_P_def and_one_eq bit_0 odd_iff_mod_2_eq_one)

section \<open>A new table\<close>

text \<open>The walk of an address starts at the table that its first steps reach.\<close>

lemma mmu_tabs: "tabs m c va k = Some t \<Longrightarrow> k \<le> 4 \<Longrightarrow> mmu m 4 c va = mmu m (4 - k) t va"
proof (induction k arbitrary: t)
  case (Suc k)
  then obtain t' where t': "tabs m c va k = Some t'" "next_table m (IDX va (4 - k)) t' = Some t"
    by (auto simp: bind_eq_Some_conv)
  have "4 - k = Suc (4 - Suc k)" using Suc.prems by simp
  then have "mmu m (4 - k) t' va = mmu m (4 - Suc k) t va"
    using t'(2) by (auto simp: next_table_def Let_def split: if_splits)
  then show ?case using Suc.IH [OF t'(1)] Suc.prems by simp
qed simp

definition with_table :: "u64 \<Rightarrow> u64 \<Rightarrow> u64 \<Rightarrow> u64 \<Rightarrow> (u64 \<Rightarrow> u64) \<Rightarrow> u64 \<Rightarrow> u64" where
  "with_table t i p e m = zeroed p 512 (m(t OR push_bit 3 i := e))"

lemma with_table_old:
  assumes "is_frame t" "is_frame p" "small i" "is_frame t'" "small i'" "t' \<noteq> p"
  shows "with_table t i p e m (t' OR push_bit 3 i') = (if t' = t \<and> i' = i then e else m (t' OR push_bit 3 i'))"
  unfolding with_table_def using zeroed_other [OF assms(2,4,5,6)] word_of_table [OF assms(4,1,5,3)] by auto

lemma with_table_new: "small i' \<Longrightarrow> with_table t i p e m (p OR push_bit 3 i') = 0"
  unfolding with_table_def by (rule zeroed_all)

text \<open>No entry on the way of an address is that of a large page.\<close>

definition small_path :: "(u64 \<Rightarrow> u64) \<Rightarrow> u64 \<Rightarrow> u64 \<Rightarrow> bool" where
  "small_path m c va \<longleftrightarrow> (\<forall>j<3. \<forall>t. tabs m c va j = Some t \<longrightarrow>
     (let e = m (t OR push_bit 3 (IDX va (4 - j))) in \<not> (bit e 0 \<and> bit e 7)))"

text \<open>The facts about an allocation in \<open>_map_walk\<close>.\<close>

definition grows :: "(u64 \<Rightarrow> u64) \<Rightarrow> u64 \<Rightarrow> u64 \<Rightarrow> u64 \<Rightarrow> u64 \<Rightarrow> u64 \<Rightarrow> nat \<Rightarrow> bool" where
  "grows m c vrt t p e k \<longleftrightarrow> is_frame c \<and> tree m c \<and> user vrt \<and> k \<le> 2 \<and> tabs m c vrt k = Some t \<and>
     \<not> bit (m (t OR push_bit 3 (IDX vrt (4 - k)))) 0 \<and> fresh m c p \<and> bit e 0 \<and> \<not> bit e 7 \<and> pe_frame e = p"

lemma growsD:
  assumes "grows m c vrt t p e k"
  shows "is_frame c" "tree m c" "user vrt" "k \<le> 2" "tabs m c vrt k = Some t"
    "\<not> bit (m (t OR push_bit 3 (IDX vrt (4 - k)))) 0" "fresh m c p" "bit e 0" "\<not> bit e 7" "pe_frame e = p"
    "is_frame t" "is_frame p"
  using assms tabs_frame [of c m vrt k t] unfolding grows_def by (simp_all add: fresh_def)

lemma fresh_not: "fresh m c p \<Longrightarrow> user va \<Longrightarrow> j \<le> 3 \<Longrightarrow> tabs m c va j = Some t' \<Longrightarrow> t' \<noteq> p"
  by (auto simp: fresh_def)

lemma old_word:
  assumes g: "grows m c vrt t p e k" and a: "user va" "j \<le> 3" "tabs m c va j = Some t'"
  shows "with_table t (IDX vrt (4 - k)) p e m (t' OR push_bit 3 (IDX va (4 - j))) =
         (if j = k \<and> same_path (Suc k) va vrt then e else m (t' OR push_bit 3 (IDX va (4 - j))))"
proof -
  note d = growsD [OF g]
  have "t' = t \<and> IDX va (4 - j) = IDX vrt (4 - k) \<longleftrightarrow> j = k \<and> same_path (Suc k) va vrt"
  proof
    assume e: "t' = t \<and> IDX va (4 - j) = IDX vrt (4 - k)"
    have "k \<le> 3" using d(4) by simp
    then have "j = k \<and> same_path j va vrt" using treeD [OF d(2) a(1) d(3) a(2) _ a(3)] d(5) e by blast
    then show "j = k \<and> same_path (Suc k) va vrt" using e by (auto simp: same_path_def less_Suc_eq)
  next
    assume e: "j = k \<and> same_path (Suc k) va vrt"
    then have "same_path k va vrt" by (simp add: same_path_def)
    then show "t' = t \<and> IDX va (4 - j) = IDX vrt (4 - k)"
      using e a(3) d(5) tabs_path [of k va vrt m c] by (simp add: same_path_def)
  qed
  then show ?thesis
    using with_table_old [OF d(11,12) small_IDX tabs_frame [OF d(1) a(3)] small_IDX fresh_not [OF d(7) a]] by simp
qed

lemma at_path:
  assumes "grows m c vrt t p e k" "same_path (Suc k) va vrt"
  shows "tabs m c va k = Some t" "IDX va (4 - k) = IDX vrt (4 - k)" "tabs m c va (Suc k) = None"
proof -
  show t: "tabs m c va k = Some t" and i: "IDX va (4 - k) = IDX vrt (4 - k)"
    using growsD(5) [OF assms(1)] assms(2) tabs_path [of k va vrt m c] by (simp_all add: same_path_def)
  show "tabs m c va (Suc k) = None" using t i growsD(6) [OF assms(1)] by (simp add: next_table_def Let_def)
qed

lemma tabs_grow:
  assumes g: "grows m c vrt t p e k" and a: "user va" "j \<le> 3"
  shows "tabs (with_table t (IDX vrt (4 - k)) p e m) c va j =
         (if j = Suc k \<and> same_path (Suc k) va vrt then Some p else tabs m c va j)"
  using a(2)
proof (induction j)
  case (Suc j)
  let ?m = "with_table t (IDX vrt (4 - k)) p e m"
  note d = growsD [OF g]
  have IH: "tabs ?m c va j = (if j = Suc k \<and> same_path (Suc k) va vrt then Some p else tabs m c va j)"
    using Suc by simp
  consider (new) "j = Suc k" "same_path (Suc k) va vrt" | (here) "j = k" "same_path (Suc k) va vrt"
    | (old) "\<not> ((j = Suc k \<or> j = k) \<and> same_path (Suc k) va vrt)" by blast
  then show ?case
  proof cases
    case new
    then show ?thesis using IH at_path(3) [OF g] by (simp add: next_table_def with_table_new)
  next
    case here
    then show ?thesis using IH at_path(1,2) [OF g here(2)] old_word [OF g a(1), of k t] d(4,8-10)
      by (simp add: next_table_def Let_def)
  next
    case old
    then have "tabs ?m c va j = tabs m c va j" using IH by auto
    then show ?thesis using old old_word [OF g a(1), of j] Suc.prems
      by (cases "tabs m c va j") (auto simp: next_table_def)
  qed
qed simp

lemma mmu_grow:
  assumes g: "grows m c vrt t p e k" and a: "user va"
  shows "mmu (with_table t (IDX vrt (4 - k)) p e m) 4 c va = mmu m 4 c va"
proof (cases "same_path (Suc k) va vrt")
  case True
  let ?m = "with_table t (IDX vrt (4 - k)) p e m"
  note d = growsD [OF g] and p = at_path [OF g True]
  have l: "4 - k = Suc (Suc (2 - k))" "4 - Suc k = Suc (2 - k)" using d(4) by auto
  have "tabs ?m c va (Suc k) = Some p" using tabs_grow [OF g a, of "Suc k"] True d(4) by simp
  then have "mmu ?m 4 c va = mmu ?m (Suc (2 - k)) p va" using mmu_tabs [of ?m c va "Suc k" p] d(4) l by simp
  moreover have "mmu m 4 c va = mmu m (Suc (Suc (2 - k))) t va" using mmu_tabs [OF p(1)] d(4) l by simp
  ultimately show ?thesis using d(6) p(2) l by (simp add: with_table_new Let_def)
next
  case False
  then show ?thesis using old_word [OF g a] by (intro mmu_agrees) (auto simp: agrees_def)
qed

lemma small_grow:
  assumes g: "grows m c vrt t p e k" and a: "user va" "small_path m c va"
  shows "small_path (with_table t (IDX vrt (4 - k)) p e m) c va"
  unfolding small_path_def Let_def
proof (intro allI impI)
  fix j t' assume j: "j < 3" "tabs (with_table t (IDX vrt (4 - k)) p e m) c va j = Some t'"
  let ?e = "with_table t (IDX vrt (4 - k)) p e m (t' OR push_bit 3 (IDX va (4 - j)))"
  from j have j3: "j \<le> 3" by simp
  show "\<not> (bit ?e 0 \<and> bit ?e 7)"
  proof (cases "t' = p")
    case True
    then show ?thesis using with_table_new [OF small_IDX] by simp
  next
    case False
    then have t: "tabs m c va j = Some t'" using tabs_grow [OF g a(1) j3] j(2) by (auto split: if_splits)
    then have "\<not> (bit (m (t' OR push_bit 3 (IDX va (4 - j)))) 0 \<and> bit (m (t' OR push_bit 3 (IDX va (4 - j)))) 7)"
      using a(2) j(1) unfolding small_path_def Let_def by blast
    then show ?thesis using old_word [OF g a(1) j3 t] growsD(9) [OF g] by (simp split: if_split)
  qed
qed

lemma tree_grow:
  assumes g: "grows m c vrt t p e k"
  shows "tree (with_table t (IDX vrt (4 - k)) p e m) c"
  unfolding tree_def
proof (intro allI impI, elim conjE)
  fix va va' j j' t'
  assume a: "user va" "user va'" "j \<le> 3" "j' \<le> 3"
    and t: "tabs (with_table t (IDX vrt (4 - k)) p e m) c va j = Some t'"
      "tabs (with_table t (IDX vrt (4 - k)) p e m) c va' j' = Some t'"
  note n = tabs_grow [OF g a(1,3)] tabs_grow [OF g a(2,4)]
  show "j = j' \<and> same_path j va va'"
  proof (cases "t' = p")
    case True
    then have "j = Suc k \<and> same_path (Suc k) va vrt" "j' = Suc k \<and> same_path (Suc k) va' vrt"
      using t n fresh_not [OF growsD(7) [OF g]] a by metis+
    then show ?thesis by (simp add: same_path_def)
  next
    case False
    then have "tabs m c va j = Some t'" "tabs m c va' j' = Some t'" using t n by (auto split: if_splits)
    then show ?thesis by (rule treeD [OF growsD(2) [OF g] a])
  qed
qed

lemma fresh_grow:
  "grows m c vrt t p e k \<Longrightarrow> fresh m c q \<Longrightarrow> q \<noteq> p \<Longrightarrow> fresh (with_table t (IDX vrt (4 - k)) p e m) c q"
  using tabs_grow by (auto simp: fresh_def split: if_splits)

lemma not_top:
  assumes "tree m c" "user vrt" "tabs m c vrt k = Some t" "k \<le> 3" "t = c"
  shows "IDX vrt (4 - k) \<noteq> R_IDX"
proof -
  have "k = 0 \<and> same_path k vrt vrt" by (rule treeD [OF assms(1,2,2,4) _ assms(3)]) (simp_all add: assms(5))
  then show ?thesis using assms(2) by (simp add: user_def)
qed

lemma self_map_grow:
  assumes g: "grows m c vrt t p e k" and s: "self_map m c"
  shows "self_map (with_table t (IDX vrt (4 - k)) p e m) c"
proof -
  note d = growsD [OF g]
  have "c \<noteq> p" using fresh_not [OF d(7,3), of 0] by simp
  then have "with_table t (IDX vrt (4 - k)) p e m (c OR push_bit 3 R_IDX) = m (c OR push_bit 3 R_IDX)"
    using with_table_old [OF d(11,12) small_IDX d(1) small_R_IDX] not_top [OF d(2,3,5)] d(4) by auto
  then show ?thesis using s by (simp add: self_map_def)
qed

section \<open>The steps of a walk\<close>

definition same_map :: "paging \<Rightarrow> paging \<Rightarrow> bool" where
  "same_map s s' \<longleftrightarrow> pt_ok s' \<and> pg_cr3 s' = pg_cr3 s \<and> free_pages (pg_pmm s') \<subseteq> free_pages (pg_pmm s) \<and> (\<forall>va. user va \<longrightarrow> translate s' va = translate s va \<and>
     (small_path (pmem s) (pg_cr3 s) va \<longrightarrow> small_path (pmem s') (pg_cr3 s') va))"

lemma same_map_refl: "pt_ok s \<Longrightarrow> same_map s s"
  by (simp add: same_map_def)

lemma same_map_trans: "same_map s s1 \<Longrightarrow> same_map s1 s2 \<Longrightarrow> same_map s s2"
  unfolding same_map_def by (metis subset_trans)

lemma pt_okD:
  assumes "pt_ok s"
  shows "is_frame (pg_cr3 s)" "self_map (pmem s) (pg_cr3 s)" "tree (pmem s) (pg_cr3 s)" "pmm_ok (pg_pmm s)"
    "free_page s p \<Longrightarrow> fresh (pmem s) (pg_cr3 s) p"
  using assms by (simp_all add: pt_ok_def tables_ok_def)

lemma entryget_ok: "1 \<le> l \<Longrightarrow> l \<le> 4 \<Longrightarrow> \<exists>w. vrt_entryget vrt l = Inr w"
  by (auto simp: vrt_entryget_def)

lemma range_frame:
  assumes "range_ok p k" "0 < k"
  shows "is_frame p"
proof -
  have z: "unat p mod 2 ^ 12 = 0" "unat p + k * 4096 \<le> 2 ^ 52" using assms(1) by (simp_all add: range_ok_def)
  have "0 < k * 4096" using assms(2) by simp
  then have "unat p < 2 ^ 52" using z(2) by linarith
  then have "unat p mod 2 ^ 52 = unat p" by (rule mod_less)
  then have "take_bit 12 (unat p) = 0" "take_bit 52 (unat p) = unat p" using z(1) by (simp_all only: take_bit_eq_mod)
  then have "unat (take_bit 12 p) = unat (0 :: u64)" "unat (take_bit 52 p) = unat p"
    by (simp_all only: unsigned_take_bit_eq unsigned_0)
  then have t: "take_bit 12 p = 0" "take_bit 52 p = p" by (blast dest: unsigned_word_eqI)+
  have "bit p n \<longleftrightarrow> 12 \<le> n \<and> n < 52 \<and> bit p n" for n
    using arg_cong [OF t(1), of "\<lambda>x. bit x n"] arg_cong [OF t(2), of "\<lambda>x. bit x n"] unfolding bit_take_bit_iff by auto
  then show ?thesis unfolding is_frame_def by (intro bit_word_eqI) (metis bit_frame)
qed

lemma alloc_page:
  assumes "pmm_ok (pg_pmm s)" "pmm_allocpages 1 (pg_pmm s) = Inr (p, pm)" "p \<noteq> 0"
  shows "free_page s p" "pmm_ok pm" "unat q div 4096 \<in> free_pages pm \<Longrightarrow> unat q div 4096 \<in> free_pages (pg_pmm s) \<and> q \<noteq> p"
    "free_pages pm \<subseteq> free_pages (pg_pmm s)" "free_count (f_list (pg_pmm s)) = Suc (free_count (f_list pm))"
proof -
  have a: "range_ok p 1" "pmm_ok pm" "free_pages (pg_pmm s) = pages_at p 1 \<union> free_pages pm"
      "pages_at p 1 \<inter> free_pages pm = {}" "free_count (f_list (pg_pmm s)) = free_count (f_list pm) + 1"
    using pmm_allocpages_spec [OF assms(1) _ assms(2)] assms(3) by auto
  have m: "unat p div 4096 \<in> pages_at p 1" by (simp add: pages_at_def)
  show "free_page s p" using range_frame [OF a(1)] assms(3) m a(3) by (simp add: free_page_def)
  show "pmm_ok pm" "free_pages pm \<subseteq> free_pages (pg_pmm s)" "free_count (f_list (pg_pmm s)) = Suc (free_count (f_list pm))"
    using a by auto
  show "unat q div 4096 \<in> free_pages (pg_pmm s) \<and> q \<noteq> p" if "unat q div 4096 \<in> free_pages pm" using that a(3,4) m by blast
qed

lemma alloc_page_ex:
  assumes "pmm_ok pm0" "0 < free_count (f_list pm0)"
  shows "\<exists>p pm. pmm_allocpages 1 pm0 = Inr (p, pm) \<and> p \<noteq> 0"
proof -
  obtain n ns where f: "f_list pm0 = n # ns" using assms(2) by (cases "f_list pm0") (auto simp: free_count_def)
  have "node_ok n" using assms(1) unfolding pmm_ok_def f by (simp add: nodes_ok_Cons)
  then have "f_addr n \<noteq> 0" "1 \<le> f_pages n" by (auto simp: node_ok_def range_ok_def word_le_nat_alt Suc_le_eq unat_gt_0)
  then show ?thesis by (simp add: pmm_allocpages_def f)
qed

lemma alloc_table_spec:
  assumes ok: "pt_ok s" and u: "user vrt" "k \<le> 2" and t: "tabs (pmem s) (pg_cr3 s) vrt k = Some t"
    and absent: "\<not> bit (pmem s (t OR push_bit 3 (IDX vrt (4 - k)))) 0" and p: "pmm_allocpages 1 (pg_pmm s) = Inr (p, pm)" "p \<noteq> 0"
    and w: "vrt_entryget vrt (4 - k) = Inr w"
  shows "\<exists>s1. alloc_table vrt (3 - k) (w OR push_bit 3 (IDX vrt (4 - k))) s = Inr s1 \<and> same_map s s1 \<and> avail s = Suc (avail s1) \<and>
    tabs (pmem s1) (pg_cr3 s) vrt k = Some t \<and> tabs (pmem s1) (pg_cr3 s) vrt (Suc k) = Some p"
proof -
  let ?c = "pg_cr3 s" and ?m = "pmem s" and ?i = "IDX vrt (4 - k)"
  define e where "e = PE_S_ADDR p OR PE_RW OR PE_P"
  define m1 where "m1 = ?m(t OR push_bit 3 ?i := e)"
  define s1 where "s1 = s\<lparr>pg_pmm := pm, pmem := with_table t ?i p e ?m\<rparr>"
  note d = pt_okD [OF ok]
  note al = alloc_page [OF d(4) p]
  have fp: "fresh ?m ?c p" using d(5) al(1) by blast
  then have pf: "is_frame p" "p \<noteq> 0" by (simp_all add: fresh_def)
  have g: "grows ?m ?c vrt t p e k"
    using d(1,3) u t absent fp new_entry [OF pf(1)] by (simp add: grows_def e_def)
  note gd = growsD [OF g]
  have "1 \<le> 3 - k" "3 - k \<le> 4" using u(2) by linarith+
  then obtain w' where w': "vrt_entryget vrt (3 - k) = Inr w'" using entryget_ok by blast
  have "translate (s\<lparr>pg_pmm := pm\<rparr>) (w OR push_bit 3 ?i) = Some (t OR push_bit 3 ?i)"
    using window [OF d(2) t refl _ small_IDX w] u(2) by (simp add: translate_def)
  then have a: "wr64 (w OR push_bit 3 ?i) e (s\<lparr>pg_pmm := pm\<rparr>) = Inr (s\<lparr>pg_pmm := pm, pmem := m1\<rparr>)"
    by (simp add: wr64_def m1_def)
  have up: "tabs ?m ?c vrt j \<noteq> Some t" if "j < k" for j
    using treeD [OF d(3) u(1) u(1), of k j t] t u(2) that by force
  have "agrees ?m m1 ?c vrt k" unfolding m1_def using agrees_upd [OF d(1) gd(11) small_IDX] up by blast
  then have old: "tabs m1 ?c vrt j = tabs ?m ?c vrt j" if "j \<le> k" for j using tabs_agrees that by blast
  have new: "tabs m1 ?c vrt (Suc k) = Some p" using old [of k] t gd(8-10) by (simp add: next_table_def m1_def)
  have c_word: "m1 (?c OR push_bit 3 R_IDX) = ?m (?c OR push_bit 3 R_IDX)"
    unfolding m1_def using word_of_table [OF d(1) gd(11) small_R_IDX small_IDX] not_top [OF d(3) u(1) t] u(2) by auto
  have z: "zero_words 512 w' (s\<lparr>pg_pmm := pm, pmem := m1\<rparr>) = Inr s1"
    unfolding s1_def with_table_def m1_def [symmetric]
  proof (subst zero_words_spec [where p = p and k = "Suc k"])
    show "self_map (pmem (s\<lparr>pg_pmm := pm, pmem := m1\<rparr>)) (pg_cr3 (s\<lparr>pg_pmm := pm, pmem := m1\<rparr>))"
      using d(2) c_word by (simp add: self_map_def)
    show "tabs (pmem (s\<lparr>pg_pmm := pm, pmem := m1\<rparr>)) (pg_cr3 (s\<lparr>pg_pmm := pm, pmem := m1\<rparr>)) vrt j \<noteq> Some p" if "j < Suc k" for j
      using old [of j] that fresh_not [OF fp u(1), of j p] u(2) by auto
    show "p \<noteq> pg_cr3 (s\<lparr>pg_pmm := pm, pmem := m1\<rparr>)" using fresh_not [OF fp u(1), of 0] by auto
  qed (use d(1) new u(2) w' in simp_all)
  have "fresh (with_table t ?i p e ?m) ?c q" if "free_page s1 q" for q
  proof -
    have "free_page s q" "q \<noteq> p" using al(3) [of q] that by (simp_all add: free_page_def s1_def)
    then show ?thesis using fresh_grow [OF g d(5)] by blast
  qed
  then have "pt_ok s1" using d(1) self_map_grow [OF g d(2)] tree_grow [OF g] al(2) by (simp add: pt_ok_def tables_ok_def s1_def)
  then have "same_map s s1" using mmu_grow [OF g] small_grow [OF g] al(4) by (simp add: same_map_def s1_def translate_def)
  moreover have "alloc_table vrt (3 - k) (w OR push_bit 3 ?i) s = Inr s1"
    using a z w' pf(2) p(1) by (simp add: alloc_table_def e_def)
  moreover have "tabs (pmem s1) ?c vrt k = Some t" "tabs (pmem s1) ?c vrt (Suc k) = Some p"
    using tabs_grow [OF g u(1), of k] tabs_grow [OF g u(1), of "Suc k"] t u(2) by (simp_all add: s1_def same_path_def)
  moreover have "avail s = Suc (avail s1)" using al(5) by (simp add: s1_def avail_def)
  ultimately show ?thesis by blast
qed

text \<open>Setting the flag for user access changes no table and no translation.\<close>

lemma same_entry_US: "same_entry (e OR PE_US) e"
proof -
  have us: "PE_US = push_bit 2 (mask 1)" by (simp add: PE_US_def mask_eq_exp_minus_1)
  have "bit (e OR PE_US) n \<longleftrightarrow> bit e n \<or> n = 2" for n unfolding us bit_or_iff bit_push_bit_iff bit_mask_iff by auto
  then show ?thesis unfolding same_entry_def by (auto intro!: bit_word_eqI simp: bit_frame)
qed

lemma pt_tables: "pt_ok s \<Longrightarrow> tables_ok s"
  by (simp add: pt_ok_def)

lemma agrees_pt_ok:
  assumes ok: "tables_ok s" and a: "\<And>va. user va \<Longrightarrow> agrees (pmem s) m' (pg_cr3 s) va 3" and c: "self_map m' (pg_cr3 s)"
  shows "pt_ok (s\<lparr>pmem := m'\<rparr>)"
proof -
  have t: "tabs m' (pg_cr3 s) va k = tabs (pmem s) (pg_cr3 s) va k" if "user va" "k \<le> 3" for va k
    using tabs_agrees [OF a] that by blast
  have "tree (pmem s) (pg_cr3 s)" using ok by (simp add: tables_ok_def)
  then have "tree m' (pg_cr3 s)" unfolding tree_def using t by (metis (no_types, lifting))
  moreover have "fresh m' (pg_cr3 s) p" if "free_page s p" for p
    using ok that t by (simp add: tables_ok_def fresh_def)
  ultimately show ?thesis using ok c by (simp add: pt_ok_def tables_ok_def free_page_def)
qed

lemma agrees_small:
  assumes "agrees m m' c va 3" "small_path m c va"
  shows "small_path m' c va"
  unfolding small_path_def Let_def
proof (intro allI impI)
  fix j t assume j: "j < 3" "tabs m' c va j = Some t"
  then have "tabs m c va j = Some t" using tabs_agrees [OF assms(1), of j] by simp
  then show "\<not> (bit (m' (t OR push_bit 3 (IDX va (4 - j)))) 0 \<and> bit (m' (t OR push_bit 3 (IDX va (4 - j)))) 7)"
    using assms j(1) unfolding agrees_def small_path_def same_entry_def Let_def by metis
qed

lemma agrees_le: "agrees m m' c va n \<Longrightarrow> k \<le> n \<Longrightarrow> agrees m m' c va k"
  by (simp add: agrees_def)

lemma set_US_spec:
  assumes ok: "pt_ok s" and u: "user vrt" "k \<le> 2" and t: "tabs (pmem s) (pg_cr3 s) vrt k = Some t"
    and w: "vrt_entryget vrt (4 - k) = Inr w"
  defines "ea \<equiv> w OR push_bit 3 (IDX vrt (4 - k))"
  shows "\<exists>s1. bind_result (rd64 s ea) (\<lambda>e1. wr64 ea (e1 OR PE_US) s) = Inr s1 \<and> same_map s s1 \<and> pg_pmm s1 = pg_pmm s \<and>
    tabs (pmem s1) (pg_cr3 s) vrt (Suc k) = tabs (pmem s) (pg_cr3 s) vrt (Suc k)"
proof -
  let ?c = "pg_cr3 s" and ?m = "pmem s" and ?i = "IDX vrt (4 - k)"
  note d = pt_okD [OF ok]
  define m1 where "m1 = ?m(t OR push_bit 3 ?i := ?m (t OR push_bit 3 ?i) OR PE_US)"
  have x: "translate s ea = Some (t OR push_bit 3 ?i)"
    using window [OF d(2) t refl _ small_IDX w] u(2) by (simp add: translate_def ea_def)
  have ag: "agrees ?m m1 ?c va n" for va n
    unfolding m1_def using agrees_upd [OF d(1) tabs_frame [OF d(1) t] small_IDX] same_entry_US by blast
  have "same_entry (m1 x) (?m x)" for x using same_entry_US by (simp add: m1_def)
  then have "self_map m1 ?c" using d(2) by (simp add: self_map_def same_entry_def Let_def)
  then have "pt_ok (s\<lparr>pmem := m1\<rparr>)" using agrees_pt_ok [OF pt_tables [OF ok] ag] by blast
  then have "same_map s (s\<lparr>pmem := m1\<rparr>)"
    using mmu_agrees [OF ag] agrees_small [OF ag] by (simp add: same_map_def translate_def)
  moreover have "tabs m1 ?c vrt (Suc k) = tabs ?m ?c vrt (Suc k)" using tabs_agrees [OF ag] by blast
  ultimately show ?thesis using x by (intro exI [of _ "s\<lparr>pmem := m1\<rparr>"]) (simp add: rd64_def wr64_def m1_def)
qed

section \<open>Mapping one page\<close>

definition mapped :: "paging \<Rightarrow> paging \<Rightarrow> u64 \<Rightarrow> u64 \<Rightarrow> bool" where
  "mapped s s' vrt v \<longleftrightarrow> pt_ok s' \<and> pg_cr3 s' = pg_cr3 s \<and> free_pages (pg_pmm s') \<subseteq> free_pages (pg_pmm s) \<and>
     (\<exists>t. tabs (pmem s') (pg_cr3 s') vrt 3 = Some t \<and> pmem s' (t OR push_bit 3 (IDX vrt 1)) = v) \<and>
     (\<forall>va. user va \<longrightarrow> (small_path (pmem s) (pg_cr3 s) va \<longrightarrow> small_path (pmem s') (pg_cr3 s') va) \<and>
        translate s' va = (if same_path 4 va vrt then (if bit v 0 then Some (pe_frame v OR (va AND 0xFFF)) else None)
                           else translate s va))"

lemma same_mapped: "same_map s s1 \<Longrightarrow> mapped s1 s2 vrt v \<Longrightarrow> mapped s s2 vrt v"
  unfolding same_map_def mapped_def
  by (intro conjI) (blast intro: subset_trans | metis)+

lemma same_path_4: "same_path 4 va va' \<longleftrightarrow> same_path 3 va va' \<and> IDX va 1 = IDX va' 1"
proof -
  have "(\<forall>j<4. P j) \<longleftrightarrow> (\<forall>j<3. P j) \<and> P 3" for P :: "nat \<Rightarrow> bool" by (auto simp: less_Suc_eq numeral_eq_Suc)
  then show ?thesis by (simp add: same_path_def)
qed

lemma same_path_sym: "same_path k va va' \<Longrightarrow> same_path k va' va"
  by (simp add: same_path_def)

lemma leaf_spec:
  assumes ok: "pt_ok s" and u: "user vrt" and t: "tabs (pmem s) (pg_cr3 s) vrt 3 = Some t"
    and w: "vrt_entryget vrt 1 = Inr w"
  shows "\<exists>s'. wr64 (w OR push_bit 3 (IDX vrt 1)) v s = Inr s' \<and> mapped s s' vrt v \<and> pg_pmm s' = pg_pmm s"
proof -
  let ?c = "pg_cr3 s" and ?m = "pmem s" and ?i = "IDX vrt 1"
  note d = pt_okD [OF ok]
  define m1 where "m1 = ?m(t OR push_bit 3 ?i := v)"
  note ft = tabs_frame [OF d(1) t]
  have x: "translate s (w OR push_bit 3 ?i) = Some (t OR push_bit 3 ?i)"
    using window [OF d(2) t _ _ small_IDX w] by (simp add: translate_def)
  have depth: "k = 3 \<and> same_path 3 va vrt" if "user va" "k < 4" "tabs ?m ?c va k = Some t" for va k
  proof -
    have "3 = k \<and> same_path 3 vrt va" by (rule treeD [OF d(3) u that(1) order_refl _ t that(3)]) (use that(2) in simp)
    then show ?thesis using same_path_sym by blast
  qed
  have ag: "agrees ?m m1 ?c va 3" if "user va" for va
    unfolding m1_def
  proof (rule agrees_upd [OF d(1) ft small_IDX])
    fix k assume "k < 3" "tabs ?m ?c va k = Some t"
    then show "same_entry v (?m (t OR push_bit 3 ?i))" using depth [OF that, of k] by simp
  qed
  have "IDX vrt (4 - 3) \<noteq> R_IDX \<or> t \<noteq> ?c" using not_top [OF d(3) u t] by auto
  then have "m1 (?c OR push_bit 3 R_IDX) = ?m (?c OR push_bit 3 R_IDX)"
    unfolding m1_def using word_of_table [OF d(1) ft small_R_IDX small_IDX] by auto
  then have "pt_ok (s\<lparr>pmem := m1\<rparr>)" using agrees_pt_ok [OF pt_tables [OF ok] ag] d(2) by (simp add: self_map_def)
  moreover have t1: "tabs m1 ?c vrt 3 = Some t" using tabs_agrees [OF ag [OF u]] t by simp
  moreover have "mmu m1 4 ?c va = mmu ?m 4 ?c va" if "user va" "\<not> same_path 4 va vrt" for va
  proof -
    have "agrees ?m m1 ?c va 4"
      unfolding m1_def
    proof (rule agrees_upd [OF d(1) ft small_IDX])
      fix k assume "k < 4" "tabs ?m ?c va k = Some t" "IDX va (4 - k) = ?i"
      then show "same_entry v (?m (t OR push_bit 3 ?i))"
        using depth [OF that(1), of k] that(2) unfolding same_path_4 by simp
    qed
    then show ?thesis by (rule mmu_agrees)
  qed
  moreover have "mmu m1 4 ?c va = (if bit v 0 then Some (pe_frame v OR (va AND 0xFFF)) else None)"
    if "same_path 4 va vrt" for va
  proof -
    have "same_path 3 va vrt" "IDX va 1 = ?i" using that unfolding same_path_4 by auto
    then have "tabs m1 ?c va 3 = Some t" "m1 (t OR push_bit 3 (IDX va 1)) = v"
      using t1 tabs_path [of 3 va vrt m1 ?c] by (simp_all add: m1_def)
    then show ?thesis using mmu_tabs [of m1 ?c va 3 t] by (simp add: Let_def)
  qed
  ultimately have "mapped s (s\<lparr>pmem := m1\<rparr>) vrt v"
    using agrees_small [OF ag] by (simp add: mapped_def translate_def) (simp add: m1_def)
  then show ?thesis using x by (intro exI [of _ "s\<lparr>pmem := m1\<rparr>"]) (simp add: wr64_def m1_def)
qed

lemma map_walk_spec:
  assumes "pt_ok s" "user vrt" "l \<le> 3" "tabs (pmem s) (pg_cr3 s) vrt (3 - l) = Some t"
    "small_path (pmem s) (pg_cr3 s) vrt" "vrt_entryget vrt (Suc l) = Inr w" "l \<le> avail s"
  shows "\<exists>s'. map_walk (Suc l) phy vrt flgs w 1 s = Inr s' \<and> mapped s s' vrt (PE_S_ADDR phy OR PE_S_FLAGS flgs) \<and>
    avail s \<le> avail s' + l"
  using assms
proof (induction l arbitrary: s t w)
  case 0
  then show ?case using leaf_spec [OF 0(1,2), of t w] by (simp add: Let_def) (metis avail_def order_refl)
next
  case (Suc l)
  let ?k = "2 - l" and ?c = "pg_cr3 s"
  let ?ea = "w OR push_bit 3 (IDX vrt (Suc (Suc l)))"
  note ok = Suc.prems(1) and u = Suc.prems(2)
  have k: "?k \<le> 2" "4 - ?k = Suc (Suc l)" "3 - ?k = Suc l" "3 - l = Suc ?k" "3 - Suc l = ?k" using Suc.prems(3) by auto
  have t: "tabs (pmem s) ?c vrt ?k = Some t" using Suc.prems(4) k by simp
  have w: "vrt_entryget vrt (4 - ?k) = Inr w" using Suc.prems(6) k by simp
  define e where "e = pmem s (t OR push_bit 3 (IDX vrt (Suc (Suc l))))"
  have x: "rd64 s ?ea = Inr e"
    using window [OF pt_okD(2) [OF ok] t refl _ small_IDX w] k by (simp add: rd64_def translate_def e_def)
  have "\<exists>s1. (if e AND PE_P = 0 then alloc_table vrt (Suc l) ?ea s else Inr s) = Inr s1 \<and> same_map s s1 \<and>
      avail s \<le> Suc (avail s1) \<and> tabs (pmem s1) ?c vrt ?k = Some t \<and>
      (\<exists>t'. tabs (pmem s1) ?c vrt (Suc ?k) = Some t')"
  proof (cases "bit e 0")
    case True
    then have "\<not> bit e 7" using Suc.prems(5) t k unfolding small_path_def Let_def e_def by (metis less_Suc_eq_le numeral_3_eq_3 numeral_2_eq_2)
    then have "tabs (pmem s) ?c vrt (Suc ?k) = Some (pe_frame e)"
      using True t k by (simp add: next_table_def e_def)
    then show ?thesis using True t same_map_refl [OF ok] by (intro exI [of _ s]) (simp add: and_PE_P)
  next
    case False
    obtain p pm where p: "pmm_allocpages 1 (pg_pmm s) = Inr (p, pm)" "p \<noteq> 0"
      using alloc_page_ex [OF pt_okD(4) [OF ok]] Suc.prems(7) by (auto simp: avail_def)
    show ?thesis using alloc_table_spec [OF ok u k(1) t _ p w] False k by (auto simp: and_PE_P e_def)
  qed
  then obtain s1 where s1: "(if e AND PE_P = 0 then alloc_table vrt (Suc l) ?ea s else Inr s) = Inr s1" "same_map s s1"
      "avail s \<le> Suc (avail s1)" "tabs (pmem s1) ?c vrt ?k = Some t"
      "\<exists>t'. tabs (pmem s1) ?c vrt (Suc ?k) = Some t'" by blast
  from s1(2) have ok1: "pt_ok s1" "pg_cr3 s1 = ?c" by (simp_all add: same_map_def)
  have "\<exists>s2. (if ucast flgs AND PE_US \<noteq> 0 then bind_result (rd64 s1 ?ea) (\<lambda>e1. wr64 ?ea (e1 OR PE_US) s1) else Inr s1) = Inr s2 \<and>
      same_map s s2 \<and> avail s \<le> Suc (avail s2) \<and> (\<exists>t'. tabs (pmem s2) ?c vrt (Suc ?k) = Some t')"
    using s1 same_map_trans [OF s1(2)] set_US_spec [OF ok1(1) u k(1) _ w, of t] ok1(2) k(2) by (auto simp: avail_def)
  then obtain s2 t' where s2: "(if ucast flgs AND PE_US \<noteq> 0 then bind_result (rd64 s1 ?ea) (\<lambda>e1. wr64 ?ea (e1 OR PE_US) s1) else Inr s1) = Inr s2"
      "same_map s s2" "avail s \<le> Suc (avail s2)" "tabs (pmem s2) ?c vrt (3 - l) = Some t'"
    unfolding k(4) by blast
  obtain w' where w': "vrt_entryget vrt (Suc l) = Inr w'" using entryget_ok [of "Suc l" vrt] Suc.prems(3) by auto
  have "pt_ok s2" "pg_cr3 s2 = ?c" "small_path (pmem s2) (pg_cr3 s2) vrt"
    using s2(2) Suc.prems(2,5) unfolding same_map_def by blast+
  then have "\<exists>s'. map_walk (Suc l) phy vrt flgs w' 1 s2 = Inr s' \<and> mapped s2 s' vrt (PE_S_ADDR phy OR PE_S_FLAGS flgs) \<and>
      avail s2 \<le> avail s' + l"
    using Suc.IH [of s2 t' w'] u s2 w' Suc.prems(3,7) by simp
  then obtain s' where s': "map_walk (Suc l) phy vrt flgs w' 1 s2 = Inr s'"
      "mapped s2 s' vrt (PE_S_ADDR phy OR PE_S_FLAGS flgs)" "avail s2 \<le> avail s' + l" by blast
  have "map_walk (Suc (Suc l)) phy vrt flgs w 1 s = Inr s'"
    unfolding map_walk.simps(2) [of "Suc l"] Let_def using x s1(1) s2(1) w' s'(1) by simp
  then show ?case using same_mapped [OF s2(2) s'(2)] s'(3) s2(3) by (intro exI [of _ s']) simp
qed

section \<open>Mapping and asking\<close>

text \<open>Two addresses of the same page of 4 KiB.\<close>

definition same_page :: "u64 \<Rightarrow> u64 \<Rightarrow> bool" where
  "same_page va va' \<longleftrightarrow> same_path 4 va va'"

lemma same_page_iff:
  "same_page va va' \<longleftrightarrow> IDX va 4 = IDX va' 4 \<and> IDX va 3 = IDX va' 3 \<and> IDX va 2 = IDX va' 2 \<and> IDX va 1 = IDX va' 1"
proof -
  have "(\<forall>j<4. P j) \<longleftrightarrow> P 0 \<and> P 1 \<and> P 2 \<and> P 3" for P :: "nat \<Rightarrow> bool" by (auto simp: less_Suc_eq numeral_eq_Suc)
  then show ?thesis by (simp add: same_page_def same_path_def)
qed

lemma page_bits:
  assumes "same_page x y" "12 \<le> n" "n < 48"
  shows "bit x n = bit y n"
proof -
  define j where "j = 3 - (n - 12) div 9"
  have l: "j < 4" "4 - j - 1 = (n - 12) div 9" using assms(2,3) by (auto simp: j_def)
  have "(4 - j - 1) * 9 + 12 + (n - 12) mod 9 = n" using assms(2) unfolding l by simp
  moreover have "IDX x (4 - j) = IDX y (4 - j)" using assms(1) l by (simp add: same_page_def same_path_def)
  ultimately show ?thesis using bit_IDX [of x "4 - j" "(n - 12) mod 9"] bit_IDX [of y "4 - j" "(n - 12) mod 9"] by simp
qed

lemma take_bit_word_add: "take_bit n (take_bit n x + take_bit n y) = take_bit n (x + y :: u64)"
  by transfer (simp add: take_bit_add)

lemma take_bit_word_diff: "take_bit n (take_bit n x - take_bit n y) = take_bit n (x - y :: u64)"
  by transfer (simp add: take_bit_diff)

lemma of_nat_take_bit_inj:
  assumes "a < 2 ^ 48" "b < 2 ^ 48" "take_bit 48 (of_nat a :: u64) = take_bit 48 (of_nat b)"
  shows "a = b"
proof -
  have "take_bit 48 (unat (of_nat a :: u64)) = take_bit 48 (unat (of_nat b :: u64))"
    using assms(3) by (metis unsigned_take_bit_eq)
  moreover have "unat (of_nat c :: u64) = c" "take_bit 48 c = c" if "c < 2 ^ 48" for c :: nat
    using that by (simp_all add: unat_of_nat take_bit_nat_eq_self_iff)
  ultimately show ?thesis using assms(1,2) by metis
qed

lemma pages_differ:
  assumes "same_page (vrt + of_nat i * 0x1000) (vrt + of_nat j * 0x1000)" "i < 2 ^ 36" "j < 2 ^ 36"
  shows "i = j"
proof -
  let ?f = "\<lambda>k. vrt + of_nat k * 0x1000 :: u64"
  have lo: "bit (?f k) n = bit vrt n" if "n < 12" for k n
  proof -
    have "of_nat k * 0x1000 = push_bit 12 (of_nat k :: u64)" by (simp add: push_bit_eq_mult)
    then have z: "take_bit 12 (of_nat k * 0x1000 :: u64) = 0" by (simp add: take_bit_push_bit)
    have "take_bit 12 (?f k) = take_bit 12 (take_bit 12 vrt + take_bit 12 (of_nat k * 0x1000))" by (simp only: take_bit_word_add)
    then have "take_bit 12 (?f k) = take_bit 12 vrt" unfolding z by simp
    then have "bit (take_bit 12 (?f k)) n = bit (take_bit 12 vrt) n" by (rule arg_cong)
    then show ?thesis unfolding bit_take_bit_iff using that by blast
  qed
  have "take_bit 48 (?f i) = take_bit 48 (?f j)"
  proof (rule bit_word_eqI)
    fix n
    have "bit (?f i) n = bit (?f j) n" if "n < 48"
      using page_bits [OF assms(1) _ that] lo [of n i] lo [of n j] by (cases "n < 12") auto
    then show "bit (take_bit 48 (?f i)) n = bit (take_bit 48 (?f j)) n" unfolding bit_take_bit_iff by blast
  qed
  then have e: "take_bit 48 (?f i - vrt) = take_bit 48 (?f j - vrt)"
    using take_bit_word_diff [of 48 "?f i" vrt] take_bit_word_diff [of 48 "?f j" vrt] by argo
  define a b where "a = i * 0x1000" and "b = j * 0x1000"
  have w: "?f i - vrt = of_nat a" "?f j - vrt = of_nat b" by (simp_all add: a_def b_def)
  have "a < 2 ^ 48" "b < 2 ^ 48" using assms(2,3) by (simp_all add: a_def b_def)
  then have "a = b" using e unfolding w by (rule of_nat_take_bit_inj)
  then show ?thesis by (simp add: a_def b_def)
qed

text \<open>The entry that \<open>_map_walk\<close> leaves for a page.\<close>

lemma page_entry:
  assumes "is_frame phy" "bit flgs 0"
  shows "bit (PE_S_ADDR phy OR PE_S_FLAGS flgs) 0" "pe_frame (PE_S_ADDR phy OR PE_S_FLAGS flgs) = phy"
proof -
  have m: "(0x7FF :: u64) = mask 11" "(0x7FF :: u16) = mask 11" by (simp_all add: mask_eq_exp_minus_1)
  have b: "bit (PE_S_ADDR phy OR PE_S_FLAGS flgs) n \<longleftrightarrow> (if n < 11 then bit flgs n else bit phy n)" for n
    unfolding PE_S_ADDR_def PE_S_FLAGS_def m using bit_frame_low [OF assms(1), of n]
    by (auto simp: bit_simps dest: bit_imp_le_length)
  show "bit (PE_S_ADDR phy OR PE_S_FLAGS flgs) 0" using b [of 0] assms(2) by simp
  show "pe_frame (PE_S_ADDR phy OR PE_S_FLAGS flgs) = phy"
  proof (rule bit_word_eqI)
    fix n
    have "bit phy n \<longleftrightarrow> 12 \<le> n \<and> n < 52 \<and> bit phy n" using assms(1) bit_frame unfolding is_frame_def by metis
    then show "bit (pe_frame (PE_S_ADDR phy OR PE_S_FLAGS flgs)) n = bit phy n" unfolding bit_frame b by auto
  qed
qed

definition can_map :: "paging \<Rightarrow> u64 \<Rightarrow> bool" where
  "can_map s va \<longleftrightarrow> user va \<and> small_path (pmem s) (pg_cr3 s) va"

lemma vmap_map_one:
  assumes "pt_ok s" "can_map s vrt" "3 \<le> avail s" "is_frame phy" "bit flgs 0"
  shows "\<exists>s'. map_walk 4 phy vrt flgs pml4 1 s = Inr s' \<and> pt_ok s' \<and> avail s \<le> avail s' + 3 \<and>
    free_pages (pg_pmm s') \<subseteq> free_pages (pg_pmm s) \<and> (\<forall>va. can_map s va \<longrightarrow> can_map s' va) \<and>
    (\<forall>va. user va \<longrightarrow> translate s' va = (if same_page va vrt then Some (phy OR (va AND 0xFFF)) else translate s va))"
proof -
  have "\<exists>s'. map_walk (Suc 3) phy vrt flgs pml4 1 s = Inr s' \<and> mapped s s' vrt (PE_S_ADDR phy OR PE_S_FLAGS flgs) \<and>
    avail s \<le> avail s' + 3"
    by (rule map_walk_spec [OF assms(1), where t = "pg_cr3 s"])
       (use assms(2,3) in \<open>simp_all add: can_map_def vrt_entryget_def pml4_def\<close>)
  moreover have "Suc 3 = (4 :: nat)" by simp
  ultimately show ?thesis using page_entry [OF assms(4,5)] unfolding mapped_def can_map_def same_page_def by metis
qed

lemma vmap_map_spec:
  assumes "pt_ok s" "num < 2 ^ 36" "3 * num \<le> avail s" "bit flgs 0"
    "\<forall>i<num. can_map s (vrt + of_nat i * 0x1000) \<and> is_frame (phy + of_nat i * 0x1000)"
  shows "\<exists>s'. vmap_map num phy vrt flgs 1 s = Inr s' \<and> pt_ok s' \<and> free_pages (pg_pmm s') \<subseteq> free_pages (pg_pmm s) \<and>
    (\<forall>i<num. \<forall>va. user va \<and> same_page va (vrt + of_nat i * 0x1000) \<longrightarrow>
        translate s' va = Some ((phy + of_nat i * 0x1000) OR (va AND 0xFFF))) \<and>
    (\<forall>va. user va \<and> (\<forall>i<num. \<not> same_page va (vrt + of_nat i * 0x1000)) \<longrightarrow> translate s' va = translate s va)"
  using assms
proof (induction num arbitrary: s phy vrt)
  case 0
  then show ?case by simp
next
  case (Suc num)
  note pages = Suc.prems(5)
  have "can_map s vrt" "is_frame phy" using pages by (force dest: spec [of _ 0])+
  moreover have "3 \<le> avail s" using Suc.prems(3) by simp
  ultimately obtain s1 where s1: "map_walk 4 phy vrt flgs pml4 1 s = Inr s1" "pt_ok s1" "avail s \<le> avail s1 + 3"
      "free_pages (pg_pmm s1) \<subseteq> free_pages (pg_pmm s)" "\<forall>va. can_map s va \<longrightarrow> can_map s1 va"
      "\<forall>va. user va \<longrightarrow> translate s1 va = (if same_page va vrt then Some (phy OR (va AND 0xFFF)) else translate s va)"
    using vmap_map_one [OF Suc.prems(1) _ _ _ Suc.prems(4)] by blast
  have shift: "x + 0x1000 + of_nat i * 0x1000 = x + of_nat (Suc i) * (0x1000 :: u64)" for x i by (simp add: algebra_simps)
  have nxt: "\<forall>i<num. can_map s1 (vrt + 0x1000 + of_nat i * 0x1000) \<and> is_frame (phy + 0x1000 + of_nat i * 0x1000)"
    unfolding shift using pages s1(5) by blast
  have "num < 2 ^ 36" "3 * num \<le> avail s1" using Suc.prems(2,3) s1(3) by auto
  then obtain s2 where s2: "vmap_map num (phy + 0x1000) (vrt + 0x1000) flgs 1 s1 = Inr s2" "pt_ok s2" "free_pages (pg_pmm s2) \<subseteq> free_pages (pg_pmm s1)"
      "\<forall>i<num. \<forall>va. user va \<and> same_page va (vrt + of_nat (Suc i) * 0x1000) \<longrightarrow>
        translate s2 va = Some ((phy + of_nat (Suc i) * 0x1000) OR (va AND 0xFFF))"
      "\<forall>va. user va \<and> (\<forall>i<num. \<not> same_page va (vrt + of_nat (Suc i) * 0x1000)) \<longrightarrow> translate s2 va = translate s1 va"
    using Suc.IH [OF s1(2) _ _ Suc.prems(4) nxt] unfolding shift by blast
  have "vmap_map (Suc num) phy vrt flgs 1 s = Inr s2" using s1(1) s2(1) by (simp add: parse_flags_def pagesiz_def)
  moreover have "translate s2 va = Some ((phy + of_nat i * 0x1000) OR (va AND 0xFFF))"
    if i: "i < Suc num" and u: "user va" and p: "same_page va (vrt + of_nat i * 0x1000)" for i va
  proof (cases i)
    case 0
    have "\<not> same_page va (vrt + of_nat (Suc j) * 0x1000)" if "j < num" for j
    proof
      assume "same_page va (vrt + of_nat (Suc j) * 0x1000)"
      then have "same_page (vrt + of_nat 0 * 0x1000) (vrt + of_nat (Suc j) * 0x1000)"
        using p 0 by (simp add: same_page_def same_path_def)
      then show False using pages_differ [of vrt 0 "Suc j"] that Suc.prems(2) by simp
    qed
    then show ?thesis using s2(5) s1(6) u p 0 by simp
  next
    case (Suc j)
    then show ?thesis using s2(4) i u p by simp
  qed
  moreover have "translate s2 va = translate s va"
    if u: "user va" and n: "\<forall>i<Suc num. \<not> same_page va (vrt + of_nat i * 0x1000)" for va
  proof -
    have "\<not> same_page va vrt" using n by (force dest: spec [of _ 0])
    moreover have "\<forall>i<num. \<not> same_page va (vrt + of_nat (Suc i) * 0x1000)" using n by blast
    ultimately show ?thesis using s2(5) s1(6) u by metis
  qed
  ultimately show ?case using s2(2) order_trans [OF s2(3) s1(4)] by blast
qed

text \<open>
  C6. \<open>vmap_map\<close> with pages of 4 KiB: when the tables are well formed, no large page is in the way and
  \<open>pmm_allocpages\<close> has three pages for each page to map, the call returns; afterwards the processor
  translates every address of the \<open>i\<close>-th page to the same offset of the \<open>i\<close>-th frame, every other
  address outside the window exactly as before, and the tables are well formed.
\<close>

theorem vmap_map_pages:
  assumes "pt_ok s" "num < 2 ^ 36" "3 * num \<le> avail s" "bit flgs 0"
    "\<forall>i<num. can_map s (vrt + of_nat i * 0x1000) \<and> is_frame (phy + of_nat i * 0x1000)"
  shows "\<exists>s'. vmap_map num phy vrt flgs 1 s = Inr s' \<and> pt_ok s' \<and>
    (\<forall>i<num. \<forall>va. user va \<and> same_page va (vrt + of_nat i * 0x1000) \<longrightarrow>
        translate s' va = Some ((phy + of_nat i * 0x1000) OR (va AND 0xFFF))) \<and>
    (\<forall>va. user va \<and> (\<forall>i<num. \<not> same_page va (vrt + of_nat i * 0x1000)) \<longrightarrow> translate s' va = translate s va)"
  using vmap_map_spec [OF assms] by blast

section \<open>Asking for a translation\<close>

text \<open>The answer of \<open>vmap_query\<close> and what the processor does: the same frame and the same low bits of the offset.\<close>

text \<open>
  An entry of a page table whose bit 11 and whose bits above the physical address are clear. \<open>_map_walk\<close> writes such entries for
  frames on page boundaries; \<open>PE_V_ADDR\<close> does not mask these bits.
\<close>

definition plain_entry :: "u64 \<Rightarrow> bool" where
  "plain_entry e \<longleftrightarrow> e AND 0xFFF0000000000800 = 0"

definition plain_leaf :: "(u64 \<Rightarrow> u64) \<Rightarrow> u64 \<Rightarrow> u64 \<Rightarrow> bool" where
  "plain_leaf m c va \<longleftrightarrow> (case tabs m c va 3 of None \<Rightarrow> True | Some t \<Rightarrow> plain_entry (m (t OR push_bit 3 (IDX va 1))))"

lemma plain_entry_bits: "plain_entry e \<Longrightarrow> n = 11 \<or> 52 \<le> n \<and> n < 64 \<Longrightarrow> \<not> bit e n"
proof
  have m: "(0xFFF0000000000800 :: u64) = push_bit 52 (mask 12) OR push_bit 11 1" by (simp add: mask_eq_exp_minus_1)
  assume a: "plain_entry e" "n = 11 \<or> 52 \<le> n \<and> n < 64" "bit e n"
  then have "bit (e AND 0xFFF0000000000800) n" unfolding m by (auto simp: bit_simps)
  then show False using a(1) by (simp add: plain_entry_def)
qed

definition answers :: "bool \<Rightarrow> u64 \<Rightarrow> u64 option \<Rightarrow> bool" where
  "answers plain q r \<longleftrightarrow>
     (case r of None \<Rightarrow> q = 0 | Some pa \<Rightarrow> pe_frame q = pe_frame pa \<and> take_bit 11 q = take_bit 11 pa \<and> (plain \<longrightarrow> q = pa))"

lemma leaf_answers: "(plain \<Longrightarrow> plain_entry e) \<Longrightarrow> answers plain (PE_V_ADDR e OR (va AND 0xfff)) (Some (pe_frame e OR (va AND 0xFFF)))"
proof -
  assume p: "plain \<Longrightarrow> plain_entry e"
  have m: "(0x7FF :: u64) = mask 11" by (simp add: mask_eq_exp_minus_1)
  have b: "bit (PE_V_ADDR e OR (va AND 0xfff)) n \<longleftrightarrow> n < 12 \<and> bit va n \<or> 11 \<le> n \<and> bit e n" for n
    unfolding PE_V_ADDR_def and_FFF m by (auto simp: bit_simps dest: bit_imp_le_length)
  have b': "bit (pe_frame e OR (va AND 0xFFF)) n \<longleftrightarrow> n < 12 \<and> bit va n \<or> 12 \<le> n \<and> n < 52 \<and> bit e n" for n
    unfolding and_FFF bit_or_iff bit_frame bit_take_bit_iff by auto
  have "pe_frame (PE_V_ADDR e OR (va AND 0xfff)) = pe_frame (pe_frame e OR (va AND 0xFFF))"
    by (rule bit_word_eqI) (unfold bit_frame b b', auto)
  moreover have "take_bit 11 (PE_V_ADDR e OR (va AND 0xfff)) = take_bit 11 (pe_frame e OR (va AND 0xFFF))"
    by (rule bit_word_eqI) (unfold bit_take_bit_iff b b', auto)
  moreover have "PE_V_ADDR e OR (va AND 0xfff) = pe_frame e OR (va AND 0xFFF)" if plain
  proof (rule bit_word_eqI)
    fix n assume n: "n < LENGTH(64)"
    have "\<not> bit e 11" "n < 52 \<or> \<not> bit e n" using plain_entry_bits [OF p [OF that], of 11] plain_entry_bits [OF p [OF that], of n] n by auto
    then show "bit (PE_V_ADDR e OR (va AND 0xfff)) n = bit (pe_frame e OR (va AND 0xFFF)) n"
      unfolding b b' by (cases "n = 11") auto
  qed
  ultimately show ?thesis by (simp add: answers_def)
qed

text \<open>One step of the walks.\<close>

lemma qry_absent: "rd64 s (tab OR push_bit 3 (IDX va n)) = Inr e \<Longrightarrow> \<not> bit e 0 \<Longrightarrow> 0 < n \<Longrightarrow> qry_walk n va tab s = Inr 0"
  by (cases n) (simp_all add: and_PE_P)

lemma qry_next:
  "rd64 s (tab OR push_bit 3 (IDX va n)) = Inr e \<Longrightarrow> bit e 0 \<Longrightarrow> n = Suc l \<Longrightarrow> l \<noteq> 0 \<Longrightarrow> vrt_entryget va l = Inr w \<Longrightarrow>
    qry_walk n va tab s = qry_walk l va w s"
  by (simp add: and_PE_P)

lemma mmu_absent: "\<not> bit (m (t OR push_bit 3 (IDX va (Suc l)))) 0 \<Longrightarrow> mmu m (Suc l) t va = None"
  by (simp add: Let_def)

lemma mmu_next: "next_table m (IDX va (Suc l)) t = Some t' \<Longrightarrow> mmu m (Suc l) t va = mmu m l t' va"
  by (auto simp: Let_def next_table_def split: if_splits)

lemma qry_walk_spec:
  assumes "self_map (pmem s) (pg_cr3 s)" "l \<le> 3" "tabs (pmem s) (pg_cr3 s) va (3 - l) = Some t"
    "small_path (pmem s) (pg_cr3 s) va" "vrt_entryget va (Suc l) = Inr w"
  shows "\<exists>q. qry_walk (Suc l) va w s = Inr q \<and> answers (plain_leaf (pmem s) (pg_cr3 s) va) q (mmu (pmem s) (Suc l) t va)"
  using assms(2-)
proof (induction l arbitrary: t w)
  case 0
  define e where "e = pmem s (t OR push_bit 3 (IDX va 1))"
  have "translate s (w OR push_bit 3 (IDX va 1)) = Some (t OR push_bit 3 (IDX va 1))"
    using window [OF assms(1) _ _ _ small_IDX, of va 3 t 1 w] 0 by (simp add: translate_def)
  then have r: "rd64 s (w OR push_bit 3 (IDX va 1)) = Inr e" by (simp add: rd64_def e_def)
  have "mmu (pmem s) (Suc 0) t va = (if bit e 0 then Some (pe_frame e OR (va AND 0xFFF)) else None)"
    by (simp add: Let_def e_def)
  moreover have "qry_walk (Suc 0) va w s = Inr (if bit e 0 then PE_V_ADDR e OR (va AND 0xfff) else 0)"
    using r by (simp add: and_PE_P)
  moreover have "answers (plain_leaf (pmem s) (pg_cr3 s) va) (PE_V_ADDR e OR (va AND 0xfff)) (Some (pe_frame e OR (va AND 0xFFF)))"
    using 0 by (intro leaf_answers) (simp add: plain_leaf_def e_def)
  ultimately show ?case by (simp add: answers_def)
next
  case (Suc l)
  let ?k = "2 - l"
  define e where "e = pmem s (t OR push_bit 3 (IDX va (Suc (Suc l))))"
  have k: "?k < 3" "3 - Suc l = ?k" "3 - l = Suc ?k" "Suc (Suc l) = 4 - ?k" using Suc.prems(1) by auto
  have t: "tabs (pmem s) (pg_cr3 s) va ?k = Some t" using Suc.prems(2) k by simp
  have "translate s (w OR push_bit 3 (IDX va (Suc (Suc l)))) = Some (t OR push_bit 3 (IDX va (Suc (Suc l))))"
    using window [OF assms(1) t k(4) _ small_IDX Suc.prems(4)] by (simp add: translate_def)
  then have r: "rd64 s (w OR push_bit 3 (IDX va (Suc (Suc l)))) = Inr e" by (simp add: rd64_def e_def)
  have big: "\<not> (bit e 0 \<and> bit e 7)" using Suc.prems(3) t k unfolding small_path_def Let_def e_def by metis
  show ?case
  proof (cases "bit e 0")
    case False
    then have "mmu (pmem s) (Suc (Suc l)) t va = None" unfolding e_def by (rule mmu_absent)
    moreover have "qry_walk (Suc (Suc l)) va w s = Inr 0" using qry_absent [OF r False] by blast
    ultimately show ?thesis by (simp only: answers_def) simp
  next
    case True
    then have n: "next_table (pmem s) (IDX va (Suc (Suc l))) t = Some (pe_frame e)"
      using big unfolding next_table_def e_def Let_def by presburger
    then have "tabs (pmem s) (pg_cr3 s) va (3 - l) = Some (pe_frame e)" unfolding k(3) tabs.simps t k(4) by simp
    moreover obtain w' where w': "vrt_entryget va (Suc l) = Inr w'" using entryget_ok [of "Suc l" va] Suc.prems(1) by auto
    ultimately obtain q where "qry_walk (Suc l) va w' s = Inr q" "answers (plain_leaf (pmem s) (pg_cr3 s) va) q (mmu (pmem s) (Suc l) (pe_frame e) va)"
      using Suc.IH [of "pe_frame e" w'] Suc.prems(1,3) by auto
    then show ?thesis using mmu_next [OF n] qry_next [OF r True refl Suc_not_Zero w'] by metis
  qed
qed

text \<open>
  C9. Where no large page is in the way, \<open>vmap_query\<close> answers what the processor translates to: zero
  where there is no translation, else the frame of the physical address and the lower 11 bits of the offset. The answer is the whole
  physical address when bit 11 of the last entry, which \<open>PE_V_ADDR\<close> takes for a bit of the address, and its bits above the frame are clear, as
  \<open>vmap_map\<close> leaves them for frames on page boundaries.
\<close>

theorem vmap_query_agrees:
  assumes "self_map (pmem s) (pg_cr3 s)" "small_path (pmem s) (pg_cr3 s) va"
  shows "\<exists>q. vmap_query va s = Inr q \<and>
    (case translate s va of None \<Rightarrow> q = 0
     | Some pa \<Rightarrow> pe_frame q = pe_frame pa \<and> take_bit 11 q = take_bit 11 pa \<and> (plain_leaf (pmem s) (pg_cr3 s) va \<longrightarrow> q = pa))"
proof -
  have "\<exists>q. qry_walk (Suc 3) va pml4 s = Inr q \<and> answers (plain_leaf (pmem s) (pg_cr3 s) va) q (mmu (pmem s) (Suc 3) (pg_cr3 s) va)"
    by (rule qry_walk_spec [OF assms(1) order_refl _ assms(2)]) (simp_all add: vrt_entryget_def pml4_def)
  then show ?thesis unfolding vmap_query_def translate_def answers_def Suc_numeral by (simp only: semiring_norm)
qed

text \<open>
  Below a page of 1 GiB the walk of \<open>vmap_query\<close> does not stop, since it tests the level and not the
  entry for the size bit: it takes the first 4 KiB of the page for a table, and where the word it
  reads there is even it answers that the address is not mapped.
\<close>

theorem vmap_query_large:
  assumes "self_map (pmem s) (pg_cr3 s)" "tabs (pmem s) (pg_cr3 s) va 1 = Some t"
    "e = pmem s (t OR push_bit 3 (IDX va 3))" "bit e 0" "bit e 7"
    "\<not> bit (pmem s (pe_frame e OR push_bit 3 (IDX va 2))) 0"
  shows "translate s va = Some ((pe_frame e AND NOT (mask 30)) OR (va AND mask 30)) \<and> vmap_query va s = Inr 0"
proof -
  let ?m = "pmem s" and ?c = "pg_cr3 s"
  define e4 where "e4 = ?m (?c OR push_bit 3 (IDX va 4))"
  have t: "bit e4 0" "\<not> bit e4 7" "t = pe_frame e4"
    using assms(2) by (auto simp: tabs_steps next_table_def Let_def e4_def split: if_splits)
  have r: "bit (?m (?c OR push_bit 3 R_IDX)) 0" "\<not> bit (?m (?c OR push_bit 3 R_IDX)) 7" "pe_frame (?m (?c OR push_bit 3 R_IDX)) = ?c"
    using assms(1) by (simp_all add: self_map_def Let_def)
  have r4: "rd64 s (pml4 OR push_bit 3 (IDX va 4)) = Inr e4"
    using window [OF assms(1), of va 0 ?c 4 "IDX va 4" pml4] by (simp add: rd64_def translate_def e4_def pml4_def vrt_entryget_def)
  have r3: "rd64 s (VRT R_IDX R_IDX R_IDX (IDX va 4) OR push_bit 3 (IDX va 3)) = Inr e"
    using window [OF assms(1,2), of 3 "IDX va 3"] assms(3) by (simp add: rd64_def translate_def vrt_entryget_def)
  have "mmu ?m 4 ?c (VRT R_IDX R_IDX (IDX va 4) (IDX va 3) OR push_bit 3 (IDX va 2)) = Some (pe_frame e OR push_bit 3 (IDX va 2))"
    unfolding mmu_4 IDX_window [OF small_IDX small_R_IDX small_R_IDX small_IDX small_IDX] Let_def r(3) e4_def [symmetric]
      t(3) [symmetric] assms(3) [symmetric] using r t assms(4,5) by simp
  then have r2: "rd64 s (VRT R_IDX R_IDX (IDX va 4) (IDX va 3) OR push_bit 3 (IDX va 2)) = Inr (?m (pe_frame e OR push_bit 3 (IDX va 2)))"
    by (simp add: rd64_def translate_def)
  have "qry_walk 4 va pml4 s = qry_walk 3 va (VRT R_IDX R_IDX R_IDX (IDX va 4)) s"
    by (rule qry_next [OF r4 t(1)]) (simp_all add: vrt_entryget_def)
  also have "\<dots> = qry_walk 2 va (VRT R_IDX R_IDX (IDX va 4) (IDX va 3)) s"
    by (rule qry_next [OF r3 assms(4)]) (simp_all add: vrt_entryget_def)
  also have "\<dots> = Inr 0" by (rule qry_absent [OF r2 assms(6)]) simp
  finally have "vmap_query va s = Inr 0" by (simp add: vmap_query_def)
  moreover have "translate s va = Some ((pe_frame e AND NOT (mask 30)) OR (va AND mask 30))"
    unfolding translate_def mmu_4 Let_def e4_def [symmetric] t(3) [symmetric] assms(3) [symmetric] using t assms(4,5) by simp
  ultimately show ?thesis by blast
qed

section \<open>The start\<close>

text \<open>\<open>vmap_init\<close> turns the tables of the boot loader, in which the last entry of the top table is not yet used, into well formed ones.\<close>

lemma vmap_init_ok:
  assumes "tables_ok s"
  shows "pt_ok (vmap_init s)" "\<And>va. user va \<Longrightarrow> translate (vmap_init s) va = translate s va"
proof -
  let ?m = "pmem s" and ?c = "pg_cr3 s"
  define e where "e = PE_S_ADDR ?c OR PE_RW OR PE_P"
  have c: "is_frame ?c" "tree ?m ?c" using assms by (simp_all add: tables_ok_def)
  have ag: "agrees ?m (?m(?c OR push_bit 3 R_IDX := e)) ?c va n" if "user va" "n \<le> 4" for va n
  proof (rule agrees_upd [OF c(1) c(1) small_R_IDX])
    fix k assume "k < n" "tabs ?m ?c va k = Some ?c" "IDX va (4 - k) = R_IDX"
    then show "same_entry e (?m (?c OR push_bit 3 R_IDX))" using not_top [OF c(2) that(1) _ _ refl, of k] that(2) by simp
  qed
  have s: "self_map (?m(?c OR push_bit 3 R_IDX := e)) ?c" using new_entry [OF c(1)] by (simp add: self_map_def e_def)
  show "pt_ok (vmap_init s)" using agrees_pt_ok [OF assms ag s] unfolding vmap_init_def e_def by simp
  show "translate (vmap_init s) va = translate s va" if "user va" for va
    using mmu_agrees [OF ag [OF that order_refl]] unfolding translate_def vmap_init_def e_def by simp
qed

definition pg_empty :: "pmm \<Rightarrow> paging" where
  "pg_empty pm = \<lparr>pmem = \<lambda>_. 0, pg_cr3 = 0x1000, pg_pmm = pm\<rparr>"

lemma tabs_empty: "tabs (\<lambda>_. 0) c va k = Some t \<longleftrightarrow> k = 0 \<and> t = c"
  by (cases k) (auto simp: bind_eq_Some_conv next_table_def)

lemma frame_1000: "is_frame 0x1000"
  using range_frame [of "0x1000" 1] by (simp add: range_ok_def)

lemma pg_empty_ok:
  assumes "pmm_ok pm" "1 \<notin> free_pages pm"
  shows "tables_ok (pg_empty pm)"
proof -
  have "p \<noteq> 0x1000" if "free_page (pg_empty pm) p" for p using that assms(2) by (auto simp: free_page_def pg_empty_def)
  then show ?thesis
    using frame_1000 assms(1) by (auto simp: tables_ok_def pg_empty_def tree_def fresh_def tabs_empty same_path_def free_page_def)
qed

lemma demo_ok: "tables_ok (pg_empty pmm_demo)"
proof (rule pg_empty_ok [OF pmm_demo_ok])
  show "1 \<notin> free_pages pmm_demo"
    by (simp add: pmm_demo_def pmm_pre_def pmm_conventional_def free_pages_def span_def pages_at_def)
qed

text \<open>In the empty tables every address outside the window can be mapped.\<close>

lemma pg_demo_can_map:
  assumes "user va"
  shows "can_map (vmap_init (pg_empty pm)) va"
proof -
  have "small_path (\<lambda>_. 0) 0x1000 va" by (simp add: small_path_def)
  moreover have "agrees (\<lambda>_. 0) (pmem (vmap_init (pg_empty pm))) 0x1000 va 3"
  proof -
    show ?thesis unfolding vmap_init_def pg_empty_def paging.simps
      by (rule agrees_upd [OF frame_1000 frame_1000 small_R_IDX]) (use assms in \<open>auto simp: tabs_empty user_def\<close>)
  qed
  ultimately show ?thesis using agrees_small assms by (auto simp: can_map_def vmap_init_def pg_empty_def)
qed

lemma vmap_map_pages_witness:
  "\<exists>s'. vmap_map 2 0x7000 0x400000 7 1 (vmap_init (pg_empty pmm_demo)) = Inr s' \<and> translate s' 0x401234 = Some 0x8234 \<and>
     translate s' 0x402000 = translate (vmap_init (pg_empty pmm_demo)) 0x402000"
proof -
  have u: "user (0x400000 + of_nat i * 0x1000)" if "i < 2" for i
    using less_2_cases [OF that] by (auto simp: user_def IDX_def R_IDX_def)
  have f: "is_frame (0x7000 + of_nat i * 0x1000)" if "i < 2" for i
    using less_2_cases [OF that] range_frame [of "0x7000" 1] range_frame [of "0x8000" 1] by (auto simp: range_ok_def)
  have "avail (vmap_init (pg_empty pmm_demo)) = 10"
    by (simp add: avail_def vmap_init_def pg_empty_def pmm_demo_def pmm_pre_def pmm_conventional_def free_count_def)
  then obtain s' where s': "vmap_map 2 0x7000 0x400000 7 1 (vmap_init (pg_empty pmm_demo)) = Inr s'"
      "\<forall>i<2. \<forall>va. user va \<and> same_page va (0x400000 + of_nat i * 0x1000) \<longrightarrow> translate s' va = Some ((0x7000 + of_nat i * 0x1000) OR (va AND 0xFFF))"
      "\<forall>va. user va \<and> (\<forall>i<2. \<not> same_page va (0x400000 + of_nat i * 0x1000)) \<longrightarrow> translate s' va = translate (vmap_init (pg_empty pmm_demo)) va"
    using vmap_map_pages [OF vmap_init_ok(1) [OF demo_ok], of 2 7 "0x400000" "0x7000"] pg_demo_can_map [OF u] f by auto
  have "user 0x401234" "same_page 0x401234 (0x400000 + of_nat 1 * 0x1000)" "user 0x402000"
    by (simp_all add: user_def IDX_def R_IDX_def same_page_iff)
  moreover have "\<not> same_page 0x402000 (0x400000 + of_nat i * 0x1000)" if "i < 2" for i
    using pages_differ [of "0x400000" 2 i] that by auto
  ultimately show ?thesis using s'(1) s'(2) [rule_format, of 1 "0x401234"] s'(3) [rule_format, of "0x402000"] by simp
qed

definition pg_one_page :: "u64 \<Rightarrow> u64" where
  "pg_one_page a = (if a = 0x1ff8 then 0x1003 else if a = 0x1000 then 0x2003 else if a = 0x2000 then 0x3003
     else if a = 0x3000 then 0x4003 else if a = 0x4008 then 0x7003 else 0)"

definition pg_one :: paging where "pg_one = \<lparr>pmem = pg_one_page, pg_cr3 = 0x1000, pg_pmm = pmm_demo\<rparr>"

lemma pg_one_reads:
  "pg_one_page 0x1ff8 = 0x1003" "pg_one_page 0x1000 = 0x2003" "pg_one_page 0x2000 = 0x3003" "pg_one_page 0x3000 = 0x4003"
  "pg_one_page 0x4008 = 0x7003" "pg_one_page 0x4010 = 0"
  by (simp_all add: pg_one_page_def)

lemma pg_one_sel [simp]: "pmem pg_one = pg_one_page" "pg_cr3 pg_one = 0x1000"
  by (simp_all add: pg_one_def)

lemma pg_one_idx:
  "IDX 0x1ABC 4 = 0" "IDX 0x1ABC 3 = 0" "IDX 0x1ABC 2 = 0" "IDX 0x1ABC 1 = 1"
  "IDX 0x2ABC 4 = 0" "IDX 0x2ABC 3 = 0" "IDX 0x2ABC 2 = 0" "IDX 0x2ABC 1 = 2"
  by (simp_all add: IDX_def)

lemma pg_one_tabs:
  assumes "IDX va 4 = 0" "IDX va 3 = 0" "IDX va 2 = 0"
  shows "tabs pg_one_page 0x1000 va 1 = Some 0x2000" "tabs pg_one_page 0x1000 va 2 = Some 0x3000" "tabs pg_one_page 0x1000 va 3 = Some 0x4000"
proof -
  have 1: "tabs pg_one_page 0x1000 va (Suc 0) = Some 0x2000" using assms by (simp add: next_table_def Let_def pg_one_reads pe_frame_def)
  have 2: "tabs pg_one_page 0x1000 va (Suc (Suc 0)) = Some 0x3000" using assms 1 by (simp add: next_table_def Let_def pg_one_reads pe_frame_def)
  have 3: "tabs pg_one_page 0x1000 va (Suc (Suc (Suc 0))) = Some 0x4000" using assms 2 by (simp add: next_table_def Let_def pg_one_reads pe_frame_def)
  show "tabs pg_one_page 0x1000 va 1 = Some 0x2000" "tabs pg_one_page 0x1000 va 2 = Some 0x3000" "tabs pg_one_page 0x1000 va 3 = Some 0x4000"
    using 1 2 3 by (simp_all only: numeral_2_eq_2 numeral_3_eq_3 One_nat_def)
qed

lemma pg_one_path:
  assumes "IDX va 4 = 0" "IDX va 3 = 0" "IDX va 2 = 0"
  shows "small_path pg_one_page 0x1000 va"
  unfolding small_path_def
proof (intro allI impI)
  fix j t assume j: "j < 3" "tabs pg_one_page 0x1000 va j = Some t"
  then consider "j = 0" | "j = 1" | "j = 2" by linarith
  then show "let e = pg_one_page (t OR push_bit 3 (IDX va (4 - j))) in \<not> (bit e 0 \<and> bit e 7)"
  proof cases
    case 1 then show ?thesis using j(2) assms by (simp add: Let_def pg_one_reads)
  next
    case 2 then show ?thesis using j(2) assms pg_one_tabs(1) [OF assms] by (simp add: Let_def pg_one_reads)
  next
    case 3 then show ?thesis using j(2) assms pg_one_tabs(2) [OF assms] by (simp add: Let_def pg_one_reads)
  qed
qed

lemma vmap_query_agrees_witness:
  "translate pg_one 0x1ABC = Some 0x7ABC \<and> vmap_query 0x1ABC pg_one = Inr 0x7ABC \<and> vmap_query 0x2ABC pg_one = Inr 0"
proof -
  have sm: "self_map (pmem pg_one) (pg_cr3 pg_one)" by (simp add: self_map_def R_IDX_def pg_one_reads pe_frame_def)
  note sp = pg_one_path [OF pg_one_idx(1-3), folded pg_one_sel] pg_one_path [OF pg_one_idx(5-7), folded pg_one_sel]
  have tr: "translate pg_one 0x1ABC = Some 0x7ABC" "translate pg_one 0x2ABC = None"
    by (simp_all add: translate_def mmu_4 Let_def pg_one_idx pg_one_idx(4,8) [unfolded One_nat_def] pg_one_reads pe_frame_def)
  have "plain_leaf (pmem pg_one) (pg_cr3 pg_one) 0x1ABC"
    using pg_one_tabs(3) [OF pg_one_idx(1-3)] by (simp add: plain_leaf_def plain_entry_def Let_def pg_one_idx pg_one_idx(4,8) [unfolded One_nat_def] pg_one_reads)
  then show ?thesis
    using vmap_query_agrees [OF sm sp(1)] vmap_query_agrees [OF sm sp(2)] tr by simp
qed

text \<open>A page of 1 GiB at the start of the address space whose memory is zero.\<close>

lemma vmap_query_large_witness:
  "\<exists>s. translate s 0x201234 = Some 0x40201234 \<and> vmap_query 0x201234 s = Inr 0"
proof -
  let ?s = "\<lparr>pmem = (\<lambda>_. 0)(0x1ff8 := 0x1003, 0x1000 := 0x2003, 0x2000 := 0x40000083), pg_cr3 = 0x1000, pg_pmm = pmm_demo\<rparr>"
  have "self_map (pmem ?s) (pg_cr3 ?s)" by (simp add: self_map_def R_IDX_def pe_frame_def)
  moreover have "tabs (pmem ?s) (pg_cr3 ?s) 0x201234 1 = Some 0x2000" by (simp add: next_table_def IDX_def pe_frame_def)
  ultimately show ?thesis
    using vmap_query_large [of ?s "0x201234" "0x2000" "0x40000083"] by (auto simp: IDX_def pe_frame_def mask_eq_exp_minus_1)
qed

end
