(* ===== verification/Vmm.thy ===== *)
theory Vmm
  imports Paging Bitmap
begin

unbundle bit_operations_syntax

text \<open>
  kernel/mm/vmm.c, pvpage.c and the anonymous mappings of mman.c, on top of the page tables and the list of
  free pages. \<open>vm_idx\<close> is the static \<open>_idx\<close> of vmm.c, \<open>pv_map\<close> the bitmap of pvpage.c and \<open>t_mmap\<close> the
  field \<open>mmap\<close> of the current task. What a file system does for a mapped file is an argument of \<open>sys_mmap\<close>.
\<close>

section \<open>State and operations\<close>

record vmm =
  vm_pg :: paging
  vm_idx :: u64
  pv_map :: bitmap
  t_mmap :: u64

definition kern_vmm_pages :: u64 where "kern_vmm_pages = 0xffffb00000000000"
definition kern_pvpg_base :: u64 where "kern_pvpg_base = 0xffffc00000000000"
definition PAGE_MASK :: u64 where "PAGE_MASK = PAGE_SIZ - 1"

text \<open>\<open>vmm_canadjust\<close>: the returned state and the adjusted address.\<close>

definition vmm_canadjust :: "u64 \<Rightarrow> bool \<times> u64" where
  "vmm_canadjust vrt =
     (if drop_bit 47 vrt AND 1 \<noteq> 0
      then if drop_bit 48 vrt = 0xFFFF then (True, vrt) else (False, vrt OR push_bit 44 0xffff8)
      else (True, vrt))"

definition vmm_phyauto :: "u64 \<Rightarrow> u64 \<Rightarrow> u16 \<Rightarrow> vmm \<Rightarrow> (u64 \<times> vmm) result" where
  "vmm_phyauto vrt0 num flgs v =
     (if vrt0 AND PAGE_MASK \<noteq> 0 \<or> vrt0 = 0 then Inl AssertFail
      else let vrt = snd (vmm_canadjust vrt0); s = vm_pg v
           in bind_result (pmm_allocpages num (pg_pmm s)) (\<lambda>(page, pm).
              bind_result (vmap_map (unat num) page vrt flgs 1 (s\<lparr>pg_pmm := pm\<rparr>)) (\<lambda>s'.
                Inr (vrt, v\<lparr>vm_pg := s'\<rparr>))))"

definition vmm_allocvrt :: "u64 \<Rightarrow> vmm \<Rightarrow> u64 \<times> vmm" where
  "vmm_allocvrt num v = (kern_vmm_pages + PAGE_SIZ * vm_idx v, v\<lparr>vm_idx := vm_idx v + num\<rparr>)"

definition vmm_allocpages :: "u64 \<Rightarrow> u16 \<Rightarrow> vmm \<Rightarrow> (u64 \<times> vmm) result" where
  "vmm_allocpages num flgs v =
     (let (page, v1) = vmm_allocvrt num v
      in bind_result (vmm_phyauto page num flgs v1) (\<lambda>(_, v2). Inr (page, v2)))"

definition vmm_allocpv :: "u64 \<Rightarrow> vmm \<Rightarrow> (u64 \<times> u64 \<times> vmm) result" where
  "vmm_allocpv num v =
     (let (vp, v1) = vmm_allocvrt num v; s = vm_pg v1
      in bind_result (pmm_allocpages num (pg_pmm s)) (\<lambda>(pp, pm).
         bind_result (vmap_map (unat num) pp vp 3 1 (s\<lparr>pg_pmm := pm\<rparr>)) (\<lambda>s'. Inr (vp, pp, v1\<lparr>vm_pg := s'\<rparr>))))"

text \<open>\<open>make_pvpage\<close> returns \<open>None\<close> for the result -1.\<close>

definition make_pvpage :: "u64 \<Rightarrow> vmm \<Rightarrow> (u64 option \<times> vmm) result" where
  "make_pvpage phy v =
     bind_result (bitmap_find (pv_map v)) (\<lambda>(idx, map).
       if idx = - 1 then Inr (None, v\<lparr>pv_map := map\<rparr>)
       else let vrt = kern_pvpg_base + PAGE_SIZ * idx
            in bind_result (vmap_map 1 phy vrt 3 1 (vm_pg v)) (\<lambda>s'. Inr (Some vrt, v\<lparr>pv_map := map, vm_pg := s'\<rparr>)))"

definition break_pvpage :: "u64 \<Rightarrow> vmm \<Rightarrow> vmm result" where
  "break_pvpage page v =
     bind_result (bitmap_reset (pv_map v) ((page - kern_pvpg_base) div PAGE_SIZ)) (\<lambda>map. Inr (v\<lparr>pv_map := map\<rparr>))"

section \<open>mmap\<close>

record vm_region =
  vm_va :: u64
  vm_num :: u64
  vm_prot :: u32
  vm_flgs :: u32
  vm_foff :: u64

text \<open>
  \<open>mapflg\<close> is an \<open>int\<close>: the disjunction with the 64-bit \<open>PE_NX\<close> is cut to 32 bits, and the call
  of \<open>vmm_phyauto\<close> to 16.
\<close>

definition PE_NX :: u64 where "PE_NX = push_bit 63 1"

definition anon_flags :: "u32 \<Rightarrow> u32" where
  "anon_flags prot =
     (let f0 = 4;
          f1 = (if prot AND 1 \<noteq> 0 then f0 OR 1 else f0);
          f2 = (if prot AND 2 \<noteq> 0 then f1 OR 3 else f1)
      in if NOT prot AND 4 \<noteq> 0 then ucast (ucast f2 OR PE_NX) else f2)"

definition mmap_anon :: "vm_region \<Rightarrow> vmm \<Rightarrow> (u64 \<times> vmm) result" where
  "mmap_anon vm v =
     (let (vaddr, v1) = (if vm_flgs vm AND 0x10 \<noteq> 0 then (vm_va vm, v)
                         else (t_mmap v, v\<lparr>t_mmap := t_mmap v + vm_num vm * PAGE_SIZ\<rparr>))
      in vmm_phyauto vaddr (vm_num vm) (ucast (anon_flags (vm_prot vm))) v1)"

definition MAP_FAILED :: u64 where "MAP_FAILED = - 1"

definition sys_mmap ::
  "(vm_region \<Rightarrow> vmm \<Rightarrow> (u64 \<times> vmm) result) \<Rightarrow> u64 \<Rightarrow> u64 \<Rightarrow> u32 \<Rightarrow> u32 \<Rightarrow> 32 word \<Rightarrow> u64 \<Rightarrow> vmm \<Rightarrow> (u64 \<times> vmm) result"
where
  "sys_mmap mmap_file addr len prot flgs fd off v =
     (if flgs AND 0xf = 0 then Inr (MAP_FAILED, v)
      else let vm = \<lparr>vm_va = addr, vm_num = (len + (PAGE_SIZ - 1)) div PAGE_SIZ, vm_prot = prot, vm_flgs = flgs, vm_foff = off\<rparr>
           in if flgs AND 0x20 \<noteq> 0
              then if fd \<noteq> - 1 \<or> off \<noteq> 0 then Inr (MAP_FAILED, v) else mmap_anon vm v
              else mmap_file vm v)"

section \<open>Frames of a range\<close>

lemma range_frames:
  assumes "range_ok p k" "i < k"
  shows "is_frame (p + of_nat i * 0x1000)" "unat (p + of_nat i * 0x1000) div 4096 = unat p div 4096 + i"
proof -
  have e: "unat (p + of_nat i * PAGE_SIZ) = unat p + i * 4096" using range_end [OF assms(1)] assms(2) by simp
  have "range_ok (p + of_nat (unat (of_nat i :: u64)) * PAGE_SIZ) (k - i)"
  proof -
    have "i < 2 ^ 64" using fits [of "unat p" k] assms by (simp add: range_ok_def)
    then have "unat (of_nat i :: u64) = i" by (simp add: unat_of_nat_small)
    then show ?thesis using range_cut(3) [OF assms(1), of "of_nat i"] assms(2) by simp
  qed
  then show "is_frame (p + of_nat i * 0x1000)" using range_frame [of _ "k - i"] assms(2) by (simp add: PAGE_SIZ_def)
  show "unat (p + of_nat i * 0x1000) div 4096 = unat p div 4096 + i" using e by (simp add: PAGE_SIZ_def)
qed

lemma page_offset: "unat (x AND 0xFFF :: u64) < 4096"
proof -
  have "unat (take_bit 12 x) = take_bit 12 (unat x)" by (rule unsigned_take_bit_eq)
  then show ?thesis unfolding and_FFF using take_bit_nat_less_exp [of 12 "unat x"] by simp
qed

lemma frame_or_offset:
  assumes "is_frame p"
  shows "unat (p OR (x AND 0xFFF)) div 4096 = unat p div 4096"
proof -
  have "drop_bit 12 (p OR (x AND 0xFFF)) = drop_bit 12 p"
    unfolding and_FFF by (rule bit_word_eqI) (auto simp: bit_simps)
  then have "unat (drop_bit 12 (p OR (x AND 0xFFF))) = unat (drop_bit 12 p)" by (rule arg_cong)
  then have "drop_bit 12 (unat (p OR (x AND 0xFFF))) = drop_bit 12 (unat p)" unfolding unat_drop_bit_eq .
  then show ?thesis by (simp add: drop_bit_eq_div)
qed

section \<open>Fresh memory for a process\<close>

text \<open>The lower half of the address space belongs to the process; none of its pages is on the free list.\<close>

definition low :: "u64 \<Rightarrow> bool" where
  "low va \<longleftrightarrow> IDX va 4 < 256"

definition private_pages :: "paging \<Rightarrow> bool" where
  "private_pages s \<longleftrightarrow> (\<forall>va pa. low va \<and> translate s va = Some pa \<longrightarrow> unat pa div 4096 \<notin> free_pages (pg_pmm s))"

lemma low_user: "low va \<Longrightarrow> user va"
  by (auto simp: low_def user_def R_IDX_def)

lemma set_pmm_pt_ok:
  assumes "pt_ok s" "pmm_ok pm" "free_pages pm \<subseteq> free_pages (pg_pmm s)"
  shows "pt_ok (s\<lparr>pg_pmm := pm\<rparr>)"
  using assms unfolding pt_ok_def tables_ok_def free_page_def by auto

text \<open>What \<open>vmm_phyauto\<close> needs: addresses it may map, and pages for the tables beside those for the range.\<close>

definition phyauto_pre :: "u64 \<Rightarrow> u64 \<Rightarrow> u16 \<Rightarrow> vmm \<Rightarrow> bool" where
  "phyauto_pre vrt num flgs v \<longleftrightarrow> pt_ok (vm_pg v) \<and> vrt AND PAGE_MASK = 0 \<and> vrt \<noteq> 0 \<and> \<not> bit vrt 47 \<and> bit flgs 0 \<and>
     num \<noteq> 0 \<and> unat num < 2 ^ 36 \<and> (\<forall>i<unat num. can_map (vm_pg v) (vrt + of_nat i * 0x1000))"

lemma canadjust_low: "\<not> bit vrt 47 \<Longrightarrow> snd (vmm_canadjust vrt) = vrt"
  by (simp add: vmm_canadjust_def and_one_eq odd_iff_mod_2_eq_one [symmetric] flip: bit_iff_odd_drop_bit)

lemma phyauto_run:
  assumes pre: "phyauto_pre vrt num flgs v" and al: "pmm_allocpages num (pg_pmm (vm_pg v)) = Inr (page, pm)"
    and ok: "pmm_ok pm" "free_pages pm \<subseteq> free_pages (pg_pmm (vm_pg v))" "3 * unat num \<le> free_count (f_list pm)"
    and fr: "\<forall>i<unat num. is_frame (page + of_nat i * 0x1000)"
  shows "\<exists>v'. vmm_phyauto vrt num flgs v = Inr (vrt, v') \<and> pt_ok (vm_pg v') \<and> free_pages (pg_pmm (vm_pg v')) \<subseteq> free_pages pm \<and>
    (\<forall>i<unat num. \<forall>va. user va \<and> same_page va (vrt + of_nat i * 0x1000) \<longrightarrow>
        translate (vm_pg v') va = Some ((page + of_nat i * 0x1000) OR (va AND 0xFFF))) \<and>
    (\<forall>va. user va \<and> (\<forall>i<unat num. \<not> same_page va (vrt + of_nat i * 0x1000)) \<longrightarrow> translate (vm_pg v') va = translate (vm_pg v) va)"
proof -
  let ?s = "(vm_pg v)\<lparr>pg_pmm := pm\<rparr>"
  have p: "pt_ok (vm_pg v)" "vrt AND PAGE_MASK = 0" "vrt \<noteq> 0" "\<not> bit vrt 47" "bit flgs 0" "unat num < 2 ^ 36"
    "\<forall>i<unat num. can_map (vm_pg v) (vrt + of_nat i * 0x1000)" using pre unfolding phyauto_pre_def by blast+
  have "pt_ok ?s" using set_pmm_pt_ok [OF p(1) ok(1,2)] .
  moreover have "3 * unat num \<le> avail ?s" using ok(3) by (simp add: avail_def)
  moreover have "\<forall>i<unat num. can_map ?s (vrt + of_nat i * 0x1000) \<and> is_frame (page + of_nat i * 0x1000)"
    using p(7) fr by (simp add: can_map_def)
  ultimately obtain s' where "vmap_map (unat num) page vrt flgs 1 ?s = Inr s'" and s': "pt_ok s'" "free_pages (pg_pmm s') \<subseteq> free_pages pm"
    "\<forall>i<unat num. \<forall>va. user va \<and> same_page va (vrt + of_nat i * 0x1000) \<longrightarrow> translate s' va = Some ((page + of_nat i * 0x1000) OR (va AND 0xFFF))"
    "\<forall>va. user va \<and> (\<forall>i<unat num. \<not> same_page va (vrt + of_nat i * 0x1000)) \<longrightarrow> translate s' va = translate ?s va"
    using vmap_map_spec [of ?s "unat num" flgs vrt page] p(5,6) by auto
  then have "vmm_phyauto vrt num flgs v = Inr (vrt, v\<lparr>vm_pg := s'\<rparr>)"
    using al p(2,3) canadjust_low [OF p(4)] by (simp add: vmm_phyauto_def Let_def)
  moreover have "translate ?s va = translate (vm_pg v) va" for va by (simp add: translate_def)
  ultimately show ?thesis using s' by (intro exI [of _ "v\<lparr>vm_pg := s'\<rparr>"]) simp
qed

text \<open>
  C7. \<open>vmm_phyauto\<close>, behind \<open>mmap\<close> and the loader, when \<open>pmm_allocpages\<close> finds a free range of the length and three free pages for each page
  are left for tables (without a free range the code maps physical page 0, see \<open>vmm_phyauto_null\<close>): the call returns the address;
  every page of the range is backed by a frame that was free, each by its own; no other
  address of the process leads to one of these frames; the other addresses keep their
  translations; and still no page of the process is on the free list.
\<close>

theorem vmm_phyauto_private:
  assumes pre: "phyauto_pre vrt num flgs v" and priv: "private_pages (vm_pg v)"
    and al: "pmm_allocpages num (pg_pmm (vm_pg v)) = Inr (page, pm)" "page \<noteq> 0" "3 * unat num \<le> free_count (f_list pm)"
  shows "\<exists>v'. vmm_phyauto vrt num flgs v = Inr (vrt, v') \<and> pt_ok (vm_pg v') \<and> private_pages (vm_pg v') \<and>
    (\<forall>i<unat num. \<forall>va. user va \<and> same_page va (vrt + of_nat i * 0x1000) \<longrightarrow>
       (\<exists>pa. translate (vm_pg v') va = Some pa \<and> unat pa div 4096 = unat page div 4096 + i \<and>
         unat page div 4096 + i \<in> free_pages (pg_pmm (vm_pg v)))) \<and>
    (\<forall>va. user va \<and> (\<forall>i<unat num. \<not> same_page va (vrt + of_nat i * 0x1000)) \<longrightarrow>
       translate (vm_pg v') va = translate (vm_pg v) va \<and>
       (\<forall>pa. low va \<and> translate (vm_pg v') va = Some pa \<longrightarrow> unat pa div 4096 \<notin> pages_at page (unat num)))"
proof -
  have p: "pmm_ok (pg_pmm (vm_pg v))" "num \<noteq> 0" using pre pt_okD(4) unfolding phyauto_pre_def by blast+
  have a: "range_ok page (unat num)" "pmm_ok pm" "free_pages (pg_pmm (vm_pg v)) = pages_at page (unat num) \<union> free_pages pm"
      "pages_at page (unat num) \<inter> free_pages pm = {}"
    using pmm_allocpages_spec [OF p al(1)] al(2) by blast+
  then obtain v' where v': "vmm_phyauto vrt num flgs v = Inr (vrt, v')" "pt_ok (vm_pg v')" "free_pages (pg_pmm (vm_pg v')) \<subseteq> free_pages pm"
      "\<forall>i<unat num. \<forall>va. user va \<and> same_page va (vrt + of_nat i * 0x1000) \<longrightarrow>
        translate (vm_pg v') va = Some ((page + of_nat i * 0x1000) OR (va AND 0xFFF))"
      "\<forall>va. user va \<and> (\<forall>i<unat num. \<not> same_page va (vrt + of_nat i * 0x1000)) \<longrightarrow> translate (vm_pg v') va = translate (vm_pg v) va"
    using phyauto_run [OF pre al(1) a(2) _ al(3)] range_frames(1) [OF a(1)] by auto
  have in_range: "unat page div 4096 + i \<in> pages_at page (unat num)" if "i < unat num" for i using that by (simp add: pages_at_def)
  have new: "unat ((page + of_nat i * 0x1000) OR (va AND 0xFFF)) div 4096 = unat page div 4096 + i" if "i < unat num" for i va
    using frame_or_offset range_frames [OF a(1) that] by simp
  have old: "unat pa div 4096 \<notin> free_pages (pg_pmm (vm_pg v))"
    if "low va" "\<forall>i<unat num. \<not> same_page va (vrt + of_nat i * 0x1000)" "translate (vm_pg v') va = Some pa" for va pa
    using priv that v'(5) low_user unfolding private_pages_def by metis
  have "private_pages (vm_pg v')"
    unfolding private_pages_def
  proof (intro allI impI, elim conjE)
    fix va pa assume va: "low va" "translate (vm_pg v') va = Some pa"
    show "unat pa div 4096 \<notin> free_pages (pg_pmm (vm_pg v'))"
    proof (cases "\<exists>i<unat num. same_page va (vrt + of_nat i * 0x1000)")
      case True
      then obtain i where i: "i < unat num" "same_page va (vrt + of_nat i * 0x1000)" by blast
      then have "unat pa div 4096 = unat page div 4096 + i" using v'(4) va low_user new by fastforce
      then show ?thesis using in_range [OF i(1)] a(4) v'(3) by auto
    next
      case False
      then show ?thesis using old [OF va(1) _ va(2)] a(3) v'(3) by blast
    qed
  qed
  then show ?thesis using v'(1,2,4,5) new in_range old a(3) by (intro exI [of _ v'] conjI) auto
qed

text \<open>
  \<open>vmm_phyauto\<close> does not look at what \<open>pmm_allocpages\<close> returns: when no free range is long enough the call
  succeeds all the same, and the range leads to the physical memory from address zero on.
\<close>

theorem vmm_phyauto_null:
  assumes pre: "phyauto_pre vrt num flgs v" and none: "\<forall>n \<in> set (f_list (pg_pmm (vm_pg v))). f_pages n < num"
    and tables: "3 * unat num \<le> free_count (f_list (pg_pmm (vm_pg v)))"
  shows "\<exists>v'. vmm_phyauto vrt num flgs v = Inr (vrt, v') \<and>
    (\<forall>i<unat num. \<forall>va. user va \<and> same_page va (vrt + of_nat i * 0x1000) \<longrightarrow>
       translate (vm_pg v') va = Some ((of_nat i * 0x1000) OR (va AND 0xFFF)))"
proof -
  let ?pm = "pg_pmm (vm_pg v)"
  have p: "pmm_ok ?pm" "num \<noteq> 0" "unat num < 2 ^ 36" using pre pt_okD(4) unfolding phyauto_pre_def by blast+
  have "f_list ?pm \<noteq> []" using tables p(2) by (auto simp: free_count_def unat_eq_0)
  then have al: "pmm_allocpages num ?pm = Inr (0, ?pm)"
    using none by (simp add: pmm_allocpages_def alloc_nodes_None [THEN iffD2])
  have "is_frame (0 + of_nat i * 0x1000)" if "i < unat num" for i
  proof (cases "i = 0")
    case True
    then show ?thesis unfolding is_frame_def pe_frame_def by simp
  next
    case False
    have "i * 4096 < 2 ^ 64" "i * 4096 + 1 * 4096 \<le> 2 ^ 52" using that p(3) by simp_all
    moreover have e: "of_nat i * 0x1000 = (of_nat (i * 4096) :: u64)" by simp
    ultimately have u: "unat (of_nat i * 0x1000 :: u64) = i * 4096" unfolding e by (subst unat_of_nat_small) simp_all
    then have "of_nat i * 0x1000 \<noteq> (0 :: u64)" using False by (auto simp: unat_eq_0 [symmetric])
    then have "range_ok (of_nat i * 0x1000) 1" using u \<open>i * 4096 + 1 * 4096 \<le> 2 ^ 52\<close> unfolding range_ok_def by simp
    then show ?thesis using range_frame by simp
  qed
  then show ?thesis using phyauto_run [OF pre al p(1) order_refl tables] by auto
qed

section \<open>Protection and addresses\<close>

lemma anon_flags_NX: "ucast (ucast f OR PE_NX) = (f :: u32)"
proof -
  have x: "PE_NX = push_bit 63 (mask 1)" by (simp add: PE_NX_def mask_eq_exp_minus_1)
  show ?thesis unfolding x by (rule bit_word_eqI, unfold bit_ucast_iff bit_or_iff bit_push_bit_iff bit_mask_iff) auto
qed

text \<open>
  The protection of an anonymous mapping: \<open>PE_NX\<close> does not fit into the \<open>int\<close> that collects the flags,
  so a mapping without \<open>PROT_EXEC\<close> is made exactly like one with it.
\<close>

theorem mmap_anon_always_exec:
  "mmap_anon (vm\<lparr>vm_prot := prot AND NOT 4\<rparr>) v = mmap_anon (vm\<lparr>vm_prot := prot OR 4\<rparr>) v"
proof -
  have f: "anon_flags p = (let f1 = (if p AND 1 \<noteq> 0 then 5 else 4) in if p AND 2 \<noteq> 0 then f1 OR 3 else f1)" for p
    unfolding anon_flags_def anon_flags_NX Let_def by simp
  have b: "(prot AND NOT 4) AND 1 = (prot OR 4) AND (1 :: u32)" "(prot AND NOT 4) AND 2 = (prot OR 4) AND (2 :: u32)"
  proof -
    have m: "(4 :: u32) = push_bit 2 (mask 1)" "(2 :: u32) = push_bit 1 (mask 1)" "(1 :: u32) = mask 1" by (simp_all add: mask_eq_exp_minus_1)
    show "(prot AND NOT 4) AND 1 = (prot OR 4) AND (1 :: u32)" "(prot AND NOT 4) AND 2 = (prot OR 4) AND (2 :: u32)"
      by (rule bit_word_eqI; unfold m bit_and_iff bit_or_iff bit_not_iff bit_push_bit_iff bit_mask_iff; auto)+
  qed
  have "anon_flags (prot AND NOT 4) = anon_flags (prot OR 4)" unfolding f b by (rule refl)
  then show ?thesis unfolding mmap_anon_def by simp
qed

text \<open>
  \<open>vmm_canadjust\<close> never changes the 48 bits that the page tables look at; what it returns is canonical exactly
  when bit 47 is set or all bits above it were clear, so an address with bit 47 clear and one
  of the higher bits set is reported as canonical and left as it is.
\<close>

theorem vmm_canadjust_range:
  "take_bit 48 (snd (vmm_canadjust vrt)) = take_bit 48 vrt \<and>
   ((\<forall>n. 47 \<le> n \<and> n < 64 \<longrightarrow> bit (snd (vmm_canadjust vrt)) n = bit vrt 47) \<longleftrightarrow> bit vrt 47 \<or> drop_bit 48 vrt = 0) \<and>
   (\<not> bit vrt 47 \<longrightarrow> vmm_canadjust vrt = (True, vrt))"
proof (cases "bit vrt 47")
  case False
  then have c: "vmm_canadjust vrt = (True, vrt)"
    by (simp add: vmm_canadjust_def and_one_eq odd_iff_mod_2_eq_one [symmetric] flip: bit_iff_odd_drop_bit)
  have "(\<forall>n. 47 \<le> n \<and> n < 64 \<longrightarrow> \<not> bit vrt n) \<longleftrightarrow> drop_bit 48 vrt = 0"
  proof
    assume h: "\<forall>n. 47 \<le> n \<and> n < 64 \<longrightarrow> \<not> bit vrt n"
    have "\<not> bit vrt (48 + k)" for k using h bit_imp_le_length [of vrt "48 + k"] by auto
    then show "drop_bit 48 vrt = 0" by (intro bit_word_eqI) (simp add: bit_drop_bit_eq)
  next
    assume z: "drop_bit 48 vrt = 0"
    have "\<not> bit vrt n" if "48 \<le> n" for n
      using arg_cong [OF z, of "\<lambda>x. bit x (n - 48)"] that by (simp add: bit_drop_bit_eq)
    moreover have "n = 47 \<or> 48 \<le> n" if "47 \<le> n" for n :: nat using that by linarith
    ultimately show "\<forall>n. 47 \<le> n \<and> n < 64 \<longrightarrow> \<not> bit vrt n" using False by blast
  qed
  then show ?thesis using c False by simp
next
  case True
  then have t: "drop_bit 47 vrt AND 1 \<noteq> 0"
    by (simp add: and_one_eq odd_iff_mod_2_eq_one [symmetric] flip: bit_iff_odd_drop_bit)
  have f: "(0xffff8 :: u64) = push_bit 3 (mask 17)" "(0xFFFF :: u64) = mask 16" by (simp_all add: mask_eq_exp_minus_1)
  have b: "bit (snd (vmm_canadjust vrt)) n = (if n < 47 then bit vrt n else n < 64)" for n
  proof (cases "drop_bit 48 vrt = 0xFFFF")
    case full: True
    have "bit vrt n" if "48 \<le> n" "n < 64"
      using arg_cong [OF full, of "\<lambda>x. bit x (n - 48)"] that unfolding f bit_mask_iff by (auto simp: bit_drop_bit_eq)
    moreover have "n < 64" if "bit vrt n" using bit_imp_le_length [OF that] by simp
    moreover have "n < 47 \<or> n = 47 \<or> 48 \<le> n" by linarith
    ultimately show ?thesis using full t True unfolding vmm_canadjust_def by auto
  next
    case False
    then have "snd (vmm_canadjust vrt) = vrt OR push_bit 44 0xffff8" using t by (simp add: vmm_canadjust_def)
    then have sc: "snd (vmm_canadjust vrt) = vrt OR push_bit 47 (mask 17)" unfolding f push_bit_push_bit by simp
    have "n < 64" if "bit vrt n" using bit_imp_le_length [OF that] by simp
    then show ?thesis unfolding sc bit_or_iff bit_push_bit_iff bit_mask_iff by auto
  qed
  have "take_bit 48 (snd (vmm_canadjust vrt)) = take_bit 48 vrt"
    by (rule bit_word_eqI) (use b True less_Suc_eq [of _ 47] in \<open>auto simp: bit_take_bit_iff\<close>)
  then show ?thesis using b True by simp
qed

section \<open>Witnesses\<close>

definition vmm_start :: "pmm \<Rightarrow> vmm" where
  "vmm_start pm = \<lparr>vm_pg = vmap_init (pg_empty pm), vm_idx = 0, pv_map = \<lparr>bmap = replicate 32 0, bsiz = 256\<rparr>, t_mmap = 0x600000000000\<rparr>"

lemma vmm_start_pre:
  assumes "pmm_ok pm" "1 \<notin> free_pages pm"
  shows "phyauto_pre 0x400000 2 7 (vmm_start pm)"
proof -
  have u: "user (0x400000 + of_nat i * 0x1000)" if "i < 2" for i
    using less_2_cases [OF that] by (auto simp: user_def IDX_def R_IDX_def)
  have "\<not> bit (0x400000 :: u64) 47" "bit (7 :: u16) 0" by simp_all
  then show ?thesis
    using vmap_init_ok(1) [OF pg_empty_ok [OF assms]] pg_demo_can_map [OF u]
    by (auto simp: phyauto_pre_def vmm_start_def PAGE_MASK_def PAGE_SIZ_def)
qed

lemma vmm_start_private: "private_pages (vm_pg (vmm_start pm))" if "pmm_ok pm" "1 \<notin> free_pages pm"
proof -
  have "translate (vmap_init (pg_empty pm)) va = None" if "low va" for va
    using vmap_init_ok(2) [OF pg_empty_ok [OF \<open>pmm_ok pm\<close> \<open>1 \<notin> free_pages pm\<close>] low_user [OF that]]
    by (simp add: translate_def pg_empty_def mmu_4)
  then show ?thesis by (auto simp: private_pages_def vmm_start_def)
qed

lemma vmm_phyauto_private_witness:
  "\<exists>v'. vmm_phyauto 0x400000 2 7 (vmm_start pmm_demo) = Inr (0x400000, v') \<and> private_pages (vm_pg v')"
proof -
  have d: "pmm_ok pmm_demo" "1 \<notin> free_pages pmm_demo"
    using demo_ok pmm_demo_ok
    by (simp_all add: pmm_demo_def pmm_pre_def pmm_conventional_def free_pages_def span_def pages_at_def)
  obtain pm where "pmm_allocpages 2 pmm_demo = Inr (0x100000, pm)" "free_count (f_list pm) = 8"
    by (simp add: pmm_allocpages_def pmm_demo_def pmm_pre_def pmm_conventional_def free_count_def)
  moreover have "pg_pmm (vm_pg (vmm_start pmm_demo)) = pmm_demo" by (simp add: vmm_start_def vmap_init_def pg_empty_def)
  ultimately show ?thesis
    using vmm_phyauto_private [OF vmm_start_pre [OF d] vmm_start_private [OF d], of "0x100000" pm] by auto
qed

text \<open>Six free pages, no two of them next to each other.\<close>

definition pmm_scattered :: pmm where
  "pmm_scattered = pmm_pre [] (map (\<lambda>a. \<lparr>md_type = 7, md_start = a, md_pages = 1\<rparr>) [0x100000, 0x102000, 0x104000, 0x106000, 0x108000, 0x10a000])"

lemma vmm_phyauto_null_witness:
  "\<exists>v'. vmm_phyauto 0x400000 2 7 (vmm_start pmm_scattered) = Inr (0x400000, v') \<and> translate (vm_pg v') 0x401234 = Some 0x1234"
proof -
  have d: "pmm_ok pmm_scattered" "1 \<notin> free_pages pmm_scattered"
    by (simp_all add: pmm_scattered_def pmm_pre_def pmm_conventional_def pmm_ok_def nodes_ok_def node_ok_def range_ok_def
        free_pages_def span_def pages_at_def)
  have p: "pg_pmm (vm_pg (vmm_start pmm_scattered)) = pmm_scattered" by (simp add: vmm_start_def vmap_init_def pg_empty_def)
  have "\<forall>n \<in> set (f_list pmm_scattered). f_pages n < 2" "free_count (f_list pmm_scattered) = 6"
    by (simp_all add: pmm_scattered_def pmm_pre_def pmm_conventional_def free_count_def)
  then obtain v' where v': "vmm_phyauto 0x400000 2 7 (vmm_start pmm_scattered) = Inr (0x400000, v')"
      "\<forall>i<2. \<forall>va. user va \<and> same_page va (0x400000 + of_nat i * 0x1000) \<longrightarrow> translate (vm_pg v') va = Some ((of_nat i * 0x1000) OR (va AND 0xFFF))"
    using vmm_phyauto_null [OF vmm_start_pre [OF d]] unfolding p by auto
  have "user 0x401234" "same_page 0x401234 (0x400000 + of_nat 1 * 0x1000)" by (simp_all add: user_def IDX_def R_IDX_def same_page_iff)
  then show ?thesis using v'(1) v'(2) [rule_format, of 1 "0x401234"] by simp
qed

lemma vmm_canadjust_range_witness: "vmm_canadjust 0x1000000400000 = (True, 0x1000000400000)"
  using vmm_canadjust_range [of "0x1000000400000"] by simp

end
