(* ===== verification/Hlist.thy ===== *)
theory Hlist
  imports Prelude
begin

text \<open>
  kernel/klib/hlist.c and htable.c: lists with a single pointer as head, whose nodes know the pointer that leads to
  them, and the tables built on them. The heads are the array of one table; a node is known by its address.
\<close>

section \<open>State and operations\<close>

text \<open>A pointer to a pointer: the \<open>first\<close> of a head or the \<open>next\<close> of a node.\<close>

datatype hslot = HHead nat | HNext nat

record hlist_node =
  h_next :: "nat option"
  h_pprev :: "hslot option"

record htable =
  h_tbl :: "nat option list"
  h_nodes :: "nat \<Rightarrow> hlist_node option"

definition hnode :: "nat \<Rightarrow> htable \<Rightarrow> hlist_node result" where
  "hnode n s = (case h_nodes s n of None \<Rightarrow> Inl BadAccess | Some x \<Rightarrow> Inr x)"

definition set_hnode :: "nat \<Rightarrow> hlist_node \<Rightarrow> htable \<Rightarrow> htable" where
  "set_hnode n x s = s\<lparr>h_nodes := (h_nodes s)(n \<mapsto> x)\<rparr>"

text \<open>A store through a pointer to a pointer.\<close>

definition st_slot :: "hslot option \<Rightarrow> nat option \<Rightarrow> htable \<Rightarrow> htable result" where
  "st_slot q p s = (case q of
     None \<Rightarrow> Inl BadAccess
   | Some (HHead h) \<Rightarrow> if h < length (h_tbl s) then Inr (s\<lparr>h_tbl := (h_tbl s)[h := p]\<rparr>) else Inl BadAccess
   | Some (HNext n) \<Rightarrow> bind_result (hnode n s) (\<lambda>x. Inr (set_hnode n (x\<lparr>h_next := p\<rparr>) s)))"

definition hfirst :: "nat \<Rightarrow> htable \<Rightarrow> nat option result" where
  "hfirst h s = (if h < length (h_tbl s) then Inr (h_tbl s ! h) else Inl BadAccess)"

definition hlist_init :: "nat \<Rightarrow> htable \<Rightarrow> htable result" where
  "hlist_init h s = st_slot (Some (HHead h)) None s"

text \<open>The store into the back pointer of a node, when there is a node.\<close>

definition st_pprev :: "nat option \<Rightarrow> hslot option \<Rightarrow> htable \<Rightarrow> htable result" where
  "st_pprev p q s = (case p of None \<Rightarrow> Inr s | Some n \<Rightarrow> bind_result (hnode n s) (\<lambda>x. Inr (set_hnode n (x\<lparr>h_pprev := q\<rparr>) s)))"

definition hlist_add :: "nat \<Rightarrow> nat \<Rightarrow> htable \<Rightarrow> htable result" where
  "hlist_add h n s =
     bind_result (hfirst h s) (\<lambda>first.
     bind_result (st_slot (Some (HNext n)) first s) (\<lambda>s1.
     bind_result (st_pprev first (Some (HNext n)) s1) (\<lambda>s2.
     bind_result (st_slot (Some (HHead h)) (Some n) s2) (\<lambda>s3.
     st_pprev (Some n) (Some (HHead h)) s3))))"

definition hlist_del :: "nat \<Rightarrow> htable \<Rightarrow> htable result" where
  "hlist_del n s =
     bind_result (hnode n s) (\<lambda>x.
     bind_result (st_pprev (h_next x) (h_pprev x) s) (\<lambda>s1.
     bind_result (st_slot (h_pprev x) (h_next x) s1) (\<lambda>s2.
     bind_result (st_slot (Some (HNext n)) None s2) (\<lambda>s3.
     st_pprev (Some n) None s3))))"

text \<open>
  \<open>htable_init\<close> of a table that exists: \<open>mtbl\<close> is what \<open>malloc\<close> returns for the array, which is asked for when the
  pointer to it, \<open>tbl\<close>, is null.
\<close>

definition htable_init :: "nat option list option \<Rightarrow> nat \<Rightarrow> (nat \<Rightarrow> nat option list option) \<Rightarrow> nat option list result" where
  "htable_init tbl siz mtbl =
     (case (case tbl of None \<Rightarrow> mtbl siz | Some t \<Rightarrow> Some t) of
        None \<Rightarrow> if siz = 0 then Inr [] else Inl BadAccess
      | Some t \<Rightarrow> if siz \<le> length t then Inr (replicate siz None @ drop siz t) else Inl BadAccess)"

definition htable_add :: "nat \<Rightarrow> u64 \<Rightarrow> htable \<Rightarrow> htable result" where
  "htable_add n key s = hlist_add (unat key mod length (h_tbl s)) n s"

section \<open>Tables of lists\<close>

text \<open>\<open>hchain s q p xs\<close>: the pointer \<open>p\<close>, stored at \<open>q\<close>, leads to the nodes \<open>xs\<close>, each of which points back.\<close>

fun hchain :: "htable \<Rightarrow> hslot \<Rightarrow> nat option \<Rightarrow> nat list \<Rightarrow> bool" where
  "hchain s q p [] \<longleftrightarrow> p = None"
| "hchain s q p (x # xs) \<longleftrightarrow> p = Some x \<and> (\<exists>n. h_nodes s x = Some n \<and> h_pprev n = Some q \<and> hchain s (HNext x) (h_next n) xs)"

definition htab :: "htable \<Rightarrow> (nat \<Rightarrow> nat list) \<Rightarrow> bool" where
  "htab s L \<longleftrightarrow> (\<forall>h<length (h_tbl s). hchain s (HHead h) (h_tbl s ! h) (L h) \<and> distinct (L h)) \<and>
     (\<forall>h h' x. h < length (h_tbl s) \<and> h' < length (h_tbl s) \<and> x \<in> set (L h) \<and> x \<in> set (L h') \<longrightarrow> h = h')"

lemma hchain_cong:
  "(\<And>x. x \<in> set xs \<Longrightarrow> h_nodes s' x = h_nodes s x) \<Longrightarrow> hchain s' q p xs = hchain s q p xs"
  by (induction xs arbitrary: q p) auto

lemma hchain_ptr: "hchain s q p xs \<Longrightarrow> p = (case xs of [] \<Rightarrow> None | x # _ \<Rightarrow> Some x)"
  by (cases xs) auto

lemma hchain_nodes: "hchain s q p xs \<Longrightarrow> x \<in> set xs \<Longrightarrow> h_nodes s x \<noteq> None"
  by (induction xs arbitrary: q p) auto

text \<open>A new node in front of a list.\<close>

lemma hlist_add_chain:
  assumes c: "h < length (h_tbl s)" "hchain s (HHead h) (h_tbl s ! h) xs" "distinct xs" and n: "n \<notin> set xs" "h_nodes s n \<noteq> None"
  shows "\<exists>s'. hlist_add h n s = Inr s' \<and> h_tbl s' = (h_tbl s)[h := Some n] \<and> hchain s' (HHead h) (Some n) (n # xs) \<and>
    (\<forall>x. x \<notin> set (n # xs) \<longrightarrow> h_nodes s' x = h_nodes s x)"
proof -
  obtain v where v: "h_nodes s n = Some v" using n(2) by auto
  show ?thesis
  proof (cases xs)
    case Nil
    then show ?thesis using c v
      by (simp add: hlist_add_def hfirst_def st_slot_def hnode_def st_pprev_def set_hnode_def)
  next
    case (Cons x ys)
    then obtain m where m: "h_nodes s x = Some m" "hchain s (HNext x) (h_next m) ys" using c(2) by auto
    have ne: "x \<noteq> n" "n \<notin> set ys" "x \<notin> set ys" using Cons n(1) c(3) by auto
    let ?s = "s\<lparr>h_tbl := (h_tbl s)[h := Some n], h_nodes := (h_nodes s)(x \<mapsto> m\<lparr>h_pprev := Some (HNext n)\<rparr>,
      n \<mapsto> v\<lparr>h_next := Some x, h_pprev := Some (HHead h)\<rparr>)\<rparr>"
    have "hlist_add h n s = Inr ?s"
      using c(1,2) v m ne Cons by (simp add: hlist_add_def hfirst_def st_slot_def hnode_def st_pprev_def set_hnode_def fun_upd_twist)
    moreover have "hchain ?s (HNext x) (h_next m) ys" using m(2) ne by (subst hchain_cong [of ys ?s s]) auto
    ultimately show ?thesis using Cons ne by auto
  qed
qed

text \<open>No store makes a node go away.\<close>

lemma set_hnode_keeps [simp]: "h_nodes s j \<noteq> None \<Longrightarrow> h_nodes (set_hnode n x s) j \<noteq> None"
  by (simp add: set_hnode_def)

lemma st_slot_keeps: "st_slot q p s = Inr s' \<Longrightarrow> h_nodes s j \<noteq> None \<Longrightarrow> h_nodes s' j \<noteq> None"
  by (auto simp: st_slot_def bind_result_eq_Inr set_hnode_def split: option.splits hslot.splits if_splits)

lemma st_pprev_keeps: "st_pprev p q s = Inr s' \<Longrightarrow> h_nodes s j \<noteq> None \<Longrightarrow> h_nodes s' j \<noteq> None"
  by (auto simp: st_pprev_def bind_result_eq_Inr set_hnode_def split: option.splits if_splits)

lemma hlist_add_keeps:
  assumes "hlist_add h n s = Inr s'" "h_nodes s j \<noteq> None"
  shows "h_nodes s' j \<noteq> None"
proof -
  obtain p s1 s2 s3 where "st_slot (Some (HNext n)) p s = Inr s1" "st_pprev p (Some (HNext n)) s1 = Inr s2"
    "st_slot (Some (HHead h)) (Some n) s2 = Inr s3" "st_pprev (Some n) (Some (HHead h)) s3 = Inr s'"
    using assms(1) unfolding hlist_add_def by (auto simp: bind_result_eq_Inr)
  then show ?thesis using st_slot_keeps st_pprev_keeps assms(2) by metis
qed

text \<open>A node taken out of a list.\<close>

text \<open>What deleting a node does to a chain, to the place \<open>q\<close> that leads to it and to everything else.\<close>

definition unlinked :: "htable \<Rightarrow> hslot \<Rightarrow> nat list \<Rightarrow> nat \<Rightarrow> htable \<Rightarrow> nat option \<Rightarrow> bool" where
  "unlinked s q xs n s' p' \<longleftrightarrow> hchain s' q p' (remove1 n xs) \<and>
    (\<forall>x. x \<notin> set xs \<and> q \<noteq> HNext x \<longrightarrow> h_nodes s' x = h_nodes s x) \<and>
    (\<forall>x. q = HNext x \<longrightarrow> h_nodes s' x = Some (the (h_nodes s x)\<lparr>h_next := p'\<rparr>)) \<and>
    h_tbl s' = (case q of HHead h \<Rightarrow> (h_tbl s)[h := p'] | HNext _ \<Rightarrow> h_tbl s)"

definition leads_to :: "htable \<Rightarrow> hslot \<Rightarrow> nat option \<Rightarrow> nat list \<Rightarrow> bool" where
  "leads_to s q p xs \<longleftrightarrow> (case q of HHead h \<Rightarrow> h < length (h_tbl s) \<and> h_tbl s ! h = p
     | HNext m \<Rightarrow> m \<notin> set xs \<and> (\<exists>v. h_nodes s m = Some v \<and> h_next v = p))"

lemma hdel_first:
  assumes c: "hchain s q (Some x) (x # xs)" and d: "distinct (x # xs)" and l: "leads_to s q (Some x) (x # xs)"
  shows "\<exists>s' p'. hlist_del x s = Inr s' \<and> unlinked s q (x # xs) x s' p'"
proof -
  obtain v where v: "h_nodes s x = Some v" "h_pprev v = Some q" "hchain s (HNext x) (h_next v) xs" using c by auto
  define s1 where "s1 = (case xs of [] \<Rightarrow> s | y # _ \<Rightarrow> set_hnode y (the (h_nodes s y)\<lparr>h_pprev := Some q\<rparr>) s)"
  have x: "x \<notin> set xs" using d by simp
  have 1: "st_pprev (h_next v) (Some q) s = Inr s1" "h_nodes s1 x = Some v" "h_tbl s1 = h_tbl s"
    using v(1,3) x by (cases xs; auto simp: s1_def st_pprev_def hnode_def set_hnode_def)+
  have o1: "y \<notin> set xs \<Longrightarrow> h_nodes s1 y = h_nodes s y" for y
    by (cases xs) (simp_all add: s1_def set_hnode_def)
  have h1: "hchain s1 q (h_next v) xs"
  proof (cases xs)
    case Nil
    then show ?thesis using v by simp
  next
    case (Cons y ys)
    then have "y \<notin> set ys" using d by simp
    then have "hchain s1 (HNext y) r ys = hchain s (HNext y) r ys" for r
      using Cons by (intro hchain_cong) (auto simp: s1_def set_hnode_def)
    moreover obtain w where "h_nodes s y = Some w" "h_next v = Some y" "hchain s (HNext y) (h_next w) ys" using v(3) Cons by auto
    ultimately show ?thesis unfolding Cons by (simp add: s1_def set_hnode_def Cons)
  qed
  define s2 where "s2 = (case q of HHead h \<Rightarrow> s1\<lparr>h_tbl := (h_tbl s)[h := h_next v]\<rparr>
     | HNext m \<Rightarrow> set_hnode m (the (h_nodes s m)\<lparr>h_next := h_next v\<rparr>) s1)"
  have q: "m \<noteq> x" "m \<notin> set xs" "h_nodes s1 m = h_nodes s m" "h_nodes s m \<noteq> None" if "q = HNext m" for m
    using l o1 [of m] that by (auto simp: leads_to_def)
  have 2: "st_slot (Some q) (h_next v) s1 = Inr s2"
  proof (cases q)
    case (HHead h)
    then show ?thesis using l 1(3) by (simp add: s2_def st_slot_def leads_to_def)
  next
    case (HNext m)
    then show ?thesis using q(3,4) [OF HNext] by (auto simp: s2_def st_slot_def hnode_def)
  qed
  have s2: "h_nodes s2 = h_nodes s1 \<or> (\<exists>m w. q = HNext m \<and> h_nodes s2 = (h_nodes s1)(m \<mapsto> w))"
    by (cases q) (auto simp: s2_def set_hnode_def)
  have n2: "h_nodes s2 x = Some v" using s2 q(1) 1(2) by (elim disjE exE conjE) simp_all
  have n2s: "h_nodes s2 y = h_nodes s1 y" if "y \<in> set xs" for y using s2 q(2) that by (elim disjE exE conjE) auto
  have n2o: "h_nodes s2 y = h_nodes s y" if "y \<notin> set xs" "q \<noteq> HNext y" for y using s2 o1 [of y] that by (elim disjE exE conjE) simp_all
  let ?s = "s2\<lparr>h_nodes := (h_nodes s2)(x \<mapsto> v\<lparr>h_next := None, h_pprev := None\<rparr>)\<rparr>"
  have "hlist_del x s = bind_result (st_slot (Some (HNext x)) None s2) (st_pprev (Some x) None)"
    using v(1) 1(1) 2 by (simp add: hlist_del_def hnode_def v(2))
  then have D: "hlist_del x s = Inr ?s"
    using n2 by (simp add: hnode_def st_slot_def st_pprev_def set_hnode_def)
  have "hchain ?s q (h_next v) xs = hchain s1 q (h_next v) xs" using n2s x by (intro hchain_cong) auto
  moreover have "h_tbl ?s = (case q of HHead h \<Rightarrow> (h_tbl s)[h := h_next v] | HNext _ \<Rightarrow> h_tbl s)"
    using 1(3) by (cases q) (simp_all add: s2_def set_hnode_def)
  moreover have "h_nodes ?s y = Some (the (h_nodes s y)\<lparr>h_next := h_next v\<rparr>)" if "q = HNext y" for y
    using q [OF that] that by (simp add: s2_def set_hnode_def)
  moreover have "h_nodes ?s y = h_nodes s y" if "y \<notin> set (x # xs)" "q \<noteq> HNext y" for y
    using n2o [of y] that by simp
  ultimately have "unlinked s q (x # xs) x ?s (h_next v)" using h1 by (simp add: unlinked_def)
  then show ?thesis using D by blast
qed

lemma hchain_del:
  assumes "hchain s q p xs" "distinct xs" "n \<in> set xs" "leads_to s q p xs"
  shows "\<exists>s' p'. hlist_del n s = Inr s' \<and> unlinked s q xs n s' p'"
  using assms
proof (induction xs arbitrary: q p)
  case (Cons x xs)
  obtain v where v: "h_nodes s x = Some v" "h_pprev v = Some q" "hchain s (HNext x) (h_next v) xs" "p = Some x" using Cons.prems(1) by auto
  show ?case
  proof (cases "n = x")
    case False
    then have n: "n \<in> set xs" "distinct xs" "x \<notin> set xs" using Cons.prems by auto
    have "leads_to s (HNext x) (h_next v) xs" using v n by (simp add: leads_to_def)
    from Cons.IH [OF v(3) n(2,1) this] obtain s' p' where IH: "hlist_del n s = Inr s'" "hchain s' (HNext x) p' (remove1 n xs)"
      "\<forall>y. y \<notin> set xs \<and> HNext x \<noteq> HNext y \<longrightarrow> h_nodes s' y = h_nodes s y" "h_nodes s' x = Some (v\<lparr>h_next := p'\<rparr>)" "h_tbl s' = h_tbl s"
      using v(1) by (auto simp: unlinked_def)
    have "h_tbl s = (case q of HHead h \<Rightarrow> (h_tbl s)[h := p] | HNext _ \<Rightarrow> h_tbl s)"
      using Cons.prems(4) by (cases q) (auto simp: leads_to_def)
    moreover have "h_nodes s' y = Some (the (h_nodes s y)\<lparr>h_next := p\<rparr>)" if "q = HNext y" for y
      using Cons.prems(4) IH(3) that by (auto simp: leads_to_def)
    moreover have "hchain s' q p (x # remove1 n xs)" using IH(2,4) v by simp
    ultimately have "unlinked s q (x # xs) n s' p" using IH(3,5) False unfolding unlinked_def v(4) by simp
    then show ?thesis using IH(1) by blast
  next
    case True
    then show ?thesis using hdel_first [of s q x xs] Cons.prems v(4) by simp
  qed
qed simp

lemma htab_apart: "htab s L \<Longrightarrow> h < length (h_tbl s) \<Longrightarrow> k < length (h_tbl s) \<Longrightarrow> k \<noteq> h \<Longrightarrow> x \<in> set (L k) \<Longrightarrow> x \<notin> set (L h)"
  by (auto simp: htab_def)

lemma htab_update:
  assumes t: "htab s L" "h < length (h_tbl s)" and s: "h_tbl s' = (h_tbl s)[h := p]" "hchain s' (HHead h) p ys" "distinct ys"
    and o: "\<And>k x. k < length (h_tbl s) \<Longrightarrow> k \<noteq> h \<Longrightarrow> x \<in> set (L k) \<Longrightarrow> h_nodes s' x = h_nodes s x \<and> x \<notin> set ys"
  shows "htab s' (L(h := ys))"
proof -
  have "hchain s' (HHead k) (h_tbl s' ! k) ((L(h := ys)) k) \<and> distinct ((L(h := ys)) k)" if "k < length (h_tbl s')" for k
  proof (cases "k = h")
    case False
    then have "hchain s' (HHead k) (h_tbl s ! k) (L k) = hchain s (HHead k) (h_tbl s ! k) (L k)"
      using o [of k] that s(1) by (intro hchain_cong) auto
    then show ?thesis using False that s(1) t(1) by (simp add: htab_def)
  qed (use s that t(2) in auto)
  moreover have "k = k'" if a: "k < length (h_tbl s')" "k' < length (h_tbl s')" "x \<in> set ((L(h := ys)) k)" "x \<in> set ((L(h := ys)) k')" for k k' x
  proof (rule ccontr)
    assume n: "k \<noteq> k'"
    consider "k = h" | "k' = h" | "k \<noteq> h" "k' \<noteq> h" by blast
    then show False
    proof cases
      case 1
      then show False using o [of k' x] a n s(1) by simp
    next
      case 2
      then show False using o [of k x] a n s(1) by simp
    next
      case 3
      then show False using htab_apart [OF t(1), of k k' x] a n s(1) by simp
    qed
  qed
  ultimately show ?thesis unfolding htab_def by blast
qed

lemma htab_add:
  assumes t: "htab s L" "h < length (h_tbl s)" and n: "\<And>k. k < length (h_tbl s) \<Longrightarrow> n \<notin> set (L k)" "h_nodes s n \<noteq> None"
  shows "\<exists>s'. hlist_add h n s = Inr s' \<and> htab s' (L(h := n # L h)) \<and> length (h_tbl s') = length (h_tbl s)"
proof -
  have c: "hchain s (HHead h) (h_tbl s ! h) (L h)" "distinct (L h)" using t by (auto simp: htab_def)
  obtain s' where s': "hlist_add h n s = Inr s'" "h_tbl s' = (h_tbl s)[h := Some n]" "hchain s' (HHead h) (Some n) (n # L h)"
    "\<forall>x. x \<notin> set (n # L h) \<longrightarrow> h_nodes s' x = h_nodes s x"
    using hlist_add_chain [OF t(2) c n(1) [OF t(2)] n(2)] by blast
  have "htab s' (L(h := n # L h))"
  proof (rule htab_update [OF t s'(2,3)])
    show "distinct (n # L h)" using n(1) [OF t(2)] c(2) by simp
    fix k x assume k: "k < length (h_tbl s)" "k \<noteq> h" "x \<in> set (L k)"
    then have "x \<notin> set (n # L h)" using htab_apart [OF t k] n(1) [OF k(1)] by auto
    then show "h_nodes s' x = h_nodes s x \<and> x \<notin> set (n # L h)" using s'(4) by blast
  qed
  then show ?thesis using s'(1,2) by simp
qed

lemma htab_del:
  assumes t: "htab s L" "h < length (h_tbl s)" and m: "m \<in> set (L h)"
  shows "\<exists>s'. hlist_del m s = Inr s' \<and> htab s' (L(h := remove1 m (L h)))"
proof -
  have c: "hchain s (HHead h) (h_tbl s ! h) (L h)" "distinct (L h)" using t by (auto simp: htab_def)
  have "leads_to s (HHead h) (h_tbl s ! h) (L h)" using t(2) by (simp add: leads_to_def)
  from hchain_del [OF c m this] obtain s' p' where s': "hlist_del m s = Inr s'" "hchain s' (HHead h) p' (remove1 m (L h))"
    "\<forall>x. x \<notin> set (L h) \<longrightarrow> h_nodes s' x = h_nodes s x" "h_tbl s' = (h_tbl s)[h := p']"
    by (auto simp: unlinked_def)
  have "htab s' (L(h := remove1 m (L h)))"
  proof (rule htab_update [OF t s'(4,2)])
    show "distinct (remove1 m (L h))" using c(2) by (rule distinct_remove1)
    fix k x assume k: "k < length (h_tbl s)" "k \<noteq> h" "x \<in> set (L k)"
    then have "x \<notin> set (L h)" by (rule htab_apart [OF t])
    then show "h_nodes s' x = h_nodes s x \<and> x \<notin> set (remove1 m (L h))" using s'(3) c(2) by auto
  qed
  then show ?thesis using s'(1) by blast
qed

text \<open>
  On a table of lists the operations act as on sequences: adding a node that is in none of them puts it in front
  of its bucket, deleting a node takes it out of the bucket it is in, the other buckets stay as they are, and neither
  touches memory that is not there.\<close>

theorem hlist_ops_refine_sequences:
  assumes "htab s L" "h < length (h_tbl s)" "\<And>j. j < length (h_tbl s) \<Longrightarrow> n \<notin> set (L j)" "h_nodes s n \<noteq> None"
    "L1 = L(h := n # L h)" "k < length (h_tbl s)" "m \<in> set (L1 k)"
  shows "\<exists>s1 s2. hlist_add h n s = Inr s1 \<and> htab s1 L1 \<and> hlist_del m s1 = Inr s2 \<and> htab s2 (L1(k := remove1 m (L1 k)))"
  using htab_add [OF assms(1-4)] htab_del [of _ L1 k m] assms(5-7) by auto

definition tbl2 :: htable where
  "tbl2 = \<lparr>h_tbl = [Some 1, None], h_nodes = (\<lambda>i. if i = 1 then Some \<lparr>h_next = None, h_pprev = Some (HHead 0)\<rparr>
     else if i = 2 then Some \<lparr>h_next = None, h_pprev = None\<rparr> else None)\<rparr>"

definition seq2 :: "nat \<Rightarrow> nat list" where
  "seq2 h = (if h = 0 then [1] else [])"

theorem hlist_ops_refine_sequences_witness:
  "\<exists>s1 s2. hlist_add 0 2 tbl2 = Inr s1 \<and> htab s1 (seq2(0 := [2, 1])) \<and> hlist_del 1 s1 = Inr s2 \<and>
     htab s2 ((seq2(0 := [2, 1]))(0 := remove1 1 ((seq2(0 := [2, 1])) 0)))"
  by (rule hlist_ops_refine_sequences [where L = seq2])
    (auto simp: htab_def tbl2_def seq2_def less_Suc_eq numeral_2_eq_2)

end
