(* ===== verification/Kstring.thy ===== *)
theory Kstring
  imports Prelude
begin

text \<open>
  kernel/klib/string.c: strings and blocks of memory. A pointer is the bytes from the place it points to up to the end
  of the object, so a step of the pointer drops a byte and an access past the object is a fault. Source and
  destination are different objects. A returned pointer is its distance from the argument.
\<close>

section \<open>Operations\<close>

fun strlen_loop :: "bytes \<Rightarrow> u64 \<Rightarrow> u64 result" where
  "strlen_loop [] i = Inl BadAccess"
| "strlen_loop (c # cs) i = (if c \<noteq> 0 then strlen_loop cs (i + 1) else Inr i)"

definition strlen :: "bytes option \<Rightarrow> u64 result" where
  "strlen str = (case str of None \<Rightarrow> Inr 0 | Some cs \<Rightarrow> strlen_loop cs 0)"

text \<open>The test of the length comes before the access, so nothing behind the first \<open>maxlen\<close> bytes is read.\<close>

fun strnlen_loop :: "bytes \<Rightarrow> nat \<Rightarrow> u64 \<Rightarrow> u64 result" where
  "strnlen_loop cs 0 i = Inr i"
| "strnlen_loop [] (Suc n) i = Inl BadAccess"
| "strnlen_loop (c # cs) (Suc n) i = (if c \<noteq> 0 then strnlen_loop cs n (i + 1) else Inr i)"

definition strnlen :: "bytes option \<Rightarrow> u64 \<Rightarrow> u64 result" where
  "strnlen str maxlen = (case str of None \<Rightarrow> Inr 0 | Some cs \<Rightarrow> strnlen_loop cs (unat maxlen) 0)"

text \<open>A store through the destination pointer, \<open>k\<close> bytes after its start.\<close>

definition put :: "nat \<Rightarrow> u8 \<Rightarrow> bytes \<Rightarrow> bytes result" where
  "put k c d = (if k < length d then Inr (d[k := c]) else Inl BadAccess)"

fun strcpy_loop :: "nat \<Rightarrow> bytes \<Rightarrow> bytes \<Rightarrow> bytes result" where
  "strcpy_loop k [] d = Inl BadAccess"
| "strcpy_loop k (c # cs) d = (if c \<noteq> 0 then bind_result (put k c d) (strcpy_loop (Suc k) cs) else put k c d)"

definition strcpy :: "bytes \<Rightarrow> bytes \<Rightarrow> bytes result" where
  "strcpy dest src = strcpy_loop 0 src dest"

fun strcmp :: "bytes \<Rightarrow> bytes \<Rightarrow> int result" where
  "strcmp (a # as) (b # bs) = (if a \<noteq> 0 \<and> b \<noteq> 0 \<and> a = b then strcmp as bs else Inr (uint a - uint b))"
| "strcmp _ _ = Inl BadAccess"

fun strchr_loop :: "bytes \<Rightarrow> u8 \<Rightarrow> nat \<Rightarrow> nat option result" where
  "strchr_loop [] c k = Inl BadAccess"
| "strchr_loop (x # xs) c k =
     (if x \<noteq> 0 then (if x = c then Inr (Some k) else strchr_loop xs c (Suc k))
      else Inr (if c = 0 then Some k else None))"

definition strchr :: "bytes \<Rightarrow> u8 \<Rightarrow> nat option result" where
  "strchr str c = strchr_loop str c 0"

fun strchrnul_loop :: "bytes \<Rightarrow> u8 \<Rightarrow> nat \<Rightarrow> nat result" where
  "strchrnul_loop [] c k = Inl BadAccess"
| "strchrnul_loop (x # xs) c k = (if x \<noteq> 0 then (if x = c then Inr k else strchrnul_loop xs c (Suc k)) else Inr k)"

definition strchrnul :: "bytes \<Rightarrow> u8 \<Rightarrow> nat result" where
  "strchrnul str c = strchrnul_loop str c 0"

text \<open>The first loop of \<open>strncpy\<close> reads a byte before it looks at the count; the second one pads.\<close>

fun strncpy_pad :: "nat \<Rightarrow> nat \<Rightarrow> bytes \<Rightarrow> bytes result" where
  "strncpy_pad k 0 d = Inr d"
| "strncpy_pad k (Suc n) d = bind_result (put k 0 d) (strncpy_pad (Suc k) n)"

fun strncpy_loop :: "nat \<Rightarrow> bytes \<Rightarrow> nat \<Rightarrow> bytes \<Rightarrow> bytes result" where
  "strncpy_loop k [] n d = Inl BadAccess"
| "strncpy_loop k (c # cs) n d =
     (if c \<noteq> 0 \<and> n \<noteq> 0 then bind_result (put k c d) (strncpy_loop (Suc k) cs (n - 1)) else strncpy_pad k n d)"

definition strncpy :: "bytes \<Rightarrow> bytes \<Rightarrow> u64 \<Rightarrow> bytes result" where
  "strncpy dest src n = strncpy_loop 0 src (unat n) dest"

text \<open>\<open>strncmp\<close> too reads a byte of each string before it looks at the count.\<close>

fun strncmp_loop :: "bytes \<Rightarrow> bytes \<Rightarrow> nat \<Rightarrow> int result" where
  "strncmp_loop (a # as) (b # bs) n =
     (if a \<noteq> 0 \<and> b \<noteq> 0 \<and> a = b \<and> n \<noteq> 0 then strncmp_loop as bs (n - 1)
      else Inr (if n = 0 then 0 else uint a - uint b))"
| "strncmp_loop _ _ n = Inl BadAccess"

definition strncmp :: "bytes \<Rightarrow> bytes \<Rightarrow> u64 \<Rightarrow> int result" where
  "strncmp str1 str2 n = strncmp_loop str1 str2 (unat n)"

fun memcpy_loop :: "nat \<Rightarrow> bytes \<Rightarrow> nat \<Rightarrow> bytes \<Rightarrow> bytes result" where
  "memcpy_loop k src 0 d = Inr d"
| "memcpy_loop k [] (Suc n) d = Inl BadAccess"
| "memcpy_loop k (c # cs) (Suc n) d = bind_result (put k c d) (memcpy_loop (Suc k) cs n)"

definition memcpy :: "bytes \<Rightarrow> bytes \<Rightarrow> u64 \<Rightarrow> bytes result" where
  "memcpy dest src n = memcpy_loop 0 src (unat n) dest"

fun memset_loop :: "nat \<Rightarrow> u8 \<Rightarrow> nat \<Rightarrow> bytes \<Rightarrow> bytes result" where
  "memset_loop k c 0 d = Inr d"
| "memset_loop k c (Suc n) d = bind_result (put k c d) (memset_loop (Suc k) c n)"

definition memset :: "bytes \<Rightarrow> u8 \<Rightarrow> u64 \<Rightarrow> bytes result" where
  "memset dest c n = memset_loop 0 c (unat n) dest"

fun memcmp_loop :: "bytes \<Rightarrow> bytes \<Rightarrow> nat \<Rightarrow> int result" where
  "memcmp_loop p1 p2 0 = Inr 0"
| "memcmp_loop (a # as) (b # bs) (Suc n) = (if a \<noteq> b then Inr (uint a - uint b) else memcmp_loop as bs n)"
| "memcmp_loop _ _ (Suc n) = Inl BadAccess"

definition memcmp :: "bytes \<Rightarrow> bytes \<Rightarrow> u64 \<Rightarrow> int result" where
  "memcmp ptr1 ptr2 n = memcmp_loop ptr1 ptr2 (unat n)"

fun memchr_loop :: "bytes \<Rightarrow> u8 \<Rightarrow> nat \<Rightarrow> nat \<Rightarrow> nat option result" where
  "memchr_loop p c 0 k = Inr None"
| "memchr_loop [] c (Suc n) k = Inl BadAccess"
| "memchr_loop (x # xs) c (Suc n) k = (if x = c then Inr (Some k) else memchr_loop xs c n (Suc k))"

definition memchr :: "bytes \<Rightarrow> u8 \<Rightarrow> u64 \<Rightarrow> nat option result" where
  "memchr ptr c n = memchr_loop ptr c (unat n) 0"

text \<open>\<open>m\<close> is what \<open>malloc\<close> returns: nothing, or a block of at least the size asked for.\<close>

definition strdup :: "bytes \<Rightarrow> (u64 \<Rightarrow> bytes option) \<Rightarrow> bytes option result" where
  "strdup str m =
     bind_result (strlen (Some str)) (\<lambda>len. case m (len + 1) of None \<Rightarrow> Inr None
       | Some p \<Rightarrow> bind_result (memcpy p str (len + 1)) (\<lambda>p'. Inr (Some p')))"

definition strndup :: "bytes \<Rightarrow> u64 \<Rightarrow> (u64 \<Rightarrow> bytes option) \<Rightarrow> bytes option result" where
  "strndup str n m =
     bind_result (strnlen (Some str) n) (\<lambda>len. case m (len + 1) of None \<Rightarrow> Inr None
       | Some p \<Rightarrow> bind_result (memcpy p str len) (\<lambda>p'. bind_result (put (unat len) 0 p') (\<lambda>p''. Inr (Some p''))))"

section \<open>Strings\<close>

text \<open>The string a pointer leads to: the bytes in front of the first zero, when there is one.\<close>

definition cstr :: "bytes \<Rightarrow> bytes" where
  "cstr p = takeWhile (\<lambda>c. c \<noteq> 0) p"

definition ended :: "bytes \<Rightarrow> bool" where
  "ended p \<longleftrightarrow> 0 \<in> set p"

lemma ended_simps [simp]: "\<not> ended []" "ended (c # cs) \<longleftrightarrow> c = 0 \<or> ended cs"
  by (auto simp: ended_def)

lemma cstr_simps [simp]: "cstr [] = []" "cstr (c # cs) = (if c = 0 then [] else c # cstr cs)"
  by (simp_all add: cstr_def)

lemma ended_split: "ended p \<longleftrightarrow> (\<exists>r. p = cstr p @ 0 # r)"
  by (induction p) auto

lemma cstr_nz: "0 \<notin> set (cstr p)"
  by (induction p) auto

lemma cstr_append [simp]: "0 \<notin> set xs \<Longrightarrow> cstr (xs @ p) = xs @ cstr p" "0 \<notin> set xs \<Longrightarrow> ended (xs @ p) = ended p"
  by (induction xs) auto

lemma length_cstr: "ended p \<Longrightarrow> length (cstr p) < length p"
  by (induction p) auto

lemma strlen_loop_eq: "strlen_loop p i = (if ended p then Inr (i + of_nat (length (cstr p))) else Inl BadAccess)"
  by (induction p i rule: strlen_loop.induct) (auto simp: add.commute add.left_commute)

lemma strlen_eq: "strlen (Some p) = (if ended p then Inr (of_nat (length (cstr p))) else Inl BadAccess)"
  by (simp add: strlen_def strlen_loop_eq)

lemma strnlen_loop_eq:
  "strnlen_loop p n i = (if ended (take n p) \<or> n \<le> length p then Inr (i + of_nat (length (cstr (take n p)))) else Inl BadAccess)"
  by (induction p n i rule: strnlen_loop.induct) (auto simp: add.commute add.left_commute)

section \<open>Copying\<close>

lemma put_in: "put (length d0) c (d0 @ y # d) = Inr (d0 @ c # d)"
  by (simp add: put_def)

text \<open>A loop that stores byte after byte turns the cells \<open>d0 @ d\<close> behind the first \<open>length d0\<close> into what it copies.\<close>

lemma strcpy_loop_in:
  assumes "ended p" "length (cstr p) < length d"
  shows "strcpy_loop (length d0) p (d0 @ d) = Inr (d0 @ cstr p @ 0 # drop (Suc (length (cstr p))) d)"
  using assms
proof (induction p arbitrary: d0 d)
  case (Cons c cs)
  obtain y d' where d: "d = y # d'" using Cons.prems by (cases d) auto
  show ?case
    using Cons.IH [of d' "d0 @ [c]"] Cons.prems put_in [of d0 c y d'] by (auto simp: d)
qed simp

lemma strcpy_eq:
  assumes "ended src" "length (cstr src) < length dest"
  shows "strcpy dest src = Inr (cstr src @ 0 # drop (Suc (length (cstr src))) dest)"
  using strcpy_loop_in [OF assms, of "[]"] by (simp add: strcpy_def)

lemma strncpy_pad_in: "n \<le> length d \<Longrightarrow> strncpy_pad (length d0) n (d0 @ d) = Inr (d0 @ replicate n 0 @ drop n d)"
proof (induction n arbitrary: d0 d)
  case (Suc n)
  obtain y d' where d: "d = y # d'" using Suc.prems by (cases d) auto
  show ?case using Suc.IH [of d' "d0 @ [0]"] Suc.prems put_in [of d0 0 y d'] by (simp add: d)
qed simp

definition padded :: "nat \<Rightarrow> bytes \<Rightarrow> bytes" where
  "padded n p = take n (cstr p) @ replicate (n - length (cstr p)) 0"

lemma length_padded [simp]: "length (padded n p) = n"
  by (simp add: padded_def)

lemma strncpy_loop_in:
  assumes "ended p \<or> n < length p" "n \<le> length d"
  shows "strncpy_loop (length d0) p n (d0 @ d) = Inr (d0 @ padded n p @ drop n d)"
  using assms
proof (induction p arbitrary: n d0 d)
  case (Cons c cs)
  show ?case
  proof (cases "c \<noteq> 0 \<and> n \<noteq> 0")
    case True
    then obtain m y d' where e: "n = Suc m" "d = y # d'" using Cons.prems(2) by (cases n; cases d) auto
    then show ?thesis using Cons.IH [of m d' "d0 @ [c]"] Cons.prems put_in [of d0 c y d'] True by (auto simp: padded_def)
  next
    case False
    then show ?thesis using strncpy_pad_in [of n d d0] Cons.prems by (auto simp: padded_def)
  qed
qed simp

lemma strncpy_eq:
  assumes "ended src \<or> unat n < length src" "unat n \<le> length dest"
  shows "strncpy dest src n = Inr (padded (unat n) src @ drop (unat n) dest)"
  using strncpy_loop_in [OF assms, of "[]"] by (simp add: strncpy_def)

lemma memcpy_loop_in:
  "n \<le> length src \<Longrightarrow> n \<le> length d \<Longrightarrow> memcpy_loop (length d0) src n (d0 @ d) = Inr (d0 @ take n src @ drop n d)"
proof (induction n arbitrary: src d0 d)
  case (Suc n)
  obtain y d' c cs where d: "d = y # d'" "src = c # cs" using Suc.prems by (cases d; cases src) auto
  show ?case using Suc.IH [of cs d' "d0 @ [c]"] Suc.prems put_in [of d0 c y d'] by (simp add: d)
qed simp

lemma memcpy_eq:
  assumes "unat n \<le> length src" "unat n \<le> length dest"
  shows "memcpy dest src n = Inr (take (unat n) src @ drop (unat n) dest)"
  using memcpy_loop_in [OF assms, of "[]"] by (simp add: memcpy_def)

lemma memset_loop_in: "n \<le> length d \<Longrightarrow> memset_loop (length d0) c n (d0 @ d) = Inr (d0 @ replicate n c @ drop n d)"
proof (induction n arbitrary: d0 d)
  case (Suc n)
  obtain y d' where d: "d = y # d'" using Suc.prems by (cases d) auto
  show ?case using Suc.IH [of d' "d0 @ [c]"] Suc.prems put_in [of d0 c y d'] by (simp add: d)
qed simp

lemma memset_eq: "unat n \<le> length dest \<Longrightarrow> memset dest c n = Inr (replicate (unat n) c @ drop (unat n) dest)"
  using memset_loop_in [of "unat n" dest "[]"] by (simp add: memset_def)

section \<open>Comparing\<close>

lemma uint_same [simp]: "uint a = uint b \<longleftrightarrow> a = b" "uint c = 0 \<longleftrightarrow> c = 0"
  by (simp_all add: word_uint_eq_iff)

lemma strncmp_loop_zero:
  assumes "ended p" "n \<le> length q" "n < length q \<or> length (cstr p) < n"
  shows "strncmp_loop p q n = Inr 0 \<longleftrightarrow> take n (cstr p) = take n (cstr (take n q))"
  using assms
proof (induction p arbitrary: q n)
  case (Cons c cs)
  then obtain b bs where q: "q = b # bs" by (cases q) auto
  show ?case using Cons.IH [of "n - 1" bs] Cons.prems by (cases n) (auto simp: q min_def split: if_splits)
qed simp

lemma strncmp_loop_defined:
  assumes "ended p" "n < length q \<or> length (cstr p) < n" "n \<le> length q"
  shows "\<exists>r. strncmp_loop p q n = Inr r"
  using assms
proof (induction p arbitrary: q n)
  case (Cons c cs)
  then obtain b bs where q: "q = b # bs" by (cases q) auto
  show ?case using Cons.IH [of "n - 1" bs] Cons.prems by (cases n) (auto simp: q)
qed simp

lemma cstr_replicate [simp]: "cstr (replicate k 0) = []"
  by (cases k) simp_all

lemma cstr_padded: "cstr (padded n p) = take n (cstr p)"
proof -
  have "0 \<notin> set (take n (cstr p))" using cstr_nz [of p] by (meson in_set_takeD)
  then show ?thesis unfolding padded_def by (subst cstr_append) simp_all
qed

section \<open>Searching and duplicating\<close>

lemma strchr_loop_eq:
  "strchr_loop p c k = (if c \<in> set (cstr p) then Inr (Some (k + length (takeWhile (\<lambda>x. x \<noteq> c) p)))
     else if \<not> ended p then Inl BadAccess else Inr (if c = 0 then Some (k + length (cstr p)) else None))"
  by (induction p c k rule: strchr_loop.induct) auto

lemma strchrnul_loop_eq:
  "strchrnul_loop p c k = (if c \<in> set (cstr p) then Inr (k + length (takeWhile (\<lambda>x. x \<noteq> c) p))
     else if ended p then Inr (k + length (cstr p)) else Inl BadAccess)"
  by (induction p c k rule: strchrnul_loop.induct) auto

lemma memcmp_loop_zero:
  "n \<le> length p \<Longrightarrow> n \<le> length q \<Longrightarrow> memcmp_loop p q n = Inr 0 \<longleftrightarrow> take n p = take n q"
  by (induction p q n rule: memcmp_loop.induct) auto

lemma memchr_loop_none: "n \<le> length p \<Longrightarrow> memchr_loop p c n k = Inr None \<longleftrightarrow> c \<notin> set (take n p)"
  by (induction p c n k rule: memchr_loop.induct) auto

lemma strdup_copies:
  assumes "ended p" "length p < 2 ^ 64" "m (of_nat (length (cstr p)) + 1) = Some d" "length (cstr p) < length d"
  shows "\<exists>d'. strdup p m = Inr (Some d') \<and> ended d' \<and> cstr d' = cstr p"
proof -
  obtain r where p: "p = cstr p @ 0 # r" using assms(1) ended_split by blast
  have l: "length (cstr p) < length p" using assms(1) by (rule length_cstr)
  have u: "unat (of_nat (length (cstr p)) + 1 :: u64) = Suc (length (cstr p))"
    using l assms(2) by (simp add: unat_add_1_less unat_of_nat_small)
  have t: "take (Suc (length (cstr p))) p = cstr p @ [0]" by (subst (2) p) simp
  have "memcpy d p (of_nat (length (cstr p)) + 1) = Inr (cstr p @ 0 # drop (Suc (length (cstr p))) d)"
    using memcpy_eq [of "of_nat (length (cstr p)) + 1" p d] l assms(4) unfolding u t by simp
  then show ?thesis using assms(1,3) cstr_nz [of p] by (simp add: strdup_def strlen_eq)
qed

section \<open>Names in fixed fields and the order of strings\<close>

text \<open>
  A name that strncpy put into a field of \<open>n\<close> bytes (with at least one readable byte behind it) is found again by
  strncmp with the same bound exactly for the names that agree with it in their first \<open>n\<close> bytes: the padding neither
  hides a name nor makes two of them equal.\<close>

theorem strncpy_then_strncmp:
  assumes "ended name" "ended other" "unat n < length field"
  shows "\<exists>field' r. strncpy field name n = Inr field' \<and> strncmp other field' n = Inr r \<and>
    (r = 0 \<longleftrightarrow> take (unat n) (cstr other) = take (unat n) (cstr name))"
proof -
  let ?f = "padded (unat n) name @ drop (unat n) field"
  have f: "strncpy field name n = Inr ?f" using strncpy_eq [of name n field] assms by simp
  have z: "strncmp_loop other ?f (unat n) = Inr 0 \<longleftrightarrow> take (unat n) (cstr other) = take (unat n) (cstr name)"
    using strncmp_loop_zero [of other "unat n" ?f] assms by (simp add: cstr_padded)
  obtain r where "strncmp_loop other ?f (unat n) = Inr r"
    using strncmp_loop_defined [of other "unat n" ?f] assms by auto
  then show ?thesis using f z by (auto simp: strncmp_def)
qed

theorem strncpy_then_strncmp_witness:
  "\<exists>field' r. strncpy [9,9,9,9] [97,98,0] 3 = Inr field' \<and> strncmp [97,98,0,5] field' 3 = Inr r \<and>
    (r = 0 \<longleftrightarrow> take (unat (3::u64)) (cstr [97,98,0,5]) = take (unat (3::u64)) (cstr [97,98,0]))"
  by (rule strncpy_then_strncmp) (simp_all add: ended_def)

text \<open>
  strcmp of two ended strings returns zero exactly when they are the same and a negative number exactly when the
  first comes before the second in the dictionary order of unsigned bytes.\<close>

theorem strcmp_orders:
  assumes "ended p" "ended q"
  shows "\<exists>r. strcmp p q = Inr r \<and> (r = 0 \<longleftrightarrow> cstr p = cstr q) \<and> (r < 0 \<longleftrightarrow> ord_class.lexordp (cstr p) (cstr q))"
  using assms
proof (induction p q rule: strcmp.induct)
  case (1 a as b bs)
  show ?case
  proof (cases "a \<noteq> 0 \<and> b \<noteq> 0 \<and> a = b")
    case True
    then show ?thesis using 1 by auto
  next
    case False
    have "uint a - uint b < 0 \<longleftrightarrow> a < b" by (simp add: word_less_def)
    moreover have "a = 0 \<Longrightarrow> 0 < b \<longleftrightarrow> b \<noteq> 0" by (rule word_neq_0_conv [symmetric])
    ultimately show ?thesis using False by (auto simp: word_neq_0_conv)
  qed
qed auto

theorem strcmp_orders_witness:
  "\<exists>r. strcmp [97,98,0] [97,200,0] = Inr r \<and> (r = 0 \<longleftrightarrow> cstr [97,98,0] = cstr [97,200,0]) \<and>
    (r < 0 \<longleftrightarrow> ord_class.lexordp (cstr [97,98,0]) (cstr [97,200,0]))"
  by (rule strcmp_orders) (simp_all add: ended_def)

end
