(* ===== verification/Buffer.thy ===== *)
theory Buffer
  imports Hlist Lock Kstring
begin

unbundle bit_operations_syntax

text \<open>
  kernel/dev/disk/buffer.c: the cache of disk blocks. A buffer is known by its address, which it shares with the node
  of the hash table inside it; its block is a field, as the pages that \<open>vmm_allocpv\<close> hands out are cut into pieces that
  are apart from each other. The physical address \<open>phy\<close>, which nothing reads, is left out. A device is what its driver
  makes of it: a number, the size of a sector and the sectors. \<open>c_task\<close> is the running task.
\<close>

section \<open>State\<close>

record disk =
  d_major :: u32
  d_minor :: u32
  d_ssz :: nat
  d_sec :: "nat \<Rightarrow> bytes"

record buffer =
  b_dirty :: bool
  b_idx :: u32
  b_siz :: u64
  b_blk :: bytes
  b_dev :: nat
  b_lock :: lock

record bcache =
  c_bufs :: "nat \<Rightarrow> buffer option"
  c_nbuf :: nat
  c_all :: htable
  c_fre :: "nat list"
  c_lkall :: lock
  c_task :: nat
  c_devs :: "nat \<Rightarrow> disk option"
  c_bjunk :: buffer
  c_hjunk :: hlist_node
  c_mjunk :: "nat \<Rightarrow> nat \<Rightarrow> u8"

definition buf_at :: "nat \<Rightarrow> bcache \<Rightarrow> buffer result" where
  "buf_at i s = (case c_bufs s i of None \<Rightarrow> Inl BadAccess | Some b \<Rightarrow> Inr b)"

definition dev_at :: "nat \<Rightarrow> bcache \<Rightarrow> disk result" where
  "dev_at d s = (case c_devs s d of None \<Rightarrow> Inl BadAccess | Some x \<Rightarrow> Inr x)"

definition set_buf :: "nat \<Rightarrow> buffer \<Rightarrow> bcache \<Rightarrow> bcache" where
  "set_buf i b s = s\<lparr>c_bufs := (c_bufs s)(i \<mapsto> b)\<rparr>"

section \<open>Locks and drivers\<close>

text \<open>
  \<open>lock_acquire\<close> and \<open>lock_release\<close> of a task that runs without interruption. To wait for a lock that another task holds is
  \<open>Hang\<close>: it does not return as long as that task does not run.
\<close>

definition lock_acquire :: "nat \<Rightarrow> lock \<Rightarrow> lock result" where
  "lock_acquire t l =
     (case lock_acquire_enter t l of
        (l1, True) \<Rightarrow> Inr l1
      | (l1, False) \<Rightarrow> bind_result (sema_down t (sema l1)) (\<lambda>(sm, got).
          if got then Inr (lock_acquire_take t (l1\<lparr>sema := sm\<rparr>)) else Inl Hang))"

definition lock_release :: "nat \<Rightarrow> lock \<Rightarrow> lock result" where
  "lock_release t l =
     bind_result (lock_release_enter t l) (\<lambda>(l1, up).
       if up then bind_result (sema_up (sema l1)) (\<lambda>(sm, w). Inr (l1\<lparr>sema := sm\<rparr>)) else Inr l1)"

text \<open>What a driver does: \<open>cnt\<close> sectors from \<open>addr\<close> on into a buffer, and back.\<close>

definition dev_bread :: "disk \<Rightarrow> nat \<Rightarrow> nat \<Rightarrow> bytes" where
  "dev_bread d addr cnt = concat (map (d_sec d) [addr..<addr + cnt])"

definition dev_bwrite :: "disk \<Rightarrow> nat \<Rightarrow> bytes \<Rightarrow> nat \<Rightarrow> disk" where
  "dev_bwrite d addr buf cnt = d\<lparr>d_sec := (\<lambda>k. if addr \<le> k \<and> k < addr + cnt then take (d_ssz d) (drop ((k - addr) * d_ssz d) buf) else d_sec d k)\<rparr>"

section \<open>Operations\<close>

definition hash :: "u32 \<Rightarrow> u32 \<Rightarrow> u64" where
  "hash major idx = ucast (major XOR idx)"

partial_function (option) find_loop :: "nat \<Rightarrow> u32 \<Rightarrow> nat option \<Rightarrow> bcache \<Rightarrow> nat option result option" where
  "find_loop dev idx p s =
     (case p of
        None \<Rightarrow> Some (Inr None)
      | Some i \<Rightarrow> (case bind_result (buf_at i s) (\<lambda>b. bind_result (hnode i (c_all s)) (\<lambda>n. Inr (b, n))) of
          Inl e \<Rightarrow> Some (Inl e)
        | Inr q \<Rightarrow> if b_dev (fst q) = dev \<and> b_idx (fst q) = idx then Some (Inr (Some i))
                  else find_loop dev idx (h_next (snd q)) s))"

definition find_all :: "nat \<Rightarrow> u32 \<Rightarrow> bcache \<Rightarrow> nat option result" where
  "find_all dev idx s =
     bind_result (dev_at dev s) (\<lambda>d.
     bind_result (hfirst (unat (hash (d_major d) idx) mod length (h_tbl (c_all s))) (c_all s)) (\<lambda>p.
     run (find_loop dev idx p s)))"

primrec fill_loop :: "nat \<Rightarrow> u64 \<Rightarrow> bcache \<Rightarrow> bcache" where
  "fill_loop 0 bsiz s = s"
| "fill_loop (Suc k) bsiz s =
     (let i = c_nbuf s
      in fill_loop k bsiz (s\<lparr>c_nbuf := Suc i, c_fre := i # c_fre s,
           c_bufs := (c_bufs s)(i \<mapsto> (c_bjunk s)\<lparr>b_siz := bsiz, b_blk := map (c_mjunk s i) [0..<unat bsiz]\<rparr>),
           c_all := (c_all s)\<lparr>h_nodes := (h_nodes (c_all s))(i \<mapsto> c_hjunk s)\<rparr>\<rparr>))"

definition fill_fre :: "u64 \<Rightarrow> bcache \<Rightarrow> bcache result" where
  "fill_fre bsiz s =
     (if bsiz = 0 then Inl Panic
      else let x = 4096 div unat bsiz in Inr (fill_loop (if x = 0 then 1 else x) bsiz s))"

definition mark_fre :: "nat \<Rightarrow> bcache \<Rightarrow> bcache" where
  "mark_fre i s = s\<lparr>c_fre := i # c_fre s\<rparr>"

text \<open>The walk over the free list.\<close>

primrec fre_walk :: "u64 \<Rightarrow> nat list \<Rightarrow> bcache \<Rightarrow> nat option result" where
  "fre_walk bsiz [] s = Inr None"
| "fre_walk bsiz (i # is) s = bind_result (buf_at i s) (\<lambda>b. if b_siz b = bsiz then Inr (Some i) else fre_walk bsiz is s)"

partial_function (option) find_fre :: "u64 \<Rightarrow> bcache \<Rightarrow> (nat \<times> bcache) result option" where
  "find_fre bsiz s =
     (case bind_result (if c_fre s = [] then fill_fre bsiz s else Inr s) (\<lambda>s1.
             bind_result (fre_walk bsiz (c_fre s1) s1) (\<lambda>r. case r of
               Some i \<Rightarrow> Inr (Some i, s1\<lparr>c_fre := remove1 i (c_fre s1)\<rparr>)
             | None \<Rightarrow> bind_result (fill_fre bsiz s1) (\<lambda>s2. Inr (None, s2)))) of
        Inl e \<Rightarrow> Some (Inl e)
      | Inr q \<Rightarrow> (case fst q of Some i \<Rightarrow> Some (Inr (i, snd q)) | None \<Rightarrow> find_fre bsiz (snd q)))"

text \<open>The block on its way from the disk and to it: \<open>idx * scale\<close> is computed in 32 bits.\<close>

definition load_buf :: "nat \<Rightarrow> u64 \<Rightarrow> u32 \<Rightarrow> nat \<Rightarrow> bcache \<Rightarrow> bcache result" where
  "load_buf dev siz idx i s =
     bind_result (buf_at i s) (\<lambda>b. bind_result (dev_at dev s) (\<lambda>d.
       if d_ssz d = 0 then Inl Panic
       else let cnt = unat siz div d_ssz d;
                data = dev_bread d (unat (idx * of_nat cnt)) cnt;
                b1 = b\<lparr>b_dev := dev, b_idx := idx, b_dirty := False, b_lock := lock_init, b_blk := data @ drop (length data) (b_blk b)\<rparr>
            in bind_result (htable_add i (hash (d_major d) idx) (c_all s)) (\<lambda>t. Inr (set_buf i b1 (s\<lparr>c_all := t\<rparr>)))))"

definition bread_find :: "nat \<Rightarrow> u64 \<Rightarrow> u32 \<Rightarrow> bcache \<Rightarrow> (nat \<times> bcache) result" where
  "bread_find dev siz idx s =
     bind_result (find_all dev idx s) (\<lambda>r. case r of
       Some i \<Rightarrow> Inr (i, s)
     | None \<Rightarrow> bind_result (run (find_fre siz s)) (\<lambda>(i, s1). bind_result (load_buf dev siz idx i s1) (\<lambda>s2. Inr (i, s2))))"

text \<open>\<open>bread\<close> up to the lock of the block, which is taken while the lock of the cache is held, and the rest of it.\<close>

definition bread_enter :: "nat \<Rightarrow> u64 \<Rightarrow> u32 \<Rightarrow> bcache \<Rightarrow> (nat \<times> bcache) result" where
  "bread_enter dev siz idx s =
     bind_result (lock_acquire (c_task s) (c_lkall s)) (\<lambda>l. bread_find dev siz idx (s\<lparr>c_lkall := l\<rparr>))"

definition bread_lock :: "nat \<Rightarrow> bcache \<Rightarrow> bcache result" where
  "bread_lock i s =
     bind_result (buf_at i s) (\<lambda>b.
     bind_result (lock_acquire (c_task s) (b_lock b)) (\<lambda>bl.
     bind_result (lock_release (c_task s) (c_lkall s)) (\<lambda>l.
     Inr (set_buf i (b\<lparr>b_lock := bl\<rparr>) (s\<lparr>c_lkall := l\<rparr>)))))"

definition bread :: "nat \<Rightarrow> u64 \<Rightarrow> u32 \<Rightarrow> bcache \<Rightarrow> (nat \<times> bcache) result" where
  "bread dev siz idx s = bind_result (bread_enter dev siz idx s) (\<lambda>(i, s1). bind_result (bread_lock i s1) (\<lambda>s2. Inr (i, s2)))"

definition bdirty :: "nat \<Rightarrow> bool \<Rightarrow> bcache \<Rightarrow> bcache result" where
  "bdirty i d s = bind_result (buf_at i s) (\<lambda>b. Inr (set_buf i (b\<lparr>b_dirty := d\<rparr>) s))"

definition bwrite :: "nat \<Rightarrow> bcache \<Rightarrow> bcache result" where
  "bwrite i s =
     bind_result (buf_at i s) (\<lambda>b.
       if \<not> b_dirty b then Inr s
       else bind_result (dev_at (b_dev b) s) (\<lambda>d.
         if d_ssz d = 0 then Inl Panic
         else let cnt = unat (b_siz b) div d_ssz d
              in Inr (s\<lparr>c_devs := (c_devs s)(b_dev b \<mapsto> dev_bwrite d (unat (b_idx b * of_nat cnt)) (b_blk b) cnt)\<rparr>)))"

definition brelse :: "nat \<Rightarrow> bcache \<Rightarrow> bcache result" where
  "brelse i s =
     bind_result (bwrite i s) (\<lambda>s1.
     bind_result (buf_at i s1) (\<lambda>b.
     bind_result (lock_release (c_task s1) (b_lock b)) (\<lambda>l. Inr (set_buf i (b\<lparr>b_lock := l\<rparr>) s1))))"

definition buffer_init :: "bcache \<Rightarrow> bcache" where
  "buffer_init s = s\<lparr>c_fre := [], c_lkall := lock_init\<rparr>"

text \<open>What a client reads in the block of a buffer it holds, and what it stores there.\<close>

definition bget :: "nat \<Rightarrow> bcache \<Rightarrow> bytes result" where
  "bget i s = bind_result (buf_at i s) (\<lambda>b. Inr (b_blk b))"

definition bput :: "nat \<Rightarrow> bytes \<Rightarrow> bcache \<Rightarrow> bcache result" where
  "bput i d s = bind_result (buf_at i s) (\<lambda>b. Inr (set_buf i (b\<lparr>b_blk := d\<rparr>) s))"

section \<open>The cache as a map of blocks\<close>

text \<open>The lock of a buffer that task \<open>t\<close> has taken \<open>n\<close> times.\<close>

definition lockst :: "nat \<Rightarrow> nat \<Rightarrow> lock" where
  "lockst t n = (if n = 0 then lock_init else \<lparr>holder = Some t, hrepeat = of_nat n, sema = \<lparr>val = 0, waiter = []\<rparr>\<rparr>)"

lemma acquire_lockst: "lock_acquire t (lockst t n) = Inr (lockst t (Suc n))"
  by (auto simp: lock_acquire_def lockst_def lock_init_def lock_acquire_enter_def sema_init_def sema_down_def lock_acquire_take_def Let_def add.commute)

lemma release_lockst: "Suc n < 2 ^ 32 \<Longrightarrow> lock_release t (lockst t (Suc n)) = Inr (lockst t n)"
proof -
  assume n: "Suc n < 2 ^ 32"
  have "unat (1 + of_nat n :: u32) = Suc n" using n unat_of_nat_small [of "Suc n", where 'a = 32] by simp
  then have "(1 + of_nat n :: u32) > 1 \<longleftrightarrow> n \<noteq> 0" by (simp add: word_less_nat_alt)
  then show ?thesis
    by (auto simp: lock_release_def lockst_def lock_init_def lock_release_enter_def sema_init_def sema_up_def Let_def)
qed

text \<open>How a device is divided into blocks of the size \<open>B\<close>.\<close>

definition per_block :: "u64 \<Rightarrow> disk \<Rightarrow> nat" where
  "per_block B d = unat B div d_ssz d"

definition disk_blk :: "u64 \<Rightarrow> disk \<Rightarrow> u32 \<Rightarrow> bytes" where
  "disk_blk B d idx = dev_bread d (unat idx * per_block B d) (per_block B d)"

definition dev_good :: "u64 \<Rightarrow> disk \<Rightarrow> bool" where
  "dev_good B d \<longleftrightarrow> B \<noteq> 0 \<and> 0 < d_ssz d \<and> d_ssz d dvd unat B \<and> (\<forall>k. length (d_sec d k) = d_ssz d)"

text \<open>The blocks whose first sector has a number of 32 bits.\<close>

definition in_reach :: "u64 \<Rightarrow> disk \<Rightarrow> u32 \<Rightarrow> bool" where
  "in_reach B d idx \<longleftrightarrow> unat idx * per_block B d < 2 ^ 32"

definition bucket :: "disk \<Rightarrow> u32 \<Rightarrow> bcache \<Rightarrow> nat" where
  "bucket d idx s = unat (hash (d_major d) idx) mod length (h_tbl (c_all s))"

text \<open>
  \<open>buf_ok\<close>: the buffer of a block that is held \<open>n\<close> times. Unless it is held and dirty it agrees with the disk.
\<close>

definition buf_ok :: "nat \<Rightarrow> u64 \<Rightarrow> disk \<Rightarrow> nat \<Rightarrow> u32 \<Rightarrow> nat \<Rightarrow> buffer \<Rightarrow> bool" where
  "buf_ok t B d dev idx n b \<longleftrightarrow> b_dev b = dev \<and> b_idx b = idx \<and> b_siz b = B \<and> length (b_blk b) = unat B \<and>
     b_lock b = lockst t n \<and> n < 2 ^ 31 \<and> in_reach B d idx \<and> (\<not> b_dirty b \<or> n = 0 \<longrightarrow> b_blk b = disk_blk B d idx)"

definition tab_ok :: "bcache \<Rightarrow> (nat \<times> u32 \<Rightarrow> nat option) \<Rightarrow> (nat \<Rightarrow> nat list) \<Rightarrow> bool" where
  "tab_ok s C L \<longleftrightarrow> htab (c_all s) L \<and> h_tbl (c_all s) \<noteq> [] \<and>
     (\<forall>h i. h < length (h_tbl (c_all s)) \<longrightarrow>
        i \<in> set (L h) \<longleftrightarrow> (\<exists>dev idx d. C (dev, idx) = Some i \<and> c_devs s dev = Some d \<and> bucket d idx s = h))"

definition bufs_ok :: "(nat \<Rightarrow> u64) \<Rightarrow> bcache \<Rightarrow> (nat \<times> u32 \<Rightarrow> nat option) \<Rightarrow> (nat \<Rightarrow> nat) \<Rightarrow> bool" where
  "bufs_ok B s C H \<longleftrightarrow> (\<forall>dev idx i. C (dev, idx) = Some i \<longrightarrow> i < c_nbuf s \<and>
     (\<exists>b d. c_bufs s i = Some b \<and> c_devs s dev = Some d \<and> buf_ok (c_task s) (B dev) d dev idx (H i) b))"

definition fre_ok :: "bcache \<Rightarrow> (nat \<times> u32 \<Rightarrow> nat option) \<Rightarrow> bool" where
  "fre_ok s C \<longleftrightarrow> distinct (c_fre s) \<and> (\<forall>i\<in>set (c_fre s). i < c_nbuf s \<and> h_nodes (c_all s) i \<noteq> None \<and> i \<notin> ran C \<and>
     (\<exists>b. c_bufs s i = Some b \<and> length (b_blk b) = unat (b_siz b)))"

definition cache :: "(nat \<Rightarrow> u64) \<Rightarrow> bcache \<Rightarrow> (nat \<times> u32 \<Rightarrow> nat option) \<Rightarrow> (nat \<Rightarrow> nat) \<Rightarrow> bool" where
  "cache B s C H \<longleftrightarrow> (\<exists>L. tab_ok s C L) \<and> bufs_ok B s C H \<and> fre_ok s C \<and>
     (\<forall>dev d. c_devs s dev = Some d \<longrightarrow> dev_good (B dev) d) \<and> (\<forall>i. H i \<noteq> 0 \<longrightarrow> i \<in> ran C)"

text \<open>What a client sees in a block: the buffer if there is one, or else the disk.\<close>

definition bview :: "u64 \<Rightarrow> bcache \<Rightarrow> nat \<Rightarrow> u32 \<Rightarrow> bytes" where
  "bview B s dev idx = (case find_all dev idx s of
     Inr (Some i) \<Rightarrow> b_blk (the (c_bufs s i))
   | _ \<Rightarrow> disk_blk B (the (c_devs s dev)) idx)"

section \<open>Finding a block\<close>

lemma find_loop_chain:
  assumes "hchain (c_all s) q p xs" "\<forall>x\<in>set xs. c_bufs s x \<noteq> None"
  shows "find_loop dev idx p s = Some (Inr (find (\<lambda>i. b_dev (the (c_bufs s i)) = dev \<and> b_idx (the (c_bufs s i)) = idx) xs))"
  using assms
proof (induction xs arbitrary: q p)
  case Nil
  then show ?case by (simp add: find_loop.simps)
next
  case (Cons x xs)
  then obtain n b where n: "p = Some x" "h_nodes (c_all s) x = Some n" "hchain (c_all s) (HNext x) (h_next n) xs" "c_bufs s x = Some b" by auto
  then show ?case using Cons.IH [OF n(3)] Cons.prems(2) by (subst find_loop.simps) (simp add: buf_at_def hnode_def)
qed

lemma cache_buf:
  assumes "cache B s C H" "C (dev, idx) = Some i"
  obtains b d where "c_bufs s i = Some b" "c_devs s dev = Some d" "buf_ok (c_task s) (B dev) d dev idx (H i) b" "i < c_nbuf s"
  using assms unfolding cache_def bufs_ok_def by blast

lemma cache_key:
  assumes "cache B s C H" "C (dev, idx) = Some i"
  shows "c_bufs s i \<noteq> None \<and> b_dev (the (c_bufs s i)) = dev \<and> b_idx (the (c_bufs s i)) = idx"
  by (rule cache_buf [OF assms]) (simp add: buf_ok_def)

lemma cache_inj: "cache B s C H \<Longrightarrow> C (dev, idx) = Some i \<Longrightarrow> C (dev', idx') = Some i \<Longrightarrow> dev' = dev \<and> idx' = idx"
  using cache_key by metis

lemma find_all_cache:
  assumes c: "cache B s C H" and d: "c_devs s dev = Some d"
  shows "find_all dev idx s = Inr (C (dev, idx))"
proof -
  obtain L where L: "tab_ok s C L" using c by (auto simp: cache_def)
  define h where "h = bucket d idx s"
  have h: "h < length (h_tbl (c_all s))" using L by (simp add: h_def bucket_def tab_ok_def)
  have m: "i \<in> set (L h) \<longleftrightarrow> (\<exists>dev idx d. C (dev, idx) = Some i \<and> c_devs s dev = Some d \<and> bucket d idx s = h)" for i
    using L h by (simp add: tab_ok_def)
  have ch: "hchain (c_all s) (HHead h) (h_tbl (c_all s) ! h) (L h)" using L h by (simp add: tab_ok_def htab_def)
  have bufs: "c_bufs s i \<noteq> None" if im: "i \<in> set (L h)" for i
  proof -
    obtain dev' idx' where "C (dev', idx') = Some i" using m [of i] im by blast
    then show ?thesis by (rule cache_buf [OF c]) simp
  qed
  let ?P = "\<lambda>i. b_dev (the (c_bufs s i)) = dev \<and> b_idx (the (c_bufs s i)) = idx"
  have P: "?P i \<longleftrightarrow> C (dev, idx) = Some i" if im: "i \<in> set (L h)" for i
  proof -
    obtain dev' idx' where 1: "C (dev', idx') = Some i" using m [of i] im by blast
    then have "b_dev (the (c_bufs s i)) = dev'" "b_idx (the (c_bufs s i)) = idx'" using cache_key [OF c 1] by simp_all
    then show ?thesis using 1 cache_inj [OF c 1, of dev idx] by auto
  qed
  have "find ?P (L h) = C (dev, idx)"
  proof (cases "find ?P (L h)")
    case None
    then have "i \<in> set (L h) \<Longrightarrow> C (dev, idx) \<noteq> Some i" for i using P by (auto simp: find_None_iff)
    moreover have "C (dev, idx) = Some i \<Longrightarrow> i \<in> set (L h)" for i using m [of i] d h_def by blast
    ultimately show ?thesis using None by (metis option.exhaust)
  next
    case (Some i)
    then have "i \<in> set (L h)" "?P i" by (auto simp: find_Some_iff)
    then show ?thesis using P Some by simp
  qed
  then show ?thesis
    using find_loop_chain [OF ch] bufs h d by (simp add: find_all_def dev_at_def hfirst_def h_def bucket_def)
qed

lemma bview_cached:
  assumes "cache B s C H" "C (dev, idx) = Some i"
  shows "bview b s dev idx = b_blk (the (c_bufs s i))"
proof -
  obtain d where "c_devs s dev = Some d" using cache_buf [OF assms] by blast
  then show ?thesis using find_all_cache [OF assms(1)] assms(2) by (simp add: bview_def)
qed

lemma bview_disk:
  assumes "cache B s C H" "C (dev, idx) = None" "c_devs s dev = Some d"
  shows "bview b s dev idx = disk_blk b d idx"
  using find_all_cache [OF assms(1,3)] assms(2,3) by (simp add: bview_def)

section \<open>Fresh buffers\<close>

text \<open>What stays while buffers are made: the disks, the locks and the buffers in use.\<close>

definition kept :: "(nat \<times> u32 \<Rightarrow> nat option) \<Rightarrow> bcache \<Rightarrow> bcache \<Rightarrow> bool" where
  "kept C s s' \<longleftrightarrow> c_devs s' = c_devs s \<and> c_task s' = c_task s \<and> c_lkall s' = c_lkall s \<and> (\<forall>i\<in>ran C. c_bufs s' i = c_bufs s i)"

lemma kept_refl [simp]: "kept C s s"
  by (simp add: kept_def)

lemma kept_trans: "kept C s s' \<Longrightarrow> kept C s' s'' \<Longrightarrow> kept C s s''"
  by (simp add: kept_def)

lemma bufs_ok_kept: "bufs_ok B s C H \<Longrightarrow> kept C s s' \<Longrightarrow> c_nbuf s \<le> c_nbuf s' \<Longrightarrow> bufs_ok B s' C H"
  unfolding bufs_ok_def kept_def by (metis ranI order_less_le_trans)

lemma tab_ok_member:
  assumes "tab_ok s C L" "h < length (h_tbl (c_all s))" "i \<in> set (L h)"
  shows "i \<in> ran C"
  using assms unfolding tab_ok_def by (meson ranI)

lemma htab_nodes:
  assumes "htab s L" "h_tbl s' = h_tbl s" "\<And>h i. h < length (h_tbl s) \<Longrightarrow> i \<in> set (L h) \<Longrightarrow> h_nodes s' i = h_nodes s i"
  shows "htab s' L"
  using assms hchain_cong [of "L h" s' s for h] by (auto simp: htab_def)

lemma fill_step_ok:
  assumes c: "cache B s C H" and s': "s' = s\<lparr>c_nbuf := Suc (c_nbuf s), c_fre := c_nbuf s # c_fre s,
    c_bufs := (c_bufs s)(c_nbuf s \<mapsto> (c_bjunk s)\<lparr>b_siz := bsiz, b_blk := map (c_mjunk s (c_nbuf s)) [0..<unat bsiz]\<rparr>),
    c_all := (c_all s)\<lparr>h_nodes := (h_nodes (c_all s))(c_nbuf s \<mapsto> c_hjunk s)\<rparr>\<rparr>"
  shows "cache B s' C H" "kept C s s'"
proof -
  obtain L where L: "tab_ok s C L" using c by (auto simp: cache_def)
  have cs: "bufs_ok B s C H" "fre_ok s C" "\<forall>dev d. c_devs s dev = Some d \<longrightarrow> dev_good (B dev) d" "\<forall>i. H i \<noteq> 0 \<longrightarrow> i \<in> ran C"
    using c by (simp_all add: cache_def)
  have new: "c_nbuf s \<notin> ran C" "c_nbuf s \<notin> set (c_fre s)" using c by (auto simp: cache_def bufs_ok_def fre_ok_def ran_def)
  show k: "kept C s s'" using new(1) unfolding s' by (auto simp: kept_def)
  have "htab (c_all s') L"
  proof (rule htab_nodes)
    show "htab (c_all s) L" using L by (simp add: tab_ok_def)
    show "h_tbl (c_all s') = h_tbl (c_all s)" by (simp add: s')
    fix h i assume "h < length (h_tbl (c_all s))" "i \<in> set (L h)"
    then have "i \<noteq> c_nbuf s" using tab_ok_member [OF L] new(1) by blast
    then show "h_nodes (c_all s') i = h_nodes (c_all s) i" by (simp add: s')
  qed
  moreover have "h_tbl (c_all s') = h_tbl (c_all s)" "c_devs s' = c_devs s" "bucket d idx s' = bucket d idx s" for d idx
    by (simp_all add: s' bucket_def)
  ultimately have "tab_ok s' C L" using L by (simp add: tab_ok_def)
  moreover have "bufs_ok B s' C H" using bufs_ok_kept [OF cs(1) k] by (simp add: s')
  moreover have "fre_ok s' C" using cs(2) new unfolding s' by (auto simp: fre_ok_def less_Suc_eq)
  moreover have "c_devs s' = c_devs s" by (simp add: s')
  ultimately show "cache B s' C H" using cs(3,4) unfolding cache_def by auto
qed

lemma fill_loop_ok:
  assumes "cache B s C H"
  shows "cache B (fill_loop k bsiz s) C H \<and> kept C s (fill_loop k bsiz s) \<and>
    (\<exists>js. c_fre (fill_loop k bsiz s) = js @ c_fre s \<and> length js = k) \<and>
    (\<forall>i<c_nbuf s. c_bufs (fill_loop k bsiz s) i = c_bufs s i) \<and> (k \<noteq> 0 \<longrightarrow> (\<exists>i\<in>set (c_fre (fill_loop k bsiz s)). b_siz (the (c_bufs (fill_loop k bsiz s) i)) = bsiz))"
  using assms
proof (induction k arbitrary: s)
  case (Suc k)
  define s' where "s' = s\<lparr>c_nbuf := Suc (c_nbuf s), c_fre := c_nbuf s # c_fre s,
    c_bufs := (c_bufs s)(c_nbuf s \<mapsto> (c_bjunk s)\<lparr>b_siz := bsiz, b_blk := map (c_mjunk s (c_nbuf s)) [0..<unat bsiz]\<rparr>),
    c_all := (c_all s)\<lparr>h_nodes := (h_nodes (c_all s))(c_nbuf s \<mapsto> c_hjunk s)\<rparr>\<rparr>"
  note 1 = fill_step_ok [OF Suc.prems s'_def]
  have f: "fill_loop (Suc k) bsiz s = fill_loop k bsiz s'" by (simp add: s'_def Let_def)
  have s: "c_fre s' = c_nbuf s # c_fre s" "c_nbuf s' = Suc (c_nbuf s)" "b_siz (the (c_bufs s' (c_nbuf s))) = bsiz"
    "\<forall>i<c_nbuf s. c_bufs s' i = c_bufs s i" by (simp_all add: s'_def)
  obtain js where IH: "cache B (fill_loop k bsiz s') C H" "kept C s' (fill_loop k bsiz s')" "c_fre (fill_loop k bsiz s') = js @ c_fre s'"
    "length js = k" "\<forall>i<c_nbuf s'. c_bufs (fill_loop k bsiz s') i = c_bufs s' i" using Suc.IH [OF 1(1)] by blast
  have "c_nbuf s \<in> set (c_fre (fill_loop k bsiz s'))" "b_siz (the (c_bufs (fill_loop k bsiz s') (c_nbuf s))) = bsiz"
    using IH(3,5) s by simp_all
  then show ?case unfolding f using IH s kept_trans [OF 1(2) IH(2)] by (auto intro: exI [of _ "js @ [c_nbuf s]"])
qed simp

lemma fill_fre_ok:
  assumes "cache B s C H" "bsiz \<noteq> 0"
  shows "\<exists>s'. fill_fre bsiz s = Inr s' \<and> cache B s' C H \<and> kept C s s' \<and> c_fre s' \<noteq> [] \<and> (\<exists>i\<in>set (c_fre s'). b_siz (the (c_bufs s' i)) = bsiz)"
proof -
  define k where "k = (if 4096 div unat bsiz = 0 then 1 else 4096 div unat bsiz)"
  have "fill_fre bsiz s = Inr (fill_loop k bsiz s)" using assms(2) by (simp add: fill_fre_def k_def Let_def)
  moreover have "k \<noteq> 0" by (simp add: k_def)
  ultimately show ?thesis using fill_loop_ok [OF assms(1), of k bsiz] by fastforce
qed

lemma fre_walk_eq:
  assumes "\<forall>i\<in>set js. c_bufs s i \<noteq> None"
  shows "fre_walk bsiz js s = Inr (find (\<lambda>i. b_siz (the (c_bufs s i)) = bsiz) js)"
  using assms by (induction js) (auto simp: buf_at_def)

text \<open>Taking a buffer out of the free list.\<close>

lemma take_fre_ok:
  assumes c: "cache B s C H" and i: "i \<in> set (c_fre s)"
  shows "cache B (s\<lparr>c_fre := remove1 i (c_fre s)\<rparr>) C H" "i \<notin> set (remove1 i (c_fre s))"
proof -
  have d: "distinct (c_fre s)" using c by (simp add: cache_def fre_ok_def)
  then have "set (remove1 i (c_fre s)) \<subseteq> set (c_fre s)" "i \<notin> set (remove1 i (c_fre s))" by auto
  then show "cache B (s\<lparr>c_fre := remove1 i (c_fre s)\<rparr>) C H" "i \<notin> set (remove1 i (c_fre s))"
    using c d by (auto simp: cache_def fre_ok_def tab_ok_def bufs_ok_def bucket_def)
qed

text \<open>A buffer that was taken out of the free list and is not yet in the table.\<close>

definition spare :: "nat \<Rightarrow> u64 \<Rightarrow> bcache \<Rightarrow> (nat \<times> u32 \<Rightarrow> nat option) \<Rightarrow> bool" where
  "spare i bsiz s C \<longleftrightarrow> i \<notin> ran C \<and> i \<notin> set (c_fre s) \<and> i < c_nbuf s \<and> h_nodes (c_all s) i \<noteq> None \<and>
     (\<exists>b. c_bufs s i = Some b \<and> b_siz b = bsiz \<and> length (b_blk b) = unat bsiz)"

lemma find_fre_hit:
  assumes c: "cache B s C H" and e: "\<exists>i\<in>set (c_fre s). b_siz (the (c_bufs s i)) = bsiz"
  shows "\<exists>i s'. find_fre bsiz s = Some (Inr (i, s')) \<and> cache B s' C H \<and> kept C s s' \<and> spare i bsiz s' C"
proof -
  have f: "fre_ok s C" using c by (simp add: cache_def)
  then have n: "\<forall>i\<in>set (c_fre s). c_bufs s i \<noteq> None" by (auto simp: fre_ok_def)
  obtain i where i: "find (\<lambda>i. b_siz (the (c_bufs s i)) = bsiz) (c_fre s) = Some i"
    using e find_None_iff [of "\<lambda>i. b_siz (the (c_bufs s i)) = bsiz" "c_fre s"] by (metis option.exhaust)
  then have m: "i \<in> set (c_fre s)" "b_siz (the (c_bufs s i)) = bsiz" by (auto simp: find_Some_iff)
  let ?s = "s\<lparr>c_fre := remove1 i (c_fre s)\<rparr>"
  have "find_fre bsiz s = Some (Inr (i, ?s))" using fre_walk_eq [OF n, of bsiz] i m(1) by (subst find_fre.simps) auto
  moreover have "spare i bsiz ?s C" using f m take_fre_ok(2) [OF c m(1)] by (auto simp: spare_def fre_ok_def)
  moreover have "kept C s ?s" by (simp add: kept_def)
  ultimately show ?thesis using take_fre_ok(1) [OF c m(1)] by blast
qed

text \<open>\<open>find_fre\<close> returns: after at most one extension of the free list the search succeeds.\<close>

lemma find_fre_ok:
  assumes c: "cache B s C H" and b: "bsiz \<noteq> 0"
  shows "\<exists>i s'. find_fre bsiz s = Some (Inr (i, s')) \<and> cache B s' C H \<and> kept C s s' \<and> spare i bsiz s' C"
proof (cases "\<exists>i\<in>set (c_fre s). b_siz (the (c_bufs s i)) = bsiz")
  case True
  then show ?thesis using find_fre_hit [OF c] by simp
next
  case False
  obtain s1 where 1: "fill_fre bsiz s = Inr s1" "cache B s1 C H" "kept C s s1" "c_fre s1 \<noteq> []" "\<exists>i\<in>set (c_fre s1). b_siz (the (c_bufs s1 i)) = bsiz"
    using fill_fre_ok [OF c b] by blast
  obtain i s' where 2: "find_fre bsiz s1 = Some (Inr (i, s'))" "cache B s' C H" "kept C s1 s'" "spare i bsiz s' C"
    using find_fre_hit [OF 1(2,5)] by blast
  have n: "\<forall>i\<in>set (c_fre s). c_bufs s i \<noteq> None" using c by (auto simp: cache_def fre_ok_def)
  have "find_fre bsiz s = find_fre bsiz s1"
  proof (cases "c_fre s = []")
    case True
    then show ?thesis using 1(1,4) by (simp add: find_fre.simps [of bsiz s] find_fre.simps [of bsiz s1])
  next
    case F: False
    have "find (\<lambda>i. b_siz (the (c_bufs s i)) = bsiz) (c_fre s) = None" using False by (simp add: find_None_iff)
    then show ?thesis using F 1(1) fre_walk_eq [OF n, of bsiz] by (simp add: find_fre.simps [of bsiz s])
  qed
  then show ?thesis using 2 kept_trans [OF 1(3) 2(3)] by auto
qed

section \<open>Loading a block\<close>

lemma unat_mult_cnt: "unat (idx * of_nat k :: u32) = (unat idx * k) mod 2 ^ 32"
  by (simp add: unat_word_ariths unat_of_nat mod_mult_right_eq)

lemma in_reach_addr: "in_reach B d idx \<Longrightarrow> unat (idx * of_nat (unat B div d_ssz d)) = unat idx * per_block B d"
  by (simp add: unat_mult_cnt in_reach_def per_block_def)

lemma length_dev_bread: "(\<And>k. length (d_sec d k) = n) \<Longrightarrow> length (dev_bread d addr cnt) = cnt * n"
  by (induction cnt) (simp_all add: dev_bread_def)

lemma length_disk_blk: "dev_good B d \<Longrightarrow> length (disk_blk B d idx) = unat B"
  using length_dev_bread [of d "d_ssz d"] by (simp add: disk_blk_def dev_good_def per_block_def)

lemma tab_ok_add:
  assumes t: "tab_ok s C L" and i: "i \<notin> ran C" "h_nodes (c_all s) i \<noteq> None" and d: "c_devs s dev = Some d" "C (dev, idx) = None"
  shows "\<exists>t L'. htable_add i (hash (d_major d) idx) (c_all s) = Inr t \<and>
    (\<forall>s'. c_all s' = t \<and> c_devs s' = c_devs s \<longrightarrow> tab_ok s' (C((dev, idx) \<mapsto> i)) L')"
proof -
  define h where "h = bucket d idx s"
  have T: "htab (c_all s) L" "h_tbl (c_all s) \<noteq> []" using t by (simp_all add: tab_ok_def)
  then have h: "h < length (h_tbl (c_all s))" by (simp add: h_def bucket_def)
  have n: "i \<notin> set (L k)" if "k < length (h_tbl (c_all s))" for k using tab_ok_member [OF t that] i(1) by blast
  obtain t' where t': "hlist_add h i (c_all s) = Inr t'" "htab t' (L(h := i # L h))" "length (h_tbl t') = length (h_tbl (c_all s))"
    using htab_add [OF T(1) h n i(2)] by blast
  have "tab_ok s' (C((dev, idx) \<mapsto> i)) (L(h := i # L h))" if a: "c_all s' = t'" "c_devs s' = c_devs s" for s'
  proof -
    have bk: "bucket d' idx' s' = bucket d' idx' s" for d' idx' using a t'(3) by (simp add: bucket_def)
    have "j \<in> set ((L(h := i # L h)) k) \<longleftrightarrow>
        (\<exists>dev' idx' d'. (C((dev, idx) \<mapsto> i)) (dev', idx') = Some j \<and> c_devs s dev' = Some d' \<and> bucket d' idx' s = k)"
      if k: "k < length (h_tbl (c_all s))" for j k
    proof -
      have m: "j \<in> set (L k) \<longleftrightarrow> (\<exists>dev' idx' d'. C (dev', idx') = Some j \<and> c_devs s dev' = Some d' \<and> bucket d' idx' s = k)"
        using t k by (simp add: tab_ok_def)
      have "(\<exists>dev' idx' d'. (C((dev, idx) \<mapsto> i)) (dev', idx') = Some j \<and> c_devs s dev' = Some d' \<and> bucket d' idx' s = k) \<longleftrightarrow>
          j = i \<and> k = h \<or> j \<in> set (L k)"
        (is "?E \<longleftrightarrow> _")
      proof
        assume ?E
        then show "j = i \<and> k = h \<or> j \<in> set (L k)" unfolding m using d h_def by (auto split: if_splits)
      next
        assume "j = i \<and> k = h \<or> j \<in> set (L k)"
        then show ?E
        proof
          assume "j \<in> set (L k)"
          then obtain dev' idx' d' where o: "C (dev', idx') = Some j" "c_devs s dev' = Some d'" "bucket d' idx' s = k" using m by blast
          then have "(dev', idx') \<noteq> (dev, idx)" using d(2) by auto
          then show ?E using o by (intro exI [of _ dev'] exI [of _ idx'] exI [of _ d']) auto
        qed (use d(1) h_def in auto)
      qed
      then show ?thesis by auto
    qed
    then show ?thesis unfolding tab_ok_def using a t'(2,3) T(2) bk by (auto simp del: fun_upd_apply)
  qed
  then show ?thesis using t'(1) by (auto simp: htable_add_def h_def bucket_def)
qed

lemma load_buf_ok:
  assumes c: "cache B s C H" and d: "c_devs s dev = Some d" "C (dev, idx) = None" "in_reach (B dev) d idx" and i: "spare i (B dev) s C"
  shows "\<exists>s' b. load_buf dev (B dev) idx i s = Inr s' \<and> cache B s' (C((dev, idx) \<mapsto> i)) H \<and> kept C s s' \<and>
    c_bufs s' i = Some b \<and> b_blk b = disk_blk (B dev) d idx"
proof -
  obtain L where L: "tab_ok s C L" using c by (auto simp: cache_def)
  have cs: "bufs_ok B s C H" "fre_ok s C" "\<forall>dev d. c_devs s dev = Some d \<longrightarrow> dev_good (B dev) d" "\<forall>i. H i \<noteq> 0 \<longrightarrow> i \<in> ran C"
    using c by (simp_all add: cache_def)
  have g: "dev_good (B dev) d" using cs(3) d(1) by simp
  obtain b where b: "c_bufs s i = Some b" "b_siz b = B dev" "length (b_blk b) = unat (B dev)" and i': "i \<notin> ran C" "i \<notin> set (c_fre s)" "i < c_nbuf s"
    "h_nodes (c_all s) i \<noteq> None" using i by (auto simp: spare_def)
  obtain t L' where t: "htable_add i (hash (d_major d) idx) (c_all s) = Inr t"
    "\<forall>s'. c_all s' = t \<and> c_devs s' = c_devs s \<longrightarrow> tab_ok s' (C((dev, idx) \<mapsto> i)) L'"
    using tab_ok_add [OF L i'(1,4) d(1,2)] by blast
  define b1 where "b1 = b\<lparr>b_dev := dev, b_idx := idx, b_dirty := False, b_lock := lock_init, b_blk := disk_blk (B dev) d idx\<rparr>"
  define s' where "s' = set_buf i b1 (s\<lparr>c_all := t\<rparr>)"
  have "drop (length (disk_blk (B dev) d idx)) (b_blk b) = []" using b(3) length_disk_blk [OF g] by simp
  moreover have "d_ssz d \<noteq> 0" using g by (simp add: dev_good_def)
  ultimately have l: "load_buf dev (B dev) idx i s = Inr s'"
    using b(1) d(1) t(1) in_reach_addr [OF d(3)]
    by (simp add: load_buf_def buf_at_def dev_at_def s'_def b1_def disk_blk_def per_block_def Let_def)
  have k: "kept C s s'" using i'(1) by (auto simp: kept_def s'_def set_buf_def)
  have H: "H i = 0" using cs(4) i'(1) by auto
  have "bufs_ok B s' C H" using bufs_ok_kept [OF cs(1) k] by (simp add: s'_def set_buf_def)
  moreover have "buf_ok (c_task s') (B dev) d dev idx (H i) b1"
    using H b(2) length_disk_blk [OF g] d(3) by (simp add: buf_ok_def b1_def lockst_def)
  ultimately have "bufs_ok B s' (C((dev, idx) \<mapsto> i)) H"
    using d(1) i'(3) by (auto simp: bufs_ok_def s'_def set_buf_def)
  moreover have "tab_ok s' (C((dev, idx) \<mapsto> i)) L'" using t(2) by (simp add: s'_def set_buf_def)
  moreover have "fre_ok s' (C((dev, idx) \<mapsto> i))"
  proof -
    have "h_nodes t j \<noteq> None" if "h_nodes (c_all s) j \<noteq> None" for j
      using hlist_add_keeps [of _ i "c_all s" t j] t(1) that by (simp add: htable_add_def)
    moreover have "ran (C((dev, idx) \<mapsto> i)) = insert i (ran C)" using d(2) by simp
    ultimately show ?thesis using cs(2) i'(2) by (auto simp: fre_ok_def s'_def set_buf_def)
  qed
  moreover have "\<forall>j. H j \<noteq> 0 \<longrightarrow> j \<in> ran (C((dev, idx) \<mapsto> i))" using cs(4) d(2) by simp
  moreover have "c_devs s' = c_devs s" by (simp add: s'_def set_buf_def)
  ultimately have "cache B s' (C((dev, idx) \<mapsto> i)) H" using cs(3) unfolding cache_def by auto
  moreover have "c_bufs s' i = Some b1" "b_blk b1 = disk_blk (B dev) d idx" by (simp_all add: s'_def set_buf_def b1_def)
  ultimately show ?thesis using l k by blast
qed

section \<open>Taking, changing and releasing a block\<close>

lemma cache_lkall [simp]: "cache B (s\<lparr>c_lkall := l\<rparr>) C H = cache B s C H"
  by (simp add: cache_def tab_ok_def bufs_ok_def fre_ok_def bucket_def)

lemma set_buf_simps [simp]:
  "c_devs (set_buf i b s) = c_devs s" "c_task (set_buf i b s) = c_task s" "c_lkall (set_buf i b s) = c_lkall s"
  "c_bufs (set_buf i b s) = (c_bufs s)(i \<mapsto> b)" "c_all (set_buf i b s) = c_all s" "c_fre (set_buf i b s) = c_fre s" "c_nbuf (set_buf i b s) = c_nbuf s"
  by (simp_all add: set_buf_def)

lemma set_buf_ok:
  assumes c: "cache B s C H" and i: "C (dev, idx) = Some i" "c_devs s dev = Some d" "buf_ok (c_task s) (B dev) d dev idx n b"
  shows "cache B (set_buf i b s) C (H(i := n))"
proof -
  have cs: "bufs_ok B s C H" "fre_ok s C" "\<forall>dev d. c_devs s dev = Some d \<longrightarrow> dev_good (B dev) d" "\<forall>i. H i \<noteq> 0 \<longrightarrow> i \<in> ran C"
    using c by (simp_all add: cache_def)
  obtain L where "tab_ok s C L" using c by (auto simp: cache_def)
  then have "tab_ok (set_buf i b s) C L" by (simp add: tab_ok_def bucket_def)
  moreover have "bufs_ok B (set_buf i b s) C (H(i := n))"
    unfolding bufs_ok_def
  proof (intro allI impI)
    fix dev' idx' j assume j: "C (dev', idx') = Some j"
    obtain b' d' where b': "c_bufs s j = Some b'" "c_devs s dev' = Some d'" "buf_ok (c_task s) (B dev') d' dev' idx' (H j) b'" "j < c_nbuf s"
      using cache_buf [OF c j] by blast
    show "j < c_nbuf (set_buf i b s) \<and> (\<exists>ba d. c_bufs (set_buf i b s) j = Some ba \<and> c_devs (set_buf i b s) dev' = Some d \<and>
        buf_ok (c_task (set_buf i b s)) (B dev') d dev' idx' ((H(i := n)) j) ba)"
    proof (cases "j = i")
      case True
      then show ?thesis using cache_inj [OF c i(1), of dev' idx'] j i b'(4) by simp
    qed (use b' in simp)
  qed
  moreover have "fre_ok (set_buf i b s) C" using cs(2) ranI [of C "(dev, idx)", OF i(1)] by (auto simp: fre_ok_def)
  moreover have "\<forall>j. (H(i := n)) j \<noteq> 0 \<longrightarrow> j \<in> ran C" using cs(4) ranI [of C "(dev, idx)", OF i(1)] by auto
  ultimately show ?thesis using cs(3) unfolding cache_def by auto
qed

lemma bview_set_buf:
  assumes c: "cache B s C H" "cache B (set_buf i b s) C H'" and i: "C (dev, idx) = Some i" and d: "c_devs s dev' \<noteq> None"
  shows "bview B' (set_buf i b s) dev' idx' = (if (dev', idx') = (dev, idx) then b_blk b else bview B' s dev' idx')"
proof (cases "C (dev', idx')")
  case None
  then show ?thesis using i d bview_disk [OF c(1) None] bview_disk [OF c(2) None] by auto
next
  case (Some j)
  then have "j = i \<longleftrightarrow> (dev', idx') = (dev, idx)" using cache_inj [OF c(1) i, of dev' idx'] i by auto
  then show ?thesis using bview_cached [OF c(1) Some] bview_cached [OF c(2) Some] by auto
qed

lemma bview_lkall:
  assumes c: "cache B s C H" "c_devs s dev \<noteq> None"
  shows "bview B' (s\<lparr>c_lkall := l\<rparr>) dev idx = bview B' s dev idx"
proof -
  have c': "cache B (s\<lparr>c_lkall := l\<rparr>) C H" using c(1) by simp
  show ?thesis
  proof (cases "C (dev, idx)")
    case None
    then show ?thesis using c(2) bview_disk [OF c(1) None] bview_disk [OF c' None] by auto
  next
    case (Some j)
    then show ?thesis using bview_cached [OF c(1) Some] bview_cached [OF c' Some] by simp
  qed
qed

text \<open>The number of times a block is held stays far from the width of the counter.\<close>

definition few :: "(nat \<Rightarrow> nat) \<Rightarrow> bool" where
  "few H \<longleftrightarrow> (\<forall>i. Suc (H i) < 2 ^ 31)"

lemma bread_find_ok:
  assumes c: "cache B s C H" and d: "c_devs s dev = Some d" "in_reach (B dev) d idx"
  shows "\<exists>i s' C'. bread_find dev (B dev) idx s = Inr (i, s') \<and> cache B s' C' H \<and> C' (dev, idx) = Some i \<and> kept C s s' \<and>
    (\<forall>dev' idx'. c_devs s dev' \<noteq> None \<longrightarrow> bview (B dev') s' dev' idx' = bview (B dev') s dev' idx') \<and> (\<forall>k j. C k = Some j \<longrightarrow> C' k = Some j)"
proof (cases "C (dev, idx)")
  case (Some i)
  then show ?thesis using c find_all_cache [OF c d(1), of idx] by (auto simp: bread_find_def)
next
  case None
  have "B dev \<noteq> 0" using c d(1) by (auto simp: cache_def dev_good_def)
  then obtain i s1 where 1: "find_fre (B dev) s = Some (Inr (i, s1))" "cache B s1 C H" "kept C s s1" "spare i (B dev) s1 C"
    using find_fre_ok [OF c] by blast
  have d1: "c_devs s1 = c_devs s" "c_devs s1 dev = Some d" using 1(3) d(1) by (simp_all add: kept_def)
  obtain s2 b where 2: "load_buf dev (B dev) idx i s1 = Inr s2" "cache B s2 (C((dev, idx) \<mapsto> i)) H" "kept C s1 s2" "c_bufs s2 i = Some b" "b_blk b = disk_blk (B dev) d idx"
    using load_buf_ok [OF 1(2) d1(2) None d(2) 1(4)] by blast
  have k: "kept C s s2" by (rule kept_trans [OF 1(3) 2(3)])
  have "bview (B dev') s2 dev' idx' = bview (B dev') s dev' idx'" if v: "c_devs s dev' \<noteq> None" for dev' idx'
  proof (cases "(dev', idx') = (dev, idx)")
    case True
    then show ?thesis using bview_cached [OF 2(2), of dev idx i] bview_disk [OF c None d(1)] 2(4,5) by simp
  next
    case F: False
    obtain d' where d': "c_devs s dev' = Some d'" "c_devs s2 dev' = Some d'" using v k by (auto simp: kept_def)
    show ?thesis
    proof (cases "C (dev', idx')")
      case N: None
      then have "(C((dev, idx) \<mapsto> i)) (dev', idx') = None" using F by simp
      then show ?thesis using bview_disk [OF c N d'(1)] bview_disk [OF 2(2) _ d'(2)] by simp
    next
      case (Some j)
      then have "(C((dev, idx) \<mapsto> i)) (dev', idx') = Some j" using F by auto
      then show ?thesis using bview_cached [OF c Some] bview_cached [OF 2(2), of dev' idx' j] k ranI [of C "(dev', idx')", OF Some] by (simp add: kept_def)
    qed
  qed
  moreover have "bread_find dev (B dev) idx s = Inr (i, s2)"
    using find_all_cache [OF c d(1), of idx] None 1(1) 2(1) by (simp add: bread_find_def)
  ultimately show ?thesis using 2(2) k by (intro exI [of _ i] exI [of _ s2] exI [of _ "C((dev, idx) \<mapsto> i)"]) (auto simp: None)
qed

lemma bread_ok:
  assumes c: "cache B s C H" "c_lkall s = lock_init" "few H" and d: "c_devs s dev = Some d" "in_reach (B dev) d idx"
  shows "\<exists>i s' C'. bread dev (B dev) idx s = Inr (i, s') \<and> cache B s' C' (H(i := Suc (H i))) \<and> C' (dev, idx) = Some i \<and>
    c_lkall s' = lock_init \<and> c_devs s' = c_devs s \<and> c_task s' = c_task s \<and>
    (\<forall>dev' idx'. c_devs s dev' \<noteq> None \<longrightarrow> bview (B dev') s' dev' idx' = bview (B dev') s dev' idx') \<and> (\<forall>k j. C k = Some j \<longrightarrow> C' k = Some j)"
proof -
  define t where "t = c_task s"
  have l0: "lock_init = lockst t 0" by (simp add: lockst_def)
  let ?s = "s\<lparr>c_lkall := lockst t 1\<rparr>"
  have c': "cache B ?s C H" using c(1) by simp
  obtain i s1 C1 where 1: "bread_find dev (B dev) idx ?s = Inr (i, s1)" "cache B s1 C1 H" "C1 (dev, idx) = Some i" "kept C ?s s1"
    "\<forall>dev' idx'. c_devs ?s dev' \<noteq> None \<longrightarrow> bview (B dev') s1 dev' idx' = bview (B dev') ?s dev' idx'" "\<forall>k j. C k = Some j \<longrightarrow> C1 k = Some j"
    using bread_find_ok [OF c', of dev d idx] d by auto
  have k: "c_devs s1 = c_devs s" "c_task s1 = t" "c_lkall s1 = lockst t 1" using 1(4) by (simp_all add: kept_def t_def)
  obtain b where b: "c_bufs s1 i = Some b" "buf_ok t (B dev) d dev idx (H i) b" using cache_buf [OF 1(2,3)] k d(1) by (metis option.inject)
  have n: "Suc (H i) < 2 ^ 31" using c(3) by (simp add: few_def)
  let ?b = "b\<lparr>b_lock := lockst t (Suc (H i))\<rparr>"
  let ?s2 = "s1\<lparr>c_lkall := lockst t 0\<rparr>"
  have bl: "b_lock b = lockst t (H i)" using b(2) by (simp add: buf_ok_def)
  have rd: "bread dev (B dev) idx s = Inr (i, set_buf i ?b ?s2)"
    using 1(1) acquire_lockst [of t 0] acquire_lockst [of t "H i"] release_lockst [of 0 t] b(1) k bl c(2) l0
    by (simp add: bread_def bread_enter_def bread_lock_def buf_at_def t_def [symmetric])
  have "buf_ok t (B dev) d dev idx (Suc (H i)) ?b" using b(2) n by (simp add: buf_ok_def)
  then have c2: "cache B (set_buf i ?b ?s2) C1 (H(i := Suc (H i)))"
    using 1(2,3) k d(1) by (intro set_buf_ok [of B ?s2 C1 H dev idx i d]) simp_all
  have c1: "cache B ?s2 C1 H" using 1(2) by simp
  have "bview (B dev') (set_buf i ?b ?s2) dev' idx' = bview (B dev') s dev' idx'" if dd: "c_devs s dev' \<noteq> None" for dev' idx'
  proof -
    have "c_devs ?s2 dev' \<noteq> None" "c_devs s1 dev' \<noteq> None" "c_devs ?s dev' \<noteq> None" using dd k by simp_all
    note d' = this
    have "b_blk ?b = bview (B dev) ?s2 dev idx" using bview_cached [OF c1 1(3), of "B dev"] b(1) by simp
    then have "bview (B dev') (set_buf i ?b ?s2) dev' idx' = bview (B dev') ?s2 dev' idx'"
      using bview_set_buf [OF c1 c2 1(3) d'(1), of "B dev'" idx'] by auto
    also have "\<dots> = bview (B dev') s1 dev' idx'" by (rule bview_lkall [OF 1(2) d'(2)])
    also have "\<dots> = bview (B dev') ?s dev' idx'" using 1(5) d'(3) by blast
    also have "\<dots> = bview (B dev') s dev' idx'" by (rule bview_lkall [OF c(1) dd])
    finally show ?thesis .
  qed
  then show ?thesis using rd c2 1(3,6) k l0
    by (intro exI [of _ i] exI [of _ "set_buf i ?b ?s2"] exI [of _ C1]) (simp add: t_def)
qed

text \<open>Sectors written one after the other are the block again.\<close>

lemma concat_slices: "concat (map (\<lambda>k. take z (drop (k * z) xs)) [0..<n]) = take (n * z) xs"
proof (induction n)
  case (Suc n)
  then show ?case using take_add [of "n * z" z xs] by (simp add: add.commute)
qed simp

lemma block_sector_apart:
  assumes "(x :: nat) \<noteq> y" "y * n \<le> k" "k < y * n + n"
  shows "\<not> (x * n \<le> k \<and> k < x * n + n)"
proof -
  consider "Suc x \<le> y" | "Suc y \<le> x" using assms(1) by linarith
  then show ?thesis
  proof cases
    case 1
    then have "Suc x * n \<le> y * n" by (rule mult_le_mono1)
    then show ?thesis using assms(2) by simp
  next
    case 2
    then have "Suc y * n \<le> x * n" by (rule mult_le_mono1)
    then show ?thesis using assms(3) by simp
  qed
qed

lemma disk_blk_write:
  assumes g: "dev_good B d" and l: "length data = unat B"
  defines "n \<equiv> per_block B d"
  shows "disk_blk B (dev_bwrite d (unat idx * n) data n) idx' = (if idx' = idx then data else disk_blk B d idx')"
proof (cases "idx' = idx")
  case True
  have "[unat idx * n..<unat idx * n + n] = map (\<lambda>k. k + unat idx * n) [0..<n]" by (simp add: map_add_upt add.commute)
  then have "map (d_sec (dev_bwrite d (unat idx * n) data n)) [unat idx * n..<unat idx * n + n] = map (\<lambda>k. take (d_ssz d) (drop (k * d_ssz d) data)) [0..<n]"
    by (simp add: dev_bwrite_def o_def)
  then have "disk_blk B (dev_bwrite d (unat idx * n) data n) idx = take (n * d_ssz d) data"
    using concat_slices [of "d_ssz d" data n] by (simp add: disk_blk_def dev_bread_def per_block_def dev_bwrite_def n_def)
  then show ?thesis using True g l by (simp add: dev_good_def n_def per_block_def)
next
  case False
  then have "unat idx \<noteq> unat idx'" by (metis word_unat_eq_iff)
  then have "map (d_sec (dev_bwrite d (unat idx * n) data n)) [unat idx' * n..<unat idx' * n + n] = map (d_sec d) [unat idx' * n..<unat idx' * n + n]"
    using block_sector_apart [of "unat idx" "unat idx'" n] by (intro map_cong) (auto simp: dev_bwrite_def)
  moreover have "per_block B (dev_bwrite d (unat idx * n) data n) = n" by (simp add: per_block_def dev_bwrite_def n_def)
  ultimately show ?thesis using False unfolding disk_blk_def dev_bread_def by (simp add: n_def del: map_eq_conv)
qed

lemma dev_bwrite_good:
  assumes "dev_good B d" "length data = unat B"
  shows "dev_good B (dev_bwrite d a data (per_block B d))"
proof -
  have "Suc (k - a) * d_ssz d \<le> per_block B d * d_ssz d" if "a \<le> k" "k < a + per_block B d" for k
    using that by (intro mult_le_mono1) linarith
  then have "d_ssz d \<le> length data - (k - a) * d_ssz d" if "a \<le> k" "k < a + per_block B d" for k
    using that assms unfolding dev_good_def per_block_def by fastforce
  then show ?thesis using assms by (auto simp: dev_good_def dev_bwrite_def min_absorb2)
qed

lemma disk_update_ok:
  assumes c: "cache B s C H" and i: "C (dev, idx) = Some i" "c_devs s dev = Some d" "c_bufs s i = Some b" and H: "H i \<noteq> 0"
  defines "d' \<equiv> dev_bwrite d (unat idx * per_block (B dev) d) (b_blk b) (per_block (B dev) d)"
  shows "cache B (s\<lparr>c_devs := (c_devs s)(dev \<mapsto> d')\<rparr>) C H"
proof -
  let ?s = "s\<lparr>c_devs := (c_devs s)(dev \<mapsto> d')\<rparr>"
  have cs: "bufs_ok B s C H" "fre_ok s C" "\<forall>dev d. c_devs s dev = Some d \<longrightarrow> dev_good (B dev) d" "\<forall>i. H i \<noteq> 0 \<longrightarrow> i \<in> ran C"
    using c by (simp_all add: cache_def)
  have g: "dev_good (B dev) d" using cs(3) i(2) by simp
  have l: "length (b_blk b) = unat (B dev)" by (rule cache_buf [OF c i(1)]) (use i(3) in \<open>simp add: buf_ok_def\<close>)
  have same: "d_major d' = d_major d" "in_reach (B dev) d' = in_reach (B dev) d"
    by (simp_all add: d'_def dev_bwrite_def in_reach_def per_block_def fun_eq_iff)
  have db: "disk_blk (B dev) d' idx' = (if idx' = idx then b_blk b else disk_blk (B dev) d idx')" for idx'
    unfolding d'_def by (rule disk_blk_write [OF g l])
  obtain L where "tab_ok s C L" using c by (auto simp: cache_def)
  moreover have "(\<exists>dev' idx' d1. C (dev', idx') = Some j \<and> c_devs ?s dev' = Some d1 \<and> bucket d1 idx' ?s = h) \<longleftrightarrow>
      (\<exists>dev' idx' d1. C (dev', idx') = Some j \<and> c_devs s dev' = Some d1 \<and> bucket d1 idx' s = h)" for j h
  proof -
    have "(\<exists>d1. c_devs ?s dev' = Some d1 \<and> bucket d1 idx' ?s = h) \<longleftrightarrow> (\<exists>d1. c_devs s dev' = Some d1 \<and> bucket d1 idx' s = h)" for dev' idx'
      using i(2) same(1) by (cases "dev' = dev") (simp_all add: bucket_def)
    then show ?thesis by blast
  qed
  ultimately have "tab_ok ?s C L" by (simp add: tab_ok_def)
  moreover have "bufs_ok B ?s C H"
    unfolding bufs_ok_def
  proof (intro allI impI)
    fix dev' idx' j assume j: "C (dev', idx') = Some j"
    obtain b1 d1 where b1: "c_bufs s j = Some b1" "c_devs s dev' = Some d1" "buf_ok (c_task s) (B dev') d1 dev' idx' (H j) b1" "j < c_nbuf s"
      using cache_buf [OF c j] by blast
    have "buf_ok (c_task s) (B dev') d' dev' idx' (H j) b1" if e: "dev' = dev"
    proof (cases "idx' = idx")
      case True
      then have "j = i" "b1 = b" using e j i b1(1) by simp_all
      then show ?thesis using b1(2,3) e True i(2) same(2) db by (auto simp: buf_ok_def)
    next
      case False
      then show ?thesis using b1(2,3) e i(2) same(2) db by (auto simp: buf_ok_def)
    qed
    then show "j < c_nbuf ?s \<and> (\<exists>b d. c_bufs ?s j = Some b \<and> c_devs ?s dev' = Some d \<and> buf_ok (c_task ?s) (B dev') d dev' idx' (H j) b)"
      using b1 by (cases "dev' = dev") auto
  qed
  moreover have "fre_ok ?s C" using cs(2) by (simp add: fre_ok_def)
  moreover have "dev_good (B dev) d'" unfolding d'_def by (rule dev_bwrite_good [OF g l])
  ultimately show ?thesis using cs(3,4) unfolding cache_def by auto
qed

lemma brelse_ok:
  assumes c: "cache B s C H" and i: "C (dev, idx) = Some i" and H: "H i = Suc n"
  shows "\<exists>s'. brelse i s = Inr s' \<and> cache B s' C (H(i := n)) \<and> c_lkall s' = c_lkall s \<and> c_task s' = c_task s \<and> dom (c_devs s') = dom (c_devs s) \<and>
    (\<forall>dev' d. c_devs s dev' = Some d \<longrightarrow> (\<exists>d'. c_devs s' dev' = Some d' \<and> in_reach (B dev') d' = in_reach (B dev') d)) \<and>
    disk_blk (B dev) (the (c_devs s' dev)) idx = bview (B dev) s dev idx \<and>
    (\<forall>dev' idx'. c_devs s dev' \<noteq> None \<longrightarrow> bview (B dev') s' dev' idx' = bview (B dev') s dev' idx')"
proof -
  obtain b d where b: "c_bufs s i = Some b" "c_devs s dev = Some d" "buf_ok (c_task s) (B dev) d dev idx (H i) b" using cache_buf [OF c i] by blast
  have g: "dev_good (B dev) d" using c b(2) by (simp add: cache_def)
  define d' where "d' = (if b_dirty b then dev_bwrite d (unat idx * per_block (B dev) d) (b_blk b) (per_block (B dev) d) else d)"
  define s1 where "s1 = (if b_dirty b then s\<lparr>c_devs := (c_devs s)(dev \<mapsto> d')\<rparr> else s)"
  have k: "b_dev b = dev" "b_idx b = idx" "b_siz b = B dev" "length (b_blk b) = unat (B dev)" "b_lock b = lockst (c_task s) (Suc n)" "Suc n < 2 ^ 31"
    "in_reach (B dev) d idx" "\<not> b_dirty b \<Longrightarrow> b_blk b = disk_blk (B dev) d idx" using b(3) H by (simp_all add: buf_ok_def)
  have w: "bwrite i s = Inr s1"
    using b(1,2) k g in_reach_addr [OF k(7)] by (simp add: bwrite_def buf_at_def dev_at_def s1_def d'_def dev_good_def per_block_def Let_def)
  have c1: "cache B s1 C H" using disk_update_ok [OF c i b(2,1)] c H by (simp add: s1_def d'_def)
  have s1: "c_devs s1 dev = Some d'" "c_bufs s1 = c_bufs s" "c_task s1 = c_task s" "c_lkall s1 = c_lkall s" "dom (c_devs s1) = dom (c_devs s)"
    "\<And>x. x \<noteq> dev \<Longrightarrow> c_devs s1 x = c_devs s x"
    using b(2) by (auto simp: s1_def d'_def)
  have db: "disk_blk (B dev) d' idx' = (if idx' = idx then b_blk b else disk_blk (B dev) d idx')" for idx'
    using disk_blk_write [OF g k(4)] k(8) by (simp add: d'_def)
  have rc: "in_reach (B dev) d' = in_reach (B dev) d" by (simp add: d'_def dev_bwrite_def in_reach_def per_block_def fun_eq_iff)
  let ?b = "b\<lparr>b_lock := lockst (c_task s) n\<rparr>"
  have "brelse i s = Inr (set_buf i ?b s1)"
    using w b(1) s1(2,3) k(5,6) release_lockst [of n "c_task s"] by (simp add: brelse_def buf_at_def)
  moreover have "buf_ok (c_task s1) (B dev) d' dev idx n ?b" using k db rc s1(3) by (simp add: buf_ok_def)
  then have c2: "cache B (set_buf i ?b s1) C (H(i := n))" using set_buf_ok [OF c1 i s1(1)] by simp
  moreover have "bview (B dev') (set_buf i ?b s1) dev' idx' = bview (B dev') s dev' idx'" if dd: "c_devs s dev' \<noteq> None" for dev' idx'
  proof (cases "C (dev', idx')")
    case None
    then have "(dev', idx') \<noteq> (dev, idx)" using i by auto
    moreover obtain x where x: "c_devs s dev' = Some x" using dd by auto
    ultimately show ?thesis
      using bview_disk [OF c None x] bview_disk [OF c2 None] s1(1) s1(6) [of dev'] db b(2) by (cases "dev' = dev") auto
  next
    case (Some j)
    then show ?thesis using bview_cached [OF c Some] bview_cached [OF c2 Some] s1(2) b(1) by simp
  qed
  moreover have "disk_blk (B dev) (the (c_devs (set_buf i ?b s1) dev)) idx = bview (B dev) s dev idx"
    using s1(1) db bview_cached [OF c i] b(1) by simp
  moreover have "\<exists>y. c_devs (set_buf i ?b s1) dev' = Some y \<and> in_reach (B dev') y = in_reach (B dev') x" if "c_devs s dev' = Some x" for dev' x
    using that s1(1) s1(6) [of dev'] rc b(2) by (cases "dev' = dev") auto
  ultimately show ?thesis using s1 by (intro exI [of _ "set_buf i ?b s1"]) simp
qed

text \<open>New content for a block that is held, marked as such.\<close>

lemma bput_dirty_ok:
  assumes c: "cache B s C H" and i: "C (dev, idx) = Some i" and H: "H i \<noteq> 0" and l: "length data = unat (B dev)"
  shows "\<exists>s' s''. bput i data s = Inr s' \<and> bdirty i True s' = Inr s'' \<and> cache B s'' C H \<and> c_lkall s'' = c_lkall s \<and> c_task s'' = c_task s \<and>
    c_devs s'' = c_devs s \<and> bview (B dev) s'' dev idx = data \<and>
    (\<forall>dev' idx'. c_devs s dev' \<noteq> None \<and> (dev', idx') \<noteq> (dev, idx) \<longrightarrow> bview (B dev') s'' dev' idx' = bview (B dev') s dev' idx')"
proof -
  obtain b d where b: "c_bufs s i = Some b" "c_devs s dev = Some d" "buf_ok (c_task s) (B dev) d dev idx (H i) b" using cache_buf [OF c i] by blast
  let ?b = "b\<lparr>b_blk := data, b_dirty := True\<rparr>"
  have "buf_ok (c_task s) (B dev) d dev idx (H i) ?b" using b(3) H l by (simp add: buf_ok_def)
  then have c': "cache B (set_buf i ?b s) C H" using set_buf_ok [OF c i b(2)] by fastforce
  have "bput i data s = Inr (set_buf i (b\<lparr>b_blk := data\<rparr>) s)" using b(1) by (simp add: bput_def buf_at_def)
  moreover have "bdirty i True (set_buf i (b\<lparr>b_blk := data\<rparr>) s) = Inr (set_buf i ?b s)" by (simp add: bdirty_def buf_at_def) (simp add: set_buf_def)
  moreover have "bview (B dev) (set_buf i ?b s) dev idx = data" using bview_set_buf [OF c c' i, of dev] b(2) by simp
  moreover have "bview (B dev') (set_buf i ?b s) dev' idx' = bview (B dev') s dev' idx'" if "c_devs s dev' \<noteq> None" "(dev', idx') \<noteq> (dev, idx)" for dev' idx'
    using bview_set_buf [OF c c' i that(1), of "B dev'" idx'] that(2) by auto
  ultimately show ?thesis using c' by simp
qed

section \<open>Blocks as a client sees them\<close>

text \<open>
  The interface of the cache for the blocks of one device: a block is taken by its number, read and written through a
  handle, and released. \<open>ok H\<close> says how often each handle is held, \<open>blk\<close> what the blocks hold.
\<close>

locale block_store =
  fixes get :: "u32 \<Rightarrow> 's \<Rightarrow> (nat \<times> 's) result" and look :: "nat \<Rightarrow> 's \<Rightarrow> bytes result"
    and store :: "nat \<Rightarrow> bytes \<Rightarrow> 's \<Rightarrow> 's result" and rel :: "nat \<Rightarrow> 's \<Rightarrow> 's result"
    and ok :: "(nat \<Rightarrow> nat) \<Rightarrow> 's \<Rightarrow> bool" and blk :: "'s \<Rightarrow> u32 \<Rightarrow> bytes" and hnd :: "nat \<Rightarrow> u32 \<Rightarrow> 's \<Rightarrow> bool"
    and reach :: "u32 \<Rightarrow> bool" and siz :: nat
  assumes get_ok: "ok H s \<Longrightarrow> few H \<Longrightarrow> reach x \<Longrightarrow>
      \<exists>i s'. get x s = Inr (i, s') \<and> ok (H(i := Suc (H i))) s' \<and> hnd i x s' \<and> blk s' = blk s"
    and look_ok: "ok H s \<Longrightarrow> hnd i x s \<Longrightarrow> look i s = Inr (blk s x)"
    and store_ok: "ok H s \<Longrightarrow> hnd i x s \<Longrightarrow> H i \<noteq> 0 \<Longrightarrow> length d = siz \<Longrightarrow>
      \<exists>s'. store i d s = Inr s' \<and> ok H s' \<and> hnd i x s' \<and> blk s' = (blk s)(x := d)"
    and rel_ok: "ok H s \<Longrightarrow> hnd i x s \<Longrightarrow> H i = Suc n \<Longrightarrow> \<exists>s'. rel i s = Inr s' \<and> ok (H(i := n)) s' \<and> blk s' = blk s"
    and blk_len: "ok H s \<Longrightarrow> reach x \<Longrightarrow> length (blk s x) = siz"
begin

text \<open>Looking into a block and releasing it changes nothing; writing it changes nothing else.\<close>

lemma peek:
  assumes "ok H s" "few H" "reach x"
  shows "\<exists>i s1 s2. get x s = Inr (i, s1) \<and> look i s1 = Inr (blk s x) \<and> rel i s1 = Inr s2 \<and> ok H s2 \<and> blk s2 = blk s"
proof -
  obtain i s1 where 1: "get x s = Inr (i, s1)" "ok (H(i := Suc (H i))) s1" "hnd i x s1" "blk s1 = blk s" using get_ok [OF assms] by blast
  obtain s2 where 2: "rel i s1 = Inr s2" "ok ((H(i := Suc (H i)))(i := H i)) s2" "blk s2 = blk s1" using rel_ok [OF 1(2,3), of "H i"] by auto
  then show ?thesis using 1 look_ok [OF 1(2,3)] by auto
qed

lemma edit:
  assumes "ok H s" "few H" "reach x" "length d = siz"
  shows "\<exists>i s1 s2 s3. get x s = Inr (i, s1) \<and> look i s1 = Inr (blk s x) \<and> store i d s1 = Inr s2 \<and> rel i s2 = Inr s3 \<and>
    ok H s3 \<and> blk s3 = (blk s)(x := d)"
proof -
  obtain i s1 where 1: "get x s = Inr (i, s1)" "ok (H(i := Suc (H i))) s1" "hnd i x s1" "blk s1 = blk s" using get_ok [OF assms(1-3)] by blast
  obtain s2 where 2: "store i d s1 = Inr s2" "ok (H(i := Suc (H i))) s2" "hnd i x s2" "blk s2 = (blk s1)(x := d)"
    using store_ok [OF 1(2,3) _ assms(4)] by auto
  obtain s3 where 3: "rel i s2 = Inr s3" "ok ((H(i := Suc (H i)))(i := H i)) s3" "blk s3 = blk s2" using rel_ok [OF 2(2,3), of "H i"] by auto
  then show ?thesis using 1 2 look_ok [OF 1(2,3)] by auto
qed

end

text \<open>A store in which blocks that are held stay where they are while others are taken and released.\<close>

locale held_store = block_store +
  assumes get_keeps: "ok H s \<Longrightarrow> few H \<Longrightarrow> reach x \<Longrightarrow> get x s = Inr (i, s') \<Longrightarrow> hnd j y s \<Longrightarrow> hnd j y s'"
    and rel_keeps: "ok H s \<Longrightarrow> hnd i x s \<Longrightarrow> H i = Suc n \<Longrightarrow> rel i s = Inr s' \<Longrightarrow> hnd j y s \<Longrightarrow> hnd j y s'"
begin

lemma peek_held:
  assumes "ok H s" "few H" "reach x" "hnd j y s"
  shows "\<exists>i s1 s2. get x s = Inr (i, s1) \<and> look i s1 = Inr (blk s x) \<and> rel i s1 = Inr s2 \<and> ok H s2 \<and> blk s2 = blk s \<and> hnd j y s2"
proof -
  obtain i s1 where 1: "get x s = Inr (i, s1)" "ok (H(i := Suc (H i))) s1" "hnd i x s1" "blk s1 = blk s" using get_ok [OF assms(1-3)] by blast
  obtain s2 where 2: "rel i s1 = Inr s2" "ok ((H(i := Suc (H i)))(i := H i)) s2" "blk s2 = blk s1" using rel_ok [OF 1(2,3), of "H i"] by auto
  have "hnd j y s2" using rel_keeps [OF 1(2,3) _ 2(1) get_keeps [OF assms(1-3) 1(1) assms(4)], of "H i"] by simp
  then show ?thesis using 1 2 look_ok [OF 1(2,3)] by auto
qed

end

text \<open>A store into the block of a buffer together with the mark that it has to be written.\<close>

definition bstore :: "nat \<Rightarrow> bytes \<Rightarrow> bcache \<Rightarrow> bcache result" where
  "bstore i d s = bind_result (bput i d s) (bdirty i True)"

text \<open>The cache with the blocks of device \<open>dev\<close>, all of which up to number \<open>N\<close> can be addressed.\<close>

definition bc_ok :: "(nat \<Rightarrow> u64) \<Rightarrow> nat \<Rightarrow> nat \<Rightarrow> (nat \<Rightarrow> nat) \<Rightarrow> bcache \<Rightarrow> bool" where
  "bc_ok B dev N H s \<longleftrightarrow> (\<exists>C. cache B s C H) \<and> c_lkall s = lock_init \<and> (\<exists>d. c_devs s dev = Some d \<and> (\<forall>x. unat x < N \<longrightarrow> in_reach (B dev) d x))"

definition bc_hnd :: "nat \<Rightarrow> nat \<Rightarrow> u32 \<Rightarrow> bcache \<Rightarrow> bool" where
  "bc_hnd dev i x s \<longleftrightarrow> find_all dev x s = Inr (Some i)"

lemma bc_hnd_iff: "cache B s C H \<Longrightarrow> c_devs s dev = Some d \<Longrightarrow> bc_hnd dev i x s \<longleftrightarrow> C (dev, x) = Some i"
  by (simp add: bc_hnd_def find_all_cache)

interpretation bc: block_store "bread dev (B dev)" bget bstore brelse "bc_ok B dev N" "\<lambda>s. bview (B dev) s dev" "bc_hnd dev"
    "\<lambda>x. unat x < N" "unat (B dev)" for B dev N
proof unfold_locales
  fix H s and x :: u32 assume a: "bc_ok B dev N H s" "few H" "unat x < N"
  obtain C d where c: "cache B s C H" "c_lkall s = lock_init" "c_devs s dev = Some d" "\<forall>x. unat x < N \<longrightarrow> in_reach (B dev) d x"
    using a(1) by (auto simp: bc_ok_def)
  obtain i s' C' where r: "bread dev (B dev) x s = Inr (i, s')" "cache B s' C' (H(i := Suc (H i)))" "C' (dev, x) = Some i" "c_lkall s' = lock_init"
    "c_devs s' = c_devs s" "\<forall>dev' idx'. c_devs s dev' \<noteq> None \<longrightarrow> bview (B dev') s' dev' idx' = bview (B dev') s dev' idx'"
    using bread_ok [OF c(1,2) a(2) c(3), of x] c(4) a(3) by blast
  then have "bview (B dev) s' dev = bview (B dev) s dev" using c(3) by auto
  then show "\<exists>i s'. bread dev (B dev) x s = Inr (i, s') \<and> bc_ok B dev N (H(i := Suc (H i))) s' \<and> bc_hnd dev i x s' \<and> bview (B dev) s' dev = bview (B dev) s dev"
    using r c bc_hnd_iff [OF r(2)] by (auto simp: bc_ok_def)
next
  fix H s i x assume a: "bc_ok B dev N H s" "bc_hnd dev i x s"
  obtain C d where c: "cache B s C H" "c_devs s dev = Some d" using a(1) by (auto simp: bc_ok_def)
  then have i: "C (dev, x) = Some i" using a(2) bc_hnd_iff [OF c] by simp
  then show "bget i s = Inr (bview (B dev) s dev x)"
    using bview_cached [OF c(1) i] cache_key [OF c(1) i] by (auto simp: bget_def buf_at_def)
next
  fix H s i x and w :: bytes assume a: "bc_ok B dev N H s" "bc_hnd dev i x s" "H i \<noteq> 0" "length w = unat (B dev)"
  obtain C d where c: "cache B s C H" "c_lkall s = lock_init" "c_devs s dev = Some d" "\<forall>x. unat x < N \<longrightarrow> in_reach (B dev) d x"
    using a(1) by (auto simp: bc_ok_def)
  then have i: "C (dev, x) = Some i" using a(2) bc_hnd_iff [OF c(1,3)] by simp
  obtain s1 s2 where p: "bput i w s = Inr s1" "bdirty i True s1 = Inr s2" "cache B s2 C H" "c_lkall s2 = c_lkall s" "c_devs s2 = c_devs s"
    "bview (B dev) s2 dev x = w"
    "\<forall>dev' idx'. c_devs s dev' \<noteq> None \<and> (dev', idx') \<noteq> (dev, x) \<longrightarrow> bview (B dev') s2 dev' idx' = bview (B dev') s dev' idx'"
    using bput_dirty_ok [OF c(1) i a(3,4)] by blast
  have "bview (B dev) s2 dev = (bview (B dev) s dev)(x := w)" using p(6,7) c(3) by (auto simp: fun_eq_iff)
  then show "\<exists>s'. bstore i w s = Inr s' \<and> bc_ok B dev N H s' \<and> bc_hnd dev i x s' \<and> bview (B dev) s' dev = (bview (B dev) s dev)(x := w)"
    using p c i bc_hnd_iff [OF p(3)] by (auto simp: bstore_def bc_ok_def)
next
  fix H s i x n assume a: "bc_ok B dev N H s" "bc_hnd dev i x s" "H i = Suc n"
  obtain C d where c: "cache B s C H" "c_lkall s = lock_init" "c_devs s dev = Some d" "\<forall>x. unat x < N \<longrightarrow> in_reach (B dev) d x"
    using a(1) by (auto simp: bc_ok_def)
  then have i: "C (dev, x) = Some i" using a(2) bc_hnd_iff [OF c(1,3)] by simp
  obtain s' d' where r: "brelse i s = Inr s'" "cache B s' C (H(i := n))" "c_lkall s' = lock_init" "c_devs s' dev = Some d'" "in_reach (B dev) d' = in_reach (B dev) d"
    "\<forall>dev' idx'. c_devs s dev' \<noteq> None \<longrightarrow> bview (B dev') s' dev' idx' = bview (B dev') s dev' idx'"
    using brelse_ok [OF c(1) i a(3)] c(2,3) by metis
  then have "bview (B dev) s' dev = bview (B dev) s dev" using c(3) by auto
  then show "\<exists>s'. brelse i s = Inr s' \<and> bc_ok B dev N (H(i := n)) s' \<and> bview (B dev) s' dev = bview (B dev) s dev"
    using r c by (auto simp: bc_ok_def)
next
  fix H s and x :: u32 assume a: "bc_ok B dev N H s" "unat x < N"
  obtain C d where c: "cache B s C H" "c_devs s dev = Some d" using a(1) by (auto simp: bc_ok_def)
  have g: "dev_good (B dev) d" using c by (simp add: cache_def)
  show "length (bview (B dev) s dev x) = unat (B dev)"
  proof (cases "C (dev, x)")
    case None
    then show ?thesis using bview_disk [OF c(1) None c(2)] length_disk_blk [OF g] by simp
  next
    case (Some i)
    show ?thesis by (rule cache_buf [OF c(1) Some]) (use bview_cached [OF c(1) Some] in \<open>simp add: buf_ok_def\<close>)
  qed
qed

interpretation bch: held_store "bread dev (B dev)" bget bstore brelse "bc_ok B dev N" "\<lambda>s. bview (B dev) s dev" "bc_hnd dev"
    "\<lambda>x. unat x < N" "unat (B dev)" for B dev N
proof unfold_locales
  fix H s and x :: u32 and i s' j and y :: u32
  assume a: "bc_ok B dev N H s" "few H" "unat x < N" "bread dev (B dev) x s = Inr (i, s')" "bc_hnd dev j y s"
  obtain C d where c: "cache B s C H" "c_lkall s = lock_init" "c_devs s dev = Some d" "in_reach (B dev) d x"
    using a(1,3) by (auto simp: bc_ok_def)
  obtain C' where "cache B s' C' (H(i := Suc (H i)))" "c_devs s' = c_devs s" "\<forall>k j. C k = Some j \<longrightarrow> C' k = Some j"
    using bread_ok [OF c(1,2) a(2) c(3,4)] a(4) by auto
  then show "bc_hnd dev j y s'" using a(5) c(3) bc_hnd_iff [OF c(1,3)] bc_hnd_iff [of B s' C'] by auto
next
  fix H s i and x :: u32 and n s' j and y :: u32
  assume a: "bc_ok B dev N H s" "bc_hnd dev i x s" "H i = Suc n" "brelse i s = Inr s'" "bc_hnd dev j y s"
  obtain C d where c: "cache B s C H" "c_devs s dev = Some d" using a(1) by (auto simp: bc_ok_def)
  have i: "C (dev, x) = Some i" using a(2) bc_hnd_iff [OF c] by simp
  obtain d' where "cache B s' C (H(i := n))" "c_devs s' dev = Some d'" using brelse_ok [OF c(1) i a(3)] a(4) c(2) by fastforce
  then show "bc_hnd dev j y s'" using a(5) bc_hnd_iff [OF c] bc_hnd_iff [of B s' C] by auto
qed

section \<open>Written blocks are found again\<close>

text \<open>
  C15. A block that a task takes, overwrites, marks and releases is on the disk when it is released; taking the same block
  again gives the bytes that were written, and no other block of any device has changed for those who read it through
  the cache.\<close>

theorem block_write_through:
  assumes "cache B s C (\<lambda>_. 0)" "c_lkall s = lock_init" "c_devs s dev = Some d" "in_reach (B dev) d idx" "length data = unat (B dev)"
  shows "\<exists>i s1 s2 s3 s4 j s5. bread dev (B dev) idx s = Inr (i, s1) \<and> bput i data s1 = Inr s2 \<and> bdirty i True s2 = Inr s3 \<and> brelse i s3 = Inr s4 \<and>
    disk_blk (B dev) (the (c_devs s4 dev)) idx = data \<and> bread dev (B dev) idx s4 = Inr (j, s5) \<and> bget j s5 = Inr data \<and>
    (\<forall>dev' idx'. c_devs s dev' \<noteq> None \<and> (dev', idx') \<noteq> (dev, idx) \<longrightarrow> bview (B dev') s4 dev' idx' = bview (B dev') s dev' idx')"
proof -
  define H :: "nat \<Rightarrow> nat" where "H = (\<lambda>_. 0)"
  have f: "few H" by (simp add: few_def H_def)
  obtain i s1 C1 where 1: "bread dev (B dev) idx s = Inr (i, s1)" "cache B s1 C1 (H(i := Suc (H i)))" "C1 (dev, idx) = Some i" "c_lkall s1 = lock_init"
    "c_devs s1 = c_devs s" "\<forall>dev' idx'. c_devs s dev' \<noteq> None \<longrightarrow> bview (B dev') s1 dev' idx' = bview (B dev') s dev' idx'"
    using bread_ok [OF assms(1) [folded H_def] assms(2) f assms(3,4)] by blast
  obtain s2 s3 where 2: "bput i data s1 = Inr s2" "bdirty i True s2 = Inr s3" "cache B s3 C1 (H(i := Suc (H i)))" "c_lkall s3 = c_lkall s1" "c_devs s3 = c_devs s1"
    "bview (B dev) s3 dev idx = data"
    "\<forall>dev' idx'. c_devs s1 dev' \<noteq> None \<and> (dev', idx') \<noteq> (dev, idx) \<longrightarrow> bview (B dev') s3 dev' idx' = bview (B dev') s1 dev' idx'"
    using bput_dirty_ok [OF 1(2,3) _ assms(5)] by auto
  have h: "(H(i := Suc (H i))) i = Suc (H i)" by simp
  obtain s4 d4 where 4: "brelse i s3 = Inr s4" "cache B s4 C1 (H(i := Suc (H i), i := H i))" "c_lkall s4 = c_lkall s3" "c_devs s4 dev = Some d4" "in_reach (B dev) d4 = in_reach (B dev) d"
    "disk_blk (B dev) (the (c_devs s4 dev)) idx = bview (B dev) s3 dev idx"
    "\<forall>dev' idx'. c_devs s3 dev' \<noteq> None \<longrightarrow> bview (B dev') s4 dev' idx' = bview (B dev') s3 dev' idx'"
    using brelse_ok [OF 2(3) 1(3) h] 1(5) 2(5) assms(3) by metis
  have c4: "cache B s4 C1 H" using 4(2) by simp
  have r4: "in_reach (B dev) d4 idx" using 4(5) assms(4) by simp
  have l4: "c_lkall s4 = lock_init" using 4(3) 2(4) 1(4) by simp
  obtain j s5 C5 where 5: "bread dev (B dev) idx s4 = Inr (j, s5)" "cache B s5 C5 (H(j := Suc (H j)))" "C5 (dev, idx) = Some j"
    "\<forall>dev' idx'. c_devs s4 dev' \<noteq> None \<longrightarrow> bview (B dev') s5 dev' idx' = bview (B dev') s4 dev' idx'"
    using bread_ok [OF c4 l4 f 4(4) r4] by blast
  have "bview (B dev) s5 dev idx = data" using 5(4) 4(4,7) 2(5,6) 1(5) assms(3) by simp
  then have "bget j s5 = Inr data" using bview_cached [OF 5(2,3)] cache_key [OF 5(2,3)] by (auto simp: bget_def buf_at_def)
  moreover have "bview (B dev') s4 dev' idx' = bview (B dev') s dev' idx'" if "c_devs s dev' \<noteq> None" "(dev', idx') \<noteq> (dev, idx)" for dev' idx'
    using 4(7) 2(5,7) 1(5,6) that by simp
  ultimately show ?thesis using 1(1) 2(1,2,6) 4(1,6) 5(1)
    by (intro exI [of _ i] exI [of _ s1] exI [of _ s2] exI [of _ s3] exI [of _ s4] exI [of _ j] exI [of _ s5]) simp
qed

text \<open>A cache with nothing in it and one disk with sectors of two bytes.\<close>

definition disk0 :: disk where
  "disk0 = \<lparr>d_major = 3, d_minor = 1, d_ssz = 2, d_sec = (\<lambda>k. [of_nat k, 7])\<rparr>"

definition cache0 :: bcache where
  "cache0 = buffer_init \<lparr>c_bufs = Map.empty, c_nbuf = 0, c_all = \<lparr>h_tbl = replicate 32 None, h_nodes = Map.empty\<rparr>, c_fre = [], c_lkall = lock_init, c_task = 1,
     c_devs = [0 \<mapsto> disk0], c_bjunk = \<lparr>b_dirty = True, b_idx = 9, b_siz = 9, b_blk = [], b_dev = 9, b_lock = lock_init\<rparr>,
     c_hjunk = \<lparr>h_next = None, h_pprev = None\<rparr>, c_mjunk = (\<lambda>_ _. 5)\<rparr>"

lemma empty_cache:
  assumes "c_fre s = []" "h_tbl (c_all s) \<noteq> []" "\<forall>h<length (h_tbl (c_all s)). h_tbl (c_all s) ! h = None" "\<And>dev d. c_devs s dev = Some d \<Longrightarrow> dev_good (B dev) d"
  shows "cache B s Map.empty (\<lambda>_. 0)"
  using assms by (auto simp: cache_def tab_ok_def htab_def bufs_ok_def fre_ok_def intro!: exI [of _ "\<lambda>_. []"])

lemma cache0_ok: "cache (\<lambda>_. 4) cache0 Map.empty (\<lambda>_. 0)"
  by (rule empty_cache) (auto simp: cache0_def buffer_init_def dev_good_def disk0_def split: if_splits)

theorem block_write_through_witness:
  "\<exists>i s1 s2 s3 s4 j s5. bread 0 4 3 cache0 = Inr (i, s1) \<and> bput i [1,2,3,4] s1 = Inr s2 \<and> bdirty i True s2 = Inr s3 \<and> brelse i s3 = Inr s4 \<and>
    disk_blk 4 (the (c_devs s4 0)) 3 = [1,2,3,4] \<and> bread 0 4 3 s4 = Inr (j, s5) \<and> bget j s5 = Inr [1,2,3,4]"
  using block_write_through [OF cache0_ok, of 0 disk0 3 "[1,2,3,4]"]
  by (auto simp: cache0_def buffer_init_def in_reach_def per_block_def disk0_def)

section \<open>Waiting for each other\<close>

lemma find_all_cong:
  assumes c: "cache B s C H" and d: "c_devs s dev = Some d" and s': "c_bufs s' = c_bufs s" "c_all s' = c_all s" "c_devs s' = c_devs s"
  shows "find_all dev idx s' = Inr (C (dev, idx))"
proof -
  obtain L where L: "tab_ok s C L" using c by (auto simp: cache_def)
  define h where "h = bucket d idx s"
  have h: "h < length (h_tbl (c_all s))" using L by (simp add: h_def bucket_def tab_ok_def)
  have ch: "hchain (c_all s) (HHead h) (h_tbl (c_all s) ! h) (L h)" using L h by (simp add: tab_ok_def htab_def)
  have bufs: "\<forall>i\<in>set (L h). c_bufs s i \<noteq> None"
  proof
    fix i assume "i \<in> set (L h)"
    then obtain dev' idx' where "C (dev', idx') = Some i" using L h unfolding tab_ok_def by blast
    then show "c_bufs s i \<noteq> None" using cache_key [OF c] by blast
  qed
  have "find_loop dev idx (h_tbl (c_all s) ! h) s' = find_loop dev idx (h_tbl (c_all s) ! h) s"
    using find_loop_chain [OF ch bufs] find_loop_chain [of s' "HHead h" "h_tbl (c_all s) ! h" "L h"] ch bufs s' by simp
  then have "find_all dev idx s' = find_all dev idx s"
    using s' d h by (simp add: find_all_def dev_at_def hfirst_def h_def bucket_def)
  then show ?thesis using find_all_cache [OF c d] by simp
qed

lemma acquire_other: "t \<noteq> t' \<Longrightarrow> lock_acquire t' (lockst t (Suc n)) = Inl Hang"
  by (simp add: lock_acquire_def lockst_def lock_acquire_enter_def sema_down_def)

text \<open>
  bread waits for a block while it holds the lock of the whole cache. So when one task holds a block, a second task
  that asks for it stops with the lock of the cache taken, and from then on the first task cannot take any block either:
  if it asks for another one before it releases the first, neither of the two goes on.\<close>

theorem bread_deadlock:
  assumes "cache B s C H" "c_lkall s = lock_init" "c_task s = t1" "t1 \<noteq> t2" "C (dev, idx) = Some i" "H i \<noteq> 0"
  shows "\<exists>s2. bread_enter dev (B dev) idx (s\<lparr>c_task := t2\<rparr>) = Inr (i, s2) \<and> bread_lock i s2 = Inl Hang \<and>
    (\<forall>dev' siz idx'. bread dev' siz idx' (s2\<lparr>c_task := t1\<rparr>) = Inl Hang)"
proof -
  obtain b d where b: "c_bufs s i = Some b" "c_devs s dev = Some d" "buf_ok (c_task s) (B dev) d dev idx (H i) b"
    using cache_buf [OF assms(1,5)] by blast
  let ?s2 = "s\<lparr>c_task := t2, c_lkall := lockst t2 1\<rparr>"
  have "find_all dev idx ?s2 = Inr (Some i)" using find_all_cong [OF assms(1) b(2), of ?s2 idx] assms(5) by simp
  moreover have "lock_acquire t2 lock_init = Inr (lockst t2 1)" using acquire_lockst [of t2 0] by (simp add: lockst_def)
  ultimately have e: "bread_enter dev (B dev) idx (s\<lparr>c_task := t2\<rparr>) = Inr (i, ?s2)"
    using assms(2) by (simp add: bread_enter_def bread_find_def)
  obtain n where n: "H i = Suc n" using assms(6) not0_implies_Suc by blast
  have "b_lock b = lockst t1 (Suc n)" using b(3) assms(3) n by (simp add: buf_ok_def)
  then have "bread_lock i ?s2 = Inl Hang" using b(1) acquire_other [OF assms(4), of n] by (simp add: bread_lock_def buf_at_def)
  moreover have "bread dev' siz idx' (?s2\<lparr>c_task := t1\<rparr>) = Inl Hang" for dev' siz idx'
    using acquire_other [of t2 t1 0] assms(4) by (simp add: bread_def bread_enter_def)
  ultimately show ?thesis using e by blast
qed

theorem bread_deadlock_witness:
  "\<exists>i s1 s2. bread 0 4 3 cache0 = Inr (i, s1) \<and> bread_enter 0 4 3 (s1\<lparr>c_task := 2\<rparr>) = Inr (i, s2) \<and> bread_lock i s2 = Inl Hang \<and>
    bread 0 4 5 (s2\<lparr>c_task := 1\<rparr>) = Inl Hang"
proof -
  have r: "c_devs cache0 0 = Some disk0" "in_reach 4 disk0 3" "c_lkall cache0 = lock_init" "few (\<lambda>_. 0)" "c_task cache0 = 1"
    by (simp_all add: cache0_def buffer_init_def in_reach_def per_block_def disk0_def few_def)
  obtain i s1 C1 where 1: "bread 0 4 3 cache0 = Inr (i, s1)" "cache (\<lambda>_. 4) s1 C1 ((\<lambda>_. 0)(i := Suc 0))" "C1 (0, 3) = Some i"
    "c_lkall s1 = lock_init" "c_task s1 = 1" using bread_ok [OF cache0_ok r(3,4,1), of 3] r(2,5) by auto
  then show ?thesis using bread_deadlock [OF 1(2,4,5) _ 1(3), of 2] by auto
qed

end
