(* ===== verification/Vfs.thy ===== *)
theory Vfs
  imports Prelude
begin

unbundle bit_operations_syntax

text \<open>
  kernel/fs/vrt.c and mnt.c: the tree of nodes, path resolution, permissions and mounts. A node is known by
  its number; the chain \<open>child\<close>, \<open>next\<close>, ... of a directory is a list. A string is a list of characters
  without the final null. The operations of a physical file system are arguments. What a freshly
  allocated node contains is the field \<open>junk\<close>, what an uninitialised local contains the field
  \<open>stack_junk\<close>; neither is ever assumed to be zero.
\<close>

section \<open>State\<close>

type_synonym nid = nat

record mount_t =
  mt_siz :: u64
  mt_chd :: "nid list list"
  mt_pop :: bool

record node =
  n_name :: string
  n_mnt :: bool
  n_siz :: u64
  n_ino :: u64
  n_uid :: u32
  n_gid :: u32
  n_mode :: u32
  n_atime :: u64
  n_mtime :: u64
  n_ctime :: u64
  n_dev :: u64
  n_rdev :: u64
  n_mount :: "mount_t option"
  n_pdata :: nat
  n_parent :: "nid option"
  n_child :: "nid list"

record vfs =
  nodes :: "nid \<Rightarrow> node option"
  fs_root :: nid
  t_euid :: u32
  t_egid :: u32
  t_supgids :: "u32 list"
  now :: u64
  junk :: node
  stack_junk :: u32

definition deref :: "nid option \<Rightarrow> 'a vfs_scheme \<Rightarrow> node result" where
  "deref p s = (case p of None \<Rightarrow> Inl BadAccess | Some i \<Rightarrow> (case nodes s i of None \<Rightarrow> Inl BadAccess | Some n \<Rightarrow> Inr n))"

definition set_node :: "nid \<Rightarrow> node \<Rightarrow> 'a vfs_scheme \<Rightarrow> 'a vfs_scheme" where
  "set_node i n s = s\<lparr>nodes := (nodes s)(i \<mapsto> n)\<rparr>"

section \<open>Flags\<close>

definition FS_GAIN :: u64 where "FS_GAIN = push_bit 32 1"
definition FS_GAINMNT :: u64 where "FS_GAINMNT = push_bit 33 1"
definition O_CREAT :: u64 where "O_CREAT = 0x40"
definition O_DIRECTORY :: u64 where "O_DIRECTORY = 0x10000"

definition MAY_READ :: u32 where "MAY_READ = 1"
definition MAY_WRITE :: u32 where "MAY_WRITE = 2"
definition MAY_EXEC :: u32 where "MAY_EXEC = 4"

definition S_IFMT :: u32 where "S_IFMT = 0xF000"
definition S_ISDIR :: "u32 \<Rightarrow> bool" where "S_ISDIR m \<longleftrightarrow> m AND S_IFMT = 0x4000"
definition S_ISREG :: "u32 \<Rightarrow> bool" where "S_ISREG m \<longleftrightarrow> m AND S_IFMT = 0x8000"
definition S_ISCHR :: "u32 \<Rightarrow> bool" where "S_ISCHR m \<longleftrightarrow> m AND S_IFMT = 0x2000"
definition S_ISBLK :: "u32 \<Rightarrow> bool" where "S_ISBLK m \<longleftrightarrow> m AND S_IFMT = 0x6000"
definition S_ISFIFO :: "u32 \<Rightarrow> bool" where "S_ISFIFO m \<longleftrightarrow> m AND S_IFMT = 0x1000"
definition S_ISSOCK :: "u32 \<Rightarrow> bool" where "S_ISSOCK m \<longleftrightarrow> m AND S_IFMT = 0xC000"

definition ENOENT :: int where "ENOENT = 2"
definition EEXIST :: int where "EEXIST = 17"
definition ENOTDIR :: int where "ENOTDIR = 20"
definition EISDIR :: int where "EISDIR = 21"
definition ERANGE :: int where "ERANGE = 34"

section \<open>Strings\<close>

definition seglen :: "string \<Rightarrow> nat" where
  "seglen p = length (takeWhile (\<lambda>c. c \<noteq> CHR ''/'') p)"

definition cmp :: "string \<Rightarrow> string \<Rightarrow> bool" where
  "cmp A B \<longleftrightarrow> seglen A = seglen B \<and> list_all (\<lambda>i. A ! i = B ! i) [0..<seglen B]"

definition next_comp :: "string \<Rightarrow> string" where
  "next_comp p = dropWhile (\<lambda>c. c = CHR ''/'') (dropWhile (\<lambda>c. c \<noteq> CHR ''/'') p)"

section \<open>The tree\<close>

primrec find_child :: "nid list \<Rightarrow> string \<Rightarrow> 'a vfs_scheme \<Rightarrow> nid option result" where
  "find_child [] path s = Inr None"
| "find_child (c # cs) path s =
     bind_result (deref (Some c) s) (\<lambda>n. if cmp (n_name n) path then Inr (Some c) else find_child cs path s)"

definition vfs_exist :: "nid option \<Rightarrow> string \<Rightarrow> 'a vfs_scheme \<Rightarrow> nid option result" where
  "vfs_exist dir path s = bind_result (deref dir s) (\<lambda>d. find_child (n_child d) path s)"

definition vfs_regst :: "nid \<Rightarrow> nid \<Rightarrow> 'a vfs_scheme \<Rightarrow> 'a vfs_scheme result" where
  "vfs_regst n p s =
     bind_result (deref (Some p) s) (\<lambda>pn.
     let s1 = set_node p (pn\<lparr>n_child := n # n_child pn\<rparr>) s
     in bind_result (deref (Some n) s1) (\<lambda>nn. Inr (set_node n (nn\<lparr>n_parent := Some p\<rparr>) s1)))"

definition vfs_unreg :: "nid \<Rightarrow> 'a vfs_scheme \<Rightarrow> 'a vfs_scheme result" where
  "vfs_unreg n s =
     bind_result (deref (Some n) s) (\<lambda>nn.
     bind_result (deref (n_parent nn) s) (\<lambda>pn.
       Inr (set_node (the (n_parent nn)) (pn\<lparr>n_child := remove1 n (n_child pn)\<rparr>) s)))"

text \<open>\<open>vfs_release\<close> gives a node and all below it back; each release of a child takes it off the list of its parent.\<close>

partial_function (option) release_loop :: "nid list \<Rightarrow> 'a vfs_scheme \<Rightarrow> 'a vfs_scheme result option" where
  "release_loop st s =
     (case st of
        [] \<Rightarrow> Some (Inr s)
      | i # st1 \<Rightarrow> (case deref (Some i) s of
          Inl e \<Rightarrow> Some (Inl e)
        | Inr n \<Rightarrow>
            if S_ISDIR (n_mode n) \<and> n_child n \<noteq> [] then release_loop (hd (n_child n) # st) s
            else (case (if n_parent n = None then Inr s else vfs_unreg i s) of
                Inl e \<Rightarrow> Some (Inl e)
              | Inr s1 \<Rightarrow> release_loop st1 (s1\<lparr>nodes := (nodes s1)(i := None)\<rparr>))))"

definition vfs_release :: "nid \<Rightarrow> 'a vfs_scheme \<Rightarrow> 'a vfs_scheme result option" where
  "vfs_release this s = release_loop [this] s"

definition vfs_ismount :: "nid option \<Rightarrow> 'a vfs_scheme \<Rightarrow> bool result" where
  "vfs_ismount n s = bind_result (deref n s) (\<lambda>nn. Inr (n_mnt nn))"

definition vfs_isaroot :: "nid option \<Rightarrow> 'a vfs_scheme \<Rightarrow> bool result" where
  "vfs_isaroot n s = bind_result (deref n s) (\<lambda>nn. vfs_ismount (n_parent nn) s)"

definition vfs_getprt :: "nid option \<Rightarrow> 'a vfs_scheme \<Rightarrow> nid option result" where
  "vfs_getprt n s =
     bind_result (deref n s) (\<lambda>nn.
     bind_result (deref (n_parent nn) s) (\<lambda>pn.
       Inr (if n_mnt pn then n_parent pn else n_parent nn)))"

definition getprt_mp :: "nid option \<Rightarrow> 'a vfs_scheme \<Rightarrow> nid option result" where
  "getprt_mp n s =
     bind_result (vfs_isaroot n s) (\<lambda>r. if r then Inl AssertFail else
     bind_result (deref n s) (\<lambda>nn.
     bind_result (vfs_isaroot (n_parent nn) s) (\<lambda>r2.
       if r2 then bind_result (deref (n_parent nn) s) (\<lambda>pn. Inr (n_parent pn)) else Inr (n_parent nn))))"

text \<open>
  The two loops of \<open>vfs_getpath\<close> go up from the node; the second one writes the names backwards.
  \<open>fuel\<close> bounds the number of nodes on the way.
\<close>

fun getpath_loop :: "nat \<Rightarrow> nid option \<Rightarrow> string \<Rightarrow> 'a vfs_scheme \<Rightarrow> string result option" where
  "getpath_loop 0 p acc s = None"
| "getpath_loop (Suc fuel) p acc s =
     (case deref p s of
        Inl e \<Rightarrow> Some (Inl e)
      | Inr n \<Rightarrow>
          if p = n_parent n then Some (Inr acc)
          else (case getprt_mp p s of
                  Inl e \<Rightarrow> Some (Inl e)
                | Inr q \<Rightarrow> getpath_loop fuel q (CHR ''/'' # n_name n @ acc) s))"

definition vfs_getpath :: "nat \<Rightarrow> nid option \<Rightarrow> u64 \<Rightarrow> 'a vfs_scheme \<Rightarrow> (int \<times> string option \<times> u64) result option" where
  "vfs_getpath fuel n bufsz s =
     (if n = None
      then Some (Inr (if bufsz < 2 then (- ERANGE, None, 2) else (0, Some ''/'', 2)))
      else case vfs_isaroot n s of
             Inl e \<Rightarrow> Some (Inl e)
           | Inr r \<Rightarrow>
               (let p = (if r then (case deref n s of Inl _ \<Rightarrow> None | Inr nn \<Rightarrow> n_parent nn) else n)
                in map_option (\<lambda>res. bind_result res (\<lambda>path.
                     let len1 = of_nat (length path + 1)
                     in Inr (if bufsz < len1 then (- ERANGE, None, len1) else (0, Some path, len1))))
                   (getpath_loop fuel p [] s)))"

section \<open>Permissions\<close>

definition vfs_permission :: "node \<Rightarrow> u32 \<Rightarrow> 'a vfs_scheme \<Rightarrow> int" where
  "vfs_permission n want s =
     (let bits = (if t_euid s = n_uid n then drop_bit 6 (n_mode n)
                  else if t_egid s = n_gid n then drop_bit 3 (n_mode n) else n_mode n)
      in if want AND MAY_READ \<noteq> 0 \<and> bits AND 4 = 0 then - EACCES
         else if want AND MAY_WRITE \<noteq> 0 \<and> bits AND 2 = 0 then - EACCES
         else if want AND MAY_EXEC \<noteq> 0 \<and> bits AND 1 = 0 then - EACCES
         else 0)"

section \<open>Path resolution\<close>

type_synonym 'a open_op = "nid \<Rightarrow> string \<Rightarrow> u64 \<Rightarrow> u32 \<Rightarrow> 'a vfs_scheme \<Rightarrow> (int \<times> nid option \<times> 'a vfs_scheme) result"

definition vfs_open1 :: "'a open_op \<Rightarrow> nid option \<Rightarrow> string \<Rightarrow> u64 \<Rightarrow> u32 \<Rightarrow> 'a vfs_scheme \<Rightarrow> (int \<times> nid option \<times> 'a vfs_scheme) result" where
  "vfs_open1 op dir path args mode s =
     (if cmp path ''.'' then Inr (0, dir, s)
      else if cmp path ''..'' then bind_result (vfs_getprt dir s) (\<lambda>p. Inr (0, p, s))
      else bind_result (vfs_exist dir path s) (\<lambda>r.
           bind_result (case r of Some n \<Rightarrow> Inr (0, Some n, s) | None \<Rightarrow> op (the dir) path args mode s) (\<lambda>(ret, res, s1).
             if ret < 0 then Inr (ret, None, s1)
             else bind_result (deref res s1) (\<lambda>n.
                  Inr (ret, if n_mnt n \<and> NOT args AND FS_GAINMNT \<noteq> 0
                            then (case n_child n of [] \<Rightarrow> None | c # _ \<Rightarrow> Some c) else res, s1)))))"

text \<open>
  The loop of \<open>vfs_walkd\<close>. Every way out of it, the failed ones included, leads to the label
  \<open>end\<close> and the result zero.
\<close>

lemma next_comp_shorter: "next_comp p \<noteq> [] \<Longrightarrow> length (next_comp p) < length p"
proof -
  assume n: "next_comp p \<noteq> []"
  define q where "q = dropWhile (\<lambda>c. c \<noteq> CHR ''/'') p"
  have d: "next_comp p = dropWhile (\<lambda>c. c = CHR ''/'') q" by (simp add: next_comp_def q_def)
  have ne: "q \<noteq> []" using n unfolding d by auto
  have "hd q = CHR ''/''" using hd_dropWhile [of "\<lambda>c. c \<noteq> CHR ''/''" p] ne by (simp add: q_def)
  then have "length (next_comp p) < length q"
    unfolding d using ne by (cases q) (auto simp: le_imp_less_Suc length_dropWhile_le)
  also have "\<dots> \<le> length p" by (simp add: q_def length_dropWhile_le)
  finally show ?thesis .
qed

function walk_loop :: "'a open_op \<Rightarrow> nid option \<Rightarrow> string \<Rightarrow> 'a vfs_scheme \<Rightarrow> (string \<times> nid option \<times> 'a vfs_scheme) result" where
  "walk_loop op cur p s =
     (if next_comp p = [] then Inr (p, cur, s)
      else bind_result (deref cur s) (\<lambda>n.
           if \<not> S_ISDIR (n_mode n) then Inr (p, cur, s)
           else if vfs_permission n MAY_EXEC s < 0 then Inr (p, cur, s)
           else bind_result (vfs_open1 op cur p FS_GAIN 0 s) (\<lambda>(ret, chd, s1).
                  if ret < 0 then Inr (p, cur, s1) else walk_loop op chd (next_comp p) s1)))"
  by pat_completeness auto
termination
  by (relation "measure (\<lambda>(op, cur, p, s). length p)") (auto intro: next_comp_shorter)

declare walk_loop.simps [simp del]

definition vfs_walkd :: "'a open_op \<Rightarrow> nid option \<Rightarrow> string \<Rightarrow> 'a vfs_scheme \<Rightarrow> (string \<times> nid option \<times> 'a vfs_scheme) result" where
  "vfs_walkd op start path s =
     (let st1 = (if start = None then Some (fs_root s) else start);
          st2 = (if path \<noteq> [] \<and> hd path = CHR ''/'' then Some (fs_root s) else st1)
      in walk_loop op st2 (dropWhile (\<lambda>c. c = CHR ''/'') path) s)"

definition access_want :: "u64 \<Rightarrow> 'a vfs_scheme \<Rightarrow> u32" where
  "access_want args s =
     (let a = args AND 3
      in if a = 0 then MAY_READ else if a = 1 then MAY_WRITE else if a = 2 then MAY_READ OR MAY_WRITE else stack_junk s)"

text \<open>The result and, when it is zero, the node.\<close>

definition vfs_open :: "'a open_op \<Rightarrow> nid option \<Rightarrow> string \<Rightarrow> u64 \<Rightarrow> u32 \<Rightarrow> 'a vfs_scheme \<Rightarrow> (int \<times> nid option \<times> 'a vfs_scheme) result" where
  "vfs_open op parent path args mode s =
     bind_result (vfs_walkd op parent path s) (\<lambda>(p, dir, s1).
     bind_result (vfs_open1 op dir p args mode s1) (\<lambda>(ret, res, s2).
       if ret < 0 then Inr (ret, None, s2)
       else if res \<noteq> None \<and> args AND FS_GAIN = 0
       then bind_result (deref res s2) (\<lambda>n.
              let pr = vfs_permission n (access_want args s2) s2
              in if pr < 0 then Inr (pr, None, s2)
                 else if \<not> S_ISDIR (n_mode n) \<and> args AND O_DIRECTORY \<noteq> 0 then Inr (- ENOTDIR, None, s2)
                 else if S_ISDIR (n_mode n) \<and> NOT args AND O_DIRECTORY \<noteq> 0 then Inr (- EISDIR, None, s2)
                 else Inr (0, res, s2))
       else Inr (ret, if ret = 0 then res else None, s2)))"

section \<open>Owner and mode\<close>

primrec insgrp :: "u32 list \<Rightarrow> u32 \<Rightarrow> bool result" where
  "insgrp [] gid = Inl BadAccess"
| "insgrp (g # gs) gid = (if g = - 1 then Inr False else if gid = g then Inr True else insgrp gs gid)"

text \<open>The node part of a change of owner and of mode, \<open>vfs_m_chown\<close> and \<open>vfs_m_chmod\<close> of fs/inter.h.\<close>

definition m_chown :: "nid \<Rightarrow> u32 \<Rightarrow> u32 \<Rightarrow> bool \<Rightarrow> 'a vfs_scheme \<Rightarrow> (int \<times> 'a vfs_scheme) result" where
  "m_chown i owner grp ap s =
     bind_result (deref (Some i) s) (\<lambda>n.
     let m = (if \<not> ap \<and> S_ISREG (n_mode n) \<and> n_mode n AND 0x49 \<noteq> 0 then n_mode n AND NOT 0xC00 else n_mode n)
     in Inr (0, set_node i (n\<lparr>n_mode := m, n_uid := owner, n_gid := grp, n_ctime := now s\<rparr>) s))"

definition m_chmod :: "nid \<Rightarrow> u32 \<Rightarrow> bool \<Rightarrow> 'a vfs_scheme \<Rightarrow> (int \<times> 'a vfs_scheme) result" where
  "m_chmod i mode clrsgid s =
     bind_result (deref (Some i) s) (\<lambda>n.
     let m1 = (n_mode n AND NOT 0xFFF) OR (mode AND 0xFFF);
         m2 = (if clrsgid then m1 AND NOT 0x8 else m1)
     in Inr (0, set_node i (n\<lparr>n_mode := m2, n_ctime := now s\<rparr>) s))"

type_synonym 'a chown_op = "nid \<Rightarrow> u32 \<Rightarrow> u32 \<Rightarrow> bool \<Rightarrow> 'a vfs_scheme \<Rightarrow> (int \<times> 'a vfs_scheme) result"
type_synonym 'a chmod_op = "nid \<Rightarrow> u32 \<Rightarrow> bool \<Rightarrow> 'a vfs_scheme \<Rightarrow> (int \<times> 'a vfs_scheme) result"

definition vfs_chown :: "'a chown_op \<Rightarrow> nid \<Rightarrow> u32 \<Rightarrow> u32 \<Rightarrow> 'a vfs_scheme \<Rightarrow> (int \<times> 'a vfs_scheme) result" where
  "vfs_chown op i owner grp s =
     bind_result (deref (Some i) s) (\<lambda>n.
     let ochg = (owner \<noteq> - 1 \<and> owner \<noteq> n_uid n);
         gchg = (grp \<noteq> - 1 \<and> grp \<noteq> n_gid n);
         change = (if ochg \<or> gchg
                   then bind_result (op i (if ochg then owner else n_uid n) (if gchg then grp else n_gid n) (t_euid s = 0) s)
                          (\<lambda>(ret, s1). Inr (if ret < 0 then ret else 0, s1))
                   else Inr (0, s))
     in if t_euid s = 0 then change
        else if ochg then Inr (- EPERM, s)
        else if gchg \<and> t_egid s \<noteq> grp
        then bind_result (insgrp (t_supgids s) grp) (\<lambda>b. if b then change else Inr (- EPERM, s))
        else change)"

definition vfs_chmod :: "'a chmod_op \<Rightarrow> nid \<Rightarrow> u32 \<Rightarrow> 'a vfs_scheme \<Rightarrow> (int \<times> 'a vfs_scheme) result" where
  "vfs_chmod op i mode0 s =
     bind_result (deref (Some i) s) (\<lambda>n.
     let mode = mode0 AND 0xFFF
     in if t_euid s \<noteq> 0 \<and> t_euid s \<noteq> n_uid n then Inr (- EPERM, s)
        else bind_result (if t_euid s = 0 then Inr False
                          else bind_result (insgrp (t_supgids s) (n_gid n)) (\<lambda>b. Inr (\<not> b))) (\<lambda>clr.
             bind_result (op i mode clr s) (\<lambda>(ret, s1). Inr (if ret < 0 then ret else 0, s1))))"

section \<open>Device nodes, mounts, release\<close>

type_synonym 'a mknod_op = "nid \<Rightarrow> string \<Rightarrow> u64 \<Rightarrow> u32 \<Rightarrow> 'a vfs_scheme \<Rightarrow> (int \<times> nid option \<times> 'a vfs_scheme) result"

definition vfs_mknod :: "'a open_op \<Rightarrow> 'a mknod_op \<Rightarrow> string \<Rightarrow> u64 \<Rightarrow> u32 \<Rightarrow> 'a vfs_scheme \<Rightarrow> (int \<times> 'a vfs_scheme) result" where
  "vfs_mknod op mk path dev mode s =
     (if \<not> S_ISCHR mode \<and> \<not> S_ISBLK mode \<and> \<not> S_ISFIFO mode \<and> \<not> S_ISSOCK mode then Inr (- EINVAL, s)
      else bind_result (vfs_walkd op None path s) (\<lambda>(p, dir, s1).
           bind_result (vfs_open op dir p 0 0 s1) (\<lambda>(ret, _, s2).
             if ret \<ge> 0 then Inr (- EEXIST, s2)
             else bind_result (deref dir s2) (\<lambda>_.
                  bind_result (mk (the dir) p dev mode s2) (\<lambda>(ret2, _, s3). Inr (ret2, s3))))))"

text \<open>\<open>vfs_mount\<close> takes the stack of the mount point from \<open>malloc\<close> as it is; \<open>mnt0\<close> is what is there,
  \<open>mt_pop\<close> whether the hook that \<open>stack_pop\<close> calls is not null.\<close>

definition vfs_mount :: "mount_t \<Rightarrow> nid \<Rightarrow> nid \<Rightarrow> 'a vfs_scheme \<Rightarrow> 'a vfs_scheme result" where
  "vfs_mount mnt0 dir root s =
     bind_result (deref (Some dir) s) (\<lambda>d.
     let m = (case n_mount d of None \<Rightarrow> mnt0 | Some m \<Rightarrow> m);
         s1 = set_node dir (d\<lparr>n_mount := Some (m\<lparr>mt_siz := mt_siz m + 1, mt_chd := n_child d # mt_chd m\<rparr>),
                              n_child := [root], n_mnt := True\<rparr>) s
     in bind_result (deref (Some root) s1) (\<lambda>r. Inr (set_node root (r\<lparr>n_parent := Some dir\<rparr>) s1)))"

definition vfs_umount :: "nid \<Rightarrow> 'a vfs_scheme \<Rightarrow> 'a vfs_scheme result" where
  "vfs_umount dir s =
     bind_result (deref (Some dir) s) (\<lambda>d.
     case (n_mount d, n_child d) of
       (Some m, root # _) \<Rightarrow>
         bind_result (deref (Some root) s) (\<lambda>r.
         let s1 = set_node root (r\<lparr>n_parent := Some root\<rparr>) s;
             top = (case mt_chd m of [] \<Rightarrow> [] | c # _ \<Rightarrow> c);
             m1 = (if mt_chd m = [] then m else m\<lparr>mt_siz := mt_siz m - 1, mt_chd := tl (mt_chd m)\<rparr>)
         in if mt_chd m \<noteq> [] \<and> mt_pop m then Inl BadAccess
            else bind_result (deref (Some dir) s1) (\<lambda>d1.
              Inr (set_node dir (d1\<lparr>n_child := top, n_mount := Some m1, n_mnt := (mt_siz m1 \<noteq> 0 \<and> n_mnt d1)\<rparr>) s1)))
     | _ \<Rightarrow> Inl BadAccess)"

section \<open>Components of a path\<close>

text \<open>A name that can stand between two slashes.\<close>

definition comp_ok :: "string \<Rightarrow> bool" where
  "comp_ok nm \<longleftrightarrow> nm \<noteq> [] \<and> CHR ''/'' \<notin> set nm \<and> nm \<noteq> ''.'' \<and> nm \<noteq> ''..''"

definition tail_ok :: "string \<Rightarrow> bool" where
  "tail_ok r \<longleftrightarrow> r = [] \<or> hd r = CHR ''/''"

primrec join_path :: "string list \<Rightarrow> string" where
  "join_path [] = []"
| "join_path (n # ns) = CHR ''/'' # n @ join_path ns"

lemma tail_ok_join [simp]: "tail_ok (join_path ns)"
  by (cases ns) (simp_all add: tail_ok_def)

definition seg :: "string \<Rightarrow> string" where
  "seg p = takeWhile (\<lambda>c. c \<noteq> CHR ''/'') p"

lemma seg_name: "CHR ''/'' \<notin> set nm \<Longrightarrow> tail_ok r \<Longrightarrow> seg (nm @ r) = nm"
  unfolding seg_def by (cases r) (auto simp: tail_ok_def takeWhile_append)

lemma seg_self: "CHR ''/'' \<notin> set nm \<Longrightarrow> seg nm = nm"
  using seg_name [of nm "[]"] by (simp add: tail_ok_def)

lemma drop_name: "CHR ''/'' \<notin> set nm \<Longrightarrow> tail_ok r \<Longrightarrow> dropWhile (\<lambda>c. c \<noteq> CHR ''/'') (nm @ r) = r"
  by (induction nm) (auto simp: tail_ok_def dropWhile_eq_self_iff)

lemma cmp_iff: "cmp A B \<longleftrightarrow> seg A = seg B"
proof -
  have n: "seg x ! i = x ! i" if "i < seglen x" for x i using that by (simp add: seg_def seglen_def takeWhile_nth)
  have l: "length (seg x) = seglen x" for x by (simp add: seg_def seglen_def)
  show ?thesis unfolding cmp_def list_eq_iff_nth_eq l using n by (auto simp: list_all_iff)
qed

lemma cmp_name: "CHR ''/'' \<notin> set a \<Longrightarrow> CHR ''/'' \<notin> set nm \<Longrightarrow> tail_ok r \<Longrightarrow> cmp a (nm @ r) \<longleftrightarrow> a = nm"
  by (simp add: cmp_iff seg_name seg_self)

lemma cmp_dots:
  assumes "comp_ok nm" "tail_ok r"
  shows "\<not> cmp (nm @ r) ''.''" "\<not> cmp (nm @ r) ''..''"
proof -
  have "seg (nm @ r) = nm" using assms seg_name by (simp add: comp_ok_def)
  moreover have "seg ''.'' = ''.''" "seg ''..'' = ''..''" by (simp_all add: seg_def)
  ultimately show "\<not> cmp (nm @ r) ''.''" "\<not> cmp (nm @ r) ''..''" using assms(1) by (simp_all add: cmp_iff comp_ok_def)
qed

lemma drop_slash: "comp_ok nm \<Longrightarrow> dropWhile (\<lambda>c. c = CHR ''/'') (nm @ r) = nm @ r"
  by (cases nm) (auto simp: comp_ok_def)

lemma next_comp_join:
  assumes "comp_ok nm" "\<forall>n \<in> set ns. comp_ok n"
  shows "next_comp (nm @ join_path ns) = (case ns of [] \<Rightarrow> [] | n # ns' \<Rightarrow> n @ join_path ns')"
proof -
  have "dropWhile (\<lambda>c. c \<noteq> CHR ''/'') (nm @ join_path ns) = join_path ns"
    using assms(1) by (intro drop_name) (simp_all add: comp_ok_def)
  then have n: "next_comp (nm @ join_path ns) = dropWhile (\<lambda>c. c = CHR ''/'') (join_path ns)"
    unfolding next_comp_def by (rule arg_cong)
  show ?thesis unfolding n using assms(2) drop_slash by (cases ns) simp_all
qed

section \<open>Resolving a path\<close>

text \<open>
  Going from a directory to the node of a name: the first child with that name, and where a file system is
  mounted on it, the root of that. \<open>enter\<close> adds what the walk asks of the directory.
\<close>

definition child_named :: "'a vfs_scheme \<Rightarrow> nid \<Rightarrow> string \<Rightarrow> nid \<Rightarrow> bool" where
  "child_named s d nm c \<longleftrightarrow> comp_ok nm \<and> (\<exists>r n. vfs_exist (Some d) nm s = Inr (Some r) \<and> nodes s r = Some n \<and>
     (if n_mnt n then n_child n \<noteq> [] \<and> c = hd (n_child n) else c = r))"

definition enter :: "'a vfs_scheme \<Rightarrow> nid \<Rightarrow> bool" where
  "enter s d \<longleftrightarrow> (\<exists>n. nodes s d = Some n \<and> S_ISDIR (n_mode n) \<and> vfs_permission n MAY_EXEC s = 0)"

primrec resolves :: "'a vfs_scheme \<Rightarrow> nid \<Rightarrow> string list \<Rightarrow> nid \<Rightarrow> bool" where
  "resolves s d [] c \<longleftrightarrow> c = d"
| "resolves s d (nm # ns) c \<longleftrightarrow> (\<exists>c'. child_named s d nm c' \<and> (ns = [] \<or> enter s d) \<and> resolves s c' ns c)"

lemma find_child_cong:
  assumes "seg p = seg q"
  shows "find_child cs p s = find_child cs q s"
proof -
  have c: "cmp n p = cmp n q" for n using assms by (simp add: cmp_iff)
  show ?thesis by (induction cs) (simp_all add: c cong: if_cong)
qed

lemma no_gainmnt: "NOT (args :: u64) AND FS_GAINMNT \<noteq> 0 \<longleftrightarrow> args AND FS_GAINMNT = 0"
proof -
  have g: "FS_GAINMNT = push_bit 33 (mask 1)" by (simp add: FS_GAINMNT_def mask_eq_exp_minus_1)
  have b: "bit (x AND FS_GAINMNT) n \<longleftrightarrow> n = 33 \<and> bit x 33" for x n
    unfolding g bit_and_iff bit_push_bit_iff bit_mask_iff by auto
  have "x AND FS_GAINMNT = 0 \<longleftrightarrow> \<not> bit x 33" for x
    by (metis b bit_0_eq bot_apply bot_bool_def bit_word_eqI)
  then show ?thesis by (simp add: bit_not_iff)
qed

lemma open1_child:
  assumes "child_named s d nm c" "tail_ok r" "args AND FS_GAINMNT = 0"
  shows "vfs_open1 op (Some d) (nm @ r) args mode s = Inr (0, Some c, s)"
proof -
  obtain i n where i: "comp_ok nm" "vfs_exist (Some d) nm s = Inr (Some i)" "nodes s i = Some n"
      "if n_mnt n then n_child n \<noteq> [] \<and> c = hd (n_child n) else c = i"
    using assms(1) unfolding child_named_def by blast
  have "seg (nm @ r) = seg nm" using i(1) assms(2) by (simp add: comp_ok_def seg_name seg_self)
  then have t: "find_child cs (nm @ r) s = find_child cs nm s" for cs by (rule find_child_cong)
  have "vfs_exist (Some d) (nm @ r) s = Inr (Some i)"
    using i(2) unfolding vfs_exist_def t .
  then show ?thesis
    using cmp_dots [OF i(1) assms(2)] i(3,4) assms(3)
    by (auto simp: vfs_open1_def deref_def no_gainmnt split: list.splits if_splits)
qed

lemma resolves_names: "resolves s d ns c \<Longrightarrow> \<forall>n \<in> set ns. comp_ok n"
  by (induction ns arbitrary: d) (auto simp: child_named_def)

lemma gain_no_mnt: "FS_GAIN AND FS_GAINMNT = 0"
  by (simp add: FS_GAIN_def FS_GAINMNT_def)

text \<open>The walk stops at the directory of the last name.\<close>

lemma walk_resolves:
  assumes "resolves s d (ns @ [nm]) c"
  shows "\<exists>d'. walk_loop op (Some d) (tl (join_path (ns @ [nm]))) s = Inr (nm, Some d', s) \<and> child_named s d' nm c"
  using assms
proof (induction ns arbitrary: d)
  case Nil
  then have c: "child_named s d nm c" by simp
  then have "next_comp nm = []" using next_comp_join [of nm "[]"] by (simp add: child_named_def)
  then show ?case using c by (simp add: walk_loop.simps)
next
  case (Cons n ns)
  let ?ns = "ns @ [nm]"
  obtain c' where c': "child_named s d n c'" "enter s d" "resolves s c' ?ns c" using Cons.prems by auto
  obtain x where x: "nodes s d = Some x" "S_ISDIR (n_mode x)" "vfs_permission x MAY_EXEC s = 0" using c'(2) unfolding enter_def by blast
  have ok: "comp_ok n" "\<forall>k \<in> set ?ns. comp_ok k" using c'(1) resolves_names [OF c'(3)] by (auto simp: child_named_def)
  obtain k ks where k: "?ns = k # ks" by (cases "?ns") auto
  have nx: "next_comp (n @ join_path ?ns) = tl (join_path ?ns)" using next_comp_join [OF ok] by (simp add: k)
  have "tl (join_path ?ns) \<noteq> []" using ok(2) by (auto simp: k comp_ok_def)
  then have "walk_loop op (Some d) (n @ join_path ?ns) s = walk_loop op (Some c') (tl (join_path ?ns)) s"
    using x nx open1_child [OF c'(1) tail_ok_join gain_no_mnt, of op ?ns 0]
    by (subst walk_loop.simps) (simp add: deref_def)
  then show ?case using Cons.IH [OF c'(3)] by simp
qed

lemma open_resolves:
  assumes "resolves s (fs_root s) ns c" "ns \<noteq> []" "nodes s c = Some x" "args AND FS_GAINMNT = 0"
  shows "vfs_open op parent (join_path ns) args mode s =
    Inr (if args AND FS_GAIN \<noteq> 0 then (0, Some c, s)
         else let pr = vfs_permission x (access_want args s) s
              in if pr < 0 then (pr, None, s)
                 else if \<not> S_ISDIR (n_mode x) \<and> args AND O_DIRECTORY \<noteq> 0 then (- ENOTDIR, None, s)
                 else if S_ISDIR (n_mode x) \<and> NOT args AND O_DIRECTORY \<noteq> 0 then (- EISDIR, None, s)
                 else (0, Some c, s))"
proof -
  obtain ks nm where ns: "ns = ks @ [nm]" using assms(2) by (metis rev_exhaust)
  obtain d' where d': "walk_loop op (Some (fs_root s)) (tl (join_path ns)) s = Inr (nm, Some d', s)" "child_named s d' nm c"
    using walk_resolves assms(1) unfolding ns by blast
  obtain k ks' where k: "ns = k # ks'" using assms(2) by (cases ns) auto
  have "comp_ok k" using resolves_names [OF assms(1)] by (simp add: k)
  then have "dropWhile (\<lambda>c. c = CHR ''/'') (join_path ns) = tl (join_path ns)" using drop_slash by (simp add: k)
  moreover have "join_path ns \<noteq> []" "hd (join_path ns) = CHR ''/''" by (simp_all add: k)
  ultimately have "vfs_walkd op parent (join_path ns) s = Inr (nm, Some d', s)" using d'(1) by (simp add: vfs_walkd_def)
  moreover have "vfs_open1 op (Some d') nm args mode s = Inr (0, Some c, s)"
    using open1_child [OF d'(2), of "[]" args op mode] assms(4) by (simp add: tail_ok_def)
  ultimately show ?thesis using assms(3) by (simp add: vfs_open_def deref_def Let_def)
qed

section \<open>The path of a node\<close>

text \<open>
  \<open>placed s r c ns\<close>: the names \<open>ns\<close> lead from the root to \<open>c\<close>, through directories that the task may search;
  parent pointers lead back. \<open>r\<close> is the mount point when \<open>c\<close> is the root of a mounted file
  system and \<open>c\<close> itself otherwise.
\<close>

inductive placed :: "'a vfs_scheme \<Rightarrow> nid \<Rightarrow> nid \<Rightarrow> string list \<Rightarrow> bool" for s where
  placed_root: "nodes s (fs_root s) = Some x \<Longrightarrow> n_parent x = Some (fs_root s) \<Longrightarrow> \<not> n_mnt x \<Longrightarrow> placed s (fs_root s) (fs_root s) []"
| placed_child: "placed s r' d ns \<Longrightarrow> nodes s d = Some dn \<Longrightarrow> \<not> n_mnt dn \<Longrightarrow> enter s d \<Longrightarrow> comp_ok nm \<Longrightarrow>
    vfs_exist (Some d) nm s = Inr (Some r) \<Longrightarrow> nodes s r = Some n \<Longrightarrow> n_parent n = Some d \<Longrightarrow> n_name n = nm \<Longrightarrow> r \<noteq> d \<Longrightarrow>
    (if n_mnt n then n_child n \<noteq> [] \<and> c = hd (n_child n) \<and> (\<exists>cn. nodes s c = Some cn \<and> n_parent cn = Some r) else c = r) \<Longrightarrow>
    placed s r c (ns @ [nm])"

lemma placed_rep:
  assumes "placed s r c ns"
  shows "\<exists>b cn. vfs_isaroot (Some c) s = Inr b \<and> nodes s c = Some cn \<and> (if b then n_parent cn = Some r else r = c)"
  using assms
proof cases
  case (placed_root x)
  then show ?thesis by (auto simp: vfs_isaroot_def vfs_ismount_def deref_def)
next
  case (placed_child r' d ns dn nm n)
  then show ?thesis by (auto simp: vfs_isaroot_def vfs_ismount_def deref_def split: if_splits)
qed

lemma join_snoc: "join_path (ns @ [nm]) = join_path ns @ CHR ''/'' # nm"
  by (induction ns) simp_all

primrec path_to :: "'a vfs_scheme \<Rightarrow> nid \<Rightarrow> string list \<Rightarrow> nid \<Rightarrow> bool" where
  "path_to s d [] c \<longleftrightarrow> c = d"
| "path_to s d (nm # ns) c \<longleftrightarrow> (\<exists>c'. child_named s d nm c' \<and> enter s d \<and> path_to s c' ns c)"

lemma path_to_snoc: "path_to s d (ns @ [nm]) c \<longleftrightarrow> (\<exists>c'. path_to s d ns c' \<and> enter s c' \<and> child_named s c' nm c)"
  by (induction ns arbitrary: d) auto

lemma path_to_resolves: "path_to s d ns c \<Longrightarrow> resolves s d ns c"
  by (induction ns arbitrary: d) auto

lemma placed_path: "placed s r c ns \<Longrightarrow> path_to s (fs_root s) ns c"
proof (induction rule: placed.induct)
  case (placed_child r' d ns dn nm r n c)
  then have "child_named s d nm c" unfolding child_named_def by auto
  then show ?case using placed_child unfolding path_to_snoc by blast
qed simp

lemma placed_loop:
  assumes "placed s r c ns"
  shows "getpath_loop (Suc (length ns) + k) (Some r) acc s = Some (Inr (join_path ns @ acc))"
  using assms
proof (induction arbitrary: acc)
  case (placed_root x)
  then show ?case by (simp add: deref_def)
next
  case (placed_child r' d ns dn nm r n c)
  obtain b cn where b: "vfs_isaroot (Some d) s = Inr b" "nodes s d = Some cn" "if b then n_parent cn = Some r' else r' = d"
    using placed_rep [OF placed_child.hyps(1)] by blast
  have "getprt_mp (Some r) s = Inr (Some r')"
    using placed_child.hyps b by (auto simp: getprt_mp_def vfs_isaroot_def vfs_ismount_def deref_def split: if_splits)
  then show ?case using placed_child.hyps placed_child.IH [of "CHR ''/'' # nm @ acc"] by (simp add: deref_def join_snoc)
qed

lemma getpath_placed:
  assumes "placed s r c ns" "length ns < fuel" "of_nat (length (join_path ns) + 1) \<le> bufsz"
  shows "vfs_getpath fuel (Some c) bufsz s = Some (Inr (0, Some (join_path ns), of_nat (length (join_path ns) + 1)))"
proof -
  obtain b cn where b: "vfs_isaroot (Some c) s = Inr b" "nodes s c = Some cn" "if b then n_parent cn = Some r else r = c"
    using placed_rep [OF assms(1)] by blast
  obtain k where k: "fuel = Suc (length ns) + k" using assms(2) by (metis Suc_leI le_Suc_ex)
  have "(if b then (case deref (Some c) s of Inl _ \<Rightarrow> None | Inr nn \<Rightarrow> n_parent nn) else Some c) = Some r"
    using b(2,3) by (auto simp: deref_def)
  then show ?thesis
    using b(1) placed_loop [OF assms(1), of k "[]"] assms(3) unfolding k by (simp add: vfs_getpath_def not_less [symmetric] del: getpath_loop.simps)
qed

text \<open>
  C19. \<open>vfs_getpath\<close> and \<open>vfs_open\<close> are inverse to each other: for every node below the root that the task can
  reach, also across mount points, \<open>vfs_getpath\<close> writes a path into a large enough buffer, stores
  its size with the final null through the pointer \<open>size\<close> and returns zero, not this size as its comment in fs.h says (lengths fit an \<open>int\<close>); and opening this path from any directory gives the node
  back without a change of the tree.
\<close>

theorem getpath_open_roundtrip:
  assumes "placed s r c ns" "ns \<noteq> []" "length ns < fuel" "length (join_path ns) + 1 < 2 ^ 31"
    "of_nat (length (join_path ns) + 1) \<le> bufsz"
  shows "\<exists>path. vfs_getpath fuel (Some c) bufsz s = Some (Inr (0, Some path, of_nat (length path + 1))) \<and>
    vfs_open op parent path FS_GAIN mode s = Inr (0, Some c, s)"
proof -
  obtain cn where "nodes s c = Some cn" using placed_rep [OF assms(1)] by blast
  moreover have "FS_GAIN \<noteq> 0" by (simp add: FS_GAIN_def)
  ultimately show ?thesis
    using open_resolves [OF path_to_resolves [OF placed_path [OF assms(1)]] assms(2) _ gain_no_mnt] getpath_placed [OF assms(1,3,5)] by simp
qed

section \<open>Directories that may not be searched\<close>

text \<open>
  A directory without search permission for the task does not keep it out: the permission of the
  directory that holds the file is never asked for, and where the walk does ask, it turns the
  refusal into success: opening a path that leads on below the file opens the file itself.
\<close>

theorem search_permission_lost:
  assumes "enter s (fs_root s)" "child_named s (fs_root s) dn d" "nodes s d = Some x" "vfs_permission x MAY_EXEC s < 0"
    "child_named s d f c" "nodes s c = Some y" "\<not> S_ISDIR (n_mode y)" "vfs_permission y MAY_READ s = 0" "comp_ok g"
  shows "vfs_open op None (join_path [dn, f]) 0 mode s = Inr (0, Some c, s) \<and>
    vfs_open op None (join_path [dn, f, g]) 0 mode s = Inr (0, Some c, s)"
proof
  have z: "access_want 0 s = MAY_READ" by (simp add: access_want_def)
  show "vfs_open op None (join_path [dn, f]) 0 mode s = Inr (0, Some c, s)"
    using open_resolves [of s "[dn, f]" c y 0] assms z by auto
  have ok: "comp_ok dn" "comp_ok f" using assms(2,5) by (simp_all add: child_named_def)
  have nx: "next_comp (dn @ join_path [f, g]) = f @ join_path [g]" "next_comp (f @ join_path [g]) = g @ join_path []"
    using next_comp_join [of dn "[f, g]"] next_comp_join [of f "[g]"] ok assms(9) by simp_all
  have ne: "f @ join_path [g] \<noteq> []" "g @ join_path [] \<noteq> []" using ok assms(9) by (auto simp: comp_ok_def)
  obtain rn where rn: "nodes s (fs_root s) = Some rn" "S_ISDIR (n_mode rn)" "vfs_permission rn MAY_EXEC s = 0"
    using assms(1) unfolding enter_def by blast
  have "walk_loop op (Some d) (f @ join_path [g]) s = Inr (f @ join_path [g], Some d, s)"
    using nx(2) ne(2) assms(3,4) by (subst walk_loop.simps) (simp add: deref_def)
  moreover have "vfs_open1 op (Some (fs_root s)) (dn @ join_path [f, g]) FS_GAIN 0 s = Inr (0, Some d, s)"
    by (rule open1_child [OF assms(2) tail_ok_join gain_no_mnt])
  ultimately have "walk_loop op (Some (fs_root s)) (dn @ join_path [f, g]) s = Inr (f @ join_path [g], Some d, s)"
    using nx(1) ne(1) rn by (subst walk_loop.simps) (simp add: deref_def)
  moreover have "dropWhile (\<lambda>c. c = CHR ''/'') (join_path [dn, f, g]) = dn @ join_path [f, g]"
    using drop_slash [OF ok(1)] by simp
  ultimately have "vfs_walkd op None (join_path [dn, f, g]) s = Inr (f @ join_path [g], Some d, s)"
    by (simp add: vfs_walkd_def)
  moreover have "vfs_open1 op (Some d) (f @ join_path [g]) 0 mode s = Inr (0, Some c, s)"
    by (rule open1_child [OF assms(5) tail_ok_join]) simp
  ultimately show "vfs_open op None (join_path [dn, f, g]) 0 mode s = Inr (0, Some c, s)"
    using assms(6-8) z by (simp add: vfs_open_def deref_def)
qed

section \<open>Changes of owner and mode\<close>

lemma insgrp_mem: "insgrp gs g = Inr True \<Longrightarrow> g \<in> set gs"
  by (induction gs) (auto split: if_splits)

text \<open>
  Without privilege no task gives a file away: whatever it asks of \<open>chown\<close>, the owner stays, the group
  stays or becomes one of the groups of the task, and after an error nothing has changed.
\<close>

theorem chown_keeps_owner:
  assumes "t_euid s \<noteq> 0" "nodes s i = Some n" "vfs_chown m_chown i owner grp s = Inr (ret, s')"
  shows "(ret = 0 \<or> ret = - EPERM \<and> s' = s) \<and>
    (\<exists>n'. nodes s' i = Some n' \<and> n_uid n' = n_uid n \<and> (n_gid n' = n_gid n \<or> n_gid n' = t_egid s \<or> n_gid n' \<in> set (t_supgids s))) \<and>
    (\<forall>j. j \<noteq> i \<longrightarrow> nodes s' j = nodes s j)"
proof -
  have m: "m_chown i u g ap s = Inr (ret', s'') \<Longrightarrow> ret' = 0 \<and> (\<exists>n'. nodes s'' = (nodes s)(i \<mapsto> n') \<and> n_uid n' = u \<and> n_gid n' = g)" for u g ap ret' s''
    using assms(2) by (auto simp: m_chown_def deref_def set_node_def Let_def)
  have "ret = 0 \<and> s' = s \<or> ret = - EPERM \<and> s' = s \<or>
    (\<exists>u g. u = n_uid n \<and> (g = t_egid s \<or> insgrp (t_supgids s) g = Inr True) \<and> (\<exists>r. m_chown i u g False s = Inr (r, s') \<and> ret = (if r < 0 then r else 0)))"
    using assms by (auto simp: vfs_chown_def deref_def Let_def bind_result_eq_Inr split: if_splits)
  then show ?thesis using m assms(2) insgrp_mem by fastforce
qed

text \<open>
  The comment over \<open>vfs_chown\<close> allows a change of the group only to the owner of the file; the
  code does not ask for it: any task can move any file into its own effective group.
\<close>

theorem chown_group_by_anyone:
  assumes "nodes s i = Some n" "t_euid s \<noteq> 0" "t_euid s \<noteq> n_uid n" "t_egid s \<noteq> - 1" "t_egid s \<noteq> n_gid n"
  shows "\<exists>s' n'. vfs_chown m_chown i (- 1) (t_egid s) s = Inr (0, s') \<and> nodes s' i = Some n' \<and> n_gid n' = t_egid s"
  using assms by (simp add: vfs_chown_def m_chown_def deref_def set_node_def Let_def)

lemma mask_merge: "(((a AND NOT k) OR (m AND k AND k)) AND NOT e) AND k = m AND k AND NOT (e :: u32)"
  by (rule bit_word_eqI) (auto simp: bit_and_iff bit_or_iff bit_not_iff)

text \<open>
  For a task outside the group of the file \<open>chmod\<close> should drop the set-group-id bit; it drops the
  execute permission of the group and keeps the bit.
\<close>

theorem chmod_keeps_setgid:
  assumes "nodes s i = Some n" "t_euid s \<noteq> 0" "t_euid s = n_uid n" "insgrp (t_supgids s) (n_gid n) = Inr False"
  shows "\<exists>s' n'. vfs_chmod m_chmod i mode s = Inr (0, s') \<and> nodes s' i = Some n' \<and>
    n_mode n' AND 0xFFF = mode AND 0xFFF AND NOT 0x8"
proof -
  let ?m = "(n_mode n AND NOT 0xFFF) OR (mode AND 0xFFF AND 0xFFF)"
  have "vfs_chmod m_chmod i mode s = Inr (0, set_node i (n\<lparr>n_mode := ?m AND NOT 0x8, n_ctime := now s\<rparr>) s)"
    using assms by (simp add: vfs_chmod_def m_chmod_def deref_def Let_def)
  moreover have "(?m AND NOT 0x8) AND 0xFFF = mode AND 0xFFF AND NOT (0x8 :: u32)"
    by (rule mask_merge)
  ultimately show ?thesis by (simp add: set_node_def)
qed

text \<open>
  Mounting a file system and unmounting it again gives the directory its entries back, provided
  the block that \<open>malloc\<close> gave for the mount stack was zero, as the code takes for granted.
\<close>

theorem mount_umount_roundtrip:
  assumes "nodes s d = Some n" "n_mount n = None" "\<not> n_mnt n" "nodes s r = Some m" "r \<noteq> d"
  shows "\<exists>s1 s2 n'. vfs_mount \<lparr>mt_siz = 0, mt_chd = [], mt_pop = False\<rparr> d r s = Inr s1 \<and>
    vfs_umount d s1 = Inr s2 \<and>
    nodes s2 d = Some n' \<and> n_child n' = n_child n \<and> \<not> n_mnt n' \<and> n_parent n' = n_parent n \<and>
    (\<forall>j. j \<noteq> d \<and> j \<noteq> r \<longrightarrow> nodes s2 j = nodes s j)"
  using assms by (simp add: vfs_mount_def vfs_umount_def deref_def set_node_def Let_def)

section \<open>Witnesses\<close>

text \<open>
  A root with a directory \<open>tmp\<close>, on which the file system with root 2 is mounted, and in that a directory
  \<open>d\<close> of another owner without search permission, with the file \<open>f\<close> in it.
\<close>

definition plain_node :: "string \<Rightarrow> u32 \<Rightarrow> u32 \<Rightarrow> nid \<Rightarrow> nid list \<Rightarrow> node" where
  "plain_node nm mode uid prt chd = \<lparr>n_name = nm, n_mnt = False, n_siz = 0, n_ino = 0, n_uid = uid, n_gid = 0, n_mode = mode,
     n_atime = 0, n_mtime = 0, n_ctime = 0, n_dev = 0, n_rdev = 0, n_mount = None, n_pdata = 0, n_parent = Some prt, n_child = chd\<rparr>"

definition vfs_demo :: vfs where
  "vfs_demo = \<lparr>nodes = [0 \<mapsto> plain_node '''' 0x41ED 0 0 [1, 3], 1 \<mapsto> (plain_node ''tmp'' 0x41ED 0 0 [2])\<lparr>n_mnt := True\<rparr>,
       2 \<mapsto> plain_node '''' 0x41ED 0 1 [4], 3 \<mapsto> plain_node ''d'' 0x41C0 0 0 [5], 4 \<mapsto> plain_node ''x'' 0x81A4 0 2 [],
       5 \<mapsto> plain_node ''f'' 0x81A4 7 3 []],
     fs_root = 0, t_euid = 7, t_egid = 7, t_supgids = [9, - 1], now = 0, junk = plain_node '''' 0 0 0 [], stack_junk = 0\<rparr>"

lemmas demo_eval = vfs_demo_def plain_node_def vfs_exist_def deref_def cmp_def seglen_def comp_ok_def enter_def S_ISDIR_def S_IFMT_def
  vfs_permission_def MAY_EXEC_def MAY_READ_def MAY_WRITE_def Let_def upt_rec

lemma demo_mounted: "placed vfs_demo 1 2 [''tmp'']"
proof -
  have "placed vfs_demo (fs_root vfs_demo) (fs_root vfs_demo) []"
    by (rule placed_root [where x = "plain_node '''' 0x41ED 0 0 [1, 3]"]) (simp_all add: vfs_demo_def plain_node_def)
  then have a: "placed vfs_demo 0 0 []" by (simp add: vfs_demo_def)
  have "placed vfs_demo 1 2 ([] @ [''tmp''])"
    by (rule placed_child [OF a, where dn = "plain_node '''' 0x41ED 0 0 [1, 3]" and n = "(plain_node ''tmp'' 0x41ED 0 0 [2])\<lparr>n_mnt := True\<rparr>"])
       (simp_all add: demo_eval)
  then show ?thesis by simp
qed

lemma demo_placed: "placed vfs_demo 4 4 [''tmp'', ''x'']"
proof -
  have "placed vfs_demo 4 4 ([''tmp''] @ [''x''])"
    by (rule placed_child [OF demo_mounted, where dn = "plain_node '''' 0x41ED 0 1 [4]" and n = "plain_node ''x'' 0x81A4 0 2 []"])
       (simp_all add: demo_eval)
  then show ?thesis by simp
qed

lemma getpath_open_roundtrip_witness:
  "vfs_getpath 3 (Some 4) 64 vfs_demo = Some (Inr (0, Some ''/tmp/x'', 7)) \<and>
   vfs_open (\<lambda>d p a m s. Inr (- ENOENT, None, s)) None ''/tmp/x'' FS_GAIN 0 vfs_demo = Inr (0, Some 4, vfs_demo)"
proof -
  obtain path where p: "vfs_getpath 3 (Some 4) 64 vfs_demo = Some (Inr (0, Some path, of_nat (length path + 1)))"
      "vfs_open (\<lambda>d p a m s. Inr (- ENOENT, None, s)) None path FS_GAIN 0 vfs_demo = Inr (0, Some 4, vfs_demo)"
    using getpath_open_roundtrip [OF demo_placed, of 3 64 "\<lambda>d p a m s. Inr (- ENOENT, None, s)" None 0] by auto
  have "vfs_getpath 3 (Some 4) 64 vfs_demo = Some (Inr (0, Some ''/tmp/x'', 7))"
    by (simp add: vfs_getpath_def numeral_3_eq_3 vfs_isaroot_def vfs_ismount_def getprt_mp_def deref_def vfs_demo_def plain_node_def)
  then show ?thesis using p by auto
qed

lemma search_permission_lost_witness:
  "vfs_open (\<lambda>d p a m s. Inr (- ENOENT, None, s)) None ''/d/f/g'' 0 0 vfs_demo = Inr (0, Some 5, vfs_demo)"
proof -
  have "child_named vfs_demo (fs_root vfs_demo) ''d'' 3" "child_named vfs_demo 3 ''f'' 5"
    unfolding child_named_def by (simp_all add: demo_eval)
  moreover have "enter vfs_demo (fs_root vfs_demo)" "comp_ok ''g''" by (simp_all add: demo_eval)
  moreover have "nodes vfs_demo 3 = Some (plain_node ''d'' 0x41C0 0 0 [5])" "nodes vfs_demo 5 = Some (plain_node ''f'' 0x81A4 7 3 [])"
    by (simp_all add: vfs_demo_def)
  moreover have "vfs_permission (plain_node ''d'' 0x41C0 0 0 [5]) MAY_EXEC vfs_demo < 0"
    "vfs_permission (plain_node ''f'' 0x81A4 7 3 []) MAY_READ vfs_demo = 0" "\<not> S_ISDIR (n_mode (plain_node ''f'' 0x81A4 7 3 []))"
    by (simp_all add: demo_eval EACCES_def)
  ultimately show ?thesis
    using search_permission_lost [of vfs_demo "''d''" 3 _ "''f''" 5 _ "''g''" "\<lambda>d p a m s. Inr (- ENOENT, None, s)" 0] by simp
qed

lemma chown_keeps_owner_witness: "\<exists>s' n'. vfs_chown m_chown 5 3 9 vfs_demo = Inr (- EPERM, s') \<and> nodes s' 5 = Some n' \<and> n_uid n' = 7"
proof -
  have e: "vfs_chown m_chown 5 3 9 vfs_demo = Inr (- EPERM, vfs_demo)" "t_euid vfs_demo \<noteq> 0"
      "nodes vfs_demo 5 = Some (plain_node ''f'' 0x81A4 7 3 [])"
    by (simp_all add: vfs_chown_def demo_eval)
  then show ?thesis using chown_keeps_owner [OF e(2,3,1)] by (auto simp: plain_node_def)
qed

lemma chown_group_by_anyone_witness: "\<exists>s' n'. vfs_chown m_chown 4 (- 1) 7 vfs_demo = Inr (0, s') \<and> nodes s' 4 = Some n' \<and> n_gid n' = 7"
  using chown_group_by_anyone [of vfs_demo 4 "plain_node ''x'' 0x81A4 0 2 []"] by (simp add: vfs_demo_def plain_node_def)

lemma chmod_keeps_setgid_witness: "\<exists>s' n'. vfs_chmod m_chmod 5 0x5ED vfs_demo = Inr (0, s') \<and> nodes s' 5 = Some n' \<and> n_mode n' AND 0xFFF = 0x5E5"
  using chmod_keeps_setgid [of vfs_demo 5 "plain_node ''f'' 0x81A4 7 3 []" "0x5ED"] by (simp add: vfs_demo_def plain_node_def)

lemma mount_umount_roundtrip_witness:
  "\<exists>s1 s2 n'. vfs_mount \<lparr>mt_siz = 0, mt_chd = [], mt_pop = False\<rparr> 3 2 vfs_demo = Inr s1 \<and> vfs_umount 3 s1 = Inr s2 \<and>
     nodes s2 3 = Some n' \<and> n_child n' = [5]"
  using mount_umount_roundtrip [of vfs_demo 3 "plain_node ''d'' 0x41C0 0 0 [5]" 2 "plain_node '''' 0x41ED 0 1 [4]"]
  by (auto simp: vfs_demo_def plain_node_def)

end
