(* ===== verification/File.thy ===== *)
theory File
  imports Vfs Transition
begin

unbundle bit_operations_syntax

text \<open>
  kernel/file.c: the descriptors of a task. The table maps a descriptor to an open file on the kernel heap; several
  descriptors may share one. The file system below is a record of operations on a state \<open>'s\<close>; its
  operations return a number and, for a read, the bytes. What a fresh block of \<open>malloc\<close>
  contains is \<open>f_junk\<close>, an uninitialised descriptor \<open>f_junkfd\<close>. A descriptor outside the table makes the code leave the array.
\<close>

section \<open>State\<close>

definition MAX_FILE :: nat where "MAX_FILE = 16"
definition IOV_MAX :: int where "IOV_MAX = 1024"
definition EBADF :: int where "EBADF = 9"
definition ENOMEM :: int where "ENOMEM = 12"
definition EMFILE :: int where "EMFILE = 24"
definition ENOSPC :: int where "ENOSPC = 28"
definition ENOSYS :: int where "ENOSYS = 38"

record file_t =
  fl_offset :: u64
  fl_node :: nid
  fl_flgs :: u32
  fl_fdfl :: u32
  fl_refer :: int

record 's fdesc =
  fs_st :: 's
  f_heap :: "nat \<Rightarrow> file_t option"
  f_next :: nat
  f_tab :: "nat option list"
  f_junk :: file_t
  f_nomem :: bool
  f_junkfd :: int

record 's fsops =
  vo_open :: "string \<Rightarrow> u64 \<Rightarrow> u32 \<Rightarrow> 's \<Rightarrow> (int \<times> nid option \<times> 's) result"
  vo_read :: "nid \<Rightarrow> u64 \<Rightarrow> u64 \<Rightarrow> 's \<Rightarrow> (int \<times> bytes \<times> 's) result"
  vo_write :: "nid \<Rightarrow> bytes \<Rightarrow> u64 \<Rightarrow> 's \<Rightarrow> (int \<times> 's) result"
  vo_truncate :: "nid \<Rightarrow> u64 \<Rightarrow> 's \<Rightarrow> 's result"
  vo_close :: "nid \<Rightarrow> 's \<Rightarrow> (int \<times> 's) result"
  vo_siz :: "nid \<Rightarrow> 's \<Rightarrow> u64 result"
  vo_mode :: "nid \<Rightarrow> 's \<Rightarrow> u32 result"

definition O_WRONLY :: u32 where "O_WRONLY = 1"
definition O_RDWR :: u32 where "O_RDWR = 2"
definition O_TRUNC :: u32 where "O_TRUNC = 0x200"
definition O_APPEND :: u32 where "O_APPEND = 0x400"
definition O_DIR :: u32 where "O_DIR = 0x10000"

text \<open>\<open>task_current()->files[fd]\<close> and \<open>files[fd] = p\<close>.\<close>

definition slot :: "int \<Rightarrow> 's fdesc \<Rightarrow> nat option result" where
  "slot fd f = (if 0 \<le> fd \<and> nat fd < length (f_tab f) then Inr (f_tab f ! nat fd) else Inl BadAccess)"

definition set_slot :: "int \<Rightarrow> nat option \<Rightarrow> 's fdesc \<Rightarrow> 's fdesc result" where
  "set_slot fd p f = (if 0 \<le> fd \<and> nat fd < length (f_tab f) then Inr (f\<lparr>f_tab := (f_tab f)[nat fd := p]\<rparr>) else Inl BadAccess)"

definition file_at :: "nat \<Rightarrow> 's fdesc \<Rightarrow> file_t result" where
  "file_at i f = (case f_heap f i of None \<Rightarrow> Inl BadAccess | Some x \<Rightarrow> Inr x)"

definition set_file :: "nat \<Rightarrow> file_t \<Rightarrow> 's fdesc \<Rightarrow> 's fdesc" where
  "set_file i x f = f\<lparr>f_heap := (f_heap f)(i \<mapsto> x)\<rparr>"

section \<open>Descriptors\<close>

definition fd_get :: "int \<Rightarrow> 's fdesc \<Rightarrow> int result" where
  "fd_get mn f =
     (if mn < 0 then Inl BadAccess
      else Inr (case List.find (\<lambda>i. f_tab f ! i = None) [nat mn..<MAX_FILE] of None \<Rightarrow> - EMFILE | Some i \<Rightarrow> int i))"

text \<open>The number, the address of the file and the state; the number is negative on failure.\<close>

definition file_get :: "int \<Rightarrow> 's fdesc \<Rightarrow> (int \<times> nat \<times> 's fdesc) result" where
  "file_get mn f =
     bind_result (fd_get mn f) (\<lambda>fd.
     if f_nomem f then bind_result (set_slot fd None f) (\<lambda>f1. Inr (- ENOMEM, 0, f1))
     else bind_result (set_slot fd (Some (f_next f)) f) (\<lambda>f1.
            Inr (fd, f_next f, (set_file (f_next f) (f_junk f) f1)\<lparr>f_next := Suc (f_next f)\<rparr>)))"

definition file_put :: "int \<Rightarrow> 's fdesc \<Rightarrow> (int \<times> 's fdesc) result" where
  "file_put fd f =
     bind_result (slot fd f) (\<lambda>p. case p of
       None \<Rightarrow> Inr (- EMFILE, f)
     | Some i \<Rightarrow> bind_result (set_slot fd None (f\<lparr>f_heap := (f_heap f)(i := None)\<rparr>)) (\<lambda>f1. Inr (0, f1)))"

definition sys_open :: "'s fsops \<Rightarrow> string \<Rightarrow> u32 \<Rightarrow> u32 \<Rightarrow> 's fdesc \<Rightarrow> (int \<times> 's fdesc) result" where
  "sys_open V path flgs mode f =
     bind_result (vo_open V path (ucast flgs) (mode AND 0x1FF) (fs_st f)) (\<lambda>(ret, node, st).
     if ret < 0 then Inr (ret, f\<lparr>fs_st := st\<rparr>)
     else case node of None \<Rightarrow> Inl BadAccess | Some n \<Rightarrow>
       bind_result (file_get 0 (f\<lparr>fs_st := st\<rparr>)) (\<lambda>(fd, i, f1).
       if fd < 0 then if f_junkfd f1 \<ge> 0 then bind_result (file_put (f_junkfd f1) f1) (\<lambda>(_, f2). Inr (- EMFILE, f2)) else Inr (- EMFILE, f1)
       else if flgs AND (O_WRONLY OR O_RDWR) = 0 \<and> flgs AND O_APPEND \<noteq> 0
       then bind_result (file_put fd f1) (\<lambda>(_, f2). Inr (- EINVAL, f2))
       else bind_result (if flgs AND (O_WRONLY OR O_RDWR) \<noteq> 0 \<and> flgs AND O_TRUNC \<noteq> 0
                         then bind_result (vo_truncate V n 0 (fs_st f1)) (\<lambda>st1. Inr (f1\<lparr>fs_st := st1\<rparr>)) else Inr f1) (\<lambda>f2.
            bind_result (file_at i f2) (\<lambda>x.
              Inr (fd, set_file i (x\<lparr>fl_refer := 1, fl_offset := 0, fl_node := n, fl_flgs := flgs\<rparr>) f2)))))"

definition sys_read :: "'s fsops \<Rightarrow> int \<Rightarrow> u64 \<Rightarrow> 's fdesc \<Rightarrow> (int \<times> bytes \<times> 's fdesc) result" where
  "sys_read V fd cnt f =
     bind_result (slot fd f) (\<lambda>p. case p of None \<Rightarrow> Inr (- EBADF, [], f) | Some i \<Rightarrow>
     bind_result (file_at i f) (\<lambda>x.
       if fl_flgs x AND O_DIR \<noteq> 0 then Inr (- EISDIR, [], f)
       else if fl_flgs x AND 3 = O_WRONLY then Inr (- EBADF, [], f)
       else bind_result (vo_read V (fl_node x) cnt (fl_offset x) (fs_st f)) (\<lambda>(ret, bs, st).
            if ret < 0 then Inr (ret, bs, f\<lparr>fs_st := st\<rparr>)
            else Inr (ret, bs, set_file i (x\<lparr>fl_offset := fl_offset x + of_int ret\<rparr>) (f\<lparr>fs_st := st\<rparr>)))))"

text \<open>
  The loop of \<open>readv\<close> over the lengths of the vectors with an address: the bytes of each vector, their
  number, and the last result when it is negative. Every read starts at the same offset.
\<close>

primrec readv_loop :: "'s fsops \<Rightarrow> nid \<Rightarrow> u64 \<Rightarrow> (bool \<times> u64) list \<Rightarrow> int \<Rightarrow> 's \<Rightarrow> (int \<times> bytes list \<times> bool \<times> 's) result" where
  "readv_loop V n off [] acc st = Inr (acc, [], True, st)"
| "readv_loop V n off (iov # iovs) acc st =
     (if snd iov = 0 then readv_loop V n off iovs acc st
      else if \<not> fst iov then Inr (- EINVAL, [], False, st)
      else bind_result (vo_read V n (snd iov) off st) (\<lambda>(ret, bs, st1).
           if ret < 0 then Inr (ret, [], False, st1)
           else if ret = 0 then Inr (acc, [], True, st1)
           else bind_result (readv_loop V n off iovs (acc + ret) st1) (\<lambda>(r, bss, ok, st2). Inr (r, bs # bss, ok, st2))))"

definition sys_readv :: "'s fsops \<Rightarrow> int \<Rightarrow> (bool \<times> u64) list \<Rightarrow> 's fdesc \<Rightarrow> (int \<times> bytes list \<times> 's fdesc) result" where
  "sys_readv V fd iovs f =
     bind_result (slot fd f) (\<lambda>p. case p of None \<Rightarrow> Inr (- EBADF, [], f) | Some i \<Rightarrow>
     bind_result (file_at i f) (\<lambda>x.
       if fl_flgs x AND O_DIR \<noteq> 0 then Inr (- EISDIR, [], f)
       else if int (length iovs) \<ge> IOV_MAX then Inr (- EINVAL, [], f)
       else if fl_flgs x AND 3 = O_WRONLY then Inr (- EBADF, [], f)
       else bind_result (readv_loop V (fl_node x) (fl_offset x) iovs 0 (fs_st f)) (\<lambda>(r, bss, ok, st).
            Inr (r, bss, if ok then set_file i (x\<lparr>fl_offset := fl_offset x + of_int r\<rparr>) (f\<lparr>fs_st := st\<rparr>) else f\<lparr>fs_st := st\<rparr>))))"

definition sys_write :: "'s fsops \<Rightarrow> int \<Rightarrow> bytes \<Rightarrow> 's fdesc \<Rightarrow> (int \<times> 's fdesc) result" where
  "sys_write V fd bs f =
     bind_result (slot fd f) (\<lambda>p. case p of None \<Rightarrow> Inr (- EBADF, f) | Some i \<Rightarrow>
     bind_result (file_at i f) (\<lambda>x.
       if fl_flgs x AND 3 = 0 then Inr (- EBADF, f)
       else bind_result (if fl_flgs x AND O_APPEND \<noteq> 0 then vo_siz V (fl_node x) (fs_st f) else Inr (fl_offset x)) (\<lambda>off.
            bind_result (vo_write V (fl_node x) bs off (fs_st f)) (\<lambda>(ret, st).
            if ret < 0 then Inr (ret, f\<lparr>fs_st := st\<rparr>)
            else Inr (ret, set_file i (x\<lparr>fl_offset := off + of_int ret\<rparr>) (f\<lparr>fs_st := st\<rparr>))))))"

primrec writev_loop :: "'s fsops \<Rightarrow> nid \<Rightarrow> u64 \<Rightarrow> (bool \<times> bytes) list \<Rightarrow> int \<Rightarrow> 's \<Rightarrow> (int \<times> bool \<times> 's) result" where
  "writev_loop V n off [] acc st = Inr (acc, True, st)"
| "writev_loop V n off (iov # iovs) acc st =
     (if snd iov = [] then writev_loop V n off iovs acc st
      else if \<not> fst iov then Inr (- EINVAL, False, st)
      else bind_result (vo_write V n (snd iov) off st) (\<lambda>(ret, st1).
           if ret < 0 \<and> ret \<noteq> - ENOSPC then Inr (ret, False, st1)
           else if ret \<le> 0 then Inr (acc, True, st1)
           else writev_loop V n off iovs (acc + ret) st1))"

definition sys_writev :: "'s fsops \<Rightarrow> int \<Rightarrow> (bool \<times> bytes) list \<Rightarrow> 's fdesc \<Rightarrow> (int \<times> 's fdesc) result" where
  "sys_writev V fd iovs f =
     bind_result (slot fd f) (\<lambda>p. case p of None \<Rightarrow> Inr (- EBADF, f) | Some i \<Rightarrow>
     bind_result (file_at i f) (\<lambda>x.
       if fl_flgs x AND O_DIR \<noteq> 0 then Inr (- EISDIR, f)
       else if int (length iovs) \<ge> IOV_MAX then Inr (- EINVAL, f)
       else if fl_flgs x AND 3 = O_WRONLY then Inr (- EBADF, f)
       else bind_result (writev_loop V (fl_node x) (fl_offset x) iovs 0 (fs_st f)) (\<lambda>(r, ok, st).
            Inr (r, if ok then set_file i (x\<lparr>fl_offset := fl_offset x + of_int r\<rparr>) (f\<lparr>fs_st := st\<rparr>) else f\<lparr>fs_st := st\<rparr>))))"

definition sys_lseek :: "'s fsops \<Rightarrow> int \<Rightarrow> u64 \<Rightarrow> u32 \<Rightarrow> 's fdesc \<Rightarrow> (int \<times> 's fdesc) result" where
  "sys_lseek V fd off whence f =
     bind_result (slot fd f) (\<lambda>p. case p of None \<Rightarrow> Inr (- EBADF, f) | Some i \<Rightarrow>
     bind_result (file_at i f) (\<lambda>x.
     bind_result (vo_mode V (fl_node x) (fs_st f)) (\<lambda>m.
       if S_ISDIR m then Inr (- EISDIR, f)
       else bind_result (if whence = 0 then Inr off
                         else if whence = 1 then Inr (fl_offset x + off)
                         else if whence = 2 then bind_result (vo_siz V (fl_node x) (fs_st f)) (\<lambda>z. Inr (z + off))
                         else Inr (fl_offset x)) (\<lambda>o'.
            Inr (sint o', set_file i (x\<lparr>fl_offset := o'\<rparr>) f)))))"

definition sys_close :: "'s fsops \<Rightarrow> int \<Rightarrow> 's fdesc \<Rightarrow> (int \<times> 's fdesc) result" where
  "sys_close V fd f =
     bind_result (slot fd f) (\<lambda>p. case p of None \<Rightarrow> Inr (- EBADF, f) | Some i \<Rightarrow>
     bind_result (file_at i f) (\<lambda>x.
       let x1 = x\<lparr>fl_refer := fl_refer x - 1\<rparr>; f1 = set_file i x1 f
       in if fl_refer x1 > 0 then bind_result (set_slot fd None f1) (\<lambda>f2. Inr (0, f2))
          else bind_result (vo_close V (fl_node x) (fs_st f1)) (\<lambda>(ret, st).
               bind_result (set_slot fd None (f1\<lparr>fs_st := st, f_heap := (f_heap f1)(i := None)\<rparr>)) (\<lambda>f2. Inr (ret, f2)))))"

definition sys_dup2 :: "'s fsops \<Rightarrow> int \<Rightarrow> int \<Rightarrow> 's fdesc \<Rightarrow> (int \<times> 's fdesc) result" where
  "sys_dup2 V old new f =
     bind_result (slot old f) (\<lambda>p. case p of None \<Rightarrow> Inr (- EBADF, f) | Some i \<Rightarrow>
       if old = new then Inr (- EINVAL, f)
       else bind_result (slot new f) (\<lambda>q.
            bind_result (if q \<noteq> None then bind_result (sys_close V new f) (\<lambda>(_, f1). Inr f1) else Inr f) (\<lambda>f1.
            bind_result (file_at i f1) (\<lambda>x.
            bind_result (set_slot new (Some i) (set_file i (x\<lparr>fl_refer := fl_refer x + 1\<rparr>) f1)) (\<lambda>f2. Inr (new, f2))))))"

definition sys_dup :: "'s fsops \<Rightarrow> int \<Rightarrow> 's fdesc \<Rightarrow> (int \<times> 's fdesc) result" where
  "sys_dup V fd f =
     bind_result (fd_get 0 f) (\<lambda>new. if new < 0 then Inr (- EMFILE, f) else sys_dup2 V fd new f)"

definition sys_fcntl :: "'s fsops \<Rightarrow> int \<Rightarrow> int \<Rightarrow> int \<Rightarrow> 's fdesc \<Rightarrow> (int \<times> 's fdesc) result" where
  "sys_fcntl V fd cmd arg f =
     bind_result (slot fd f) (\<lambda>p. case p of None \<Rightarrow> Inr (- EBADF, f) | Some i \<Rightarrow>
     bind_result (file_at i f) (\<lambda>x.
       if cmd = 0
       then bind_result (file_get arg f) (\<lambda>(newfd, _, f1). if newfd < 0 then Inr (fd, f1) else sys_dup2 V fd newfd f1)
       else if cmd = 1 then Inr (sint (fl_fdfl x), f)
       else if cmd = 2 then Inr (0, set_file i (x\<lparr>fl_fdfl := of_int arg\<rparr>) f)
       else if cmd = 3 then Inr (sint (fl_flgs x), f)
       else if cmd = 4 then Inr (0, set_file i (x\<lparr>fl_flgs := (fl_flgs x AND NOT O_APPEND) OR of_int arg\<rparr>) f)
       else if 5 \<le> cmd \<and> cmd \<le> 11 then Inr (- ENOSYS, f)
       else Inr (- EINVAL, f)))"

text \<open>\<open>pipe\<close>: two descriptors for a node that \<open>pipe_init\<close> makes, here \<open>mk\<close>. The offsets stay what \<open>malloc\<close> left there.\<close>

definition sys_pipe :: "('s \<Rightarrow> (nid \<times> 's) result) \<Rightarrow> 's fdesc \<Rightarrow> (int \<times> int list \<times> 's fdesc) result" where
  "sys_pipe mk f =
     bind_result (file_get 0 f) (\<lambda>(fd0, i0, f1). if fd0 < 0 then Inl AssertFail else
     bind_result (file_get 0 f1) (\<lambda>(fd1, i1, f2). if fd1 < 0 then Inl AssertFail else
     bind_result (mk (fs_st f2)) (\<lambda>(n, st).
     bind_result (file_at i0 f2) (\<lambda>x0. bind_result (file_at i1 f2) (\<lambda>x1.
       Inr (0, [fd0, fd1], set_file i1 (x1\<lparr>fl_node := n, fl_refer := 1, fl_flgs := O_WRONLY\<rparr>)
         (set_file i0 (x0\<lparr>fl_node := n, fl_refer := 1, fl_flgs := 0\<rparr>) (f2\<lparr>fs_st := st\<rparr>))))))))"

text \<open>\<open>fork_fd\<close> of task.c: the child gets the table of its parent, and every open file in it is counted once more.\<close>

primrec fork_loop :: "nat option list \<Rightarrow> 's fdesc \<Rightarrow> 's fdesc result" where
  "fork_loop [] f = Inr f"
| "fork_loop (p # ps) f =
     (case p of None \<Rightarrow> fork_loop ps f
      | Some i \<Rightarrow> bind_result (file_at i f) (\<lambda>x. fork_loop ps (set_file i (x\<lparr>fl_refer := fl_refer x + 1\<rparr>) f)))"

definition fork_files :: "'s fdesc \<Rightarrow> (nat option list \<times> 's fdesc) result" where
  "fork_files f = bind_result (fork_loop (f_tab f) f) (\<lambda>f1. Inr (f_tab f, f1))"

section \<open>Counting the references\<close>

text \<open>The descriptors that lead to an open file: those of the running task and \<open>e i\<close> of other tasks.\<close>

definition refs :: "(nat \<Rightarrow> nat) \<Rightarrow> nat \<Rightarrow> 's fdesc \<Rightarrow> nat" where
  "refs e i f = count_list (f_tab f) (Some i) + e i"

definition counted :: "(nat \<Rightarrow> nat) \<Rightarrow> nat \<Rightarrow> 's fdesc \<Rightarrow> bool" where
  "counted e i f \<longleftrightarrow> (case f_heap f i of None \<Rightarrow> refs e i f = 0 | Some x \<Rightarrow> fl_refer x = int (refs e i f) \<and> 0 < refs e i f)"

definition finv :: "(nat \<Rightarrow> nat) \<Rightarrow> 's fdesc \<Rightarrow> bool" where
  "finv e f \<longleftrightarrow> length (f_tab f) = MAX_FILE \<and> \<not> f_nomem f \<and> (\<forall>i. f_next f \<le> i \<longrightarrow> f_heap f i = None) \<and> (\<forall>i. counted e i f)"

lemma count_update:
  assumes "j < length xs"
  shows "int (count_list (xs[j := y]) v) = int (count_list xs v) - (if xs ! j = v then 1 else 0) + (if y = v then 1 else 0)"
proof -
  obtain as bs where x: "xs = as @ xs ! j # bs" "length as = j" using id_take_nth_drop [OF assms] assms by (metis length_take min.absorb2 less_imp_le)
  define z where "z = xs ! j"
  have "xs[j := y] = as @ y # bs" using x by (metis list_update_length)
  moreover have "xs = as @ z # bs" using x by (simp add: z_def)
  ultimately show ?thesis unfolding z_def [symmetric] by simp
qed

lemma finvD:
  assumes "finv e f"
  shows "length (f_tab f) = MAX_FILE" "\<not> f_nomem f" "f_next f \<le> i \<Longrightarrow> f_heap f i = None"
    "f_heap f i = None \<Longrightarrow> refs e i f = 0" "f_heap f i = Some x \<Longrightarrow> fl_refer x = int (refs e i f) \<and> 0 < refs e i f"
proof -
  have "counted e i f" using assms unfolding finv_def by blast
  then show "f_heap f i = None \<Longrightarrow> refs e i f = 0" "f_heap f i = Some x \<Longrightarrow> fl_refer x = int (refs e i f) \<and> 0 < refs e i f" by (simp_all add: counted_def)
qed (use assms in \<open>simp_all add: finv_def\<close>)

lemma finv_slot:
  assumes "finv e f" "slot fd f = Inr (Some i)"
  shows "\<exists>x. f_heap f i = Some x" "0 \<le> fd" "nat fd < length (f_tab f)" "f_tab f ! nat fd = Some i"
proof -
  show b: "0 \<le> fd" "nat fd < length (f_tab f)" "f_tab f ! nat fd = Some i" using assms(2) by (auto simp: slot_def split: if_splits)
  then have "Some i \<in> set (f_tab f)" by (metis nth_mem)
  then have "refs e i f \<noteq> 0" unfolding refs_def by (simp add: count_list_0_iff)
  then show "\<exists>x. f_heap f i = Some x" using finvD(4) [OF assms(1), of i] by (cases "f_heap f i") auto
qed

text \<open>The changes of the state that the operations are made of.\<close>

lemma finv_fs [simp]: "finv e (f\<lparr>fs_st := st\<rparr>) = finv e f"
proof -
  have "counted e i (f\<lparr>fs_st := st\<rparr>) = counted e i f" for i by (simp add: counted_def refs_def split: option.split)
  then show ?thesis by (simp add: finv_def)
qed

lemma slot_fs [simp]: "slot fd (f\<lparr>fs_st := st\<rparr>) = slot fd f"
  by (simp add: slot_def)

lemma finv_cong: "f_tab f = f_tab g \<and> f_heap f = f_heap g \<and> f_next f = f_next g \<and> f_nomem f = f_nomem g \<Longrightarrow> finv e f = finv e g"
proof -
  assume h: "f_tab f = f_tab g \<and> f_heap f = f_heap g \<and> f_next f = f_next g \<and> f_nomem f = f_nomem g"
  then have "refs e i f = refs e i g" for i by (simp add: refs_def)
  then have "counted e i f = counted e i g" for i using h by (simp add: counted_def split: option.split)
  then show ?thesis using h by (simp add: finv_def)
qed

lemma finv_file:
  assumes "finv e f" "f_heap f i = Some x" "fl_refer y = fl_refer x"
  shows "finv e (set_file i y f)"
proof -
  have "counted e j (set_file i y f)" for j
    using finvD(4,5) [OF assms(1), of j] assms(2,3) by (auto simp: counted_def set_file_def refs_def split: option.split)
  then show ?thesis using finvD(1-3) [OF assms(1)] assms(2) by (auto simp: finv_def set_file_def)
qed

lemma finv_drop:
  assumes "finv e f" "slot fd f = Inr (Some i)" "f_heap f i = Some x" "fl_refer x > 1" "fl_refer y = fl_refer x - 1"
    "set_slot fd None (set_file i y f) = Inr f'"
  shows "finv e f'"
proof -
  note s = finv_slot [OF assms(1,2)]
  have f': "f' = (set_file i y f)\<lparr>f_tab := (f_tab f)[nat fd := None]\<rparr>" using assms(6) s by (simp add: set_slot_def set_file_def)
  have c: "int (refs e j f') = int (refs e j f) - (if j = i then 1 else 0)" for j
    unfolding refs_def f' using count_update [OF s(3), of None "Some j"] s(4) by (auto simp: set_file_def)
  have "counted e j f'" for j
    unfolding counted_def using c [of j] finvD(4,5) [OF assms(1), of j] assms(3-5) unfolding f' by (auto simp: set_file_def split: option.split)
  then show ?thesis using finvD(1-3) [OF assms(1)] assms(3) by (auto simp: finv_def f' set_file_def)
qed

lemma finv_free:
  assumes "finv e f" "slot fd f = Inr (Some i)" "f_heap f i = Some x" "fl_refer x = 1"
    "set_slot fd None (f\<lparr>f_heap := (f_heap f)(i := None)\<rparr>) = Inr f'"
  shows "finv e f'"
proof -
  note s = finv_slot [OF assms(1,2)]
  have f': "f' = f\<lparr>f_heap := (f_heap f)(i := None), f_tab := (f_tab f)[nat fd := None]\<rparr>" using assms(5) s by (simp add: set_slot_def)
  have c: "int (refs e j f') = int (refs e j f) - (if j = i then 1 else 0)" for j
    unfolding refs_def f' using count_update [OF s(3), of None "Some j"] s(4) by auto
  have "counted e j f'" for j
    unfolding counted_def using c [of j] finvD(4,5) [OF assms(1), of j] assms(3,4) unfolding f' by (auto split: option.split)
  then show ?thesis using finvD(1-3) [OF assms(1)] by (auto simp: finv_def f')
qed

lemma finv_add:
  assumes "finv e f" "f_heap f i = Some x" "slot fd f = Inr None" "fl_refer y = fl_refer x + 1"
    "set_slot fd (Some i) (set_file i y f) = Inr f'"
  shows "finv e f'"
proof -
  have b: "0 \<le> fd" "nat fd < length (f_tab f)" "f_tab f ! nat fd = None" using assms(3) by (auto simp: slot_def split: if_splits)
  have f': "f' = (set_file i y f)\<lparr>f_tab := (f_tab f)[nat fd := Some i]\<rparr>" using assms(5) b by (simp add: set_slot_def set_file_def)
  have c: "int (refs e j f') = int (refs e j f) + (if j = i then 1 else 0)" for j
    unfolding refs_def f' using count_update [OF b(2), of "Some i" "Some j"] b(3) by (auto simp: set_file_def)
  have "counted e j f'" for j
    unfolding counted_def using c [of j] finvD(4,5) [OF assms(1), of j] assms(2,4) unfolding f' by (auto simp: set_file_def split: option.split)
  then show ?thesis using finvD(1-3) [OF assms(1)] assms(2) by (auto simp: finv_def f' set_file_def)
qed

lemma finv_new:
  assumes "finv e f" "k < length (f_tab f)" "f_tab f ! k = None" "fl_refer y = 1"
  shows "finv e (f\<lparr>f_tab := (f_tab f)[k := Some (f_next f)], f_heap := (f_heap f)(f_next f \<mapsto> y), f_next := Suc (f_next f)\<rparr>)" (is "finv e ?f")
proof -
  have c: "int (refs e j ?f) = int (refs e j f) + (if j = f_next f then 1 else 0)" for j
    unfolding refs_def using count_update [OF assms(2), of "Some (f_next f)" "Some j"] assms(3) by auto
  have z: "f_heap f (f_next f) = None" using finvD(3) [OF assms(1)] by simp
  have "counted e j ?f" for j
    unfolding counted_def using c [of j] finvD(4,5) [OF assms(1), of j] assms(4) z by (auto split: option.split)
  then show ?thesis using finvD(1-3) [OF assms(1)] unfolding finv_def by auto
qed

lemma finv_next: "finv e f \<Longrightarrow> finv e (f\<lparr>f_next := Suc (f_next f)\<rparr>)"
proof -
  assume f: "finv e f"
  have "counted e j (f\<lparr>f_next := Suc (f_next f)\<rparr>) = counted e j f" for j by (simp add: counted_def refs_def split: option.split)
  then show ?thesis using f by (simp add: finv_def)
qed

lemma find_slot:
  "List.find P [a..<b] = Some i \<longleftrightarrow> a \<le> i \<and> i < b \<and> P i \<and> (\<forall>j. a \<le> j \<and> j < i \<longrightarrow> \<not> P j)"
  "List.find P [a..<b] = None \<longleftrightarrow> (\<forall>j. a \<le> j \<and> j < b \<longrightarrow> \<not> P j)"
proof -
  show "List.find P [a..<b] = None \<longleftrightarrow> (\<forall>j. a \<le> j \<and> j < b \<longrightarrow> \<not> P j)" by (auto simp: find_None_iff)
  have "List.find P [a..<b] = Some i \<Longrightarrow> a \<le> i \<and> i < b \<and> P i \<and> (\<forall>j. a \<le> j \<and> j < i \<longrightarrow> \<not> P j)"
  proof -
    assume "List.find P [a..<b] = Some i"
    then obtain k where k: "k < b - a" "P ([a..<b] ! k)" "i = [a..<b] ! k" "\<forall>j<k. \<not> P ([a..<b] ! j)" by (auto simp: find_Some_iff)
    have "\<not> P j" if "a \<le> j" "j < i" for j using k(1,3,4) that by (auto dest!: spec [of _ "j - a"])
    then show ?thesis using k by auto
  qed
  moreover have "List.find P [a..<b] = Some i" if h: "a \<le> i \<and> i < b \<and> P i \<and> (\<forall>j. a \<le> j \<and> j < i \<longrightarrow> \<not> P j)"
    unfolding find_Some_iff using h by (intro exI [of _ "i - a"]) auto
  ultimately show "List.find P [a..<b] = Some i \<longleftrightarrow> a \<le> i \<and> i < b \<and> P i \<and> (\<forall>j. a \<le> j \<and> j < i \<longrightarrow> \<not> P j)" by blast
qed

lemma fd_get_spec:
  assumes "fd_get mn f = Inr fd"
  shows "0 \<le> mn \<and> (fd = - EMFILE \<and> (\<forall>j. nat mn \<le> j \<and> j < MAX_FILE \<longrightarrow> f_tab f ! j \<noteq> None) \<or>
    (\<exists>k. fd = int k \<and> nat mn \<le> k \<and> k < MAX_FILE \<and> f_tab f ! k = None \<and> (\<forall>j. nat mn \<le> j \<and> j < k \<longrightarrow> f_tab f ! j \<noteq> None)))"
proof (cases "List.find (\<lambda>i. f_tab f ! i = None) [nat mn..<MAX_FILE]")
  case None
  then show ?thesis using assms find_slot(2) [of "\<lambda>i. f_tab f ! i = None" "nat mn" MAX_FILE] by (auto simp: fd_get_def split: if_splits)
next
  case (Some k)
  have "0 \<le> mn" "fd = int k" using assms Some by (auto simp: fd_get_def split: if_splits)
  then show ?thesis using Some [unfolded find_slot(1)] by blast
qed

lemma file_get_room:
  assumes "length (f_tab f) = MAX_FILE" "\<not> f_nomem f" "file_get mn f = Inr (fd, i, f1)"
  shows "\<exists>k. fd = int k \<and> k < MAX_FILE \<and> f_tab f ! k = None \<and> (\<forall>j. nat mn \<le> j \<and> j < k \<longrightarrow> f_tab f ! j \<noteq> None) \<and> i = f_next f \<and>
    f1 = f\<lparr>f_tab := (f_tab f)[k := Some (f_next f)], f_heap := (f_heap f)(f_next f \<mapsto> f_junk f), f_next := Suc (f_next f)\<rparr>"
proof -
  obtain d where d: "fd_get mn f = Inr d" "set_slot d (Some (f_next f)) f \<noteq> Inl BadAccess"
    using assms by (auto simp: file_get_def bind_result_eq_Inr split: if_splits)
  then have "0 \<le> d" by (auto simp: set_slot_def split: if_splits)
  then obtain k where k: "d = int k" "k < MAX_FILE" "f_tab f ! k = None" "\<forall>j. nat mn \<le> j \<and> j < k \<longrightarrow> f_tab f ! j \<noteq> None"
    using fd_get_spec [OF d(1)] by (auto simp: EMFILE_def)
  then show ?thesis using assms d(1) by (auto simp: file_get_def set_slot_def set_file_def)
qed

lemma file_get_spec:
  assumes "finv e f" "file_get mn f = Inr (fd, i, f1)"
  shows "\<exists>k. fd = int k \<and> k < MAX_FILE \<and> f_tab f ! k = None \<and> (\<forall>j. nat mn \<le> j \<and> j < k \<longrightarrow> f_tab f ! j \<noteq> None) \<and> i = f_next f \<and>
    f1 = f\<lparr>f_tab := (f_tab f)[k := Some (f_next f)], f_heap := (f_heap f)(f_next f \<mapsto> f_junk f), f_next := Suc (f_next f)\<rparr>"
  by (rule file_get_room [OF finvD(1,2) [OF assms(1)] assms(2)])

lemma finv_open:
  assumes "finv e f" "sys_open V path flgs mode f = Inr (r, f')"
  shows "finv e f'"
proof -
  obtain ret node st where o: "vo_open V path (ucast flgs) (mode AND 0x1FF) (fs_st f) = Inr (ret, node, st)"
    using assms(2) by (auto simp: sys_open_def bind_result_eq_Inr)
  let ?f = "f\<lparr>fs_st := st\<rparr>"
  show ?thesis
  proof (cases "ret < 0")
    case True
    then have "f' = ?f" using assms(2) o by (simp add: sys_open_def)
    then show ?thesis using assms(1) by simp
  next
    case False
    then obtain n fd i f1 where n: "node = Some n" "file_get 0 ?f = Inr (fd, i, f1)"
      using assms(2) o by (auto simp: sys_open_def bind_result_eq_Inr split: option.splits)
    have fv: "finv e ?f" using assms(1) by simp
    obtain k where k: "fd = int k" "k < MAX_FILE" "f_tab f ! k = None" "i = f_next f"
      "f1 = ?f\<lparr>f_tab := (f_tab f)[k := Some (f_next f)], f_heap := (f_heap f)(f_next f \<mapsto> f_junk f), f_next := Suc (f_next f)\<rparr>"
      using file_get_spec [OF fv n(2)] by auto
    have l: "k < length (f_tab f)" "f_heap f (f_next f) = None" using k(2) finvD(1,3) [OF assms(1)] by simp_all
    then have same: "(f_tab f)[k := None] = f_tab f" "(f_heap f)(f_next f := None) = f_heap f" using k(3) by (metis list_update_id, simp add: fun_upd_idem)
    show ?thesis
    proof (cases "flgs AND (O_WRONLY OR O_RDWR) = 0 \<and> flgs AND O_APPEND \<noteq> 0")
      case True
      then have "f' = ?f\<lparr>f_next := Suc (f_next f)\<rparr>"
        using assms(2) o False n k l same by (simp add: sys_open_def file_put_def slot_def set_slot_def)
      then show ?thesis using finv_next [OF fv] by simp
    next
      case app: False
      let ?y = "(f_junk f)\<lparr>fl_refer := 1, fl_offset := 0, fl_node := n, fl_flgs := flgs\<rparr>"
      let ?g = "?f\<lparr>f_tab := (f_tab f)[k := Some (f_next f)], f_heap := (f_heap f)(f_next f \<mapsto> ?y), f_next := Suc (f_next f)\<rparr>"
      have "f_tab f' = f_tab ?g \<and> f_heap f' = f_heap ?g \<and> f_next f' = f_next ?g \<and> f_nomem f' = f_nomem ?g"
        using assms(2) o False n k app by (auto simp: sys_open_def bind_result_eq_Inr file_at_def set_file_def split: if_splits)
      then show ?thesis using finv_new [OF fv, of k ?y] l(1) k(3) finv_cong [of f' ?g] by simp
    qed
  qed
qed

text \<open>The operations on one open file change its offset and flags.\<close>

lemma finv_offset:
  assumes "finv e f" "slot fd f = Inr (Some i)" "file_at i f = Inr x" "fl_refer y = fl_refer x"
  shows "finv e (set_file i y (f\<lparr>fs_st := st\<rparr>))"
  using assms by (intro finv_file [of _ _ i x]) (auto simp: file_at_def split: option.splits)

text \<open>Every call begins with the look at the table.\<close>

lemma slotE:
  assumes "bind_result (slot fd f) (\<lambda>p. case p of None \<Rightarrow> a | Some i \<Rightarrow> g i) = Inr z"
  obtains (none) "slot fd f = Inr None" "a = Inr z" | (some) i where "slot fd f = Inr (Some i)" "g i = Inr z"
proof (cases "slot fd f")
  case (Inr p)
  then show ?thesis using assms none some by (cases p) simp_all
qed (use assms in simp)

lemma finv_read:
  assumes "finv e f" "sys_read V fd cnt f = Inr (r, bs, f')"
  shows "finv e f'"
  using assms(2) unfolding sys_read_def
  by (rule slotE) (use assms(1) in \<open>auto simp: bind_result_eq_Inr finv_offset split: if_splits\<close>)

lemma finv_readv:
  assumes "finv e f" "sys_readv V fd iovs f = Inr (r, bss, f')"
  shows "finv e f'"
  using assms(2) unfolding sys_readv_def
  by (rule slotE) (use assms(1) in \<open>auto simp: bind_result_eq_Inr finv_offset split: if_splits\<close>)

lemma finv_write:
  assumes "finv e f" "sys_write V fd bs f = Inr (r, f')"
  shows "finv e f'"
  using assms(2) unfolding sys_write_def
  by (rule slotE) (use assms(1) in \<open>auto simp: bind_result_eq_Inr finv_offset split: if_splits\<close>)

lemma finv_writev:
  assumes "finv e f" "sys_writev V fd iovs f = Inr (r, f')"
  shows "finv e f'"
  using assms(2) unfolding sys_writev_def
  by (rule slotE) (use assms(1) in \<open>auto simp: bind_result_eq_Inr finv_offset split: if_splits\<close>)

lemma finv_same_fs:
  assumes "finv e f" "slot fd f = Inr (Some i)" "file_at i f = Inr x" "fl_refer y = fl_refer x"
  shows "finv e (set_file i y f)"
  using finv_offset [OF assms, of "fs_st f"] by simp

lemma finv_lseek:
  assumes "finv e f" "sys_lseek V fd off whence f = Inr (r, f')"
  shows "finv e f'"
  using assms(2) unfolding sys_lseek_def
  by (rule slotE) (use assms(1) in \<open>auto simp: bind_result_eq_Inr finv_same_fs split: if_splits\<close>)

lemma close_shared:
  assumes "finv e f" "slot fd f = Inr (Some i)" "f_heap f i = Some x" "1 < refs e i f"
  shows "sys_close V fd f = bind_result (set_slot fd None (set_file i (x\<lparr>fl_refer := fl_refer x - 1\<rparr>) f)) (\<lambda>f2. Inr (0, f2))"
  using assms finvD(5) [OF assms(1,3)] by (simp add: sys_close_def file_at_def)

lemma close_last:
  assumes "finv e f" "slot fd f = Inr (Some i)" "f_heap f i = Some x" "refs e i f = 1"
  shows "sys_close V fd f = bind_result (vo_close V (fl_node x) (fs_st f)) (\<lambda>(ret, st).
    bind_result (set_slot fd None (f\<lparr>fs_st := st, f_heap := (f_heap f)(i := None)\<rparr>)) (\<lambda>f2. Inr (ret, f2)))"
proof -
  have "(set_file i y f)\<lparr>fs_st := st, f_heap := (f_heap (set_file i y f))(i := None)\<rparr> = f\<lparr>fs_st := st, f_heap := (f_heap f)(i := None)\<rparr>" for y st
    by (cases f) (simp add: set_file_def)
  moreover have "fl_refer x = 1" "fs_st (set_file i y f) = fs_st f" for y using finvD(5) [OF assms(1,3)] assms(4) by (simp_all add: set_file_def)
  ultimately show ?thesis using assms(2,3) unfolding sys_close_def file_at_def Let_def by simp
qed

lemma close_cases:
  assumes "finv e f" "sys_close V fd f = Inr (r, f')"
  obtains (none) "f' = f" "r = - EBADF" "slot fd f = Inr None"
  | (shared) i x where "slot fd f = Inr (Some i)" "f_heap f i = Some x" "1 < refs e i f" "r = 0"
      "set_slot fd None (set_file i (x\<lparr>fl_refer := fl_refer x - 1\<rparr>) f) = Inr f'"
  | (last) i x st where "slot fd f = Inr (Some i)" "f_heap f i = Some x" "refs e i f = 1" "vo_close V (fl_node x) (fs_st f) = Inr (r, st)"
      "set_slot fd None (f\<lparr>fs_st := st, f_heap := (f_heap f)(i := None)\<rparr>) = Inr f'"
proof -
  obtain p where p: "slot fd f = Inr p" using assms(2) by (auto simp: sys_close_def bind_result_eq_Inr)
  show ?thesis
  proof (cases p)
    case None
    then show ?thesis using none assms(2) p by (simp add: sys_close_def)
  next
    case (Some i)
    obtain x where x: "f_heap f i = Some x" using finv_slot(1) [OF assms(1)] p Some by blast
    have "1 < refs e i f \<or> refs e i f = 1" using finvD(5) [OF assms(1) x] by linarith
    then show ?thesis
    proof
      assume r: "1 < refs e i f"
      show ?thesis using shared [of i x] p Some x r assms(2) close_shared [OF assms(1) _ x r, of fd V] by (auto simp: bind_result_eq_Inr)
    next
      assume r: "refs e i f = 1"
      show ?thesis using last [of i x] p Some x r assms(2) close_last [OF assms(1) _ x r, of fd V] by (auto simp: bind_result_eq_Inr)
    qed
  qed
qed

lemma finv_close:
  assumes "finv e f" "sys_close V fd f = Inr (r, f')"
  shows "finv e f'"
  using assms
proof (cases rule: close_cases)
  case (shared i x)
  then show ?thesis using finv_drop [OF assms(1) shared(1,2) _ _ shared(5)] finvD(5) [OF assms(1) shared(2)] by simp
next
  case (last i x st)
  have "finv e (f\<lparr>fs_st := st\<rparr>)" "slot fd (f\<lparr>fs_st := st\<rparr>) = Inr (Some i)" using assms(1) last(1) by simp_all
  then show ?thesis using finv_free [of e "f\<lparr>fs_st := st\<rparr>" fd i x f'] last finvD(5) [OF assms(1) last(2)] by simp
qed (use assms(1) in simp)

text \<open>After closing a descriptor its slot is free and every other descriptor is what it was.\<close>

lemma close_tab:
  assumes "finv e f" "sys_close V fd f = Inr (r, f')" "slot fd f = Inr (Some i)"
  shows "f_tab f' = (f_tab f)[nat fd := None]"
  using assms(1,2)
  proof (cases rule: close_cases)
  case none
  then show ?thesis using assms(3) by simp
qed (auto simp: set_slot_def set_file_def split: if_splits)

lemma finv_dup2:
  assumes "finv e f" "sys_dup2 V old new f = Inr (r, f')"
  shows "finv e f'"
proof -
  consider "f' = f" | (dup) i q f1 x where "slot old f = Inr (Some i)" "old \<noteq> new" "slot new f = Inr q"
      "if q \<noteq> None then \<exists>r1. sys_close V new f = Inr (r1, f1) else f1 = f" "f_heap f1 i = Some x"
      "set_slot new (Some i) (set_file i (x\<lparr>fl_refer := fl_refer x + 1\<rparr>) f1) = Inr f'"
    using assms(2) unfolding sys_dup2_def
  proof (rule slotE)
    fix i
    assume i: "slot old f = Inr (Some i)"
      and g: "(if old = new then Inr (- EINVAL, f) else bind_result (slot new f) (\<lambda>q.
            bind_result (if q \<noteq> None then bind_result (sys_close V new f) (\<lambda>(_, f1). Inr f1) else Inr f) (\<lambda>f1.
            bind_result (file_at i f1) (\<lambda>x.
            bind_result (set_slot new (Some i) (set_file i (x\<lparr>fl_refer := fl_refer x + 1\<rparr>) f1)) (\<lambda>f2. Inr (new, f2)))))) = Inr (r, f')"
    show ?thesis
    proof (cases "old = new")
      case False
      then obtain q f1 x where "slot new f = Inr q" "(if q \<noteq> None then bind_result (sys_close V new f) (\<lambda>(_, f1). Inr f1) else Inr f) = Inr f1"
          "file_at i f1 = Inr x" "set_slot new (Some i) (set_file i (x\<lparr>fl_refer := fl_refer x + 1\<rparr>) f1) = Inr f'"
        using g unfolding if_not_P [OF False] bind_result_eq_Inr by blast
      moreover from this(2) have "if q \<noteq> None then \<exists>r1. sys_close V new f = Inr (r1, f1) else f1 = f"
        by (cases "q = None") (auto simp: bind_result_eq_Inr)
      ultimately show ?thesis using that(2) [OF i False, of q f1 x] by (simp add: file_at_def split: option.splits)
    qed (use g that(1) in simp)
  qed (use that(1) in simp)
  then show ?thesis
  proof cases
    case dup
    have "finv e f1 \<and> slot new f1 = Inr None"
    proof (cases q)
      case None
      then show ?thesis using dup(3,4) assms(1) by simp
    next
      case (Some j)
      then obtain r1 where c: "sys_close V new f = Inr (r1, f1)" using dup(4) by auto
      have "slot new f = Inr (Some j)" using dup(3) Some by simp
      then show ?thesis using finv_close [OF assms(1) c] close_tab [OF assms(1) c] by (auto simp: slot_def split: if_splits)
    qed
    then show ?thesis using finv_add [OF _ dup(5) _ _ dup(6)] by simp
  qed (use assms(1) in simp)
qed

lemma finv_dup: "finv e f \<Longrightarrow> sys_dup V fd f = Inr (r, f') \<Longrightarrow> finv e f'"
  unfolding sys_dup_def by (auto simp: bind_result_eq_Inr finv_dup2 split: if_splits)

lemma finv_fcntl:
  assumes "finv e f" "cmd \<noteq> 0" "sys_fcntl V fd cmd arg f = Inr (r, f')"
  shows "finv e f'"
  using assms(3) unfolding sys_fcntl_def
  by (rule slotE) (use assms(1,2) in \<open>auto simp: bind_result_eq_Inr finv_same_fs split: if_splits\<close>)

lemma finv_pipe:
  assumes "finv e f" "sys_pipe mk f = Inr (r, fds, f')"
  shows "finv e f'"
proof -
  obtain fd0 i0 f1 fd1 i1 f2 n st where g: "file_get 0 f = Inr (fd0, i0, f1)" "file_get 0 f1 = Inr (fd1, i1, f2)" "mk (fs_st f2) = Inr (n, st)"
      "0 \<le> fd0" "0 \<le> fd1"
    using assms(2) by (auto simp: sys_pipe_def bind_result_eq_Inr split: if_splits)
  let ?y0 = "(f_junk f)\<lparr>fl_node := n, fl_refer := 1, fl_flgs := 0\<rparr>" and ?y1 = "(f_junk f)\<lparr>fl_node := n, fl_refer := 1, fl_flgs := O_WRONLY\<rparr>"
  obtain k where k: "k < MAX_FILE" "f_tab f ! k = None" "i0 = f_next f"
      "f1 = f\<lparr>f_tab := (f_tab f)[k := Some (f_next f)], f_heap := (f_heap f)(f_next f \<mapsto> f_junk f), f_next := Suc (f_next f)\<rparr>"
    using file_get_spec [OF assms(1) g(1)] by blast
  let ?g = "f\<lparr>f_tab := (f_tab f)[k := Some (f_next f)], f_heap := (f_heap f)(f_next f \<mapsto> ?y0), f_next := Suc (f_next f)\<rparr>"
  have l: "length (f_tab f) = MAX_FILE" "\<not> f_nomem f" using finvD(1,2) [OF assms(1)] by simp_all
  then obtain m where m: "m < MAX_FILE" "f_tab f1 ! m = None" "i1 = f_next f1"
      "f2 = f1\<lparr>f_tab := (f_tab f1)[m := Some (f_next f1)], f_heap := (f_heap f1)(f_next f1 \<mapsto> f_junk f1), f_next := Suc (f_next f1)\<rparr>"
    using file_get_room [OF _ _ g(2)] k(4) by auto
  have g': "finv e ?g" using finv_new [OF assms(1), of k ?y0] k(1,2) l(1) by simp
  have "finv e (?g\<lparr>f_tab := (f_tab ?g)[m := Some (f_next ?g)], f_heap := (f_heap ?g)(f_next ?g \<mapsto> ?y1), f_next := Suc (f_next ?g)\<rparr>)" (is "finv e ?h")
    using m(1,2) k(4) l(1) by (intro finv_new [OF g']) simp_all
  moreover have "f_tab f' = f_tab ?h \<and> f_heap f' = f_heap ?h \<and> f_next f' = f_next ?h \<and> f_nomem f' = f_nomem ?h"
    using assms(2) g k m by (auto simp: sys_pipe_def bind_result_eq_Inr file_at_def set_file_def fun_upd_def)
  ultimately show ?thesis using finv_cong by blast
qed

text \<open>A reference more, held by another task.\<close>

lemma finv_share:
  assumes "finv e f" "f_heap f i = Some x" "fl_refer y = fl_refer x + 1"
  shows "finv (e(i := Suc (e i))) (set_file i y f)"
proof -
  have "counted (e(i := Suc (e i))) j (set_file i y f)" for j
    using finvD(4,5) [OF assms(1), of j] assms(2,3) by (auto simp: counted_def set_file_def refs_def split: option.split)
  then show ?thesis using finvD(1-3) [OF assms(1)] assms(2) by (auto simp: finv_def set_file_def)
qed

lemma finv_fork_loop:
  assumes "finv e f" "\<And>i. Some i \<in> set ps \<Longrightarrow> f_heap f i \<noteq> None"
  shows "\<exists>f'. fork_loop ps f = Inr f' \<and> finv (\<lambda>i. e i + count_list ps (Some i)) f' \<and> f_tab f' = f_tab f"
  using assms
proof (induction ps arbitrary: e f)
  case (Cons p ps)
  show ?case
  proof (cases p)
    case None
    then show ?thesis using Cons by simp
  next
    case (Some i)
    then obtain x where x: "f_heap f i = Some x" using Cons.prems(2) [of i] by auto
    let ?f = "set_file i (x\<lparr>fl_refer := fl_refer x + 1\<rparr>) f"
    have "finv (e(i := Suc (e i))) ?f" using finv_share [OF Cons.prems(1) x] by simp
    moreover have "f_heap ?f j \<noteq> None" if "Some j \<in> set ps" for j using Cons.prems(2) [of j] that by (simp add: set_file_def)
    ultimately obtain f' where f': "fork_loop ps ?f = Inr f'" "finv (\<lambda>j. (e(i := Suc (e i))) j + count_list ps (Some j)) f'" "f_tab f' = f_tab ?f"
      using Cons.IH by blast
    have "(\<lambda>j. (e(i := Suc (e i))) j + count_list ps (Some j)) = (\<lambda>j. e j + count_list (p # ps) (Some j))" using Some by auto
    then show ?thesis using f' x Some by (simp add: file_at_def set_file_def)
  qed
qed simp

lemma finv_fork:
  assumes "finv e f"
  shows "\<exists>f'. fork_files f = Inr (f_tab f, f') \<and> finv (\<lambda>i. e i + count_list (f_tab f) (Some i)) f' \<and> f_tab f' = f_tab f"
proof -
  have "f_heap f i \<noteq> None" if "Some i \<in> set (f_tab f)" for i
    using finvD(4) [OF assms, of i] that by (auto simp: refs_def count_list_0_iff)
  then show ?thesis using finv_fork_loop [OF assms, of "f_tab f"] by (auto simp: fork_files_def)
qed

section \<open>The machine\<close>

inductive fstep :: "'s fsops \<Rightarrow> 's fdesc \<Rightarrow> 's fdesc \<Rightarrow> bool" for V where
  "sys_open V path flgs mode f = Inr (r, f') \<Longrightarrow> fstep V f f'"
| "sys_read V fd cnt f = Inr (r, bs, f') \<Longrightarrow> fstep V f f'"
| "sys_readv V fd riov f = Inr (r, bss, f') \<Longrightarrow> fstep V f f'"
| "sys_write V fd bs f = Inr (r, f') \<Longrightarrow> fstep V f f'"
| "sys_writev V fd wiov f = Inr (r, f') \<Longrightarrow> fstep V f f'"
| "sys_lseek V fd off whence f = Inr (r, f') \<Longrightarrow> fstep V f f'"
| "sys_close V fd f = Inr (r, f') \<Longrightarrow> fstep V f f'"
| "sys_dup2 V fd new f = Inr (r, f') \<Longrightarrow> fstep V f f'"
| "sys_dup V fd f = Inr (r, f') \<Longrightarrow> fstep V f f'"
| "sys_pipe mk f = Inr (r, fds, f') \<Longrightarrow> fstep V f f'"
| "cmd \<noteq> 0 \<Longrightarrow> sys_fcntl V fd cmd arg f = Inr (r, f') \<Longrightarrow> fstep V f f'"

definition fboot :: "'s fdesc \<Rightarrow> bool" where
  "fboot f \<longleftrightarrow> f_tab f = replicate MAX_FILE None \<and> \<not> f_nomem f \<and> (\<forall>i. f_heap f i = None)"

lemma finv_fstep: "fstep V f f' \<Longrightarrow> finv e f \<Longrightarrow> finv e f'"
  by (cases rule: fstep.cases)
    (auto intro: finv_open finv_read finv_readv finv_write finv_writev finv_lseek finv_close finv_dup2 finv_dup finv_pipe finv_fcntl)

interpretation descs: keeps fboot "fstep V" "finv (\<lambda>_. 0)" for V
proof
  show "finv (\<lambda>_. 0) f" if b: "fboot f" for f :: "'a fdesc"
  proof -
    have "refs (\<lambda>_. 0) i f = 0" for i using b by (auto simp: refs_def fboot_def count_list_0_iff)
    then show ?thesis using b by (simp add: finv_def fboot_def counted_def)
  qed
  show "finv (\<lambda>_. 0) f'" if "fstep V f f'" "finv (\<lambda>_. 0) f" for f f' :: "'a fdesc"
    using finv_fstep that by blast
qed

section \<open>What the descriptors promise\<close>

text \<open>
  The tasks together: the state of the running task with its table, the tables of the other tasks, and the tables of tasks that are gone. The
  running task makes a call or forks; a task is created with an empty table; another task is switched to; a task exits and is waited for, and since
  neither \<open>task_exit\<close> nor \<open>task_wait\<close> closes its files, its references are never given back.
\<close>

record 's fsys =
  fy_fd :: "'s fdesc"
  fy_others :: "nat option list list"
  fy_gone :: "nat option list list"

inductive systep :: "'s fsops \<Rightarrow> 's fsys \<Rightarrow> 's fsys \<Rightarrow> bool" for V where
  call: "fstep V (fy_fd s) f' \<Longrightarrow> systep V s (s\<lparr>fy_fd := f'\<rparr>)"
| fork: "fork_files (fy_fd s) = Inr (tab, f') \<Longrightarrow> systep V s (s\<lparr>fy_fd := f', fy_others := tab # fy_others s\<rparr>)"
| create: "systep V s (s\<lparr>fy_others := replicate MAX_FILE None # fy_others s\<rparr>)"
| switch: "fy_others s = as @ tab # bs \<Longrightarrow>
    systep V s (s\<lparr>fy_fd := (fy_fd s)\<lparr>f_tab := tab\<rparr>, fy_others := as @ f_tab (fy_fd s) # bs\<rparr>)"
| leave: "fy_others s = as @ tab # bs \<Longrightarrow> systep V s (s\<lparr>fy_others := as @ bs, fy_gone := tab # fy_gone s\<rparr>)"

definition syboot :: "'s fsys \<Rightarrow> bool" where
  "syboot s \<longleftrightarrow> fboot (fy_fd s) \<and> fy_others s = [] \<and> fy_gone s = []"

definition held :: "nat option list list \<Rightarrow> nat \<Rightarrow> nat" where
  "held tabs i = (\<Sum>tab\<leftarrow>tabs. count_list tab (Some i))"

definition syinv :: "'s fsys \<Rightarrow> bool" where
  "syinv s \<longleftrightarrow> finv (held (fy_others s @ fy_gone s)) (fy_fd s) \<and> (\<forall>tab\<in>set (fy_others s @ fy_gone s). length tab = MAX_FILE)"

lemma held_simps [simp]: "held [] i = 0" "held (tab # tabs) i = count_list tab (Some i) + held tabs i" "held (xs @ ys) i = held xs i + held ys i"
  by (simp_all add: held_def)

lemma held_Nil: "held [] = (\<lambda>_. 0)"
  by (simp add: fun_eq_iff)

lemma held_0: "held tabs i = 0 \<longleftrightarrow> (\<forall>tab\<in>set tabs. Some i \<notin> set tab)"
  by (induction tabs) (auto simp: count_list_0_iff)

text \<open>Which of the tables is the running one does not matter for the counts.\<close>

lemma finv_move:
  assumes "finv e f" "length tab = MAX_FILE" "\<And>i. e' i + count_list tab (Some i) = e i + count_list (f_tab f) (Some i)"
  shows "finv e' (f\<lparr>f_tab := tab\<rparr>)"
proof -
  have "refs e' i (f\<lparr>f_tab := tab\<rparr>) = refs e i f" for i using assms(3) [of i] by (simp add: refs_def)
  then have "counted e' i (f\<lparr>f_tab := tab\<rparr>) = counted e i f" for i by (simp add: counted_def split: option.split)
  then show ?thesis using assms(1,2) by (simp add: finv_def)
qed

lemma count_replicate_None [simp]: "count_list (replicate n None) (Some i) = 0"
  by (simp add: count_list_0_iff)

interpretation tasks: keeps syboot "systep V" syinv for V
proof
  show "syinv s" if "syboot s" for s :: "'a fsys"
    using that descs.good_start [of "fy_fd s"] by (simp add: syboot_def syinv_def held_Nil)
  show "syinv s'" if "systep V s s'" "syinv s" for s s' :: "'a fsys"
    using that
  proof cases
    case (call f')
    then show ?thesis using \<open>syinv s\<close> finv_fstep [OF call(2)] by (simp add: syinv_def)
  next
    case (fork tab f')
    obtain g where g: "fork_files (fy_fd s) = Inr (f_tab (fy_fd s), g)"
        "finv (\<lambda>i. held (fy_others s @ fy_gone s) i + count_list (f_tab (fy_fd s)) (Some i)) g"
      using \<open>syinv s\<close> finv_fork unfolding syinv_def by blast
    have "(\<lambda>i. held (fy_others s @ fy_gone s) i + count_list (f_tab (fy_fd s)) (Some i)) = held ((f_tab (fy_fd s) # fy_others s) @ fy_gone s)" by auto
    then show ?thesis using \<open>syinv s\<close> fork g finvD(1) [of _ "fy_fd s"] by (auto simp: syinv_def)
  next
    case create
    have "held ((replicate MAX_FILE None # fy_others s) @ fy_gone s) = held (fy_others s @ fy_gone s)" by auto
    then show ?thesis using \<open>syinv s\<close> create by (auto simp: syinv_def)
  next
    case (switch as tab bs)
    have "finv (held ((as @ f_tab (fy_fd s) # bs) @ fy_gone s)) ((fy_fd s)\<lparr>f_tab := tab\<rparr>)"
      using \<open>syinv s\<close> switch(2) by (intro finv_move [of "held (fy_others s @ fy_gone s)"]) (auto simp: syinv_def)
    then show ?thesis using \<open>syinv s\<close> switch finvD(1) [of _ "fy_fd s"] by (auto simp: syinv_def)
  next
    case (leave as tab bs)
    have "held ((as @ bs) @ tab # fy_gone s) = held (fy_others s @ fy_gone s)" using leave(2) by auto
    then show ?thesis using \<open>syinv s\<close> leave by (auto simp: syinv_def)
  qed
qed

text \<open>
  C18. However the tasks fork, are created, run in turn and exit, and however they open, make pipes, duplicate, seek, read, write and close: every descriptor leads
  to a live open file, the reference count of an open file is the number of descriptors that lead to it, in the tables of all tasks, those that are gone
  included, and a file that no descriptor leads to has been freed. This is for a heap that does not run out and for
  every command of \<open>fcntl\<close> but \<open>F_DUPFD\<close>, which closes a file that was never initialised.
\<close>

theorem descriptors_counted:
  assumes "reach syboot (systep V) s" "tabs = f_tab (fy_fd s) # fy_others s @ fy_gone s"
  shows "(\<forall>tab\<in>set tabs. length tab = MAX_FILE) \<and> (\<forall>i. case f_heap (fy_fd s) i of
      None \<Rightarrow> \<forall>tab\<in>set tabs. Some i \<notin> set tab
    | Some x \<Rightarrow> (\<exists>tab\<in>set tabs. Some i \<in> set tab) \<and> fl_refer x = int (\<Sum>tab\<leftarrow>tabs. count_list tab (Some i)))"
proof -
  have s: "syinv s" using assms(1) by (rule tasks.good_reach)
  then have f: "finv (held (fy_others s @ fy_gone s)) (fy_fd s)" by (simp add: syinv_def)
  have h: "refs (held (fy_others s @ fy_gone s)) i (fy_fd s) = held tabs i" for i by (simp add: refs_def assms(2))
  have "case f_heap (fy_fd s) i of None \<Rightarrow> \<forall>tab\<in>set tabs. Some i \<notin> set tab
    | Some x \<Rightarrow> (\<exists>tab\<in>set tabs. Some i \<in> set tab) \<and> fl_refer x = int (\<Sum>tab\<leftarrow>tabs. count_list tab (Some i))" for i
    using finvD(4,5) [OF f, of i] held_0 [of tabs i] unfolding h held_def by (cases "f_heap (fy_fd s) i") (simp, fastforce)
  moreover have "\<forall>tab\<in>set tabs. length tab = MAX_FILE" using s finvD(1) [OF f] by (simp add: syinv_def assms(2))
  ultimately show ?thesis by blast
qed

text \<open>
  \<open>F_DUPFD\<close> takes a fresh file for the new descriptor and lets \<open>dup2\<close> close it: when the count that \<open>malloc\<close> left in it is above one, the file stays
  on the heap and no descriptor leads to it.
\<close>

theorem dupfd_leaks:
  assumes "finv e f" "slot fd f = Inr (Some i)" "file_get arg f = Inr (newfd, k, f1)" "1 < fl_refer (f_junk f)"
  shows "\<exists>f'. sys_fcntl V fd 0 arg f = Inr (newfd, f') \<and> f_heap f' (f_next f) \<noteq> None \<and> Some (f_next f) \<notin> set (f_tab f')"
proof -
  note s = finv_slot [OF assms(1,2)]
  obtain x where x: "f_heap f i = Some x" using s(1) by blast
  obtain m where m: "newfd = int m" "m < MAX_FILE" "f_tab f ! m = None" "k = f_next f"
      "f1 = f\<lparr>f_tab := (f_tab f)[m := Some (f_next f)], f_heap := (f_heap f)(f_next f \<mapsto> f_junk f), f_next := Suc (f_next f)\<rparr>"
    using file_get_spec [OF assms(1,3)] by blast
  have l: "length (f_tab f) = MAX_FILE" "f_heap f (f_next f) = None" using finvD(1,3) [OF assms(1)] by simp_all
  have n: "nat fd \<noteq> m" "i \<noteq> f_next f" "fd \<noteq> int m" using s m(3) x l(2) by auto
  have "Some (f_next f) \<notin> set (f_tab f)" using finvD(4) [OF assms(1) l(2)] by (auto simp: refs_def count_list_0_iff)
  then have "Some (f_next f) \<notin> set ((f_tab f)[m := Some i])" using set_update_subset_insert [of "f_tab f" m "Some i"] n(2) by auto
  then show ?thesis using assms(2,3,4) m s x l n
    by (simp add: sys_fcntl_def sys_dup2_def sys_close_def slot_def set_slot_def file_at_def set_file_def)
qed

text \<open>
  Closing a descriptor frees its slot and takes nothing from the others: every other descriptor still leads
  to the same open file, with the same node, offset and flags.
\<close>

theorem close_keeps_others:
  assumes "reach fboot (fstep V) f" "sys_close V fd f = Inr (r, f')" "slot fd' f = Inr (Some j)" "fd' \<noteq> fd" "f_heap f j = Some x"
  shows "slot fd' f' = Inr (Some j) \<and>
    (\<exists>y. f_heap f' j = Some y \<and> fl_node y = fl_node x \<and> fl_offset y = fl_offset x \<and> fl_flgs y = fl_flgs x)"
proof -
  have f: "finv (\<lambda>_. 0) f" using assms(1) by (rule descs.good_reach)
  note s' = finv_slot(2-) [OF f assms(3)]
  show ?thesis
    using f assms(2)
  proof (cases rule: close_cases)
    case none
    then show ?thesis using assms(3,5) by auto
  next
    case (shared i z)
    note s = finv_slot(2-) [OF f shared(1)]
    have "nat fd' \<noteq> nat fd" using s(1) s'(1) assms(4) by auto
    then show ?thesis using shared s s' assms(5) by (auto simp: set_slot_def set_file_def slot_def)
  next
    case (last i z st)
    note s = finv_slot(2-) [OF f last(1)]
    have n: "nat fd' \<noteq> nat fd" using s(1) s'(1) assms(4) by auto
    have "j \<noteq> i"
    proof
      assume "j = i"
      then have "int (count_list ((f_tab f)[nat fd := None]) (Some i)) = 0"
        using count_update [OF s(2), of None "Some i"] s(3) last(3) by (simp add: refs_def)
      then have "Some i \<notin> set ((f_tab f)[nat fd := None])" by (simp add: count_list_0_iff)
      moreover have "(f_tab f)[nat fd := None] ! nat fd' = Some i" using n s' \<open>j = i\<close> by simp
      ultimately show False using s'(2) by (metis length_list_update nth_mem)
    qed
    then show ?thesis using last s s' n assms(5) by (auto simp: set_slot_def slot_def)
  qed
qed

text \<open>
  \<open>open\<close> returns the lowest descriptor that is free, leaves all others alone, and starts at the
  beginning of the node that the file system found.
\<close>

theorem open_lowest_descriptor:
  assumes "reach fboot (fstep V) f" "sys_open V path flgs mode f = Inr (fd, f')" "0 \<le> fd"
    "vo_open V path (ucast flgs) (mode AND 0x1FF) (fs_st f) = Inr (0, Some n, st)"
  shows "nat fd < MAX_FILE \<and> f_tab f ! nat fd = None \<and> (\<forall>j < nat fd. f_tab f ! j \<noteq> None) \<and>
    (\<exists>i x. f_tab f' = (f_tab f)[nat fd := Some i] \<and> f_heap f' i = Some x \<and> fl_node x = n \<and> fl_offset x = 0 \<and> fl_refer x = 1)"
proof -
  have f: "finv (\<lambda>_. 0) (f\<lparr>fs_st := st\<rparr>)" using descs.good_reach [OF assms(1)] by simp
  obtain d i f1 where g: "file_get 0 (f\<lparr>fs_st := st\<rparr>) = Inr (d, i, f1)"
    using assms(2,4) by (auto simp: sys_open_def bind_result_eq_Inr)
  obtain k where k: "d = int k" "k < MAX_FILE" "f_tab f ! k = None" "\<forall>j<k. f_tab f ! j \<noteq> None" "i = f_next f"
    "f1 = (f\<lparr>fs_st := st\<rparr>)\<lparr>f_tab := (f_tab f)[k := Some (f_next f)], f_heap := (f_heap f)(f_next f \<mapsto> f_junk f), f_next := Suc (f_next f)\<rparr>"
    using file_get_spec [OF f g] by auto
  have "\<not> (flgs AND (O_WRONLY OR O_RDWR) = 0 \<and> flgs AND O_APPEND \<noteq> 0)"
    using assms(2,3,4) g k(1) by (auto simp: sys_open_def EINVAL_def bind_result_eq_Inr split: if_splits)
  then have "fd = int k \<and> f_tab f' = (f_tab f)[k := Some i] \<and>
      f_heap f' i = Some ((f_junk f)\<lparr>fl_refer := 1, fl_offset := 0, fl_node := n, fl_flgs := flgs\<rparr>)"
    using assms(2,4) g k by (auto simp: sys_open_def bind_result_eq_Inr file_at_def set_file_def split: if_splits)
  then show ?thesis using k by auto
qed

text \<open>
  With all descriptors in use \<open>open\<close> does not report it: \<open>file_get\<close> takes the error number that
  \<open>fd_get\<close> returns for a descriptor and writes the new file in front of the table.
\<close>

theorem open_full_table:
  assumes "reach fboot (fstep V) f" "None \<notin> set (f_tab f)"
    "vo_open V path (ucast flgs) (mode AND 0x1FF) (fs_st f) = Inr (0, Some n, st)"
  shows "sys_open V path flgs mode f = Inl BadAccess"
proof -
  have f: "finv (\<lambda>_. 0) f" using assms(1) by (rule descs.good_reach)
  have "f_tab f ! j \<noteq> None" if "j < MAX_FILE" for j using assms(2) that finvD(1) [OF f] by (metis nth_mem)
  then have "List.find (\<lambda>i. f_tab f ! i = None) [nat 0..<MAX_FILE] = None" unfolding find_slot(2) by blast
  then have "fd_get 0 (f\<lparr>fs_st := st\<rparr>) = Inr (- EMFILE)" by (simp add: fd_get_def)
  then have "file_get 0 (f\<lparr>fs_st := st\<rparr>) = Inl BadAccess"
    using finvD(2) [OF f] by (simp add: file_get_def set_slot_def EMFILE_def)
  then show ?thesis using assms(3) by (simp add: sys_open_def)
qed

text \<open>
  \<open>readv\<close> does not move on between its vectors: each of them gets the bytes at the offset where the
  call started.
\<close>

theorem readv_repeats:
  assumes "slot fd f = Inr (Some i)" "f_heap f i = Some x" "fl_flgs x AND O_DIR = 0" "fl_flgs x AND 3 \<noteq> O_WRONLY"
    "vo_read V (fl_node x) cnt (fl_offset x) (fs_st f) = Inr (k, bs, fs_st f)" "0 < k" "cnt \<noteq> 0"
  shows "\<exists>f'. sys_readv V fd [(True, cnt), (True, cnt)] f = Inr (2 * k, [bs, bs], f')"
  using assms by (auto simp: sys_readv_def file_at_def IOV_MAX_def)

text \<open>
  \<open>writev\<close> asks for the wrong access mode: on a descriptor opened only for writing it fails, and on
  one opened only for reading it writes.
\<close>

theorem writev_wrong_access:
  assumes "slot fd f = Inr (Some i)" "f_heap f i = Some x" "fl_flgs x AND O_DIR = 0"
    "vo_write V (fl_node x) bs (fl_offset x) (fs_st f) = Inr (k, st)" "0 < k" "bs \<noteq> []"
  shows "(fl_flgs x AND 3 = O_WRONLY \<longrightarrow> sys_writev V fd [(True, bs)] f = Inr (- EBADF, f)) \<and>
    (fl_flgs x AND 3 = 0 \<longrightarrow> (\<exists>f'. sys_writev V fd [(True, bs)] f = Inr (k, f') \<and> fs_st f' = st))"
  using assms by (auto simp: sys_writev_def file_at_def IOV_MAX_def O_WRONLY_def set_file_def)

section \<open>Witnesses\<close>

text \<open>A file system with one node, whose content is the state.\<close>

definition one_file :: "bytes fsops" where
  "one_file = \<lparr>vo_open = \<lambda>p a m s. Inr (0, Some 0, s),
     vo_read = \<lambda>n k off s. let bs = take (unat k) (drop (unat off) s) in Inr (int (length bs), bs, s),
     vo_write = \<lambda>n bs off s. Inr (int (length bs), take (unat off) s @ bs @ drop (unat off + length bs) s),
     vo_truncate = \<lambda>n k s. Inr (take (unat k) s), vo_close = \<lambda>n s. Inr (0, s),
     vo_siz = \<lambda>n s. Inr (of_nat (length s)), vo_mode = \<lambda>n s. Inr 0x8180\<rparr>"

definition fd_start :: "bytes fdesc" where
  "fd_start = \<lparr>fs_st = [1, 2, 3, 4], f_heap = \<lambda>_. None, f_next = 0, f_tab = replicate MAX_FILE None,
     f_junk = \<lparr>fl_offset = 77, fl_node = 5, fl_flgs = 9, fl_fdfl = 0, fl_refer = 33\<rparr>, f_nomem = False, f_junkfd = -1\<rparr>"

definition fd_opened :: "nat \<Rightarrow> bytes fdesc" where
  "fd_opened k = fd_start\<lparr>f_heap := (\<lambda>i. if i < k then Some \<lparr>fl_offset = 0, fl_node = 0, fl_flgs = 2, fl_fdfl = 0, fl_refer = 1\<rparr> else None),
     f_next := k, f_tab := map Some [0..<k] @ replicate (16 - k) None\<rparr>"

lemma open_next:
  assumes "k < 16"
  shows "sys_open one_file [] 2 0 (fd_opened k) = Inr (int k, fd_opened (Suc k))"
proof -
  have "List.find (\<lambda>i. f_tab (fd_opened k) ! i = None) [0..<16] = Some k"
    unfolding find_slot(1) using assms by (auto simp: fd_opened_def nth_append)
  moreover have "(map Some [0..<k] @ replicate (16 - k) None)[k := Some k] = map Some [0..<Suc k] @ replicate (16 - Suc k) None"
    using assms by (intro nth_equalityI) (auto simp: nth_list_update nth_append less_Suc_eq)
  moreover have "(\<lambda>i. if i < k then Some y else None)(k \<mapsto> y) = (\<lambda>i. if i < Suc k then Some y else None)" for y :: file_t
    by auto
  ultimately show ?thesis
    using assms
    by (simp add: sys_open_def one_file_def file_get_def fd_get_def set_slot_def set_file_def file_at_def MAX_FILE_def
        O_WRONLY_def O_RDWR_def O_APPEND_def O_TRUNC_def fd_opened_def fd_start_def)
qed

lemma opened_reach: "k \<le> 16 \<Longrightarrow> reach fboot (fstep one_file) (fd_opened k)"
proof (induction k)
  case 0
  have "fd_opened 0 = fd_start" by (simp add: fd_opened_def fd_start_def MAX_FILE_def)
  then show ?case by (intro reach_start) (simp add: fboot_def fd_start_def)
next
  case (Suc k)
  have "fstep one_file (fd_opened k) (fd_opened (Suc k))" using open_next [of k] Suc.prems by (intro fstep.intros(1)) auto
  then show ?case using Suc by (auto intro: reach_step)
qed

text \<open>Three files are opened and the task forks: each of them is counted twice.\<close>

lemma descriptors_counted_witness:
  "\<exists>s tabs. reach syboot (systep one_file) s \<and> tabs = f_tab (fy_fd s) # fy_others s @ fy_gone s \<and> length tabs = 2 \<and>
     (case f_heap (fy_fd s) 1 of None \<Rightarrow> False | Some x \<Rightarrow> fl_refer x = 2 \<and> (\<Sum>tab\<leftarrow>tabs. count_list tab (Some 1)) = 2)"
proof -
  let ?s = "\<lparr>fy_fd = fd_opened 3, fy_others = [], fy_gone = []\<rparr>"
  have "(fstep one_file)\<^sup>*\<^sup>* fd_start f \<Longrightarrow> reach syboot (systep one_file) \<lparr>fy_fd = f, fy_others = [], fy_gone = []\<rparr>" for f
  proof (induction rule: rtranclp_induct)
    case base
    then show ?case by (intro reach_start) (simp add: syboot_def fboot_def fd_start_def)
  next
    case (step f g)
    then show ?case using systep.call [of one_file "\<lparr>fy_fd = f, fy_others = [], fy_gone = []\<rparr>" g] by (auto intro: reach_step)
  qed
  moreover have "(fstep one_file)\<^sup>*\<^sup>* fd_start (fd_opened k)" if "k \<le> 16" for k
    using that
  proof (induction k)
    case 0
    then show ?case by (simp add: fd_opened_def fd_start_def MAX_FILE_def)
  next
    case (Suc k)
    then show ?case using open_next [of k] fstep.intros(1) [of one_file] by (meson Suc_leD Suc_le_lessD rtranclp.rtrancl_into_rtrancl)
  qed
  ultimately have r: "reach syboot (systep one_file) ?s" by simp
  have f3: "finv (held []) (fd_opened 3)" using tasks.good_reach [OF r] by (simp add: syinv_def)
  then obtain f' where f': "fork_files (fd_opened 3) = Inr (f_tab (fd_opened 3), f')" "f_tab f' = f_tab (fd_opened 3)" using finv_fork by blast
  let ?t = "\<lparr>fy_fd = f', fy_others = [f_tab (fd_opened 3)], fy_gone = []\<rparr>"
  have "systep one_file ?s ?t" using systep.fork [of ?s "f_tab (fd_opened 3)" f' one_file] f'(1) by simp
  with r have t: "reach syboot (systep one_file) ?t" by (rule reach_step)
  have c: "count_list (f_tab (fd_opened 3)) (Some 1) = 1" by (simp add: fd_opened_def numeral_eq_Suc)
  then have "Some 1 \<in> set (f_tab (fd_opened 3))" by (metis count_list_0_iff zero_neq_one)
  then show ?thesis using t c descriptors_counted [OF t refl] f'(2) by (intro exI [of _ ?t]) (auto split: option.splits dest!: spec [of _ 1])
qed

lemma dupfd_leaks_witness: "\<exists>f'. sys_fcntl one_file 0 0 0 (fd_opened 1) = Inr (1, f') \<and> f_heap f' 1 \<noteq> None \<and> Some 1 \<notin> set (f_tab f')"
proof -
  have "finv (\<lambda>_. 0) (fd_opened 1)" using descs.good_reach [OF opened_reach [of 1]] by simp
  moreover have "List.find (\<lambda>i. f_tab (fd_opened 1) ! i = None) [0..<16] = Some 1" unfolding find_slot(1) by (auto simp: fd_opened_def nth_append)
  then have "\<exists>k f1. file_get 0 (fd_opened 1) = Inr (1, k, f1)" by (simp add: file_get_def fd_get_def set_slot_def MAX_FILE_def fd_opened_def fd_start_def)
  ultimately show ?thesis using dupfd_leaks [of "\<lambda>_. 0" "fd_opened 1" 0 0 0 1 _ _ one_file] by (auto simp: slot_def fd_opened_def fd_start_def)
qed

lemma close_keeps_others_witness: "\<exists>f' y. sys_close one_file 0 (fd_opened 2) = Inr (0, f') \<and> slot 1 f' = Inr (Some 1) \<and> f_heap f' 1 = Some y \<and> fl_offset y = 0"
proof -
  have "slot 0 (fd_opened 2) = Inr (Some 0)" "slot 1 (fd_opened 2) = Inr (Some 1)" by (simp_all add: slot_def fd_opened_def nth_append)
  moreover obtain f' where "sys_close one_file 0 (fd_opened 2) = Inr (0, f')"
    by (simp add: sys_close_def slot_def file_at_def set_file_def set_slot_def one_file_def fd_opened_def nth_append)
  ultimately show ?thesis
    using close_keeps_others [OF opened_reach [of 2], of 0 0 f' 1 1] by (auto simp: fd_opened_def)
qed

lemma open_lowest_descriptor_witness: "f_tab (fd_opened 5) ! 5 = None \<and> f_tab (fd_opened 5) ! 4 \<noteq> None"
  using open_lowest_descriptor [OF opened_reach [of 5] open_next [of 5], of 0 "fs_st (fd_opened 5)"]
  by (auto simp: one_file_def fd_opened_def)

lemma open_full_table_witness: "sys_open one_file [] 2 0 (fd_opened 16) = Inl BadAccess"
  using open_full_table [OF opened_reach [of 16], of "[]" 2 0 0 "fs_st (fd_opened 16)"] by (auto simp: one_file_def fd_opened_def)

lemma readv_repeats_witness: "\<exists>f'. sys_readv one_file 0 [(True, 2), (True, 2)] (fd_opened 1) = Inr (4, [[1, 2], [1, 2]], f')"
  using readv_repeats [of 0 "fd_opened 1" 0 _ one_file 2 2 "[1, 2]"]
  by (auto simp: slot_def fd_opened_def fd_start_def one_file_def O_DIR_def O_WRONLY_def)

lemma writev_wrong_access_witness:
  "sys_writev one_file 0 [(True, [9])] ((fd_opened 1)\<lparr>f_heap := [0 \<mapsto> \<lparr>fl_offset = 0, fl_node = 0, fl_flgs = 1, fl_fdfl = 0, fl_refer = 1\<rparr>]\<rparr>) =
   Inr (- EBADF, (fd_opened 1)\<lparr>f_heap := [0 \<mapsto> \<lparr>fl_offset = 0, fl_node = 0, fl_flgs = 1, fl_fdfl = 0, fl_refer = 1\<rparr>]\<rparr>)" (is "sys_writev _ _ _ ?f = _")
  using writev_wrong_access [of 0 ?f 0 "\<lparr>fl_offset = 0, fl_node = 0, fl_flgs = 1, fl_fdfl = 0, fl_refer = 1\<rparr>" one_file "[9]" 1]
  by (simp add: slot_def fd_opened_def fd_start_def one_file_def O_DIR_def O_WRONLY_def)

end
