(* ===== verification/Devno.thy ===== *)
theory Devno
  imports Prelude
begin

unbundle bit_operations_syntax

text \<open>
  include/textos/dev.h: device numbers of 64 bits, with the major and the minor number of 32 bits each cut into two
  pieces. The shifts of the signed \<open>dev_t\<close> bring copies of the sign into bits that the masks clear, so they are
  written as shifts of the unsigned word.
\<close>

definition major :: "u64 \<Rightarrow> u32" where
  "major x = ucast ((drop_bit 32 x AND 0xfffff000) OR (drop_bit 8 x AND 0xfff))"

definition minor :: "u64 \<Rightarrow> u32" where
  "minor x = ucast ((drop_bit 12 x AND 0xffffff00) OR (x AND 0xff))"

definition makedev :: "u32 \<Rightarrow> u32 \<Rightarrow> u64" where
  "makedev x y = push_bit 32 (ucast x AND 0xfffff000) OR push_bit 8 (ucast x AND 0xfff) OR
     push_bit 12 (ucast y AND 0xffffff00) OR (ucast y AND 0xff)"

text \<open>The masks as ranges of bits.\<close>

lemma devno_masks:
  "(0xfffff000 :: u64) = mask 32 AND NOT (mask 12)" "(0xffffff00 :: u64) = mask 32 AND NOT (mask 8)" "(0xfff :: u64) = mask 12" "(0xff :: u64) = mask 8"
  by (simp_all add: mask_eq_exp_minus_1)

text \<open>
  Taking a device number apart gives back the major and the minor number it was made of, for all numbers of 32
  bits; so the two never share a bit.\<close>

theorem makedev_roundtrip: "major (makedev x y) = x \<and> minor (makedev x y) = y"
proof -
  have "bit (major (makedev x y)) n = bit x n" "bit (minor (makedev x y)) n = bit y n" if "n < 32" for n
    unfolding major_def minor_def makedev_def devno_masks using that by (auto simp: bit_simps)
  then show ?thesis by (auto intro!: bit_word_eqI)
qed

end
