(* ===== verification/Minix.thy ===== *)
theory Minix
  imports Buffer Bitmap File Devno
begin

unbundle bit_operations_syntax

text \<open>
  kernel/fs/phy/minix.c: the minix file system, version 1, on blocks of the buffer cache. What is on the disk is bytes:
  the structures of the code are read from them and written to them at their offsets, low byte first. The routines that
  only touch the disk work on the cache; the operations of the file system work on the tree of nodes as well, where
  the \<open>pdata\<close> of a node is the number of an in-memory copy of its inode.
\<close>

section \<open>Structures on the disk\<close>

definition rd16 :: "bytes \<Rightarrow> nat \<Rightarrow> u16" where
  "rd16 b k = ucast (b ! k) OR push_bit 8 (ucast (b ! Suc k))"

definition rd32 :: "bytes \<Rightarrow> nat \<Rightarrow> u32" where
  "rd32 b k = ucast (rd16 b k) OR push_bit 16 (ucast (rd16 b (k + 2)))"

definition bytes16 :: "u16 \<Rightarrow> bytes" where
  "bytes16 w = [ucast w, ucast (drop_bit 8 w)]"

definition bytes32 :: "u32 \<Rightarrow> bytes" where
  "bytes32 w = bytes16 (ucast w) @ bytes16 (ucast (drop_bit 16 w))"

text \<open>A store of some bytes at an offset of a block.\<close>

definition poke :: "nat \<Rightarrow> bytes \<Rightarrow> bytes \<Rightarrow> bytes" where
  "poke k x d = take k d @ x @ drop (k + length x) d"

definition BLKSZ :: nat where "BLKSZ = 1024"
definition zone_dib :: nat where "zone_dib = 7"
definition zone_ib1 :: nat where "zone_ib1 = zone_dib + BLKSZ div 2"
definition zone_ib2 :: nat where "zone_ib2 = zone_ib1 + (BLKSZ div 2) * (BLKSZ div 2)"
definition nodenr_perblk :: nat where "nodenr_perblk = 32"
definition xmapnr_perblk :: nat where "xmapnr_perblk = 8192"
definition direnr_perblk :: nat where "direnr_perblk = 64"
definition MINIX_V1 :: u16 where "MINIX_V1 = 0x137f"
definition ENAMETOOLONG :: int where "ENAMETOOLONG = 36"

lemmas minix_consts = BLKSZ_def zone_dib_def zone_ib1_def zone_ib2_def nodenr_perblk_def xmapnr_perblk_def direnr_perblk_def

record minix_super =
  s_inodes :: u16
  s_zones :: u16
  s_imap_blocks :: u16
  s_zmap_blocks :: u16
  s_firstdatazone :: u16
  s_log_zone_size :: u16
  s_max_size :: u32
  s_magic :: u16

record minix_inode =
  i_mode :: u16
  i_uid :: u16
  i_size :: u32
  i_mtime :: u32
  i_gid :: u8
  i_nlinks :: u8
  i_zone :: "u16 list"

definition super_of :: "bytes \<Rightarrow> minix_super" where
  "super_of b = \<lparr>s_inodes = rd16 b 0, s_zones = rd16 b 2, s_imap_blocks = rd16 b 4, s_zmap_blocks = rd16 b 6, s_firstdatazone = rd16 b 8,
     s_log_zone_size = rd16 b 10, s_max_size = rd32 b 12, s_magic = rd16 b 16\<rparr>"

definition inode_of :: "bytes \<Rightarrow> minix_inode" where
  "inode_of b = \<lparr>i_mode = rd16 b 0, i_uid = rd16 b 2, i_size = rd32 b 4, i_mtime = rd32 b 8, i_gid = b ! 12, i_nlinks = b ! 13,
     i_zone = map (\<lambda>k. rd16 b (14 + 2 * k)) [0..<9]\<rparr>"

definition inode_bytes :: "minix_inode \<Rightarrow> bytes" where
  "inode_bytes m = bytes16 (i_mode m) @ bytes16 (i_uid m) @ bytes32 (i_size m) @ bytes32 (i_mtime m) @ [i_gid m, i_nlinks m] @
     concat (map bytes16 (i_zone m))"

record superblk =
  sb_blksz :: u64
  sb_dev :: nat
  sb_sbi :: minix_super

definition sb_bread :: "superblk \<Rightarrow> u32 \<Rightarrow> bcache \<Rightarrow> (nat \<times> bcache) result" where
  "sb_bread sb idx c = bread (sb_dev sb) (sb_blksz sb) idx c"

definition minix_imap :: "minix_super \<Rightarrow> u32" where "minix_imap m = 2"
definition minix_zmap :: "minix_super \<Rightarrow> u32" where "minix_zmap m = 2 + ucast (s_imap_blocks m)"
definition minix_inode_blk :: "minix_super \<Rightarrow> u32" where "minix_inode_blk m = 2 + ucast (s_imap_blocks m) + ucast (s_zmap_blocks m)"

section \<open>Bitmaps\<close>

text \<open>
  The search of \<open>minix_ialloc\<close> and of \<open>minix_zalloc\<close>: block after block of the map that starts at \<open>base\<close>, until one has
  a clear bit, which is set.
\<close>

definition as_bitmap :: "bytes \<Rightarrow> bitmap result" where
  "as_bitmap d = bind_result (bitmap_init (Some \<lparr>bmap = [], bsiz = 0\<rparr>) (Some d) (of_nat xmapnr_perblk) None None) (\<lambda>m.
     case m of None \<Rightarrow> Inl BadAccess | Some b \<Rightarrow> Inr b)"

function map_scan :: "superblk \<Rightarrow> u32 \<Rightarrow> nat \<Rightarrow> nat \<Rightarrow> bcache \<Rightarrow> (nat option \<times> bcache) result" where
  "map_scan sb base tot i c =
     (if i < tot
      then bind_result (sb_bread sb (base + of_nat (i div xmapnr_perblk)) c) (\<lambda>(b, c1).
           bind_result (bget b c1) (\<lambda>d. bind_result (as_bitmap d) (\<lambda>m. bind_result (bitmap_find m) (\<lambda>(no, m1).
             if no \<noteq> - 1
             then bind_result (bitmap_set m1 no) (\<lambda>m2. bind_result (bstore b (bmap m2) c1) (\<lambda>c2. bind_result (brelse b c2) (\<lambda>c3.
                  Inr (Some (i + unat no), c3))))
             else bind_result (brelse b c1) (\<lambda>c2. map_scan sb base tot (i + xmapnr_perblk) c2)))))
      else Inr (None, c))"
  by pat_completeness auto
termination
  by (relation "measure (\<lambda>(sb, base, tot, i, c). tot - i)") (auto simp: xmapnr_perblk_def)

definition minix_ialloc :: "superblk \<Rightarrow> bcache \<Rightarrow> (u16 \<times> bcache) result" where
  "minix_ialloc sb c =
     bind_result (map_scan sb (minix_imap (sb_sbi sb)) (unat (s_inodes (sb_sbi sb))) 0 c) (\<lambda>(r, c1).
       case r of None \<Rightarrow> Inr (0, c1) | Some ino \<Rightarrow> Inr (of_nat (ino + 1), c1))"

definition minix_zalloc :: "superblk \<Rightarrow> bcache \<Rightarrow> (u16 \<times> bcache) result" where
  "minix_zalloc sb c =
     bind_result (map_scan sb (minix_zmap (sb_sbi sb)) (unat (s_zones (sb_sbi sb))) 0 c) (\<lambda>(r, c1).
       case r of None \<Rightarrow> Inr (0, c1) | Some blkno \<Rightarrow> Inr (s_firstdatazone (sb_sbi sb) + of_nat blkno, c1))"

text \<open>The common part of \<open>minix_ifree\<close> and \<open>minix_zfree\<close>: bit \<open>n\<close> of the map is cleared.\<close>

definition map_clear :: "superblk \<Rightarrow> u32 \<Rightarrow> u16 \<Rightarrow> bcache \<Rightarrow> bcache result" where
  "map_clear sb base n c =
     bind_result (sb_bread sb (of_nat (unat n div xmapnr_perblk) + base) c) (\<lambda>(b, c1).
     bind_result (bget b c1) (\<lambda>d. bind_result (as_bitmap d) (\<lambda>m. bind_result (bitmap_reset m (of_nat (unat n mod xmapnr_perblk))) (\<lambda>m1.
     bind_result (bstore b (bmap m1) c1) (\<lambda>c2. brelse b c2)))))"

definition minix_ifree :: "superblk \<Rightarrow> u16 \<Rightarrow> bcache \<Rightarrow> bcache result" where
  "minix_ifree sb ino c = map_clear sb (minix_imap (sb_sbi sb)) ino c"

definition minix_zfree :: "superblk \<Rightarrow> u16 \<Rightarrow> bcache \<Rightarrow> bcache result" where
  "minix_zfree sb blkno c = map_clear sb (minix_zmap (sb_sbi sb)) (blkno - s_firstdatazone (sb_sbi sb)) c"

section \<open>Zones of a file\<close>

text \<open>The block with number \<open>idx\<close> of a file, taken; \<open>None\<close> when it has none. The nine zones are the array of the inode.\<close>

definition minix_zget :: "superblk \<Rightarrow> u16 list \<Rightarrow> u32 \<Rightarrow> bcache \<Rightarrow> (nat option \<times> bcache) result" where
  "minix_zget sb zone idx c =
     (if unat idx < zone_dib
      then (if zone ! unat idx = 0 then Inr (None, c)
            else bind_result (sb_bread sb (ucast (zone ! unat idx)) c) (\<lambda>(b, c1). Inr (Some b, c1)))
      else if unat idx < zone_ib1
      then bind_result (sb_bread sb (ucast (zone ! zone_dib)) c) (\<lambda>(b, c1).
           bind_result (bget b c1) (\<lambda>ib1. let bi = rd16 ib1 (2 * (unat idx - zone_dib)) in
           bind_result (brelse b c1) (\<lambda>c2.
             if bi = 0 then Inr (None, c2) else bind_result (sb_bread sb (ucast bi) c2) (\<lambda>(b', c3). Inr (Some b', c3)))))
      else Inr (None, c))"

text \<open>The two loops of \<open>minix_zext\<close>, over the direct zones and over the words of the indirect block.\<close>

function zext_dir :: "superblk \<Rightarrow> nat \<Rightarrow> u16 list \<Rightarrow> nat \<Rightarrow> bcache \<Rightarrow> (nat \<times> u16 list \<times> nat \<times> bcache) result" where
  "zext_dir sb i zone ext c =
     (if i < zone_dib \<and> ext \<noteq> 0
      then (if zone ! i = 0
            then bind_result (minix_zalloc sb c) (\<lambda>(z, c1). zext_dir sb (Suc i) (zone[i := z]) (ext - 1) c1)
            else zext_dir sb (Suc i) zone ext c)
      else Inr (i, zone, ext, c))"
  by pat_completeness auto
termination
  by (relation "measure (\<lambda>(sb, i, zone, ext, c). zone_dib - i)") auto

function zext_ind :: "superblk \<Rightarrow> nat \<Rightarrow> nat \<Rightarrow> nat \<Rightarrow> bcache \<Rightarrow> (nat \<times> bcache) result" where
  "zext_ind sb b i ext c =
     (if i < zone_ib1 \<and> ext \<noteq> 0
      then bind_result (bget b c) (\<lambda>ib1.
        if length ib1 \<le> 2 * i + 1 then Inl BadAccess
        else if rd16 ib1 (2 * i) = 0
        then bind_result (minix_zalloc sb c) (\<lambda>(z, c1). bind_result (bget b c1) (\<lambda>d.
             bind_result (bput b (poke (2 * i) (bytes16 z) d) c1) (\<lambda>c2. zext_ind sb b (Suc i) (ext - 1) c2)))
        else zext_ind sb b (Suc i) ext c)
      else Inr (ext, c))"
  by pat_completeness auto
termination
  by (relation "measure (\<lambda>(sb, b, i, ext, c). zone_ib1 - i)") auto

definition minix_zext :: "superblk \<Rightarrow> u16 list \<Rightarrow> nat \<Rightarrow> bcache \<Rightarrow> (nat \<times> u16 list \<times> bcache) result" where
  "minix_zext sb zone ext c =
     bind_result (zext_dir sb 0 zone ext c) (\<lambda>(i, zone1, ext1, c1).
       if ext1 = 0 then Inr (0, zone1, c1)
       else bind_result (if zone1 ! zone_dib \<noteq> 0 then bind_result (sb_bread sb (ucast (zone1 ! zone_dib)) c1) (\<lambda>(b, c2). Inr (b, zone1, c2))
              else bind_result (minix_zalloc sb c1) (\<lambda>(z, c2). bind_result (sb_bread sb (ucast z) c2) (\<lambda>(b, c3).
                   bind_result (bget b c3) (\<lambda>d. bind_result (memset d 0 (of_nat BLKSZ)) (\<lambda>d1.
                   bind_result (bstore b d1 c3) (\<lambda>c4. Inr (b, zone1[zone_dib := z], c4))))))) (\<lambda>(b, zone2, c5).
            bind_result (zext_ind sb b i ext1 c5) (\<lambda>(ext2, c6).
            bind_result (bdirty b True c6) (\<lambda>c7. bind_result (brelse b c7) (\<lambda>c8. Inr (ext2, zone2, c8))))))"

text \<open>
  \<open>minix_trunc\<close> gives back the zones from \<open>zmax\<close> on, up to the first that is missing. The array itself is not changed and
  the indirect block is not released.
\<close>

function trunc_dir :: "superblk \<Rightarrow> u16 list \<Rightarrow> nat \<Rightarrow> bcache \<Rightarrow> (nat \<times> bcache) result" where
  "trunc_dir sb zone zidx c =
     (if zidx < zone_dib \<and> zone ! zidx \<noteq> 0 then bind_result (minix_zfree sb (zone ! zidx) c) (\<lambda>c1. trunc_dir sb zone (Suc zidx) c1)
      else Inr (zidx, c))"
  by pat_completeness auto
termination
  by (relation "measure (\<lambda>(sb, zone, zidx, c). zone_dib - zidx)") auto

function trunc_ind :: "superblk \<Rightarrow> nat \<Rightarrow> nat \<Rightarrow> bcache \<Rightarrow> bcache result" where
  "trunc_ind sb b zidx c =
     (if zidx < zone_ib1
      then bind_result (bget b c) (\<lambda>ib1. let z = rd16 ib1 (2 * (zidx - zone_dib)) in
           if z \<noteq> 0 then bind_result (minix_zfree sb z c) (\<lambda>c1. trunc_ind sb b (Suc zidx) c1) else Inr c)
      else Inr c)"
  by pat_completeness auto
termination
  by (relation "measure (\<lambda>(sb, b, zidx, c). zone_ib1 - zidx)") auto

definition minix_trunc :: "superblk \<Rightarrow> u16 list \<Rightarrow> nat \<Rightarrow> bcache \<Rightarrow> bcache result" where
  "minix_trunc sb zone zmax c =
     bind_result (trunc_dir sb zone (min zmax zone_dib) c) (\<lambda>(zidx, c1).
       if zidx < zone_dib then Inr c1
       else if zone ! zone_dib = 0 then Inl AssertFail
       else bind_result (sb_bread sb (ucast (zone ! zone_dib)) c1) (\<lambda>(b, c2).
            bind_result (trunc_ind sb b (max zidx (min zmax zone_ib1)) c2) (\<lambda>c3. minix_zfree sb (zone ! zone_dib) c3)))"

section \<open>Inodes\<close>

definition minix_iget :: "superblk \<Rightarrow> u16 \<Rightarrow> bcache \<Rightarrow> (minix_inode option \<times> bcache) result" where
  "minix_iget sb ino c =
     (if ino = 0 then Inr (None, c)
      else if ino > s_inodes (sb_sbi sb) then Inr (None, c)
      else let n = unat (ino - 1)
           in bind_result (sb_bread sb (of_nat (n div nodenr_perblk) + minix_inode_blk (sb_sbi sb)) c) (\<lambda>(b, c1).
              bind_result (bget b c1) (\<lambda>itab. bind_result (brelse b c1) (\<lambda>c2.
              Inr (Some (inode_of (take 32 (drop (32 * (n mod nodenr_perblk)) itab))), c2)))))"

definition minix_isync :: "superblk \<Rightarrow> minix_inode \<Rightarrow> u16 \<Rightarrow> bcache \<Rightarrow> bcache result" where
  "minix_isync sb mi ino c =
     (if ino > s_inodes (sb_sbi sb) then Inr c
      else let n = unat (ino - 1)
           in bind_result (sb_bread sb (of_nat (n div nodenr_perblk) + minix_inode_blk (sb_sbi sb)) c) (\<lambda>(b, c1).
              bind_result (bget b c1) (\<lambda>itab.
              bind_result (bstore b (poke (32 * (n mod nodenr_perblk)) (inode_bytes mi) itab) c1) (\<lambda>c2. brelse b c2))))"

definition minix_dev_parse :: "u16 \<Rightarrow> u64" where
  "minix_dev_parse dev = makedev (ucast (drop_bit 8 dev)) (ucast (dev AND 0xff))"

definition minix_dev_make :: "u64 \<Rightarrow> u16" where
  "minix_dev_make dev = ucast (push_bit 8 (major dev) OR minor dev)"

section \<open>Directories\<close>

text \<open>A name as the bytes of a string, and the entries of a directory block.\<close>

definition cbytes :: "string \<Rightarrow> bytes" where
  "cbytes name = map of_char name @ [0]"

primrec look_ents :: "bytes \<Rightarrow> nat \<Rightarrow> nat \<Rightarrow> bytes \<Rightarrow> u16 option result" where
  "look_ents name 0 eidx d = Inr None"
| "look_ents name (Suc k) eidx d =
     bind_result (strncmp name (drop (16 * eidx + 2) d) 14) (\<lambda>r.
       if r = 0 then Inr (Some (rd16 d (16 * eidx))) else look_ents name k (Suc eidx) d)"

text \<open>The step of the outer loop is the size of an entry, not the number of entries in a block.\<close>

function look_blocks :: "superblk \<Rightarrow> u16 list \<Rightarrow> bytes \<Rightarrow> nat \<Rightarrow> nat \<Rightarrow> bcache \<Rightarrow> (u16 \<times> bcache) result" where
  "look_blocks sb zone name idx entmax c =
     (if idx < entmax
      then bind_result (minix_zget sb zone (of_nat (idx div direnr_perblk)) c) (\<lambda>(r, c1). case r of
             None \<Rightarrow> Inl BadAccess
           | Some b \<Rightarrow> bind_result (bget b c1) (\<lambda>d. bind_result (look_ents name direnr_perblk 0 d) (\<lambda>h.
               bind_result (brelse b c1) (\<lambda>c2. case h of Some ino \<Rightarrow> Inr (ino, c2) | None \<Rightarrow> look_blocks sb zone name (idx + 16) entmax c2))))
      else Inr (0, c))"
  by pat_completeness auto
termination
  by (relation "measure (\<lambda>(sb, zone, name, idx, entmax, c). entmax - idx)") auto

definition minix_lookup :: "superblk \<Rightarrow> minix_inode \<Rightarrow> string \<Rightarrow> bcache \<Rightarrow> (u16 \<times> bcache) result" where
  "minix_lookup sb mdir name c = look_blocks sb (i_zone mdir) (cbytes name) 0 (unat (i_size mdir) div 16) c"

text \<open>
  The loops of \<open>minix_eddir\<close>. The inner one goes over the entries of a block from \<open>eidx\<close> on; \<open>True\<close> is its return with
  an entry inserted. An erased entry does not end it, although the block is released at that point.
\<close>

primrec ed_ents :: "superblk \<Rightarrow> u16 \<Rightarrow> bytes \<Rightarrow> u16 \<Rightarrow> nat \<Rightarrow> nat \<Rightarrow> nat \<Rightarrow> nat \<Rightarrow> minix_inode \<Rightarrow> bcache \<Rightarrow> (bool \<times> minix_inode \<times> bcache) result" where
  "ed_ents sb dino name ino idx b 0 eidx mdir c = Inr (False, mdir, c)"
| "ed_ents sb dino name ino idx b (Suc k) eidx mdir c =
     bind_result (bget b c) (\<lambda>d.
     bind_result (if ino = 0 then bind_result (strncmp (drop (16 * eidx + 2) d) name 14) (\<lambda>r. Inr (r = 0)) else Inr False) (\<lambda>hit.
       if hit
       then bind_result (bstore b (poke (16 * eidx) (bytes16 0) d) c) (\<lambda>c1. bind_result (brelse b c1) (\<lambda>c2.
            ed_ents sb dino name ino idx b k (Suc eidx) mdir c2))
       else if ino \<noteq> 0 \<and> rd16 d (16 * eidx) = 0
       then let d1 = poke (16 * eidx) (bytes16 ino) d
            in bind_result (strncpy (drop (16 * eidx + 2) d1) name 14) (\<lambda>t.
               bind_result (bstore b (take (16 * eidx + 2) d1 @ t) c) (\<lambda>c1. bind_result (brelse b c1) (\<lambda>c2.
               let nsize = of_nat ((idx * direnr_perblk + eidx + 1) * 16)
               in if i_size mdir < nsize
                  then let mdir1 = mdir\<lparr>i_size := nsize\<rparr> in bind_result (minix_isync sb mdir1 dino c2) (\<lambda>c3. Inr (True, mdir1, c3))
                  else Inr (True, mdir, c2))))
       else ed_ents sb dino name ino idx b k (Suc eidx) mdir c))"

function ed_blocks :: "superblk \<Rightarrow> u16 \<Rightarrow> bytes \<Rightarrow> u16 \<Rightarrow> nat \<Rightarrow> nat \<Rightarrow> minix_inode \<Rightarrow> bcache \<Rightarrow> (bool \<times> minix_inode \<times> bcache) result" where
  "ed_blocks sb dino name ino idx entmax mdir c =
     (if idx < entmax
      then bind_result (minix_zget sb (i_zone mdir) (of_nat (idx div direnr_perblk)) c) (\<lambda>(r, c1). case r of
             None \<Rightarrow> Inl BadAccess
           | Some b \<Rightarrow> bind_result (ed_ents sb dino name ino idx b direnr_perblk 0 mdir c1) (\<lambda>(fin, mdir1, c2).
               if fin then Inr (True, mdir1, c2)
               else bind_result (brelse b c2) (\<lambda>c3. ed_blocks sb dino name ino (idx + direnr_perblk) entmax mdir1 c3)))
      else Inr (False, mdir, c))"
  by pat_completeness auto
termination
  by (relation "measure (\<lambda>(sb, dino, name, ino, idx, entmax, mdir, c). entmax - idx)") (auto simp: direnr_perblk_def)

text \<open>When no block had what was looked for, the directory gets a new block and everything starts again.\<close>

partial_function (option) minix_eddir :: "superblk \<Rightarrow> u16 \<Rightarrow> bytes \<Rightarrow> u16 \<Rightarrow> minix_inode \<Rightarrow> bcache \<Rightarrow> (int \<times> minix_inode \<times> bcache) result option" where
  "minix_eddir sb dino name ino mdir c =
     (case ed_blocks sb dino name ino 0 (unat (i_size mdir) div 16) mdir c of
        Inl e \<Rightarrow> Some (Inl e)
      | Inr q \<Rightarrow>
          if fst q then Some (Inr (0, snd q))
          else (case minix_zext sb (i_zone (fst (snd q))) 1 (snd (snd q)) of
                  Inl e \<Rightarrow> Some (Inl e)
                | Inr p \<Rightarrow>
                    if fst p \<noteq> 0 then Some (Inr (- ENOSPC, (fst (snd q))\<lparr>i_zone := fst (snd p)\<rparr>, snd (snd p)))
                    else minix_eddir sb dino name ino ((fst (snd q))\<lparr>i_zone := fst (snd p)\<rparr>) (snd (snd p))))"

definition minix_setupdir :: "superblk \<Rightarrow> u16 list \<Rightarrow> u16 \<Rightarrow> u16 \<Rightarrow> bcache \<Rightarrow> (int \<times> u16 list \<times> bcache) result" where
  "minix_setupdir sb zone ino pino c =
     bind_result (minix_zalloc sb c) (\<lambda>(z, c1). let zone1 = zone[0 := z] in
       if z = 0 then Inr (- ENOSPC, zone1, c1)
       else bind_result (minix_zget sb zone1 0 c1) (\<lambda>(r, c2). case r of
              None \<Rightarrow> Inl BadAccess
            | Some b \<Rightarrow> bind_result (bget b c2) (\<lambda>d.
                let d1 = poke 2 (cbytes ''.'') (poke 0 (bytes16 ino) d); d2 = poke 18 (cbytes ''..'') (poke 16 (bytes16 pino) d1)
                in bind_result (bstore b d2 c2) (\<lambda>c3. bind_result (brelse b c3) (\<lambda>c4. Inr (0, zone1, c4))))))"

section \<open>Operations of the file system\<close>

record minix = vfs +
  m_sb :: superblk
  m_cache :: bcache
  m_ino :: "nat \<Rightarrow> minix_inode option"
  m_nino :: nat
  m_nnode :: nid

definition minix_isdev :: "u32 \<Rightarrow> bool" where
  "minix_isdev mode \<longleftrightarrow> S_ISCHR mode \<or> S_ISBLK mode"

definition ino_at :: "nat \<Rightarrow> minix \<Rightarrow> minix_inode result" where
  "ino_at p s = (case m_ino s p of None \<Rightarrow> Inl BadAccess | Some m \<Rightarrow> Inr m)"

definition set_ino :: "nat \<Rightarrow> minix_inode \<Rightarrow> minix \<Rightarrow> minix" where
  "set_ino p m s = s\<lparr>m_ino := (m_ino s)(p \<mapsto> m)\<rparr>"

text \<open>An in-memory copy of an inode, as \<open>minix_iget\<close> allocates it.\<close>

definition new_ino :: "minix_inode \<Rightarrow> minix \<Rightarrow> nat \<times> minix" where
  "new_ino m s = (m_nino s, set_ino (m_nino s) m (s\<lparr>m_nino := Suc (m_nino s)\<rparr>))"

definition minix_nodeget :: "nat \<Rightarrow> u16 \<Rightarrow> string \<Rightarrow> minix \<Rightarrow> (nid \<times> minix) result" where
  "minix_nodeget p ino name s =
     bind_result (ino_at p s) (\<lambda>mi. bind_result (dev_at (sb_dev (m_sb s)) (m_cache s)) (\<lambda>d.
     let t = ucast (i_mtime mi);
         n = (junk s)\<lparr>n_name := name, n_mnt := False, n_siz := ucast (i_size mi), n_ino := ucast ino, n_mode := ucast (i_mode mi), n_atime := t, n_mtime := t, n_ctime := t,
               n_dev := makedev (d_major d) (d_minor d),
               n_rdev := (if minix_isdev (ucast (i_mode mi)) then minix_dev_parse (i_zone mi ! 0) else 0),
               n_mount := None, n_pdata := p, n_child := []\<rparr>;
         i = m_nnode s
     in Inr (i, set_node i n (s\<lparr>m_nnode := Suc i\<rparr>))))"

definition minix_namel :: "string \<Rightarrow> string option" where
  "minix_namel name = (let seg = takeWhile (\<lambda>c. c \<noteq> CHR ''/'') name in if length seg > 14 then None else Some seg)"

text \<open>The end of \<open>minix_open\<close> and \<open>minix_mknod\<close>, and their exit when there is no room.\<close>

definition minix_give :: "nat \<Rightarrow> u16 \<Rightarrow> string \<Rightarrow> nid \<Rightarrow> minix \<Rightarrow> (int \<times> nid option \<times> minix) result" where
  "minix_give p ino name parent s =
     bind_result (minix_nodeget p ino name s) (\<lambda>(n, s1). bind_result (vfs_regst n parent s1) (\<lambda>s2. Inr (0, Some n, s2)))"

definition minix_nospace :: "u16 \<Rightarrow> minix \<Rightarrow> (int \<times> nid option \<times> minix) result" where
  "minix_nospace ino s =
     (if ino = 0 then Inr (- ENOSPC, None, s)
      else bind_result (minix_ifree (m_sb s) ino (m_cache s)) (\<lambda>c. Inr (- ENOSPC, None, s\<lparr>m_cache := c\<rparr>)))"

text \<open>An entry in the directory of node \<open>parent\<close>, whose in-memory inode may grow.\<close>

definition add_entry :: "nid \<Rightarrow> string \<Rightarrow> u16 \<Rightarrow> minix \<Rightarrow> (int \<times> minix) result" where
  "add_entry parent name ino s =
     bind_result (deref (Some parent) s) (\<lambda>pn. bind_result (ino_at (n_pdata pn) s) (\<lambda>mdir.
     bind_result (run (minix_eddir (m_sb s) (ucast (n_ino pn)) (cbytes name) ino mdir (m_cache s))) (\<lambda>(ret, mdir1, c).
     Inr (ret, set_ino (n_pdata pn) mdir1 (s\<lparr>m_cache := c\<rparr>)))))"

definition fresh_inode :: "minix_inode \<Rightarrow> u16 \<Rightarrow> minix \<Rightarrow> minix_inode" where
  "fresh_inode mi mode s = mi\<lparr>i_mode := mode, i_uid := 0, i_size := 0, i_mtime := ucast (now s), i_gid := 0, i_nlinks := 1, i_zone := replicate 9 0\<rparr>"

definition minix_create :: "nid \<Rightarrow> string \<Rightarrow> u64 \<Rightarrow> u32 \<Rightarrow> minix \<Rightarrow> (int \<times> nid option \<times> minix) result" where
  "minix_create parent name args mode0 s =
     (let mode = ucast (mode0 AND NOT S_IFMT) :: u16
      in bind_result (minix_ialloc (m_sb s) (m_cache s)) (\<lambda>(ino, c1). let s1 = s\<lparr>m_cache := c1\<rparr> in
         if ino = 0 then minix_nospace ino s1
         else bind_result (add_entry parent name ino s1) (\<lambda>(ret, s2).
           if ret < 0 then minix_nospace ino s2
           else bind_result (minix_iget (m_sb s2) ino (m_cache s2)) (\<lambda>(r, c3). case r of
                  None \<Rightarrow> Inl BadAccess
                | Some mi \<Rightarrow>
                    let s3 = s2\<lparr>m_cache := c3\<rparr>; m0 = fresh_inode mi mode s3
                    in if args AND O_DIRECTORY \<noteq> 0
                       then bind_result (deref (Some parent) s3) (\<lambda>pn.
                            bind_result (minix_setupdir (m_sb s3) (i_zone m0) ino (ucast (n_ino pn)) c3) (\<lambda>(ret, zone, c4).
                            let s4 = s3\<lparr>m_cache := c4\<rparr>; m1 = m0\<lparr>i_size := 32, i_mode := i_mode m0 OR 0x4000, i_zone := zone\<rparr>
                            in if ret < 0 then minix_nospace ino s4
                               else bind_result (minix_isync (m_sb s4) m1 ino c4) (\<lambda>c5.
                                    let (p, s5) = new_ino m1 (s4\<lparr>m_cache := c5\<rparr>) in minix_give p ino name parent s5)))
                       else let m1 = m0\<lparr>i_mode := i_mode m0 OR 0x8000\<rparr>
                            in bind_result (minix_isync (m_sb s3) m1 ino c3) (\<lambda>c5.
                               let (p, s5) = new_ino m1 (s3\<lparr>m_cache := c5\<rparr>) in minix_give p ino name parent s5)))))"

definition minix_open :: "nid \<Rightarrow> string \<Rightarrow> u64 \<Rightarrow> u32 \<Rightarrow> minix \<Rightarrow> (int \<times> nid option \<times> minix) result" where
  "minix_open parent name args mode s =
     (case minix_namel name of
        None \<Rightarrow> Inr (- ENAMETOOLONG, None, s)
      | Some filname \<Rightarrow>
          bind_result (deref (Some parent) s) (\<lambda>pn. bind_result (ino_at (n_pdata pn) s) (\<lambda>mdir.
          bind_result (minix_lookup (m_sb s) mdir filname (m_cache s)) (\<lambda>(ino, c1).
          bind_result (minix_iget (m_sb s) ino c1) (\<lambda>(r, c2). let s1 = s\<lparr>m_cache := c2\<rparr> in case r of
            Some mi \<Rightarrow> let (p, s2) = new_ino mi s1 in minix_give p ino filname parent s2
          | None \<Rightarrow> if args AND O_CREAT \<noteq> 0 then minix_create parent filname args mode s1 else Inr (- ENOENT, None, s1))))))"

definition minix_mknod :: "nid \<Rightarrow> string \<Rightarrow> u64 \<Rightarrow> u32 \<Rightarrow> minix \<Rightarrow> (int \<times> nid option \<times> minix) result" where
  "minix_mknod parent name rdev mode s =
     (case minix_namel name of
        None \<Rightarrow> Inr (- ENAMETOOLONG, None, s)
      | Some filname \<Rightarrow>
          bind_result (minix_ialloc (m_sb s) (m_cache s)) (\<lambda>(ino, c1). let s1 = s\<lparr>m_cache := c1\<rparr> in
          if ino = 0 then minix_nospace ino s1
          else bind_result (add_entry parent filname ino s1) (\<lambda>(ret, s2).
            if ret < 0 then minix_nospace ino s2
            else bind_result (minix_iget (m_sb s2) ino (m_cache s2)) (\<lambda>(r, c3). case r of
                   None \<Rightarrow> Inl BadAccess
                 | Some mi \<Rightarrow> let s3 = s2\<lparr>m_cache := c3\<rparr>; m0 = fresh_inode mi (ucast mode) s3; m1 = m0\<lparr>i_zone := (i_zone m0)[0 := minix_dev_make rdev]\<rparr>
                     in bind_result (minix_isync (m_sb s3) m1 ino c3) (\<lambda>c5.
                        let (p, s5) = new_ino m1 (s3\<lparr>m_cache := c5\<rparr>) in minix_give p ino filname parent s5)))))"

text \<open>The in-memory inode of a node changed and written to the disk.\<close>

definition put_inode :: "nid \<Rightarrow> (minix_inode \<Rightarrow> minix_inode) \<Rightarrow> minix \<Rightarrow> (int \<times> minix) result" where
  "put_inode this f s =
     bind_result (deref (Some this) s) (\<lambda>n. bind_result (ino_at (n_pdata n) s) (\<lambda>mi.
     bind_result (minix_isync (m_sb s) (f mi) (ucast (n_ino n)) (m_cache s)) (\<lambda>c. Inr (0, set_ino (n_pdata n) (f mi) (s\<lparr>m_cache := c\<rparr>)))))"

definition minix_chown :: "nid \<Rightarrow> u32 \<Rightarrow> u32 \<Rightarrow> bool \<Rightarrow> minix \<Rightarrow> (int \<times> minix) result" where
  "minix_chown this owner grp ap s =
     bind_result (m_chown this owner grp ap s) (\<lambda>(_, s1). put_inode this (\<lambda>mi. mi\<lparr>i_uid := ucast owner, i_gid := ucast grp\<rparr>) s1)"

definition minix_chmod :: "nid \<Rightarrow> u32 \<Rightarrow> bool \<Rightarrow> minix \<Rightarrow> (int \<times> minix) result" where
  "minix_chmod this mode0 clrsgid s =
     (let mode = mode0 AND 0x1ff
      in bind_result (m_chmod this mode clrsgid s) (\<lambda>(_, s1). put_inode this (\<lambda>mi. mi\<lparr>i_mode := (i_mode mi AND NOT 0x1ff) OR ucast mode\<rparr>) s1))"

definition minix_close :: "nid \<Rightarrow> minix \<Rightarrow> (int \<times> minix) result" where
  "minix_close this s = Inr (0, s)"

section \<open>Reading and writing\<close>

function mread_loop :: "superblk \<Rightarrow> minix_inode \<Rightarrow> nat \<Rightarrow> u64 \<Rightarrow> bytes \<Rightarrow> bcache \<Rightarrow> (bytes \<times> bcache) result" where
  "mread_loop sb mi rem offset buf c =
     (if 0 < rem \<and> offset < ucast (i_size mi)
      then bind_result (minix_zget sb (i_zone mi) (ucast (offset div of_nat BLKSZ)) c) (\<lambda>(r, c1). case r of
             None \<Rightarrow> Inr (buf, c1)
           | Some b \<Rightarrow>
               let boff = unat (offset mod of_nat BLKSZ);
                   n = min (min (BLKSZ - boff) rem) (unat (ucast (i_size mi) - offset))
               in bind_result (bget b c1) (\<lambda>d. bind_result (brelse b c1) (\<lambda>c2.
                  mread_loop sb mi (rem - n) (offset + of_nat n) (buf @ take n (drop boff d)) c2)))
      else Inr (buf, c))"
  by pat_completeness auto
termination
proof (relation "measure (\<lambda>(sb, mi, rem, offset, buf, c). rem)", goal_cases)
  case 1
  then show ?case by simp
next
  case (2 sb mi rem offset)
  have "unat (offset mod of_nat BLKSZ) < BLKSZ" by (simp add: BLKSZ_def unat_mod_distrib)
  moreover have "unat (ucast (i_size mi) - offset) \<noteq> 0" using 2(1) by (auto simp: unat_eq_0)
  ultimately show ?case using 2 by auto
qed

definition minix_read :: "nid \<Rightarrow> u64 \<Rightarrow> u64 \<Rightarrow> minix \<Rightarrow> (int \<times> bytes \<times> minix) result" where
  "minix_read this siz offset s =
     bind_result (deref (Some this) s) (\<lambda>n.
       if offset \<ge> n_siz n then Inr (0, [], s)
       else bind_result (ino_at (n_pdata n) s) (\<lambda>mi.
            bind_result (mread_loop (m_sb s) mi (unat siz) offset [] (m_cache s)) (\<lambda>(buf, c).
            Inr (sint (of_nat (length buf) :: u32), buf, set_node this (n\<lparr>n_atime := now s\<rparr>) (s\<lparr>m_cache := c\<rparr>)))))"

text \<open>The loop of \<open>minix_write\<close>: the zones, where it stopped and what is left to write.\<close>

function mwrite_loop :: "superblk \<Rightarrow> u16 list \<Rightarrow> bytes \<Rightarrow> u64 \<Rightarrow> bcache \<Rightarrow> (u16 list \<times> u64 \<times> bytes \<times> bcache) result" where
  "mwrite_loop sb zone src offset c =
     (if src = [] then Inr (zone, offset, src, c)
      else let bidx = ucast (offset div of_nat BLKSZ) :: u32; boff = unat (offset mod of_nat BLKSZ)
           in if zone_ib2 \<le> unat bidx then Inr (zone, offset, src, c)
              else bind_result (minix_zget sb zone bidx c) (\<lambda>(r, c1).
                   bind_result (case r of Some b \<Rightarrow> Inr (True, Some b, zone, c1)
                     | None \<Rightarrow> bind_result (minix_zext sb zone 1 c1) (\<lambda>(err, zone1, c2).
                         if err \<noteq> 0 then Inr (False, None, zone1, c2)
                         else bind_result (minix_zget sb zone1 bidx c2) (\<lambda>(r1, c3). Inr (True, r1, zone1, c3)))) (\<lambda>(go, r1, zone1, c3).
                     if \<not> go then Inr (zone1, offset, src, c3)
                     else case r1 of None \<Rightarrow> Inl BadAccess | Some b \<Rightarrow>
                       let n = min (BLKSZ - boff) (length src)
                       in bind_result (bget b c3) (\<lambda>d. bind_result (bstore b (poke boff (take n src) d) c3) (\<lambda>c4. bind_result (brelse b c4) (\<lambda>c5.
                          mwrite_loop sb zone1 (drop n src) (offset + of_nat n) c5))))))"
  by pat_completeness auto
termination
proof (relation "measure (\<lambda>(sb, zone, src, offset, c). length src)", goal_cases)
  case 1
  then show ?case by simp
next
  case (2 sb zone src offset)
  have "unat (offset mod of_nat BLKSZ) < BLKSZ" by (simp add: BLKSZ_def unat_mod_distrib)
  then show ?case using 2 by (auto simp: neq_Nil_conv)
qed

definition minix_write :: "nid \<Rightarrow> bytes \<Rightarrow> u64 \<Rightarrow> minix \<Rightarrow> (int \<times> minix) result" where
  "minix_write this buf offset s =
     bind_result (deref (Some this) s) (\<lambda>n. bind_result (ino_at (n_pdata n) s) (\<lambda>mi.
     bind_result (mwrite_loop (m_sb s) (i_zone mi) buf offset (m_cache s)) (\<lambda>(zone, end, rest, c).
     let tot = length buf - length rest; mi1 = mi\<lparr>i_zone := zone\<rparr>; s1 = set_ino (n_pdata n) mi1 (s\<lparr>m_cache := c\<rparr>);
         ret = (if tot > 0 then sint (of_nat tot :: u32) else - ENOSPC)
     in if end > ucast (i_size mi)
        then let mi2 = mi1\<lparr>i_size := ucast end, i_mtime := ucast (now s)\<rparr>
             in bind_result (minix_isync (m_sb s) mi2 (ucast (n_ino n)) c) (\<lambda>c1.
                Inr (ret, set_node this (n\<lparr>n_siz := ucast (i_size mi2)\<rparr>) (set_ino (n_pdata n) mi2 (s1\<lparr>m_cache := c1\<rparr>))))
        else Inr (ret, s1))))"

text \<open>\<open>DIV_ROUND_UP(mi->size, len)\<close> divides by the new length.\<close>

definition minix_truncate :: "nid \<Rightarrow> u64 \<Rightarrow> minix \<Rightarrow> (int \<times> minix) result" where
  "minix_truncate this len s =
     bind_result (deref (Some this) s) (\<lambda>n. bind_result (ino_at (n_pdata n) s) (\<lambda>mi.
     let zmax = ucast ((len + (of_nat BLKSZ - 1)) div of_nat BLKSZ) :: u32
     in if len = 0 then Inl Panic
        else let zhas = ucast ((ucast (i_size mi) + (len - 1)) div len) :: u32
             in if zmax = zhas then Inr (0, s)
                else bind_result (if zmax < zhas then minix_trunc (m_sb s) (i_zone mi) (unat zmax) (m_cache s) else Inr (m_cache s)) (\<lambda>c.
                     let mi1 = mi\<lparr>i_size := ucast len\<rparr>
                     in bind_result (minix_isync (m_sb s) mi1 (ucast (n_ino n)) c) (\<lambda>c1.
                        Inr (0, set_node this (n\<lparr>n_siz := ucast (i_size mi1), n_mtime := now s\<rparr>) (set_ino (n_pdata n) mi1 (s\<lparr>m_cache := c1\<rparr>)))))))"

text \<open>A file that is not a directory is taken off the disk; its node is released like any other.\<close>

definition minix_remove :: "nid \<Rightarrow> minix \<Rightarrow> (int \<times> minix) result" where
  "minix_remove this s =
     bind_result (deref (Some this) s) (\<lambda>n. bind_result (ino_at (n_pdata n) s) (\<lambda>mi.
     bind_result (if \<not> minix_isdev (n_mode n) then minix_trunc (m_sb s) (i_zone mi) 0 (m_cache s) else Inr (m_cache s)) (\<lambda>c.
     bind_result (case n_parent n of None \<Rightarrow> Inl BadAccess | Some parent \<Rightarrow> add_entry parent (n_name n) 0 (s\<lparr>m_cache := c\<rparr>)) (\<lambda>(_, s1).
     bind_result (minix_ifree (m_sb s1) (ucast (n_ino n)) (m_cache s1)) (\<lambda>c1.
     let s2 = s1\<lparr>m_cache := c1, m_ino := (m_ino s1)(n_pdata n := None)\<rparr>
     in bind_result (run (vfs_release this s2)) (\<lambda>s3. Inr (0, s3)))))))"

definition minix_mount :: "nat \<Rightarrow> minix \<Rightarrow> (superblk option \<times> nid option \<times> minix) result" where
  "minix_mount dev s =
     bind_result (bread dev (of_nat BLKSZ) 1 (m_cache s)) (\<lambda>(b, c1). bind_result (bget b c1) (\<lambda>d. bind_result (brelse b c1) (\<lambda>c2.
     let msb = super_of (take 20 d); sb = \<lparr>sb_blksz = of_nat BLKSZ, sb_dev = dev, sb_sbi = msb\<rparr>
     in if s_magic msb \<noteq> MINIX_V1 then Inr (None, None, s\<lparr>m_cache := c2\<rparr>)
        else bind_result (minix_iget sb 1 c2) (\<lambda>(r, c3). case r of
               None \<Rightarrow> Inl BadAccess
             | Some root \<Rightarrow> let (p, s1) = new_ino root (s\<lparr>m_cache := c3, m_sb := sb\<rparr>)
                 in bind_result (minix_nodeget p 1 ''/'' s1) (\<lambda>(n, s2). Inr (Some sb, Some n, s2))))))"

end
