(* ===== verification/Minix_Disk.thy ===== *)
theory Minix_Disk
  imports Minix
begin

unbundle bit_operations_syntax

text \<open>
  The structures of a minix disk: the bytes of an inode, the blocks of the device as the cache shows them, the bitmaps
  as sets of numbers, and the allocation of zones and inodes.
\<close>

section \<open>Bytes of structures\<close>

lemma rd16_bytes16 [simp]: "rd16 (bytes16 w) 0 = w"
  by (rule bit_word_eqI) (auto simp: rd16_def bytes16_def bit_simps)

lemma length_bytes [simp]: "length (bytes16 w) = 2" "length (bytes32 x) = 4"
  by (simp_all add: bytes16_def bytes32_def)

lemma rd16_append: "length xs = k \<Longrightarrow> 2 \<le> length ys \<Longrightarrow> rd16 (xs @ ys) (k + j) = rd16 ys j"
  by (simp add: rd16_def nth_append)

lemma rd16_front [simp]: "rd16 (bytes16 w @ ys) 0 = w"
proof -
  have "rd16 (bytes16 w @ ys) 0 = rd16 (bytes16 w) 0" by (simp add: rd16_def nth_append)
  then show ?thesis by simp
qed

lemma rd32_front: "rd32 (bytes32 w @ ys) 0 = w"
proof -
  have "rd16 (bytes32 w @ ys) 0 = ucast w" by (simp add: bytes32_def)
  moreover have "rd16 (bytes32 w @ ys) 2 = ucast (drop_bit 16 w)"
    using rd16_append [of "bytes16 (ucast w)" 2 "bytes16 (ucast (drop_bit 16 w)) @ ys" 0] by (simp add: bytes32_def)
  ultimately have "rd32 (bytes32 w @ ys) 0 = ucast (ucast w :: u16) OR push_bit 16 (ucast (ucast (drop_bit 16 w) :: u16))"
    by (simp add: rd32_def numeral_2_eq_2)
  then show ?thesis by (auto intro!: bit_word_eqI simp: bit_simps)
qed

lemma rd32_append: "length xs = k \<Longrightarrow> rd32 (xs @ ys) (k + j) = rd32 ys j"
  by (simp add: rd32_def rd16_def nth_append add.assoc numeral_3_eq_3)

lemma rd16_zones: "k < length zs \<Longrightarrow> rd16 (concat (map bytes16 zs) @ ys) (2 * k) = zs ! k"
proof (induction zs arbitrary: k)
  case (Cons z zs)
  show ?case
  proof (cases k)
    case (Suc j)
    then have "rd16 (concat (map bytes16 zs) @ ys) (2 * j) = zs ! j" using Cons by simp
    moreover have "rd16 (bytes16 z @ concat (map bytes16 zs) @ ys) (2 + 2 * j) = rd16 (concat (map bytes16 zs) @ ys) (2 * j)"
      by (simp add: rd16_def bytes16_def)
    ultimately show ?thesis using Suc by simp
  qed simp
qed simp

lemma length_zone_bytes: "length (concat (map bytes16 zs)) = 2 * length zs"
  by (induction zs) simp_all

lemma length_inode_bytes: "length (i_zone m) = 9 \<Longrightarrow> length (inode_bytes m) = 32"
  by (simp add: inode_bytes_def length_zone_bytes)

lemma inode_roundtrip_eq:
  assumes "length (i_zone m) = 9"
  shows "inode_of (inode_bytes m) = m"
proof -
  let ?z = "concat (map bytes16 (i_zone m))"
  let ?t4 = "[i_gid m, i_nlinks m] @ ?z"
  let ?t3 = "bytes32 (i_mtime m) @ ?t4"
  let ?t2 = "bytes32 (i_size m) @ ?t3"
  let ?t1 = "bytes16 (i_uid m) @ ?t2"
  have e: "inode_bytes m = bytes16 (i_mode m) @ ?t1" by (simp add: inode_bytes_def)
  have 1: "rd16 (inode_bytes m) 2 = i_uid m" unfolding e using rd16_append [of "bytes16 (i_mode m)" 2 ?t1 0] by simp
  have e2: "inode_bytes m = (bytes16 (i_mode m) @ bytes16 (i_uid m)) @ ?t2" by (simp add: inode_bytes_def)
  have 2: "rd32 (inode_bytes m) 4 = i_size m" unfolding e2 using rd32_append [of "bytes16 (i_mode m) @ bytes16 (i_uid m)" 4 ?t2 0] rd32_front by simp
  have e3: "inode_bytes m = (bytes16 (i_mode m) @ bytes16 (i_uid m) @ bytes32 (i_size m)) @ ?t3" by (simp add: inode_bytes_def)
  have 3: "rd32 (inode_bytes m) 8 = i_mtime m"
    unfolding e3 using rd32_append [of "bytes16 (i_mode m) @ bytes16 (i_uid m) @ bytes32 (i_size m)" 8 ?t3 0] rd32_front by simp
  let ?h = "bytes16 (i_mode m) @ bytes16 (i_uid m) @ bytes32 (i_size m) @ bytes32 (i_mtime m)"
  have e4: "inode_bytes m = ?h @ ?t4" by (simp add: inode_bytes_def)
  have l: "length ?h = 12" by simp
  have 4: "inode_bytes m ! 12 = i_gid m" "inode_bytes m ! 13 = i_nlinks m"
    unfolding e4 using nth_append_length_plus [of ?h ?t4 0] nth_append_length_plus [of ?h ?t4 1] unfolding l by simp_all
  have e5: "inode_bytes m = (?h @ [i_gid m, i_nlinks m]) @ ?z" by (simp add: inode_bytes_def)
  have "rd16 (inode_bytes m) (14 + 2 * k) = i_zone m ! k" if "k < 9" for k
    unfolding e5 using rd16_append [of "?h @ [i_gid m, i_nlinks m]" 14 ?z "2 * k"] rd16_zones [of k "i_zone m" "[]"] assms that
    by (simp add: length_zone_bytes)
  then have 5: "map (\<lambda>k. rd16 (inode_bytes m) (14 + 2 * k)) [0..<9] = i_zone m" using assms by (intro nth_equalityI) simp_all
  have 0: "rd16 (inode_bytes m) 0 = i_mode m" unfolding e by simp
  show ?thesis using 0 1 2 3 4 5 by (simp add: inode_of_def)
qed

text \<open>
  An inode that is written in the layout of the disk and read back is the same inode: no field overlaps another or is
  cut.\<close>

theorem inode_roundtrip:
  assumes "length (i_zone m) = 9"
  shows "inode_of (inode_bytes m) = m \<and> length (inode_bytes m) = 32"
  using inode_roundtrip_eq [OF assms] length_inode_bytes [OF assms] by simp

theorem inode_roundtrip_witness:
  "inode_of (inode_bytes \<lparr>i_mode = 0x81a4, i_uid = 1, i_size = 0x12345678, i_mtime = 7, i_gid = 2, i_nlinks = 1, i_zone = [11,12,13,0,0,0,0,0x1234,0]\<rparr>) =
     \<lparr>i_mode = 0x81a4, i_uid = 1, i_size = 0x12345678, i_mtime = 7, i_gid = 2, i_nlinks = 1, i_zone = [11,12,13,0,0,0,0,0x1234,0]\<rparr>"
  using inode_roundtrip [of "\<lparr>i_mode = 0x81a4, i_uid = 1, i_size = 0x12345678, i_mtime = 7, i_gid = 2, i_nlinks = 1, i_zone = [11,12,13,0,0,0,0,0x1234,0]\<rparr>"]
  by simp

section \<open>The blocks of the device\<close>

definition mok :: "superblk \<Rightarrow> (nat \<Rightarrow> nat) \<Rightarrow> bcache \<Rightarrow> bool" where
  "mok sb H c \<longleftrightarrow> sb_blksz sb = 1024 \<and> (\<exists>B. B (sb_dev sb) = 1024 \<and> bc_ok B (sb_dev sb) (2 ^ 18) H c)"

definition blk :: "superblk \<Rightarrow> bcache \<Rightarrow> u32 \<Rightarrow> bytes" where
  "blk sb c = bview 1024 c (sb_dev sb)"

interpretation mb: block_store "sb_bread sb" bget bstore brelse "mok sb" "blk sb" "bc_hnd (sb_dev sb)" "\<lambda>x. unat x < 2 ^ 18" 1024 for sb
proof unfold_locales
  fix H c and x :: u32 assume a: "mok sb H c" "few H" "unat x < 2 ^ 18"
  then obtain B where B: "sb_blksz sb = 1024" "B (sb_dev sb) = 1024" "bc_ok B (sb_dev sb) (2 ^ 18) H c" by (auto simp: mok_def)
  show "\<exists>i c'. sb_bread sb x c = Inr (i, c') \<and> mok sb (H(i := Suc (H i))) c' \<and> bc_hnd (sb_dev sb) i x c' \<and> blk sb c' = blk sb c"
    using bc.get_ok [OF B(3) a(2,3)] B(1,2) by (auto simp: sb_bread_def mok_def blk_def)
next
  fix H c i x assume a: "mok sb H c" "bc_hnd (sb_dev sb) i x c"
  then obtain B where B: "B (sb_dev sb) = 1024" "bc_ok B (sb_dev sb) (2 ^ 18) H c" by (auto simp: mok_def)
  show "bget i c = Inr (blk sb c x)" using bc.look_ok [OF B(2) a(2)] B(1) by (simp add: blk_def)
next
  fix H c i x and d :: bytes assume a: "mok sb H c" "bc_hnd (sb_dev sb) i x c" "H i \<noteq> 0" "length d = 1024"
  then obtain B where B: "sb_blksz sb = 1024" "B (sb_dev sb) = 1024" "bc_ok B (sb_dev sb) (2 ^ 18) H c" by (auto simp: mok_def)
  show "\<exists>c'. bstore i d c = Inr c' \<and> mok sb H c' \<and> bc_hnd (sb_dev sb) i x c' \<and> blk sb c' = (blk sb c)(x := d)"
    using bc.store_ok [OF B(3) a(2,3), of d] a(4) B(1,2) by (auto simp: mok_def blk_def)
next
  fix H c i x n assume a: "mok sb H c" "bc_hnd (sb_dev sb) i x c" "H i = Suc n"
  then obtain B where B: "sb_blksz sb = 1024" "B (sb_dev sb) = 1024" "bc_ok B (sb_dev sb) (2 ^ 18) H c" by (auto simp: mok_def)
  show "\<exists>c'. brelse i c = Inr c' \<and> mok sb (H(i := n)) c' \<and> blk sb c' = blk sb c"
    using bc.rel_ok [OF B(3) a(2,3)] B(1,2) by (auto simp: mok_def blk_def)
next
  fix H c and x :: u32 assume a: "mok sb H c" "unat x < 2 ^ 18"
  then obtain B where B: "B (sb_dev sb) = 1024" "bc_ok B (sb_dev sb) (2 ^ 18) H c" by (auto simp: mok_def)
  show "length (blk sb c x) = 1024" using bc.blk_len [OF B(2) a(2)] B(1) by (simp add: blk_def)
qed

interpretation mbh: held_store "sb_bread sb" bget bstore brelse "mok sb" "blk sb" "bc_hnd (sb_dev sb)" "\<lambda>x. unat x < 2 ^ 18" 1024 for sb
proof unfold_locales
  fix H c and x :: u32 and i c' j and y :: u32
  assume a: "mok sb H c" "few H" "unat x < 2 ^ 18" "sb_bread sb x c = Inr (i, c')" "bc_hnd (sb_dev sb) j y c"
  then obtain B where "sb_blksz sb = 1024" "B (sb_dev sb) = 1024" "bc_ok B (sb_dev sb) (2 ^ 18) H c" by (auto simp: mok_def)
  then show "bc_hnd (sb_dev sb) j y c'" using bch.get_keeps [of B "sb_dev sb" "2 ^ 18" H c x i c' j y] a by (simp add: sb_bread_def)
next
  fix H c i and x :: u32 and n c' j and y :: u32
  assume a: "mok sb H c" "bc_hnd (sb_dev sb) i x c" "H i = Suc n" "brelse i c = Inr c'" "bc_hnd (sb_dev sb) j y c"
  then obtain B where "bc_ok B (sb_dev sb) (2 ^ 18) H c" by (auto simp: mok_def)
  then show "bc_hnd (sb_dev sb) j y c'" using bch.rel_keeps a(2-5) by blast
qed

section \<open>A block of a bitmap\<close>

definition bset :: "bytes \<Rightarrow> nat set" where
  "bset d = bits \<lparr>bmap = d, bsiz = 8192\<rparr>"

lemma bset_lt: "j \<in> bset d \<Longrightarrow> j < 8192"
  by (simp add: bset_def bits_def)

lemma as_bitmap_eq [simp]: "as_bitmap d = Inr \<lparr>bmap = d, bsiz = 8192\<rparr>"
  by (simp add: as_bitmap_def bitmap_init_def xmapnr_perblk_def)

lemma bset_ok: "length d = 1024 \<Longrightarrow> bitmap_ok \<lparr>bmap = d, bsiz = 8192\<rparr>"
  by (simp add: bitmap_ok_def)

lemma length_bitmap_set: "bitmap_set b i = Inr b' \<Longrightarrow> length (bmap b') = length (bmap b)"
  by (auto simp: bitmap_set_def bind_result_eq_Inr)

lemma length_bitmap_reset: "bitmap_reset b i = Inr b' \<Longrightarrow> length (bmap b') = length (bmap b)"
  by (auto simp: bitmap_reset_def bind_result_eq_Inr)

lemma bset_find:
  assumes l: "length d = 1024"
  shows "(bitmap_find \<lparr>bmap = d, bsiz = 8192\<rparr> = Inr (- 1, \<lparr>bmap = d, bsiz = 8192\<rparr>) \<and> bset d = {..<8192}) \<or>
    (\<exists>i m1 m2. bitmap_find \<lparr>bmap = d, bsiz = 8192\<rparr> = Inr (of_nat i, m1) \<and> bitmap_set m1 (of_nat i) = Inr m2 \<and> i < 8192 \<and> i \<notin> bset d \<and>
      length (bmap m2) = 1024 \<and> bset (bmap m2) = insert i (bset d))"
proof -
  let ?b = "\<lparr>bmap = d, bsiz = 8192\<rparr>"
  have lim: "bitmap_limit ?b = 8192" by (simp add: bitmap_limit_def)
  from bitmap_find_spec [OF bset_ok [OF l]] show ?thesis
  proof
    assume "bitmap_find ?b = Inr (- 1, ?b) \<and> {..<bitmap_limit ?b} \<subseteq> bits ?b"
    then show ?thesis unfolding lim using bset_lt [of _ d] by (auto simp: bset_def)
  next
    assume "\<exists>i b'. bitmap_find ?b = Inr (of_nat i, b') \<and> i < bitmap_limit ?b \<and> \<not> bit_at ?b i \<and> (\<forall>j<i. bit_at ?b j) \<and>
       bsiz b' = bsiz ?b \<and> length (bmap b') = length (bmap ?b) \<and> (\<forall>j. j div 8 < length (bmap ?b) \<longrightarrow> bit_at b' j = (j = i \<or> bit_at ?b j))"
    then obtain i b' where b: "bitmap_find ?b = Inr (of_nat i, b')" "i < 8192" "\<not> bit_at ?b i" "bsiz b' = 8192" "length (bmap b') = 1024"
      "\<forall>j. j div 8 < 1024 \<longrightarrow> bit_at b' j = (j = i \<or> bit_at ?b j)" unfolding lim using l by auto
    have "bits b' = insert i (bset d)" using b(2,4,6) by (auto simp: bits_def bset_def)
    moreover have "bitmap_ok b'" using b(4,5) by (simp add: bitmap_ok_def)
    moreover have "(of_nat i :: u64) < bsiz b'" "unat (of_nat i :: u64) = i" using b(2,4) by (simp_all add: word_less_nat_alt unat_of_nat_small)
    ultimately obtain m2 where m2: "bitmap_set b' (of_nat i) = Inr m2" "bsiz m2 = 8192" "bits m2 = insert i (bset d)"
      using bitmap_set_spec [of b' "of_nat i"] b(4) by auto
    have "m2 = \<lparr>bmap = bmap m2, bsiz = 8192\<rparr>" using m2(2) by (cases m2) simp
    then have "bset (bmap m2) = insert i (bset d)" using m2(3) by (simp add: bset_def)
    moreover have "i \<notin> bset d" using b(2,3) by (simp add: bset_def bits_def)
    ultimately show ?thesis using b(1,2,5) m2(1) length_bitmap_set [OF m2(1)] by auto
  qed
qed

lemma bset_reset:
  assumes "length d = 1024" "i < 8192"
  shows "\<exists>m. bitmap_reset \<lparr>bmap = d, bsiz = 8192\<rparr> (of_nat i) = Inr m \<and> length (bmap m) = 1024 \<and> bset (bmap m) = bset d - {i}"
proof -
  have "unat (of_nat i :: u64) = i" "(of_nat i :: u64) < 8192" using assms(2) by (simp_all add: word_less_nat_alt unat_of_nat_small)
  then obtain m where m: "bitmap_reset \<lparr>bmap = d, bsiz = 8192\<rparr> (of_nat i) = Inr m" "bsiz m = 8192" "bits m = bset d - {i}"
    using bitmap_reset_spec [OF bset_ok [OF assms(1)], of "of_nat i"] by (auto simp: bset_def)
  have "m = \<lparr>bmap = bmap m, bsiz = 8192\<rparr>" using m(2) by (cases m) simp
  then have "bset (bmap m) = bset d - {i}" using m(3) by (simp add: bset_def)
  then show ?thesis using m(1) length_bitmap_reset [OF m(1)] assms(1) by auto
qed

section \<open>Allocation\<close>

text \<open>The bits of the map at \<open>base\<close>, which has \<open>8192\<close> of them in a block.\<close>

definition mbits :: "superblk \<Rightarrow> bcache \<Rightarrow> u32 \<Rightarrow> nat set" where
  "mbits sb c base = {j. j mod 8192 \<in> bset (blk sb c (base + of_nat (j div 8192)))}"

declare map_scan.simps [simp del]

lemma base_reach:
  fixes base :: u32
  assumes "unat base + n \<le> 2 ^ 18" "k < n"
  shows "unat (base + of_nat k) = unat base + k" "unat (base + of_nat k) < 2 ^ 18"
proof -
  have "unat (of_nat k :: u32) = k" using assms by (intro unat_of_nat_small) simp
  then show *: "unat (base + of_nat k) = unat base + k" using assms by (subst unat_add_nowrap) simp_all
  show "unat (base + of_nat k) < 2 ^ 18" unfolding * using assms by simp
qed

text \<open>One block of the search.\<close>

lemma map_scan_full:
  assumes m: "mok sb H c" "few H" and i: "i < tot" "i = 8192 * k" "unat (base + of_nat k) < 2 ^ 18" and f: "bset (blk sb c (base + of_nat k)) = {..<8192}"
  shows "\<exists>c'. mok sb H c' \<and> blk sb c' = blk sb c \<and> map_scan sb base tot i c = map_scan sb base tot (i + 8192) c'"
proof -
  let ?x = "base + of_nat k"
  obtain b c1 c2 where 1: "sb_bread sb ?x c = Inr (b, c1)" "bget b c1 = Inr (blk sb c ?x)" "brelse b c1 = Inr c2" "mok sb H c2" "blk sb c2 = blk sb c"
    using mb.peek [OF m i(3)] by blast
  have l: "length (blk sb c ?x) = 1024" using mb.blk_len [OF m(1) i(3)] .
  have "bitmap_find \<lparr>bmap = blk sb c ?x, bsiz = 8192\<rparr> = Inr (- 1, \<lparr>bmap = blk sb c ?x, bsiz = 8192\<rparr>)"
    using bset_find [OF l] f by auto
  then have "map_scan sb base tot (8192 * k) c = map_scan sb base tot (8192 * k + 8192) c2"
    using 1(1-3) i(1,2) by (simp add: map_scan.simps [of sb base tot "8192 * k"] xmapnr_perblk_def)
  then show ?thesis using 1(4,5) i(2) by blast
qed

lemma map_scan_hit:
  assumes m: "mok sb H c" "few H" and i: "i < tot" "i = 8192 * k" "unat (base + of_nat k) < 2 ^ 18" and f: "bset (blk sb c (base + of_nat k)) \<noteq> {..<8192}"
  shows "\<exists>j d c'. map_scan sb base tot i c = Inr (Some (i + j), c') \<and> j < 8192 \<and> j \<notin> bset (blk sb c (base + of_nat k)) \<and> mok sb H c' \<and>
    length d = 1024 \<and> bset d = insert j (bset (blk sb c (base + of_nat k))) \<and> blk sb c' = (blk sb c)(base + of_nat k := d)"
proof -
  let ?x = "base + of_nat k"
  have l: "length (blk sb c ?x) = 1024" using mb.blk_len [OF m(1) i(3)] .
  obtain j m1 m2 where j: "bitmap_find \<lparr>bmap = blk sb c ?x, bsiz = 8192\<rparr> = Inr (of_nat j, m1)" "bitmap_set m1 (of_nat j) = Inr m2" "j < 8192"
    "j \<notin> bset (blk sb c ?x)" "length (bmap m2) = 1024" "bset (bmap m2) = insert j (bset (blk sb c ?x))" using bset_find [OF l] f by blast
  obtain b c1 c2 c3 where 1: "sb_bread sb ?x c = Inr (b, c1)" "bget b c1 = Inr (blk sb c ?x)" "bstore b (bmap m2) c1 = Inr c2" "brelse b c2 = Inr c3"
    "mok sb H c3" "blk sb c3 = (blk sb c)(?x := bmap m2)" using mb.edit [OF m i(3) j(5)] by blast
  have u: "unat (of_nat j :: u64) = j" using j(3) by (intro unat_of_nat_small) simp
  have ne: "(of_nat j :: u64) \<noteq> - 1"
  proof
    assume "(of_nat j :: u64) = - 1"
    then have "j = unat (- 1 :: u64)" using u by simp
    then show False using j(3) unat_neg_word [of "1 :: u64"] by simp
  qed
  have "map_scan sb base tot (8192 * k) c = Inr (Some (8192 * k + j), c3)"
    using 1(1-4) j(1,2) i(1,2) ne u by (simp add: map_scan.simps [of sb base tot "8192 * k"] xmapnr_perblk_def)
  then show ?thesis using j 1(5,6) unfolding i(2) by blast
qed

lemma map_scan_ok:
  assumes "mok sb H c" "few H" "i = 8192 * k" "unat base + (tot + 8191) div 8192 \<le> 2 ^ 18"
  shows "\<exists>r c'. map_scan sb base tot i c = Inr (r, c') \<and> mok sb H c' \<and> (case r of
      None \<Rightarrow> blk sb c' = blk sb c \<and> (\<forall>j. i \<le> j \<and> j < 8192 * ((tot + 8191) div 8192) \<longrightarrow> j \<in> mbits sb c base)
    | Some j \<Rightarrow> j \<notin> mbits sb c base \<and> j < 8192 * ((tot + 8191) div 8192) \<and> (\<exists>d. length d = 1024 \<and>
        bset d = insert (j mod 8192) (bset (blk sb c (base + of_nat (j div 8192)))) \<and> blk sb c' = (blk sb c)(base + of_nat (j div 8192) := d)))"
  using assms
proof (induction "tot - i" arbitrary: i k c rule: less_induct)
  case less
  let ?n = "(tot + 8191) div 8192"
  show ?case
  proof (cases "i < tot")
    case False
    then have "8192 * ?n \<le> i"
    proof -
      have "tot \<le> 8192 * k" using False less.prems(3) by simp
      then have "?n \<le> (8192 * k + 8191) div 8192" by (intro div_le_mono) simp
      then show ?thesis using less.prems(3) by simp
    qed
    then show ?thesis using less.prems(1) False by (intro exI [of _ None] exI [of _ c]) (auto simp: map_scan.simps [of sb base tot i])
  next
    case True
    have "8192 * Suc k div 8192 \<le> ?n" using True less.prems(3) by (intro div_le_mono) simp
    then have k: "k < ?n" by simp
    note r = base_reach(2) [OF less.prems(4) k]
    show ?thesis
    proof (cases "bset (blk sb c (base + of_nat k)) = {..<8192}")
      case F: True
      obtain c' where c': "mok sb H c'" "blk sb c' = blk sb c" "map_scan sb base tot i c = map_scan sb base tot (i + 8192) c'"
        using map_scan_full [OF less.prems(1,2) True less.prems(3) r F] by blast
      have mb: "mbits sb c' base = mbits sb c base" using c'(2) by (simp add: mbits_def)
      have "j \<in> mbits sb c base" if "i \<le> j" "j < i + 8192" for j
      proof -
        have "j div 8192 = k" using that less.prems(3) by (intro div_nat_eqI) simp_all
        then show ?thesis using F by (simp add: mbits_def)
      qed
      then show ?thesis
        using less.hyps [of "i + 8192" c' "Suc k"] True c' less.prems(2-4) mb unfolding c'(3)
        by (fastforce split: option.splits)
    next
      case F: False
      obtain j d c' where j: "map_scan sb base tot i c = Inr (Some (i + j), c')" "j < 8192" "j \<notin> bset (blk sb c (base + of_nat k))" "mok sb H c'"
        "length d = 1024" "bset d = insert j (bset (blk sb c (base + of_nat k)))" "blk sb c' = (blk sb c)(base + of_nat k := d)"
        using map_scan_hit [OF less.prems(1,2) True less.prems(3) r F] by blast
      have e: "(i + j) div 8192 = k" "(i + j) mod 8192 = j" using j(2) less.prems(3) by simp_all
      have "i + j < 8192 * Suc k" using j(2) less.prems(3) by simp
      also have "\<dots> \<le> 8192 * ?n" using k by (intro mult_le_mono2) simp
      finally show ?thesis using j e by (intro exI [of _ "Some (i + j)"] exI [of _ c']) (auto simp: mbits_def)
    qed
  qed
qed

section \<open>Zones\<close>

definition nmap :: "nat \<Rightarrow> nat" where
  "nmap tot = (tot + 8191) div 8192"

text \<open>
  A disk whose parts do not overlap: the maps fit into the blocks the super block gives them, the inodes follow, and the
  first data zone comes after them. All zones that the map can name have numbers of 16 bits.
\<close>

definition layout :: "superblk \<Rightarrow> bool" where
  "layout sb \<longleftrightarrow> nmap (unat (s_inodes (sb_sbi sb))) \<le> unat (s_imap_blocks (sb_sbi sb)) \<and> nmap (unat (s_zones (sb_sbi sb))) \<le> unat (s_zmap_blocks (sb_sbi sb)) \<and>
     2 + unat (s_imap_blocks (sb_sbi sb)) + unat (s_zmap_blocks (sb_sbi sb)) + (unat (s_inodes (sb_sbi sb)) + 31) div 32 \<le> unat (s_firstdatazone (sb_sbi sb)) \<and>
     unat (s_firstdatazone (sb_sbi sb)) + 8192 * nmap (unat (s_zones (sb_sbi sb))) \<le> 65536"

abbreviation fdz :: "superblk \<Rightarrow> u16" where
  "fdz sb \<equiv> s_firstdatazone (sb_sbi sb)"

text \<open>The numbers that are taken in the map of \<open>tot\<close> numbers at \<open>base\<close>, and the blocks of the map.\<close>

definition tbits :: "superblk \<Rightarrow> bcache \<Rightarrow> u32 \<Rightarrow> nat \<Rightarrow> nat set" where
  "tbits sb c base tot = mbits sb c base \<inter> {..<8192 * nmap tot}"

definition in_map :: "u32 \<Rightarrow> nat \<Rightarrow> u32 \<Rightarrow> bool" where
  "in_map base tot x \<longleftrightarrow> unat base \<le> unat x \<and> unat x < unat base + nmap tot"

text \<open>Zones are counted from the first data zone, inodes from zero.\<close>

definition zcap :: "superblk \<Rightarrow> nat" where
  "zcap sb = 8192 * nmap (unat (s_zones (sb_sbi sb)))"

definition zbits :: "superblk \<Rightarrow> bcache \<Rightarrow> nat set" where
  "zbits sb c = tbits sb c (minix_zmap (sb_sbi sb)) (unat (s_zones (sb_sbi sb)))"

abbreviation in_zmap :: "superblk \<Rightarrow> u32 \<Rightarrow> bool" where
  "in_zmap sb x \<equiv> in_map (minix_zmap (sb_sbi sb)) (unat (s_zones (sb_sbi sb))) x"

definition ibits :: "superblk \<Rightarrow> bcache \<Rightarrow> nat set" where
  "ibits sb c = tbits sb c (minix_imap (sb_sbi sb)) (unat (s_inodes (sb_sbi sb)))"

lemma unat_ucast16: "unat (ucast (w :: u16) :: u32) = unat w"
  using unat_lt [of w] by (simp add: unsigned_ucast_eq take_bit_nat_eq_self)

lemma unat_zmap: "unat (minix_zmap m) = 2 + unat (s_imap_blocks m)"
proof -
  have "unat (s_imap_blocks m) < 65536" using unat_lt [of "s_imap_blocks m"] by simp
  then show ?thesis unfolding minix_zmap_def by (subst unat_add_nowrap) (simp_all add: unat_ucast16)
qed

lemma unat_inode_blk: "unat (minix_inode_blk m) = 2 + unat (s_imap_blocks m) + unat (s_zmap_blocks m)"
proof -
  have "unat (s_imap_blocks m) < 65536" "unat (s_zmap_blocks m) < 65536" using unat_lt [of "s_imap_blocks m"] unat_lt [of "s_zmap_blocks m"] by simp_all
  then have "unat (minix_zmap m + ucast (s_zmap_blocks m)) = unat (minix_zmap m) + unat (s_zmap_blocks m)"
    by (subst unat_add_nowrap) (simp_all add: unat_ucast16 unat_zmap)
  then show ?thesis by (simp add: minix_inode_blk_def minix_zmap_def unat_zmap [unfolded minix_zmap_def])
qed

lemma zmap_reach: "layout sb \<Longrightarrow> unat (minix_zmap (sb_sbi sb)) + nmap (unat (s_zones (sb_sbi sb))) \<le> 2 ^ 18"
  by (simp add: layout_def unat_zmap)

text \<open>A block of a map with one bit changed.\<close>

lemma tbits_update:
  assumes l: "unat base + nmap tot \<le> 2 ^ 18" and j: "j < 8192 * nmap tot"
  defines "x \<equiv> base + of_nat (j div 8192)"
  assumes b: "blk sb c' = (blk sb c)(x := d)" and d: "bset d = insert (j mod 8192) (bset (blk sb c x)) \<or> bset d = bset (blk sb c x) - {j mod 8192}"
  shows "tbits sb c' base tot = (if j mod 8192 \<in> bset d then insert j (tbits sb c base tot) else tbits sb c base tot - {j})" "in_map base tot x"
proof -
  let ?N = "8192 * nmap tot"
  have k: "j' div 8192 < nmap tot" if "j' < ?N" for j' using that by (simp add: div_less_iff_less_mult mult.commute)
  have u: "unat (base + of_nat (j' div 8192)) = unat base + j' div 8192" if "j' < ?N" for j'
    using base_reach(1) [OF l k [OF that]] .
  show "in_map base tot x" using u [OF j] k [OF j] by (simp add: in_map_def x_def)
  have eq: "base + of_nat (j' div 8192) = x \<longleftrightarrow> j' div 8192 = j div 8192" if "j' < ?N" for j'
    using u [OF that] u [OF j] unfolding x_def by (metis add_left_cancel)
  have "j' \<in> tbits sb c' base tot \<longleftrightarrow> (if j mod 8192 \<in> bset d then j' = j \<or> j' \<in> tbits sb c base tot else j' \<noteq> j \<and> j' \<in> tbits sb c base tot)" if c: "j' < ?N" for j'
  proof (cases "j' div 8192 = j div 8192")
    case True
    have "j' = j \<longleftrightarrow> j' mod 8192 = j mod 8192" using True div_mod_unique [of j' j 8192] by simp
    then show ?thesis using True b d c by (auto simp: tbits_def mbits_def x_def)
  next
    case False
    then have "j' \<noteq> j" by auto
    then show ?thesis using False b eq [OF c] c by (auto simp: tbits_def mbits_def)
  qed
  moreover have "tbits sb c base tot \<subseteq> {..<?N}" "tbits sb c' base tot \<subseteq> {..<?N}" by (auto simp: tbits_def)
  ultimately show "tbits sb c' base tot = (if j mod 8192 \<in> bset d then insert j (tbits sb c base tot) else tbits sb c base tot - {j})"
    using j by (auto split: if_splits)
qed

text \<open>The search and the clearing of a bit, on the set of numbers.\<close>

lemma map_take_ok:
  assumes l: "unat base + nmap tot \<le> 2 ^ 18" and m: "mok sb H c" "few H"
  shows "\<exists>r c'. map_scan sb base tot 0 c = Inr (r, c') \<and> mok sb H c' \<and> (\<forall>x. \<not> in_map base tot x \<longrightarrow> blk sb c' x = blk sb c x) \<and>
    (case r of None \<Rightarrow> tbits sb c base tot = {..<8192 * nmap tot} \<and> blk sb c' = blk sb c
     | Some j \<Rightarrow> j < 8192 * nmap tot \<and> j \<notin> tbits sb c base tot \<and> tbits sb c' base tot = insert j (tbits sb c base tot))"
proof -
  obtain r c' where r: "map_scan sb base tot 0 c = Inr (r, c')" "mok sb H c'"
    "case r of None \<Rightarrow> blk sb c' = blk sb c \<and> (\<forall>j. 0 \<le> j \<and> j < 8192 * nmap tot \<longrightarrow> j \<in> mbits sb c base)
     | Some j \<Rightarrow> j \<notin> mbits sb c base \<and> j < 8192 * nmap tot \<and> (\<exists>d. length d = 1024 \<and>
        bset d = insert (j mod 8192) (bset (blk sb c (base + of_nat (j div 8192)))) \<and> blk sb c' = (blk sb c)(base + of_nat (j div 8192) := d))"
    using map_scan_ok [OF m, of 0 0 base tot] l unfolding nmap_def by auto
  show ?thesis
  proof (cases r)
    case None
    then have "tbits sb c base tot = {..<8192 * nmap tot}" using r(3) by (auto simp: tbits_def)
    then show ?thesis using None r by simp
  next
    case (Some j)
    then obtain d where j: "j \<notin> mbits sb c base" "j < 8192 * nmap tot" "bset d = insert (j mod 8192) (bset (blk sb c (base + of_nat (j div 8192))))"
      "blk sb c' = (blk sb c)(base + of_nat (j div 8192) := d)" using r(3) by auto
    have z: "tbits sb c' base tot = insert j (tbits sb c base tot)" "in_map base tot (base + of_nat (j div 8192))"
      using tbits_update [OF l j(2,4)] j(3) by auto
    have "j \<notin> tbits sb c base tot" using j(1) by (simp add: tbits_def)
    moreover have "blk sb c' x = blk sb c x" if "\<not> in_map base tot x" for x using that z(2) j(4) by auto
    ultimately show ?thesis using Some r(1,2) z(1) j(2) by auto
  qed
qed

lemma map_clear_ok:
  assumes l: "unat base + nmap tot \<le> 2 ^ 18" and m: "mok sb H c" "few H" and j: "unat n < 8192 * nmap tot"
  shows "\<exists>c'. map_clear sb base n c = Inr c' \<and> mok sb H c' \<and> tbits sb c' base tot = tbits sb c base tot - {unat n} \<and>
    (\<forall>x. \<not> in_map base tot x \<longrightarrow> blk sb c' x = blk sb c x)"
proof -
  let ?x = "base + of_nat (unat n div 8192)"
  have k: "unat n div 8192 < nmap tot" using j by (simp add: div_less_iff_less_mult mult.commute)
  have r: "unat ?x < 2 ^ 18" using base_reach(2) [OF l k] .
  have len: "length (blk sb c ?x) = 1024" using mb.blk_len [OF m(1) r] .
  obtain b where b: "bitmap_reset \<lparr>bmap = blk sb c ?x, bsiz = 8192\<rparr> (of_nat (unat n mod 8192)) = Inr b" "length (bmap b) = 1024"
    "bset (bmap b) = bset (blk sb c ?x) - {unat n mod 8192}"
    using bset_reset [OF len, of "unat n mod 8192"] by auto
  obtain i c1 c2 c3 where 1: "sb_bread sb ?x c = Inr (i, c1)" "bget i c1 = Inr (blk sb c ?x)" "bstore i (bmap b) c1 = Inr c2" "brelse i c2 = Inr c3"
    "mok sb H c3" "blk sb c3 = (blk sb c)(?x := bmap b)" using mb.edit [OF m r b(2)] by blast
  have "map_clear sb base n c = Inr c3"
    using 1(1-4) b(1) by (simp add: map_clear_def xmapnr_perblk_def add.commute)
  moreover have "tbits sb c3 base tot = tbits sb c base tot - {unat n}" "in_map base tot ?x" using tbits_update [OF l j 1(6)] b(3) by auto
  moreover from this(2) have "blk sb c3 x = blk sb c x" if "\<not> in_map base tot x" for x using that 1(6) by auto
  ultimately show ?thesis using 1(5) by blast
qed

lemma zalloc_ok:
  assumes l: "layout sb" and m: "mok sb H c" "few H"
  shows "\<exists>z c'. minix_zalloc sb c = Inr (z, c') \<and> mok sb H c' \<and> (\<forall>x. \<not> in_zmap sb x \<longrightarrow> blk sb c' x = blk sb c x) \<and>
    (zbits sb c = {..<zcap sb} \<longrightarrow> z = 0 \<and> blk sb c' = blk sb c) \<and>
    (zbits sb c \<noteq> {..<zcap sb} \<longrightarrow> (\<exists>j<zcap sb. unat z = unat (fdz sb) + j \<and> j \<notin> zbits sb c \<and> zbits sb c' = insert j (zbits sb c)))"
proof -
  obtain r c' where r: "map_scan sb (minix_zmap (sb_sbi sb)) (unat (s_zones (sb_sbi sb))) 0 c = Inr (r, c')" "mok sb H c'" "\<forall>x. \<not> in_zmap sb x \<longrightarrow> blk sb c' x = blk sb c x"
    "case r of None \<Rightarrow> zbits sb c = {..<zcap sb} \<and> blk sb c' = blk sb c
     | Some j \<Rightarrow> j < zcap sb \<and> j \<notin> zbits sb c \<and> zbits sb c' = insert j (zbits sb c)"
    using map_take_ok [OF zmap_reach [OF l] m] unfolding zbits_def zcap_def by blast
  show ?thesis
  proof (cases r)
    case None
    then show ?thesis using r by (simp add: minix_zalloc_def)
  next
    case (Some j)
    then have j: "j < zcap sb" "j \<notin> zbits sb c" "zbits sb c' = insert j (zbits sb c)" using r(4) by auto
    have "unat (of_nat j :: u16) = j" "unat (fdz sb) + j < 65536" using l j(1) by (auto intro!: unat_of_nat_small simp: layout_def zcap_def)
    then have "unat (fdz sb + of_nat j) = unat (fdz sb) + j" by (subst unat_add_nowrap) simp_all
    then show ?thesis using Some r(1-3) j by (auto simp: minix_zalloc_def)
  qed
qed

lemma zfree_ok:
  assumes l: "layout sb" and m: "mok sb H c" "few H" and j: "j < zcap sb" "unat z = unat (fdz sb) + j"
  shows "\<exists>c'. minix_zfree sb z c = Inr c' \<and> mok sb H c' \<and> zbits sb c' = zbits sb c - {j} \<and> (\<forall>x. \<not> in_zmap sb x \<longrightarrow> blk sb c' x = blk sb c x)"
proof -
  have u: "unat (z - fdz sb) = j" using j(2) by (simp add: unat_sub_if_size word_le_nat_alt)
  show ?thesis
    using map_clear_ok [OF zmap_reach [OF l] m, of "z - fdz sb"] j(1) unfolding u minix_zfree_def zbits_def zcap_def by simp
qed

text \<open>
  Allocating a zone when there is a free one gives a zone that no bit of the map claimed, marks it, and leaves every
  block behind the map as it is; giving it back makes the map what it was.\<close>

theorem zone_alloc_free:
  assumes "layout sb" "mok sb H c" "few H" "zbits sb c \<noteq> {..<zcap sb}"
  shows "\<exists>z c1 c2. minix_zalloc sb c = Inr (z, c1) \<and> z \<ge> fdz sb \<and> unat (z - fdz sb) \<notin> zbits sb c \<and> zbits sb c1 = insert (unat (z - fdz sb)) (zbits sb c) \<and>
    minix_zfree sb z c1 = Inr c2 \<and> zbits sb c2 = zbits sb c \<and> (\<forall>x. unat (fdz sb) \<le> unat x \<longrightarrow> blk sb c2 x = blk sb c x)"
proof -
  obtain z c1 j where z: "minix_zalloc sb c = Inr (z, c1)" "mok sb H c1" "j < zcap sb" "unat z = unat (fdz sb) + j" "j \<notin> zbits sb c" "zbits sb c1 = insert j (zbits sb c)"
    "\<forall>x. \<not> in_zmap sb x \<longrightarrow> blk sb c1 x = blk sb c x" using zalloc_ok [OF assms(1-3)] assms(4) by blast
  obtain c2 where c2: "minix_zfree sb z c1 = Inr c2" "zbits sb c2 = zbits sb c1 - {j}" "\<forall>x. \<not> in_zmap sb x \<longrightarrow> blk sb c2 x = blk sb c1 x"
    using zfree_ok [OF assms(1) z(2) assms(3) z(3,4)] by blast
  have u: "unat (z - fdz sb) = j" "z \<ge> fdz sb" using z(4) by (simp_all add: unat_sub_if_size word_le_nat_alt)
  have "\<not> in_zmap sb x" if "unat (fdz sb) \<le> unat x" for x using that assms(1) by (auto simp: in_map_def layout_def unat_zmap)
  then show ?thesis using z c2 u by auto
qed

text \<open>
  minix_ialloc counts inodes from one, minix_ifree from zero: giving back the inode that was just allocated leaves it
  marked as taken and instead frees the one after it, whoever owns that.\<close>

theorem inode_free_misses:
  assumes "layout sb" "mok sb H c" "few H" "ibits sb c \<noteq> {..<8192 * nmap (unat (s_inodes (sb_sbi sb)))}" "8192 * nmap (unat (s_inodes (sb_sbi sb))) < 65536"
    "8192 * nmap (unat (s_inodes (sb_sbi sb))) - 1 \<in> ibits sb c"
  shows "\<exists>ino c1 c2. minix_ialloc sb c = Inr (ino, c1) \<and> ino \<noteq> 0 \<and> unat ino - 1 \<notin> ibits sb c \<and> minix_ifree sb ino c1 = Inr c2 \<and>
    ibits sb c2 = insert (unat ino - 1) (ibits sb c) - {unat ino} \<and> unat ino - 1 \<in> ibits sb c2"
proof -
  let ?base = "minix_imap (sb_sbi sb)"
  let ?tot = "unat (s_inodes (sb_sbi sb))"
  have r: "unat ?base + nmap ?tot \<le> 2 ^ 18" using assms(1) by (simp add: layout_def minix_imap_def)
  obtain j c1 where j: "map_scan sb ?base ?tot 0 c = Inr (Some j, c1)" "mok sb H c1" "j < 8192 * nmap ?tot" "j \<notin> ibits sb c" "ibits sb c1 = insert j (ibits sb c)"
    using map_take_ok [OF r assms(2,3)] assms(4) unfolding ibits_def by (auto split: option.splits)
  have "j \<noteq> 8192 * nmap ?tot - 1" using assms(6) j(4) by metis
  then have s: "Suc j < 8192 * nmap ?tot" using j(3) by linarith
  then have s2: "Suc j < 65536" using assms(5) by (rule less_trans)
  define ino :: u16 where "ino = of_nat (j + 1)"
  have u: "unat ino = Suc j" unfolding ino_def using s2 unat_of_nat_small [of "Suc j", where 'a = 16] by simp
  have a: "minix_ialloc sb c = Inr (ino, c1)" using j(1) by (simp add: minix_ialloc_def ino_def)
  obtain c2 where f: "minix_ifree sb ino c1 = Inr c2" "ibits sb c2 = ibits sb c1 - {Suc j}"
    using map_clear_ok [OF r j(2) assms(3), of ino] s unfolding u minix_ifree_def ibits_def by blast
  have "ino \<noteq> 0" using u by (metis unat_0 nat.distinct(1))
  moreover have "ibits sb c2 = insert (unat ino - 1) (ibits sb c) - {unat ino}" "unat ino - 1 \<in> ibits sb c2" "unat ino - 1 \<notin> ibits sb c"
    unfolding u f(2) j(5) using j(4) by simp_all
  ultimately show ?thesis using a f(1) by blast
qed

section \<open>The inode table\<close>

definition in_itab :: "superblk \<Rightarrow> u32 \<Rightarrow> bool" where
  "in_itab sb x \<longleftrightarrow> unat (minix_inode_blk (sb_sbi sb)) \<le> unat x \<and> unat x < unat (fdz sb)"

text \<open>The block and the place of an inode in it.\<close>

definition iblk :: "superblk \<Rightarrow> u16 \<Rightarrow> u32" where
  "iblk sb ino = of_nat ((unat ino - 1) div 32) + minix_inode_blk (sb_sbi sb)"

definition ino_ok :: "superblk \<Rightarrow> u16 \<Rightarrow> bool" where
  "ino_ok sb ino \<longleftrightarrow> 0 < unat ino \<and> ino \<le> s_inodes (sb_sbi sb)"

lemma ino_minus_1: "ino_ok sb ino \<Longrightarrow> unat (ino - 1) = unat ino - 1"
  using unat_sub_if_size [of ino 1] by (simp add: ino_ok_def)

lemma ino_range: "ino_ok sb ino \<Longrightarrow> \<not> s_inodes (sb_sbi sb) < ino \<and> ino \<noteq> 0"
  by (auto simp: ino_ok_def not_less)

lemma iblk_place:
  assumes "layout sb" "ino_ok sb ino"
  shows "unat (iblk sb ino) = unat (minix_inode_blk (sb_sbi sb)) + (unat ino - 1) div 32" "in_itab sb (iblk sb ino)" "unat (iblk sb ino) < 2 ^ 18"
proof -
  have "unat ino \<le> unat (s_inodes (sb_sbi sb))" "0 < unat ino" using assms(2) by (simp_all add: ino_ok_def word_le_nat_alt)
  then have k: "(unat ino - 1) div 32 < (unat (s_inodes (sb_sbi sb)) + 31) div 32"
    using div_le_mono [of "unat ino - 1 + 32" "unat (s_inodes (sb_sbi sb)) + 31" 32] by simp
  then have b: "unat (minix_inode_blk (sb_sbi sb)) + (unat ino - 1) div 32 < unat (fdz sb)"
    using assms(1) by (simp add: layout_def unat_inode_blk)
  have f: "unat (fdz sb) < 65536" using unat_lt [of "fdz sb"] by simp
  have "unat (of_nat ((unat ino - 1) div 32) :: u32) = (unat ino - 1) div 32" using b f by (intro unat_of_nat_small) simp
  then show u: "unat (iblk sb ino) = unat (minix_inode_blk (sb_sbi sb)) + (unat ino - 1) div 32"
    unfolding iblk_def using b f by (subst unat_add_nowrap) simp_all
  show "in_itab sb (iblk sb ino)" using u b by (simp add: in_itab_def)
  show "unat (iblk sb ino) < 2 ^ 18" using u b f by simp
qed

lemma length_poke: "k + length x \<le> length d \<Longrightarrow> length (poke k x d) = length d"
  by (simp add: poke_def)

lemma isync_ok:
  assumes l: "layout sb" and m: "mok sb H c" "few H" and i: "ino_ok sb ino" "length (i_zone mi) = 9"
  shows "\<exists>c'. minix_isync sb mi ino c = Inr c' \<and> mok sb H c' \<and>
    blk sb c' = (blk sb c)(iblk sb ino := poke (32 * ((unat ino - 1) mod 32)) (inode_bytes mi) (blk sb c (iblk sb ino)))"
proof -
  let ?x = "iblk sb ino" and ?k = "32 * ((unat ino - 1) mod 32)"
  note r = iblk_place(3) [OF l i(1)]
  have len: "length (blk sb c ?x) = 1024" using mb.blk_len [OF m(1) r] .
  have "(unat ino - 1) mod 32 < 32" by simp
  then have "?k + 32 \<le> 1024" by linarith
  then have "length (poke ?k (inode_bytes mi) (blk sb c ?x)) = 1024" using len length_inode_bytes [OF i(2)] by (simp add: length_poke)
  from mb.edit [OF m r this] obtain b c1 c2 c3 where 1: "sb_bread sb ?x c = Inr (b, c1)" "bget b c1 = Inr (blk sb c ?x)"
    "bstore b (poke ?k (inode_bytes mi) (blk sb c ?x)) c1 = Inr c2" "brelse b c2 = Inr c3" "mok sb H c3"
    "blk sb c3 = (blk sb c)(?x := poke ?k (inode_bytes mi) (blk sb c ?x))" by blast
  have "minix_isync sb mi ino c = Inr c3"
    using 1(1-4) ino_minus_1 [OF i(1)] ino_range [OF i(1)] by (simp add: minix_isync_def nodenr_perblk_def iblk_def Let_def)
  then show ?thesis using 1(5,6) by blast
qed

lemma iget_ok:
  assumes l: "layout sb" and m: "mok sb H c" "few H" and i: "ino_ok sb ino"
  shows "\<exists>c'. minix_iget sb ino c = Inr (Some (inode_of (take 32 (drop (32 * ((unat ino - 1) mod 32)) (blk sb c (iblk sb ino))))), c') \<and> mok sb H c' \<and> blk sb c' = blk sb c"
proof -
  note r = iblk_place(3) [OF l i]
  from mb.peek [OF m r] obtain b c1 c2 where 1: "sb_bread sb (iblk sb ino) c = Inr (b, c1)" "bget b c1 = Inr (blk sb c (iblk sb ino))" "brelse b c1 = Inr c2" "mok sb H c2" "blk sb c2 = blk sb c"
    by blast
  then show ?thesis using ino_minus_1 [OF i] ino_range [OF i] by (simp add: minix_iget_def nodenr_perblk_def iblk_def Let_def)
qed

lemma poke_slice:
  assumes "k + length x \<le> length d" "j + n \<le> k \<or> k + length x \<le> j"
  shows "take n (drop j (poke k x d)) = take n (drop j d)"
  using assms(2)
proof
  assume a: "j + n \<le> k"
  then have "take n (drop j (poke k x d)) = take n (drop j (take k d))" using assms(1) by (simp add: poke_def)
  also have "\<dots> = take n (drop j d)" using a by (simp add: drop_take min_def)
  finally show ?thesis .
next
  assume a: "k + length x \<le> j"
  then have "drop j (poke k x d) = drop (j - (k + length x)) (drop (k + length x) d)" using assms(1) by (simp add: poke_def)
  then show ?thesis using a by simp
qed

text \<open>
  C24. An inode written to the inode table is read back unchanged, every other inode of the table reads as before, and no
  block outside the table changes.\<close>

theorem isync_iget_roundtrip:
  assumes "layout sb" "mok sb H c" "few H" "ino_ok sb ino" "length (i_zone mi) = 9" "ino_ok sb other" "other \<noteq> ino"
  shows "\<exists>c1 c2 c3 c4 m. minix_isync sb mi ino c = Inr c1 \<and> minix_iget sb ino c1 = Inr (Some mi, c2) \<and>
    minix_iget sb other c = Inr (m, c3) \<and> minix_iget sb other c1 = Inr (m, c4) \<and> (\<forall>x. \<not> in_itab sb x \<longrightarrow> blk sb c1 x = blk sb c x)"
proof -
  let ?p = "\<lambda>i. 32 * ((unat i - 1) mod 32)"
  obtain c1 where 1: "minix_isync sb mi ino c = Inr c1" "mok sb H c1"
    "blk sb c1 = (blk sb c)(iblk sb ino := poke (?p ino) (inode_bytes mi) (blk sb c (iblk sb ino)))" using isync_ok [OF assms(1-5)] by blast
  obtain c2 where 2: "minix_iget sb ino c1 = Inr (Some (inode_of (take 32 (drop (?p ino) (blk sb c1 (iblk sb ino))))), c2)" using iget_ok [OF assms(1) 1(2) assms(3,4)] by blast
  obtain c3 where 3: "minix_iget sb other c = Inr (Some (inode_of (take 32 (drop (?p other) (blk sb c (iblk sb other))))), c3)" using iget_ok [OF assms(1-3,6)] by blast
  obtain c4 where 4: "minix_iget sb other c1 = Inr (Some (inode_of (take 32 (drop (?p other) (blk sb c1 (iblk sb other))))), c4)" using iget_ok [OF assms(1) 1(2) assms(3,6)] by blast
  have len: "length (blk sb c (iblk sb ino)) = 1024" using mb.blk_len [OF assms(2) iblk_place(3) [OF assms(1,4)]] .
  have li: "length (inode_bytes mi) = 32" using length_inode_bytes [OF assms(5)] .
  have p: "?p ino + 32 \<le> 1024"
  proof -
    have "(unat ino - 1) mod 32 < 32" by simp
    then show ?thesis by linarith
  qed
  have "take 32 (drop (?p ino) (blk sb c1 (iblk sb ino))) = inode_bytes mi" using 1(3) len li p by (simp add: poke_def)
  then have "inode_of (take 32 (drop (?p ino) (blk sb c1 (iblk sb ino)))) = mi" using inode_roundtrip_eq [OF assms(5)] by simp
  moreover have "take 32 (drop (?p other) (blk sb c1 (iblk sb other))) = take 32 (drop (?p other) (blk sb c (iblk sb other)))"
  proof (cases "iblk sb other = iblk sb ino")
    case True
    then have "(unat other - 1) div 32 = (unat ino - 1) div 32" using iblk_place(1) [OF assms(1,4)] iblk_place(1) [OF assms(1,6)] by simp
    moreover have "unat other - 1 \<noteq> unat ino - 1" using assms(4,6,7) unfolding ino_ok_def by (metis One_nat_def Suc_pred word_unat_eq_iff)
    ultimately have "(unat other - 1) mod 32 \<noteq> (unat ino - 1) mod 32" using div_mod_unique [of "unat other - 1" "unat ino - 1" 32] by blast
    then have "?p other + 32 \<le> ?p ino \<or> ?p ino + length (inode_bytes mi) \<le> ?p other" using li by linarith
    then show ?thesis using 1(3) True poke_slice [of "?p ino" "inode_bytes mi" "blk sb c (iblk sb ino)" "?p other" 32] len li p by simp
  next
    case False
    then show ?thesis using 1(3) by simp
  qed
  moreover have "blk sb c1 x = blk sb c x" if "\<not> in_itab sb x" for x using that 1(3) iblk_place(2) [OF assms(1,4)] by auto
  ultimately show ?thesis using 1(1) 2 3 4 by auto
qed

section \<open>A small disk\<close>

text \<open>A disk with 32 inodes, of which the first two are taken, and room for 8191 zones behind block 5.\<close>

definition mblock :: "nat \<Rightarrow> bytes" where
  "mblock k = (if k = 2 then 3 # replicate 1022 0 @ [0x80] else if k = 3 then 1 # replicate 1023 0 else replicate 1024 0)"

definition mdisk0 :: disk where
  "mdisk0 = \<lparr>d_major = 3, d_minor = 2, d_ssz = 1024, d_sec = mblock\<rparr>"

definition sb0 :: superblk where
  "sb0 = \<lparr>sb_blksz = 1024, sb_dev = 0, sb_sbi = \<lparr>s_inodes = 32, s_zones = 100, s_imap_blocks = 1, s_zmap_blocks = 1, s_firstdatazone = 5,
     s_log_zone_size = 0, s_max_size = 7168, s_magic = MINIX_V1\<rparr>\<rparr>"

definition mc0 :: bcache where
  "mc0 = cache0\<lparr>c_devs := [0 \<mapsto> mdisk0]\<rparr>"

lemma length_mblock: "length (mblock k) = 1024"
  by (simp add: mblock_def)

lemma mc0_cache: "cache (\<lambda>_. 1024) mc0 Map.empty (\<lambda>_. 0)"
  by (rule empty_cache) (auto simp: mc0_def cache0_def buffer_init_def dev_good_def mdisk0_def length_mblock split: if_splits)

lemma mc0_ok: "mok sb0 (\<lambda>_. 0) mc0"
proof -
  have "bc_ok (\<lambda>_. 1024) 0 (2 ^ 18) (\<lambda>_. 0) mc0"
    using mc0_cache by (auto simp: bc_ok_def mc0_def cache0_def buffer_init_def in_reach_def per_block_def mdisk0_def)
  then show ?thesis by (auto simp: mok_def sb0_def intro!: exI [of _ "\<lambda>_. 1024"])
qed

lemma blk_mc0: "blk sb0 mc0 x = mblock (unat x)"
  using bview_disk [OF mc0_cache, where dev = 0 and idx = x and d = mdisk0 and b = 1024]
  by (simp add: blk_def sb0_def mc0_def disk_blk_def per_block_def mdisk0_def dev_bread_def upt_rec)

lemma layout_sb0: "layout sb0"
  by (simp add: layout_def sb0_def nmap_def)

lemma few_0: "few (\<lambda>_. 0)"
  by (simp add: few_def)

lemma sb0_maps: "minix_zmap (sb_sbi sb0) = 3" "minix_imap (sb_sbi sb0) = 2" "nmap (unat (s_zones (sb_sbi sb0))) = 1" "nmap (unat (s_inodes (sb_sbi sb0))) = 1"
  by (simp_all add: sb0_def minix_zmap_def minix_imap_def nmap_def)

lemma zbits_mc0: "zbits sb0 mc0 \<noteq> {..<zcap sb0}"
proof -
  have "1 \<in> {..<zcap sb0}" by (simp add: zcap_def sb0_maps)
  moreover have "1 \<notin> zbits sb0 mc0"
    by (simp add: zbits_def tbits_def mbits_def blk_mc0 sb0_maps bset_def bits_def bit_at_def mblock_def bit_1_iff)
  ultimately show ?thesis by blast
qed

theorem zone_alloc_free_witness:
  "\<exists>z c1 c2. minix_zalloc sb0 mc0 = Inr (z, c1) \<and> z \<ge> fdz sb0 \<and> unat (z - fdz sb0) \<notin> zbits sb0 mc0 \<and> zbits sb0 c1 = insert (unat (z - fdz sb0)) (zbits sb0 mc0) \<and>
    minix_zfree sb0 z c1 = Inr c2 \<and> zbits sb0 c2 = zbits sb0 mc0"
  using zone_alloc_free [OF layout_sb0 mc0_ok few_0 zbits_mc0] by blast

lemma ibits_mc0: "2 \<notin> ibits sb0 mc0" "8191 \<in> ibits sb0 mc0"
proof -
  have b: "\<not> bit (3 :: u8) 2" "bit (0x80 :: u8) 7" by (simp_all add: bit_numeral_rec)
  have m: "mblock 2 ! 0 = 3" "mblock 2 ! 1023 = 0x80" by (simp_all add: mblock_def nth_Cons' nth_append)
  have "k \<in> ibits sb0 mc0 \<longleftrightarrow> bit (mblock 2 ! (k div 8)) (k mod 8)" if "k < 8192" for k
    using that by (simp add: ibits_def tbits_def mbits_def blk_mc0 sb0_maps bset_def bits_def bit_at_def)
  from this [of 2] this [of 8191] show "2 \<notin> ibits sb0 mc0" "8191 \<in> ibits sb0 mc0" using b m by simp_all
qed

theorem inode_free_misses_witness:
  "\<exists>ino c1 c2. minix_ialloc sb0 mc0 = Inr (ino, c1) \<and> ino \<noteq> 0 \<and> unat ino - 1 \<notin> ibits sb0 mc0 \<and> minix_ifree sb0 ino c1 = Inr c2 \<and>
    ibits sb0 c2 = insert (unat ino - 1) (ibits sb0 mc0) - {unat ino} \<and> unat ino - 1 \<in> ibits sb0 c2"
proof -
  have n: "8192 * nmap (unat (s_inodes (sb_sbi sb0))) = 8192" by (simp add: sb0_maps)
  have "(2 :: nat) \<in> {..<8192}" by (simp only: lessThan_iff)
  then have "ibits sb0 mc0 \<noteq> {..<8192}" using ibits_mc0(1) by blast
  then show ?thesis using ibits_mc0(2) by (intro inode_free_misses [OF layout_sb0 mc0_ok few_0, unfolded n]) simp_all
qed

definition inode0 :: minix_inode where
  "inode0 = \<lparr>i_mode = 0x81a4, i_uid = 1, i_size = 700, i_mtime = 7, i_gid = 2, i_nlinks = 1, i_zone = [6,0,0,0,0,0,0,0,0]\<rparr>"

theorem isync_iget_roundtrip_witness:
  "\<exists>c1 c2 c3 c4 m. minix_isync sb0 inode0 3 mc0 = Inr c1 \<and> minix_iget sb0 3 c1 = Inr (Some inode0, c2) \<and>
    minix_iget sb0 4 mc0 = Inr (m, c3) \<and> minix_iget sb0 4 c1 = Inr (m, c4)"
  using isync_iget_roundtrip [OF layout_sb0 mc0_ok few_0, of 3 inode0 4] by (auto simp: ino_ok_def sb0_def inode0_def)

end
