(* ===== verification/Dirent.thy ===== *)
theory Dirent
  imports Minix_Disk
begin

unbundle bit_operations_syntax

text \<open>
  Listing a directory: the records that \<open>dir_emit\<close> of kernel/file.c puts one after the other into the buffer of a task, the
  system calls readdir and seekdir, and app/ls.c, which reads the records. The context of a listing belongs to the open file;
  \<open>cx_mem\<close> is the memory that the caller passed and \<open>cx_off\<close> the distance of \<open>buf\<close> from its start. The
  fields \<open>sb\<close>, \<open>bidx\<close>, \<open>eidx\<close>, \<open>perblk\<close> and \<open>bufents\<close>, which nothing reads, are left out.
\<close>

section \<open>Contexts and records\<close>

datatype ctx_stat = ctx_inv | ctx_pre | ctx_end

record dirctx =
  cx_node :: nid
  cx_stat :: ctx_stat
  cx_pos :: u64
  cx_mem :: bytes
  cx_off :: nat
  cx_bufmx :: u64
  cx_bufused :: u64

definition EOF :: int where "EOF = - 1"

definition S_ISLNK :: "u32 \<Rightarrow> bool" where "S_ISLNK m \<longleftrightarrow> m AND S_IFMT = 0xA000"

definition dir_get_type :: "u32 \<Rightarrow> u32" where
  "dir_get_type mode =
     (if S_ISREG mode then 8 else if S_ISDIR mode then 4 else if S_ISLNK mode then 10 else if S_ISCHR mode then 2
      else if S_ISBLK mode then 6 else if S_ISFIFO mode then 1 else if S_ISSOCK mode then 12 else 0)"

definition bytes64 :: "u64 \<Rightarrow> bytes" where
  "bytes64 w = bytes32 (ucast w) @ bytes32 (ucast (drop_bit 32 w))"

definition rd64 :: "bytes \<Rightarrow> nat \<Rightarrow> u64" where
  "rd64 b k = ucast (rd32 b k) OR push_bit 32 (ucast (rd32 b (k + 4)))"

text \<open>The fields of a \<open>dir_t\<close> before the name.\<close>

definition dir_head :: "u32 \<Rightarrow> u32 \<Rightarrow> u64 \<Rightarrow> u64 \<Rightarrow> u64 \<Rightarrow> bytes" where
  "dir_head idx type ino siz len = bytes32 idx @ bytes32 type @ bytes64 ino @ bytes64 siz @ bytes64 len"

definition dir_emit :: "bytes \<Rightarrow> u64 \<Rightarrow> u64 \<Rightarrow> u32 \<Rightarrow> dirctx \<Rightarrow> (bool \<times> dirctx) result" where
  "dir_emit name len ino type ctx =
     (let siz = 32 + len + 1
      in if cx_bufused ctx + siz > cx_bufmx ctx then Inr (False, ctx)
         else if length (cx_mem ctx) < cx_off ctx + 32 then Inl BadAccess
         else bind_result (strcpy (drop (cx_off ctx + 32) (cx_mem ctx)) name) (\<lambda>t.
              Inr (True, ctx\<lparr>cx_mem := take (cx_off ctx) (cx_mem ctx) @ dir_head (ucast (cx_pos ctx)) type ino siz len @ t,
                             cx_bufused := cx_bufused ctx + siz, cx_off := cx_off ctx + unat siz\<rparr>)))"

definition dir_emit_dot :: "'a vfs_scheme \<Rightarrow> dirctx \<Rightarrow> (bool \<times> dirctx) result" where
  "dir_emit_dot s ctx =
     bind_result (deref (Some (cx_node ctx)) s) (\<lambda>n. dir_emit (cbytes ''.'') 1 (n_ino n) (dir_get_type (n_mode n)) ctx)"

definition dir_emit_dotdot :: "'a vfs_scheme \<Rightarrow> dirctx \<Rightarrow> (bool \<times> dirctx) result" where
  "dir_emit_dotdot s ctx =
     bind_result (vfs_getprt (Some (cx_node ctx)) s) (\<lambda>p. bind_result (deref p s) (\<lambda>prt.
       dir_emit (cbytes ''..'') 2 (n_ino prt) (dir_get_type (n_mode prt)) ctx))"

text \<open>The start of a listing, the same in every file system.\<close>

definition init_ctx :: "nid \<Rightarrow> dirctx \<Rightarrow> dirctx" where
  "init_ctx dir ctx = ctx\<lparr>cx_node := dir, cx_pos := 0, cx_stat := ctx_pre\<rparr>"

section \<open>System calls\<close>

text \<open>
  The descriptors of a task with the contexts of its open files: \<open>dirctx\<close> of a file is set when it is opened with
  \<open>O_DIRECTORY\<close>, and null otherwise.
\<close>

definition sys_open_ctx :: "'s fsops \<Rightarrow> dirctx \<Rightarrow> string \<Rightarrow> u32 \<Rightarrow> u32 \<Rightarrow> 's fdesc \<Rightarrow> (nat \<Rightarrow> dirctx option) \<Rightarrow>
    (int \<times> 's fdesc \<times> (nat \<Rightarrow> dirctx option)) result" where
  "sys_open_ctx V fresh path flgs mode f D =
     bind_result (sys_open V path flgs mode f) (\<lambda>(fd, f1).
       if fd < 0 then Inr (fd, f1, D)
       else bind_result (slot fd f1) (\<lambda>p. case p of
              None \<Rightarrow> Inl BadAccess
            | Some i \<Rightarrow> Inr (fd, f1, D(i := if flgs AND O_DIR \<noteq> 0 then Some (fresh\<lparr>cx_stat := ctx_inv\<rparr>) else None))))"

definition sys_readdir :: "(nid \<Rightarrow> dirctx \<Rightarrow> 's \<Rightarrow> (int \<times> dirctx \<times> 's) result) \<Rightarrow> int \<Rightarrow> bytes \<Rightarrow> u64 \<Rightarrow> 's fdesc \<Rightarrow> (nat \<Rightarrow> dirctx option) \<Rightarrow>
    (int \<times> bytes \<times> 's fdesc \<times> (nat \<Rightarrow> dirctx option)) result" where
  "sys_readdir rd fd mem mx f D =
     bind_result (slot fd f) (\<lambda>p. case p of None \<Rightarrow> Inr (- EBADF, mem, f, D) | Some i \<Rightarrow>
     bind_result (file_at i f) (\<lambda>x.
       if fl_flgs x AND 3 = O_WRONLY then Inr (- EBADF, mem, f, D)
       else case D i of None \<Rightarrow> Inl BadAccess | Some ctx \<Rightarrow>
         bind_result (rd (fl_node x) (ctx\<lparr>cx_mem := mem, cx_off := 0, cx_bufmx := mx, cx_bufused := 0\<rparr>) (fs_st f)) (\<lambda>(r, ctx1, st).
           let f1 = f\<lparr>fs_st := st\<rparr>; D1 = D(i \<mapsto> ctx1)
           in if r < 0 then Inr (EOF, cx_mem ctx1, f1, D1)
              else Inr (sint (cx_bufused ctx1), cx_mem ctx1, set_file i (x\<lparr>fl_offset := cx_pos ctx1\<rparr>) f1, D1))))"

definition sys_seekdir :: "(nid \<Rightarrow> dirctx \<Rightarrow> u64 \<Rightarrow> 's \<Rightarrow> (int \<times> dirctx) result) \<Rightarrow> int \<Rightarrow> u64 \<Rightarrow> 's fdesc \<Rightarrow> (nat \<Rightarrow> dirctx option) \<Rightarrow>
    (int \<times> (nat \<Rightarrow> dirctx option)) result" where
  "sys_seekdir sd fd pos f D =
     bind_result (slot fd f) (\<lambda>p. case p of None \<Rightarrow> Inr (- EBADF, D) | Some i \<Rightarrow>
     bind_result (file_at i f) (\<lambda>x. case D i of None \<Rightarrow> Inl BadAccess | Some ctx \<Rightarrow>
     bind_result (sd (fl_node x) ctx pos (fs_st f)) (\<lambda>(r, ctx1). Inr (r, D(i \<mapsto> ctx1)))))"

section \<open>Reading the records\<close>

text \<open>
  The loops of app/ls.c for one directory, once it is open: the inner one over the records in the buffer, the outer one
  over the system calls. The lines that are printed are the names that do not begin with a dot. The number that
  the system call returns is kept in an \<open>int\<close>.
\<close>

partial_function (option) ls_records :: "bytes \<Rightarrow> nat \<Rightarrow> nat \<Rightarrow> bytes list \<Rightarrow> bytes list result option" where
  "ls_records b nr p out =
     (if p < nr
      then (if length b \<le> p + 32 \<or> \<not> ended (drop (p + 32) b) then Some (Inl BadAccess)
            else let name = cstr (drop (p + 32) b)
                 in ls_records b nr (p + unat (rd64 b (p + 16))) (if b ! (p + 32) \<noteq> 0x2E then out @ [name] else out))
      else Some (Inr out))"

partial_function (option) ls_loop :: "(nid \<Rightarrow> dirctx \<Rightarrow> 's \<Rightarrow> (int \<times> dirctx \<times> 's) result) \<Rightarrow> int \<Rightarrow> bytes \<Rightarrow> bytes list \<Rightarrow> 's fdesc \<Rightarrow> (nat \<Rightarrow> dirctx option) \<Rightarrow>
    (bytes list \<times> 's fdesc \<times> (nat \<Rightarrow> dirctx option)) result option" where
  "ls_loop rd fd b out f D =
     (case sys_readdir rd fd b 4096 f D of
        Inl e \<Rightarrow> Some (Inl e)
      | Inr q \<Rightarrow>
          let nr = sint (word_of_int (fst q) :: u32)
          in if nr > 0
             then (case ls_records (fst (snd q)) (nat nr) 0 out of
                     None \<Rightarrow> None
                   | Some r \<Rightarrow> (case r of
                       Inl e \<Rightarrow> Some (Inl e)
                     | Inr out1 \<Rightarrow> ls_loop rd fd (fst (snd q)) out1 (fst (snd (snd q))) (snd (snd (snd q)))))
             else Some (Inr (out, snd (snd q))))"

section \<open>What is in the buffer\<close>

text \<open>An entry as a listing shows it: name, inode number and type. The names of a sequence of entries as \<open>ls\<close> prints them.\<close>

type_synonym dent = "bytes \<times> u64 \<times> u32"

definition drec :: "u64 \<Rightarrow> dent \<Rightarrow> bytes" where
  "drec pos e = (case e of (nm, ino, ty) \<Rightarrow> dir_head (ucast pos) ty ino (32 + of_nat (length nm) + 1) (of_nat (length nm)) @ nm @ [0])"

primrec listing :: "u64 \<Rightarrow> dent list \<Rightarrow> bytes" where
  "listing pos [] = []"
| "listing pos (e # es) = drec pos e @ listing (pos + 1) es"

definition name_ok :: "bytes \<Rightarrow> bool" where
  "name_ok nm \<longleftrightarrow> 0 \<notin> set nm \<and> length nm < 2 ^ 16"

definition shown :: "dent list \<Rightarrow> bytes list" where
  "shown es = filter (\<lambda>nm. take 1 nm \<noteq> [0x2E]) (map fst es)"

text \<open>The bytes \<open>bs\<close> have been put into the buffer \<open>b\<close> of \<open>M\<close> bytes.\<close>

definition filled :: "bytes \<Rightarrow> nat \<Rightarrow> bytes \<Rightarrow> dirctx \<Rightarrow> bool" where
  "filled b M bs ctx \<longleftrightarrow> cx_mem ctx = bs @ drop (length bs) b \<and> cx_off ctx = length bs \<and> cx_bufused ctx = of_nat (length bs) \<and> cx_bufmx ctx = of_nat M \<and>
     length bs \<le> M \<and> M \<le> length b \<and> M < 2 ^ 31"

lemma length_dir_head [simp]: "length (dir_head idx ty ino siz len) = 32"
  by (simp add: dir_head_def bytes64_def)

lemma length_drec [simp]: "length (drec pos (nm, ino, ty)) = 33 + length nm"
  by (simp add: drec_def)

lemma listing_append: "listing pos (es @ es') = listing pos es @ listing (pos + of_nat (length es)) es'"
  by (induction es arbitrary: pos) (simp_all add: add.assoc)

lemma length_listing_pos: "length (listing pos es) = length (listing pos' es)"
proof (induction es arbitrary: pos pos')
  case (Cons e es)
  show ?case using Cons [of "pos + 1" "pos' + 1"] by (cases e) simp
qed simp

text \<open>An entry that fits is put behind the others; one that does not is refused and changes nothing.\<close>

lemma unat_siz: "name_ok nm \<Longrightarrow> unat (32 + of_nat (length nm) + 1 :: u64) = 33 + length nm"
  by (simp add: name_ok_def unat_word_ariths unat_of_nat)

lemma unat_used: "name_ok nm \<Longrightarrow> l < 2 ^ 31 \<Longrightarrow> unat (of_nat l + (32 + of_nat (length nm) + 1) :: u64) = l + 33 + length nm"
  by (simp add: name_ok_def unat_word_ariths unat_of_nat)

lemma emit_fits:
  assumes f: "filled b M bs ctx" and n: "name_ok nm" "name = nm @ 0 # r" and l: "length bs + 33 + length nm \<le> M"
  shows "\<exists>ctx'. dir_emit name (of_nat (length nm)) ino ty ctx = Inr (True, ctx') \<and> filled b M (bs @ drec (cx_pos ctx) (nm, ino, ty)) ctx' \<and>
    cx_pos ctx' = cx_pos ctx \<and> cx_stat ctx' = cx_stat ctx \<and> cx_node ctx' = cx_node ctx"
proof -
  have c: "ended name" "cstr name = nm" using n by (simp_all add: name_ok_def)
  have u: "\<not> cx_bufused ctx + (32 + of_nat (length nm) + 1) > cx_bufmx ctx"
    using f n(1) l unat_used [OF n(1), of "length bs"] by (simp add: filled_def word_less_nat_alt unat_of_nat)
  have m: "drop (length bs + 32) (cx_mem ctx) = drop (length bs + 32) b" "take (length bs) (cx_mem ctx) = bs" "length (cx_mem ctx) = length b"
    using f by (simp_all add: filled_def drop_append add.commute)
  have "length (cstr name) < length (drop (length bs + 32) b)" using c(2) l f unfolding filled_def by (simp, linarith)
  from strcpy_eq [OF c(1) this] have "strcpy (drop (length bs + 32) b) name = Inr (nm @ 0 # drop (length bs + 33 + length nm) b)"
    using c(2) by (simp add: add.commute add.left_commute)
  then show ?thesis
    using f u m l unat_siz [OF n(1)]
    by (auto simp: dir_emit_def filled_def Let_def drec_def add.commute add.left_commute intro!: exI)
qed

lemma emit_full:
  assumes f: "filled b M bs ctx" and n: "name_ok nm" and l: "M < length bs + 33 + length nm"
  shows "dir_emit name (of_nat (length nm)) ino ty ctx = Inr (False, ctx)"
  using f l unat_used [OF n, of "length bs"] by (simp add: filled_def dir_emit_def Let_def word_less_nat_alt unat_of_nat)

text \<open>Reading the records gives the names back.\<close>

lemma rd64_front: "rd64 (bytes64 w @ ys) 0 = w"
proof -
  have "rd32 (bytes64 w @ ys) 0 = ucast w" by (simp add: bytes64_def rd32_front)
  moreover have "rd32 (bytes64 w @ ys) 4 = ucast (drop_bit 32 w)"
    using rd32_append [of "bytes32 (ucast w)" 4 "bytes32 (ucast (drop_bit 32 w)) @ ys" 0] by (simp add: bytes64_def rd32_front)
  ultimately have "rd64 (bytes64 w @ ys) 0 = ucast (ucast w :: u32) OR push_bit 32 (ucast (ucast (drop_bit 32 w) :: u32))"
    by (simp add: rd64_def)
  then show ?thesis by (auto intro!: bit_word_eqI simp: bit_simps)
qed

lemma rd64_append: "length xs = k \<Longrightarrow> rd64 (xs @ ys) (k + j) = rd64 ys j"
  using rd32_append [of xs k ys j] rd32_append [of xs k ys "j + 4"] by (simp add: rd64_def add.assoc)

lemma drec_size: "rd64 (pre @ drec pos (nm, ino, ty) @ rest) (length pre + 16) = 32 + of_nat (length nm) + 1"
proof -
  let ?h = "bytes32 (ucast pos) @ bytes32 ty @ bytes64 ino" let ?t = "bytes64 (of_nat (length nm)) @ nm @ [0] @ rest"
  have "pre @ drec pos (nm, ino, ty) @ rest = (pre @ ?h) @ bytes64 (32 + of_nat (length nm) + 1) @ ?t" by (simp add: drec_def dir_head_def)
  moreover have "length (pre @ ?h) = length pre + 16" by (simp add: bytes64_def)
  ultimately show ?thesis using rd64_append [of "pre @ ?h" "length pre + 16" _ 0] by (simp only: rd64_front add_0_right)
qed

lemma ls_records_listing:
  assumes "\<forall>(nm, _)\<in>set es. name_ok nm"
  shows "ls_records (pre @ listing pos es @ rest) (length pre + length (listing pos es)) (length pre) out = Some (Inr (out @ shown es))"
  using assms
proof (induction es arbitrary: pre pos out)
  case Nil
  then show ?case by (subst ls_records.simps) (simp add: shown_def)
next
  case (Cons e es)
  obtain nm ino ty where e: "e = (nm, ino, ty)" by (cases e)
  have n: "name_ok nm" using Cons.prems e by simp
  let ?p = "length pre" let ?rest = "listing (pos + 1) es @ rest"
  define m where "m = pre @ drec pos e @ ?rest"
  have t: "drop (?p + 32) m = nm @ 0 # ?rest" by (simp add: m_def e drec_def drop_append)
  then have "m ! (?p + 32) = (nm @ 0 # ?rest) ! 0"
    using nth_drop [of "?p + 32" m 0] by (simp add: m_def e drec_def)
  then have h: "m ! (?p + 32) \<noteq> 0x2E \<longleftrightarrow> take 1 nm \<noteq> [0x2E]" by (cases nm) auto
  have s: "unat (rd64 m (?p + 16)) = 33 + length nm" using drec_size [of pre pos nm ino ty ?rest] unat_siz [OF n] by (simp add: m_def e)
  have c: "ended (drop (?p + 32) m)" "cstr (drop (?p + 32) m) = nm" unfolding t using n by (simp_all add: name_ok_def)
  have l: "\<not> length m \<le> ?p + 32" by (simp add: m_def e)
  have IH: "ls_records ((pre @ drec pos e) @ ?rest) (length (pre @ drec pos e) + length (listing (pos + 1) es)) (length (pre @ drec pos e)) out' = Some (Inr (out' @ shown es))" for out'
    using Cons.IH [of "pre @ drec pos e" "pos + 1" out'] Cons.prems by simp
  have "ls_records m (?p + length (listing pos (e # es))) ?p out =
      ls_records m (?p + length (listing pos (e # es))) (?p + (33 + length nm)) (if take 1 nm \<noteq> [0x2E] then out @ [nm] else out)"
    using c l s h by (subst ls_records.simps) (simp add: e)
  then show ?case using IH by (simp add: m_def e shown_def add.assoc)
qed

section \<open>File systems that list\<close>

lemma int_nr: "k < 2 ^ 31 \<Longrightarrow> sint (word_of_int (sint (of_nat k :: u64)) :: u32) = int k"
  by (simp add: signed_of_nat signed_of_int signed_take_bit_int_eq_self)

text \<open>
  What the listing of a file system promises: when the whole listing fits, the first call puts all of it into the buffer, and
  the call after it reports the end.
\<close>

locale dir_lister =
  fixes rd :: "nid \<Rightarrow> dirctx \<Rightarrow> 's \<Rightarrow> (int \<times> dirctx \<times> 's) result"
    and ents :: "nid \<Rightarrow> 's \<Rightarrow> dent list"
    and good :: "nid \<Rightarrow> 's \<Rightarrow> bool"
    and over :: "nid \<Rightarrow> dirctx \<Rightarrow> 's \<Rightarrow> bool"
  assumes names: "good n s \<Longrightarrow> \<forall>(nm, _)\<in>set (ents n s). name_ok nm"
    and lists: "good n s \<Longrightarrow> cx_stat ctx = ctx_inv \<Longrightarrow> filled b M [] ctx \<Longrightarrow> length (listing 0 (ents n s)) \<le> M \<Longrightarrow>
      \<exists>r ctx' s'. rd n ctx s = Inr (r, ctx', s') \<and> 0 \<le> r \<and> filled b M (listing 0 (ents n s)) ctx' \<and> over n ctx' s'"
    and ends: "over n ctx s \<Longrightarrow>
      \<exists>r ctx' s'. rd n (ctx\<lparr>cx_mem := b, cx_off := 0, cx_bufmx := mx, cx_bufused := 0\<rparr>) s = Inr (r, ctx', s') \<and> (r < 0 \<or> cx_bufused ctx' = 0)"
begin

text \<open>So \<open>ls\<close> ends and prints the names of the directory.\<close>

lemma ls_prints:
  assumes f: "slot fd f = Inr (Some i)" "f_heap f i = Some x" "fl_flgs x AND 3 \<noteq> 1" "D i = Some ctx" "cx_stat ctx = ctx_inv"
    and g: "good (fl_node x) (fs_st f)" "length b = 4096" "length (listing 0 (ents (fl_node x) (fs_st f))) \<le> 4096"
  shows "\<exists>f' D'. ls_loop rd fd b [] f D = Some (Inr (shown (ents (fl_node x) (fs_st f)), f', D'))"
proof -
  let ?es = "ents (fl_node x) (fs_st f)" let ?l = "listing 0 ?es"
  have "filled b 4096 [] (ctx\<lparr>cx_mem := b, cx_off := 0, cx_bufmx := 4096, cx_bufused := 0\<rparr>)" using g(2) by (simp add: filled_def)
  then obtain r ctx1 s1 where r: "rd (fl_node x) (ctx\<lparr>cx_mem := b, cx_off := 0, cx_bufmx := 4096, cx_bufused := 0\<rparr>) (fs_st f) = Inr (r, ctx1, s1)"
    "0 \<le> r" "filled b 4096 ?l ctx1" "over (fl_node x) ctx1 s1"
    using lists [OF g(1), of "ctx\<lparr>cx_mem := b, cx_off := 0, cx_bufmx := 4096, cx_bufused := 0\<rparr>" b 4096] f(5) g(3) by auto
  define f1 where "f1 = set_file i (x\<lparr>fl_offset := cx_pos ctx1\<rparr>) (f\<lparr>fs_st := s1\<rparr>)"
  define m where "m = ?l @ drop (length ?l) b"
  have n: "sint (word_of_int (sint (cx_bufused ctx1)) :: u32) = int (length ?l)"
    using int_nr [of "length ?l"] r(3) g(3) by (simp add: filled_def)
  have c1: "sys_readdir rd fd b 4096 f D = Inr (sint (cx_bufused ctx1), m, f1, D(i \<mapsto> ctx1))"
    using f r by (simp add: sys_readdir_def file_at_def O_WRONLY_def filled_def m_def f1_def)
  have w: "ls_records m (length ?l) 0 [] = Some (Inr (shown ?es))"
    using ls_records_listing [OF names [OF g(1)], of "[]" 0 "drop (length ?l) b" "[]"] by (simp add: m_def)
  show ?thesis
  proof (cases "?l = []")
    case True
    then have "?es = []" by (cases ?es) (auto simp: drec_def dir_head_def bytes64_def bytes32_def bytes16_def)
    then show ?thesis using c1 n True by (subst ls_loop.simps) (simp add: shown_def)
  next
    case False
    obtain r2 ctx2 s2 where e: "rd (fl_node x) (ctx1\<lparr>cx_mem := m, cx_off := 0, cx_bufmx := 4096, cx_bufused := 0\<rparr>) s1 = Inr (r2, ctx2, s2)" "r2 < 0 \<or> cx_bufused ctx2 = 0"
      using ends [OF r(4), where b = m and mx = 4096] by blast
    have s: "slot fd f1 = Inr (Some i)" "f_heap f1 i = Some (x\<lparr>fl_offset := cx_pos ctx1\<rparr>)" "fs_st f1 = s1"
      using f(1) by (auto simp: f1_def slot_def set_file_def split: if_splits)
    have "\<exists>nr m2 f2 D2. sys_readdir rd fd m 4096 f1 (D(i \<mapsto> ctx1)) = Inr (nr, m2, f2, D2) \<and> (nr = EOF \<or> nr = 0)"
      using s e f(3) by (auto simp: sys_readdir_def file_at_def O_WRONLY_def Let_def)
    then obtain nr m2 f2 D2 where "sys_readdir rd fd m 4096 f1 (D(i \<mapsto> ctx1)) = Inr (nr, m2, f2, D2)" "nr = EOF \<or> nr = 0" by blast
    then have "ls_loop rd fd m (shown ?es) f1 (D(i \<mapsto> ctx1)) = Some (Inr (shown ?es, f2, D2))"
      by (subst ls_loop.simps) (auto simp: EOF_def)
    then show ?thesis using c1 n False w by (subst ls_loop.simps) simp
  qed
qed

end

end
