(* ===== verification/Rbtree.thy ===== *)
theory Rbtree
  imports Prelude Transition
begin

text \<open>
  kernel/klib/rbtree.c: red-black trees of nodes that live in memory and know their parent. Memory gives the
  node at every address; each operation is the sequence of loads and stores of the code, and following a null
  pointer is \<open>BadAccess\<close>. The user of the library finds the place of a new node, links it there and
  calls \<open>rbtree_fixup\<close>. The shapes are related to trees of addresses; a path from a node up to the
  root is a list of frames.
\<close>

section \<open>Nodes and memory\<close>

datatype color = RED | BLACK

record rbnode =
  r_color :: color
  r_left :: "nat option"
  r_right :: "nat option"
  r_parent :: "nat option"

record rbtree =
  rn :: "nat \<Rightarrow> rbnode option"
  t_root :: "nat option"

text \<open>A load and a store of a field through a pointer.\<close>

definition ld :: "(rbnode \<Rightarrow> 'a) \<Rightarrow> nat option \<Rightarrow> rbtree \<Rightarrow> 'a result" where
  "ld f p s = (case p of None \<Rightarrow> Inl BadAccess | Some i \<Rightarrow> (case rn s i of None \<Rightarrow> Inl BadAccess | Some n \<Rightarrow> Inr (f n)))"

definition st :: "(rbnode \<Rightarrow> rbnode) \<Rightarrow> nat option \<Rightarrow> rbtree \<Rightarrow> rbtree result" where
  "st f p s = (case p of None \<Rightarrow> Inl BadAccess | Some i \<Rightarrow>
     (case rn s i of None \<Rightarrow> Inl BadAccess | Some n \<Rightarrow> Inr (s\<lparr>rn := (rn s)(i \<mapsto> f n)\<rparr>)))"

definition set_color :: "color \<Rightarrow> nat option \<Rightarrow> rbtree \<Rightarrow> rbtree result" where
  "set_color c = st (r_color_update (\<lambda>_. c))"

definition set_left :: "nat option \<Rightarrow> nat option \<Rightarrow> rbtree \<Rightarrow> rbtree result" where
  "set_left v = st (r_left_update (\<lambda>_. v))"

definition set_right :: "nat option \<Rightarrow> nat option \<Rightarrow> rbtree \<Rightarrow> rbtree result" where
  "set_right v = st (r_right_update (\<lambda>_. v))"

definition set_parent :: "nat option \<Rightarrow> nat option \<Rightarrow> rbtree \<Rightarrow> rbtree result" where
  "set_parent v = st (r_parent_update (\<lambda>_. v))"

text \<open>\<open>if (q) q->parent = p\<close>.\<close>

definition adopt :: "nat option \<Rightarrow> nat option \<Rightarrow> rbtree \<Rightarrow> rbtree result" where
  "adopt p q s = (if q \<noteq> None then set_parent p q s else Inr s)"

text \<open>\<open>if (q) q->color = c\<close>.\<close>

definition tint :: "color \<Rightarrow> nat option \<Rightarrow> rbtree \<Rightarrow> rbtree result" where
  "tint c q s = (if q \<noteq> None then set_color c q s else Inr s)"

section \<open>Rotations\<close>

text \<open>The three-way choice that puts \<open>y\<close> where the parent of \<open>x\<close> has \<open>x\<close>.\<close>

definition relink :: "nat option \<Rightarrow> nat option \<Rightarrow> rbtree \<Rightarrow> rbtree result" where
  "relink x y s =
     bind_result (ld r_parent x s) (\<lambda>xp.
       if xp = None then Inr (s\<lparr>t_root := y\<rparr>)
       else bind_result (ld r_left xp s) (\<lambda>xpl. if x = xpl then set_left y xp s else set_right y xp s))"

definition rotate_left :: "nat option \<Rightarrow> rbtree \<Rightarrow> (nat option \<times> rbtree) result" where
  "rotate_left x s =
     bind_result (ld r_right x s) (\<lambda>y.
     bind_result (ld r_left y s) (\<lambda>yl.
     bind_result (set_right yl x s) (\<lambda>s.
     bind_result (ld r_left y s) (\<lambda>yl.
     bind_result (adopt x yl s) (\<lambda>s.
     bind_result (ld r_parent x s) (\<lambda>xp.
     bind_result (set_parent xp y s) (\<lambda>s.
     bind_result (relink x y s) (\<lambda>s.
     bind_result (set_left x y s) (\<lambda>s.
     bind_result (set_parent y x s) (\<lambda>s. Inr (y, s)))))))))))"

definition rotate_right :: "nat option \<Rightarrow> rbtree \<Rightarrow> (nat option \<times> rbtree) result" where
  "rotate_right y s =
     bind_result (ld r_left y s) (\<lambda>x.
     bind_result (ld r_right x s) (\<lambda>xr.
     bind_result (set_left xr y s) (\<lambda>s.
     bind_result (ld r_right x s) (\<lambda>xr.
     bind_result (adopt y xr s) (\<lambda>s.
     bind_result (ld r_parent y s) (\<lambda>yp.
     bind_result (set_parent yp x s) (\<lambda>s.
     bind_result (relink y x s) (\<lambda>s.
     bind_result (set_right y x s) (\<lambda>s.
     bind_result (set_parent x y s) (\<lambda>s. Inr (x, s)))))))))))"

section \<open>Insertion\<close>

definition isred :: "nat option \<Rightarrow> rbtree \<Rightarrow> bool result" where
  "isred x s = (if x = None then Inr False else bind_result (ld r_color x s) (\<lambda>c. Inr (c = RED)))"

text \<open>The condition and the body of the loop of \<open>fixup\<close>; the body returns the new \<open>z\<close>.\<close>

definition fixup_cond :: "nat option \<Rightarrow> rbtree \<Rightarrow> bool result" where
  "fixup_cond z s = (if z = t_root s then Inr False else bind_result (ld r_parent z s) (\<lambda>p. isred p s))"

definition recolor :: "nat option \<Rightarrow> nat option \<Rightarrow> nat option \<Rightarrow> rbtree \<Rightarrow> rbtree result" where
  "recolor p u g s =
     bind_result (set_color BLACK p s) (\<lambda>s. bind_result (set_color BLACK u s) (\<lambda>s. set_color RED g s))"

definition fixup_body :: "nat option \<Rightarrow> rbtree \<Rightarrow> (nat option \<times> rbtree) result" where
  "fixup_body z s =
     bind_result (ld r_parent z s) (\<lambda>p.
     bind_result (ld r_parent p s) (\<lambda>g.
     bind_result (ld r_left g s) (\<lambda>gl.
       if p = gl then
         bind_result (ld r_right g s) (\<lambda>u.
         bind_result (isred u s) (\<lambda>ru.
           if ru then bind_result (recolor p u g s) (\<lambda>s. Inr (g, s))
           else
             bind_result (ld r_right p s) (\<lambda>pr.
             bind_result (if z = pr
               then bind_result (rotate_left p s) (\<lambda>(_, s).
                    bind_result (ld r_parent p s) (\<lambda>p'. bind_result (ld r_parent p' s) (\<lambda>g'. Inr (p, p', g', s))))
               else Inr (z, p, g, s)) (\<lambda>(z, p, g, s).
             bind_result (set_color BLACK p s) (\<lambda>s.
             bind_result (set_color RED g s) (\<lambda>s.
             bind_result (rotate_right g s) (\<lambda>(_, s). Inr (z, s))))))))
       else
         bind_result (ld r_left g s) (\<lambda>u.
         bind_result (isred u s) (\<lambda>ru.
           if ru then bind_result (recolor p u g s) (\<lambda>s. Inr (g, s))
           else
             bind_result (ld r_left p s) (\<lambda>pl.
             bind_result (if z = pl
               then bind_result (rotate_right p s) (\<lambda>(_, s).
                    bind_result (ld r_parent p s) (\<lambda>p'. bind_result (ld r_parent p' s) (\<lambda>g'. Inr (p, p', g', s))))
               else Inr (z, p, g, s)) (\<lambda>(z, p, g, s).
             bind_result (set_color BLACK p s) (\<lambda>s.
             bind_result (set_color RED g s) (\<lambda>s.
             bind_result (rotate_left g s) (\<lambda>(_, s). Inr (z, s)))))))))))"

partial_function (option) fixup_loop :: "nat option \<Rightarrow> rbtree \<Rightarrow> rbtree result option" where
  "fixup_loop z s =
     (case fixup_cond z s of
        Inl e \<Rightarrow> Some (Inl e)
      | Inr b \<Rightarrow>
          if b then (case fixup_body z s of Inl e \<Rightarrow> Some (Inl e) | Inr q \<Rightarrow> fixup_loop (fst q) (snd q))
          else Some (Inr s))"

definition rbtree_fixup :: "nat option \<Rightarrow> rbtree \<Rightarrow> rbtree result option" where
  "rbtree_fixup z s = map_option (\<lambda>r. bind_result r (\<lambda>s. set_color BLACK (t_root s) s)) (fixup_loop z s)"

text \<open>A place where a pointer to a node stands: \<open>rbnode_t **\<close>.\<close>

datatype loc = LRoot | LLeft nat | LRight nat

definition ld_loc :: "loc \<Rightarrow> rbtree \<Rightarrow> nat option result" where
  "ld_loc l s = (case l of LRoot \<Rightarrow> Inr (t_root s) | LLeft i \<Rightarrow> ld r_left (Some i) s | LRight i \<Rightarrow> ld r_right (Some i) s)"

definition st_loc :: "nat option \<Rightarrow> loc \<Rightarrow> rbtree \<Rightarrow> rbtree result" where
  "st_loc v l s = (case l of LRoot \<Rightarrow> Inr (s\<lparr>t_root := v\<rparr>) | LLeft i \<Rightarrow> set_left v (Some i) s | LRight i \<Rightarrow> set_right v (Some i) s)"

definition replace_node :: "nat option \<Rightarrow> loc \<Rightarrow> rbtree \<Rightarrow> rbtree result" where
  "replace_node n pp s =
     bind_result (ld_loc pp s) (\<lambda>old.
     bind_result (ld r_color old s) (\<lambda>c. bind_result (set_color c n s) (\<lambda>s.
     bind_result (ld r_left old s) (\<lambda>l. bind_result (set_left l n s) (\<lambda>s.
     bind_result (ld r_right old s) (\<lambda>r. bind_result (set_right r n s) (\<lambda>s.
     bind_result (ld r_parent old s) (\<lambda>p. bind_result (set_parent p n s) (\<lambda>s.
     bind_result (ld r_left old s) (\<lambda>l. bind_result (adopt n l s) (\<lambda>s.
     bind_result (ld r_right old s) (\<lambda>r. bind_result (adopt n r s) (\<lambda>s.
     st_loc n pp s)))))))))))))"

definition rbtree_link :: "nat option \<Rightarrow> loc \<Rightarrow> nat option \<Rightarrow> rbtree \<Rightarrow> rbtree result" where
  "rbtree_link n pp p s =
     bind_result (ld_loc pp s) (\<lambda>old.
       if old \<noteq> None then replace_node n pp s
       else bind_result (set_color RED n s) (\<lambda>s.
            bind_result (set_left None n s) (\<lambda>s.
            bind_result (set_right None n s) (\<lambda>s.
            bind_result (set_parent p n s) (\<lambda>s. st_loc n pp s)))))"

section \<open>Deletion\<close>

definition black :: "nat option \<Rightarrow> rbtree \<Rightarrow> bool result" where
  "black q s = (if q = None then Inr True else bind_result (ld r_color q s) (\<lambda>c. Inr (c = BLACK)))"

definition both_black :: "nat option \<Rightarrow> nat option \<Rightarrow> rbtree \<Rightarrow> bool result" where
  "both_black a b s = bind_result (black a s) (\<lambda>x. if x then black b s else Inr False)"

definition fixup_del_cond :: "nat option \<Rightarrow> rbtree \<Rightarrow> bool result" where
  "fixup_del_cond x s = (if x = t_root s then Inr False else black x s)"

text \<open>The body for a node that is the left child of \<open>p\<close>, and the mirrored one.\<close>

definition fixup_del_left :: "nat option \<Rightarrow> nat option \<Rightarrow> rbtree \<Rightarrow> (nat option \<times> rbtree) result" where
  "fixup_del_left x p s =
     bind_result (ld r_right p s) (\<lambda>w.
     bind_result (isred w s) (\<lambda>rw.
     bind_result (if rw then bind_result (set_color BLACK w s) (\<lambda>s. bind_result (set_color RED p s) (\<lambda>s.
         bind_result (rotate_left p s) (\<lambda>(_, s). bind_result (ld r_right p s) (\<lambda>w. Inr (w, s)))))
       else Inr (w, s)) (\<lambda>(w, s).
     bind_result (ld r_left w s) (\<lambda>wl. bind_result (ld r_right w s) (\<lambda>wr.
     bind_result (both_black wl wr s) (\<lambda>bb.
       if bb then bind_result (set_color RED w s) (\<lambda>s. Inr (p, s))
       else
         bind_result (black wr s) (\<lambda>b.
         bind_result (if b then bind_result (tint BLACK wl s) (\<lambda>s.
             bind_result (set_color RED w s) (\<lambda>s. bind_result (rotate_right w s) (\<lambda>(_, s).
             bind_result (ld r_right p s) (\<lambda>w. Inr (w, s)))))
           else Inr (w, s)) (\<lambda>(w, s).
         bind_result (ld r_color p s) (\<lambda>c. bind_result (set_color c w s) (\<lambda>s.
         bind_result (set_color BLACK p s) (\<lambda>s.
         bind_result (ld r_right w s) (\<lambda>wr.
         bind_result (tint BLACK wr s) (\<lambda>s.
         bind_result (rotate_left p s) (\<lambda>(_, s). Inr (t_root s, s)))))))))))))))"

definition fixup_del_right :: "nat option \<Rightarrow> nat option \<Rightarrow> rbtree \<Rightarrow> (nat option \<times> rbtree) result" where
  "fixup_del_right x p s =
     bind_result (ld r_left p s) (\<lambda>w.
     bind_result (isred w s) (\<lambda>rw.
     bind_result (if rw then bind_result (set_color BLACK w s) (\<lambda>s. bind_result (set_color RED p s) (\<lambda>s.
         bind_result (rotate_right p s) (\<lambda>(_, s). bind_result (ld r_left p s) (\<lambda>w. Inr (w, s)))))
       else Inr (w, s)) (\<lambda>(w, s).
     bind_result (ld r_right w s) (\<lambda>wr. bind_result (ld r_left w s) (\<lambda>wl.
     bind_result (both_black wr wl s) (\<lambda>bb.
       if bb then bind_result (set_color RED w s) (\<lambda>s. Inr (p, s))
       else
         bind_result (black wl s) (\<lambda>b.
         bind_result (if b then bind_result (tint BLACK wr s) (\<lambda>s.
             bind_result (set_color RED w s) (\<lambda>s. bind_result (rotate_left w s) (\<lambda>(_, s).
             bind_result (ld r_left p s) (\<lambda>w. Inr (w, s)))))
           else Inr (w, s)) (\<lambda>(w, s).
         bind_result (ld r_color p s) (\<lambda>c. bind_result (set_color c w s) (\<lambda>s.
         bind_result (set_color BLACK p s) (\<lambda>s.
         bind_result (ld r_left w s) (\<lambda>wl.
         bind_result (tint BLACK wl s) (\<lambda>s.
         bind_result (rotate_right p s) (\<lambda>(_, s). Inr (t_root s, s)))))))))))))))"

definition fixup_del_body :: "nat option \<Rightarrow> rbtree \<Rightarrow> (nat option \<times> rbtree) result" where
  "fixup_del_body x s =
     bind_result (if x \<noteq> None then ld r_parent x s else Inr None) (\<lambda>p.
     bind_result (ld r_left p s) (\<lambda>pl. if x = pl then fixup_del_left x p s else fixup_del_right x p s))"

partial_function (option) fixup_del_loop :: "nat option \<Rightarrow> rbtree \<Rightarrow> (nat option \<times> rbtree) result option" where
  "fixup_del_loop x s =
     (case fixup_del_cond x s of
        Inl e \<Rightarrow> Some (Inl e)
      | Inr b \<Rightarrow>
          if b then (case fixup_del_body x s of Inl e \<Rightarrow> Some (Inl e) | Inr q \<Rightarrow> fixup_del_loop (fst q) (snd q))
          else Some (Inr (x, s)))"

definition fixup_del :: "nat option \<Rightarrow> rbtree \<Rightarrow> rbtree result option" where
  "fixup_del x s =
     map_option (\<lambda>r. bind_result r (\<lambda>(x, s). tint BLACK x s)) (fixup_del_loop x s)"

partial_function (option) minimum :: "nat option \<Rightarrow> rbtree \<Rightarrow> nat option result option" where
  "minimum x s =
     (case ld r_left x s of
        Inl e \<Rightarrow> Some (Inl e)
      | Inr l \<Rightarrow> if l \<noteq> None then minimum l s else Some (Inr x))"

text \<open>A node with one child: the child, possibly null, takes its place.\<close>

definition splice_out :: "nat option \<Rightarrow> nat option \<Rightarrow> rbtree \<Rightarrow> rbtree result" where
  "splice_out z x s =
     bind_result (if x \<noteq> None then bind_result (ld r_parent z s) (\<lambda>zp. set_parent zp x s) else Inr s) (relink z x)"

text \<open>A node with two children: its successor \<open>y\<close>, whose right child is \<open>x\<close>, takes its place.\<close>

definition splice_succ :: "nat option \<Rightarrow> nat option \<Rightarrow> nat option \<Rightarrow> rbtree \<Rightarrow> rbtree result" where
  "splice_succ z y x s =
     bind_result (ld r_parent y s) (\<lambda>yp.
     bind_result (if yp = z then (adopt y x s)
       else bind_result (adopt yp x s) (\<lambda>s.
            bind_result (ld r_parent y s) (\<lambda>yp. bind_result (set_left x yp s) (\<lambda>s.
            bind_result (ld r_right z s) (\<lambda>zr. bind_result (set_right zr y s) (\<lambda>s.
            bind_result (ld r_right y s) (\<lambda>yr. set_parent y yr s))))))) (\<lambda>s.
     bind_result (relink z y s) (\<lambda>s.
     bind_result (ld r_parent z s) (\<lambda>zp. bind_result (set_parent zp y s) (\<lambda>s.
     bind_result (ld r_left z s) (\<lambda>zl. bind_result (set_left zl y s) (\<lambda>s.
     bind_result (ld r_left y s) (\<lambda>yl. bind_result (set_parent y yl s) (\<lambda>s.
     bind_result (ld r_color z s) (\<lambda>zc. set_color zc y s))))))))))"

text \<open>The first part of \<open>rbtree_delete\<close>: the original color of the removed node and the node that moved up.\<close>

definition delete_splice :: "nat option \<Rightarrow> rbtree \<Rightarrow> (color \<times> nat option \<times> rbtree) result option" where
  "delete_splice z s =
     (case bind_result (ld r_color z s) (\<lambda>c. bind_result (ld r_left z s) (\<lambda>l. bind_result (ld r_right z s) (\<lambda>r. Inr (c, l, r)))) of
        Inl e \<Rightarrow> Some (Inl e)
      | Inr (c, l, r) \<Rightarrow>
          if l = None then Some (bind_result (splice_out z r s) (\<lambda>s. Inr (c, r, s)))
          else if r = None then Some (bind_result (splice_out z l s) (\<lambda>s. Inr (c, l, s)))
          else map_option (\<lambda>m. bind_result m (\<lambda>y. bind_result (ld r_color y s) (\<lambda>yc.
                 bind_result (ld r_right y s) (\<lambda>x. bind_result (splice_succ z y x s) (\<lambda>s. Inr (yc, x, s))))))
               (minimum r s))"

definition rbtree_delete :: "nat option \<Rightarrow> rbtree \<Rightarrow> rbtree result option" where
  "rbtree_delete z s =
     Option.bind (delete_splice z s) (\<lambda>m. case m of
         Inl e \<Rightarrow> Some (Inl e)
       | Inr (c, x, s) \<Rightarrow> if c = BLACK \<and> x \<noteq> None then fixup_del x s else Some (Inr s))"

section \<open>Trees of addresses\<close>

datatype rbt = Tip | Bin rbt nat color rbt

fun ptr :: "rbt \<Rightarrow> nat option" where
  "ptr Tip = None"
| "ptr (Bin l i c r) = Some i"

primrec addrs :: "rbt \<Rightarrow> nat list" where
  "addrs Tip = []"
| "addrs (Bin l i c r) = addrs l @ i # addrs r"

text \<open>\<open>rep s p t\<close>: memory holds the tree \<open>t\<close> below the parent \<open>p\<close>.\<close>

primrec rep :: "(nat \<Rightarrow> rbnode option) \<Rightarrow> nat option \<Rightarrow> rbt \<Rightarrow> bool" where
  "rep h p Tip \<longleftrightarrow> True"
| "rep h p (Bin l i c r) \<longleftrightarrow>
     h i = Some \<lparr>r_color = c, r_left = ptr l, r_right = ptr r, r_parent = p\<rparr> \<and> rep h (Some i) l \<and> rep h (Some i) r"

text \<open>A frame is a node with a hole for one child; frames lead from the hole up to the root.\<close>

datatype frame = FL nat color rbt | FR rbt nat color

fun fill :: "frame \<Rightarrow> rbt \<Rightarrow> rbt" where
  "fill (FL i c r) t = Bin t i c r"
| "fill (FR l i c) t = Bin l i c t"

primrec plug :: "frame list \<Rightarrow> rbt \<Rightarrow> rbt" where
  "plug [] t = t"
| "plug (f # fs) t = plug fs (fill f t)"

fun faddr :: "frame \<Rightarrow> nat" where
  "faddr (FL i c r) = i"
| "faddr (FR l i c) = i"

fun fcolor :: "frame \<Rightarrow> color" where
  "fcolor (FL i c r) = c"
| "fcolor (FR l i c) = c"

fun sib :: "frame \<Rightarrow> rbt" where
  "sib (FL i c r) = r"
| "sib (FR l i c) = l"

definition up :: "frame list \<Rightarrow> nat option" where
  "up fs = (case fs of [] \<Rightarrow> None | f # _ \<Rightarrow> Some (faddr f))"

primrec raddrs :: "frame list \<Rightarrow> nat list" where
  "raddrs [] = []"
| "raddrs (f # fs) = faddr f # addrs (sib f) @ raddrs fs"

fun frec :: "frame \<Rightarrow> nat option \<Rightarrow> nat option \<Rightarrow> rbnode" where
  "frec (FL i c r) q p = \<lparr>r_color = c, r_left = q, r_right = ptr r, r_parent = p\<rparr>"
| "frec (FR l i c) q p = \<lparr>r_color = c, r_left = ptr l, r_right = q, r_parent = p\<rparr>"

text \<open>\<open>crep h fs q\<close>: memory holds the frames around a hole with the pointer \<open>q\<close>.\<close>

primrec crep :: "(nat \<Rightarrow> rbnode option) \<Rightarrow> frame list \<Rightarrow> nat option \<Rightarrow> bool" where
  "crep h [] q \<longleftrightarrow> True"
| "crep h (f # fs) q \<longleftrightarrow>
     h (faddr f) = Some (frec f q (up fs)) \<and> rep h (Some (faddr f)) (sib f) \<and> crep h fs (Some (faddr f))"

lemma up_simps [simp]: "up [] = None" "up (f # fs) = Some (faddr f)"
  by (simp_all add: up_def)

lemma ptr_fill [simp]: "ptr (fill f t) = Some (faddr f)"
  by (cases f) auto

lemma rep_plug: "rep h None (plug fs t) \<longleftrightarrow> rep h (up fs) t \<and> crep h fs (ptr t)"
proof (induction fs arbitrary: t)
  case (Cons f fs)
  then show ?case by (cases f) auto
qed simp

lemma set_plug: "set (addrs (plug fs t)) = set (addrs t) \<union> set (raddrs fs)"
proof (induction fs arbitrary: t)
  case (Cons f fs)
  then show ?case by (cases f) auto
qed simp

lemma set_fill [simp]: "set (addrs (fill f t)) = insert (faddr f) (set (addrs t) \<union> set (addrs (sib f)))"
  by (cases f) auto

lemma distinct_plug: "distinct (addrs (plug fs t)) \<longleftrightarrow> distinct (addrs t @ raddrs fs)"
proof (induction fs arbitrary: t)
  case (Cons f fs)
  then show ?case by (cases f) auto
qed simp

lemma rep_cong: "(\<And>i. i \<in> set (addrs t) \<Longrightarrow> h' i = h i) \<Longrightarrow> rep h' p t = rep h p t"
  by (induction t arbitrary: p) auto

lemma crep_cong: "(\<And>i. i \<in> set (raddrs fs) \<Longrightarrow> h' i = h i) \<Longrightarrow> crep h' fs q = crep h fs q"
proof (induction fs arbitrary: q)
  case (Cons f fs)
  then show ?case using rep_cong [of "sib f" h' h] by auto
qed simp

lemma rep_upd [simp]: "i \<notin> set (addrs t) \<Longrightarrow> rep (h(i := v)) p t = rep h p t"
  by (rule rep_cong) auto

lemma crep_upd [simp]: "i \<notin> set (raddrs fs) \<Longrightarrow> crep (h(i := v)) fs q = crep h fs q"
  by (rule crep_cong) auto

text \<open>\<open>holds s t\<close> is the whole tree; \<open>zip_at s fs t\<close>: memory and the root pointer hold the tree \<open>t\<close> inside the frames \<open>fs\<close>.\<close>

definition holds :: "rbtree \<Rightarrow> rbt \<Rightarrow> bool" where
  "holds s t \<longleftrightarrow> t_root s = ptr t \<and> rep (rn s) None t \<and> distinct (addrs t)"

definition zip_at :: "rbtree \<Rightarrow> frame list \<Rightarrow> rbt \<Rightarrow> bool" where
  "zip_at s fs t \<longleftrightarrow> t_root s = (if fs = [] then ptr t else Some (faddr (last fs))) \<and>
     rep (rn s) (up fs) t \<and> crep (rn s) fs (ptr t) \<and> distinct (addrs t @ raddrs fs)"

lemma ptr_plug: "ptr (plug fs t) = (if fs = [] then ptr t else Some (faddr (last fs)))"
proof (induction fs arbitrary: t)
  case (Cons f fs)
  then show ?case by (cases fs) auto
qed simp

lemma holds_plug: "holds s (plug fs t) \<longleftrightarrow> zip_at s fs t"
  by (simp add: holds_def zip_at_def ptr_plug rep_plug distinct_plug)

lemma holds_zip: "holds s t \<longleftrightarrow> zip_at s [] t"
  using holds_plug [of s "[]" t] by simp

lemma zip_down: "zip_at s fs (fill f t) \<longleftrightarrow> zip_at s (f # fs) t"
  using holds_plug [of s fs "fill f t"] holds_plug [of s "f # fs" t] by simp

section \<open>Rotations on trees\<close>

lemmas access_defs = ld_def st_def set_color_def set_left_def set_right_def set_parent_def

definition same_off :: "nat set \<Rightarrow> rbtree \<Rightarrow> rbtree \<Rightarrow> bool" where
  "same_off A s s' \<longleftrightarrow> (\<forall>i. i \<notin> A \<longrightarrow> rn s' i = rn s i)"

lemma same_off_trans: "same_off A s s' \<Longrightarrow> same_off A s' s'' \<Longrightarrow> same_off A s s''"
  by (simp add: same_off_def)

lemma same_off_mono: "same_off A s s' \<Longrightarrow> A \<subseteq> B \<Longrightarrow> same_off B s s'"
  by (auto simp: same_off_def)

text \<open>Giving a subtree a new parent, and giving the hole of a list of frames a new pointer.\<close>

fun reparent :: "rbt \<Rightarrow> nat option \<Rightarrow> (nat \<Rightarrow> rbnode option) \<Rightarrow> nat \<Rightarrow> rbnode option" where
  "reparent Tip p h = h"
| "reparent (Bin l i c r) p h = h(i \<mapsto> \<lparr>r_color = c, r_left = ptr l, r_right = ptr r, r_parent = p\<rparr>)"

fun rehole :: "frame list \<Rightarrow> nat option \<Rightarrow> (nat \<Rightarrow> rbnode option) \<Rightarrow> nat \<Rightarrow> rbnode option" where
  "rehole [] q h = h"
| "rehole (f # fs) q h = h(faddr f \<mapsto> frec f q (up fs))"

lemma reparent_other [simp]: "i \<notin> set (addrs t) \<Longrightarrow> reparent t p h i = h i"
  by (cases t) auto

lemma rehole_other [simp]: "i \<notin> set (raddrs fs) \<Longrightarrow> rehole fs q h i = h i"
  by (cases fs) auto

lemma rep_reparent: "rep h p t \<Longrightarrow> distinct (addrs t) \<Longrightarrow> rep (reparent t q h) q t"
  by (cases t) auto

lemma rep_reparent_other [simp]: "set (addrs t) \<inter> set (addrs u) = {} \<Longrightarrow> rep (reparent u q h) p t = rep h p t"
  by (rule rep_cong) (auto intro: reparent_other)

lemma crep_reparent_other [simp]: "set (raddrs fs) \<inter> set (addrs u) = {} \<Longrightarrow> crep (reparent u q h) fs p = crep h fs p"
  by (rule crep_cong) (auto intro: reparent_other)

lemma rep_rehole_other [simp]: "set (addrs t) \<inter> set (raddrs fs) = {} \<Longrightarrow> rep (rehole fs q h) p t = rep h p t"
  by (rule rep_cong) (auto intro: rehole_other)

lemma crep_rehole: "crep h fs q \<Longrightarrow> distinct (raddrs fs) \<Longrightarrow> crep (rehole fs q' h) fs q'"
  by (cases fs) auto

text \<open>Loads and stores at a known node.\<close>

lemma ld_at: "rn s i = Some n \<Longrightarrow> ld f (Some i) s = Inr (f n)"
  by (simp add: ld_def)

lemma set_at:
  assumes "rn s i = Some n"
  shows "set_color c (Some i) s = Inr (s\<lparr>rn := (rn s)(i \<mapsto> n\<lparr>r_color := c\<rparr>)\<rparr>)"
    "set_left q (Some i) s = Inr (s\<lparr>rn := (rn s)(i \<mapsto> n\<lparr>r_left := q\<rparr>)\<rparr>)"
    "set_right q (Some i) s = Inr (s\<lparr>rn := (rn s)(i \<mapsto> n\<lparr>r_right := q\<rparr>)\<rparr>)"
    "set_parent q (Some i) s = Inr (s\<lparr>rn := (rn s)(i \<mapsto> n\<lparr>r_parent := q\<rparr>)\<rparr>)"
  using assms by (simp_all add: access_defs)

lemma adopt_eq: "rep (rn s) p t \<Longrightarrow> adopt q (ptr t) s = Inr (s\<lparr>rn := reparent t q (rn s)\<rparr>)"
  by (cases t) (auto simp: adopt_def set_at)

lemma relink_eq:
  assumes "crep (rn s) fs (Some x)" "x \<notin> set (raddrs fs)" "map_option r_parent (rn s x) = Some (up fs)"
  shows "relink (Some x) y s = Inr (s\<lparr>rn := rehole fs y (rn s), t_root := (if fs = [] then y else t_root s)\<rparr>)"
proof (cases fs)
  case Nil
  with assms show ?thesis by (auto simp: relink_def access_defs)
next
  case (Cons f gs)
  show ?thesis
  proof (cases f)
    case (FL i c r)
    with Cons assms show ?thesis by (auto simp: relink_def access_defs)
  next
    case (FR l i c)
    then have "ptr l \<noteq> Some x" using Cons assms(2) by (cases l) auto
    with FR Cons assms show ?thesis by (auto simp: relink_def access_defs)
  qed
qed

text \<open>Disjointness of the parts of a tree, in the forms the rules above ask for.\<close>

lemma disjoint_parts:
  assumes "distinct (as @ x # bs @ y # cs @ ds)"
  shows "set as \<inter> set bs = {}" "set bs \<inter> set as = {}" "set as \<inter> set cs = {}" "set cs \<inter> set as = {}"
    "set as \<inter> set ds = {}" "set ds \<inter> set as = {}" "set bs \<inter> set cs = {}" "set cs \<inter> set bs = {}"
    "set bs \<inter> set ds = {}" "set ds \<inter> set bs = {}" "set cs \<inter> set ds = {}" "set ds \<inter> set cs = {}"
    "x \<notin> set as" "x \<notin> set bs" "x \<notin> set cs" "x \<notin> set ds" "y \<notin> set as" "y \<notin> set bs" "y \<notin> set cs" "y \<notin> set ds"
    "x \<noteq> y" "y \<noteq> x" "distinct as" "distinct bs" "distinct cs" "distinct ds"
  using assms by auto

lemma rotate_left_zip:
  assumes z: "zip_at s fs (Bin a x cx (Bin b y cy c))" and A: "set (addrs (plug fs (Bin a x cx (Bin b y cy c)))) \<subseteq> A"
  shows "\<exists>s'. rotate_left (Some x) s = Inr (Some y, s') \<and> zip_at s' fs (Bin (Bin a x cx b) y cy c) \<and>
    same_off A s s'"
proof -
  have d: "distinct (addrs a @ x # addrs b @ y # addrs c @ raddrs fs)" using z by (auto simp: zip_at_def)
  note dj = disjoint_parts [OF d]
  have zs: "rn s x = Some \<lparr>r_color = cx, r_left = ptr a, r_right = Some y, r_parent = up fs\<rparr>"
    "rn s y = Some \<lparr>r_color = cy, r_left = ptr b, r_right = ptr c, r_parent = Some x\<rparr>"
    "rep (rn s) (Some x) a" "rep (rn s) (Some y) b" "rep (rn s) (Some y) c" "crep (rn s) fs (Some x)"
    "t_root s = (if fs = [] then Some x else Some (faddr (last fs)))"
    using z by (simp_all add: zip_at_def)
  define s1 where "s1 = s\<lparr>rn := (rn s)(x \<mapsto> \<lparr>r_color = cx, r_left = ptr a, r_right = ptr b, r_parent = up fs\<rparr>)\<rparr>"
  define s2 where "s2 = s1\<lparr>rn := (reparent b (Some x) (rn s1))(y \<mapsto> \<lparr>r_color = cy, r_left = ptr b, r_right = ptr c, r_parent = up fs\<rparr>)\<rparr>"
  define s3 where "s3 = s2\<lparr>rn := rehole fs (Some y) (rn s2), t_root := (if fs = [] then Some y else t_root s2)\<rparr>"
  define s4 where "s4 = s3\<lparr>rn := (rn s3)(y \<mapsto> \<lparr>r_color = cy, r_left = Some x, r_right = ptr c, r_parent = up fs\<rparr>,
    x \<mapsto> \<lparr>r_color = cx, r_left = ptr a, r_right = ptr b, r_parent = Some y\<rparr>)\<rparr>"
  have 1: "adopt (Some x) (ptr b) s1 = Inr (s1\<lparr>rn := reparent b (Some x) (rn s1)\<rparr>)"
    by (rule adopt_eq [of _ "Some y"]) (use zs dj in \<open>simp add: s1_def\<close>)
  have 2: "relink (Some x) (Some y) s2 = Inr s3"
    unfolding s3_def by (rule relink_eq) (use zs dj in \<open>simp_all add: s2_def s1_def\<close>)
  have r: "rotate_left (Some x) s = Inr (Some y, s4)"
    using zs dj 1 2 by (simp add: rotate_left_def ld_at set_at s1_def s2_def s3_def s4_def)
  have "rep (reparent b (Some x) (rn s1)) (Some x) b"
    by (rule rep_reparent [of _ "Some y"]) (use zs dj in \<open>simp_all add: s1_def\<close>)
  moreover have "crep (rn s3) fs (Some y)"
    unfolding s3_def by simp (rule crep_rehole [of _ _ "Some x"], use zs dj in \<open>simp_all add: s1_def s2_def\<close>)
  ultimately have "zip_at s4 fs (Bin (Bin a x cx b) y cy c)"
    using zs(1-5,7) d dj by (auto simp: zip_at_def s4_def s3_def s2_def) (simp_all add: s1_def)
  moreover have "same_off (set (addrs (plug fs (Bin a x cx (Bin b y cy c))))) s s4"
    by (auto simp: same_off_def s1_def s2_def s3_def s4_def set_plug)
  ultimately show ?thesis using r same_off_mono [OF _ A] by blast
qed

lemma rotate_right_zip:
  assumes z: "zip_at s fs (Bin (Bin a x cx b) y cy c)" and A: "set (addrs (plug fs (Bin (Bin a x cx b) y cy c))) \<subseteq> A"
  shows "\<exists>s'. rotate_right (Some y) s = Inr (Some x, s') \<and> zip_at s' fs (Bin a x cx (Bin b y cy c)) \<and>
    same_off A s s'"
proof -
  have d: "distinct (addrs a @ x # addrs b @ y # addrs c @ raddrs fs)" using z by (auto simp: zip_at_def)
  note dj = disjoint_parts [OF d]
  have zs: "rn s y = Some \<lparr>r_color = cy, r_left = Some x, r_right = ptr c, r_parent = up fs\<rparr>"
    "rn s x = Some \<lparr>r_color = cx, r_left = ptr a, r_right = ptr b, r_parent = Some y\<rparr>"
    "rep (rn s) (Some x) a" "rep (rn s) (Some x) b" "rep (rn s) (Some y) c" "crep (rn s) fs (Some y)"
    "t_root s = (if fs = [] then Some y else Some (faddr (last fs)))"
    using z by (simp_all add: zip_at_def)
  define s1 where "s1 = s\<lparr>rn := (rn s)(y \<mapsto> \<lparr>r_color = cy, r_left = ptr b, r_right = ptr c, r_parent = up fs\<rparr>)\<rparr>"
  define s2 where "s2 = s1\<lparr>rn := (reparent b (Some y) (rn s1))(x \<mapsto> \<lparr>r_color = cx, r_left = ptr a, r_right = ptr b, r_parent = up fs\<rparr>)\<rparr>"
  define s3 where "s3 = s2\<lparr>rn := rehole fs (Some x) (rn s2), t_root := (if fs = [] then Some x else t_root s2)\<rparr>"
  define s4 where "s4 = s3\<lparr>rn := (rn s3)(x \<mapsto> \<lparr>r_color = cx, r_left = ptr a, r_right = Some y, r_parent = up fs\<rparr>,
    y \<mapsto> \<lparr>r_color = cy, r_left = ptr b, r_right = ptr c, r_parent = Some x\<rparr>)\<rparr>"
  have 1: "adopt (Some y) (ptr b) s1 = Inr (s1\<lparr>rn := reparent b (Some y) (rn s1)\<rparr>)"
    by (rule adopt_eq [of _ "Some x"]) (use zs dj in \<open>simp add: s1_def\<close>)
  have 2: "relink (Some y) (Some x) s2 = Inr s3"
    unfolding s3_def by (rule relink_eq) (use zs dj in \<open>simp_all add: s2_def s1_def\<close>)
  have r: "rotate_right (Some y) s = Inr (Some x, s4)"
    using zs dj 1 2 by (simp add: rotate_right_def ld_at set_at s1_def s2_def s3_def s4_def)
  have "rep (reparent b (Some y) (rn s1)) (Some y) b"
    by (rule rep_reparent [of _ "Some x"]) (use zs dj in \<open>simp_all add: s1_def\<close>)
  moreover have "crep (rn s3) fs (Some x)"
    unfolding s3_def by simp (rule crep_rehole [of _ _ "Some y"], use zs dj in \<open>simp_all add: s1_def s2_def\<close>)
  ultimately have "zip_at s4 fs (Bin a x cx (Bin b y cy c))"
    using zs(1-5,7) d dj by (auto simp: zip_at_def s4_def s3_def s2_def) (simp_all add: s1_def)
  moreover have "same_off (set (addrs (plug fs (Bin (Bin a x cx b) y cy c)))) s s4"
    by (auto simp: same_off_def s1_def s2_def s3_def s4_def set_plug)
  ultimately show ?thesis using r same_off_mono [OF _ A] by blast
qed

section \<open>The loop of fixup on trees\<close>

fun paint :: "color \<Rightarrow> rbt \<Rightarrow> rbt" where
  "paint c Tip = Tip"
| "paint c (Bin l i _ r) = Bin l i c r"

fun redt :: "rbt \<Rightarrow> bool" where
  "redt (Bin l i RED r) \<longleftrightarrow> True"
| "redt _ \<longleftrightarrow> False"

text \<open>
  What one round makes of the subtree at the grandparent, when \<open>t\<close> hangs below the frames of the
  parent and the grandparent: new colors if the uncle is red, else a rotation or two.
\<close>

fun recolored :: "frame \<Rightarrow> frame \<Rightarrow> rbt \<Rightarrow> rbt" where
  "recolored F (FL g cg u) t = Bin (paint BLACK (fill F t)) g RED (paint BLACK u)"
| "recolored F (FR u g cg) t = Bin (paint BLACK u) g RED (paint BLACK (fill F t))"

fun rotated :: "frame \<Rightarrow> frame \<Rightarrow> rbt \<Rightarrow> rbt" where
  "rotated (FL p cp b) (FL g cg u) t = Bin t p BLACK (Bin b g RED u)"
| "rotated (FR a p cp) (FL g cg u) (Bin l z cz r) = Bin (Bin a p cp l) z BLACK (Bin r g RED u)"
| "rotated (FR a p cp) (FR u g cg) t = Bin (Bin u g RED a) p BLACK t"
| "rotated (FL p cp b) (FR u g cg) (Bin l z cz r) = Bin (Bin u g RED l) z BLACK (Bin r p cp b)"
| "rotated F G Tip = Tip"

fun afix :: "frame list \<Rightarrow> rbt \<Rightarrow> rbt" where
  "afix (F # G # fs) t =
     (if fcolor F = BLACK then plug (F # G # fs) t
      else if redt (sib G) then afix fs (recolored F G t)
      else plug fs (rotated F G t))"
| "afix fs t = plug fs t"

lemma zip_node: "zip_at s fs (Bin l i c r) \<Longrightarrow> rn s i = Some \<lparr>r_color = c, r_left = ptr l, r_right = ptr r, r_parent = up fs\<rparr>"
  by (simp add: zip_at_def)

lemma zip_frame: "zip_at s (f # fs) t \<Longrightarrow> rn s (faddr f) = Some (frec f (ptr t) (up fs))"
  by (simp add: zip_at_def)

lemma zip_distinct: "zip_at s fs t \<Longrightarrow> distinct (addrs t @ raddrs fs)"
  by (simp add: zip_at_def)

lemma zip_color:
  assumes "zip_at s fs (Bin l i c r)" "set (addrs (plug fs (Bin l i c r))) \<subseteq> A"
  shows "\<exists>s'. set_color c' (Some i) s = Inr s' \<and> zip_at s' fs (Bin l i c' r) \<and> same_off A s s'"
proof -
  let ?s = "s\<lparr>rn := (rn s)(i \<mapsto> \<lparr>r_color = c', r_left = ptr l, r_right = ptr r, r_parent = up fs\<rparr>)\<rparr>"
  have "set_color c' (Some i) s = Inr ?s" using zip_node [OF assms(1)] by (simp add: set_at)
  moreover have "zip_at ?s fs (Bin l i c' r)" using assms(1) by (auto simp: zip_at_def)
  moreover have "same_off A s ?s" using assms(2) by (auto simp: same_off_def set_plug)
  ultimately show ?thesis by blast
qed

lemma fcolor_frec [simp]: "r_color (frec f q p) = fcolor f" "r_parent (frec f q p) = p"
  by (cases f; simp)+

lemma isred_tree: "rep (rn s) p t \<Longrightarrow> isred (ptr t) s = Inr (redt t)"
proof (cases t)
  case (Bin l i c r)
  assume "rep (rn s) p t"
  with Bin show ?thesis by (cases c) (simp_all add: isred_def ld_at)
qed (simp add: isred_def)

lemma zip_isred: "zip_at s fs t \<Longrightarrow> isred (ptr t) s = Inr (redt t)"
  using isred_tree by (auto simp: zip_at_def)

lemma zip_isred_frame: "zip_at s (f # fs) t \<Longrightarrow> isred (Some (faddr f)) s = Inr (fcolor f = RED)"
  using zip_frame [of s f fs t] by (simp add: isred_def ld_at)

lemma last_raddrs: "fs \<noteq> [] \<Longrightarrow> faddr (last fs) \<in> set (raddrs fs)"
  by (induction fs) auto

text \<open>The condition of the loop, read off the frames.\<close>

lemma cond_zip:
  assumes "zip_at s fs (Bin l z c r)"
  shows "fixup_cond (Some z) s = Inr (case fs of [] \<Rightarrow> False | f # _ \<Rightarrow> fcolor f = RED)"
proof (cases fs)
  case Nil
  with assms show ?thesis by (simp add: fixup_cond_def zip_at_def)
next
  case (Cons f gs)
  have "t_root s = Some (faddr (last fs))" "faddr (last fs) \<in> set (raddrs fs)" "z \<notin> set (raddrs fs)"
    using assms Cons last_raddrs [of fs] by (auto simp: zip_at_def)
  then have "Some z \<noteq> t_root s" by auto
  then show ?thesis
    using zip_node [OF assms] zip_isred_frame [OF assms [unfolded Cons]] Cons by (simp add: fixup_cond_def ld_at)
qed

lemma zip_up2: "zip_at s (F # G # gs) t \<longleftrightarrow> zip_at s gs (fill G (fill F t))"
  by (simp add: zip_down)

text \<open>What the body loads first: the parent, the grandparent and the uncle.\<close>

lemma body_loads:
  assumes z: "zip_at s (F # G # gs) (Bin l z c r)"
  shows "ld r_parent (Some z) s = Inr (Some (faddr F))" "ld r_parent (Some (faddr F)) s = Inr (Some (faddr G))"
    "ld r_left (Some (faddr G)) s = Inr (case G of FL _ _ _ \<Rightarrow> Some (faddr F) | FR u _ _ \<Rightarrow> ptr u)"
    "ld r_right (Some (faddr G)) s = Inr (case G of FL _ _ u \<Rightarrow> ptr u | FR _ _ _ \<Rightarrow> Some (faddr F))"
    "ld r_left (Some (faddr F)) s = Inr (case F of FL _ _ _ \<Rightarrow> Some z | FR u _ _ \<Rightarrow> ptr u)"
    "ld r_right (Some (faddr F)) s = Inr (case F of FL _ _ u \<Rightarrow> ptr u | FR _ _ _ \<Rightarrow> Some z)"
    "isred (ptr (sib G)) s = Inr (redt (sib G))"
    "ptr (sib G) \<noteq> Some (faddr F)" "ptr (sib F) \<noteq> Some z"
proof -
  have g: "rn s (faddr G) = Some (frec G (Some (faddr F)) (up gs))" and u: "rep (rn s) (Some (faddr G)) (sib G)"
    using z by (auto simp: zip_at_def)
  show "ld r_parent (Some z) s = Inr (Some (faddr F))" "ld r_parent (Some (faddr F)) s = Inr (Some (faddr G))"
    "ld r_left (Some (faddr F)) s = Inr (case F of FL _ _ _ \<Rightarrow> Some z | FR u _ _ \<Rightarrow> ptr u)"
    "ld r_right (Some (faddr F)) s = Inr (case F of FL _ _ u \<Rightarrow> ptr u | FR _ _ _ \<Rightarrow> Some z)"
    using zip_node [OF z] zip_frame [OF z] by (simp_all add: ld_at split: frame.split)
  show "ld r_left (Some (faddr G)) s = Inr (case G of FL _ _ _ \<Rightarrow> Some (faddr F) | FR u _ _ \<Rightarrow> ptr u)"
    "ld r_right (Some (faddr G)) s = Inr (case G of FL _ _ u \<Rightarrow> ptr u | FR _ _ _ \<Rightarrow> Some (faddr F))"
    using g by (simp_all add: ld_at split: frame.split)
  show "isred (ptr (sib G)) s = Inr (redt (sib G))" using u by (rule isred_tree)
  show "ptr (sib G) \<noteq> Some (faddr F)" "ptr (sib F) \<noteq> Some z"
    using zip_distinct [OF z] by (cases "sib G"; auto; fail) (use zip_distinct [OF z] in \<open>cases "sib F"; auto\<close>)
qed

lemma body_recolor:
  assumes z: "zip_at s (F # G # gs) (Bin l z c r)" and u: "redt (sib G)" and A: "set (addrs (plug (F # G # gs) (Bin l z c r))) \<subseteq> A"
  shows "\<exists>s'. fixup_body (Some z) s = Inr (Some (faddr G), s') \<and> zip_at s' gs (recolored F G (Bin l z c r)) \<and> same_off A s s'"
proof -
  let ?t = "Bin l z c r"
  obtain pl pc pr where P: "fill F ?t = Bin pl (faddr F) pc pr" by (cases F) auto
  obtain ul ui ur where U: "sib G = Bin ul ui RED ur" using u by (cases "sib G" rule: redt.cases) auto
  let ?P = "Bin pl (faddr F) BLACK pr" let ?U = "Bin ul ui BLACK ur"
  define H where "H = (case G of FL g cg _ \<Rightarrow> FR ?P g cg | FR _ g cg \<Rightarrow> FL g cg ?P)"
  have a: "set (addrs (Bin pl (faddr F) pc pr)) \<subseteq> A" "faddr G \<in> A" "set (addrs (sib G)) \<subseteq> A" "set (raddrs gs) \<subseteq> A"
    using A P by (cases F; cases G; auto simp: set_plug)+
  have "zip_at s (G # gs) (fill F ?t)" using z by (simp add: zip_down [symmetric])
  then obtain s1 where s1: "set_color BLACK (Some (faddr F)) s = Inr s1" "zip_at s1 (G # gs) ?P" "same_off A s s1"
    using zip_color [of s "G # gs" pl "faddr F" pc pr A BLACK] P a by (auto simp: set_plug)
  have "zip_at s1 (H # gs) (sib G)" using s1(2) unfolding zip_down [symmetric] by (cases G) (simp_all add: H_def)
  moreover have "set (addrs (plug (H # gs) (sib G))) \<subseteq> A" using a unfolding H_def by (cases G) (auto simp: set_plug)
  ultimately obtain s2 where s2: "set_color BLACK (Some ui) s1 = Inr s2" "zip_at s2 (H # gs) ?U" "same_off A s1 s2"
    using zip_color [of s1 "H # gs" ul ui RED ur A BLACK] unfolding U by blast
  obtain hl hr where h: "fill H ?U = Bin hl (faddr G) (fcolor G) hr" "recolored F G ?t = Bin hl (faddr G) RED hr"
    using P U by (cases G) (auto simp: H_def)
  have "zip_at s2 gs (fill H ?U)" using s2(2) by (simp add: zip_down)
  moreover have "set (addrs (plug gs (fill H ?U))) \<subseteq> A" using a U unfolding H_def by (cases G) (auto simp: set_plug)
  ultimately obtain s3 where s3: "set_color RED (Some (faddr G)) s2 = Inr s3" "zip_at s3 gs (recolored F G ?t)" "same_off A s2 s3"
    using zip_color [of s2 gs hl "faddr G" "fcolor G" hr A RED] unfolding h by blast
  have "recolor (Some (faddr F)) (ptr (sib G)) (Some (faddr G)) s = Inr s3" using s1(1) s2(1) s3(1) U by (simp add: recolor_def)
  then have "fixup_body (Some z) s = Inr (Some (faddr G), s3)"
    using body_loads [OF z] u by (cases G) (auto simp: fixup_body_def)
  then show ?thesis using s3(2) same_off_trans [OF same_off_trans [OF s1(3) s2(3)] s3(3)] by blast
qed

text \<open>The last three statements of a round: black parent, red grandparent, rotation.\<close>

lemma finish_right:
  assumes z: "zip_at s gs (Bin (Bin a p cp b) g cg u)" and A: "set (addrs (plug gs (Bin (Bin a p cp b) g cg u))) \<subseteq> A"
  shows "\<exists>s'. bind_result (set_color BLACK (Some p) s) (\<lambda>s. bind_result (set_color RED (Some g) s) (\<lambda>s.
      bind_result (rotate_right (Some g) s) (\<lambda>(_, s). Inr (q, s)))) = Inr (q, s') \<and>
    zip_at s' gs (Bin a p BLACK (Bin b g RED u)) \<and> same_off A s s'"
proof -
  have "zip_at s (FL g cg u # gs) (Bin a p cp b)" using z by (simp add: zip_down [symmetric])
  then obtain s1 where s1: "set_color BLACK (Some p) s = Inr s1" "zip_at s1 (FL g cg u # gs) (Bin a p BLACK b)" "same_off A s s1"
    using zip_color [of s "FL g cg u # gs" a p cp b A BLACK] A by (auto simp: set_plug)
  then obtain s2 where s2: "set_color RED (Some g) s1 = Inr s2" "zip_at s2 gs (Bin (Bin a p BLACK b) g RED u)" "same_off A s1 s2"
    using zip_color [of s1 gs "Bin a p BLACK b" g cg u A RED] A by (auto simp: set_plug zip_down [symmetric])
  then obtain s3 where s3: "rotate_right (Some g) s2 = Inr (Some p, s3)" "zip_at s3 gs (Bin a p BLACK (Bin b g RED u))" "same_off A s2 s3"
    using rotate_right_zip [of s2 gs a p BLACK b g RED u A] A by (auto simp: set_plug)
  show ?thesis using s1 s2 s3 same_off_trans [OF same_off_trans [OF s1(3) s2(3)] s3(3)] by simp
qed

lemma finish_left:
  assumes z: "zip_at s gs (Bin u g cg (Bin a p cp b))" and A: "set (addrs (plug gs (Bin u g cg (Bin a p cp b)))) \<subseteq> A"
  shows "\<exists>s'. bind_result (set_color BLACK (Some p) s) (\<lambda>s. bind_result (set_color RED (Some g) s) (\<lambda>s.
      bind_result (rotate_left (Some g) s) (\<lambda>(_, s). Inr (q, s)))) = Inr (q, s') \<and>
    zip_at s' gs (Bin (Bin u g RED a) p BLACK b) \<and> same_off A s s'"
proof -
  have "zip_at s (FR u g cg # gs) (Bin a p cp b)" using z by (simp add: zip_down [symmetric])
  then obtain s1 where s1: "set_color BLACK (Some p) s = Inr s1" "zip_at s1 (FR u g cg # gs) (Bin a p BLACK b)" "same_off A s s1"
    using zip_color [of s "FR u g cg # gs" a p cp b A BLACK] A by (auto simp: set_plug)
  then obtain s2 where s2: "set_color RED (Some g) s1 = Inr s2" "zip_at s2 gs (Bin u g RED (Bin a p BLACK b))" "same_off A s1 s2"
    using zip_color [of s1 gs u g cg "Bin a p BLACK b" A RED] A by (auto simp: set_plug zip_down [symmetric])
  then obtain s3 where s3: "rotate_left (Some g) s2 = Inr (Some p, s3)" "zip_at s3 gs (Bin (Bin u g RED a) p BLACK b)" "same_off A s2 s3"
    using rotate_left_zip [of s2 gs u g RED a p BLACK b A] A by (auto simp: set_plug)
  show ?thesis using s1 s2 s3 same_off_trans [OF same_off_trans [OF s1(3) s2(3)] s3(3)] by simp
qed

text \<open>After that round the parent is black, so the loop ends.\<close>

lemma cond_endL: "zip_at s gs (Bin (Bin a x c b) p BLACK d) \<Longrightarrow> fixup_cond (Some x) s = Inr False"
  using cond_zip [of s "FL p BLACK d # gs" a x c b] by (simp add: zip_down [symmetric])

lemma cond_endR: "zip_at s gs (Bin d p BLACK (Bin a x c b)) \<Longrightarrow> fixup_cond (Some x) s = Inr False"
  using cond_zip [of s "FR d p BLACK # gs" a x c b] by (simp add: zip_down [symmetric])

definition ends_with :: "nat set \<Rightarrow> frame list \<Rightarrow> rbt \<Rightarrow> rbtree \<Rightarrow> (nat option \<times> rbtree) result \<Rightarrow> bool" where
  "ends_with A gs t s r \<longleftrightarrow> (\<exists>q s'. r = Inr (q, s') \<and> zip_at s' gs t \<and> same_off A s s' \<and> fixup_cond q s' = Inr False)"

lemma body_ll:
  assumes z: "zip_at s (FL p cp b # FL g cg u # gs) (Bin l z c r)" and u: "\<not> redt u"
    and A: "set (addrs (plug (FL p cp b # FL g cg u # gs) (Bin l z c r))) \<subseteq> A"
  shows "ends_with A gs (Bin (Bin l z c r) p BLACK (Bin b g RED u)) s (fixup_body (Some z) s)"
proof -
  have "zip_at s gs (Bin (Bin (Bin l z c r) p cp b) g cg u)" using z by (simp add: zip_down [symmetric])
  from finish_right [OF this, of A "Some z"] A obtain s' where
    "bind_result (set_color BLACK (Some p) s) (\<lambda>s. bind_result (set_color RED (Some g) s) (\<lambda>s.
       bind_result (rotate_right (Some g) s) (\<lambda>(_, s). Inr (Some z, s)))) = Inr (Some z, s')"
    "zip_at s' gs (Bin (Bin l z c r) p BLACK (Bin b g RED u))" "same_off A s s'" by auto
  then show ?thesis
    using body_loads [OF z] u by (auto simp: fixup_body_def ends_with_def intro: cond_endL cond_endR)
qed

lemma body_rr:
  assumes z: "zip_at s (FR a p cp # FR u g cg # gs) (Bin l z c r)" and u: "\<not> redt u"
    and A: "set (addrs (plug (FR a p cp # FR u g cg # gs) (Bin l z c r))) \<subseteq> A"
  shows "ends_with A gs (Bin (Bin u g RED a) p BLACK (Bin l z c r)) s (fixup_body (Some z) s)"
proof -
  have "zip_at s gs (Bin u g cg (Bin a p cp (Bin l z c r)))" using z by (simp add: zip_down [symmetric])
  from finish_left [OF this, of A "Some z"] A obtain s' where
    "bind_result (set_color BLACK (Some p) s) (\<lambda>s. bind_result (set_color RED (Some g) s) (\<lambda>s.
       bind_result (rotate_left (Some g) s) (\<lambda>(_, s). Inr (Some z, s)))) = Inr (Some z, s')"
    "zip_at s' gs (Bin (Bin u g RED a) p BLACK (Bin l z c r))" "same_off A s s'" by auto
  then show ?thesis
    using body_loads [OF z] u by (auto simp: fixup_body_def ends_with_def intro: cond_endL cond_endR)
qed

lemma body_lr:
  assumes z: "zip_at s (FR a p cp # FL g cg u # gs) (Bin l z c r)" and u: "\<not> redt u"
    and A: "set (addrs (plug (FR a p cp # FL g cg u # gs) (Bin l z c r))) \<subseteq> A"
  shows "ends_with A gs (Bin (Bin a p cp l) z BLACK (Bin r g RED u)) s (fixup_body (Some z) s)"
proof -
  have "zip_at s (FL g cg u # gs) (Bin a p cp (Bin l z c r))" using z by (simp add: zip_down [symmetric])
  from rotate_left_zip [OF this, of A] A obtain s1 where s1: "rotate_left (Some p) s = Inr (Some z, s1)"
    "zip_at s1 (FL g cg u # gs) (Bin (Bin a p cp l) z c r)" "same_off A s s1" by (auto simp: set_plug)
  have z1: "zip_at s1 (FL z c r # FL g cg u # gs) (Bin a p cp l)" "zip_at s1 gs (Bin (Bin (Bin a p cp l) z c r) g cg u)"
    using s1(2) by (simp_all add: zip_down [symmetric])
  from finish_right [OF z1(2), of A "Some p"] A obtain s' where
    "bind_result (set_color BLACK (Some z) s1) (\<lambda>s. bind_result (set_color RED (Some g) s) (\<lambda>s.
       bind_result (rotate_right (Some g) s) (\<lambda>(_, s). Inr (Some p, s)))) = Inr (Some p, s')"
    "zip_at s' gs (Bin (Bin a p cp l) z BLACK (Bin r g RED u))" "same_off A s1 s'" by (auto simp: set_plug)
  then show ?thesis
    using body_loads [OF z] body_loads(1,2) [OF z1(1)] u s1(1) same_off_trans [OF s1(3)]
    by (auto simp: fixup_body_def ends_with_def intro: cond_endL cond_endR)
qed

lemma body_rl:
  assumes z: "zip_at s (FL p cp b # FR u g cg # gs) (Bin l z c r)" and u: "\<not> redt u"
    and A: "set (addrs (plug (FL p cp b # FR u g cg # gs) (Bin l z c r))) \<subseteq> A"
  shows "ends_with A gs (Bin (Bin u g RED l) z BLACK (Bin r p cp b)) s (fixup_body (Some z) s)"
proof -
  have "zip_at s (FR u g cg # gs) (Bin (Bin l z c r) p cp b)" using z by (simp add: zip_down [symmetric])
  from rotate_right_zip [OF this, of A] A obtain s1 where s1: "rotate_right (Some p) s = Inr (Some z, s1)"
    "zip_at s1 (FR u g cg # gs) (Bin l z c (Bin r p cp b))" "same_off A s s1" by (auto simp: set_plug)
  have z1: "zip_at s1 (FR l z c # FR u g cg # gs) (Bin r p cp b)" "zip_at s1 gs (Bin u g cg (Bin l z c (Bin r p cp b)))"
    using s1(2) by (simp_all add: zip_down [symmetric])
  from finish_left [OF z1(2), of A "Some p"] A obtain s' where
    "bind_result (set_color BLACK (Some z) s1) (\<lambda>s. bind_result (set_color RED (Some g) s) (\<lambda>s.
       bind_result (rotate_left (Some g) s) (\<lambda>(_, s). Inr (Some p, s)))) = Inr (Some p, s')"
    "zip_at s' gs (Bin (Bin u g RED l) z BLACK (Bin r p cp b))" "same_off A s1 s'" by (auto simp: set_plug)
  then show ?thesis
    using body_loads [OF z] body_loads(1,2) [OF z1(1)] u s1(1) same_off_trans [OF s1(3)]
    by (auto simp: fixup_body_def ends_with_def intro: cond_endL cond_endR)
qed

lemma body_rotate:
  assumes "zip_at s (F # G # gs) (Bin l z c r)" "\<not> redt (sib G)" "set (addrs (plug (F # G # gs) (Bin l z c r))) \<subseteq> A"
  shows "ends_with A gs (rotated F G (Bin l z c r)) s (fixup_body (Some z) s)"
  using assms body_ll body_lr body_rl body_rr by (cases F; cases G) (simp_all del: plug.simps)

lemma fixup_loop_ends:
  "fixup_cond z s = Inr False \<Longrightarrow> fixup_loop z s = Some (Inr s)"
  "fixup_cond z s = Inr True \<Longrightarrow> fixup_body z s = Inr (z', s') \<Longrightarrow> fixup_loop z s = fixup_loop z' s'"
  by (simp_all add: fixup_loop.simps [of z s])

lemma recolored_bin: "\<exists>l r. recolored F G t = Bin l (faddr G) RED r"
  by (cases G) auto

lemma set_recolored: "set (addrs (recolored F G t)) = set (addrs (fill G (fill F t)))"
  by (cases F; cases G; cases t; cases "sib G") auto

text \<open>The loop returns and leaves the tree that \<open>afix\<close> computes.\<close>

lemma fixup_loop_zip:
  assumes "zip_at s fs (Bin l z RED r)" "fs \<noteq> [] \<Longrightarrow> fcolor (last fs) = BLACK" "set (addrs (plug fs (Bin l z RED r))) \<subseteq> A"
  shows "\<exists>s'. fixup_loop (Some z) s = Some (Inr s') \<and> holds s' (afix fs (Bin l z RED r)) \<and> same_off A s s'"
  using assms
proof (induction "length fs" arbitrary: fs l z r s rule: less_induct)
  case less
  note z = less.prems(1)
  consider "fs = []" | F where "fs = [F]" | F G gs where "fs = F # G # gs" by (metis neq_Nil_conv)
  then show ?case
  proof cases
    case 1
    then show ?thesis using cond_zip [OF z] z fixup_loop_ends(1) by (auto simp: holds_zip same_off_def)
  next
    case 2
    then have "fixup_cond (Some z) s = Inr False" using cond_zip [OF z] less.prems(2) by auto
    moreover have "holds s (plug fs (Bin l z RED r))" using z by (simp only: holds_plug)
    ultimately show ?thesis using 2 fixup_loop_ends(1) by (auto simp: same_off_def)
  next
    case (3 F G gs)
    show ?thesis
    proof (cases "fcolor F")
      case BLACK
      then have "fixup_cond (Some z) s = Inr False" using cond_zip [OF z] 3 by auto
      moreover have "holds s (plug fs (Bin l z RED r))" using z by (simp only: holds_plug)
      ultimately show ?thesis using 3 BLACK fixup_loop_ends(1) by (auto simp: same_off_def)
    next
      case RED
      then have c: "fixup_cond (Some z) s = Inr True" using cond_zip [OF z] 3 by auto
      show ?thesis
      proof (cases "redt (sib G)")
        case True
        obtain s1 where s1: "fixup_body (Some z) s = Inr (Some (faddr G), s1)" "zip_at s1 gs (recolored F G (Bin l z RED r))" "same_off A s s1"
          using body_recolor [OF z [unfolded 3] True] less.prems(3) 3 by blast
        obtain l' r' where b: "recolored F G (Bin l z RED r) = Bin l' (faddr G) RED r'" using recolored_bin by blast
        have "set (addrs (plug gs (recolored F G (Bin l z RED r)))) \<subseteq> A" using less.prems(3) 3 by (simp add: set_plug set_recolored)
        then obtain s' where "fixup_loop (Some (faddr G)) s1 = Some (Inr s')" "holds s' (afix gs (recolored F G (Bin l z RED r)))" "same_off A s1 s'"
          using less.hyps [of gs s1 l' "faddr G" r'] s1(2) less.prems(2) 3 unfolding b by (auto split: if_splits)
        then show ?thesis using 3 RED True fixup_loop_ends(2) [OF c s1(1)] same_off_trans [OF s1(3)] by auto
      next
        case False
        have "ends_with A gs (rotated F G (Bin l z RED r)) s (fixup_body (Some z) s)"
          using body_rotate [OF z [unfolded 3] False] less.prems(3) 3 by blast
        then obtain q s1 where s1: "fixup_body (Some z) s = Inr (q, s1)" "zip_at s1 gs (rotated F G (Bin l z RED r))" "same_off A s s1"
          "fixup_cond q s1 = Inr False" by (auto simp: ends_with_def)
        then have "fixup_loop (Some z) s = Some (Inr s1)" using fixup_loop_ends(2) [OF c s1(1)] fixup_loop_ends(1) by simp
        then show ?thesis using 3 RED False s1(2,3) by (auto simp: holds_plug)
      qed
    qed
  qed
qed

section \<open>Colors and heights\<close>

primrec invc :: "rbt \<Rightarrow> bool" where
  "invc Tip \<longleftrightarrow> True"
| "invc (Bin l i c r) \<longleftrightarrow> (c = RED \<longrightarrow> \<not> redt l \<and> \<not> redt r) \<and> invc l \<and> invc r"

primrec bheight :: "rbt \<Rightarrow> nat" where
  "bheight Tip = 0"
| "bheight (Bin l i c r) = bheight l + (if c = BLACK then 1 else 0)"

primrec invh :: "rbt \<Rightarrow> bool" where
  "invh Tip \<longleftrightarrow> True"
| "invh (Bin l i c r) \<longleftrightarrow> bheight l = bheight r \<and> invh l \<and> invh r"

definition rb :: "rbt \<Rightarrow> bool" where
  "rb t \<longleftrightarrow> invc t \<and> invh t \<and> \<not> redt t"

text \<open>The same for frames, around a hole for a tree of black height \<open>n\<close>.\<close>

primrec cinvc :: "frame list \<Rightarrow> bool" where
  "cinvc [] \<longleftrightarrow> True"
| "cinvc (f # fs) \<longleftrightarrow> invc (sib f) \<and> cinvc fs \<and>
     (fcolor f = RED \<longrightarrow> \<not> redt (sib f) \<and> (case fs of [] \<Rightarrow> True | g # _ \<Rightarrow> fcolor g = BLACK))"

primrec cinvh :: "frame list \<Rightarrow> nat \<Rightarrow> bool" where
  "cinvh [] n \<longleftrightarrow> True"
| "cinvh (f # fs) n \<longleftrightarrow> bheight (sib f) = n \<and> invh (sib f) \<and> cinvh fs (n + (if fcolor f = BLACK then 1 else 0))"

lemma redt_paint [simp]: "redt (paint BLACK t) \<longleftrightarrow> False"
  by (cases t) auto

lemma redt_Bin [simp]: "redt (Bin l i c r) \<longleftrightarrow> c = RED"
  by (cases c) auto

lemma redt_fill [simp]: "redt (fill f t) \<longleftrightarrow> fcolor f = RED"
  by (cases f) auto

lemma paint_inv [simp]: "invc t \<Longrightarrow> invc (paint BLACK t)" "invh (paint c t) = invh t" "addrs (paint c t) = addrs t" "ptr (paint c t) = ptr t"
  by (cases t; simp)+

lemma bheight_paint: "redt t \<Longrightarrow> bheight (paint BLACK t) = Suc (bheight t)"
  by (cases t) auto

lemma invc_plug: "invc (plug fs t) \<longleftrightarrow> invc t \<and> cinvc fs \<and> (redt t \<longrightarrow> (case fs of [] \<Rightarrow> True | f # _ \<Rightarrow> fcolor f = BLACK))"
proof (induction fs arbitrary: t)
  case (Cons f fs)
  show ?case unfolding plug.simps Cons by (cases f; cases "fcolor f") auto
qed simp

lemma invh_plug: "invh (plug fs t) \<longleftrightarrow> invh t \<and> cinvh fs (bheight t)"
proof (induction fs arbitrary: t)
  case (Cons f fs)
  show ?case unfolding plug.simps Cons by (cases f) auto
qed simp

lemma addrs_plug_cong: "addrs t = addrs u \<Longrightarrow> addrs (plug fs t) = addrs (plug fs u)"
proof (induction fs arbitrary: t u)
  case (Cons f fs)
  then show ?case by (cases f) auto
qed simp

lemma addrs_recolored: "addrs (recolored F G t) = addrs (fill G (fill F t))"
  by (cases F; cases G) auto

lemma addrs_rotated: "t \<noteq> Tip \<Longrightarrow> addrs (rotated F G t) = addrs (fill G (fill F t))"
  by (cases F; cases G; cases t) auto

lemma addrs_afix: "t \<noteq> Tip \<Longrightarrow> addrs (afix fs t) = addrs (plug fs t)"
proof (induction fs t rule: afix.induct)
  case (1 F G fs t)
  have n: "recolored F G t \<noteq> Tip" by (cases G) auto
  show ?case
    using 1(1) [OF _ _ n] addrs_plug_cong [OF addrs_recolored] addrs_plug_cong [OF addrs_rotated [OF 1(2)]] by simp
qed auto

lemma afix_inv:
  assumes "invc t" "invh t" "redt t" "cinvc fs" "cinvh fs (bheight t)" "fs \<noteq> [] \<Longrightarrow> fcolor (last fs) = BLACK"
  shows "invc (afix fs t) \<and> invh (afix fs t)"
  using assms
proof (induction fs t rule: afix.induct [case_names two none one])
  case (two F G fs t)
  note 1 = two
  show ?case
  proof (cases "fcolor F")
    case BLACK
    then show ?thesis using 1 by (simp add: invc_plug invh_plug del: plug.simps)
  next
    case RED
    then have G: "fcolor G = BLACK" using 1(5) by auto
    show ?thesis
    proof (cases "redt (sib G)")
      case True
      have "invc (recolored F G t)" "invh (recolored F G t)" "redt (recolored F G t)" "bheight (recolored F G t) = Suc (bheight t)"
        using 1(2-6) RED True G by (cases F; cases G; auto simp: bheight_paint; fail)+
      then show ?thesis using 1(1,5-7) RED True G by (auto split: if_splits)
    next
      case False
      obtain l z r where t: "t = Bin l z RED r" using 1(4) by (cases t rule: redt.cases) auto
      have "invc (rotated F G t)" "invh (rotated F G t)" "\<not> redt (rotated F G t)" "bheight (rotated F G t) = Suc (bheight t)"
        using 1(2-6) RED False G unfolding t by (cases F; cases G; auto; fail)+
      then show ?thesis using 1(5,6) RED False G by (auto simp: invc_plug invh_plug)
    qed
  qed
next
  case (one v t)
  then show ?case by (cases v) auto
qed simp

section \<open>Linking and fixing up\<close>

text \<open>The place a list of frames leaves open.\<close>

definition place :: "frame list \<Rightarrow> loc" where
  "place fs = (case fs of [] \<Rightarrow> LRoot | FL i _ _ # _ \<Rightarrow> LLeft i | FR _ i _ # _ \<Rightarrow> LRight i)"

lemma ld_place: "zip_at s fs t \<Longrightarrow> ld_loc (place fs) s = Inr (ptr t)"
  by (auto simp: place_def ld_loc_def ld_at zip_at_def split: list.split frame.split)

lemma st_place:
  assumes "zip_at s fs t"
  shows "st_loc q (place fs) s = Inr (s\<lparr>rn := rehole fs q (rn s), t_root := (if fs = [] then q else t_root s)\<rparr>)"
  using assms by (cases fs) (auto simp: place_def st_loc_def set_at zip_at_def split: frame.split)

lemma link_zip:
  assumes z: "zip_at s fs Tip" and n: "n \<notin> set (raddrs fs)" "rn s n = Some m"
  shows "\<exists>s'. rbtree_link (Some n) (place fs) (up fs) s = Inr s' \<and> zip_at s' fs (Bin Tip n RED Tip) \<and>
    same_off (insert n (set (raddrs fs))) s s'"
proof -
  define s1 where "s1 = s\<lparr>rn := (rn s)(n \<mapsto> \<lparr>r_color = RED, r_left = None, r_right = None, r_parent = up fs\<rparr>)\<rparr>"
  define s2 where "s2 = s1\<lparr>rn := rehole fs (Some n) (rn s1), t_root := (if fs = [] then Some n else t_root s1)\<rparr>"
  have z1: "zip_at s1 fs Tip" using z n by (simp add: s1_def zip_at_def)
  have "rbtree_link (Some n) (place fs) (up fs) s = st_loc (Some n) (place fs) s1"
    using ld_place [OF z] n(2) by (cases m) (simp add: rbtree_link_def set_at s1_def)
  then have "rbtree_link (Some n) (place fs) (up fs) s = Inr s2" using st_place [OF z1] by (simp add: s2_def)
  moreover have "zip_at s2 fs (Bin Tip n RED Tip)"
    using z1 n crep_rehole [of "rn s1" fs None "Some n"] by (auto simp: zip_at_def s2_def) (simp_all add: s1_def)
  moreover have "same_off (insert n (set (raddrs fs))) s s2" by (auto simp: same_off_def s1_def s2_def)
  ultimately show ?thesis by blast
qed

lemma last_black: "\<not> redt (plug fs t) \<Longrightarrow> fs \<noteq> [] \<Longrightarrow> fcolor (last fs) = BLACK"
proof (induction fs arbitrary: t)
  case (Cons f fs)
  then show ?case using color.exhaust by (cases fs) auto
qed simp

lemma fixup_zip:
  assumes "zip_at s fs (Bin l z RED r)" "fs \<noteq> [] \<Longrightarrow> fcolor (last fs) = BLACK" "set (addrs (plug fs (Bin l z RED r))) \<subseteq> A"
  shows "\<exists>s'. rbtree_fixup (Some z) s = Some (Inr s') \<and> holds s' (paint BLACK (afix fs (Bin l z RED r))) \<and> same_off A s s'"
proof -
  let ?t = "afix fs (Bin l z RED r)"
  obtain s1 where s1: "fixup_loop (Some z) s = Some (Inr s1)" "holds s1 ?t" "same_off A s s1"
    using fixup_loop_zip [OF assms] by blast
  have a: "set (addrs ?t) \<subseteq> A" using assms(3) by (simp add: addrs_afix)
  have "z \<in> set (addrs ?t)" by (simp add: addrs_afix set_plug)
  then obtain l' i c r' where t: "?t = Bin l' i c r'" by (cases ?t) auto
  then obtain s2 where s2: "set_color BLACK (Some i) s1 = Inr s2" "zip_at s2 [] (Bin l' i BLACK r')" "same_off A s1 s2"
    using zip_color [of s1 "[]" l' i c r' A BLACK] s1(2) a by (auto simp: holds_zip)
  have "t_root s1 = Some i" using s1(2) t by (simp add: holds_def)
  then have "rbtree_fixup (Some z) s = Some (Inr s2)" using s1(1) s2(1) by (simp add: rbtree_fixup_def)
  moreover have "holds s2 (paint BLACK ?t)" using s2(2) t by (simp add: holds_zip)
  ultimately show ?thesis using same_off_trans [OF s1(3) s2(3)] by blast
qed

text \<open>Linking a node and fixing the colours, as the users of the library do it.\<close>

lemma link_fixup_rb:
  assumes "holds s (plug fs Tip)" "rb (plug fs Tip)" "rn s n = Some m" "n \<notin> set (addrs (plug fs Tip))"
  shows "\<exists>s1 s2 t. rbtree_link (Some n) (place fs) (up fs) s = Inr s1 \<and> rbtree_fixup (Some n) s1 = Some (Inr s2) \<and>
    holds s2 t \<and> rb t \<and> addrs t = addrs (plug fs (Bin Tip n RED Tip)) \<and>
    same_off (insert n (set (addrs (plug fs Tip)))) s s2"
proof -
  let ?A = "insert n (set (addrs (plug fs Tip)))"
  let ?n = "Bin Tip n RED Tip"
  have f: "n \<notin> set (raddrs fs)" "insert n (set (raddrs fs)) = ?A" using assms(4) by (auto simp: set_plug)
  obtain s1 where s1: "rbtree_link (Some n) (place fs) (up fs) s = Inr s1" "zip_at s1 fs ?n" "same_off ?A s s1"
    using link_zip [OF assms(1) [unfolded holds_plug] f(1) assms(3)] f(2) by auto
  have b: "fs \<noteq> [] \<Longrightarrow> fcolor (last fs) = BLACK" using last_black assms(2) by (auto simp: rb_def)
  obtain s2 where s2: "rbtree_fixup (Some n) s1 = Some (Inr s2)" "holds s2 (paint BLACK (afix fs ?n))" "same_off ?A s1 s2"
    using fixup_zip [OF s1(2) b, of ?A] by (auto simp: set_plug)
  have "cinvc fs" "cinvh fs 0" using assms(2) by (auto simp: rb_def invc_plug invh_plug)
  then have "rb (paint BLACK (afix fs ?n))" using afix_inv [of ?n fs] b by (simp add: rb_def)
  then show ?thesis using s1(1) s2 same_off_trans [OF s1(3) s2(3)] by (auto simp: addrs_afix)
qed

text \<open>
  C16. Linking a node at a free place of a red-black tree and calling \<open>rbtree_fixup\<close> gives a red-black
  tree again: the loop returns, no null pointer is followed, the nodes from left to right are the old ones with the
  new one at its place, parent pointers agree with the children, no red node has a red child, all
  paths have the same number of black nodes, the root is black, and nothing outside the tree changes.
\<close>

theorem link_fixup_balanced:
  assumes "holds s (plug fs Tip)" "rb (plug fs Tip)" "rn s n = Some m" "n \<notin> set (addrs (plug fs Tip))"
  shows "\<exists>s1 s2 t. rbtree_link (Some n) (place fs) (up fs) s = Inr s1 \<and> rbtree_fixup (Some n) s1 = Some (Inr s2) \<and>
    holds s2 t \<and> rb t \<and> addrs t = addrs (plug fs (Bin Tip n RED Tip)) \<and>
    same_off (insert n (set (addrs (plug fs Tip)))) s s2"
  using assms by (rule link_fixup_rb)

text \<open>A red-black tree is never much deeper than a perfectly balanced one.\<close>

primrec depth :: "rbt \<Rightarrow> nat" where
  "depth Tip = 0"
| "depth (Bin l i c r) = Suc (max (depth l) (depth r))"

lemma depth_bheight: "invc t \<Longrightarrow> invh t \<Longrightarrow> depth t \<le> 2 * bheight t + (if redt t then 1 else 0)"
proof (induction t)
  case (Bin l i c r)
  then show ?case using color.exhaust [of c] by (auto split: if_splits)
qed simp

lemma bheight_size: "invh t \<Longrightarrow> 2 ^ bheight t \<le> length (addrs t) + 1"
proof (induction t)
  case (Bin l i c r)
  then have "2 ^ bheight l \<le> length (addrs l) + 1" "2 ^ bheight l \<le> length (addrs r) + 1" by auto
  then show ?case by (cases c) auto
qed simp

lemma balanced_depth:
  assumes "holds s t" "rb t"
  shows "2 ^ (depth t div 2) \<le> card (set (addrs t)) + 1"
proof -
  have "depth t \<le> 2 * bheight t" using depth_bheight [of t] assms(2) by (auto simp: rb_def)
  then have "(2::nat) ^ (depth t div 2) \<le> 2 ^ bheight t" by (intro power_increasing) auto
  also have "\<dots> \<le> length (addrs t) + 1" using bheight_size assms(2) by (simp add: rb_def)
  finally show ?thesis using distinct_card [of "addrs t"] assms(1) by (simp add: holds_def)
qed

section \<open>Growing a tree\<close>

text \<open>
  The descent of a search, as the users of the library write it: from a node to its left or right child until the pointer is null.
  The directions are the answers of the comparisons.
\<close>

fun descend :: "bool list \<Rightarrow> nat option \<Rightarrow> rbtree \<Rightarrow> nat option result" where
  "descend ds None s = Inr None"
| "descend [] (Some i) s = Inr (Some i)"
| "descend (d # ds) (Some i) s = bind_result (ld (if d then r_right else r_left) (Some i) s) (\<lambda>q. descend ds q s)"

text \<open>Nodes are linked at places where the tree has a null pointer, one after the other, and the colours are fixed after each of them.\<close>

inductive grow :: "rbtree \<times> nat set \<Rightarrow> rbtree \<times> nat set \<Rightarrow> bool" where
  grow: "holds s (plug fs Tip) \<Longrightarrow> rn s n = Some m \<Longrightarrow> n \<notin> ns \<Longrightarrow> rbtree_link (Some n) (place fs) (up fs) s = Inr s1 \<Longrightarrow>
    rbtree_fixup (Some n) s1 = Some (Inr s2) \<Longrightarrow> grow (s, ns) (s2, insert n ns)"

definition rb_none :: "rbtree \<times> nat set \<Rightarrow> bool" where
  "rb_none p \<longleftrightarrow> t_root (fst p) = None \<and> snd p = {}"

definition rb_good :: "rbtree \<times> nat set \<Rightarrow> bool" where
  "rb_good p \<longleftrightarrow> (\<exists>t. holds (fst p) t \<and> rb t \<and> set (addrs t) = snd p)"

lemma rep_unique: "rep m p t \<Longrightarrow> rep m p' t' \<Longrightarrow> ptr t = ptr t' \<Longrightarrow> t = t'"
proof (induction t arbitrary: t' p p')
  case Tip
  then show ?case by (cases t') auto
next
  case (Bin l i c r)
  then obtain l' c' r' where "t' = Bin l' i c' r'" by (cases t') auto
  then show ?case using Bin by auto
qed

lemma holds_unique: "holds s t \<Longrightarrow> holds s t' \<Longrightarrow> t = t'"
  using rep_unique by (metis holds_def)

lemma addrs_hole: "set (addrs (plug fs (Bin Tip n c Tip))) = insert n (set (addrs (plug fs Tip)))"
  by (auto simp: set_plug)

interpretation growing: keeps rb_none grow rb_good
proof
  show "rb_good p" if "rb_none p" for p
    using that by (cases p) (auto simp: rb_none_def rb_good_def holds_def rb_def intro!: exI [of _ Tip])
  show "rb_good q" if "grow p q" "rb_good p" for p q
    using that
  proof cases
    case (grow s fs n m ns s1 s2)
    have g: "rb (plug fs Tip)" "set (addrs (plug fs Tip)) = ns" using \<open>rb_good p\<close> grow(1,3) holds_unique by (auto simp: rb_good_def)
    then show ?thesis
      using link_fixup_rb [OF grow(3) g(1) grow(4)] grow by (auto simp: rb_good_def addrs_hole)
  qed
qed

lemma descend_depth:
  assumes "rep (rn s) p t"
  shows "\<exists>q. descend ds (ptr t) s = Inr q \<and> (depth t \<le> length ds \<longrightarrow> q = None)"
  using assms
proof (induction t arbitrary: ds p)
  case (Bin l i c r)
  show ?case
  proof (cases ds)
    case (Cons d ds')
    then show ?thesis using Bin.prems Bin.IH [of _ ds'] by (cases d) (auto simp: ld_def)
  qed simp
qed simp

text \<open>
  C36. However nodes are inserted into an empty tree, by \<open>rbtree_link\<close> at any null pointer of it and \<open>rbtree_fixup\<close>, the tree stays
  balanced: a search follows no bad pointer and in a tree of \<open>k\<close> nodes comes to a null pointer after at most about twice the logarithm of \<open>k + 1\<close> steps;
  and another node can be inserted at every null pointer.
\<close>

theorem insertions_balanced:
  assumes "reach rb_none grow (s, ns)"
  shows "(\<forall>ds. \<exists>q. descend ds (t_root s) s = Inr q \<and> (card ns + 1 < 2 ^ (length ds div 2) \<longrightarrow> q = None)) \<and>
    (\<forall>fs n m. holds s (plug fs Tip) \<and> rn s n = Some m \<and> n \<notin> ns \<longrightarrow> (\<exists>s'. grow (s, ns) (s', insert n ns)))"
proof (intro conjI allI impI)
  obtain t where t: "holds s t" "rb t" "set (addrs t) = ns" using growing.good_reach [OF assms] by (auto simp: rb_good_def)
  show "\<exists>q. descend ds (t_root s) s = Inr q \<and> (card ns + 1 < 2 ^ (length ds div 2) \<longrightarrow> q = None)" for ds
  proof -
    obtain q where q: "descend ds (t_root s) s = Inr q" "depth t \<le> length ds \<longrightarrow> q = None"
      using descend_depth [of s None t ds] t(1) by (auto simp: holds_def)
    have "depth t \<le> length ds" if "card ns + 1 < 2 ^ (length ds div 2)"
    proof -
      have "(2::nat) ^ (depth t div 2) < 2 ^ (length ds div 2)" using order_le_less_trans [OF balanced_depth [OF t(1,2)]] that t(3) by blast
      then have "depth t div 2 < length ds div 2" by simp
      then show ?thesis by linarith
    qed
    then show ?thesis using q by blast
  qed
  show "\<exists>s'. grow (s, ns) (s', insert n ns)" if a: "holds s (plug fs Tip) \<and> rn s n = Some m \<and> n \<notin> ns" for fs n m
  proof -
    have "plug fs Tip = t" using a t(1) holds_unique by blast
    then show ?thesis using link_fixup_rb [of s fs n m] a t(2,3) grow.grow [of s fs n m ns] by blast
  qed
qed

end
