(* ===== verification/Rbtree_Del.thy ===== *)
theory Rbtree_Del
  imports Rbtree
begin

text \<open>
  Deletion from the red-black trees of kernel/klib/rbtree.c: what \<open>rbtree_delete\<close> makes of a balanced tree.
  The node is always unlinked correctly. The heights are repaired only when a child moved up, since
  \<open>fixup_del\<close> is not called for a null child.
\<close>

section \<open>Unlinking a node with at most one child\<close>

lemma splice_out_zip:
  assumes z: "zip_at s fs t" "t = Bin Tip z c x \<or> t = Bin x z c Tip" and A: "set (addrs (plug fs t)) \<subseteq> A"
  shows "\<exists>s'. splice_out (Some z) (ptr x) s = Inr s' \<and> zip_at s' fs x \<and> same_off A s s'"
proof -
  define s1 where "s1 = s\<lparr>rn := reparent x (up fs) (rn s)\<rparr>"
  define s2 where "s2 = s1\<lparr>rn := rehole fs (ptr x) (rn s1), t_root := (if fs = [] then ptr x else t_root s1)\<rparr>"
  have d: "z \<notin> set (addrs x)" "z \<notin> set (raddrs fs)" "distinct (addrs x)" "distinct (raddrs fs)"
    "set (addrs x) \<inter> set (raddrs fs) = {}" "set (raddrs fs) \<inter> set (addrs x) = {}"
    using z by (auto simp: zip_at_def)
  have n: "map_option r_parent (rn s z) = Some (up fs)" "rep (rn s) (Some z) x" "crep (rn s) fs (Some z)"
    "t_root s = (if fs = [] then Some z else Some (faddr (last fs)))"
    using z by (auto simp: zip_at_def)
  have "(if ptr x \<noteq> None then bind_result (ld r_parent (Some z) s) (\<lambda>zp. set_parent zp (ptr x) s) else Inr s) = Inr s1"
    using adopt_eq [OF n(2), of "up fs"] n(1) by (auto simp: s1_def adopt_def ld_def)
  moreover have "relink (Some z) (ptr x) s1 = Inr s2"
    unfolding s2_def by (rule relink_eq) (use n d in \<open>auto simp: s1_def\<close>)
  ultimately have "splice_out (Some z) (ptr x) s = Inr s2" by (simp add: splice_out_def)
  moreover have "rep (rn s1) (up fs) x" using rep_reparent [OF n(2)] d by (simp add: s1_def)
  then have "zip_at s2 fs x"
    using crep_rehole [of "rn s1" fs "Some z" "ptr x"] n d by (simp add: zip_at_def s2_def) (simp add: s1_def)
  moreover have "same_off A s s2" using A z(2) by (force simp: same_off_def s1_def s2_def set_plug)
  ultimately show ?thesis by blast
qed

section \<open>The successor\<close>

lemma minimum_rep: "rep (rn s) p t \<Longrightarrow> t \<noteq> Tip \<Longrightarrow> minimum (ptr t) s = Some (Inr (Some (hd (addrs t))))"
proof (induction t arbitrary: p)
  case (Bin l i c r)
  show ?case
  proof (cases l)
    case Tip
    with Bin show ?thesis by (simp add: minimum.simps [of "Some i"] ld_at)
  next
    case (Bin ll li lc lr)
    have "minimum (ptr l) s = Some (Inr (Some (hd (addrs l))))" using Bin.IH(1) Bin.prems Bin by auto
    moreover have "minimum (Some i) s = minimum (ptr l) s" using Bin.prems Bin by (simp add: minimum.simps [of "Some i"] ld_at)
    ultimately show ?thesis using Bin by (simp add: hd_append)
  qed
qed simp

text \<open>The way down to the leftmost node goes through left holes only.\<close>

fun lefty :: "frame \<Rightarrow> bool" where
  "lefty (FL i c r) \<longleftrightarrow> True"
| "lefty (FR l i c) \<longleftrightarrow> False"

lemma plug_append: "plug (fs @ gs) t = plug gs (plug fs t)"
  by (induction fs arbitrary: t) auto

lemma leftmost_plug:
  "t \<noteq> Tip \<Longrightarrow> \<exists>ls y cy x. t = plug ls (Bin Tip y cy x) \<and> list_all lefty ls"
proof (induction t)
  case (Bin l i c r)
  show ?case
  proof (cases "l = Tip")
    case True
    then show ?thesis by (intro exI [of _ "[]"]) auto
  next
    case False
    then obtain ls y cy x where "l = plug ls (Bin Tip y cy x)" "list_all lefty ls" using Bin.IH(1) by blast
    then have "Bin l i c r = plug (ls @ [FL i c r]) (Bin Tip y cy x)" "list_all lefty (ls @ [FL i c r])"
      by (simp_all add: plug_append)
    then show ?thesis by blast
  qed
qed simp

lemma addrs_lefty: "list_all lefty ls \<Longrightarrow> \<exists>as. \<forall>t. addrs (plug ls t) = addrs t @ as"
proof (induction ls)
  case (Cons f ls)
  then obtain as where "\<forall>t. addrs (plug ls t) = addrs t @ as" by auto
  then have "addrs (plug (f # ls) t) = addrs t @ (faddr f # addrs (sib f) @ as)" for t using Cons.prems by (cases f) auto
  then show ?case by blast
qed auto

definition take_place :: "nat option \<Rightarrow> nat option \<Rightarrow> rbtree \<Rightarrow> rbtree result" where
  "take_place z y s =
     bind_result (relink z y s) (\<lambda>s.
     bind_result (ld r_parent z s) (\<lambda>zp. bind_result (set_parent zp y s) (\<lambda>s.
     bind_result (ld r_left z s) (\<lambda>zl. bind_result (set_left zl y s) (\<lambda>s.
     bind_result (ld r_left y s) (\<lambda>yl. bind_result (set_parent y yl s) (\<lambda>s.
     bind_result (ld r_color z s) (\<lambda>zc. set_color zc y s))))))))"

text \<open>The common end of both cases: \<open>y\<close>, with its right subtree in place, becomes what \<open>z\<close> was.\<close>

lemma take_place_zip:
  assumes z: "rn s z = Some \<lparr>r_color = zc, r_left = ptr zl, r_right = q, r_parent = up fs\<rparr>" "rep (rn s) (Some z) zl" "zl \<noteq> Tip"
      "crep (rn s) fs (Some z)" "t_root s = (if fs = [] then Some z else Some (faddr (last fs)))"
    and y: "rn s y = Some \<lparr>r_color = cy, r_left = yl, r_right = ptr w, r_parent = yp\<rparr>" "rep (rn s) (Some y) w"
    and d: "distinct (addrs zl @ z # addrs w @ y # [] @ raddrs fs)"
  shows "\<exists>s'. take_place (Some z) (Some y) s = Inr s' \<and> zip_at s' fs (Bin zl y zc w) \<and>
    same_off (insert y (insert z (set (addrs zl) \<union> set (addrs w) \<union> set (raddrs fs)))) s s'"
proof -
  note dj = disjoint_parts [OF d]
  define s1 where "s1 = s\<lparr>rn := rehole fs (Some y) (rn s), t_root := (if fs = [] then Some y else t_root s)\<rparr>"
  define s2 where "s2 = s1\<lparr>rn := (rn s1)(y \<mapsto> \<lparr>r_color = cy, r_left = ptr zl, r_right = ptr w, r_parent = up fs\<rparr>)\<rparr>"
  define s3 where "s3 = s2\<lparr>rn := reparent zl (Some y) (rn s2)\<rparr>"
  define s4 where "s4 = s3\<lparr>rn := (rn s3)(y \<mapsto> \<lparr>r_color = zc, r_left = ptr zl, r_right = ptr w, r_parent = up fs\<rparr>)\<rparr>"
  have 1: "relink (Some z) (Some y) s = Inr s1" unfolding s1_def by (rule relink_eq) (use z dj in simp_all)
  have r: "rep (rn s2) (Some z) zl" using z dj by (simp add: s2_def s1_def)
  then have 2: "set_parent (Some y) (ptr zl) s2 = Inr s3" using adopt_eq [of s2 "Some z" zl "Some y"] z(3) by (cases zl) (auto simp: adopt_def s3_def)
  have "take_place (Some z) (Some y) s = Inr s4"
    using z y dj 1 2 by (simp add: take_place_def ld_at set_at s1_def s2_def s3_def s4_def)
  moreover have "crep (rn s1) fs (Some y)" using crep_rehole [OF z(4)] dj by (simp add: s1_def)
  moreover have "rep (rn s3) (Some y) zl" using rep_reparent [OF r] dj by (simp add: s3_def)
  ultimately have "take_place (Some z) (Some y) s = Inr s4 \<and> zip_at s4 fs (Bin zl y zc w)"
    using z(5) y(2) d dj by (auto simp: zip_at_def s4_def) (simp_all add: s3_def s2_def s1_def)
  moreover have "same_off (insert y (insert z (set (addrs zl) \<union> set (addrs w) \<union> set (raddrs fs)))) s s4"
    by (auto simp: same_off_def s1_def s2_def s3_def s4_def)
  ultimately show ?thesis by blast
qed

lemma splice_succ_child:
  assumes z: "zip_at s fs (Bin zl z zc (Bin Tip y cy x))" "zl \<noteq> Tip" and A: "set (addrs (plug fs (Bin zl z zc (Bin Tip y cy x)))) \<subseteq> A"
  shows "\<exists>s'. splice_succ (Some z) (Some y) (ptr x) s = Inr s' \<and> zip_at s' fs (Bin zl y zc x) \<and> same_off A s s'"
proof -
  define s1 where "s1 = s\<lparr>rn := reparent x (Some y) (rn s)\<rparr>"
  have d: "distinct (addrs zl @ z # addrs x @ y # [] @ raddrs fs)" using z by (auto simp: zip_at_def)
  note dj = disjoint_parts [OF d]
  have r: "rep (rn s) (Some y) x" "rn s y = Some \<lparr>r_color = cy, r_left = None, r_right = ptr x, r_parent = Some z\<rparr>"
    using z by (simp_all add: zip_at_def)
  have a: "adopt (Some y) (ptr x) s = Inr s1" using adopt_eq [OF r(1), of "Some y"] by (simp add: s1_def)
  have "splice_succ (Some z) (Some y) (ptr x) s = take_place (Some z) (Some y) s1"
    using a r(2) by (simp add: splice_succ_def take_place_def ld_at)
  moreover have "rep (rn s1) (Some y) x" using rep_reparent [OF r(1)] dj by (simp add: s1_def)
  moreover have "rn s1 z = Some \<lparr>r_color = zc, r_left = ptr zl, r_right = Some y, r_parent = up fs\<rparr>" "rep (rn s1) (Some z) zl"
    "crep (rn s1) fs (Some z)" "t_root s1 = (if fs = [] then Some z else Some (faddr (last fs)))"
    "rn s1 y = Some \<lparr>r_color = cy, r_left = None, r_right = ptr x, r_parent = Some z\<rparr>"
    using z dj by (simp_all add: zip_at_def s1_def)
  ultimately have "splice_succ (Some z) (Some y) (ptr x) s = take_place (Some z) (Some y) s1 \<and> (\<exists>s'. take_place (Some z) (Some y) s1 = Inr s' \<and>
      zip_at s' fs (Bin zl y zc x) \<and> same_off (insert y (insert z (set (addrs zl) \<union> set (addrs x) \<union> set (raddrs fs)))) s1 s')"
    using take_place_zip [OF _ _ z(2) _ _ _ _ d] by blast
  moreover have "same_off A s s1" using A by (force simp: same_off_def s1_def set_plug)
  moreover have "insert y (insert z (set (addrs zl) \<union> set (addrs x) \<union> set (raddrs fs))) \<subseteq> A" using A by (auto simp: set_plug)
  ultimately show ?thesis using same_off_trans [of A s s1] same_off_mono by metis
qed

lemma zip_plug: "zip_at s fs (plug ls t) \<longleftrightarrow> zip_at s (ls @ fs) t"
  using holds_plug [of s fs "plug ls t"] holds_plug [of s "ls @ fs" t] by (simp add: plug_append)

lemma raddrs_append: "raddrs (fs @ gs) = raddrs fs @ raddrs gs"
  by (induction fs) auto

lemma splice_succ_deep:
  assumes z: "zip_at s fs (Bin zl z zc (plug ls (Bin Tip y cy x)))" "zl \<noteq> Tip" and ls: "ls = FL p cp rr # ls'"
    and A: "set (addrs (plug fs (Bin zl z zc (plug ls (Bin Tip y cy x))))) \<subseteq> A"
  shows "\<exists>s'. splice_succ (Some z) (Some y) (ptr x) s = Inr s' \<and> zip_at s' fs (Bin zl y zc (plug ls x)) \<and> same_off A s s'"
proof -
  let ?hs = "ls @ FR zl z zc # fs"
  define W where "W = plug ls x"
  define s1 where "s1 = s\<lparr>rn := reparent x (Some p) (rn s)\<rparr>"
  define s2 where "s2 = s1\<lparr>rn := rehole ?hs (ptr x) (rn s1)\<rparr>"
  define s3 where "s3 = s2\<lparr>rn := (rn s2)(y \<mapsto> \<lparr>r_color = cy, r_left = None, r_right = ptr W, r_parent = Some p\<rparr>)\<rparr>"
  define s4 where "s4 = s3\<lparr>rn := reparent W (Some y) (rn s3)\<rparr>"
  have h: "zip_at s ?hs (Bin Tip y cy x)"
    using z(1) zip_down [of s fs "FR zl z zc" "plug ls (Bin Tip y cy x)"] by (simp add: zip_plug)
  have dh: "distinct (y # addrs x @ raddrs ?hs)" using zip_distinct [OF h] by simp
  have sets: "set (raddrs ?hs) = insert z (set (addrs zl) \<union> (set (raddrs ls) \<union> set (raddrs fs)))"
    unfolding raddrs_append by auto
  have p: "p \<in> set (raddrs ?hs)" "z \<in> set (raddrs ?hs)" using ls sets by simp_all
  have y: "rn s y = Some \<lparr>r_color = cy, r_left = None, r_right = ptr x, r_parent = Some p\<rparr>" using zip_node [OF h] ls by simp
  have x: "rep (rn s) (Some y) x" using h by (simp add: zip_at_def)
  have dx: "set (raddrs ?hs) \<inter> set (addrs x) = {}" "y \<notin> set (addrs x)" "y \<notin> set (raddrs ?hs)" "distinct (addrs x)"
    "set (addrs x) \<inter> set (raddrs ?hs) = {}" "distinct (raddrs ?hs)" using dh by auto
  have a: "adopt (Some p) (ptr x) s = Inr s1" using adopt_eq [OF x, of "Some p"] by (simp add: s1_def)
  have "rn s p = Some (frec (FL p cp rr) (Some y) (up (ls' @ FR zl z zc # fs)))" using zip_frame [of s "FL p cp rr"] h ls by simp
  then have l: "set_left (ptr x) (Some p) s1 = Inr s2" using dx p(1) ls by (auto simp: s1_def s2_def set_at)
  have "crep (rn s1) ?hs (Some y)" using h dx by (simp add: zip_at_def s1_def)
  from crep_rehole [OF this dx(6), of "ptr x"] have "zip_at s2 ?hs x"
    using h dx rep_reparent [OF x dx(4), of "Some p"] ls by (simp add: zip_at_def s2_def) (simp add: s1_def)
  then have h2: "zip_at s2 fs (Bin zl z zc W)"
    using zip_down [of s2 fs "FR zl z zc" W] by (simp add: zip_plug W_def)
  have sW: "set (addrs W) = set (addrs x) \<union> set (raddrs ls)" by (simp add: W_def set_plug)
  have yW: "y \<notin> set (addrs W)" "y \<noteq> z" "y \<notin> set (addrs zl)" "y \<notin> set (raddrs fs)" using dx(2,3) sW sets by auto
  have d: "distinct (addrs zl @ z # addrs W @ y # [] @ raddrs fs)" using zip_distinct [OF h2] yW by auto
  note dj = disjoint_parts [OF d]
  have W: "rep (rn s2) (Some z) W" "rn s2 z = Some \<lparr>r_color = zc, r_left = ptr zl, r_right = ptr W, r_parent = up fs\<rparr>"
    "rep (rn s2) (Some z) zl" "crep (rn s2) fs (Some z)" "t_root s2 = (if fs = [] then Some z else Some (faddr (last fs)))"
    using h2 by (simp_all add: zip_at_def)
  have Wp: "ptr W \<noteq> None" using ls by (simp add: W_def ptr_plug)
  have y2: "rn s2 y = Some \<lparr>r_color = cy, r_left = None, r_right = ptr x, r_parent = Some p\<rparr>" "rn s1 y = rn s y"
    using y dx by (simp_all add: s2_def s1_def)
  have "set_right (ptr W) (Some y) s2 = Inr s3" using y2 by (simp add: set_at s3_def)
  moreover have W3: "rep (rn s3) (Some z) W" using W(1) yW by (simp add: s3_def)
  then have "set_parent (Some y) (ptr W) s3 = Inr s4" using adopt_eq [of s3 "Some z" W "Some y"] Wp by (auto simp: adopt_def s4_def)
  moreover have "p \<noteq> z" using dx(6) unfolding ls raddrs_append by auto
  ultimately have e: "splice_succ (Some z) (Some y) (ptr x) s = take_place (Some z) (Some y) s4"
    using a l y y2 W(2) by (simp add: splice_succ_def take_place_def ld_at s3_def)
  have "rep (rn s4) (Some y) W" using rep_reparent [OF W3] dj by (simp add: s4_def)
  moreover have "rn s4 z = Some \<lparr>r_color = zc, r_left = ptr zl, r_right = ptr W, r_parent = up fs\<rparr>" "rep (rn s4) (Some z) zl"
    "crep (rn s4) fs (Some z)" "t_root s4 = (if fs = [] then Some z else Some (faddr (last fs)))"
    "rn s4 y = Some \<lparr>r_color = cy, r_left = None, r_right = ptr W, r_parent = Some p\<rparr>"
    using W dj by (simp_all add: s4_def s3_def)
  ultimately have "\<exists>s'. take_place (Some z) (Some y) s4 = Inr s' \<and> zip_at s' fs (Bin zl y zc W) \<and>
      same_off (insert y (insert z (set (addrs zl) \<union> set (addrs W) \<union> set (raddrs fs)))) s4 s'"
    using take_place_zip [OF _ _ z(2) _ _ _ _ d] by blast
  moreover have sub: "insert y (insert z (set (addrs zl) \<union> set (addrs W) \<union> set (raddrs fs))) \<subseteq> A"
    using A sW by (auto simp: set_plug)
  have "rn s4 i = rn s i" if "i \<notin> A" for i
  proof -
    have "i \<notin> set (addrs W)" "i \<noteq> y" "i \<notin> set (raddrs ?hs)" "i \<notin> set (addrs x)" using that sub sets sW by blast+
    then show ?thesis by (simp add: s4_def s3_def s2_def s1_def)
  qed
  then have "same_off A s s4" by (simp add: same_off_def)
  ultimately show ?thesis using e same_off_trans [of A s s4] same_off_mono sub unfolding W_def by metis
qed

section \<open>Deletion from a balanced tree\<close>

lemma paint_red: "redt x \<or> x = Tip \<Longrightarrow> invc x \<Longrightarrow> invc (paint BLACK x) \<and> \<not> redt (paint BLACK x)"
  by simp

text \<open>Next to a null child there is a null child or a red one.\<close>

lemma beside_tip:
  assumes "invc (Bin Tip z c x)" "invh (Bin Tip z c x)"
  shows "redt x \<and> c = BLACK \<or> x = Tip"
  using assms color.exhaust [of c] by (cases x rule: redt.cases) auto

lemma beside_tip':
  assumes "invc (Bin x z c Tip)" "invh (Bin x z c Tip)"
  shows "redt x \<and> c = BLACK \<or> x = Tip"
  using assms color.exhaust [of c] by (cases x rule: redt.cases) auto

text \<open>The child that moved up is painted black; \<open>fixup_del\<close> has nothing else to do.\<close>

lemma fixup_del_red:
  assumes z: "zip_at s fs x" and x: "redt x" and A: "set (addrs (plug fs x)) \<subseteq> A"
  shows "\<exists>s'. fixup_del (ptr x) s = Some (Inr s') \<and> zip_at s' fs (paint BLACK x) \<and> same_off A s s'"
proof -
  obtain l i r where b: "x = Bin l i RED r" using x by (cases x rule: redt.cases) auto
  have "fixup_del_cond (ptr x) s = Inr False"
    using zip_node [OF z [unfolded b]] b by (simp add: fixup_del_cond_def black_def ld_at)
  then have "fixup_del_loop (ptr x) s = Some (Inr (ptr x, s))" by (simp add: fixup_del_loop.simps [of "ptr x"])
  then show ?thesis
    using zip_color [OF z [unfolded b], of A BLACK] A b by (auto simp: fixup_del_def tint_def)
qed

lemma delete_end:
  assumes "zip_at s fs x" "redt x \<and> c = BLACK \<or> x = Tip" "set (addrs (plug fs x)) \<subseteq> A" "delete_splice z s0 = Some (Inr (c, ptr x, s))"
  shows "\<exists>s'. rbtree_delete z s0 = Some (Inr s') \<and> zip_at s' fs (paint BLACK x) \<and> same_off A s s'"
proof (cases "x = Tip")
  case True
  then show ?thesis using assms by (auto simp: rbtree_delete_def same_off_def)
next
  case False
  then have x: "redt x" "c = BLACK" using assms(2) by auto
  then have "ptr x \<noteq> None" by (cases x) auto
  then show ?thesis using fixup_del_red [OF assms(1) x(1) assms(3)] assms(4) x(2) by (simp add: rbtree_delete_def)
qed

text \<open>
  What deleting the node between \<open>l\<close> and \<open>r\<close> leaves at its place.
\<close>

fun cut :: "rbt \<Rightarrow> rbt" where
  "cut Tip = Tip"
| "cut (Bin Tip i c r) = paint BLACK r"
| "cut (Bin l i c r) = Bin (cut l) i c r"

definition remaining :: "rbt \<Rightarrow> color \<Rightarrow> rbt \<Rightarrow> rbt" where
  "remaining l c r = (if l = Tip then paint BLACK r else if r = Tip then paint BLACK l
     else Bin l (hd (addrs r)) c (cut r))"

lemma cut_plug: "list_all lefty ls \<Longrightarrow> cut (plug ls (Bin Tip y cy x)) = plug ls (paint BLACK x)"
proof (induction ls rule: rev_induct)
  case (snoc f ls)
  obtain i c r where f: "f = FL i c r" using snoc.prems by (cases f) auto
  have "plug ls (Bin Tip y cy x) \<noteq> Tip" using ptr_plug [of ls "Bin Tip y cy x"] by (auto split: if_splits)
  then have "cut (Bin (plug ls (Bin Tip y cy x)) i c r) = Bin (cut (plug ls (Bin Tip y cy x))) i c r"
    by (cases "plug ls (Bin Tip y cy x)") auto
  then show ?case using snoc f by (simp add: plug_append)
qed simp

lemma rb_sub: "invc (plug fs t) \<Longrightarrow> invc t" "invh (plug fs t) \<Longrightarrow> invh t"
    "rb (plug fs t) \<Longrightarrow> invc t" "rb (plug fs t) \<Longrightarrow> invh t"
  by (simp_all add: rb_def invc_plug invh_plug)

lemma delete_zip:
  assumes z: "zip_at s fs (Bin l z c r)" and inv: "invc (Bin l z c r)" "invh (Bin l z c r)"
    and A: "set (addrs (plug fs (Bin l z c r))) \<subseteq> A"
  shows "\<exists>s'. rbtree_delete (Some z) s = Some (Inr s') \<and> zip_at s' fs (remaining l c r) \<and> same_off A s s'"
proof -
  note n = zip_node [OF z]
  consider "l = Tip" | "l \<noteq> Tip" "r = Tip" | "l \<noteq> Tip" "r \<noteq> Tip" by blast
  then show ?thesis
  proof cases
    case 1
    obtain s1 where s1: "splice_out (Some z) (ptr r) s = Inr s1" "zip_at s1 fs r" "same_off A s s1"
      using splice_out_zip [OF z _ A, of z c r] 1 by blast
    have "delete_splice (Some z) s = Some (Inr (c, ptr r, s1))" using n s1(1) 1 by (simp add: delete_splice_def ld_at)
    moreover have "redt r \<and> c = BLACK \<or> r = Tip" using beside_tip inv 1 by blast
    moreover have "set (addrs (plug fs r)) \<subseteq> A" using A by (simp add: set_plug)
    ultimately obtain s' where "rbtree_delete (Some z) s = Some (Inr s')" "zip_at s' fs (paint BLACK r)" "same_off A s1 s'"
      using delete_end [OF s1(2)] by blast
    then show ?thesis using 1 same_off_trans [OF s1(3)] by (auto simp: remaining_def)
  next
    case 2
    obtain s1 where s1: "splice_out (Some z) (ptr l) s = Inr s1" "zip_at s1 fs l" "same_off A s s1"
      using splice_out_zip [OF z _ A, of z c l] 2 by blast
    have "ptr l \<noteq> None" using 2 by (cases l) auto
    then have "delete_splice (Some z) s = Some (Inr (c, ptr l, s1))" using n s1(1) 2 by (auto simp: delete_splice_def ld_at)
    moreover have "redt l \<and> c = BLACK \<or> l = Tip" using beside_tip' inv 2 by blast
    moreover have "set (addrs (plug fs l)) \<subseteq> A" using A by (simp add: set_plug)
    ultimately obtain s' where "rbtree_delete (Some z) s = Some (Inr s')" "zip_at s' fs (paint BLACK l)" "same_off A s1 s'"
      using delete_end [OF s1(2)] by blast
    then show ?thesis using 2 same_off_trans [OF s1(3)] by (auto simp: remaining_def)
  next
    case 3
    obtain ls y cy x where r: "r = plug ls (Bin Tip y cy x)" "list_all lefty ls" using leftmost_plug [OF 3(2)] by blast
    obtain as where "\<forall>t. addrs (plug ls t) = addrs t @ as" using addrs_lefty [OF r(2)] by blast
    then have y: "hd (addrs r) = y" using r(1) by simp
    have p: "ptr l \<noteq> None" "ptr r \<noteq> None" using 3 by (cases l; simp; fail) (use 3 in \<open>cases r; simp\<close>)
    have rep: "rep (rn s) (Some z) r" using z by (simp add: zip_at_def)
    have h: "zip_at s (ls @ FR l z c # fs) (Bin Tip y cy x)"
      using z zip_down [of s fs "FR l z c" r] r(1) by (simp add: zip_plug)
    obtain s1 where s1: "splice_succ (Some z) (Some y) (ptr x) s = Inr s1" "zip_at s1 fs (Bin l y c (plug ls x))" "same_off A s s1"
    proof (cases ls)
      case Nil
      then show ?thesis using that splice_succ_child [of s fs l z c y cy x A] z A 3(1) r(1) by auto
    next
      case (Cons f ls')
      then obtain p cp rr where "ls = FL p cp rr # ls'" using r(2) by (cases f) auto
      then show ?thesis using that splice_succ_deep [of s fs l z c ls y cy x p cp rr ls' A] z A 3(1) r(1) by auto
    qed
    have "minimum (ptr r) s = Some (Inr (Some y))" using minimum_rep [OF rep 3(2)] y by simp
    then have d: "delete_splice (Some z) s = Some (Inr (cy, ptr x, s1))"
      using n zip_node [OF h] s1(1) p by (auto simp: delete_splice_def ld_at)
    have "redt x \<and> cy = BLACK \<or> x = Tip" 
      using beside_tip [of y cy x] rb_sub(1,2) [of ls "Bin Tip y cy x"] inv r(1) by simp
    moreover have "zip_at s1 (ls @ FR l y c # fs) x" using s1(2) zip_down [of s1 fs "FR l y c" "plug ls x"] by (simp add: zip_plug)
    moreover have "set (addrs (plug (ls @ FR l y c # fs) x)) \<subseteq> A" using A r(1) by (auto simp: set_plug raddrs_append)
    ultimately obtain s' where s': "rbtree_delete (Some z) s = Some (Inr s')" "zip_at s' (ls @ FR l y c # fs) (paint BLACK x)" "same_off A s1 s'"
      using delete_end [OF _ _ _ d] by blast
    have "remaining l c r = Bin l y c (plug ls (paint BLACK x))"
      using 3 y r cut_plug [OF r(2)] by (simp add: remaining_def)
    then have "zip_at s' fs (remaining l c r)"
      using s'(2) zip_down [of s' fs "FR l y c" "plug ls (paint BLACK x)"] by (simp add: zip_plug)
    then show ?thesis using s'(1) same_off_trans [OF s1(3) s'(3)] by blast
  qed
qed

text \<open>Does taking out the leftmost node leave a gap of one black node?\<close>

fun lgap :: "rbt \<Rightarrow> bool" where
  "lgap Tip \<longleftrightarrow> False"
| "lgap (Bin Tip i c r) \<longleftrightarrow> c = BLACK \<and> r = Tip"
| "lgap (Bin l i c r) \<longleftrightarrow> lgap l"

definition gap :: "rbt \<Rightarrow> color \<Rightarrow> rbt \<Rightarrow> bool" where
  "gap l c r \<longleftrightarrow> (if l = Tip then c = BLACK \<and> r = Tip else lgap r)"

lemma addrs_cut: "addrs (cut t) = tl (addrs t)"
  by (induction t rule: cut.induct) (auto simp: tl_append split: list.split)

lemma addrs_remaining: "addrs (remaining l c r) = addrs l @ addrs r"
  by (cases r) (auto simp: remaining_def addrs_cut)

lemma cut_inv:
  assumes "invc t" "invh t" "t \<noteq> Tip"
  shows "invc (cut t) \<and> (redt (cut t) \<longrightarrow> redt t) \<and> (lgap t \<longleftrightarrow> \<not> (invh (cut t) \<and> bheight (cut t) = bheight t))"
  using assms
proof (induction t rule: cut.induct)
  case (2 i c r)
  then show ?case using beside_tip [of i c r] by (cases "r = Tip"; cases c) (auto simp: bheight_paint)
qed auto

lemma remaining_inv:
  assumes "invc (Bin l z c r)" "invh (Bin l z c r)"
  shows "invc (remaining l c r) \<and> (redt (remaining l c r) \<longrightarrow> c = RED) \<and>
    (gap l c r \<longleftrightarrow> \<not> (invh (remaining l c r) \<and> bheight (remaining l c r) = bheight (Bin l z c r)))"
proof -
  consider "l = Tip" | "l \<noteq> Tip" "r = Tip" | "l \<noteq> Tip" "r \<noteq> Tip" by blast
  then show ?thesis
  proof cases
    case 1
    then show ?thesis using assms beside_tip [of z c r] by (cases "r = Tip"; cases c) (auto simp: remaining_def gap_def bheight_paint)
  next
    case 2
    then show ?thesis using assms beside_tip' [of l z c] by (auto simp: remaining_def gap_def bheight_paint)
  next
    case 3
    then show ?thesis using assms cut_inv [of r] by (auto simp: remaining_def gap_def)
  qed
qed

lemma find_plug: "z \<in> set (addrs t) \<Longrightarrow> \<exists>fs l c r. t = plug fs (Bin l z c r)"
proof (induction t)
  case (Bin l i c r)
  consider "z = i" | "z \<in> set (addrs l)" | "z \<in> set (addrs r)" using Bin.prems by auto
  then show ?case
  proof cases
    case 1
    then show ?thesis by (intro exI [of _ "[]"]) auto
  next
    case 2
    then obtain fs l' c' r' where "l = plug fs (Bin l' z c' r')" using Bin.IH(1) by blast
    then have "Bin l i c r = plug (fs @ [FL i c r]) (Bin l' z c' r')" by (simp add: plug_append)
    then show ?thesis by blast
  next
    case 3
    then obtain fs l' c' r' where "r = plug fs (Bin l' z c' r')" using Bin.IH(2) by blast
    then have "Bin l i c r = plug (fs @ [FR l i c]) (Bin l' z c' r')" by (simp add: plug_append)
    then show ?thesis by blast
  qed
qed simp

lemma addrs_plug_split: "\<exists>as bs. \<forall>t. addrs (plug fs t) = as @ addrs t @ bs"
proof (induction fs)
  case Nil
  show ?case by (intro exI [of _ "[]"]) simp
next
  case (Cons f fs)
  then obtain as bs where e: "\<forall>t. addrs (plug fs t) = as @ addrs t @ bs" by blast
  show ?case
  proof (cases f)
    case (FL i c r)
    then show ?thesis using e by (intro exI [of _ as] exI [of _ "i # addrs r @ bs"]) simp
  next
    case (FR l i c)
    then show ?thesis using e by (intro exI [of _ "as @ addrs l @ [i]"] exI [of _ bs]) simp
  qed
qed

lemma remove_plug:
  assumes "distinct (addrs (plug fs (Bin l z c r)))"
  shows "addrs (plug fs (remaining l c r)) = remove1 z (addrs (plug fs (Bin l z c r)))"
proof -
  obtain as bs where e: "\<forall>t. addrs (plug fs t) = as @ addrs t @ bs" using addrs_plug_split by blast
  then have "z \<notin> set as" "z \<notin> set (addrs l)" using assms by auto
  then show ?thesis using e by (simp add: addrs_remaining remove1_append)
qed

lemma redt_plug: "(redt t' \<Longrightarrow> redt t) \<Longrightarrow> \<not> redt (plug fs t) \<Longrightarrow> \<not> redt (plug fs t')"
proof (induction fs arbitrary: t t')
  case (Cons f fs)
  then show ?case using Cons.IH [of "fill f t'" "fill f t"] by simp
qed auto

lemma remaining_colors:
  assumes "rb (plug fs (Bin l z c r))"
  shows "invc (plug fs (remaining l c r)) \<and> \<not> redt (plug fs (remaining l c r))"
proof -
  have i: "invc (Bin l z c r)" "invh (Bin l z c r)" using rb_sub(3,4) [OF assms] by blast+
  have "\<not> redt (plug fs (remaining l c r))"
    using redt_plug [of "remaining l c r" "Bin l z c r" fs] remaining_inv [OF i] assms by (auto simp: rb_def)
  then show ?thesis using remaining_inv [OF i] assms by (auto simp: rb_def invc_plug)
qed

text \<open>What the users of the library rely on when a node is deleted.\<close>

lemma delete_removes:
  assumes "holds s t" "rb t" "z \<in> set (addrs t)"
  shows "\<exists>s' t'. rbtree_delete (Some z) s = Some (Inr s') \<and> holds s' t' \<and> addrs t' = remove1 z (addrs t) \<and>
    invc t' \<and> \<not> redt t' \<and> same_off (set (addrs t)) s s'"
proof -
  obtain fs l c r where t: "t = plug fs (Bin l z c r)" using find_plug [OF assms(3)] by blast
  have i: "invc (Bin l z c r)" "invh (Bin l z c r)" using rb_sub(3,4) [OF assms(2) [unfolded t]] by blast+
  have d: "distinct (addrs t)" using assms(1) by (simp add: holds_def)
  obtain s' where "rbtree_delete (Some z) s = Some (Inr s')" "zip_at s' fs (remaining l c r)" "same_off (set (addrs t)) s s'"
    using delete_zip [OF _ i, of s fs "set (addrs t)"] assms(1) t holds_plug by blast
  then show ?thesis
    using holds_plug remaining_colors [of fs l z c r] remove_plug [of fs l z c r] d assms(2) t by metis
qed

text \<open>
  C17. Deleting any node of a red-black tree returns without following a null pointer, unlinks exactly this node,
  keeps the order of all others, the agreement of parents and children and the rule that no red node has a
  red child, and touches nothing outside the tree.
\<close>

theorem delete_keeps_order:
  assumes "holds s t" "rb t" "z \<in> set (addrs t)"
  shows "\<exists>s' t'. rbtree_delete (Some z) s = Some (Inr s') \<and> holds s' t' \<and> addrs t' = remove1 z (addrs t) \<and>
    invc t' \<and> \<not> redt t' \<and> same_off (set (addrs t)) s s'"
  using assms by (rule delete_removes)

text \<open>
  The tree stays balanced exactly if the node that leaves its place (the node itself, or
  its successor when it has two children) is red or has a child, or was the last one: \<open>fixup_del\<close> is not called when a
  black node without children goes, and the paths through its place are then one black node short.
\<close>

theorem delete_balance:
  assumes "holds s (plug fs (Bin l z c r))" "rb (plug fs (Bin l z c r))"
  shows "\<exists>s' t'. rbtree_delete (Some z) s = Some (Inr s') \<and> holds s' t' \<and>
    (rb t' \<longleftrightarrow> \<not> gap l c r \<or> plug fs (Bin l z c r) = Bin Tip z BLACK Tip)"
proof -
  let ?t = "plug fs (remaining l c r)"
  have i: "invc (Bin l z c r)" "invh (Bin l z c r)" using rb_sub(3,4) [OF assms(2)] by blast+
  obtain s' where s': "rbtree_delete (Some z) s = Some (Inr s')" "holds s' ?t"
    using delete_zip [OF assms(1) [unfolded holds_plug] i subset_refl] holds_plug by blast
  have c: "cinvh fs (bheight (Bin l z c r))" using assms(2) invh_plug [of fs] unfolding rb_def by blast
  have "rb ?t \<longleftrightarrow> \<not> gap l c r \<or> plug fs (Bin l z c r) = Bin Tip z BLACK Tip"
  proof (cases fs)
    case Nil
    then have "rb ?t \<longleftrightarrow> invh (remaining l c r)" using remaining_colors [OF assms(2)] by (auto simp: rb_def)
    moreover have "invh (remaining l c r) \<longleftrightarrow> \<not> gap l c r \<or> l = Tip \<and> r = Tip"
      using i remaining_inv [OF i] cut_inv [of r] by (cases "l = Tip"; cases "r = Tip") (auto simp: remaining_def gap_def)
    ultimately show ?thesis using Nil assms(2) by (cases c) (auto simp: rb_def gap_def)
  next
    case (Cons f gs)
    have "faddr f \<noteq> z" "faddr f \<in> set (addrs (plug fs (Bin l z c r)))"
      using assms(1) [unfolded holds_plug] Cons by (auto simp: zip_at_def set_plug)
    then have ne: "plug fs (Bin l z c r) \<noteq> Bin Tip z BLACK Tip" by auto
    have "rb ?t \<longleftrightarrow> invh (remaining l c r) \<and> cinvh fs (bheight (remaining l c r))"
      using remaining_colors [OF assms(2)] by (auto simp: rb_def invh_plug)
    also have "\<dots> \<longleftrightarrow> invh (remaining l c r) \<and> bheight (remaining l c r) = bheight (Bin l z c r)"
      using c Cons by auto
    finally show ?thesis using remaining_inv [OF i] ne by blast
  qed
  then show ?thesis using s' by blast
qed

section \<open>Examples\<close>

text \<open>Three nodes: node 1 with the children 0 and 2.\<close>

definition three :: "color \<Rightarrow> rbt" where
  "three c = Bin (Bin Tip 0 c Tip) 1 BLACK (Bin Tip 2 c Tip)"

definition three_mem :: "color \<Rightarrow> rbtree" where
  "three_mem c = \<lparr>rn = [0 \<mapsto> \<lparr>r_color = c, r_left = None, r_right = None, r_parent = Some 1\<rparr>,
      1 \<mapsto> \<lparr>r_color = BLACK, r_left = Some 0, r_right = Some 2, r_parent = None\<rparr>,
      2 \<mapsto> \<lparr>r_color = c, r_left = None, r_right = None, r_parent = Some 1\<rparr>,
      3 \<mapsto> \<lparr>r_color = RED, r_left = None, r_right = None, r_parent = None\<rparr>], t_root = Some 1\<rparr>"

lemma three_holds: "holds (three_mem c) (three c)" "rb (three c)"
  by (simp_all add: holds_def three_mem_def three_def rb_def)

lemma delete_keeps_order_witness: "\<exists>s' t'. rbtree_delete (Some 1) (three_mem RED) = Some (Inr s') \<and> holds s' t' \<and> addrs t' = [0, 2]"
  using delete_keeps_order [OF three_holds [of RED], of 1] by (auto simp: three_def)

lemma delete_balance_witness: "\<exists>s' t'. rbtree_delete (Some 0) (three_mem BLACK) = Some (Inr s') \<and> holds s' t' \<and> \<not> rb t'"
proof -
  have p: "plug [FL 1 BLACK (Bin Tip 2 BLACK Tip)] (Bin Tip 0 BLACK Tip) = three BLACK" by (simp add: three_def)
  show ?thesis
    using delete_balance [of "three_mem BLACK" "[FL 1 BLACK (Bin Tip 2 BLACK Tip)]" Tip 0 BLACK Tip] three_holds [of BLACK]
    unfolding p by (auto simp: gap_def three_def)
qed

lemma link_fixup_balanced_witness:
  "\<exists>s1 s2 t. rbtree_link (Some 3) (LRight 2) (Some 2) (three_mem RED) = Inr s1 \<and> rbtree_fixup (Some 3) s1 = Some (Inr s2) \<and>
     holds s2 t \<and> rb t \<and> addrs t = [0, 1, 2, 3]"
proof -
  let ?fs = "[FR Tip 2 RED, FR (Bin Tip 0 RED Tip) 1 BLACK]"
  have p: "plug ?fs Tip = three RED" by (simp add: three_def)
  have "\<exists>m. rn (three_mem RED) 3 = Some m" "3 \<notin> set (addrs (three RED))" by (simp_all add: three_mem_def three_def)
  then show ?thesis
    using link_fixup_balanced [of "three_mem RED" ?fs 3] three_holds [of RED] unfolding p by (auto simp: place_def) blast
qed

text \<open>A node is put into an empty tree.\<close>

definition free_mem :: rbtree where
  "free_mem = \<lparr>rn = (\<lambda>_. Some \<lparr>r_color = RED, r_left = None, r_right = None, r_parent = None\<rparr>), t_root = None\<rparr>"

theorem insertions_balanced_witness:
  "\<exists>s. reach rb_none grow (s, {5}) \<and> descend [True, False, True, False] (t_root s) s = Inr None"
proof -
  have e: "reach rb_none grow (free_mem, {})" by (rule reach_start) (simp add: rb_none_def free_mem_def)
  have "holds free_mem (plug [] Tip)" "\<exists>m. rn free_mem 5 = Some m" by (simp_all add: holds_def free_mem_def)
  then obtain s where "grow (free_mem, {}) (s, {5})" using insertions_balanced [OF e] by blast
  with e have s: "reach rb_none grow (s, {5})" by (rule reach_step)
  have "card {5 :: nat} + 1 < 2 ^ (length [True, False, True, False] div 2)" by simp
  then show ?thesis using s insertions_balanced [OF s] by blast
qed

end
