(* ===== verification/Tmpfs.thy ===== *)
theory Tmpfs
  imports Rbtree_Del File
begin

unbundle bit_operations_syntax

text \<open>
  kernel/fs/phy/tmpfs.c: files in memory. An entry keeps the pages of its file in a red-black tree ordered by
  their index, larger ones to the left; the tree nodes are embedded in the page descriptors, so a descriptor and
  its node share an address. The memory of a page is a field of its descriptor: \<open>vmm_allocpages\<close> hands out
  pages that are apart from each other, with the arbitrary content \<open>tf_pjunk\<close>. What \<open>malloc\<close> leaves in the
  fields that the code does not set comes from \<open>junk\<close>, \<open>tf_ejunk\<close> and \<open>tf_rjunk\<close>.
\<close>

section \<open>State\<close>

definition PAGE :: nat where "PAGE = 4096"
definition ENOTEMPTY :: int where "ENOTEMPTY = 39"

record tpage =
  tp_idx :: u64
  tp_data :: bytes

record tentry =
  te_name :: string
  te_ino :: u64
  te_mode :: u32
  te_rdev :: u64
  te_parent :: "nat option"
  te_subdir :: "nat list"
  te_filsz :: u64
  te_root :: "nat option"

record tmpfs = vfs +
  tf_rb :: "nat \<Rightarrow> rbnode option"
  tf_pages :: "nat \<Rightarrow> tpage option"
  tf_ents :: "nat \<Rightarrow> tentry option"
  tf_npage :: nat
  tf_nent :: nat
  tf_nnode :: nid
  tf_ino :: u64
  tf_dev :: u64
  tf_pjunk :: "nat \<Rightarrow> bytes"
  tf_rjunk :: rbnode
  tf_ejunk :: tentry

definition ent_at :: "nat \<Rightarrow> tmpfs \<Rightarrow> tentry result" where
  "ent_at e s = (case tf_ents s e of None \<Rightarrow> Inl BadAccess | Some x \<Rightarrow> Inr x)"

definition page_at :: "nat option \<Rightarrow> tmpfs \<Rightarrow> tpage result" where
  "page_at p s = (case p of None \<Rightarrow> Inl BadAccess | Some i \<Rightarrow> (case tf_pages s i of None \<Rightarrow> Inl BadAccess | Some x \<Rightarrow> Inr x))"

definition set_ent :: "nat \<Rightarrow> tentry \<Rightarrow> tmpfs \<Rightarrow> tmpfs" where
  "set_ent e x s = s\<lparr>tf_ents := (tf_ents s)(e \<mapsto> x)\<rparr>"

text \<open>The tree of an entry, and the state after the library changed it.\<close>

definition tree_of :: "tentry \<Rightarrow> tmpfs \<Rightarrow> rbtree" where
  "tree_of x s = \<lparr>rn = tf_rb s, t_root = te_root x\<rparr>"

definition put_tree :: "nat \<Rightarrow> tentry \<Rightarrow> rbtree \<Rightarrow> tmpfs \<Rightarrow> tmpfs" where
  "put_tree e x t s = set_ent e (x\<lparr>te_root := t_root t\<rparr>) (s\<lparr>tf_rb := rn t\<rparr>)"

definition div_round_up :: "u64 \<Rightarrow> u64 \<Rightarrow> u64" where
  "div_round_up n d = (n + (d - 1)) div d"

section \<open>Entries\<close>

primrec ent_find :: "nat list \<Rightarrow> string \<Rightarrow> tmpfs \<Rightarrow> nat option result" where
  "ent_find [] name s = Inr None"
| "ent_find (e # es) name s =
     bind_result (ent_at e s) (\<lambda>x. if cmp (te_name x) name then Inr (Some e) else ent_find es name s)"

definition tmp_ent_find :: "nat \<Rightarrow> string \<Rightarrow> tmpfs \<Rightarrow> nat option result" where
  "tmp_ent_find dir name s = bind_result (ent_at dir s) (\<lambda>d. ent_find (te_subdir d) name s)"

definition tmpfs_ent_count :: "nat \<Rightarrow> tmpfs \<Rightarrow> nat result" where
  "tmpfs_ent_count dir s = bind_result (ent_at dir s) (\<lambda>d. Inr (length (te_subdir d)))"

definition tmpfs_ent_regst :: "nat \<Rightarrow> nat \<Rightarrow> tmpfs \<Rightarrow> tmpfs result" where
  "tmpfs_ent_regst ent prt s =
     bind_result (ent_at prt s) (\<lambda>p.
     let s1 = set_ent prt (p\<lparr>te_subdir := ent # te_subdir p\<rparr>) s
     in bind_result (ent_at ent s1) (\<lambda>x. Inr (set_ent ent (x\<lparr>te_parent := Some prt\<rparr>) s1)))"

definition tmpfs_ent_unreg :: "nat \<Rightarrow> tmpfs \<Rightarrow> tmpfs result" where
  "tmpfs_ent_unreg ent s =
     bind_result (ent_at ent s) (\<lambda>x. case te_parent x of None \<Rightarrow> Inl BadAccess | Some prt \<Rightarrow>
     bind_result (ent_at prt s) (\<lambda>p. Inr (set_ent prt (p\<lparr>te_subdir := remove1 ent (te_subdir p)\<rparr>) s)))"

definition tmpfs_nodeget :: "nat \<Rightarrow> tmpfs \<Rightarrow> (nid \<times> tmpfs) result" where
  "tmpfs_nodeget ent s =
     bind_result (ent_at ent s) (\<lambda>x.
     let n = (junk s)\<lparr>n_name := te_name x, n_mode := te_mode x, n_siz := te_filsz x, n_ino := te_ino x,
               n_atime := now s, n_mtime := now s, n_ctime := now s, n_parent := None, n_child := [],
               n_dev := tf_dev s, n_rdev := te_rdev x, n_pdata := ent, n_mount := None\<rparr>;
         i = tf_nnode s
     in Inr (i, set_node i n (s\<lparr>tf_nnode := Suc i\<rparr>)))"

definition new_ent :: "string \<Rightarrow> u32 \<Rightarrow> tmpfs \<Rightarrow> tentry" where
  "new_ent name mode s = (tf_ejunk s)\<lparr>te_name := name, te_ino := tf_ino s, te_mode := mode, te_subdir := [],
     te_filsz := 0, te_root := None\<rparr>"

text \<open>The last steps of \<open>tmpfs_open\<close> and \<open>tmpfs_mknod\<close>: a node for the entry, hung below the directory.\<close>

definition give_node :: "nat \<Rightarrow> nid \<Rightarrow> tmpfs \<Rightarrow> (int \<times> nid option \<times> tmpfs) result" where
  "give_node ent parent s =
     bind_result (tmpfs_nodeget ent s) (\<lambda>(n, s1). bind_result (vfs_regst n parent s1) (\<lambda>s2. Inr (0, Some n, s2)))"

definition tmpfs_open :: "nid \<Rightarrow> string \<Rightarrow> u64 \<Rightarrow> u32 \<Rightarrow> tmpfs \<Rightarrow> (int \<times> nid option \<times> tmpfs) result" where
  "tmpfs_open parent name args mode s =
     bind_result (deref (Some parent) s) (\<lambda>pn.
     bind_result (tmp_ent_find (n_pdata pn) name s) (\<lambda>r. case r of
         Some e \<Rightarrow> give_node e parent s
       | None \<Rightarrow>
           if NOT args AND O_CREAT \<noteq> 0 then Inr (- ENOENT, None, s)
           else let m = (if args AND O_DIRECTORY \<noteq> 0 then mode OR 0x4000 else mode OR 0x8000);
                    e = tf_nent s;
                    s1 = set_ent e (new_ent name m s) (s\<lparr>tf_nent := Suc e, tf_ino := tf_ino s + 1\<rparr>)
                in bind_result (tmpfs_ent_regst e (n_pdata pn) s1) (\<lambda>s2. give_node e parent s2)))"

definition tmpfs_mknod :: "nid \<Rightarrow> string \<Rightarrow> u64 \<Rightarrow> u32 \<Rightarrow> tmpfs \<Rightarrow> (int \<times> nid option \<times> tmpfs) result" where
  "tmpfs_mknod parent name rdev mode s =
     bind_result (deref (Some parent) s) (\<lambda>pn.
     let e = tf_nent s;
         s1 = set_ent e ((new_ent name mode s)\<lparr>te_rdev := rdev\<rparr>) (s\<lparr>tf_nent := Suc e, tf_ino := tf_ino s + 1\<rparr>)
     in bind_result (tmpfs_ent_regst e (n_pdata pn) s1) (\<lambda>s2. give_node e parent s2))"

definition tmpfs_remove :: "nid \<Rightarrow> tmpfs \<Rightarrow> (int \<times> tmpfs) result" where
  "tmpfs_remove this s =
     bind_result (deref (Some this) s) (\<lambda>n.
     bind_result (ent_at (n_pdata n) s) (\<lambda>x.
       if te_subdir x \<noteq> [] then Inr (- ENOTEMPTY, s)
       else bind_result (tmpfs_ent_unreg (n_pdata n) s) (\<lambda>s1. Inr (0, s1\<lparr>tf_ents := (tf_ents s1)(n_pdata n := None)\<rparr>))))"

section \<open>Pages\<close>

partial_function (option) getblk_loop :: "u64 \<Rightarrow> loc \<Rightarrow> rbtree \<Rightarrow> tmpfs \<Rightarrow> nat option result option" where
  "getblk_loop idx pp t s =
     (case ld_loc pp t of
        Inl e \<Rightarrow> Some (Inl e)
      | Inr p \<Rightarrow> (case p of
          None \<Rightarrow> Some (Inr None)
        | Some i \<Rightarrow> (case page_at (Some i) s of
            Inl e \<Rightarrow> Some (Inl e)
          | Inr pg \<Rightarrow>
              if tp_idx pg < idx then getblk_loop idx (LLeft i) t s
              else if tp_idx pg > idx then getblk_loop idx (LRight i) t s
              else Some (Inr (Some i)))))"

definition getblk :: "nat \<Rightarrow> u64 \<Rightarrow> tmpfs \<Rightarrow> nat option result" where
  "getblk e idx s =
     bind_result (ent_at e s) (\<lambda>x. if \<not> S_ISREG (te_mode x) then Inl AssertFail else run (getblk_loop idx LRoot (tree_of x s) s))"

text \<open>The place of a new page; the same index twice is \<open>__builtin_unreachable\<close>.\<close>

partial_function (option) insert_loop :: "u64 \<Rightarrow> nat option \<Rightarrow> loc \<Rightarrow> rbtree \<Rightarrow> tmpfs \<Rightarrow> (nat option \<times> loc) result option" where
  "insert_loop idx p pp t s =
     (case ld_loc pp t of
        Inl e \<Rightarrow> Some (Inl e)
      | Inr q \<Rightarrow> (case q of
          None \<Rightarrow> Some (Inr (p, pp))
        | Some i \<Rightarrow> (case page_at (Some i) s of
            Inl e \<Rightarrow> Some (Inl e)
          | Inr pg \<Rightarrow>
              if tp_idx pg < idx then insert_loop idx (Some i) (LLeft i) t s
              else if tp_idx pg > idx then insert_loop idx (Some i) (LRight i) t s
              else Some (Inl Panic))))"

definition insert_page :: "nat \<Rightarrow> nat \<Rightarrow> tmpfs \<Rightarrow> tmpfs result" where
  "insert_page e ipg s =
     bind_result (ent_at e s) (\<lambda>x. bind_result (page_at (Some ipg) s) (\<lambda>pg.
     bind_result (run (insert_loop (tp_idx pg) None LRoot (tree_of x s) s)) (\<lambda>(p, pp).
     bind_result (rbtree_link (Some ipg) pp p (tree_of x s)) (\<lambda>t1.
     bind_result (run (rbtree_fixup (Some ipg) t1)) (\<lambda>t2. Inr (put_tree e x t2 s))))))"

text \<open>The loop of \<open>extend\<close> over the pages still missing; \<open>alloc_page\<close> is the descriptor with its page.\<close>

definition alloc_page :: "u64 \<Rightarrow> tmpfs \<Rightarrow> nat \<times> tmpfs" where
  "alloc_page idx s =
     (let i = tf_npage s
      in (i, s\<lparr>tf_npage := Suc i, tf_pages := (tf_pages s)(i \<mapsto> \<lparr>tp_idx = idx, tp_data = tf_pjunk s i\<rparr>),
               tf_rb := (tf_rb s)(i \<mapsto> tf_rjunk s)\<rparr>))"

primrec extend_loop :: "nat \<Rightarrow> nat \<Rightarrow> u64 \<Rightarrow> tmpfs \<Rightarrow> tmpfs result" where
  "extend_loop 0 e has s = Inr s"
| "extend_loop (Suc rem) e has s =
     (let (i, s1) = alloc_page has s
      in bind_result (insert_page e i s1) (\<lambda>s2. extend_loop rem e (has + 1) s2))"

definition extend :: "nat \<Rightarrow> u64 \<Rightarrow> tmpfs \<Rightarrow> tmpfs result" where
  "extend e siz s =
     bind_result (ent_at e s) (\<lambda>x.
     let req = div_round_up siz 4096; has = div_round_up (te_filsz x) 4096
     in if \<not> req \<ge> has then Inl AssertFail
        else bind_result (if has = req then Inr s else extend_loop (unat (req - has)) e has s) (\<lambda>s1.
             bind_result (ent_at e s1) (\<lambda>x1. Inr (set_ent e (x1\<lparr>te_filsz := siz\<rparr>) s1))))"

section \<open>Reading and writing\<close>

definition cpysiz :: "nat \<Rightarrow> nat \<Rightarrow> nat" where
  "cpysiz rem boff = min rem (if boff \<noteq> 0 then PAGE - boff else min rem PAGE)"

partial_function (option) read_loop :: "nat \<Rightarrow> u64 \<Rightarrow> nat \<Rightarrow> nat \<Rightarrow> bytes \<Rightarrow> tmpfs \<Rightarrow> bytes result option" where
  "read_loop e pidx boff rem buf s =
     (if rem = 0 then Some (Inr buf)
      else (case bind_result (getblk e pidx s) (\<lambda>p. page_at p s) of
              Inl f \<Rightarrow> Some (Inl f)
            | Inr pg \<Rightarrow> let n = cpysiz rem boff
                in read_loop e (pidx + 1) 0 (rem - n) (buf @ take n (drop boff (tp_data pg))) s))"

text \<open>The number that a \<open>size_t\<close> becomes when it is returned as an \<open>int\<close>.\<close>

definition int_of :: "u64 \<Rightarrow> int" where
  "int_of n = sint (ucast n :: 32 word)"

definition tmpfs_read :: "nid \<Rightarrow> u64 \<Rightarrow> u64 \<Rightarrow> tmpfs \<Rightarrow> (int \<times> bytes \<times> tmpfs) result" where
  "tmpfs_read this siz0 offset s =
     (if siz0 = 0 then Inr (0, [], s)
      else bind_result (deref (Some this) s) (\<lambda>n.
        if offset \<ge> n_siz n then Inr (0, [], s)
        else let siz = min (n_siz n) (offset + siz0) - offset
             in bind_result (run (read_loop (n_pdata n) (offset div 4096) (unat (offset mod 4096)) (unat siz) [] s)) (\<lambda>buf.
                Inr (int_of siz, buf, set_node this (n\<lparr>n_atime := now s\<rparr>) s))))"

partial_function (option) write_loop :: "nat \<Rightarrow> u64 \<Rightarrow> nat \<Rightarrow> nat \<Rightarrow> bytes \<Rightarrow> tmpfs \<Rightarrow> tmpfs result option" where
  "write_loop e pidx boff rem buf s =
     (if rem = 0 then Some (Inr s)
      else (case bind_result (getblk e pidx s) (\<lambda>p. bind_result (page_at p s) (\<lambda>pg. Inr (the p, pg))) of
              Inl f \<Rightarrow> Some (Inl f)
            | Inr q \<Rightarrow> let n = cpysiz rem boff; d = tp_data (snd q);
                  pg' = (snd q)\<lparr>tp_data := take boff d @ take n buf @ drop (boff + n) d\<rparr>
                in write_loop e (pidx + 1) 0 (rem - n) (drop n buf) (s\<lparr>tf_pages := (tf_pages s)(fst q \<mapsto> pg')\<rparr>)))"

definition tmpfs_write :: "nid \<Rightarrow> bytes \<Rightarrow> u64 \<Rightarrow> tmpfs \<Rightarrow> (int \<times> tmpfs) result" where
  "tmpfs_write this buf offset s =
     (let siz = of_nat (length buf); maxpos = siz + offset
      in bind_result (deref (Some this) s) (\<lambda>n.
         bind_result (if maxpos > n_siz n
                      then bind_result (extend (n_pdata n) maxpos s) (\<lambda>s1. Inr (set_node this (n\<lparr>n_siz := maxpos\<rparr>) s1))
                      else Inr s) (\<lambda>s1.
         bind_result (run (write_loop (n_pdata n) (offset div 4096) (unat (offset mod 4096)) (unat siz) buf s1)) (\<lambda>s2.
         bind_result (deref (Some this) s2) (\<lambda>n2. Inr (int_of siz, set_node this (n2\<lparr>n_atime := now s2\<rparr>) s2))))))"

partial_function (option) trunc_loop :: "nat \<Rightarrow> u64 \<Rightarrow> u64 \<Rightarrow> tmpfs \<Rightarrow> tmpfs result option" where
  "trunc_loop e pidx final s =
     (if pidx \<le> final
      then (case bind_result (getblk e pidx s) (\<lambda>p. bind_result (ent_at e s) (\<lambda>x.
                  bind_result (run (rbtree_delete p (tree_of x s))) (\<lambda>t. Inr (put_tree e x t s)))) of
              Inl f \<Rightarrow> Some (Inl f)
            | Inr s1 \<Rightarrow> trunc_loop e (pidx + 1) final s1)
      else Some (Inr s))"

definition tmpfs_truncate :: "nid \<Rightarrow> u64 \<Rightarrow> tmpfs \<Rightarrow> (int \<times> tmpfs) result" where
  "tmpfs_truncate this len s =
     bind_result (deref (Some this) s) (\<lambda>n.
       if len = n_siz n then Inr (0, s)
       else bind_result (if len > n_siz n then extend (n_pdata n) len s
                         else run (trunc_loop (n_pdata n) (div_round_up len 4096) (div_round_up (n_siz n) 4096) s)) (\<lambda>s1.
            Inr (0, set_node this (n\<lparr>n_siz := len\<rparr>) s1)))"

definition tmpfs_close :: "nid \<Rightarrow> tmpfs \<Rightarrow> (int \<times> tmpfs) result" where
  "tmpfs_close this s = Inr (0, s)"

end
