(* ===== verification/Byte_File.thy ===== *)
theory Byte_File
  imports File
begin

text \<open>
  What a file system promises for one file: reading and writing act on a sequence of bytes, up to
  a size the file system can handle. The laws are stated once; tmpfs and minix provide them, and the system calls of
  kernel/file.c are a client.
\<close>

lemma slot_set_file [simp]: "slot fd (set_file i x f) = slot fd f"
  by (simp add: slot_def set_file_def)

lemma slot_cong: "f_tab f' = f_tab f \<Longrightarrow> slot fd f' = slot fd f"
  by (simp add: slot_def)

locale byte_file =
  fixes rd :: "u64 \<Rightarrow> u64 \<Rightarrow> 's \<Rightarrow> (int \<times> bytes \<times> 's) result"
    and wr :: "bytes \<Rightarrow> u64 \<Rightarrow> 's \<Rightarrow> (int \<times> 's) result"
    and content :: "'s \<Rightarrow> bytes" and good :: "'s \<Rightarrow> bool" and limit :: nat
  assumes rd_good: "good s \<Longrightarrow> unat off + unat cnt \<le> limit \<Longrightarrow>
      \<exists>s'. rd cnt off s = Inr (int (length (take (unat cnt) (drop (unat off) (content s)))), take (unat cnt) (drop (unat off) (content s)), s') \<and>
        good s' \<and> content s' = content s"
    and wr_good: "good s \<Longrightarrow> bs \<noteq> [] \<Longrightarrow> unat off \<le> length (content s) \<Longrightarrow> unat off + length bs \<le> limit \<Longrightarrow>
      \<exists>s'. wr bs off s = Inr (int (length bs), s') \<and> good s' \<and>
        content s' = take (unat off) (content s) @ bs @ drop (unat off + length bs) (content s)"
    and limit_word: "limit < 2 ^ 63"
begin

lemma rd_after_wr:
  assumes "good s" "bs \<noteq> []" "unat off \<le> length (content s)" "unat off + length bs \<le> limit"
  shows "\<exists>s1 s2. wr bs off s = Inr (int (length bs), s1) \<and> rd (of_nat (length bs)) off s1 = Inr (int (length bs), bs, s2) \<and> good s2"
proof -
  obtain s1 where 1: "wr bs off s = Inr (int (length bs), s1)" "good s1"
    "content s1 = take (unat off) (content s) @ bs @ drop (unat off + length bs) (content s)"
    using wr_good [OF assms] by blast
  have u: "unat (of_nat (length bs) :: u64) = length bs" using assms(4) limit_word by (simp add: unat_of_nat_small)
  have "take (length bs) (drop (unat off) (content s1)) = bs" using 1(3) assms(3) by simp
  then show ?thesis using 1 rd_good [OF 1(2), of off "of_nat (length bs)"] assms(4) u by auto
qed

lemma rd_elsewhere:
  assumes "good s" "bs \<noteq> []" "unat off \<le> length (content s)" "unat off + length bs \<le> limit" "unat off' + unat cnt \<le> limit"
    "unat off' + unat cnt \<le> unat off \<or> unat off + length bs \<le> unat off'"
  shows "\<exists>s1 r d s2 s3. wr bs off s = Inr (int (length bs), s1) \<and> rd cnt off' s1 = Inr (r, d, s2) \<and> rd cnt off' s = Inr (r, d, s3)"
proof -
  let ?c = "content s"
  obtain s1 where 1: "wr bs off s = Inr (int (length bs), s1)" "good s1"
    "content s1 = take (unat off) ?c @ bs @ drop (unat off + length bs) ?c"
    using wr_good [OF assms(1-4)] by blast
  have "take (unat cnt) (drop (unat off') (content s1)) = take (unat cnt) (drop (unat off') ?c)"
    using assms(6)
  proof
    assume a: "unat off' + unat cnt \<le> unat off"
    then have "take (unat cnt) (drop (unat off') (content s1)) = take (unat cnt) (drop (unat off') (take (unat off) ?c))"
      unfolding 1(3) using assms(3) by simp
    also have "\<dots> = take (unat cnt) (drop (unat off') ?c)" using a by (simp add: drop_take min_def)
    finally show ?thesis .
  next
    assume a: "unat off + length bs \<le> unat off'"
    then have "drop (unat off') (content s1) = drop (unat off' - (unat off + length bs)) (drop (unat off + length bs) ?c)"
      unfolding 1(3) using assms(3) by simp
    then show ?thesis using a by simp
  qed
  then show ?thesis using 1 rd_good [OF 1(2) assms(5)] rd_good [OF assms(1,5)] by auto
qed

text \<open>Blocks written one after the other at the end of the file follow each other in it.\<close>

fun wr_all :: "bytes list \<Rightarrow> nat \<Rightarrow> 's \<Rightarrow> 's result" where
  "wr_all [] off s = Inr s"
| "wr_all (bs # bss) off s = bind_result (wr bs (of_nat off) s) (\<lambda>(r, s1). wr_all bss (off + nat r) s1)"

lemma wr_all_appends:
  assumes "good s" "[] \<notin> set bss" "length (content s) + length (concat bss) \<le> limit"
  shows "\<exists>s'. wr_all bss (length (content s)) s = Inr s' \<and> good s' \<and> content s' = content s @ concat bss"
  using assms
proof (induction bss arbitrary: s)
  case (Cons bs bss)
  have u: "unat (of_nat (length (content s)) :: u64) = length (content s)"
    using Cons.prems(3) limit_word by (simp add: unat_of_nat_small)
  obtain s1 where 1: "wr bs (of_nat (length (content s))) s = Inr (int (length bs), s1)" "good s1" "content s1 = content s @ bs"
    using wr_good [of s bs "of_nat (length (content s))"] Cons.prems u by auto
  then show ?case using Cons.IH [OF 1(2)] Cons.prems by auto
qed auto

end

text \<open>
  The system calls on a descriptor for such a file: \<open>V\<close> is the table of operations that kernel/file.c calls through and
  \<open>this\<close> the node of the file.
\<close>

locale open_file = byte_file rd wr content good limit
  for rd :: "u64 \<Rightarrow> u64 \<Rightarrow> 's \<Rightarrow> (int \<times> bytes \<times> 's) result" and wr :: "bytes \<Rightarrow> u64 \<Rightarrow> 's \<Rightarrow> (int \<times> 's) result"
    and content :: "'s \<Rightarrow> bytes" and good :: "'s \<Rightarrow> bool" and limit :: nat +
  fixes V :: "'s fsops" and this :: nid
  assumes V_read: "vo_read V this = rd" and V_write: "vo_write V this = wr"
    and V_mode: "good s \<Longrightarrow> \<exists>m. vo_mode V this s = Inr m \<and> \<not> S_ISDIR m"
begin

definition leads :: "int \<Rightarrow> nat \<Rightarrow> file_t \<Rightarrow> 's fdesc \<Rightarrow> bool" where
  "leads fd i x f \<longleftrightarrow> slot fd f = Inr (Some i) \<and> f_heap f i = Some x \<and> fl_node x = this \<and> fl_flgs x AND 3 = 2 \<and>
     fl_flgs x AND O_APPEND = 0 \<and> fl_flgs x AND O_DIR = 0"

lemma write_step:
  assumes l: "leads fd i x f" and g: "good (fs_st f)" "bs \<noteq> []" "unat (fl_offset x) \<le> length (content (fs_st f))" "unat (fl_offset x) + length bs \<le> limit"
  shows "\<exists>f' x'. sys_write V fd bs f = Inr (int (length bs), f') \<and> leads fd i x' f' \<and> unat (fl_offset x') = unat (fl_offset x) + length bs \<and>
    good (fs_st f') \<and> f_tab f' = f_tab f \<and> content (fs_st f') = take (unat (fl_offset x)) (content (fs_st f)) @ bs @
      drop (unat (fl_offset x) + length bs) (content (fs_st f))"
proof -
  obtain st where w: "wr bs (fl_offset x) (fs_st f) = Inr (int (length bs), st)" "good st"
    "content st = take (unat (fl_offset x)) (content (fs_st f)) @ bs @ drop (unat (fl_offset x) + length bs) (content (fs_st f))"
    using wr_good [OF g] by blast
  let ?o = "fl_offset x + of_nat (length bs)"
  have o: "unat ?o = unat (fl_offset x) + length bs"
    using g(4) limit_word by (subst unat_add_nowrap) (simp_all add: unat_of_nat_small)
  let ?x = "x\<lparr>fl_offset := ?o\<rparr>"
  let ?f = "set_file i ?x (f\<lparr>fs_st := st\<rparr>)"
  have "sys_write V fd bs f = Inr (int (length bs), ?f)"
    using l w(1) V_write by (simp add: sys_write_def leads_def file_at_def)
  moreover have "leads fd i ?x ?f" using l by (simp add: leads_def) (simp add: set_file_def)
  ultimately show ?thesis using o w(2,3) by (intro exI [of _ ?f] exI [of _ ?x]) (simp add: set_file_def)
qed

lemma read_step:
  assumes l: "leads fd i x f" and g: "good (fs_st f)" "unat (fl_offset x) + unat cnt \<le> limit"
  defines "bs \<equiv> take (unat cnt) (drop (unat (fl_offset x)) (content (fs_st f)))"
  shows "\<exists>f' x'. sys_read V fd cnt f = Inr (int (length bs), bs, f') \<and> leads fd i x' f' \<and>
    unat (fl_offset x') = unat (fl_offset x) + length bs \<and> good (fs_st f') \<and> content (fs_st f') = content (fs_st f)"
proof -
  obtain st where w: "rd cnt (fl_offset x) (fs_st f) = Inr (int (length bs), bs, st)" "good st" "content st = content (fs_st f)"
    using rd_good [OF g] unfolding bs_def by blast
  let ?o = "fl_offset x + of_nat (length bs)"
  have "unat (fl_offset x) + length bs \<le> limit" using g(2) by (simp add: bs_def)
  then have o: "unat ?o = unat (fl_offset x) + length bs"
    using limit_word by (subst unat_add_nowrap) (simp_all add: unat_of_nat_small)
  let ?x = "x\<lparr>fl_offset := ?o\<rparr>"
  let ?f = "set_file i ?x (f\<lparr>fs_st := st\<rparr>)"
  have "sys_read V fd cnt f = Inr (int (length bs), bs, ?f)"
    using l w(1) V_read by (simp add: sys_read_def leads_def file_at_def O_WRONLY_def)
  moreover have "leads fd i ?x ?f" using l by (simp add: leads_def) (simp add: set_file_def)
  ultimately show ?thesis using o w(2,3) by (intro exI [of _ ?f] exI [of _ ?x]) (simp add: set_file_def)
qed

lemma seek_step:
  assumes "leads fd i x f" "good (fs_st f)"
  shows "\<exists>f'. sys_lseek V fd off 0 f = Inr (sint off, f') \<and> leads fd i (x\<lparr>fl_offset := off\<rparr>) f' \<and> fs_st f' = fs_st f"
proof -
  let ?f = "set_file i (x\<lparr>fl_offset := off\<rparr>) f"
  have "sys_lseek V fd off 0 f = Inr (sint off, ?f)" using assms(1) V_mode [OF assms(2)] by (auto simp: sys_lseek_def leads_def file_at_def)
  moreover have "leads fd i (x\<lparr>fl_offset := off\<rparr>) ?f" using assms(1) by (simp add: leads_def) (simp add: set_file_def)
  ultimately show ?thesis by (simp add: set_file_def)
qed

lemma write_seek_read:
  assumes "leads fd i x f" "good (fs_st f)" "bs \<noteq> []" "unat (fl_offset x) \<le> length (content (fs_st f))" "unat (fl_offset x) + length bs \<le> limit"
  shows "\<exists>f1 f2 f3. sys_write V fd bs f = Inr (int (length bs), f1) \<and> sys_lseek V fd (fl_offset x) 0 f1 = Inr (sint (fl_offset x), f2) \<and>
    sys_read V fd (of_nat (length bs)) f2 = Inr (int (length bs), bs, f3)"
proof -
  obtain f1 x1 where 1: "sys_write V fd bs f = Inr (int (length bs), f1)" "leads fd i x1 f1" "good (fs_st f1)"
      "content (fs_st f1) = take (unat (fl_offset x)) (content (fs_st f)) @ bs @ drop (unat (fl_offset x) + length bs) (content (fs_st f))"
    using write_step [OF assms] by blast
  obtain f2 where 2: "sys_lseek V fd (fl_offset x) 0 f1 = Inr (sint (fl_offset x), f2)" "leads fd i (x1\<lparr>fl_offset := fl_offset x\<rparr>) f2" "fs_st f2 = fs_st f1"
    using seek_step [OF 1(2,3)] by blast
  have u: "unat (of_nat (length bs) :: u64) = length bs" using assms(5) limit_word by (simp add: unat_of_nat_small)
  have "take (length bs) (drop (unat (fl_offset x)) (content (fs_st f2))) = bs" using 1(4) 2(3) assms(4) by simp
  then show ?thesis using 1(1) 2(1) read_step [OF 2(2), of "of_nat (length bs)"] 1(3) 2(3) assms(5) u by auto
qed

text \<open>Two descriptors of one open file share its offset: what is written through the second follows what was written through the first.\<close>

lemma shared_offset:
  assumes l: "leads fd i x f" "slot fd' f = Inr (Some i)" and g: "good (fs_st f)" "as \<noteq> []" "bs \<noteq> []"
    "unat (fl_offset x) = length (content (fs_st f))" "length (content (fs_st f)) + length as + length bs \<le> limit"
  shows "\<exists>f1 f2. sys_write V fd as f = Inr (int (length as), f1) \<and> sys_write V fd' bs f1 = Inr (int (length bs), f2) \<and>
    content (fs_st f2) = content (fs_st f) @ as @ bs"
proof -
  obtain f1 x1 where 1: "sys_write V fd as f = Inr (int (length as), f1)" "leads fd i x1 f1" "unat (fl_offset x1) = unat (fl_offset x) + length as"
      "good (fs_st f1)" "f_tab f1 = f_tab f" "content (fs_st f1) = content (fs_st f) @ as"
    using write_step [OF l(1) g(1,2)] g(4,5) by auto
  have "leads fd' i x1 f1" using 1(2) slot_cong [OF 1(5)] l(2) by (simp add: leads_def)
  then show ?thesis using write_step [of fd' i x1 f1 bs] 1 g by auto
qed

end

end
