(* ===== verification/Tmpfs_File.thy ===== *)
theory Tmpfs_File
  imports Tmpfs Byte_File
begin

unbundle bit_operations_syntax

text \<open>
  A file of tmpfs as a sequence of bytes: the tree of an entry is searched correctly, holds exactly the pages of the
  file in order, and reading and writing page by page is reading and writing this sequence.
\<close>

section \<open>Searching the tree\<close>

definition key :: "tmpfs \<Rightarrow> nat \<Rightarrow> u64" where
  "key s i = tp_idx (the (tf_pages s i))"

lemma up_place: "place (FL i c r # fs) = LLeft i" "place (FR l i c # fs) = LRight i" "place [] = LRoot"
  by (simp_all add: place_def)

lemma find_none_if: "(\<And>i. i \<in> set xs \<Longrightarrow> \<not> P i) \<Longrightarrow> find P xs = None"
  by (auto simp: find_None_iff)

lemma find_append: "find P (xs @ ys) = (case find P xs of None \<Rightarrow> find P ys | Some i \<Rightarrow> Some i)"
  by (induction xs) auto

lemma getblk_zip:
  assumes "zip_at T fs t" "\<forall>i\<in>set (addrs t). tf_pages s i \<noteq> None" "sorted_wrt (\<lambda>a b. key s a > key s b) (addrs t)"
  shows "getblk_loop idx (place fs) T s = Some (Inr (find (\<lambda>i. key s i = idx) (addrs t)))"
  using assms
proof (induction t arbitrary: fs)
  case Tip
  then show ?case using ld_place [OF Tip(1)] by (simp add: getblk_loop.simps)
next
  case (Bin l i c r)
  note ld = ld_place [OF Bin.prems(1)]
  obtain pg where pg: "tf_pages s i = Some pg" using Bin.prems(2) by auto
  then have k: "tp_idx pg = key s i" by (simp add: key_def)
  have L: "getblk_loop idx (LLeft i) T s = Some (Inr (find (\<lambda>i. key s i = idx) (addrs l)))"
    using Bin.IH(1) [of "FL i c r # fs"] Bin.prems zip_down [of T fs "FL i c r" l] by (simp add: up_place sorted_wrt_append)
  have R: "getblk_loop idx (LRight i) T s = Some (Inr (find (\<lambda>i. key s i = idx) (addrs r)))"
    using Bin.IH(2) [of "FR l i c # fs"] Bin.prems zip_down [of T fs "FR l i c" r] by (simp add: up_place sorted_wrt_append)
  have lr: "\<forall>j\<in>set (addrs l). key s j > key s i" "\<forall>j\<in>set (addrs r). key s i > key s j"
    using Bin.prems(3) by (auto simp: sorted_wrt_append)
  consider "key s i < idx" | "key s i = idx" | "key s i > idx" using less_linear by blast
  then show ?case
  proof cases
    case 1
    then have "find (\<lambda>i. key s i = idx) (addrs r) = None" using lr(2) by (intro find_none_if) force
    then show ?thesis using ld pg k 1 L by (auto simp: getblk_loop.simps [of idx "place fs"] page_at_def find_append split: option.split)
  next
    case 2
    then have "find (\<lambda>i. key s i = idx) (addrs l) = None" using lr(1) by (intro find_none_if) force
    then show ?thesis using ld pg k 2 by (simp add: getblk_loop.simps [of idx "place fs"] page_at_def find_append)
  next
    case 3
    then have "find (\<lambda>i. key s i = idx) (addrs l) = None" using lr(1) by (intro find_none_if) force
    then show ?thesis using ld pg k 3 R by (auto simp: getblk_loop.simps [of idx "place fs"] page_at_def find_append)
  qed
qed

text \<open>A page with a larger index than all others goes to the far left.\<close>

lemma insert_zip:
  assumes "zip_at T fs t" "\<forall>i\<in>set (addrs t). tf_pages s i \<noteq> None" "\<forall>i\<in>set (addrs t). key s i < idx"
  shows "\<exists>ls. list_all lefty ls \<and> plug (ls @ fs) Tip = plug fs t \<and>
    insert_loop idx (up fs) (place fs) T s = Some (Inr (up (ls @ fs), place (ls @ fs)))"
  using assms
proof (induction t arbitrary: fs)
  case Tip
  then show ?case using ld_place [OF Tip(1)] by (intro exI [of _ "[]"]) (simp add: insert_loop.simps)
next
  case (Bin l i c r)
  note ld = ld_place [OF Bin.prems(1)]
  obtain pg where pg: "tf_pages s i = Some pg" "tp_idx pg < idx" using Bin.prems(2,3) by (auto simp: key_def)
  have "\<exists>ls. list_all lefty ls \<and> plug (ls @ FL i c r # fs) Tip = plug (FL i c r # fs) l \<and>
      insert_loop idx (Some i) (LLeft i) T s = Some (Inr (up (ls @ FL i c r # fs), place (ls @ FL i c r # fs)))"
    using Bin.IH(1) [of "FL i c r # fs"] Bin.prems zip_down [of T fs "FL i c r" l] by (simp add: up_place)
  then obtain ls where ls: "list_all lefty ls" "plug (ls @ FL i c r # fs) Tip = plug fs (Bin l i c r)"
    "insert_loop idx (Some i) (LLeft i) T s = Some (Inr (up (ls @ FL i c r # fs), place (ls @ FL i c r # fs)))" by auto
  have "insert_loop idx (up fs) (place fs) T s = insert_loop idx (Some i) (LLeft i) T s"
    using ld pg by (simp add: insert_loop.simps [of idx "up fs"] page_at_def)
  then show ?case using ls by (intro exI [of _ "ls @ [FL i c r]"]) simp
qed

section \<open>Good files\<close>

text \<open>
  \<open>fok s e x t\<close>: the entry \<open>e\<close>, a regular file with the fields \<open>x\<close>, has the balanced tree \<open>t\<close>; read from right to left
  its nodes are the pages 0, 1, 2 and so on, as many as the size of the file needs. While a file grows only \<open>ftree\<close> holds.
\<close>

definition pids :: "rbt \<Rightarrow> nat list" where
  "pids t = rev (addrs t)"

definition pages_ok :: "tmpfs \<Rightarrow> nat list \<Rightarrow> bool" where
  "pages_ok s is \<longleftrightarrow> (\<forall>k<length is. \<exists>pg. tf_pages s (is ! k) = Some pg \<and> tp_idx pg = of_nat k \<and> length (tp_data pg) = PAGE)"

definition ftree :: "tmpfs \<Rightarrow> nat \<Rightarrow> tentry \<Rightarrow> rbt \<Rightarrow> bool" where
  "ftree s e x t \<longleftrightarrow> tf_ents s e = Some x \<and> S_ISREG (te_mode x) \<and> holds (tree_of x s) t \<and> rb t \<and> pages_ok s (pids t) \<and>
     (\<forall>i\<in>set (addrs t). i < tf_npage s) \<and> (\<forall>i. length (tf_pjunk s i) = PAGE)"

definition fok :: "tmpfs \<Rightarrow> nat \<Rightarrow> tentry \<Rightarrow> rbt \<Rightarrow> bool" where
  "fok s e x t \<longleftrightarrow> ftree s e x t \<and> length (pids t) = (unat (te_filsz x) + 4095) div 4096 \<and> unat (te_filsz x) < 2 ^ 62"

lemma set_pids [simp]: "set (pids t) = set (addrs t)"
  by (simp add: pids_def)

lemma pages_key: "pages_ok s is \<Longrightarrow> k < length is \<Longrightarrow> key s (is ! k) = of_nat k"
  by (auto simp: pages_ok_def key_def)

lemma of_nat_less64: "i < 2 ^ 64 \<Longrightarrow> j < 2 ^ 64 \<Longrightarrow> (of_nat i :: u64) < of_nat j \<longleftrightarrow> i < j"
  by (simp add: word_less_nat_alt unat_of_nat_small)

lemma of_nat_eq64: "i < 2 ^ 64 \<Longrightarrow> j < 2 ^ 64 \<Longrightarrow> (of_nat i :: u64) = of_nat j \<longleftrightarrow> i = j"
  using of_nat_less64 [of i j] of_nat_less64 [of j i] by (metis linorder_neqE_nat order_less_irrefl)

lemma fok_len: "fok s e x t \<Longrightarrow> length (pids t) < 2 ^ 51"
  by (auto simp: fok_def ftree_def)

lemma fok_sorted:
  assumes "fok s e x t"
  shows "sorted_wrt (\<lambda>a b. key s a > key s b) (addrs t)" "\<forall>i\<in>set (addrs t). tf_pages s i \<noteq> None"
proof -
  have p: "pages_ok s (pids t)" using assms by (simp add: fok_def ftree_def)
  note n = fok_len [OF assms]
  have "sorted_wrt (\<lambda>a b. key s a < key s b) (pids t)"
    unfolding sorted_wrt_iff_nth_less
  proof (intro allI impI)
    fix i j assume ij: "i < j" "j < length (pids t)"
    then have "i < 2 ^ 64" "j < 2 ^ 64" using n by auto
    then show "key s (pids t ! i) < key s (pids t ! j)"
      using ij pages_key [OF p] of_nat_less64 [of i j] by simp
  qed
  then show "sorted_wrt (\<lambda>a b. key s a > key s b) (addrs t)" by (simp add: pids_def sorted_wrt_rev)
  have "\<forall>i\<in>set (pids t). tf_pages s i \<noteq> None" using p unfolding pages_ok_def by (metis in_set_conv_nth option.distinct(1))
  then show "\<forall>i\<in>set (addrs t). tf_pages s i \<noteq> None" by simp
qed

lemma find_nth:
  assumes "i < length xs" "P (xs ! i)" "\<And>j. j < length xs \<Longrightarrow> j \<noteq> i \<Longrightarrow> \<not> P (xs ! j)"
  shows "find P xs = Some (xs ! i)"
  using assms by (auto simp: find_Some_iff intro!: exI [of _ i])

text \<open>\<open>getblk\<close> finds every page of the file and no other.\<close>

lemma getblk_fok:
  assumes f: "fok s e x t" and k: "k < 2 ^ 64"
  shows "getblk e (of_nat k) s = Inr (if k < length (pids t) then Some (pids t ! k) else None)"
proof -
  have p: "pages_ok s (pids t)" "tf_ents s e = Some x" "S_ISREG (te_mode x)" "holds (tree_of x s) t" using f by (simp_all add: fok_def ftree_def)
  note n = fok_len [OF f]
  have a: "addrs t = rev (pids t)" by (simp add: pids_def)
  have key: "key s (addrs t ! j) = of_nat k \<longleftrightarrow> j = length (pids t) - Suc k \<and> k < length (pids t)" if "j < length (pids t)" for j
  proof -
    have "key s (addrs t ! j) = of_nat (length (pids t) - Suc j)" using that pages_key [OF p(1)] by (simp add: a rev_nth)
    moreover have "length (pids t) - Suc j < 2 ^ 64" using n by simp
    then have "(of_nat (length (pids t) - Suc j) :: u64) = of_nat k \<longleftrightarrow> length (pids t) - Suc j = k" using k by (rule of_nat_eq64)
    moreover have "length (pids t) - Suc j = k \<longleftrightarrow> j = length (pids t) - Suc k \<and> k < length (pids t)" using that by linarith
    ultimately show ?thesis by simp
  qed
  have "find (\<lambda>i. key s i = of_nat k) (addrs t) = (if k < length (pids t) then Some (pids t ! k) else None)"
  proof (cases "k < length (pids t)")
    case True
    have "find (\<lambda>i. key s i = of_nat k) (addrs t) = Some (addrs t ! (length (pids t) - Suc k))"
      using True key by (intro find_nth) (auto simp: a)
    then show ?thesis using True by (simp add: a rev_nth)
  next
    case False
    then have "find (\<lambda>i. key s i = of_nat k) (addrs t) = None" using key unfolding find_None_iff in_set_conv_nth by (auto simp: a)
    with False show ?thesis by simp
  qed
  then show ?thesis
    using getblk_zip [OF p(4) [unfolded holds_zip] fok_sorted(2,1) [OF f], of "of_nat k"] p(2,3) by (simp add: getblk_def ent_at_def up_place)
qed

section \<open>Reading\<close>

definition pdata :: "tmpfs \<Rightarrow> nat \<Rightarrow> bytes" where
  "pdata s i = tp_data (the (tf_pages s i))"

lemma pdata_same [simp]: "pdata (set_ent e x s) = pdata s" "pdata (set_node n v s) = pdata s"
  by (simp_all add: pdata_def fun_eq_iff set_ent_def set_node_def)

text \<open>All bytes of the pages, and those that belong to the file.\<close>

definition fbytes :: "tmpfs \<Rightarrow> rbt \<Rightarrow> bytes" where
  "fbytes s t = concat (map (pdata s) (pids t))"

lemma fok_chunks: "fok s e x t \<Longrightarrow> \<forall>xs\<in>set (map (pdata s) (pids t)). length xs = 4096"
  by (auto simp: fok_def ftree_def pages_ok_def pdata_def PAGE_def in_set_conv_nth simp del: set_pids) fastforce

lemma length_fbytes: "fok s e x t \<Longrightarrow> length (fbytes s t) = 4096 * length (pids t)"
  using length_concat_chunks [OF fok_chunks] by (simp add: fbytes_def)

lemma page_fok:
  assumes "fok s e x t" "k < length (pids t)"
  shows "\<exists>pg. tf_pages s (pids t ! k) = Some pg \<and> tp_idx pg = of_nat k \<and> tp_data pg = pdata s (pids t ! k) \<and> length (tp_data pg) = 4096"
  using assms by (auto simp: fok_def ftree_def pages_ok_def pdata_def PAGE_def)

text \<open>The step of both loops: some bytes of one page, up to its end or the end of the request.\<close>

lemma cpysiz_step:
  assumes "0 < rem" "boff < 4096"
  shows "0 < cpysiz rem boff" "cpysiz rem boff \<le> rem" "boff + cpysiz rem boff \<le> 4096"
    "cpysiz rem boff = rem \<or> boff + cpysiz rem boff = 4096"
  using assms by (auto simp: cpysiz_def PAGE_def)

lemma read_loop_fok:
  assumes f: "fok s e x t" and "boff < 4096" "4096 * k + boff + rem \<le> 4096 * length (pids t)"
  shows "read_loop e (of_nat k) boff rem buf s = Some (Inr (buf @ take rem (drop (4096 * k + boff) (fbytes s t))))"
  using assms(2,3)
proof (induction rem arbitrary: k boff buf rule: less_induct)
  case (less rem)
  show ?case
  proof (cases "rem = 0")
    case True
    then show ?thesis by (simp add: read_loop.simps)
  next
    case False
    define n where "n = cpysiz rem boff"
    have n: "0 < n" "n \<le> rem" "boff + n \<le> 4096" "n = rem \<or> boff + n = 4096" using cpysiz_step [of rem boff] False less.prems(1) by (auto simp: n_def)
    have k: "k < length (pids t)" using less.prems False by linarith
    then have k64: "k < 2 ^ 64" using fok_len [OF f] by simp
    obtain pg where pg: "tf_pages s (pids t ! k) = Some pg" "tp_data pg = pdata s (pids t ! k)" using page_fok [OF f k] by blast
    have "take n (drop (4096 * k + boff) (fbytes s t)) = take n (drop boff (tp_data pg))"
      using chunk_slice [OF fok_chunks [OF f], of k boff n] k n(3) pg(2) by (simp add: fbytes_def)
    moreover have "read_loop e (of_nat k) boff rem buf s = read_loop e (of_nat (Suc k)) 0 (rem - n) (buf @ take n (drop boff (tp_data pg))) s"
      using False getblk_fok [OF f k64] k pg(1) by (simp add: read_loop.simps [of e "of_nat k"] page_at_def n_def Let_def add.commute)
    moreover have "read_loop e (of_nat (Suc k)) 0 (rem - n) b s = Some (Inr (b @ take (rem - n) (drop (4096 * k + boff + n) (fbytes s t))))" for b
    proof (cases "n = rem")
      case True
      then show ?thesis by (simp add: read_loop.simps)
    next
      case False
      then have e: "4096 * k + boff + n = 4096 * Suc k" using n(4) by simp
      then have "4096 * Suc k + 0 + (rem - n) \<le> 4096 * length (pids t)" using less.prems n(2) by linarith
      then show ?thesis using less.IH [of "rem - n" 0 "Suc k" b] n(1,2) unfolding e by simp
    qed
    ultimately show ?thesis using take_in_two [OF n(2), of "4096 * k + boff" "fbytes s t"] by simp
  qed
qed

section \<open>Writing\<close>

lemma pages_ok_upd:
  assumes "pages_ok s is" "distinct is" "k < length is" "tf_pages s (is ! k) = Some pg" "length d = PAGE"
  shows "pages_ok (s\<lparr>tf_pages := (tf_pages s)(is ! k \<mapsto> pg\<lparr>tp_data := d\<rparr>)\<rparr>) is"
  using assms by (auto simp: pages_ok_def nth_eq_iff_index_eq)

lemma fok_upd:
  assumes f: "fok s e x t" and k: "k < length (pids t)" "tf_pages s (pids t ! k) = Some pg" "length d = 4096"
  shows "fok (s\<lparr>tf_pages := (tf_pages s)(pids t ! k \<mapsto> pg\<lparr>tp_data := d\<rparr>)\<rparr>) e x t"
proof -
  have "distinct (pids t)" using f by (simp add: fok_def ftree_def holds_def pids_def)
  then show ?thesis using pages_ok_upd [of s "pids t" k pg d] f k by (auto simp: fok_def ftree_def tree_of_def PAGE_def)
qed

lemma fbytes_upd:
  assumes f: "fok s e x t" and k: "k < length (pids t)" "tf_pages s (pids t ! k) = Some pg" and b: "boff + length ys \<le> 4096"
  shows "fbytes (s\<lparr>tf_pages := (tf_pages s)(pids t ! k \<mapsto> pg\<lparr>tp_data := take boff (tp_data pg) @ ys @ drop (boff + length ys) (tp_data pg)\<rparr>)\<rparr>) t =
    take (4096 * k + boff) (fbytes s t) @ ys @ drop (4096 * k + boff + length ys) (fbytes s t)"
proof -
  let ?d = "take boff (tp_data pg) @ ys @ drop (boff + length ys) (tp_data pg)"
  let ?s = "s\<lparr>tf_pages := (tf_pages s)(pids t ! k \<mapsto> pg\<lparr>tp_data := ?d\<rparr>)\<rparr>"
  have d: "distinct (pids t)" using f by (simp add: fok_def ftree_def holds_def pids_def)
  have pd: "tp_data pg = pdata s (pids t ! k)" using k(2) by (simp add: pdata_def)
  have "map (pdata ?s) (pids t) = (map (pdata s) (pids t))[k := ?d]"
    using d k(1) by (intro nth_equalityI) (auto simp: nth_list_update pdata_def nth_eq_iff_index_eq)
  then show ?thesis
    using chunk_update [OF fok_chunks [OF f], of k boff ys] k(1) b pd by (simp add: fbytes_def)
qed

lemma write_loop_fok:
  assumes "fok s e x t" "boff < 4096" "4096 * k + boff + length buf \<le> 4096 * length (pids t)"
  shows "\<exists>P. write_loop e (of_nat k) boff (length buf) buf s = Some (Inr (s\<lparr>tf_pages := P\<rparr>)) \<and> fok (s\<lparr>tf_pages := P\<rparr>) e x t \<and>
    fbytes (s\<lparr>tf_pages := P\<rparr>) t = take (4096 * k + boff) (fbytes s t) @ buf @ drop (4096 * k + boff + length buf) (fbytes s t) \<and>
    (\<forall>i. i \<notin> set (addrs t) \<longrightarrow> P i = tf_pages s i)"
  using assms
proof (induction "length buf" arbitrary: k boff buf s rule: less_induct)
  case less
  note f = less.prems(1)
  show ?case
  proof (cases "buf = []")
    case True
    then show ?thesis using f by (intro exI [of _ "tf_pages s"]) (simp add: write_loop.simps)
  next
    case False
    define n where "n = cpysiz (length buf) boff"
    have n: "0 < n" "n \<le> length buf" "boff + n \<le> 4096" "n = length buf \<or> boff + n = 4096"
      using cpysiz_step [of "length buf" boff] False less.prems(2) by (auto simp: n_def)
    have k: "k < length (pids t)" using less.prems(3) False by (cases buf) auto
    then have k64: "k < 2 ^ 64" using fok_len [OF f] by simp
    obtain pg where pg: "tf_pages s (pids t ! k) = Some pg" "length (tp_data pg) = 4096" using page_fok [OF f k] by blast
    let ?ys = "take n buf"
    have ys: "length ?ys = n" using n(2) by simp
    let ?d = "take boff (tp_data pg) @ ?ys @ drop (boff + length ?ys) (tp_data pg)"
    define s1 where "s1 = s\<lparr>tf_pages := (tf_pages s)(pids t ! k \<mapsto> pg\<lparr>tp_data := ?d\<rparr>)\<rparr>"
    have f1: "fok s1 e x t" unfolding s1_def by (rule fok_upd [OF f k pg(1)]) (use n ys pg(2) in auto)
    have b1: "fbytes s1 t = take (4096 * k + boff) (fbytes s t) @ ?ys @ drop (4096 * k + boff + length ?ys) (fbytes s t)"
      unfolding s1_def by (rule fbytes_upd [OF f k pg(1)]) (use n ys in auto)
    have "write_loop e (of_nat k) boff (length buf) buf s = write_loop e (of_nat (Suc k)) 0 (length (drop n buf)) (drop n buf) s1"
      using False getblk_fok [OF f k64] k pg(1) n(2)
      by (simp add: write_loop.simps [of e "of_nat k"] page_at_def n_def [symmetric] Let_def add.commute s1_def)
    moreover have "\<exists>P. write_loop e (of_nat (Suc k)) 0 (length (drop n buf)) (drop n buf) s1 = Some (Inr (s1\<lparr>tf_pages := P\<rparr>)) \<and>
        fok (s1\<lparr>tf_pages := P\<rparr>) e x t \<and> fbytes (s1\<lparr>tf_pages := P\<rparr>) t =
          take (4096 * k + boff + n) (fbytes s1 t) @ drop n buf @ drop (4096 * k + boff + n + length (drop n buf)) (fbytes s1 t) \<and>
        (\<forall>i. i \<notin> set (addrs t) \<longrightarrow> P i = tf_pages s1 i)"
    proof (cases "n = length buf")
      case True
      then show ?thesis using f1 by (intro exI [of _ "tf_pages s1"]) (simp add: write_loop.simps)
    next
      case False
      then have e: "4096 * k + boff + n = 4096 * Suc k + 0" using n(4) by simp
      have "4096 * Suc k + 0 + length (drop n buf) \<le> 4096 * length (pids t)" using less.prems(3) e n(2) by simp
      moreover have "length (drop n buf) < length buf" using n(1,2) by simp
      ultimately show ?thesis unfolding e by (intro less.hyps f1) simp_all
    qed
    then obtain P where P: "write_loop e (of_nat (Suc k)) 0 (length (drop n buf)) (drop n buf) s1 = Some (Inr (s1\<lparr>tf_pages := P\<rparr>))"
      "fok (s1\<lparr>tf_pages := P\<rparr>) e x t" "fbytes (s1\<lparr>tf_pages := P\<rparr>) t =
          take (4096 * k + boff + n) (fbytes s1 t) @ drop n buf @ drop (4096 * k + boff + n + length (drop n buf)) (fbytes s1 t)"
      "\<forall>i. i \<notin> set (addrs t) \<longrightarrow> P i = tf_pages s1 i" by blast
    have "4096 * k + boff + length ?ys + length (drop n buf) \<le> length (fbytes s t)"
      using less.prems(3) n(2) by (simp add: length_fbytes [OF f])
    then have "fbytes (s1\<lparr>tf_pages := P\<rparr>) t = take (4096 * k + boff) (fbytes s t) @ buf @ drop (4096 * k + boff + length buf) (fbytes s t)"
      using overwrite_in_two [of "4096 * k + boff" ?ys "drop n buf" "fbytes s t"] unfolding P(3) b1 ys by simp
    moreover have "\<forall>i. i \<notin> set (addrs t) \<longrightarrow> P i = tf_pages s i" using P(4) nth_mem [OF k] by (auto simp: s1_def)
    moreover have "s1\<lparr>tf_pages := P\<rparr> = s\<lparr>tf_pages := P\<rparr>" by (simp add: s1_def)
    ultimately show ?thesis using P(1,2) \<open>write_loop e (of_nat k) boff (length buf) buf s = _\<close> by metis
  qed
qed

section \<open>Growing\<close>

text \<open>One round of \<open>extend\<close>: a fresh page with the next index joins the tree on the far left.\<close>

lemma insert_last:
  assumes f: "ftree s e x t" and n: "length (pids t) < 2 ^ 62"
  shows "\<exists>i s1 T t'. alloc_page (of_nat (length (pids t))) s = (i, s1) \<and> i = tf_npage s \<and>
    insert_page e i s1 = Inr (put_tree e x T s1) \<and> ftree (put_tree e x T s1) e (x\<lparr>te_root := t_root T\<rparr>) t' \<and> pids t' = pids t @ [i] \<and>
    same_off (insert i (set (addrs t))) (tree_of x s) T"
proof -
  define i where "i = tf_npage s"
  define idx :: u64 where "idx = of_nat (length (pids t))"
  define s1 where "s1 = snd (alloc_page idx s)"
  define T1 where "T1 = tree_of x s1"
  have e: "tf_ents s e = Some x" "S_ISREG (te_mode x)" "holds (tree_of x s) t" "rb t" "pages_ok s (pids t)" "\<forall>j\<in>set (addrs t). j < i"
    using f by (auto simp: ftree_def i_def)
  have i: "i \<notin> set (addrs t)" using e(6) by auto
  have h: "holds T1 t" using e(3) i by (simp add: holds_def tree_of_def T1_def s1_def alloc_page_def Let_def i_def)
  have p: "tf_pages s1 j = tf_pages s j" if "j \<in> set (addrs t)" for j
    using that i by (auto simp: s1_def alloc_page_def Let_def i_def)
  have mem: "\<exists>k<length (pids t). pids t ! k = j" if "j \<in> set (addrs t)" for j using that by (metis in_set_conv_nth set_pids)
  have "\<forall>j\<in>set (addrs t). tf_pages s1 j \<noteq> None \<and> key s1 j < idx"
  proof
    fix j assume j: "j \<in> set (addrs t)"
    then obtain k where k: "k < length (pids t)" "pids t ! k = j" using mem by blast
    then obtain pg where "tf_pages s j = Some pg" "tp_idx pg = of_nat k" using e(5) by (auto simp: pages_ok_def)
    moreover have "(of_nat k :: u64) < idx" unfolding idx_def using k(1) n by (subst of_nat_less64) auto
    ultimately show "tf_pages s1 j \<noteq> None \<and> key s1 j < idx" using p [OF j] by (simp add: key_def)
  qed
  then obtain ls where ls: "list_all lefty ls" "plug ls Tip = t" "insert_loop idx None LRoot T1 s1 = Some (Inr (up ls, place ls))"
    using insert_zip [of T1 "[]" t s1 idx] h by (auto simp: holds_zip up_place)
  have r: "rn T1 i = Some (tf_rjunk s)" by (simp add: T1_def tree_of_def s1_def alloc_page_def Let_def i_def)
  obtain t1 T t' where T: "rbtree_link (Some i) (place ls) (up ls) T1 = Inr t1" "rbtree_fixup (Some i) t1 = Some (Inr T)"
      "holds T t'" "rb t'" "addrs t' = addrs (plug ls (Bin Tip i RED Tip))" "same_off (insert i (set (addrs t))) T1 T"
    using link_fixup_rb [of T1 ls i] h e(4) r i unfolding ls(2) by blast
  obtain as where as: "\<forall>u. addrs (plug ls u) = addrs u @ as" using addrs_lefty [OF ls(1)] by blast
  then have "addrs t = as" using ls(2) by (metis append_Nil addrs.simps(1))
  then have pt: "pids t' = pids t @ [i]" using T(5) as by (simp add: pids_def)
  have ip: "insert_page e i s1 = Inr (put_tree e x T s1)"
    using e(1) ls(3) T(1,2) by (simp add: insert_page_def ent_at_def page_at_def s1_def alloc_page_def Let_def i_def T1_def idx_def)
  have "pages_ok s1 (pids t')"
    unfolding pages_ok_def
  proof (intro allI impI)
    fix k assume k: "k < length (pids t')"
    show "\<exists>pg. tf_pages s1 (pids t' ! k) = Some pg \<and> tp_idx pg = of_nat k \<and> length (tp_data pg) = PAGE"
    proof (cases "k = length (pids t)")
      case True
      then show ?thesis using f by (simp add: pt s1_def alloc_page_def Let_def i_def idx_def ftree_def)
    next
      case False
      then have k': "k < length (pids t)" using k pt by simp
      then have "pids t ! k \<in> set (addrs t)" using nth_mem by fastforce
      then show ?thesis using e(5) k' p pt by (auto simp: pages_ok_def nth_append)
    qed
  qed
  moreover have "\<forall>j\<in>set (addrs t'). j < Suc i" using pt e(6) by (metis less_Suc_eq set_pids set_append Un_iff list.set(1,2) insert_iff empty_iff)
  moreover have "tree_of (x\<lparr>te_root := t_root T\<rparr>) (put_tree e x T s1) = T" by (simp add: tree_of_def put_tree_def set_ent_def)
  ultimately have "ftree (put_tree e x T s1) e (x\<lparr>te_root := t_root T\<rparr>) t'"
    using f e(2) T(3,4) by (auto simp: ftree_def pages_ok_def put_tree_def set_ent_def s1_def alloc_page_def Let_def i_def)
  moreover have "same_off (insert i (set (addrs t))) (tree_of x s) T"
    using T(6) by (auto simp: same_off_def T1_def tree_of_def s1_def alloc_page_def Let_def i_def)
  moreover have "alloc_page idx s = (i, s1)" by (simp add: s1_def alloc_page_def Let_def i_def)
  ultimately show ?thesis using ip pt unfolding idx_def i_def by blast
qed

definition grown :: "nat \<Rightarrow> nat \<Rightarrow> tentry \<Rightarrow> rbt \<Rightarrow> tmpfs \<Rightarrow> tentry \<Rightarrow> rbt \<Rightarrow> tmpfs \<Rightarrow> bool" where
  "grown rem e x t s x' t' s' \<longleftrightarrow> (\<exists>R P. s' = s\<lparr>tf_npage := tf_npage s + rem, tf_pages := P, tf_rb := R, tf_ents := (tf_ents s)(e \<mapsto> x')\<rparr> \<and>
     x' = x\<lparr>te_root := te_root x'\<rparr> \<and> pids t' = pids t @ [tf_npage s..<tf_npage s + rem] \<and>
     (\<forall>i<tf_npage s. P i = tf_pages s i) \<and> (\<forall>i\<in>{tf_npage s..<tf_npage s + rem}. tp_data (the (P i)) = tf_pjunk s i) \<and>
     (\<forall>i<tf_npage s. i \<notin> set (addrs t) \<longrightarrow> R i = tf_rb s i))"

lemma extend_loop_ftree:
  assumes "ftree s e x t" "length (pids t) + rem < 2 ^ 62"
  shows "\<exists>x' t' s'. extend_loop rem e (of_nat (length (pids t))) s = Inr s' \<and> ftree s' e x' t' \<and> grown rem e x t s x' t' s'"
  using assms
proof (induction rem arbitrary: s x t)
  case 0
  have "tf_ents s = (tf_ents s)(e \<mapsto> x)" using 0(1) by (auto simp: ftree_def)
  then have "s = s\<lparr>tf_npage := tf_npage s, tf_pages := tf_pages s, tf_rb := tf_rb s, tf_ents := (tf_ents s)(e \<mapsto> x)\<rparr>" by simp
  then have "grown 0 e x t s x t s" unfolding grown_def by (intro exI [of _ "tf_rb s"] exI [of _ "tf_pages s"]) simp
  then show ?case using 0(1) by (intro exI [of _ x] exI [of _ t] exI [of _ s]) simp
next
  case (Suc rem)
  define i where "i = tf_npage s"
  obtain s1 T t1 where 1: "alloc_page (of_nat (length (pids t))) s = (i, s1)" "insert_page e i s1 = Inr (put_tree e x T s1)"
    "ftree (put_tree e x T s1) e (x\<lparr>te_root := t_root T\<rparr>) t1" "pids t1 = pids t @ [i]" "same_off (insert i (set (addrs t))) (tree_of x s) T"
    using insert_last [OF Suc.prems(1)] Suc.prems(2) unfolding i_def by auto
  define s2 where "s2 = put_tree e x T s1"
  have s1: "s1 = s\<lparr>tf_npage := Suc i, tf_pages := (tf_pages s)(i \<mapsto> \<lparr>tp_idx = of_nat (length (pids t)), tp_data = tf_pjunk s i\<rparr>),
      tf_rb := (tf_rb s)(i \<mapsto> tf_rjunk s)\<rparr>" using 1(1) by (simp add: alloc_page_def Let_def i_def)
  obtain x' t' s' where 2: "extend_loop rem e (of_nat (length (pids t1))) s2 = Inr s'" "ftree s' e x' t'" "grown rem e (x\<lparr>te_root := t_root T\<rparr>) t1 s2 x' t' s'"
    using Suc.IH [OF 1(3)] Suc.prems(2) 1(4) unfolding s2_def by auto
  have "extend_loop (Suc rem) e (of_nat (length (pids t))) s = Inr s'"
    using 1(1,2,4) 2(1) by (simp add: s2_def add.commute)
  moreover obtain R P where g: "s' = s2\<lparr>tf_npage := tf_npage s2 + rem, tf_pages := P, tf_rb := R, tf_ents := (tf_ents s2)(e \<mapsto> x')\<rparr>"
      "x' = x\<lparr>te_root := te_root x'\<rparr>" "pids t' = pids t1 @ [tf_npage s2..<tf_npage s2 + rem]"
      "\<forall>j<tf_npage s2. P j = tf_pages s2 j" "\<forall>j\<in>{tf_npage s2..<tf_npage s2 + rem}. tp_data (the (P j)) = tf_pjunk s2 j"
      "\<forall>j<tf_npage s2. j \<notin> set (addrs t1) \<longrightarrow> R j = tf_rb s2 j"
    using 2(3) unfolding grown_def by auto
  have s2: "tf_npage s2 = Suc i" "tf_pages s2 = tf_pages s1" "tf_pjunk s2 = tf_pjunk s" "tf_rb s2 = rn T" "tf_ents s2 = (tf_ents s)(e \<mapsto> x\<lparr>te_root := t_root T\<rparr>)"
    by (simp_all add: s2_def put_tree_def set_ent_def s1)
  have a1: "set (addrs t1) = insert i (set (addrs t))" using 1(4) by (metis set_pids set_append list.simps(15) empty_set Un_insert_right sup_bot.right_neutral)
  have "grown (Suc rem) e x t s x' t' s'"
    unfolding grown_def
  proof (intro exI [of _ R] exI [of _ P] conjI)
    show "s' = s\<lparr>tf_npage := tf_npage s + Suc rem, tf_pages := P, tf_rb := R, tf_ents := (tf_ents s)(e \<mapsto> x')\<rparr>"
      unfolding g(1) by (simp add: s2_def put_tree_def set_ent_def s1 i_def)
    show "x' = x\<lparr>te_root := te_root x'\<rparr>" by (rule g(2))
    show "pids t' = pids t @ [tf_npage s..<tf_npage s + Suc rem]" using g(3) 1(4) s2(1) by (simp add: i_def upt_rec [of "tf_npage s"])
    show "\<forall>j<tf_npage s. P j = tf_pages s j" using g(4) s2(1,2) by (simp add: i_def s1)
    show "\<forall>j\<in>{tf_npage s..<tf_npage s + Suc rem}. tp_data (the (P j)) = tf_pjunk s j"
    proof
      fix j assume "j \<in> {tf_npage s..<tf_npage s + Suc rem}"
      then consider "j = i" | "j \<in> {tf_npage s2..<tf_npage s2 + rem}" using s2(1) by (cases "j = i") (auto simp: i_def)
      then show "tp_data (the (P j)) = tf_pjunk s j" using g(4,5) s2 by cases (simp_all add: s1)
    qed
    show "\<forall>j<tf_npage s. j \<notin> set (addrs t) \<longrightarrow> R j = tf_rb s j"
      using g(6) s2(1,4) a1 1(5) by (auto simp: i_def same_off_def tree_of_def)
  qed
  ultimately show ?case using 2(2) by blast
qed

lemma div_round_up_nat: "unat n < 2 ^ 62 \<Longrightarrow> unat (div_round_up n 4096) = (unat n + 4095) div 4096"
  by (simp add: div_round_up_def unat_div unat_word_ariths)

lemma grown_bytes:
  assumes g: "grown rem e x t s x' t' s'" and f: "ftree s e x t"
  shows "fbytes s' t' = fbytes s t @ concat (map (tf_pjunk s) [tf_npage s..<tf_npage s + rem])"
proof -
  obtain R P where g: "s' = s\<lparr>tf_npage := tf_npage s + rem, tf_pages := P, tf_rb := R, tf_ents := (tf_ents s)(e \<mapsto> x')\<rparr>"
      "pids t' = pids t @ [tf_npage s..<tf_npage s + rem]" "\<forall>j<tf_npage s. P j = tf_pages s j"
      "\<forall>j\<in>{tf_npage s..<tf_npage s + rem}. tp_data (the (P j)) = tf_pjunk s j"
    using g unfolding grown_def by blast
  have "map (pdata s') (pids t) = map (pdata s) (pids t)" using g(1,3) f by (auto simp: pdata_def ftree_def)
  moreover have "map (pdata s') [tf_npage s..<tf_npage s + rem] = map (tf_pjunk s) [tf_npage s..<tf_npage s + rem]"
    using g(1,4) by (auto simp: pdata_def)
  ultimately show ?thesis unfolding fbytes_def g(2) map_append concat_append by metis
qed

text \<open>What growing and writing may not touch: the other entries, and the pages and tree nodes that do not belong to the file.\<close>

definition others :: "nat \<Rightarrow> rbt \<Rightarrow> tmpfs \<Rightarrow> tmpfs \<Rightarrow> bool" where
  "others e t s s' \<longleftrightarrow> (\<forall>e'. e' \<noteq> e \<longrightarrow> tf_ents s' e' = tf_ents s e') \<and>
     (\<forall>i<tf_npage s. i \<notin> set (addrs t) \<longrightarrow> tf_pages s' i = tf_pages s i \<and> tf_rb s' i = tf_rb s i) \<and>
     tf_pjunk s' = tf_pjunk s \<and> tf_npage s \<le> tf_npage s'"

text \<open>\<open>extend\<close> makes a file of the new size; the old bytes stay.\<close>

lemma extend_fok:
  assumes f: "fok s e x t" and siz: "te_filsz x \<le> siz" "unat siz < 2 ^ 62"
  shows "\<exists>x' t' s' g. extend e siz s = Inr s' \<and> fok s' e x' t' \<and> te_filsz x' = siz \<and> fbytes s' t' = fbytes s t @ g \<and>
    (\<exists>js. pids t' = pids t @ js \<and> (\<forall>j\<in>set js. tf_npage s \<le> j)) \<and> nodes s' = nodes s \<and> now s' = now s \<and> others e t s s'"
proof -
  have t: "ftree s e x t" "length (pids t) = (unat (te_filsz x) + 4095) div 4096" "unat (te_filsz x) < 2 ^ 62" using f by (simp_all add: fok_def)
  define req where "req = div_round_up siz 4096"
  define has where "has = div_round_up (te_filsz x) 4096"
  have u: "unat req = (unat siz + 4095) div 4096" "unat has = length (pids t)"
    using div_round_up_nat [OF siz(2)] div_round_up_nat [OF t(3)] t(2) by (simp_all add: req_def has_def)
  have le: "unat has \<le> unat req" unfolding u t(2) using siz(1) by (intro div_le_mono) (simp add: word_le_nat_alt)
  have h: "has = of_nat (length (pids t))" unfolding u(2) [symmetric] by simp
  have d: "unat (req - has) = unat req - unat has" using le by (simp add: unat_sub word_le_nat_alt)
  have "unat req < 2 ^ 62" using u(1) siz(2) by simp
  then have b: "length (pids t) + unat (req - has) < 2 ^ 62" using d le u(2) by linarith
  obtain x1 t' s1 where 1: "extend_loop (unat (req - has)) e has s = Inr s1" "ftree s1 e x1 t'" "grown (unat (req - has)) e x t s x1 t' s1"
    using extend_loop_ftree [OF t(1) b] unfolding h by blast
  have loop: "(if has = req then Inr s else extend_loop (unat (req - has)) e has s) = Inr s1" using 1(1) by auto
  define x' where "x' = x1\<lparr>te_filsz := siz\<rparr>"
  have "extend e siz s = Inr (set_ent e x' s1)"
    using t(1) 1(2) loop le by (auto simp: extend_def ent_at_def ftree_def Let_def req_def [symmetric] has_def [symmetric] x'_def word_le_nat_alt split: if_splits)
  moreover have "fok (set_ent e x' s1) e x' t'"
  proof -
    have "length (pids t') = unat req" using 1(3) d le u(2) by (auto simp: grown_def)
    moreover have "ftree (set_ent e x' s1) e x' t'" using 1(2) by (auto simp: ftree_def set_ent_def x'_def tree_of_def pages_ok_def)
    ultimately show ?thesis using u(1) siz(2) by (simp add: fok_def x'_def)
  qed
  moreover have "fbytes (set_ent e x' s1) t' = fbytes s t @ concat (map (tf_pjunk s) [tf_npage s..<tf_npage s + unat (req - has)])"
    using grown_bytes [OF 1(3) t(1)] by (simp add: fbytes_def)
  ultimately show ?thesis using 1(3) unfolding grown_def
    by (intro exI [of _ x'] exI [of _ t'] exI [of _ "set_ent e x' s1"]) (auto simp: x'_def set_ent_def others_def)
qed

section \<open>Files of tmpfs are sequences of bytes\<close>

text \<open>The bytes of a file, read off the pages that \<open>getblk\<close> finds.\<close>

definition tpagek :: "nat \<Rightarrow> nat \<Rightarrow> tmpfs \<Rightarrow> bytes" where
  "tpagek e k s = (case getblk e (of_nat k) s of Inr (Some i) \<Rightarrow> pdata s i | _ \<Rightarrow> [])"

definition tcontent :: "nid \<Rightarrow> tmpfs \<Rightarrow> bytes" where
  "tcontent this s = (case nodes s this of None \<Rightarrow> [] | Some n \<Rightarrow>
     take (unat (n_siz n)) (concat (map (\<lambda>k. tpagek (n_pdata n) k s) [0..<(unat (n_siz n) + 4095) div 4096])))"

text \<open>\<open>opened this s n x t\<close>: the node belongs to a good file and both know the same size.\<close>

definition opened :: "nid \<Rightarrow> tmpfs \<Rightarrow> node \<Rightarrow> tentry \<Rightarrow> rbt \<Rightarrow> bool" where
  "opened this s n x t \<longleftrightarrow> nodes s this = Some n \<and> fok s (n_pdata n) x t \<and> n_siz n = te_filsz x \<and> \<not> S_ISDIR (n_mode n)"

definition tgood :: "nid \<Rightarrow> tmpfs \<Rightarrow> bool" where
  "tgood this s \<longleftrightarrow> (\<exists>n x t. opened this s n x t)"

lemma tcontent_fok:
  assumes "opened this s n x t"
  shows "tcontent this s = take (unat (te_filsz x)) (fbytes s t)"
proof -
  have f: "fok s (n_pdata n) x t" "n_siz n = te_filsz x" using assms by (simp_all add: opened_def)
  have l: "(unat (n_siz n) + 4095) div 4096 = length (pids t)" using f by (simp add: fok_def)
  have "map (\<lambda>k. tpagek (n_pdata n) k s) [0..<length (pids t)] = map (pdata s) (pids t)"
  proof (rule nth_equalityI)
    fix k assume "k < length (map (\<lambda>k. tpagek (n_pdata n) k s) [0..<length (pids t)])"
    then have k: "k < length (pids t)" by simp
    then have "k < 2 ^ 64" using fok_len [OF f(1)] by simp
    then show "map (\<lambda>k. tpagek (n_pdata n) k s) [0..<length (pids t)] ! k = map (pdata s) (pids t) ! k"
      using getblk_fok [OF f(1)] k by (simp add: tpagek_def)
  qed simp
  then show ?thesis unfolding tcontent_def using assms l f(2) by (simp add: opened_def fbytes_def)
qed

lemma fok_size: "fok s e x t \<Longrightarrow> unat (te_filsz x) \<le> 4096 * length (pids t)"
  by (simp add: fok_def)

lemma length_tcontent: "opened this s n x t \<Longrightarrow> length (tcontent this s) = unat (te_filsz x)"
  using fok_size [of s "n_pdata n" x t] length_fbytes [of s "n_pdata n" x t] tcontent_fok [of this s n x t] by (simp add: opened_def)

lemma fok_set_node [simp]: "fok (set_node i v s) e x t = fok s e x t"
  by (simp add: fok_def ftree_def set_node_def tree_of_def pages_ok_def)

lemma fbytes_set_node [simp]: "fbytes (set_node i v s) t = fbytes s t"
  by (simp add: fbytes_def)

lemma int_of_small:
  assumes "unat w < 2 ^ 31"
  shows "int_of w = int (unat w)"
proof -
  have "uint w < 2 ^ 31" using assms by (metis of_nat_less_numeral_power_cancel_iff uint_nat)
  moreover have "- (2 ^ 31) \<le> uint w" by (rule order_trans [of _ 0]) simp_all
  ultimately have "signed_take_bit 31 (uint w) = uint w" by (intro signed_take_bit_int_eq_self)
  then show ?thesis using \<open>uint w < 2 ^ 31\<close>
    by (simp add: int_of_def sint_uint unsigned_ucast_eq take_bit_int_eq_self uint_nat [symmetric])
qed

lemma tmpfs_read_spec:
  assumes o: "opened this s n x t" and b: "unat off + unat cnt < 2 ^ 31"
  shows "\<exists>s'. tmpfs_read this cnt off s = Inr (int (length (take (unat cnt) (drop (unat off) (tcontent this s)))),
      take (unat cnt) (drop (unat off) (tcontent this s)), s') \<and> tgood this s' \<and> tcontent this s' = tcontent this s"
proof -
  let ?z = "unat (te_filsz x)"
  have f: "nodes s this = Some n" "fok s (n_pdata n) x t" "n_siz n = te_filsz x" using o by (simp_all add: opened_def)
  note len = length_tcontent [OF o]
  have same: "tgood this s" using o by (auto simp: tgood_def)
  show ?thesis
  proof (cases "cnt = 0 \<or> n_siz n \<le> off")
    case True
    then have "take (unat cnt) (drop (unat off) (tcontent this s)) = []" using len f(3) by (auto simp: word_le_nat_alt)
    then show ?thesis using True f(1) same by (auto simp: tmpfs_read_def deref_def)
  next
    case False
    then have lt: "unat off < ?z" using f(3) by (simp add: word_le_nat_alt)
    define siz where "siz = min (n_siz n) (off + cnt) - off"
    have a: "unat (off + cnt) = unat off + unat cnt" using b by (intro unat_add_nowrap) simp
    have u: "unat siz = min ?z (unat off + unat cnt) - unat off"
      using lt f(3) a by (simp add: siz_def unat_sub word_le_nat_alt unat_min min_def)
    have small: "unat siz < 2 ^ 31" using u b by linarith
    define k where "k = unat off div 4096"
    define r where "r = unat off mod 4096"
    have off: "unat off = 4096 * k + r" "r < 4096" by (simp_all add: k_def r_def)
    have kw: "off div 4096 = of_nat k" unfolding k_def by (simp add: word_arith_nat_div)
    have rw: "unat (off mod 4096) = r" unfolding r_def by (simp add: unat_mod)
    have "4096 * k + r + unat siz \<le> 4096 * length (pids t)" using off(1) u fok_size [OF f(2)] lt by linarith
    then have rd: "read_loop (n_pdata n) (of_nat k) r (unat siz) [] s = Some (Inr (take (unat siz) (drop (unat off) (fbytes s t))))"
      using read_loop_fok [OF f(2) off(2)] off(1) by simp
    have t: "take (unat siz) (drop (unat off) (fbytes s t)) = take (unat cnt) (drop (unat off) (tcontent this s))"
      unfolding tcontent_fok [OF o] u using lt by (cases "unat off + unat cnt \<le> ?z") (simp_all add: drop_take min_def)
    have l: "length (take (unat cnt) (drop (unat off) (tcontent this s))) = unat siz" using len u lt by simp
    define s' where "s' = set_node this (n\<lparr>n_atime := now s\<rparr>) s"
    have "tmpfs_read this cnt off s = Inr (int (unat siz), take (unat cnt) (drop (unat off) (tcontent this s)), s')"
      using False f(1) rd t int_of_small [OF small]
      by (simp add: tmpfs_read_def deref_def Let_def siz_def [symmetric] kw rw s'_def)
    moreover have o': "opened this s' (n\<lparr>n_atime := now s\<rparr>) x t" using f o by (simp add: opened_def s'_def) (simp add: set_node_def)
    moreover have "tcontent this s' = tcontent this s" using tcontent_fok [OF o] tcontent_fok [OF o'] by (simp add: s'_def)
    ultimately show ?thesis unfolding l by (auto simp: tgood_def)
  qed
qed

text \<open>The part before the loop: afterwards the file is large enough.\<close>

definition reserve :: "nid \<Rightarrow> node \<Rightarrow> u64 \<Rightarrow> tmpfs \<Rightarrow> tmpfs result" where
  "reserve this n maxpos s = (if maxpos > n_siz n then bind_result (extend (n_pdata n) maxpos s) (\<lambda>s1. Inr (set_node this (n\<lparr>n_siz := maxpos\<rparr>) s1)) else Inr s)"

lemma reserve_spec:
  assumes o: "opened this s n x t" and b: "unat maxpos < 2 ^ 62"
  shows "\<exists>n1 x1 t1 s1 g. reserve this n maxpos s = Inr s1 \<and> opened this s1 n1 x1 t1 \<and> n_pdata n1 = n_pdata n \<and>
    unat (te_filsz x1) = max (unat (te_filsz x)) (unat maxpos) \<and> fbytes s1 t1 = fbytes s t @ g \<and>
    others (n_pdata n) t s s1 \<and> (\<forall>i. i \<noteq> this \<longrightarrow> nodes s1 i = nodes s i) \<and> (\<forall>i\<in>set (addrs t1). i \<in> set (addrs t) \<or> tf_npage s \<le> i)"
proof (cases "maxpos > n_siz n")
  case True
  have f: "nodes s this = Some n" "fok s (n_pdata n) x t" "n_siz n = te_filsz x" using o by (simp_all add: opened_def)
  have le: "te_filsz x \<le> maxpos" using True f(3) by simp
  obtain x1 t1 s1 g js where e: "extend (n_pdata n) maxpos s = Inr s1" "fok s1 (n_pdata n) x1 t1" "te_filsz x1 = maxpos" "fbytes s1 t1 = fbytes s t @ g"
      "pids t1 = pids t @ js" "\<forall>j\<in>set js. tf_npage s \<le> j" "nodes s1 = nodes s" "others (n_pdata n) t s s1"
    using extend_fok [OF f(2) le b] by blast
  define s2 where "s2 = set_node this (n\<lparr>n_siz := maxpos\<rparr>) s1"
  have "reserve this n maxpos s = Inr s2" using True e(1) by (simp add: reserve_def s2_def)
  moreover have "opened this s2 (n\<lparr>n_siz := maxpos\<rparr>) x1 t1" using e(2,3) o by (simp add: opened_def s2_def) (simp add: set_node_def)
  moreover have "unat (te_filsz x1) = max (unat (te_filsz x)) (unat maxpos)" using e(3) le by (simp add: word_le_nat_alt)
  moreover have "fbytes s2 t1 = fbytes s t @ g" using e(4) by (simp add: s2_def)
  moreover have "others (n_pdata n) t s s2" using e(8) by (simp add: others_def s2_def set_node_def)
  moreover have "\<forall>i. i \<noteq> this \<longrightarrow> nodes s2 i = nodes s i" using e(7) by (simp add: s2_def set_node_def)
  moreover have "set (addrs t1) = set (addrs t) \<union> set js" using arg_cong [OF e(5), of set] by simp
  then have "\<forall>i\<in>set (addrs t1). i \<in> set (addrs t) \<or> tf_npage s \<le> i" using e(6) by blast
  moreover have "n_pdata (n\<lparr>n_siz := maxpos\<rparr>) = n_pdata n" by simp
  ultimately show ?thesis by blast
next
  case False
  then have "reserve this n maxpos s = Inr s" by (simp add: reserve_def)
  moreover have "unat (te_filsz x) = max (unat (te_filsz x)) (unat maxpos)" using False o by (simp add: opened_def word_less_nat_alt)
  moreover have "fbytes s t = fbytes s t @ []" "others (n_pdata n) t s s" by (simp_all add: others_def)
  ultimately show ?thesis using o by blast
qed

lemma tmpfs_write_spec:
  assumes o: "opened this s n x t" and b: "unat off + length buf < 2 ^ 31"
  shows "\<exists>n' x' t' s' g. tmpfs_write this buf off s = Inr (int (length buf), s') \<and> opened this s' n' x' t' \<and>
    unat (te_filsz x') = max (unat (te_filsz x)) (unat off + length buf) \<and>
    fbytes s' t' = take (unat off) (fbytes s t @ g) @ buf @ drop (unat off + length buf) (fbytes s t @ g) \<and> unat off \<le> length (fbytes s t @ g) \<and>
    others (n_pdata n) t s s' \<and> (\<forall>i. i \<noteq> this \<longrightarrow> nodes s' i = nodes s i)"
proof -
  define siz :: u64 where "siz = of_nat (length buf)"
  have sz: "unat siz = length buf" using b by (simp add: siz_def unat_of_nat_small)
  have mp: "unat (siz + off) = unat off + length buf" using b sz by (subst unat_add_nowrap) auto
  then have "unat (siz + off) < 2 ^ 62" using b by simp
  then obtain n1 x1 t1 s1 g where r: "reserve this n (siz + off) s = Inr s1" "opened this s1 n1 x1 t1" "n_pdata n1 = n_pdata n"
      "unat (te_filsz x1) = max (unat (te_filsz x)) (unat off + length buf)" "fbytes s1 t1 = fbytes s t @ g" "others (n_pdata n) t s s1"
      "\<forall>i. i \<noteq> this \<longrightarrow> nodes s1 i = nodes s i" "\<forall>i\<in>set (addrs t1). i \<in> set (addrs t) \<or> tf_npage s \<le> i"
    using reserve_spec [OF o] mp by metis
  have f: "nodes s this = Some n" "nodes s1 this = Some n1" "fok s1 (n_pdata n) x1 t1" using o r(2,3) by (simp_all add: opened_def)
  define k where "k = unat off div 4096"
  define q where "q = unat off mod 4096"
  have off: "unat off = 4096 * k + q" "q < 4096" by (simp_all add: k_def q_def)
  have kw: "off div 4096 = of_nat k" unfolding k_def by (simp add: word_arith_nat_div)
  have qw: "unat (off mod 4096) = q" unfolding q_def by (simp add: unat_mod)
  have "4096 * k + q + length buf \<le> 4096 * length (pids t1)" using off(1) r(4) fok_size [OF f(3)] by linarith
  from write_loop_fok [OF f(3) off(2) this] obtain P where
    P: "write_loop (n_pdata n) (of_nat k) q (length buf) buf s1 = Some (Inr (s1\<lparr>tf_pages := P\<rparr>))" "fok (s1\<lparr>tf_pages := P\<rparr>) (n_pdata n) x1 t1"
      "fbytes (s1\<lparr>tf_pages := P\<rparr>) t1 = take (unat off) (fbytes s1 t1) @ buf @ drop (unat off + length buf) (fbytes s1 t1)"
      "\<forall>i. i \<notin> set (addrs t1) \<longrightarrow> P i = tf_pages s1 i" unfolding off(1) [symmetric] by blast
  define s2 where "s2 = s1\<lparr>tf_pages := P\<rparr>"
  define s' where "s' = set_node this (n1\<lparr>n_atime := now s2\<rparr>) s2"
  have w: "tmpfs_write this buf off s = Inr (int (length buf), s')"
    using f(1,2) r(1) P(1) int_of_small [of siz] sz b
    by (simp add: tmpfs_write_def Let_def siz_def [symmetric] deref_def reserve_def [symmetric] kw qw s'_def s2_def)
  have "opened this s' (n1\<lparr>n_atime := now s2\<rparr>) x1 t1"
    using P(2) r(2,3) by (simp add: opened_def s'_def s2_def) (simp add: set_node_def)
  moreover have "fbytes s' t1 = take (unat off) (fbytes s t @ g) @ buf @ drop (unat off + length buf) (fbytes s t @ g)"
    using P(3) r(5) by (simp add: s'_def s2_def)
  moreover have "unat off \<le> length (fbytes s t @ g)"
    using length_fbytes [OF f(3)] fok_size [OF f(3)] r(4,5) by simp
  moreover have "others (n_pdata n) t s s'"
    unfolding others_def
  proof (intro conjI allI impI)
    show "tf_ents s' e' = tf_ents s e'" if "e' \<noteq> n_pdata n" for e' using r(6) that by (simp add: others_def s'_def s2_def set_node_def)
    fix i assume i: "i < tf_npage s" "i \<notin> set (addrs t)"
    then have "i \<notin> set (addrs t1)" using r(8) by fastforce
    then show "tf_pages s' i = tf_pages s i" using P(4) r(6) i by (simp add: others_def s'_def s2_def set_node_def)
    show "tf_rb s' i = tf_rb s i" using r(6) i by (simp add: others_def s'_def s2_def set_node_def)
  qed (use r(6) in \<open>simp_all add: others_def s'_def s2_def set_node_def\<close>)
  moreover have "\<forall>i. i \<noteq> this \<longrightarrow> nodes s' i = nodes s i" using r(7) by (simp add: s'_def s2_def set_node_def)
  ultimately show ?thesis using w r(4) by blast
qed

lemma overwrite_take:
  assumes "off \<le> z" "z \<le> length F"
  shows "take (max z (off + length b)) (take off (F @ g) @ b @ drop (off + length b) (F @ g)) =
    take off (take z F) @ b @ drop (off + length b) (take z F)"
proof (cases "off + length b \<le> z")
  case True
  then have "max z (off + length b) = z" by simp
  moreover have "take (z - off - length b) (drop (off + length b) (F @ g)) = drop (off + length b) (take z F)"
    using True assms(2) by (simp add: drop_take)
  ultimately show ?thesis using assms True by simp
next
  case False
  then have "max z (off + length b) = off + length b" by simp
  then show ?thesis using assms False by simp
qed

lemma tmpfs_write_content:
  assumes "opened this s n x t" "unat off \<le> length (tcontent this s)" "unat off + length buf < 2 ^ 31"
  shows "\<exists>s'. tmpfs_write this buf off s = Inr (int (length buf), s') \<and> tgood this s' \<and>
    tcontent this s' = take (unat off) (tcontent this s) @ buf @ drop (unat off + length buf) (tcontent this s)"
proof -
  obtain n' x' t' s' g where w: "tmpfs_write this buf off s = Inr (int (length buf), s')" "opened this s' n' x' t'"
      "unat (te_filsz x') = max (unat (te_filsz x)) (unat off + length buf)"
      "fbytes s' t' = take (unat off) (fbytes s t @ g) @ buf @ drop (unat off + length buf) (fbytes s t @ g)"
    using tmpfs_write_spec [OF assms(1,3)] by blast
  have f: "fok s (n_pdata n) x t" using assms(1) by (simp add: opened_def)
  have "unat off \<le> unat (te_filsz x)" using assms(2) length_tcontent [OF assms(1)] by simp
  then have "tcontent this s' = take (unat off) (tcontent this s) @ buf @ drop (unat off + length buf) (tcontent this s)"
    unfolding tcontent_fok [OF w(2)] tcontent_fok [OF assms(1)] w(3,4)
    using overwrite_take [of "unat off" "unat (te_filsz x)" "fbytes s t" buf g] fok_size [OF f] length_fbytes [OF f] by simp
  then show ?thesis using w(1,2) by (auto simp: tgood_def)
qed

interpretation tmp: byte_file "tmpfs_read this" "tmpfs_write this" "tcontent this" "tgood this" "2 ^ 31 - 1" for this
proof
  show "\<exists>s'. tmpfs_read this cnt off s = Inr (int (length (take (unat cnt) (drop (unat off) (tcontent this s)))),
      take (unat cnt) (drop (unat off) (tcontent this s)), s') \<and> tgood this s' \<and> tcontent this s' = tcontent this s"
    if "tgood this s" "unat off + unat cnt \<le> 2 ^ 31 - 1" for s off cnt
  proof -
    have "unat off + unat cnt < 2 ^ 31" using that(2) by simp
    then show ?thesis using tmpfs_read_spec that(1) unfolding tgood_def by blast
  qed
  show "\<exists>s'. tmpfs_write this bs off s = Inr (int (length bs), s') \<and> tgood this s' \<and>
      tcontent this s' = take (unat off) (tcontent this s) @ bs @ drop (unat off + length bs) (tcontent this s)"
    if "tgood this s" "bs \<noteq> []" "unat off \<le> length (tcontent this s)" "unat off + length bs \<le> 2 ^ 31 - 1" for s bs off
  proof -
    have "unat off + length bs < 2 ^ 31" using that(4) by simp
    then show ?thesis using tmpfs_write_content that(1,3) unfolding tgood_def by blast
  qed
qed simp

text \<open>
  A file in tmpfs gives back what was written to it: bytes written at any offset up to the end of the file are
  what a read at this offset returns, across page boundaries and after the file has grown by new pages of its tree,
  and the file stays in order for the next call.
\<close>

theorem tmpfs_read_after_write:
  assumes "tgood this s" "bs \<noteq> []" "unat off \<le> length (tcontent this s)" "unat off + length bs < 2 ^ 31"
  shows "\<exists>s1 s2. tmpfs_write this bs off s = Inr (int (length bs), s1) \<and>
    tmpfs_read this (of_nat (length bs)) off s1 = Inr (int (length bs), bs, s2) \<and> tgood this s2"
proof -
  have "unat off + length bs \<le> 2 ^ 31 - 1" using assms(4) by simp
  then show ?thesis by (rule tmp.rd_after_wr [OF assms(1-3)])
qed

lemma fok_others:
  assumes "others e t s s'" "fok s e' x' t'" "e' \<noteq> e" "set (addrs t) \<inter> set (addrs t') = {}"
  shows "fok s' e' x' t' \<and> fbytes s' t' = fbytes s t'"
proof -
  have i: "tf_pages s' i = tf_pages s i" "tf_rb s' i = tf_rb s i" if "i \<in> set (addrs t')" for i
    using that assms(1,2,4) by (auto simp: others_def fok_def ftree_def)
  have "map (pdata s') (pids t') = map (pdata s) (pids t')" using i(1) by (simp add: pdata_def)
  then have b: "fbytes s' t' = fbytes s t'" by (simp only: fbytes_def)
  have "rep (rn (tree_of x' s')) None t' = rep (rn (tree_of x' s)) None t'" by (rule rep_cong) (simp add: tree_of_def i(2))
  then have "holds (tree_of x' s') t' = holds (tree_of x' s) t'" by (simp add: holds_def tree_of_def)
  moreover have "pages_ok s' (pids t') = pages_ok s (pids t')" using i(1) nth_mem by (fastforce simp: pages_ok_def simp flip: set_pids)
  moreover have "tf_ents s' e' = tf_ents s e'" using assms(1,3) by (simp add: others_def)
  moreover have "\<forall>i\<in>set (addrs t'). i < tf_npage s'" 
    using assms(1,2) by (auto simp: fok_def ftree_def others_def)
  ultimately show ?thesis using assms(1,2) b by (auto simp: fok_def ftree_def others_def)
qed

text \<open>
  A write to one file changes no other file: as long as the trees of two entries have no node in common, the
  other file keeps its size and all of its bytes, also when the first one grows.
\<close>

theorem tmpfs_write_others:
  assumes "opened this s n x t" "opened that s n2 x2 t2" "that \<noteq> this" "n_pdata n2 \<noteq> n_pdata n" "set (addrs t) \<inter> set (addrs t2) = {}"
    "unat off + length buf < 2 ^ 31"
  shows "\<exists>s'. tmpfs_write this buf off s = Inr (int (length buf), s') \<and> tgood that s' \<and> tcontent that s' = tcontent that s"
proof -
  obtain s' where w: "tmpfs_write this buf off s = Inr (int (length buf), s')" "others (n_pdata n) t s s'" "nodes s' that = nodes s that"
    using tmpfs_write_spec [OF assms(1,6)] assms(3) by blast
  have "fok s' (n_pdata n2) x2 t2 \<and> fbytes s' t2 = fbytes s t2"
    using fok_others [OF w(2) _ assms(4,5)] assms(2) unfolding opened_def by blast
  then have o: "opened that s' n2 x2 t2" "fbytes s' t2 = fbytes s t2" using assms(2) w(3) by (simp_all add: opened_def)
  then show ?thesis using w(1) tcontent_fok [OF o(1)] tcontent_fok [OF assms(2)] by (auto simp: tgood_def)
qed

lemma read_loop_fault:
  assumes f: "fok s e x t" and "boff < 4096" "0 < rem" "4096 * length (pids t) < 4096 * k + boff + rem" "k \<le> length (pids t)"
  shows "read_loop e (of_nat k) boff rem buf s = Some (Inl BadAccess)"
  using assms(2-5)
proof (induction rem arbitrary: k boff buf rule: less_induct)
  case (less rem)
  have k64: "k < 2 ^ 64" using less.prems(4) fok_len [OF f] by simp
  show ?case
  proof (cases "k = length (pids t)")
    case True
    then have "getblk e (of_nat k) s = Inr None" using getblk_fok [OF f k64] by simp
    then show ?thesis using less.prems(2) by (subst read_loop.simps) (simp add: page_at_def)
  next
    case False
    then have k: "k < length (pids t)" using less.prems(4) by simp
    define n where "n = cpysiz rem boff"
    have n: "0 < n" "n \<le> rem" "boff + n \<le> 4096" "n = rem \<or> boff + n = 4096"
      using cpysiz_step [of rem boff] less.prems(1,2) by (auto simp: n_def)
    have "n \<noteq> rem" using n(3) less.prems(3) k by linarith
    then have b: "boff + n = 4096" "rem - n < rem" "0 < rem - n" using n by auto
    obtain pg where pg: "tf_pages s (pids t ! k) = Some pg" using page_fok [OF f k] by blast
    have "read_loop e (of_nat k) boff rem buf s = read_loop e (of_nat (Suc k)) 0 (rem - n) (buf @ take n (drop boff (tp_data pg))) s"
      using less.prems(2) getblk_fok [OF f k64] k pg by (simp add: read_loop.simps [of e "of_nat k"] page_at_def n_def Let_def add.commute)
    also have "\<dots> = Some (Inl BadAccess)"
    proof (rule less.IH)
      show "4096 * length (pids t) < 4096 * Suc k + 0 + (rem - n)" using less.prems(3) b(1) n(2) by simp
    qed (use b k in simp_all)
    finally show ?thesis .
  qed
qed

text \<open>
  A read that asks for as many bytes as a \<open>size_t\<close> holds, from any offset inside the file but its
  start, is not cut down to the end of the file: the sum of offset and size wraps around, the loop runs past the last
  page and follows a null pointer.
\<close>

theorem tmpfs_read_wraps:
  assumes "opened this s n x t" "0 < off" "off < n_siz n"
  shows "tmpfs_read this (- 1) off s = Inl BadAccess"
proof -
  have f: "nodes s this = Some n" "fok s (n_pdata n) x t" "n_siz n = te_filsz x" using assms(1) by (simp_all add: opened_def)
  have u: "0 < unat off" "unat off < unat (te_filsz x)" using assms(2,3) f(3) by (simp_all add: word_less_nat_alt)
  have "off + - 1 = off - 1" by simp
  have o1: "unat (off - 1) = unat off - 1" using assms(2) by (simp add: unat_minus_one)
  then have "off - 1 < n_siz n" using u f(3) by (simp add: word_less_nat_alt)
  then have m: "min (n_siz n) (off + - 1) - off = - 1" by (auto simp: min_def)
  define k where "k = unat off div 4096"
  define r where "r = unat off mod 4096"
  have off: "unat off = 4096 * k + r" "r < 4096" by (simp_all add: k_def r_def)
  have w: "off div 4096 = of_nat k" "unat (off mod 4096) = r" unfolding k_def r_def by (simp_all add: word_arith_nat_div unat_mod)
  have rem: "unat (- 1 :: u64) = 2 ^ 64 - 1" by (simp add: unsigned_minus_1_eq_mask mask_eq_exp_minus_1)
  have "k \<le> length (pids t)" using off u fok_size [OF f(2)] by linarith
  then have "read_loop (n_pdata n) (of_nat k) r (unat (- 1 :: u64)) [] s = Some (Inl BadAccess)"
    using read_loop_fault [OF f(2) off(2), of "unat (- 1 :: u64)" k] fok_len [OF f(2)] rem by simp
  then show ?thesis using f(1) m w assms(3) by (simp add: tmpfs_read_def deref_def Let_def not_le)
qed

section \<open>Truncation\<close>

lemma getblk_none:
  assumes "tf_ents s e = Some x" "S_ISREG (te_mode x)" "holds (tree_of x s) t" "\<forall>i\<in>set (addrs t). tf_pages s i \<noteq> None"
    "sorted_wrt (\<lambda>a b. key s a > key s b) (addrs t)" "\<forall>i\<in>set (addrs t). key s i \<noteq> idx"
  shows "getblk e idx s = Inr None"
proof -
  have "find (\<lambda>i. key s i = idx) (addrs t) = None" using assms(6) by (intro find_none_if) auto
  then show ?thesis using getblk_zip [OF assms(3) [unfolded holds_zip] assms(4,5), of idx] assms(1,2)
    by (simp add: getblk_def ent_at_def up_place)
qed

lemma sorted_wrt_remove1: "sorted_wrt R xs \<Longrightarrow> sorted_wrt R (remove1 x xs)"
  by (induction xs) (auto dest: subsetD [OF set_remove1_subset])

lemma trunc_step_null:
  assumes "getblk e k s = Inr None" "k \<le> final" "ent_at e s = Inr x"
  shows "trunc_loop e k final s = Some (Inl BadAccess)"
  using assms by (simp add: trunc_loop.simps [of e k] rbtree_delete_def delete_splice_def ld_def)

text \<open>
  Making a file shorter follows a null pointer: the loop of \<open>tmpfs_truncate\<close> runs up to and including the number of
  pages, one more than the last index. Shown for every new size that gives up at most one page.
\<close>

theorem tmpfs_truncate_faults:
  assumes "opened this s n x t" "len < n_siz n" "unat (n_siz n) \<le> (unat len + 4095) div 4096 * 4096 + 4096"
  shows "tmpfs_truncate this len s = Inl BadAccess"
proof -
  have f: "nodes s this = Some n" "fok s (n_pdata n) x t" "n_siz n = te_filsz x" using assms(1) by (simp_all add: opened_def)
  have e: "tf_ents s (n_pdata n) = Some x" "S_ISREG (te_mode x)" "holds (tree_of x s) t" "rb t" using f(2) by (simp_all add: fok_def ftree_def)
  define e0 where "e0 = n_pdata n"
  have z: "unat (te_filsz x) < 2 ^ 62" "length (pids t) = (unat (te_filsz x) + 4095) div 4096" using f(2) by (simp_all add: fok_def)
  have len: "unat len < unat (te_filsz x)" using assms(2) f(3) by (simp add: word_less_nat_alt)
  define a where "a = (unat len + 4095) div 4096"
  have ab: "a \<le> length (pids t)" "length (pids t) \<le> Suc a" unfolding z(2) a_def using len assms(3) f(3) by (auto intro: div_le_mono)
  have b64: "length (pids t) < 2 ^ 51" using fok_len [OF f(2)] .
  have ua: "unat (div_round_up len 4096) = a" unfolding a_def using len z(1) by (intro div_round_up_nat) simp
  have ub: "unat (div_round_up (n_siz n) 4096) = length (pids t)" unfolding f(3) z(2) using z(1) by (intro div_round_up_nat)
  have wa: "div_round_up len 4096 = of_nat a" and wb: "div_round_up (n_siz n) 4096 = of_nat (length (pids t))"
    unfolding ua [symmetric] ub [symmetric] by simp_all
  have la: "(of_nat a :: u64) \<le> of_nat (length (pids t))" using ab(1) ua ub wa wb by (simp add: word_le_nat_alt)
  have "trunc_loop e0 (of_nat a) (of_nat (length (pids t))) s = Some (Inl BadAccess)"
  proof (cases "a = length (pids t)")
    case True
    have "getblk e0 (of_nat a) s = Inr None" using getblk_fok [OF f(2), of a] b64 True by (simp add: e0_def)
    then show ?thesis using la e(1) by (intro trunc_step_null) (simp_all add: ent_at_def e0_def)
  next
    case False
    then have a: "a < length (pids t)" "Suc a = length (pids t)" using ab by simp_all
    define i where "i = pids t ! a"
    have i: "i \<in> set (addrs t)" unfolding i_def using a(1) nth_mem by fastforce
    have g: "getblk e0 (of_nat a) s = Inr (Some i)" using getblk_fok [OF f(2), of a] b64 a(1) by (simp add: e0_def i_def)
    obtain T t' where T: "rbtree_delete (Some i) (tree_of x s) = Some (Inr T)" "holds T t'" "addrs t' = remove1 i (addrs t)"
      using delete_removes [OF e(3,4) i] by blast
    define s1 where "s1 = put_tree e0 x T s"
    have s1: "tf_pages s1 = tf_pages s" "tf_ents s1 e0 = Some (x\<lparr>te_root := t_root T\<rparr>)" "tree_of (x\<lparr>te_root := t_root T\<rparr>) s1 = T" "key s1 = key s"
      by (simp_all add: s1_def put_tree_def set_ent_def tree_of_def key_def fun_eq_iff)
    have step: "trunc_loop e0 (of_nat a) (of_nat (length (pids t))) s = trunc_loop e0 (of_nat (Suc a)) (of_nat (length (pids t))) s1"
      using g la T(1) e(1) by (subst trunc_loop.simps) (simp add: ent_at_def s1_def e0_def add.commute)
    have sub: "set (addrs t') \<subseteq> set (addrs t)" unfolding T(3) by (rule set_remove1_subset)
    have "getblk e0 (of_nat (Suc a)) s1 = Inr None"
    proof (rule getblk_none)
      show "tf_ents s1 e0 = Some (x\<lparr>te_root := t_root T\<rparr>)" by (rule s1)
      show "S_ISREG (te_mode (x\<lparr>te_root := t_root T\<rparr>))" using e(2) by simp
      show "holds (tree_of (x\<lparr>te_root := t_root T\<rparr>) s1) t'" using s1(3) T(2) by simp
      show "\<forall>i\<in>set (addrs t'). tf_pages s1 i \<noteq> None" using fok_sorted(2) [OF f(2)] sub s1(1) by auto
      have "sorted_wrt (\<lambda>a b. key s1 a > key s1 b) (remove1 i (addrs t))"
        using fok_sorted(1) [OF f(2)] unfolding s1(4) by (rule sorted_wrt_remove1)
      then show "sorted_wrt (\<lambda>a b. key s1 a > key s1 b) (addrs t')" unfolding T(3) .
      show "\<forall>i\<in>set (addrs t'). key s1 i \<noteq> of_nat (Suc a)"
      proof
        fix j assume "j \<in> set (addrs t')"
        then obtain k where k: "k < length (pids t)" "pids t ! k = j" using sub by (metis in_set_conv_nth set_pids subsetD)
        then have "key s j = of_nat k" using pages_key f(2) by (auto simp: fok_def ftree_def)
        then show "key s1 j \<noteq> of_nat (Suc a)" using of_nat_eq64 [of k "Suc a"] k(1) a(2) b64 s1(4) by simp
      qed
    qed
    then have "trunc_loop e0 (of_nat (Suc a)) (of_nat (length (pids t))) s1 = Some (Inl BadAccess)"
      using s1(2) a(2) by (intro trunc_step_null) (simp_all add: ent_at_def)
    then show ?thesis using step by simp
  qed
  moreover have "\<not> n_siz n < len" "len \<noteq> n_siz n" using assms(2) by auto
  ultimately show ?thesis using f(1) wa wb by (simp add: tmpfs_truncate_def deref_def e0_def)
qed

section \<open>Examples\<close>

text \<open>Two files: node 1 with an empty one, node 2 with one of 100 bytes in one page.\<close>

definition tfile_node :: "nat \<Rightarrow> u64 \<Rightarrow> node" where
  "tfile_node e z = (plain_node ''a'' 0x81A4 0 0 [])\<lparr>n_siz := z, n_pdata := e\<rparr>"

definition tfile_ent :: "u64 \<Rightarrow> nat option \<Rightarrow> tentry" where
  "tfile_ent z r = \<lparr>te_name = ''a'', te_ino = 1, te_mode = 0x81A4, te_rdev = 0, te_parent = None, te_subdir = [], te_filsz = z, te_root = r\<rparr>"

definition tmp_demo :: tmpfs where
  "tmp_demo = vfs.extend (vfs_demo\<lparr>nodes := [1 \<mapsto> tfile_node 0 0, 2 \<mapsto> tfile_node 1 100]\<rparr>)
     \<lparr>tf_rb = [0 \<mapsto> \<lparr>r_color = BLACK, r_left = None, r_right = None, r_parent = None\<rparr>],
      tf_pages = [0 \<mapsto> \<lparr>tp_idx = 0, tp_data = replicate 4096 7\<rparr>], tf_ents = [0 \<mapsto> tfile_ent 0 None, 1 \<mapsto> tfile_ent 100 (Some 0)],
      tf_npage = 1, tf_nent = 2, tf_nnode = 3, tf_ino = 3, tf_dev = 0, tf_pjunk = (\<lambda>_. replicate 4096 0),
      tf_rjunk = \<lparr>r_color = RED, r_left = None, r_right = None, r_parent = None\<rparr>, tf_ejunk = tfile_ent 0 None\<rparr>"

lemma tmp_demo_opened:
  "opened 1 tmp_demo (tfile_node 0 0) (tfile_ent 0 None) Tip"
  "opened 2 tmp_demo (tfile_node 1 100) (tfile_ent 100 (Some 0)) (Bin Tip 0 BLACK Tip)"
  by (simp_all add: opened_def fok_def ftree_def tmp_demo_def vfs.defs tfile_node_def tfile_ent_def plain_node_def S_ISREG_def S_ISDIR_def S_IFMT_def
    holds_def tree_of_def rb_def pages_ok_def pids_def PAGE_def)

lemma tmp_demo_good: "tgood 1 tmp_demo"
  using tmp_demo_opened(1) by (auto simp: tgood_def)

lemma tmpfs_read_after_write_witness:
  "\<exists>s1 s2. tmpfs_write 1 [1, 2, 3] 0 tmp_demo = Inr (3, s1) \<and> tmpfs_read 1 3 0 s1 = Inr (3, [1, 2, 3], s2)"
  using tmpfs_read_after_write [OF tmp_demo_good, of "[1, 2, 3]" 0] by auto

lemma tmpfs_write_others_witness: "\<exists>s'. tmpfs_write 1 [1, 2, 3] 0 tmp_demo = Inr (3, s') \<and> tcontent 2 s' = tcontent 2 tmp_demo"
  using tmpfs_write_others [OF tmp_demo_opened(1,2), of 0 "[1, 2, 3]"] by (auto simp: tfile_node_def)

lemma tmpfs_read_wraps_witness: "tmpfs_read 2 (- 1) 50 tmp_demo = Inl BadAccess"
  using tmpfs_read_wraps [OF tmp_demo_opened(2), of 50] by (simp add: tfile_node_def)

lemma tmpfs_truncate_faults_witness: "tmpfs_truncate 2 0 tmp_demo = Inl BadAccess"
  using tmpfs_truncate_faults [OF tmp_demo_opened(2), of 0] by (simp add: tfile_node_def)

section \<open>The system calls on tmpfs\<close>

text \<open>The operations that kernel/file.c reaches for a task with the working directory \<open>pwd\<close> on a tree of tmpfs nodes.\<close>

definition tmpfs_ops :: "nid option \<Rightarrow> tmpfs fsops" where
  "tmpfs_ops pwd = \<lparr>vo_open = vfs_open tmpfs_open pwd, vo_read = tmpfs_read, vo_write = tmpfs_write,
     vo_truncate = (\<lambda>n len s. bind_result (tmpfs_truncate n len s) (\<lambda>(_, s1). Inr s1)), vo_close = tmpfs_close,
     vo_siz = (\<lambda>n s. bind_result (deref (Some n) s) (\<lambda>x. Inr (n_siz x))),
     vo_mode = (\<lambda>n s. bind_result (deref (Some n) s) (\<lambda>x. Inr (n_mode x)))\<rparr>"

interpretation tmpd: open_file "tmpfs_read this" "tmpfs_write this" "tcontent this" "tgood this" "2 ^ 31 - 1" "tmpfs_ops pwd" this for this pwd
  by unfold_locales (auto simp: tmpfs_ops_def tgood_def opened_def deref_def)

text \<open>
  C10. The system calls and the file system together: a task that writes through a descriptor to a file of tmpfs,
  seeks back to where it started and reads as many bytes gets what it wrote.
\<close>

theorem write_seek_read_tmpfs:
  assumes "slot fd f = Inr (Some i)" "f_heap f i = Some x" "fl_flgs x AND 3 = 2" "fl_flgs x AND O_APPEND = 0" "fl_flgs x AND O_DIR = 0"
    "tgood (fl_node x) (fs_st f)" "bs \<noteq> []" "unat (fl_offset x) \<le> length (tcontent (fl_node x) (fs_st f))"
    "unat (fl_offset x) + length bs < 2 ^ 31"
  shows "\<exists>f1 f2 f3. sys_write (tmpfs_ops pwd) fd bs f = Inr (int (length bs), f1) \<and>
    sys_lseek (tmpfs_ops pwd) fd (fl_offset x) 0 f1 = Inr (sint (fl_offset x), f2) \<and>
    sys_read (tmpfs_ops pwd) fd (of_nat (length bs)) f2 = Inr (int (length bs), bs, f3)"
proof -
  have "tmpd.leads (fl_node x) fd i x f" using assms(1-5) by (simp add: tmpd.leads_def)
  moreover have "unat (fl_offset x) + length bs \<le> 2 ^ 31 - 1" using assms(9) by simp
  ultimately show ?thesis using tmpd.write_seek_read assms(6-8) by blast
qed

text \<open>
  Two descriptors of one open file, as \<open>dup\<close> and \<open>fork\<close> make them, share its offset: what is written
  through the second follows what was written through the first, and nothing is overwritten.
\<close>

theorem shared_descriptors_append:
  assumes "slot fd f = Inr (Some i)" "slot fd' f = Inr (Some i)" "f_heap f i = Some x" "fl_flgs x AND 3 = 2" "fl_flgs x AND O_APPEND = 0"
    "fl_flgs x AND O_DIR = 0" "tgood (fl_node x) (fs_st f)" "as \<noteq> []" "bs \<noteq> []"
    "unat (fl_offset x) = length (tcontent (fl_node x) (fs_st f))" "unat (fl_offset x) + length as + length bs < 2 ^ 31"
  shows "\<exists>f1 f2. sys_write (tmpfs_ops pwd) fd as f = Inr (int (length as), f1) \<and>
    sys_write (tmpfs_ops pwd) fd' bs f1 = Inr (int (length bs), f2) \<and>
    tcontent (fl_node x) (fs_st f2) = tcontent (fl_node x) (fs_st f) @ as @ bs"
proof -
  have "tmpd.leads (fl_node x) fd i x f" using assms(1,3-6) by (simp add: tmpd.leads_def)
  moreover have "length (tcontent (fl_node x) (fs_st f)) + length as + length bs \<le> 2 ^ 31 - 1" using assms(10,11) by simp
  ultimately show ?thesis using tmpd.shared_offset [of "fl_node x" fd i x f fd' as bs pwd] assms(2,7-10) by blast
qed

definition tmp_fds :: "tmpfs fdesc" where
  "tmp_fds = \<lparr>fs_st = tmp_demo, f_heap = [0 \<mapsto> \<lparr>fl_offset = 0, fl_node = 1, fl_flgs = 2, fl_fdfl = 0, fl_refer = 2\<rparr>], f_next = 1,
     f_tab = [Some 0, Some 0] @ replicate 14 None, f_junk = \<lparr>fl_offset = 0, fl_node = 0, fl_flgs = 0, fl_fdfl = 0, fl_refer = 0\<rparr>,
     f_nomem = False, f_junkfd = 0\<rparr>"

lemma tmp_fds_facts: "slot 0 tmp_fds = Inr (Some 0)" "slot 1 tmp_fds = Inr (Some 0)"
  "f_heap tmp_fds 0 = Some \<lparr>fl_offset = 0, fl_node = 1, fl_flgs = 2, fl_fdfl = 0, fl_refer = 2\<rparr>" "tgood 1 (fs_st tmp_fds)"
  "tcontent 1 (fs_st tmp_fds) = []"
  using tmp_demo_good length_tcontent [OF tmp_demo_opened(1)] by (simp_all add: slot_def tmp_fds_def tfile_ent_def)

lemma write_seek_read_tmpfs_witness:
  "\<exists>f1 f2 f3. sys_write (tmpfs_ops None) 0 [1, 2, 3] tmp_fds = Inr (3, f1) \<and> sys_lseek (tmpfs_ops None) 0 0 0 f1 = Inr (0, f2) \<and>
    sys_read (tmpfs_ops None) 0 3 f2 = Inr (3, [1, 2, 3], f3)"
  using write_seek_read_tmpfs [OF tmp_fds_facts(1,3), of "[1, 2, 3]" None] tmp_fds_facts(4) by (simp add: O_APPEND_def O_DIR_def)

lemma shared_descriptors_append_witness:
  "\<exists>f1 f2. sys_write (tmpfs_ops None) 0 [1, 2] tmp_fds = Inr (2, f1) \<and> sys_write (tmpfs_ops None) 1 [3] f1 = Inr (1, f2) \<and>
    tcontent 1 (fs_st f2) = [1, 2, 3]"
  using shared_descriptors_append [OF tmp_fds_facts(1,2,3), of "[1, 2]" "[3]" None] tmp_fds_facts(4,5) by (simp add: O_APPEND_def O_DIR_def)

end
