(* ===== verification/Tmpfs_Dir.thy ===== *)
theory Tmpfs_Dir
  imports Dirent Tmpfs_File
begin

unbundle bit_operations_syntax

text \<open>
  Listing a directory of tmpfs: the operations of kernel/fs/phy/tmpfs.c, that they list the directory when the listing fits
  into the buffer, and what happens when it does not.
\<close>

section \<open>Operations\<close>

primrec emit_ents :: "nat list \<Rightarrow> tmpfs \<Rightarrow> dirctx \<Rightarrow> (bool \<times> dirctx) result" where
  "emit_ents [] s ctx = Inr (True, ctx)"
| "emit_ents (e # es) s ctx =
     bind_result (ent_at e s) (\<lambda>x. bind_result (strlen (Some (cbytes (te_name x)))) (\<lambda>len.
     bind_result (dir_emit (cbytes (te_name x)) len (te_ino x) (dir_get_type (te_mode x)) ctx) (\<lambda>(ok, ctx1).
       if \<not> ok then Inr (False, ctx1) else emit_ents es s (ctx1\<lparr>cx_pos := cx_pos ctx1 + 1\<rparr>))))"

text \<open>The entries for the directory itself and for the one above it.\<close>

definition emit_dots :: "tmpfs \<Rightarrow> dirctx \<Rightarrow> (bool \<times> dirctx) result" where
  "emit_dots s ctx =
     bind_result (if cx_pos ctx = 0
                  then bind_result (dir_emit_dot s ctx) (\<lambda>(ok, c). Inr (ok, if ok then c\<lparr>cx_pos := cx_pos c + 1\<rparr> else c))
                  else Inr (True, ctx)) (\<lambda>(ok, ctx1).
       if \<not> ok then Inr (False, ctx1)
       else if cx_pos ctx1 = 1
       then bind_result (dir_emit_dotdot s ctx1) (\<lambda>(ok, c). Inr (ok, if ok then c\<lparr>cx_pos := cx_pos c + 1\<rparr> else c))
       else Inr (True, ctx1))"

definition tmpfs_readdir :: "nid \<Rightarrow> dirctx \<Rightarrow> tmpfs \<Rightarrow> (int \<times> dirctx \<times> tmpfs) result" where
  "tmpfs_readdir node ctx s =
     (let ctx0 = (if cx_stat ctx = ctx_inv then init_ctx node ctx else ctx)
      in if cx_stat ctx0 = ctx_end then Inr (EOF, ctx0, s)
         else bind_result (emit_dots s ctx0) (\<lambda>(ok, ctx1).
              bind_result (if \<not> ok then Inr ctx1
                           else bind_result (deref (Some node) s) (\<lambda>n. bind_result (ent_at (n_pdata n) s) (\<lambda>dir.
                                bind_result (emit_ents (te_subdir dir) s ctx1) (\<lambda>(ok, ctx2).
                                Inr (if ok then ctx2\<lparr>cx_stat := ctx_end\<rparr> else ctx2))))) (\<lambda>ctx3.
              bind_result (deref (Some node) s) (\<lambda>n. Inr (0, ctx3, set_node node (n\<lparr>n_atime := now s\<rparr>) s)))))"

definition tmpfs_seekdir :: "nid \<Rightarrow> dirctx \<Rightarrow> u64 \<Rightarrow> tmpfs \<Rightarrow> (int \<times> dirctx) result" where
  "tmpfs_seekdir this ctx pos s =
     bind_result (deref (Some this) s) (\<lambda>n. bind_result (tmpfs_ent_count (n_pdata n) s) (\<lambda>cnt.
     let subsz = of_nat cnt
     in if subsz + 1 \<ge> pos then Inr (0, ctx\<lparr>cx_stat := ctx_pre, cx_pos := pos\<rparr>)
        else Inr (EOF, ctx\<lparr>cx_stat := ctx_end, cx_pos := subsz + 1\<rparr>)))"

section \<open>The listing of a directory\<close>

definition ent_dent :: "tmpfs \<Rightarrow> nat \<Rightarrow> dent" where
  "ent_dent s e = (let x = the (tf_ents s e) in (map of_char (te_name x), te_ino x, dir_get_type (te_mode x)))"

definition node_dent :: "string \<Rightarrow> nid \<Rightarrow> 'a vfs_scheme \<Rightarrow> dent" where
  "node_dent name n s = (map of_char name, n_ino (the (nodes s n)), dir_get_type (n_mode (the (nodes s n))))"

definition prt_of :: "nid \<Rightarrow> 'a vfs_scheme \<Rightarrow> nid" where
  "prt_of n s = (case vfs_getprt (Some n) s of Inr (Some p) \<Rightarrow> p | _ \<Rightarrow> n)"

definition subs :: "nid \<Rightarrow> tmpfs \<Rightarrow> nat list" where
  "subs n s = te_subdir (the (tf_ents s (n_pdata (the (nodes s n)))))"

definition tmp_ents :: "nid \<Rightarrow> tmpfs \<Rightarrow> dent list" where
  "tmp_ents n s = node_dent ''.'' n s # node_dent ''..'' (prt_of n s) s # map (ent_dent s) (subs n s)"

definition str_ok :: "string \<Rightarrow> bool" where
  "str_ok name \<longleftrightarrow> name_ok (map of_char name)"

definition dir_good :: "nid \<Rightarrow> tmpfs \<Rightarrow> bool" where
  "dir_good n s \<longleftrightarrow> (\<exists>nn p. nodes s n = Some nn \<and> vfs_getprt (Some n) s = Inr (Some p) \<and> nodes s p \<noteq> None \<and> tf_ents s (n_pdata nn) \<noteq> None) \<and>
     (\<forall>e\<in>set (subs n s). \<exists>x. tf_ents s e = Some x \<and> str_ok (te_name x))"

lemma dir_goodE:
  assumes "dir_good n s"
  obtains nn p pn d where "nodes s n = Some nn" "vfs_getprt (Some n) s = Inr (Some p)" "nodes s p = Some pn" "tf_ents s (n_pdata nn) = Some d"
    "prt_of n s = p" "subs n s = te_subdir d"
  using assms by (auto simp: dir_good_def prt_of_def subs_def)

lemma strlen_cbytes: "str_ok name \<Longrightarrow> strlen (Some (cbytes name)) = Inr (of_nat (length name))"
  by (simp add: strlen_eq cbytes_def str_ok_def name_ok_def)

lemma cbytes_split: "cbytes name = map of_char name @ 0 # []"
  by (simp add: cbytes_def)

text \<open>The loop over the entries puts out all of them when there is room, else as many as fit.\<close>

lemma emit_ents_all:
  assumes "filled b M bs ctx" "\<forall>e\<in>set es. \<exists>x. tf_ents s e = Some x \<and> str_ok (te_name x)" "length bs + length (listing (cx_pos ctx) (map (ent_dent s) es)) \<le> M"
  shows "\<exists>ctx'. emit_ents es s ctx = Inr (True, ctx') \<and> filled b M (bs @ listing (cx_pos ctx) (map (ent_dent s) es)) ctx' \<and> cx_stat ctx' = cx_stat ctx \<and>
    cx_node ctx' = cx_node ctx"
  using assms
proof (induction es arbitrary: bs ctx)
  case (Cons e es)
  obtain x where x: "tf_ents s e = Some x" "str_ok (te_name x)" using Cons.prems(2) by auto
  let ?nm = "map of_char (te_name x) :: bytes"
  have n: "name_ok ?nm" using x(2) by (simp add: str_ok_def)
  have d: "ent_dent s e = (?nm, te_ino x, dir_get_type (te_mode x))" using x(1) by (simp add: ent_dent_def)
  obtain c1 where c1: "dir_emit (cbytes (te_name x)) (of_nat (length ?nm)) (te_ino x) (dir_get_type (te_mode x)) ctx = Inr (True, c1)"
    "filled b M (bs @ drec (cx_pos ctx) (ent_dent s e)) c1" "cx_pos c1 = cx_pos ctx" "cx_stat c1 = cx_stat ctx" "cx_node c1 = cx_node ctx"
    using emit_fits [OF Cons.prems(1) n cbytes_split] Cons.prems(3) d by auto
  have "filled b M (bs @ drec (cx_pos ctx) (ent_dent s e)) (c1\<lparr>cx_pos := cx_pos ctx + 1\<rparr>)" using c1(2) by (simp add: filled_def)
  from Cons.IH [OF this] show ?case using Cons.prems x c1 strlen_cbytes [OF x(2)] by (auto simp: ent_at_def)
qed simp

lemma emit_ents_some:
  assumes "filled b M bs ctx" "\<forall>e\<in>set es. \<exists>x. tf_ents s e = Some x \<and> str_ok (te_name x)" "M < length bs + length (listing (cx_pos ctx) (map (ent_dent s) es))"
  shows "\<exists>k ctx'. k < length es \<and> emit_ents es s ctx = Inr (False, ctx') \<and> filled b M (bs @ listing (cx_pos ctx) (map (ent_dent s) (take k es))) ctx' \<and>
    cx_stat ctx' = cx_stat ctx \<and> cx_node ctx' = cx_node ctx \<and> M < length bs + length (listing (cx_pos ctx) (map (ent_dent s) (take (Suc k) es)))"
  using assms
proof (induction es arbitrary: bs ctx)
  case Nil
  then show ?case by (simp add: filled_def)
next
  case (Cons e es)
  obtain x where x: "tf_ents s e = Some x" "str_ok (te_name x)" using Cons.prems(2) by auto
  let ?nm = "map of_char (te_name x) :: bytes" let ?r = "drec (cx_pos ctx) (ent_dent s e)"
  have n: "name_ok ?nm" using x(2) by (simp add: str_ok_def)
  have d: "ent_dent s e = (?nm, te_ino x, dir_get_type (te_mode x))" using x(1) by (simp add: ent_dent_def)
  show ?case
  proof (cases "M < length bs + 33 + length ?nm")
    case True
    then have "emit_ents (e # es) s ctx = Inr (False, ctx)"
      using emit_full [OF Cons.prems(1) n True] x strlen_cbytes [OF x(2)] by (simp add: ent_at_def)
    then show ?thesis using Cons.prems(1) True d by (intro exI [of _ 0]) simp
  next
    case False
    then obtain c1 where c1: "dir_emit (cbytes (te_name x)) (of_nat (length ?nm)) (te_ino x) (dir_get_type (te_mode x)) ctx = Inr (True, c1)"
      "filled b M (bs @ ?r) c1" "cx_pos c1 = cx_pos ctx" "cx_stat c1 = cx_stat ctx" "cx_node c1 = cx_node ctx"
      using emit_fits [OF Cons.prems(1) n cbytes_split] d by auto
    have f1: "filled b M (bs @ ?r) (c1\<lparr>cx_pos := cx_pos ctx + 1\<rparr>)" using c1(2) by (simp add: filled_def)
    obtain k c2 where "k < length es" "emit_ents es s (c1\<lparr>cx_pos := cx_pos ctx + 1\<rparr>) = Inr (False, c2)"
      "filled b M ((bs @ ?r) @ listing (cx_pos ctx + 1) (map (ent_dent s) (take k es))) c2" "cx_stat c2 = cx_stat ctx" "cx_node c2 = cx_node ctx"
      "M < length (bs @ ?r) + length (listing (cx_pos ctx + 1) (map (ent_dent s) (take (Suc k) es)))"
      using Cons.IH [OF f1] Cons.prems(2,3) c1(4,5) by auto
    then show ?thesis using x c1 strlen_cbytes [OF x(2)] by (intro exI [of _ "Suc k"]) (auto simp: ent_at_def add.assoc)
  qed
qed

lemma emit_dot_ok:
  assumes g: "dir_good (cx_node ctx) s" and f: "filled b M bs ctx" and l: "length bs + 34 \<le> M"
  shows "\<exists>c. dir_emit_dot s ctx = Inr (True, c) \<and> filled b M (bs @ drec (cx_pos ctx) (node_dent ''.'' (cx_node ctx) s)) c \<and> cx_pos c = cx_pos ctx \<and>
    cx_stat c = cx_stat ctx \<and> cx_node c = cx_node ctx"
proof -
  have n: "name_ok (map of_char ''.'')" by (simp add: name_ok_def)
  show ?thesis by (rule dir_goodE [OF g]) (use emit_fits [OF f n cbytes_split] l in \<open>auto simp: dir_emit_dot_def deref_def node_dent_def\<close>)
qed

lemma emit_dotdot_ok:
  assumes g: "dir_good (cx_node ctx) s" and f: "filled b M bs ctx" and l: "length bs + 35 \<le> M"
  shows "\<exists>c. dir_emit_dotdot s ctx = Inr (True, c) \<and> filled b M (bs @ drec (cx_pos ctx) (node_dent ''..'' (prt_of (cx_node ctx) s) s)) c \<and>
    cx_pos c = cx_pos ctx \<and> cx_stat c = cx_stat ctx \<and> cx_node c = cx_node ctx"
proof -
  have n: "name_ok (map of_char ''..'')" by (simp add: name_ok_def)
  show ?thesis by (rule dir_goodE [OF g]) (use emit_fits [OF f n cbytes_split] l in \<open>auto simp: dir_emit_dotdot_def deref_def node_dent_def\<close>)
qed

lemma emit_dots_ok:
  assumes g: "dir_good (cx_node ctx) s" and f: "filled b M [] ctx" and l: "69 \<le> M"
  shows "\<exists>c ds. emit_dots s ctx = Inr (True, c) \<and> filled b M (listing (cx_pos ctx) ds) c \<and> cx_stat c = cx_stat ctx \<and> cx_node c = cx_node ctx \<and>
    cx_pos c = cx_pos ctx + of_nat (length ds) \<and> (\<forall>(nm, _)\<in>set ds. name_ok nm) \<and> length (listing (cx_pos ctx) ds) \<le> 69 \<and>
    (cx_pos ctx = 0 \<longrightarrow> ds = [node_dent ''.'' (cx_node ctx) s, node_dent ''..'' (prt_of (cx_node ctx) s) s])"
proof -
  let ?d = "node_dent ''.'' (cx_node ctx) s" let ?dd = "node_dent ''..'' (prt_of (cx_node ctx) s) s"
  have n: "name_ok (fst ?d)" "name_ok (fst ?dd)" "length (drec p ?d) = 34" "length (drec p ?dd) = 35" for p
    by (simp_all add: node_dent_def name_ok_def)
  consider "cx_pos ctx = 0" | "cx_pos ctx = 1" | "cx_pos ctx \<noteq> 0" "cx_pos ctx \<noteq> 1" by blast
  then show ?thesis
  proof cases
    case 1
    obtain c1 where c1: "dir_emit_dot s ctx = Inr (True, c1)" "filled b M (drec 0 ?d) c1" "cx_pos c1 = 0" "cx_stat c1 = cx_stat ctx" "cx_node c1 = cx_node ctx"
      using emit_dot_ok [OF g f] l 1 by auto
    have "filled b M (drec 0 ?d) (c1\<lparr>cx_pos := 1\<rparr>)" using c1(2) by (simp add: filled_def)
    then obtain c2 where c2: "dir_emit_dotdot s (c1\<lparr>cx_pos := 1\<rparr>) = Inr (True, c2)" "filled b M (drec 0 ?d @ drec 1 ?dd) c2" "cx_pos c2 = 1"
      "cx_stat c2 = cx_stat ctx" "cx_node c2 = cx_node ctx"
      using emit_dotdot_ok [of "c1\<lparr>cx_pos := 1\<rparr>" s b M "drec 0 ?d"] g l n(3) c1(4,5) by auto
    have "emit_dots s ctx = Inr (True, c2\<lparr>cx_pos := 2\<rparr>)" using 1 c1 c2 by (simp add: emit_dots_def)
    moreover have "filled b M (listing 0 [?d, ?dd]) (c2\<lparr>cx_pos := 2\<rparr>)" using c2(2) by (simp add: filled_def)
    ultimately show ?thesis using 1 c2(4,5) n by (intro exI [of _ "c2\<lparr>cx_pos := 2\<rparr>"] exI [of _ "[?d, ?dd]"]) (auto simp: case_prod_beta)
  next
    case 2
    obtain c2 where c2: "dir_emit_dotdot s ctx = Inr (True, c2)" "filled b M (drec 1 ?dd) c2" "cx_pos c2 = 1" "cx_stat c2 = cx_stat ctx" "cx_node c2 = cx_node ctx"
      using emit_dotdot_ok [OF g f] l 2 by auto
    have "emit_dots s ctx = Inr (True, c2\<lparr>cx_pos := 2\<rparr>)" using 2 c2 by (simp add: emit_dots_def)
    moreover have "filled b M (listing 1 [?dd]) (c2\<lparr>cx_pos := 2\<rparr>)" using c2(2) by (simp add: filled_def)
    ultimately show ?thesis using 2 c2(4,5) n by (intro exI [of _ "c2\<lparr>cx_pos := 2\<rparr>"] exI [of _ "[?dd]"]) (auto simp: case_prod_beta)
  next
    case 3
    then have "emit_dots s ctx = Inr (True, ctx)" by (simp add: emit_dots_def)
    then show ?thesis using f 3 by (intro exI [of _ ctx] exI [of _ "[]"]) auto
  qed
qed

lemma filled_stat [simp]: "filled b M bs (ctx\<lparr>cx_stat := w\<rparr>) = filled b M bs ctx"
  by (simp add: filled_def)

lemma filled_init [simp]: "filled b M bs (init_ctx n ctx) = filled b M bs ctx"
  by (simp add: filled_def init_ctx_def)

text \<open>Listing a directory only changes the time of the last access.\<close>

lemma nodes_atime: "nodes (set_node n (nn\<lparr>n_atime := t\<rparr>) s) = (nodes s)(n \<mapsto> nn\<lparr>n_atime := t\<rparr>)" "tf_ents (set_node n (nn\<lparr>n_atime := t\<rparr>) s) = tf_ents s"
  by (simp_all add: set_node_def)

lemma getprt_atime: "nodes (s :: tmpfs) n = Some nn \<Longrightarrow> vfs_getprt p (set_node n (nn\<lparr>n_atime := t\<rparr>) s) = vfs_getprt p s"
  by (auto simp: vfs_getprt_def deref_def nodes_atime bind_result_def split: option.splits sum.splits if_splits)

lemma dir_good_atime:
  assumes g: "dir_good n s" and n: "nodes s n = Some nn"
  shows "dir_good n (set_node n (nn\<lparr>n_atime := t\<rparr>) s)" "subs n (set_node n (nn\<lparr>n_atime := t\<rparr>) s) = subs n s"
    "ent_dent (set_node n (nn\<lparr>n_atime := t\<rparr>) s) = ent_dent s"
proof -
  show b: "subs n (set_node n (nn\<lparr>n_atime := t\<rparr>) s) = subs n s" using n by (simp add: subs_def nodes_atime)
  show "ent_dent (set_node n (nn\<lparr>n_atime := t\<rparr>) s) = ent_dent s" by (simp add: ent_dent_def nodes_atime fun_eq_iff)
  show "dir_good n (set_node n (nn\<lparr>n_atime := t\<rparr>) s)"
    using g n unfolding dir_good_def b by (auto simp: nodes_atime getprt_atime [OF n])
qed

section \<open>A listing that fits\<close>

lemma tmp_ents_names: "dir_good n s \<Longrightarrow> \<forall>(nm, _)\<in>set (tmp_ents n s). name_ok nm"
  by (fastforce simp: dir_good_def tmp_ents_def node_dent_def ent_dent_def str_ok_def name_ok_def Let_def)

lemma tmp_ents_length: "length (listing pos (tmp_ents n s)) = 69 + length (listing p (map (ent_dent s) (subs n s)))"
  using length_listing_pos [of "pos + 1 + 1" "map (ent_dent s) (subs n s)" p] by (simp add: tmp_ents_def node_dent_def)

lemma readdir_fits:
  assumes g: "dir_good n s" and c: "cx_stat ctx = ctx_inv" "filled b M [] ctx" and l: "length (listing 0 (tmp_ents n s)) \<le> M"
  shows "\<exists>r ctx' s'. tmpfs_readdir n ctx s = Inr (r, ctx', s') \<and> 0 \<le> r \<and> filled b M (listing 0 (tmp_ents n s)) ctx' \<and> cx_stat ctx' = ctx_end"
proof -
  let ?c0 = "init_ctx n ctx"
  have i: "cx_node ?c0 = n" "cx_pos ?c0 = 0" "cx_stat ?c0 = ctx_pre" by (simp_all add: init_ctx_def)
  obtain c1 where c1: "emit_dots s ?c0 = Inr (True, c1)" "filled b M (listing 0 [node_dent ''.'' n s, node_dent ''..'' (prt_of n s) s]) c1"
    "cx_stat c1 = ctx_pre" "cx_pos c1 = 2"
    using emit_dots_ok [of ?c0 s b M] g c(2) l tmp_ents_length [of 0 n s 0] i by auto
  have e: "\<forall>e\<in>set (subs n s). \<exists>x. tf_ents s e = Some x \<and> str_ok (te_name x)" using g by (simp add: dir_good_def)
  obtain c2 where c2: "emit_ents (subs n s) s c1 = Inr (True, c2)" "filled b M (listing 0 (tmp_ents n s)) c2"
    using emit_ents_all [OF c1(2) e] c1(4) l by (auto simp: tmp_ents_def add.assoc)
  show ?thesis
    by (rule dir_goodE [OF g]) (use c c1 c2 i in \<open>simp add: tmpfs_readdir_def deref_def ent_at_def\<close>)
qed

interpretation tmpls: dir_lister tmpfs_readdir tmp_ents dir_good "\<lambda>_ ctx _. cx_stat ctx = ctx_end"
proof
  show "\<forall>(nm, _)\<in>set (tmp_ents n s). name_ok nm" if "dir_good n s" for n s using tmp_ents_names [OF that] .
  show "\<exists>r ctx' s'. tmpfs_readdir n ctx s = Inr (r, ctx', s') \<and> 0 \<le> r \<and> filled b M (listing 0 (tmp_ents n s)) ctx' \<and> cx_stat ctx' = ctx_end"
    if "dir_good n s" "cx_stat ctx = ctx_inv" "filled b M [] ctx" "length (listing 0 (tmp_ents n s)) \<le> M" for n s ctx b M
    using readdir_fits [OF that] .
  show "\<exists>r ctx' s'. tmpfs_readdir n (ctx\<lparr>cx_mem := b, cx_off := 0, cx_bufmx := mx, cx_bufused := 0\<rparr>) s = Inr (r, ctx', s') \<and> (r < 0 \<or> cx_bufused ctx' = 0)"
    if "cx_stat ctx = ctx_end" for n ctx s b mx
    using that by (simp add: tmpfs_readdir_def EOF_def)
qed

text \<open>
  C20. From the entries of a tmpfs directory through the records in the buffer to the lines that ls prints: when the
  records of the directory fit into the buffer of 4096 bytes, ls ends, having printed exactly the names of its entries that do not begin
  with a dot, each once and in the order of the directory.
\<close>

theorem ls_lists_tmpfs:
  assumes "slot fd f = Inr (Some i)" "f_heap f i = Some x" "fl_flgs x AND 3 \<noteq> 1" "D i = Some ctx" "cx_stat ctx = ctx_inv" "length b = 4096"
    "dir_good (fl_node x) (fs_st f)" "length (listing 0 (tmp_ents (fl_node x) (fs_st f))) \<le> 4096"
  shows "\<exists>f' D'. ls_loop tmpfs_readdir fd b [] f D =
    Some (Inr (filter (\<lambda>nm. take 1 nm \<noteq> [0x2E]) (map (\<lambda>e. map of_char (te_name (the (tf_ents (fs_st f) e)))) (subs (fl_node x) (fs_st f))), f', D'))"
proof -
  have "shown (tmp_ents n s) = filter (\<lambda>nm. take 1 nm \<noteq> [0x2E]) (map (\<lambda>e. map of_char (te_name (the (tf_ents s e)))) (subs n s))" for n s
    by (simp add: shown_def tmp_ents_def node_dent_def ent_dent_def comp_def Let_def)
  then show ?thesis using tmpls.ls_prints [of fd f i x D ctx b] assms by simp
qed

section \<open>A listing that does not fit\<close>

text \<open>
  The state in which \<open>ls\<close> stays: the listing has not ended, and the entries of the directory need more room than the
  buffer has.
\<close>

definition endless :: "int \<Rightarrow> bytes \<Rightarrow> tmpfs fdesc \<Rightarrow> (nat \<Rightarrow> dirctx option) \<Rightarrow> bool" where
  "endless fd b f D \<longleftrightarrow> length b = 4096 \<and> (\<exists>i x ctx. slot fd f = Inr (Some i) \<and> f_heap f i = Some x \<and> fl_flgs x AND 3 \<noteq> 1 \<and> D i = Some ctx \<and>
     (cx_stat ctx = ctx_inv \<or> cx_stat ctx = ctx_pre \<and> cx_node ctx = fl_node x) \<and> dir_good (fl_node x) (fs_st f) \<and>
     (let es = map (ent_dent (fs_st f)) (subs (fl_node x) (fs_st f)) in 4096 < length (listing 0 es) \<and> length (fst (hd es)) \<le> 3900))"

lemma readdir_overflows:
  assumes g: "dir_good n s" and c: "cx_stat ctx = ctx_inv \<or> cx_stat ctx = ctx_pre \<and> cx_node ctx = n" "filled b 4096 [] ctx"
    and l: "4096 < length (listing 0 (map (ent_dent s) (subs n s)))" "length (fst (hd (map (ent_dent s) (subs n s)))) \<le> 3900"
  shows "\<exists>ctx' pos es nn. nodes s n = Some nn \<and> tmpfs_readdir n ctx s = Inr (0, ctx', set_node n (nn\<lparr>n_atime := now s\<rparr>) s) \<and>
    filled b 4096 (listing pos es) ctx' \<and> es \<noteq> [] \<and> (\<forall>(nm, _)\<in>set es. name_ok nm) \<and> cx_stat ctx' = ctx_pre \<and> cx_node ctx' = n"
proof -
  define c0 where "c0 = (if cx_stat ctx = ctx_inv then init_ctx n ctx else ctx)"
  have i: "cx_node c0 = n" "cx_stat c0 = ctx_pre" "filled b 4096 [] c0" using c by (auto simp: c0_def init_ctx_def filled_def)
  let ?p = "cx_pos c0"
  obtain c1 ds where c1: "emit_dots s c0 = Inr (True, c1)" "filled b 4096 (listing ?p ds) c1" "cx_stat c1 = ctx_pre" "cx_node c1 = n"
    "cx_pos c1 = ?p + of_nat (length ds)" "\<forall>(nm, _)\<in>set ds. name_ok nm" "length (listing ?p ds) \<le> 69"
    using emit_dots_ok [of c0 s b 4096] g i by auto
  have e: "\<forall>e\<in>set (subs n s). \<exists>x. tf_ents s e = Some x \<and> str_ok (te_name x)" using g by (simp add: dir_good_def)
  have "4096 < length (listing ?p ds) + length (listing (cx_pos c1) (map (ent_dent s) (subs n s)))"
    using l(1) length_listing_pos [of 0 "map (ent_dent s) (subs n s)" "cx_pos c1"] by simp
  from emit_ents_some [OF c1(2) e this] obtain k c2 where c2: "k < length (subs n s)" "emit_ents (subs n s) s c1 = Inr (False, c2)"
    "filled b 4096 (listing ?p ds @ listing (cx_pos c1) (map (ent_dent s) (take k (subs n s)))) c2" "cx_stat c2 = ctx_pre" "cx_node c2 = n"
    "4096 < length (listing ?p ds) + length (listing (cx_pos c1) (map (ent_dent s) (take (Suc k) (subs n s))))" using c1(3,4) by auto
  have "k \<noteq> 0"
  proof
    assume k: "k = 0"
    obtain e0 es0 where es0: "subs n s = e0 # es0" using c2(1) by (cases "subs n s") auto
    then show False using c2(6) l(2) c1(7) k by (cases "ent_dent s e0") simp
  qed
  moreover have "listing ?p ds @ listing (cx_pos c1) (map (ent_dent s) (take k (subs n s))) = listing ?p (ds @ map (ent_dent s) (take k (subs n s)))"
    using c1(5) by (simp add: listing_append)
  moreover have "\<forall>(nm, _)\<in>set (map (ent_dent s) (take k (subs n s))). name_ok nm"
    using e by (auto simp: ent_dent_def str_ok_def Let_def dest!: in_set_takeD)
  ultimately have "filled b 4096 (listing ?p (ds @ map (ent_dent s) (take k (subs n s)))) c2" "ds @ map (ent_dent s) (take k (subs n s)) \<noteq> []"
    "\<forall>(nm, _)\<in>set (ds @ map (ent_dent s) (take k (subs n s))). name_ok nm" using c2(1,3) c1(6) by (auto simp: case_prod_beta)
  moreover obtain nn where "nodes s n = Some nn" "tmpfs_readdir n ctx s = Inr (0, c2, set_node n (nn\<lparr>n_atime := now s\<rparr>) s)"
    by (rule dir_goodE [OF g]) (use c1 c2 i in \<open>simp add: tmpfs_readdir_def deref_def ent_at_def c0_def [symmetric]\<close>)
  ultimately show ?thesis using c2(4,5) by blast
qed

lemma ls_step_endless:
  assumes "endless fd b f D"
  shows "\<exists>nr m f' D' es pos. sys_readdir tmpfs_readdir fd b 4096 f D = Inr (nr, m, f', D') \<and> sint (word_of_int nr :: u32) = int (length (listing pos es)) \<and>
    es \<noteq> [] \<and> m = listing pos es @ drop (length (listing pos es)) b \<and> (\<forall>(nm, _)\<in>set es. name_ok nm) \<and> endless fd m f' D'"
proof -
  obtain i x ctx where f: "length b = 4096" "slot fd f = Inr (Some i)" "f_heap f i = Some x" "fl_flgs x AND 3 \<noteq> 1" "D i = Some ctx"
    "cx_stat ctx = ctx_inv \<or> cx_stat ctx = ctx_pre \<and> cx_node ctx = fl_node x" and g: "dir_good (fl_node x) (fs_st f)"
    and l: "4096 < length (listing 0 (map (ent_dent (fs_st f)) (subs (fl_node x) (fs_st f))))"
    "length (fst (hd (map (ent_dent (fs_st f)) (subs (fl_node x) (fs_st f))))) \<le> 3900"
    using assms unfolding endless_def Let_def by blast
  let ?c = "ctx\<lparr>cx_mem := b, cx_off := 0, cx_bufmx := 4096, cx_bufused := 0\<rparr>"
  have "filled b 4096 [] ?c" using f(1) by (simp add: filled_def)
  then obtain ctx' pos es nn where r: "nodes (fs_st f) (fl_node x) = Some nn"
    "tmpfs_readdir (fl_node x) ?c (fs_st f) = Inr (0, ctx', set_node (fl_node x) (nn\<lparr>n_atime := now (fs_st f)\<rparr>) (fs_st f))"
    "filled b 4096 (listing pos es) ctx'" "es \<noteq> []" "\<forall>(nm, _)\<in>set es. name_ok nm" "cx_stat ctx' = ctx_pre" "cx_node ctx' = fl_node x"
    using readdir_overflows [OF g, of ?c b] l f(6) by auto
  define s' where "s' = set_node (fl_node x) (nn\<lparr>n_atime := now (fs_st f)\<rparr>) (fs_st f)"
  define m where "m = listing pos es @ drop (length (listing pos es)) b"
  define f' where "f' = set_file i (x\<lparr>fl_offset := cx_pos ctx'\<rparr>) (f\<lparr>fs_st := s'\<rparr>)"
  have c: "sys_readdir tmpfs_readdir fd b 4096 f D = Inr (sint (cx_bufused ctx'), m, f', D(i \<mapsto> ctx'))"
    using f r by (simp add: sys_readdir_def file_at_def O_WRONLY_def filled_def m_def f'_def s'_def)
  have n: "sint (word_of_int (sint (cx_bufused ctx')) :: u32) = int (length (listing pos es))"
    using int_nr [of "length (listing pos es)"] r(3) by (simp add: filled_def)
  note a = dir_good_atime [OF g r(1), of "now (fs_st f)", folded s'_def]
  have s: "slot fd f' = Inr (Some i)" "f_heap f' i = Some (x\<lparr>fl_offset := cx_pos ctx'\<rparr>)" "fs_st f' = s'" "length m = 4096"
    using f(1,2) r(3) by (auto simp: f'_def slot_def set_file_def m_def filled_def split: if_splits)
  have "endless fd m f' (D(i \<mapsto> ctx'))" unfolding endless_def using s f(4) r(6,7) a l by (simp add: Let_def)
  then show ?thesis using c n r(4,5) m_def by blast
qed

lemma listing_pos: "es \<noteq> [] \<Longrightarrow> 0 < length (listing pos es)"
  by (cases es) (auto simp: drec_def split: prod.split)

text \<open>
  When the records of the entries of a tmpfs directory do not fit into the buffer of 4096 bytes, ls never ends: each call of
  readdir starts the loop over the entries from the first one again and never reaches the last.
\<close>

theorem ls_endless_tmpfs:
  assumes "length b = 4096" "slot fd f = Inr (Some i)" "f_heap f i = Some x" "fl_flgs x AND 3 \<noteq> 1" "D i = Some ctx" "cx_stat ctx = ctx_inv"
    "dir_good (fl_node x) (fs_st f)" "4096 < length (listing 0 (map (ent_dent (fs_st f)) (subs (fl_node x) (fs_st f))))"
    "length (te_name (the (tf_ents (fs_st f) (hd (subs (fl_node x) (fs_st f)))))) \<le> 3900"
  shows "ls_loop tmpfs_readdir fd b [] f D = None"
proof -
  have "rd = tmpfs_readdir \<longrightarrow> \<not> endless fd' b' f0 D0" if "ls_loop rd fd' b' out f0 D0 = Some y" for rd fd' b' out f0 D0 y
  proof (rule ls_loop.raw_induct [where P = "\<lambda>rd fd b out f D y. rd = tmpfs_readdir \<longrightarrow> \<not> endless fd b f D", OF _ that], goal_cases)
    case (1 ls rd fd b out f D y)
    show ?case
    proof (rule ccontr)
      assume "\<not> (rd = tmpfs_readdir \<longrightarrow> \<not> endless fd b f D)"
      then have e: "rd = tmpfs_readdir" "endless fd b f D" by auto
      from ls_step_endless [OF e(2)] obtain nr m f' D' es pos where s: "sys_readdir tmpfs_readdir fd b 4096 f D = Inr (nr, m, f', D')"
        "sint (word_of_int nr :: u32) = int (length (listing pos es))" "es \<noteq> []" "m = listing pos es @ drop (length (listing pos es)) b"
        "\<forall>(nm, _)\<in>set es. name_ok nm" "endless fd m f' D'" by blast
      have "ls_records m (length (listing pos es)) 0 out = Some (Inr (out @ shown es))"
        using ls_records_listing [OF s(5), of "[]" pos "drop (length (listing pos es)) b" out] s(4) by simp
      then have "ls rd fd m (out @ shown es) f' D' = Some y" using 1(2) s e(1) listing_pos [OF s(3), of pos] by (simp add: Let_def)
      from 1(1) [OF this] show False using e(1) s(6) by blast
    qed
  qed
  moreover have "endless fd b f D"
  proof -
    have "subs (fl_node x) (fs_st f) \<noteq> []" using assms(8) by auto
    then show ?thesis using assms by (simp add: endless_def hd_map ent_dent_def Let_def)
  qed
  ultimately show ?thesis by (cases "ls_loop tmpfs_readdir fd b [] f D") auto
qed

section \<open>Two directories\<close>

definition dir_ent :: "string \<Rightarrow> nat list \<Rightarrow> tentry" where
  "dir_ent nm sub = \<lparr>te_name = nm, te_ino = 5, te_mode = 0x81A4, te_rdev = 0, te_parent = None, te_subdir = sub, te_filsz = 0, te_root = None\<rparr>"

text \<open>A directory with two entries, open as descriptor 0.\<close>

definition dir_demo :: "string \<Rightarrow> string \<Rightarrow> tmpfs" where
  "dir_demo a b = tmp_demo\<lparr>nodes := [1 \<mapsto> plain_node '''' 0x41ED 0 1 []], tf_ents := [0 \<mapsto> dir_ent '''' [1, 2], 1 \<mapsto> dir_ent a [], 2 \<mapsto> dir_ent b []]\<rparr>"

definition dir_fds :: "string \<Rightarrow> string \<Rightarrow> tmpfs fdesc" where
  "dir_fds a b = tmp_fds\<lparr>fs_st := dir_demo a b, f_heap := [0 \<mapsto> \<lparr>fl_offset = 0, fl_node = 1, fl_flgs = 0x10000, fl_fdfl = 0, fl_refer = 1\<rparr>]\<rparr>"

definition ctx_demo :: dirctx where
  "ctx_demo = \<lparr>cx_node = 0, cx_stat = ctx_inv, cx_pos = 0, cx_mem = [], cx_off = 0, cx_bufmx = 0, cx_bufused = 0\<rparr>"

lemma dir_demo_facts:
  "slot 0 (dir_fds a b) = Inr (Some 0)" "fs_st (dir_fds a b) = dir_demo a b" "subs 1 (dir_demo a b) = [1, 2]"
  "tf_ents (dir_demo a b) 1 = Some (dir_ent a [])" "tf_ents (dir_demo a b) 2 = Some (dir_ent b [])"
  "f_heap (dir_fds a b) 0 = Some \<lparr>fl_offset = 0, fl_node = 1, fl_flgs = 0x10000, fl_fdfl = 0, fl_refer = 1\<rparr>"
  by (simp_all add: slot_def dir_fds_def tmp_fds_def dir_demo_def subs_def plain_node_def dir_ent_def)

lemma dir_demo_good:
  assumes "str_ok a" "str_ok b"
  shows "dir_good 1 (dir_demo a b)"
proof -
  have "nodes (dir_demo a b) 1 = Some (plain_node '''' 0x41ED 0 1 [])" "tf_ents (dir_demo a b) 0 = Some (dir_ent '''' [1, 2])" by (simp_all add: dir_demo_def)
  then show ?thesis
    using assms dir_demo_facts(3-5) [of a b] by (auto simp: dir_good_def vfs_getprt_def deref_def plain_node_def dir_ent_def)
qed

lemma dir_demo_size: "length (listing 0 (map (ent_dent (dir_demo a b)) [1, 2])) = 66 + length a + length b"
  using dir_demo_facts(4,5) [of a b] by (simp add: ent_dent_def dir_ent_def)

theorem ls_lists_tmpfs_witness:
  "\<exists>f' D'. ls_loop tmpfs_readdir 0 (replicate 4096 0) [] (dir_fds ''a'' ''.b'') [0 \<mapsto> ctx_demo] = Some (Inr ([[97]], f', D'))"
proof -
  have g: "dir_good 1 (dir_demo ''a'' ''.b'')" by (rule dir_demo_good) (simp_all add: str_ok_def name_ok_def of_char_def)
  have "length (listing 0 (tmp_ents 1 (dir_demo ''a'' ''.b''))) = 138"
    using tmp_ents_length [of 0 1 "dir_demo ''a'' ''.b''" 0] dir_demo_size [of "''a''" "''.b''"] by (simp add: dir_demo_facts del: One_nat_def)
  then have "\<exists>f' D'. ls_loop tmpfs_readdir 0 (replicate 4096 0) [] (dir_fds ''a'' ''.b'') [0 \<mapsto> ctx_demo] =
    Some (Inr (filter (\<lambda>nm. take 1 nm \<noteq> [0x2E]) (map (\<lambda>e. map of_char (te_name (the (tf_ents (dir_demo ''a'' ''.b'') e)))) [1, 2]), f', D'))"
    using ls_lists_tmpfs [of 0 "dir_fds ''a'' ''.b''" 0, OF dir_demo_facts(1,6), of "[0 \<mapsto> ctx_demo]" ctx_demo "replicate 4096 0"] g
    by (simp add: dir_demo_facts ctx_demo_def del: One_nat_def)
  then show ?thesis by (simp add: dir_demo_facts dir_ent_def of_char_def take_Cons' del: One_nat_def)
qed

theorem ls_endless_tmpfs_witness:
  "ls_loop tmpfs_readdir 0 (replicate 4096 0) [] (dir_fds (replicate 3000 CHR ''a'') (replicate 3000 CHR ''b'')) [0 \<mapsto> ctx_demo] = None"
proof -
  let ?a = "replicate 3000 CHR ''a''" let ?b = "replicate 3000 CHR ''b''"
  have g: "dir_good 1 (dir_demo ?a ?b)" by (rule dir_demo_good) (simp_all add: str_ok_def name_ok_def of_char_def)
  show ?thesis
    using ls_endless_tmpfs [of "replicate 4096 0" 0 "dir_fds ?a ?b" 0, OF _ dir_demo_facts(1,6), of "[0 \<mapsto> ctx_demo]" ctx_demo] g dir_demo_size [of ?a ?b]
    by (simp add: dir_demo_facts ctx_demo_def dir_ent_def del: One_nat_def)
qed

end
