(* ===== verification/Path_Calls.thy ===== *)
theory Path_Calls
  imports Tmpfs_Dir
begin

unbundle bit_operations_syntax

text \<open>
  The system calls of kernel/file.c that take a path: they open it and hand the node to the virtual file system. \<open>op\<close>, \<open>mk\<close>,
  \<open>co\<close> and \<open>cm\<close> are the operations of the file system, \<open>pwd\<close> the working directory of the task. A call with a descriptor works
  on the table of File.
\<close>

section \<open>Calls\<close>

record stat_t =
  st_dev :: u64
  st_ino :: u64
  st_nlink :: u32
  st_mode :: u32
  st_uid :: u32
  st_gid :: u32
  st_rdev :: u64
  st_size :: u64
  st_blksize :: int
  st_blocks :: int
  st_atime :: u64
  st_mtime :: u64
  st_ctime :: u64

definition stat_of :: "node \<Rightarrow> stat_t" where
  "stat_of n = \<lparr>st_dev = n_dev n, st_ino = n_ino n, st_nlink = 1, st_mode = n_mode n, st_uid = n_uid n, st_gid = n_gid n, st_rdev = n_rdev n,
     st_size = n_siz n, st_blksize = - 1, st_blocks = - 1, st_atime = n_atime n, st_mtime = n_mtime n, st_ctime = n_ctime n\<rparr>"

definition sys_stat :: "'a open_op \<Rightarrow> nid option \<Rightarrow> string \<Rightarrow> 'a vfs_scheme \<Rightarrow> (int \<times> stat_t option \<times> 'a vfs_scheme) result" where
  "sys_stat op pwd path s =
     bind_result (vfs_open op pwd path FS_GAIN 0 s) (\<lambda>(ret, node, s1).
       if ret < 0 then Inr (ret, None, s1) else bind_result (deref node s1) (\<lambda>n. Inr (0, Some (stat_of n), s1)))"

definition sys_mknod :: "'a open_op \<Rightarrow> 'a mknod_op \<Rightarrow> string \<Rightarrow> u32 \<Rightarrow> u64 \<Rightarrow> 'a vfs_scheme \<Rightarrow> (int \<times> 'a vfs_scheme) result" where
  "sys_mknod op mk path mode dev s =
     (if \<not> S_ISCHR mode \<and> \<not> S_ISBLK mode \<and> \<not> S_ISFIFO mode then Inr (- EINVAL, s) else vfs_mknod op mk path dev mode s)"

text \<open>The node behind a pointer that a call hands on.\<close>

definition with_node :: "nid option \<Rightarrow> (nid \<Rightarrow> 'b result) \<Rightarrow> 'b result" where
  "with_node node k = (case node of None \<Rightarrow> Inl BadAccess | Some n \<Rightarrow> k n)"

definition sys_chown :: "'a open_op \<Rightarrow> 'a chown_op \<Rightarrow> nid option \<Rightarrow> string \<Rightarrow> u32 \<Rightarrow> u32 \<Rightarrow> 'a vfs_scheme \<Rightarrow> (int \<times> 'a vfs_scheme) result" where
  "sys_chown op co pwd path owner grp s =
     bind_result (vfs_open op pwd path 0 0 s) (\<lambda>(ret, node, s1).
       if ret < 0 then Inr (ret, s1) else with_node node (\<lambda>n. vfs_chown co n owner grp s1))"

definition sys_fchown :: "'a chown_op \<Rightarrow> int \<Rightarrow> u32 \<Rightarrow> u32 \<Rightarrow> 'a vfs_scheme fdesc \<Rightarrow> (int \<times> 'a vfs_scheme fdesc) result" where
  "sys_fchown co fd owner grp f =
     bind_result (slot fd f) (\<lambda>p. case p of None \<Rightarrow> Inr (- EBADF, f) | Some i \<Rightarrow>
     bind_result (file_at i f) (\<lambda>x. bind_result (vfs_chown co (fl_node x) owner grp (fs_st f)) (\<lambda>(ret, s1). Inr (ret, f\<lparr>fs_st := s1\<rparr>))))"

definition sys_chmod :: "'a open_op \<Rightarrow> 'a chmod_op \<Rightarrow> nid option \<Rightarrow> string \<Rightarrow> u32 \<Rightarrow> 'a vfs_scheme \<Rightarrow> (int \<times> 'a vfs_scheme) result" where
  "sys_chmod op cm pwd path mode s =
     bind_result (vfs_open op pwd path 0 0 s) (\<lambda>(ret, node, s1).
       if ret < 0 then Inr (ret, s1) else with_node node (\<lambda>n. vfs_chmod cm n (mode AND 0xFFF) s1))"

definition sys_fchmod :: "'a chmod_op \<Rightarrow> int \<Rightarrow> u32 \<Rightarrow> 'a vfs_scheme fdesc \<Rightarrow> (int \<times> 'a vfs_scheme fdesc) result" where
  "sys_fchmod cm fd mode f =
     bind_result (slot fd f) (\<lambda>p. case p of None \<Rightarrow> Inr (- EBADF, f) | Some i \<Rightarrow>
     bind_result (file_at i f) (\<lambda>x. bind_result (vfs_chmod cm (fl_node x) (mode AND 0xFFF) (fs_st f)) (\<lambda>(ret, s1). Inr (ret, f\<lparr>fs_st := s1\<rparr>))))"

definition sys_umount2 :: "'a open_op \<Rightarrow> nid option \<Rightarrow> string \<Rightarrow> 'a vfs_scheme \<Rightarrow> (int \<times> 'a vfs_scheme) result" where
  "sys_umount2 op pwd target s =
     bind_result (vfs_open op pwd target (FS_GAIN OR FS_GAINMNT) 0 s) (\<lambda>(ret, node, s1).
       if ret < 0 then Inr (ret, s1) else with_node node (\<lambda>n. bind_result (vfs_umount n s1) (\<lambda>s2. Inr (0, s2))))"

text \<open>\<open>chdir\<close> gives the new working directory.\<close>

definition sys_chdir :: "'a open_op \<Rightarrow> nid option \<Rightarrow> string \<Rightarrow> 'a vfs_scheme \<Rightarrow> (int \<times> nid option \<times> 'a vfs_scheme) result" where
  "sys_chdir op pwd path s =
     bind_result (vfs_open op pwd path O_DIRECTORY 0 s) (\<lambda>(ret, node, s1). Inr (if ret < 0 then (ret, pwd, s1) else (ret, node, s1)))"

definition sys_mkdir :: "'a open_op \<Rightarrow> nid option \<Rightarrow> string \<Rightarrow> u32 \<Rightarrow> 'a vfs_scheme \<Rightarrow> (int \<times> 'a vfs_scheme) result" where
  "sys_mkdir op pwd path mode s =
     bind_result (vfs_open op pwd path O_DIRECTORY 0 s) (\<lambda>(ret, _, s1).
       if ret \<ge> 0 then Inr (- EEXIST, s1)
       else bind_result (vfs_open op pwd path (O_DIRECTORY OR O_CREAT) (mode AND 0x1FF) s1) (\<lambda>(ret2, _, s2). Inr (ret2, s2)))"

definition sys_rmdir :: "string \<Rightarrow> int" where
  "sys_rmdir path = - EPERM"

definition sys_getcwd :: "nat \<Rightarrow> nid option \<Rightarrow> u64 \<Rightarrow> 'a vfs_scheme \<Rightarrow> (int \<times> string option) result option" where
  "sys_getcwd fuel pwd sz s =
     map_option (\<lambda>r. bind_result r (\<lambda>(ret, buf, _). Inr (if ret < 0 then (ret, None) else (0, buf)))) (vfs_getpath fuel pwd sz s)"

section \<open>The working directory\<close>

text \<open>
  Going to the directory that getcwd names stays where one is: for every directory below the root that the task can reach and read,
  also across mount points, getcwd gives a path when the buffer is large enough, and chdir to this path from any directory
  makes it the working directory.
\<close>

theorem getcwd_chdir_roundtrip:
  assumes "placed s r c ns" "ns \<noteq> []" "length ns < fuel" "of_nat (length (join_path ns) + 1) \<le> sz"
    "nodes s c = Some x" "S_ISDIR (n_mode x)" "vfs_permission x MAY_READ s = 0"
  shows "\<exists>path. sys_getcwd fuel (Some c) sz s = Some (Inr (0, Some path)) \<and> sys_chdir op pwd path s = Inr (0, Some c, s)"
proof -
  have "vfs_getpath fuel (Some c) sz s = Some (Inr (0, Some (join_path ns), of_nat (length (join_path ns) + 1)))"
    by (rule getpath_placed [OF assms(1,3,4)])
  moreover have d: "O_DIRECTORY AND FS_GAINMNT = 0" "O_DIRECTORY AND FS_GAIN = 0" "O_DIRECTORY AND 3 = 0" "O_DIRECTORY \<noteq> 0" "NOT O_DIRECTORY AND O_DIRECTORY = 0"
    by (simp_all add: O_DIRECTORY_def FS_GAINMNT_def FS_GAIN_def)
  have "vfs_open op pwd (join_path ns) O_DIRECTORY 0 s = Inr (0, Some c, s)"
    using open_resolves [OF path_to_resolves [OF placed_path [OF assms(1)]] assms(2,5) d(1), of op pwd 0] assms(6,7) d by (simp add: access_want_def)
  ultimately show ?thesis by (simp add: sys_getcwd_def sys_chdir_def)
qed

theorem getcwd_chdir_roundtrip_witness:
  "\<exists>path. sys_getcwd 3 (Some 2) 64 vfs_demo = Some (Inr (0, Some path)) \<and> sys_chdir (\<lambda>d p a m s. Inr (- ENOENT, None, s)) None path vfs_demo = Inr (0, Some 2, vfs_demo)"
proof -
  have "nodes vfs_demo 2 = Some (plain_node '''' 0x41ED 0 1 [4])" by (simp add: vfs_demo_def)
  from getcwd_chdir_roundtrip [OF demo_mounted _ _ _ this, of 3 64 "\<lambda>d p a m s. Inr (- ENOENT, None, s)" None] show ?thesis by (simp add: demo_eval)
qed

section \<open>Making a directory\<close>

text \<open>A name in the working directory: the walk over it does nothing.\<close>

lemma walkd_name: "comp_ok nm \<Longrightarrow> vfs_walkd op (Some d) nm s = Inr (nm, Some d, s)"
proof -
  assume c: "comp_ok nm"
  then have "next_comp nm = []" using next_comp_join [of nm "[]"] by simp
  moreover have "nm \<noteq> []" "hd nm \<noteq> CHR ''/''" "dropWhile (\<lambda>c. c = CHR ''/'') nm = nm" using c drop_slash [of nm "[]"] by (cases nm; auto simp: comp_ok_def)+
  ultimately show ?thesis by (simp add: vfs_walkd_def walk_loop.simps)
qed

lemma cmp_dots_name: "comp_ok nm \<Longrightarrow> \<not> cmp nm ''.''" "comp_ok nm \<Longrightarrow> \<not> cmp nm ''..''"
  using cmp_dots [of nm "[]"] by (simp_all add: tail_ok_def)

lemma cmp_self: "cmp nm nm"
  by (simp add: cmp_iff)

lemma dir_flags:
  "O_DIRECTORY AND FS_GAINMNT = 0" "O_DIRECTORY AND FS_GAIN = 0" "O_DIRECTORY AND 3 = 0" "O_DIRECTORY \<noteq> 0" "NOT O_DIRECTORY AND O_DIRECTORY = 0"
  "NOT O_DIRECTORY AND O_CREAT \<noteq> 0" "NOT (O_DIRECTORY OR O_CREAT) AND O_CREAT = 0" "(O_DIRECTORY OR O_CREAT) AND O_DIRECTORY \<noteq> 0"
  "(O_DIRECTORY OR O_CREAT) AND FS_GAINMNT = 0" "(O_DIRECTORY OR O_CREAT) AND FS_GAIN = 0" "(O_DIRECTORY OR O_CREAT) AND 3 = 0"
  "NOT (O_DIRECTORY OR O_CREAT) AND O_DIRECTORY = 0"
  by (simp_all add: O_DIRECTORY_def FS_GAINMNT_def FS_GAIN_def O_CREAT_def)

text \<open>Opening a child that is there, as a directory: only the permission to read it is asked for.\<close>

lemma vfs_permission_values: "vfs_permission n w s = 0 \<or> vfs_permission n w s = - EACCES"
  by (simp add: vfs_permission_def Let_def)

lemma vfs_permission_neg [simp]: "vfs_permission n w s < 0 \<longleftrightarrow> vfs_permission n w s \<noteq> 0"
  using vfs_permission_values [of n w s] by (auto simp: EACCES_def)

lemma open_child_dir:
  assumes "comp_ok nm" "vfs_exist (Some d) nm s = Inr (Some c)" "nodes s c = Some n" "\<not> n_mnt n" "S_ISDIR (n_mode n)"
  shows "args \<in> {O_DIRECTORY, O_DIRECTORY OR O_CREAT} \<Longrightarrow>
      vfs_open op (Some d) nm args mode s = Inr (vfs_permission n MAY_READ s, if vfs_permission n MAY_READ s = 0 then Some c else None, s)"
    "vfs_open op (Some d) nm FS_GAIN mode s = Inr (0, Some c, s)"
proof -
  have o: "vfs_open1 op (Some d) nm args mode s = Inr (0, Some c, s)" for args
    using assms(2-4) cmp_dots_name [OF assms(1)] by (simp add: vfs_open1_def deref_def)
  show "vfs_open op (Some d) nm args mode s = Inr (vfs_permission n MAY_READ s, if vfs_permission n MAY_READ s = 0 then Some c else None, s)"
    if "args \<in> {O_DIRECTORY, O_DIRECTORY OR O_CREAT}"
    using that walkd_name [OF assms(1), of op d s] o assms(3,5) dir_flags by (auto simp: vfs_open_def deref_def access_want_def Let_def)
  show "vfs_open op (Some d) nm FS_GAIN mode s = Inr (0, Some c, s)"
    using walkd_name [OF assms(1), of op d s] o by (simp add: vfs_open_def FS_GAIN_def)
qed

text \<open>The mode of a new directory; one with a read bit for everyone.\<close>

lemma dir_mode: "S_ISDIR ((mode AND 0x1FF) OR 0x4000)"
proof -
  have "((mode AND 0x1FF) OR 0x4000) AND 0xF000 = (mode AND (0x1FF AND 0xF000)) OR (0x4000 AND 0xF000)"
    by (simp only: bit.conj_disj_distrib2 and.assoc)
  then show ?thesis by (simp add: S_ISDIR_def S_IFMT_def)
qed

lemma dir_mode_read:
  assumes "mode AND 0x124 = 0x124" "n_mode n = (mode AND 0x1FF) OR 0x4000"
  shows "vfs_permission n MAY_READ s = 0"
proof -
  let ?m = "(mode AND 0x1FF) OR 0x4000"
  have "bit mode k" if "bit (0x124 :: u32) k" for k using assms(1) that by (metis bit_and_iff)
  then have "bit mode 2" "bit mode 5" "bit mode 8" by simp_all
  then have b: "bit ?m 2" "bit (drop_bit 3 ?m) 2" "bit (drop_bit 6 ?m) 2" by (simp_all add: bit_simps)
  have z: "x AND 4 = 0 \<longleftrightarrow> \<not> bit x 2" for x :: u32 using and_exp_eq_0_iff_not_bit [of x 2] by simp
  show ?thesis using b assms(2) by (auto simp: vfs_permission_def MAY_READ_def MAY_WRITE_def MAY_EXEC_def Let_def z)
qed

lemma tmpfs_open_absent:
  assumes "nodes s d = Some dn" "tf_ents s (n_pdata dn) = Some x" "ent_find (te_subdir x) nm s = Inr None"
  shows "tmpfs_open d nm O_DIRECTORY 0 s = Inr (- ENOENT, None, s)"
  using assms dir_flags(6) by (simp add: tmpfs_open_def deref_def tmp_ent_find_def ent_at_def)

lemma tmpfs_open_creates:
  assumes d: "nodes s d = Some dn" "tf_ents s (n_pdata dn) = Some x" "ent_find (te_subdir x) nm s = Inr None" "tf_nnode s \<noteq> d" "tf_nent s \<noteq> n_pdata dn"
  shows "\<exists>s' n. tmpfs_open d nm (O_DIRECTORY OR O_CREAT) mode s = Inr (0, Some (tf_nnode s), s') \<and>
    nodes s' d = Some (dn\<lparr>n_child := tf_nnode s # n_child dn\<rparr>) \<and> nodes s' (tf_nnode s) = Some n \<and>
    n_name n = nm \<and> n_mode n = mode OR 0x4000 \<and> n_ino n = tf_ino s \<and> n_siz n = 0 \<and> n_mnt n = n_mnt (junk s) \<and>
    n_uid n = n_uid (junk s) \<and> n_gid n = n_gid (junk s) \<and> t_euid s' = t_euid s \<and> t_egid s' = t_egid s"
  using d dir_flags(7,8)
  by (simp add: tmpfs_open_def deref_def tmp_ent_find_def ent_at_def tmpfs_ent_regst_def set_ent_def new_ent_def give_node_def tmpfs_nodeget_def vfs_regst_def
      set_node_def Let_def)

text \<open>
  C11. Making a directory in tmpfs through the system calls, when the working directory has no entry of that name: the directory is made, and stat of the
  name afterwards reports a directory with the requested permissions, size zero and the next inode number. What mkdir returns is the check of the read permission of the new
  node with the owner and group that \<open>tmpfs_nodeget\<close> leaves uninitialised: zero when the requested permissions let everyone read, else zero or
  EACCES. A second mkdir of the same name fails, with EEXIST or with the same EACCES, and changes nothing. The mount bit of the
  uninitialised \<open>attr\<close> of the new node is taken to be clear.
\<close>

theorem mkdir_stat_tmpfs:
  assumes c: "comp_ok nm" and d: "nodes s d = Some dn" "tf_ents s (n_pdata dn) = Some x" "tf_nnode s \<noteq> d" "tf_nent s \<noteq> n_pdata dn"
    and a: "find_child (n_child dn) nm s = Inr None" "ent_find (te_subdir x) nm s = Inr None" and m: "\<not> n_mnt (junk s)"
    and r: "r = vfs_permission ((junk s)\<lparr>n_mode := (mode AND 0x1FF) OR 0x4000\<rparr>) MAY_READ s"
  shows "(mode AND 0x124 = 0x124 \<longrightarrow> r = 0) \<and>
    (\<exists>s1 st. sys_mkdir tmpfs_open (Some d) nm mode s = Inr (r, s1) \<and> sys_stat tmpfs_open (Some d) nm s1 = Inr (0, Some st, s1) \<and>
      S_ISDIR (st_mode st) \<and> st_mode st AND 0x1FF = mode AND 0x1FF \<and> st_size st = 0 \<and> st_ino st = tf_ino s \<and>
      sys_mkdir tmpfs_open (Some d) nm mode s1 = Inr (if r = 0 then - EEXIST else r, s1))"
proof -
  let ?m = "(mode AND 0x1FF) OR 0x4000"
  obtain s1 n where s1: "tmpfs_open d nm (O_DIRECTORY OR O_CREAT) (mode AND 0x1FF) s = Inr (0, Some (tf_nnode s), s1)"
    "nodes s1 d = Some (dn\<lparr>n_child := tf_nnode s # n_child dn\<rparr>)" "nodes s1 (tf_nnode s) = Some n"
    "n_name n = nm" "n_mode n = ?m" "n_ino n = tf_ino s" "n_siz n = 0" "\<not> n_mnt n"
    and own: "n_uid n = n_uid (junk s)" "n_gid n = n_gid (junk s)" "t_euid s1 = t_euid s" "t_egid s1 = t_egid s"
    using tmpfs_open_creates [OF d(1,2) a(2) d(3,4), of "mode AND 0x1FF"] m by auto
  have o0: "vfs_open tmpfs_open (Some d) nm O_DIRECTORY 0 s = Inr (- ENOENT, None, s)"
    using walkd_name [OF c, of tmpfs_open d s] cmp_dots_name [OF c] d(1) a(1) tmpfs_open_absent [OF d(1,2) a(2)]
    by (simp add: vfs_open_def vfs_open1_def vfs_exist_def deref_def ENOENT_def)
  have p: "S_ISDIR (n_mode n)" "vfs_permission n MAY_READ s1 = r" using dir_mode s1(5) own by (simp_all add: r vfs_permission_def)
  have "vfs_open1 tmpfs_open (Some d) nm (O_DIRECTORY OR O_CREAT) (mode AND 0x1FF) s = Inr (0, Some (tf_nnode s), s1)"
    using cmp_dots_name [OF c] d(1) a(1) s1(1,3,8) by (simp add: vfs_open1_def vfs_exist_def deref_def)
  then have "\<exists>q. vfs_open tmpfs_open (Some d) nm (O_DIRECTORY OR O_CREAT) (mode AND 0x1FF) s = Inr (r, q, s1)"
    using walkd_name [OF c, of tmpfs_open d s] s1(3) p dir_flags(8-12) by (simp add: vfs_open_def deref_def access_want_def Let_def)
  then have k: "sys_mkdir tmpfs_open (Some d) nm mode s = Inr (r, s1)" using o0 by (auto simp: sys_mkdir_def ENOENT_def)
  have "vfs_exist (Some d) nm s1 = Inr (Some (tf_nnode s))" using s1(2-4) cmp_self by (simp add: vfs_exist_def deref_def)
  note o = open_child_dir [OF c this s1(3,8) p(1), unfolded p(2)]
  have "r = 0 \<or> r < 0" using vfs_permission_values [of n MAY_READ s1] p(2) by (auto simp: EACCES_def)
  then have "sys_mkdir tmpfs_open (Some d) nm mode s1 = Inr (if r = 0 then - EEXIST else r, s1)" using o(1) by (auto simp: sys_mkdir_def)
  moreover have "sys_stat tmpfs_open (Some d) nm s1 = Inr (0, Some (stat_of n), s1)" using o(2) s1(3) by (simp add: sys_stat_def deref_def)
  moreover have "?m AND 0x1FF = mode AND 0x1FF" by (simp add: bit.conj_disj_distrib2 and.assoc)
  moreover have "mode AND 0x124 = 0x124 \<longrightarrow> r = 0" using dir_mode_read s1(5) p(2) by metis
  ultimately show ?thesis using k p(1) s1(5-7) by (auto simp: stat_of_def)
qed

theorem mkdir_stat_tmpfs_witness:
  "\<exists>s1 st. sys_mkdir tmpfs_open (Some 1) ''c'' 0x1ED (dir_demo ''a'' ''b'') = Inr (0, s1) \<and> sys_stat tmpfs_open (Some 1) ''c'' s1 = Inr (0, Some st, s1) \<and>
    S_ISDIR (st_mode st) \<and> st_mode st AND 0x1FF = 0x1ED \<and> st_ino st = 3 \<and> sys_mkdir tmpfs_open (Some 1) ''c'' 0x1ED s1 = Inr (- EEXIST, s1)"
proof -
  let ?s = "dir_demo ''a'' ''b''"
  have n: "nodes ?s 1 = Some (plain_node '''' 0x41ED 0 1 [])" "tf_ents ?s (n_pdata (plain_node '''' 0x41ED 0 1 [])) = Some (dir_ent '''' [1, 2])"
    "tf_nnode ?s \<noteq> 1" "tf_nent ?s \<noteq> n_pdata (plain_node '''' 0x41ED 0 1 [])" "\<not> n_mnt (junk ?s)" "tf_ino ?s = 3"
    by (simp_all add: dir_demo_def plain_node_def tmp_demo_def vfs.defs vfs_demo_def)
  have "ent_find [1, 2] ''c'' ?s = Inr None" by (simp add: ent_at_def dir_demo_facts dir_ent_def cmp_iff seg_def del: One_nat_def)
  then show ?thesis
    using mkdir_stat_tmpfs [of "''c''", OF _ n(1-4) _ _ n(5) refl, of "0x1ED"] n(6) by (auto simp: comp_ok_def plain_node_def dir_ent_def)
qed

end
