(* ===== verification/Minix_File.thy ===== *)
theory Minix_File
  imports Minix_Disk Byte_File
begin

unbundle bit_operations_syntax

text \<open>
  A file of the minix file system as a sequence of bytes, up to the seven kilobytes that its direct zones hold: reading
  and writing block by block is reading and writing this sequence, and what is written reaches no other file.
\<close>

section \<open>Zones of a file\<close>

text \<open>
  \<open>zok sb c zone n\<close>: the file has \<open>n\<close> direct zones, all taken in the zone map and different, and there are enough free
  zones for those it does not have yet.
\<close>

definition taken :: "superblk \<Rightarrow> bcache \<Rightarrow> u16 \<Rightarrow> bool" where
  "taken sb c z \<longleftrightarrow> (\<exists>j\<in>zbits sb c. unat z = unat (fdz sb) + j)"

definition zok :: "superblk \<Rightarrow> bcache \<Rightarrow> u16 list \<Rightarrow> nat \<Rightarrow> bool" where
  "zok sb c zone n \<longleftrightarrow> length zone = 9 \<and> n \<le> 7 \<and> (\<forall>k<n. taken sb c (zone ! k)) \<and> (\<forall>k. n \<le> k \<and> k < 7 \<longrightarrow> zone ! k = 0) \<and>
     distinct (take n zone) \<and> 7 - n \<le> card ({..<zcap sb} - zbits sb c)"

definition zblk :: "u16 list \<Rightarrow> nat \<Rightarrow> u32" where
  "zblk zone k = ucast (zone ! k)"

definition zdata :: "superblk \<Rightarrow> bcache \<Rightarrow> u16 list \<Rightarrow> nat \<Rightarrow> bytes" where
  "zdata sb c zone n = concat (map (\<lambda>k. blk sb c (zblk zone k)) [0..<n])"

text \<open>Blocks that a write to the file leaves alone.\<close>

definition apart :: "superblk \<Rightarrow> bcache \<Rightarrow> u16 list \<Rightarrow> nat \<Rightarrow> u32 \<Rightarrow> bool" where
  "apart sb c zone n x \<longleftrightarrow> \<not> in_zmap sb x \<and> (\<forall>k<n. x \<noteq> zblk zone k) \<and> (unat x < unat (fdz sb) \<or> unat x - unat (fdz sb) \<in> zbits sb c)"

lemma unat_zblk: "unat (zblk zone k) = unat (zone ! k)"
  by (simp add: zblk_def unat_ucast16)

lemma zblk_reach: "unat (zblk zone k) < 2 ^ 18"
  using unat_lt [of "zone ! k"] by (simp add: unat_zblk)

lemma fdz_pos: "layout sb \<Longrightarrow> 2 \<le> unat (fdz sb)"
  by (simp add: layout_def)

lemma taken_nz: "layout sb \<Longrightarrow> taken sb c z \<Longrightarrow> z \<noteq> 0 \<and> unat (fdz sb) \<le> unat z"
  using fdz_pos [of sb] by (auto simp: taken_def)

lemma data_not_map: "layout sb \<Longrightarrow> unat (fdz sb) \<le> unat x \<Longrightarrow> \<not> in_zmap sb x"
  by (auto simp: in_map_def layout_def unat_zmap)

lemma zok_zone: "layout sb \<Longrightarrow> zok sb c zone n \<Longrightarrow> k < n \<Longrightarrow> zone ! k \<noteq> 0 \<and> unat (fdz sb) \<le> unat (zblk zone k) \<and> k < 7"
  using taken_nz [of sb c "zone ! k"] by (simp add: zok_def unat_zblk)

lemma zblk_inj: "zok sb c zone n \<Longrightarrow> i < n \<Longrightarrow> k < n \<Longrightarrow> zblk zone i = zblk zone k \<longleftrightarrow> i = k"
proof -
  assume z: "zok sb c zone n" and i: "i < n" "k < n"
  have "zblk zone i = zblk zone k \<longleftrightarrow> zone ! i = zone ! k" by (metis unat_zblk word_unat_eq_iff)
  also have "\<dots> \<longleftrightarrow> take n zone ! i = take n zone ! k" using i by simp
  also have "\<dots> \<longleftrightarrow> i = k" using z i by (intro nth_eq_iff_index_eq) (simp_all add: zok_def)
  finally show ?thesis .
qed

lemma zok_mem: "zok sb c zone n \<Longrightarrow> k < n \<Longrightarrow> zone ! k \<in> set (take n zone)"
  using nth_mem [of k "take n zone"] by (simp add: zok_def)

lemma zdata_chunks: "mok sb H c \<Longrightarrow> \<forall>xs\<in>set (map (\<lambda>k. blk sb c (zblk zone k)) [0..<n]). length xs = 1024"
  using mb.blk_len zblk_reach by auto

lemma length_zdata: "mok sb H c \<Longrightarrow> length (zdata sb c zone n) = 1024 * n"
  using length_concat_chunks [OF zdata_chunks] by (simp add: zdata_def)

lemma zdata_cong: "(\<And>k. k < n \<Longrightarrow> blk sb c' (zblk zone' k) = blk sb c (zblk zone k)) \<Longrightarrow> zdata sb c' zone' n = zdata sb c zone n"
  unfolding zdata_def by (intro arg_cong [where f = concat] map_cong) simp_all

text \<open>Finding a block that the file has, and one that it does not have.\<close>

lemma zget_hit:
  assumes "layout sb" "zok sb c zone n" "k < n"
  shows "minix_zget sb zone (of_nat k) c' = bind_result (sb_bread sb (zblk zone k) c') (\<lambda>(b, c1). Inr (Some b, c1))"
proof -
  have k: "k < 7" "zone ! k \<noteq> 0" using zok_zone [OF assms] by auto
  then have "unat (of_nat k :: u32) = k" by (intro unat_of_nat_small) simp
  then show ?thesis using k by (simp add: minix_zget_def zone_dib_def zblk_def)
qed

lemma zget_miss:
  assumes "zok sb c zone n" "n \<le> k" "k < 7"
  shows "minix_zget sb zone (of_nat k) c' = Inr (None, c')"
proof -
  have "unat (of_nat k :: u32) = k" using assms(3) by (intro unat_of_nat_small) simp
  then show ?thesis using assms by (simp add: minix_zget_def zone_dib_def zok_def)
qed

section \<open>Reading\<close>

declare mread_loop.simps [simp del] mwrite_loop.simps [simp del] zext_dir.simps [simp del]

lemma block_index: "(of_nat off :: u64) div of_nat BLKSZ = of_nat (off div 1024) \<and> unat ((of_nat off :: u64) mod of_nat BLKSZ) = off mod 1024" if "off < 2 ^ 32"
proof -
  have u: "unat (of_nat off :: u64) = off" using that by (intro unat_of_nat_small) simp
  have "unat ((of_nat off :: u64) div of_nat BLKSZ) = off div 1024" using u by (simp add: BLKSZ_def unat_div_distrib)
  moreover have "unat (of_nat (off div 1024) :: u64) = off div 1024"
    using that div_le_dividend [of off 1024] by (intro unat_of_nat_small) (simp add: less_le_trans)
  ultimately show ?thesis using u by (simp add: word_unat_eq_iff BLKSZ_def unat_mod_distrib)
qed

lemma ucast_of_nat_small:
  assumes "k < 2 ^ 32"
  shows "(ucast (of_nat k :: u64) :: u32) = of_nat k"
proof -
  have "unat (of_nat k :: u64) = k" "unat (of_nat k :: u32) = k" using assms by (auto intro!: unat_of_nat_small)
  then show ?thesis using assms by (simp add: word_unat_eq_iff unsigned_ucast_eq take_bit_nat_eq_self)
qed

lemma mread_ok:
  assumes l: "layout sb" and m: "mok sb H c" "few H" and z: "zok sb c (i_zone mi) n" "unat (i_size mi) \<le> 1024 * n" and o: "off \<le> unat (i_size mi)"
  shows "\<exists>c'. mread_loop sb mi rem (of_nat off) buf c = Inr (buf @ take rem (drop off (take (unat (i_size mi)) (zdata sb c (i_zone mi) n))), c') \<and>
    mok sb H c' \<and> blk sb c' = blk sb c"
  using m(1) z(1) o
proof (induction rem arbitrary: off buf c rule: less_induct)
  case (less rem)
  let ?sz = "unat (i_size mi)" and ?z = "i_zone mi"
  have n7: "n \<le> 7" using z(1) by (simp add: zok_def)
  have small: "off < 2 ^ 32" "?sz < 2 ^ 32" using less.prems(3) z(2) n7 by simp_all
  have u: "unat (of_nat off :: u64) = off" using small by (intro unat_of_nat_small) simp
  have us: "unat (ucast (i_size mi) :: u64) = ?sz" using small(2) by (simp add: unsigned_ucast_eq take_bit_nat_eq_self)
  have lt: "(of_nat off :: u64) < ucast (i_size mi) \<longleftrightarrow> off < ?sz" using u us by (simp add: word_less_nat_alt)
  show ?case
  proof (cases "0 < rem \<and> off < ?sz")
    case False
    then show ?thesis using less.prems lt by (auto simp: mread_loop.simps [of sb mi rem])
  next
    case True
    let ?k = "off div 1024" and ?b = "off mod 1024"
    have k: "?k < n" using True z(2) by (simp add: div_less_iff_less_mult mult.commute)
    have sub: "unat (ucast (i_size mi) - (of_nat off :: u64)) = ?sz - off" using u us True by (simp add: unat_sub_if_size)
    define q where "q = min (min (1024 - ?b) rem) (?sz - off)"
    have q: "0 < q" "q \<le> rem" "?b + q \<le> 1024" "off + q \<le> ?sz" using True mod_less_divisor [of 1024 off] by (auto simp: q_def min_def)
    obtain b c1 c2 where p: "sb_bread sb (zblk ?z ?k) c = Inr (b, c1)" "bget b c1 = Inr (blk sb c (zblk ?z ?k))" "brelse b c1 = Inr c2" "mok sb H c2" "blk sb c2 = blk sb c"
      using mb.peek [OF less.prems(1) m(2) zblk_reach] by blast
    have bi: "(ucast ((of_nat off :: u64) div of_nat BLKSZ) :: u32) = of_nat ?k" "unat ((of_nat off :: u64) mod of_nat BLKSZ) = ?b"
      using block_index [OF small(1)] ucast_of_nat_small [of ?k] small(1) div_le_dividend [of off 1024] by (auto simp: less_le_trans)
    have step: "mread_loop sb mi rem (of_nat off) buf c = mread_loop sb mi (rem - q) (of_nat (off + q)) (buf @ take q (drop ?b (blk sb c (zblk ?z ?k)))) c2"
      using True lt bi zget_hit [OF l less.prems(2) k] p(1-3) sub
      by (simp add: mread_loop.simps [of sb mi rem] q_def [symmetric] Let_def) (simp add: BLKSZ_def q_def [symmetric])
    have z2: "zok sb c2 ?z n" "zdata sb c2 ?z n = zdata sb c ?z n"
      using less.prems(2) p(5) by (simp_all add: zok_def taken_def zbits_def tbits_def mbits_def zdata_def)
    have sl: "take q (drop ?b (blk sb c (zblk ?z ?k))) = take q (drop off (zdata sb c ?z n))"
      using chunk_slice [OF zdata_chunks [OF less.prems(1), where zone = ?z and n = n], of ?k ?b q] k q(3) by (simp add: zdata_def)
    have "take rem (drop off (take ?sz (zdata sb c ?z n))) = take q (drop off (zdata sb c ?z n)) @ take (rem - q) (drop (off + q) (take ?sz (zdata sb c ?z n)))"
      using take_in_two [OF q(2), of off "take ?sz (zdata sb c ?z n)"] q(4) by (simp add: drop_take min_def)
    then show ?thesis
      using less.IH [of "rem - q" c2 "off + q" "buf @ take q (drop off (zdata sb c ?z n))"] q p(4,5) z2 less.prems(3) True unfolding step sl by auto
  qed
qed

section \<open>Growing\<close>

lemma zext_dir_walk:
  assumes "layout sb" "zok sb c zone n" "n < 7" "i \<le> n"
  shows "zext_dir sb i zone 1 c' = zext_dir sb n zone 1 c'"
  using assms(4)
proof (induction "n - i" arbitrary: i)
  case (Suc d)
  then have i: "i < n" by simp
  have "zext_dir sb i zone 1 c' = zext_dir sb (Suc i) zone 1 c'"
    using zok_zone [OF assms(1,2) i] by (subst zext_dir.simps) (simp add: zone_dib_def)
  then show ?case using Suc.hyps(1) [of "Suc i"] Suc.hyps(2) i by simp
qed simp

lemma zext_ok:
  assumes l: "layout sb" and m: "mok sb H c" "few H" and z: "zok sb c zone n" "n < 7"
  shows "\<exists>w c'. minix_zext sb zone 1 c = Inr (0, zone[n := w], c') \<and> mok sb H c' \<and> zok sb c' (zone[n := w]) (Suc n) \<and>
    zbits sb c \<subseteq> zbits sb c' \<and> unat (fdz sb) \<le> unat w \<and> unat w - unat (fdz sb) \<notin> zbits sb c \<and> (\<forall>x. \<not> in_zmap sb x \<longrightarrow> blk sb c' x = blk sb c x)"
proof -
  let ?F = "{..<zcap sb} - zbits sb c"
  have F: "7 - n \<le> card ?F" using z by (simp add: zok_def)
  then have "card ?F \<noteq> 0" using z(2) by linarith
  then have "?F \<noteq> {}" by (metis card.empty)
  then have "zbits sb c \<noteq> {..<zcap sb}" by auto
  then obtain w c' j where w: "minix_zalloc sb c = Inr (w, c')" "mok sb H c'" "\<forall>x. \<not> in_zmap sb x \<longrightarrow> blk sb c' x = blk sb c x"
    "j < zcap sb" "unat w = unat (fdz sb) + j" "j \<notin> zbits sb c" "zbits sb c' = insert j (zbits sb c)" using zalloc_ok [OF l m] by blast
  have zn: "zone ! n = 0" "length zone = 9" using z by (simp_all add: zok_def)
  have d0: "zext_dir sb n zone 1 c = zext_dir sb (Suc n) (zone[n := w]) 0 c'" using z(2) zn w(1) by (subst zext_dir.simps) (simp add: zone_dib_def)
  have d1: "zext_dir sb (Suc n) (zone[n := w]) 0 c' = Inr (Suc n, zone[n := w], 0, c')" by (subst zext_dir.simps) simp
  have e: "minix_zext sb zone 1 c = Inr (0, zone[n := w], c')"
    using zext_dir_walk [OF l z le0, of c] d0 d1 by (simp add: minix_zext_def)
  have t: "taken sb c' (zone ! k)" if "k < n" for k using z(1) that w(7) by (auto simp: zok_def taken_def)
  have tw: "taken sb c' w" using w(5,7) by (auto simp: taken_def)
  have "w \<notin> set (take n zone)"
  proof
    assume "w \<in> set (take n zone)"
    then obtain k where k: "k < n" "zone ! k = w" using zn(2) z(2) by (auto simp: in_set_conv_nth)
    then have "taken sb c w" using z(1) by (auto simp: zok_def)
    then show False using w(5,6) by (auto simp: taken_def)
  qed
  then have "distinct (take (Suc n) (zone[n := w]))" using z zn(2) by (simp add: take_Suc_conv_app_nth zok_def)
  moreover have "card ({..<zcap sb} - zbits sb c') = card ?F - 1"
  proof -
    have "{..<zcap sb} - zbits sb c' = ?F - {j}" using w(7) by auto
    then show ?thesis using w(4,6) by simp
  qed
  ultimately have "zok sb c' (zone[n := w]) (Suc n)"
    using z F t tw zn(2) by (auto simp: zok_def nth_list_update less_Suc_eq)
  then show ?thesis using e w by auto
qed

section \<open>Writing\<close>

lemma zok_blk: "zok sb c zone n \<Longrightarrow> zbits sb c' = zbits sb c \<Longrightarrow> zok sb c' zone n"
  by (simp add: zok_def taken_def)

text \<open>A store that stays behind the first data zone does not touch the zone map.\<close>

lemma zbits_data:
  assumes l: "layout sb" and b: "\<forall>x. in_zmap sb x \<longrightarrow> blk sb c' x = blk sb c x"
  shows "zbits sb c' = zbits sb c"
proof -
  have "j \<in> zbits sb c' \<longleftrightarrow> j \<in> zbits sb c" for j
  proof (cases "j < 8192 * nmap (unat (s_zones (sb_sbi sb)))")
    case True
    then have k: "j div 8192 < nmap (unat (s_zones (sb_sbi sb)))" by (simp add: div_less_iff_less_mult mult.commute)
    have "in_zmap sb (minix_zmap (sb_sbi sb) + of_nat (j div 8192))"
      using base_reach(1) [OF zmap_reach [OF l] k] k by (simp add: in_map_def)
    then show ?thesis using b by (simp add: zbits_def tbits_def mbits_def)
  qed (simp add: zbits_def tbits_def)
  then show ?thesis by blast
qed

lemma write_block:
  assumes l: "layout sb" and m: "mok sb H c" "few H" and z: "zok sb c zone n" "k < n" and y: "boff + length ys \<le> 1024"
  shows "\<exists>b c1 c2 c3. sb_bread sb (zblk zone k) c = Inr (b, c1) \<and> bget b c1 = Inr (blk sb c (zblk zone k)) \<and>
    bstore b (poke boff ys (blk sb c (zblk zone k))) c1 = Inr c2 \<and> brelse b c2 = Inr c3 \<and> mok sb H c3 \<and> zok sb c3 zone n \<and> zbits sb c3 = zbits sb c \<and>
    zdata sb c3 zone n = poke (1024 * k + boff) ys (zdata sb c zone n) \<and> (\<forall>x. x \<noteq> zblk zone k \<longrightarrow> blk sb c3 x = blk sb c x)"
proof -
  let ?x = "zblk zone k" and ?d = "poke boff ys (blk sb c (zblk zone k))"
  have len: "length (blk sb c ?x) = 1024" using mb.blk_len [OF m(1) zblk_reach] .
  then have "length ?d = 1024" using y by (simp add: length_poke)
  from mb.edit [OF m zblk_reach this] obtain b c1 c2 c3 where 1: "sb_bread sb ?x c = Inr (b, c1)" "bget b c1 = Inr (blk sb c ?x)" "bstore b ?d c1 = Inr c2" "brelse b c2 = Inr c3"
    "mok sb H c3" "blk sb c3 = (blk sb c)(?x := ?d)" by blast
  have nm: "\<not> in_zmap sb ?x" using data_not_map [OF l] zok_zone [OF l z] by blast
  then have zb: "zbits sb c3 = zbits sb c" using 1(6) by (intro zbits_data [OF l]) auto
  have "map (\<lambda>i. blk sb c3 (zblk zone i)) [0..<n] = (map (\<lambda>i. blk sb c (zblk zone i)) [0..<n])[k := ?d]"
    using 1(6) zblk_inj [OF z(1)] z(2) by (intro nth_equalityI) (auto simp: nth_list_update)
  then have "zdata sb c3 zone n = poke (1024 * k + boff) ys (zdata sb c zone n)"
    using chunk_update [OF zdata_chunks [OF m(1), where zone = zone and n = n], of k boff ys] z(2) y by (simp add: zdata_def poke_def)
  then show ?thesis using 1 zb zok_blk [OF z(1) zb] by (intro exI [of _ b] exI [of _ c1] exI [of _ c2] exI [of _ c3]) simp
qed

text \<open>The block that the next bytes go to: one of the file, or a new one behind its last.\<close>

lemma write_target:
  assumes l: "layout sb" and m: "mok sb H c" "few H" and z: "zok sb c zone n" and k: "k \<le> n" "k < 7"
  shows "\<exists>zone1 n1 c1 junk. (case minix_zget sb zone (of_nat k) c of Inr (None, c0) \<Rightarrow> c0 = c \<and> minix_zext sb zone 1 c = Inr (0, zone1, c1) | _ \<Rightarrow> zone1 = zone \<and> c1 = c) \<and>
    (minix_zget sb zone (of_nat k) c = Inr (None, c) \<longleftrightarrow> k = n) \<and>
    n1 = max n (Suc k) \<and> mok sb H c1 \<and> zok sb c1 zone1 n1 \<and> length junk = 1024 * (n1 - n) \<and> zdata sb c1 zone1 n1 = zdata sb c zone n @ junk \<and>
    zbits sb c \<subseteq> zbits sb c1 \<and> (\<forall>x. apart sb c zone n x \<longrightarrow> blk sb c1 x = blk sb c x \<and> apart sb c1 zone1 n1 x)"
proof (cases "k = n")
  case False
  then have kn: "k < n" using k(1) by simp
  obtain b c1 where b: "sb_bread sb (zblk zone k) c = Inr (b, c1)" using mb.get_ok [OF m zblk_reach] by blast
  have g: "minix_zget sb zone (of_nat k) c = Inr (Some b, c1)" using zget_hit [OF l z kn] b by simp
  have "max n (Suc k) = n" using kn by simp
  then show ?thesis using False g m(1) z by (intro exI [of _ zone] exI [of _ n] exI [of _ c] exI [of _ "[]"]) simp
next
  case True
  obtain w c1 where w: "minix_zext sb zone 1 c = Inr (0, zone[n := w], c1)" "mok sb H c1" "zok sb c1 (zone[n := w]) (Suc n)" "zbits sb c \<subseteq> zbits sb c1"
    "unat (fdz sb) \<le> unat w" "unat w - unat (fdz sb) \<notin> zbits sb c" "\<forall>x. \<not> in_zmap sb x \<longrightarrow> blk sb c1 x = blk sb c x"
    using zext_ok [OF l m z] k(2) True by blast
  let ?z1 = "zone[n := w]"
  have g: "minix_zget sb zone (of_nat k) c = Inr (None, c)" using zget_miss [OF z _ k(2)] True by simp
  have ln: "length zone = 9" "n < 7" using z k(2) True by (simp_all add: zok_def)
  have "zblk ?z1 i = zblk zone i" if "i < n" for i using that by (simp add: zblk_def)
  moreover have "blk sb c1 (zblk zone i) = blk sb c (zblk zone i)" if "i < n" for i
    using w(7) data_not_map [OF l] zok_zone [OF l z that] by blast
  ultimately have "zdata sb c1 ?z1 n = zdata sb c zone n" by (intro zdata_cong) simp
  then have d: "zdata sb c1 ?z1 (Suc n) = zdata sb c zone n @ blk sb c1 (zblk ?z1 n)" by (simp add: zdata_def)
  have zw: "zblk ?z1 n = ucast w" using ln by (simp add: zblk_def)
  have "apart sb c1 ?z1 (Suc n) x" if "apart sb c zone n x" for x
  proof -
    have "x \<noteq> ucast w" using that w(5,6) by (auto simp: apart_def unat_ucast16)
    then show ?thesis using that w(4) zw by (auto simp: apart_def less_Suc_eq zblk_def)
  qed
  moreover have "blk sb c1 x = blk sb c x" if "apart sb c zone n x" for x using that w(7) by (simp add: apart_def)
  ultimately show ?thesis
    using g w(1-4) d True mb.blk_len [OF w(2) zblk_reach]
    by (intro exI [of _ ?z1] exI [of _ "Suc n"] exI [of _ c1] exI [of _ "blk sb c1 (zblk ?z1 n)"]) simp
qed

lemma poke_append: "k + length x \<le> length d \<Longrightarrow> poke k x (d @ e) = poke k x d @ e"
  by (simp add: poke_def)

lemma poke_twice: "k + length x + length y \<le> length d \<Longrightarrow> poke (k + length x) y (poke k x d) = poke k (x @ y) d"
  by (simp add: poke_def ac_simps)

lemma ceil_step:
  fixes n k off e :: nat
  assumes "k = off div 1024" "off < e" "k \<le> n"
  shows "max (max n (Suc k)) ((e + 1023) div 1024) = max n ((e + 1023) div 1024)"
proof -
  have "Suc k * 1024 \<le> off + 1024" using assms(1) div_mult_mod_eq [of off 1024] by simp
  then have "Suc k * 1024 \<le> e + 1023" using assms(2) by linarith
  then have "Suc k \<le> (e + 1023) div 1024" by (metis div_le_mono nonzero_mult_div_cancel_right zero_neq_numeral)
  then show ?thesis by simp
qed

lemma mwrite_step:
  assumes l: "layout sb" and m: "mok sb H c" "few H" and z: "zok sb c zone n" and o: "off \<le> 1024 * n" "off < 7168" "src \<noteq> []"
  defines "k \<equiv> off div 1024" and "q \<equiv> min (1024 - off mod 1024) (length src)"
  shows "\<exists>zone1 n1 c4 junk. mwrite_loop sb zone src (of_nat off) c = mwrite_loop sb zone1 (drop q src) (of_nat (off + q)) c4 \<and> mok sb H c4 \<and> zok sb c4 zone1 n1 \<and>
    n1 = max n (Suc k) \<and> length junk = 1024 * (n1 - n) \<and> zdata sb c4 zone1 n1 = poke off (take q src) (zdata sb c zone n @ junk) \<and> zbits sb c \<subseteq> zbits sb c4 \<and>
    (\<forall>x. apart sb c zone n x \<longrightarrow> blk sb c4 x = blk sb c x \<and> apart sb c4 zone1 n1 x)"
proof -
  have k7: "k \<le> n" "k < 7" using o unfolding k_def by (simp_all add: div_less_iff_less_mult div_le_mono [of off "1024 * n" 1024, simplified])
  obtain zone1 n1 c1 junk where t: "case minix_zget sb zone (of_nat k) c of Inr (None, c0) \<Rightarrow> c0 = c \<and> minix_zext sb zone 1 c = Inr (0, zone1, c1) | _ \<Rightarrow> zone1 = zone \<and> c1 = c"
    "minix_zget sb zone (of_nat k) c = Inr (None, c) \<longleftrightarrow> k = n" "n1 = max n (Suc k)" "mok sb H c1" "zok sb c1 zone1 n1" "length junk = 1024 * (n1 - n)"
    "zdata sb c1 zone1 n1 = zdata sb c zone n @ junk" "zbits sb c \<subseteq> zbits sb c1" "\<forall>x. apart sb c zone n x \<longrightarrow> blk sb c1 x = blk sb c x \<and> apart sb c1 zone1 n1 x"
    using write_target [OF l m z k7] by blast
  have kn: "k < n1" using t(3) by simp
  have b: "off mod 1024 + length (take q src) \<le> 1024" using mod_less_divisor [of 1024 off] by (simp add: q_def)
  obtain i c2 c3 c4 where w: "sb_bread sb (zblk zone1 k) c1 = Inr (i, c2)" "bget i c2 = Inr (blk sb c1 (zblk zone1 k))"
    "bstore i (poke (off mod 1024) (take q src) (blk sb c1 (zblk zone1 k))) c2 = Inr c3" "brelse i c3 = Inr c4" "mok sb H c4" "zok sb c4 zone1 n1" "zbits sb c4 = zbits sb c1"
    "zdata sb c4 zone1 n1 = poke (1024 * k + off mod 1024) (take q src) (zdata sb c1 zone1 n1)" "\<forall>x. x \<noteq> zblk zone1 k \<longrightarrow> blk sb c4 x = blk sb c1 x"
    using write_block [OF l t(4) m(2) t(5) kn b] by blast
  have off: "1024 * k + off mod 1024 = off" by (simp add: k_def)
  have "off < 2 ^ 32" "k < 2 ^ 32" "k < 262663" using o(2) k7(2) by simp_all
  then have bi: "(ucast ((of_nat off :: u64) div of_nat BLKSZ) :: u32) = of_nat k" "unat ((of_nat off :: u64) mod of_nat BLKSZ) = off mod 1024" "unat (of_nat k :: u32) < zone_ib2"
    using block_index [of off] ucast_of_nat_small [of k] by (simp_all add: k_def [symmetric] minix_consts unat_of_nat_small)
  have step: "mwrite_loop sb zone src (of_nat off) c = mwrite_loop sb zone1 (drop q src) (of_nat (off + q)) c4"
  proof (cases "k = n")
    case False
    then have z1: "zone1 = zone" "c1 = c" and h: "minix_zget sb zone (of_nat k) c = Inr (Some i, c2)"
      using t(1) zget_hit [OF l z, of k] k7(1) w(1) mb.get_ok [OF m zblk_reach, of zone k] by (auto split: sum.splits prod.splits option.splits)
    show ?thesis
      using o(3) bi h w(1-4) unfolding z1 by (simp add: mwrite_loop.simps [of sb zone src] Let_def) (simp add: BLKSZ_def q_def)
  next
    case True
    then have g: "minix_zget sb zone (of_nat k) c = Inr (None, c)" "minix_zext sb zone 1 c = Inr (0, zone1, c1)" using t(1,2) by auto
    moreover have "minix_zget sb zone1 (of_nat k) c1 = Inr (Some i, c2)" using zget_hit [OF l t(5) kn] w(1) by simp
    ultimately show ?thesis
      using o(3) bi w(2-4) by (simp add: mwrite_loop.simps [of sb zone src] Let_def) (simp add: BLKSZ_def q_def)
  qed
  have "blk sb c4 x = blk sb c x \<and> apart sb c4 zone1 n1 x" if a: "apart sb c zone n x" for x
  proof -
    have a1: "apart sb c1 zone1 n1 x" "blk sb c1 x = blk sb c x" using t(9) a by auto
    then have "x \<noteq> zblk zone1 k" using kn by (auto simp: apart_def)
    then show ?thesis using a1 w(7,9) by (simp add: apart_def)
  qed
  then show ?thesis using step w(5-8) t(3,6-8) off by (intro exI [of _ zone1] exI [of _ n1] exI [of _ c4] exI [of _ junk]) simp
qed

lemma mwrite_ok:
  assumes l: "layout sb" and m: "mok sb H c" "few H" and z: "zok sb c zone n" and o: "off \<le> 1024 * n" "off + length src \<le> 7168"
  shows "\<exists>zone' n' c' junk. mwrite_loop sb zone src (of_nat off) c = Inr (zone', of_nat (off + length src), [], c') \<and> mok sb H c' \<and> zok sb c' zone' n' \<and>
    n' = max n ((off + length src + 1023) div 1024) \<and> length junk = 1024 * (n' - n) \<and> zdata sb c' zone' n' = poke off src (zdata sb c zone n @ junk) \<and>
    zbits sb c \<subseteq> zbits sb c' \<and> (\<forall>x. apart sb c zone n x \<longrightarrow> blk sb c' x = blk sb c x \<and> apart sb c' zone' n' x)"
  using m(1) z o
proof (induction "length src" arbitrary: src off zone n c rule: less_induct)
  case less
  show ?case
  proof (cases "src = []")
    case True
    have "(off + 1023) div 1024 \<le> (1024 * n + 1023) div 1024" using less.prems(3) by (intro div_le_mono) simp
    then have "max n ((off + 1023) div 1024) = n" by simp
    then show ?thesis using True less.prems length_zdata [OF less.prems(1)]
      by (intro exI [of _ zone] exI [of _ n] exI [of _ c] exI [of _ "[]"]) (simp add: mwrite_loop.simps poke_def)
  next
    case False
    define q where "q = min (1024 - off mod 1024) (length src)"
    have q: "0 < q" "q \<le> length src" using False mod_less_divisor [of 1024 off] by (auto simp: q_def)
    have o7: "off < 7168" using less.prems(4) False by (cases src) simp_all
    obtain zone1 n1 c4 junk where s: "mwrite_loop sb zone src (of_nat off) c = mwrite_loop sb zone1 (drop q src) (of_nat (off + q)) c4" "mok sb H c4" "zok sb c4 zone1 n1"
      "n1 = max n (Suc (off div 1024))" "length junk = 1024 * (n1 - n)" "zdata sb c4 zone1 n1 = poke off (take q src) (zdata sb c zone n @ junk)" "zbits sb c \<subseteq> zbits sb c4"
      "\<forall>x. apart sb c zone n x \<longrightarrow> blk sb c4 x = blk sb c x \<and> apart sb c4 zone1 n1 x"
      using mwrite_step [OF l less.prems(1) m(2) less.prems(2,3) o7 False] unfolding q_def by blast
    have o1: "off + q \<le> 1024 * n1"
    proof -
      have "off + q \<le> 1024 * Suc (off div 1024)" using q(2) by (simp add: q_def) (use div_mult_mod_eq [of off 1024] in linarith)
      then show ?thesis unfolding s(4) by (rule order.trans) (simp only: mult_le_mono2 max.cobounded2)
    qed
    have e: "off + q + length (drop q src) = off + length src" using q(2) by simp
    have sh: "length (drop q src) < length src" and le: "off + q + length (drop q src) \<le> 7168" using q less.prems(4) e by simp_all
    have k: "off div 1024 \<le> n" using less.prems(3) div_le_mono [of off "1024 * n" 1024] by simp
    obtain zone' n' c' junk' where r: "mwrite_loop sb zone1 (drop q src) (of_nat (off + q)) c4 = Inr (zone', of_nat (off + length src), [], c')" "mok sb H c'" "zok sb c' zone' n'"
      "n' = max n1 ((off + length src + 1023) div 1024)" "length junk' = 1024 * (n' - n1)" "zdata sb c' zone' n' = poke (off + q) (drop q src) (zdata sb c4 zone1 n1 @ junk')"
      "zbits sb c4 \<subseteq> zbits sb c'" "\<forall>x. apart sb c4 zone1 n1 x \<longrightarrow> blk sb c' x = blk sb c4 x \<and> apart sb c' zone' n' x"
      using less.hyps [OF sh s(2,3) o1 le] unfolding e by blast
    have n: "n' = max n ((off + length src + 1023) div 1024)"
      using r(4) ceil_step [of "off div 1024" off "off + length src" n] k False unfolding s(4) by simp
    have nn: "n \<le> n1" "n1 \<le> n'" using s(4) r(4) by simp_all
    let ?D = "zdata sb c zone n @ junk @ junk'"
    have len: "length ?D = 1024 * n'" "length (zdata sb c zone n @ junk) = 1024 * n1"
      using length_zdata [OF less.prems(1), of zone n] s(5) r(5) nn by (simp_all add: algebra_simps flip: distrib_left)
    have "off + length src \<le> 1024 * ((off + length src + 1023) div 1024)" using div_mult_mod_eq [of "off + length src + 1023" 1024] mod_less_divisor [of 1024 "off + length src + 1023"] by linarith
    then have fit: "off + length src \<le> length ?D" unfolding len(1) n by (rule order.trans) (simp only: mult_le_mono2 max.cobounded2)
    have tq: "length (take q src) = q" using q(2) by simp
    have "zdata sb c4 zone1 n1 @ junk' = poke off (take q src) ?D" unfolding s(6) using o1 len(2) tq by (subst poke_append [symmetric]) simp_all
    then have "zdata sb c' zone' n' = poke (off + length (take q src)) (drop q src) (poke off (take q src) ?D)" using r(6) tq by simp
    also have "\<dots> = poke off src ?D" using poke_twice [of off "take q src" "drop q src" ?D] fit tq q(2) by simp
    finally have "zdata sb c' zone' n' = poke off src ?D" .
    moreover have "length (junk @ junk') = 1024 * (n' - n)" using s(5) r(5) nn by (simp add: algebra_simps flip: distrib_left)
    ultimately show ?thesis using s(1,7,8) r(1-3,7,8) n
      by (intro exI [of _ zone'] exI [of _ n'] exI [of _ c'] exI [of _ "junk @ junk'"]) auto
  qed
qed

section \<open>Files as sequences of bytes\<close>

definition zcount :: "minix_inode \<Rightarrow> nat" where
  "zcount mi = (unat (i_size mi) + 1023) div 1024"

definition mgood :: "nid \<Rightarrow> minix \<Rightarrow> bool" where
  "mgood this s \<longleftrightarrow> (\<exists>n mi. nodes s this = Some n \<and> m_ino s (n_pdata n) = Some mi \<and> n_siz n = ucast (i_size mi) \<and> ino_ok (m_sb s) (ucast (n_ino n)) \<and> \<not> S_ISDIR (n_mode n) \<and>
     layout (m_sb s) \<and> mok (m_sb s) (\<lambda>_. 0) (m_cache s) \<and> zok (m_sb s) (m_cache s) (i_zone mi) (zcount mi))"

definition mcontent :: "nid \<Rightarrow> minix \<Rightarrow> bytes" where
  "mcontent this s = (let mi = the (m_ino s (n_pdata (the (nodes s this)))) in take (unat (i_size mi)) (zdata (m_sb s) (m_cache s) (i_zone mi) (zcount mi)))"

lemma zcount_fits: "unat (i_size mi) \<le> 1024 * zcount mi"
  using div_mult_mod_eq [of "unat (i_size mi) + 1023" 1024] mod_less_divisor [of 1024 "unat (i_size mi) + 1023"] unfolding zcount_def by linarith

lemma mgood_size:
  assumes "mgood this s" "nodes s this = Some n" "m_ino s (n_pdata n) = Some mi"
  shows "length (mcontent this s) = unat (i_size mi)" "unat (i_size mi) \<le> 7168"
proof -
  have m: "mok (m_sb s) (\<lambda>_. 0) (m_cache s)" "zcount mi \<le> 7" using assms by (auto simp: mgood_def zok_def)
  show "length (mcontent this s) = unat (i_size mi)"
    using assms(2,3) length_zdata [OF m(1), of "i_zone mi" "zcount mi"] zcount_fits [of mi] by (simp add: mcontent_def)
  show "unat (i_size mi) \<le> 7168" using zcount_fits [of mi] m(2) by linarith
qed

lemma sint_small: "k \<le> 7168 \<Longrightarrow> sint (of_nat k :: u32) = int k"
  by (simp add: signed_of_nat signed_take_bit_int_eq_self)

lemma minix_read_ok:
  assumes g: "mgood this s" and o: "unat off + unat cnt \<le> 7168"
  shows "\<exists>s'. minix_read this cnt off s = Inr (int (length (take (unat cnt) (drop (unat off) (mcontent this s)))), take (unat cnt) (drop (unat off) (mcontent this s)), s') \<and>
    mgood this s' \<and> mcontent this s' = mcontent this s"
proof -
  obtain n mi where n: "nodes s this = Some n" "m_ino s (n_pdata n) = Some mi" "n_siz n = ucast (i_size mi)" "layout (m_sb s)" "mok (m_sb s) (\<lambda>_. 0) (m_cache s)"
    "zok (m_sb s) (m_cache s) (i_zone mi) (zcount mi)" using g by (auto simp: mgood_def)
  note sz = mgood_size [OF g n(1,2)]
  have us: "unat (ucast (i_size mi) :: u64) = unat (i_size mi)" using sz(2) by (simp add: unsigned_ucast_eq take_bit_nat_eq_self)
  show ?thesis
  proof (cases "unat (i_size mi) \<le> unat off")
    case True
    then have "off \<ge> n_siz n" using n(3) us by (simp add: word_le_nat_alt)
    then show ?thesis using True n(1) g sz(1) by (simp add: minix_read_def deref_def)
  next
    case False
    then have lt: "\<not> off \<ge> n_siz n" using n(3) us by (simp add: word_le_nat_alt)
    let ?bs = "take (unat cnt) (drop (unat off) (mcontent this s))"
    have f0: "few (\<lambda>_. 0)" by (simp add: few_def)
    obtain c' where c: "mread_loop (m_sb s) mi (unat cnt) off [] (m_cache s) = Inr (?bs, c')" "mok (m_sb s) (\<lambda>_. 0) c'" "blk (m_sb s) c' = blk (m_sb s) (m_cache s)"
      using mread_ok [OF n(4,5) f0 n(6) zcount_fits, of "unat off" "unat cnt" "[]"] False n(1,2) by (auto simp: mcontent_def)
    let ?s = "set_node this (n\<lparr>n_atime := now s\<rparr>) (s\<lparr>m_cache := c'\<rparr>)"
    have zb: "zok (m_sb s) c' (i_zone mi) (zcount mi)" "zdata (m_sb s) c' = zdata (m_sb s) (m_cache s)"
      using n(6) c(3) by (simp_all add: zok_def taken_def zbits_def tbits_def mbits_def zdata_def fun_eq_iff)
    have "length ?bs \<le> unat cnt" by simp
    then have "length ?bs \<le> 7168" using o by linarith
    then have "sint (of_nat (length ?bs) :: u32) = int (length ?bs)" by (rule sint_small)
    then have "minix_read this cnt off s = Inr (int (length ?bs), ?bs, ?s)" using lt n(1,2) c(1) by (simp add: minix_read_def deref_def ino_at_def)
    moreover have "mgood this ?s" using g n(1,2) c(2) zb(1) by (auto simp: mgood_def set_node_def)
    moreover have "mcontent this ?s = mcontent this s" using n(1) zb(2) by (simp add: mcontent_def set_node_def)
    ultimately show ?thesis by blast
  qed
qed

text \<open>Storing the inode leaves the zones, their map and the data as they are.\<close>

lemma isync_data:
  assumes l: "layout sb" and m: "mok sb H c" "few H" and i: "ino_ok sb ino" "length (i_zone mi) = 9" and z: "zok sb c zone n"
  shows "\<exists>c'. minix_isync sb mi ino c = Inr c' \<and> mok sb H c' \<and> zok sb c' zone n \<and> zbits sb c' = zbits sb c \<and> zdata sb c' zone n = zdata sb c zone n \<and>
    (\<forall>x. \<not> in_itab sb x \<longrightarrow> blk sb c' x = blk sb c x)"
proof -
  obtain c' where c: "minix_isync sb mi ino c = Inr c'" "mok sb H c'" "blk sb c' = (blk sb c)(iblk sb ino := poke (32 * ((unat ino - 1) mod 32)) (inode_bytes mi) (blk sb c (iblk sb ino)))"
    using isync_ok [OF l m i] by blast
  have o: "\<forall>x. \<not> in_itab sb x \<longrightarrow> blk sb c' x = blk sb c x" using c(3) iblk_place(2) [OF l i(1)] by auto
  have "\<not> in_itab sb x" if "in_zmap sb x" for x using that l by (auto simp: in_itab_def in_map_def layout_def unat_zmap unat_inode_blk)
  then have zb: "zbits sb c' = zbits sb c" using o by (intro zbits_data [OF l]) blast
  have "\<not> in_itab sb (zblk zone k)" if "k < n" for k using zok_zone [OF l z that] by (simp add: in_itab_def)
  then have "zdata sb c' zone n = zdata sb c zone n" using o by (intro zdata_cong) blast
  then show ?thesis using c(1,2) o zb zok_blk [OF z zb] by blast
qed

text \<open>What a write does to the file and to the blocks of others.\<close>

lemma minix_write_ok:
  assumes g: "mgood this s" and b: "bs \<noteq> []" and o: "unat off \<le> length (mcontent this s)" "unat off + length bs \<le> 7168"
  shows "\<exists>s'. minix_write this bs off s = Inr (int (length bs), s') \<and> mgood this s' \<and>
    mcontent this s' = take (unat off) (mcontent this s) @ bs @ drop (unat off + length bs) (mcontent this s) \<and> m_sb s' = m_sb s \<and>
    (\<forall>x. apart (m_sb s) (m_cache s) (i_zone (the (m_ino s (n_pdata (the (nodes s this)))))) (zcount (the (m_ino s (n_pdata (the (nodes s this)))))) x \<and> \<not> in_itab (m_sb s) x \<longrightarrow>
      blk (m_sb s) (m_cache s') x = blk (m_sb s) (m_cache s) x)"
proof -
  obtain n mi where n: "nodes s this = Some n" "m_ino s (n_pdata n) = Some mi" "n_siz n = ucast (i_size mi)" "ino_ok (m_sb s) (ucast (n_ino n))" "\<not> S_ISDIR (n_mode n)" "layout (m_sb s)"
    "mok (m_sb s) (\<lambda>_. 0) (m_cache s)" "zok (m_sb s) (m_cache s) (i_zone mi) (zcount mi)" using g by (auto simp: mgood_def)
  let ?sb = "m_sb s" and ?z = "zcount mi" and ?D = "zdata (m_sb s) (m_cache s) (i_zone mi) (zcount mi)" and ?sz = "unat (i_size mi)"
  note sz = mgood_size [OF g n(1,2)]
  have f0: "few (\<lambda>_. 0)" by (simp add: few_def)
  define e where "e = unat off + length bs"
  have ou: "(of_nat (unat off) :: u64) = off" by simp
  have os: "unat off \<le> ?sz" "unat off \<le> 1024 * ?z" using o(1) sz(1) zcount_fits [of mi] by simp_all
  obtain zone' n' c' junk where w: "mwrite_loop ?sb (i_zone mi) bs off (m_cache s) = Inr (zone', of_nat e, [], c')" "mok ?sb (\<lambda>_. 0) c'" "zok ?sb c' zone' n'"
    "n' = max ?z ((e + 1023) div 1024)" "length junk = 1024 * (n' - ?z)" "zdata ?sb c' zone' n' = poke (unat off) bs (?D @ junk)"
    "\<forall>x. apart ?sb (m_cache s) (i_zone mi) ?z x \<longrightarrow> blk ?sb c' x = blk ?sb (m_cache s) x"
    using mwrite_ok [OF n(6,7) f0 n(8) os(2) o(2)] unfolding ou e_def [symmetric] by blast
  have e7: "e \<le> 7168" using o(2) by (simp add: e_def)
  then have e: "unat (of_nat e :: u64) = e" "unat (ucast (of_nat e :: u64) :: u32) = e"
    using ucast_of_nat_small [of e] by (simp_all add: unat_of_nat_small)
  have us: "unat (ucast (i_size mi) :: u64) = ?sz" using sz(2) by (simp add: unsigned_ucast_eq take_bit_nat_eq_self)
  have gt: "(of_nat e :: u64) > ucast (i_size mi) \<longleftrightarrow> ?sz < e" using e(1) us by (simp add: word_less_nat_alt)
  have lz: "length zone' = 9" using w(3) by (simp add: zok_def)
  have "sint (of_nat (length bs) :: u32) = int (length bs)" using o(2) by (intro sint_small) linarith
  then have ret: "(if length bs - length ([] :: bytes) > 0 then sint (of_nat (length bs - length ([] :: bytes)) :: u32) else - ENOSPC) = int (length bs)" using b by simp
  have lD: "length ?D = 1024 * ?z" by (rule length_zdata [OF n(7)])
  have cont: "mcontent this s = take ?sz ?D" using n(1,2) by (simp add: mcontent_def)
  have new: "take (max ?sz e) (poke (unat off) bs (?D @ junk)) = take (unat off) (take ?sz ?D) @ bs @ drop e (take ?sz ?D)"
    using os lD zcount_fits [of mi] by (auto simp: poke_def drop_take max_def min_def e_def)
  show ?thesis
  proof (cases "?sz < e")
    case True
    let ?mi = "mi\<lparr>i_zone := zone', i_size := ucast (of_nat e :: u64), i_mtime := ucast (now s)\<rparr>"
    obtain c1 where i: "minix_isync ?sb ?mi (ucast (n_ino n)) c' = Inr c1" "mok ?sb (\<lambda>_. 0) c1" "zok ?sb c1 zone' n'" "zdata ?sb c1 zone' n' = zdata ?sb c' zone' n'"
      "\<forall>x. \<not> in_itab ?sb x \<longrightarrow> blk ?sb c1 x = blk ?sb c' x" using isync_data [OF n(6) w(2) f0 n(4) _ w(3), of ?mi] lz by auto
    let ?s = "set_node this (n\<lparr>n_siz := ucast (i_size ?mi)\<rparr>) (set_ino (n_pdata n) ?mi ((set_ino (n_pdata n) (mi\<lparr>i_zone := zone'\<rparr>) (s\<lparr>m_cache := c'\<rparr>))\<lparr>m_cache := c1\<rparr>))"
    have "minix_write this bs off s = Inr (int (length bs), ?s)"
      using n(1,2) w(1) i(1) True gt ret by (simp add: minix_write_def deref_def ino_at_def Let_def)
    moreover have zc: "zcount ?mi = n'"
    proof -
      have "?z \<le> (e + 1023) div 1024" unfolding zcount_def using True by (intro div_le_mono) simp
      then show ?thesis using w(4) e(2) by (simp add: zcount_def)
    qed
    moreover have "mgood this ?s" using n i(2,3) zc by (simp add: mgood_def set_node_def set_ino_def)
    moreover have "max ?sz e = e" using True by simp
    then have "mcontent this ?s = take (unat off) (mcontent this s) @ bs @ drop e (mcontent this s)"
      using new i(4) w(6) zc e(2) unfolding cont by (simp add: mcontent_def set_node_def set_ino_def)
    ultimately show ?thesis using i(5) w(7) n(1,2) by (intro exI [of _ ?s]) (simp add: set_node_def set_ino_def e_def)
  next
    case False
    let ?mi = "mi\<lparr>i_zone := zone'\<rparr>"
    let ?s = "set_ino (n_pdata n) ?mi (s\<lparr>m_cache := c'\<rparr>)"
    have "minix_write this bs off s = Inr (int (length bs), ?s)"
      using n(1,2) w(1) False gt ret by (simp add: minix_write_def deref_def ino_at_def Let_def)
    moreover have zc: "n' = ?z"
    proof -
      have "(e + 1023) div 1024 \<le> ?z" unfolding zcount_def using False by (intro div_le_mono) simp
      then show ?thesis using w(4) by simp
    qed
    moreover have "zcount ?mi = ?z" by (simp add: zcount_def)
    moreover have "mgood this ?s" using n w(2,3) zc by (simp add: mgood_def set_ino_def zcount_def)
    moreover have "max ?sz e = ?sz" using False by simp
    then have "mcontent this ?s = take (unat off) (mcontent this s) @ bs @ drop e (mcontent this s)"
      using new w(6) zc n(1) unfolding cont by (simp add: mcontent_def set_ino_def zcount_def)
    ultimately show ?thesis using w(7) n(1,2) by (intro exI [of _ ?s]) (simp add: set_ino_def e_def)
  qed
qed

text \<open>A write leaves the other nodes and the in-memory inodes of other files alone.\<close>

lemma minix_write_frame:
  assumes "minix_write this bs off s = Inr (r, s')"
  shows "(i \<noteq> this \<longrightarrow> nodes s' i = nodes s i) \<and> (p \<noteq> n_pdata (the (nodes s this)) \<longrightarrow> m_ino s' p = m_ino s p)"
  using assms
  by (auto simp: minix_write_def bind_result_eq_Inr deref_def ino_at_def set_node_def set_ino_def Let_def split: option.splits if_splits)

interpretation mnx: byte_file "minix_read this" "minix_write this" "mcontent this" "mgood this" 7168 for this
proof unfold_locales
  fix s and off cnt :: u64 assume "mgood this s" "unat off + unat cnt \<le> 7168"
  then show "\<exists>s'. minix_read this cnt off s = Inr (int (length (take (unat cnt) (drop (unat off) (mcontent this s)))), take (unat cnt) (drop (unat off) (mcontent this s)), s') \<and>
      mgood this s' \<and> mcontent this s' = mcontent this s" by (rule minix_read_ok)
next
  fix s and bs :: bytes and off :: u64 assume a: "mgood this s" "bs \<noteq> []" "unat off \<le> length (mcontent this s)" "unat off + length bs \<le> 7168"
  show "\<exists>s'. minix_write this bs off s = Inr (int (length bs), s') \<and> mgood this s' \<and>
      mcontent this s' = take (unat off) (mcontent this s) @ bs @ drop (unat off + length bs) (mcontent this s)" using minix_write_ok [OF a] by blast
qed simp

definition minix_ops :: "nid option \<Rightarrow> minix fsops" where
  "minix_ops pwd = \<lparr>vo_open = vfs_open minix_open pwd, vo_read = minix_read, vo_write = minix_write,
     vo_truncate = (\<lambda>n len s. bind_result (minix_truncate n len s) (\<lambda>(_, s1). Inr s1)), vo_close = minix_close,
     vo_siz = (\<lambda>n s. bind_result (deref (Some n) s) (\<lambda>x. Inr (n_siz x))),
     vo_mode = (\<lambda>n s. bind_result (deref (Some n) s) (\<lambda>x. Inr (n_mode x)))\<rparr>"

interpretation mnxd: open_file "minix_read this" "minix_write this" "mcontent this" "mgood this" 7168 "minix_ops pwd" this for this pwd
  by unfold_locales (auto simp: minix_ops_def mgood_def deref_def)

text \<open>
  C12. The system calls, the file system and the buffer cache together: a task that writes through a descriptor to a file
  on a minix disk, seeks back to where it started and reads as many bytes gets what it wrote. The write starts inside the
  file or at its end and ends within the 7168 bytes of the seven direct zones; beyond them the indirect block of the code is broken.
\<close>

theorem write_seek_read_minix:
  assumes "slot fd f = Inr (Some i)" "f_heap f i = Some x" "fl_flgs x AND 3 = 2" "fl_flgs x AND O_APPEND = 0" "fl_flgs x AND O_DIR = 0"
    "mgood (fl_node x) (fs_st f)" "bs \<noteq> []" "unat (fl_offset x) \<le> length (mcontent (fl_node x) (fs_st f))" "unat (fl_offset x) + length bs \<le> 7168"
  shows "\<exists>f1 f2 f3. sys_write (minix_ops pwd) fd bs f = Inr (int (length bs), f1) \<and>
    sys_lseek (minix_ops pwd) fd (fl_offset x) 0 f1 = Inr (sint (fl_offset x), f2) \<and>
    sys_read (minix_ops pwd) fd (of_nat (length bs)) f2 = Inr (int (length bs), bs, f3)"
proof -
  have "mnxd.leads (fl_node x) fd i x f" using assms(1-5) by (simp add: mnxd.leads_def)
  then show ?thesis using mnxd.write_seek_read assms(6-9) by blast
qed

text \<open>
  C13. Writing to a file of a minix disk, from inside it or its end and up to the 7168 bytes of the direct zones, does not change any other file that lies
  in direct zones of its own: every byte that the other file had is still there, whether the write stayed within the file or made it grow.
\<close>

theorem minix_write_others:
  assumes g: "mgood this s" "mgood other s" and b: "bs \<noteq> []" "unat off \<le> length (mcontent this s)" "unat off + length bs \<le> 7168"
    and n: "nodes s this = Some nt" "nodes s other = Some no" "other \<noteq> this" "n_pdata no \<noteq> n_pdata nt" "m_ino s (n_pdata nt) = Some mt" "m_ino s (n_pdata no) = Some mo"
    and d: "set (take (zcount mt) (i_zone mt)) \<inter> set (take (zcount mo) (i_zone mo)) = {}"
  shows "\<exists>s'. minix_write this bs off s = Inr (int (length bs), s') \<and> mcontent other s' = mcontent other s"
proof -
  let ?sb = "m_sb s"
  obtain s' where w: "minix_write this bs off s = Inr (int (length bs), s')" "m_sb s' = m_sb s"
    "\<forall>x. apart ?sb (m_cache s) (i_zone mt) (zcount mt) x \<and> \<not> in_itab ?sb x \<longrightarrow> blk ?sb (m_cache s') x = blk ?sb (m_cache s) x"
    using minix_write_ok [OF g(1) b] n(1,5) by auto
  have l: "layout ?sb" and zo: "zok ?sb (m_cache s) (i_zone mo) (zcount mo)" and zt: "zok ?sb (m_cache s) (i_zone mt) (zcount mt)"
    using g n by (auto simp: mgood_def)
  have k: "nodes s' other = nodes s other \<and> m_ino s' (n_pdata no) = m_ino s (n_pdata no)"
    using minix_write_frame [OF w(1), of other "n_pdata no"] n by simp
  have "blk ?sb (m_cache s') (zblk (i_zone mo) j) = blk ?sb (m_cache s) (zblk (i_zone mo) j)" if j: "j < zcount mo" for j
  proof -
    note zj = zok_zone [OF l zo j]
    obtain q where q: "q \<in> zbits ?sb (m_cache s)" "unat (i_zone mo ! j) = unat (fdz ?sb) + q" using zo j by (auto simp: zok_def taken_def)
    have "zblk (i_zone mo) j \<noteq> zblk (i_zone mt) i" if i: "i < zcount mt" for i
    proof
      assume "zblk (i_zone mo) j = zblk (i_zone mt) i"
      then have "i_zone mo ! j = i_zone mt ! i" by (metis unat_zblk word_unat_eq_iff)
      moreover have "i_zone mt ! i \<in> set (take (zcount mt) (i_zone mt))" "i_zone mo ! j \<in> set (take (zcount mo) (i_zone mo))"
        using zok_mem [OF zt i] zok_mem [OF zo j] by simp_all
      ultimately show False using d by auto
    qed
    then have "apart ?sb (m_cache s) (i_zone mt) (zcount mt) (zblk (i_zone mo) j)" using q data_not_map [OF l] zj by (auto simp: apart_def unat_zblk)
    moreover have "\<not> in_itab ?sb (zblk (i_zone mo) j)" using zj by (simp add: in_itab_def)
    ultimately show ?thesis using w(3) by blast
  qed
  then have "zdata ?sb (m_cache s') (i_zone mo) (zcount mo) = zdata ?sb (m_cache s) (i_zone mo) (zcount mo)" by (intro zdata_cong) simp
  then have "mcontent other s' = mcontent other s" using k n w(2) by (simp add: mcontent_def)
  then show ?thesis using w(1) by blast
qed

section \<open>Examples\<close>

text \<open>Two files on the small disk: node 1 with an empty one, node 2 with one of 700 bytes in the zone that is taken.\<close>

definition mfile_node :: "nat \<Rightarrow> u64 \<Rightarrow> u64 \<Rightarrow> node" where
  "mfile_node p z ino = (plain_node ''a'' 0x81A4 0 0 [])\<lparr>n_siz := z, n_pdata := p, n_ino := ino\<rparr>"

definition mfile_ino :: "u32 \<Rightarrow> u16 list \<Rightarrow> minix_inode" where
  "mfile_ino z zone = \<lparr>i_mode = 0x81A4, i_uid = 0, i_size = z, i_mtime = 0, i_gid = 0, i_nlinks = 1, i_zone = zone\<rparr>"

definition minix_demo :: minix where
  "minix_demo = vfs.extend (vfs_demo\<lparr>nodes := [1 \<mapsto> mfile_node 0 0 3, 2 \<mapsto> mfile_node 1 700 4]\<rparr>)
     \<lparr>m_sb = sb0, m_cache = mc0, m_ino = [0 \<mapsto> mfile_ino 0 (replicate 9 0), 1 \<mapsto> mfile_ino 700 (5 # replicate 8 0)], m_nino = 2, m_nnode = 3\<rparr>"

lemma zbits_mc0_iff: "k < 8192 \<Longrightarrow> k \<in> zbits sb0 mc0 \<longleftrightarrow> bit (mblock 3 ! (k div 8)) (k mod 8)"
  by (simp add: zbits_def tbits_def mbits_def blk_mc0 sb0_maps bset_def bits_def bit_at_def)

lemma mc0_room: "7 \<le> card ({..<zcap sb0} - zbits sb0 mc0)"
proof -
  have "k \<in> {..<zcap sb0} - zbits sb0 mc0" if k: "k \<in> {1..<8}" for k
  proof -
    have "k < 8192" "k div 8 = 0" "k mod 8 = k" "k \<noteq> 0" using k by auto
    moreover have "mblock 3 ! 0 = 1" by (simp add: mblock_def)
    ultimately show ?thesis using zbits_mc0_iff [of k] by (simp add: zcap_def sb0_maps bit_1_iff)
  qed
  then have "card {1..<8::nat} \<le> card ({..<zcap sb0} - zbits sb0 mc0)" by (intro card_mono) auto
  then show ?thesis by simp
qed

lemma zok_mc0: "zok sb0 mc0 (replicate 9 0) 0" "zok sb0 mc0 (5 # replicate 8 0) 1"
proof -
  show "zok sb0 mc0 (replicate 9 0) 0" using mc0_room by (simp add: zok_def)
  have "0 \<in> zbits sb0 mc0" using zbits_mc0_iff [of 0] by (simp add: mblock_def)
  moreover have "unat (fdz sb0) = 5" by (simp add: sb0_def)
  ultimately have "taken sb0 mc0 5" by (simp add: taken_def)
  then show "zok sb0 mc0 (5 # replicate 8 0) 1" using mc0_room by (auto simp: zok_def nth_Cons')
qed

lemma minix_demo_good: "mgood 1 minix_demo" "mgood 2 minix_demo"
proof -
  have i: "ino_ok sb0 3" "ino_ok sb0 4" "\<not> S_ISDIR 0x81A4" by (simp_all add: ino_ok_def sb0_def S_ISDIR_def S_IFMT_def)
  then show "mgood 1 minix_demo" "mgood 2 minix_demo"
    using layout_sb0 mc0_ok zok_mc0
    by (simp_all add: mgood_def minix_demo_def vfs.defs vfs_demo_def mfile_node_def mfile_ino_def plain_node_def zcount_def)
qed

lemma minix_write_others_witness: "\<exists>s'. minix_write 1 [1, 2, 3] 0 minix_demo = Inr (3, s') \<and> mcontent 2 s' = mcontent 2 minix_demo"
proof -
  have n: "nodes minix_demo 1 = Some (mfile_node 0 0 3)" "nodes minix_demo 2 = Some (mfile_node 1 700 4)" "m_ino minix_demo 0 = Some (mfile_ino 0 (replicate 9 0))"
    "m_ino minix_demo 1 = Some (mfile_ino 700 (5 # replicate 8 0))" "n_pdata (mfile_node 0 0 3) = 0" "n_pdata (mfile_node 1 700 4) = 1"
    by (simp_all add: minix_demo_def vfs.defs vfs_demo_def mfile_node_def plain_node_def)
  then show ?thesis
    using minix_write_others [OF minix_demo_good, of "[1, 2, 3]" 0 "mfile_node 0 0 3" "mfile_node 1 700 4"] by (simp add: zcount_def mfile_ino_def)
qed

definition minix_fds :: "minix fdesc" where
  "minix_fds = \<lparr>fs_st = minix_demo, f_heap = [0 \<mapsto> \<lparr>fl_offset = 0, fl_node = 1, fl_flgs = 2, fl_fdfl = 0, fl_refer = 1\<rparr>], f_next = 1,
     f_tab = Some 0 # replicate 15 None, f_junk = \<lparr>fl_offset = 0, fl_node = 0, fl_flgs = 0, fl_fdfl = 0, fl_refer = 0\<rparr>, f_nomem = False, f_junkfd = 0\<rparr>"

lemma minix_fds_facts: "slot 0 minix_fds = Inr (Some 0)"
  "f_heap minix_fds 0 = Some \<lparr>fl_offset = 0, fl_node = 1, fl_flgs = 2, fl_fdfl = 0, fl_refer = 1\<rparr>" "mgood 1 (fs_st minix_fds)"
  using minix_demo_good by (simp_all add: slot_def minix_fds_def)

lemma write_seek_read_minix_witness:
  "\<exists>f1 f2 f3. sys_write (minix_ops None) 0 [1, 2, 3] minix_fds = Inr (3, f1) \<and> sys_lseek (minix_ops None) 0 0 0 f1 = Inr (0, f2) \<and>
    sys_read (minix_ops None) 0 3 f2 = Inr (3, [1, 2, 3], f3)"
  using write_seek_read_minix [OF minix_fds_facts(1,2), of "[1, 2, 3]" None] minix_fds_facts(3) by (simp add: O_APPEND_def O_DIR_def)

end
