(* ===== verification/Minix_Dir.thy ===== *)
theory Minix_Dir
  imports Dirent Minix_File
begin

unbundle bit_operations_syntax

text \<open>
  Listing a directory on a minix disk: the operations of kernel/fs/phy/minix.c and that a directory of one block, without gaps and
  with names of less than fourteen characters, is listed.
\<close>

section \<open>Operations\<close>

text \<open>The name is what follows in the block; \<open>dir_emit\<close> copies it up to the next zero.\<close>

definition minix_dir_emit :: "dirctx \<Rightarrow> bytes \<Rightarrow> u16 \<Rightarrow> minix_inode option \<Rightarrow> (bool \<times> dirctx) result" where
  "minix_dir_emit ctx name ino mi =
     bind_result (strnlen (Some name) 14) (\<lambda>len. case mi of
       None \<Rightarrow> Inl BadAccess
     | Some m \<Rightarrow> dir_emit name len (ucast ino) (dir_get_type (ucast (i_mode m))) ctx)"

primrec rd_ents :: "superblk \<Rightarrow> nat \<Rightarrow> nat \<Rightarrow> nat \<Rightarrow> dirctx \<Rightarrow> bcache \<Rightarrow> (bool \<times> dirctx \<times> bcache) result" where
  "rd_ents sb b 0 eidx ctx c = Inr (False, ctx, c)"
| "rd_ents sb b (Suc k) eidx ctx c =
     bind_result (bget b c) (\<lambda>d. let ino = rd16 d (16 * eidx) in
     bind_result (minix_iget sb ino c) (\<lambda>(iptr, c1).
       if ino = 0 then rd_ents sb b k (Suc eidx) ctx c1
       else bind_result (minix_dir_emit ctx (drop (16 * eidx + 2) d) ino iptr) (\<lambda>(ok, ctx1).
            if \<not> ok then bind_result (brelse b c1) (\<lambda>c2. Inr (True, ctx1\<lparr>cx_stat := ctx_end\<rparr>, c2))
            else rd_ents sb b k (Suc eidx) (ctx1\<lparr>cx_pos := cx_pos ctx1 + 1\<rparr>) c1)))"

function rd_blocks :: "superblk \<Rightarrow> u16 list \<Rightarrow> nat \<Rightarrow> nat \<Rightarrow> nat \<Rightarrow> dirctx \<Rightarrow> bcache \<Rightarrow> (dirctx \<times> bcache) result" where
  "rd_blocks sb zone zmax zidx eidx ctx c =
     (if zidx \<le> zmax
      then bind_result (minix_zget sb zone (of_nat zidx) c) (\<lambda>(r, c1). case r of
             None \<Rightarrow> Inl BadAccess
           | Some b \<Rightarrow> bind_result (rd_ents sb b (direnr_perblk - eidx) eidx ctx c1) (\<lambda>(stop, ctx1, c2).
               if stop then Inr (ctx1, c2)
               else bind_result (brelse b c2) (\<lambda>c3. rd_blocks sb zone zmax (Suc zidx) 0 ctx1 c3)))
      else Inr (ctx, c))"
  by pat_completeness auto
termination
  by (relation "measure (\<lambda>(sb, zone, zmax, zidx, eidx, ctx, c). Suc zmax - zidx)") auto

declare rd_blocks.simps [simp del]

definition minix_readdir :: "nid \<Rightarrow> dirctx \<Rightarrow> minix \<Rightarrow> (int \<times> dirctx \<times> minix) result" where
  "minix_readdir dir ctx s =
     (let ctx0 = (if cx_stat ctx = ctx_inv then init_ctx dir ctx else ctx)
      in if cx_stat ctx0 = ctx_end then Inr (EOF, ctx0, s)
         else bind_result (deref (Some dir) s) (\<lambda>n. let s1 = set_node dir (n\<lparr>n_atime := now s\<rparr>) s in
              bind_result (ino_at (n_pdata n) s1) (\<lambda>mdir.
              let zmax = unat (i_size mdir div of_nat BLKSZ);
                  zidx = unat (ucast (cx_pos ctx0 div of_nat direnr_perblk) :: u32); eidx = unat (ucast (cx_pos ctx0 mod of_nat direnr_perblk) :: u32)
              in bind_result (rd_blocks (m_sb s1) (i_zone mdir) zmax zidx eidx ctx0 (m_cache s1)) (\<lambda>(ctx1, c). Inr (0, ctx1, s1\<lparr>m_cache := c\<rparr>)))))"

definition minix_seekdir :: "nid \<Rightarrow> dirctx \<Rightarrow> u64 \<Rightarrow> minix \<Rightarrow> (int \<times> dirctx) result" where
  "minix_seekdir dir ctx pos s =
     (let ctx0 = (if cx_stat ctx = ctx_inv then init_ctx dir ctx else ctx)
      in bind_result (deref (Some dir) s) (\<lambda>n. bind_result (ino_at (n_pdata n) s) (\<lambda>mdir.
         let entmax = i_size mdir div 16 :: u32
         in if pos < ucast entmax then Inr (0, ctx0\<lparr>cx_pos := pos\<rparr>) else Inr (EOF, ctx0\<lparr>cx_pos := ucast (entmax - 1)\<rparr>))))"

section \<open>A directory of one block\<close>

definition de_ino :: "bytes \<Rightarrow> nat \<Rightarrow> u16" where
  "de_ino d e = rd16 d (16 * e)"

definition de_name :: "bytes \<Rightarrow> nat \<Rightarrow> bytes" where
  "de_name d e = cstr (drop (16 * e + 2) d)"

definition ino_read :: "superblk \<Rightarrow> (u32 \<Rightarrow> bytes) \<Rightarrow> u16 \<Rightarrow> minix_inode" where
  "ino_read sb B ino = inode_of (take 32 (drop (32 * ((unat ino - 1) mod 32)) (B (iblk sb ino))))"

definition de_dent :: "superblk \<Rightarrow> (u32 \<Rightarrow> bytes) \<Rightarrow> bytes \<Rightarrow> nat \<Rightarrow> dent" where
  "de_dent sb B d e = (de_name d e, ucast (de_ino d e), dir_get_type (ucast (i_mode (ino_read sb B (de_ino d e)))))"

definition de_ok :: "superblk \<Rightarrow> bytes \<Rightarrow> nat \<Rightarrow> bool" where
  "de_ok sb d e \<longleftrightarrow> ino_ok sb (de_ino d e) \<and> 0 \<in> set (take 14 (drop (16 * e + 2) d))"

lemma cstr_take: "0 \<in> set (take n p) \<Longrightarrow> ended p \<and> length (cstr p) < n"
proof (induction p arbitrary: n)
  case (Cons a p)
  then show ?case by (cases n) auto
qed simp

lemma strnlen_in: "0 \<in> set (take n p) \<Longrightarrow> strnlen_loop p n i = Inr (i + of_nat (length (cstr p)))"
proof (induction p arbitrary: n i)
  case (Cons a p)
  then show ?case by (cases n) (auto simp: add.assoc)
qed simp

lemma de_name_ok:
  assumes "de_ok sb d e"
  shows "name_ok (de_name d e)" "strnlen (Some (drop (16 * e + 2) d)) 14 = Inr (of_nat (length (de_name d e)))" "\<exists>r. drop (16 * e + 2) d = de_name d e @ 0 # r"
proof -
  have p: "ended (drop (16 * e + 2) d)" "length (de_name d e) < 14" using cstr_take assms by (auto simp: de_ok_def de_name_def)
  show "name_ok (de_name d e)" using p(2) cstr_nz by (simp add: name_ok_def de_name_def)
  show "\<exists>r. drop (16 * e + 2) d = de_name d e @ 0 # r" using p(1) ended_split unfolding de_name_def by blast
  show "strnlen (Some (drop (16 * e + 2) d)) 14 = Inr (of_nat (length (de_name d e)))"
    using strnlen_in [of 14 "drop (16 * e + 2) d" 0] assms by (simp add: strnlen_def de_name_def de_ok_def)
qed

text \<open>What stays the same while the entries are read: the block is held, and no block changes.\<close>

definition holding :: "superblk \<Rightarrow> (nat \<Rightarrow> nat) \<Rightarrow> nat \<Rightarrow> u32 \<Rightarrow> (u32 \<Rightarrow> bytes) \<Rightarrow> bcache \<Rightarrow> bool" where
  "holding sb K b x B c \<longleftrightarrow> mok sb K c \<and> bc_hnd (sb_dev sb) b x c \<and> blk sb c = B"

lemma iget_held:
  assumes "layout sb" "few K" "holding sb K b x B c" "ino_ok sb ino"
  shows "\<exists>c'. minix_iget sb ino c = Inr (Some (ino_read sb B ino), c') \<and> holding sb K b x B c'"
proof -
  have h: "mok sb K c" "bc_hnd (sb_dev sb) b x c" "blk sb c = B" using assms(3) by (simp_all add: holding_def)
  from mbh.peek_held [OF h(1) assms(2) iblk_place(3) [OF assms(1,4)] h(2)]
  obtain i c1 c2 where 1: "sb_bread sb (iblk sb ino) c = Inr (i, c1)" "bget i c1 = Inr (blk sb c (iblk sb ino))" "brelse i c1 = Inr c2" "mok sb K c2"
    "blk sb c2 = blk sb c" "bc_hnd (sb_dev sb) b x c2" by blast
  then show ?thesis using ino_minus_1 [OF assms(4)] ino_range [OF assms(4)] h(3)
    by (simp add: minix_iget_def nodenr_perblk_def iblk_def Let_def ino_read_def holding_def)
qed

lemma rd_ents_used:
  assumes l: "layout sb" "few K" and h: "holding sb K b x B c" and f: "filled m M bs ctx" and o: "\<forall>e'\<in>{e..<e + j}. de_ok sb (B x) e'"
    and r: "length bs + length (listing (cx_pos ctx) (map (de_dent sb B (B x)) [e..<e + j])) \<le> M"
  shows "\<exists>ctx' c'. rd_ents sb b (j + k) e ctx c = rd_ents sb b k (e + j) ctx' c' \<and> holding sb K b x B c' \<and>
    filled m M (bs @ listing (cx_pos ctx) (map (de_dent sb B (B x)) [e..<e + j])) ctx' \<and> cx_pos ctx' = cx_pos ctx + of_nat j \<and> cx_stat ctx' = cx_stat ctx"
  using h f o r
proof (induction j arbitrary: e bs ctx c)
  case 0
  then show ?case by (intro exI [of _ ctx] exI [of _ c]) simp
next
  case (Suc j)
  let ?d = "B x" let ?es = "map (de_dent sb B ?d)"
  have o: "de_ok sb ?d e" using Suc.prems(3) by simp
  have i: "ino_ok sb (de_ino ?d e)" using o by (simp add: de_ok_def)
  have up: "[e..<e + Suc j] = e # [Suc e..<Suc e + j]" using upt_conv_Cons [of e "e + Suc j"] by simp
  note len = Suc.prems(4) [unfolded up]
  have g: "bget b c = Inr ?d" using mb.look_ok Suc.prems(1) by (auto simp: holding_def)
  obtain c1 where c1: "minix_iget sb (de_ino ?d e) c = Inr (Some (ino_read sb B (de_ino ?d e)), c1)" "holding sb K b x B c1"
    using iget_held [OF l Suc.prems(1) i] by blast
  obtain r where nm: "drop (16 * e + 2) ?d = de_name ?d e @ 0 # r" using de_name_ok(3) [OF o] by blast
  have n: "name_ok (de_name ?d e)" "strnlen (Some (drop (16 * e + 2) ?d)) 14 = Inr (of_nat (length (de_name ?d e)))" using de_name_ok(1,2) [OF o] by simp_all
  have dd: "de_dent sb B ?d e = (de_name ?d e, ucast (de_ino ?d e), dir_get_type (ucast (i_mode (ino_read sb B (de_ino ?d e)))))" by (simp add: de_dent_def)
  have "length bs + 33 + length (de_name ?d e) \<le> M" using len by (simp add: dd del: upt_Suc)
  from emit_fits [OF Suc.prems(2) n(1) nm this] obtain ctx1 where e1: "dir_emit (drop (16 * e + 2) ?d) (of_nat (length (de_name ?d e))) (ucast (de_ino ?d e))
      (dir_get_type (ucast (i_mode (ino_read sb B (de_ino ?d e))))) ctx = Inr (True, ctx1)"
    "filled m M (bs @ drec (cx_pos ctx) (de_dent sb B ?d e)) ctx1" "cx_pos ctx1 = cx_pos ctx" "cx_stat ctx1 = cx_stat ctx" unfolding dd by blast
  have "filled m M (bs @ drec (cx_pos ctx) (de_dent sb B ?d e)) (ctx1\<lparr>cx_pos := cx_pos ctx + 1\<rparr>)" using e1(2) by (simp add: filled_def)
  from Suc.IH [OF c1(2) this, of "Suc e"] obtain ctx' c' where "rd_ents sb b (j + k) (Suc e) (ctx1\<lparr>cx_pos := cx_pos ctx + 1\<rparr>) c1 = rd_ents sb b k (Suc e + j) ctx' c'"
    "holding sb K b x B c'" "filled m M ((bs @ drec (cx_pos ctx) (de_dent sb B ?d e)) @ listing (cx_pos ctx + 1) (?es [Suc e..<Suc e + j])) ctx'"
    "cx_pos ctx' = cx_pos ctx + 1 + of_nat j" "cx_stat ctx' = cx_stat ctx" using Suc.prems(3) len e1(4) by (auto simp: add.assoc simp del: upt_Suc)
  moreover have "de_ino ?d e \<noteq> 0" using i ino_range by blast
  ultimately show ?case unfolding up using g c1(1) e1(1,3) n(2)
    by (intro exI [of _ ctx'] exI [of _ c']) (simp add: minix_dir_emit_def de_ino_def [symmetric] Let_def add.assoc del: upt_Suc)
qed

lemma rd_ents_empty:
  assumes "holding sb K b x B c" "\<forall>e'\<in>{e..<e + k}. de_ino (B x) e' = 0"
  shows "rd_ents sb b k e ctx c = Inr (False, ctx, c)"
  using assms(2)
proof (induction k arbitrary: e)
  case (Suc k)
  have "bget b c = Inr (B x)" using mb.look_ok assms(1) by (auto simp: holding_def)
  then show ?case using Suc.IH [of "Suc e"] Suc.prems by (simp add: de_ino_def [symmetric] minix_iget_def Let_def)
qed simp

lemma few_one: "few ((\<lambda>_. 0)(b := Suc 0))"
  by (simp add: few_def)

text \<open>The loop over the blocks of a directory that has only one.\<close>

lemma rd_blocks_one:
  assumes l: "layout sb" "mok sb (\<lambda>_. 0) c" "zok sb c zone n" "0 < n"
    and e: "\<And>b c1. holding sb ((\<lambda>_. 0)(b := Suc 0)) b (zblk zone 0) (blk sb c) c1 \<Longrightarrow>
      \<exists>ctx' c2. rd_ents sb b (64 - e0) e0 ctx c1 = Inr (False, ctx', c2) \<and> holding sb ((\<lambda>_. 0)(b := Suc 0)) b (zblk zone 0) (blk sb c) c2 \<and> P ctx'"
  shows "\<exists>ctx' c'. rd_blocks sb zone 0 0 e0 ctx c = Inr (ctx', c') \<and> mok sb (\<lambda>_. 0) c' \<and> blk sb c' = blk sb c \<and> P ctx'"
proof -
  let ?x = "zblk zone 0" and ?K = "\<lambda>b. (\<lambda>_. 0)(b := Suc 0) :: nat \<Rightarrow> nat"
  have f0: "few (\<lambda>_. 0)" by (simp add: few_def)
  obtain b c1 where b: "sb_bread sb ?x c = Inr (b, c1)" "holding sb (?K b) b ?x (blk sb c) c1"
    using mb.get_ok [OF l(2) f0 zblk_reach, of zone 0] by (auto simp: holding_def)
  obtain ctx' c2 where r: "rd_ents sb b (64 - e0) e0 ctx c1 = Inr (False, ctx', c2)" "holding sb (?K b) b ?x (blk sb c) c2" "P ctx'" using e [OF b(2)] by blast
  have "mok sb (?K b) c2" "bc_hnd (sb_dev sb) b ?x c2" using r(2) by (simp_all add: holding_def)
  from mb.rel_ok [OF this] obtain c3 where c3: "brelse b c2 = Inr c3" "mok sb ((?K b)(b := 0)) c3" "blk sb c3 = blk sb c" using r(2) by (auto simp: holding_def)
  have "minix_zget sb zone 0 c = Inr (Some b, c1)" using zget_hit [OF l(1,3,4), of c] b(1) by simp
  moreover have "rd_blocks sb zone 0 (Suc 0) 0 ctx' c3 = Inr (ctx', c3)" by (subst rd_blocks.simps) simp
  ultimately have "rd_blocks sb zone 0 0 e0 ctx c = Inr (ctx', c3)"
    using r(1) c3(1) by (subst rd_blocks.simps) (simp add: direnr_perblk_def)
  then show ?thesis using c3(2,3) r(3) by (auto simp: fun_upd_idem)
qed

definition used :: "bytes \<Rightarrow> nat" where
  "used d = length (takeWhile (\<lambda>e. de_ino d e \<noteq> 0) [0..<64])"

definition md_block :: "nid \<Rightarrow> minix \<Rightarrow> bytes" where
  "md_block n s = blk (m_sb s) (m_cache s) (zblk (i_zone (the (m_ino s (n_pdata (the (nodes s n)))))) 0)"

definition m_ents :: "nid \<Rightarrow> minix \<Rightarrow> dent list" where
  "m_ents n s = map (de_dent (m_sb s) (blk (m_sb s) (m_cache s)) (md_block n s)) [0..<used (md_block n s)]"

definition md_good :: "nid \<Rightarrow> minix \<Rightarrow> bool" where
  "md_good n s \<longleftrightarrow> (\<exists>nn mi k. nodes s n = Some nn \<and> m_ino s (n_pdata nn) = Some mi \<and> layout (m_sb s) \<and> mok (m_sb s) (\<lambda>_. 0) (m_cache s) \<and>
     zok (m_sb s) (m_cache s) (i_zone mi) k \<and> 0 < k \<and> i_size mi < 1024) \<and>
     (\<forall>e<64. if e < used (md_block n s) then de_ok (m_sb s) (md_block n s) e else de_ino (md_block n s) e = 0)"

lemma used_le: "used d \<le> 64"
  using length_takeWhile_le [of "\<lambda>e. de_ino d e \<noteq> 0" "[0..<64]"] by (simp add: used_def)

text \<open>Reading the entries from number \<open>e0\<close> on.\<close>

lemma readdir_from:
  assumes g: "md_good n s" and c: "cx_stat ctx = ctx_pre" "cx_pos ctx = of_nat e0" "e0 \<le> used (md_block n s)" "e0 < 64"
    and e: "\<And>b K c1. few K \<Longrightarrow> holding (m_sb s) K b (zblk (i_zone (the (m_ino s (n_pdata (the (nodes s n)))))) 0) (blk (m_sb s) (m_cache s)) c1 \<Longrightarrow>
      \<exists>ctx' c2. rd_ents (m_sb s) b (64 - e0) e0 ctx c1 = Inr (False, ctx', c2) \<and>
        holding (m_sb s) K b (zblk (i_zone (the (m_ino s (n_pdata (the (nodes s n)))))) 0) (blk (m_sb s) (m_cache s)) c2 \<and> P ctx'"
  shows "\<exists>ctx' s'. minix_readdir n ctx s = Inr (0, ctx', s') \<and> P ctx' \<and> md_good n s' \<and> m_ents n s' = m_ents n s \<and> md_block n s' = md_block n s"
proof -
  obtain nn mi k where n: "nodes s n = Some nn" "m_ino s (n_pdata nn) = Some mi" "layout (m_sb s)" "mok (m_sb s) (\<lambda>_. 0) (m_cache s)"
    "zok (m_sb s) (m_cache s) (i_zone mi) k" "0 < k" "i_size mi < 1024" using g by (auto simp: md_good_def)
  obtain ctx' c' where r: "rd_blocks (m_sb s) (i_zone mi) 0 0 e0 ctx (m_cache s) = Inr (ctx', c')" "mok (m_sb s) (\<lambda>_. 0) c'" "blk (m_sb s) c' = blk (m_sb s) (m_cache s)" "P ctx'"
    using rd_blocks_one [OF n(3-6), of e0 ctx P] e [OF few_one] n(1,2) by auto
  define s' where "s' = (set_node n (nn\<lparr>n_atime := now s\<rparr>) s)\<lparr>m_cache := c'\<rparr>"
  have f: "nodes s' n = Some (nn\<lparr>n_atime := now s\<rparr>)" "m_ino s' = m_ino s" "m_sb s' = m_sb s" "m_cache s' = c'" by (simp_all add: s'_def set_node_def)
  have z: "i_size mi div 1024 = 0" using n(7) by (rule div_word_less)
  have "cx_pos ctx < 64" using c(2,4) by (simp add: word_less_nat_alt unat_of_nat)
  then have p: "ucast (cx_pos ctx div 64) = (0 :: u32)" "unat (ucast (cx_pos ctx mod 64) :: u32) = e0"
    using c(2,4) by (simp_all add: div_word_less mod_word_less unat_of_nat unsigned_ucast_eq take_bit_eq_mod)
  have rd: "minix_readdir n ctx s = Inr (0, ctx', s')"
    using c(1) n(1,2) r(1) z p by (simp add: minix_readdir_def deref_def ino_at_def set_node_def s'_def minix_consts Let_def)
  have b: "md_block n s' = md_block n s" using f n(1,2) r(3) by (simp add: md_block_def)
  have "zok (m_sb s) c' (i_zone mi) k" using n(5) r(3) by (simp add: zok_def taken_def zbits_def tbits_def mbits_def)
  then have "md_good n s'" using g f n r(2) unfolding md_good_def b by auto
  moreover have "m_ents n s' = m_ents n s" using b f(3,4) r(3) by (simp add: m_ents_def)
  ultimately show ?thesis using rd r(4) b by blast
qed

text \<open>The first call lists the directory and the second one finds nothing behind the last entry.\<close>

lemma minix_readdir_lists:
  assumes g: "md_good n s" and c: "cx_stat ctx = ctx_inv" "filled b M [] ctx" and l: "length (listing 0 (m_ents n s)) \<le> M"
  shows "\<exists>r ctx' s'. minix_readdir n ctx s = Inr (r, ctx', s') \<and> 0 \<le> r \<and> filled b M (listing 0 (m_ents n s)) ctx' \<and>
    (cx_stat ctx' = ctx_pre \<and> cx_pos ctx' = of_nat (used (md_block n s')) \<and> md_good n s')"
proof -
  let ?c0 = "init_ctx n ctx" let ?sb = "m_sb s" and ?B = "blk (m_sb s) (m_cache s)" and ?d = "md_block n s"
  let ?x = "zblk (i_zone (the (m_ino s (n_pdata (the (nodes s n)))))) 0"
  have i: "cx_stat ?c0 = ctx_pre" "cx_pos ?c0 = of_nat 0" "filled b M [] ?c0" using c(2) by (simp_all add: init_ctx_def filled_def)
  have d: "?B ?x = ?d" by (simp add: md_block_def)
  have o: "\<forall>e<64. if e < used ?d then de_ok ?sb ?d e else de_ino ?d e = 0" and ly: "layout ?sb" using g by (auto simp: md_good_def)
  have "\<exists>ctx' c2. rd_ents ?sb bb (64 - 0) 0 ?c0 c1 = Inr (False, ctx', c2) \<and> holding ?sb K bb ?x ?B c2 \<and>
      (filled b M (listing 0 (m_ents n s)) ctx' \<and> cx_stat ctx' = ctx_pre \<and> cx_pos ctx' = of_nat (used ?d))"
    if K: "few K" and h: "holding ?sb K bb ?x ?B c1" for bb K c1
  proof -
    have "\<forall>e'\<in>{0..<0 + used ?d}. de_ok ?sb (?B ?x) e'" using o used_le [of ?d] unfolding d by auto
    moreover have "length [] + length (listing (cx_pos ?c0) (map (de_dent ?sb ?B (?B ?x)) [0..<0 + used ?d])) \<le> M" using l i(2) unfolding d by (simp add: m_ents_def)
    ultimately obtain ctx' c' where r: "rd_ents ?sb bb (used ?d + (64 - used ?d)) 0 ?c0 c1 = rd_ents ?sb bb (64 - used ?d) (0 + used ?d) ctx' c'" "holding ?sb K bb ?x ?B c'"
      "filled b M (listing 0 (m_ents n s)) ctx'" "cx_pos ctx' = of_nat (used ?d)" "cx_stat ctx' = ctx_pre"
      using rd_ents_used [OF ly K h i(3), of 0 "used ?d" "64 - used ?d"] i(1,2) unfolding d by (auto simp: m_ents_def)
    have "\<forall>e'\<in>{used ?d..<used ?d + (64 - used ?d)}. de_ino (?B ?x) e' = 0" using o used_le [of ?d] unfolding d by auto
    then have "rd_ents ?sb bb (64 - used ?d) (used ?d) ctx' c' = Inr (False, ctx', c')" using rd_ents_empty [OF r(2)] by blast
    then show ?thesis using r used_le [of ?d] by simp
  qed
  from readdir_from [OF g i(1,2) _ _ this] obtain ctx' s' where "minix_readdir n ?c0 s = Inr (0, ctx', s')" "filled b M (listing 0 (m_ents n s)) ctx'"
    "cx_stat ctx' = ctx_pre" "cx_pos ctx' = of_nat (used ?d)" "md_good n s'" "md_block n s' = ?d" by auto
  moreover have "minix_readdir n ctx s = minix_readdir n ?c0 s" using c(1) by (simp add: minix_readdir_def init_ctx_def)
  ultimately show ?thesis by auto
qed

lemma minix_readdir_ends:
  assumes g: "md_good n s" and c: "cx_stat ctx = ctx_pre" "cx_pos ctx = of_nat (used (md_block n s))" "cx_bufused ctx = 0"
  shows "\<exists>r ctx' s'. minix_readdir n ctx s = Inr (r, ctx', s') \<and> cx_bufused ctx' = 0"
proof (cases "used (md_block n s) = 64")
  case True
  obtain nn mi where n: "nodes s n = Some nn" "m_ino s (n_pdata nn) = Some mi" "i_size mi < 1024" using g by (auto simp: md_good_def)
  have "rd_blocks (m_sb s) (i_zone mi) 0 (Suc 0) 0 ctx (m_cache s) = Inr (ctx, m_cache s)" by (subst rd_blocks.simps) simp
  moreover have "i_size mi div 1024 = 0" using n(3) by (rule div_word_less)
  ultimately show ?thesis using c n(1,2) True by (simp add: minix_readdir_def deref_def ino_at_def set_node_def minix_consts Let_def)
next
  case False
  then have u: "used (md_block n s) < 64" using used_le [of "md_block n s"] by simp
  have o: "\<forall>e'\<in>{used (md_block n s)..<used (md_block n s) + (64 - used (md_block n s))}. de_ino (md_block n s) e' = 0" using g by (auto simp: md_good_def)
  have "\<exists>ctx' c2. rd_ents (m_sb s) b (64 - used (md_block n s)) (used (md_block n s)) ctx c1 = Inr (False, ctx', c2) \<and>
      holding (m_sb s) K b (zblk (i_zone (the (m_ino s (n_pdata (the (nodes s n)))))) 0) (blk (m_sb s) (m_cache s)) c2 \<and> cx_bufused ctx' = 0"
    if "holding (m_sb s) K b (zblk (i_zone (the (m_ino s (n_pdata (the (nodes s n)))))) 0) (blk (m_sb s) (m_cache s)) c1" for b K c1
    using rd_ents_empty [OF that, of "used (md_block n s)" "64 - used (md_block n s)" ctx] o that c(3) unfolding md_block_def by auto
  from readdir_from [OF g c(1,2) order.refl u this] show ?thesis by blast
qed

interpretation mnd: dir_lister minix_readdir m_ents md_good "\<lambda>n ctx s. cx_stat ctx = ctx_pre \<and> cx_pos ctx = of_nat (used (md_block n s)) \<and> md_good n s"
proof
  fix n s assume "md_good n s"
  then have "de_ok (m_sb s) (md_block n s) e" if "e < used (md_block n s)" for e
    using that used_le [of "md_block n s"] unfolding md_good_def by (meson order.strict_trans2)
  then show "\<forall>(nm, _)\<in>set (m_ents n s). name_ok nm" using de_name_ok(1) [of "m_sb s"] by (auto simp: m_ents_def de_dent_def)
next
  fix n s ctx b M assume "md_good n s" "cx_stat ctx = ctx_inv" "filled b M [] ctx" "length (listing 0 (m_ents n s)) \<le> M"
  then show "\<exists>r ctx' s'. minix_readdir n ctx s = Inr (r, ctx', s') \<and> 0 \<le> r \<and> filled b M (listing 0 (m_ents n s)) ctx' \<and>
    (cx_stat ctx' = ctx_pre \<and> cx_pos ctx' = of_nat (used (md_block n s')) \<and> md_good n s')" by (rule minix_readdir_lists)
next
  fix n s b mx and ctx :: dirctx assume "cx_stat ctx = ctx_pre \<and> cx_pos ctx = of_nat (used (md_block n s)) \<and> md_good n s"
  then show "\<exists>r ctx' s'. minix_readdir n (ctx\<lparr>cx_mem := b, cx_off := 0, cx_bufmx := mx, cx_bufused := 0\<rparr>) s = Inr (r, ctx', s') \<and> (r < 0 \<or> cx_bufused ctx' = 0)"
    using minix_readdir_ends [of n s "ctx\<lparr>cx_mem := b, cx_off := 0, cx_bufmx := mx, cx_bufused := 0\<rparr>"] by auto
qed

text \<open>
  C14. From the blocks of a disk to the lines that ls prints: for a minix directory of less than 1024 bytes whose entries
  have no gap between them, whose names are shorter than fourteen characters and whose records fit into the buffer of 4096 bytes, ls ends and has printed the names in its block that do
  not begin with a dot, in their order.
\<close>

theorem ls_lists_minix:
  assumes "slot fd f = Inr (Some i)" "f_heap f i = Some x" "fl_flgs x AND 3 \<noteq> 1" "D i = Some ctx" "cx_stat ctx = ctx_inv" "length b = 4096"
    "md_good (fl_node x) (fs_st f)" "length (listing 0 (m_ents (fl_node x) (fs_st f))) \<le> 4096"
  shows "\<exists>f' D'. ls_loop minix_readdir fd b [] f D =
    Some (Inr (filter (\<lambda>nm. take 1 nm \<noteq> [0x2E]) (map (de_name (md_block (fl_node x) (fs_st f))) [0..<used (md_block (fl_node x) (fs_st f))]), f', D'))"
proof -
  have "shown (m_ents n s) = filter (\<lambda>nm. take 1 nm \<noteq> [0x2E]) (map (de_name (md_block n s)) [0..<used (md_block n s)])" for n s
    by (simp add: shown_def m_ents_def de_dent_def comp_def)
  then show ?thesis using mnd.ls_prints [of fd f i x D ctx b] assms by simp
qed

section \<open>A directory on a small disk\<close>

text \<open>The entries \<open>.\<close> and \<open>a\<close> in block 5 of the small disk.\<close>

definition dblock :: bytes where
  "dblock = [1, 0, 0x2E] @ replicate 13 0 @ [2, 0, 0x61] @ replicate 13 0 @ replicate 992 0"

definition mc1 :: bcache where
  "mc1 = cache0\<lparr>c_devs := [0 \<mapsto> mdisk0\<lparr>d_sec := mblock(5 := dblock)\<rparr>]\<rparr>"

lemma mc1_cache: "cache (\<lambda>_. 1024) mc1 Map.empty (\<lambda>_. 0)"
  by (rule empty_cache) (auto simp: mc1_def cache0_def buffer_init_def dev_good_def mdisk0_def length_mblock dblock_def split: if_splits)

lemma mc1_ok: "mok sb0 (\<lambda>_. 0) mc1"
proof -
  have "bc_ok (\<lambda>_. 1024) 0 (2 ^ 18) (\<lambda>_. 0) mc1"
    using mc1_cache by (auto simp: bc_ok_def mc1_def cache0_def buffer_init_def in_reach_def per_block_def mdisk0_def)
  then show ?thesis by (auto simp: mok_def sb0_def intro!: exI [of _ "\<lambda>_. 1024"])
qed

lemma blk_mc1: "blk sb0 mc1 x = (mblock(5 := dblock)) (unat x)"
  using bview_disk [OF mc1_cache, where dev = 0 and idx = x and d = "mdisk0\<lparr>d_sec := mblock(5 := dblock)\<rparr>" and b = 1024]
  by (simp add: blk_def sb0_def mc1_def disk_blk_def per_block_def mdisk0_def dev_bread_def upt_rec)

lemma zbits_mc1: "zbits sb0 mc1 = zbits sb0 mc0"
  by (auto simp: zbits_def tbits_def mbits_def sb0_maps blk_mc1 blk_mc0)

lemma zok_mc1: "zok sb0 mc1 (5 # replicate 8 0) 1"
  using zok_mc0(2) by (simp add: zok_def taken_def zbits_mc1)

lemma dblock_ents: "de_ino dblock 0 = 1" "de_ino dblock 1 = 2" "de_name dblock 0 = [0x2E]" "de_name dblock 1 = [0x61]"
  "2 \<le> e \<Longrightarrow> e < 64 \<Longrightarrow> de_ino dblock e = 0"
proof -
  show "de_ino dblock 0 = 1" "de_ino dblock 1 = 2" by (simp_all add: de_ino_def dblock_def rd16_def nth_append nth_Cons')
  have r: "replicate 13 (0 :: u8) = 0 # replicate 12 0" by (simp add: replicate_Suc [symmetric] del: replicate_Suc)
  show "de_name dblock 0 = [0x2E]" "de_name dblock 1 = [0x61]" by (simp_all add: de_name_def dblock_def) (simp_all add: r)
  assume e: "2 \<le> e" "e < 64"
  have "dblock ! k = 0" if "32 \<le> k" "k < 1024" for k using that by (simp add: dblock_def nth_append nth_Cons')
  then show "de_ino dblock e = 0" using e by (simp add: de_ino_def rd16_def)
qed

text \<open>The directory as node 1, open as descriptor 0.\<close>

definition mdir_demo :: minix where
  "mdir_demo = minix_demo\<lparr>nodes := [1 \<mapsto> mfile_node 0 32 1], m_cache := mc1, m_ino := [0 \<mapsto> mfile_ino 32 (5 # replicate 8 0)]\<rparr>"

definition mdir_fds :: "minix fdesc" where
  "mdir_fds = minix_fds\<lparr>fs_st := mdir_demo, f_heap := [0 \<mapsto> \<lparr>fl_offset = 0, fl_node = 1, fl_flgs = 0x10000, fl_fdfl = 0, fl_refer = 1\<rparr>]\<rparr>"

definition mctx_demo :: dirctx where
  "mctx_demo = \<lparr>cx_node = 0, cx_stat = ctx_inv, cx_pos = 0, cx_mem = [], cx_off = 0, cx_bufmx = 0, cx_bufused = 0\<rparr>"

lemma mdir_block: "md_block 1 mdir_demo = dblock" "m_sb mdir_demo = sb0"
proof -
  show s: "m_sb mdir_demo = sb0" by (simp add: mdir_demo_def minix_demo_def vfs.defs)
  have "nodes mdir_demo 1 = Some (mfile_node 0 32 1)" "m_ino mdir_demo 0 = Some (mfile_ino 32 (5 # replicate 8 0))" "m_cache mdir_demo = mc1"
    by (simp_all add: mdir_demo_def)
  then show "md_block 1 mdir_demo = dblock" using s by (simp add: md_block_def mfile_node_def mfile_ino_def blk_mc1 zblk_def del: One_nat_def)
qed

lemma used_dblock: "used dblock = 2"
proof -
  have "[0..<64] = 0 # 1 # [2..<64]" using upt_conv_Cons [of 0 64] upt_conv_Cons [of 1 64] by (simp add: numeral_2_eq_2)
  moreover have "takeWhile (\<lambda>e. de_ino dblock e \<noteq> 0) [2..<64] = []" using upt_conv_Cons [of 2 64] dblock_ents(5) [of 2] by simp
  ultimately show ?thesis using dblock_ents(1,2) unfolding used_def by simp
qed

lemma mdir_good: "md_good 1 mdir_demo"
proof -
  have d: "de_ok sb0 dblock e" if "e < 2" for e
  proof -
    have "0 \<in> set (take 14 (drop (16 * e + 2) dblock))" "ino_ok sb0 (de_ino dblock e)"
      using that dblock_ents(1,2) by (auto simp: less_2_cases_iff dblock_def ino_ok_def sb0_def)
    then show ?thesis by (simp add: de_ok_def)
  qed
  have "nodes mdir_demo 1 = Some (mfile_node 0 32 1)" "m_ino mdir_demo 0 = Some (mfile_ino 32 (5 # replicate 8 0))" "m_cache mdir_demo = mc1"
    by (simp_all add: mdir_demo_def)
  then have "\<exists>nn mi k. nodes mdir_demo 1 = Some nn \<and> m_ino mdir_demo (n_pdata nn) = Some mi \<and> layout sb0 \<and> mok sb0 (\<lambda>_. 0) (m_cache mdir_demo) \<and>
     zok sb0 (m_cache mdir_demo) (i_zone mi) k \<and> 0 < k \<and> i_size mi < 1024"
    using layout_sb0 mc1_ok zok_mc1 by (intro exI [of _ "mfile_node 0 32 1"] exI [of _ "mfile_ino 32 (5 # replicate 8 0)"] exI [of _ 1]) (simp add: mfile_node_def mfile_ino_def)
  moreover have "\<forall>e<64. if e < used dblock then de_ok sb0 dblock e else de_ino dblock e = 0" using d dblock_ents(5) by (simp add: used_dblock)
  ultimately show ?thesis unfolding md_good_def mdir_block by blast
qed

theorem ls_lists_minix_witness:
  "\<exists>f' D'. ls_loop minix_readdir 0 (replicate 4096 0) [] mdir_fds [0 \<mapsto> mctx_demo] = Some (Inr ([[0x61]], f', D'))"
proof -
  let ?x = "\<lparr>fl_offset = 0, fl_node = 1, fl_flgs = 0x10000, fl_fdfl = 0, fl_refer = 1\<rparr>"
  have f: "slot 0 mdir_fds = Inr (Some 0)" "f_heap mdir_fds 0 = Some ?x" "fs_st mdir_fds = mdir_demo"
    by (simp_all add: mdir_fds_def slot_def minix_fds_def)
  have two: "[0..<2] = [0, 1::nat]" by (simp add: upt_rec)
  have "length (listing 0 (m_ents 1 mdir_demo)) \<le> 4096" unfolding m_ents_def mdir_block used_dblock two by (simp add: de_dent_def dblock_ents del: One_nat_def)
  from ls_lists_minix [OF f(1,2), of "[0 \<mapsto> mctx_demo]" mctx_demo "replicate 4096 0"] mdir_good this
  have "\<exists>f' D'. ls_loop minix_readdir 0 (replicate 4096 0) [] mdir_fds [0 \<mapsto> mctx_demo] =
      Some (Inr (filter (\<lambda>nm. take 1 nm \<noteq> [0x2E]) (map (de_name dblock) [0, 1]), f', D'))"
    by (simp add: f(3) mdir_block used_dblock two mctx_demo_def del: One_nat_def)
  then show ?thesis by (simp add: dblock_ents take_Cons' del: One_nat_def)
qed

end
