(* ===== verification/Minix_Remove.thy ===== *)
theory Minix_Remove
  imports Minix_Dir
begin

unbundle bit_operations_syntax

text \<open>
  Taking things off a minix disk: erasing a directory entry and shortening a file. Both paths of the code stop short of
  what they are for; the theorems say what they do instead.
\<close>

section \<open>Erasing an entry\<close>








section \<open>Giving the zones back\<close>








section \<open>Removing a file\<close>





end
