(* ===== verification/Arp.thy ===== *)
theory Arp
  imports Net
begin

unbundle bit_operations_syntax

text \<open>
  kernel/net/arp.c and the Ethernet layer of kernel/dev/nic/nic.c: finding the hardware address of the next host. As in Net a packet is the
  list of its bytes. \<open>an_wire\<close> is what the interfaces have been handed to send, the latest first, with
  the number of the interface; \<open>nif0\<close> is number 0. A packet that is freed is forgotten. \<open>an_junk\<close> is what
  \<open>malloc\<close> leaves in the fields of an entry that the code does not set.
\<close>

section \<open>State\<close>

record arpent =
  ae_init :: bool
  ae_ticks :: u64
  ae_expires :: u64
  ae_ip :: u32
  ae_hw :: bytes
  ae_ipque :: "bytes list"

record arpnet =
  an_nif :: "nat \<Rightarrow> nif"
  an_arps :: "nat \<Rightarrow> arpent list"
  an_ktick :: u64
  an_wire :: "(nat \<times> bytes) list"
  an_junk :: arpent

definition ETH_IP :: u16 where "ETH_IP = 0x0800"
definition ETH_ARP :: u16 where "ETH_ARP = 0x0806"
definition ARP_OP_REQUEST :: u16 where "ARP_OP_REQUEST = 1"
definition ARP_OP_REPLY :: u16 where "ARP_OP_REPLY = 2"
definition ARP_TIMEOUT :: u64 where "ARP_TIMEOUT = 6000"

definition bc_mac :: bytes where "bc_mac = replicate 6 0xFF"

section \<open>Frames\<close>

definition nif_eth_tx :: "nat \<Rightarrow> bytes \<Rightarrow> bytes \<Rightarrow> u16 \<Rightarrow> arpnet \<Rightarrow> arpnet" where
  "nif_eth_tx n m dst type s = s\<lparr>an_wire := (n, dst @ nif_mac (an_nif s n) @ store16 (htons type) @ m) # an_wire s\<rparr>"

definition arp_header :: "u16 \<Rightarrow> bytes \<Rightarrow> u32 \<Rightarrow> bytes \<Rightarrow> u32 \<Rightarrow> bytes" where
  "arp_header opc srchw srcpr dsthw dstpr =
     store16 (htons 1) @ store16 (htons 0x800) @ [6, 4] @ store16 (htons opc) @ srchw @ store32 srcpr @ dsthw @ store32 dstpr"

definition net_tx_arp :: "nat \<Rightarrow> u16 \<Rightarrow> bytes \<Rightarrow> u32 \<Rightarrow> arpnet \<Rightarrow> arpnet" where
  "net_tx_arp n opc dmac dip s =
     nif_eth_tx n (arp_header opc (nif_mac (an_nif s n)) (nif_ip (an_nif s n)) dmac dip) dmac ETH_ARP s"

definition arp_request :: "u32 \<Rightarrow> arpnet \<Rightarrow> arpnet" where
  "arp_request dip s = net_tx_arp 0 ARP_OP_REQUEST bc_mac dip s"

section \<open>The table\<close>

definition arp_init :: "u32 \<Rightarrow> arpnet \<Rightarrow> arpent" where
  "arp_init dip s = (an_junk s)\<lparr>ae_ip := dip, ae_init := False, ae_ipque := []\<rparr>"

definition arp_get :: "nat \<Rightarrow> u32 \<Rightarrow> arpnet \<Rightarrow> arpent option" where
  "arp_get n ip s = List.find (\<lambda>a. ip_addr_cmp ip (ae_ip a)) (an_arps s n)"

text \<open>The first entry for an address, replaced, and the table without it.\<close>

fun arp_put :: "u32 \<Rightarrow> arpent \<Rightarrow> arpent list \<Rightarrow> arpent list" where
  "arp_put ip a [] = []"
| "arp_put ip a (e # es) = (if ip_addr_cmp ip (ae_ip e) then a # es else e # arp_put ip a es)"

fun arp_del :: "u32 \<Rightarrow> arpent list \<Rightarrow> arpent list" where
  "arp_del ip [] = []"
| "arp_del ip (e # es) = (if ip_addr_cmp ip (ae_ip e) then es else e # arp_del ip es)"

definition set_arps :: "nat \<Rightarrow> arpent list \<Rightarrow> arpnet \<Rightarrow> arpnet" where
  "set_arps n es s = s\<lparr>an_arps := (an_arps s)(n := es)\<rparr>"

primrec send_all :: "nat \<Rightarrow> bytes list \<Rightarrow> bytes \<Rightarrow> arpnet \<Rightarrow> arpnet" where
  "send_all n [] hw s = s"
| "send_all n (m # ms) hw s = send_all n ms hw (nif_eth_tx n m hw ETH_IP s)"

definition arp_set :: "nat \<Rightarrow> u32 \<Rightarrow> bytes \<Rightarrow> u64 \<Rightarrow> arpnet \<Rightarrow> arpnet" where
  "arp_set n ip hw ticks s =
     (let old = (case arp_get n ip s of None \<Rightarrow> (an_junk s)\<lparr>ae_ip := ip, ae_ipque := []\<rparr> | Some a \<Rightarrow> a);
          rest = (case arp_get n ip s of None \<Rightarrow> an_arps s n | Some _ \<Rightarrow> arp_del ip (an_arps s n));
          a = old\<lparr>ae_init := True, ae_ticks := ticks, ae_expires := an_ktick s + ticks, ae_hw := hw\<rparr>;
          s1 = send_all n (ae_ipque a) hw (set_arps n rest s)
      in set_arps n (a\<lparr>ae_ipque := []\<rparr> # rest) s1)"

section \<open>Sending and receiving\<close>

text \<open>The entry is looked up under the address of the packet, and made under the address of the next host.\<close>

definition net_tx_arpip :: "nat \<Rightarrow> bytes \<Rightarrow> u32 \<Rightarrow> arpnet \<Rightarrow> arpnet" where
  "net_tx_arpip n m dip s =
     (let dip0 = (if ip_addr_maskcmp dip (nif_ip (an_nif s n)) (nif_netmask (an_nif s n)) then dip else nif_gateway (an_nif s n))
      in case arp_get n dip s of
           None \<Rightarrow> arp_request dip0 (set_arps n ((arp_init dip0 s)\<lparr>ae_ipque := [m]\<rparr> # an_arps s n) s)
         | Some a \<Rightarrow>
             if \<not> ae_init a \<or> ae_expires a < an_ktick s
             then arp_request dip0 (set_arps n (arp_put dip (a\<lparr>ae_ipque := ae_ipque a @ [m]\<rparr>) (an_arps s n)) s)
             else nif_eth_tx n m (ae_hw a) ETH_IP s)"

definition net_rx_arp :: "nat \<Rightarrow> bytes \<Rightarrow> arpnet \<Rightarrow> arpnet result" where
  "net_rx_arp n m s =
     (if length m < 28 then Inl BadAccess
      else if ntohs (load16 (m ! 0) (m ! 1)) \<noteq> 1 \<or> ntohs (load16 (m ! 2) (m ! 3)) \<noteq> 0x800 \<or> m ! 4 \<noteq> 6 \<or> m ! 5 \<noteq> 4 then Inr s
      else let opc = ntohs (load16 (m ! 6) (m ! 7)); srchw = take 6 (drop 8 m); srcpr = load32 (m ! 14) (m ! 15) (m ! 16) (m ! 17);
               dstpr = load32 (m ! 24) (m ! 25) (m ! 26) (m ! 27)
           in if opc = ARP_OP_REQUEST
              then Inr (arp_set n srcpr srchw ARP_TIMEOUT
                     (if ip_addr_cmp (nif_ip (an_nif s n)) dstpr then net_tx_arp n ARP_OP_REPLY srchw srcpr s else s))
              else if opc = ARP_OP_REPLY then Inr (arp_set n srcpr srchw ARP_TIMEOUT s)
              else Inr s)"

datatype eth_rx = Eth_arp arpnet | Eth_ip bytes | Eth_drop

definition nif_eth_rx :: "nat \<Rightarrow> bytes \<Rightarrow> arpnet \<Rightarrow> eth_rx result" where
  "nif_eth_rx n m s =
     (if length m < 14 then Inl BadAccess
      else let type = ntohs (load16 (m ! 12) (m ! 13)); body = drop 14 m
           in if type = ETH_ARP then bind_result (net_rx_arp n body s) (\<lambda>s1. Inr (Eth_arp s1))
              else if type = ETH_IP then Inr (Eth_ip body) else Inr Eth_drop)"

section \<open>Packets of the protocol\<close>

lemma arp_get_head: "an_arps s n = e # es \<Longrightarrow> ae_ip e = ip \<Longrightarrow> arp_get n ip s = Some e"
  by (simp add: arp_get_def ip_addr_cmp_def)

lemma length_store [simp]: "length (store16 x) = 2" "length (store32 y) = 4"
  by (simp_all add: store16_def store32_def)

text \<open>What a receiver reads out of a packet that \<open>net_tx_arp\<close> built.\<close>

lemma rx_header:
  assumes "length srchw = 6" "length dsthw = 6"
  shows "net_rx_arp n (arp_header opc srchw srcpr dsthw dstpr) s =
    (if opc = ARP_OP_REQUEST
     then Inr (arp_set n srcpr srchw ARP_TIMEOUT (if nif_ip (an_nif s n) = dstpr then net_tx_arp n ARP_OP_REPLY srchw srcpr s else s))
     else if opc = ARP_OP_REPLY then Inr (arp_set n srcpr srchw ARP_TIMEOUT s) else Inr s)"
proof -
  obtain a0 a1 a2 a3 a4 a5 where a: "srchw = [a0, a1, a2, a3, a4, a5]" using assms(1) by (auto simp: numeral_eq_Suc length_Suc_conv)
  obtain b0 b1 b2 b3 b4 b5 where b: "dsthw = [b0, b1, b2, b3, b4, b5]" using assms(2) by (auto simp: numeral_eq_Suc length_Suc_conv)
  have s: "ntohs (load16 (ucast (htons x)) (ucast (drop_bit 8 (htons x)))) = x" for x by (simp add: load_store16 swap16)
  let ?h = "arp_header opc srchw srcpr dsthw dstpr"
  have h: "length ?h = 28" "?h ! 0 = ucast (htons 1)" "?h ! 1 = ucast (drop_bit 8 (htons 1))" "?h ! 2 = ucast (htons 0x800)" "?h ! 3 = ucast (drop_bit 8 (htons 0x800))"
    "?h ! 4 = 6" "?h ! 5 = 4" "?h ! 6 = ucast (htons opc)" "?h ! 7 = ucast (drop_bit 8 (htons opc))" "take 6 (drop 8 ?h) = srchw"
    by (simp_all add: arp_header_def store16_def store32_def a b)
  have p: "load32 (?h ! 14) (?h ! 15) (?h ! 16) (?h ! 17) = srcpr" "load32 (?h ! 24) (?h ! 25) (?h ! 26) (?h ! 27) = dstpr"
    by (simp_all add: arp_header_def store16_def store32_def a b load_store32)
  show ?thesis unfolding net_rx_arp_def h(2-10) p s using h(1) by (simp add: ip_addr_cmp_def Let_def)
qed

text \<open>The queue of an entry leaves in its order, and nothing but the wire changes.\<close>

lemma send_all_eq: "send_all n ms hw s = s\<lparr>an_wire := rev (map (\<lambda>m. (n, hw @ nif_mac (an_nif s n) @ store16 (htons ETH_IP) @ m)) ms) @ an_wire s\<rparr>"
  by (induction ms arbitrary: s) (simp_all add: nif_eth_tx_def)

definition ip_frame :: "nat \<Rightarrow> bytes \<Rightarrow> bytes \<Rightarrow> arpnet \<Rightarrow> nat \<times> bytes" where
  "ip_frame n hw m s = (n, hw @ nif_mac (an_nif s n) @ store16 (htons ETH_IP) @ m)"

lemma arp_set_found:
  assumes "an_arps s n = e # es" "ae_ip e = ip"
  shows "an_wire (arp_set n ip hw t s) = rev (map (\<lambda>m. ip_frame n hw m s) (ae_ipque e)) @ an_wire s"
    "an_arps (arp_set n ip hw t s) n = e\<lparr>ae_init := True, ae_ticks := t, ae_expires := an_ktick s + t, ae_hw := hw, ae_ipque := []\<rparr> # es"
    "an_nif (arp_set n ip hw t s) = an_nif s" "an_ktick (arp_set n ip hw t s) = an_ktick s"
  using arp_get_head [OF assms] assms by (simp_all add: arp_set_def Let_def send_all_eq set_arps_def ip_frame_def ip_addr_cmp_def)

lemma arp_set_new:
  assumes "arp_get n ip s = None"
  shows "an_wire (arp_set n ip hw t s) = an_wire s" "an_nif (arp_set n ip hw t s) = an_nif s"
  using assms by (simp_all add: arp_set_def Let_def set_arps_def)

text \<open>A fresh entry with one packet in front of the table.\<close>

lemma tx_unknown:
  assumes "arp_get n dip s = None" "ip_addr_maskcmp dip (nif_ip (an_nif s n)) (nif_netmask (an_nif s n)) \<longleftrightarrow> near" "dip0 = (if near then dip else nif_gateway (an_nif s n))"
  shows "an_arps (net_tx_arpip n m dip s) n = (arp_init dip0 s)\<lparr>ae_ipque := [m]\<rparr> # an_arps s n"
    "an_wire (net_tx_arpip n m dip s) =
      (0, bc_mac @ nif_mac (an_nif s 0) @ store16 (htons ETH_ARP) @ arp_header ARP_OP_REQUEST (nif_mac (an_nif s 0)) (nif_ip (an_nif s 0)) bc_mac dip0) # an_wire s"
    "an_nif (net_tx_arpip n m dip s) = an_nif s" "an_ktick (net_tx_arpip n m dip s) = an_ktick s" "an_junk (net_tx_arpip n m dip s) = an_junk s"
  using assms by (simp_all add: net_tx_arpip_def Let_def arp_request_def net_tx_arp_def nif_eth_tx_def set_arps_def)

section \<open>Two hosts\<close>

text \<open>
  C34. Address resolution between two hosts on one network: the first host sends a packet to the address of the second, which is not in
  its table. The request on the wire makes the second answer, and the answer makes the first send the packet to the
  hardware address of the second; packets of the next 6000 ticks go there at once, and a later one is put into the queue and makes a new request.
\<close>

theorem arp_exchange:
  assumes A: "nif_ip (an_nif sA 0) = a" "nif_mac (an_nif sA 0) = ma" "length ma = 6" "arp_get 0 b sA = None"
      "ip_addr_maskcmp b a (nif_netmask (an_nif sA 0))"
    and B: "nif_ip (an_nif sB 0) = b" "nif_mac (an_nif sB 0) = mb" "length mb = 6" "arp_get 0 a sB = None"
  shows "\<exists>req sB1 rep sA2. an_wire (net_tx_arpip 0 m b sA) = (0, req) # an_wire sA \<and> net_rx_arp 0 (drop 14 req) sB = Inr sB1 \<and>
    an_wire sB1 = (0, rep) # an_wire sB \<and> take 6 rep = ma \<and> net_rx_arp 0 (drop 14 rep) ((net_tx_arpip 0 m b sA)\<lparr>an_ktick := now\<rparr>) = Inr sA2 \<and>
    an_wire sA2 = (0, mb @ ma @ store16 (htons ETH_IP) @ m) # an_wire (net_tx_arpip 0 m b sA) \<and>
    (\<forall>m' k. an_wire (net_tx_arpip 0 m' b (sA2\<lparr>an_ktick := k\<rparr>)) =
      (if k \<le> now + 6000 then (0, mb @ ma @ store16 (htons ETH_IP) @ m') else (0, req)) # an_wire sA2)"
proof -
  define sA1 where "sA1 = net_tx_arpip 0 m b sA"
  have near: "ip_addr_maskcmp b (nif_ip (an_nif sA 0)) (nif_netmask (an_nif sA 0)) \<longleftrightarrow> True" using A(1,5) by simp
  note t = tx_unknown [OF A(4) near refl, of m, folded sA1_def]
  define req where "req = bc_mac @ ma @ store16 (htons ETH_ARP) @ arp_header ARP_OP_REQUEST ma a bc_mac b"
  define rep where "rep = ma @ mb @ store16 (htons ETH_ARP) @ arp_header ARP_OP_REPLY mb b ma a"
  have w1: "an_wire sA1 = (0, req) # an_wire sA" using t(2) A(1,2) by (simp add: req_def)
  have d: "drop 14 req = arp_header ARP_OP_REQUEST ma a bc_mac b" "drop 14 rep = arp_header ARP_OP_REPLY mb b ma a" "take 6 rep = ma"
    using A(3) B(3) by (simp_all add: req_def rep_def bc_mac_def)
  define sB0 where "sB0 = net_tx_arp 0 ARP_OP_REPLY ma a sB"
  have rB: "net_rx_arp 0 (drop 14 req) sB = Inr (arp_set 0 a ma ARP_TIMEOUT sB0)"
    using rx_header [OF A(3), of bc_mac 0 ARP_OP_REQUEST a b sB] B(1) by (simp add: d bc_mac_def sB0_def)
  have "arp_get 0 a sB0 = None" using B(4) by (simp add: sB0_def net_tx_arp_def nif_eth_tx_def arp_get_def)
  then have wB: "an_wire (arp_set 0 a ma ARP_TIMEOUT sB0) = (0, rep) # an_wire sB"
    using arp_set_new(1) B(1,2) by (simp add: sB0_def net_tx_arp_def nif_eth_tx_def rep_def)
  let ?e = "(arp_init b sA)\<lparr>ae_ipque := [m]\<rparr>"
  have e: "an_arps sA1 0 = ?e # an_arps sA 0" "ae_ip ?e = b" using t(1) by (simp_all add: arp_init_def)
  define sA1' where "sA1' = sA1\<lparr>an_ktick := now\<rparr>"
  have e': "an_arps sA1' 0 = ?e # an_arps sA 0" using e(1) by (simp add: sA1'_def)
  define sA2 where "sA2 = arp_set 0 b mb ARP_TIMEOUT sA1'"
  note u = arp_set_found [OF e' e(2), of mb ARP_TIMEOUT, folded sA2_def]
  have rA: "net_rx_arp 0 (drop 14 rep) sA1' = Inr sA2"
    using rx_header [OF B(3) A(3), of 0 ARP_OP_REPLY b a sA1'] by (simp add: d sA2_def ARP_OP_REPLY_def ARP_OP_REQUEST_def)
  have wA: "an_wire sA2 = (0, mb @ ma @ store16 (htons ETH_IP) @ m) # an_wire sA1" using u(1) A(2) t(3) by (simp add: ip_frame_def sA1'_def)
  have n: "an_nif sA2 = an_nif sA" using u(3) t(3) by (simp add: sA1'_def)
  obtain a2 where a2: "an_arps sA2 0 = a2 # an_arps sA 0" "ae_ip a2 = b" "ae_init a2" "ae_hw a2 = mb" "ae_expires a2 = now + 6000"
    using u(2) e(2) by (auto simp: sA1'_def ARP_TIMEOUT_def)
  have "an_wire (net_tx_arpip 0 m' b (sA2\<lparr>an_ktick := k\<rparr>)) =
      (if k \<le> now + 6000 then (0, mb @ ma @ store16 (htons ETH_IP) @ m') else (0, req)) # an_wire sA2" for m' k
  proof -
    have g: "arp_get 0 b (sA2\<lparr>an_ktick := k\<rparr>) = Some a2" using arp_get_head [of "sA2\<lparr>an_ktick := k\<rparr>" 0 a2] a2(1,2) by simp
    show ?thesis
      using A(1,2,5) a2(3-5) n
      by (auto simp: net_tx_arpip_def g Let_def nif_eth_tx_def arp_request_def net_tx_arp_def set_arps_def req_def linorder_not_less)
  qed
  then show ?thesis using w1 rB wB d(3) rA wA unfolding sA1_def [symmetric] sA1'_def [symmetric] by blast
qed

section \<open>Packets to other networks\<close>

text \<open>
  Two packets to other networks that are sent before the gateway has answered: each makes an entry of its own for the gateway,
  since the table is searched for the destination and the entry carries the address of the gateway. The answer of the
  gateway sends the later packet; no further answer ever sends the first one.
\<close>

theorem gateway_packet_lost:
  assumes "\<not> ip_addr_maskcmp d (nif_ip (an_nif s n)) (nif_netmask (an_nif s n))" "\<not> ip_addr_maskcmp d' (nif_ip (an_nif s n)) (nif_netmask (an_nif s n))"
    "arp_get n d s = None" "arp_get n d' s = None" "nif_gateway (an_nif s n) \<noteq> d'"
  shows "\<exists>w. an_wire (arp_set n (nif_gateway (an_nif s n)) hw t (net_tx_arpip n m' d' (net_tx_arpip n m d s))) = ip_frame n hw m' s # w @ an_wire s \<and>
    length w = 2 \<and> fst ` set w = {0} \<and> (\<forall>as. an_wire (fold (\<lambda>(hw', t'). arp_set n (nif_gateway (an_nif s n)) hw' t') as
      (arp_set n (nif_gateway (an_nif s n)) hw t (net_tx_arpip n m' d' (net_tx_arpip n m d s)))) = ip_frame n hw m' s # w @ an_wire s)"
proof -
  let ?g = "nif_gateway (an_nif s n)"
  define s1 where "s1 = net_tx_arpip n m d s"
  define s2 where "s2 = net_tx_arpip n m' d' s1"
  have f1: "ip_addr_maskcmp d (nif_ip (an_nif s n)) (nif_netmask (an_nif s n)) \<longleftrightarrow> False" using assms(1) by simp
  note t1 = tx_unknown [OF assms(3) f1 refl, of m, folded s1_def]
  have "ae_ip ((arp_init ?g s)\<lparr>ae_ipque := [m]\<rparr>) \<noteq> d'" using assms(5) by (simp add: arp_init_def)
  then have "arp_get n d' s1 = None" using assms(4) t1(1) by (simp add: arp_get_def ip_addr_cmp_def)
  moreover have "ip_addr_maskcmp d' (nif_ip (an_nif s1 n)) (nif_netmask (an_nif s1 n)) \<longleftrightarrow> False" using assms(2) t1(3) by simp
  ultimately have t2: "an_arps s2 n = (arp_init ?g s1)\<lparr>ae_ipque := [m']\<rparr> # an_arps s1 n" "an_nif s2 = an_nif s" "\<exists>r. an_wire s2 = (0, r) # an_wire s1"
    using tx_unknown [of n d' s1 False ?g m', folded s2_def] t1(3) by auto
  let ?e = "(arp_init ?g s1)\<lparr>ae_ipque := [m']\<rparr>"
  have ip: "ae_ip ?e = ?g" by (simp add: arp_init_def)
  define s3 where "s3 = arp_set n ?g hw t s2"
  note u = arp_set_found [OF t2(1) ip, of hw t, folded s3_def]
  have w3: "an_wire s3 = ip_frame n hw m' s # an_wire s2" using u(1) t2(2) by (simp add: ip_frame_def)
  have quiet: "an_wire (fold (\<lambda>(hw', t'). arp_set n ?g hw' t') as x) = an_wire x" if "an_arps x n = e # es" "ae_ip e = ?g" "ae_ipque e = []" for as x e es
    using that
  proof (induction as arbitrary: x e)
    case (Cons p as)
    obtain hw' t' where p: "p = (hw', t')" by (cases p)
    note v = arp_set_found [OF Cons.prems(1,2), of hw' t']
    show ?case using Cons.IH [OF v(2)] Cons.prems(2,3) v(1) by (simp add: p)
  qed simp
  have "an_wire (fold (\<lambda>(hw', t'). arp_set n ?g hw' t') as s3) = an_wire s3" for as using quiet [OF u(2)] ip by simp
  moreover obtain r1 r2 where "an_wire s2 = (0, r2) # (0, r1) # an_wire s" using t2(3) t1(2) by auto
  ultimately show ?thesis using w3 unfolding s1_def [symmetric] s2_def [symmetric] s3_def [symmetric]
    by (intro exI [of _ "[(0, r2), (0, r1)]"]) simp
qed

section \<open>Examples\<close>

definition demo_host :: "u32 \<Rightarrow> bytes \<Rightarrow> arpnet" where
  "demo_host ip mac = \<lparr>an_nif = (\<lambda>_. \<lparr>nif_name = ''eth0'', nif_mac = mac, nif_ip = ip, nif_gateway = 0x0100000A, nif_netmask = 0x00FFFFFF, nif_broadcast = 0\<rparr>),
     an_arps = (\<lambda>_. []), an_ktick = 5, an_wire = [], an_junk = \<lparr>ae_init = True, ae_ticks = 0, ae_expires = 0, ae_ip = 0, ae_hw = [], ae_ipque = []\<rparr>\<rparr>"

theorem arp_exchange_witness:
  "\<exists>req sB1 rep sA2. an_wire (net_tx_arpip 0 [7] 0x0300000A (demo_host 0x0200000A [1, 1, 1, 1, 1, 1])) = [(0, req)] \<and>
    net_rx_arp 0 (drop 14 req) (demo_host 0x0300000A [2, 2, 2, 2, 2, 2]) = Inr sB1 \<and> an_wire sB1 = [(0, rep)] \<and>
    net_rx_arp 0 (drop 14 rep) ((net_tx_arpip 0 [7] 0x0300000A (demo_host 0x0200000A [1, 1, 1, 1, 1, 1]))\<lparr>an_ktick := 9\<rparr>) = Inr sA2 \<and>
    hd (an_wire sA2) = (0, [2, 2, 2, 2, 2, 2] @ [1, 1, 1, 1, 1, 1] @ store16 (htons ETH_IP) @ [7]) \<and>
    hd (an_wire (net_tx_arpip 0 [8] 0x0300000A (sA2\<lparr>an_ktick := 6009\<rparr>))) = (0, [2, 2, 2, 2, 2, 2] @ [1, 1, 1, 1, 1, 1] @ store16 (htons ETH_IP) @ [8]) \<and>
    hd (an_wire (net_tx_arpip 0 [8] 0x0300000A (sA2\<lparr>an_ktick := 6010\<rparr>))) = (0, req)"
  using arp_exchange [of "demo_host 0x0200000A [1, 1, 1, 1, 1, 1]" "0x0200000A" "[1, 1, 1, 1, 1, 1]" "0x0300000A" "demo_host 0x0300000A [2, 2, 2, 2, 2, 2]" "[2, 2, 2, 2, 2, 2]" "[7]" 9]
  by (fastforce simp: demo_host_def arp_get_def ip_addr_maskcmp_def)

theorem gateway_packet_lost_witness:
  "\<exists>w. an_wire (arp_set 0 0x0100000A [3] 9 (net_tx_arpip 0 [8] 0x05050505 (net_tx_arpip 0 [7] 0x04040404 (demo_host 0x0200000A [1, 1, 1, 1, 1, 1])))) =
      ip_frame 0 [3] [8] (demo_host 0x0200000A [1, 1, 1, 1, 1, 1]) # w \<and> length w = 2"
  using gateway_packet_lost [where n = 0 and s = "demo_host 0x0200000A [1, 1, 1, 1, 1, 1]" and m = "[7]" and d = "0x04040404" and m' = "[8]" and d' = "0x05050505" and hw = "[3]" and t = 9]
  by (auto simp: demo_host_def arp_get_def ip_addr_maskcmp_def)

end
