(* ===== verification/Icmp.thy ===== *)
theory Icmp
  imports Arp
begin

unbundle bit_operations_syntax

text \<open>
  kernel/net/icmp.c: echo requests and their answers, over \<open>net_tx_ip\<close> and the address resolution of
  Arp. An answer is built in the buffer of the request: the bytes of the received IP header are what
  \<open>net_tx_ip\<close> finds where it writes its own header.
\<close>

section \<open>Operations\<close>

text \<open>\<open>net_tx_ip\<close> with its last call: the packet goes to the address resolution of the interface.\<close>

definition ip_tx :: "nat \<Rightarrow> bytes \<Rightarrow> bytes \<Rightarrow> u32 \<Rightarrow> u8 \<Rightarrow> arpnet \<Rightarrow> arpnet" where
  "ip_tx n old m dip ptype s = net_tx_arpip n (net_tx_ip old (nif_ip (an_nif s n)) m dip ptype) dip s"

definition IP_P_ICMP :: u8 where "IP_P_ICMP = 1"
definition ICMP_REPLY :: u8 where "ICMP_REPLY = 0"
definition ICMP_REQUEST :: u8 where "ICMP_REQUEST = 8"

definition icmp_cksum :: "bytes \<Rightarrow> u16" where
  "icmp_cksum data =
     (let s = sum16 data 0;
          s1 = drop_bit 16 s + (s AND 0xFFFF);
          s2 = s1 + drop_bit 16 s1
      in NOT (ucast s2))"

definition icmp_header :: "u8 \<Rightarrow> u16 \<Rightarrow> u16 \<Rightarrow> u16 \<Rightarrow> bytes" where
  "icmp_header type ck idn seq = [type, 0] @ store16 ck @ store16 (htons idn) @ store16 (htons seq)"

definition net_tx_icmp :: "nat \<Rightarrow> bytes \<Rightarrow> u8 \<Rightarrow> u32 \<Rightarrow> arpnet \<Rightarrow> arpnet" where
  "net_tx_icmp n old type dip s =
     ip_tx n old (icmp_header type (icmp_cksum (icmp_header type 0 1 1)) 1 1) dip IP_P_ICMP s"

definition icmp_request :: "bytes \<Rightarrow> u32 \<Rightarrow> arpnet \<Rightarrow> arpnet" where
  "icmp_request old dip s = net_tx_icmp 0 old ICMP_REQUEST dip s"

definition icmp_reply :: "bytes \<Rightarrow> u16 \<Rightarrow> bytes" where
  "icmp_reply m ck = [ICMP_REPLY, m ! 1] @ store16 ck @ drop 4 m"

definition net_rp_icmp :: "nat \<Rightarrow> bytes \<Rightarrow> bytes \<Rightarrow> u32 \<Rightarrow> arpnet \<Rightarrow> arpnet" where
  "net_rp_icmp n hdr m dip s = ip_tx n hdr (icmp_reply m (icmp_cksum (icmp_reply m 0))) dip IP_P_ICMP s"

text \<open>The addresses in an IP header.\<close>

definition ip_sip :: "bytes \<Rightarrow> u32" where
  "ip_sip hdr = load32 (hdr ! 12) (hdr ! 13) (hdr ! 14) (hdr ! 15)"

definition ip_dip :: "bytes \<Rightarrow> u32" where
  "ip_dip hdr = load32 (hdr ! 16) (hdr ! 17) (hdr ! 18) (hdr ! 19)"

definition net_rx_icmp :: "nat \<Rightarrow> bytes \<Rightarrow> bytes \<Rightarrow> arpnet \<Rightarrow> arpnet result" where
  "net_rx_icmp n hdr m s =
     (if length m < 8 then Inl BadAccess
      else if m ! 0 = ICMP_REPLY then Inr s
      else if m ! 0 = ICMP_REQUEST then Inr (net_rp_icmp n hdr m (ip_sip hdr) s)
      else Inr s)"

section \<open>Headers that net_tx_ip writes\<close>

lemma ip_header_fields:
  "length (ip_header old tot p sip dip ck) = 20" "ip_header old tot p sip dip ck ! 0 = 0x45"
  "ip_header old tot p sip dip ck ! 9 = p" "ip_sip (ip_header old tot p sip dip ck) = sip" "ip_dip (ip_header old tot p sip dip ck) = dip"
  "ip_header old tot p sip dip ck ! 6 = 0" "ip_header old tot p sip dip ck ! 7 = 0"
  "load16 (ip_header old tot p sip dip ck ! 2) (ip_header old tot p sip dip ck ! 3) = htons (of_nat tot)"
  by (simp_all add: ip_header_def ip_sip_def ip_dip_def store16_def store32_def load_store16 load_store32)

text \<open>A packet that was sent to an address is passed on by the host of this address, by its protocol.\<close>

definition ip_up :: "u8 \<Rightarrow> bytes \<Rightarrow> bytes \<Rightarrow> ip_rx" where
  "ip_up p hdr m = (if p = 1 then Ip_icmp hdr m else if p = 6 then Ip_tcp hdr m else if p = 17 then Ip_udp hdr m else Ip_other)"

definition sent_header :: "bytes \<Rightarrow> u32 \<Rightarrow> bytes \<Rightarrow> u32 \<Rightarrow> u8 \<Rightarrow> bytes" where
  "sent_header old sip m dip p = take 20 (net_tx_ip old sip m dip p)"

lemma sent_header_fields:
  "length (sent_header old sip m dip p) = 20" "ip_sip (sent_header old sip m dip p) = sip" "ip_dip (sent_header old sip m dip p) = dip"
  "sent_header old sip m dip p ! 9 = p"
  by (simp_all add: sent_header_def net_tx_ip_def Let_def ip_header_fields)

lemma net_tx_ip_split: "net_tx_ip old sip m dip p = sent_header old sip m dip p @ m"
  by (simp add: sent_header_def net_tx_ip_def Let_def ip_header_fields)

lemma net_rx_sent_raw:
  assumes "length m \<le> 65515" "h = sent_header old sip m dip p"
  shows "net_rx_ip raw dip (net_tx_ip old sip m dip p) = Inr (if raw h m > 0 then Ip_raw else ip_up p h m)"
proof -
  have f: "length h = 20" "h ! 0 = 0x45" "h ! 9 = p" "h ! 6 = 0" "h ! 7 = 0" "ip_dip h = dip"
      "load16 (h ! 2) (h ! 3) = htons (of_nat (length m + 20))"
    by (simp_all add: assms(2) sent_header_def net_tx_ip_def Let_def ip_header_fields)
  have t: "unat (ntohs (load16 (h ! 2) (h ! 3))) = length m + 20"
    unfolding f(7) swap16 unsigned_of_nat using assms(1) by (simp add: take_bit_nat_eq_self)
  have d: "load32 (h ! 16) (h ! 17) (h ! 18) (h ! 19) = dip" using f(6) by (simp add: ip_dip_def)
  have "net_tx_ip old sip m dip p = h @ m" by (simp add: assms(2) net_tx_ip_split)
  then show ?thesis
    using f t d by (simp add: net_rx_ip_def Let_def ip_addr_cmp_def ip_up_def)
qed

lemma net_rx_sent:
  assumes "length m \<le> 65515" "raw (sent_header old sip m dip p) m \<le> 0"
  shows "net_rx_ip raw dip (net_tx_ip old sip m dip p) = Inr (ip_up p (sent_header old sip m dip p) m)"
  using net_rx_sent_raw [OF assms(1) refl, of raw] assms(2) by simp

section \<open>The checksum\<close>

lemma icmp_cksum_nat:
  assumes "length d < 65536"
  shows "folds (sumn d) (65535 - unat (icmp_cksum d))"
proof -
  have "(length d + 1) div 2 \<le> 32768" using assms by simp
  then have "sumn d \<le> 65535 * 32768" using sumn_le [of d] by linarith
  then have s: "unat (sum16 d 0) = sumn d" by (subst unat_sum16) simp_all
  let ?s = "sum16 d 0"
  let ?f = "ucast ((drop_bit 16 ?s + (?s AND 0xFFFF)) + drop_bit 16 (drop_bit 16 ?s + (?s AND 0xFFFF))) :: u16"
  have "unat (icmp_cksum d) = 65535 - unat ?f" unfolding icmp_cksum_def Let_def by (rule unat_not16)
  moreover have "unat ?f \<le> 65535" using unat_lt [of ?f] by simp
  ultimately have "65535 - unat (icmp_cksum d) = unat ?f" by simp
  then show ?thesis using folds_two [of ?s] s by simp
qed

lemma icmp_cksum_verifies:
  assumes "length r < 65532" "c = icmp_cksum ([a, b] @ store16 0 @ r)"
  shows "icmp_cksum ([a, b] @ store16 c @ r) = 0"
proof -
  let ?d = "[a, b] @ store16 0 @ r" and ?e = "[a, b] @ store16 c @ r"
  have e2: "even (length (store16 x))" for x by (simp add: store16_def)
  have se: "sumn ([a, b] @ store16 x @ r) = sumn [a, b] + unat x + sumn r" for x
    by (simp add: sumn_append e2 sumn_store16)
  have "unat c \<le> 65535" using unat_lt [of c] by simp
  then have sum: "sumn ?e = sumn ?d + (65535 - (65535 - unat c))" by (simp only: se) simp
  have "folds (sumn ?d) (65535 - unat c)" unfolding assms(2) using assms(1) by (intro icmp_cksum_nat) (simp add: store16_def)
  moreover have "folds (sumn ?d + (65535 - (65535 - unat c))) (65535 - unat (icmp_cksum ?e))"
    using icmp_cksum_nat [of ?e] assms(1) sum by (simp add: store16_def)
  ultimately have "65535 - unat (icmp_cksum ?e) = 65535" by (rule folds_complement)
  then have "unat (icmp_cksum ?e) = 0" by simp
  then show ?thesis by (simp add: unat_eq_0)
qed

section \<open>Echo\<close>

text \<open>
  C35. An echo request of any length that reaches a host: when no raw socket of this host takes it first, it is answered; the answer goes to the sender,
  with the identifier, the sequence number and the data of the request and a checksum that verifies, and it reaches the sender, where a raw socket
  gets it or it is dropped without sending anything back. A raw socket that takes the request keeps it from being answered.
\<close>

theorem ping_answered:
  assumes "8 \<le> length m" "length m \<le> 65515" "m ! 0 = ICMP_REQUEST" "nif_ip (an_nif s n) = b"
  shows "\<exists>hdr rep hdr'. net_rx_ip raw b (net_tx_ip old a m b IP_P_ICMP) = Inr (if raw hdr m > 0 then Ip_raw else Ip_icmp hdr m) \<and>
    net_rx_icmp n hdr m s = Inr (net_tx_arpip n (net_tx_ip hdr b rep a IP_P_ICMP) a s) \<and>
    length rep = length m \<and> drop 4 rep = drop 4 m \<and> rep ! 0 = ICMP_REPLY \<and> icmp_cksum rep = 0 \<and>
    net_rx_ip raw' a (net_tx_ip hdr b rep a IP_P_ICMP) = Inr (if raw' hdr' rep > 0 then Ip_raw else Ip_icmp hdr' rep) \<and> net_rx_icmp k hdr' rep t = Inr t"
proof -
  let ?h = "sent_header old a m b IP_P_ICMP"
  define rep where "rep = icmp_reply m (icmp_cksum (icmp_reply m 0))"
  have l: "length rep = length m" using assms(1) by (simp add: rep_def icmp_reply_def)
  have up: "ip_up IP_P_ICMP hdr pay = Ip_icmp hdr pay" for hdr pay by (simp add: ip_up_def IP_P_ICMP_def)
  have "net_rx_ip raw b (net_tx_ip old a m b IP_P_ICMP) = Inr (if raw ?h m > 0 then Ip_raw else Ip_icmp ?h m)"
    using net_rx_sent_raw [OF assms(2) refl, of raw] up by simp
  moreover have "net_rx_icmp n ?h m s = Inr (net_tx_arpip n (net_tx_ip ?h b rep a IP_P_ICMP) a s)"
    using assms(1,3,4) by (simp add: net_rx_icmp_def ICMP_REPLY_def ICMP_REQUEST_def net_rp_icmp_def ip_tx_def sent_header_fields rep_def)
  moreover have "drop 4 rep = drop 4 m" "rep ! 0 = ICMP_REPLY" by (simp_all add: rep_def icmp_reply_def store16_def)
  moreover have "icmp_cksum rep = 0"
    unfolding rep_def icmp_reply_def using assms(2) by (intro icmp_cksum_verifies) simp_all
  moreover have "\<exists>hdr'. net_rx_ip raw' a (net_tx_ip ?h b rep a IP_P_ICMP) = Inr (if raw' hdr' rep > 0 then Ip_raw else Ip_icmp hdr' rep)"
    using net_rx_sent_raw [of rep, OF _ refl, of raw' a ?h b IP_P_ICMP] assms(2) up l by auto
  moreover have "net_rx_icmp k hdr' rep t = Inr t" for hdr'
    using assms(1) l \<open>rep ! 0 = ICMP_REPLY\<close> by (simp add: net_rx_icmp_def)
  ultimately show ?thesis using l by blast
qed

theorem ping_answered_witness:
  "\<exists>hdr rep hdr'. net_rx_ip (\<lambda>_ _. 0) 0x0300000A (net_tx_ip (replicate 20 0) 0x0200000A [8, 0, 1, 2, 0, 1, 0, 1, 55] 0x0300000A IP_P_ICMP) =
      Inr (Ip_icmp hdr [8, 0, 1, 2, 0, 1, 0, 1, 55]) \<and>
    net_rx_icmp 0 hdr [8, 0, 1, 2, 0, 1, 0, 1, 55] (demo_host 0x0300000A [2, 2, 2, 2, 2, 2]) =
      Inr (net_tx_arpip 0 (net_tx_ip hdr 0x0300000A rep 0x0200000A IP_P_ICMP) 0x0200000A (demo_host 0x0300000A [2, 2, 2, 2, 2, 2])) \<and>
    drop 4 rep = [0, 1, 0, 1, 55] \<and> icmp_cksum rep = 0"
  using ping_answered [of "[8, 0, 1, 2, 0, 1, 0, 1, 55]" "demo_host 0x0300000A [2, 2, 2, 2, 2, 2]" 0 "0x0300000A" "\<lambda>_ _. 0" "replicate 20 0" "0x0200000A" "\<lambda>_ _. 1"]
  by (fastforce simp: demo_host_def ICMP_REQUEST_def)

end
