(* ===== verification/Dgram.thy ===== *)
theory Dgram
  imports Icmp Tcp
begin

unbundle bit_operations_syntax

text \<open>
  The sockets without a connection: kernel/net/socket/udp.c with kernel/net/udp.c, and kernel/net/socket/raw.c, and
  the way of a received frame to them. A socket is named by its index in the order in which the sockets were made, which is
  the order of the list \<open>intype\<close>: no operation takes one out. A queue \<open>rx_que\<close> holds packets from the IP header on, from the head
  of the list. \<open>in_old\<close> is what the bytes in front of the payload of a fresh buffer hold. Who is unblocked is appended to \<open>in_woken\<close>.
\<close>

section \<open>State\<close>

record udp =
  u_laddr :: u32
  u_raddr :: u32
  u_lport :: u16
  u_rport :: u16
  u_que :: "bytes list"
  u_waiter :: int

record raw =
  rw_proto :: u32
  rw_hdrincl :: bool
  rw_laddr :: u32
  rw_raddr :: u32
  rw_waiter :: int
  rw_que :: "bytes list"

record inet =
  in_link :: arpnet
  in_udps :: "udp list"
  in_ports :: bitmap
  in_raws :: "raw list"
  in_woken :: "int list"
  in_old :: bytes

text \<open>
  A call that can wait: it returns, it waits for a wake-up, or it fails. The argument \<open>w\<close> of such a call is what the rest of the
  system does to the state until the task is resumed, \<open>None\<close> when it never is.
\<close>

datatype 'a scall = Got inet 'a | Waits inet | Failed fault

definition EISCONN :: int where "EISCONN = 106"
definition IP_P_UDP :: u8 where "IP_P_UDP = 17"
definition IPPROTO_RAW :: nat where "IPPROTO_RAW = 255"

text \<open>The room of a fresh buffer behind \<open>MBUF_DEFROOM\<close>.\<close>

definition mbuf_room :: nat where "mbuf_room = 2048 - 128"

definition in_ip :: "inet \<Rightarrow> u32" where
  "in_ip s = nif_ip (an_nif (in_link s) 0)"

definition upd_udp :: "nat \<Rightarrow> (udp \<Rightarrow> udp) \<Rightarrow> inet \<Rightarrow> inet" where
  "upd_udp i f s = s\<lparr>in_udps := (in_udps s)[i := f (in_udps s ! i)]\<rparr>"

definition upd_raw :: "nat \<Rightarrow> (raw \<Rightarrow> raw) \<Rightarrow> inet \<Rightarrow> inet" where
  "upd_raw i f s = s\<lparr>in_raws := (in_raws s)[i := f (in_raws s ! i)]\<rparr>"

definition wake_pid :: "int \<Rightarrow> inet \<Rightarrow> inet" where
  "wake_pid pid s = (if pid \<ge> 0 then s\<lparr>in_woken := in_woken s @ [pid]\<rparr> else s)"

text \<open>The bytes of a \<open>sockaddr_in_t\<close>; the last eight are never set.\<close>

definition sockaddr_in :: "u16 \<Rightarrow> u32 \<Rightarrow> bytes \<Rightarrow> bytes" where
  "sockaddr_in port a zero = store16 2 @ store16 port @ store32 a @ take 8 zero"

section \<open>UDP\<close>

definition udp_header :: "u16 \<Rightarrow> u16 \<Rightarrow> nat \<Rightarrow> bytes" where
  "udp_header sport dport len = store16 (htons sport) @ store16 (htons dport) @ store16 (htons (of_nat len)) @ store16 0"

definition net_tx_udp :: "nat \<Rightarrow> bytes \<Rightarrow> u32 \<Rightarrow> u16 \<Rightarrow> u16 \<Rightarrow> inet \<Rightarrow> inet" where
  "net_tx_udp n m dip sport dport s =
     s\<lparr>in_link := ip_tx n (in_old s) (udp_header sport dport (length m + 8) @ m) dip IP_P_UDP (in_link s)\<rparr>"

definition udp_ck_lport :: "nat \<Rightarrow> inet \<Rightarrow> inet result" where
  "udp_ck_lport i s =
     (if u_lport (in_udps s ! i) \<noteq> 0 then Inr s
      else bind_result (bitmap_find (in_ports s))
        (\<lambda>(port, b). if (ucast port :: u32) = - 1 then Inl Panic
                      else Inr ((upd_udp i (\<lambda>u. u\<lparr>u_lport := ucast port\<rparr>) s)\<lparr>in_ports := b\<rparr>)))"

definition udp_socket :: "inet \<Rightarrow> nat \<times> inet" where
  "udp_socket s = (length (in_udps s),
     s\<lparr>in_udps := in_udps s @ [\<lparr>u_laddr = 0, u_raddr = 0, u_lport = 0, u_rport = 0, u_que = [], u_waiter = - 1\<rparr>]\<rparr>)"

definition udp_bind :: "nat \<Rightarrow> (u16 \<times> u32) option \<Rightarrow> nat \<Rightarrow> inet \<Rightarrow> (int \<times> inet) result" where
  "udp_bind i addr len s =
     (case addr of
        None \<Rightarrow> Inr (- EDESTADDRREQ, s)
      | Some (nport, a) \<Rightarrow>
          if len \<le> 16 then Inr (- EINVAL, s)
          else (let port = ntohs nport;
                    fin = (\<lambda>s. Inr (0, upd_udp i (\<lambda>u. u\<lparr>u_laddr := (if ip_addr_isany a then in_ip s else a)\<rparr>) s))
                in if port \<noteq> 0 then
                     bind_result (bitmap_test (in_ports s) (ucast port)) (\<lambda>used. if used then Inr (- EADDRINUSE, s) else fin s)
                   else bind_result (udp_ck_lport i s) fin))"

definition udp_connect :: "nat \<Rightarrow> u16 \<times> u32 \<Rightarrow> inet \<Rightarrow> inet" where
  "udp_connect i addr s = upd_udp i (\<lambda>u. u\<lparr>u_rport := ntohs (fst addr), u_raddr := snd addr\<rparr>) s"

text \<open>The names: the new length and the bytes copied to the caller, who has room for \<open>len\<close>.\<close>

definition udp_getsockname :: "nat \<Rightarrow> nat \<Rightarrow> bytes \<Rightarrow> inet \<Rightarrow> nat \<times> bytes" where
  "udp_getsockname i len zero s =
     (min len 16, take (min len 16) (sockaddr_in (htons (u_lport (in_udps s ! i))) (u_laddr (in_udps s ! i)) zero))"

definition udp_getpeername :: "nat \<Rightarrow> nat \<Rightarrow> bytes \<Rightarrow> inet \<Rightarrow> nat \<times> bytes" where
  "udp_getpeername i len zero s =
     (min len 16, take (min len 16) (sockaddr_in (htons (u_rport (in_udps s ! i))) (u_raddr (in_udps s ! i)) zero))"

definition udp_sendmsg :: "nat \<Rightarrow> bytes \<Rightarrow> (u16 \<times> u32) option \<Rightarrow> inet \<Rightarrow> (int \<times> inet) result" where
  "udp_sendmsg i data name s =
     (if length data > mbuf_room then Inl BadAccess
      else let u = in_udps s ! i; rdef = (htons (u_rport u), u_raddr u)
           in if \<not> ip_addr_isany (u_raddr u) \<and> name \<noteq> None then Inr (- EISCONN, s)
              else case (if \<not> ip_addr_isany (u_raddr u) then Some rdef else name) of
                     None \<Rightarrow> Inr (- EDESTADDRREQ, s)
                   | Some (nport, a) \<Rightarrow>
                       if nport = 0 then Inr (- EINVAL, s)
                       else if ip_addr_isany a then Inr (- EINVAL, s)
                       else bind_result (udp_ck_lport i s)
                         (\<lambda>s1. Inr (int (length data), net_tx_udp 0 data a (u_lport (in_udps s1 ! i)) (ntohs nport) s1)))"

text \<open>
  The end of \<open>udp_recvmsg\<close>: the packet at the back of the queue, as the port and the address of the sender and the data. On an
  empty queue \<open>list_popback\<close> returns the head of the list, which is not in a packet.
\<close>

definition udp_take :: "nat \<Rightarrow> nat \<Rightarrow> inet \<Rightarrow> ((u16 \<times> u32) \<times> bytes) scall" where
  "udp_take i len s =
     (let q = u_que (in_udps s ! i)
      in if q = [] \<or> length (last q) < 28 then Failed BadAccess
         else Got (upd_udp i (\<lambda>u. u\<lparr>u_que := butlast q\<rparr>) s)
                ((load16 (last q ! 20) (last q ! 21), ip_sip (last q)), take len (drop 28 (last q))))"

definition udp_recvmsg :: "int \<Rightarrow> nat \<Rightarrow> nat \<Rightarrow> (inet \<Rightarrow> inet) option \<Rightarrow> inet \<Rightarrow> ((u16 \<times> u32) \<times> bytes) scall" where
  "udp_recvmsg pid i len w s =
     (case udp_ck_lport i s of
        Inl e \<Rightarrow> Failed e
      | Inr s1 \<Rightarrow>
          if u_que (in_udps s1 ! i) \<noteq> [] then udp_take i len s1
          else if u_waiter (in_udps s1 ! i) \<noteq> - 1 then Failed AssertFail
          else let s2 = upd_udp i (\<lambda>u. u\<lparr>u_waiter := pid\<rparr>) s1
               in case w of None \<Rightarrow> Waits s2
                          | Some f \<Rightarrow> udp_take i len (upd_udp i (\<lambda>u. u\<lparr>u_waiter := - 1\<rparr>) (f s2)))"

definition udp_match :: "u32 \<Rightarrow> u32 \<Rightarrow> u16 \<Rightarrow> u16 \<Rightarrow> udp \<Rightarrow> bool" where
  "udp_match sip dip sport dport u \<longleftrightarrow>
     (ip_addr_isany (u_raddr u) \<or> u_rport u = sport \<and> u_lport u = dport) \<and>
     (ip_addr_isany (u_raddr u) \<or> ip_addr_cmp (u_raddr u) sip) \<and>
     (ip_addr_isany (u_laddr u) \<or> ip_addr_cmp (u_laddr u) dip)"

definition sock_rx_udp :: "bytes \<Rightarrow> bytes \<Rightarrow> inet \<Rightarrow> (int \<times> inet) result" where
  "sock_rx_udp hdr m s =
     (if length m < 8 then Inl BadAccess
      else let sport = ntohs (load16 (m ! 0) (m ! 1)); dport = ntohs (load16 (m ! 2) (m ! 3))
           in case List.find (\<lambda>i. udp_match (ip_sip hdr) (ip_dip hdr) sport dport (in_udps s ! i)) [0..<length (in_udps s)] of
                None \<Rightarrow> Inr (0, s)
              | Some i \<Rightarrow>
                  let u = in_udps s ! i;
                      s1 = wake_pid (u_waiter u) (upd_udp i (\<lambda>u. u\<lparr>u_que := u_que u @ [hdr @ m]\<rparr>) s)
                  in Inr (1, if u_waiter u \<ge> 0 then upd_udp i (\<lambda>u. u\<lparr>u_waiter := - 1\<rparr>) s1 else s1))"

text \<open>\<open>sock_udp_init\<close>: \<open>buf\<close> is the buffer \<open>bitmap_init\<close> allocates; its size is taken as the number of bits.\<close>

definition sock_udp_init :: "bytes \<Rightarrow> inet \<Rightarrow> inet result" where
  "sock_udp_init buf s = bind_result (bitmap_set \<lparr>bmap = buf, bsiz = 8192\<rparr> 0) (\<lambda>b. Inr (s\<lparr>in_ports := b\<rparr>))"

section \<open>Raw sockets\<close>

definition hdrincl :: "raw \<Rightarrow> bool" where
  "hdrincl r \<longleftrightarrow> rw_hdrincl r \<or> rw_proto r = of_nat IPPROTO_RAW"

definition raw_socket :: "u32 \<Rightarrow> inet \<Rightarrow> nat \<times> inet" where
  "raw_socket proto s = (length (in_raws s),
     s\<lparr>in_raws := in_raws s @ [\<lparr>rw_proto = proto, rw_hdrincl = False, rw_laddr = 0, rw_raddr = 0, rw_waiter = - 1, rw_que = []\<rparr>]\<rparr>)"

definition raw_bind :: "nat \<Rightarrow> (u16 \<times> u32) option \<Rightarrow> inet \<Rightarrow> int \<times> inet" where
  "raw_bind i addr s =
     (case addr of
        None \<Rightarrow> (- EDESTADDRREQ, s)
      | Some (_, a) \<Rightarrow> (0, upd_raw i (\<lambda>r. r\<lparr>rw_laddr := (if ip_addr_isany a then in_ip s else a)\<rparr>) s))"

definition raw_connect :: "nat \<Rightarrow> u16 \<times> u32 \<Rightarrow> inet \<Rightarrow> inet" where
  "raw_connect i addr s = upd_raw i (\<lambda>r. r\<lparr>rw_raddr := snd addr\<rparr>) s"

definition raw_getsockname :: "nat \<Rightarrow> nat \<Rightarrow> bytes \<Rightarrow> inet \<Rightarrow> nat \<times> bytes" where
  "raw_getsockname i len zero s = (min len 16, take (min len 16) (sockaddr_in 0 (rw_laddr (in_raws s ! i)) zero))"

definition raw_getpeername :: "nat \<Rightarrow> nat \<Rightarrow> bytes \<Rightarrow> inet \<Rightarrow> nat \<times> bytes" where
  "raw_getpeername i len zero s = (min len 16, take (min len 16) (sockaddr_in 0 (rw_raddr (in_raws s ! i)) zero))"

definition raw_sendmsg :: "nat \<Rightarrow> bytes \<Rightarrow> (u16 \<times> u32) option \<Rightarrow> inet \<Rightarrow> (int \<times> inet) result" where
  "raw_sendmsg i data name s =
     (if length data > mbuf_room then Inl BadAccess
      else if hdrincl (in_raws s ! i) then Inl Panic
      else case name of
             None \<Rightarrow> Inl BadAccess
           | Some (_, a) \<Rightarrow>
               Inr (int (length data), s\<lparr>in_link := ip_tx 0 (in_old s) data a (ucast (rw_proto (in_raws s ! i))) (in_link s)\<rparr>))"

definition raw_take :: "nat \<Rightarrow> nat \<Rightarrow> inet \<Rightarrow> bytes scall" where
  "raw_take i len s =
     (let q = rw_que (in_raws s ! i)
      in if q = [] then Failed BadAccess else Got (upd_raw i (\<lambda>r. r\<lparr>rw_que := butlast q\<rparr>) s) (take len (last q)))"

definition raw_recvmsg :: "int \<Rightarrow> nat \<Rightarrow> nat \<Rightarrow> (inet \<Rightarrow> inet) option \<Rightarrow> inet \<Rightarrow> bytes scall" where
  "raw_recvmsg pid i len w s =
     (if rw_que (in_raws s ! i) \<noteq> [] then raw_take i len s
      else if rw_waiter (in_raws s ! i) \<noteq> - 1 then Failed AssertFail
      else let s1 = upd_raw i (\<lambda>r. r\<lparr>rw_waiter := pid\<rparr>) s
           in case w of None \<Rightarrow> Waits s1
                      | Some f \<Rightarrow> raw_take i len (upd_raw i (\<lambda>r. r\<lparr>rw_waiter := - 1\<rparr>) (f s1)))"

definition raw_match :: "bytes \<Rightarrow> raw \<Rightarrow> bool" where
  "raw_match hdr r \<longleftrightarrow>
     ((ucast (rw_proto r) :: u8) = of_nat IPPROTO_RAW \<or> ucast (rw_proto r) = hdr ! 9) \<and>
     (ip_addr_isany (rw_raddr r) \<or> ip_addr_cmp (rw_raddr r) (ip_sip hdr)) \<and>
     (ip_addr_isany (rw_laddr r) \<or> ip_addr_cmp (rw_laddr r) (ip_dip hdr))"

definition sock_rx_raw :: "bytes \<Rightarrow> bytes \<Rightarrow> inet \<Rightarrow> int \<times> inet" where
  "sock_rx_raw hdr m s =
     (case List.find (\<lambda>i. raw_match hdr (in_raws s ! i)) [0..<length (in_raws s)] of
        None \<Rightarrow> (0, s)
      | Some i \<Rightarrow>
          let r = in_raws s ! i;
              s1 = wake_pid (rw_waiter r) (upd_raw i (\<lambda>r. r\<lparr>rw_que := rw_que r @ [hdr @ m]\<rparr>) s)
          in (1, if rw_waiter r \<ge> 0 then upd_raw i (\<lambda>r. r\<lparr>rw_waiter := - 1\<rparr>) s1 else s1))"

section \<open>Received frames\<close>

text \<open>
  \<open>nif_eth_rx\<close> and \<open>net_rx_ip\<close> with the calls they make. A segment of TCP goes to \<open>sock_rx_tcp\<close>, whose state is not part of this
  one: it is left alone here.
\<close>

definition inet_rx_ip :: "nat \<Rightarrow> bytes \<Rightarrow> inet \<Rightarrow> inet result" where
  "inet_rx_ip n m s =
     bind_result (net_rx_ip (\<lambda>hdr pay. fst (sock_rx_raw hdr pay s)) (nif_ip (an_nif (in_link s) n)) m)
       (\<lambda>r. case r of
          Ip_icmp hdr pay \<Rightarrow> bind_result (net_rx_icmp n hdr pay (in_link s)) (\<lambda>l. Inr (s\<lparr>in_link := l\<rparr>))
        | Ip_udp hdr pay \<Rightarrow> bind_result (sock_rx_udp hdr pay s) (\<lambda>r. Inr (snd r))
        | Ip_raw \<Rightarrow> Inr (snd (sock_rx_raw (take 20 m) (take (unat (ntohs (load16 (m ! 2) (m ! 3))) - 20) (drop 20 m)) s))
        | _ \<Rightarrow> Inr s)"

definition inet_rx :: "nat \<Rightarrow> bytes \<Rightarrow> inet \<Rightarrow> inet result" where
  "inet_rx n m s =
     bind_result (nif_eth_rx n m (in_link s))
       (\<lambda>r. case r of Eth_arp l \<Rightarrow> Inr (s\<lparr>in_link := l\<rparr>) | Eth_ip body \<Rightarrow> inet_rx_ip n body s | Eth_drop \<Rightarrow> Inr s)"

section \<open>Datagrams\<close>

lemma find_index: "j < n \<Longrightarrow> P j \<Longrightarrow> \<forall>k<j. \<not> P k \<Longrightarrow> List.find P [0..<n] = Some j"
  by (subst find_Some_iff) (auto intro!: exI [of _ j])

text \<open>A packet at the back of the queue of a socket, whose reader has been woken.\<close>

definition udp_put :: "nat \<Rightarrow> bytes \<Rightarrow> inet \<Rightarrow> inet" where
  "udp_put j p s = s\<lparr>in_udps := (in_udps s)[j := (in_udps s ! j)\<lparr>u_que := u_que (in_udps s ! j) @ [p],
       u_waiter := (if u_waiter (in_udps s ! j) \<ge> 0 then - 1 else u_waiter (in_udps s ! j))\<rparr>],
     in_woken := in_woken s @ (if u_waiter (in_udps s ! j) \<ge> 0 then [u_waiter (in_udps s ! j)] else [])\<rparr>"

definition udp_first :: "u32 \<Rightarrow> u32 \<Rightarrow> u16 \<Rightarrow> u16 \<Rightarrow> nat \<Rightarrow> inet \<Rightarrow> bool" where
  "udp_first sip dip sport dport j s \<longleftrightarrow> j < length (in_udps s) \<and> udp_match sip dip sport dport (in_udps s ! j) \<and>
     (\<forall>k<j. \<not> udp_match sip dip sport dport (in_udps s ! k))"

lemma udp_header_simps:
  "length (udp_header sp dp l) = 8" "ntohs (load16 ((udp_header sp dp l @ d) ! 0) ((udp_header sp dp l @ d) ! 1)) = sp"
  "ntohs (load16 ((udp_header sp dp l @ d) ! 2) ((udp_header sp dp l @ d) ! 3)) = dp"
  "load16 ((udp_header sp dp l @ d) ! 0) ((udp_header sp dp l @ d) ! Suc 0) = htons sp"
  by (simp_all add: udp_header_def store16_def load_store16 swap16)

lemma sock_rx_udp_first:
  assumes "udp_first (ip_sip hdr) (ip_dip hdr) sp dp j s"
  shows "sock_rx_udp hdr (udp_header sp dp l @ d) s = Inr (1, udp_put j (hdr @ udp_header sp dp l @ d) s)"
proof -
  have "List.find (\<lambda>i. udp_match (ip_sip hdr) (ip_dip hdr) sp dp (in_udps s ! i)) [0..<length (in_udps s)] = Some j"
    using assms by (intro find_index) (simp_all add: udp_first_def)
  then show ?thesis using assms
    by (simp add: sock_rx_udp_def Let_def udp_header_simps swap16 wake_pid_def upd_udp_def udp_put_def udp_first_def)
qed

text \<open>A datagram that \<open>net_tx_udp\<close> built, at the host with its address.\<close>

definition udp_packet :: "bytes \<Rightarrow> u32 \<Rightarrow> u32 \<Rightarrow> u16 \<Rightarrow> u16 \<Rightarrow> bytes \<Rightarrow> bytes" where
  "udp_packet old sip dip sport dport data = net_tx_ip old sip (udp_header sport dport (length data + 8) @ data) dip IP_P_UDP"

lemma net_tx_udp_eq:
  "net_tx_udp n data dip sport dport s = s\<lparr>in_link := net_tx_arpip n (udp_packet (in_old s) (nif_ip (an_nif (in_link s) n)) dip sport dport data) dip (in_link s)\<rparr>"
  by (simp add: net_tx_udp_def ip_tx_def udp_packet_def)

lemma inet_rx_udp:
  assumes "length data \<le> 65507" "in_ip s = dip" "in_raws s = []" "udp_first sip dip sp dp j s"
  shows "inet_rx_ip 0 (udp_packet old sip dip sp dp data) s = Inr (udp_put j (udp_packet old sip dip sp dp data) s)"
proof -
  let ?m = "udp_header sp dp (length data + 8) @ data" and ?h = "sent_header old sip (udp_header sp dp (length data + 8) @ data) dip IP_P_UDP"
  have raw: "sock_rx_raw hdr pay s = (0, s)" for hdr pay using assms(3) by (simp add: sock_rx_raw_def)
  have "net_rx_ip (\<lambda>hdr pay. fst (sock_rx_raw hdr pay s)) dip (udp_packet old sip dip sp dp data) = Inr (Ip_udp ?h ?m)"
    unfolding udp_packet_def using assms(1) by (subst net_rx_sent) (simp_all add: raw udp_header_simps ip_up_def IP_P_UDP_def)
  moreover have "sock_rx_udp ?h ?m s = Inr (1, udp_put j (?h @ ?m) s)"
    using assms(4) by (intro sock_rx_udp_first) (simp add: sent_header_fields)
  ultimately show ?thesis using assms(2) by (simp add: inet_rx_ip_def in_ip_def udp_packet_def net_tx_ip_split)
qed

lemma udp_packet_fields:
  "length (udp_packet old sip dip sp dp data) = 28 + length data" "ip_sip (udp_packet old sip dip sp dp data) = sip"
  "load16 (udp_packet old sip dip sp dp data ! 20) (udp_packet old sip dip sp dp data ! 21) = htons sp"
  "drop 28 (udp_packet old sip dip sp dp data) = data"
proof -
  let ?m = "udp_header sp dp (length data + 8) @ data" and ?h = "sent_header old sip (udp_header sp dp (length data + 8) @ data) dip IP_P_UDP"
  have h: "length ?h = 20" "ip_sip ?h = sip" by (simp_all add: sent_header_fields)
  have p: "udp_packet old sip dip sp dp data = ?h @ ?m" by (simp add: udp_packet_def net_tx_ip_split)
  show "length (udp_packet old sip dip sp dp data) = 28 + length data" using h by (simp add: p udp_header_simps)
  show "ip_sip (udp_packet old sip dip sp dp data) = sip" using h by (simp add: p ip_sip_def nth_append)
  show "load16 (udp_packet old sip dip sp dp data ! 20) (udp_packet old sip dip sp dp data ! 21) = htons sp"
    unfolding p using h(1) by (simp add: nth_append udp_header_def store16_def load_store16)
  show "drop 28 (udp_packet old sip dip sp dp data) = data" using h by (simp add: p udp_header_simps)
qed

lemma udp_recv_put:
  assumes "j < length (in_udps s)" "u_lport (in_udps s ! j) \<noteq> 0"
  shows "\<exists>s'. udp_recvmsg pid j len w (udp_put j (udp_packet old sip dip sp dp data) s) = Got s' ((htons sp, sip), take len data) \<and>
    s' = (udp_put j (udp_packet old sip dip sp dp data) s)\<lparr>in_udps := (in_udps s)[j := (in_udps s ! j)\<lparr>
       u_waiter := (if u_waiter (in_udps s ! j) \<ge> 0 then - 1 else u_waiter (in_udps s ! j))\<rparr>]\<rparr>"
  using assms by (simp add: udp_recvmsg_def udp_ck_lport_def udp_put_def udp_take_def upd_udp_def udp_packet_fields)

section \<open>Two hosts\<close>

text \<open>
  C33. A datagram between two hosts, of a size that fits a packet buffer and with no raw socket open at the receiver: the frame that \<open>udp_sendmsg\<close> puts on the wire of the sender, which knows the hardware address of the
  receiver, is taken by the receiver, and the next \<open>udp_recvmsg\<close> of the first socket that matches returns the data and the port and
  address of the sender.
\<close>

theorem udp_delivers:
  assumes A: "u_raddr (in_udps sA ! i) = 0" "u_lport (in_udps sA ! i) = sp" "sp \<noteq> 0" "length data \<le> mbuf_room"
      "in_ip sA = a" "nif_mac (an_nif (in_link sA) 0) = ma" "length ma = 6"
      "arp_get 0 b (in_link sA) = Some e" "ae_init e" "\<not> ae_expires e < an_ktick (in_link sA)" "ae_hw e = mb" "length mb = 6"
    and B: "in_ip sB = b" "b \<noteq> 0" "np \<noteq> 0" "in_raws sB = []" "udp_first a b sp (ntohs np) j sB" "u_lport (in_udps sB ! j) \<noteq> 0"
  shows "\<exists>sA' frame sB' sB''. udp_sendmsg i data (Some (np, b)) sA = Inr (int (length data), sA') \<and>
    an_wire (in_link sA') = (0, frame) # an_wire (in_link sA) \<and> take 6 frame = mb \<and>
    inet_rx 0 frame sB = Inr sB' \<and> udp_recvmsg pid j len w sB' = Got sB'' ((htons sp, a), take len data)"
proof -
  let ?p = "udp_packet (in_old sA) a b sp (ntohs np) data"
  define sA' where "sA' = net_tx_udp 0 data b sp (ntohs np) sA"
  define frame where "frame = mb @ ma @ store16 (htons ETH_IP) @ ?p"
  have send: "udp_sendmsg i data (Some (np, b)) sA = Inr (int (length data), sA')"
    using A(1-4) B(2,3) by (simp add: udp_sendmsg_def Let_def ip_addr_isany_def udp_ck_lport_def sA'_def)
  have "in_link sA' = nif_eth_tx 0 ?p mb ETH_IP (in_link sA)"
    using A(5,8-11) by (simp add: sA'_def net_tx_udp_eq in_ip_def net_tx_arpip_def Let_def)
  then have wire: "an_wire (in_link sA') = (0, frame) # an_wire (in_link sA)" using A(6) by (simp add: nif_eth_tx_def frame_def)
  have f: "length frame = 42 + length data" "drop 14 frame = ?p" "load16 (frame ! 12) (frame ! 13) = htons ETH_IP" "take 6 frame = mb"
    using A(7,12) by (simp_all add: frame_def udp_packet_fields nth_append store16_def load_store16)
  have "nif_eth_rx 0 frame (in_link sB) = Inr (Eth_ip ?p)" using f by (simp add: nif_eth_rx_def Let_def swap16 ETH_IP_def ETH_ARP_def)
  moreover have "inet_rx_ip 0 ?p sB = Inr (udp_put j ?p sB)" using A(4) B by (intro inet_rx_udp) (simp_all add: mbuf_room_def)
  ultimately have "inet_rx 0 frame sB = Inr (udp_put j ?p sB)" by (simp add: inet_rx_def)
  then show ?thesis using send wire f(4) udp_recv_put [of j sB] B(5,6) by (fastforce simp: udp_first_def)
qed

text \<open>
  Two datagrams that wait at the same socket are received in the reverse of the order in which they arrived: they are put at the back
  of the queue and taken from the back.
\<close>

theorem udp_reverses:
  assumes "in_ip s = b" "in_raws s = []" "length x \<le> 65507" "length y \<le> 65507" "u_lport (in_udps s ! j) \<noteq> 0"
    and "udp_first a b sp dp j s" "udp_first a' b sp' dp' j s"
  shows "\<exists>p q t u. inet_rx_ip 0 (udp_packet old a b sp dp x) s = Inr p \<and> inet_rx_ip 0 (udp_packet old' a' b sp' dp' y) p = Inr q \<and>
    udp_recvmsg pid j len w q = Got t ((htons sp', a'), take len y) \<and> udp_recvmsg pid j len w t = Got u ((htons sp, a), take len x)"
proof -
  define p where "p = udp_put j (udp_packet old a b sp dp x) s"
  define q where "q = udp_put j (udp_packet old' a' b sp' dp' y) p"
  have j: "j < length (in_udps s)" using assms(6) by (simp add: udp_first_def)
  have same: "udp_match c d m n (in_udps p ! k) = udp_match c d m n (in_udps s ! k)" for c d m n k
    using j by (cases "k = j") (simp_all add: p_def udp_put_def udp_match_def)
  have f: "udp_first a' b sp' dp' j p" using assms(7) same by (simp add: udp_first_def) (simp add: p_def udp_put_def)
  have rp: "inet_rx_ip 0 (udp_packet old a b sp dp x) s = Inr p" unfolding p_def by (intro inet_rx_udp assms)
  have "in_ip p = b" "in_raws p = []" using assms(1,2) by (simp_all add: p_def udp_put_def in_ip_def)
  then have rq: "inet_rx_ip 0 (udp_packet old' a' b sp' dp' y) p = Inr q" unfolding q_def by (intro inet_rx_udp assms(4) f)
  have pj: "j < length (in_udps p)" "u_lport (in_udps p ! j) \<noteq> 0" using j assms(5) by (simp_all add: p_def udp_put_def)
  obtain t where t: "udp_recvmsg pid j len w q = Got t ((htons sp', a'), take len y)"
      "t = q\<lparr>in_udps := (in_udps p)[j := (in_udps p ! j)\<lparr>u_waiter := (if u_waiter (in_udps p ! j) \<ge> 0 then - 1 else u_waiter (in_udps p ! j))\<rparr>]\<rparr>"
    using udp_recv_put [OF pj] unfolding q_def by blast
  have "u_que (in_udps t ! j) = u_que (in_udps s ! j) @ [udp_packet old a b sp dp x]" "u_lport (in_udps t ! j) \<noteq> 0"
    using t(2) j pj(2) by (simp_all add: p_def udp_put_def)
  then have "\<exists>u. udp_recvmsg pid j len w t = Got u ((htons sp, a), take len x)"
    by (simp add: udp_recvmsg_def udp_ck_lport_def udp_take_def udp_packet_fields)
  then show ?thesis using rp rq t(1) by blast
qed

text \<open>
  A socket bound to a port of its own choice: the port is neither kept nor marked, so another socket can bind it too, and a datagram for any
  port of the host goes to the first of them.
\<close>

theorem udp_bind_forgets:
  assumes "ntohs np \<noteq> 0" "16 < len" "i < length (in_udps s)" "bitmap_test (in_ports s) (ucast (ntohs np)) = Inr False"
    and "u_raddr (in_udps s ! i) = 0" "\<forall>k<i. u_laddr (in_udps s ! k) \<noteq> 0 \<and> u_laddr (in_udps s ! k) \<noteq> in_ip s"
  shows "\<exists>s'. udp_bind i (Some (np, 0)) len s = Inr (0, s') \<and> in_ports s' = in_ports s \<and>
    u_lport (in_udps s' ! i) = u_lport (in_udps s ! i) \<and> udp_first sip (in_ip s) sp dp i s'"
  using assms by (simp add: udp_bind_def Let_def ip_addr_isany_def upd_udp_def in_ip_def udp_first_def udp_match_def ip_addr_cmp_def)

section \<open>Requests that a raw socket takes\<close>

text \<open>
  With a raw socket for ICMP without addresses open, as ping has it, an echo request is put into the queue of a raw socket and nothing is sent.
\<close>

lemma upd_raw_link [simp]: "in_link (upd_raw i f s) = in_link s" "in_link (wake_pid p s) = in_link s"
  by (simp_all add: upd_raw_def wake_pid_def)

theorem ping_swallowed:
  assumes "length m \<le> 65515" "i < length (in_raws s)" "rw_proto (in_raws s ! i) = 1" "rw_raddr (in_raws s ! i) = 0" "rw_laddr (in_raws s ! i) = 0"
  shows "\<exists>s'. inet_rx_ip n (net_tx_ip old a m (nif_ip (an_nif (in_link s) n)) IP_P_ICMP) s = Inr s' \<and> in_link s' = in_link s"
proof -
  let ?h = "sent_header old a m (nif_ip (an_nif (in_link s) n)) IP_P_ICMP"
  have "raw_match ?h (in_raws s ! i)"
    using assms(3-5) by (simp add: raw_match_def ip_addr_isany_def sent_header_fields IP_P_ICMP_def)
  then have "List.find (\<lambda>j. raw_match ?h (in_raws s ! j)) [0..<length (in_raws s)] \<noteq> None"
    using assms(2) by (auto simp: find_None_iff)
  then have "fst (sock_rx_raw ?h m s) > 0" by (auto simp: sock_rx_raw_def Let_def)
  moreover have "in_link (snd (sock_rx_raw hdr pay s)) = in_link s" for hdr pay
    by (auto simp: sock_rx_raw_def Let_def split: option.split)
  ultimately show ?thesis using net_rx_sent_raw [OF assms(1) refl] by (simp add: inet_rx_ip_def)
qed

section \<open>Examples\<close>

definition demo_udp :: "u16 \<Rightarrow> udp" where
  "demo_udp port = \<lparr>u_laddr = 0, u_raddr = 0, u_lport = port, u_rport = 0, u_que = [], u_waiter = - 1\<rparr>"

definition demo_inet :: "u32 \<Rightarrow> bytes \<Rightarrow> arpent list \<Rightarrow> inet" where
  "demo_inet ip mac es = \<lparr>in_link = (demo_host ip mac)\<lparr>an_arps := (\<lambda>_. es)\<rparr>, in_udps = [demo_udp 5],
     in_ports = \<lparr>bmap = [1, 0], bsiz = 16\<rparr>, in_raws = [], in_woken = [], in_old = replicate 20 0\<rparr>"

definition demo_ent :: arpent where
  "demo_ent = \<lparr>ae_init = True, ae_ticks = 0, ae_expires = 9, ae_ip = 0x0300000A, ae_hw = [2, 2, 2, 2, 2, 2], ae_ipque = []\<rparr>"

lemmas demo_inet_defs = demo_inet_def demo_host_def demo_udp_def demo_ent_def in_ip_def udp_first_def udp_match_def ip_addr_isany_def

theorem udp_delivers_witness:
  "\<exists>sA' frame sB' sB''. udp_sendmsg 0 [7, 8] (Some (0x3500, 0x0300000A)) (demo_inet 0x0200000A [1, 1, 1, 1, 1, 1] [demo_ent]) = Inr (2, sA') \<and>
    an_wire (in_link sA') = [(0, frame)] \<and> inet_rx 0 frame (demo_inet 0x0300000A [2, 2, 2, 2, 2, 2] []) = Inr sB' \<and>
    udp_recvmsg 1 0 100 None sB' = Got sB'' ((htons 5, 0x0200000A), [7, 8])"
  using udp_delivers [where sA = "demo_inet 0x0200000A [1, 1, 1, 1, 1, 1] [demo_ent]" and i = 0 and sp = 5 and data = "[7, 8]" and
      a = "0x0200000A" and ma = "[1, 1, 1, 1, 1, 1]" and b = "0x0300000A" and e = demo_ent and mb = "[2, 2, 2, 2, 2, 2]" and
      sB = "demo_inet 0x0300000A [2, 2, 2, 2, 2, 2] []" and np = "0x3500" and j = 0 and pid = 1 and len = 100 and w = None]
  by (fastforce simp: demo_inet_defs mbuf_room_def arp_get_def ip_addr_cmp_def)

theorem udp_reverses_witness:
  "\<exists>p q t u. inet_rx_ip 0 (udp_packet [] 4 0x0300000A 1 5 [7]) (demo_inet 0x0300000A [2, 2, 2, 2, 2, 2] []) = Inr p \<and>
    inet_rx_ip 0 (udp_packet [] 4 0x0300000A 1 5 [8]) p = Inr q \<and>
    udp_recvmsg 1 0 100 None q = Got t ((htons 1, 4), [8]) \<and> udp_recvmsg 1 0 100 None t = Got u ((htons 1, 4), [7])"
  using udp_reverses [where s = "demo_inet 0x0300000A [2, 2, 2, 2, 2, 2] []" and b = "0x0300000A" and x = "[7]" and y = "[8]" and j = 0 and
      a = 4 and sp = 1 and dp = 5 and a' = 4 and sp' = 1 and dp' = 5 and old = "[]" and old' = "[]" and pid = 1 and len = 100 and w = None]
  by (fastforce simp: demo_inet_defs)

theorem udp_bind_forgets_witness:
  "\<exists>s'. udp_bind 0 (Some (0x0900, 0)) 32 (demo_inet 0x0300000A [2, 2, 2, 2, 2, 2] []) = Inr (0, s') \<and> u_lport (in_udps s' ! 0) = 5 \<and>
    udp_first 4 0x0300000A 1 77 0 s'"
  using udp_bind_forgets [where s = "demo_inet 0x0300000A [2, 2, 2, 2, 2, 2] []" and np = "0x0900" and i = 0 and len = 32 and sip = 4 and sp = 1 and dp = 77]
  by (fastforce simp: demo_inet_defs bitmap_test_def bitmap_cell_def bitmap_exist_def ntohs_def TEST_def mpembs_def)

theorem ping_swallowed_witness:
  "\<exists>s'. inet_rx_ip 0 (net_tx_ip [] 0x0200000A [8, 0, 1, 2, 0, 1, 0, 1] 0x0300000A IP_P_ICMP)
      ((demo_inet 0x0300000A [2, 2, 2, 2, 2, 2] [])\<lparr>in_raws := [\<lparr>rw_proto = 1, rw_hdrincl = False, rw_laddr = 0, rw_raddr = 0, rw_waiter = - 1, rw_que = []\<rparr>]\<rparr>) = Inr s' \<and>
    an_wire (in_link s') = []"
  using ping_swallowed [where s = "(demo_inet 0x0300000A [2, 2, 2, 2, 2, 2] [])\<lparr>in_raws := [\<lparr>rw_proto = 1, rw_hdrincl = False, rw_laddr = 0, rw_raddr = 0, rw_waiter = - 1, rw_que = []\<rparr>]\<rparr>" and
      m = "[8, 0, 1, 2, 0, 1, 0, 1]" and i = 0 and n = 0 and old = "[]" and a = "0x0200000A"]
  by (fastforce simp: demo_inet_defs)

end
