(* ===== verification/Vsprintf.thy ===== *)
theory Vsprintf
  imports Prelude
begin

text \<open>
  kernel/klib/vsprintf.c: formatted output. A format is the list of its characters without the terminator; the output is the list
  of the characters that are stored. The arguments are the slots of the variable argument list: a number of 64 bits, of which an
  \<open>int\<close> is the lower half, or a string, \<open>None\<close> for a null pointer. Asking for an argument that is not there, and going past the terminator of
  the format, is a bad access.
\<close>

section \<open>Flags and arguments\<close>

datatype va = V_num u64 | V_str "string option"

record pflags =
  pf_left :: bool
  pf_sign :: bool
  pf_zero :: bool
  pf_special :: bool
  pf_space :: bool

record pspec =
  ps_len :: nat
  ps_width :: int

definition no_flgs :: pflags where
  "no_flgs = \<lparr>pf_left = False, pf_sign = False, pf_zero = False, pf_special = False, pf_space = False\<rparr>"

definition no_spec :: pspec where
  "no_spec = \<lparr>ps_len = 0, ps_width = 0\<rparr>"

text \<open>A C int.\<close>

definition wrap32 :: "int \<Rightarrow> int" where
  "wrap32 x = sint (word_of_int x :: u32)"

definition is_digit :: "char \<Rightarrow> bool" where
  "is_digit c \<longleftrightarrow> 48 \<le> (of_char c :: nat) \<and> (of_char c :: nat) \<le> 57"

text \<open>\<open>_int\<close>: the number at the head of the text, and what follows it.\<close>

fun int_loop :: "string \<Rightarrow> int \<Rightarrow> int \<times> string" where
  "int_loop [] i = (i, [])"
| "int_loop (c # r) i = (if is_digit c then int_loop r (wrap32 (i * 10 + of_char c - 48)) else (i, c # r))"

section \<open>Numbers\<close>

definition upstr :: string where "upstr = ''0123456789ABCDEF''"
definition lwstr :: string where "lwstr = ''0123456789abcdef''"

text \<open>The digits from the last to the first. The callers use the bases 8, 10 and 16.\<close>

fun number_loop :: "string \<Rightarrow> nat \<Rightarrow> nat \<Rightarrow> string" where
  "number_loop letters base num =
     (if num = 0 \<or> base < 2 then [] else letters ! (num mod base) # number_loop letters base (num div base))"

declare number_loop.simps [simp del]

definition number :: "u64 \<Rightarrow> nat \<Rightarrow> bool \<Rightarrow> string" where
  "number num base upper = (if num = 0 then ''0'' else rev (number_loop (if upper then upstr else lwstr) base (unat num)))"

text \<open>The value of an argument of a number, and whether it is a negative one.\<close>

definition num_arg :: "nat \<Rightarrow> bool \<Rightarrow> u64 \<Rightarrow> bool \<times> u64" where
  "num_arg len sign v =
     (if len = 0
      then let x = ucast v :: u32 in if sign \<and> sint x < 0 then (True, scast (- x)) else (False, ucast x)
      else if sign \<and> sint v < 0 then (True, - v) else (False, v))"

text \<open>
  The sign and what is left of the width. The width is counted down in the conditions, so a sign is left out when nothing is
  left of the width.
\<close>

definition prefix_of :: "pflags \<Rightarrow> bool \<Rightarrow> bool \<Rightarrow> int \<Rightarrow> string \<times> int" where
  "prefix_of f sign neg siz =
     (if neg \<and> siz \<noteq> 0 then (''-'', wrap32 (siz - 1))
      else let siz1 = (if neg then wrap32 (siz - 1) else siz)
           in if sign \<and> pf_sign f \<and> siz1 \<noteq> 0 then (''+'', wrap32 (siz1 - 1))
              else let siz2 = (if sign \<and> pf_sign f then wrap32 (siz1 - 1) else siz1)
                   in if pf_space f \<and> siz2 \<noteq> 0 then ('' '', wrap32 (siz2 - 1))
                      else ([], if pf_space f then wrap32 (siz2 - 1) else siz2))"

definition special_of :: "pflags \<Rightarrow> nat \<Rightarrow> bool \<Rightarrow> string" where
  "special_of f radix upper =
     (if pf_special f \<and> radix \<noteq> 10 then ''0'' @ (if radix = 16 then (if upper then ''X'' else ''x'') else []) else [])"

definition put_number :: "pflags \<Rightarrow> pspec \<Rightarrow> nat \<Rightarrow> bool \<Rightarrow> bool \<Rightarrow> u64 \<Rightarrow> string" where
  "put_number f sp radix sign upper v =
     (let (neg, val) = num_arg (ps_len sp) sign v;
          tmp = number val radix upper;
          siz = wrap32 (ps_width sp - int (length tmp));
          (pre, siz1) = (if radix = 10 then prefix_of f sign neg siz else ([], siz));
          siz2 = (if pf_special f then wrap32 (siz1 - (if radix = 16 then 2 else if radix = 8 then 1 else 0)) else siz1);
          spc = special_of f radix upper
      in (if pf_zero f then pre @ spc else []) @
         (if \<not> pf_left f \<and> siz2 > 0 then replicate (nat siz2) (if pf_zero f then CHR ''0'' else CHR '' '') else []) @
         (if pf_zero f then [] else pre @ spc) @ tmp)"

section \<open>Conversions\<close>

fun parse_flgs :: "pflags \<Rightarrow> string \<Rightarrow> pflags \<times> string" where
  "parse_flgs f [] = (f, [])"
| "parse_flgs f (c # r) =
     (if c = CHR ''#'' then parse_flgs (f\<lparr>pf_special := True\<rparr>) r
      else if c = CHR ''0'' then (if pf_zero f then (f, c # r) else parse_flgs (f\<lparr>pf_zero := True\<rparr>) r)
      else if c = CHR ''-'' then parse_flgs (f\<lparr>pf_left := True\<rparr>) r
      else if c = CHR '' '' then parse_flgs (f\<lparr>pf_space := True\<rparr>) r
      else if c = CHR ''+'' then parse_flgs (f\<lparr>pf_sign := True\<rparr>) r
      else (f, c # r))"

text \<open>What a conversion leaves: the flags, the other arguments, the output and the rest of the format.\<close>

type_synonym conv = "pflags \<times> va list \<times> string \<times> string"

definition conv_number :: "pflags \<Rightarrow> pspec \<Rightarrow> va list \<Rightarrow> string \<Rightarrow> nat \<Rightarrow> bool \<Rightarrow> bool \<Rightarrow> conv result" where
  "conv_number f sp args r radix sign upper =
     (case args of V_num v # as \<Rightarrow> Inr (f, as, put_number f sp radix sign upper v, r) | _ \<Rightarrow> Inl BadAccess)"

definition conv_char :: "pflags \<Rightarrow> pspec \<Rightarrow> va list \<Rightarrow> string \<Rightarrow> conv result" where
  "conv_char f sp args r =
     (case args of
        V_num v # as \<Rightarrow> Inr (f, as, replicate (nat (ps_width sp - 1)) CHR '' '' @ [char_of (unat v)], r)
      | _ \<Rightarrow> Inl BadAccess)"

definition conv_string :: "pflags \<Rightarrow> pspec \<Rightarrow> va list \<Rightarrow> string \<Rightarrow> conv result" where
  "conv_string f sp args r =
     (case args of
        V_str s # as \<Rightarrow>
          let src = (case s of None \<Rightarrow> ''(null)'' | Some x \<Rightarrow> x)
          in Inr (f, as, replicate (nat (wrap32 (ps_width sp - int (length src)))) CHR '' '' @ src, r)
      | _ \<Rightarrow> Inl BadAccess)"

definition conv_fill :: "pflags \<Rightarrow> pspec \<Rightarrow> va list \<Rightarrow> string \<Rightarrow> conv result" where
  "conv_fill f sp args r =
     (case args of V_num v # as \<Rightarrow> Inr (f, as, replicate (nat (ps_width sp)) (char_of (unat v)), r) | _ \<Rightarrow> Inl BadAccess)"

text \<open>
  The cases of the switch at \<open>parse_args\<close> that end a conversion. A character that is no conversion prints the argument as a decimal number.
\<close>

definition convert :: "char \<Rightarrow> pflags \<Rightarrow> pspec \<Rightarrow> va list \<Rightarrow> string \<Rightarrow> conv result" where
  "convert c f sp args r =
     (if c = CHR ''%'' then Inr (f, args, ''%'', r)
      else if c = CHR ''X'' then conv_number f sp args r 16 False True
      else if c = CHR ''x'' then conv_number f sp args r 16 False False
      else if c = CHR ''o'' then conv_number f sp args r 8 False False
      else if c = CHR ''d'' \<or> c = CHR ''i'' then conv_number f sp args r 10 True False
      else if c = CHR ''u'' then conv_number f sp args r 10 False False
      else if c = CHR ''c'' then conv_char f sp args r
      else if c = CHR ''s'' then conv_string f sp args r
      else if c = CHR ''p'' then conv_number (f\<lparr>pf_special := True\<rparr>) (sp\<lparr>ps_len := 2\<rparr>) args r 16 False False
      else if c = CHR ''q'' then conv_fill f sp args r
      else conv_number f sp args r 10 False False)"

lemma int_loop_length: "length (snd (int_loop s i)) \<le> length s"
  by (induction s i rule: int_loop.induct) auto

text \<open>
  The loop at \<open>parse_args\<close> with the cases that go round again: lengths, widths. At the terminator a number is printed and the
  format is left behind.
\<close>

function parse_args :: "pflags \<Rightarrow> pspec \<Rightarrow> va list \<Rightarrow> string \<Rightarrow> conv result" where
  "parse_args f sp args [] = Inl BadAccess"
| "parse_args f sp args (c # r) =
     (if c = CHR ''l'' \<or> c = CHR ''L''
      then (if r \<noteq> [] \<and> (hd r = CHR ''l'' \<or> hd r = CHR ''L'') then parse_args f (sp\<lparr>ps_len := 2\<rparr>) args (tl r)
            else parse_args f (sp\<lparr>ps_len := 1\<rparr>) args r)
      else if is_digit c
      then parse_args f (sp\<lparr>ps_width := fst (int_loop (c # r) 0)\<rparr>) args (snd (int_loop (c # r) 0))
      else if c = CHR ''*''
      then (case args of
              V_num v # as \<Rightarrow>
                let w = sint (ucast v :: u32)
                in parse_args (if w < 0 then f\<lparr>pf_left := True\<rparr> else f) (sp\<lparr>ps_width := w\<rparr>) as r
            | _ \<Rightarrow> Inl BadAccess)
      else convert c f sp args r)"
  by pat_completeness auto
termination
  by (relation "measure (\<lambda>(f, sp, args, s). length s)") (auto simp: less_Suc_eq_le int_loop_length)

declare parse_args.simps [simp del]

text \<open>The loop over the format. The flags are set before it and not again, so each conversion finds those of the ones before it.\<close>

lemma parse_flgs_length: "length (snd (parse_flgs f s)) \<le> length s"
  by (induction f s rule: parse_flgs.induct) auto

lemma conv_rest:
  "conv_number f sp args r radix sign upper = Inr (f', as, out, r') \<Longrightarrow> r' = r"
  "conv_char f sp args r = Inr (f', as, out, r') \<Longrightarrow> r' = r"
  "conv_string f sp args r = Inr (f', as, out, r') \<Longrightarrow> r' = r"
  "conv_fill f sp args r = Inr (f', as, out, r') \<Longrightarrow> r' = r"
  by (auto simp: conv_number_def conv_char_def conv_string_def conv_fill_def Let_def split: list.splits va.splits)

lemma convert_rest: "convert c f sp args r = Inr (f', as, out, r') \<Longrightarrow> r' = r"
  unfolding convert_def by (simp split: if_split_asm add: conv_rest)

lemma int_loop_digit: "is_digit c \<Longrightarrow> length (snd (int_loop (c # r) i)) \<le> length r"
  by (simp add: int_loop_length)

lemma parse_args_shorter: "parse_args f sp args s = Inr (f', as, out, r) \<Longrightarrow> length r < length s"
proof (induction "length s" arbitrary: f sp args s rule: less_induct)
  case less
  show ?case
  proof (cases s)
    case Nil
    then show ?thesis using less.prems by (simp add: parse_args.simps)
  next
    case (Cons c t)
    note go = less.hyps [of "tl t"] less.hyps [of t] less.hyps [of "snd (int_loop (c # t) 0)"]
    have "length r < length (c # t)"
    proof (cases "c = CHR ''l'' \<or> c = CHR ''L''")
      case True
      then show ?thesis using less.prems Cons go(1,2) by (cases t) (fastforce simp: parse_args.simps split: if_split_asm)+
    next
      case l: False
      show ?thesis
      proof (cases "is_digit c")
        case True
        then have "length r < length (snd (int_loop (c # t) 0))"
          using go(3) less.prems int_loop_digit [OF True, of t 0] l unfolding Cons parse_args.simps(2) by simp
        then show ?thesis using int_loop_digit [OF True, of t 0] by simp
      next
        case d: False
        show ?thesis
        proof (cases "c = CHR ''*''")
          case True
          then obtain v as' where "args = V_num v # as'"
            using less.prems l d unfolding Cons parse_args.simps(2) by (auto split: list.splits va.splits)
          then have "length r < length t" using less.prems l d True go(2) unfolding Cons parse_args.simps(2) Let_def by simp
          then show ?thesis by simp
        next
          case False
          then have "convert c f sp args t = Inr (f', as, out, r)" using less.prems l d unfolding Cons parse_args.simps(2) by simp
          then show ?thesis using convert_rest by fastforce
        qed
      qed
    qed
    then show ?thesis by (simp add: Cons)
  qed
qed

function vsp :: "pflags \<Rightarrow> va list \<Rightarrow> string \<Rightarrow> string result" where
  "vsp f args [] = Inr []"
| "vsp f args (c # r) =
     (if c \<noteq> CHR ''%'' then bind_result (vsp f args r) (\<lambda>out. Inr (c # out))
      else case parse_args (fst (parse_flgs f r)) no_spec args (snd (parse_flgs f r)) of
             Inl e \<Rightarrow> Inl e
           | Inr (f', as, out, r') \<Rightarrow> bind_result (vsp f' as r') (\<lambda>out'. Inr (out @ out')))"
  by pat_completeness auto
termination
proof (relation "measure (\<lambda>(f, args, s). length s)", goal_cases)
  case (3 f args c r x f' y as z out r')
  then have "parse_args (fst (parse_flgs f r)) no_spec args (snd (parse_flgs f r)) = Inr (f', as, out, r')" by simp
  then have "length r' < length (snd (parse_flgs f r))" by (rule parse_args_shorter)
  then show ?case using parse_flgs_length [of f r] by simp
qed auto

definition vsprintf :: "string \<Rightarrow> va list \<Rightarrow> (int \<times> string) result" where
  "vsprintf format args = bind_result (vsp no_flgs args format) (\<lambda>out. Inr (int (length out), out))"

section \<open>Numbers are read back\<close>

lemma wrap32_id: "- (2 ^ 31) \<le> x \<Longrightarrow> x < 2 ^ 31 \<Longrightarrow> wrap32 x = x"
  by (simp add: wrap32_def signed_of_int signed_take_bit_int_eq_self)

lemma lwstr_digit: "d < 10 \<Longrightarrow> (of_char (lwstr ! d) :: int) = int d + 48 \<and> is_digit (lwstr ! d)"
proof -
  assume "d < 10"
  then have "d \<in> set [0..<10]" by simp
  moreover have "\<forall>d \<in> set [0..<10]. (of_char (lwstr ! d) :: int) = int d + 48 \<and> is_digit (lwstr ! d)"
    by (simp add: lwstr_def is_digit_def upt_conv_Cons)
  ultimately show ?thesis by blast
qed

text \<open>The digits of a number, read by \<open>_int\<close> from the number that stands before them.\<close>

lemma int_loop_append:
  assumes "int_loop xs i = (j, [])"
  shows "int_loop (xs @ ys) i = int_loop ys j"
  using assms by (induction xs i rule: int_loop.induct) (auto split: if_splits)

lemma read_digits:
  assumes "n < 2 ^ 31"
  shows "int_loop (rev (number_loop lwstr 10 n)) 0 = (int n, [])"
  using assms
proof (induction n rule: less_induct)
  case (less n)
  show ?case
  proof (cases "n = 0")
    case False
    let ?d = "n mod 10"
    have "int_loop (rev (number_loop lwstr 10 (n div 10))) 0 = (int (n div 10), [])" using False less by simp
    moreover have "int_loop [lwstr ! ?d] (int (n div 10)) = (int n, [])"
    proof -
      have "int (n div 10) * 10 + int ?d = int n" by (metis mult.commute of_nat_add of_nat_mult of_nat_numeral mult_div_mod_eq)
      then show ?thesis using lwstr_digit [of ?d] less.prems wrap32_id [of "int n"] by simp
    qed
    moreover have "rev (number_loop lwstr 10 n) = rev (number_loop lwstr 10 (n div 10)) @ [lwstr ! ?d]"
      using False by (subst number_loop.simps) simp
    ultimately show ?thesis by (simp add: int_loop_append)
  qed (simp add: number_loop.simps)
qed

lemma read_number: "unat v < 2 ^ 31 \<Longrightarrow> int_loop (number v 10 False) 0 = (int (unat v), [])"
  using read_digits [of "unat v"] wrap32_id [of 0] by (auto simp: number_def is_digit_def)

lemma number_loop_length: "num < base ^ k \<Longrightarrow> length (number_loop letters base num) \<le> k"
proof (induction letters base num arbitrary: k rule: number_loop.induct)
  case (1 letters base num)
  show ?case
  proof (cases "num = 0 \<or> base < 2")
    case False
    then obtain k' where k: "k = Suc k'" using "1.prems" by (cases k) auto
    then have "num div base < base ^ k'" using "1.prems" False by (simp add: less_mult_imp_div_less mult.commute)
    then show ?thesis using "1.IH" [OF False] False k by (subst number_loop.simps) simp
  qed (simp add: number_loop.simps)
qed

text \<open>The digits of every number fit into the buffer of 64 characters with their terminator.\<close>

lemma number_fits:
  assumes "8 \<le> base"
  shows "length (number v base upper) \<le> 22"
proof -
  have "unat v < 2 ^ 64" using unat_lt [of v] by simp
  also have "\<dots> \<le> 8 ^ 22" by simp
  also have "\<dots> \<le> base ^ 22" using assms by (rule power_mono) simp
  finally show ?thesis by (simp add: number_def number_loop_length)
qed

lemma number_nonempty: "2 \<le> base \<Longrightarrow> number v base upper \<noteq> []"
  by (auto simp: number_def number_loop.simps [of _ _ "unat v"] unat_eq_0)

section \<open>Formats\<close>

lemma vsp_plain: "CHR ''%'' \<notin> set a \<Longrightarrow> vsp f args (a @ r) = bind_result (vsp f args r) (\<lambda>out. Inr (a @ out))"
proof (induction a)
  case Nil
  show ?case by (cases "vsp f args r") simp_all
next
  case (Cons c a)
  then show ?case by (cases "vsp f args r") (auto split: sum.splits)
qed

lemma vsp_plain_end: "CHR ''%'' \<notin> set a \<Longrightarrow> vsp f args a = Inr a"
  using vsp_plain [of a f args "[]"] by simp

lemma vsp_conversion:
  assumes "CHR ''%'' \<notin> set a" "CHR ''%'' \<notin> set b" "parse_args (fst (parse_flgs f (x @ b))) no_spec args (snd (parse_flgs f (x @ b))) = Inr (f', as, out, b)"
  shows "vsp f args (a @ ''%'' @ x @ b) = Inr (a @ out @ b)"
  using assms by (simp add: vsp_plain vsp_plain_end)

lemma sint_range32: "- (2 ^ 31) \<le> sint (v :: u32)" "sint (v :: u32) < 2 ^ 31"
  using sint_ge [of v] sint_lt [of v] by simp_all

lemma unat_word64: "0 \<le> x \<Longrightarrow> x < 2 ^ 31 \<Longrightarrow> unat (word_of_int x :: u64) = nat x"
  by (simp add: unsigned_of_int take_bit_int_eq_self)

lemma ucast_down_up: "(ucast (ucast (v :: u32) :: u64) :: u32) = v"
  by (rule bit_word_eqI) (simp add: bit_simps)

lemma scast_neg:
  assumes "- (2 ^ 31) < sint (v :: u32)"
  shows "(scast (- v) :: u64) = of_int (- sint v)"
proof -
  have "sint (- v) = wrap32 (- sint v)" by (simp add: wrap32_def)
  also have "\<dots> = - sint v" using assms sint_range32 [of v] by (intro wrap32_id) linarith+
  finally show ?thesis by (metis of_int_sint)
qed

lemma unat_nonneg:
  assumes "0 \<le> sint (v :: u32)"
  shows "int (unat (ucast v :: u64)) = sint v"
proof -
  have "uint v = sint v" using uint_sint [of v] assms sint_range32 [of v] by (simp add: take_bit_int_eq_self)
  moreover have "unat (ucast v :: u64) = unat v" using unat_lt [of v] by (simp add: unsigned_ucast_eq take_bit_nat_eq_self)
  ultimately show ?thesis by simp
qed

lemma num_arg_int:
  fixes v :: u32
  assumes "sint v \<noteq> - (2 ^ 31)"
  shows "fst (num_arg 0 True (ucast v)) \<longleftrightarrow> sint v < 0" "int (unat (snd (num_arg 0 True (ucast v)))) = \<bar>sint v\<bar>"
proof -
  have r: "- (2 ^ 31) < sint v" "sint v < 2 ^ 31" using sint_range32 [of v] assms by simp_all
  have n: "num_arg 0 True (ucast v) = (if sint v < 0 then (True, scast (- v)) else (False, ucast v))"
    by (simp only: num_arg_def Let_def ucast_down_up) simp
  show "fst (num_arg 0 True (ucast v)) \<longleftrightarrow> sint v < 0" by (simp only: n) simp
  show "int (unat (snd (num_arg 0 True (ucast v)))) = \<bar>sint v\<bar>"
  proof (cases "sint v < 0")
    case True
    then show ?thesis using r unat_word64 [of "- sint v"] by (simp only: n scast_neg) simp
  next
    case False
    then show ?thesis using unat_nonneg [of v] by (simp only: n) simp
  qed
qed

section \<open>What the conversions print\<close>

lemma read_int:
  assumes "sint (v :: u32) \<noteq> - (2 ^ 31)"
  shows "int_loop (number (snd (num_arg 0 True (ucast v))) 10 False) 0 = (\<bar>sint v\<bar>, [])"
proof -
  have "int (unat (snd (num_arg 0 True (ucast v)))) < 2 ^ 31"
    unfolding num_arg_int(2) [OF assms] using sint_range32 [of v] assms by (simp add: abs_less_iff)
  then have "unat (snd (num_arg 0 True (ucast v))) < 2 ^ 31" by (metis of_nat_less_iff of_nat_numeral of_nat_power)
  then show ?thesis using read_number num_arg_int(2) [OF assms] by metis
qed

lemma number_width: "wrap32 (0 - int (length (number v 10 False))) = - int (length (number v 10 False))"
  using number_fits [of 10 v False] by (intro trans [OF wrap32_id]) simp_all

lemma put_plain_int:
  "put_number no_flgs no_spec 10 True False v =
     (if fst (num_arg 0 True v) then ''-'' else []) @ number (snd (num_arg 0 True v)) 10 False"
proof (cases "num_arg 0 True v")
  case (Pair neg val)
  have "number val 10 False \<noteq> []" by (rule number_nonempty) simp
  moreover have "wrap32 (- int (length (number val 10 False)) - 1) = - int (length (number val 10 False)) - 1"
    using number_fits [of 10 val False] by (intro wrap32_id) simp_all
  ultimately show ?thesis using Pair number_width [of val]
    by (simp add: put_number_def no_flgs_def no_spec_def prefix_of_def special_of_def Let_def)
qed

text \<open>
  C38. The decimal conversion: in the middle of other text, \<open>%d\<close> prints every int but the least with a minus sign exactly if it is negative,
  followed by at least one digit, and \<open>_int\<close> reads the digits back as its absolute value; the text around it is copied, and the length of all is returned.
\<close>

theorem printf_decimal:
  fixes v :: u32
  assumes "CHR ''%'' \<notin> set a" "CHR ''%'' \<notin> set b" "sint v \<noteq> - (2 ^ 31)"
  shows "\<exists>out digits. vsprintf (a @ ''%d'' @ b) [V_num (ucast v)] = Inr (int (length out), out) \<and>
    out = a @ (if sint v < 0 then ''-'' else []) @ digits @ b \<and> digits \<noteq> [] \<and> int_loop digits 0 = (\<bar>sint v\<bar>, [])"
proof -
  let ?val = "snd (num_arg 0 True (ucast v))"
  have f: "parse_flgs no_flgs (''d'' @ b) = (no_flgs, ''d'' @ b)" by simp
  have "parse_args no_flgs no_spec [V_num (ucast v)] (''d'' @ b) = Inr (no_flgs, [], put_number no_flgs no_spec 10 True False (ucast v), b)"
    by (simp add: parse_args.simps convert_def conv_number_def is_digit_def)
  then have "vsp no_flgs [V_num (ucast v)] (a @ ''%'' @ ''d'' @ b) = Inr (a @ put_number no_flgs no_spec 10 True False (ucast v) @ b)"
    by (intro vsp_conversion assms) (simp only: f fst_conv snd_conv)
  moreover have "int_loop (number ?val 10 False) 0 = (\<bar>sint v\<bar>, [])" by (rule read_int [OF assms(3)])
  moreover have "number ?val 10 False \<noteq> []" by (rule number_nonempty) simp
  ultimately show ?thesis by (auto simp: vsprintf_def put_plain_int num_arg_int(1) [OF assms(3)])
qed

text \<open>
  A negative number whose digits are as many as the width of its field is printed without its sign: the
  width that is left is tested when the sign is put, and it is zero.
\<close>

theorem printf_minus_lost:
  fixes v :: u32
  assumes "sint v < 0" "sint v \<noteq> - (2 ^ 31)"
  shows "\<exists>w n digits. vsprintf ''%*d'' [V_num w, V_num (ucast v)] = Inr (n, digits) \<and> int_loop digits 0 = (- sint v, [])"
proof -
  obtain val where neg: "num_arg 0 True (ucast v) = (True, val)"
    using num_arg_int(1) [OF assms(2)] assms(1) by (cases "num_arg 0 True (ucast v)") simp
  let ?d = "number val 10 False"
  let ?w = "of_nat (length ?d) :: u64"
  have l: "length ?d \<le> 22" by (rule number_fits) simp
  have w: "sint (ucast ?w :: u32) = int (length ?d)"
  proof -
    have "(ucast ?w :: u32) = of_int (int (length ?d))"
      by (rule bit_word_eqI) (simp add: bit_simps)
    then show ?thesis using wrap32_id [of "int (length ?d)"] l by (simp add: wrap32_def)
  qed
  have sp: "wrap32 (- 1) = - 1" "wrap32 0 = 0" by (rule wrap32_id; simp)+
  have "put_number no_flgs (no_spec\<lparr>ps_width := int (length ?d)\<rparr>) 10 True False (ucast v) = ?d"
    using neg sp by (simp add: put_number_def no_flgs_def no_spec_def prefix_of_def special_of_def Let_def)
  then have "vsprintf ''%*d'' [V_num ?w, V_num (ucast v)] = Inr (int (length ?d), ?d)"
    using w by (simp add: vsprintf_def parse_args.simps is_digit_def convert_def conv_number_def Let_def)
  moreover have "int_loop ?d 0 = (- sint v, [])" using read_int [OF assms(2)] neg assms(1) by simp
  ultimately show ?thesis by blast
qed

text \<open>A flag stays set for the conversions behind the one it was written for: the prefix asked for once is printed twice.\<close>

theorem printf_flags_stay:
  "\<exists>n. vsprintf ''%#x %x'' [V_num x, V_num y] =
     Inr (n, ''0x'' @ number (snd (num_arg 0 False x)) 16 False @ '' 0x'' @ number (snd (num_arg 0 False y)) 16 False)"
proof -
  have p: "put_number (no_flgs\<lparr>pf_special := True\<rparr>) no_spec 16 False False v = ''0x'' @ number (snd (num_arg 0 False v)) 16 False" for v
  proof -
    let ?d = "number (snd (num_arg 0 False v)) 16 False"
    have "length ?d \<le> 22" by (rule number_fits) simp
    then have "wrap32 (- int (length ?d)) = - int (length ?d)" "wrap32 (- int (length ?d) - 2) = - int (length ?d) - 2"
      by (intro wrap32_id; simp)+
    then show ?thesis by (simp add: put_number_def no_flgs_def no_spec_def special_of_def Let_def split_beta)
  qed
  show ?thesis by (simp add: vsprintf_def parse_args.simps is_digit_def convert_def conv_number_def p)
qed

theorem printf_decimal_witness:
  "\<exists>digits. vsprintf ''a %d b'' [V_num (ucast (- 12 :: u32))] = Inr (int (length digits) + 5, ''a -'' @ digits @ '' b'') \<and> digits \<noteq> [] \<and>
    int_loop digits 0 = (12, [])"
proof -
  have v: "sint (- 12 :: u32) = - 12" by simp
  have "CHR ''%'' \<notin> set ''a ''" "CHR ''%'' \<notin> set '' b''" "sint (- 12 :: u32) \<noteq> - (2 ^ 31)" by simp_all
  from printf_decimal [OF this] obtain out digits where
    o: "vsprintf (''a '' @ ''%d'' @ '' b'') [V_num (ucast (- 12 :: u32))] = Inr (int (length out), out)"
      "out = ''a '' @ ''-'' @ digits @ '' b''" "digits \<noteq> []" "int_loop digits 0 = (12, [])" unfolding v by auto
  then show ?thesis by (intro exI [of _ digits]) simp
qed

theorem printf_minus_lost_witness:
  "\<exists>w n digits. vsprintf ''%*d'' [V_num w, V_num (ucast (- 12 :: u32))] = Inr (n, digits) \<and> int_loop digits 0 = (12, [])"
  using printf_minus_lost [of "- 12"] by simp

end
