(* ===== verification/Mbuf.thy ===== *)
theory Mbuf
  imports Prelude Transition
begin

text \<open>
  kernel/dev/nic/mbuf.c: packet buffers and their pool. The network theories take a packet for the list of its bytes; the contract
  \<open>packet_buffer\<close> says what that means, and the buffers of the code meet it. \<open>mb_head\<close> is the distance of \<open>head\<close> from \<open>buf\<close>. The pool holds the
  buffers by number; \<open>mp_phys\<close> gives the physical address of the page that \<open>vmm_allocpv\<close> returns for a buffer.
\<close>

section \<open>The contract\<close>

locale packet_buffer =
  fixes ok :: "'m \<Rightarrow> bool" and front :: "'m \<Rightarrow> nat" and rear :: "'m \<Rightarrow> nat" and content :: "'m \<Rightarrow> bytes"
    and prepend :: "bytes \<Rightarrow> 'm \<Rightarrow> 'm result" and attach :: "bytes \<Rightarrow> 'm \<Rightarrow> 'm result" and strip :: "nat \<Rightarrow> 'm \<Rightarrow> 'm"
  assumes prepend_ok: "ok m \<Longrightarrow> length h \<le> front m \<Longrightarrow>
      \<exists>m'. prepend h m = Inr m' \<and> ok m' \<and> content m' = h @ content m \<and> front m' = front m - length h \<and> rear m' = rear m"
    and append_ok: "ok m \<Longrightarrow> length d \<le> rear m \<Longrightarrow>
      \<exists>m'. attach d m = Inr m' \<and> ok m' \<and> content m' = content m @ d \<and> front m' = front m \<and> rear m' = rear m - length d"
    and strip_ok: "ok m \<Longrightarrow> n \<le> length (content m) \<Longrightarrow>
      ok (strip n m) \<and> content (strip n m) = drop n (content m) \<and> front (strip n m) = front m + n \<and> rear (strip n m) = rear m"
begin

primrec headers :: "bytes list \<Rightarrow> 'm \<Rightarrow> 'm result" where
  "headers [] m = Inr m"
| "headers (h # hs) m = bind_result (prepend h m) (headers hs)"

lemma headers_ok:
  "ok m \<Longrightarrow> length (concat hs) \<le> front m \<Longrightarrow>
    \<exists>m'. headers hs m = Inr m' \<and> ok m' \<and> content m' = concat (rev hs) @ content m \<and> front m' = front m - length (concat hs) \<and> rear m' = rear m"
proof (induction hs arbitrary: m)
  case (Cons h hs)
  then obtain m1 where m1: "prepend h m = Inr m1" "ok m1" "content m1 = h @ content m" "front m1 = front m - length h" "rear m1 = rear m"
    using prepend_ok [of m h] by auto
  show ?case using Cons.IH [of m1] Cons.prems m1 by auto
qed simp

lemma strip_headers:
  "ok m \<Longrightarrow> content m = concat hs @ d \<Longrightarrow> ok (fold (\<lambda>h. strip (length h)) hs m) \<and> content (fold (\<lambda>h. strip (length h)) hs m) = d"
proof (induction hs arbitrary: m)
  case (Cons h hs)
  have "ok (strip (length h) m) \<and> content (strip (length h) m) = concat hs @ d" using strip_ok [of m "length h"] Cons.prems by simp
  then show ?case using Cons.IH by simp
qed simp

text \<open>A packet that is built from its data outwards and taken apart from the outside in.\<close>

lemma packet_through:
  assumes "ok m" "content m = []" "length d \<le> rear m" "length (concat hs) \<le> front m"
  shows "\<exists>m1 m2. attach d m = Inr m1 \<and> headers hs m1 = Inr m2 \<and> content m2 = concat (rev hs) @ d \<and>
    content (fold (\<lambda>h. strip (length h)) (rev hs) m2) = d"
proof -
  obtain m1 where m1: "attach d m = Inr m1" "ok m1" "content m1 = d" "front m1 = front m" using append_ok [of m d] assms by auto
  then obtain m2 where "headers hs m1 = Inr m2" "ok m2" "content m2 = concat (rev hs) @ d" using headers_ok [of m1 hs] assms by auto
  then show ?thesis using strip_headers [of m2 "rev hs" d] m1 by blast
qed

end

section \<open>Buffers\<close>

record mbuf =
  mb_buf :: bytes
  mb_head :: int
  mb_next :: "nat option"
  mb_phy :: u64
  mb_len :: u64
  mb_dlen :: u64
  mb_id :: u64
  mb_flgs :: u64

definition MBUF_SIZE :: nat where "MBUF_SIZE = 2048"
definition MBUF_DEFROOM :: nat where "MBUF_DEFROOM = 128"

text \<open>The three operations return the address they computed, as a distance from \<open>buf\<close>.\<close>

definition mbuf_push :: "nat \<Rightarrow> mbuf \<Rightarrow> int \<times> mbuf" where
  "mbuf_push len m =
     (mb_head m - int len,
      m\<lparr>mb_head := mb_head m - int len, mb_phy := mb_phy m - of_nat len, mb_len := mb_len m + of_nat len\<rparr>)"

definition mbuf_pull :: "nat \<Rightarrow> mbuf \<Rightarrow> int \<times> mbuf" where
  "mbuf_pull len m =
     (mb_head m,
      m\<lparr>mb_head := mb_head m + int len, mb_phy := mb_phy m + of_nat len, mb_len := mb_len m - of_nat len\<rparr>)"

definition mbuf_put :: "nat \<Rightarrow> mbuf \<Rightarrow> int \<times> mbuf" where
  "mbuf_put len m =
     (mb_head m + int (unat (mb_len m)), m\<lparr>mb_len := mb_len m + of_nat len, mb_dlen := mb_dlen m + of_nat len\<rparr>)"

text \<open>What a caller writes at such an address.\<close>

definition mbuf_store :: "int \<Rightarrow> bytes \<Rightarrow> mbuf \<Rightarrow> mbuf result" where
  "mbuf_store off bs m =
     (if off < 0 \<or> off + int (length bs) > int (length (mb_buf m)) then Inl BadAccess
      else Inr (m\<lparr>mb_buf := take (nat off) (mb_buf m) @ bs @ drop (nat off + length bs) (mb_buf m)\<rparr>))"

definition mbuf_prepend :: "bytes \<Rightarrow> mbuf \<Rightarrow> mbuf result" where
  "mbuf_prepend h m = (case mbuf_push (length h) m of (p, m1) \<Rightarrow> mbuf_store p h m1)"

definition mbuf_append :: "bytes \<Rightarrow> mbuf \<Rightarrow> mbuf result" where
  "mbuf_append d m = (case mbuf_put (length d) m of (p, m1) \<Rightarrow> mbuf_store p d m1)"

section \<open>The pool\<close>

record mpool =
  mp_bufs :: "nat \<Rightarrow> mbuf option"
  mp_free :: "nat list"
  mp_fresh :: nat
  mp_phys :: "nat \<Rightarrow> u64"
  mp_junk :: bytes

definition mbuf_alloc :: "nat \<Rightarrow> mpool \<Rightarrow> (nat \<times> mpool) result" where
  "mbuf_alloc headroom s =
     (let (i, s1) =
        (case mp_free s of
           [] \<Rightarrow> (mp_fresh s,
             s\<lparr>mp_fresh := Suc (mp_fresh s), mp_bufs := (mp_bufs s)(mp_fresh s \<mapsto>
               \<lparr>mb_buf = mp_junk s, mb_head = 0, mb_next = None, mb_phy = mp_phys s (mp_fresh s), mb_len = 0, mb_dlen = 0, mb_id = 0, mb_flgs = 0\<rparr>)\<rparr>)
         | f # fs \<Rightarrow> (f, s\<lparr>mp_free := fs\<rparr>))
      in case mp_bufs s1 i of
           None \<Rightarrow> Inl BadAccess
         | Some m \<Rightarrow> Inr (i, s1\<lparr>mp_bufs := (mp_bufs s1)(i \<mapsto>
               m\<lparr>mb_phy := mb_phy m + of_nat headroom, mb_head := mb_head m + int headroom\<rparr>)\<rparr>))"

definition mbuf_reset :: "mbuf \<Rightarrow> mbuf" where
  "mbuf_reset m = m\<lparr>mb_head := 0, mb_phy := mb_phy m - of_int (mb_head m), mb_len := 0, mb_dlen := 0, mb_id := 0, mb_flgs := 0\<rparr>"

text \<open>\<open>mbuf_free\<close> goes along the chain of buffers; a chain that comes back to itself would not end.\<close>

partial_function (option) free_loop :: "nat option \<Rightarrow> mpool \<Rightarrow> mpool result option" where
  "free_loop i s =
     (case i of
        None \<Rightarrow> Some (Inr s)
      | Some k \<Rightarrow>
          (case mp_bufs s k of
             None \<Rightarrow> Some (Inl BadAccess)
           | Some m \<Rightarrow> free_loop (mb_next m) (s\<lparr>mp_bufs := (mp_bufs s)(k \<mapsto> mbuf_reset m), mp_free := k # mp_free s\<rparr>)))"

definition mbuf_free :: "nat \<Rightarrow> mpool \<Rightarrow> mpool result option" where
  "mbuf_free i s = free_loop (Some i) s"

section \<open>A buffer is its packet\<close>

definition mb_ok :: "mbuf \<Rightarrow> bool" where
  "mb_ok m \<longleftrightarrow> length (mb_buf m) = MBUF_SIZE \<and> 0 \<le> mb_head m \<and> nat (mb_head m) + unat (mb_len m) \<le> MBUF_SIZE"

definition mb_bytes :: "mbuf \<Rightarrow> bytes" where
  "mb_bytes m = take (unat (mb_len m)) (drop (nat (mb_head m)) (mb_buf m))"

definition mb_front :: "mbuf \<Rightarrow> nat" where
  "mb_front m = nat (mb_head m)"

definition mb_back :: "mbuf \<Rightarrow> nat" where
  "mb_back m = MBUF_SIZE - (nat (mb_head m) + unat (mb_len m))"

lemma mb_bytes_length: "mb_ok m \<Longrightarrow> length (mb_bytes m) = unat (mb_len m)"
  by (auto simp: mb_ok_def mb_bytes_def)

lemma unat_len_add: "unat l + n \<le> 2048 \<Longrightarrow> unat (l + of_nat n :: u64) = unat l + n"
  by (simp add: unat_add_nowrap unsigned_of_nat take_bit_nat_eq_self)

lemma unat_len_sub: "n \<le> unat l \<Longrightarrow> unat (l - of_nat n :: u64) = unat l - n"
proof -
  assume n: "n \<le> unat l"
  then have u: "unat (of_nat n :: u64) = n" using unat_lt [of l] by (simp add: unsigned_of_nat take_bit_nat_eq_self)
  then have "of_nat n \<le> l" using n by (simp add: word_le_nat_alt)
  then show ?thesis by (simp add: unat_sub u)
qed

lemma mbuf_prepend_ok:
  assumes "mb_ok m" "length h \<le> mb_front m"
  shows "\<exists>m'. mbuf_prepend h m = Inr m' \<and> mb_ok m' \<and> mb_bytes m' = h @ mb_bytes m \<and> mb_front m' = mb_front m - length h \<and> mb_back m' = mb_back m"
proof -
  let ?p = "nat (mb_head m) - length h"
  have l: "unat (mb_len m + of_nat (length h)) = unat (mb_len m) + length h"
    using assms by (intro unat_len_add) (simp add: mb_ok_def mb_front_def MBUF_SIZE_def)
  have h: "nat (mb_head m - int (length h)) = ?p" "0 \<le> mb_head m - int (length h)" "?p + length h = nat (mb_head m)"
    using assms by (auto simp: mb_ok_def mb_front_def)
  define b where "b = take ?p (mb_buf m) @ h @ drop (?p + length h) (mb_buf m)"
  define m' where "m' = m\<lparr>mb_head := mb_head m - int (length h), mb_phy := mb_phy m - of_nat (length h), mb_len := mb_len m + of_nat (length h), mb_buf := b\<rparr>"
  have "\<not> int MBUF_SIZE < mb_head m" using assms by (simp add: mb_ok_def) linarith
  then have "mbuf_prepend h m = Inr m'"
    using assms h by (simp add: mbuf_prepend_def mbuf_push_def mbuf_store_def m'_def b_def mb_ok_def)
  moreover have "length b = MBUF_SIZE" using assms h(3) by (simp add: b_def mb_ok_def)
  moreover have "drop ?p b = h @ drop (nat (mb_head m)) (mb_buf m)" using assms h(3) by (simp add: b_def mb_ok_def)
  ultimately show ?thesis using assms h l
    by (auto simp: m'_def mb_ok_def mb_bytes_def mb_front_def mb_back_def)
qed

lemma mbuf_append_ok:
  assumes "mb_ok m" "length d \<le> mb_back m"
  shows "\<exists>m'. mbuf_append d m = Inr m' \<and> mb_ok m' \<and> mb_bytes m' = mb_bytes m @ d \<and> mb_front m' = mb_front m \<and> mb_back m' = mb_back m - length d"
proof -
  let ?h = "nat (mb_head m)" and ?n = "unat (mb_len m)"
  let ?p = "?h + ?n"
  have s: "?p + length d \<le> MBUF_SIZE" "length (mb_buf m) = MBUF_SIZE" "0 \<le> mb_head m" using assms by (auto simp: mb_ok_def mb_back_def)
  have l: "unat (mb_len m + of_nat (length d)) = ?n + length d" using s by (intro unat_len_add) (simp add: MBUF_SIZE_def)
  have p: "nat (mb_head m + int ?n) = ?p" using s(3) by (simp add: nat_add_distrib)
  define b where "b = take ?p (mb_buf m) @ d @ drop (?p + length d) (mb_buf m)"
  define m' where "m' = m\<lparr>mb_len := mb_len m + of_nat (length d), mb_dlen := mb_dlen m + of_nat (length d), mb_buf := b\<rparr>"
  have "\<not> mb_head m + int ?n < 0" "\<not> int MBUF_SIZE < mb_head m + int ?n + int (length d)" using s by linarith+
  then have "mbuf_append d m = Inr m'"
    using s p by (simp add: mbuf_append_def mbuf_put_def mbuf_store_def m'_def b_def)
  moreover have "length b = MBUF_SIZE" using s by (simp add: b_def)
  moreover have "drop ?h b = take ?n (drop ?h (mb_buf m)) @ d @ drop (?p + length d) (mb_buf m)"
    using s by (simp add: b_def drop_take)
  ultimately show ?thesis using s l by (auto simp: m'_def mb_ok_def mb_bytes_def mb_front_def mb_back_def)
qed

lemma mbuf_pull_ok:
  assumes "mb_ok m" "n \<le> length (mb_bytes m)"
  shows "mb_ok (snd (mbuf_pull n m)) \<and> mb_bytes (snd (mbuf_pull n m)) = drop n (mb_bytes m) \<and>
    mb_front (snd (mbuf_pull n m)) = mb_front m + n \<and> mb_back (snd (mbuf_pull n m)) = mb_back m"
proof -
  have n: "n \<le> unat (mb_len m)" using assms mb_bytes_length by simp
  have h: "nat (mb_head m + int n) = nat (mb_head m) + n" using assms by (simp add: mb_ok_def nat_add_distrib)
  show ?thesis using assms n h unat_len_sub [OF n]
    by (auto simp: mbuf_pull_def mb_ok_def mb_bytes_def mb_front_def mb_back_def drop_take add.commute)
qed

interpretation mbufs: packet_buffer mb_ok mb_front mb_back mb_bytes mbuf_prepend mbuf_append "\<lambda>n m. snd (mbuf_pull n m)"
  by unfold_locales (blast intro: mbuf_prepend_ok mbuf_append_ok dest: mbuf_pull_ok)+

section \<open>The pool keeps its buffers apart\<close>

text \<open>
  A state of the pool with the set of the buffers that are in use. Whoever holds a buffer may change it, but not its link
  to another buffer, and moves \<open>head\<close> and the physical address together, as the three operations do.
\<close>

definition tied :: "nat \<Rightarrow> mbuf \<Rightarrow> mpool \<Rightarrow> bool" where
  "tied i m s \<longleftrightarrow> length (mb_buf m) = MBUF_SIZE \<and> mb_next m = None \<and> mb_phy m = mp_phys s i + of_int (mb_head m)"

inductive mp_step :: "nat set \<times> mpool \<Rightarrow> nat set \<times> mpool \<Rightarrow> bool" where
  mp_alloc: "mbuf_alloc MBUF_DEFROOM s = Inr (i, s') \<Longrightarrow> mp_step (H, s) (insert i H, s')"
| mp_use: "i \<in> H \<Longrightarrow> tied i m s \<Longrightarrow> mp_step (H, s) (H, s\<lparr>mp_bufs := (mp_bufs s)(i \<mapsto> m)\<rparr>)"
| mp_free: "i \<in> H \<Longrightarrow> mbuf_free i s = Some (Inr s') \<Longrightarrow> mp_step (H, s) (H - {i}, s')"

definition mp_boot :: "nat set \<times> mpool \<Rightarrow> bool" where
  "mp_boot p \<longleftrightarrow> fst p = {} \<and> mp_free (snd p) = [] \<and> mp_fresh (snd p) = 0 \<and> length (mp_junk (snd p)) = MBUF_SIZE"

definition mp_inv :: "nat set \<times> mpool \<Rightarrow> bool" where
  "mp_inv p \<longleftrightarrow> (let H = fst p; s = snd p in
     distinct (mp_free s) \<and> set (mp_free s) \<inter> H = {} \<and> length (mp_junk s) = MBUF_SIZE \<and>
     (\<forall>i \<in> H \<union> set (mp_free s). i < mp_fresh s \<and> (\<exists>m. mp_bufs s i = Some m \<and> tied i m s)) \<and>
     (\<forall>i \<in> set (mp_free s). \<exists>m. mp_bufs s i = Some m \<and> mb_head m = 0 \<and> mb_len m = 0))"

lemma mp_invD:
  assumes "mp_inv (H, s)"
  shows "distinct (mp_free s)" "set (mp_free s) \<inter> H = {}" "length (mp_junk s) = MBUF_SIZE"
    "i \<in> H \<union> set (mp_free s) \<Longrightarrow> i < mp_fresh s \<and> (\<exists>m. mp_bufs s i = Some m \<and> tied i m s)"
    "i \<in> set (mp_free s) \<Longrightarrow> \<exists>m. mp_bufs s i = Some m \<and> mb_head m = 0 \<and> mb_len m = 0"
  using assms by (auto simp: mp_inv_def Let_def)

text \<open>What an allocation gives: a buffer that is not in use, empty, with the room for the headers in front of it.\<close>

lemma mbuf_alloc_spec:
  assumes "mp_inv (H, s)"
  obtains i m s' where "mbuf_alloc MBUF_DEFROOM s = Inr (i, s')" "i \<notin> H" "mp_bufs s' = (mp_bufs s)(i \<mapsto> m)" "tied i m s'"
    "mb_head m = int MBUF_DEFROOM" "mb_len m = 0" "set (mp_free s') = set (mp_free s) - {i}" "distinct (mp_free s')"
    "mp_fresh s \<le> mp_fresh s'" "i < mp_fresh s'" "mp_phys s' = mp_phys s" "mp_junk s' = mp_junk s"
proof (cases "mp_free s")
  case Nil
  let ?i = "mp_fresh s"
  have "?i \<notin> H" using mp_invD(4) [OF assms, of ?i] by auto
  then show ?thesis using that [of ?i] Nil mp_invD(3) [OF assms] by (simp add: mbuf_alloc_def tied_def)
next
  case (Cons f fs)
  obtain m where m: "mp_bufs s f = Some m" "mb_head m = 0" "mb_len m = 0" "tied f m s" "f < mp_fresh s" "f \<notin> H" "f \<notin> set fs" "distinct fs"
    using mp_invD(5) [OF assms, of f] mp_invD(4) [OF assms, of f] mp_invD(1,2) [OF assms] Cons by auto
  then show ?thesis using that [of f] Cons by (simp add: mbuf_alloc_def tied_def)
qed

lemma mbuf_free_spec:
  assumes "mp_bufs s i = Some m" "mb_next m = None"
  shows "mbuf_free i s = Some (Inr (s\<lparr>mp_bufs := (mp_bufs s)(i \<mapsto> mbuf_reset m), mp_free := i # mp_free s\<rparr>))"
  using assms by (simp add: mbuf_free_def free_loop.simps)

lemma mp_inv_step: "mp_step p q \<Longrightarrow> mp_inv p \<Longrightarrow> mp_inv q"
proof (induction rule: mp_step.induct)
  case (mp_alloc s i s' H)
  note d = mp_invD [OF mp_alloc.prems]
  obtain m where a: "i \<notin> H" "mp_bufs s' = (mp_bufs s)(i \<mapsto> m)" "tied i m s'" "set (mp_free s') = set (mp_free s) - {i}" "distinct (mp_free s')"
    "mp_fresh s \<le> mp_fresh s'" "i < mp_fresh s'" "mp_phys s' = mp_phys s" "mp_junk s' = mp_junk s"
    using mbuf_alloc_spec [OF mp_alloc.prems] mp_alloc.hyps by auto
  have "tied j x s' = tied j x s" for j x using a(8) by (simp add: tied_def)
  then have "\<forall>j \<in> insert i H \<union> set (mp_free s'). j < mp_fresh s' \<and> (\<exists>x. mp_bufs s' j = Some x \<and> tied j x s')"
    using a d(4) by (fastforce simp: a(2,4))
  then show ?case using a d(1,2,3,5) by (simp add: mp_inv_def Let_def) blast
next
  case (mp_use i H m s)
  note d = mp_invD [OF mp_use.prems]
  have t: "tied j x (s\<lparr>mp_bufs := b\<rparr>) = tied j x s" for j x b by (simp add: tied_def)
  have "i \<notin> set (mp_free s)" using d(2) mp_use.hyps by blast
  then show ?case using d mp_use.hyps by (auto simp: mp_inv_def Let_def t)
next
  case (mp_free i H s s')
  note d = mp_invD [OF mp_free.prems]
  obtain m where m: "mp_bufs s i = Some m" "tied i m s" "i < mp_fresh s" using d(4) [of i] mp_free.hyps by blast
  then have s': "s' = s\<lparr>mp_bufs := (mp_bufs s)(i \<mapsto> mbuf_reset m), mp_free := i # mp_free s\<rparr>"
    using mbuf_free_spec [of s i m] mp_free.hyps by (simp add: tied_def)
  have t: "tied j x s' = tied j x s" for j x by (simp add: tied_def s')
  have r: "tied i (mbuf_reset m) s" using m(2) by (simp add: tied_def mbuf_reset_def)
  have "i \<notin> set (mp_free s)" using d(2) mp_free.hyps by blast
  moreover have "\<forall>j \<in> (H - {i}) \<union> set (mp_free s'). j < mp_fresh s' \<and> (\<exists>x. mp_bufs s' j = Some x \<and> tied j x s')"
    using d(4) m(3) r unfolding t by (auto simp: s')
  ultimately show ?case using d unfolding mp_inv_def Let_def by (auto simp: s' mbuf_reset_def)
qed

lemma mp_inv_boot: "mp_boot p \<Longrightarrow> mp_inv p"
  by (auto simp: mp_boot_def mp_inv_def Let_def)

interpretation pool: keeps mp_boot mp_step mp_inv
  by unfold_locales (fact mp_inv_boot, fact mp_inv_step)

text \<open>
  C32. Packet buffers under any use of the pool: an allocation always succeeds and gives a buffer that nobody holds, empty, with its physical address
  at its head and room for 128 bytes of headers and 1920 bytes of data; the buffers that are held stay as they are.
\<close>

theorem mbufs_apart:
  assumes "reach mp_boot mp_step (H, s)"
  shows "\<exists>i s' m. mbuf_alloc MBUF_DEFROOM s = Inr (i, s') \<and> i \<notin> H \<and> (\<forall>j \<in> H. mp_bufs s' j = mp_bufs s j) \<and>
    mp_bufs s' i = Some m \<and> mb_ok m \<and> mb_bytes m = [] \<and> mb_front m = 128 \<and> mb_back m = 1920 \<and> mb_phy m = mp_phys s i + 128"
proof -
  have "mp_inv (H, s)" using assms by (rule pool.good_reach)
  then obtain i m s' where a: "mbuf_alloc MBUF_DEFROOM s = Inr (i, s')" "i \<notin> H" "mp_bufs s' = (mp_bufs s)(i \<mapsto> m)" "tied i m s'"
    "mb_head m = int MBUF_DEFROOM" "mb_len m = 0" "mp_phys s' = mp_phys s"
    by (rule mbuf_alloc_spec)
  then show ?thesis
    by (intro exI [of _ i] exI [of _ s'] exI [of _ m])
      (auto simp: tied_def mb_ok_def mb_bytes_def mb_front_def mb_back_def MBUF_SIZE_def MBUF_DEFROOM_def)
qed

text \<open>
  A packet in a buffer: data of up to 1920 bytes, with headers put in front of it one after the other, is in the buffer the headers from the last
  to the first and then the data, and pulling the headers off again leaves the data.
\<close>

theorem mbuf_packet:
  assumes "mb_ok m" "mb_bytes m = []" "mb_front m = 128" "mb_back m = 1920" "length d \<le> 1920" "length (concat hs) \<le> 128"
  shows "\<exists>m1 m2. mbuf_append d m = Inr m1 \<and> foldl (\<lambda>r h. bind_result r (mbuf_prepend h)) (Inr m1) hs = Inr m2 \<and>
    mb_bytes m2 = concat (rev hs) @ d \<and> mb_bytes (fold (\<lambda>h m. snd (mbuf_pull (length h) m)) (rev hs) m2) = d"
proof -
  have inl: "foldl (\<lambda>r h. bind_result r (mbuf_prepend h)) (Inl e) hs = Inl e" for e hs by (induction hs) simp_all
  have "mbufs.headers hs m1 = foldl (\<lambda>r h. bind_result r (mbuf_prepend h)) (Inr m1) hs" for m1
  proof (induction hs arbitrary: m1)
    case (Cons h hs)
    then show ?case by (cases "mbuf_prepend h m1") (simp_all add: inl)
  qed simp
  then show ?thesis using mbufs.packet_through [of m d hs] assms by simp
qed

section \<open>Examples\<close>

definition demo_pool :: mpool where
  "demo_pool = \<lparr>mp_bufs = Map.empty, mp_free = [], mp_fresh = 0, mp_phys = (\<lambda>i. of_nat i * 4096), mp_junk = replicate MBUF_SIZE 0\<rparr>"

theorem mbufs_apart_witness:
  "\<exists>i s' m. mbuf_alloc MBUF_DEFROOM demo_pool = Inr (i, s') \<and> mp_bufs s' i = Some m \<and> mb_bytes m = [] \<and> mb_front m = 128"
  using mbufs_apart [of "{}" demo_pool, OF reach_start] by (fastforce simp: mp_boot_def demo_pool_def)

theorem mbuf_packet_witness:
  "\<exists>m m1 m2. mbuf_append [7, 8] m = Inr m1 \<and> foldl (\<lambda>r h. bind_result r (mbuf_prepend h)) (Inr m1) [[1, 2], [3]] = Inr m2 \<and> mb_bytes m2 = [3, 1, 2, 7, 8]"
proof -
  let ?m = "\<lparr>mb_buf = replicate 2048 0, mb_head = 128, mb_next = None, mb_phy = 0, mb_len = 0, mb_dlen = 0, mb_id = 0, mb_flgs = 0\<rparr>"
  show ?thesis using mbuf_packet [of ?m "[7, 8]" "[[1, 2], [3]]"]
    by (auto simp: mb_ok_def mb_bytes_def mb_front_def mb_back_def MBUF_SIZE_def)
qed

end
