(* ===== verification/Ktimer.thy ===== *)
theory Ktimer
  imports Klist
begin

text \<open>
  kernel/ktimer.c: timers that call a function when they expire. The timers are threaded into a list through the store of Klist; node 0 is the
  head \<open>timers\<close>. A function and its argument are numbers; running them is the argument \<open>call\<close> of the operations.
\<close>

section \<open>Operations\<close>

record ktimer_t =
  kt_func :: nat
  kt_arg :: nat
  kt_expires :: u64
  kt_dead :: bool

record 'x ktimers =
  kt_links :: links
  kt_of :: "node \<Rightarrow> ktimer_t"
  kt_ktick :: u64
  kt_rest :: 'x

definition set_timer :: "node \<Rightarrow> ktimer_t \<Rightarrow> 'x ktimers \<Rightarrow> 'x ktimers" where
  "set_timer n t s = s\<lparr>kt_of := (kt_of s)(n := t)\<rparr>"

definition ktimer :: "node \<Rightarrow> nat \<Rightarrow> nat \<Rightarrow> u64 \<Rightarrow> 'x ktimers \<Rightarrow> 'x ktimers" where
  "ktimer n func arg ms s =
     (let t = (kt_of s n)\<lparr>kt_func := func, kt_arg := arg, kt_expires := kt_ktick s + ms\<rparr>
      in if \<not> kt_dead t then set_timer n t s
         else (set_timer n (t\<lparr>kt_dead := False\<rparr>) s)\<lparr>kt_links := list_insert (kt_links s) 0 n\<rparr>)"

definition ktimer_init :: "node \<Rightarrow> 'x ktimers \<Rightarrow> 'x ktimers" where
  "ktimer_init n s = set_timer n ((kt_of s n)\<lparr>kt_dead := True\<rparr>) s"

definition ktimer_kill :: "node \<Rightarrow> 'x ktimers \<Rightarrow> 'x ktimers" where
  "ktimer_kill n s =
     (if kt_dead (kt_of s n) then s
      else (set_timer n ((kt_of s n)\<lparr>kt_dead := True\<rparr>) s)\<lparr>kt_links := list_remove (kt_links s) n\<rparr>)"

definition ktimer_fire :: "(nat \<Rightarrow> nat \<Rightarrow> 'x ktimers \<Rightarrow> 'x ktimers) \<Rightarrow> node \<Rightarrow> 'x ktimers \<Rightarrow> 'x ktimers" where
  "ktimer_fire call n s =
     (if kt_dead (kt_of s n) then s
      else let s1 = ktimer_kill n s in call (kt_func (kt_of s1 n)) (kt_arg (kt_of s1 n)) s1)"

text \<open>The loop of \<open>ktimer_check\<close>: the next node is read before the timer is fired.\<close>

partial_function (option) check_loop ::
  "(nat \<Rightarrow> nat \<Rightarrow> 'x ktimers \<Rightarrow> 'x ktimers) \<Rightarrow> node \<Rightarrow> node \<Rightarrow> 'x ktimers \<Rightarrow> 'x ktimers option" where
  "check_loop call ptr nxt s =
     (if ptr = 0 then Some s
      else let s1 = (if kt_expires (kt_of s ptr) > kt_ktick s then s else ktimer_fire call ptr s)
           in check_loop call nxt (lnext (kt_links s1) nxt) s1)"

definition ktimer_check :: "(nat \<Rightarrow> nat \<Rightarrow> 'x ktimers \<Rightarrow> 'x ktimers) \<Rightarrow> 'x ktimers \<Rightarrow> 'x ktimers option" where
  "ktimer_check call s =
     (let ptr = lnext (kt_links s) 0; nxt = lnext (kt_links s) ptr in check_loop call ptr nxt s)"

section \<open>Armed timers\<close>

text \<open>The list holds exactly the timers that are not dead; \<open>xs\<close> is the list and \<open>ns\<close> the timers that were initialised.\<close>

definition armed :: "node set \<Rightarrow> node list \<Rightarrow> 'x ktimers \<Rightarrow> bool" where
  "armed ns xs s \<longleftrightarrow> ring (kt_links s) 0 xs \<and> 0 \<notin> ns \<and> (\<forall>n. n \<in> set xs \<longleftrightarrow> n \<in> ns \<and> \<not> kt_dead (kt_of s n))"

lemma ktimer_timers:
  "kt_of (ktimer n func arg ms s) = (kt_of s)(n := \<lparr>kt_func = func, kt_arg = arg, kt_expires = kt_ktick s + ms, kt_dead = False\<rparr>)"
  "kt_links (ktimer n func arg ms s) = (if kt_dead (kt_of s n) then list_insert (kt_links s) 0 n else kt_links s)"
  by (cases "kt_of s n"; simp add: ktimer_def set_timer_def Let_def)+

lemma ktimer_armed:
  assumes "armed ns xs s" "n \<in> ns"
  shows "armed ns (if kt_dead (kt_of s n) then n # xs else xs) (ktimer n func arg ms s)"
proof (cases "kt_dead (kt_of s n)")
  case True
  then have "n \<notin> set (0 # xs)" using assms unfolding armed_def by fastforce
  then have "ring (list_insert (kt_links s) 0 n) 0 (n # xs)"
    using list_pushhead_ring [of "kt_links s" 0 xs n] assms(1) unfolding armed_def list_insert_def list_pushhead_def by simp
  then show ?thesis using assms True unfolding armed_def ktimer_timers by auto
next
  case False
  then show ?thesis using assms unfolding armed_def ktimer_timers by auto
qed

lemma ktimer_kill_armed:
  assumes "armed ns (ys @ n # zs) s"
  shows "armed ns (ys @ zs) (ktimer_kill n s)" "kt_links (ktimer_kill n s) = list_remove (kt_links s) n"
    "kt_of (ktimer_kill n s) = (kt_of s)(n := (kt_of s n)\<lparr>kt_dead := True\<rparr>)" "kt_ktick (ktimer_kill n s) = kt_ktick s" "kt_rest (ktimer_kill n s) = kt_rest s"
proof -
  have a: "\<not> kt_dead (kt_of s n)" "n \<notin> set (ys @ zs)" using assms by (auto simp: armed_def ring_def)
  show "armed ns (ys @ zs) (ktimer_kill n s)"
    using assms a list_remove_ring [of "kt_links s" 0 ys n zs] by (auto simp: armed_def ktimer_kill_def set_timer_def)
  show "kt_links (ktimer_kill n s) = list_remove (kt_links s) n" "kt_of (ktimer_kill n s) = (kt_of s)(n := (kt_of s n)\<lparr>kt_dead := True\<rparr>)"
    "kt_ktick (ktimer_kill n s) = kt_ktick s" "kt_rest (ktimer_kill n s) = kt_rest s"
    using a by (simp_all add: ktimer_kill_def set_timer_def)
qed

section \<open>The check\<close>

text \<open>What the functions of the timers may do here: anything to the rest of the system, nothing to the timers.\<close>

definition leaves_timers :: "(nat \<Rightarrow> nat \<Rightarrow> 'x ktimers \<Rightarrow> 'x ktimers) \<Rightarrow> bool" where
  "leaves_timers call \<longleftrightarrow> (\<forall>f a s. kt_links (call f a s) = kt_links s \<and> kt_of (call f a s) = kt_of s \<and> kt_ktick (call f a s) = kt_ktick s)"

definition due :: "'x ktimers \<Rightarrow> node \<Rightarrow> bool" where
  "due s n \<longleftrightarrow> kt_expires (kt_of s n) \<le> kt_ktick s"

text \<open>The functions of the timers that are due, called in the order of the list.\<close>

definition call_due :: "(nat \<Rightarrow> nat \<Rightarrow> 'x ktimers \<Rightarrow> 'x ktimers) \<Rightarrow> node list \<Rightarrow> 'x ktimers \<Rightarrow> 'x ktimers" where
  "call_due call xs s = fold (\<lambda>n s. ktimer_fire call n s) (filter (due s) xs) s"

lemma fire_armed:
  assumes "armed ns (ys @ n # zs) s" "leaves_timers call"
  shows "armed ns (ys @ zs) (ktimer_fire call n s)" "kt_links (ktimer_fire call n s) = list_remove (kt_links s) n"
    "kt_of (ktimer_fire call n s) = (kt_of s)(n := (kt_of s n)\<lparr>kt_dead := True\<rparr>)" "kt_ktick (ktimer_fire call n s) = kt_ktick s"
proof -
  have "\<not> kt_dead (kt_of s n)" using assms by (auto simp: armed_def)
  then have f: "ktimer_fire call n s = call (kt_func (kt_of s n)) (kt_arg (kt_of s n)) (ktimer_kill n s)"
    by (simp add: ktimer_fire_def ktimer_kill_def set_timer_def)
  note k = ktimer_kill_armed [OF assms(1)]
  show "armed ns (ys @ zs) (ktimer_fire call n s)" using k(1) assms(2) by (simp add: f armed_def leaves_timers_def)
  show "kt_links (ktimer_fire call n s) = list_remove (kt_links s) n" "kt_of (ktimer_fire call n s) = (kt_of s)(n := (kt_of s n)\<lparr>kt_dead := True\<rparr>)"
    "kt_ktick (ktimer_fire call n s) = kt_ktick s"
    using k assms(2) by (simp_all add: f leaves_timers_def)
qed

lemma next_in_ring: "ring l 0 (ys @ x # zs) \<Longrightarrow> lnext l x = hd (zs @ [0])"
  using chain_first [of l x zs 0] by (simp add: ring_def chain_append)

lemma check_loop_spec:
  assumes "armed ns (ys @ zs) s" "leaves_timers call" "ptr = hd (zs @ [0])" "zs \<noteq> [] \<Longrightarrow> nxt = hd (tl zs @ [0])"
  shows "\<exists>s'. check_loop call ptr nxt s = Some s' \<and> s' = call_due call zs s \<and>
    armed ns (ys @ filter (\<lambda>n. \<not> due s n) zs) s' \<and> kt_ktick s' = kt_ktick s \<and>
    kt_of s' = (\<lambda>n. if n \<in> set zs \<and> due s n then (kt_of s n)\<lparr>kt_dead := True\<rparr> else kt_of s n)"
  using assms
proof (induction zs arbitrary: ys s ptr nxt)
  case Nil
  then show ?case by (subst check_loop.simps) (simp add: call_due_def)
next
  case (Cons z zs)
  have z: "ptr = z" "nxt = hd (zs @ [0])" "z \<noteq> 0" "z \<notin> set zs" using Cons.prems by (auto simp: armed_def ring_def)
  define s1 where "s1 = (if kt_expires (kt_of s z) > kt_ktick s then s else ktimer_fire call z s)"
  have step: "check_loop call ptr nxt s = check_loop call nxt (lnext (kt_links s1) nxt) s1"
    using z by (subst check_loop.simps) (simp add: s1_def Let_def)
  define vs where "vs = (if due s z then ys else ys @ [z])"
  note f = fire_armed [OF Cons.prems(1,2)]
  have s1: "s1 = (if due s z then ktimer_fire call z s else s)" by (simp add: s1_def due_def linorder_not_le [symmetric])
  have a1: "armed ns (vs @ zs) s1" using Cons.prems(1) f(1) by (simp add: s1 vs_def)
  have t1: "kt_ktick s1 = kt_ktick s" "kt_of s1 = (if due s z then (kt_of s)(z := (kt_of s z)\<lparr>kt_dead := True\<rparr>) else kt_of s)"
    using f(3,4) by (simp_all add: s1)
  have n1: "zs \<noteq> [] \<Longrightarrow> lnext (kt_links s1) nxt = hd (tl zs @ [0])"
    using a1 z(2) next_in_ring [of "kt_links s1" vs "hd zs" "tl zs"] by (cases zs) (simp_all add: armed_def)
  have same: "due s1 n = due s n" for n using t1 by (simp add: due_def)
  obtain s' where s': "check_loop call nxt (lnext (kt_links s1) nxt) s1 = Some s'" "s' = call_due call zs s1"
      "armed ns (vs @ filter (\<lambda>n. \<not> due s1 n) zs) s'" "kt_ktick s' = kt_ktick s1"
      "kt_of s' = (\<lambda>n. if n \<in> set zs \<and> due s1 n then (kt_of s1 n)\<lparr>kt_dead := True\<rparr> else kt_of s1 n)"
    using Cons.IH [OF a1 Cons.prems(2) z(2) n1] by blast
  have d: "due s1 = due s" using same by (simp add: fun_eq_iff)
  have "call_due call (z # zs) s = call_due call zs s1" by (simp add: call_due_def d) (simp add: s1)
  moreover have "armed ns (ys @ filter (\<lambda>n. \<not> due s n) (z # zs)) s'" using s'(3) by (cases "due s z") (simp_all add: d vs_def)
  moreover have "kt_of s' = (\<lambda>n. if n \<in> set (z # zs) \<and> due s n then (kt_of s n)\<lparr>kt_dead := True\<rparr> else kt_of s n)"
    unfolding s'(5) d t1(2) using z(4) by (auto simp: fun_eq_iff)
  ultimately show ?case using step s'(1,2,4) t1(1) by simp
qed

text \<open>
  A tick: \<open>ktimer_check\<close> returns; the functions of the timers that are due have been called, each once and in the order of the list; these
  timers are dead and out of the list, and the others wait in it as before.
\<close>

lemma ktimer_check_spec:
  assumes "armed ns xs s" "leaves_timers call"
  shows "\<exists>s'. ktimer_check call s = Some s' \<and> s' = fold (ktimer_fire call) (filter (due s) xs) s \<and> armed ns (filter (\<lambda>n. \<not> due s n) xs) s' \<and>
    (\<forall>n. kt_of s' n = (if n \<in> set xs \<and> due s n then (kt_of s n)\<lparr>kt_dead := True\<rparr> else kt_of s n))"
proof -
  have "lnext (kt_links s) 0 = hd (xs @ [0])" using chain_first assms(1) by (simp add: armed_def ring_def)
  moreover have "xs \<noteq> [] \<Longrightarrow> lnext (kt_links s) (hd (xs @ [0])) = hd (tl xs @ [0])"
    using next_in_ring [of "kt_links s" "[]" "hd xs" "tl xs"] assms(1) by (cases xs) (simp_all add: armed_def)
  ultimately show ?thesis
    using check_loop_spec [of ns "[]" xs s call "hd (xs @ [0])"] assms by (simp add: ktimer_check_def Let_def call_due_def)
qed

text \<open>
  Functions that leave the timers alone: they change the rest of the system only. Firing the timers of a list is then calling their
  functions with their arguments, one after the other.
\<close>

definition runs :: "(nat \<Rightarrow> nat \<Rightarrow> 'x \<Rightarrow> 'x) \<Rightarrow> nat \<Rightarrow> nat \<Rightarrow> 'x ktimers \<Rightarrow> 'x ktimers" where
  "runs g f a s = s\<lparr>kt_rest := g f a (kt_rest s)\<rparr>"

lemma runs_leaves: "leaves_timers (runs g)"
  by (simp add: leaves_timers_def runs_def)

lemma fire_runs:
  assumes "armed ns xs s" "n \<in> set xs"
  shows "kt_rest (ktimer_fire (runs g) n s) = g (kt_func (kt_of s n)) (kt_arg (kt_of s n)) (kt_rest s)"
  using assms by (simp add: armed_def ktimer_fire_def ktimer_kill_def set_timer_def runs_def)

lemma fold_fire_runs:
  assumes "armed ns xs s" "set ds \<subseteq> set xs" "distinct ds"
  shows "kt_rest (fold (ktimer_fire (runs g)) ds s) = fold (\<lambda>n. g (kt_func (kt_of s n)) (kt_arg (kt_of s n))) ds (kt_rest s)"
  using assms
proof (induction ds arbitrary: xs s)
  case (Cons d ds)
  obtain ys zs where xs: "xs = ys @ d # zs" using Cons.prems(2) split_list [of d xs] by auto
  note f = fire_armed [OF Cons.prems(1) [unfolded xs] runs_leaves [of g]]
  have "kt_rest (fold (ktimer_fire (runs g)) ds (ktimer_fire (runs g) d s)) =
      fold (\<lambda>n. g (kt_func (kt_of (ktimer_fire (runs g) d s) n)) (kt_arg (kt_of (ktimer_fire (runs g) d s) n))) ds (kt_rest (ktimer_fire (runs g) d s))"
    using Cons.prems(2,3) by (intro Cons.IH [OF f(1)]) (auto simp: xs)
  also have "\<dots> = fold (\<lambda>n. g (kt_func (kt_of s n)) (kt_arg (kt_of s n))) ds (kt_rest (ktimer_fire (runs g) d s))"
    using Cons.prems(3) by (intro fold_cong) (auto simp: f(3))
  also have "kt_rest (ktimer_fire (runs g) d s) = g (kt_func (kt_of s d)) (kt_arg (kt_of s d)) (kt_rest s)"
    using Cons.prems(1,2) by (intro fire_runs) auto
  finally show ?case by simp
qed simp

text \<open>
  C23. A timer that is started runs out: the first check at or after its tick calls the function that was given to \<open>ktimer\<close> with the argument that was
  given, and the functions of exactly the other armed timers that are due, each once, and nothing else changes the rest of the system. These
  timers are dead afterwards and no others die. The functions are taken to leave the timers alone, and \<open>n\<close> to be one of the initialised timers.
\<close>

theorem ktimer_runs_out:
  assumes "armed ns xs s" "n \<in> ns" "t = (ktimer n func arg ms s)\<lparr>kt_ktick := now\<rparr>" "kt_ktick s + ms \<le> now"
  shows "\<exists>s' ds. ktimer_check (runs g) t = Some s' \<and> distinct ds \<and> n \<in> set ds \<and>
    set ds = {k \<in> ns. \<not> kt_dead (kt_of t k) \<and> kt_expires (kt_of t k) \<le> now} \<and>
    kt_rest s' = fold (\<lambda>k. g (kt_func (kt_of t k)) (kt_arg (kt_of t k))) ds (kt_rest s) \<and>
    kt_func (kt_of t n) = func \<and> kt_arg (kt_of t n) = arg \<and>
    (\<forall>k. kt_dead (kt_of s' k) \<longleftrightarrow> k \<in> set ds \<or> kt_dead (kt_of t k))"
proof -
  define ys where "ys = (if kt_dead (kt_of s n) then n # xs else xs)"
  have "armed ns ys (ktimer n func arg ms s)" using ktimer_armed [OF assms(1,2)] by (simp add: ys_def)
  then have t: "armed ns ys t" by (simp add: assms(3) armed_def)
  then have y: "distinct ys" "\<And>k. k \<in> set ys \<longleftrightarrow> k \<in> ns \<and> \<not> kt_dead (kt_of t k)" by (auto simp: armed_def ring_def)
  have o: "kt_of t n = \<lparr>kt_func = func, kt_arg = arg, kt_expires = kt_ktick s + ms, kt_dead = False\<rparr>"
    by (simp add: assms(3) ktimer_timers)
  have n: "kt_ktick t = now" "kt_rest t = kt_rest s" by (simp_all add: assms(3) ktimer_def set_timer_def Let_def)
  obtain s' where s': "ktimer_check (runs g) t = Some s'" "s' = fold (ktimer_fire (runs g)) (filter (due t) ys) t"
      "\<forall>k. kt_of s' k = (if k \<in> set ys \<and> due t k then (kt_of t k)\<lparr>kt_dead := True\<rparr> else kt_of t k)"
    using ktimer_check_spec [OF t runs_leaves] by blast
  have "kt_rest s' = fold (\<lambda>k. g (kt_func (kt_of t k)) (kt_arg (kt_of t k))) (filter (due t) ys) (kt_rest s)"
    unfolding s'(2) n(2) [symmetric] by (rule fold_fire_runs [OF t]) (use y(1) in auto)
  moreover have "set (filter (due t) ys) = {k \<in> ns. \<not> kt_dead (kt_of t k) \<and> kt_expires (kt_of t k) \<le> now}"
    using y(2) by (auto simp: due_def n(1))
  moreover have "n \<in> set (filter (due t) ys)" using y(2) assms(2,4) o by (simp add: due_def n(1))
  ultimately show ?thesis using s'(1,3) y(1) o by (intro exI [of _ s'] exI [of _ "filter (due t) ys"]) auto
qed

section \<open>An example\<close>

text \<open>Two timers in a list and functions that note that they were called.\<close>

definition demo_timers :: "(nat \<times> nat) list ktimers" where
  "demo_timers = \<lparr>kt_links = list_insert (list_init \<lparr>lprev = (\<lambda>_. 0), lnext = (\<lambda>_. 0)\<rparr> 0) 0 1,
     kt_of = (\<lambda>n. \<lparr>kt_func = 0, kt_arg = n, kt_expires = 9, kt_dead = n \<noteq> 1\<rparr>), kt_ktick = 3, kt_rest = []\<rparr>"

definition demo_note :: "nat \<Rightarrow> nat \<Rightarrow> (nat \<times> nat) list \<Rightarrow> (nat \<times> nat) list" where
  "demo_note f a rest = (f, a) # rest"

theorem ktimer_runs_out_witness:
  "\<exists>s'. ktimer_check (runs demo_note) ((ktimer 2 5 77 4 demo_timers)\<lparr>kt_ktick := 8\<rparr>) = Some s' \<and> kt_rest s' = [(5, 77)] \<and>
     kt_dead (kt_of s' 2) \<and> \<not> kt_dead (kt_of s' 1)"
proof -
  let ?t = "(ktimer 2 5 77 4 demo_timers)\<lparr>kt_ktick := 8\<rparr>"
  have "armed {1, 2} [1] demo_timers"
    by (auto simp: armed_def demo_timers_def ring_def list_insert_def list_insert_after_def list_init_def Let_def)
  note a = this
  have k: "kt_ktick demo_timers + 4 \<le> 8" and z: "kt_rest demo_timers = []" by (simp_all add: demo_timers_def)
  note w = ktimer_runs_out [OF a _ refl k, where n = 2 and func = 5 and arg = 77 and g = demo_note, unfolded z]
  from w [OF insertI2 [OF insertI1]] obtain s' ds where s': "ktimer_check (runs demo_note) ?t = Some s'" "distinct ds" "2 \<in> set ds"
      "set ds = {k \<in> {1, 2}. \<not> kt_dead (kt_of ?t k) \<and> kt_expires (kt_of ?t k) \<le> 8}"
      "kt_rest s' = fold (\<lambda>k. demo_note (kt_func (kt_of ?t k)) (kt_arg (kt_of ?t k))) ds []" "kt_func (kt_of ?t 2) = 5" "kt_arg (kt_of ?t 2) = 77"
      "\<And>k. kt_dead (kt_of s' k) \<longleftrightarrow> k \<in> set ds \<or> kt_dead (kt_of ?t k)"
    by blast
  have d: "kt_expires (kt_of ?t 1) = 9" "\<not> kt_dead (kt_of ?t 1)"
    by (simp_all add: ktimer_timers demo_timers_def)
  have "set ds = {2}" using s'(3,4) d(1) by auto
  then have "ds = [2]" using s'(2) by (cases ds rule: remdups_adj.cases) auto
  then show ?thesis using s'(1,5-8) d(2) by (intro exI [of _ s']) (simp add: demo_note_def)
qed

end
