(* ===== verification/Exec.thy ===== *)
theory Exec
  imports Prelude
begin

unbundle bit_operations_syntax

text \<open>
  kernel/user/exec.c: the arguments and the environment of a new program on its stack. Memory is a function from addresses to bytes. An argument
  vector is the list of its strings without their terminators; the null pointer ends it in memory.
\<close>

section \<open>Memory\<close>

type_synonym umem = "int \<Rightarrow> u8"

definition put_bytes :: "int \<Rightarrow> bytes \<Rightarrow> umem \<Rightarrow> umem" where
  "put_bytes p bs mem = (\<lambda>q. if p \<le> q \<and> q < p + int (length bs) then bs ! nat (q - p) else mem q)"

definition long_bytes :: "int \<Rightarrow> bytes" where
  "long_bytes v = map (\<lambda>j. ucast (drop_bit (8 * j) (word_of_int v :: u64))) [0..<8]"

section \<open>Operations\<close>

definition align :: "int \<Rightarrow> int" where
  "align x = (x + 8 - 1) AND NOT (8 - 1)"

text \<open>The loop of \<open>copyarg\<close>; without \<open>idx\<close> it only counts.\<close>

fun copy_loop :: "int option \<Rightarrow> int \<Rightarrow> bytes list \<Rightarrow> int \<Rightarrow> int \<Rightarrow> umem \<Rightarrow> int \<times> int \<times> umem" where
  "copy_loop idx p [] l i mem = (l, i, mem)"
| "copy_loop idx p (a # arr) l i mem =
     (let x = align (int (length a))
      in case idx of
           None \<Rightarrow> copy_loop idx p arr (l + x) (i + 1) mem
         | Some q \<Rightarrow>
             copy_loop idx (p + x) arr (l + x) (i + 1) (put_bytes p (a @ [0]) (put_bytes (q + 8 * i) (long_bytes p) mem)))"

definition copyarg :: "int option \<Rightarrow> int \<Rightarrow> bytes list \<Rightarrow> umem \<Rightarrow> int \<times> int \<times> umem" where
  "copyarg idx new arr mem =
     (let (l, i, mem1) = copy_loop idx new arr 0 0 mem
      in (l, i, case idx of None \<Rightarrow> mem1 | Some q \<Rightarrow> put_bytes (q + 8 * i) (long_bytes 0) mem1))"

definition build :: "int \<Rightarrow> bytes list \<Rightarrow> bytes list \<Rightarrow> umem \<Rightarrow> int \<times> umem" where
  "build bp argv envp mem =
     (let (len, nenvc, _) = copyarg None 0 envp mem;
          str_envp = bp - len;
          (len1, nargc, _) = copyarg None 0 argv mem;
          str_argv = str_envp - len1;
          rem = 1 + nargc + 1 + nenvc + 1;
          bp1 = (if (str_argv - rem * 8) AND 15 \<noteq> 0 then str_argv - 8 else str_argv);
          nenvp = bp1 - 8 * (nenvc + 1);
          (_, _, mem1) = copyarg (Some nenvp) str_envp envp mem;
          nargv = nenvp - 8 * (nargc + 1);
          (_, _, mem2) = copyarg (Some nargv) str_argv argv mem1;
          bp2 = nargv - 8
      in (bp2, put_bytes bp2 (long_bytes nargc) mem2))"

section \<open>What is in memory\<close>

definition holds :: "umem \<Rightarrow> int \<Rightarrow> bytes \<Rightarrow> bool" where
  "holds mem p bs \<longleftrightarrow> (\<forall>j < length bs. mem (p + int j) = bs ! j)"

text \<open>A vector at \<open>q\<close>: pointers to strings, the first at \<open>p\<close>, and the null pointer.\<close>

fun args_at :: "umem \<Rightarrow> int \<Rightarrow> int \<Rightarrow> bytes list \<Rightarrow> bool" where
  "args_at mem q p [] \<longleftrightarrow> holds mem q (long_bytes 0)"
| "args_at mem q p (a # arr) \<longleftrightarrow>
     holds mem q (long_bytes p) \<and> holds mem p (a @ [0]) \<and> args_at mem (q + 8) (p + align (int (length a))) arr"

definition strings_len :: "bytes list \<Rightarrow> int" where
  "strings_len arr = (\<Sum>a\<leftarrow>arr. align (int (length a)))"

lemma align_eq: "align x = 8 * ((x + 7) div 8)"
proof -
  have "align x = (x + 7) AND NOT (mask 3)" by (simp add: align_def mask_eq_exp_minus_1 add.commute)
  also have "\<dots> = push_bit 3 (drop_bit 3 (x + 7))" by (rule bit_eqI) (auto simp: bit_simps)
  finally show ?thesis by (simp add: push_bit_eq_mult drop_bit_eq_div)
qed

lemma align_room: "n mod 8 \<noteq> 0 \<Longrightarrow> int n + 1 \<le> align (int n)"
  unfolding align_eq by presburger

lemma align_nonneg: "0 \<le> n \<Longrightarrow> 0 \<le> align n" "align n mod 8 = 0"
  unfolding align_eq by simp_all

lemma align_whole: "n mod 8 = 0 \<Longrightarrow> align n = n"
  unfolding align_eq by presburger

lemma strings_len_simps [simp]: "strings_len [] = 0" "strings_len (a # arr) = align (int (length a)) + strings_len arr"
  by (simp_all add: strings_len_def)

lemma strings_len_nonneg: "0 \<le> strings_len arr" "strings_len arr mod 8 = 0"
proof (induction arr)
  case (Cons a arr)
  case 1
  show ?case using Cons align_nonneg(1) [of "int (length a)"] by simp
  case 2
  show ?case using Cons(2) align_nonneg(2) [of "int (length a)"] by (simp add: mod_add_eq [symmetric])
qed simp_all

lemma length_long [simp]: "length (long_bytes v) = 8"
  by (simp add: long_bytes_def)

lemma holds_put: "holds (put_bytes p bs mem) p bs"
  by (simp add: holds_def put_bytes_def)

lemma holds_other:
  "q + int (length cs) \<le> p \<or> p + int (length bs) \<le> q \<Longrightarrow> holds (put_bytes p bs mem) q cs = holds mem q cs"
proof -
  assume a: "q + int (length cs) \<le> p \<or> p + int (length bs) \<le> q"
  have "put_bytes p bs mem (q + int j) = mem (q + int j)" if "j < length cs" for j
    using a that unfolding put_bytes_def by (simp split: if_split) linarith
  then show ?thesis by (simp add: holds_def)
qed

text \<open>A store beyond both the pointers and the strings of a vector leaves it as it is.\<close>

definition away :: "int \<Rightarrow> int \<Rightarrow> int \<Rightarrow> int \<Rightarrow> bool" where
  "away p n q m \<longleftrightarrow> q + m \<le> p \<or> p + n \<le> q"

lemma args_at_other:
  assumes "away p (int (length bs)) q (8 * (int (length arr) + 1))" "away p (int (length bs)) r (strings_len arr)"
    "\<forall>a \<in> set arr. length a mod 8 \<noteq> 0"
  shows "args_at (put_bytes p bs mem) q r arr = args_at mem q r arr"
  using assms
proof (induction arr arbitrary: q r)
  case Nil
  then show ?case by (simp add: holds_other away_def)
next
  case (Cons a arr)
  let ?x = "align (int (length a))"
  have x: "int (length a) + 1 \<le> ?x" using Cons.prems(3) by (intro align_room) simp
  have n: "0 \<le> strings_len arr" by (rule strings_len_nonneg)
  have "holds (put_bytes p bs mem) q (long_bytes r) = holds mem q (long_bytes r)"
    using Cons.prems(1) by (intro holds_other) (auto simp: away_def)
  moreover have "holds (put_bytes p bs mem) r (a @ [0]) = holds mem r (a @ [0])"
    using Cons.prems(2) x n by (intro holds_other) (auto simp: away_def)
  moreover have "args_at (put_bytes p bs mem) (q + 8) (r + ?x) arr = args_at mem (q + 8) (r + ?x) arr"
    using Cons.prems x n by (intro Cons.IH) (auto simp: away_def)
  ultimately show ?case by simp
qed

section \<open>Copying a vector\<close>

definition same_out :: "umem \<Rightarrow> umem \<Rightarrow> int \<Rightarrow> int \<Rightarrow> int \<Rightarrow> int \<Rightarrow> bool" where
  "same_out mem mem' p n q m \<longleftrightarrow> (\<forall>z. \<not> (p \<le> z \<and> z < p + n) \<longrightarrow> \<not> (q \<le> z \<and> z < q + m) \<longrightarrow> mem' z = mem z)"

lemma holds_same:
  assumes "holds mem r bs" "same_out mem mem' p n q m" "away p n r (int (length bs))" "away q m r (int (length bs))"
  shows "holds mem' r bs"
proof -
  have "mem' (r + int j) = mem (r + int j)" if "j < length bs" for j
  proof -
    have "\<not> (p \<le> r + int j \<and> r + int j < p + n)" "\<not> (q \<le> r + int j \<and> r + int j < q + m)"
      using assms(3,4) that unfolding away_def by linarith+
    then show ?thesis using assms(2) unfolding same_out_def by blast
  qed
  then show ?thesis using assms(1) by (simp add: holds_def)
qed

lemma same_out_put: "same_out mem (put_bytes p bs mem) p (int (length bs)) q m"
  by (auto simp: same_out_def put_bytes_def)

lemma put_same: "z < p \<or> p + int (length bs) \<le> z \<Longrightarrow> put_bytes p bs mem z = mem z"
  by (auto simp: put_bytes_def)

lemma copy_count: "copy_loop None p arr l i mem = (l + strings_len arr, i + int (length arr), mem)"
  by (induction arr arbitrary: l i) (simp_all add: Let_def)

lemma copyarg_count: "copyarg None p arr mem = (strings_len arr, int (length arr), mem)"
  by (simp add: copyarg_def copy_count)

lemma copy_into:
  assumes "\<forall>a \<in> set arr. length a mod 8 \<noteq> 0" "away p (strings_len arr) (q + 8 * i) (8 * (int (length arr) + 1))"
  shows "\<exists>mem'. copy_loop (Some q) p arr l i mem = (l + strings_len arr, i + int (length arr), mem') \<and>
    args_at (put_bytes (q + 8 * (i + int (length arr))) (long_bytes 0) mem') (q + 8 * i) p arr \<and>
    same_out mem (put_bytes (q + 8 * (i + int (length arr))) (long_bytes 0) mem') p (strings_len arr) (q + 8 * i) (8 * (int (length arr) + 1))"
  using assms
proof (induction arr arbitrary: p l i mem)
  case Nil
  then show ?case by (simp add: holds_put) (simp add: same_out_def put_bytes_def)
next
  case (Cons a arr)
  let ?x = "align (int (length a))" and ?n = "int (length arr)"
  let ?mem1 = "put_bytes p (a @ [0]) (put_bytes (q + 8 * i) (long_bytes p) mem)"
  have x: "int (length a) + 1 \<le> ?x" using Cons.prems(1) by (intro align_room) simp
  have n: "0 \<le> strings_len arr" by (rule strings_len_nonneg)
  have aw: "away (p + ?x) (strings_len arr) (q + 8 * (i + 1)) (8 * (?n + 1))" using Cons.prems(2) x n by (auto simp: away_def)
  have all: "\<forall>a \<in> set arr. length a mod 8 \<noteq> 0" using Cons.prems(1) by simp
  obtain mem' where m: "copy_loop (Some q) (p + ?x) arr (l + ?x) (i + 1) ?mem1 = (l + ?x + strings_len arr, i + 1 + ?n, mem')"
    and at: "args_at (put_bytes (q + 8 * (i + 1 + ?n)) (long_bytes 0) mem') (q + 8 * (i + 1)) (p + ?x) arr"
    and so: "same_out ?mem1 (put_bytes (q + 8 * (i + 1 + ?n)) (long_bytes 0) mem') (p + ?x) (strings_len arr) (q + 8 * (i + 1)) (8 * (?n + 1))"
    using Cons.IH [OF all aw, of "l + ?x" ?mem1] by blast
  let ?m2 = "put_bytes (q + 8 * (i + 1 + ?n)) (long_bytes 0) mem'"
  have s1: "holds ?mem1 p (a @ [0])" by (rule holds_put)
  have "holds (put_bytes (q + 8 * i) (long_bytes p) mem) (q + 8 * i) (long_bytes p)" by (rule holds_put)
  then have p1: "holds ?mem1 (q + 8 * i) (long_bytes p)"
    using Cons.prems(2) x n by (subst holds_other) (auto simp: away_def)
  have h: "holds ?m2 (q + 8 * i) (long_bytes p)" "holds ?m2 p (a @ [0])"
    using holds_same [OF p1 so] holds_same [OF s1 so] Cons.prems(2) x n by (auto simp: away_def)
  have "same_out mem ?m2 p (strings_len (a # arr)) (q + 8 * i) (8 * (int (length (a # arr)) + 1))"
  proof -
    have "?m2 z = mem z" if z: "\<not> (p \<le> z \<and> z < p + strings_len (a # arr))" "\<not> (q + 8 * i \<le> z \<and> z < q + 8 * i + 8 * (int (length (a # arr)) + 1))" for z
    proof -
      have "?m2 z = ?mem1 z"
        using so z x n unfolding same_out_def by (auto simp: algebra_simps)
      also have "\<dots> = mem z" using z x n by (subst put_same; (subst put_same)?) auto
      finally show ?thesis .
    qed
    then show ?thesis by (simp add: same_out_def)
  qed
  then show ?case using m at h by (simp add: Let_def algebra_simps)
qed

lemma copyarg_into:
  assumes "\<forall>a \<in> set arr. length a mod 8 \<noteq> 0" "away p (strings_len arr) q (8 * (int (length arr) + 1))"
  shows "\<exists>mem'. copyarg (Some q) p arr mem = (strings_len arr, int (length arr), mem') \<and> args_at mem' q p arr \<and>
    same_out mem mem' p (strings_len arr) q (8 * (int (length arr) + 1))"
  using copy_into [of arr p q 0 0 mem] assms by (auto simp: copyarg_def)

section \<open>The stack of a new program\<close>

lemma away_above: "r + m \<le> q \<or> q + n \<le> r \<Longrightarrow> away q n r m"
  by (simp add: away_def)

lemma args_at_same:
  assumes "args_at mem q r arr" "same_out mem mem' p n s m" "\<forall>a \<in> set arr. length a mod 8 \<noteq> 0"
    "away p n q (8 * (int (length arr) + 1))" "away p n r (strings_len arr)" "away s m q (8 * (int (length arr) + 1))" "away s m r (strings_len arr)"
  shows "args_at mem' q r arr"
  using assms
proof (induction arr arbitrary: q r)
  case Nil
  then show ?case using holds_same [of mem q "long_bytes 0" mem' p n s m] by simp
next
  case (Cons a arr)
  let ?x = "align (int (length a))"
  have x: "int (length a) + 1 \<le> ?x" using Cons.prems(3) by (intro align_room) simp
  have n: "0 \<le> strings_len arr" by (rule strings_len_nonneg)
  have "holds mem' q (long_bytes r)"
    using Cons.prems by (intro holds_same [OF _ Cons.prems(2)]) (auto simp: away_def)
  moreover have "holds mem' r (a @ [0])"
    using Cons.prems x n by (intro holds_same [OF _ Cons.prems(2)]) (auto simp: away_def)
  moreover have "args_at mem' (q + 8) (r + ?x) arr"
    using Cons.prems x n by (intro Cons.IH [OF _ Cons.prems(2)]) (auto simp: away_def)
  ultimately show ?case by simp
qed

text \<open>The address of the vectors: below the strings, on a multiple of 16.\<close>

definition sp_of :: "int \<Rightarrow> bytes list \<Rightarrow> bytes list \<Rightarrow> int" where
  "sp_of bp argv envp =
     (let b = bp - strings_len envp - strings_len argv; r = 8 * (int (length argv) + int (length envp) + 3)
      in if (b - r) mod 16 = 0 then b - r else b - r - 8)"

lemma sp_of_bounds: "sp_of bp argv envp + 8 * (int (length argv) + int (length envp) + 3) \<le> bp - strings_len envp - strings_len argv"
  by (simp add: sp_of_def Let_def)

lemma sp_of_aligned:
  assumes "bp mod 8 = 0"
  shows "sp_of bp argv envp mod 16 = 0"
proof -
  have "strings_len envp mod 8 = 0" "strings_len argv mod 8 = 0" by (rule strings_len_nonneg)+
  then show ?thesis using assms unfolding sp_of_def Let_def by (simp split: if_split) presburger
qed

lemma build_eq:
  "build bp argv envp mem =
     (let sp = sp_of bp argv envp; sE = bp - strings_len envp; sA = sE - strings_len argv;
          mem1 = snd (snd (copyarg (Some (sp + 8 + 8 * (int (length argv) + 1))) sE envp mem));
          mem2 = snd (snd (copyarg (Some (sp + 8)) sA argv mem1))
      in (sp, put_bytes sp (long_bytes (int (length argv))) mem2))"
proof -
  have "(x AND 15 \<noteq> 0) = (x mod 16 \<noteq> 0)" for x :: int
  proof -
    have "x AND 15 = take_bit 4 x" by (simp add: take_bit_eq_mask mask_eq_exp_minus_1)
    then show ?thesis by (simp add: take_bit_int_def)
  qed
  then show ?thesis
    by (simp add: build_def copyarg_count Let_def split_beta sp_of_def algebra_simps)
qed

text \<open>
  C22. The stack that \<open>execve\<close> builds: the stack pointer is a multiple of 16; at it stand the number of arguments, the pointers to the arguments, a null
  pointer, the pointers to the environment and a null pointer, and behind each pointer the string it was made of, with its terminator. What lies
  above the old stack pointer is as it was. The strings must not have a length that is a multiple of eight.
\<close>

theorem exec_stack:
  assumes "\<forall>a \<in> set (argv @ envp). length a mod 8 \<noteq> 0" "bp mod 8 = 0"
  shows "\<exists>sp mem' pa pe. build bp argv envp mem = (sp, mem') \<and> sp mod 16 = 0 \<and> sp < bp \<and>
    holds mem' sp (long_bytes (int (length argv))) \<and> args_at mem' (sp + 8) pa argv \<and>
    args_at mem' (sp + 8 + 8 * (int (length argv) + 1)) pe envp \<and> (\<forall>z \<ge> bp. mem' z = mem z)"
proof -
  define sp where "sp = sp_of bp argv envp"
  define sE where "sE = bp - strings_len envp"
  define sA where "sA = sE - strings_len argv"
  define qA where "qA = sp + 8"
  define qE where "qE = qA + 8 * (int (length argv) + 1)"
  have b: "qE + 8 * (int (length envp) + 1) \<le> sA" using sp_of_bounds [of bp argv envp] by (simp add: sA_def sE_def qE_def qA_def sp_def)
  have l: "0 \<le> strings_len argv" "0 \<le> strings_len envp" by (rule strings_len_nonneg)+
  have r: "sA + strings_len argv = sE" "sE + strings_len envp = bp" by (simp_all add: sA_def sE_def)
  have allE: "\<forall>a \<in> set envp. length a mod 8 \<noteq> 0" and allA: "\<forall>a \<in> set argv. length a mod 8 \<noteq> 0" using assms(1) by simp_all
  have awE: "away sE (strings_len envp) qE (8 * (int (length envp) + 1))" using b r l by (simp add: away_def)
  obtain mem1 where m1: "copyarg (Some qE) sE envp mem = (strings_len envp, int (length envp), mem1)" "args_at mem1 qE sE envp"
      "same_out mem mem1 sE (strings_len envp) qE (8 * (int (length envp) + 1))"
    using copyarg_into [OF allE awE, of mem] by blast
  have awA: "away sA (strings_len argv) qA (8 * (int (length argv) + 1))" using b by (simp add: away_def qE_def)
  obtain mem2 where m2: "copyarg (Some qA) sA argv mem1 = (strings_len argv, int (length argv), mem2)" "args_at mem2 qA sA argv"
      "same_out mem1 mem2 sA (strings_len argv) qA (8 * (int (length argv) + 1))"
    using copyarg_into [OF allA awA, of mem1] by blast
  have e2: "args_at mem2 qE sE envp" using b r l by (intro args_at_same [OF m1(2) m2(3) allE]) (auto simp: away_def qE_def)
  define mem' where "mem' = put_bytes sp (long_bytes (int (length argv))) mem2"
  have bd: "build bp argv envp mem = (sp, mem')"
    unfolding build_eq Let_def sp_def [symmetric] qA_def [symmetric] qE_def [symmetric] sE_def [symmetric] sA_def [symmetric]
    by (simp only: m1(1) m2(1) snd_conv mem'_def)
  have "args_at mem' qA sA argv" unfolding mem'_def
    using m2(2) allA b r l by (subst args_at_other) (auto simp: away_def qE_def qA_def)
  moreover have "args_at mem' qE sE envp" unfolding mem'_def
    using e2 allE b r l by (subst args_at_other) (auto simp: away_def qE_def qA_def)
  moreover have "holds mem' sp (long_bytes (int (length argv)))" unfolding mem'_def by (rule holds_put)
  moreover have lt: "sp + 8 \<le> sA" "sA \<le> bp" using b r l by (simp_all add: qE_def qA_def)
  moreover have "mem' z = mem z" if "bp \<le> z" for z
  proof -
    have "mem' z = mem2 z" unfolding mem'_def using that lt by (intro put_same) simp
    also have "\<dots> = mem1 z" using m2(3) that b r l unfolding same_out_def qE_def by fastforce
    also have "\<dots> = mem z" using m1(3) that b r l unfolding same_out_def by fastforce
    finally show ?thesis .
  qed
  moreover have "sp mod 16 = 0" unfolding sp_def using assms(2) by (rule sp_of_aligned)
  ultimately show ?thesis using bd unfolding qE_def qA_def by fastforce
qed

text \<open>
  An argument whose length is a multiple of eight loses its terminator: no room is left for it, and the next argument is written over
  it, so that the program sees the two strings as one. Here are two arguments and an empty environment.
\<close>

theorem exec_arguments_merge:
  assumes "length a mod 8 = 0" "length b mod 8 \<noteq> 0"
  shows "\<exists>sp mem' p. build bp [a, b] [] mem = (sp, mem') \<and> holds mem' (sp + 8) (long_bytes p) \<and> holds mem' p (a @ b @ [0])"
proof -
  define sp where "sp = sp_of bp [a, b] []"
  define p where "p = bp - strings_len [a, b]"
  define q where "q = sp + 8"
  let ?x = "int (length a)" and ?y = "align (int (length b))"
  have x: "align ?x = ?x" using assms(1) by (intro align_whole) presburger
  have y: "int (length b) + 1 \<le> ?y" using assms(2) by (rule align_room)
  have bnd: "q + 32 \<le> p" using sp_of_bounds [of bp "[a, b]" "[]"] by (simp add: q_def p_def sp_def)
  have e: "copyarg (Some (sp + 8 + 8 * (int (length [a, b]) + 1))) bp [] mem = (0, 0, put_bytes (sp + 32) (long_bytes 0) mem)"
    by (simp add: copyarg_def add.commute)
  let ?m0 = "put_bytes (sp + 32) (long_bytes 0) mem"
  let ?m1 = "put_bytes p (a @ [0]) (put_bytes q (long_bytes p) ?m0)"
  let ?m2 = "put_bytes (p + ?x) (b @ [0]) (put_bytes (q + 8) (long_bytes (p + ?x)) ?m1)"
  let ?m3 = "put_bytes (q + 16) (long_bytes 0) ?m2"
  define mem' where "mem' = put_bytes sp (long_bytes 2) ?m3"
  have bd: "build bp [a, b] [] mem = (sp, mem')"
    unfolding build_eq Let_def sp_def [symmetric] using e
    by (simp add: mem'_def copyarg_def p_def q_def x Let_def algebra_simps)
  have "holds ?m1 p a" using holds_put [of p "a @ [0]"] by (auto simp: holds_def nth_append)
  then have pa: "holds mem' p a" using bnd by (simp add: mem'_def holds_other q_def)
  have pb: "holds mem' (p + ?x) (b @ [0])" using bnd holds_put [of "p + ?x" "b @ [0]"] by (simp add: mem'_def holds_other q_def)
  have "holds ?m1 q (long_bytes p)" using bnd holds_put [of q "long_bytes p"] by (simp add: holds_other)
  then have pq: "holds mem' q (long_bytes p)" using bnd by (simp add: mem'_def holds_other q_def)
  have "holds mem' p (a @ b @ [0])"
    unfolding holds_def
  proof (intro allI impI)
    fix j assume j: "j < length (a @ b @ [0])"
    show "mem' (p + int j) = (a @ b @ [0]) ! j"
    proof (cases "j < length a")
      case True
      then show ?thesis using pa by (simp add: holds_def nth_append)
    next
      case False
      define k where "k = j - length a"
      have k: "j = length a + k" "k < length (b @ [0])" using False j by (simp_all add: k_def)
      have "mem' (p + ?x + int k) = (b @ [0]) ! k" using pb k(2) unfolding holds_def by blast
      then show ?thesis by (simp add: k(1) nth_append add.assoc)
    qed
  qed
  then show ?thesis using bd pq by (auto simp: q_def)
qed

theorem exec_stack_witness:
  "\<exists>sp mem' pa pe. build 4096 [[65], [66, 67]] [[68]] (\<lambda>_. 0) = (sp, mem') \<and> sp mod 16 = 0 \<and> holds mem' sp (long_bytes 2) \<and>
    args_at mem' (sp + 8) pa [[65], [66, 67]] \<and> args_at mem' (sp + 32) pe [[68]]"
  using exec_stack [of "[[65], [66, 67]]" "[[68]]" 4096 "\<lambda>_. 0"] by (simp add: algebra_simps) (elim exE conjE, intro exI conjI, assumption+)

theorem exec_arguments_merge_witness:
  "\<exists>sp mem' p. build 4096 [[1, 2, 3, 4, 5, 6, 7, 8], [9]] [] (\<lambda>_. 0) = (sp, mem') \<and> holds mem' (sp + 8) (long_bytes p) \<and>
    holds mem' p [1, 2, 3, 4, 5, 6, 7, 8, 9, 0]"
  using exec_arguments_merge [of "[1, 2, 3, 4, 5, 6, 7, 8]" "[9]" 4096 "\<lambda>_. 0"] by simp

end
