(* ===== verification/Device.thy ===== *)
theory Device
  imports Prelude
begin

unbundle bit_operations_syntax

text \<open>
  kernel/dev.c and kernel/dev/disk/part.c: the registry of devices and partitions as parts of a disk. A \<open>devst_t\<close> is named by its address; \<open>dr_root\<close> is
  the list \<open>root\<close> and \<open>d_subdev\<close> the list of the devices that belong to one, from the head on. The operations of a device are arguments of the
  calls that use them.
\<close>

section \<open>State\<close>

record devst =
  d_name :: string
  d_type :: int
  d_subtype :: int
  d_major :: u32
  d_minor :: u32
  d_subdev :: "nat list"
  d_ptoff :: u64
  d_ptend :: u64

record devreg =
  dr_devs :: "nat \<Rightarrow> devst"
  dr_root :: "nat list"
  dr_total :: u32

definition set_dev :: "nat \<Rightarrow> devst \<Rightarrow> devreg \<Rightarrow> devreg" where
  "set_dev n d s = s\<lparr>dr_devs := (dr_devs s)(n := d)\<rparr>"

definition DEV_BLK :: int where "DEV_BLK = 2"
definition DEV_PART :: int where "DEV_PART = 11"

section \<open>The registry\<close>

text \<open>\<open>dev_new\<close>: \<open>d\<close> is what \<open>malloc\<close> returns.\<close>

definition dev_new :: "devst \<Rightarrow> devst" where
  "dev_new d = d\<lparr>d_major := 0, d_minor := 0\<rparr>"

text \<open>
  The next number: for a part of a device the one after the newest part. The \<open>next\<close> of an empty list is the list in the device itself, so
  the first part is numbered after the device.
\<close>

definition applyid :: "nat option \<Rightarrow> devreg \<Rightarrow> u32 \<times> devreg" where
  "applyid prt s =
     (case prt of
        None \<Rightarrow> (dr_total s, s\<lparr>dr_total := dr_total s + 1\<rparr>)
      | Some p \<Rightarrow> (d_minor (dr_devs s (hd (d_subdev (dr_devs s p) @ [p]))) + 1, s))"

definition dev_register :: "nat option \<Rightarrow> nat \<Rightarrow> devreg \<Rightarrow> devreg" where
  "dev_register prt dev s =
     (case prt of
        Some p \<Rightarrow>
          let s1 = set_dev dev ((dr_devs s dev)\<lparr>d_major := d_major (dr_devs s p)\<rparr>) s;
              s2 = (if d_minor (dr_devs s1 dev) = 0
                    then set_dev dev ((dr_devs s1 dev)\<lparr>d_minor := fst (applyid (Some p) s1)\<rparr>) s1 else s1)
          in set_dev p ((dr_devs s2 p)\<lparr>d_subdev := dev # d_subdev (dr_devs s2 p)\<rparr>) s2
      | None \<Rightarrow>
          let s1 = (if d_major (dr_devs s dev) = 0
                    then set_dev dev ((dr_devs s dev)\<lparr>d_major := fst (applyid None s)\<rparr>) (snd (applyid None s)) else s);
              s2 = set_dev dev ((dr_devs s1 dev)\<lparr>d_minor := 1, d_subdev := []\<rparr>) s1
          in s2\<lparr>dr_root := dev # dr_root s2\<rparr>)"

definition dev_lookup_name :: "string \<Rightarrow> devreg \<Rightarrow> nat option" where
  "dev_lookup_name name s = List.find (\<lambda>n. d_name (dr_devs s n) = name) (dr_root s)"

fun lookup_type_loop :: "int \<Rightarrow> int \<Rightarrow> nat list \<Rightarrow> devreg \<Rightarrow> nat option" where
  "lookup_type_loop subtype idx [] s = None"
| "lookup_type_loop subtype idx (n # ns) s =
     (if d_subtype (dr_devs s n) = subtype
      then (if idx = 0 then Some n else lookup_type_loop subtype (idx - 1) ns s)
      else lookup_type_loop subtype idx ns s)"

definition dev_lookup_type :: "int \<Rightarrow> int \<Rightarrow> devreg \<Rightarrow> nat option" where
  "dev_lookup_type subtype idx s = lookup_type_loop subtype idx (dr_root s) s"

fun lookup_nr_loop :: "u32 \<Rightarrow> u32 \<Rightarrow> nat list \<Rightarrow> devreg \<Rightarrow> nat option" where
  "lookup_nr_loop major minor [] s = None"
| "lookup_nr_loop major minor (n # ns) s =
     (if d_major (dr_devs s n) \<noteq> major then lookup_nr_loop major minor ns s
      else if minor = 1 then Some n
      else case List.find (\<lambda>k. d_minor (dr_devs s k) = minor) (d_subdev (dr_devs s n)) of
             Some k \<Rightarrow> Some k
           | None \<Rightarrow> lookup_nr_loop major minor ns s)"

definition dev_lookup_nr :: "u32 \<Rightarrow> u32 \<Rightarrow> devreg \<Rightarrow> nat option" where
  "dev_lookup_nr major minor s = lookup_nr_loop major minor (dr_root s) s"

section \<open>Partitions\<close>

text \<open>
  The limit is the end of the partition on the disk, from which the address inside the partition is taken. \<open>bread\<close> is the operation of the
  disk: the first sector and the number of sectors are what it is asked for.
\<close>

definition part_cnt :: "devst \<Rightarrow> u32 \<Rightarrow> u8 \<Rightarrow> u8" where
  "part_cnt d addr cnt = (if (ucast cnt :: u64) < d_ptend d - ucast addr then cnt else ucast (d_ptend d - ucast addr))"

definition part_read :: "(nat \<Rightarrow> u64 \<Rightarrow> u8 \<Rightarrow> 'r) \<Rightarrow> nat \<Rightarrow> u32 \<Rightarrow> u8 \<Rightarrow> devreg \<Rightarrow> 'r result" where
  "part_read bread dev addr cnt s =
     (case dev_lookup_nr (d_major (dr_devs s dev)) 1 s of
        None \<Rightarrow> Inl BadAccess
      | Some prt \<Rightarrow> Inr (bread prt (ucast addr + d_ptoff (dr_devs s dev)) (part_cnt (dr_devs s dev) addr cnt)))"

definition part_write :: "(nat \<Rightarrow> u64 \<Rightarrow> u8 \<Rightarrow> 'r) \<Rightarrow> nat \<Rightarrow> u32 \<Rightarrow> u8 \<Rightarrow> devreg \<Rightarrow> 'r result" where
  "part_write bwrite dev addr cnt s =
     (case dev_lookup_nr (d_major (dr_devs s dev)) 1 s of
        None \<Rightarrow> Inl BadAccess
      | Some prt \<Rightarrow> Inr (bwrite prt (ucast addr + d_ptoff (dr_devs s dev)) (part_cnt (dr_devs s dev) addr cnt)))"

text \<open>\<open>register_part\<close>: \<open>name\<close> is what \<open>mkname\<close> writes, \<open>d\<close> the memory of the new device at \<open>part\<close>.\<close>

definition register_part :: "nat \<Rightarrow> nat \<Rightarrow> devst \<Rightarrow> string \<Rightarrow> u64 \<Rightarrow> u64 \<Rightarrow> devreg \<Rightarrow> devreg" where
  "register_part disk part d name ptoff ptsiz s =
     dev_register (Some disk) part
       (set_dev part ((dev_new d)\<lparr>d_name := name, d_type := DEV_BLK, d_subtype := DEV_PART, d_ptoff := ptoff, d_ptend := ptoff + ptsiz\<rparr>) s)"

section \<open>Numbers name devices\<close>

text \<open>
  Every device of the list has a major number of its own, and its parts have its major number and minor numbers that fall from the newest to
  the oldest, all above one.
\<close>

definition dev_wf :: "devreg \<Rightarrow> bool" where
  "dev_wf s \<longleftrightarrow> distinct (map (\<lambda>n. d_major (dr_devs s n)) (dr_root s)) \<and>
     (\<forall>n \<in> set (dr_root s). d_minor (dr_devs s n) = 1 \<and>
        sorted_wrt (>) (map (\<lambda>k. d_minor (dr_devs s k)) (d_subdev (dr_devs s n)) @ [1]) \<and>
        (\<forall>k \<in> set (d_subdev (dr_devs s n)). d_major (dr_devs s k) = d_major (dr_devs s n) \<and> k \<notin> set (dr_root s)))"

lemma lookup_nr_loop_skip:
  "major \<notin> (\<lambda>n. d_major (dr_devs s n)) ` set ns \<Longrightarrow> lookup_nr_loop major minor (ns @ ms) s = lookup_nr_loop major minor ms s"
  by (induction ns) auto

lemma lookup_nr_root:
  assumes "distinct (map (\<lambda>n. d_major (dr_devs s n)) (dr_root s))" "n \<in> set (dr_root s)"
  shows "dev_lookup_nr (d_major (dr_devs s n)) minor s =
    (if minor = 1 then Some n else List.find (\<lambda>k. d_minor (dr_devs s k) = minor) (d_subdev (dr_devs s n)))"
proof -
  obtain as bs where r: "dr_root s = as @ n # bs" using assms(2) by (meson split_list)
  then have "d_major (dr_devs s n) \<notin> (\<lambda>n. d_major (dr_devs s n)) ` set as" "d_major (dr_devs s n) \<notin> (\<lambda>n. d_major (dr_devs s n)) ` set bs"
    using assms(1) by auto
  then show ?thesis using lookup_nr_loop_skip [of _ s bs minor "[]"]
    by (simp add: dev_lookup_nr_def r lookup_nr_loop_skip split: option.split)
qed

text \<open>A new part of a device of the list, whose memory is not that of a device of the registry.\<close>

definition fresh_dev :: "nat \<Rightarrow> devreg \<Rightarrow> bool" where
  "fresh_dev k s \<longleftrightarrow> k \<notin> set (dr_root s) \<and> (\<forall>n \<in> set (dr_root s). k \<notin> set (d_subdev (dr_devs s n)))"

definition next_minor :: "nat \<Rightarrow> devreg \<Rightarrow> u32" where
  "next_minor p s = d_minor (dr_devs s (hd (d_subdev (dr_devs s p) @ [p]))) + 1"

lemma register_part_eq:
  assumes "part \<noteq> disk" "part \<notin> set (d_subdev (dr_devs s disk))"
  shows "register_part disk part d name off siz s = s\<lparr>dr_devs := (dr_devs s)
     (part := d\<lparr>d_name := name, d_type := DEV_BLK, d_subtype := DEV_PART, d_ptoff := off, d_ptend := off + siz,
                d_major := d_major (dr_devs s disk), d_minor := next_minor disk s\<rparr>,
      disk := (dr_devs s disk)\<lparr>d_subdev := part # d_subdev (dr_devs s disk)\<rparr>)\<rparr>"
proof -
  have "hd (d_subdev (dr_devs s disk) @ [disk]) \<noteq> part" using assms by (cases "d_subdev (dr_devs s disk)") auto
  then show ?thesis using assms
    by (simp add: register_part_def dev_register_def set_dev_def dev_new_def applyid_def next_minor_def Let_def fun_upd_twist)
qed

lemma word_up: "(x :: u32) + 1 \<noteq> 0 \<Longrightarrow> x < x + 1"
  by (simp add: word_less_nat_alt unatSuc add.commute)

lemma next_minor_above:
  assumes "dev_wf s" "disk \<in> set (dr_root s)" "next_minor disk s \<noteq> 0"
  shows "sorted_wrt (>) (next_minor disk s # map (\<lambda>k. d_minor (dr_devs s k)) (d_subdev (dr_devs s disk)) @ [1])"
proof -
  let ?ms = "map (\<lambda>k. d_minor (dr_devs s k)) (d_subdev (dr_devs s disk)) @ [1]"
  have w: "sorted_wrt (>) ?ms" "d_minor (dr_devs s disk) = 1" using assms(1,2) by (auto simp: dev_wf_def)
  have h: "next_minor disk s = hd ?ms + 1" using w(2) by (cases "d_subdev (dr_devs s disk)") (simp_all add: next_minor_def)
  then have up: "hd ?ms < next_minor disk s" using word_up assms(3) by simp
  have "x \<le> hd ?ms" if "x \<in> set ?ms" for x
    using that w(1) by (cases ?ms) (auto intro: less_imp_le)
  then show ?thesis using w(1) up by (auto intro: le_less_trans)
qed

lemma find_minor:
  assumes "sorted_wrt (>) (map (\<lambda>k. d_minor (dr_devs s k)) ks)" "k \<in> set ks"
  shows "List.find (\<lambda>j. d_minor (dr_devs s j) = d_minor (dr_devs s k)) ks = Some k"
  using assms by (induction ks) auto

text \<open>What the registry looks like after a part was added: only the new device and the list of its disk differ.\<close>

definition part_added :: "nat \<Rightarrow> nat \<Rightarrow> devreg \<Rightarrow> devreg \<Rightarrow> bool" where
  "part_added disk part s t \<longleftrightarrow> dr_root t = dr_root s \<and>
     d_major (dr_devs t part) = d_major (dr_devs s disk) \<and> d_minor (dr_devs t part) = next_minor disk s \<and>
     d_subdev (dr_devs t disk) = part # d_subdev (dr_devs s disk) \<and>
     (\<forall>n. n \<noteq> part \<longrightarrow> d_major (dr_devs t n) = d_major (dr_devs s n) \<and> d_minor (dr_devs t n) = d_minor (dr_devs s n)) \<and>
     (\<forall>n. n \<noteq> part \<longrightarrow> n \<noteq> disk \<longrightarrow> d_subdev (dr_devs t n) = d_subdev (dr_devs s n))"

lemma register_part_added:
  assumes "disk \<in> set (dr_root s)" "fresh_dev part s"
  shows "part_added disk part s (register_part disk part d name off siz s)"
proof -
  have "part \<noteq> disk" "part \<notin> set (d_subdev (dr_devs s disk))" using assms by (auto simp: fresh_dev_def)
  then show ?thesis by (simp add: register_part_eq part_added_def)
qed

lemma part_added_minors:
  assumes "fresh_dev part s" "part_added disk part s t" "n \<in> set (dr_root s)"
  shows "map (\<lambda>k. d_minor (dr_devs t k)) (d_subdev (dr_devs s n)) = map (\<lambda>k. d_minor (dr_devs s k)) (d_subdev (dr_devs s n))"
  using assms by (auto simp: fresh_dev_def part_added_def)

lemma part_added_wf:
  assumes "dev_wf s" "disk \<in> set (dr_root s)" "fresh_dev part s" "next_minor disk s \<noteq> 0" "part_added disk part s t"
  shows "dev_wf t"
proof -
  note p = assms(5) [unfolded part_added_def]
  have np: "part \<notin> set (dr_root s)" using assms(3) by (simp add: fresh_dev_def)
  have mj: "map (\<lambda>n. d_major (dr_devs t n)) (dr_root t) = map (\<lambda>n. d_major (dr_devs s n)) (dr_root s)"
    using p np by (auto intro!: map_cong)
  have root: "d_minor (dr_devs t n) = 1 \<and> sorted_wrt (>) (map (\<lambda>k. d_minor (dr_devs t k)) (d_subdev (dr_devs t n)) @ [1]) \<and>
      (\<forall>k \<in> set (d_subdev (dr_devs t n)). d_major (dr_devs t k) = d_major (dr_devs t n) \<and> k \<notin> set (dr_root t))"
    if n: "n \<in> set (dr_root s)" for n
  proof -
    have w: "d_minor (dr_devs s n) = 1" "sorted_wrt (>) (map (\<lambda>k. d_minor (dr_devs s k)) (d_subdev (dr_devs s n)) @ [1])"
        "\<forall>k \<in> set (d_subdev (dr_devs s n)). d_major (dr_devs s k) = d_major (dr_devs s n) \<and> k \<notin> set (dr_root s)"
      using assms(1) n by (auto simp: dev_wf_def)
    have nn: "n \<noteq> part" "part \<notin> set (d_subdev (dr_devs s n))" using n assms(3) by (auto simp: fresh_dev_def)
    have mm: "map (\<lambda>k. d_minor (dr_devs t k)) (d_subdev (dr_devs s n)) = map (\<lambda>k. d_minor (dr_devs s k)) (d_subdev (dr_devs s n))"
      using part_added_minors [OF assms(3,5) n] .
    have maj: "\<forall>k \<in> set (d_subdev (dr_devs s n)). d_major (dr_devs t k) = d_major (dr_devs t n) \<and> k \<notin> set (dr_root t)"
      using w(3) nn p by metis
    show ?thesis
    proof (cases "n = disk")
      case True
      then have sub: "d_subdev (dr_devs t n) = part # d_subdev (dr_devs s n)" "d_minor (dr_devs t part) = next_minor n s"
          "d_major (dr_devs t part) = d_major (dr_devs t n)" "d_minor (dr_devs t n) = 1" "part \<notin> set (dr_root t)"
        using p nn w(1) np by simp_all
      show ?thesis unfolding sub(1) list.map append_Cons mm sub(2) using next_minor_above [OF assms(1,2,4)] True sub(3-5) maj by simp
    next
      case False
      then have sub: "d_subdev (dr_devs t n) = d_subdev (dr_devs s n)" "d_minor (dr_devs t n) = 1" using p nn w(1) by simp_all
      show ?thesis unfolding sub(1) mm using sub(2) w(2) maj by simp
    qed
  qed
  have rt: "dr_root t = dr_root s" using p by blast
  have "distinct (map (\<lambda>n. d_major (dr_devs t n)) (dr_root t))" unfolding mj using assms(1) dev_wf_def by blast
  moreover have "\<forall>n \<in> set (dr_root t). d_minor (dr_devs t n) = 1 \<and> sorted_wrt (>) (map (\<lambda>k. d_minor (dr_devs t k)) (d_subdev (dr_devs t n)) @ [1]) \<and>
      (\<forall>k \<in> set (d_subdev (dr_devs t n)). d_major (dr_devs t k) = d_major (dr_devs t n) \<and> k \<notin> set (dr_root t))"
    using root by (simp only: rt) (rule ballI)
  ultimately show ?thesis unfolding dev_wf_def by (rule conjI)
qed

lemma part_added_lookup:
  assumes "fresh_dev part s" "part_added disk part s t" "set ns \<subseteq> set (dr_root s)"
    "(major, minor) \<noteq> (d_major (dr_devs s disk), next_minor disk s)"
  shows "lookup_nr_loop major minor ns t = lookup_nr_loop major minor ns s"
  using assms(3)
proof (induction ns)
  case (Cons n ns)
  note p = assms(2) [unfolded part_added_def]
  have n: "n \<in> set (dr_root s)" "n \<noteq> part" using Cons.prems assms(1) by (auto simp: fresh_dev_def)
  have f: "List.find (\<lambda>k. d_minor (dr_devs t k) = minor) (d_subdev (dr_devs s n)) = List.find (\<lambda>k. d_minor (dr_devs s k) = minor) (d_subdev (dr_devs s n))"
    using part_added_minors [OF assms(1,2) n(1)] by (intro find_cong) (auto simp: map_eq_conv)
  have "d_major (dr_devs s n) = major \<Longrightarrow>
      List.find (\<lambda>k. d_minor (dr_devs t k) = minor) (d_subdev (dr_devs t n)) = List.find (\<lambda>k. d_minor (dr_devs s k) = minor) (d_subdev (dr_devs s n))"
    using f p n(2) assms(4) by (cases "n = disk") auto
  then show ?case using Cons p n(2) by (simp split: option.split)
qed simp

text \<open>
  Partitions and their numbers: when a partition is registered for a disk of the registry, the registry stays well formed, the partition has the
  next minor number of the disk and is found by its device number, and every other number leads where it led before.
\<close>

theorem register_part_found:
  assumes "dev_wf s" "disk \<in> set (dr_root s)" "fresh_dev part s" "next_minor disk s \<noteq> 0" "t = register_part disk part d name off siz s"
  shows "dev_wf t \<and> dev_lookup_nr (d_major (dr_devs s disk)) (next_minor disk s) t = Some part \<and>
    (\<forall>major minor. (major, minor) \<noteq> (d_major (dr_devs s disk), next_minor disk s) \<longrightarrow> dev_lookup_nr major minor t = dev_lookup_nr major minor s)"
proof -
  have a: "part_added disk part s t" unfolding assms(5) using assms(2,3) by (rule register_part_added)
  note p = a [unfolded part_added_def]
  have w: "dev_wf t" using assms(1-4) a by (rule part_added_wf)
  have "1 < next_minor disk s" using next_minor_above [OF assms(1,2,4)] by simp
  then have "next_minor disk s \<noteq> 1" by simp
  moreover have "disk \<noteq> part" using assms(2,3) by (auto simp: fresh_dev_def)
  ultimately have "dev_lookup_nr (d_major (dr_devs s disk)) (next_minor disk s) t = Some part"
    using lookup_nr_root [of t disk "next_minor disk s"] w p assms(2) by (simp add: dev_wf_def)
  moreover have "dev_lookup_nr major minor t = dev_lookup_nr major minor s"
    if "(major, minor) \<noteq> (d_major (dr_devs s disk), next_minor disk s)" for major minor
    using part_added_lookup [OF assms(3) a subset_refl that] p by (simp add: dev_lookup_nr_def)
  ultimately show ?thesis using w by blast
qed

text \<open>
  A partition is no boundary: the first sector behind it can be read through it, as long as its distance from the start of
  the disk is larger than the number of sectors asked for.
\<close>

theorem part_read_escapes:
  assumes "dev_lookup_nr (d_major (dr_devs s part)) 1 s = Some disk" "d_ptend (dr_devs s part) = d_ptoff (dr_devs s part) + ucast siz"
    and "(ucast cnt :: u64) < d_ptoff (dr_devs s part)"
  shows "part_read bread part siz cnt s = Inr (bread disk (d_ptend (dr_devs s part)) cnt)"
  using assms by (simp add: part_read_def part_cnt_def add.commute)

section \<open>Examples\<close>

definition demo_dev :: devst where
  "demo_dev = \<lparr>d_name = ''hda'', d_type = DEV_BLK, d_subtype = 10, d_major = 7, d_minor = 1, d_subdev = [], d_ptoff = 0, d_ptend = 0\<rparr>"

definition demo_reg :: devreg where
  "demo_reg = \<lparr>dr_devs = (\<lambda>_. demo_dev), dr_root = [1], dr_total = 8\<rparr>"

theorem register_part_found_witness:
  "dev_lookup_nr 7 2 (register_part 1 2 demo_dev ''hda1'' 2048 1000 demo_reg) = Some 2 \<and>
    dev_lookup_nr 7 1 (register_part 1 2 demo_dev ''hda1'' 2048 1000 demo_reg) = dev_lookup_nr 7 1 demo_reg"
  using register_part_found [of demo_reg 1 2 _ demo_dev "''hda1''" 2048 1000]
  by (simp add: demo_reg_def demo_dev_def dev_wf_def fresh_dev_def next_minor_def)

theorem part_read_escapes_witness:
  "part_read (\<lambda>prt lba cnt. (prt, lba, cnt)) 2 1000 4 (register_part 1 2 demo_dev ''hda1'' 2048 1000 demo_reg) = Inr (1, 3048, 4)"
  using part_read_escapes [of "register_part 1 2 demo_dev ''hda1'' 2048 1000 demo_reg" 2 1 1000 4 "\<lambda>prt lba cnt. (prt, lba, cnt)"]
  by (simp add: register_part_eq demo_reg_def demo_dev_def dev_lookup_nr_def)

end
