(* ===== verification/Spec2Isabelle.thy ===== *)
theory Spec2Isabelle
  imports Bitmap Klist Tty Sched_Live Ids Signal Tcp_Props Pipe Heap Calendar Vmm Path_Calls Minix_Remove Minix_Dir Dgram Vsprintf Mbuf Ktimer Exec Device
begin

text \<open>
  TextOS is a small Unix-like kernel for x86-64 (src/src/kernel) with a C library and user programs (src/src/app) and
  a UEFI loader (src/src/boot). This library models the kernel's own logic and proves what makes it correct; where the
  code does something else than its comments, its callers or POSIX expect, a theorem shows what it does.

  \<^bold>\<open>How the code is translated.\<close> A structure is a record, an enumeration a datatype, a machine integer a word of its width
  (\<open>u8\<close> to \<open>u64\<close> in Prelude) wherever overflow can matter. A function that changes state takes the state and returns it. A
  routine that can stop the kernel returns a \<open>result\<close>: \<open>Inl\<close> with the reason (a failed ASSERTK, a PANIC, a
  load or store through a pointer to nothing, a loop that does not return), else \<open>Inr\<close>. An error number is an ordinary,
  negative value, as in the code. Structures reached through pointers live in a map from addresses, so aliasing and dangling
  pointers are part of the model where a statement depends on them (lists, trees, nodes, open files, page tables, heap blocks). What
  \<open>malloc\<close> or an uninitialised variable holds is a field of the state with an arbitrary value. Code outside the modelled
  files is an argument (the operations of a file system for Vfs and File, what a user writes through a mapping for Vmm).

  \<^bold>\<open>Theories, from the bottom up.\<close>

  \<^item> Prelude: types, \<open>result\<close>, error numbers, lemmas on words, cyclic buffers and sequences kept in blocks.
  Transition: reachability and the locale \<open>keeps\<close> of an invariant; every state machine below interprets it.

  \<^item> Kernel library (kernel/klib): Bitmap (bitmap.c) with the allocator contract Id_Alloc; Klist (list.c), circular lists as a store
  of links, refined to sequences; Fifo (fifo.c) and the queue contracts of Queue_Spec_Bytes, which the terminal buffer
  interprets too; Calendar (time.c); Rbtree and Rbtree_Del (rbtree.c); Kstring (string.c), Hlist (hlist.c and htable.c),
  Vsprintf (vsprintf.c, formatted output).

  \<^item> Memory (kernel/mm): Pmm (pmm.c, free ranges of pages), Paging (map.c, the page tables read and written
  through the recursive window, against the walk of the processor), Vmm (vmm.c, pvpage.c, the anonymous part of mman.c), Heap (heap.c).

  \<^item> Tasks: Task (the table and the operations of kernel/task.c), Sched and Sched_Live (the switch, fairness, wait and exit), Ids
  (credentials, groups, sessions), Signal (kernel/signal.c and the frame that its two callers in assembly pass), Lock (kernel/lock.c), Ktimer (kernel/ktimer.c, on the lists of Klist), Exec (the stack of
  a new program in kernel/user/exec.c).

  \<^item> Terminals (kernel/dev/tty): Tty_Buffer (tty_buffer.c), Tty (tty.c, the line discipline).

  \<^item> Files: Vfs (kernel/fs/vrt.c, mnt.c, fs/inter.h), File (kernel/file.c, descriptors, with the tables of several tasks and \<open>fork_fd\<close> of task.c), Pipe (kernel/fs/pipe.c), Tmpfs
  (kernel/fs/phy/tmpfs.c), Byte_File (the contract of a file that is a sequence of bytes, and the system calls as its client),
  Tmpfs_File (tmpfs meets the contract); Dirent (directory listing in kernel/file.c and the loop of app/ls.c, over the
  contract \<open>dir_lister\<close> of a file system whose entries fit into the buffer), Tmpfs_Dir (tmpfs meets it); Path_Calls (stat, mkdir, getcwd and the
  other system calls on paths).

  \<^item> Disks: Devno (device numbers of dev.h), Device (kernel/dev.c, the registry of devices, and kernel/dev/disk/part.c), Buffer (kernel/dev/disk/buffer.c, the cache of blocks, with the contract
  \<open>block_store\<close> of blocks that are taken, changed and released and its extension \<open>held_store\<close>), Minix (kernel/fs/phy/minix.c), Minix_Disk (the bitmaps and the inode
  table on the disk), Minix_File (a minix file meets the contract of Byte_File as long as it needs no indirect block), Minix_Dir (a minix directory of one block meets the contract of Dirent), Minix_Remove
  (giving zones back, and that removing a file ends in a fault).

  \<^item> Network (kernel/net): Net (headers and checksums of net.c, ip.c, tcp.c), Tcp (socket/tcp.c), Tcp_Props; Arp (arp.c and
  the Ethernet layer of kernel/dev/nic/nic.c), Icmp (icmp.c), Dgram (socket/udp.c, udp.c, socket/raw.c, and the way of a received frame to the sockets);
  Mbuf (kernel/dev/nic/mbuf.c, the buffers of packets and their pool, with the contract \<open>packet_buffer\<close> by which a packet is its bytes).

  \<^bold>\<open>How the parts meet.\<close> Task is the state of Ids, Signal and the scheduler. Vmm calls Pmm and Paging and the bitmap; its pages
  being private to each call is what Tmpfs relies on when it keeps the memory of a page in the page's descriptor. Vfs takes the
  operations of a file system as arguments, File takes a table of them; \<open>tmpfs_ops\<close> in Tmpfs_File is such a table made of the
  model of tmpfs, and the theorems there run from the system call through the descriptor table and the file
  system down to the red-black tree of pages. \<open>minix_ops\<close> in Minix_File is the same table made of the model of minix, whose theorems
  run through the zones of a file and the buffer cache down to the sectors of a device. Tcp uses Net for its segments; Dgram and
  Icmp send through Net and Arp down to the frames on the wire and receive through the same layers. Pipe and Tty block and wake tasks by number.

  \<^bold>\<open>What the lemmas show.\<close> Invariants over all reachable states: the task table, the heap, the lists of free
  pages, page frames handed out, locks, pipes, descriptor tables, packet buffers, TCP connections. Refinements: lists and queues to sequences, signal
  sets to sets, page tables to the walk of the processor, balanced trees to ordered lists with searches of logarithmic length, hash lists to sequences per bucket, files to byte sequences. Liveness: a
  ready task runs, a parent gets the exit value, the TCP handshake completes, a pipe delivers, a hardware address is found, a timer
  fires. Round trips: packets,
  datagrams, dates, printed numbers, terminal lines, signal frames, paths, files, blocks, inodes, directory listings. Error behaviour: what fails and what is left unchanged, and the places
  where the code goes wrong; those are stated as theorems about the code as it is.

  \<^bold>\<open>Bounds and fuel.\<close> Loops with a decreasing measure are total functions. The search loop of \<open>malloc\<close> has the heap's size as
  fuel, which every block shortens by at least its header; \<open>vfs_getpath\<close> has the number of nodes on the way as fuel and its theorem
  asks for one more than the length of the path; the receive and accept loops of TCP take the number of wake-ups.
  Loops over linked nodes in Rbtree and Tmpfs are partial functions into \<open>option\<close>, \<open>None\<close> meaning that they do not return; the theorems
  prove that they return. Files in tmpfs are bounded by \<open>2 ^ 31\<close> bytes where a result is a C int; files on a minix disk by the seven
  direct zones, \<open>7168\<close> bytes, since the code stores indirect zones where it does not look for them. Block numbers on a
  disk are below \<open>2 ^ 18\<close>, so that the sector numbers of the code, which are C ints, do not overflow.

  \<^bold>\<open>What the statements take for granted.\<close> Where the code reads memory it never set, the statement says what is taken to be there: the \<open>next\<close> of
  the last node of the list of free pages (Pmm), the mount bit of a new tmpfs node (Path_Calls). Where the code is wrong outside
  some range, the statement is for the range and another theorem or the text beside it says what happens outside: files beyond their direct
  zones, listings longer than the buffer, a backlog with more than one place, raw sockets that take a request, signals on the way out of an interrupt.

  \<^bold>\<open>Not modelled.\<close> Drivers, interrupt and boot code (port and memory-mapped I/O, firmware calls, assembly); the console and
  serial output; the ACPI interpreter under kernel/lai, which is third-party code; user programs and the C library;
  fat32 and procfs; the partition table; loading the segments of an executable; the calls that lead from a descriptor to a socket; the partition scan at boot;
  the copy of page tables for fork; the translation cache of the processor.
\<close>

end
